(* ===== verification/Prelude.thy ===== *)
theory Prelude
  imports Main "HOL-Library.Word" "HOL-Library.Multiset"
begin

unbundle bit_operations_syntax

text \<open>
  The shared vocabulary of the development: the fixed-width integer types of
  \<^verbatim>\<open>src/src/global_types.h\<close>, the result type in which every assertion failure and
  every undefined access of the C++ code is a value, checked array access, and the generic
  facts on lists, words and maps that the component theories use.
\<close>

section \<open>Integer types\<close>

text \<open>
  The unsigned types are words of their width, so arithmetic wraps as in C++.
  Signed \<^verbatim>\<open>int\<close> fields are mathematical integers: a signed overflow is undefined
  behaviour in C++, and the counters modelled here are shown to stay within configured bounds.
\<close>

type_synonym uns8 = "8 word"
type_synonym uns16 = "16 word"
type_synonym uns32 = "32 word"
type_synonym uns64 = "64 word"
type_synonym Addr = "64 word"
type_synonym Counter = "64 word"

definition ULLONG_MAX :: Counter where
  "ULLONG_MAX = 0xffffffffffffffff"

text \<open>A pointer is an address of the model's store, or \<^verbatim>\<open>NULL\<close>.\<close>

type_synonym addr = nat
type_synonym ptr = "nat option"

section \<open>Errors as values\<close>

text \<open>
  \<open>AssertFailed\<close> is the \<^verbatim>\<open>exit(15)\<close> of \<^verbatim>\<open>ASSERT\<close> and
  \<^verbatim>\<open>ASSERTM\<close> (or the abort of \<^verbatim>\<open>assert\<close>); the other values are accesses whose
  effect C++ leaves undefined: an array index outside its bounds, a null pointer, the front of an
  empty container, a dangling pointer, a division by zero, and \<open>ExitFailure\<close> the explicit \<^verbatim>\<open>exit\<close>. \<open>Diverges\<close> is a loop that
  never ends.
\<close>

datatype sim_error =
    AssertFailed
  | OutOfBounds
  | NullPointer
  | EmptyAccess
  | DanglingPointer
  | ExitFailure
  | DivideByZero
  | Diverges

type_synonym 'a res = "sim_error + 'a"

definition res_bind :: "'a res \<Rightarrow> ('a \<Rightarrow> 'b res) \<Rightarrow> 'b res" where
  "res_bind m f = (case m of Inl e \<Rightarrow> Inl e | Inr x \<Rightarrow> f x)"

definition check :: "bool \<Rightarrow> sim_error \<Rightarrow> 'a res \<Rightarrow> 'a res" where
  "check b e m = (if b then m else Inl e)"

definition is_ok :: "'a res \<Rightarrow> bool" where
  "is_ok m = (case m of Inl _ \<Rightarrow> False | Inr _ \<Rightarrow> True)"

lemma res_bind_simps [simp]:
  "res_bind (Inl e) f = Inl e"
  "res_bind (Inr x) f = f x"
  by (simp_all add: res_bind_def)

lemma check_simps [simp]:
  "check True e m = m"
  "check False e m = Inl e"
  by (simp_all add: check_def)

lemma is_ok_simps [simp]:
  "\<not> is_ok (Inl e)"
  "is_ok (Inr x)"
  by (simp_all add: is_ok_def)

lemma res_bind_eq_Inr: "res_bind m f = Inr y \<longleftrightarrow> (\<exists>x. m = Inr x \<and> f x = Inr y)"
  by (cases m) auto

lemma res_bind_eq_Inl: "res_bind m f = Inl e \<longleftrightarrow> m = Inl e \<or> (\<exists>x. m = Inr x \<and> f x = Inl e)"
  by (cases m) auto

lemma check_eq_Inr: "check b e m = Inr y \<longleftrightarrow> b \<and> m = Inr y"
  by (simp add: check_def)

lemma check_eq_Inl: "check b e m = Inl e' \<longleftrightarrow> (\<not> b \<and> e' = e) \<or> (b \<and> m = Inl e')"
  by (auto simp add: check_def)

lemma res_bind_cong [fundef_cong]:
  "m = m' \<Longrightarrow> (\<And>x. m' = Inr x \<Longrightarrow> f x = f' x) \<Longrightarrow> res_bind m f = res_bind m' f'"
  by (cases m') auto

lemma check_cong [fundef_cong]:
  "b = b' \<Longrightarrow> e = e' \<Longrightarrow> (b' \<Longrightarrow> m = m') \<Longrightarrow> check b e m = check b' e' m'"
  by (simp add: check_def)

lemmas res_simps = res_bind_eq_Inr res_bind_eq_Inl check_eq_Inr check_eq_Inl

section \<open>Checked array access\<close>

definition arr_get :: "'a list \<Rightarrow> nat \<Rightarrow> 'a res" where
  "arr_get xs i = (if i < length xs then Inr (xs ! i) else Inl OutOfBounds)"

definition arr_set :: "'a list \<Rightarrow> nat \<Rightarrow> 'a \<Rightarrow> 'a list res" where
  "arr_set xs i v = (if i < length xs then Inr (xs[i := v]) else Inl OutOfBounds)"

lemma arr_get_in [simp]: "i < length xs \<Longrightarrow> arr_get xs i = Inr (xs ! i)"
  by (simp add: arr_get_def)

lemma arr_get_out [simp]: "length xs \<le> i \<Longrightarrow> arr_get xs i = Inl OutOfBounds"
  by (simp add: arr_get_def)

lemma arr_set_in [simp]: "i < length xs \<Longrightarrow> arr_set xs i v = Inr (xs[i := v])"
  by (simp add: arr_set_def)

lemma arr_set_out [simp]: "length xs \<le> i \<Longrightarrow> arr_set xs i v = Inl OutOfBounds"
  by (simp add: arr_set_def)

lemma arr_get_eq_Inr: "arr_get xs i = Inr v \<longleftrightarrow> i < length xs \<and> v = xs ! i"
  by (auto simp add: arr_get_def)

lemma arr_set_eq_Inr: "arr_set xs i v = Inr ys \<longleftrightarrow> i < length xs \<and> ys = xs[i := v]"
  by (auto simp add: arr_set_def)

section \<open>Loops over a list\<close>

text \<open>A \<^verbatim>\<open>for\<close> loop whose body may fail.\<close>

fun fold_res :: "('a \<Rightarrow> 's \<Rightarrow> 's res) \<Rightarrow> 'a list \<Rightarrow> 's \<Rightarrow> 's res" where
  "fold_res f [] s = Inr s"
| "fold_res f (x # xs) s = res_bind (f x s) (fold_res f xs)"

lemma fold_res_inv:
  assumes "\<And>x s. x \<in> set xs \<Longrightarrow> I s \<Longrightarrow> \<exists>s'. f x s = Inr s' \<and> I s'" "I s"
  shows "\<exists>s'. fold_res f xs s = Inr s' \<and> I s'"
  using assms
proof (induction xs arbitrary: s)
  case Nil
  then show ?case by simp
next
  case (Cons x xs)
  from Cons.prems(1)[of x s] Cons.prems(2) obtain s1 where "f x s = Inr s1" "I s1" by auto
  with Cons.IH[of s1] Cons.prems(1) show ?case by auto
qed

lemma fold_res_append: "fold_res f (xs @ ys) s = res_bind (fold_res f xs s) (fold_res f ys)"
proof (induction xs arbitrary: s)
  case Nil
  then show ?case by simp
next
  case (Cons x xs)
  then show ?case by (cases "f x s") simp_all
qed

section \<open>Collections of facts\<close>

named_theorems inv_intros \<open>preservation of the component invariants\<close>
named_theorems model_defs \<open>definitions of the operations, for unfolding in proofs by computation\<close>

section \<open>Lists\<close>

lemma sum_list_update_int:
  "i < length xs \<Longrightarrow> sum_list (xs[i := v]) = sum_list xs + v - (xs ! i :: int)"
  by (induction xs arbitrary: i) (auto split: nat.split)

lemma sum_list_update_comm:
  "i < length xs \<Longrightarrow> sum_list (xs[i := v]) + xs ! i = sum_list xs + (v :: 'a::comm_monoid_add)"
proof (induction xs arbitrary: i)
  case Nil
  then show ?case by simp
next
  case (Cons x xs)
  show ?case
  proof (cases i)
    case 0
    then show ?thesis by (simp add: ac_simps)
  next
    case (Suc j)
    with Cons.IH[of j] Cons.prems show ?thesis by (simp add: ac_simps)
  qed
qed

lemma concat_update_length:
  "i < length xss \<Longrightarrow>
   length (concat (xss[i := ys])) + length (xss ! i) = length (concat xss) + length ys"
proof (induction xss arbitrary: i)
  case Nil
  then show ?case by simp
next
  case (Cons xs xss)
  then show ?case by (cases i) force+
qed

lemma mset_concat_update:
  "i < length xss \<Longrightarrow>
   mset (concat (xss[i := ys])) + mset (xss ! i) = mset (concat xss) + mset ys"
proof (induction xss arbitrary: i)
  case Nil
  then show ?case by simp
next
  case (Cons xs xss)
  show ?case
  proof (cases i)
    case 0
    then show ?thesis by (simp add: union_ac)
  next
    case (Suc j)
    with Cons.IH[of j] Cons.prems show ?thesis by (simp add: union_ac)
  qed
qed

lemma list_all_update:
  "list_all P xs \<Longrightarrow> P v \<Longrightarrow> list_all P (xs[i := v])"
  by (auto simp add: list_all_iff dest: set_update_subset_insert[THEN subsetD])

section \<open>Circular indices\<close>

lemma mod_offset_inj:
  assumes "c < n" "i < n" "j < n" "(c + i) mod n = (c + j) mod (n::nat)"
  shows "i = j"
  using assms by (auto simp add: mod_if split: if_splits)

section \<open>Words\<close>

lemma unat_and_mask: "unat (w AND mask n) = unat w mod 2 ^ n" for w :: "'a::len word"
  by (metis take_bit_eq_mask unsigned_take_bit_eq take_bit_eq_mod)

lemma unat_drop_bit_div: "unat (drop_bit n w) = unat w div 2 ^ n" for w :: "'a::len word"
  by (metis unat_drop_bit_eq drop_bit_eq_div)

lemma unat_two_power:
  assumes "k < LENGTH('a)"
  shows "unat (2 ^ k :: 'a::len word) = 2 ^ k"
proof -
  have "(2 ^ k :: 'a word) = of_nat (2 ^ k)" by simp
  then have "unat (2 ^ k :: 'a word) = 2 ^ k mod 2 ^ LENGTH('a)" by (simp only: unat_of_nat)
  with assms show ?thesis by (simp add: power_strict_increasing)
qed

end
