(* ===== verification/Utils.thy ===== *)
theory Utils
  imports Prelude "HOL-Library.AList"
begin

text \<open>
  The helpers of \<^verbatim>\<open>src/src/utils.h\<close> and \<^verbatim>\<open>src/src/utils.cc\<close>: the integer
  logarithm and bit scans, the recycling object pool \<^verbatim>\<open>pool_c\<close>, the pooled hash table
  \<^verbatim>\<open>hash_c\<close> and the two-key map \<^verbatim>\<open>multi_key_map_c\<close>.
  The locale \<open>keyed_table\<close> is the interface the register-dependence stage uses of
  \<^verbatim>\<open>hash_c\<close>; it is interpreted on the model of the class.
\<close>

section \<open>Bit helpers\<close>

text \<open>The loop \<^verbatim>\<open>for (power = 0; n >>= 1; ++power)\<close> of \<^verbatim>\<open>log2_int\<close>.\<close>

function log2_loop :: "uns32 \<Rightarrow> uns32 \<Rightarrow> uns32" where
  "log2_loop n pw =
     (let n' = drop_bit 1 n in if n' = 0 then pw else log2_loop n' (pw + 1))"
  by pat_completeness auto
termination
proof (relation "measure (\<lambda>(n, pw). unat n)", goal_cases)
  case 1
  then show ?case by simp
next
  case (2 n pw x)
  have d: "unat (drop_bit 1 n) = unat n div 2" by (simp add: unat_drop_bit_div)
  from 2 have "drop_bit 1 n \<noteq> 0" by simp
  with d have "unat n div 2 \<noteq> 0" by (metis unat_eq_zero)
  with d 2 show ?case by simp
qed

declare log2_loop.simps [simp del]

definition log2_int :: "uns32 \<Rightarrow> uns32" where
  "log2_int n = log2_loop n 0"

definition N_BIT_MASK :: "nat \<Rightarrow> uns64" where
  "N_BIT_MASK n = push_bit n 1 - 1"

fun next_set_bit_loop :: "nat \<Rightarrow> uns64 \<Rightarrow> nat \<Rightarrow> int" where
  "next_set_bit_loop 0 val i = -1"
| "next_set_bit_loop (Suc k) val i =
     (if bit val 0 then int i else next_set_bit_loop k (drop_bit 1 val) (Suc i))"

definition get_next_set_bit64 :: "uns64 \<Rightarrow> nat \<Rightarrow> int" where
  "get_next_set_bit64 val pos = next_set_bit_loop (64 - pos) (drop_bit pos val) pos"

function num_set_bits_loop :: "uns64 \<Rightarrow> int \<Rightarrow> int" where
  "num_set_bits_loop val cnt =
     (if val > 0
      then num_set_bits_loop (drop_bit 1 val) (if val AND 1 \<noteq> 0 then cnt + 1 else cnt)
      else cnt)"
  by pat_completeness auto
termination
proof (relation "measure (\<lambda>(val, cnt). unat val)", goal_cases)
  case 1
  then show ?case by simp
next
  case (2 val cnt)
  then have "unat val \<noteq> 0" by (simp add: word_gt_0 unat_eq_0)
  then show ?case by (simp add: unat_drop_bit_div)
qed

declare num_set_bits_loop.simps [simp del]

definition get_num_set_bits64 :: "uns64 \<Rightarrow> int" where
  "get_num_set_bits64 val = num_set_bits_loop val 0"

section \<open>The object pool\<close>

text \<open>
  \<open>pool_next\<close> is the next address that \<^verbatim>\<open>new\<close> returns: addresses below it have been
  allocated, so the heap behaviour the pool relies on is that \<^verbatim>\<open>new\<close> never returns a
  live address.
\<close>

record pool =
  m_pool :: "addr list"
  m_poolsize :: int
  m_poolexpand_unit :: int
  pool_next :: addr

definition pool_c :: "int \<Rightarrow> pool" where
  "pool_c pool_expand_unit =
     \<lparr>m_pool = [], m_poolsize = 0, m_poolexpand_unit = pool_expand_unit, pool_next = 0\<rparr>"

fun expand_loop :: "nat \<Rightarrow> pool \<Rightarrow> pool" where
  "expand_loop 0 p = p"
| "expand_loop (Suc k) p =
     expand_loop k (p\<lparr>m_pool := m_pool p @ [pool_next p], pool_next := Suc (pool_next p)\<rparr>)"

definition expand_pool :: "pool \<Rightarrow> pool" where
  "expand_pool p =
     (let p' = expand_loop (nat (m_poolexpand_unit p)) p
      in p'\<lparr>m_poolsize := m_poolsize p' + m_poolexpand_unit p'\<rparr>)"

definition acquire_entry :: "pool \<Rightarrow> (addr \<times> pool) res" where
  "acquire_entry p =
     (let p' = (if m_pool p = [] then expand_pool p else p)
      in case m_pool p' of
           [] \<Rightarrow> Inl EmptyAccess
         | a # as \<Rightarrow> Inr (a, p'\<lparr>m_pool := as\<rparr>))"

definition release_entry :: "addr \<Rightarrow> pool \<Rightarrow> pool" where
  "release_entry a p = p\<lparr>m_pool := a # m_pool p\<rparr>"

definition pool_size :: "pool \<Rightarrow> int" where
  "pool_size p = m_poolsize p"

section \<open>The pooled hash table\<close>

text \<open>
  The \<^verbatim>\<open>unordered_map\<close> is an association list with distinct keys; its order stands for
  the (unspecified) iteration order.
\<close>

record hash =
  m_table :: "(uns64 \<times> addr) list"
  h_pool :: pool

definition hash_c :: "pool \<Rightarrow> hash" where
  "hash_c p = \<lparr>m_table = [], h_pool = p\<rparr>"

definition hash_table_access_create :: "uns64 \<Rightarrow> hash \<Rightarrow> (addr \<times> bool \<times> hash) res" where
  "hash_table_access_create key h =
     (case map_of (m_table h) key of
        None \<Rightarrow> res_bind (acquire_entry (h_pool h)) (\<lambda>(a, p).
                 Inr (a, True, h\<lparr>m_table := (key, a) # m_table h, h_pool := p\<rparr>))
      | Some a \<Rightarrow> Inr (a, False, h))"

definition hash_table_access :: "uns64 \<Rightarrow> hash \<Rightarrow> ptr" where
  "hash_table_access key h = map_of (m_table h) key"

definition hash_table_access_delete :: "uns64 \<Rightarrow> hash \<Rightarrow> bool \<times> hash" where
  "hash_table_access_delete key h =
     (case map_of (m_table h) key of
        None \<Rightarrow> (False, h)
      | Some a \<Rightarrow> (True, h\<lparr>m_table := AList.delete key (m_table h),
                          h_pool := release_entry a (h_pool h)\<rparr>))"

definition hash_size :: "hash \<Rightarrow> int" where
  "hash_size h = int (length (m_table h))"

fun clear_loop :: "(uns64 \<times> addr) list \<Rightarrow> pool \<Rightarrow> pool" where
  "clear_loop [] p = p"
| "clear_loop ((k, a) # t) p = clear_loop t (release_entry a p)"

definition hash_clear :: "hash \<Rightarrow> hash" where
  "hash_clear h = h\<lparr>m_table := [], h_pool := clear_loop (m_table h) (h_pool h)\<rparr>"

section \<open>The two-key map\<close>

text \<open>
  The sub-tables are heap objects: \<open>Freed\<close> is a sub-table after \<^verbatim>\<open>delete\<close>, whose
  pointer is still in the outer table.
\<close>

datatype sub_table = Live "int \<rightharpoonup> int" | Freed

record multi_key_map =
  mk_table :: "int \<rightharpoonup> sub_table"
  mk_size :: int

definition multi_key_map_c :: multi_key_map where
  "multi_key_map_c = \<lparr>mk_table = Map.empty, mk_size = 0\<rparr>"

definition mk_find :: "int \<Rightarrow> int \<Rightarrow> multi_key_map \<Rightarrow> int res" where
  "mk_find key1 key2 m =
     (case mk_table m key1 of
        None \<Rightarrow> Inr (-1)
      | Some Freed \<Rightarrow> Inl DanglingPointer
      | Some (Live t) \<Rightarrow> (case t key2 of None \<Rightarrow> Inr (-1) | Some v \<Rightarrow> Inr v))"

definition mk_insert :: "int \<Rightarrow> int \<Rightarrow> multi_key_map \<Rightarrow> (int \<times> multi_key_map) res" where
  "mk_insert key1 key2 m =
     (case mk_table m key1 of
        None \<Rightarrow> Inr (mk_size m,
                 m\<lparr>mk_table := (mk_table m)(key1 \<mapsto> Live [key2 \<mapsto> mk_size m]),
                   mk_size := mk_size m + 1\<rparr>)
      | Some Freed \<Rightarrow> Inl DanglingPointer
      | Some (Live t) \<Rightarrow> Inr (mk_size m,
                 m\<lparr>mk_table := (mk_table m)(key1 \<mapsto> Live (t(key2 \<mapsto> mk_size m))),
                   mk_size := mk_size m + 1\<rparr>))"

definition mk_delete_table :: "int \<Rightarrow> multi_key_map \<Rightarrow> multi_key_map res" where
  "mk_delete_table key1 m =
     (case mk_table m key1 of
        Some (Live t) \<Rightarrow> Inr (m\<lparr>mk_table := (mk_table m)(key1 \<mapsto> Freed)\<rparr>)
      | _ \<Rightarrow> Inl DanglingPointer)"

section \<open>Correctness of the bit helpers\<close>

lemma log2_loop_eq:
  "n \<noteq> 0 \<Longrightarrow>
   \<exists>k. log2_loop n pw = pw + of_nat k \<and> 2 ^ k \<le> unat n \<and> unat n < 2 ^ Suc k"
proof (induction n pw rule: log2_loop.induct)
  case (1 n pw)
  have d: "unat (drop_bit 1 n) = unat n div 2" by (simp add: unat_drop_bit_div)
  show ?case
  proof (cases "drop_bit 1 n = 0")
    case True
    with d have "unat n div 2 = 0" by simp
    moreover from 1(2) have "unat n \<noteq> 0" by (simp add: unat_eq_0)
    ultimately have "unat n = 1" by simp
    with True have "log2_loop n pw = pw + of_nat 0 \<and> 2 ^ 0 \<le> unat n \<and> unat n < 2 ^ Suc 0"
      by (simp add: log2_loop.simps[of n pw])
    then show ?thesis by blast
  next
    case False
    with "1.IH" obtain k where
      "log2_loop (drop_bit 1 n) (pw + 1) = (pw + 1) + of_nat k"
      "2 ^ k \<le> unat (drop_bit 1 n)" "unat (drop_bit 1 n) < 2 ^ Suc k"
      by metis
    with False d have "log2_loop n pw = pw + of_nat (Suc k) \<and> 2 ^ Suc k \<le> unat n \<and> unat n < 2 ^ Suc (Suc k)"
      by (auto simp add: log2_loop.simps[of n pw] Let_def)
    then show ?thesis by blast
  qed
qed

lemma log2_int_bounds:
  assumes "n \<noteq> 0"
  shows "2 ^ unat (log2_int n) \<le> unat n" and "unat n < 2 ^ Suc (unat (log2_int n))"
    and "unat (log2_int n) < 32"
proof -
  obtain k where k: "log2_int n = of_nat k" "2 ^ k \<le> unat n" "unat n < 2 ^ Suc k"
    using log2_loop_eq[OF assms, of 0] by (auto simp add: log2_int_def)
  have "unat n < 2 ^ 32" using unsigned_less[of n] by simp
  with k(2) have "(2::nat) ^ k < 2 ^ 32" by linarith
  then have k32: "k < 32" by (rule power_less_imp_less_exp[rotated]) simp
  with k(1) have "unat (log2_int n) = k" by (simp add: unat_of_nat)
  with k k32 show "2 ^ unat (log2_int n) \<le> unat n"
    "unat n < 2 ^ Suc (unat (log2_int n))" "unat (log2_int n) < 32" by simp_all
qed

lemma log2_int_power:
  assumes "k < 32"
  shows "unat (log2_int (2 ^ k)) = k"
proof -
  have u: "unat (2 ^ k :: uns32) = 2 ^ k" using assms by (simp add: unat_two_power)
  then have nz: "(2 ^ k :: uns32) \<noteq> 0" by (metis power_not_zero unat_0 zero_neq_numeral)
  from log2_int_bounds[OF nz] u have
    le: "(2::nat) ^ unat (log2_int (2 ^ k)) \<le> 2 ^ k" and
    lt: "(2::nat) ^ k < 2 ^ Suc (unat (log2_int (2 ^ k)))"
    by simp_all
  have "unat (log2_int (2 ^ k)) \<le> k" by (rule power_le_imp_le_exp[OF _ le]) simp
  moreover have "k < Suc (unat (log2_int (2 ^ k)))" by (rule power_less_imp_less_exp[OF _ lt]) simp
  ultimately show ?thesis by simp
qed

lemma log2_int_0 [simp]: "log2_int 0 = 0"
  by (simp add: log2_int_def log2_loop.simps[of 0 0])

lemma N_BIT_MASK_mask: "N_BIT_MASK n = mask n"
  by (simp add: N_BIT_MASK_def mask_eq_exp_minus_1 push_bit_of_1)

lemma next_set_bit_loop_spec:
  "next_set_bit_loop k (drop_bit i v) i =
     (if \<exists>j. i \<le> j \<and> j < i + k \<and> bit v j then int (LEAST j. i \<le> j \<and> bit v j) else -1)"
proof (induction k arbitrary: i)
  case 0
  then show ?case by auto
next
  case (Suc k)
  have b0: "bit (drop_bit i v) 0 = bit v i" by (simp add: bit_drop_bit_eq)
  have dd: "drop_bit 1 (drop_bit i v) = drop_bit (Suc i) v" by (simp add: drop_bit_drop_bit)
  show ?case
  proof (cases "bit v i")
    case True
    then have "(LEAST j. i \<le> j \<and> bit v j) = i" by (intro Least_equality) auto
    moreover have "\<exists>j. i \<le> j \<and> j < i + Suc k \<and> bit v j" using True by (intro exI[of _ i]) simp
    ultimately show ?thesis using True b0 by simp
  next
    case False
    then have step: "i \<le> j \<and> bit v j \<longleftrightarrow> Suc i \<le> j \<and> bit v j" for j
      by (metis Suc_leD Suc_leI le_neq_implies_less)
    then have ex: "(\<exists>j. i \<le> j \<and> j < i + Suc k \<and> bit v j) \<longleftrightarrow> (\<exists>j. Suc i \<le> j \<and> j < Suc i + k \<and> bit v j)"
      by auto
    from False b0 have "next_set_bit_loop (Suc k) (drop_bit i v) i = next_set_bit_loop k (drop_bit (Suc i) v) (Suc i)"
      by (simp add: dd)
    then show ?thesis by (simp only: Suc.IH[of "Suc i"] ex step)
  qed
qed

lemma num_set_bits_loop_spec:
  "num_set_bits_loop val cnt = cnt + int (card {i. bit val i})"
proof (induction val cnt rule: num_set_bits_loop.induct)
  case (1 val cnt)
  show ?case
  proof (cases "val > 0")
    case True
    let ?T = "{i. bit (drop_bit 1 val) i}"
    have split: "{i. bit val i} = (if bit val 0 then {0} else {}) \<union> Suc ` ?T"
    proof (rule set_eqI)
      fix i
      show "i \<in> {i. bit val i} \<longleftrightarrow> i \<in> (if bit val 0 then {0} else {}) \<union> Suc ` ?T"
        by (cases i) (auto simp add: bit_drop_bit_eq)
    qed
    have "finite ?T" by (rule finite_bit_word)
    then have "card {i. bit val i} = (if bit val 0 then 1 else 0) + card ?T"
      by (subst split) (auto simp add: card_image)
    moreover have "val AND 1 \<noteq> 0 \<longleftrightarrow> bit val 0"
      by (simp add: and_one_eq odd_iff_mod_2_eq_one bit_0)
    ultimately show ?thesis
      using True "1.IH" by (simp add: num_set_bits_loop.simps[of val cnt])
  next
    case False
    then have "val = 0" by (simp add: word_gt_0)
    then show ?thesis by (simp add: num_set_bits_loop.simps[of 0 cnt])
  qed
qed

section \<open>Correctness of the pool\<close>

definition pool_wf :: "addr set \<Rightarrow> pool \<Rightarrow> bool" where
  "pool_wf U p \<longleftrightarrow>
     distinct (m_pool p) \<and> set (m_pool p) \<inter> U = {} \<and>
     set (m_pool p) \<union> U = {0..<pool_next p} \<and> m_poolsize p = int (pool_next p) \<and>
     0 < m_poolexpand_unit p"

lemma expand_loop_pool:
  "m_pool (expand_loop k p) = m_pool p @ [pool_next p..<pool_next p + k]"
  "pool_next (expand_loop k p) = pool_next p + k"
  "m_poolsize (expand_loop k p) = m_poolsize p"
  "m_poolexpand_unit (expand_loop k p) = m_poolexpand_unit p"
  by (induction k arbitrary: p) (simp_all add: upt_conv_Cons)

lemma pool_wf_new [inv_intros]: "0 < u \<Longrightarrow> pool_wf {} (pool_c u)"
  by (simp add: pool_wf_def pool_c_def)

lemma pool_wf_expand [inv_intros]:
  assumes "pool_wf U p"
  shows "pool_wf U (expand_pool p)"
proof -
  from assms have "x < pool_next p" if "x \<in> set (m_pool p) \<union> U" for x
    using that by (auto simp add: pool_wf_def)
  moreover from assms have "{0..<pool_next p} \<union> {pool_next p..<pool_next p + nat (m_poolexpand_unit p)} =
      {0..<pool_next p + nat (m_poolexpand_unit p)}" by auto
  ultimately show ?thesis
    using assms by (fastforce simp add: pool_wf_def expand_pool_def Let_def expand_loop_pool)
qed

lemma expand_pool_nonempty: "pool_wf U p \<Longrightarrow> m_pool (expand_pool p) \<noteq> []"
  by (auto simp add: pool_wf_def expand_pool_def Let_def expand_loop_pool)

lemma acquire_entry_wf:
  assumes "pool_wf U p"
  obtains a p' where "acquire_entry p = Inr (a, p')" "a \<notin> U" "pool_wf (insert a U) p'"
proof -
  define q where "q = (if m_pool p = [] then expand_pool p else p)"
  have q: "pool_wf U q" "m_pool q \<noteq> []"
    using assms pool_wf_expand expand_pool_nonempty by (auto simp add: q_def)
  then obtain a as where cons: "m_pool q = a # as" by (cases "m_pool q") auto
  then have "acquire_entry p = Inr (a, q\<lparr>m_pool := as\<rparr>)"
    by (simp add: acquire_entry_def q_def[symmetric])
  moreover have "a \<notin> U" "pool_wf (insert a U) (q\<lparr>m_pool := as\<rparr>)"
    using q cons by (auto simp add: pool_wf_def)
  ultimately show ?thesis using that by blast
qed

lemma acquire_entry_total:
  "0 < m_poolexpand_unit p \<Longrightarrow> \<exists>a p'. acquire_entry p = Inr (a, p')"
  by (auto simp add: acquire_entry_def expand_pool_def Let_def expand_loop_pool split: list.split)

lemma release_entry_wf [inv_intros]:
  "pool_wf U p \<Longrightarrow> a \<in> U \<Longrightarrow> pool_wf (U - {a}) (release_entry a p)"
  by (auto simp add: pool_wf_def release_entry_def)

section \<open>The table interface and the hash table\<close>

text \<open>
  What a client relies on: the entry created for a key is the one later found, no two keys share
  an entry, and creating or deleting one key does not disturb another.
\<close>

locale keyed_table =
  fixes invar :: "'h \<Rightarrow> bool"
    and find :: "'k \<Rightarrow> 'h \<Rightarrow> 'v option"
    and create :: "'k \<Rightarrow> 'h \<Rightarrow> ('v \<times> bool \<times> 'h) res"
    and remove :: "'k \<Rightarrow> 'h \<Rightarrow> bool \<times> 'h"
  assumes create_total: "invar h \<Longrightarrow> \<exists>v b h'. create k h = Inr (v, b, h')"
    and create_invar: "invar h \<Longrightarrow> create k h = Inr (v, b, h') \<Longrightarrow> invar h'"
    and create_find: "invar h \<Longrightarrow> create k h = Inr (v, b, h') \<Longrightarrow> find j h' = (if j = k then Some v else find j h)"
    and create_new: "invar h \<Longrightarrow> create k h = Inr (v, b, h') \<Longrightarrow> b \<longleftrightarrow> find k h = None"
    and create_old: "invar h \<Longrightarrow> create k h = Inr (v, b, h') \<Longrightarrow> find k h = Some w \<Longrightarrow> v = w"
    and find_inj: "invar h \<Longrightarrow> find k h = Some v \<Longrightarrow> find j h = Some v \<Longrightarrow> k = j"
    and remove_invar: "invar h \<Longrightarrow> invar (snd (remove k h))"
    and remove_find: "invar h \<Longrightarrow> find j (snd (remove k h)) = (if j = k then None else find j h)"
    and remove_result: "invar h \<Longrightarrow> fst (remove k h) \<longleftrightarrow> find k h \<noteq> None"
begin

lemma create_twice:
  assumes "invar h" "create k h = Inr (v, b, h')" "create k h' = Inr (v', b', h'')"
  shows "v' = v" and "\<not> b'"
proof -
  have i: "invar h'" using assms(1,2) by (rule create_invar)
  have f: "find k h' = Some v" using create_find[OF assms(1,2), of k] by simp
  show "v' = v" using create_old[OF i assms(3) f] .
  show "\<not> b'" using create_new[OF i assms(3)] f by simp
qed

lemma create_distinct:
  assumes "invar h" "create k h = Inr (v, b, h')" "find j h = Some w" "j \<noteq> k"
  shows "w \<noteq> v"
proof
  assume "w = v"
  with assms create_find[OF assms(1,2)] have "find j h' = Some v" "find k h' = Some v" by auto
  with find_inj[OF create_invar[OF assms(1,2)]] assms(4) show False by blast
qed

lemma remove_create_new:
  assumes "invar h" "create k (snd (remove k h)) = Inr (v, b, h')"
  shows "b"
  using create_new[OF remove_invar[OF assms(1)] assms(2)] remove_find[OF assms(1)] by simp

end

definition hash_wf :: "hash \<Rightarrow> bool" where
  "hash_wf h \<longleftrightarrow>
     distinct (map fst (m_table h)) \<and> distinct (map snd (m_table h)) \<and>
     pool_wf (set (map snd (m_table h))) (h_pool h)"

lemma hash_wf_new [inv_intros]: "pool_wf {} p \<Longrightarrow> hash_wf (hash_c p)"
  by (simp add: hash_wf_def hash_c_def)

lemma create_cases:
  assumes "hash_wf h"
  shows "(\<exists>a. map_of (m_table h) key = Some a \<and> hash_table_access_create key h = Inr (a, False, h)) \<or>
    (\<exists>a p. map_of (m_table h) key = None \<and> a \<notin> set (map snd (m_table h)) \<and>
       pool_wf (insert a (set (map snd (m_table h)))) p \<and>
       hash_table_access_create key h = Inr (a, True, h\<lparr>m_table := (key, a) # m_table h, h_pool := p\<rparr>))"
proof (cases "map_of (m_table h) key")
  case None
  from assms have "pool_wf (set (map snd (m_table h))) (h_pool h)" by (simp add: hash_wf_def)
  then obtain a p where "acquire_entry (h_pool h) = Inr (a, p)" "a \<notin> set (map snd (m_table h))"
    "pool_wf (insert a (set (map snd (m_table h)))) p" by (rule acquire_entry_wf)
  with None show ?thesis by (auto simp add: hash_table_access_create_def)
next
  case (Some a)
  then show ?thesis by (simp add: hash_table_access_create_def)
qed

lemma hash_wf_create:
  assumes "hash_wf h" "hash_table_access_create key h = Inr (v, b, h')"
  shows "hash_wf h'"
  using create_cases[OF assms(1), of key] assms
  by (auto simp add: hash_wf_def map_of_eq_None_iff)

lemma map_of_snd_inj:
  "distinct (map snd xs) \<Longrightarrow> map_of xs k = Some v \<Longrightarrow> map_of xs j = Some v \<Longrightarrow> k = j"
  by (induction xs) (auto split: if_splits dest!: map_of_SomeD simp add: rev_image_eqI)

lemma snd_delete:
  "distinct (map fst xs) \<Longrightarrow> distinct (map snd xs) \<Longrightarrow> map_of xs k = Some v \<Longrightarrow>
   set (map snd (AList.delete k xs)) = set (map snd xs) - {v}"
proof (induction xs)
  case Nil
  then show ?case by simp
next
  case (Cons x xs)
  then show ?case
    by (cases x) (auto simp add: AList.delete_eq rev_image_eqI dest: map_of_SomeD
      intro: rev_image_eqI split: if_splits)
qed

lemma hash_wf_delete:
  assumes "hash_wf h"
  shows "hash_wf (snd (hash_table_access_delete key h))"
proof (cases "map_of (m_table h) key")
  case None
  with assms show ?thesis by (simp add: hash_table_access_delete_def)
next
  case (Some a)
  with assms have "a \<in> set (map snd (m_table h))" by (auto dest: map_of_SomeD simp add: rev_image_eqI)
  with assms have "pool_wf (set (map snd (m_table h)) - {a}) (release_entry a (h_pool h))"
    by (simp add: hash_wf_def release_entry_wf)
  with assms Some snd_delete[of "m_table h" key a] show ?thesis
    by (simp add: hash_wf_def hash_table_access_delete_def distinct_delete)
       (simp add: AList.delete_eq distinct_map_filter)
qed

interpretation hasht: keyed_table hash_wf hash_table_access hash_table_access_create hash_table_access_delete
proof (unfold_locales, goal_cases)
  case (1 h k)
  then show ?case using create_cases by fast
next
  case (2 h k v b h')
  then show ?case by (rule hash_wf_create)
next
  case (3 h k v b h' j)
  then show ?case using create_cases[of h k] by (auto simp add: hash_table_access_def)
next
  case (4 h k v b h')
  then show ?case using create_cases[of h k] by (auto simp add: hash_table_access_def)
next
  case (5 h k v b h' w)
  then show ?case using create_cases[of h k] by (auto simp add: hash_table_access_def)
next
  case (6 h k v j)
  then show ?case by (auto simp add: hash_table_access_def hash_wf_def intro: map_of_snd_inj)
next
  case (7 h k)
  then show ?case by (rule hash_wf_delete)
next
  case (8 h j k)
  then show ?case
    by (auto simp add: hash_table_access_def hash_table_access_delete_def delete_conv' split: option.split)
next
  case (9 h k)
  then show ?case
    by (auto simp add: hash_table_access_def hash_table_access_delete_def split: option.split)
qed

lemma clear_loop_wf:
  "distinct (map snd t) \<Longrightarrow> pool_wf (set (map snd t)) p \<Longrightarrow> pool_wf {} (clear_loop t p)"
proof (induction t arbitrary: p)
  case Nil
  then show ?case by simp
next
  case (Cons x t)
  obtain k a where x: "x = (k, a)" by (cases x)
  with Cons.prems have "pool_wf (set (map snd (x # t)) - {a}) (release_entry a p)"
    by (intro release_entry_wf) auto
  moreover from Cons.prems x have "set (map snd (x # t)) - {a} = set (map snd t)" by auto
  ultimately show ?case using Cons x by simp
qed

lemma hash_wf_clear [inv_intros]: "hash_wf h \<Longrightarrow> hash_wf (hash_clear h)"
  using clear_loop_wf[of "m_table h" "h_pool h"] by (simp add: hash_wf_def hash_clear_def)

section \<open>The two-key map\<close>

definition mk_wf :: "multi_key_map \<Rightarrow> bool" where
  "mk_wf m \<longleftrightarrow>
     0 \<le> mk_size m \<and>
     (\<forall>k1 t k2 v. mk_table m k1 = Some (Live t) \<longrightarrow> t k2 = Some v \<longrightarrow> 0 \<le> v \<and> v < mk_size m) \<and>
     (\<forall>k1 t k2 j1 u j2 v. mk_table m k1 = Some (Live t) \<longrightarrow> t k2 = Some v \<longrightarrow>
        mk_table m j1 = Some (Live u) \<longrightarrow> u j2 = Some v \<longrightarrow> k1 = j1 \<and> k2 = j2)"

lemma mk_wfD:
  assumes "mk_wf m" "mk_table m k1 = Some (Live t)" "t k2 = Some v"
  shows "0 \<le> v" "v < mk_size m"
    and "mk_table m j1 = Some (Live u) \<Longrightarrow> u j2 = Some v \<Longrightarrow> k1 = j1 \<and> k2 = j2"
  using assms unfolding mk_wf_def by blast+

lemma mk_wf_new [inv_intros]: "mk_wf multi_key_map_c"
  by (simp add: mk_wf_def multi_key_map_c_def)

text \<open>Adding the id \<open>mk_size m\<close> under one pair keeps the ids bounded and distinct.\<close>

lemma mk_wf_update:
  assumes wf: "mk_wf m"
    and old: "\<And>j v. t j = Some v \<Longrightarrow> j \<noteq> key2 \<Longrightarrow> \<exists>t'. mk_table m key1 = Some (Live t') \<and> t' j = Some v"
    and new: "t key2 = Some (mk_size m)"
  shows "mk_wf (m\<lparr>mk_table := (mk_table m)(key1 \<mapsto> Live t), mk_size := mk_size m + 1\<rparr>)"
proof -
  let ?m = "m\<lparr>mk_table := (mk_table m)(key1 \<mapsto> Live t), mk_size := mk_size m + 1\<rparr>"
  have lookup: "(k1 = key1 \<and> k2 = key2 \<and> v = mk_size m) \<or>
      (\<exists>t'. mk_table m k1 = Some (Live t') \<and> t' k2 = Some v \<and> (k1, k2) \<noteq> (key1, key2))"
    if "mk_table ?m k1 = Some (Live u)" "u k2 = Some v" for k1 k2 u v
    using that new old[of k2 v] by (cases "k1 = key1"; cases "k2 = key2") auto
  from wf have "0 \<le> mk_size m" by (simp add: mk_wf_def)
  moreover have "0 \<le> v \<and> v < mk_size m + 1" if "mk_table ?m k1 = Some (Live u)" "u k2 = Some v" for k1 u k2 v
    using lookup[OF that] mk_wfD(1,2)[OF wf] \<open>0 \<le> mk_size m\<close> by fastforce
  moreover have "k1 = j1 \<and> k2 = j2"
    if a: "mk_table ?m k1 = Some (Live u)" "u k2 = Some v"
    and b: "mk_table ?m j1 = Some (Live u')" "u' j2 = Some v" for k1 u k2 j1 u' j2 v
    using lookup[OF a] lookup[OF b] mk_wfD[OF wf] by (metis less_irrefl)
  ultimately show ?thesis unfolding mk_wf_def by (simp del: fun_upd_apply)
qed

lemma mk_wf_insert [inv_intros]:
  assumes "mk_wf m" "mk_insert key1 key2 m = Inr (i, m')"
  shows "mk_wf m'"
  using assms by (auto simp add: mk_insert_def split: option.splits sub_table.splits
      intro!: mk_wf_update split: if_splits)

lemma mk_wf_delete [inv_intros]:
  assumes "mk_wf m" "mk_delete_table key1 m = Inr m'"
  shows "mk_wf m'"
  using assms unfolding mk_delete_table_def mk_wf_def
  by (auto split: option.splits sub_table.splits if_splits)

section \<open>Properties\<close>

text \<open>For a non-zero argument, \<^verbatim>\<open>log2_int\<close> returns the exponent of the
  largest power of two that does not exceed it, and its loop terminates on every argument.\<close>

theorem log2_int_correct:
  "n \<noteq> 0 \<Longrightarrow>
   2 ^ unat (log2_int n) \<le> unat n \<and> unat n < 2 ^ Suc (unat (log2_int n)) \<and> unat (log2_int n) < 32"
  using log2_int_bounds by blast

theorem log2_int_correct_witness:
  "(4096 :: uns32) \<noteq> 0 \<and> 2 ^ unat (log2_int 4096) \<le> unat (4096 :: uns32) \<and> unat (log2_int 4096) = 12"
proof -
  have "(4096 :: uns32) \<noteq> 0" by simp
  from log2_int_correct[OF this] log2_int_power[of 12] show ?thesis by simp
qed

text \<open>\<^verbatim>\<open>get_next_set_bit64\<close> returns the position of the lowest set
  bit at or above \<open>pos\<close>, or -1 when there is none; \<^verbatim>\<open>get_num_set_bits64\<close> returns the
  number of set bits.\<close>

theorem set_bit_scans_correct:
  "get_next_set_bit64 val pos =
     (if \<exists>j. pos \<le> j \<and> j < pos + (64 - pos) \<and> bit val j then int (LEAST j. pos \<le> j \<and> bit val j) else -1)
   \<and> get_num_set_bits64 val = int (card {i. bit val i})"
  by (simp only: get_next_set_bit64_def next_set_bit_loop_spec get_num_set_bits64_def
      num_set_bits_loop_spec add_0)

text \<open>On a well-formed pooled hash table, creating an entry succeeds, the
  entry is found under its key afterwards and is shared with no other key, every other key keeps its
  entry, and well-formedness (including the accounting of the pool) is kept; deleting removes
  exactly that key.\<close>

theorem hash_table_correct:
  assumes "hash_wf h"
  shows "(\<exists>v b h'. hash_table_access_create k h = Inr (v, b, h') \<and> hash_wf h' \<and>
      hash_table_access k h' = Some v \<and> b = (hash_table_access k h = None) \<and>
      (\<forall>j. j \<noteq> k \<longrightarrow> hash_table_access j h' = hash_table_access j h \<and> hash_table_access j h' \<noteq> Some v)) \<and>
    hash_wf (snd (hash_table_access_delete k h)) \<and>
    hash_table_access j (snd (hash_table_access_delete k h)) =
      (if j = k then None else hash_table_access j h)"
proof -
  obtain v b h' where c: "hash_table_access_create k h = Inr (v, b, h')"
    using hasht.create_total[OF assms] by blast
  moreover have "j \<noteq> k \<Longrightarrow> hash_table_access j h' \<noteq> Some v" for j
    using hasht.create_distinct[OF assms c] hasht.create_find[OF assms c, of j] by auto
  ultimately show ?thesis
    using hasht.create_invar[OF assms c] hasht.create_find[OF assms c] hasht.create_new[OF assms c]
      hasht.remove_invar[OF assms] hasht.remove_find[OF assms]
    by auto
qed

theorem hash_table_correct_witness:
  "hash_wf (hash_c (pool_c 100)) \<and>
   (\<exists>v b h'. hash_table_access_create 7 (hash_c (pool_c 100)) = Inr (v, b, h') \<and>
      hash_table_access 7 h' = Some v)"
proof -
  have "hash_wf (hash_c (pool_c 100))" by (simp add: hash_wf_new pool_wf_new)
  from this hash_table_correct[OF this, of 7] show ?thesis by blast
qed

text \<open>\<^verbatim>\<open>multi_key_map_c::insert\<close> returns an id that no live pair of
  keys had before, a following \<^verbatim>\<open>find\<close> of that pair returns the id, and ids stay
  pairwise distinct.\<close>

theorem multi_key_insert_unique:
  assumes "mk_wf m" "mk_insert key1 key2 m = Inr (i, m')"
  shows "mk_wf m' \<and> mk_find key1 key2 m' = Inr i \<and>
    (\<forall>j1 j2. mk_find j1 j2 m \<noteq> Inr i) \<and>
    (\<forall>j1 j2. mk_find j1 j2 m' = Inr i \<longrightarrow> j1 = key1 \<and> j2 = key2)"
proof -
  have i: "i = mk_size m" and f: "mk_find key1 key2 m' = Inr i"
    using assms(2) by (auto simp add: mk_insert_def mk_find_def split: option.splits sub_table.splits)
  have nn: "0 \<le> mk_size m" using assms(1) by (simp add: mk_wf_def)
  have "mk_find j1 j2 m \<noteq> Inr i" for j1 j2
    using mk_wfD(2)[OF assms(1)] nn i
    by (fastforce simp add: mk_find_def split: option.splits sub_table.splits)
  moreover have "j1 = key1 \<and> j2 = key2" if "mk_find j1 j2 m' = Inr i" for j1 j2
    using that f mk_wfD(3)[OF mk_wf_insert[OF assms]] nn i
    by (auto simp add: mk_find_def split: option.splits sub_table.splits)
  ultimately show ?thesis using f mk_wf_insert[OF assms] by blast
qed

theorem multi_key_insert_unique_witness:
  "mk_wf multi_key_map_c \<and>
   (\<exists>m'. mk_insert 3 5 multi_key_map_c = Inr (0, m') \<and> mk_find 3 5 m' = Inr 0)"
proof -
  have w: "mk_wf multi_key_map_c" by (rule mk_wf_new)
  obtain m' where i: "mk_insert 3 5 multi_key_map_c = Inr (0, m')"
    by (simp add: mk_insert_def multi_key_map_c_def)
  with w multi_key_insert_unique[OF w i] show ?thesis by blast
qed

text \<open>\<^verbatim>\<open>multi_key_map_c::delete_table\<close> frees the sub-table but leaves its
  pointer in the outer table, so any later operation on that key dereferences freed memory.\<close>

theorem multi_key_delete_dangling:
  assumes "mk_delete_table key1 m = Inr m'"
  shows "mk_find key1 key2 m' = Inl DanglingPointer \<and> mk_insert key1 key2 m' = Inl DanglingPointer \<and>
    mk_delete_table key1 m' = Inl DanglingPointer"
  using assms
  by (auto simp add: mk_delete_table_def mk_find_def mk_insert_def split: option.splits sub_table.splits)

theorem multi_key_delete_dangling_witness:
  "\<exists>m m'. mk_insert 3 5 multi_key_map_c = Inr (0, m) \<and> mk_delete_table 3 m = Inr m' \<and>
     mk_find 3 5 m' = Inl DanglingPointer"
proof -
  obtain m where m: "mk_insert 3 5 multi_key_map_c = Inr (0, m)" "mk_table m 3 = Some (Live [5 \<mapsto> 0])"
    by (simp add: mk_insert_def multi_key_map_c_def)
  then obtain m' where m': "mk_delete_table 3 m = Inr m'" by (simp add: mk_delete_table_def)
  from m m' multi_key_delete_dangling[OF m'] show ?thesis by blast
qed

end
