(* ===== verification/PQueue.thy ===== *)
theory PQueue
  imports Utils
begin

text \<open>
  The latency/priority queue \<^verbatim>\<open>pqueue_c\<close> of \<^verbatim>\<open>src/src/pqueue.h\<close>, which connects
  the pipeline stages. The buckets are the array \<^verbatim>\<open>m_entry\<close>; \<open>stages\<close> reads them
  from the current bucket on, and the refinement lemmas describe every operation on that list:
  \<open>enqueue\<close> inserts by priority into the last stage, \<open>advance\<close> rotates by one stage when
  the first is empty, \<open>dequeue\<close> takes the front of the first. The locale \<open>stage_queue\<close> is
  the contract the allocation and scheduling stages use.
\<close>

section \<open>The class\<close>

record 'a pqueue_entry =
  pe_ptr :: addr
  m_priority :: int
  m_data :: 'a

record 'a pqueue =
  m_entry :: "'a pqueue_entry list list"
  m_entry_pool :: pool
  m_size :: nat
  m_capacity :: int
  m_num_entry :: int
  m_last_index :: nat
  m_current_index :: nat

definition pqueue_c :: "int \<Rightarrow> nat \<Rightarrow> 'a pqueue" where
  "pqueue_c sz latency =
     \<lparr>m_entry = replicate (latency + 1) [], m_entry_pool = pool_c 100, m_size = latency + 1,
      m_capacity = sz, m_num_entry = 0, m_last_index = latency, m_current_index = 0\<rparr>"

definition ready :: "'a pqueue \<Rightarrow> bool res" where
  "ready q = res_bind (arr_get (m_entry q) (m_current_index q)) (\<lambda>b. Inr (b \<noteq> []))"

text \<open>The search loop of \<^verbatim>\<open>enqueue\<close>: before the first entry of lower priority, else at
  the back.\<close>

fun insert_entry :: "'a pqueue_entry \<Rightarrow> 'a pqueue_entry list \<Rightarrow> 'a pqueue_entry list" where
  "insert_entry new [] = [new]"
| "insert_entry new (e # es) =
     (if m_priority e < m_priority new then new # e # es else e # insert_entry new es)"

definition enqueue :: "int \<Rightarrow> 'a \<Rightarrow> 'a pqueue \<Rightarrow> (bool \<times> 'a pqueue) res" where
  "enqueue prio dat q =
     check (m_num_entry q < m_capacity q) AssertFailed
     (let q1 = q\<lparr>m_num_entry := m_num_entry q + 1\<rparr> in
      res_bind (acquire_entry (m_entry_pool q1)) (\<lambda>(a, p).
      let new_entry = \<lparr>pe_ptr = a, m_priority = prio, m_data = dat\<rparr> in
      res_bind (arr_get (m_entry q1) (m_last_index q1)) (\<lambda>b.
      res_bind (arr_set (m_entry q1) (m_last_index q1) (insert_entry new_entry b)) (\<lambda>es.
      Inr (True, q1\<lparr>m_entry := es, m_entry_pool := p\<rparr>)))))"

definition dequeue :: "'a pqueue \<Rightarrow> (int \<times> 'a \<times> 'a pqueue) res" where
  "dequeue q =
     res_bind (arr_get (m_entry q) (m_current_index q)) (\<lambda>b.
     case b of
       [] \<Rightarrow> Inl EmptyAccess
     | e # es \<Rightarrow>
         Inr (m_priority e, m_data e,
              q\<lparr>m_entry := (m_entry q)[m_current_index q := es],
                m_entry_pool := release_entry (pe_ptr e) (m_entry_pool q),
                m_num_entry := m_num_entry q - 1\<rparr>))"

definition advance :: "'a pqueue \<Rightarrow> (bool \<times> 'a pqueue) res" where
  "advance q =
     (if m_num_entry q = 0 then Inr (True, q)
      else res_bind (arr_get (m_entry q) (m_current_index q)) (\<lambda>b.
        if b \<noteq> [] then Inr (True, q)
        else Inr (True, q\<lparr>m_last_index := m_current_index q,
                          m_current_index := (m_current_index q + 1) mod m_size q\<rparr>)))"

text \<open>The two nested loops of \<^verbatim>\<open>peek\<close>; \<^verbatim>\<open>break\<close> leaves the inner one only.\<close>

fun peek_list :: "int \<Rightarrow> 'a pqueue_entry list \<Rightarrow> int \<Rightarrow> 'a \<Rightarrow> int \<times> 'a" where
  "peek_list entry [] cnt dat = (cnt, dat)"
| "peek_list entry (e # es) cnt dat =
     (if cnt = entry then (cnt + 1, m_data e) else peek_list entry es (cnt + 1) dat)"

fun peek_buckets :: "int \<Rightarrow> 'a pqueue \<Rightarrow> nat list \<Rightarrow> int \<Rightarrow> 'a \<Rightarrow> 'a res" where
  "peek_buckets entry q [] cnt dat = Inr dat"
| "peek_buckets entry q (ii # iis) cnt dat =
     res_bind (arr_get (m_entry q) (ii mod m_size q)) (\<lambda>b.
     let (cnt', dat') = peek_list entry b cnt dat in peek_buckets entry q iis cnt' dat')"

definition peek :: "int \<Rightarrow> 'a::zero pqueue \<Rightarrow> 'a res" where
  "peek entry q =
     check (entry \<le> m_num_entry q) AssertFailed
       (peek_buckets entry q [m_current_index q..<m_current_index q + m_size q] 0 0)"

definition space :: "'a pqueue \<Rightarrow> int" where
  "space q = m_capacity q - m_num_entry q"

fun flush_bucket :: "'a pqueue_entry list \<Rightarrow> pool \<Rightarrow> pool" where
  "flush_bucket [] p = p"
| "flush_bucket (e # es) p = flush_bucket es (release_entry (pe_ptr e) p)"

fun flush_loop :: "'a pqueue_entry list list \<Rightarrow> pool \<Rightarrow> pool" where
  "flush_loop [] p = p"
| "flush_loop (b # bs) p = flush_loop bs (flush_bucket b p)"

definition flush :: "'a pqueue \<Rightarrow> 'a pqueue" where
  "flush q =
     q\<lparr>m_entry := replicate (m_size q) [],
       m_entry_pool := flush_loop (m_entry q) (m_entry_pool q),
       m_num_entry := 0, m_current_index := 0, m_last_index := m_size q\<rparr>"

definition pq_pool_size :: "'a pqueue \<Rightarrow> int" where
  "pq_pool_size q = pool_size (m_entry_pool q)"

section \<open>The abstract view: stages\<close>

definition stages :: "'a pqueue \<Rightarrow> 'a pqueue_entry list list" where
  "stages q = map (\<lambda>i. m_entry q ! ((m_current_index q + i) mod m_size q)) [0..<m_size q]"

definition contents :: "'a pqueue \<Rightarrow> 'a list" where
  "contents q = map m_data (concat (stages q))"

definition bucket_sorted :: "'a pqueue_entry list \<Rightarrow> bool" where
  "bucket_sorted es = sorted_wrt (\<lambda>a b. m_priority b \<le> m_priority a) es"

definition pq_wf :: "'a pqueue \<Rightarrow> bool" where
  "pq_wf q \<longleftrightarrow>
     length (m_entry q) = m_size q \<and> m_current_index q < m_size q \<and>
     m_last_index q = (m_current_index q + m_size q - 1) mod m_size q \<and>
     m_num_entry q = int (length (concat (stages q))) \<and> m_num_entry q \<le> m_capacity q \<and>
     list_all bucket_sorted (stages q) \<and>
     distinct (map pe_ptr (concat (stages q))) \<and>
     pool_wf (set (map pe_ptr (concat (stages q)))) (m_entry_pool q)"

lemma pq_wfD:
  assumes "pq_wf q"
  shows "length (m_entry q) = m_size q" "m_current_index q < m_size q"
    "m_last_index q = (m_current_index q + m_size q - 1) mod m_size q" "m_last_index q < m_size q"
    "m_num_entry q = int (length (concat (stages q)))" "m_num_entry q \<le> m_capacity q"
    "list_all bucket_sorted (stages q)" "distinct (map pe_ptr (concat (stages q)))"
    "pool_wf (set (map pe_ptr (concat (stages q)))) (m_entry_pool q)"
  using assms by (auto simp add: pq_wf_def)

lemma length_stages [simp]: "length (stages q) = m_size q"
  by (simp add: stages_def)

lemma stages_update:
  assumes "length (m_entry q) = m_size q" "m_current_index q < m_size q" "k < m_size q"
  shows "stages (q\<lparr>m_entry := (m_entry q)[(m_current_index q + k) mod m_size q := b]\<rparr>) = (stages q)[k := b]"
proof (rule nth_equalityI)
  fix i
  assume "i < length (stages (q\<lparr>m_entry := (m_entry q)[(m_current_index q + k) mod m_size q := b]\<rparr>))"
  then have i: "i < m_size q" by (simp add: stages_def)
  have "(m_current_index q + i) mod m_size q < length (m_entry q)" using assms by simp
  moreover have "(m_current_index q + k) mod m_size q = (m_current_index q + i) mod m_size q \<longleftrightarrow> k = i"
    using mod_offset_inj[OF assms(2,3) i] by auto
  ultimately show "stages (q\<lparr>m_entry := (m_entry q)[(m_current_index q + k) mod m_size q := b]\<rparr>) ! i = (stages q)[k := b] ! i"
    using i assms by (auto simp add: stages_def nth_list_update)
qed (simp add: stages_def)

lemma stages_nth: "i < m_size q \<Longrightarrow> stages q ! i = m_entry q ! ((m_current_index q + i) mod m_size q)"
  by (simp add: stages_def)

lemma stages_first:
  "pq_wf q \<Longrightarrow> stages q ! 0 = m_entry q ! m_current_index q"
  by (subst stages_nth) (auto simp add: pq_wf_def)

lemma stages_last:
  assumes "pq_wf q"
  shows "stages q ! (m_size q - 1) = m_entry q ! m_last_index q"
  using assms by (subst stages_nth) (auto simp add: pq_wf_def add.assoc)

lemma stages_nonempty: "pq_wf q \<Longrightarrow> stages q \<noteq> []"
  by (metis length_stages less_nat_zero_code list.size(3) pq_wfD(2))

lemma stages_Cons:
  assumes "pq_wf q"
  obtains b bs where "stages q = b # bs" "b = m_entry q ! m_current_index q"
  using assms stages_first[OF assms] stages_nonempty[OF assms] by (cases "stages q") auto

lemma stages_snoc:
  assumes "pq_wf q"
  obtains bs b where "stages q = bs @ [b]" "b = m_entry q ! m_last_index q" "length bs = m_size q - 1"
proof -
  have ne: "stages q \<noteq> []" using assms by (rule stages_nonempty)
  have "last (stages q) = m_entry q ! m_last_index q"
    using stages_last[OF assms] ne by (simp add: last_conv_nth)
  with ne have "stages q = butlast (stages q) @ [m_entry q ! m_last_index q]"
    by (metis append_butlast_last_id)
  then show ?thesis by (rule that) simp_all
qed

section \<open>The operations on stages\<close>

lemma pq_wf_new [inv_intros]: "0 \<le> sz \<Longrightarrow> pq_wf (pqueue_c sz latency)"
proof -
  assume "0 \<le> sz"
  moreover have "stages (pqueue_c sz latency :: 'a pqueue) = replicate (latency + 1) []"
    by (rule nth_equalityI) (simp_all add: stages_def pqueue_c_def del: upt_Suc replicate_Suc)
  ultimately show ?thesis
    by (simp add: pq_wf_def pqueue_c_def pool_wf_new list_all_iff bucket_sorted_def)
qed

lemma ready_spec: "pq_wf q \<Longrightarrow> ready q = Inr (stages q ! 0 \<noteq> [])"
  by (simp add: ready_def stages_first pq_wfD)

lemma insert_entry_sorted_eq:
  "bucket_sorted es \<Longrightarrow>
   insert_entry e es = filter (\<lambda>x. m_priority e \<le> m_priority x) es @ e # filter (\<lambda>x. m_priority x < m_priority e) es"
proof (induction es)
  case Nil
  then show ?case by simp
next
  case (Cons x es)
  show ?case
  proof (cases "m_priority x < m_priority e")
    case True
    with Cons.prems have "\<forall>y\<in>set (x # es). m_priority y < m_priority e"
      by (auto simp add: bucket_sorted_def)
    then have "filter (\<lambda>y. m_priority e \<le> m_priority y) (x # es) = []"
      "filter (\<lambda>y. m_priority y < m_priority e) (x # es) = x # es"
      by (auto simp add: filter_empty_conv filter_id_conv not_le)
    with True show ?thesis by simp
  next
    case False
    with Cons show ?thesis by (simp add: bucket_sorted_def)
  qed
qed

lemma mset_insert_entry: "mset (insert_entry e es) = add_mset e (mset es)"
  by (induction es) auto

lemma bucket_sorted_insert: "bucket_sorted es \<Longrightarrow> bucket_sorted (insert_entry e es)"
proof (induction es)
  case Nil
  then show ?case by (simp add: bucket_sorted_def)
next
  case (Cons x es)
  have "set (insert_entry e es) = insert e (set es)"
    by (metis mset_insert_entry set_mset_add_mset_insert set_mset_mset)
  with Cons show ?case by (fastforce simp add: bucket_sorted_def)
qed

lemma stages_last_update:
  assumes "pq_wf q" "stages q = bs @ [b]"
  shows "stages (q\<lparr>m_entry := (m_entry q)[m_last_index q := c]\<rparr>) = bs @ [c]"
proof -
  have l: "length bs = m_size q - 1" and pos: "0 < m_size q"
    using assms length_stages[of q] by (simp_all del: length_stages)
  have "m_last_index q = (m_current_index q + (m_size q - 1)) mod m_size q"
    using pq_wfD(3)[OF assms(1)] pos by simp
  then have "stages (q\<lparr>m_entry := (m_entry q)[m_last_index q := c]\<rparr>) = (stages q)[m_size q - 1 := c]"
    using stages_update[OF pq_wfD(1,2)[OF assms(1)], of "m_size q - 1" c] pos by simp
  with assms(2) l show ?thesis by (metis list_update_length)
qed

lemma stages_frame:
  "stages (q\<lparr>m_entry_pool := p\<rparr>) = stages q" "stages (q\<lparr>m_num_entry := n\<rparr>) = stages q"
  by (simp_all add: stages_def)

lemma pq_wf_replace:
  assumes "pq_wf q" "length (m_entry q') = m_size q" "m_size q' = m_size q"
    "m_current_index q' = m_current_index q" "m_last_index q' = m_last_index q"
    "m_capacity q' = m_capacity q" "m_num_entry q' = int (length (concat (stages q')))"
    "m_num_entry q' \<le> m_capacity q" "list_all bucket_sorted (stages q')"
    "distinct (map pe_ptr (concat (stages q')))"
    "pool_wf (set (map pe_ptr (concat (stages q')))) (m_entry_pool q')"
  shows "pq_wf q'"
  using assms by (simp add: pq_wf_def)

lemma enqueue_stages:
  assumes wf: "pq_wf q" and room: "m_num_entry q < m_capacity q" and st: "stages q = bs @ [b]"
  obtains a q' where "enqueue prio dat q = Inr (True, q')" "pq_wf q'"
    "stages q' = bs @ [insert_entry \<lparr>pe_ptr = a, m_priority = prio, m_data = dat\<rparr> b]"
    "m_num_entry q' = m_num_entry q + 1" "m_capacity q' = m_capacity q"
proof -
  obtain a p where acq: "acquire_entry (m_entry_pool q) = Inr (a, p)"
    and fresh: "a \<notin> set (map pe_ptr (concat (stages q)))"
    and pwf: "pool_wf (insert a (set (map pe_ptr (concat (stages q))))) p"
    using acquire_entry_wf[OF pq_wfD(9)[OF wf]] by blast
  let ?e = "\<lparr>pe_ptr = a, m_priority = prio, m_data = dat\<rparr>"
  define q' where "q' = q\<lparr>m_num_entry := m_num_entry q + 1,
      m_entry := (m_entry q)[m_last_index q := insert_entry ?e b], m_entry_pool := p\<rparr>"
  have b: "m_entry q ! m_last_index q = b"
    using stages_snoc[OF wf] st by (metis last_snoc)
  have eq: "enqueue prio dat q = Inr (True, q')"
    using room acq pq_wfD[OF wf] b by (simp add: enqueue_def q'_def)
  have st': "stages q' = bs @ [insert_entry ?e b]"
    using stages_last_update[OF wf st] by (simp add: q'_def stages_def)
  have m: "mset (concat (stages q')) = add_mset ?e (mset (concat (stages q)))"
    by (simp add: st st' mset_insert_entry)
  then have set': "set (concat (stages q')) = insert ?e (set (concat (stages q)))"
    by (metis set_mset_add_mset_insert set_mset_mset)
  have len: "length (concat (stages q')) = Suc (length (concat (stages q)))"
    using m by (metis size_add_mset size_mset)
  have "mset (map pe_ptr (concat (stages q'))) = mset (a # map pe_ptr (concat (stages q)))"
    using m by (simp del: concat.simps)
  then have "distinct (map pe_ptr (concat (stages q')))"
    using fresh pq_wfD(8)[OF wf] by (metis distinct.simps(2) mset_eq_imp_distinct_iff)
  moreover have "list_all bucket_sorted (stages q')"
    using pq_wfD(7)[OF wf] by (simp add: st st' bucket_sorted_insert)
  moreover have "pool_wf (set (map pe_ptr (concat (stages q')))) (m_entry_pool q')"
    using pwf set' by (simp add: q'_def)
  ultimately have "pq_wf q'"
    using room pq_wfD(1,5)[OF wf] len by (intro pq_wf_replace[OF wf]) (simp_all add: q'_def)
  with eq st' show ?thesis using that by (simp add: q'_def)
qed

lemma dequeue_stages:
  assumes wf: "pq_wf q" and st: "stages q = (e # es) # bs"
  obtains q' where "dequeue q = Inr (m_priority e, m_data e, q')" "pq_wf q'" "stages q' = es # bs"
    "m_num_entry q' = m_num_entry q - 1" "m_capacity q' = m_capacity q"
proof -
  define q' where "q' = q\<lparr>m_entry := (m_entry q)[m_current_index q := es],
      m_entry_pool := release_entry (pe_ptr e) (m_entry_pool q), m_num_entry := m_num_entry q - 1\<rparr>"
  have b: "m_entry q ! m_current_index q = e # es"
    using stages_first[OF wf] st by simp
  then have eq: "dequeue q = Inr (m_priority e, m_data e, q')"
    using pq_wfD[OF wf] by (simp add: dequeue_def q'_def)
  have "stages q' = stages (q\<lparr>m_entry := (m_entry q)[(m_current_index q + 0) mod m_size q := es]\<rparr>)"
    using pq_wfD(2)[OF wf] by (simp add: q'_def stages_def)
  also have "\<dots> = (stages q)[0 := es]"
    using pq_wfD(1,2)[OF wf] by (intro stages_update) auto
  finally have st': "stages q' = es # bs" by (simp add: st)
  have "distinct (map pe_ptr (concat (stages q)))" by (rule pq_wfD(8)[OF wf])
  then have d: "distinct (map pe_ptr (concat (stages q')))"
    and s: "set (map pe_ptr (concat (stages q'))) = set (map pe_ptr (concat (stages q))) - {pe_ptr e}"
    by (auto simp add: st st')
  have "pool_wf (set (map pe_ptr (concat (stages q))) - {pe_ptr e}) (m_entry_pool q')"
    unfolding q'_def using release_entry_wf[OF pq_wfD(9)[OF wf], of "pe_ptr e"] by (simp add: st)
  moreover have "list_all bucket_sorted (stages q')"
    using pq_wfD(7)[OF wf] by (simp add: st st' bucket_sorted_def)
  moreover have "m_num_entry q' = int (length (concat (stages q')))"
    using pq_wfD(5)[OF wf] by (simp add: q'_def[symmetric] st st') (simp add: q'_def)
  ultimately have "pq_wf q'"
    using pq_wfD(1,6)[OF wf] d s by (intro pq_wf_replace[OF wf]) (simp_all add: q'_def)
  with eq st' show ?thesis using that by (simp add: q'_def)
qed

lemma advance_idle:
  assumes "pq_wf q" "m_num_entry q = 0 \<or> stages q ! 0 \<noteq> []"
  shows "advance q = Inr (True, q)"
  using assms stages_first[OF assms(1)] by (auto simp add: advance_def pq_wfD)

lemma advance_stages:
  assumes wf: "pq_wf q" and ne: "m_num_entry q \<noteq> 0" and st: "stages q = [] # bs"
  obtains q' where "advance q = Inr (True, q')" "pq_wf q'" "stages q' = bs @ [[]]"
    "m_num_entry q' = m_num_entry q" "m_capacity q' = m_capacity q"
proof -
  define q' where "q' = q\<lparr>m_last_index := m_current_index q,
      m_current_index := (m_current_index q + 1) mod m_size q\<rparr>"
  note D = pq_wfD[OF wf]
  have b: "m_entry q ! m_current_index q = []" using stages_first[OF wf] st by simp
  then have eq: "advance q = Inr (True, q')"
    using ne D(1,2) by (simp add: advance_def q'_def)
  have "stages q' = rotate1 (stages q)"
  proof (rule nth_equalityI)
    fix i
    assume "i < length (stages q')"
    then have i: "i < m_size q" by (simp add: q'_def)
    then have "(Suc (m_current_index q) mod m_size q + i) mod m_size q = (m_current_index q + Suc i) mod m_size q"
      by (metis add_Suc add_Suc_right mod_add_left_eq)
    moreover have "(m_current_index q + Suc i mod m_size q) mod m_size q = (m_current_index q + Suc i) mod m_size q"
      by (rule mod_add_right_eq)
    ultimately show "stages q' ! i = rotate1 (stages q) ! i"
      using i by (simp add: nth_rotate1 stages_nth q'_def)
  qed (simp add: q'_def)
  then have st': "stages q' = bs @ [[]]" by (simp add: st)
  have "(Suc (m_current_index q) mod m_size q + m_size q - 1) mod m_size q = m_current_index q"
    using D(2) by (cases "Suc (m_current_index q) = m_size q") auto
  then have "pq_wf q'"
    using D by (auto simp add: pq_wf_def st' st q'_def[symmetric] list_all_iff bucket_sorted_def)
      (simp_all add: q'_def)
  with eq st' show ?thesis using that by (simp add: q'_def)
qed

lemma peek_list_spec:
  "0 \<le> cnt \<Longrightarrow> peek_list entry b cnt dat =
     (if cnt \<le> entry \<and> entry < cnt + int (length b)
      then (entry + 1, m_data (b ! nat (entry - cnt))) else (cnt + int (length b), dat))"
proof (induction b arbitrary: cnt)
  case Nil
  then show ?case by auto
next
  case (Cons e es)
  show ?case
  proof (cases "cnt = entry")
    case True
    then show ?thesis by simp
  next
    case False
    have "(e # es) ! nat (entry - cnt) = es ! nat (entry - (cnt + 1))" if "cnt < entry"
    proof -
      have "nat (entry - cnt) = Suc (nat (entry - (cnt + 1)))" using that by linarith
      then show ?thesis by simp
    qed
    with False Cons show ?thesis by auto
  qed
qed

text \<open>Once the entry has been passed the counter exceeds it and the value is kept.\<close>

lemma peek_buckets_spec:
  assumes "\<forall>i\<in>set iis. i mod m_size q < length (m_entry q)" "0 \<le> cnt"
  shows "peek_buckets entry q iis cnt dat =
    Inr (let l = concat (map (\<lambda>i. m_entry q ! (i mod m_size q)) iis)
         in if cnt \<le> entry \<and> entry < cnt + int (length l) then m_data (l ! nat (entry - cnt)) else dat)"
  using assms
proof (induction iis arbitrary: cnt dat)
  case Nil
  then show ?case by auto
next
  case (Cons i iis)
  let ?b = "m_entry q ! (i mod m_size q)" and ?l = "concat (map (\<lambda>i. m_entry q ! (i mod m_size q)) iis)"
  show ?case
  proof (cases "cnt \<le> entry \<and> entry < cnt + int (length ?b)")
    case True
    then have "nat (entry - cnt) < length ?b" by auto
    with Cons True show ?thesis
      by (auto simp add: peek_list_spec nth_append Let_def)
  next
    case False
    have "(?b @ ?l) ! nat (entry - cnt) = ?l ! nat (entry - (cnt + int (length ?b)))"
      if "cnt + int (length ?b) \<le> entry"
    proof -
      have "\<not> nat (entry - cnt) < length ?b" "nat (entry - cnt) - length ?b = nat (entry - (cnt + int (length ?b)))"
        using that by auto
      then show ?thesis by (simp add: nth_append)
    qed
    with Cons False show ?thesis by (auto simp add: peek_list_spec Let_def)
  qed
qed

lemma peek_spec:
  assumes "pq_wf q" "entry \<le> m_num_entry q"
  shows "peek entry q = Inr (if 0 \<le> entry \<and> entry < m_num_entry q then contents q ! nat entry else 0)"
proof -
  have "map (\<lambda>i. m_entry q ! (i mod m_size q)) [m_current_index q..<m_current_index q + m_size q] = stages q"
    by (rule nth_equalityI) (auto simp add: stages_def)
  moreover have "\<forall>i\<in>set [m_current_index q..<m_current_index q + m_size q]. i mod m_size q < length (m_entry q)"
    using pq_wfD(1,2)[OF assms(1)] by auto
  ultimately show ?thesis
    using assms pq_wfD(5)[OF assms(1)] nth_map[of "nat entry" "concat (stages q)" m_data]
    by (auto simp add: peek_def peek_buckets_spec Let_def contents_def nat_less_iff)
qed

lemma length_contents: "pq_wf q \<Longrightarrow> m_num_entry q = int (length (contents q))"
  by (simp add: contents_def pq_wfD(5))

section \<open>The contract of a pipeline queue\<close>

text \<open>
  \<open>cont\<close> lists the queued values in service order. A client that has seen the queue ready may
  peek and dequeue the head; a client that has seen room may enqueue.
\<close>

locale stage_queue =
  fixes invar :: "'q \<Rightarrow> bool"
    and cont :: "'q \<Rightarrow> 'a::zero list"
    and room :: "'q \<Rightarrow> int"
    and rdy :: "'q \<Rightarrow> bool res"
    and pk :: "int \<Rightarrow> 'q \<Rightarrow> 'a res"
    and deq :: "'q \<Rightarrow> (int \<times> 'a \<times> 'q) res"
    and enq :: "int \<Rightarrow> 'a \<Rightarrow> 'q \<Rightarrow> (bool \<times> 'q) res"
  assumes rdy_total: "invar q \<Longrightarrow> \<exists>b. rdy q = Inr b"
    and rdy_nonempty: "invar q \<Longrightarrow> rdy q = Inr True \<Longrightarrow> cont q \<noteq> []"
    and pk_head: "invar q \<Longrightarrow> cont q \<noteq> [] \<Longrightarrow> pk 0 q = Inr (hd (cont q))"
    and deq_head: "invar q \<Longrightarrow> rdy q = Inr True \<Longrightarrow>
      \<exists>p q'. deq q = Inr (p, hd (cont q), q') \<and> invar q' \<and> cont q' = tl (cont q) \<and> room q' = room q + 1"
    and enq_room: "invar q \<Longrightarrow> 0 < room q \<Longrightarrow>
      \<exists>q'. enq p x q = Inr (True, q') \<and> invar q' \<and> mset (cont q') = add_mset x (mset (cont q)) \<and>
        room q' = room q - 1"
    and enq_full: "invar q \<Longrightarrow> room q \<le> 0 \<Longrightarrow> enq p x q = Inl AssertFailed"
begin

lemma peek_then_dequeue:
  assumes "invar q" "rdy q = Inr True" "pk 0 q = Inr x" "deq q = Inr (p, y, q')"
  shows "y = x" and "invar q'" and "cont q = x # cont q'"
proof -
  have ne: "cont q \<noteq> []" using assms(1,2) by (rule rdy_nonempty)
  have x: "x = hd (cont q)" using pk_head[OF assms(1) ne] assms(3) by simp
  from deq_head[OF assms(1,2)] assms(4) have "y = hd (cont q)" "invar q'" "cont q' = tl (cont q)"
    by auto
  with x ne show "y = x" "invar q'" "cont q = x # cont q'" by simp_all
qed

lemma enqueue_cases:
  assumes "invar q"
  obtains (stored) q' where "enq p x q = Inr (True, q')" "invar q'" "0 < room q"
      "mset (cont q') = add_mset x (mset (cont q))" "room q' = room q - 1"
    | (full) "enq p x q = Inl AssertFailed" "room q \<le> 0"
  using enq_room[OF assms, of p x] enq_full[OF assms, of p x] by (cases "0 < room q") auto

end

lemma contents_Cons_iff:
  assumes "pq_wf q" "ready q = Inr True"
  obtains e es bs where "stages q = (e # es) # bs" "contents q = m_data e # map m_data (es @ concat bs)"
proof -
  obtain b bs where st: "stages q = b # bs" using stages_Cons[OF assms(1)] by blast
  with assms have "b \<noteq> []" by (simp add: ready_spec)
  then obtain e es where "b = e # es" by (cases b) auto
  with st that show ?thesis by (simp add: contents_def)
qed

interpretation pq: stage_queue pq_wf contents space ready peek dequeue enqueue
proof (unfold_locales, goal_cases)
  case (1 q)
  then show ?case by (simp add: ready_spec)
next
  case (2 q)
  then show ?case by (metis contents_Cons_iff list.distinct(1))
next
  case (3 q)
  then show ?case using peek_spec[of q 0] length_contents[of q] by (simp add: hd_conv_nth)
next
  case (4 q)
  then obtain e es bs where st: "stages q = (e # es) # bs" "contents q = m_data e # map m_data (es @ concat bs)"
    by (rule contents_Cons_iff)
  from dequeue_stages[OF 4(1) st(1)] obtain q' where
    "dequeue q = Inr (m_priority e, m_data e, q')" "pq_wf q'" "stages q' = es # bs"
    "m_num_entry q' = m_num_entry q - 1" "m_capacity q' = m_capacity q" by blast
  with st show ?case by (auto simp add: contents_def space_def)
next
  case (5 q p x)
  obtain bs b where st: "stages q = bs @ [b]" using stages_snoc[OF 5(1)] by blast
  from 5 have "m_num_entry q < m_capacity q" by (simp add: space_def)
  from enqueue_stages[OF 5(1) this st, of p x] obtain a q' where
    q': "enqueue p x q = Inr (True, q')" "pq_wf q'"
    "stages q' = bs @ [insert_entry \<lparr>pe_ptr = a, m_priority = p, m_data = x\<rparr> b]"
    "m_num_entry q' = m_num_entry q + 1" "m_capacity q' = m_capacity q" by blast
  then show ?case using st by (auto simp add: contents_def space_def mset_insert_entry)
next
  case (6 q p x)
  then show ?case by (simp add: enqueue_def space_def)
qed

lemma flush_bucket_unit: "m_poolexpand_unit (flush_bucket b p) = m_poolexpand_unit p"
  by (induction b arbitrary: p) (simp_all add: release_entry_def)

lemma flush_loop_unit: "m_poolexpand_unit (flush_loop bs p) = m_poolexpand_unit p"
  by (induction bs arbitrary: p) (simp_all add: flush_bucket_unit)

section \<open>Latency\<close>

primrec advance_n :: "nat \<Rightarrow> 'a pqueue \<Rightarrow> 'a pqueue res" where
  "advance_n 0 q = Inr q"
| "advance_n (Suc k) q = res_bind (advance_n k q) (\<lambda>q'. res_bind (advance q') (\<lambda>(_, q''). Inr q''))"

lemma advance_n_single:
  assumes "pq_wf q" "stages q = replicate lat [] @ [[e]]"
  shows "\<exists>q'. advance_n k q = Inr q' \<and> pq_wf q' \<and> m_capacity q' = m_capacity q \<and>
    stages q' = replicate (lat - k) [] @ [e] # replicate (min k lat) []"
proof (induction k)
  case 0
  with assms show ?case by simp
next
  case (Suc k)
  then obtain q' where q': "advance_n k q = Inr q'" "pq_wf q'"
    "stages q' = replicate (lat - k) [] @ [e] # replicate (min k lat) []" "m_capacity q' = m_capacity q" by blast
  show ?case
  proof (cases "lat - k")
    case 0
    with q' have "advance q' = Inr (True, q')" by (intro advance_idle) simp_all
    with q' 0 show ?thesis by (simp add: min_def)
  next
    case (Suc m)
    with q' have "m_num_entry q' \<noteq> 0"
      "stages q' = [] # (replicate m [] @ [e] # replicate (min k lat) [])"
      by (simp_all add: pq_wfD(5))
    from advance_stages[OF q'(2) this] obtain q'' where
      "advance q' = Inr (True, q'')" "pq_wf q''"
      "stages q'' = (replicate m [] @ [e] # replicate (min k lat) []) @ [[]]"
      "m_capacity q'' = m_capacity q'" by blast
    moreover have "lat - Suc k = m" "min (Suc k) lat = Suc (min k lat)" using Suc by auto
    ultimately show ?thesis
      using q'(1,4) by (simp add: replicate_append_same)
  qed
qed

section \<open>Properties\<close>

text \<open>\<^verbatim>\<open>enqueue\<close> on a well-formed queue with room succeeds, keeps
  the invariant, and puts the entry in the last stage behind every entry of the same or a higher
  priority and before every entry of a lower one; all other stages are unchanged.\<close>

theorem enqueue_priority_fifo:
  assumes "pq_wf q" "m_num_entry q < m_capacity q" "stages q = bs @ [b]"
  shows "\<exists>a q'. enqueue prio dat q = Inr (True, q') \<and> pq_wf q' \<and>
    stages q' = bs @ [filter (\<lambda>x. prio \<le> m_priority x) b @ \<lparr>pe_ptr = a, m_priority = prio, m_data = dat\<rparr> #
      filter (\<lambda>x. m_priority x < prio) b]"
proof -
  have "bucket_sorted b" using pq_wfD(7)[OF assms(1)] assms(3) by simp
  moreover obtain a q' where "enqueue prio dat q = Inr (True, q')" "pq_wf q'"
    "stages q' = bs @ [insert_entry \<lparr>pe_ptr = a, m_priority = prio, m_data = dat\<rparr> b]"
    using enqueue_stages[OF assms] by metis
  ultimately show ?thesis by (auto simp add: insert_entry_sorted_eq)
qed

theorem enqueue_priority_fifo_witness:
  "pq_wf (pqueue_c 8 1 :: nat pqueue) \<and> stages (pqueue_c 8 1 :: nat pqueue) = [[]] @ [[]] \<and>
   (\<exists>a q'. enqueue 5 (42::nat) (pqueue_c 8 1) = Inr (True, q') \<and>
      stages q' = [[]] @ [[\<lparr>pe_ptr = a, m_priority = 5, m_data = 42\<rparr>]])"
proof -
  have w: "pq_wf (pqueue_c 8 1 :: nat pqueue)" by (simp add: pq_wf_new)
  have r: "m_num_entry (pqueue_c 8 1 :: nat pqueue) < m_capacity (pqueue_c 8 1 :: nat pqueue)"
    by (simp add: pqueue_c_def)
  have s: "stages (pqueue_c 8 1 :: nat pqueue) = [[]] @ [[]]"
    by (simp add: stages_def pqueue_c_def numeral_2_eq_2 upt_rec)
  from enqueue_priority_fifo[OF w r s, of 5 42] w s show ?thesis by auto
qed

text \<open>C29. On a well-formed queue every operation a stage performs succeeds and keeps
  the invariant: \<^verbatim>\<open>ready\<close> and \<^verbatim>\<open>advance\<close> always, \<^verbatim>\<open>dequeue\<close> when
  ready, \<^verbatim>\<open>enqueue\<close> when there is room (and otherwise its assertion fails). Aging
  never changes the order of service, and \<^verbatim>\<open>dequeue\<close> returns its head.\<close>

theorem pqueue_operations_safe:
  fixes q :: "'a::zero pqueue"
  assumes "pq_wf q"
  shows "(\<exists>b. ready q = Inr b) \<and>
    (\<exists>q'. advance q = Inr (True, q') \<and> pq_wf q' \<and> contents q' = contents q) \<and>
    (ready q = Inr True \<longrightarrow> (\<exists>p q'. dequeue q = Inr (p, hd (contents q), q') \<and> pq_wf q' \<and> contents q' = tl (contents q))) \<and>
    (if 0 < space q then \<exists>q'. enqueue prio x q = Inr (True, q') \<and> pq_wf q' \<and>
        mset (contents q') = add_mset x (mset (contents q))
     else enqueue prio x q = Inl AssertFailed)"
proof -
  have "\<exists>q'. advance q = Inr (True, q') \<and> pq_wf q' \<and> contents q' = contents q"
  proof (cases "m_num_entry q = 0 \<or> stages q ! 0 \<noteq> []")
    case True
    with advance_idle[OF assms] assms show ?thesis by blast
  next
    case False
    obtain b bs where "stages q = b # bs" using stages_Cons[OF assms] by blast
    with False have "stages q = [] # bs" by simp
    with advance_stages[OF assms _ this] False show ?thesis by (fastforce simp add: contents_def)
  qed
  moreover have "ready q = Inr True \<longrightarrow>
      (\<exists>p q'. dequeue q = Inr (p, hd (contents q), q') \<and> pq_wf q' \<and> contents q' = tl (contents q))"
    using pq.deq_head[OF assms] by blast
  moreover have "\<exists>b. ready q = Inr b" by (rule pq.rdy_total[OF assms])
  ultimately show ?thesis
    using pq.enq_room[OF assms, of prio x] pq.enq_full[OF assms, of prio x] by auto
qed

theorem pqueue_operations_safe_witness:
  "pq_wf (pqueue_c 4 2 :: nat pqueue) \<and>
   (\<exists>q'. enqueue 0 (9::nat) (pqueue_c 4 2) = Inr (True, q') \<and> pq_wf q')"
proof -
  have w: "pq_wf (pqueue_c 4 2 :: nat pqueue)" by (simp add: pq_wf_new)
  have "0 < space (pqueue_c 4 2 :: nat pqueue)" by (simp add: space_def pqueue_c_def)
  with w pqueue_operations_safe[OF w, of 0 9] show ?thesis by auto
qed

text \<open>\<^verbatim>\<open>peek(n)\<close> returns the value that is n-th in service order; for
  \<open>n\<close> equal to the number of entries its assertion does not fire and it returns 0.\<close>

theorem peek_service_order:
  fixes q :: "'a::zero pqueue"
  assumes "pq_wf q"
  shows "peek (int n) q =
    (if n < length (contents q) then Inr (contents q ! n)
     else if n = length (contents q) then Inr 0 else Inl AssertFailed)"
  using peek_spec[OF assms, of "int n"] length_contents[OF assms] by (auto simp add: peek_def)

theorem peek_service_order_witness:
  "pq_wf (pqueue_c 4 2 :: nat pqueue) \<and> peek (int 0) (pqueue_c 4 2 :: nat pqueue) = Inr 0"
proof -
  have w: "pq_wf (pqueue_c 4 2 :: nat pqueue)" by (simp add: pq_wf_new)
  have "length (contents (pqueue_c 4 2 :: nat pqueue)) = 0"
    using length_contents[OF w] by (simp add: pqueue_c_def)
  with w peek_service_order[OF w, of 0] show ?thesis by simp
qed

text \<open>C18. An entry put into an empty queue of latency \<open>lat\<close>, whatever bucket is the current one,
  takes exactly \<open>lat\<close> cycles of \<^verbatim>\<open>advance\<close>: after fewer the queue is not ready and
  \<^verbatim>\<open>dequeue\<close> would read the front of an empty bucket; after \<open>lat\<close> or more it is ready and
  \<^verbatim>\<open>dequeue\<close> returns the priority and the data that were put in, leaving the queue empty, with
  its capacity back and its invariant kept.\<close>

theorem pqueue_latency_exact:
  fixes q0 :: "'a pqueue"
  assumes wf: "pq_wf q0" and empty: "m_num_entry q0 = 0" and lat: "m_size q0 = lat + 1" and cap: "0 < m_capacity q0"
  shows "\<exists>q. enqueue prio dat q0 = Inr (True, q) \<and>
    (\<forall>k. \<exists>q'. advance_n k q = Inr q' \<and> ready q' = Inr (lat \<le> k) \<and>
      (if lat \<le> k
       then \<exists>q''. dequeue q' = Inr (prio, dat, q'') \<and> pq_wf q'' \<and> contents q'' = [] \<and> space q'' = space q0
       else dequeue q' = Inl EmptyAccess))"
proof -
  have "\<forall>b\<in>set (stages q0). b = []" using pq_wfD(5)[OF wf] empty by simp
  then have "stages q0 = replicate (lat + 1) []"
    using replicate_length_same[of "stages q0" "[]"] lat by simp
  then have s: "stages q0 = replicate lat [] @ [[]]" by (simp add: replicate_append_same)
  have r: "m_num_entry q0 < m_capacity q0" using empty cap by simp
  obtain a q where q: "enqueue prio dat q0 = Inr (True, q)" "pq_wf q" "m_capacity q = m_capacity q0"
    "stages q = replicate lat [] @ [insert_entry \<lparr>pe_ptr = a, m_priority = prio, m_data = dat\<rparr> []]"
    using enqueue_stages[OF wf r s] by metis
  define e where "e = \<lparr>pe_ptr = a, m_priority = prio, m_data = dat\<rparr>"
  have "\<exists>q'. advance_n k q = Inr q' \<and> ready q' = Inr (lat \<le> k) \<and>
      (if lat \<le> k
       then \<exists>q''. dequeue q' = Inr (prio, dat, q'') \<and> pq_wf q'' \<and> contents q'' = [] \<and> space q'' = space q0
       else dequeue q' = Inl EmptyAccess)" for k
  proof -
    obtain q' where q': "advance_n k q = Inr q'" "pq_wf q'" "m_capacity q' = m_capacity q"
      "stages q' = replicate (lat - k) [] @ [e] # replicate (min k lat) []"
      using advance_n_single[OF q(2), of lat] q(4) by (metis insert_entry.simps(1) e_def)
    then have first: "stages q' ! 0 = (if lat \<le> k then [e] else [])" by (simp add: nth_append)
    show ?thesis
    proof (cases "lat \<le> k")
      case True
      with q'(4) have st: "stages q' = (e # []) # replicate lat []" by simp
      obtain q'' where q'': "dequeue q' = Inr (m_priority e, m_data e, q'')" "pq_wf q''" "stages q'' = [] # replicate lat []"
        "m_capacity q'' = m_capacity q'"
        using dequeue_stages[OF q'(2) st] by metis
      then have c: "contents q'' = []" by (simp add: contents_def)
      have "m_num_entry q'' = 0" using pq_wfD(5)[OF q''(2)] q''(3) by simp
      then have "space q'' = space q0" using q''(4) q'(3) q(3) empty by (simp add: space_def)
      with True c q'' q' first show ?thesis by (simp add: ready_spec e_def)
    next
      case False
      with first stages_first[OF q'(2)] have "dequeue q' = Inl EmptyAccess" by (simp add: dequeue_def pq_wfD[OF q'(2)])
      with False q' first show ?thesis by (simp add: ready_spec)
    qed
  qed
  with q(1) show ?thesis by blast
qed

theorem pqueue_latency_exact_witness:
  "\<exists>q q3 q''. enqueue 5 (7::nat) (pqueue_c 16 3) = Inr (True, q) \<and> advance_n 3 q = Inr q3 \<and>
    ready q3 = Inr True \<and> dequeue q3 = Inr (5, 7, q'') \<and> contents q'' = []"
proof -
  have "pq_wf (pqueue_c 16 3 :: nat pqueue)" "m_num_entry (pqueue_c 16 3 :: nat pqueue) = 0"
    "m_size (pqueue_c 16 3 :: nat pqueue) = 3 + 1" "0 < m_capacity (pqueue_c 16 3 :: nat pqueue)"
    by (simp_all add: pq_wf_new) (simp_all add: pqueue_c_def)
  from pqueue_latency_exact[OF this, of 5 7] obtain q where q: "enqueue 5 (7::nat) (pqueue_c 16 3) = Inr (True, q)"
    "\<exists>q'. advance_n 3 q = Inr q' \<and> ready q' = Inr (3 \<le> (3::nat)) \<and>
      (if 3 \<le> (3::nat) then \<exists>q''. dequeue q' = Inr (5, 7, q'') \<and> pq_wf q'' \<and> contents q'' = [] \<and>
        space q'' = space (pqueue_c 16 3 :: nat pqueue) else dequeue q' = Inl EmptyAccess)" by blast
  then show ?thesis by auto
qed

text \<open>\<^verbatim>\<open>flush\<close> sets \<^verbatim>\<open>m_last_index\<close> to \<^verbatim>\<open>m_size\<close>, one
  past the last bucket (the constructor sets it to \<^verbatim>\<open>m_size - 1\<close>): the first
  \<^verbatim>\<open>enqueue\<close> after a flush indexes the bucket array out of bounds.\<close>

theorem flush_then_enqueue_out_of_bounds:
  assumes "pq_wf q" "0 < m_capacity q"
  shows "enqueue prio dat (flush q) = Inl OutOfBounds \<and> \<not> pq_wf (flush q)"
proof -
  have "0 < m_poolexpand_unit (m_entry_pool q)" using pq_wfD(9)[OF assms(1)] by (simp add: pool_wf_def)
  then have "0 < m_poolexpand_unit (m_entry_pool (flush q))"
    by (simp add: flush_def flush_loop_unit)
  then obtain a p where "acquire_entry (m_entry_pool (flush q)) = Inr (a, p)"
    using acquire_entry_total by blast
  moreover have "\<not> pq_wf (flush q)"
    using pq_wfD(4)[of "flush q"] by (auto simp add: flush_def)
  ultimately show ?thesis using assms(2) by (simp add: enqueue_def flush_def)
qed

theorem flush_then_enqueue_out_of_bounds_witness:
  "pq_wf (pqueue_c 4 2 :: nat pqueue) \<and> enqueue 0 (1::nat) (flush (pqueue_c 4 2)) = Inl OutOfBounds"
proof -
  have w: "pq_wf (pqueue_c 4 2 :: nat pqueue)" by (simp add: pq_wf_new)
  have "0 < m_capacity (pqueue_c 4 2 :: nat pqueue)" by (simp add: pqueue_c_def)
  with w flush_then_enqueue_out_of_bounds[OF w] show ?thesis by blast
qed

end
