(* ===== verification/Cache.thy ===== *)
theory Cache
  imports Utils
begin

text \<open>
  The set-associative cache library \<^verbatim>\<open>cache_c\<close> of \<^verbatim>\<open>src/src/cache.h\<close> and
  \<^verbatim>\<open>src/src/cache.cc\<close>. A line's \<^verbatim>\<open>m_data\<close> buffer is a value of the line
  (every line owns its buffer), and the \<^verbatim>\<open>void*\<close> that \<^verbatim>\<open>access_cache\<close> and
  \<^verbatim>\<open>insert_cache\<close> return is the pair of set and way that owns it. The simulation
  cycle and the knobs are arguments. The fields \<^verbatim>\<open>m_x\<close> of the classes are named
  \<open>ce_x\<close> (entry), \<open>cs_x\<close> (set) and \<open>c_x\<close> (cache).
\<close>

section \<open>Data\<close>

datatype Cache_Type =
    CACHE_IL1 | CACHE_DL1 | CACHE_IL2 | CACHE_DL2 | CACHE_DLLC
  | CACHE_CONST | CACHE_TEXTURE | CACHE_SW_MANAGED | CACHE_BTB

record 'd cache_entry =
  ce_valid :: bool
  ce_tag :: Addr
  ce_base :: Addr
  ce_last_access_time :: Counter
  ce_access_counter :: Counter
  ce_data :: 'd
  ce_pref :: bool
  ce_dirty :: bool
  ce_appl_id :: int
  ce_gpuline :: bool
  ce_skip :: bool

record 'd cache_set =
  cs_entry :: "'d cache_entry list"
  cs_assoc :: nat
  cs_num_cpu_line :: int
  cs_num_gpu_line :: int

record 'd cache =
  c_cache_type :: Cache_Type
  c_data_size :: int
  c_assoc :: nat
  c_num_sets :: nat
  c_line_size :: nat
  c_set_bits :: nat
  c_shift_bits :: nat
  c_set_mask :: Addr
  c_tag_mask :: Addr
  c_offset_mask :: Addr
  c_bank_num :: nat
  c_core_id :: int
  c_cache_by_pass :: bool
  c_num_cpu_line :: int
  c_num_gpu_line :: int
  c_insert_count :: Counter
  c_enable_partition :: bool
  c_num_tiles :: nat
  c_tile_bits :: nat
  c_interleave_factor :: nat
  c_interleave_bits :: nat
  c_interleave_mask :: Addr
  c_set :: "'d cache_set list"

record cache_knobs =
  KNOB_CACHE_USE_PSEUDO_LRU :: bool
  KNOB_HETERO_STATIC_CPU_PARTITION :: int
  KNOB_HETERO_STATIC_CACHE_PARTITION :: bool
  KNOB_COLLECT_CACHE_INFO :: nat

definition MAX_INT :: Counter where
  "MAX_INT = 0x7fffffff"

text \<open>
  The constructors leave several fields unset: \<open>junk\<close> is the indeterminate initial content
  of an entry, \<open>jc\<close> and \<open>jg\<close> that of the two per-set line counters, which
  \<^verbatim>\<open>cache_set_c\<close> never initialises.
\<close>

definition cache_entry_c :: "'d cache_entry \<Rightarrow> 'd cache_entry" where
  "cache_entry_c junk = junk\<lparr>ce_valid := False, ce_last_access_time := 0\<rparr>"

definition cache_set_c :: "'d cache_entry \<Rightarrow> int \<Rightarrow> int \<Rightarrow> nat \<Rightarrow> 'd cache_set" where
  "cache_set_c junk jc jg assoc =
     \<lparr>cs_entry = replicate assoc (cache_entry_c junk), cs_assoc = assoc,
      cs_num_cpu_line = jc, cs_num_gpu_line = jg\<rparr>"

definition cache_c ::
  "'d::zero cache_entry \<Rightarrow> int \<Rightarrow> int \<Rightarrow> nat \<Rightarrow> nat \<Rightarrow> nat \<Rightarrow> int \<Rightarrow> nat \<Rightarrow> bool \<Rightarrow> int \<Rightarrow>
   Cache_Type \<Rightarrow> bool \<Rightarrow> nat \<Rightarrow> nat \<Rightarrow> 'd cache" where
  "cache_c junk jc jg num_set assoc line_size data_size bank_num cache_by_pass core_id
           cache_type_info enable_partition num_tiles interleave_factor =
     (let tiles = (if num_tiles > 0 then num_tiles else 1);
          shift_bits = unat (log2_int (of_nat line_size));
          set_mask = N_BIT_MASK (unat (log2_int (of_nat num_set)));
          init_line = (\<lambda>e. e\<lparr>ce_valid := False, ce_access_counter := 0,
                            ce_data := (if data_size > 0 then 0 else ce_data e)\<rparr>)
      in \<lparr>c_cache_type = cache_type_info,
          c_data_size = data_size,
          c_assoc = assoc,
          c_num_sets = num_set,
          c_line_size = line_size,
          c_set_bits = unat (log2_int (of_nat num_set)),
          c_shift_bits = shift_bits,
          c_set_mask = set_mask,
          c_tag_mask = NOT set_mask,
          c_offset_mask = N_BIT_MASK shift_bits,
          c_bank_num = bank_num,
          c_core_id = core_id,
          c_cache_by_pass = cache_by_pass,
          c_num_cpu_line = 0,
          c_num_gpu_line = 0,
          c_insert_count = 0,
          c_enable_partition = enable_partition,
          c_num_tiles = tiles,
          c_tile_bits = (if (of_nat tiles :: uns32) AND of_nat (tiles - 1) = 0
                         then unat (log2_int (of_nat tiles)) else 0),
          c_interleave_factor = interleave_factor,
          c_interleave_bits = unat (log2_int (of_nat interleave_factor)),
          c_interleave_mask = N_BIT_MASK (unat (log2_int (of_nat interleave_factor))),
          c_set = replicate num_set
            (let s = cache_set_c junk jc jg assoc in s\<lparr>cs_entry := map init_line (cs_entry s)\<rparr>)\<rparr>)"

section \<open>Addresses\<close>

definition mod_addr :: "'d cache \<Rightarrow> Addr \<Rightarrow> Addr" where
  "mod_addr c a =
     (if c_tile_bits c \<noteq> 0
      then push_bit (c_interleave_bits c) (drop_bit (c_interleave_bits c + c_tile_bits c) a) OR
           (a AND c_interleave_mask c)
      else push_bit (c_interleave_bits c) (drop_bit (c_interleave_bits c) a div of_nat (c_num_tiles c)) OR
           (a AND c_interleave_mask c))"

definition find_tag_and_set :: "'d cache \<Rightarrow> Addr \<Rightarrow> Addr \<times> nat" where
  "find_tag_and_set c a =
     (let b = (if c_num_tiles c = 1 then a else mod_addr c a)
      in (drop_bit (c_shift_bits c) b AND c_tag_mask c,
          unat (drop_bit (c_shift_bits c) b AND c_set_mask c)))"

definition base_cache_line :: "'d cache \<Rightarrow> Addr \<Rightarrow> Addr" where
  "base_cache_line c a = a AND NOT (c_offset_mask c)"

definition get_bank_num :: "'d cache \<Rightarrow> Addr \<Rightarrow> nat" where
  "get_bank_num c a =
     (let b = (if c_num_tiles c = 1 then a else mod_addr c a)
      in unat (drop_bit (c_shift_bits c) b AND N_BIT_MASK (unat (log2_int (of_nat (c_bank_num c))))))"

section \<open>Access\<close>

fun find_way :: "Addr \<Rightarrow> 'd cache_entry list \<Rightarrow> nat option" where
  "find_way tag [] = None"
| "find_way tag (l # ls) =
     (if ce_valid l \<and> ce_tag l = tag then Some 0 else map_option Suc (find_way tag ls))"

definition upd_line :: "nat \<Rightarrow> nat \<Rightarrow> ('d cache_entry \<Rightarrow> 'd cache_entry) \<Rightarrow> 'd cache \<Rightarrow> 'd cache" where
  "upd_line st way f c =
     c\<lparr>c_set := (c_set c)[st := (c_set c ! st)\<lparr>cs_entry :=
        (cs_entry (c_set c ! st))[way := f (cs_entry (c_set c ! st) ! way)]\<rparr>]\<rparr>"

definition update_line_on_hit :: "Counter \<Rightarrow> 'd cache_entry \<Rightarrow> 'd cache_entry" where
  "update_line_on_hit cycle l = l\<lparr>ce_last_access_time := cycle\<rparr>"

text \<open>The base class's \<^verbatim>\<open>update_cache_on_access\<close> and \<^verbatim>\<open>update_cache_on_miss\<close> are
  empty.\<close>

definition access_cache ::
  "Counter \<Rightarrow> Addr \<Rightarrow> bool \<Rightarrow> 'd cache \<Rightarrow> (Addr option \<times> (nat \<times> nat) option \<times> 'd cache) res" where
  "access_cache cycle a update_repl c =
     (if c_cache_by_pass c then Inr (None, None, c)
      else
        let (tag, st) = find_tag_and_set c a in
        res_bind (arr_get (c_set c) st) (\<lambda>s.
        case find_way tag (cs_entry s) of
          None \<Rightarrow> Inr (Some (base_cache_line c a), None, c)
        | Some way \<Rightarrow>
            Inr (Some (base_cache_line c a), Some (st, way),
                 if update_repl
                 then upd_line st way (\<lambda>l. update_line_on_hit cycle (l\<lparr>ce_pref := False\<rparr>)) c
                 else c)))"

section \<open>Replacement\<close>

fun plru_scan :: "'d cache_entry list \<Rightarrow> nat option" where
  "plru_scan [] = None"
| "plru_scan (l # ls) =
     (if \<not> ce_valid l \<or> ce_last_access_time l = 0 then Some 0 else map_option Suc (plru_scan ls))"

text \<open>The \<^verbatim>\<open>while (1)\<close> of the pseudo-LRU policy, with fuel; \<open>plru_two_rounds\<close> below
  shows that two rounds are always enough.\<close>

fun plru_loop :: "nat \<Rightarrow> 'd cache_entry list \<Rightarrow> (nat \<times> 'd cache_entry list) option" where
  "plru_loop 0 ls = None"
| "plru_loop (Suc fuel) ls =
     (case plru_scan ls of
        Some way \<Rightarrow> Some (way, ls)
      | None \<Rightarrow> plru_loop fuel (map (\<lambda>l. l\<lparr>ce_last_access_time := 0\<rparr>) ls))"

fun lru_loop :: "nat \<Rightarrow> 'd cache_entry list \<Rightarrow> nat \<Rightarrow> Counter \<Rightarrow> nat" where
  "lru_loop i [] lru_ind lru_time = lru_ind"
| "lru_loop i (l # ls) lru_ind lru_time =
     (if \<not> ce_valid l then i
      else if ce_last_access_time l < lru_time then lru_loop (Suc i) ls i (ce_last_access_time l)
      else lru_loop (Suc i) ls lru_ind lru_time)"

definition find_replacement_line ::
  "cache_knobs \<Rightarrow> 'd cache_entry list \<Rightarrow> (nat \<times> 'd cache_entry list) option" where
  "find_replacement_line k ls =
     (if KNOB_CACHE_USE_PSEUDO_LRU k then plru_loop 2 ls
      else Some (lru_loop 0 ls 0 MAX_INT, ls))"

fun same_type_loop ::
  "bool \<Rightarrow> bool \<Rightarrow> nat \<Rightarrow> 'd cache_entry list \<Rightarrow> nat option \<Rightarrow> Counter \<Rightarrow> nat option" where
  "same_type_loop gpuline room i [] lru_index lru_time = lru_index"
| "same_type_loop gpuline room i (l # ls) lru_index lru_time =
     (if \<not> ce_valid l \<and> room then Some i
      else if ce_valid l \<and> ce_gpuline l = gpuline \<and> ce_last_access_time l < lru_time
           then same_type_loop gpuline room (Suc i) ls (Some i) (ce_last_access_time l)
      else same_type_loop gpuline room (Suc i) ls lru_index lru_time)"

definition find_replacement_line_from_same_type ::
  "cache_knobs \<Rightarrow> nat \<Rightarrow> 'd cache_set \<Rightarrow> bool \<Rightarrow> nat res" where
  "find_replacement_line_from_same_type k assoc s gpuline =
     (let current_type_count = (if gpuline then cs_num_gpu_line s else cs_num_cpu_line s);
          current_type_max = (if gpuline then int assoc - KNOB_HETERO_STATIC_CPU_PARTITION k
                              else KNOB_HETERO_STATIC_CPU_PARTITION k)
      in case same_type_loop gpuline (current_type_count < current_type_max) 0 (cs_entry s) None ULLONG_MAX of
           None \<Rightarrow> Inl AssertFailed
         | Some i \<Rightarrow> Inr i)"

section \<open>Insertion\<close>

definition initialize_cache_line ::
  "Counter \<Rightarrow> nat \<Rightarrow> nat \<Rightarrow> Addr \<Rightarrow> Addr \<Rightarrow> int \<Rightarrow> bool \<Rightarrow> bool \<Rightarrow> 'd cache \<Rightarrow> 'd cache" where
  "initialize_cache_line cycle st way tag a appl_id gpuline skip c =
     (let c1 = upd_line st way (\<lambda>l. l\<lparr>ce_valid := True, ce_tag := tag,
                 ce_base := a AND NOT (c_offset_mask c), ce_access_counter := 0,
                 ce_last_access_time := cycle, ce_pref := False, ce_skip := skip,
                 ce_appl_id := appl_id, ce_gpuline := gpuline\<rparr>) c;
          s = c_set c1 ! st
      in if gpuline
         then c1\<lparr>c_num_gpu_line := c_num_gpu_line c1 + 1,
                 c_set := (c_set c1)[st := s\<lparr>cs_num_gpu_line := cs_num_gpu_line s + 1\<rparr>]\<rparr>
         else c1\<lparr>c_num_cpu_line := c_num_cpu_line c1 + 1,
                 c_set := (c_set c1)[st := s\<lparr>cs_num_cpu_line := cs_num_cpu_line s + 1\<rparr>]\<rparr>)"

definition update_set_on_replacement :: "nat \<Rightarrow> bool \<Rightarrow> 'd cache \<Rightarrow> 'd cache" where
  "update_set_on_replacement st gpuline c =
     (let s = c_set c ! st
      in if gpuline
         then c\<lparr>c_num_gpu_line := c_num_gpu_line c - 1,
                c_set := (c_set c)[st := s\<lparr>cs_num_gpu_line := cs_num_gpu_line s - 1\<rparr>]\<rparr>
         else c\<lparr>c_num_cpu_line := c_num_cpu_line c - 1,
                c_set := (c_set c)[st := s\<lparr>cs_num_cpu_line := cs_num_cpu_line s - 1\<rparr>]\<rparr>)"

text \<open>
  The replacement choice of \<^verbatim>\<open>insert_cache\<close>: the way and the cache (the pseudo-LRU
  policy clears timestamps). A set without ways (associativity 0) makes the LRU policy read out of
  bounds (\<open>OutOfBounds\<close>) and the pseudo-LRU loop run forever (\<open>Diverges\<close>).
\<close>

definition choose_line ::
  "cache_knobs \<Rightarrow> nat \<Rightarrow> bool \<Rightarrow> 'd cache \<Rightarrow> (nat \<times> 'd cache) res" where
  "choose_line k st gpuline c =
     res_bind (arr_get (c_set c) st) (\<lambda>s.
     res_bind
       (if KNOB_HETERO_STATIC_CACHE_PARTITION k \<and> c_enable_partition c
        then res_bind (find_replacement_line_from_same_type k (c_assoc c) s gpuline)
               (\<lambda>way. Inr (way, cs_entry s))
        else case find_replacement_line k (cs_entry s) of
               None \<Rightarrow> Inl Diverges
             | Some r \<Rightarrow> Inr r) (\<lambda>(way, ls).
     check (way < length ls) OutOfBounds
       (Inr (way, c\<lparr>c_set := (c_set c)[st := s\<lparr>cs_entry := ls\<rparr>]\<rparr>))))"

definition insert_cache ::
  "cache_knobs \<Rightarrow> Counter \<Rightarrow> Addr \<Rightarrow> int \<Rightarrow> bool \<Rightarrow> bool \<Rightarrow> 'd cache \<Rightarrow>
   (Addr \<times> Addr \<times> (nat \<times> nat) \<times> 'd cache) res" where
  "insert_cache k cycle a appl_id gpuline skip c =
     (let line_addr = base_cache_line c a;
          (tag, st) = find_tag_and_set c a
      in res_bind (choose_line k st gpuline c) (\<lambda>(way, c1).
         let ins_line = cs_entry (c_set c1 ! st) ! way;
             updated_line = (if ce_valid ins_line then ce_base ins_line else 0);
             c2 = (if ce_valid ins_line
                   then update_set_on_replacement st (ce_gpuline ins_line) c1 else c1);
             c3 = initialize_cache_line cycle st way tag a appl_id gpuline skip c2
         in Inr (line_addr, updated_line, (st, way),
                 c3\<lparr>c_insert_count := c_insert_count c3 + 1\<rparr>)))"

section \<open>Invalidation and statistics\<close>

definition null_cache_line_fields :: "int \<Rightarrow> 'd::zero cache_entry \<Rightarrow> bool \<times> 'd cache_entry" where
  "null_cache_line_fields data_size l =
     (ce_dirty l,
      l\<lparr>ce_tag := 0, ce_valid := False, ce_base := 0,
        ce_data := (if data_size > 0 then 0 else ce_data l)\<rparr>)"

definition invalidate_cache_line :: "Addr \<Rightarrow> 'd::zero cache \<Rightarrow> (bool \<times> 'd cache) res" where
  "invalidate_cache_line a c =
     (let (tag, st) = find_tag_and_set c a
      in res_bind (arr_get (c_set c) st) (\<lambda>s.
         case find_way tag (cs_entry s) of
           None \<Rightarrow> Inr (False, c)
         | Some way \<Rightarrow>
             Inr (fst (null_cache_line_fields (c_data_size c) (cs_entry s ! way)),
                  upd_line st way (\<lambda>l. snd (null_cache_line_fields (c_data_size c) l)) c)))"

definition invalidate_cache :: "'d::zero cache \<Rightarrow> 'd cache" where
  "invalidate_cache c =
     c\<lparr>c_set := map (\<lambda>s. s\<lparr>cs_entry :=
         map (\<lambda>l. l\<lparr>ce_valid := False, ce_tag := 0,
                    ce_data := (if c_data_size c > 0 then 0 else ce_data l)\<rparr>) (cs_entry s)\<rparr>) (c_set c)\<rparr>"

fun min_lru_loop :: "'d cache_entry list \<Rightarrow> Counter \<Rightarrow> Counter" where
  "min_lru_loop [] lru_time = lru_time"
| "min_lru_loop (l # ls) lru_time =
     min_lru_loop ls (if ce_valid l \<and> ce_last_access_time l < lru_time
                      then ce_last_access_time l else lru_time)"

definition find_min_lru :: "Counter \<Rightarrow> nat \<Rightarrow> 'd cache \<Rightarrow> Counter res" where
  "find_min_lru cycle st c =
     res_bind (arr_get (c_set c) st) (\<lambda>s.
     let lru_time = min_lru_loop (cs_entry s) MAX_INT
     in Inr (if lru_time = MAX_INT then cycle else lru_time))"

definition print_info :: "cache_knobs \<Rightarrow> 'd cache \<Rightarrow> (int \<times> int) option \<times> 'd cache" where
  "print_info k c =
     (if KNOB_COLLECT_CACHE_INFO k > 0
      then let c' = c\<lparr>c_insert_count := c_insert_count c + 1\<rparr>
           in (if c_insert_count c' mod of_nat (KNOB_COLLECT_CACHE_INFO k) = 0
               then Some (c_num_cpu_line c', c_num_gpu_line c') else None, c')
      else (None, c))"

section \<open>Address decomposition\<close>

definition cache_geom :: "'d cache \<Rightarrow> bool" where
  "cache_geom c \<longleftrightarrow>
     c_num_tiles c = 1 \<and> c_set_mask c = mask (c_set_bits c) \<and> c_tag_mask c = NOT (c_set_mask c) \<and>
     c_offset_mask c = mask (c_shift_bits c) \<and> 2 ^ c_set_bits c \<le> c_num_sets c \<and>
     length (c_set c) = c_num_sets c"

lemma find_tag_and_set_geom:
  "cache_geom c \<Longrightarrow> find_tag_and_set c a =
     (drop_bit (c_shift_bits c) a AND NOT (mask (c_set_bits c)),
      unat (drop_bit (c_shift_bits c) a AND mask (c_set_bits c)))"
  by (simp add: find_tag_and_set_def cache_geom_def)

lemma set_in_range:
  assumes "cache_geom c"
  shows "snd (find_tag_and_set c a) < length (c_set c)"
proof -
  have "unat (drop_bit (c_shift_bits c) a AND mask (c_set_bits c)) < 2 ^ c_set_bits c"
    by (simp add: unat_and_mask)
  with assms show ?thesis by (auto simp add: find_tag_and_set_geom cache_geom_def)
qed

lemma and_mask_split: "x AND NOT (mask n) = y AND NOT (mask n) \<Longrightarrow> x AND mask n = y AND mask n \<Longrightarrow> x = y"
  for x y :: "'a::len word"
  by (metis bit.conj_disj_distrib bit.disj_cancel_right and.right_neutral)

lemma drop_bit_eq_iff_base:
  "drop_bit n x = drop_bit n y \<longleftrightarrow> x AND NOT (mask n) = y AND NOT (mask n)"
  for x y :: "'a::len word"
proof
  assume d: "drop_bit n x = drop_bit n y"
  show "x AND NOT (mask n) = y AND NOT (mask n)"
  proof (rule bit_word_eqI)
    fix i
    assume "i < LENGTH('a)"
    have "bit x i = bit y i" if "n \<le> i"
      using arg_cong[OF d, of "\<lambda>w. bit w (i - n)"] that by (simp add: bit_drop_bit_eq)
    then show "bit (x AND NOT (mask n)) i = bit (y AND NOT (mask n)) i"
      using \<open>i < LENGTH('a)\<close> by (auto simp add: bit_simps)
  qed
next
  assume b: "x AND NOT (mask n) = y AND NOT (mask n)"
  show "drop_bit n x = drop_bit n y"
  proof (rule bit_word_eqI)
    fix i
    assume "i < LENGTH('a)"
    show "bit (drop_bit n x) i = bit (drop_bit n y) i"
    proof (cases "n + i < LENGTH('a)")
      case True
      then show ?thesis using arg_cong[OF b, of "\<lambda>w. bit w (n + i)"]
        by (auto simp add: bit_simps)
    next
      case False
      then have "\<not> bit x (n + i)" "\<not> bit y (n + i)" using bit_imp_le_length by fastforce+
      then show ?thesis by (simp add: bit_drop_bit_eq)
    qed
  qed
qed

lemma tag_set_eq_iff:
  assumes "cache_geom c"
  shows "find_tag_and_set c a = find_tag_and_set c b \<longleftrightarrow> base_cache_line c a = base_cache_line c b"
proof -
  have "find_tag_and_set c a = find_tag_and_set c b \<longleftrightarrow>
      drop_bit (c_shift_bits c) a = drop_bit (c_shift_bits c) b"
    using and_mask_split[of "drop_bit (c_shift_bits c) a" "c_set_bits c" "drop_bit (c_shift_bits c) b"]
    by (auto simp add: find_tag_and_set_geom[OF assms] intro: unsigned_word_eqI)
  also have "\<dots> \<longleftrightarrow> base_cache_line c a = base_cache_line c b"
    using assms by (simp add: drop_bit_eq_iff_base base_cache_line_def cache_geom_def)
  finally show ?thesis .
qed

lemma base_idem [simp]: "base_cache_line c (base_cache_line c a) = base_cache_line c a"
  by (simp add: base_cache_line_def ac_simps)

lemma tag_set_base: "cache_geom c \<Longrightarrow> find_tag_and_set c (base_cache_line c a) = find_tag_and_set c a"
  by (simp add: tag_set_eq_iff)

section \<open>Well-formedness\<close>

abbreviation line_at :: "'d cache \<Rightarrow> nat \<Rightarrow> nat \<Rightarrow> 'd cache_entry" where
  "line_at c st way \<equiv> cs_entry (c_set c ! st) ! way"

definition lines_wf :: "'d cache \<Rightarrow> bool" where
  "lines_wf c \<longleftrightarrow>
     (\<forall>st < length (c_set c). length (cs_entry (c_set c ! st)) = c_assoc c) \<and>
     (\<forall>st < length (c_set c). \<forall>w < c_assoc c. ce_valid (line_at c st w) \<longrightarrow>
        find_tag_and_set c (ce_base (line_at c st w)) = (ce_tag (line_at c st w), st) \<and>
        base_cache_line c (ce_base (line_at c st w)) = ce_base (line_at c st w)) \<and>
     (\<forall>st < length (c_set c). \<forall>w < c_assoc c. \<forall>v < c_assoc c.
        ce_valid (line_at c st w) \<longrightarrow> ce_valid (line_at c st v) \<longrightarrow>
        ce_tag (line_at c st w) = ce_tag (line_at c st v) \<longrightarrow> w = v)"

definition cache_wf :: "'d cache \<Rightarrow> bool" where
  "cache_wf c \<longleftrightarrow> cache_geom c \<and> lines_wf c \<and> 0 < c_assoc c"

lemma cache_wfD:
  assumes "cache_wf c"
  shows "cache_geom c" "0 < c_assoc c"
    "st < length (c_set c) \<Longrightarrow> length (cs_entry (c_set c ! st)) = c_assoc c"
    "st < length (c_set c) \<Longrightarrow> w < c_assoc c \<Longrightarrow> ce_valid (line_at c st w) \<Longrightarrow>
       find_tag_and_set c (ce_base (line_at c st w)) = (ce_tag (line_at c st w), st)"
    "st < length (c_set c) \<Longrightarrow> w < c_assoc c \<Longrightarrow> ce_valid (line_at c st w) \<Longrightarrow>
       base_cache_line c (ce_base (line_at c st w)) = ce_base (line_at c st w)"
    "st < length (c_set c) \<Longrightarrow> w < c_assoc c \<Longrightarrow> v < c_assoc c \<Longrightarrow> ce_valid (line_at c st w) \<Longrightarrow>
       ce_valid (line_at c st v) \<Longrightarrow> ce_tag (line_at c st w) = ce_tag (line_at c st v) \<Longrightarrow> w = v"
  using assms unfolding cache_wf_def lines_wf_def by simp_all

text \<open>The set of line addresses the cache holds: the abstraction of the structure.\<close>

definition resident :: "'d cache \<Rightarrow> Addr set" where
  "resident c = {ce_base (line_at c st w) | st w.
     st < length (c_set c) \<and> w < c_assoc c \<and> ce_valid (line_at c st w)}"

lemma find_way_Some:
  "find_way tag ls = Some w \<Longrightarrow> w < length ls \<and> ce_valid (ls ! w) \<and> ce_tag (ls ! w) = tag"
  by (induction ls arbitrary: w) (auto split: if_splits)

lemma find_way_None:
  "find_way tag ls = None \<Longrightarrow> w < length ls \<Longrightarrow> ce_valid (ls ! w) \<Longrightarrow> ce_tag (ls ! w) \<noteq> tag"
  by (induction ls arbitrary: w) (auto simp add: nth_Cons' split: if_splits)

lemma find_way_unique:
  assumes "w < length ls" "ce_valid (ls ! w)" "ce_tag (ls ! w) = tag"
    "\<And>v. v < length ls \<Longrightarrow> ce_valid (ls ! v) \<Longrightarrow> ce_tag (ls ! v) = tag \<Longrightarrow> v = w"
  shows "find_way tag ls = Some w"
proof (cases "find_way tag ls")
  case None
  with find_way_None[OF None assms(1,2)] assms(3) show ?thesis by simp
next
  case (Some v)
  with find_way_Some[OF Some] assms(4) show ?thesis by blast
qed

lemma found_way:
  assumes wf: "cache_wf c" and st: "st < length (c_set c)" and w: "w < c_assoc c"
    and v: "ce_valid (line_at c st w)" and t: "ce_tag (line_at c st w) = tag"
  shows "find_way tag (cs_entry (c_set c ! st)) = Some w"
proof (rule find_way_unique[OF w[folded cache_wfD(3)[OF wf st]] v t])
  fix u
  assume "u < length (cs_entry (c_set c ! st))" and u: "ce_valid (line_at c st u)" "ce_tag (line_at c st u) = tag"
  then have "u < c_assoc c" by (simp add: cache_wfD(3)[OF wf st])
  from cache_wfD(6)[OF wf st this w u(1) v] u(2) t show "u = w" by simp
qed

lemma resident_iff:
  assumes wf: "cache_wf c" and ts: "find_tag_and_set c a = (tag, st)"
  shows "base_cache_line c a \<in> resident c \<longleftrightarrow> find_way tag (cs_entry (c_set c ! st)) \<noteq> None"
proof -
  have st: "st < length (c_set c)" using set_in_range[OF cache_wfD(1)[OF wf], of a] ts by simp
  note len = cache_wfD(3)[OF wf st]
  show ?thesis
  proof
    assume "base_cache_line c a \<in> resident c"
    then obtain s w where w: "s < length (c_set c)" "w < c_assoc c" "ce_valid (line_at c s w)"
      and b: "base_cache_line c a = ce_base (line_at c s w)" unfolding resident_def by auto
    have "find_tag_and_set c (ce_base (line_at c s w)) = (tag, st)"
      using tag_set_base[OF cache_wfD(1)[OF wf], of a] ts b by simp
    with cache_wfD(4)[OF wf w] have "ce_tag (line_at c s w) = tag" "s = st" by simp_all
    with w len find_way_None[of tag "cs_entry (c_set c ! st)" w]
    show "find_way tag (cs_entry (c_set c ! st)) \<noteq> None" by auto
  next
    assume "find_way tag (cs_entry (c_set c ! st)) \<noteq> None"
    then obtain w where "find_way tag (cs_entry (c_set c ! st)) = Some w" by blast
    from find_way_Some[OF this] len have w: "w < c_assoc c" "ce_valid (line_at c st w)" "ce_tag (line_at c st w) = tag"
      by simp_all
    with cache_wfD(4)[OF wf st w(1,2)] ts
    have "find_tag_and_set c (ce_base (line_at c st w)) = find_tag_and_set c a" by simp
    then have "base_cache_line c (ce_base (line_at c st w)) = base_cache_line c a"
      by (simp add: tag_set_eq_iff[OF cache_wfD(1)[OF wf]])
    with cache_wfD(5)[OF wf st w(1,2)] st w show "base_cache_line c a \<in> resident c"
      unfolding resident_def by auto
  qed
qed

section \<open>Replacing one line\<close>

definition line_key :: "'d cache_entry \<Rightarrow> bool \<times> Addr \<times> Addr \<times> 'd" where
  "line_key l = (ce_valid l, ce_tag l, ce_base l, ce_data l)"

lemma line_key_eqD:
  assumes "line_key l = line_key m"
  shows "ce_valid l = ce_valid m" "ce_tag l = ce_tag m" "ce_base l = ce_base m"
    "ce_data l = ce_data m"
  using assms by (simp_all add: line_key_def)

definition same_config :: "'d cache \<Rightarrow> 'd cache \<Rightarrow> bool" where
  "same_config c c' \<longleftrightarrow>
     c_num_tiles c' = c_num_tiles c \<and> c_set_bits c' = c_set_bits c \<and> c_shift_bits c' = c_shift_bits c \<and>
     c_set_mask c' = c_set_mask c \<and> c_tag_mask c' = c_tag_mask c \<and> c_offset_mask c' = c_offset_mask c \<and>
     c_num_sets c' = c_num_sets c \<and> c_assoc c' = c_assoc c \<and> c_tile_bits c' = c_tile_bits c \<and>
     c_interleave_bits c' = c_interleave_bits c \<and> c_interleave_mask c' = c_interleave_mask c \<and>
     map (\<lambda>s. length (cs_entry s)) (c_set c') = map (\<lambda>s. length (cs_entry s)) (c_set c)"

lemma same_config_refl [simp]: "same_config c c"
  by (simp add: same_config_def)

lemma same_config_trans: "same_config c d \<Longrightarrow> same_config d e \<Longrightarrow> same_config c e"
  by (simp add: same_config_def)

lemma same_configD:
  assumes "same_config c c'"
  shows "find_tag_and_set c' = find_tag_and_set c" "base_cache_line c' = base_cache_line c"
    "c_assoc c' = c_assoc c" "length (c_set c') = length (c_set c)"
    "st < length (c_set c) \<Longrightarrow> length (cs_entry (c_set c' ! st)) = length (cs_entry (c_set c ! st))"
    "cache_geom c' = cache_geom c" "c_offset_mask c' = c_offset_mask c"
proof -
  have m: "map (\<lambda>s. length (cs_entry s)) (c_set c') = map (\<lambda>s. length (cs_entry s)) (c_set c)"
    using assms by (simp add: same_config_def)
  show l: "length (c_set c') = length (c_set c)" using arg_cong[OF m, of length] by simp
  show "st < length (c_set c) \<Longrightarrow> length (cs_entry (c_set c' ! st)) = length (cs_entry (c_set c ! st))"
    using arg_cong[OF m, of "\<lambda>l. l ! st"] l by simp
  show "find_tag_and_set c' = find_tag_and_set c" "base_cache_line c' = base_cache_line c"
    using assms by (simp_all add: fun_eq_iff same_config_def find_tag_and_set_def mod_addr_def base_cache_line_def)
  show "cache_geom c' = cache_geom c" using assms l by (simp add: same_config_def cache_geom_def)
  show "c_assoc c' = c_assoc c" "c_offset_mask c' = c_offset_mask c"
    using assms by (simp_all add: same_config_def)
qed

lemma base_unique:
  assumes wf: "cache_wf c" and a: "s < length (c_set c)" "w < c_assoc c" "ce_valid (line_at c s w)"
    and b: "t < length (c_set c)" "v < c_assoc c" "ce_valid (line_at c t v)"
    and eq: "ce_base (line_at c s w) = ce_base (line_at c t v)"
  shows "s = t" and "w = v"
proof -
  from cache_wfD(4)[OF wf a] cache_wfD(4)[OF wf b] eq
  have "(ce_tag (line_at c s w), s) = (ce_tag (line_at c t v), t)" by metis
  then have both: "ce_tag (line_at c s w) = ce_tag (line_at c t v) \<and> s = t" by (rule prod.inject[THEN iffD1])
  note tag = both[THEN conjunct1] and st = both[THEN conjunct2]
  from b st have b': "v < c_assoc c" "ce_valid (line_at c s v)" by simp_all
  from tag st have "ce_tag (line_at c s w) = ce_tag (line_at c s v)" by simp
  with cache_wfD(6)[OF wf a(1,2) b'(1) a(3) b'(2)] show "w = v" by blast
  show "s = t" by (rule st)
qed

definition fits_line :: "'d cache \<Rightarrow> nat \<Rightarrow> nat \<Rightarrow> 'd cache_entry \<Rightarrow> bool" where
  "fits_line c st w l \<longleftrightarrow> (ce_valid l \<longrightarrow>
     find_tag_and_set c (ce_base l) = (ce_tag l, st) \<and> base_cache_line c (ce_base l) = ce_base l \<and>
     (\<forall>v < c_assoc c. v \<noteq> w \<longrightarrow> ce_valid (line_at c st v) \<longrightarrow> ce_tag (line_at c st v) \<noteq> ce_tag l))"

definition line_base :: "'d cache_entry \<Rightarrow> Addr set" where
  "line_base l = (if ce_valid l then {ce_base l} else {})"

lemma replace_line:
  assumes wf: "cache_wf c" and cfg: "same_config c c'" and st: "st < length (c_set c)" and w: "w < c_assoc c"
    and others: "\<And>s v. s < length (c_set c) \<Longrightarrow> v < c_assoc c \<Longrightarrow> (s, v) \<noteq> (st, w) \<Longrightarrow>
      line_key (line_at c' s v) = line_key (line_at c s v)"
    and fits: "fits_line c st w (line_at c' st w)"
  shows "cache_wf c'"
    and "resident c' = (resident c - line_base (line_at c st w)) \<union> line_base (line_at c' st w)"
proof -
  note C = same_configD[OF cfg]
  note other = others[THEN line_key_eqD(1)] others[THEN line_key_eqD(2)] others[THEN line_key_eqD(3)]
  have coh: "find_tag_and_set c (ce_base (line_at c' s v)) = (ce_tag (line_at c' s v), s) \<and>
      base_cache_line c (ce_base (line_at c' s v)) = ce_base (line_at c' s v)"
    if "s < length (c_set c)" "v < c_assoc c" "ce_valid (line_at c' s v)" for s v
    using that fits other[of s v] cache_wfD(4,5)[OF wf, of s v]
    by (cases "(s, v) = (st, w)") (auto simp add: fits_line_def)
  have uniq: "u = v" if "s < length (c_set c)" "u < c_assoc c" "v < c_assoc c"
    "ce_valid (line_at c' s u)" "ce_valid (line_at c' s v)" "ce_tag (line_at c' s u) = ce_tag (line_at c' s v)" for s u v
  proof (cases "s = st \<and> (u = w \<or> v = w)")
    case True
    have apart: "ce_tag (line_at c' st x) \<noteq> ce_tag (line_at c' st w)"
      if "x < c_assoc c" "x \<noteq> w" "ce_valid (line_at c' st x)" "ce_valid (line_at c' st w)" for x
      using that fits other[of st x] st unfolding fits_line_def by simp
    have "s = st" using True by simp
    note that' = that[unfolded this]
    show ?thesis
    proof (cases "u = w")
      case True
      then show ?thesis using apart[of v] that'(3,4,5,6) by (cases "v = w") simp_all
    next
      case False
      with \<open>s = st \<and> (u = w \<or> v = w)\<close> have "v = w" by simp
      then show ?thesis using apart[of u] that'(2,4,5,6) False by simp
    qed
  next
    case False
    then have u: "(s, u) \<noteq> (st, w)" and v: "(s, v) \<noteq> (st, w)" by auto
    show ?thesis
      using cache_wfD(6)[OF wf that(1,2,3)] that(4,5,6)
      unfolding other(1,2)[OF that(1,2) u] other(1,2)[OF that(1,3) v] by blast
  qed
  show "cache_wf c'"
    using coh uniq wf C cache_wfD(3)[OF wf] unfolding cache_wf_def lines_wf_def by auto
  have "b \<in> resident c' \<longleftrightarrow> b \<in> (resident c - line_base (line_at c st w)) \<union> line_base (line_at c' st w)" for b
  proof
    assume "b \<in> resident c'"
    then obtain s v where p: "s < length (c_set c)" "v < c_assoc c" "ce_valid (line_at c' s v)"
      "b = ce_base (line_at c' s v)" by (auto simp add: resident_def C)
    show "b \<in> (resident c - line_base (line_at c st w)) \<union> line_base (line_at c' st w)"
    proof (cases "(s, v) = (st, w)")
      case True
      with p show ?thesis by (simp add: line_base_def)
    next
      case False
      have q: "ce_valid (line_at c s v)" "b = ce_base (line_at c s v)"
        using p(3,4) unfolding other[OF p(1,2) False] by simp_all
      have "b \<notin> line_base (line_at c st w)"
        using base_unique[OF wf p(1,2) q(1) st w] q(2) False unfolding line_base_def by auto
      with p(1,2) q show ?thesis by (auto simp add: resident_def)
    qed
  next
    assume "b \<in> (resident c - line_base (line_at c st w)) \<union> line_base (line_at c' st w)"
    then show "b \<in> resident c'"
    proof
      assume "b \<in> resident c - line_base (line_at c st w)"
      then obtain s v where p: "s < length (c_set c)" "v < c_assoc c" "ce_valid (line_at c s v)"
        "b = ce_base (line_at c s v)" "b \<notin> line_base (line_at c st w)" by (auto simp add: resident_def)
      then have ne: "(s, v) \<noteq> (st, w)" by (auto simp add: line_base_def)
      have "ce_valid (line_at c' s v)" "b = ce_base (line_at c' s v)"
        using p(3,4) unfolding other[OF p(1,2) ne] by simp_all
      with p(1,2) show ?thesis unfolding resident_def C by blast
    next
      assume "b \<in> line_base (line_at c' st w)"
      with st w show ?thesis by (auto simp add: resident_def line_base_def C split: if_splits)
    qed
  qed
  then show "resident c' = (resident c - line_base (line_at c st w)) \<union> line_base (line_at c' st w)" by blast
qed

lemma same_keys:
  assumes wf: "cache_wf c" and cfg: "same_config c c'"
    and keys: "\<And>s v. s < length (c_set c) \<Longrightarrow> v < c_assoc c \<Longrightarrow> line_key (line_at c' s v) = line_key (line_at c s v)"
  shows "cache_wf c'" and "resident c' = resident c"
proof -
  note C = same_configD[OF cfg]
  note key = keys[THEN line_key_eqD(1)] keys[THEN line_key_eqD(2)] keys[THEN line_key_eqD(3)]
  show "cache_wf c'"
    using wf key unfolding cache_wf_def lines_wf_def C by (simp add: C(5))
  show "resident c' = resident c" unfolding resident_def C by (rule Collect_cong) (metis key)
qed

section \<open>The operations on the resident lines\<close>

lemma upd_line_config:
  assumes "st < length (c_set c)"
  shows "same_config c (upd_line st w f c)"
  using assms by (auto simp add: same_config_def upd_line_def intro!: nth_equalityI simp add: nth_list_update)

lemma upd_line_at:
  assumes "st < length (c_set c)" "w < length (cs_entry (c_set c ! st))"
  shows "line_at (upd_line st w f c) s v = (if (s, v) = (st, w) then f (line_at c st w) else line_at c s v)"
  using assms by (auto simp add: upd_line_def nth_list_update)

lemma access_cache_cases:
  assumes wf: "cache_wf c" and np: "\<not> c_cache_by_pass c" and ts: "find_tag_and_set c a = (tag, st)"
  shows "(\<exists>w. w < c_assoc c \<and> find_way tag (cs_entry (c_set c ! st)) = Some w \<and>
      access_cache cycle a upd c = Inr (Some (base_cache_line c a), Some (st, w),
        if upd then upd_line st w (\<lambda>l. update_line_on_hit cycle (l\<lparr>ce_pref := False\<rparr>)) c else c)) \<or>
    (find_way tag (cs_entry (c_set c ! st)) = None \<and>
      access_cache cycle a upd c = Inr (Some (base_cache_line c a), None, c))"
proof -
  have st: "st < length (c_set c)" using set_in_range[OF cache_wfD(1)[OF wf], of a] ts by simp
  show ?thesis
  proof (cases "find_way tag (cs_entry (c_set c ! st))")
    case None
    then show ?thesis using np ts st by (simp add: access_cache_def)
  next
    case (Some w)
    with find_way_Some[OF Some] cache_wfD(3)[OF wf st] np ts st show ?thesis
      by (simp add: access_cache_def)
  qed
qed

lemma hit_update_keys:
  fixes cycle :: Counter
  assumes wf: "cache_wf c" and st: "st < length (c_set c)" and w: "w < c_assoc c"
  defines "c' \<equiv> upd_line st w (\<lambda>l. update_line_on_hit cycle (l\<lparr>ce_pref := False\<rparr>)) c"
  shows "cache_wf c'" "resident c' = resident c" "same_config c c'"
proof -
  show cfg: "same_config c c'" unfolding c'_def using st by (rule upd_line_config)
  have k: "line_key (line_at c' s v) = line_key (line_at c s v)" for s v
    unfolding c'_def upd_line_at[OF st w[folded cache_wfD(3)[OF wf st]]]
    by (simp add: line_key_def update_line_on_hit_def)
  show "cache_wf c'" "resident c' = resident c" using same_keys[OF wf cfg k] by simp_all
qed

lemma access_cache_spec:
  assumes wf: "cache_wf c" and np: "\<not> c_cache_by_pass c"
  obtains r c' where "access_cache cycle a upd c = Inr (Some (base_cache_line c a), r, c')"
    "cache_wf c'" "resident c' = resident c" "same_config c c'"
    "r \<noteq> None \<longleftrightarrow> base_cache_line c a \<in> resident c" "\<not> upd \<Longrightarrow> c' = c"
proof -
  obtain tag st where ts: "find_tag_and_set c a = (tag, st)" by fastforce
  have st: "st < length (c_set c)" using set_in_range[OF cache_wfD(1)[OF wf], of a] ts by simp
  note R = resident_iff[OF wf ts]
  from access_cache_cases[OF wf np ts, of cycle upd] show ?thesis
  proof
    assume "\<exists>w. w < c_assoc c \<and> find_way tag (cs_entry (c_set c ! st)) = Some w \<and>
      access_cache cycle a upd c = Inr (Some (base_cache_line c a), Some (st, w),
        if upd then upd_line st w (\<lambda>l. update_line_on_hit cycle (l\<lparr>ce_pref := False\<rparr>)) c else c)"
    then obtain w where w: "w < c_assoc c" "find_way tag (cs_entry (c_set c ! st)) = Some w"
      and acc: "access_cache cycle a upd c = Inr (Some (base_cache_line c a), Some (st, w),
        if upd then upd_line st w (\<lambda>l. update_line_on_hit cycle (l\<lparr>ce_pref := False\<rparr>)) c else c)" by blast
    with R hit_update_keys[OF wf st w(1)] wf show ?thesis by (cases upd) (auto intro!: that)
  next
    assume "find_way tag (cs_entry (c_set c ! st)) = None \<and>
      access_cache cycle a upd c = Inr (Some (base_cache_line c a), None, c)"
    with R wf show ?thesis by (auto intro!: that)
  qed
qed

lemma plru_scan_bound: "plru_scan ls = Some w \<Longrightarrow> w < length ls"
  by (induction ls arbitrary: w) (auto split: if_splits)

lemma plru_scan_cleared:
  "ls \<noteq> [] \<Longrightarrow> plru_scan (map (\<lambda>l. l\<lparr>ce_last_access_time := 0\<rparr>) ls) = Some 0"
  by (cases ls) auto

lemma plru_two_rounds:
  assumes "ls \<noteq> []"
  obtains w ls' where "plru_loop 2 ls = Some (w, ls')" "w < length ls" "map line_key ls' = map line_key ls"
proof (cases "plru_scan ls")
  case None
  with assms plru_scan_cleared[OF assms] that[of 0 "map (\<lambda>l. l\<lparr>ce_last_access_time := 0\<rparr>) ls"]
  show ?thesis by (auto simp add: numeral_2_eq_2 line_key_def)
next
  case (Some w)
  with that[of w ls] plru_scan_bound[OF Some] show ?thesis by (simp add: numeral_2_eq_2)
qed

lemma lru_loop_bound: "lru_ind < i + length ls \<or> lru_ind < n \<Longrightarrow> i + length ls \<le> n \<Longrightarrow> 0 < n \<Longrightarrow>
    lru_loop i ls lru_ind t < n"
  by (induction ls arbitrary: i lru_ind t) auto

lemma same_type_loop_bound:
  "same_type_loop g room i ls r t = Some w \<Longrightarrow> (\<And>v. r = Some v \<Longrightarrow> v < i + length ls) \<Longrightarrow> w < i + length ls"
  by (induction ls arbitrary: i r t) (fastforce split: if_splits)+

lemma find_replacement_line_keys:
  assumes "ls \<noteq> []"
  obtains w ls' where "find_replacement_line k ls = Some (w, ls')" "w < length ls" "map line_key ls' = map line_key ls"
proof (cases "KNOB_CACHE_USE_PSEUDO_LRU k")
  case True
  with plru_two_rounds[OF assms] that show ?thesis by (metis find_replacement_line_def)
next
  case False
  with that assms lru_loop_bound[of 0 0 ls "length ls" MAX_INT] show ?thesis
    by (simp add: find_replacement_line_def)
qed

lemma by_pass_unchanged:
  "c_cache_by_pass (upd_line st w f c) = c_cache_by_pass c"
  "c_cache_by_pass (update_set_on_replacement st g c) = c_cache_by_pass c"
  "c_cache_by_pass (initialize_cache_line cycle st w tag a appl g skip c) = c_cache_by_pass c"
  by (simp_all add: upd_line_def update_set_on_replacement_def initialize_cache_line_def Let_def)

lemma choose_line_spec:
  assumes wf: "cache_wf c" and st: "st < length (c_set c)" and ok: "choose_line k st g c = Inr (w, c1)"
  shows "w < c_assoc c" "same_config c c1" "cache_wf c1" "resident c1 = resident c"
    "\<And>v. v < c_assoc c \<Longrightarrow> line_key (line_at c1 st v) = line_key (line_at c st v)"
    "\<And>s. s \<noteq> st \<Longrightarrow> c_set c1 ! s = c_set c ! s"
    "c_cache_by_pass c1 = c_cache_by_pass c"
proof -
  let ?s = "c_set c ! st"
  note len = cache_wfD(3)[OF wf st]
  have ne: "cs_entry ?s \<noteq> []" using len cache_wfD(2)[OF wf] by auto
  obtain ls where c1: "c1 = c\<lparr>c_set := (c_set c)[st := ?s\<lparr>cs_entry := ls\<rparr>]\<rparr>"
    and ls: "map line_key ls = map line_key (cs_entry ?s)" and w: "w < length ls"
  proof (cases "KNOB_HETERO_STATIC_CACHE_PARTITION k \<and> c_enable_partition c")
    case True
    with ok st show ?thesis
      by (intro that[of "cs_entry ?s"]) (auto simp add: choose_line_def res_simps)
  next
    case False
    obtain v ls' where f: "find_replacement_line k (cs_entry ?s) = Some (v, ls')"
      "map line_key ls' = map line_key (cs_entry ?s)"
      using find_replacement_line_keys[OF ne] by metis
    with ok st False that show ?thesis by (auto simp add: choose_line_def res_simps)
  qed
  have l: "length ls = c_assoc c" using arg_cong[OF ls, of length] len by simp
  with w show "w < c_assoc c" by simp
  show cfg: "same_config c c1"
    using st l len by (auto simp add: same_config_def c1 intro!: nth_equalityI simp add: nth_list_update)
  show k: "line_key (line_at c1 st v) = line_key (line_at c st v)" if "v < c_assoc c" for v
    using that st l len arg_cong[OF ls, of "\<lambda>m. m ! v"] by (simp add: c1)
  show "c_cache_by_pass c1 = c_cache_by_pass c" by (simp add: c1)
  show o: "c_set c1 ! s = c_set c ! s" if "s \<noteq> st" for s using that by (simp add: c1)
  have "line_key (line_at c1 s v) = line_key (line_at c s v)" if "s < length (c_set c)" "v < c_assoc c" for s v
    using that k o by (cases "s = st") auto
  from same_keys[OF wf cfg this] show "cache_wf c1" "resident c1 = resident c" by simp_all
qed

lemma counters_irrelevant:
  "same_config c (update_set_on_replacement st g c)"
  "cs_entry (c_set (update_set_on_replacement st g c) ! s) = cs_entry (c_set c ! s)"
  by (cases "st < length (c_set c)"; auto simp add: update_set_on_replacement_def Let_def same_config_def
      nth_list_update list_update_beyond intro!: nth_equalityI)+

lemma initialize_line_at:
  assumes "st < length (c_set c)" "w < length (cs_entry (c_set c ! st))"
  shows "same_config c (initialize_cache_line cycle st w tag a appl g skip c)"
    "line_at (initialize_cache_line cycle st w tag a appl g skip c) s v =
       (if (s, v) = (st, w)
        then (line_at c st w)\<lparr>ce_valid := True, ce_tag := tag, ce_base := a AND NOT (c_offset_mask c),
           ce_access_counter := 0, ce_last_access_time := cycle, ce_pref := False, ce_skip := skip,
           ce_appl_id := appl, ce_gpuline := g\<rparr>
        else line_at c s v)"
proof -
  let ?f = "\<lambda>l. l\<lparr>ce_valid := True, ce_tag := tag, ce_base := a AND NOT (c_offset_mask c),
           ce_access_counter := 0, ce_last_access_time := cycle, ce_pref := False, ce_skip := skip,
           ce_appl_id := appl, ce_gpuline := g\<rparr>"
  let ?c1 = "upd_line st w ?f c" and ?c' = "initialize_cache_line cycle st w tag a appl g skip c"
  have e: "cs_entry (c_set ?c' ! s) = cs_entry (c_set ?c1 ! s)" "length (c_set ?c') = length (c_set ?c1)" for s
    by (cases "st < length (c_set ?c1)"; auto simp add: initialize_cache_line_def Let_def nth_list_update list_update_beyond)+
  have "same_config ?c1 ?c'"
    using e by (auto simp add: same_config_def initialize_cache_line_def Let_def intro!: nth_equalityI
        simp add: nth_list_update)
  with upd_line_config[OF assms(1)] show "same_config c ?c'" by (rule same_config_trans)
  show "line_at ?c' s v = (if (s, v) = (st, w) then ?f (line_at c st w) else line_at c s v)"
    unfolding e upd_line_at[OF assms] ..
qed

text \<open>
  The insertion of a line that is not resident: it succeeds whenever a way can be chosen, the chosen
  way holds the line, and nothing else changes but the line that was there before.
\<close>

lemma insert_cache_spec:
  assumes wf: "cache_wf c" and miss: "base_cache_line c a \<notin> resident c"
    and ts: "find_tag_and_set c a = (tag, st)"
    and ok: "insert_cache k cycle a appl g skip c = Inr (line_addr, updated, p, c')"
  obtains w where "p = (st, w)" "w < c_assoc c" "line_addr = base_cache_line c a" "cache_wf c'"
    "same_config c c'" "resident c' = (resident c - line_base (line_at c st w)) \<union> {base_cache_line c a}"
    "updated = (if ce_valid (line_at c st w) then ce_base (line_at c st w) else 0)"
    "ce_valid (line_at c' st w)" "ce_tag (line_at c' st w) = tag" "ce_last_access_time (line_at c' st w) = cycle"
    "c_cache_by_pass c' = c_cache_by_pass c" "ce_gpuline (line_at c' st w) = g"
    "\<forall>s < length (c_set c). \<forall>v < c_assoc c. (s, v) \<noteq> (st, w) \<longrightarrow>
       line_key (line_at c' s v) = line_key (line_at c s v)"
proof -
  have st: "st < length (c_set c)" using set_in_range[OF cache_wfD(1)[OF wf], of a] ts by simp
  from ok ts obtain w c1 where ch: "choose_line k st g c = Inr (w, c1)"
    by (auto simp add: insert_cache_def Let_def res_simps split: prod.splits)
  note S = choose_line_spec[OF wf st ch]
  let ?l = "line_at c1 st w"
  define c2 where "c2 = (if ce_valid ?l then update_set_on_replacement st (ce_gpuline ?l) c1 else c1)"
  define c3 where "c3 = initialize_cache_line cycle st w tag a appl g skip c2"
  have c': "c' = c3\<lparr>c_insert_count := c_insert_count c3 + 1\<rparr>" and p: "p = (st, w)"
    and la: "line_addr = base_cache_line c a" and up: "updated = (if ce_valid ?l then ce_base ?l else 0)"
    using ok ts ch by (simp_all add: insert_cache_def Let_def c2_def c3_def)
  have cfg2: "same_config c1 c2" and e2: "\<And>s. cs_entry (c_set c2 ! s) = cs_entry (c_set c1 ! s)"
    by (simp_all add: c2_def counters_irrelevant)
  have st2: "st < length (c_set c2)" and w2: "w < length (cs_entry (c_set c2 ! st))"
    using st S(1) same_configD(4)[OF S(2)] same_configD(4)[OF cfg2] cache_wfD(3)[OF S(3), of st]
      same_configD(3)[OF S(2)] by (simp_all add: e2)
  note I = initialize_line_at[OF st2 w2, of cycle tag a appl g skip, folded c3_def]
  have cfg3: "same_config c c3" using same_config_trans[OF S(2) same_config_trans[OF cfg2 I(1)]] .
  have om: "c_offset_mask c2 = c_offset_mask c"
    using same_configD(7)[OF same_config_trans[OF S(2) cfg2]] .
  have new: "ce_valid (line_at c3 st w)" "ce_tag (line_at c3 st w) = tag"
    "ce_base (line_at c3 st w) = base_cache_line c a" "ce_last_access_time (line_at c3 st w) = cycle"
    "ce_gpuline (line_at c3 st w) = g"
    by (simp_all add: I(2) om base_cache_line_def)
  have "find_way tag (cs_entry (c_set c ! st)) = None" using miss resident_iff[OF wf ts] by simp
  note none = find_way_None[OF this, unfolded cache_wfD(3)[OF wf st]]
  have fits: "fits_line c st w (line_at c3 st w)"
    unfolding fits_line_def new using none tag_set_base[OF cache_wfD(1)[OF wf], of a] ts by auto
  have others: "line_key (line_at c3 s v) = line_key (line_at c s v)"
    if "s < length (c_set c)" "v < c_assoc c" "(s, v) \<noteq> (st, w)" for s v
    using that S(5,6) by (cases "s = st") (simp_all add: I(2) e2)
  note R = replace_line[OF wf cfg3 st S(1) others fits]
  have key: "line_key ?l = line_key (line_at c st w)" by (rule S(5)[OF S(1)])
  have lb: "line_base (line_at c3 st w) = {base_cache_line c a}" using new by (simp add: line_base_def)
  have cfg': "same_config c c'" using cfg3 by (simp add: c' same_config_def)
  have k': "line_key (line_at c' s v) = line_key (line_at c3 s v)" for s v by (simp add: c')
  have wf': "cache_wf c'" "resident c' = resident c3"
    using same_keys[OF R(1), of c'] by (simp_all add: c' same_config_def)
  have bp: "c_cache_by_pass c' = c_cache_by_pass c"
    using S(7) by (simp add: c' c3_def c2_def by_pass_unchanged)
  show ?thesis
  proof (rule that[OF p S(1) la wf'(1) cfg'])
    show "resident c' = (resident c - line_base (line_at c st w)) \<union> {base_cache_line c a}"
      using R(2) wf'(2) lb by simp
    show "updated = (if ce_valid (line_at c st w) then ce_base (line_at c st w) else 0)"
      using up line_key_eqD[OF key] by simp
    show "ce_valid (line_at c' st w)" "ce_tag (line_at c' st w) = tag"
      "ce_last_access_time (line_at c' st w) = cycle" "ce_gpuline (line_at c' st w) = g" using new by (simp_all add: c')
    show "c_cache_by_pass c' = c_cache_by_pass c" by (rule bp)
    show "\<forall>s < length (c_set c). \<forall>v < c_assoc c. (s, v) \<noteq> (st, w) \<longrightarrow>
       line_key (line_at c' s v) = line_key (line_at c s v)"
      using others k' by simp
  qed
qed

lemma cache_c_wf [inv_intros]:
  assumes "0 < num_set" "num_set < 2 ^ 31" "0 < assoc" "num_tiles \<le> 1"
  shows "cache_wf (cache_c junk jc jg num_set assoc line_size data_size bank by_pass core ct part num_tiles il)"
    (is "cache_wf ?c")
proof -
  have u: "unat (of_nat num_set :: uns32) = num_set" using assms(2) by (simp add: unat_of_nat)
  then have "(of_nat num_set :: uns32) \<noteq> 0" using assms(1) by (metis less_irrefl unat_0)
  from log2_int_bounds(1)[OF this] u have "2 ^ unat (log2_int (of_nat num_set)) \<le> num_set" by simp
  then have "cache_geom ?c" using assms(4)
    by (auto simp add: cache_geom_def cache_c_def Let_def N_BIT_MASK_mask)
  moreover have "lines_wf ?c"
    by (auto simp add: lines_wf_def cache_c_def Let_def cache_set_c_def)
  ultimately show ?thesis using assms(3) by (simp add: cache_wf_def) (simp add: cache_c_def Let_def)
qed

lemma resident_new: "resident (cache_c junk jc jg n assoc ls ds bank bp core ct part tiles il) = {}"
  by (auto simp add: resident_def cache_c_def Let_def cache_set_c_def)

lemma invalidate_cache_line_spec:
  assumes wf: "cache_wf c"
  obtains d c' where "invalidate_cache_line a c = Inr (d, c')" "cache_wf c'" "same_config c c'"
    "resident c' = resident c - {base_cache_line c a}"
proof -
  obtain tag st where ts: "find_tag_and_set c a = (tag, st)" by fastforce
  have st: "st < length (c_set c)" using set_in_range[OF cache_wfD(1)[OF wf], of a] ts by simp
  note R = resident_iff[OF wf ts]
  show ?thesis
  proof (cases "find_way tag (cs_entry (c_set c ! st))")
    case None
    then have "invalidate_cache_line a c = Inr (False, c)" using st ts by (simp add: invalidate_cache_line_def)
    with R None wf show ?thesis by (intro that) auto
  next
    case (Some w)
    note F = find_way_Some[OF Some]
    define c' where "c' = upd_line st w (\<lambda>l. snd (null_cache_line_fields (c_data_size c) l)) c"
    have eq: "invalidate_cache_line a c =
        Inr (fst (null_cache_line_fields (c_data_size c) (line_at c st w)), c')"
      using st ts Some by (simp add: invalidate_cache_line_def c'_def)
    have w: "w < c_assoc c" using F cache_wfD(3)[OF wf st] by simp
    have cfg: "same_config c c'" unfolding c'_def using st by (rule upd_line_config)
    have at: "line_at c' s v = (if (s, v) = (st, w)
        then snd (null_cache_line_fields (c_data_size c) (line_at c st w)) else line_at c s v)" for s v
      unfolding c'_def using st F by (intro upd_line_at) auto
    have inv: "\<not> ce_valid (line_at c' st w)" by (simp add: at null_cache_line_fields_def)
    have others: "line_key (line_at c' s v) = line_key (line_at c s v)"
      if "s < length (c_set c)" "v < c_assoc c" "(s, v) \<noteq> (st, w)" for s v
      using that by (simp only: at if_False)
    have fits: "fits_line c st w (line_at c' st w)" using inv by (simp add: fits_line_def)
    note L = replace_line[OF wf cfg st w others fits]
    have "line_base (line_at c st w) = {base_cache_line c a}"
    proof -
      have "find_tag_and_set c (ce_base (line_at c st w)) = find_tag_and_set c a"
        using cache_wfD(4)[OF wf st w] F ts by simp
      then have "base_cache_line c (ce_base (line_at c st w)) = base_cache_line c a"
        by (simp add: tag_set_eq_iff[OF cache_wfD(1)[OF wf]])
      with cache_wfD(5)[OF wf st w] F show ?thesis by (simp add: line_base_def)
    qed
    moreover have "cache_wf c'" "resident c' = resident c - line_base (line_at c st w) \<union> line_base (line_at c' st w)"
      using L by simp_all
    ultimately show ?thesis using eq cfg inv by (intro that) (auto simp add: line_base_def)
  qed
qed

lemma lru_loop_invalid:
  "j < length ls \<Longrightarrow> \<not> ce_valid (ls ! j) \<Longrightarrow> (\<And>v. v < j \<Longrightarrow> ce_valid (ls ! v)) \<Longrightarrow> lru_loop i ls ind t = i + j"
proof (induction ls arbitrary: i ind t j)
  case Nil
  then show ?case by simp
next
  case (Cons l ls)
  show ?case
  proof (cases j)
    case 0
    with Cons.prems show ?thesis by simp
  next
    case (Suc m)
    with Cons.prems have "ce_valid l" "m < length ls" "\<not> ce_valid (ls ! m)" "\<And>v. v < m \<Longrightarrow> ce_valid (ls ! v)"
      using Cons.prems(3)[of 0] Cons.prems(3)[of "Suc _"] by auto
    with Cons.IH[of m "Suc i"] Suc show ?thesis by simp
  qed
qed

lemma lru_loop_keep:
  "\<forall>l\<in>set ls. ce_valid l \<and> t \<le> ce_last_access_time l \<Longrightarrow> lru_loop i ls ind t = ind"
  by (induction ls arbitrary: i ind) (auto simp add: not_less)

lemma lru_loop_min:
  assumes "\<forall>l\<in>set ls. ce_valid l" "\<exists>l\<in>set ls. ce_last_access_time l < t"
  shows "\<exists>w < length ls. lru_loop i ls ind t = i + w \<and> ce_last_access_time (ls ! w) < t \<and>
    (\<forall>l\<in>set ls. ce_last_access_time (ls ! w) \<le> ce_last_access_time l)"
  using assms
proof (induction ls arbitrary: i ind t)
  case Nil
  then show ?case by simp
next
  case (Cons l ls)
  show ?case
  proof (cases "ce_last_access_time l < t")
    case True
    then have step: "lru_loop i (l # ls) ind t = lru_loop (Suc i) ls i (ce_last_access_time l)"
      using Cons.prems by simp
    show ?thesis
    proof (cases "\<exists>m\<in>set ls. ce_last_access_time m < ce_last_access_time l")
      case True
      with Cons.IH[of "ce_last_access_time l" "Suc i" i] Cons.prems obtain w where
        "w < length ls" "lru_loop (Suc i) ls i (ce_last_access_time l) = Suc i + w"
        "ce_last_access_time (ls ! w) < ce_last_access_time l"
        "\<forall>m\<in>set ls. ce_last_access_time (ls ! w) \<le> ce_last_access_time m" by auto
      with step \<open>ce_last_access_time l < t\<close> show ?thesis
        by (intro exI[of _ "Suc w"]) (auto intro: less_trans less_imp_le)
    next
      case False
      then have "lru_loop (Suc i) ls i (ce_last_access_time l) = i"
        using Cons.prems(1) by (intro lru_loop_keep) (auto simp add: not_less)
      with step False True show ?thesis by (intro exI[of _ 0]) (auto simp add: not_less)
    qed
  next
    case False
    with Cons.prems have "\<exists>m\<in>set ls. ce_last_access_time m < t" by auto
    with Cons.IH[of t "Suc i" ind] Cons.prems obtain w where
      "w < length ls" "lru_loop (Suc i) ls ind t = Suc i + w" "ce_last_access_time (ls ! w) < t"
      "\<forall>m\<in>set ls. ce_last_access_time (ls ! w) \<le> ce_last_access_time m" by auto
    with False Cons.prems show ?thesis
      by (intro exI[of _ "Suc w"]) (auto simp add: not_less)
  qed
qed

lemma same_type_loop_Some:
  "same_type_loop g room i ls r t = Some w \<Longrightarrow> r \<noteq> Some w \<Longrightarrow>
   i \<le> w \<and> w < i + length ls \<and>
   ((\<not> ce_valid (ls ! (w - i)) \<and> room) \<or> (ce_valid (ls ! (w - i)) \<and> ce_gpuline (ls ! (w - i)) = g))"
proof (induction ls arbitrary: i r t)
  case Nil
  then show ?case by simp
next
  case (Cons l ls)
  show ?case
  proof (cases "\<not> ce_valid l \<and> room")
    case True
    with Cons.prems show ?thesis by simp
  next
    case False
    note F = False
    show ?thesis
    proof (cases "ce_valid l \<and> ce_gpuline l = g \<and> ce_last_access_time l < t")
      case True
      show ?thesis
      proof (cases "w = i")
        case True
        with \<open>ce_valid l \<and> ce_gpuline l = g \<and> ce_last_access_time l < t\<close> show ?thesis by simp
      next
        case False
        with Cons.IH[of "Suc i" "Some i" "ce_last_access_time l"] Cons.prems F True
        have "Suc i \<le> w \<and> w < Suc i + length ls \<and> ((\<not> ce_valid (ls ! (w - Suc i)) \<and> room) \<or>
          (ce_valid (ls ! (w - Suc i)) \<and> ce_gpuline (ls ! (w - Suc i)) = g))" by auto
        then show ?thesis by (auto simp add: nth_Cons')
      qed
    next
      case False
      with Cons.IH[of "Suc i" r t] Cons.prems F
      have "Suc i \<le> w \<and> w < Suc i + length ls \<and> ((\<not> ce_valid (ls ! (w - Suc i)) \<and> room) \<or>
          (ce_valid (ls ! (w - Suc i)) \<and> ce_gpuline (ls ! (w - Suc i)) = g))" by auto
      then show ?thesis by (auto simp add: nth_Cons')
    qed
  qed
qed

section \<open>The interface the clients rely on\<close>

text \<open>
  What the users of the cache (the caches of the memory hierarchy, the branch target buffer) rely
  on: a set of resident lines, a look-up that decides membership and keeps it, an insertion after a
  miss, and an invalidation. \<open>demand\<close> is the look-up-then-fill idiom of the callers.
\<close>

locale line_store =
  fixes wf :: "'s \<Rightarrow> bool"
    and lines :: "'s \<Rightarrow> 'a set"
    and base :: "'a \<Rightarrow> 'a"
    and lookup :: "'a \<Rightarrow> 's \<Rightarrow> (bool \<times> 's) res"
    and fill :: "'a \<Rightarrow> 's \<Rightarrow> 's res"
    and drop_line :: "'a \<Rightarrow> 's \<Rightarrow> 's res"
  assumes lookup_law: "wf c \<Longrightarrow> \<exists>c'. lookup a c = Inr (base a \<in> lines c, c') \<and> wf c' \<and> lines c' = lines c"
    and fill_law: "wf c \<Longrightarrow> base a \<notin> lines c \<Longrightarrow>
      \<exists>c' V. fill a c = Inr c' \<and> wf c' \<and> V \<subseteq> lines c \<and> card V \<le> 1 \<and> lines c' = insert (base a) (lines c - V)"
    and drop_law: "wf c \<Longrightarrow> \<exists>c'. drop_line a c = Inr c' \<and> wf c' \<and> lines c' = lines c - {base a}"
begin

definition demand :: "'a \<Rightarrow> 's \<Rightarrow> 's res" where
  "demand a c = res_bind (lookup a c) (\<lambda>(hit, c'). if hit then Inr c' else fill a c')"

fun demands :: "'a list \<Rightarrow> 's \<Rightarrow> 's res" where
  "demands [] c = Inr c"
| "demands (a # as) c = res_bind (demand a c) (demands as)"

lemma demand_ok:
  assumes "wf c"
  shows "\<exists>c'. demand a c = Inr c' \<and> wf c' \<and> base a \<in> lines c' \<and> lines c' \<subseteq> insert (base a) (lines c)"
proof -
  from lookup_law[OF assms] obtain c1 where
    l: "lookup a c = Inr (base a \<in> lines c, c1)" "wf c1" "lines c1 = lines c" by blast
  show ?thesis
  proof (cases "base a \<in> lines c")
    case True
    with l show ?thesis by (auto simp add: demand_def)
  next
    case False
    with fill_law[of c1 a] l obtain c' V where
      "fill a c1 = Inr c'" "wf c'" "lines c' = insert (base a) (lines c - V)" by auto
    with l False show ?thesis by (auto simp add: demand_def)
  qed
qed

lemma demands_ok:
  "wf c \<Longrightarrow> \<exists>c'. demands as c = Inr c' \<and> wf c' \<and> lines c' \<subseteq> lines c \<union> base ` set as"
proof (induction as arbitrary: c)
  case Nil
  then show ?case by simp
next
  case (Cons a as)
  from demand_ok[OF Cons.prems] obtain c1 where
    d: "demand a c = Inr c1" "wf c1" "lines c1 \<subseteq> insert (base a) (lines c)" by blast
  from Cons.IH[OF d(2)] obtain c' where "demands as c1 = Inr c'" "wf c'" "lines c' \<subseteq> lines c1 \<union> base ` set as"
    by blast
  with d show ?case by auto
qed

lemma demand_then_hit:
  assumes "wf c"
  shows "\<exists>c1 c2. demand a c = Inr c1 \<and> lookup a c1 = Inr (True, c2) \<and> wf c2"
proof -
  from demand_ok[OF assms, of a] obtain c1 where d: "demand a c = Inr c1" "wf c1" "base a \<in> lines c1" by blast
  with lookup_law[OF d(2), of a] show ?thesis by auto
qed

lemma dropped_then_miss:
  assumes "wf c"
  shows "\<exists>c1 c2. drop_line a c = Inr c1 \<and> lookup a c1 = Inr (False, c2)"
proof -
  from drop_law[OF assms, of a] obtain c1 where d: "drop_line a c = Inr c1" "wf c1" "base a \<notin> lines c1" by auto
  with lookup_law[OF d(2), of a] show ?thesis by auto
qed

end

definition cache_lookup :: "Counter \<Rightarrow> Addr \<Rightarrow> 'd cache \<Rightarrow> (bool \<times> 'd cache) res" where
  "cache_lookup cycle a c =
     res_bind (access_cache cycle a True c) (\<lambda>(_, line, c'). Inr (line \<noteq> None, c'))"

definition cache_fill :: "cache_knobs \<Rightarrow> Counter \<Rightarrow> int \<Rightarrow> Addr \<Rightarrow> 'd cache \<Rightarrow> 'd cache res" where
  "cache_fill k cycle appl a c =
     res_bind (insert_cache k cycle a appl False False c) (\<lambda>(_, _, _, c'). Inr c')"

definition cache_drop :: "Addr \<Rightarrow> 'd::zero cache \<Rightarrow> 'd cache res" where
  "cache_drop a c = res_bind (invalidate_cache_line a c) (\<lambda>(_, c'). Inr c')"

text \<open>A cache in use: well formed, not bypassed, not partitioned, with a given line offset mask.\<close>

definition cache_in_use :: "Addr \<Rightarrow> 'd cache \<Rightarrow> bool" where
  "cache_in_use m c \<longleftrightarrow> cache_wf c \<and> \<not> c_cache_by_pass c \<and> \<not> c_enable_partition c \<and> c_offset_mask c = m"

lemma choose_line_total:
  assumes wf: "cache_wf c" and st: "st < length (c_set c)"
    and np: "\<not> (KNOB_HETERO_STATIC_CACHE_PARTITION k \<and> c_enable_partition c)"
  obtains w c1 where "choose_line k st g c = Inr (w, c1)"
proof -
  have len: "length (cs_entry (c_set c ! st)) = c_assoc c" by (rule cache_wfD(3)[OF wf st])
  with cache_wfD(2)[OF wf] have "cs_entry (c_set c ! st) \<noteq> []" by auto
  then obtain w ls where
    f: "find_replacement_line k (cs_entry (c_set c ! st)) = Some (w, ls)" "w < length (cs_entry (c_set c ! st))"
      "map line_key ls = map line_key (cs_entry (c_set c ! st))" by (rule find_replacement_line_keys)
  from arg_cong[OF f(3), of length] f(2) have "w < length ls" by simp
  with f(1) st np have "choose_line k st g c =
      Inr (w, c\<lparr>c_set := (c_set c)[st := (c_set c ! st)\<lparr>cs_entry := ls\<rparr>]\<rparr>)"
    by (auto simp add: choose_line_def)
  then show ?thesis by (rule that)
qed

lemma insert_cache_total:
  assumes wf: "cache_wf c" and np: "\<not> (KNOB_HETERO_STATIC_CACHE_PARTITION k \<and> c_enable_partition c)"
  obtains la up p c' where "insert_cache k cycle a appl g skip c = Inr (la, up, p, c')"
proof -
  obtain tag st where ts: "find_tag_and_set c a = (tag, st)" by fastforce
  have "st < length (c_set c)" using set_in_range[OF cache_wfD(1)[OF wf], of a] ts by simp
  with wf obtain w c1 where "choose_line k st g c = Inr (w, c1)" using np by (rule choose_line_total)
  with ts that show ?thesis by (simp add: insert_cache_def Let_def)
qed

lemma enable_partition_unchanged:
  "c_enable_partition (upd_line st w f c) = c_enable_partition c"
  "c_enable_partition (update_set_on_replacement st g c) = c_enable_partition c"
  "c_enable_partition (initialize_cache_line cycle st w tag a appl g skip c) = c_enable_partition c"
  by (simp_all add: upd_line_def update_set_on_replacement_def initialize_cache_line_def Let_def)

lemma choose_enable_partition:
  "choose_line k st g c = Inr (w, c1) \<Longrightarrow> c_enable_partition c1 = c_enable_partition c"
  by (auto simp add: choose_line_def res_simps)

lemma insert_enable_partition:
  assumes ok: "insert_cache k cycle a appl g skip c = Inr (la, up, p, c')"
  shows "c_enable_partition c' = c_enable_partition c"
proof -
  obtain tag st where ts: "find_tag_and_set c a = (tag, st)" by fastforce
  from ok ts obtain w c1 where ch: "choose_line k st g c = Inr (w, c1)"
    by (auto simp add: insert_cache_def Let_def res_simps)
  from ok ts ch choose_enable_partition[OF ch] show ?thesis
    by (auto simp add: insert_cache_def Let_def enable_partition_unchanged split: if_splits)
qed

lemma cache_in_use_cong:
  assumes "cache_in_use m c" "cache_wf c'" "same_config c c'" "c_cache_by_pass c' = c_cache_by_pass c"
    "c_enable_partition c' = c_enable_partition c"
  shows "cache_in_use m c'"
  using assms same_configD(7)[OF assms(3)] by (simp add: cache_in_use_def)

lemma access_flags:
  "access_cache cycle a upd c = Inr (la, r, c') \<Longrightarrow>
     c_cache_by_pass c' = c_cache_by_pass c \<and> c_enable_partition c' = c_enable_partition c"
  by (auto simp add: access_cache_def res_simps by_pass_unchanged enable_partition_unchanged
      split: if_splits prod.splits option.splits)

lemma invalidate_flags:
  "invalidate_cache_line a c = Inr (d, c') \<Longrightarrow>
     c_cache_by_pass c' = c_cache_by_pass c \<and> c_enable_partition c' = c_enable_partition c"
  by (auto simp add: invalidate_cache_line_def res_simps by_pass_unchanged enable_partition_unchanged
      split: prod.splits option.splits)

lemma line_base_subset:
  "st < length (c_set c) \<Longrightarrow> w < c_assoc c \<Longrightarrow> line_base (line_at c st w) \<subseteq> resident c"
  by (auto simp add: line_base_def resident_def)

lemma line_base_card: "card (line_base l) \<le> 1"
  by (simp add: line_base_def)

lemma cache_lookup_ok:
  assumes u: "cache_in_use m c"
  shows "\<exists>c'. cache_lookup cycle a c = Inr (a AND NOT m \<in> resident c, c') \<and>
    cache_in_use m c' \<and> resident c' = resident c"
proof -
  from u have wf: "cache_wf c" and np: "\<not> c_cache_by_pass c" and m: "base_cache_line c a = a AND NOT m"
    by (simp_all add: cache_in_use_def base_cache_line_def)
  obtain r c' where A: "access_cache cycle a True c = Inr (Some (base_cache_line c a), r, c')"
    "cache_wf c'" "resident c' = resident c" "same_config c c'"
    "r \<noteq> None \<longleftrightarrow> base_cache_line c a \<in> resident c"
    using access_cache_spec[OF wf np, of cycle a True] .
  with cache_in_use_cong[OF u A(2,4)] access_flags[OF A(1)] m show ?thesis
    by (auto simp add: cache_lookup_def)
qed

lemma cache_fill_ok:
  assumes u: "cache_in_use m c" and miss: "a AND NOT m \<notin> resident c"
  shows "\<exists>c' V. cache_fill k cycle appl a c = Inr c' \<and> cache_in_use m c' \<and> V \<subseteq> resident c \<and> card V \<le> 1 \<and>
    resident c' = insert (a AND NOT m) (resident c - V)"
proof -
  from u have wf: "cache_wf c" and m: "base_cache_line c a = a AND NOT m"
    by (simp_all add: cache_in_use_def base_cache_line_def)
  obtain tag st where ts: "find_tag_and_set c a = (tag, st)" by fastforce
  have st: "st < length (c_set c)" using set_in_range[OF cache_wfD(1)[OF wf], of a] ts by simp
  obtain la up p c' where I: "insert_cache k cycle a appl False False c = Inr (la, up, p, c')"
    using insert_cache_total[OF wf] u by (metis cache_in_use_def)
  obtain w where W: "w < c_assoc c" "cache_wf c'" "same_config c c'"
    "resident c' = (resident c - line_base (line_at c st w)) \<union> {base_cache_line c a}"
    "c_cache_by_pass c' = c_cache_by_pass c"
    using insert_cache_spec[OF wf miss[folded m] ts I] by metis
  have "cache_in_use m c'" using cache_in_use_cong[OF u W(2,3,5)] insert_enable_partition[OF I] by simp
  moreover have "cache_fill k cycle appl a c = Inr c'" using I by (simp add: cache_fill_def)
  moreover have "resident c' = insert (a AND NOT m) (resident c - line_base (line_at c st w))" using W(4) m by simp
  ultimately show ?thesis
    using line_base_subset[OF st W(1)] line_base_card[of "line_at c st w"] by blast
qed

lemma cache_drop_ok:
  assumes u: "cache_in_use m c"
  shows "\<exists>c'. cache_drop a c = Inr c' \<and> cache_in_use m c' \<and> resident c' = resident c - {a AND NOT m}"
proof -
  from u have wf: "cache_wf c" and m: "base_cache_line c a = a AND NOT m"
    by (simp_all add: cache_in_use_def base_cache_line_def)
  obtain d c' where I: "invalidate_cache_line a c = Inr (d, c')" "cache_wf c'" "same_config c c'"
    "resident c' = resident c - {base_cache_line c a}" using invalidate_cache_line_spec[OF wf, of a] .
  with cache_in_use_cong[OF u I(2,3)] invalidate_flags[OF I(1)] m show ?thesis by (simp add: cache_drop_def)
qed

interpretation lines: line_store "cache_in_use m" resident "\<lambda>a. a AND NOT m"
    "cache_lookup cycle" "cache_fill k cycle appl" cache_drop
  for m cycle k appl
  using cache_lookup_ok cache_fill_ok cache_drop_ok by unfold_locales auto


section \<open>Line counters\<close>

text \<open>How far a set's GPU-line and CPU-line counters are from the number of valid lines of the type.\<close>

definition type_count :: "bool \<Rightarrow> 'd cache_entry list \<Rightarrow> int" where
  "type_count g ls = int (length (filter (\<lambda>l. ce_valid l \<and> ce_gpuline l = g) ls))"

definition drift :: "bool \<Rightarrow> 'd cache \<Rightarrow> nat \<Rightarrow> int" where
  "drift g c st = (if g then cs_num_gpu_line (c_set c ! st) else cs_num_cpu_line (c_set c ! st)) -
     type_count g (cs_entry (c_set c ! st))"

lemma type_count_Cons:
  "type_count g (l # ls) = (if ce_valid l \<and> ce_gpuline l = g then 1 else 0) + type_count g ls"
  by (simp add: type_count_def)

lemma type_count_update:
  "w < length ls \<Longrightarrow> type_count g (ls[w := l]) = type_count g ls
     + (if ce_valid l \<and> ce_gpuline l = g then 1 else 0)
     - (if ce_valid (ls ! w) \<and> ce_gpuline (ls ! w) = g then 1 else 0)"
proof (induction ls arbitrary: w)
  case Nil
  then show ?case by simp
next
  case (Cons x xs)
  show ?case
  proof (cases w)
    case 0
    then show ?thesis by (simp add: type_count_Cons)
  next
    case (Suc v)
    with Cons.IH[of v] Cons.prems show ?thesis by (simp add: type_count_Cons)
  qed
qed

lemma type_count_plru:
  "type_count g (map (\<lambda>l. l\<lparr>ce_last_access_time := 0\<rparr>) ls) = type_count g ls"
  by (induction ls) (simp_all add: type_count_def)

lemma find_replacement_line_type_count:
  assumes "find_replacement_line k ls = Some (w, ls')"
  shows "type_count g ls' = type_count g ls \<and> length ls' = length ls"
  using assms
  by (auto simp add: find_replacement_line_def numeral_2_eq_2 type_count_plru split: if_splits option.splits)

lemma choose_line_drift:
  assumes "choose_line k st g c = Inr (w, c1)"
  shows "drift h c1 s = drift h c s \<and> w < length (cs_entry (c_set c1 ! st)) \<and> st < length (c_set c1)"
proof -
  from assms have st: "st < length (c_set c)"
    by (auto simp add: choose_line_def res_simps arr_get_eq_Inr)
  obtain ls where c1: "c1 = c\<lparr>c_set := (c_set c)[st := (c_set c ! st)\<lparr>cs_entry := ls\<rparr>]\<rparr>"
    and w: "w < length ls" and t: "type_count h ls = type_count h (cs_entry (c_set c ! st))"
  proof (cases "KNOB_HETERO_STATIC_CACHE_PARTITION k \<and> c_enable_partition c")
    case True
    with assms st show ?thesis
      by (intro that[of "cs_entry (c_set c ! st)"]) (auto simp add: choose_line_def res_simps)
  next
    case False
    with assms st obtain ls where f: "find_replacement_line k (cs_entry (c_set c ! st)) = Some (w, ls)"
      "w < length ls" "c1 = c\<lparr>c_set := (c_set c)[st := (c_set c ! st)\<lparr>cs_entry := ls\<rparr>]\<rparr>"
      by (auto simp add: choose_line_def res_simps split: option.splits)
    from find_replacement_line_type_count[OF f(1), of h] f show ?thesis by (intro that[of ls]) simp_all
  qed
  show ?thesis using st w t by (cases "s = st") (simp_all add: c1 drift_def)
qed

lemma update_set_drift:
  assumes "st < length (c_set c)"
  shows "drift h (update_set_on_replacement st g c) s = drift h c s - (if h = g \<and> s = st then 1 else 0)"
  using assms by (cases "s = st") (auto simp add: drift_def update_set_on_replacement_def Let_def)

lemma initialize_drift:
  assumes "st < length (c_set c)" "w < length (cs_entry (c_set c ! st))"
  shows "drift h (initialize_cache_line cycle st w tag a appl g skip c) s = drift h c s
    + (if s = st \<and> ce_valid (line_at c st w) \<and> ce_gpuline (line_at c st w) = h then 1 else 0)"
  using assms
  by (cases "s = st") (auto simp add: drift_def initialize_cache_line_def Let_def upd_line_def type_count_update)

lemma insert_drift:
  assumes ok: "insert_cache k cycle a appl g skip c = Inr (la, up, p, c')"
  shows "drift h c' s = drift h c s"
proof -
  obtain tag st where ts: "find_tag_and_set c a = (tag, st)" by fastforce
  from ok ts obtain w c1 where ch: "choose_line k st g c = Inr (w, c1)"
    by (auto simp add: insert_cache_def Let_def res_simps)
  note C = choose_line_drift[OF ch]
  let ?l = "line_at c1 st w"
  define c2 where "c2 = (if ce_valid ?l then update_set_on_replacement st (ce_gpuline ?l) c1 else c1)"
  have st1: "st < length (c_set c1)" and w1: "w < length (cs_entry (c_set c1 ! st))" using C by simp_all
  have e2: "cs_entry (c_set c2 ! s) = cs_entry (c_set c1 ! s)" "length (c_set c2) = length (c_set c1)" for s
    by (simp_all add: c2_def counters_irrelevant same_configD(4)[OF counters_irrelevant(1)])
  have "c' = (initialize_cache_line cycle st w tag a appl g skip c2)
      \<lparr>c_insert_count := c_insert_count (initialize_cache_line cycle st w tag a appl g skip c2) + 1\<rparr>"
    using ok ts ch by (simp add: insert_cache_def Let_def c2_def)
  then have "drift h c' s = drift h (initialize_cache_line cycle st w tag a appl g skip c2) s"
    by (simp add: drift_def)
  also have "\<dots> = drift h c2 s + (if s = st \<and> ce_valid ?l \<and> ce_gpuline ?l = h then 1 else 0)"
    using initialize_drift[of st c2 w h cycle tag a appl g skip s] st1 w1 e2 by simp
  also have "\<dots> = drift h c1 s"
    using update_set_drift[OF st1] by (auto simp add: c2_def)
  finally show ?thesis using C by simp
qed

lemma invalidate_drift:
  assumes "find_tag_and_set c a = (tag, st)" "st < length (c_set c)"
    "find_way tag (cs_entry (c_set c ! st)) = Some w" "invalidate_cache_line a c = Inr (d, c')"
  shows "drift h c' st = drift h c st + (if ce_gpuline (line_at c st w) = h then 1 else 0)"
  using assms find_way_Some[OF assms(3)]
  by (auto simp add: invalidate_cache_line_def upd_line_def drift_def type_count_update null_cache_line_fields_def)

section \<open>Properties\<close>

lemma unat_drop_bit_inj: "drop_bit n a = drop_bit n b \<longleftrightarrow> unat a div 2 ^ n = unat b div 2 ^ n"
  for a b :: "'a::len word"
  by (metis unat_drop_bit_div unsigned_word_eqI)

text \<open>A cache built with \<open>num_set\<close> sets, lines of \<open>2 ^ j\<close> bytes and one tile maps
  every address to a set that exists, and the pair of tag and set identifies the line: two addresses
  have the same tag and set exactly when they lie in the same line of \<open>2 ^ j\<close> bytes.\<close>

theorem cache_address_decomposition:
  assumes "0 < num_set" "num_set < 2 ^ 31" "0 < assoc" "j < 31" "num_tiles \<le> 1"
    and c: "c = cache_c junk jc jg num_set assoc (2 ^ j) data_size bank by_pass core ct part num_tiles il"
  shows "snd (find_tag_and_set c a) < num_set \<and>
    (find_tag_and_set c a = find_tag_and_set c b \<longleftrightarrow> unat a div 2 ^ j = unat b div 2 ^ j)"
proof -
  have wf: "cache_wf c" unfolding c using assms(1,2,3,5) by (rule cache_c_wf)
  note g = cache_wfD(1)[OF wf]
  have sb: "c_shift_bits c = j" and ns: "length (c_set c) = num_set"
    using log2_int_power[of j] assms(4) by (simp_all add: c cache_c_def Let_def)
  have "find_tag_and_set c a = find_tag_and_set c b \<longleftrightarrow> drop_bit j a = drop_bit j b"
    unfolding tag_set_eq_iff[OF g] using g sb
    by (simp add: drop_bit_eq_iff_base base_cache_line_def cache_geom_def)
  with set_in_range[OF g, of a] ns show ?thesis by (simp add: unat_drop_bit_inj)
qed

definition demo_line :: "nat cache_entry" where
  "demo_line = \<lparr>ce_valid = False, ce_tag = 0, ce_base = 0, ce_last_access_time = 0,
     ce_access_counter = 0, ce_data = 0, ce_pref = False, ce_dirty = False, ce_appl_id = 0,
     ce_gpuline = False, ce_skip = False\<rparr>"

definition demo_cache :: "nat cache" where
  "demo_cache = cache_c demo_line 0 0 4 2 (2 ^ 6) 8 1 False 0 CACHE_DL1 False 1 1"

definition demo_knobs :: "bool \<Rightarrow> cache_knobs" where
  "demo_knobs plru = \<lparr>KNOB_CACHE_USE_PSEUDO_LRU = plru, KNOB_HETERO_STATIC_CPU_PARTITION = 1,
     KNOB_HETERO_STATIC_CACHE_PARTITION = False, KNOB_COLLECT_CACHE_INFO = 0\<rparr>"

lemma demo_cache_wf: "cache_wf demo_cache" "resident demo_cache = {}"
    "\<not> c_cache_by_pass demo_cache" "\<not> c_enable_partition demo_cache"
proof -
  show "cache_wf demo_cache" unfolding demo_cache_def by (rule cache_c_wf) simp_all
  show "resident demo_cache = {}" unfolding demo_cache_def by (rule resident_new)
  show "\<not> c_cache_by_pass demo_cache" "\<not> c_enable_partition demo_cache"
    by (simp_all add: demo_cache_def cache_c_def Let_def)
qed

theorem cache_address_decomposition_witness:
  "snd (find_tag_and_set demo_cache 0x1234) < 4 \<and>
   find_tag_and_set demo_cache 0x1234 = find_tag_and_set demo_cache 0x1200 \<and>
   find_tag_and_set demo_cache 0x1234 \<noteq> find_tag_and_set demo_cache 0x1240"
proof -
  note W = cache_address_decomposition[of 4 2 6 1 demo_cache demo_line 0 0 8 1 False 0 CACHE_DL1 False 1,
      OF _ _ _ _ _ demo_cache_def]
  show ?thesis using W[of "0x1234" "0x1200"] W[of "0x1234" "0x1240"] by simp
qed

text \<open>C9. Inserting a line that is not resident always finds a way (with the LRU and with the
  pseudo-LRU policy, whose \<^verbatim>\<open>while (1)\<close> ends), keeps the cache well formed, adds exactly
  that line and removes at most the one reported as replaced; the next access to any address of the
  line hits in the way that \<^verbatim>\<open>insert_cache\<close> returned.\<close>

theorem cache_insert_then_hit:
  assumes wf: "cache_wf c" and bp: "\<not> c_cache_by_pass c"
    and np: "\<not> (KNOB_HETERO_STATIC_CACHE_PARTITION k \<and> c_enable_partition c)"
    and miss: "base_cache_line c a \<notin> resident c" and same: "base_cache_line c b = base_cache_line c a"
  shows "\<exists>updated p c'. insert_cache k cycle a appl gpuline skip c = Inr (base_cache_line c a, updated, p, c') \<and>
    cache_wf c' \<and> base_cache_line c a \<in> resident c' \<and>
    (resident c' = insert (base_cache_line c a) (resident c) \<or>
     updated \<in> resident c \<and> resident c' = insert (base_cache_line c a) (resident c - {updated})) \<and>
    (\<exists>c''. access_cache cycle' b upd c' = Inr (Some (base_cache_line c a), Some p, c''))"
proof -
  obtain tag st where ts: "find_tag_and_set c a = (tag, st)" by fastforce
  note g = cache_wfD(1)[OF wf]
  have st: "st < length (c_set c)" using set_in_range[OF g, of a] ts by simp
  obtain la up p c' where I: "insert_cache k cycle a appl gpuline skip c = Inr (la, up, p, c')"
    using wf np by (rule insert_cache_total)
  obtain w where W: "p = (st, w)" "w < c_assoc c" "la = base_cache_line c a" "cache_wf c'" "same_config c c'"
    "resident c' = (resident c - line_base (line_at c st w)) \<union> {base_cache_line c a}"
    "up = (if ce_valid (line_at c st w) then ce_base (line_at c st w) else 0)"
    "ce_valid (line_at c' st w)" "ce_tag (line_at c' st w) = tag" "c_cache_by_pass c' = c_cache_by_pass c"
    using insert_cache_spec[OF wf miss ts I] by metis
  note C = same_configD[OF W(5)]
  have tsb: "find_tag_and_set c' b = (tag, st)" using same tag_set_eq_iff[OF g, of b a] ts C(1) by simp
  have "find_way tag (cs_entry (c_set c' ! st)) = Some w"
    by (rule found_way[OF W(4) st[folded C(4)] W(2)[folded C(3)] W(8,9)])
  with access_cache_cases[OF W(4) _ tsb, of cycle' upd] W bp same C(2)
  have "\<exists>c''. access_cache cycle' b upd c' = Inr (Some (base_cache_line c a), Some p, c'')" by auto
  moreover have "resident c' = insert (base_cache_line c a) (resident c) \<or>
     up \<in> resident c \<and> resident c' = insert (base_cache_line c a) (resident c - {up})"
    using W(6,7) line_base_subset[OF st W(2)] by (cases "ce_valid (line_at c st w)") (auto simp add: line_base_def)
  ultimately show ?thesis using I W by auto
qed

theorem cache_insert_then_hit_witness:
  "\<exists>updated p c'. insert_cache (demo_knobs True) 5 0x1234 0 False False demo_cache =
      Inr (base_cache_line demo_cache 0x1234, updated, p, c') \<and>
     (\<exists>c''. access_cache 9 0x1200 True c' = Inr (Some (base_cache_line demo_cache 0x1234), Some p, c''))"
proof -
  have "base_cache_line demo_cache 0x1200 = base_cache_line demo_cache 0x1234"
    by (simp add: demo_cache_def cache_c_def Let_def base_cache_line_def) code_simp
  with cache_insert_then_hit[OF demo_cache_wf(1,3), of "demo_knobs True" "0x1234" "0x1200" 5 0 False False 9 True]
  show ?thesis by (auto simp add: demo_cache_wf)
qed

text \<open>\<^verbatim>\<open>invalidate_cache_line\<close> on a cache in use never fails, removes exactly the
  line of the address, and a following access to any address of the line misses.\<close>

theorem cache_invalidate_then_miss:
  assumes u: "cache_in_use m c" and same: "b AND NOT m = a AND NOT m"
  shows "\<exists>d c' c''. invalidate_cache_line a c = Inr (d, c') \<and> resident c' = resident c - {a AND NOT m} \<and>
    access_cache cycle b True c' = Inr (Some (a AND NOT m), None, c'')"
proof -
  from lines.drop_law[OF u, of a] obtain c' where D: "cache_drop a c = Inr c'" "cache_in_use m c'"
    "resident c' = resident c - {a AND NOT m}" by blast
  then obtain d where I: "invalidate_cache_line a c = Inr (d, c')" by (auto simp add: cache_drop_def res_simps)
  from D(2) have wf: "cache_wf c'" and np: "\<not> c_cache_by_pass c'" and base: "base_cache_line c' b = a AND NOT m"
    using same by (simp_all add: cache_in_use_def base_cache_line_def)
  obtain r c'' where "access_cache cycle b True c' = Inr (Some (base_cache_line c' b), r, c'')"
    "r \<noteq> None \<longleftrightarrow> base_cache_line c' b \<in> resident c'" using access_cache_spec[OF wf np, of cycle b True] by metis
  with I D(3) base show ?thesis by auto
qed

lemma demo_in_use: "cache_in_use (mask 6) demo_cache"
  using demo_cache_wf log2_int_power[of 6]
  by (simp add: cache_in_use_def) (simp add: demo_cache_def cache_c_def Let_def N_BIT_MASK_mask)

theorem cache_invalidate_then_miss_witness:
  "\<exists>c1 d c2 c3. cache_fill (demo_knobs False) 3 0 0x1234 demo_cache = Inr c1 \<and>
     invalidate_cache_line 0x1200 c1 = Inr (d, c2) \<and> access_cache 5 0x1234 True c2 = Inr (Some 0x1200, None, c3)"
proof -
  from lines.fill_law[OF demo_in_use, of "0x1234" "demo_knobs False" 3 0] obtain c1
    where f: "cache_fill (demo_knobs False) 3 0 0x1234 demo_cache = Inr c1" "cache_in_use (mask 6) c1"
    by (auto simp add: demo_cache_wf)
  have "(0x1234 :: Addr) AND NOT (mask 6) = 0x1200 AND NOT (mask 6)" "(0x1200 :: Addr) AND NOT (mask 6) = 0x1200"
    by code_simp+
  with cache_invalidate_then_miss[OF f(2), of "0x1234" "0x1200" 5] f(1) show ?thesis by auto
qed

text \<open>C31. The LRU policy: the first invalid way is taken if there is one; otherwise, as long as some
  way was last used before cycle \<^verbatim>\<open>MAX_INT\<close> = 2147483647, a way with the smallest
  last-access time of the set is taken.\<close>

theorem lru_victim_correct:
  assumes "\<not> KNOB_CACHE_USE_PSEUDO_LRU k"
  shows "(j < length ls \<and> \<not> ce_valid (ls ! j) \<and> (\<forall>v < j. ce_valid (ls ! v)) \<longrightarrow>
      find_replacement_line k ls = Some (j, ls)) \<and>
    ((\<forall>l\<in>set ls. ce_valid l) \<and> (\<exists>l\<in>set ls. ce_last_access_time l < MAX_INT) \<longrightarrow>
      (\<exists>w < length ls. find_replacement_line k ls = Some (w, ls) \<and>
        (\<forall>l\<in>set ls. ce_last_access_time (ls ! w) \<le> ce_last_access_time l)))"
  using assms lru_loop_invalid[of j ls 0 0 MAX_INT] lru_loop_min[of ls MAX_INT 0 0]
  by (auto simp add: find_replacement_line_def)

theorem lru_victim_correct_witness:
  "find_replacement_line (demo_knobs False)
     [demo_line\<lparr>ce_valid := True, ce_last_access_time := 7\<rparr>, demo_line] =
   Some (1, [demo_line\<lparr>ce_valid := True, ce_last_access_time := 7\<rparr>, demo_line])"
  using lru_victim_correct[of "demo_knobs False" 1
      "[demo_line\<lparr>ce_valid := True, ce_last_access_time := 7\<rparr>, demo_line]"]
  by (simp add: demo_knobs_def demo_line_def)

text \<open>The comparison of \<^verbatim>\<open>find_replacement_line\<close> starts from the 32-bit
  \<^verbatim>\<open>MAX_INT\<close> although times are 64-bit cycles: once every way of a full set was last used at or
  after cycle 2147483647, the policy evicts way 0, whatever the order of use, so that a line just
  inserted there is the next victim.\<close>

theorem lru_degenerates_after_max_int:
  assumes "\<not> KNOB_CACHE_USE_PSEUDO_LRU k" "\<forall>l\<in>set ls. ce_valid l \<and> MAX_INT \<le> ce_last_access_time l"
  shows "find_replacement_line k ls = Some (0, ls)"
  using assms lru_loop_keep[of ls MAX_INT 0 0] by (simp add: find_replacement_line_def)

theorem lru_degenerates_after_max_int_witness:
  "find_replacement_line (demo_knobs False)
     [demo_line\<lparr>ce_valid := True, ce_last_access_time := 3000000001\<rparr>,
      demo_line\<lparr>ce_valid := True, ce_last_access_time := 3000000000\<rparr>] =
   Some (0, [demo_line\<lparr>ce_valid := True, ce_last_access_time := 3000000001\<rparr>,
      demo_line\<lparr>ce_valid := True, ce_last_access_time := 3000000000\<rparr>])"
  by (rule lru_degenerates_after_max_int) (simp_all add: demo_knobs_def demo_line_def MAX_INT_def word_le_nat_alt)

text \<open>C32. With the static partition between CPU and GPU lines, the way chosen for a line of one
  type never holds a valid line of the other type: it is an invalid way, taken only while the type
  is below its share, or a line of the same type.\<close>

theorem partition_isolates_types:
  assumes "find_replacement_line_from_same_type k assoc s gpuline = Inr w"
  shows "w < length (cs_entry s) \<and>
    (ce_valid (cs_entry s ! w) \<longrightarrow> ce_gpuline (cs_entry s ! w) = gpuline) \<and>
    (\<not> ce_valid (cs_entry s ! w) \<longrightarrow>
       (if gpuline then cs_num_gpu_line s < int assoc - KNOB_HETERO_STATIC_CPU_PARTITION k
        else cs_num_cpu_line s < KNOB_HETERO_STATIC_CPU_PARTITION k))"
proof -
  from assms have "same_type_loop gpuline ((if gpuline then cs_num_gpu_line s else cs_num_cpu_line s)
      < (if gpuline then int assoc - KNOB_HETERO_STATIC_CPU_PARTITION k
         else KNOB_HETERO_STATIC_CPU_PARTITION k)) 0 (cs_entry s) None ULLONG_MAX = Some w"
    by (auto simp add: find_replacement_line_from_same_type_def Let_def split: option.splits)
  from same_type_loop_Some[OF this] show ?thesis by (auto split: if_splits)
qed

theorem partition_isolates_types_witness:
  "\<exists>s :: nat cache_set. find_replacement_line_from_same_type (demo_knobs False) 2 s True = Inr 1 \<and>
     ce_valid (cs_entry s ! 1) \<and> ce_gpuline (cs_entry s ! 1) = True"
proof -
  let ?s = "\<lparr>cs_entry = [demo_line\<lparr>ce_valid := True\<rparr>, demo_line\<lparr>ce_valid := True, ce_gpuline := True\<rparr>],
    cs_assoc = 2, cs_num_cpu_line = 1, cs_num_gpu_line = 1\<rparr>"
  have "find_replacement_line_from_same_type (demo_knobs False) 2 ?s True = Inr 1"
    by (simp add: find_replacement_line_from_same_type_def demo_line_def demo_knobs_def ULLONG_MAX_def
        word_less_nat_alt)
  moreover from partition_isolates_types[OF this] have "ce_valid (cs_entry ?s ! 1) \<longrightarrow> ce_gpuline (cs_entry ?s ! 1) = True"
    by blast
  ultimately show ?thesis by (intro exI[of _ ?s]) simp
qed

text \<open>The per-set line counters that the static partition compares with its limits: every
  insertion keeps the difference between the counter and the number of valid lines of the type, in
  every set, but invalidating a resident line removes it without decrementing the counter, so the
  counter of its type ends one too high.\<close>

theorem line_counters_drift:
  assumes "insert_cache k cycle a appl gpuline skip c = Inr (la, up, p, c1)"
    and wf: "cache_wf c2" and ts: "find_tag_and_set c2 b = (tag, st)"
    and hit: "find_way tag (cs_entry (c_set c2 ! st)) = Some w"
  shows "drift h c1 s = drift h c s \<and>
    (\<exists>d c3. invalidate_cache_line b c2 = Inr (d, c3) \<and>
      drift (ce_gpuline (line_at c2 st w)) c3 st = drift (ce_gpuline (line_at c2 st w)) c2 st + 1)"
proof -
  have st: "st < length (c_set c2)" using set_in_range[OF cache_wfD(1)[OF wf], of b] ts by simp
  obtain d c3 where "invalidate_cache_line b c2 = Inr (d, c3)" using invalidate_cache_line_spec[OF wf, of b] by metis
  with insert_drift[OF assms(1)] invalidate_drift[OF ts st hit] show ?thesis by auto
qed

theorem line_counters_drift_witness:
  "\<exists>la up p c1 d c3. insert_cache (demo_knobs False) 3 0x1234 0 False False demo_cache = Inr (la, up, p, c1) \<and>
     drift False c1 0 = 0 \<and> invalidate_cache_line 0x1234 c1 = Inr (d, c3) \<and> drift False c3 0 = 1"
proof -
  have ts: "find_tag_and_set demo_cache 0x1234 = (0x48, 0)"
    using log2_int_power[of 6] log2_int_power[of 2]
    by (simp add: find_tag_and_set_def demo_cache_def cache_c_def Let_def N_BIT_MASK_mask) code_simp
  have np: "\<not> (KNOB_HETERO_STATIC_CACHE_PARTITION (demo_knobs False) \<and> c_enable_partition demo_cache)"
    by (simp add: demo_knobs_def)
  obtain la up p c1 where I: "insert_cache (demo_knobs False) 3 0x1234 0 False False demo_cache = Inr (la, up, p, c1)"
    using insert_cache_total[OF demo_cache_wf(1) np, of 3 "0x1234" 0 False False] .
  obtain w where W: "w < c_assoc demo_cache" "cache_wf c1" "same_config demo_cache c1" "ce_valid (line_at c1 0 w)"
    "ce_tag (line_at c1 0 w) = 0x48" and g: "ce_gpuline (line_at c1 0 w) = False"
    using insert_cache_spec[OF demo_cache_wf(1) _ ts I] demo_cache_wf(2) by (metis empty_iff)
  note C = same_configD[OF W(3)]
  have "0 < length (c_set c1)" by (simp add: C(4)) (simp add: demo_cache_def cache_c_def Let_def)
  from found_way[OF W(2) this W(1)[folded C(3)] W(4,5)]
  have hit: "find_way 0x48 (cs_entry (c_set c1 ! 0)) = Some w" .
  have "drift False demo_cache 0 = 0"
    by (simp add: drift_def demo_cache_def cache_c_def Let_def cache_set_c_def type_count_def)
  with line_counters_drift[OF I W(2) _ hit, of "0x1234" False 0] ts C(1) I g show ?thesis by auto
qed

end
