(* ===== verification/HmcTypes.thy ===== *)
theory HmcTypes
  imports Prelude
begin

text \<open>
  The kinds of hybrid-memory-cube instructions of \<^verbatim>\<open>src/src/hmc_types.h\<close> and the
  conversions between a kind and its name in the traces.
\<close>

datatype HMC_Type =
    HMC_NONE | HMC_CAS_equal_16B | HMC_CAS_zero_16B | HMC_CAS_greater_16B | HMC_CAS_less_16B
  | HMC_ADD_16B | HMC_ADD_8B | HMC_ADD_DUAL | HMC_SWAP | HMC_BIT_WR
  | HMC_AND | HMC_NAND | HMC_OR | HMC_XOR | HMC_FP_ADD
  | HMC_COMP_greater | HMC_COMP_less | HMC_COMP_equal | HMC_hook | HMC_unhook
  | HMC_CANDIDATE | HMC_TRANS_BEG | HMC_TRANS_MID | HMC_TRANS_END | NUM_HMC_TYPES

fun HMC_Type2String :: "HMC_Type \<Rightarrow> string" where
  "HMC_Type2String HMC_NONE = ''HMC_NONE''"
| "HMC_Type2String HMC_CAS_equal_16B = ''HMC_CAS_equal_16B''"
| "HMC_Type2String HMC_CAS_zero_16B = ''HMC_CAS_zero_16B''"
| "HMC_Type2String HMC_CAS_greater_16B = ''HMC_CAS_greater_16B''"
| "HMC_Type2String HMC_CAS_less_16B = ''HMC_CAS_less_16B''"
| "HMC_Type2String HMC_ADD_16B = ''HMC_ADD_16B''"
| "HMC_Type2String HMC_ADD_8B = ''HMC_ADD_8B''"
| "HMC_Type2String HMC_ADD_DUAL = ''HMC_ADD_DUAL''"
| "HMC_Type2String HMC_SWAP = ''HMC_SWAP''"
| "HMC_Type2String HMC_BIT_WR = ''HMC_BIT_WR''"
| "HMC_Type2String HMC_AND = ''HMC_AND''"
| "HMC_Type2String HMC_NAND = ''HMC_NAND''"
| "HMC_Type2String HMC_OR = ''HMC_OR''"
| "HMC_Type2String HMC_XOR = ''HMC_XOR''"
| "HMC_Type2String HMC_FP_ADD = ''HMC_FP_ADD''"
| "HMC_Type2String HMC_COMP_greater = ''HMC_COMP_greater''"
| "HMC_Type2String HMC_COMP_less = ''HMC_COMP_less''"
| "HMC_Type2String HMC_COMP_equal = ''HMC_COMP_equal''"
| "HMC_Type2String HMC_CANDIDATE = ''HMC_CANDIDATE''"
| "HMC_Type2String HMC_hook = ''std::__detail::_List_node_base::_M_hook''"
| "HMC_Type2String HMC_unhook = ''std::__detail::_List_node_base::_M_unhook''"
| "HMC_Type2String HMC_TRANS_BEG = ''HMC_TRANS_BEG''"
| "HMC_Type2String HMC_TRANS_MID = ''HMC_TRANS_MID''"
| "HMC_Type2String HMC_TRANS_END = ''HMC_TRANS_END''"
| "HMC_Type2String NUM_HMC_TYPES = ''''"

definition HMC_String2Type :: "string \<Rightarrow> HMC_Type" where
  "HMC_String2Type name =
    (if name = ''HMC_CAS_equal_16B'' then HMC_CAS_equal_16B
     else if name = ''HMC_CAS_zero_16B'' then HMC_CAS_zero_16B
     else if name = ''HMC_CAS_greater_16B'' then HMC_CAS_greater_16B
     else if name = ''HMC_CAS_less_16B'' then HMC_CAS_less_16B
     else if name = ''HMC_ADD_16B'' then HMC_ADD_16B
     else if name = ''HMC_ADD_8B'' then HMC_ADD_8B
     else if name = ''HMC_ADD_DUAL'' then HMC_ADD_DUAL
     else if name = ''HMC_SWAP'' then HMC_SWAP
     else if name = ''HMC_BIT_WR'' then HMC_BIT_WR
     else if name = ''HMC_AND'' then HMC_AND
     else if name = ''HMC_NAND'' then HMC_NAND
     else if name = ''HMC_OR'' then HMC_OR
     else if name = ''HMC_XOR'' then HMC_XOR
     else if name = ''HMC_FP_ADD'' then HMC_FP_ADD
     else if name = ''HMC_COMP_greater'' then HMC_COMP_greater
     else if name = ''HMC_COMP_less'' then HMC_COMP_less
     else if name = ''HMC_COMP_equal'' then HMC_COMP_equal
     else if name = ''HMC_CANDIDATE'' then HMC_CANDIDATE
     else if name = ''std::__detail::_List_node_base::_M_hook'' then HMC_hook
     else if name = ''std::__detail::_List_node_base::_M_unhook'' then HMC_unhook
     else if name = ''HMC_TRANS_BEG'' then HMC_TRANS_BEG
     else if name = ''HMC_TRANS_MID'' then HMC_TRANS_MID
     else if name = ''HMC_TRANS_END'' then HMC_TRANS_END
     else HMC_NONE)"

text \<open>The names of the HMC instructions round-trip: the name written for any kind is read back as
  that kind, so no two kinds share a name, and a string that is not the name of a kind is read as
  \<^verbatim>\<open>HMC_NONE\<close>. (The count \<^verbatim>\<open>NUM_HMC_TYPES\<close>, which is not a kind,
  has the empty name.)\<close>

theorem hmc_names_roundtrip:
  "(HMC_String2Type (HMC_Type2String t) = (if t = NUM_HMC_TYPES then HMC_NONE else t)) \<and>
   (HMC_Type2String t = HMC_Type2String t' \<longleftrightarrow> t = t') \<and>
   (HMC_String2Type name = HMC_NONE \<or> HMC_Type2String (HMC_String2Type name) = name)"
proof -
  have rt: "HMC_String2Type (HMC_Type2String t) = (if t = NUM_HMC_TYPES then HMC_NONE else t)" for t
    by (cases t) (simp_all add: HMC_String2Type_def)
  have nn: "HMC_Type2String t = HMC_Type2String NUM_HMC_TYPES \<longleftrightarrow> t = NUM_HMC_TYPES" for t
    by (cases t) simp_all
  have inj: "HMC_Type2String t = HMC_Type2String t' \<longleftrightarrow> t = t'"
    using rt[of t] rt[of t'] nn[of t] nn[of t'] by metis
  have "HMC_String2Type name = HMC_NONE \<or> HMC_Type2String (HMC_String2Type name) = name"
    unfolding HMC_String2Type_def
    by (intro if_split[where P = "\<lambda>t. t = HMC_NONE \<or> HMC_Type2String t = name", THEN iffD2] conjI impI) simp_all
  with rt inj show ?thesis by blast
qed

end
