(* ===== verification/Uop.thy ===== *)
theory Uop
  imports HmcTypes
begin

text \<open>
  The micro-operation \<^verbatim>\<open>uop_c\<close> of \<^verbatim>\<open>src/src/uop.h\<close> and \<^verbatim>\<open>src/src/uop.cc\<close>,
  the value that travels through the pipeline. The fields \<^verbatim>\<open>m_x\<close> are named \<open>u_x\<close>;
  pointers to other uops are addresses of the store of uops that the components share. The 300 GPU
  opcodes, which no component modelled here distinguishes, are one constructor \<open>UOP_GPU\<close> with
  the opcode's number. The type of branches is ordered as the enumeration is.
\<close>

section \<open>Enumerations\<close>

datatype ALLOCQ_Type = gen_ALLOCQ | mem_ALLOCQ | fp_ALLOCQ | simd_ALLOCQ | max_ALLOCQ

datatype Uop_Type =
    UOP_INV | UOP_SPEC | UOP_NOP | UOP_CF | UOP_CMOV | UOP_LDA | UOP_IMEM | UOP_IADD | UOP_IMUL
  | UOP_IDIV | UOP_ICMP | UOP_LOGIC | UOP_SHIFT | UOP_BYTE | UOP_MM | UOP_VADD | UOP_VSTR | UOP_VFADD
  | UOP_LFENCE | UOP_FULL_FENCE | UOP_ACQ_FENCE | UOP_REL_FENCE | UOP_FMEM
  | UOP_FCF | UOP_FCVT | UOP_FADD | UOP_FMUL | UOP_FDIV | UOP_FCMP | UOP_FBIT | UOP_FCMOV | UOP_LD
  | UOP_ST | UOP_SSE | UOP_SIMD | UOP_AES | UOP_PCLMUL | UOP_X87 | UOP_XSAVE | UOP_XSAVEOPT
  | UOP_GPU nat

datatype Mem_Type =
    NOT_MEM | MEM_LD | MEM_ST | MEM_PF | MEM_WH | MEM_EVICT | MEM_SWPREF_NTA | MEM_SWPREF_T0
  | MEM_SWPREF_T1 | MEM_SWPREF_T2 | MEM_LD_LM | MEM_LD_SM | MEM_LD_GM | MEM_ST_LM | MEM_ST_SM
  | MEM_ST_GM | MEM_LD_CM | MEM_LD_TM | MEM_LD_PM | NUM_MEM_TYPES

datatype Bar_Type = NOT_BAR | BAR_FETCH | BAR_ISSUE | PTX_BLOCK_BAR | ACQ_BAR | REL_BAR

datatype Uop_State =
    OS_INVALID | OS_FETCHED | OS_ISSUED | OS_SCHEDULED | OS_MISS | OS_WAIT_MEM | OS_DONE | OS_ALLOCATE
  | OS_EXEC | OS_MERGED | OS_SCHEDULE | OS_SCHEDULE_DONE | OS_DCACHE_BEGIN | OS_DCACHE_HIT
  | OS_DCACHE_ACCESS | OS_DCACHE_PORT_UNAVAILABLE | OS_DCACHE_MEM_ACCESS_DENIED | OS_EXEC_BEGIN
  | OS_TRANS_BEGIN | OS_TRANS_WALK_QUEUE | OS_TRANS_RETRY_QUEUE | OS_TRANS_FAULT_RETRY_QUEUE
  | OS_TRANS_FAULT_BUFFER | OS_TRANS_DONE | OS_DIMM_BEGIN | OS_DIMM_DONE | OS_CME_BEGIN | OS_CME_DONE

datatype Cf_Type =
    NOT_CF | CF_BR | CF_CBR | CF_CALL | CF_IBR | CF_ICALL | CF_ICO | CF_RET | CF_MITE

datatype Dep_Type = REG_DATA_DEP | MEM_ADDR_DEP | MEM_DATA_DEP | PREV_UOP_DEP

text \<open>The values of the enumeration \<^verbatim>\<open>Cf_Type\<close>, which the code compares with
  \<^verbatim>\<open><\<close>; the order of the type is theirs.\<close>

fun cf_num :: "Cf_Type \<Rightarrow> nat" where
  "cf_num NOT_CF = 0" | "cf_num CF_BR = 1" | "cf_num CF_CBR = 2" | "cf_num CF_CALL = 3"
| "cf_num CF_IBR = 4" | "cf_num CF_ICALL = 5" | "cf_num CF_ICO = 6" | "cf_num CF_RET = 7"
| "cf_num CF_MITE = 8"

lemma cf_num_inj: "cf_num a = cf_num b \<longleftrightarrow> a = b"
  by (cases a; cases b) simp_all

instantiation Cf_Type :: linorder
begin

definition less_eq_Cf_Type :: "Cf_Type \<Rightarrow> Cf_Type \<Rightarrow> bool" where
  "less_eq_Cf_Type a b \<longleftrightarrow> cf_num a \<le> cf_num b"

definition less_Cf_Type :: "Cf_Type \<Rightarrow> Cf_Type \<Rightarrow> bool" where
  "less_Cf_Type a b \<longleftrightarrow> cf_num a < cf_num b"

instance
  by standard (auto simp add: less_eq_Cf_Type_def less_Cf_Type_def cf_num_inj)

end

section \<open>The uop\<close>

record src_info =
  si_type :: Dep_Type
  si_uop :: ptr
  si_uop_num :: Counter
  si_unique_num :: Counter

record uop_info =
  ui_mispred :: bool
  ui_misfetch :: bool
  ui_originally_mispred :: bool
  ui_originally_misfetch :: bool
  ui_btb_miss :: bool
  ui_btb_miss_resolved :: bool
  ui_no_target :: bool
  ui_ibp_miss :: bool
  ui_icmiss :: bool
  ui_dcmiss :: bool
  ui_l2_miss :: bool
  ui_pred_global_hist :: uns32
  ui_btb_set :: nat

record recovery_info =
  ri_global_hist :: uns32
  ri_global_hist_64 :: uns64

record uop =
  u_uop_num :: Counter
  u_unique_num :: Counter
  u_inst_num :: Counter
  u_thread_id :: int
  u_unique_thread_id :: int
  u_orig_thread_id :: int
  u_orig_block_id :: int
  u_block_id :: uns32
  u_core_id :: int
  u_pc :: Addr
  u_npc :: Addr
  u_opcode :: uns16
  u_uop_type :: Uop_Type
  u_cf_type :: Cf_Type
  u_mem_type :: Mem_Type
  u_bar_type :: Bar_Type
  u_fetched_cycle :: Counter
  u_bp_cycle :: Counter
  u_alloc_cycle :: Counter
  u_sched_cycle :: Counter
  u_exec_cycle :: Counter
  u_done_cycle :: Counter
  u_num_srcs :: nat
  u_num_dests :: nat
  u_vaddr :: Addr
  u_paddr :: Addr
  u_mem_size :: nat
  u_dir :: uns8
  u_src_info :: "uns16 list"
  u_map_src_info :: "src_info list"
  u_src_uop_num :: Counter
  u_dest_info :: "uns16 list"
  u_valid :: bool
  u_bogus :: bool
  u_off_path :: bool
  u_mispredicted :: bool
  u_target_addr :: Addr
  u_active_mask :: uns32
  u_taken_mask :: uns32
  u_reconverge_addr :: Addr
  u_state :: Uop_State
  u_rob_entry :: int
  u_in_scheduler :: bool
  u_allocq_num :: ALLOCQ_Type
  u_in_iaq :: bool
  u_last_dep_exec :: ptr
  u_srcs_rdy :: bool
  u_uop_info :: uop_info
  u_isitBOM :: bool
  u_isitEOM :: bool
  u_last_uop :: bool
  u_recovery_info :: recovery_info
  u_srcs_not_rdy_vector :: int
  u_num_child_uops :: int
  u_num_child_uops_done :: int
  u_child_uops :: "addr list"
  u_parent_uop :: ptr
  u_pending_child_uops :: uns64
  u_req :: ptr
  u_uncoalesced_flag :: bool
  u_mem_start_cycle :: Counter
  u_req_sb :: bool
  u_req_lb :: bool
  u_req_int_reg :: bool
  u_req_fp_reg :: bool
  u_dcache_bank_id :: int
  u_bypass_llc :: bool
  u_skip_llc :: bool
  u_mem_version :: uns16
  u_translated :: bool
  u_num_page_table_walks :: int
  u_hmc_inst :: HMC_Type
  u_hmc_trans_id :: uns64
  u_dep_on_hmc_inst :: bool

definition MAX_SRCS :: nat where
  "MAX_SRCS = 9"

definition MAX_DESTS :: nat where
  "MAX_DESTS = 6"

text \<open>\<^verbatim>\<open>init\<close> resets the fields it names; the others keep the values of the uop's previous use.\<close>

definition init :: "uop \<Rightarrow> uop" where
  "init u = u
     \<lparr>u_map_src_info := map (\<lambda>s. s\<lparr>si_uop := None\<rparr>) (take MAX_SRCS (u_map_src_info u)) @
                        drop MAX_SRCS (u_map_src_info u),
      u_dest_info := replicate MAX_DESTS 0,
      u_uop_num := 0, u_inst_num := 0, u_thread_id := - 1, u_unique_thread_id := - 1,
      u_orig_thread_id := - 1, u_off_path := False, u_fetched_cycle := 0, u_bp_cycle := 0,
      u_alloc_cycle := 0, u_sched_cycle := 0, u_exec_cycle := 0, u_done_cycle := 0,
      u_mem_start_cycle := 0, u_srcs_not_rdy_vector := 0, u_last_dep_exec := None,
      u_srcs_rdy := False, u_mem_type := NOT_MEM, u_bogus := False, u_active_mask := 0,
      u_taken_mask := 0, u_reconverge_addr := 0, u_target_addr := 0,
      u_uop_info := (u_uop_info u)\<lparr>ui_misfetch := False, ui_mispred := False,
        ui_originally_mispred := False, ui_originally_misfetch := False, ui_btb_miss := False,
        ui_btb_miss_resolved := False, ui_no_target := False, ui_ibp_miss := False,
        ui_icmiss := False, ui_dcmiss := False, ui_l2_miss := False\<rparr>,
      u_num_child_uops := 0, u_num_child_uops_done := 0, u_child_uops := [], u_parent_uop := None,
      u_pending_child_uops := 0, u_uncoalesced_flag := False, u_last_uop := False,
      u_req_sb := False, u_req_lb := False, u_req_int_reg := False, u_req_fp_reg := False,
      u_dcache_bank_id := 128, u_bypass_llc := False, u_skip_llc := False,
      u_in_scheduler := False, u_mem_version := 0, u_state := OS_INVALID,
      u_hmc_inst := HMC_NONE, u_hmc_trans_id := 0, u_dep_on_hmc_inst := False, u_translated := False\<rparr>"

definition uop_c :: "uop \<Rightarrow> uop" where
  "uop_c junk = (init junk)\<lparr>u_valid := False\<rparr>"

definition allocate_uop :: "uop \<Rightarrow> uop" where
  "allocate_uop u = init (u\<lparr>u_valid := True\<rparr>)"

text \<open>An uop whose every field has a definite value, for concrete runs.\<close>

definition zero_uop :: uop where
  "zero_uop = \<lparr>u_uop_num = 0, u_unique_num = 0, u_inst_num = 0, u_thread_id = 0, u_unique_thread_id = 0,
     u_orig_thread_id = 0, u_orig_block_id = 0, u_block_id = 0, u_core_id = 0, u_pc = 0, u_npc = 0, u_opcode = 0, u_uop_type = UOP_INV, u_cf_type = NOT_CF,
     u_mem_type = NOT_MEM, u_bar_type = NOT_BAR, u_fetched_cycle = 0, u_bp_cycle = 0, u_alloc_cycle = 0,
     u_sched_cycle = 0, u_exec_cycle = 0, u_done_cycle = 0, u_num_srcs = 0, u_num_dests = 0, u_vaddr = 0,
     u_paddr = 0, u_mem_size = 0, u_dir = 0, u_src_info = [], u_map_src_info = [], u_src_uop_num = 0,
     u_dest_info = [], u_valid = False, u_bogus = False, u_off_path = False, u_mispredicted = False, u_target_addr = 0,
     u_active_mask = 0, u_taken_mask = 0, u_reconverge_addr = 0, u_state = OS_INVALID, u_rob_entry = 0,
     u_in_scheduler = False, u_allocq_num = gen_ALLOCQ, u_in_iaq = False, u_last_dep_exec = None,
     u_srcs_rdy = False,
     u_uop_info = \<lparr>ui_mispred = False, ui_misfetch = False, ui_originally_mispred = False,
       ui_originally_misfetch = False, ui_btb_miss = False, ui_btb_miss_resolved = False,
       ui_no_target = False, ui_ibp_miss = False, ui_icmiss = False, ui_dcmiss = False,
       ui_l2_miss = False, ui_pred_global_hist = 0, ui_btb_set = 0\<rparr>,
     u_isitBOM = False, u_isitEOM = False, u_last_uop = False, u_recovery_info = \<lparr>ri_global_hist = 0, ri_global_hist_64 = 0\<rparr>,
     u_srcs_not_rdy_vector = 0, u_num_child_uops = 0, u_num_child_uops_done = 0, u_child_uops = [],
     u_parent_uop = None, u_pending_child_uops = 0, u_req = None, u_uncoalesced_flag = False, u_mem_start_cycle = 0,
     u_req_sb = False, u_req_lb = False, u_req_int_reg = False, u_req_fp_reg = False,
     u_dcache_bank_id = 0, u_bypass_llc = False, u_skip_llc = False, u_mem_version = 0,
     u_translated = False, u_num_page_table_walks = 0, u_hmc_inst = HMC_NONE,
     u_hmc_trans_id = 0, u_dep_on_hmc_inst = False\<rparr>"

end
