(* ===== verification/BranchPred.thy ===== *)
theory BranchPred
  imports Cache Uop
begin

text \<open>
  The branch predictors: the gshare direction predictor (\<^verbatim>\<open>src/src/bp_gshare.cc\<close>, base
  class in \<^verbatim>\<open>src/src/bp.cc\<close>) and the branch target buffer
  (\<^verbatim>\<open>src/src/bp_targ.cc\<close>), which stores targets in a \<^verbatim>\<open>cache_c\<close>.
\<close>

section \<open>Data\<close>

record bp_dir =
  bp_pht :: "uns8 list"
  bp_global_hist :: uns32
  bp_global_hist_64 :: uns64

record bp_knobs =
  KNOB_BP_HIST_LENGTH :: nat
  KNOB_PHT_CTR_BITS :: nat
  KNOB_PERFECT_BTB :: bool
  KNOB_BTB_ENTRIES :: nat
  KNOB_BTB_ASSOC :: nat
  KNOB_BTB_BANK_NUM :: nat

section \<open>The gshare predictor\<close>

definition PHT_INIT_VALUE :: "bp_knobs \<Rightarrow> uns8" where
  "PHT_INIT_VALUE k = ucast (push_bit (KNOB_PHT_CTR_BITS k) (1 :: uns32) - 1)"

definition COOK_HIST_BITS :: "uns32 \<Rightarrow> nat \<Rightarrow> nat \<Rightarrow> uns32" where
  "COOK_HIST_BITS hist len untouched = push_bit untouched (drop_bit (32 - len + untouched) hist)"

definition COOK_ADDR_BITS :: "Addr \<Rightarrow> nat \<Rightarrow> nat \<Rightarrow> uns32" where
  "COOK_ADDR_BITS a len sh = ucast (ucast (drop_bit sh (ucast a :: uns32)) AND N_BIT_MASK len)"

definition SAT_INC :: "uns8 \<Rightarrow> uns64 \<Rightarrow> uns8" where
  "SAT_INC v mx = (if ucast v = mx then ucast mx else v + 1)"

definition SAT_DEC :: "uns8 \<Rightarrow> uns8 \<Rightarrow> uns8" where
  "SAT_DEC v mn = (if v = mn then mn else v - 1)"

definition bp_gshare_c :: "bp_knobs \<Rightarrow> bp_dir" where
  "bp_gshare_c k =
     \<lparr>bp_pht = replicate (2 ^ KNOB_BP_HIST_LENGTH k) (PHT_INIT_VALUE k),
      bp_global_hist = 0, bp_global_hist_64 = 0\<rparr>"

definition pht_index :: "bp_knobs \<Rightarrow> uns32 \<Rightarrow> Addr \<Rightarrow> nat" where
  "pht_index k hist a =
     unat (COOK_HIST_BITS hist (KNOB_BP_HIST_LENGTH k) 0 XOR COOK_ADDR_BITS a (KNOB_BP_HIST_LENGTH k) 2)"

definition gshare_pred :: "bp_knobs \<Rightarrow> uop \<Rightarrow> bp_dir \<Rightarrow> (uns8 \<times> uop \<times> bp_dir) res" where
  "gshare_pred k u b =
     res_bind (arr_get (bp_pht b) (pht_index k (bp_global_hist b) (u_pc u))) (\<lambda>pht_entry.
     let pred = drop_bit 1 pht_entry AND 1;
         u1 = u\<lparr>u_uop_info := (u_uop_info u)\<lparr>ui_pred_global_hist := bp_global_hist b\<rparr>\<rparr>;
         hist = drop_bit 1 (bp_global_hist b);
         u2 = u1\<lparr>u_recovery_info := (u_recovery_info u1)\<lparr>ri_global_hist :=
                   hist OR push_bit 31 (ucast (u_dir u))\<rparr>\<rparr>
     in Inr (pred, u2, b\<lparr>bp_global_hist := hist OR push_bit 31 (ucast pred)\<rparr>))"

definition gshare_update :: "bp_knobs \<Rightarrow> uop \<Rightarrow> bp_dir \<Rightarrow> bp_dir res" where
  "gshare_update k u b =
     (let i = pht_index k (ui_pred_global_hist (u_uop_info u)) (u_pc u)
      in res_bind (arr_get (bp_pht b) i) (\<lambda>pht_entry.
         res_bind (arr_set (bp_pht b) i
            (if u_dir u \<noteq> 0 then SAT_INC pht_entry (N_BIT_MASK (KNOB_PHT_CTR_BITS k))
             else SAT_DEC pht_entry 0)) (\<lambda>pht.
         Inr (b\<lparr>bp_pht := pht\<rparr>))))"

definition gshare_recover :: "recovery_info \<Rightarrow> bp_dir \<Rightarrow> bp_dir" where
  "gshare_recover r b = b\<lparr>bp_global_hist := ri_global_hist r, bp_global_hist_64 := ri_global_hist_64 r\<rparr>"

section \<open>The branch target buffer\<close>

definition bp_targ_c :: "bp_knobs \<Rightarrow> Addr cache_entry \<Rightarrow> int \<Rightarrow> int \<Rightarrow> int \<Rightarrow> Addr cache" where
  "bp_targ_c k junk jc jg core_id =
     cache_c junk jc jg (KNOB_BTB_ENTRIES k * 4) (KNOB_BTB_ASSOC k) 4 8 (KNOB_BTB_BANK_NUM k)
       False core_id CACHE_BTB False 1 0"

definition btb_pred :: "bp_knobs \<Rightarrow> Counter \<Rightarrow> uop \<Rightarrow> Addr cache \<Rightarrow> (Addr \<times> uop \<times> Addr cache) res" where
  "btb_pred k cycle u btb =
     res_bind
       (if KNOB_PERFECT_BTB k then Inr (u_target_addr u, btb)
        else res_bind (access_cache cycle (u_pc u) True btb) (\<lambda>(_, line, btb').
             Inr (case line of None \<Rightarrow> 0 | Some (st, w) \<Rightarrow> ce_data (line_at btb' st w), btb')))
       (\<lambda>(return_addr, btb').
        Inr (return_addr, u\<lparr>u_uop_info := (u_uop_info u)\<lparr>ui_btb_set := snd (find_tag_and_set btb' (u_pc u))\<rparr>\<rparr>, btb'))"

definition btb_update :: "cache_knobs \<Rightarrow> Counter \<Rightarrow> int \<Rightarrow> uop \<Rightarrow> Addr cache \<Rightarrow> Addr cache res" where
  "btb_update k cycle appl_id u btb =
     (if u_off_path u then Inr btb
      else res_bind (access_cache cycle (u_pc u) False btb) (\<lambda>(_, line, btb1).
           res_bind
             (case line of
                Some p \<Rightarrow> Inr (p, btb1)
              | None \<Rightarrow> res_bind (insert_cache k cycle (u_pc u) appl_id False False btb1)
                          (\<lambda>(_, _, p, btb2). Inr (p, btb2)))
             (\<lambda>((st, w), btb2).
              Inr (upd_line st w (\<lambda>l. l\<lparr>ce_data := u_target_addr u\<rparr>) btb2))))"

section \<open>The branch prediction data of a core\<close>

text \<open>\<^verbatim>\<open>bp_data_c\<close>: the two predictors, and per thread the cycles at which fetching resumes after a
  misprediction or a redirection and the branch that caused it.\<close>

record bp_data =
  bd_bp :: bp_dir
  bd_targ_pred :: "Addr cache"
  bd_recovery_cycle :: "int \<Rightarrow> Counter"
  bd_redirect_cycle :: "int \<Rightarrow> Counter"
  bd_cause_op :: "int \<Rightarrow> Counter"

definition bp_data_c :: "bp_knobs \<Rightarrow> Addr cache_entry \<Rightarrow> int \<Rightarrow> int \<Rightarrow> int \<Rightarrow> bp_data" where
  "bp_data_c k junk jc jg core_id =
     \<lparr>bd_bp = bp_gshare_c k, bd_targ_pred = bp_targ_c k junk jc jg core_id, bd_recovery_cycle = (\<lambda>_. 0),
      bd_redirect_cycle = (\<lambda>_. 0), bd_cause_op = (\<lambda>_. 0)\<rparr>"

section \<open>Facts on the direction predictor\<close>

definition gshare_wf :: "bp_knobs \<Rightarrow> bp_dir \<Rightarrow> bool" where
  "gshare_wf k b \<longleftrightarrow> length (bp_pht b) = 2 ^ KNOB_BP_HIST_LENGTH k \<and>
     (\<forall>e\<in>set (bp_pht b). unat e < 2 ^ KNOB_PHT_CTR_BITS k)"

definition gshare_config :: "bp_knobs \<Rightarrow> bool" where
  "gshare_config k \<longleftrightarrow> KNOB_BP_HIST_LENGTH k \<le> 30 \<and> 1 \<le> KNOB_BP_HIST_LENGTH k \<and>
     1 \<le> KNOB_PHT_CTR_BITS k \<and> KNOB_PHT_CTR_BITS k \<le> 8"

lemma cook_hist_bound: "len \<le> 32 \<Longrightarrow> COOK_HIST_BITS hist len 0 AND mask len = COOK_HIST_BITS hist len 0"
  by (rule bit_word_eqI)
    (auto simp add: COOK_HIST_BITS_def bit_simps dest: bit_imp_le_length)

lemma cook_addr_bound: "COOK_ADDR_BITS a len sh AND mask len = COOK_ADDR_BITS a len sh"
  by (rule bit_word_eqI) (auto simp add: COOK_ADDR_BITS_def N_BIT_MASK_mask bit_simps)

lemma pht_index_bound:
  assumes "KNOB_BP_HIST_LENGTH k \<le> 32"
  shows "pht_index k hist a < 2 ^ KNOB_BP_HIST_LENGTH k"
proof -
  let ?n = "KNOB_BP_HIST_LENGTH k"
  let ?x = "COOK_HIST_BITS hist ?n 0 XOR COOK_ADDR_BITS a ?n 2"
  have "?x AND mask ?n = ?x"
    using cook_hist_bound[OF assms, of hist] cook_addr_bound[of a ?n 2] by (simp add: bit.conj_xor_distrib2)
  then have "unat ?x = unat ?x mod 2 ^ ?n" by (metis unat_and_mask)
  also have "\<dots> < 2 ^ ?n" by simp
  finally show ?thesis by (simp only: pht_index_def)
qed

lemma unat_ucast_8 [simp]: "unat (ucast (v :: uns8) :: uns64) = unat v"
  by (simp add: unsigned_ucast_eq take_bit_nat_eq_self unsigned_less[of v, THEN order_less_le_trans])

lemma unat_mask_small:
  assumes "n \<le> 8"
  shows "unat (N_BIT_MASK n) = 2 ^ n - 1"
proof -
  have u: "unat (2 ^ n :: uns64) = 2 ^ n" using assms by (simp add: unat_two_power)
  then have "(2 ^ n :: uns64) \<noteq> 0" by (metis power_not_zero unat_0 zero_neq_numeral)
  then have "unat (2 ^ n - 1 :: uns64) = 2 ^ n - 1" using unat_minus_one u by metis
  then show ?thesis by (simp add: N_BIT_MASK_mask mask_eq_exp_minus_1)
qed

lemma unat_SAT_INC:
  assumes "n \<le> 8" "unat v < 2 ^ n"
  shows "unat (SAT_INC v (N_BIT_MASK n)) = min (2 ^ n - 1) (unat v + 1)"
proof (cases "(ucast v :: uns64) = N_BIT_MASK n")
  case True
  then have v: "unat v = 2 ^ n - 1" using unat_mask_small[OF assms(1)] by (metis unat_ucast_8)
  have "(ucast (N_BIT_MASK n) :: uns8) = v" unfolding True[symmetric]
    by (rule bit_word_eqI) (simp add: bit_simps)
  with True v show ?thesis by (simp add: SAT_INC_def)
next
  case False
  then have ne: "unat v \<noteq> 2 ^ n - 1" using unat_mask_small[OF assms(1)] by (metis unat_ucast_8 unsigned_word_eqI)
  then have lt: "unat v + 1 < 2 ^ n" using assms(2) by linarith
  moreover have "(2::nat) ^ n \<le> 2 ^ 8" using assms(1) by (rule power_increasing) simp
  ultimately have "unat (v + 1) = unat v + 1" by (simp add: unat_plus_if_size word_size)
  with False lt show ?thesis by (simp add: SAT_INC_def)
qed

lemma unat_SAT_DEC: "unat (SAT_DEC v 0) = unat v - 1"
  by (simp add: SAT_DEC_def unat_minus_one)

lemma gshare_index:
  assumes "gshare_config k" "gshare_wf k b"
  shows "pht_index k hist a < length (bp_pht b)"
  using assms pht_index_bound[of k hist a] by (simp add: gshare_config_def gshare_wf_def)

definition train :: "bp_knobs \<Rightarrow> uns8 \<Rightarrow> uns8 \<Rightarrow> uns8" where
  "train k dir e = (if dir \<noteq> 0 then SAT_INC e (N_BIT_MASK (KNOB_PHT_CTR_BITS k)) else SAT_DEC e 0)"

lemma unat_train:
  assumes "KNOB_PHT_CTR_BITS k \<le> 8" "unat e < 2 ^ KNOB_PHT_CTR_BITS k"
  shows "unat (train k dir e) = (if dir \<noteq> 0 then min (2 ^ KNOB_PHT_CTR_BITS k - 1) (unat e + 1) else unat e - 1)"
  using unat_SAT_INC[OF assms] unat_SAT_DEC[of e] by (simp add: train_def)

lemma gshare_update_eq:
  fixes u :: uop
  assumes "gshare_config k" "gshare_wf k b"
  defines "i \<equiv> pht_index k (ui_pred_global_hist (u_uop_info u)) (u_pc u)"
  shows "gshare_update k u b = Inr (b\<lparr>bp_pht := (bp_pht b)[i := train k (u_dir u) (bp_pht b ! i)]\<rparr>)"
  using gshare_index[OF assms(1,2), of "ui_pred_global_hist (u_uop_info u)" "u_pc u"]
  by (simp add: gshare_update_def train_def i_def Let_def)

lemma gshare_update_wf:
  assumes "gshare_config k" "gshare_wf k b" "gshare_update k u b = Inr b'"
  shows "gshare_wf k b'"
proof -
  let ?i = "pht_index k (ui_pred_global_hist (u_uop_info u)) (u_pc u)"
  have i: "?i < length (bp_pht b)" by (rule gshare_index[OF assms(1,2)])
  have e: "unat (bp_pht b ! ?i) < 2 ^ KNOB_PHT_CTR_BITS k" using assms(2) i by (simp add: gshare_wf_def)
  have "unat (train k (u_dir u) (bp_pht b ! ?i)) < 2 ^ KNOB_PHT_CTR_BITS k"
    using unat_train[OF _ e, of "u_dir u"] assms(1) e by (auto simp add: gshare_config_def)
  with assms gshare_update_eq[OF assms(1,2), of u] show ?thesis
    by (auto simp add: gshare_wf_def dest!: set_update_subset_insert[THEN subsetD])
qed

lemma gshare_c_wf:
  assumes "gshare_config k"
  shows "gshare_wf k (bp_gshare_c k)"
proof -
  have n: "KNOB_PHT_CTR_BITS k \<le> 8" using assms by (simp add: gshare_config_def)
  then have "(2::nat) ^ KNOB_PHT_CTR_BITS k \<le> 2 ^ 8" by (rule power_increasing) simp
  have u: "unat (2 ^ KNOB_PHT_CTR_BITS k :: uns32) = 2 ^ KNOB_PHT_CTR_BITS k" using n by (simp add: unat_two_power)
  then have "(2 ^ KNOB_PHT_CTR_BITS k :: uns32) \<noteq> 0" by (metis power_not_zero unat_0 zero_neq_numeral)
  then have "unat (push_bit (KNOB_PHT_CTR_BITS k) (1 :: uns32) - 1) = 2 ^ KNOB_PHT_CTR_BITS k - 1"
    using unat_minus_one u by (metis push_bit_of_1)
  then have "unat (PHT_INIT_VALUE k) \<le> 2 ^ KNOB_PHT_CTR_BITS k - 1"
    unfolding PHT_INIT_VALUE_def by (simp add: unsigned_ucast_eq take_bit_nat_less_eq_self)
  then have "unat (PHT_INIT_VALUE k) < 2 ^ KNOB_PHT_CTR_BITS k"
    using zero_less_power[of "2 :: nat" "KNOB_PHT_CTR_BITS k"] by linarith
  then show ?thesis by (simp add: gshare_wf_def bp_gshare_c_def)
qed

lemma gshare_pred_eq:
  fixes u :: uop
  assumes "gshare_config k" "gshare_wf k b"
  defines "e \<equiv> bp_pht b ! pht_index k (bp_global_hist b) (u_pc u)"
  shows "\<exists>u'. gshare_pred k u b = Inr (drop_bit 1 e AND 1, u',
      b\<lparr>bp_global_hist := drop_bit 1 (bp_global_hist b) OR push_bit 31 (ucast (drop_bit 1 e AND 1 :: uns8))\<rparr>) \<and>
    ui_pred_global_hist (u_uop_info u') = bp_global_hist b \<and> u_pc u' = u_pc u \<and> u_dir u' = u_dir u \<and>
    ri_global_hist (u_recovery_info u') = drop_bit 1 (bp_global_hist b) OR push_bit 31 (ucast (u_dir u))"
  using gshare_index[OF assms(1,2), of "bp_global_hist b" "u_pc u"]
  by (simp add: gshare_pred_def e_def Let_def)

lemma bit1_of_small:
  assumes "unat (e :: uns8) < 4"
  shows "drop_bit 1 e AND 1 = (if 2 \<le> unat e then 1 else 0)"
proof -
  have "unat (drop_bit 1 e AND 1) = unat e div 2 mod 2"
    using unat_and_mask[of "drop_bit 1 e" 1] unat_drop_bit_div[of 1 e] by (simp add: mask_eq_exp_minus_1)
  with assms have "unat (drop_bit 1 e AND 1) = unat (if 2 \<le> unat e then 1 else 0 :: uns8)" by auto
  then show ?thesis by (simp only: unsigned_word_eqI)
qed

section \<open>Facts on the branch target buffer\<close>

text \<open>The target a buffer holds for a program counter; 0 when it holds none.\<close>

definition btb_target :: "Addr cache \<Rightarrow> Addr \<Rightarrow> Addr" where
  "btb_target c pc =
     (let (tag, st) = find_tag_and_set c pc
      in case find_way tag (cs_entry (c_set c ! st)) of None \<Rightarrow> 0 | Some w \<Rightarrow> ce_data (line_at c st w))"

lemma btb_pred_eq:
  assumes wf: "cache_wf c" and np: "\<not> c_cache_by_pass c" and k: "\<not> KNOB_PERFECT_BTB k"
  shows "\<exists>u' c'. btb_pred k cycle u c = Inr (btb_target c (u_pc u), u', c') \<and> cache_wf c' \<and> resident c' = resident c"
proof -
  obtain tag st where ts: "find_tag_and_set c (u_pc u) = (tag, st)" by fastforce
  have st: "st < length (c_set c)" using set_in_range[OF cache_wfD(1)[OF wf], of "u_pc u"] ts by simp
  from access_cache_cases[OF wf np ts, of cycle True] show ?thesis
  proof
    assume "find_way tag (cs_entry (c_set c ! st)) = None \<and>
      access_cache cycle (u_pc u) True c = Inr (Some (base_cache_line c (u_pc u)), None, c)"
    with wf k ts show ?thesis by (simp add: btb_pred_def btb_target_def)
  next
    assume "\<exists>w. w < c_assoc c \<and> find_way tag (cs_entry (c_set c ! st)) = Some w \<and>
      access_cache cycle (u_pc u) True c = Inr (Some (base_cache_line c (u_pc u)), Some (st, w),
        if True then upd_line st w (\<lambda>l. update_line_on_hit cycle (l\<lparr>ce_pref := False\<rparr>)) c else c)"
    then obtain w where w: "w < c_assoc c" "find_way tag (cs_entry (c_set c ! st)) = Some w"
      and acc: "access_cache cycle (u_pc u) True c = Inr (Some (base_cache_line c (u_pc u)), Some (st, w),
        upd_line st w (\<lambda>l. update_line_on_hit cycle (l\<lparr>ce_pref := False\<rparr>)) c)" by auto
    have "w < length (cs_entry (c_set c ! st))" using w(1) cache_wfD(3)[OF wf st] by simp
    from upd_line_at[OF st this, of _ st w] hit_update_keys[OF wf st w(1), of cycle] w acc k ts
    show ?thesis by (simp add: btb_pred_def btb_target_def update_line_on_hit_def)
  qed
qed

lemma fits_self:
  assumes wf: "cache_wf c" and st: "st < length (c_set c)" and w: "w < c_assoc c"
  shows "fits_line c st w (line_at c st w)"
  unfolding fits_line_def
proof (intro impI conjI allI)
  assume v: "ce_valid (line_at c st w)"
  show "find_tag_and_set c (ce_base (line_at c st w)) = (ce_tag (line_at c st w), st)"
    by (rule cache_wfD(4)[OF wf st w v])
  show "base_cache_line c (ce_base (line_at c st w)) = ce_base (line_at c st w)"
    by (rule cache_wfD(5)[OF wf st w v])
  show "ce_tag (line_at c st u) \<noteq> ce_tag (line_at c st w)"
    if "u < c_assoc c" "u \<noteq> w" "ce_valid (line_at c st u)" for u
    using cache_wfD(6)[OF wf st that(1) w that(3) v] that(2) by blast
qed

lemma write_line_data:
  fixes t :: 'd
  assumes wf: "cache_wf c" and st: "st < length (c_set c)" and w: "w < c_assoc c"
  defines "c' \<equiv> upd_line st w (\<lambda>l. l\<lparr>ce_data := t\<rparr>) c"
  shows "cache_wf c'" "same_config c c'" "resident c' = resident c"
    "line_at c' s v = (if (s, v) = (st, w) then (line_at c st w)\<lparr>ce_data := t\<rparr> else line_at c s v)"
    "c_cache_by_pass c' = c_cache_by_pass c"
proof -
  have len: "w < length (cs_entry (c_set c ! st))" using w cache_wfD(3)[OF wf st] by simp
  show at: "line_at c' s v = (if (s, v) = (st, w) then (line_at c st w)\<lparr>ce_data := t\<rparr> else line_at c s v)" for s v
    unfolding c'_def by (rule upd_line_at[OF st len])
  show cfg: "same_config c c'" unfolding c'_def using st by (rule upd_line_config)
  have fits: "fits_line c st w (line_at c' st w)"
    using fits_self[OF wf st w] by (simp add: at fits_line_def)
  have others: "line_key (line_at c' s v) = line_key (line_at c s v)" if "(s, v) \<noteq> (st, w)" for s v
    using that by (simp only: at if_False)
  note R = replace_line[OF wf cfg st w others fits]
  show "cache_wf c'" by (rule R(1))
  have "line_base (line_at c' st w) = line_base (line_at c st w)" by (simp add: at line_base_def)
  with R(2) line_base_subset[OF st w] show "resident c' = resident c" by blast
  show "c_cache_by_pass c' = c_cache_by_pass c" by (simp add: c'_def by_pass_unchanged)
qed

lemma btb_target_here:
  assumes wf: "cache_wf c" and ts: "find_tag_and_set c pc = (tag, st)" and st: "st < length (c_set c)"
    and w: "w < c_assoc c" and v: "ce_valid (line_at c st w)" and t: "ce_tag (line_at c st w) = tag"
  shows "btb_target c pc = ce_data (line_at c st w)"
  using found_way[OF wf st w v t] ts by (simp add: btb_target_def)

lemma btb_target_absent:
  assumes wf: "cache_wf c" and "base_cache_line c pc \<notin> resident c"
  shows "btb_target c pc = 0"
proof -
  obtain tag st where ts: "find_tag_and_set c pc = (tag, st)" by fastforce
  with resident_iff[OF wf ts] assms(2) show ?thesis by (simp add: btb_target_def)
qed

text \<open>Two buffers that agree on every line but one: a program counter whose line is held elsewhere
  has the same target in both.\<close>

lemma btb_target_elsewhere:
  assumes wf: "cache_wf c" and wf': "cache_wf c'" and cfg: "same_config c c'"
    and keys: "\<forall>s < length (c_set c). \<forall>v < c_assoc c. (s, v) \<noteq> (st, w) \<longrightarrow>
       line_key (line_at c' s v) = line_key (line_at c s v)"
    and res: "base_cache_line c pc \<in> resident c'" and ne: "ce_base (line_at c' st w) \<noteq> base_cache_line c pc"
  shows "btb_target c' pc = btb_target c pc"
proof -
  note C = same_configD[OF cfg]
  obtain tag s where ts: "find_tag_and_set c pc = (tag, s)" by fastforce
  then have ts': "find_tag_and_set c' pc = (tag, s)" by (simp add: C)
  have s: "s < length (c_set c)" using set_in_range[OF cache_wfD(1)[OF wf], of pc] ts by simp
  from resident_iff[OF wf' ts'] res C obtain v where f: "find_way tag (cs_entry (c_set c' ! s)) = Some v" by auto
  from find_way_Some[OF f] cache_wfD(3)[OF wf', of s] s C
  have v: "v < c_assoc c" "ce_valid (line_at c' s v)" "ce_tag (line_at c' s v) = tag" by auto
  have "find_tag_and_set c (ce_base (line_at c' s v)) = find_tag_and_set c pc"
    using cache_wfD(4)[OF wf', of s v] v s ts C by simp
  then have "base_cache_line c (ce_base (line_at c' s v)) = base_cache_line c pc"
    by (simp add: tag_set_eq_iff[OF cache_wfD(1)[OF wf]])
  then have "ce_base (line_at c' s v) = base_cache_line c pc" using cache_wfD(5)[OF wf', of s v] v s C by simp
  with ne have "(s, v) \<noteq> (st, w)" by auto
  note key = line_key_eqD[OF keys[rule_format, OF s v(1) this]]
  have "btb_target c' pc = ce_data (line_at c' s v)"
    by (rule btb_target_here[OF wf' ts' s[folded C(4)] v(1)[folded C(3)] v(2,3)])
  moreover have "btb_target c pc = ce_data (line_at c s v)"
    using v key by (intro btb_target_here[OF wf ts s v(1)]) simp_all
  ultimately show ?thesis using key by simp
qed

lemma btb_update_spec:
  assumes wf: "cache_wf c" and np: "\<not> c_cache_by_pass c" and part: "\<not> c_enable_partition c"
    and on: "\<not> u_off_path u" and ts: "find_tag_and_set c (u_pc u) = (tag, st)"
  obtains w c' where "btb_update k cycle appl u c = Inr c'" "cache_wf c'" "same_config c c'" "w < c_assoc c"
    "ce_valid (line_at c' st w)" "ce_tag (line_at c' st w) = tag" "ce_data (line_at c' st w) = u_target_addr u"
    "\<forall>s < length (c_set c). \<forall>v < c_assoc c. (s, v) \<noteq> (st, w) \<longrightarrow>
       line_key (line_at c' s v) = line_key (line_at c s v)"
    "c_cache_by_pass c' = c_cache_by_pass c"
proof -
  have st: "st < length (c_set c)" using set_in_range[OF cache_wfD(1)[OF wf], of "u_pc u"] ts by simp
  obtain w c2 where S: "btb_update k cycle appl u c = Inr (upd_line st w (\<lambda>l. l\<lparr>ce_data := u_target_addr u\<rparr>) c2)"
    "cache_wf c2" "same_config c c2" "w < c_assoc c" "ce_valid (line_at c2 st w)" "ce_tag (line_at c2 st w) = tag"
    and keys: "\<forall>s < length (c_set c). \<forall>v < c_assoc c. (s, v) \<noteq> (st, w) \<longrightarrow>
       line_key (line_at c2 s v) = line_key (line_at c s v)" and bp: "c_cache_by_pass c2 = c_cache_by_pass c"
  proof (cases "find_way tag (cs_entry (c_set c ! st))")
    case (Some w)
    note F = find_way_Some[OF Some, unfolded cache_wfD(3)[OF wf st]]
    have "access_cache cycle (u_pc u) False c = Inr (Some (base_cache_line c (u_pc u)), Some (st, w), c)"
      using access_cache_cases[OF wf np ts, of cycle False] Some by auto
    with on have "btb_update k cycle appl u c = Inr (upd_line st w (\<lambda>l. l\<lparr>ce_data := u_target_addr u\<rparr>) c)"
      by (simp add: btb_update_def)
    from that[OF this wf same_config_refl] F show ?thesis by simp
  next
    case None
    have acc: "access_cache cycle (u_pc u) False c = Inr (Some (base_cache_line c (u_pc u)), None, c)"
      using access_cache_cases[OF wf np ts, of cycle False] None by auto
    have "\<not> (KNOB_HETERO_STATIC_CACHE_PARTITION k \<and> c_enable_partition c)" using part by simp
    with wf obtain la up p c2 where I: "insert_cache k cycle (u_pc u) appl False False c = Inr (la, up, p, c2)"
      by (rule insert_cache_total)
    have miss: "base_cache_line c (u_pc u) \<notin> resident c" using resident_iff[OF wf ts] None by simp
    obtain w where A: "p = (st, w)" "w < c_assoc c" "cache_wf c2" "same_config c c2"
      "ce_valid (line_at c2 st w)" "ce_tag (line_at c2 st w) = tag"
      "\<forall>s < length (c_set c). \<forall>v < c_assoc c. (s, v) \<noteq> (st, w) \<longrightarrow>
         line_key (line_at c2 s v) = line_key (line_at c s v)" "c_cache_by_pass c2 = c_cache_by_pass c"
      by (rule insert_cache_spec[OF wf miss ts I]) (rule that)
    from acc on I A(1) have "btb_update k cycle appl u c =
        Inr (upd_line st w (\<lambda>l. l\<lparr>ce_data := u_target_addr u\<rparr>) c2)" by (simp add: btb_update_def)
    from that[OF this A(3,4,2,5-8)] show ?thesis .
  qed
  note C = same_configD[OF S(3)]
  note W = write_line_data[OF S(2) st[folded C(4)] S(4)[folded C(3)], of "u_target_addr u"]
  show ?thesis
  proof (rule that[OF S(1) W(1) same_config_trans[OF S(3) W(2)] S(4)])
    show "\<forall>s < length (c_set c). \<forall>v < c_assoc c. (s, v) \<noteq> (st, w) \<longrightarrow>
      line_key (line_at (upd_line st w (\<lambda>l. l\<lparr>ce_data := u_target_addr u\<rparr>) c2) s v) = line_key (line_at c s v)"
      using keys unfolding W(4) by simp
  qed (use S(5,6) bp in \<open>simp_all add: W(4,5)\<close>)
qed

section \<open>Properties\<close>

text \<open>The gshare predictor, for history lengths of 1 to 30 and counters of 1 to 8 bits: from the
  constructor on, \<^verbatim>\<open>pred\<close> and \<^verbatim>\<open>update\<close> never index outside the pattern history
  table, and every counter stays within its width.\<close>

theorem gshare_never_out_of_bounds:
  assumes k: "gshare_config k" and wf: "gshare_wf k b"
  shows "gshare_wf k (bp_gshare_c k) \<and>
    (\<exists>p u1 b1. gshare_pred k u b = Inr (p, u1, b1) \<and> gshare_wf k b1 \<and> p \<le> 1) \<and>
    (\<exists>b2. gshare_update k u b = Inr b2 \<and> gshare_wf k b2)"
proof -
  obtain e u1 where P: "gshare_pred k u b = Inr (drop_bit 1 e AND 1, u1,
      b\<lparr>bp_global_hist := drop_bit 1 (bp_global_hist b) OR push_bit 31 (ucast (drop_bit 1 e AND 1 :: uns8))\<rparr>)"
    using gshare_pred_eq[OF k wf, of u] by blast
  have "drop_bit 1 e AND 1 \<le> (1 :: uns8)" by (rule word_and_le1)
  with P gshare_c_wf[OF k] gshare_update_eq[OF k wf, of u] gshare_update_wf[OF k wf, of u] wf
  show ?thesis by (auto simp add: gshare_wf_def)
qed

definition demo_bp_knobs :: bp_knobs where
  "demo_bp_knobs = \<lparr>KNOB_BP_HIST_LENGTH = 5, KNOB_PHT_CTR_BITS = 2, KNOB_PERFECT_BTB = False,
     KNOB_BTB_ENTRIES = 4, KNOB_BTB_ASSOC = 2, KNOB_BTB_BANK_NUM = 1\<rparr>"

definition demo_bp_uop :: "uns8 \<Rightarrow> uop" where
  "demo_bp_uop dir = zero_uop\<lparr>u_pc := 0x400104, u_dir := dir, u_target_addr := 0x400200\<rparr>"

lemma demo_bp_config: "gshare_config demo_bp_knobs"
  by (simp add: gshare_config_def demo_bp_knobs_def)

theorem gshare_never_out_of_bounds_witness:
  "\<exists>b2. gshare_update demo_bp_knobs (demo_bp_uop 1) (bp_gshare_c demo_bp_knobs) = Inr b2 \<and>
     gshare_wf demo_bp_knobs b2"
  using gshare_never_out_of_bounds[OF demo_bp_config gshare_c_wf[OF demo_bp_config], of "demo_bp_uop 1"] by blast

text \<open>Training with the default 2-bit counters: after two updates of a branch in one direction,
  the prediction for the same program counter under the same global history is that direction,
  whatever the counter was before.\<close>

theorem gshare_learns_in_two:
  assumes k: "gshare_config k" and two: "KNOB_PHT_CTR_BITS k = 2" and wf: "gshare_wf k b"
    and b1: "gshare_update k u b = Inr b1" and b2: "gshare_update k u b1 = Inr b2"
    and pc: "u_pc v = u_pc u"
  shows "\<exists>v' b3. gshare_pred k v (b2\<lparr>bp_global_hist := ui_pred_global_hist (u_uop_info u)\<rparr>) =
    Inr (if u_dir u \<noteq> 0 then 1 else 0, v', b3)"
proof -
  define i where "i = pht_index k (ui_pred_global_hist (u_uop_info u)) (u_pc u)"
  have i: "i < length (bp_pht b)" unfolding i_def by (rule gshare_index[OF k wf])
  have wf1: "gshare_wf k b1" and wf2: "gshare_wf k b2"
    using gshare_update_wf[OF k wf b1] gshare_update_wf[OF k _ b2] by blast+
  have pht2: "bp_pht b2 ! i = train k (u_dir u) (train k (u_dir u) (bp_pht b ! i))"
    using gshare_update_eq[OF k wf, of u] gshare_update_eq[OF k wf1, of u] b1 b2 i by (auto simp add: i_def)
  have e: "unat (bp_pht b ! i) < 4" using wf i two by (simp add: gshare_wf_def)
  have "unat (bp_pht b2 ! i) = (if u_dir u \<noteq> 0 then min 3 (min 3 (unat (bp_pht b ! i) + 1) + 1)
      else unat (bp_pht b ! i) - 1 - 1)"
    using unat_train[of k "bp_pht b ! i" "u_dir u"] unat_train[of k "train k (u_dir u) (bp_pht b ! i)" "u_dir u"]
      e two unfolding pht2 by (auto split: if_splits)
  then have "drop_bit 1 (bp_pht b2 ! i) AND 1 = (if u_dir u \<noteq> 0 then 1 else 0)"
    using bit1_of_small[of "bp_pht b2 ! i"] e by (auto split: if_splits)
  moreover have "gshare_wf k (b2\<lparr>bp_global_hist := ui_pred_global_hist (u_uop_info u)\<rparr>)" using wf2 by (simp add: gshare_wf_def)
  ultimately show ?thesis using gshare_pred_eq[OF k, of "b2\<lparr>bp_global_hist := ui_pred_global_hist (u_uop_info u)\<rparr>" v] pc
    by (auto simp add: i_def)
qed

theorem gshare_learns_in_two_witness:
  "\<exists>b1 b2 v' b3. gshare_update demo_bp_knobs (demo_bp_uop 0) (bp_gshare_c demo_bp_knobs) = Inr b1 \<and>
     gshare_update demo_bp_knobs (demo_bp_uop 0) b1 = Inr b2 \<and>
     gshare_pred demo_bp_knobs (demo_bp_uop 1) (b2\<lparr>bp_global_hist := 0\<rparr>) = Inr (0, v', b3)"
proof -
  note wf = gshare_c_wf[OF demo_bp_config]
  obtain b1 where b1: "gshare_update demo_bp_knobs (demo_bp_uop 0) (bp_gshare_c demo_bp_knobs) = Inr b1"
    using gshare_update_eq[OF demo_bp_config wf] by blast
  obtain b2 where b2: "gshare_update demo_bp_knobs (demo_bp_uop 0) b1 = Inr b2"
    using gshare_update_eq[OF demo_bp_config gshare_update_wf[OF demo_bp_config wf b1]] by blast
  show ?thesis
    using gshare_learns_in_two[OF demo_bp_config _ wf b1 b2, of "demo_bp_uop 1"] b1 b2
    by (auto simp add: demo_bp_knobs_def demo_bp_uop_def zero_uop_def)
qed

text \<open>Recovery: after any number of younger predictions, recovering with the information that a
  branch's own prediction recorded leaves the global history as a prediction of the branch's actual
  direction would have left it.\<close>

theorem gshare_recover_restores_history:
  assumes k: "gshare_config k" and wf: "gshare_wf k b" and d: "u_dir u \<le> 1"
    and p: "gshare_pred k u b = Inr (p, u', b')"
  shows "bp_global_hist (gshare_recover (u_recovery_info u') b'') =
      drop_bit 1 (bp_global_hist b) OR push_bit 31 (ucast (u_dir u)) \<and>
    (p = u_dir u \<longrightarrow> bp_global_hist (gshare_recover (u_recovery_info u') b'') = bp_global_hist b')"
  using gshare_pred_eq[OF k wf, of u] p by (auto simp add: gshare_recover_def)

theorem gshare_recover_restores_history_witness:
  "\<exists>p u' b'. gshare_pred demo_bp_knobs (demo_bp_uop 0) (bp_gshare_c demo_bp_knobs) = Inr (p, u', b') \<and>
     bp_global_hist (gshare_recover (u_recovery_info u') b') = 0"
proof -
  note wf = gshare_c_wf[OF demo_bp_config]
  obtain p u' b' where P: "gshare_pred demo_bp_knobs (demo_bp_uop 0) (bp_gshare_c demo_bp_knobs) = Inr (p, u', b')"
    using gshare_pred_eq[OF demo_bp_config wf, of "demo_bp_uop 0"] by blast
  with gshare_recover_restores_history[OF demo_bp_config wf _ P, of b'] show ?thesis
    by (simp add: demo_bp_uop_def zero_uop_def bp_gshare_c_def)
qed

text \<open>C28. The branch target buffer: an on-path update always succeeds and keeps the buffer well formed;
  afterwards a prediction for a program counter in the same 4-byte line returns the updated target,
  one for another line that is still held returns what it returned before, and one for a line that is
  not held returns 0.\<close>

theorem btb_update_then_pred:
  assumes wf: "cache_wf c" and np: "\<not> c_cache_by_pass c" and part: "\<not> c_enable_partition c"
    and on: "\<not> u_off_path u" and bk: "\<not> KNOB_PERFECT_BTB bk"
  shows "\<exists>c'. btb_update k cycle appl u c = Inr c' \<and> cache_wf c' \<and>
    (\<exists>v' c''. btb_pred bk cycle' v c' =
      Inr (if base_cache_line c (u_pc v) = base_cache_line c (u_pc u) then u_target_addr u
           else if base_cache_line c (u_pc v) \<in> resident c' then btb_target c (u_pc v)
           else 0, v', c''))"
proof -
  obtain tag st where ts: "find_tag_and_set c (u_pc u) = (tag, st)" by fastforce
  obtain w c' where U: "btb_update k cycle appl u c = Inr c'" "cache_wf c'" "same_config c c'" "w < c_assoc c"
    "ce_valid (line_at c' st w)" "ce_tag (line_at c' st w) = tag" "ce_data (line_at c' st w) = u_target_addr u"
    and keys: "\<forall>s < length (c_set c). \<forall>v < c_assoc c. (s, v) \<noteq> (st, w) \<longrightarrow>
       line_key (line_at c' s v) = line_key (line_at c s v)" and bp: "c_cache_by_pass c' = c_cache_by_pass c"
    by (rule btb_update_spec[OF wf np part on ts, of k cycle appl]) (rule that)
  note C = same_configD[OF U(3)]
  note g = cache_wfD(1)[OF wf]
  have st: "st < length (c_set c)" using set_in_range[OF g, of "u_pc u"] ts by simp
  have base: "ce_base (line_at c' st w) = base_cache_line c (u_pc u)"
    using cache_wfD(4,5)[OF U(2), of st w] U st C ts tag_set_eq_iff[OF g] by metis
  have "btb_target c' (u_pc v) =
     (if base_cache_line c (u_pc v) = base_cache_line c (u_pc u) then u_target_addr u
      else if base_cache_line c (u_pc v) \<in> resident c' then btb_target c (u_pc v) else 0)"
  proof (cases "base_cache_line c (u_pc v) = base_cache_line c (u_pc u)")
    case True
    then have "find_tag_and_set c' (u_pc v) = (tag, st)" using ts tag_set_eq_iff[OF g] C(1) by metis
    from btb_target_here[OF U(2) this _ _ U(5,6)] U(4,7) st C True show ?thesis by simp
  next
    case False
    then show ?thesis
      using btb_target_elsewhere[OF wf U(2,3) keys] base btb_target_absent[OF U(2), of "u_pc v"] C
      by auto
  qed
  with btb_pred_eq[OF U(2) _ bk, of cycle' v] np bp U(1,2) show ?thesis by auto
qed

theorem btb_update_then_pred_witness:
  "\<exists>c' v' c''. btb_update (demo_knobs False) 7 0 (demo_bp_uop 1) (bp_targ_c demo_bp_knobs
        (cache_entry_c \<lparr>ce_valid = False, ce_tag = 0, ce_base = 0, ce_last_access_time = 0,
         ce_access_counter = 0, ce_data = 0, ce_pref = False, ce_dirty = False, ce_appl_id = 0,
         ce_gpuline = False, ce_skip = False\<rparr>) 0 0 0) = Inr c' \<and>
     btb_pred demo_bp_knobs 9 (demo_bp_uop 0) c' = Inr (0x400200, v', c'')"
proof -
  let ?j = "cache_entry_c \<lparr>ce_valid = False, ce_tag = 0, ce_base = 0, ce_last_access_time = 0,
         ce_access_counter = 0, ce_data = 0, ce_pref = False, ce_dirty = False, ce_appl_id = 0,
         ce_gpuline = False, ce_skip = False\<rparr> :: Addr cache_entry"
  let ?c = "bp_targ_c demo_bp_knobs ?j 0 0 0"
  have wf: "cache_wf ?c" unfolding bp_targ_c_def by (rule cache_c_wf) (simp_all add: demo_bp_knobs_def)
  have "\<not> c_cache_by_pass ?c" "\<not> c_enable_partition ?c" by (simp_all add: bp_targ_c_def cache_c_def Let_def)
  from btb_update_then_pred[OF wf this, of "demo_bp_uop 1" demo_bp_knobs "demo_knobs False" 7 0 9 "demo_bp_uop 0"]
  show ?thesis by (auto simp add: demo_bp_uop_def zero_uop_def demo_bp_knobs_def)
qed

end
