(* ===== verification/LruList.thy ===== *)
theory LruList
  imports Prelude "HOL-Library.AList"
begin

text \<open>
  The doubly linked recency list shared by \<^verbatim>\<open>TLB\<close> (\<^verbatim>\<open>src/src/tlb.h\<close>) and
  \<^verbatim>\<open>MMU::ReplacementUnit\<close> (\<^verbatim>\<open>src/src/mmu.h\<close>), whose \<^verbatim>\<open>attach\<close> and
  \<^verbatim>\<open>detach\<close> are the same code. The pointers of the nodes are an explicit store: node
  addresses to \<^verbatim>\<open>prev\<close> and \<^verbatim>\<open>next\<close>. The predicate \<open>dll\<close> says which sequence of nodes
  a list holds between its two sentinels; the locale \<open>lru_structure\<close> states the recency
  contract that both classes implement.
\<close>

section \<open>Pointers\<close>

record links =
  prv :: "addr \<Rightarrow> ptr"
  nxt :: "addr \<Rightarrow> ptr"

definition detach :: "addr \<Rightarrow> links \<Rightarrow> links res" where
  "detach node l =
     (case prv l node of
        None \<Rightarrow> Inl NullPointer
      | Some p \<Rightarrow>
          let l1 = l\<lparr>nxt := (nxt l)(p := nxt l node)\<rparr>
          in case nxt l1 node of
               None \<Rightarrow> Inl NullPointer
             | Some q \<Rightarrow> Inr (l1\<lparr>prv := (prv l1)(q := prv l1 node)\<rparr>))"

definition attach :: "addr \<Rightarrow> addr \<Rightarrow> links \<Rightarrow> links res" where
  "attach hd_node node l =
     (let l1 = l\<lparr>nxt := (nxt l)(node := nxt l hd_node)\<rparr>;
          l2 = l1\<lparr>prv := (prv l1)(node := Some hd_node)\<rparr>;
          l3 = l2\<lparr>nxt := (nxt l2)(hd_node := Some node)\<rparr>
      in case nxt l3 node of
           None \<Rightarrow> Inl NullPointer
         | Some q \<Rightarrow> Inr (l3\<lparr>prv := (prv l3)(q := Some node)\<rparr>))"

fun linked :: "links \<Rightarrow> addr list \<Rightarrow> bool" where
  "linked l (a # b # ys) \<longleftrightarrow> nxt l a = Some b \<and> prv l b = Some a \<and> linked l (b # ys)"
| "linked l _ \<longleftrightarrow> True"

definition dll :: "links \<Rightarrow> addr \<Rightarrow> addr \<Rightarrow> addr list \<Rightarrow> bool" where
  "dll l hd_node tl_node xs \<longleftrightarrow>
     linked l (hd_node # xs @ [tl_node]) \<and> distinct (hd_node # xs @ [tl_node])"

lemma linked_append:
  "linked l (xs @ a # ys) \<longleftrightarrow> linked l (xs @ [a]) \<and> linked l (a # ys)"
proof (induction xs)
  case Nil
  then show ?case by simp
next
  case (Cons x xs)
  then show ?case by (cases xs) auto
qed

lemma linked_cong:
  "(\<And>x. x \<in> set (butlast xs) \<Longrightarrow> nxt l' x = nxt l x) \<Longrightarrow> (\<And>x. x \<in> set (tl xs) \<Longrightarrow> prv l' x = prv l x) \<Longrightarrow>
   linked l xs \<Longrightarrow> linked l' xs"
  by (induction l xs rule: linked.induct) auto

lemma detach_linked:
  assumes l: "linked l (as @ p # n # q # bs)" and d: "distinct (as @ p # n # q # bs)"
  obtains l' where "detach n l = Inr l'" "linked l' (as @ p # q # bs)"
proof -
  have A: "linked l (as @ [p])" and B: "nxt l p = Some n" "prv l n = Some p" "nxt l n = Some q" "prv l q = Some n"
    "linked l (q # bs)"
    using linked_append[of l as p "n # q # bs"] l by simp_all
  define l' where "l' = \<lparr>prv = (prv l)(q := Some p), nxt = (nxt l)(p := Some q)\<rparr>"
  have "detach n l = Inr l'" using B d by (simp add: detach_def Let_def l'_def)
  moreover have "linked l' (as @ p # q # bs)"
  proof -
    have "q \<notin> set (tl (as @ [p]))" using d by (cases as) auto
    then have "linked l' (as @ [p])"
      using d by (intro linked_cong[OF _ _ A]) (auto simp add: l'_def)
    moreover have "linked l' (q # bs)"
      using d by (intro linked_cong[OF _ _ B(5)]) (auto simp add: l'_def split: if_splits dest: in_set_butlastD)
    ultimately show ?thesis using linked_append[of l' as p "q # bs"] by (simp add: l'_def)
  qed
  ultimately show ?thesis by (rule that)
qed

lemma detach_dll:
  assumes d: "dll l h t (xs @ n # ys)"
  obtains l' where "detach n l = Inr l'" "dll l' h t (xs @ ys)"
proof -
  obtain as p where ap: "h # xs = as @ [p]" by (metis list.distinct(1) rev_exhaust)
  obtain q bs where qb: "ys @ [t] = q # bs" by (cases ys) auto
  have eq: "h # (xs @ n # ys) @ [t] = as @ p # n # q # bs" "h # (xs @ ys) @ [t] = as @ p # q # bs"
    using ap qb by (metis append.assoc append_Cons append_Nil)+
  from d have "linked l (as @ p # n # q # bs)" "distinct (as @ p # n # q # bs)" unfolding dll_def eq by simp_all
  then obtain l' where l': "detach n l = Inr l'" "linked l' (as @ p # q # bs)" by (rule detach_linked)
  moreover have "distinct (h # (xs @ ys) @ [t])" using d by (simp add: dll_def)
  ultimately have "dll l' h t (xs @ ys)" unfolding dll_def by (simp only: eq)
  with l'(1) show ?thesis by (rule that)
qed

lemma attach_dll:
  assumes d: "dll l h t xs" and n: "n \<notin> set (h # xs @ [t])"
  obtains l' where "attach h n l = Inr l'" "dll l' h t (n # xs)"
proof -
  obtain q bs where qb: "xs @ [t] = q # bs" by (cases xs) auto
  from d have L: "nxt l h = Some q" "prv l q = Some h" "linked l (q # bs)" and dist: "distinct (h # q # bs)"
    unfolding dll_def qb by simp_all
  from n have nn: "n \<noteq> h" "n \<noteq> q" "n \<notin> set bs" unfolding qb by auto
  define l' where "l' = \<lparr>prv = (prv l)(n := Some h, q := Some n), nxt = (nxt l)(n := Some q, h := Some n)\<rparr>"
  have "attach h n l = Inr l'" using L nn by (simp add: attach_def Let_def l'_def)
  have "linked l' (q # bs)"
    using dist nn by (intro linked_cong[OF _ _ L(3)]) (auto simp add: l'_def split: if_splits dest: in_set_butlastD)
  then have "linked l' (h # n # q # bs)" using nn dist by (simp add: l'_def)
  then have "dll l' h t (n # xs)" using dist nn unfolding dll_def by (auto simp add: qb)
  with \<open>attach h n l = Inr l'\<close> show ?thesis by (rule that)
qed

lemma tail_prev: "dll l h t (xs @ [n]) \<Longrightarrow> prv l t = Some n"
  using linked_append[of l "h # xs" n "[t]"] by (simp add: dll_def)

lemma tail_prev_empty: "dll l h t [] \<Longrightarrow> prv l t = Some h"
  by (simp add: dll_def)

section \<open>Recency list with a table and free nodes\<close>

text \<open>
  The invariant of both classes over their parts: \<open>n\<close> nodes 0 to \<open>n - 1\<close>, the sentinels at
  \<open>n\<close> (head) and \<open>n + 1\<close> (tail); the list holds the nodes \<open>order\<close>, most recent first, the
  others are free, and the table maps exactly the keys of the listed nodes to them.
\<close>

definition lru_inv ::
  "nat \<Rightarrow> links \<Rightarrow> ('k \<rightharpoonup> addr) \<Rightarrow> addr list \<Rightarrow> (addr \<Rightarrow> 'k) \<Rightarrow> addr list \<Rightarrow> bool" where
  "lru_inv n l table free key order \<longleftrightarrow>
     dll l n (n + 1) order \<and> distinct (order @ free) \<and> set (order @ free) = {0..<n} \<and>
     (\<forall>k x. table k = Some x \<longleftrightarrow> x \<in> set order \<and> key x = k)"

lemma lru_invD:
  assumes "lru_inv n l table free key order"
  shows "dll l n (n + 1) order" "distinct (order @ free)" "set (order @ free) = {0..<n}"
    "table k = Some x \<longleftrightarrow> x \<in> set order \<and> key x = k"
  using assms unfolding lru_inv_def by blast+

lemma lru_inv_length:
  assumes "lru_inv n l table free key order"
  shows "length order + length free = n"
  using distinct_card[OF lru_invD(2)[OF assms]] lru_invD(3)[OF assms] by simp

lemma lru_inv_keys:
  assumes I: "lru_inv n l table free key order"
  shows "distinct (map key order)"
proof -
  have "inj_on key (set order)"
  proof (rule inj_onI)
    fix x y
    assume "x \<in> set order" "y \<in> set order" "key x = key y"
    then have "table (key x) = Some x" "table (key x) = Some y" by (simp_all add: lru_invD(4)[OF I])
    then show "x = y" by simp
  qed
  with lru_invD(2)[OF I] show ?thesis by (simp add: distinct_map)
qed

lemma lru_inv_order:
  assumes "lru_inv n l table free key order"
  shows "x \<in> set order \<Longrightarrow> x < n"
  using lru_invD(3)[OF assms] by auto

lemma lru_init:
  assumes "nxt l n = Some (n + 1)" "prv l (n + 1) = Some n"
  shows "lru_inv n l (\<lambda>_. None) [0..<n] key []"
  using assms by (simp add: lru_inv_def dll_def)

lemma lru_detach:
  assumes I: "lru_inv n l table free key order" and o: "order = xs @ x # ys"
  obtains l' where "detach x l = Inr l'" "dll l' n (n + 1) (xs @ ys)"
  using lru_invD(1)[OF I] unfolding o by (rule detach_dll)

lemma lru_touch:
  assumes I: "lru_inv n l table free key order" and t: "table k = Some x"
  obtains xs ys l1 l2 where "order = xs @ x # ys" "key x = k" "detach x l = Inr l1" "attach n x l1 = Inr l2"
    "lru_inv n l2 table free key (x # xs @ ys)"
proof -
  from t have x: "x \<in> set order" "key x = k" by (simp_all add: lru_invD(4)[OF I])
  from split_list[OF x(1)] obtain xs ys where o: "order = xs @ x # ys" by blast
  obtain l1 where l1: "detach x l = Inr l1" "dll l1 n (n + 1) (xs @ ys)" using I o by (rule lru_detach)
  have "x \<notin> set (n # (xs @ ys) @ [n + 1])"
    using lru_inv_order[OF I x(1)] lru_invD(2)[OF I] o by auto
  with l1(2) obtain l2 where l2: "attach n x l1 = Inr l2" "dll l2 n (n + 1) (x # xs @ ys)" by (rule attach_dll)
  have "lru_inv n l2 table free key (x # xs @ ys)"
    using l2(2) lru_invD(2,3)[OF I] lru_invD(4)[OF I] unfolding lru_inv_def o by auto
  from that[OF o x(2) l1(1) l2(1) this] show ?thesis .
qed

lemma lru_insert_free:
  assumes I: "lru_inv n l table (fs @ [x]) key order" and k: "table k = None"
  obtains l' where "attach n x l = Inr l'" "lru_inv n l' (table(k \<mapsto> x)) fs (key(x := k)) (x # order)"
    "x \<notin> set order"
proof -
  have x: "x < n" "x \<notin> set order" using lru_invD(2,3)[OF I] by auto
  have "x \<notin> set (n # order @ [n + 1])" using x by auto
  with lru_invD(1)[OF I] obtain l' where l': "attach n x l = Inr l'" "dll l' n (n + 1) (x # order)" by (rule attach_dll)
  have fresh: "key y \<noteq> k" if "y \<in> set order" for y using lru_invD(4)[OF I, of k y] k that by simp
  have "\<forall>k' y. (table(k \<mapsto> x)) k' = Some y \<longleftrightarrow> y \<in> set (x # order) \<and> (key(x := k)) y = k'"
    using lru_invD(4)[OF I] x(2) fresh by auto
  with l'(2) lru_invD(2,3)[OF I] have "lru_inv n l' (table(k \<mapsto> x)) fs (key(x := k)) (x # order)"
    unfolding lru_inv_def by auto
  from that[OF l'(1) this x(2)] show ?thesis .
qed

lemma lru_remove:
  assumes I: "lru_inv n l table free key order" and t: "table k = Some x"
  obtains xs ys l' where "order = xs @ x # ys" "key x = k" "detach x l = Inr l'"
    "lru_inv n l' (table(k := None)) (free @ [x]) (key(x := c)) (xs @ ys)" "x \<notin> set (xs @ ys)"
proof -
  from t have x: "x \<in> set order" "key x = k" by (simp_all add: lru_invD(4)[OF I])
  from split_list[OF x(1)] obtain xs ys where o: "order = xs @ x # ys" by blast
  obtain l1 where l1: "detach x l = Inr l1" "dll l1 n (n + 1) (xs @ ys)" using I o by (rule lru_detach)
  have d: "x \<notin> set (xs @ ys)" "x \<notin> set free" using lru_invD(2)[OF I] o by auto
  have other: "key y \<noteq> k" if "y \<in> set (xs @ ys)" for y
    using lru_invD(4)[OF I, of k y] t that d(1) o by auto
  have "\<forall>k' y. (table(k := None)) k' = Some y \<longleftrightarrow> y \<in> set (xs @ ys) \<and> (key(x := c)) y = k'"
    using lru_invD(4)[OF I] d(1) other o x(2) by auto
  with l1(2) lru_invD(2,3)[OF I] have "lru_inv n l1 (table(k := None)) (free @ [x]) (key(x := c)) (xs @ ys)"
    unfolding lru_inv_def o by auto
  from that[OF o x(2) l1(1) this d(1)] show ?thesis .
qed

lemma lru_full:
  assumes I: "lru_inv n l table [] key order" and n: "0 < n"
  obtains xs x where "order = xs @ [x]" "prv l (n + 1) = Some x" "table (key x) = Some x"
proof -
  from lru_inv_length[OF I] n obtain xs x where o: "order = xs @ [x]" by (cases order rule: rev_cases) auto
  moreover have "prv l (n + 1) = Some x" using lru_invD(1)[OF I] unfolding o by (rule tail_prev)
  moreover have "table (key x) = Some x" by (simp add: lru_invD(4)[OF I] o)
  ultimately show ?thesis by (rule that)
qed

lemma delete_middle:
  "distinct (map f (xs @ x # ys)) \<Longrightarrow>
   AList.delete (f x) (map (\<lambda>y. (f y, g y)) (xs @ x # ys)) = map (\<lambda>y. (f y, g y)) (xs @ ys)"
  by (induction xs) (auto simp add: image_iff)

section \<open>The recency contract\<close>

text \<open>
  A bounded recency list of key-value pairs, most recent first. \<open>ins\<close> of an absent key puts it in
  front and drops what exceeds the capacity; \<open>touch\<close> moves a key to the front.
\<close>

locale lru_structure =
  fixes rel :: "'s \<Rightarrow> ('k \<times> 'v) list \<Rightarrow> bool"
    and cap :: nat
    and ok_key :: "'k \<Rightarrow> bool"
    and found :: "'k \<Rightarrow> 's \<Rightarrow> bool"
    and touch :: "'k \<Rightarrow> 's \<Rightarrow> 's res"
    and ins :: "'k \<Rightarrow> 'v \<Rightarrow> 's \<Rightarrow> 's res"
  assumes rel_bounds: "rel s al \<Longrightarrow> distinct (map fst al) \<and> length al \<le> cap"
    and found_law: "rel s al \<Longrightarrow> ok_key k \<Longrightarrow> found k s \<longleftrightarrow> k \<in> fst ` set al"
    and touch_law: "rel s al \<Longrightarrow> ok_key k \<Longrightarrow> (k, v) \<in> set al \<Longrightarrow>
      \<exists>s'. touch k s = Inr s' \<and> rel s' ((k, v) # AList.delete k al)"
    and ins_law: "rel s al \<Longrightarrow> ok_key k \<Longrightarrow> k \<notin> fst ` set al \<Longrightarrow> 0 < cap \<Longrightarrow>
      \<exists>s'. ins k v s = Inr s' \<and> rel s' (take cap ((k, v) # al))"
begin

fun ins_all :: "('k \<times> 'v) list \<Rightarrow> 's \<Rightarrow> 's res" where
  "ins_all [] s = Inr s"
| "ins_all ((k, v) # kvs) s = res_bind (ins k v s) (ins_all kvs)"

lemma ins_all_rel:
  assumes "0 < cap"
  shows "rel s al \<Longrightarrow> distinct (map fst kvs) \<Longrightarrow> \<forall>kv\<in>set kvs. ok_key (fst kv) \<Longrightarrow> fst ` set kvs \<inter> fst ` set al = {} \<Longrightarrow>
    \<exists>s'. ins_all kvs s = Inr s' \<and> rel s' (take cap (rev kvs @ al))"
proof (induction kvs arbitrary: s al)
  case Nil
  then show ?case using rel_bounds[of s al] by simp
next
  case (Cons kv kvs)
  obtain k v where kv: "kv = (k, v)" by fastforce
  with Cons.prems assms ins_law[of s al k v] obtain s1 where
    s1: "ins k v s = Inr s1" "rel s1 (take cap ((k, v) # al))" by auto
  have "fst ` set (take cap ((k, v) # al)) \<subseteq> insert k (fst ` set al)"
    using set_take_subset[of cap "(k, v) # al"] by force
  moreover have "fst ` set kvs \<inter> insert k (fst ` set al) = {}" using Cons.prems(2,4) kv by auto
  ultimately have "fst ` set kvs \<inter> fst ` set (take cap ((k, v) # al)) = {}" by blast
  with Cons.IH[OF s1(2)] Cons.prems(2,3) obtain s' where
    s': "ins_all kvs s1 = Inr s'" "rel s' (take cap (rev kvs @ take cap ((k, v) # al)))" by auto
  have "take cap (rev kvs @ take cap ((k, v) # al)) = take cap (rev (kv # kvs) @ al)" by (simp add: kv)
  with s1 s' kv show ?case by (intro exI[of _ s']) (simp only: ins_all.simps res_bind_simps)
qed

text \<open>The recency guarantee: a key that was just touched survives the insertion of fewer than
  \<open>cap\<close> new keys, and is gone after \<open>cap\<close> of them.\<close>

lemma touched_survives:
  assumes r: "rel s al" and k: "ok_key k" and kv: "(k, v) \<in> set al" and cap: "0 < cap"
    and new: "\<forall>kv\<in>set kvs. ok_key (fst kv)" "distinct (map fst kvs)" "fst ` set kvs \<inter> fst ` set al = {}"
  shows "\<exists>s1 s2. touch k s = Inr s1 \<and> ins_all kvs s1 = Inr s2 \<and> (found k s2 \<longleftrightarrow> length kvs < cap)"
proof -
  from touch_law[OF r k kv] obtain s1 where s1: "touch k s = Inr s1" "rel s1 ((k, v) # AList.delete k al)" by blast
  have keys: "fst ` set ((k, v) # AList.delete k al) \<subseteq> fst ` set al" 
    using kv by (force simp add: AList.delete_eq)
  with new(3) have "fst ` set kvs \<inter> fst ` set ((k, v) # AList.delete k al) = {}" by blast
  from ins_all_rel[OF cap s1(2) new(2,1) this] obtain s2 where
    s2: "ins_all kvs s1 = Inr s2" "rel s2 (take cap (rev kvs @ (k, v) # AList.delete k al))" by blast
  have "k \<notin> fst ` set kvs" using new(3) kv by force
  then have "k \<notin> fst ` set (take cap (rev kvs))" using set_take_subset[of cap "rev kvs"] by auto
  then have "found k s2 \<longleftrightarrow> length kvs < cap"
    unfolding found_law[OF s2(2) k] by (auto simp add: take_Cons')
  with s1 s2 show ?thesis by blast
qed

end

end
