(* ===== verification/Tlb.thy ===== *)
theory Tlb
  imports LruList
begin

text \<open>
  The translation lookaside buffer \<^verbatim>\<open>TLB\<close> of \<^verbatim>\<open>src/src/tlb.h\<close> and
  \<^verbatim>\<open>src/src/tlb.cc\<close>. Nodes are the indices of \<^verbatim>\<open>m_entries\<close>, followed by the two
  sentinels; the fields of the nodes are functions of the node. It is shown to implement the recency
  contract of \<open>LruList\<close> on (page number, process id) keys with frame numbers as values.
\<close>

section \<open>Data and operations\<close>

type_synonym EntryIndex = "Addr \<times> int"

record tlb =
  t_table :: "EntryIndex \<rightharpoonup> addr"
  t_free_entries :: "addr list"
  t_head :: addr
  t_tail :: addr
  t_page_number :: "addr \<Rightarrow> Addr"
  t_frame_number :: "addr \<Rightarrow> Addr"
  t_pid :: "addr \<Rightarrow> int"
  t_links :: links
  t_max_entries :: nat
  t_page_size :: nat
  t_offset_bits :: nat

function calc_log2_loop :: "Addr \<Rightarrow> nat \<Rightarrow> nat" where
  "calc_log2_loop v n = (if drop_bit 1 v \<noteq> 0 then calc_log2_loop (drop_bit 1 v) (Suc n) else n)"
  by pat_completeness auto

lemma unat_half_less: "drop_bit 1 v \<noteq> 0 \<Longrightarrow> unat (drop_bit 1 v) < unat v" for v :: "'a::len word"
proof -
  assume h: "drop_bit 1 v \<noteq> 0"
  then have "v \<noteq> 0" by auto
  then have "0 < unat v" by (metis gr0I unat_eq_zero)
  then show ?thesis using unat_drop_bit_div[of 1 v] by simp
qed

termination calc_log2_loop
  by (relation "measure (\<lambda>(v, _). unat v)") (use unat_half_less in auto)

declare calc_log2_loop.simps [simp del]

definition calc_log2 :: "Addr \<Rightarrow> nat" where
  "calc_log2 v = calc_log2_loop v 0"

text \<open>The \<^verbatim>\<open>prev\<close> and \<^verbatim>\<open>next\<close> of a new node are indeterminate: \<open>junk\<close>.\<close>

definition TLB :: "links \<Rightarrow> nat \<Rightarrow> nat \<Rightarrow> tlb" where
  "TLB junk num_entries page_size =
     (let h = num_entries; t = num_entries + 1
      in \<lparr>t_table = (\<lambda>_. None), t_free_entries = [0..<num_entries], t_head = h, t_tail = t,
          t_page_number = (\<lambda>_. - 1), t_frame_number = (\<lambda>_. - 1), t_pid = (\<lambda>_. - 1),
          t_links = \<lparr>prv = (prv junk)(h := None, t := Some h), nxt = (nxt junk)(h := Some t, t := None)\<rparr>,
          t_max_entries = num_entries, t_page_size = page_size,
          t_offset_bits = calc_log2 (of_nat page_size)\<rparr>)"

definition get_page_number :: "tlb \<Rightarrow> Addr \<Rightarrow> Addr" where
  "get_page_number t a = drop_bit (t_offset_bits t) a"

definition tlb_lookup :: "Addr \<Rightarrow> int \<Rightarrow> tlb \<Rightarrow> bool" where
  "tlb_lookup a pid t \<longleftrightarrow> t_table t (get_page_number t a, pid) \<noteq> None"

definition tlb_reattach :: "addr \<Rightarrow> tlb \<Rightarrow> tlb res" where
  "tlb_reattach node t =
     res_bind (detach node (t_links t)) (\<lambda>l.
     res_bind (attach (t_head t) node l) (\<lambda>l'. Inr (t\<lparr>t_links := l'\<rparr>)))"

definition tlb_update :: "Addr \<Rightarrow> int \<Rightarrow> tlb \<Rightarrow> tlb res" where
  "tlb_update a pid t =
     (case t_table t (get_page_number t a, pid) of
        None \<Rightarrow> Inl AssertFailed
      | Some node \<Rightarrow> tlb_reattach node t)"

definition tlb_translate :: "Addr \<Rightarrow> int \<Rightarrow> tlb \<Rightarrow> (Addr \<times> tlb) res" where
  "tlb_translate a pid t =
     (case t_table t (get_page_number t a, pid) of
        None \<Rightarrow> Inl AssertFailed
      | Some node \<Rightarrow> res_bind (tlb_reattach node t) (\<lambda>t'. Inr (t_frame_number t' node, t')))"

text \<open>Both branches of \<^verbatim>\<open>insert\<close> end by filling the node, attaching it and entering it.\<close>

definition tlb_fill_node :: "addr \<Rightarrow> Addr \<Rightarrow> Addr \<Rightarrow> int \<Rightarrow> tlb \<Rightarrow> tlb res" where
  "tlb_fill_node node page frame pid t =
     (let t1 = t\<lparr>t_page_number := (t_page_number t)(node := page),
                 t_frame_number := (t_frame_number t)(node := frame),
                 t_pid := (t_pid t)(node := pid)\<rparr>
      in res_bind (attach (t_head t1) node (t_links t1)) (\<lambda>l.
         Inr (t1\<lparr>t_links := l, t_table := (t_table t1)((page, pid) \<mapsto> node)\<rparr>)))"

definition tlb_insert :: "Addr \<Rightarrow> Addr \<Rightarrow> int \<Rightarrow> tlb \<Rightarrow> tlb res" where
  "tlb_insert a frame pid t =
     (let page = get_page_number t a
      in check (t_table t (page, pid) = None) AssertFailed
         (if t_free_entries t \<noteq> []
          then tlb_fill_node (last (t_free_entries t)) page frame pid
                 (t\<lparr>t_free_entries := butlast (t_free_entries t)\<rparr>)
          else case prv (t_links t) (t_tail t) of
                 None \<Rightarrow> Inl NullPointer
               | Some node \<Rightarrow>
                   res_bind (detach node (t_links t)) (\<lambda>l.
                   tlb_fill_node node page frame pid
                     (t\<lparr>t_links := l,
                        t_table := (t_table t)((t_page_number t node, t_pid t node) := None)\<rparr>))))"

definition tlb_invalidate :: "Addr \<Rightarrow> int \<Rightarrow> tlb \<Rightarrow> tlb res" where
  "tlb_invalidate page pid t =
     (case t_table t (page, pid) of
        None \<Rightarrow> Inr t
      | Some node \<Rightarrow>
          check (t_page_number t node = page) AssertFailed
            (res_bind (detach node (t_links t)) (\<lambda>l.
             Inr (t\<lparr>t_links := l,
                    t_page_number := (t_page_number t)(node := - 1),
                    t_frame_number := (t_frame_number t)(node := - 1),
                    t_pid := (t_pid t)(node := - 1),
                    t_free_entries := t_free_entries t @ [node],
                    t_table := (t_table t)((page, pid) := None)\<rparr>))))"

section \<open>The invariant and the recency list\<close>

definition tlb_key :: "tlb \<Rightarrow> addr \<Rightarrow> EntryIndex" where
  "tlb_key t x = (t_page_number t x, t_pid t x)"

definition tlb_wf :: "tlb \<Rightarrow> addr list \<Rightarrow> bool" where
  "tlb_wf t order \<longleftrightarrow> t_head t = t_max_entries t \<and> t_tail t = t_max_entries t + 1 \<and>
     lru_inv (t_max_entries t) (t_links t) (t_table t) (t_free_entries t) (tlb_key t) order"

definition tlb_contents :: "tlb \<Rightarrow> addr list \<Rightarrow> (EntryIndex \<times> Addr) list" where
  "tlb_contents t order = map (\<lambda>x. (tlb_key t x, t_frame_number t x)) order"

definition tlb_rel :: "nat \<Rightarrow> nat \<Rightarrow> tlb \<Rightarrow> (EntryIndex \<times> Addr) list \<Rightarrow> bool" where
  "tlb_rel n bits t al \<longleftrightarrow> t_max_entries t = n \<and> t_offset_bits t = bits \<and>
     (\<exists>order. tlb_wf t order \<and> al = tlb_contents t order)"

lemma tlb_new_rel: "tlb_rel n (calc_log2 (of_nat ps)) (TLB junk n ps) []"
proof -
  let ?t = "TLB junk n ps"
  have "lru_inv n (t_links ?t) (\<lambda>_. None) [0..<n] (tlb_key ?t) []"
    by (rule lru_init) (simp_all add: TLB_def Let_def)
  then have "tlb_wf ?t []" by (simp add: tlb_wf_def) (simp add: TLB_def Let_def)
  then show ?thesis unfolding tlb_rel_def by (intro conjI exI[of _ "[]"]) (simp_all add: TLB_def Let_def tlb_contents_def)
qed

lemma tlb_wfD:
  assumes "tlb_wf t order"
  shows "t_head t = t_max_entries t" "t_tail t = t_max_entries t + 1"
    "lru_inv (t_max_entries t) (t_links t) (t_table t) (t_free_entries t) (tlb_key t) order"
  using assms by (simp_all add: tlb_wf_def)

lemma tlb_contents_keys: "map fst (tlb_contents t order) = map (tlb_key t) order"
  by (simp add: tlb_contents_def)

lemma tlb_found_iff:
  assumes "tlb_wf t order"
  shows "t_table t k \<noteq> None \<longleftrightarrow> k \<in> fst ` set (tlb_contents t order)"
  using lru_invD(4)[OF tlb_wfD(3)[OF assms], of k] by (force simp add: tlb_contents_def)

lemma tlb_value:
  assumes wf: "tlb_wf t order" and t: "t_table t k = Some x"
  shows "(k, t_frame_number t x) \<in> set (tlb_contents t order)"
  using lru_invD(4)[OF tlb_wfD(3)[OF wf], of k x] t by (force simp add: tlb_contents_def)

lemma tlb_reattach_wf:
  assumes wf: "tlb_wf t order" and k: "t_table t k = Some x"
  obtains t' order' where "tlb_reattach x t = Inr t'" "tlb_wf t' order'"
    "tlb_contents t' order' = (k, t_frame_number t x) # AList.delete k (tlb_contents t order)"
    "t_frame_number t' = t_frame_number t" "t_max_entries t' = t_max_entries t" "t_offset_bits t' = t_offset_bits t"
proof -
  note W = tlb_wfD[OF wf]
  obtain xs ys l1 l2 where L: "order = xs @ x # ys" "tlb_key t x = k" "detach x (t_links t) = Inr l1"
    "attach (t_max_entries t) x l1 = Inr l2"
    "lru_inv (t_max_entries t) l2 (t_table t) (t_free_entries t) (tlb_key t) (x # xs @ ys)"
    using W(3) k by (rule lru_touch)
  let ?t = "t\<lparr>t_links := l2\<rparr>"
  have "tlb_reattach x t = Inr ?t" using L W by (simp add: tlb_reattach_def)
  moreover have "tlb_key ?t = tlb_key t" by (simp add: tlb_key_def fun_eq_iff)
  then have "tlb_wf ?t (x # xs @ ys)" using L(5) W by (simp add: tlb_wf_def)
  moreover have "tlb_contents ?t (x # xs @ ys) = (k, t_frame_number t x) # AList.delete k (tlb_contents t order)"
    using delete_middle[of "tlb_key t" xs x ys "t_frame_number t"] lru_inv_keys[OF W(3)] L(1,2)
      \<open>tlb_key ?t = tlb_key t\<close> by (simp add: tlb_contents_def)
  ultimately show ?thesis by (rule that) simp_all
qed

lemma tlb_fill_wf:
  assumes I: "lru_inv n (t_links t) (t_table t) (fs @ [x]) (tlb_key t) order" and n: "t_max_entries t = n"
    "t_head t = n" "t_tail t = n + 1" "t_free_entries t = fs" and k: "t_table t (page, pid) = None"
  obtains t' where "tlb_fill_node x page frame pid t = Inr t'" "tlb_wf t' (x # order)"
    "tlb_contents t' (x # order) = ((page, pid), frame) # tlb_contents t order"
    "t_max_entries t' = n" "t_offset_bits t' = t_offset_bits t"
proof -
  obtain l' where L: "attach n x (t_links t) = Inr l'"
    "lru_inv n l' ((t_table t)((page, pid) \<mapsto> x)) fs ((tlb_key t)(x := (page, pid))) (x # order)" "x \<notin> set order"
    using I k by (rule lru_insert_free)
  let ?t = "t\<lparr>t_page_number := (t_page_number t)(x := page), t_frame_number := (t_frame_number t)(x := frame),
      t_pid := (t_pid t)(x := pid), t_links := l', t_table := (t_table t)((page, pid) \<mapsto> x)\<rparr>"
  have key: "tlb_key ?t = (tlb_key t)(x := (page, pid))" by (simp add: tlb_key_def fun_eq_iff)
  have "tlb_fill_node x page frame pid t = Inr ?t" using L(1) n by (simp add: tlb_fill_node_def Let_def)
  moreover have "tlb_wf ?t (x # order)" using L(2) n by (simp add: tlb_wf_def key)
  moreover have "tlb_contents ?t (x # order) = ((page, pid), frame) # tlb_contents t order"
    using L(3) unfolding tlb_contents_def key by auto
  ultimately show ?thesis by (rule that) (use n in simp_all)
qed

lemma tlb_insert_ok:
  assumes wf: "tlb_wf t order" and n: "0 < t_max_entries t"
    and k: "t_table t (get_page_number t a, pid) = None"
  obtains t' order' where "tlb_insert a frame pid t = Inr t'" "tlb_wf t' order'"
    "tlb_contents t' order' =
       take (t_max_entries t) (((get_page_number t a, pid), frame) # tlb_contents t order)"
    "t_max_entries t' = t_max_entries t" "t_offset_bits t' = t_offset_bits t"
proof -
  note W = tlb_wfD[OF wf]
  note len = lru_inv_length[OF W(3)]
  show ?thesis
  proof (cases "t_free_entries t" rule: rev_cases)
    case (snoc fs x)
    let ?t = "t\<lparr>t_free_entries := fs\<rparr>"
    have key: "tlb_key ?t = tlb_key t" by (simp add: tlb_key_def fun_eq_iff)
    have I: "lru_inv (t_max_entries t) (t_links ?t) (t_table ?t) (fs @ [x]) (tlb_key ?t) order"
      using W(3) snoc by (simp add: key)
    obtain t' where T: "tlb_fill_node x (get_page_number t a) frame pid ?t = Inr t'" "tlb_wf t' (x # order)"
      "tlb_contents t' (x # order) = ((get_page_number t a, pid), frame) # tlb_contents ?t order"
      "t_max_entries t' = t_max_entries t" "t_offset_bits t' = t_offset_bits ?t"
      by (rule tlb_fill_wf[OF I]) (use W k in simp_all)
    have "tlb_insert a frame pid t = Inr t'" using T(1) snoc k by (simp add: tlb_insert_def Let_def)
    moreover have "length (tlb_contents t order) < t_max_entries t" using len snoc by (simp add: tlb_contents_def)
    ultimately show ?thesis
      using T(2-5) by (intro that[of t' "x # order"]) (simp_all add: tlb_contents_def tlb_key_def take_Cons')
  next
    case Nil
    with W(3) have I: "lru_inv (t_max_entries t) (t_links t) (t_table t) [] (tlb_key t) order" by simp
    obtain xs x where O: "order = xs @ [x]" "prv (t_links t) (t_max_entries t + 1) = Some x"
      "t_table t (tlb_key t x) = Some x" using I n by (rule lru_full)
    obtain xs' ys l' where L: "order = xs' @ x # ys" "detach x (t_links t) = Inr l'"
      "lru_inv (t_max_entries t) l' ((t_table t)(tlb_key t x := None)) ([] @ [x]) ((tlb_key t)(x := tlb_key t x)) (xs' @ ys)"
      using lru_remove[OF I O(3), of "tlb_key t x"] by metis
    have "xs' @ ys = xs" using L(1) O(1) lru_invD(2)[OF I] by (auto simp add: append_eq_append_conv2 append_eq_Cons_conv Cons_eq_append_conv)
    let ?t = "t\<lparr>t_links := l', t_table := (t_table t)(tlb_key t x := None)\<rparr>"
    have key: "tlb_key ?t = tlb_key t" by (simp add: tlb_key_def fun_eq_iff)
    have I2: "lru_inv (t_max_entries t) (t_links ?t) (t_table ?t) ([] @ [x]) (tlb_key ?t) xs"
      using L(3) \<open>xs' @ ys = xs\<close> by (simp add: key)
    obtain t' where T: "tlb_fill_node x (get_page_number t a) frame pid ?t = Inr t'" "tlb_wf t' (x # xs)"
      "tlb_contents t' (x # xs) = ((get_page_number t a, pid), frame) # tlb_contents ?t xs"
      "t_max_entries t' = t_max_entries t" "t_offset_bits t' = t_offset_bits ?t"
      by (rule tlb_fill_wf[OF I2, of "get_page_number t a" pid frame]) (use W k Nil in \<open>auto split: if_splits\<close>)
    have "tlb_insert a frame pid t = Inr t'"
      using T(1) Nil k O(2) L(2) W by (simp add: tlb_insert_def Let_def tlb_key_def)
    moreover have "take (t_max_entries t) (((get_page_number t a, pid), frame) # tlb_contents t order) =
        ((get_page_number t a, pid), frame) # tlb_contents ?t xs"
      using len Nil O(1) by (simp add: tlb_contents_def key take_Cons')
    ultimately show ?thesis using T by (intro that[of t' "x # xs"]) simp_all
  qed
qed

lemma tlb_invalidate_ok:
  assumes wf: "tlb_wf t order"
  obtains t' order' where "tlb_invalidate page pid t = Inr t'" "tlb_wf t' order'"
    "tlb_contents t' order' = AList.delete (page, pid) (tlb_contents t order)"
    "t_max_entries t' = t_max_entries t" "t_offset_bits t' = t_offset_bits t"
proof (cases "t_table t (page, pid)")
  case None
  with tlb_found_iff[OF wf, of "(page, pid)"] have "(page, pid) \<notin> fst ` set (tlb_contents t order)" by simp
  with None wf show ?thesis by (intro that[of t order]) (simp_all add: tlb_invalidate_def)
next
  case (Some x)
  note W = tlb_wfD[OF wf]
  obtain xs ys l' where L: "order = xs @ x # ys" "tlb_key t x = (page, pid)" "detach x (t_links t) = Inr l'"
    "lru_inv (t_max_entries t) l' ((t_table t)((page, pid) := None)) (t_free_entries t @ [x])
       ((tlb_key t)(x := (- 1, - 1))) (xs @ ys)" "x \<notin> set (xs @ ys)"
    using W(3) Some by (rule lru_remove)
  let ?t = "t\<lparr>t_links := l', t_page_number := (t_page_number t)(x := - 1),
      t_frame_number := (t_frame_number t)(x := - 1), t_pid := (t_pid t)(x := - 1),
      t_free_entries := t_free_entries t @ [x], t_table := (t_table t)((page, pid) := None)\<rparr>"
  have key: "tlb_key ?t = (tlb_key t)(x := (- 1, - 1))" by (simp add: tlb_key_def fun_eq_iff)
  have "tlb_invalidate page pid t = Inr ?t" using Some L(2,3) by (simp add: tlb_invalidate_def tlb_key_def)
  moreover have "tlb_wf ?t (xs @ ys)" using L(4) W by (simp add: tlb_wf_def key)
  moreover have "tlb_contents ?t (xs @ ys) = AList.delete (page, pid) (tlb_contents t order)"
    using delete_middle[of "tlb_key t" xs x ys "t_frame_number t"] lru_inv_keys[OF W(3)] L(1,2,5)
    unfolding tlb_contents_def key by auto
  ultimately show ?thesis by (rule that) simp_all
qed

section \<open>The recency contract\<close>

text \<open>The contract is on page numbers: an address of the page is its number shifted by the offset
  bits, which is exact for page numbers that fit.\<close>

definition page_fits :: "nat \<Rightarrow> Addr \<Rightarrow> bool" where
  "page_fits bits p \<longleftrightarrow> drop_bit bits (push_bit bits p) = p"

lemma page_fits_drop: "page_fits bits (drop_bit bits a)" for a :: Addr
  unfolding page_fits_def by (rule bit_word_eqI) (auto simp add: bit_simps dest: bit_imp_le_length)

lemma tlb_relE:
  assumes "tlb_rel n bits t al"
  obtains order where "tlb_wf t order" "al = tlb_contents t order" "t_max_entries t = n" "t_offset_bits t = bits"
  using assms unfolding tlb_rel_def by blast

lemma tlb_relI:
  assumes "tlb_wf t order" "tlb_contents t order = al" "t_max_entries t = n" "t_offset_bits t = bits"
  shows "tlb_rel n bits t al"
  using assms unfolding tlb_rel_def by blast

lemma tlb_rel_bounds:
  assumes "tlb_rel n bits t al"
  shows "distinct (map fst al) \<and> length al \<le> n"
proof -
  obtain order where o: "tlb_wf t order" "al = tlb_contents t order" "t_max_entries t = n" using assms by (rule tlb_relE)
  note I = tlb_wfD(3)[OF o(1)]
  from lru_inv_keys[OF I] lru_inv_length[OF I] o show ?thesis by (simp add: tlb_contents_keys) (simp add: tlb_contents_def)
qed

lemma tlb_translate_rel:
  assumes r: "tlb_rel n bits t al" and v: "((drop_bit bits a, pid), frame) \<in> set al"
  obtains t' where "tlb_translate a pid t = Inr (frame, t')" "tlb_update a pid t = Inr t'"
    "tlb_rel n bits t' (((drop_bit bits a, pid), frame) # AList.delete (drop_bit bits a, pid) al)"
proof -
  obtain order where o: "tlb_wf t order" "al = tlb_contents t order" "t_max_entries t = n" "t_offset_bits t = bits"
    using r by (rule tlb_relE)
  from v tlb_found_iff[OF o(1), of "(drop_bit bits a, pid)"] o(2) obtain x where
    x: "t_table t (drop_bit bits a, pid) = Some x" by (force simp add: image_iff)
  from tlb_value[OF o(1) x] v tlb_rel_bounds[OF r] o(2) have f: "t_frame_number t x = frame"
    by (metis eq_key_imp_eq_value)
  obtain t' order' where T: "tlb_reattach x t = Inr t'" "tlb_wf t' order'"
    "tlb_contents t' order' = ((drop_bit bits a, pid), t_frame_number t x) # AList.delete (drop_bit bits a, pid) (tlb_contents t order)"
    "t_frame_number t' = t_frame_number t" "t_max_entries t' = t_max_entries t" "t_offset_bits t' = t_offset_bits t"
    using o(1) x by (rule tlb_reattach_wf)
  have "tlb_translate a pid t = Inr (frame, t')" "tlb_update a pid t = Inr t'"
    using x T(1,4) f o(4) by (simp_all add: tlb_translate_def tlb_update_def get_page_number_def)
  moreover have "tlb_rel n bits t' (((drop_bit bits a, pid), frame) # AList.delete (drop_bit bits a, pid) al)"
    using T o f by (intro tlb_relI[of t' order']) simp_all
  ultimately show ?thesis by (rule that)
qed

lemma tlb_insert_rel:
  assumes r: "tlb_rel n bits t al" and new: "(drop_bit bits a, pid) \<notin> fst ` set al" and n: "0 < n"
  obtains t' where "tlb_insert a frame pid t = Inr t'" "tlb_rel n bits t' (take n (((drop_bit bits a, pid), frame) # al))"
proof -
  obtain order where o: "tlb_wf t order" "al = tlb_contents t order" "t_max_entries t = n" "t_offset_bits t = bits"
    using r by (rule tlb_relE)
  have pn: "get_page_number t a = drop_bit bits a" by (simp add: get_page_number_def o)
  have "t_table t (get_page_number t a, pid) = None" "0 < t_max_entries t"
    using tlb_found_iff[OF o(1), of "(drop_bit bits a, pid)"] new n o by (simp_all add: pn)
  from tlb_insert_ok[OF o(1) this(2,1), of frame] obtain t' order' where
    "tlb_insert a frame pid t = Inr t'" "tlb_wf t' order'"
    "tlb_contents t' order' = take (t_max_entries t) (((get_page_number t a, pid), frame) # tlb_contents t order)"
    "t_max_entries t' = t_max_entries t" "t_offset_bits t' = t_offset_bits t" by metis
  with o pn show ?thesis by (intro that[of t'] tlb_relI[of t' order']) simp_all
qed

lemma tlb_lookup_rel:
  assumes "tlb_rel n bits t al"
  shows "tlb_lookup a pid t \<longleftrightarrow> (drop_bit bits a, pid) \<in> fst ` set al"
proof -
  obtain order where o: "tlb_wf t order" "al = tlb_contents t order" "t_offset_bits t = bits" using assms by (rule tlb_relE)
  with tlb_found_iff[OF o(1), of "(drop_bit bits a, pid)"] show ?thesis
    by (simp add: tlb_lookup_def get_page_number_def)
qed

lemma tlb_invalidate_rel:
  assumes r: "tlb_rel n bits t al"
  obtains t' where "tlb_invalidate page pid t = Inr t'" "tlb_rel n bits t' (AList.delete (page, pid) al)"
proof -
  obtain order where o: "tlb_wf t order" "al = tlb_contents t order" "t_max_entries t = n" "t_offset_bits t = bits"
    using r by (rule tlb_relE)
  from tlb_invalidate_ok[OF o(1), of page pid] obtain t' order' where
    "tlb_invalidate page pid t = Inr t'" "tlb_wf t' order'"
    "tlb_contents t' order' = AList.delete (page, pid) (tlb_contents t order)"
    "t_max_entries t' = t_max_entries t" "t_offset_bits t' = t_offset_bits t" by metis
  with o show ?thesis by (intro that[of t'] tlb_relI[of t' order']) simp_all
qed

interpretation tlbq: lru_structure "tlb_rel n bits" n "\<lambda>k. page_fits bits (fst k)"
    "\<lambda>k. tlb_lookup (push_bit bits (fst k)) (snd k)"
    "\<lambda>k. tlb_update (push_bit bits (fst k)) (snd k)"
    "\<lambda>k v. tlb_insert (push_bit bits (fst k)) v (snd k)"
  for n bits
proof
  fix s al
  assume r: "tlb_rel n bits s al"
  show "distinct (map fst al) \<and> length al \<le> n" using r by (rule tlb_rel_bounds)
  fix k :: EntryIndex and v :: Addr
  assume fit: "page_fits bits (fst k)"
  then have k: "(drop_bit bits (push_bit bits (fst k)), snd k) = k" by (simp add: page_fits_def)
  show "tlb_lookup (push_bit bits (fst k)) (snd k) s \<longleftrightarrow> k \<in> fst ` set al"
    using tlb_lookup_rel[OF r, of "push_bit bits (fst k)" "snd k"] unfolding k .
  show "\<exists>s'. tlb_update (push_bit bits (fst k)) (snd k) s = Inr s' \<and> tlb_rel n bits s' ((k, v) # AList.delete k al)"
    if "(k, v) \<in> set al"
    using tlb_translate_rel[OF r, of "push_bit bits (fst k)" "snd k" v] that unfolding k by metis
  show "\<exists>s'. tlb_insert (push_bit bits (fst k)) v (snd k) s = Inr s' \<and> tlb_rel n bits s' (take n ((k, v) # al))"
    if "k \<notin> fst ` set al" "0 < n"
    using tlb_insert_rel[OF r, of "push_bit bits (fst k)" "snd k" v] that unfolding k by metis
qed

section \<open>Properties\<close>

text \<open>C12. The TLB implements a bounded recency list: the constructor builds the empty one; on every
  state related to a list \<open>al\<close> of (page, process) keys and frames, most recent first, look-up is
  membership, translate of a held page returns its frame and moves it to the front, update only moves
  it, insert of an absent page puts it in front and drops the least recently used entry when the TLB
  is full, and invalidate removes exactly its key; no pointer of the doubly linked list is ever null
  or dangling in these operations.\<close>

theorem tlb_refines_lru:
  assumes r: "tlb_rel n bits t al" and n: "0 < n"
  shows "tlb_rel n (calc_log2 (of_nat ps)) (TLB junk n ps) [] \<and>
    (tlb_lookup a pid t \<longleftrightarrow> (drop_bit bits a, pid) \<in> fst ` set al) \<and>
    (((drop_bit bits a, pid), frame) \<in> set al \<longrightarrow>
       (\<exists>t'. tlb_translate a pid t = Inr (frame, t') \<and> tlb_update a pid t = Inr t' \<and>
         tlb_rel n bits t' (((drop_bit bits a, pid), frame) # AList.delete (drop_bit bits a, pid) al))) \<and>
    ((drop_bit bits a, pid) \<notin> fst ` set al \<longrightarrow>
       tlb_translate a pid t = Inl AssertFailed \<and>
       (\<exists>t'. tlb_insert a frame pid t = Inr t' \<and> tlb_rel n bits t' (take n (((drop_bit bits a, pid), frame) # al)))) \<and>
    (\<exists>t'. tlb_invalidate p pid t = Inr t' \<and> tlb_rel n bits t' (AList.delete (p, pid) al))"
proof (intro conjI impI)
  show "tlb_rel n (calc_log2 (of_nat ps)) (TLB junk n ps) []" by (rule tlb_new_rel)
  show L: "tlb_lookup a pid t \<longleftrightarrow> (drop_bit bits a, pid) \<in> fst ` set al" by (rule tlb_lookup_rel[OF r])
  show "\<exists>t'. tlb_translate a pid t = Inr (frame, t') \<and> tlb_update a pid t = Inr t' \<and>
      tlb_rel n bits t' (((drop_bit bits a, pid), frame) # AList.delete (drop_bit bits a, pid) al)"
    if "((drop_bit bits a, pid), frame) \<in> set al" using tlb_translate_rel[OF r that] by metis
  show "tlb_translate a pid t = Inl AssertFailed" if "(drop_bit bits a, pid) \<notin> fst ` set al"
    using L that by (simp add: tlb_lookup_def tlb_translate_def)
  show "\<exists>t'. tlb_insert a frame pid t = Inr t' \<and> tlb_rel n bits t' (take n (((drop_bit bits a, pid), frame) # al))"
    if "(drop_bit bits a, pid) \<notin> fst ` set al" using tlb_insert_rel[OF r that n, of frame] by metis
  show "\<exists>t'. tlb_invalidate p pid t = Inr t' \<and> tlb_rel n bits t' (AList.delete (p, pid) al)"
    using tlb_invalidate_rel[OF r, of p pid] by metis
qed

theorem tlb_refines_lru_witness:
  "\<exists>t'. tlb_insert 0x5678 7 3 (TLB \<lparr>prv = (\<lambda>_. None), nxt = (\<lambda>_. None)\<rparr> 2 1) = Inr t' \<and>
     tlb_rel 2 (calc_log2 1) t' [((drop_bit (calc_log2 1) 0x5678, 3), 7)]"
  using tlb_refines_lru[OF tlb_new_rel[where n = 2 and ps = 1 and junk = "\<lparr>prv = (\<lambda>_. None), nxt = (\<lambda>_. None)\<rparr>"],
      where a = "0x5678" and pid = 3 and frame = 7] by simp

text \<open>The recency guarantee of the TLB: a page that was just updated is still found after the
  insertion of fewer than \<open>n\<close> other pages, and is not found any more after \<open>n\<close> of them,
  whatever the order in the TLB was before.\<close>

theorem tlb_recently_used_survives:
  assumes r: "tlb_rel n bits t al" and n: "0 < n" and k: "page_fits bits p" "((p, pid), frame) \<in> set al"
    and new: "\<forall>kv\<in>set kvs. page_fits bits (fst (fst kv))" "distinct (map fst kvs)"
      "fst ` set kvs \<inter> fst ` set al = {}"
  shows "\<exists>t1 t2. tlb_update (push_bit bits p) pid t = Inr t1 \<and>
    foldl (\<lambda>m ((q, qpid), f). res_bind m (tlb_insert (push_bit bits q) f qpid)) (Inr t1) kvs = Inr t2 \<and>
    (tlb_lookup (push_bit bits p) pid t2 \<longleftrightarrow> length kvs < n)"
proof -
  have fold: "foldl (\<lambda>m ((q, qpid), f). res_bind m (tlb_insert (push_bit bits q) f qpid)) m kvs =
      res_bind m (tlbq.ins_all bits kvs)" for m
  proof (induction kvs arbitrary: m)
    case Nil
    then show ?case by (cases m) simp_all
  next
    case (Cons kv kvs)
    then show ?case by (cases kv; cases m) auto
  qed
  from tlbq.touched_survives[OF r, of "(p, pid)" frame kvs] k n new show ?thesis by (auto simp add: fold)
qed

theorem tlb_recently_used_survives_witness:
  "\<exists>t t1 t2. tlb_insert 5 7 3 (TLB \<lparr>prv = (\<lambda>_. None), nxt = (\<lambda>_. None)\<rparr> 1 1) = Inr t \<and>
     tlb_update 5 3 t = Inr t1 \<and> tlb_insert 6 8 3 t1 = Inr t2 \<and> \<not> tlb_lookup 5 3 t2"
proof -
  have "calc_log2 1 = 0" by (simp add: calc_log2_def calc_log2_loop.simps)
  then have new: "tlb_rel 1 0 (TLB \<lparr>prv = (\<lambda>_. None), nxt = (\<lambda>_. None)\<rparr> 1 1) []"
    using tlb_new_rel[of 1 1] by simp
  obtain t where t: "tlb_insert 5 7 3 (TLB \<lparr>prv = (\<lambda>_. None), nxt = (\<lambda>_. None)\<rparr> 1 1) = Inr t"
    "tlb_rel 1 0 t [((5, 3), 7)]" using tlb_insert_rel[OF new, of 5 3 7] by auto
  from tlb_recently_used_survives[OF t(2), of 5 3 7 "[((6, 3), 8)]"] t(1) show ?thesis
    by (auto simp add: page_fits_def)
qed

end
