(* ===== verification/Replacement.thy ===== *)
theory Replacement
  imports LruList
begin

text \<open>
  The page replacement unit \<^verbatim>\<open>MMU::ReplacementUnit\<close> of \<^verbatim>\<open>src/src/mmu.h\<close> and
  \<^verbatim>\<open>src/src/mmu.cc\<close>: the recency list of the resident pages. It implements the contract of
  \<open>LruList\<close> as long as no victim is taken; \<^verbatim>\<open>getVictim\<close> returns the least recently
  used page but erases the wrong key from the table. With victims the unit refines the recency list
  together with the set of former victims (\<open>ru_sim\<close>).
\<close>

record repl_unit =
  r_table :: "Addr \<times> int \<rightharpoonup> addr"
  r_free_entries :: "addr list"
  r_head :: addr
  r_tail :: addr
  r_page_number :: "addr \<Rightarrow> Addr"
  r_pid :: "addr \<Rightarrow> int"
  r_links :: links
  r_max_entries :: nat

definition ReplacementUnit :: "links \<Rightarrow> nat \<Rightarrow> repl_unit" where
  "ReplacementUnit junk max_entries =
     (let h = max_entries; t = max_entries + 1
      in \<lparr>r_table = (\<lambda>_. None), r_free_entries = [0..<max_entries], r_head = h, r_tail = t,
          r_page_number = (\<lambda>_. - 1), r_pid = (\<lambda>_. - 1),
          r_links = \<lparr>prv = (prv junk)(h := None, t := Some h), nxt = (nxt junk)(h := Some t, t := None)\<rparr>,
          r_max_entries = max_entries\<rparr>)"

definition ru_update :: "Addr \<Rightarrow> int \<Rightarrow> repl_unit \<Rightarrow> repl_unit res" where
  "ru_update page pid r =
     (case r_table r (page, pid) of
        None \<Rightarrow> Inl AssertFailed
      | Some node \<Rightarrow>
          res_bind (detach node (r_links r)) (\<lambda>l.
          res_bind (attach (r_head r) node l) (\<lambda>l'. Inr (r\<lparr>r_links := l'\<rparr>))))"

definition ru_fill_node :: "addr \<Rightarrow> Addr \<Rightarrow> int \<Rightarrow> repl_unit \<Rightarrow> repl_unit res" where
  "ru_fill_node node page pid r =
     (let r1 = r\<lparr>r_page_number := (r_page_number r)(node := page), r_pid := (r_pid r)(node := pid)\<rparr>
      in res_bind (attach (r_head r1) node (r_links r1)) (\<lambda>l.
         Inr (r1\<lparr>r_links := l, r_table := (r_table r1)((page, pid) \<mapsto> node)\<rparr>)))"

definition ru_insert :: "Addr \<Rightarrow> int \<Rightarrow> repl_unit \<Rightarrow> repl_unit res" where
  "ru_insert page pid r =
     check (r_table r (page, pid) = None) AssertFailed
       (if r_free_entries r \<noteq> []
        then ru_fill_node (last (r_free_entries r)) page pid
               (r\<lparr>r_free_entries := butlast (r_free_entries r)\<rparr>)
        else case prv (r_links r) (r_tail r) of
               None \<Rightarrow> Inl NullPointer
             | Some node \<Rightarrow>
                 res_bind (detach node (r_links r)) (\<lambda>l.
                 ru_fill_node node page pid
                   (r\<lparr>r_links := l,
                      r_table := (r_table r)((r_page_number r node, r_pid r node) := None)\<rparr>)))"

text \<open>The node's fields are reset before its key is computed, so the key erased is (-1, -1).\<close>

definition getVictim :: "repl_unit \<Rightarrow> ((Addr \<times> int) \<times> repl_unit) res" where
  "getVictim r =
     (case prv (r_links r) (r_tail r) of
        None \<Rightarrow> Inl NullPointer
      | Some node \<Rightarrow>
          res_bind (detach node (r_links r)) (\<lambda>l.
          let ret = (r_page_number r node, r_pid r node);
              r1 = r\<lparr>r_links := l, r_page_number := (r_page_number r)(node := - 1),
                     r_pid := (r_pid r)(node := - 1),
                     r_free_entries := r_free_entries r @ [node]\<rparr>
          in Inr (ret, r1\<lparr>r_table := (r_table r1)((r_page_number r1 node, r_pid r1 node) := None)\<rparr>)))"

section \<open>The invariant and the recency list\<close>

definition ru_key :: "repl_unit \<Rightarrow> addr \<Rightarrow> Addr \<times> int" where
  "ru_key r x = (r_page_number r x, r_pid r x)"

definition ru_wf :: "repl_unit \<Rightarrow> addr list \<Rightarrow> bool" where
  "ru_wf r order \<longleftrightarrow> r_head r = r_max_entries r \<and> r_tail r = r_max_entries r + 1 \<and>
     lru_inv (r_max_entries r) (r_links r) (r_table r) (r_free_entries r) (ru_key r) order"

definition ru_rel :: "nat \<Rightarrow> repl_unit \<Rightarrow> ((Addr \<times> int) \<times> unit) list \<Rightarrow> bool" where
  "ru_rel n r al \<longleftrightarrow> r_max_entries r = n \<and> (\<exists>order. ru_wf r order \<and> al = map (\<lambda>x. (ru_key r x, ())) order)"

lemma ru_wfD:
  assumes "ru_wf r order"
  shows "r_head r = r_max_entries r" "r_tail r = r_max_entries r + 1"
    "lru_inv (r_max_entries r) (r_links r) (r_table r) (r_free_entries r) (ru_key r) order"
  using assms by (simp_all add: ru_wf_def)

lemma ru_relE:
  assumes "ru_rel n r al"
  obtains order where "ru_wf r order" "al = map (\<lambda>x. (ru_key r x, ())) order" "r_max_entries r = n"
  using assms unfolding ru_rel_def by blast

lemma ru_relI:
  assumes "ru_wf r order" "map (\<lambda>x. (ru_key r x, ())) order = al" "r_max_entries r = n"
  shows "ru_rel n r al"
  using assms unfolding ru_rel_def by blast

lemma ru_new_rel: "ru_rel n (ReplacementUnit junk n) []"
proof -
  let ?r = "ReplacementUnit junk n"
  have "lru_inv n (r_links ?r) (\<lambda>_. None) [0..<n] (ru_key ?r) []"
    by (rule lru_init) (simp_all add: ReplacementUnit_def Let_def)
  then have "ru_wf ?r []" by (simp add: ru_wf_def) (simp add: ReplacementUnit_def Let_def)
  then show ?thesis by (rule ru_relI) (simp_all add: ReplacementUnit_def Let_def)
qed

lemma ru_found_iff:
  assumes "ru_wf r order"
  shows "r_table r k \<noteq> None \<longleftrightarrow> k \<in> fst ` set (map (\<lambda>x. (ru_key r x, ())) order)"
  using lru_invD(4)[OF ru_wfD(3)[OF assms], of k] by force

lemma ru_rel_bounds:
  assumes "ru_rel n r al"
  shows "distinct (map fst al) \<and> length al \<le> n"
proof -
  obtain order where o: "ru_wf r order" "al = map (\<lambda>x. (ru_key r x, ())) order" "r_max_entries r = n"
    using assms by (rule ru_relE)
  note I = ru_wfD(3)[OF o(1)]
  from lru_inv_keys[OF I] lru_inv_length[OF I] o show ?thesis by (simp add: comp_def)
qed

lemma ru_update_rel:
  assumes r: "ru_rel n r al" and k: "((page, pid), ()) \<in> set al"
  shows "\<exists>r'. ru_update page pid r = Inr r' \<and> ru_rel n r' (((page, pid), ()) # AList.delete (page, pid) al)"
proof -
  obtain order where o: "ru_wf r order" "al = map (\<lambda>x. (ru_key r x, ())) order" "r_max_entries r = n"
    using r by (rule ru_relE)
  note W = ru_wfD[OF o(1)]
  from k o(2) ru_found_iff[OF o(1), of "(page, pid)"] obtain x where x: "r_table r (page, pid) = Some x" by force
  obtain xs ys l1 l2 where L: "order = xs @ x # ys" "ru_key r x = (page, pid)" "detach x (r_links r) = Inr l1"
    "attach (r_max_entries r) x l1 = Inr l2"
    "lru_inv (r_max_entries r) l2 (r_table r) (r_free_entries r) (ru_key r) (x # xs @ ys)"
    using W(3) x by (rule lru_touch)
  let ?r = "r\<lparr>r_links := l2\<rparr>"
  have key: "ru_key ?r = ru_key r" by (simp add: ru_key_def fun_eq_iff)
  have "ru_update page pid r = Inr ?r" using x L W by (simp add: ru_update_def)
  moreover have "ru_wf ?r (x # xs @ ys)" using L(5) W by (simp add: ru_wf_def key)
  moreover have "map (\<lambda>x. (ru_key ?r x, ())) (x # xs @ ys) = ((page, pid), ()) # AList.delete (page, pid) al"
    using delete_middle[of "ru_key r" xs x ys "\<lambda>_. ()"] lru_inv_keys[OF W(3)] L(1,2) o(2) by (simp add: key)
  ultimately show ?thesis using ru_relI[of ?r "x # xs @ ys"] o(3) by auto
qed

lemma ru_fill_wf:
  assumes I: "lru_inv n (r_links r) (r_table r) (fs @ [x]) (ru_key r) order" and n: "r_max_entries r = n"
    "r_head r = n" "r_tail r = n + 1" "r_free_entries r = fs" and k: "r_table r (page, pid) = None"
  shows "\<exists>r'. ru_fill_node x page pid r = Inr r' \<and>
    ru_rel n r' (((page, pid), ()) # map (\<lambda>x. (ru_key r x, ())) order)"
proof -
  obtain l' where L: "attach n x (r_links r) = Inr l'"
    "lru_inv n l' ((r_table r)((page, pid) \<mapsto> x)) fs ((ru_key r)(x := (page, pid))) (x # order)" "x \<notin> set order"
    using I k by (rule lru_insert_free)
  let ?r = "r\<lparr>r_page_number := (r_page_number r)(x := page), r_pid := (r_pid r)(x := pid), r_links := l',
      r_table := (r_table r)((page, pid) \<mapsto> x)\<rparr>"
  have key: "ru_key ?r = (ru_key r)(x := (page, pid))" by (simp add: ru_key_def fun_eq_iff)
  have "ru_fill_node x page pid r = Inr ?r" using L(1) n by (simp add: ru_fill_node_def Let_def)
  moreover have "ru_wf ?r (x # order)" using L(2) n by (simp add: ru_wf_def key)
  moreover have "map (\<lambda>x. (ru_key ?r x, ())) (x # order) = ((page, pid), ()) # map (\<lambda>x. (ru_key r x, ())) order"
    using L(3) unfolding key by auto
  ultimately show ?thesis using ru_relI[of ?r "x # order"] n by auto
qed

lemma ru_last:
  assumes wf: "ru_wf r order" and o: "order = xs @ [x]"
  obtains l' where "prv (r_links r) (r_tail r) = Some x" "detach x (r_links r) = Inr l'"
    "lru_inv (r_max_entries r) l' ((r_table r)(ru_key r x := None)) (r_free_entries r @ [x])
       ((ru_key r)(x := c)) xs" "r_table r (ru_key r x) = Some x"
proof -
  note W = ru_wfD[OF wf]
  have t: "r_table r (ru_key r x) = Some x" by (simp add: lru_invD(4)[OF W(3)] o)
  obtain as bs l' where L: "order = as @ x # bs" "detach x (r_links r) = Inr l'"
    "lru_inv (r_max_entries r) l' ((r_table r)(ru_key r x := None)) (r_free_entries r @ [x]) ((ru_key r)(x := c)) (as @ bs)"
    using lru_remove[OF W(3) t, of c] by metis
  have "as @ bs = xs" using L(1) o lru_invD(2)[OF W(3)]
    by (auto simp add: append_eq_append_conv2 append_eq_Cons_conv Cons_eq_append_conv)
  moreover have "prv (r_links r) (r_tail r) = Some x"
    using tail_prev[of "r_links r" "r_max_entries r" "r_tail r" xs x] lru_invD(1)[OF W(3)] W(2) o by simp
  ultimately show ?thesis using that L t by simp
qed

lemma ru_insert_rel:
  assumes r: "ru_rel n r al" and new: "(page, pid) \<notin> fst ` set al" and n: "0 < n"
  shows "\<exists>r'. ru_insert page pid r = Inr r' \<and> ru_rel n r' (take n (((page, pid), ()) # al))"
proof -
  obtain order where o: "ru_wf r order" "al = map (\<lambda>x. (ru_key r x, ())) order" "r_max_entries r = n"
    using r by (rule ru_relE)
  note W = ru_wfD[OF o(1)]
  note len = lru_inv_length[OF W(3)]
  have k: "r_table r (page, pid) = None" using ru_found_iff[OF o(1), of "(page, pid)"] new o(2) by simp
  show ?thesis
  proof (cases "r_free_entries r" rule: rev_cases)
    case (snoc fs x)
    let ?r = "r\<lparr>r_free_entries := fs\<rparr>"
    have key: "ru_key ?r = ru_key r" by (simp add: ru_key_def fun_eq_iff)
    have I: "lru_inv n (r_links ?r) (r_table ?r) (fs @ [x]) (ru_key ?r) order" using W(3) snoc o(3) by (simp add: key)
    have "\<exists>r'. ru_fill_node x page pid ?r = Inr r' \<and> ru_rel n r' (((page, pid), ()) # map (\<lambda>x. (ru_key ?r x, ())) order)"
      by (rule ru_fill_wf[OF I]) (use W k o in simp_all)
    moreover have "take n (((page, pid), ()) # al) = ((page, pid), ()) # map (\<lambda>x. (ru_key ?r x, ())) order"
      using len snoc o n by (simp add: key take_Cons')
    ultimately show ?thesis using snoc k by (auto simp add: ru_insert_def)
  next
    case Nil
    obtain xs x where ox: "order = xs @ [x]" using len Nil n o(3) by (cases order rule: rev_cases) auto
    obtain l' where L: "prv (r_links r) (r_tail r) = Some x" "detach x (r_links r) = Inr l'"
      "lru_inv (r_max_entries r) l' ((r_table r)(ru_key r x := None)) (r_free_entries r @ [x])
         ((ru_key r)(x := ru_key r x)) xs" "r_table r (ru_key r x) = Some x"
      using ru_last[OF o(1) ox] by metis
    let ?r = "r\<lparr>r_links := l', r_table := (r_table r)(ru_key r x := None)\<rparr>"
    have key: "ru_key ?r = ru_key r" by (simp add: ru_key_def fun_eq_iff)
    have I: "lru_inv n (r_links ?r) (r_table ?r) ([] @ [x]) (ru_key ?r) xs" using L(3) Nil o(3) by (simp add: key)
    have "\<exists>r'. ru_fill_node x page pid ?r = Inr r' \<and> ru_rel n r' (((page, pid), ()) # map (\<lambda>x. (ru_key ?r x, ())) xs)"
      by (rule ru_fill_wf[OF I]) (use W k o Nil in \<open>auto split: if_splits\<close>)
    moreover have "take n (((page, pid), ()) # al) = ((page, pid), ()) # map (\<lambda>x. (ru_key ?r x, ())) xs"
      using len Nil o n ox by (simp add: key take_Cons')
    ultimately show ?thesis using Nil k L(1,2) by (auto simp add: ru_insert_def ru_key_def)
  qed
qed

interpretation ruq: lru_structure "ru_rel n" n "\<lambda>_. True" "\<lambda>k r. r_table r k \<noteq> None"
    "\<lambda>k. ru_update (fst k) (snd k)" "\<lambda>k v. ru_insert (fst k) (snd k)"
  for n
proof
  fix s al
  assume r: "ru_rel n s al"
  show "distinct (map fst al) \<and> length al \<le> n" using r by (rule ru_rel_bounds)
  fix k :: "Addr \<times> int" and v :: unit
  show "r_table s k \<noteq> None \<longleftrightarrow> k \<in> fst ` set al" 
  proof -
    obtain order where "ru_wf s order" "al = map (\<lambda>x. (ru_key s x, ())) order" using r by (rule ru_relE)
    with ru_found_iff show ?thesis by blast
  qed
  show "\<exists>s'. ru_update (fst k) (snd k) s = Inr s' \<and> ru_rel n s' ((k, v) # AList.delete k al)" if "(k, v) \<in> set al"
    using ru_update_rel[OF r, of "fst k" "snd k"] that by simp
  show "\<exists>s'. ru_insert (fst k) (snd k) s = Inr s' \<and> ru_rel n s' (take n ((k, v) # al))"
    if "k \<notin> fst ` set al" "0 < n" using ru_insert_rel[OF r, of "fst k" "snd k"] that by simp
qed

lemma getVictim_eq:
  assumes r: "ru_rel n r (al @ [((page, pid), ())])"
  obtains node r' where "getVictim r = Inr ((page, pid), r')" "r_table r (page, pid) = Some node"
    "r_table r' = (r_table r)((- 1, - 1) := None)" "r_free_entries r' = r_free_entries r @ [node]"
    "r_page_number r' node = - 1"
proof -
  obtain order where o: "ru_wf r order" "al @ [((page, pid), ())] = map (\<lambda>x. (ru_key r x, ())) order"
    using r by (rule ru_relE)
  then obtain xs x where ox: "order = xs @ [x]" by (cases order rule: rev_cases) auto
  with o(2) have key: "ru_key r x = (page, pid)" by simp
  obtain l' where L: "prv (r_links r) (r_tail r) = Some x" "detach x (r_links r) = Inr l'"
    "r_table r (ru_key r x) = Some x" using ru_last[OF o(1) ox] by metis
  define r' where "r' = r\<lparr>r_links := l', r_page_number := (r_page_number r)(x := - 1), r_pid := (r_pid r)(x := - 1),
      r_free_entries := r_free_entries r @ [x], r_table := (r_table r)((- 1, - 1) := None)\<rparr>"
  have "getVictim r = Inr ((page, pid), r')"
    using L key by (simp add: getVictim_def Let_def ru_key_def r'_def)
  then show ?thesis using L(3) key by (rule_tac that[of r' x]) (simp_all add: r'_def)
qed

section \<open>Victims stay in the table\<close>

text \<open>The exact abstract state: the recency list \<open>ks\<close> and the set \<open>S\<close> of the pages that were
  taken as victims, whose keys the table keeps. \<open>ru_forget\<close> drops those keys, which leaves a unit
  that satisfies the contract above.\<close>

definition ru_forget :: "(Addr \<times> int) set \<Rightarrow> repl_unit \<Rightarrow> repl_unit" where
  "ru_forget S r = r\<lparr>r_table := r_table r |` (- S)\<rparr>"

definition ru_sim :: "nat \<Rightarrow> repl_unit \<Rightarrow> (Addr \<times> int) list \<Rightarrow> (Addr \<times> int) set \<Rightarrow> bool" where
  "ru_sim n r ks S \<longleftrightarrow> ru_rel n (ru_forget S r) (map (\<lambda>k. (k, ())) ks) \<and>
     dom (r_table r) = set ks \<union> S \<and> set ks \<inter> S = {} \<and> (- 1, - 1) \<notin> set ks \<union> S"

lemma ru_forget_simps [simp]:
  "r_links (ru_forget S r) = r_links r" "r_head (ru_forget S r) = r_head r" "r_tail (ru_forget S r) = r_tail r"
  "r_free_entries (ru_forget S r) = r_free_entries r" "ru_key (ru_forget S r) = ru_key r"
  "r_max_entries (ru_forget S r) = r_max_entries r"
  "r_table (ru_forget S r) k = (if k \<in> S then None else r_table r k)"
  by (simp_all add: ru_forget_def ru_key_def fun_eq_iff restrict_map_def)

lemma ru_simD:
  assumes "ru_sim n r ks S"
  shows "ru_rel n (ru_forget S r) (map (\<lambda>k. (k, ())) ks)" "dom (r_table r) = set ks \<union> S" "set ks \<inter> S = {}"
    "(- 1, - 1) \<notin> set ks \<union> S"
  using assms by (simp_all add: ru_sim_def)

lemma ru_simI:
  assumes rel: "ru_rel n (ru_forget S r) (map (\<lambda>k. (k, ())) ks)" and S: "S \<subseteq> dom (r_table r)"
    and k: "(- 1, - 1) \<notin> set ks \<union> S"
  shows "ru_sim n r ks S"
proof -
  have F: "k \<in> set ks \<longleftrightarrow> k \<notin> S \<and> r_table r k \<noteq> None" for k
    using ruq.found_law[OF rel, of k] by (force simp add: image_iff split: if_splits)
  then have "dom (r_table r) = set ks \<union> S" "set ks \<inter> S = {}" using S by (auto simp add: dom_def)
  with rel k show ?thesis by (simp add: ru_sim_def)
qed

lemma ru_new_sim: "ru_sim n (ReplacementUnit junk n) [] {}"
  using ru_new_rel[of n junk] by (simp add: ru_sim_def ru_forget_def ReplacementUnit_def Let_def dom_def)

lemma delete_keys: "AList.delete k (map (\<lambda>k. (k, ())) ks) = map (\<lambda>k. (k, ())) (removeAll k ks)"
  by (induction ks) auto

lemma ru_update_forget:
  assumes "ru_update page pid (ru_forget S r) = Inr r1" "(page, pid) \<notin> S"
  obtains r' where "ru_update page pid r = Inr r'" "r1 = ru_forget S r'" "r_table r' = r_table r"
  using assms by (auto simp add: ru_update_def res_bind_eq_Inr ru_forget_def split: option.splits)

lemma ru_fill_forget:
  assumes "ru_fill_node x page pid (ru_forget S r) = Inr r1" "(page, pid) \<notin> S"
  obtains r' where "ru_fill_node x page pid r = Inr r'" "r1 = ru_forget S r'" "r_table r' = (r_table r)((page, pid) \<mapsto> x)"
  using assms by (auto simp add: ru_fill_node_def res_bind_eq_Inr ru_forget_def Let_def)

lemma ru_update_sim:
  assumes r: "ru_sim n r ks S" and k: "(page, pid) \<in> set ks"
  shows "\<exists>r'. ru_update page pid r = Inr r' \<and> ru_sim n r' ((page, pid) # removeAll (page, pid) ks) S"
proof -
  note D = ru_simD[OF r]
  obtain r1 where r1: "ru_update page pid (ru_forget S r) = Inr r1"
    "ru_rel n r1 (((page, pid), ()) # map (\<lambda>k. (k, ())) (removeAll (page, pid) ks))"
    using ru_update_rel[OF D(1), of page pid] k unfolding delete_keys by auto
  have "(page, pid) \<notin> S" using k D(3) by blast
  with r1(1) obtain r' where r': "ru_update page pid r = Inr r'" "r1 = ru_forget S r'" "r_table r' = r_table r"
    by (rule ru_update_forget)
  moreover have "ru_sim n r' ((page, pid) # removeAll (page, pid) ks) S"
    using r1(2) r' D k by (intro ru_simI) auto
  ultimately show ?thesis by blast
qed

lemma restrict_erase: "(t |` A)(k := None) = (t(k := None)) |` A"
  by (auto simp add: restrict_map_def fun_eq_iff)

lemma keys_image: "fst ` set (map (\<lambda>k. (k, ())) ks) = set ks"
  by force

lemma ru_insert_forget:
  assumes r: "ru_sim n r ks S" and k: "(page, pid) \<notin> set ks \<union> S" and n: "0 < n"
    and r1: "ru_insert page pid (ru_forget S r) = Inr r1"
  shows "\<exists>r'. ru_insert page pid r = Inr r' \<and> r1 = ru_forget S r' \<and> S \<subseteq> dom (r_table r')"
proof -
  note D = ru_simD[OF r]
  let ?F = "ru_forget S r"
  have none: "r_table r (page, pid) = None" "r_table ?F (page, pid) = None" using D(2) k by auto
  show ?thesis
  proof (cases "r_free_entries r = []")
    case False
    let ?r = "r\<lparr>r_free_entries := butlast (r_free_entries r)\<rparr>"
    have "ru_forget S ?r = ?F\<lparr>r_free_entries := butlast (r_free_entries r)\<rparr>" by (simp add: ru_forget_def)
    with r1 none False have "ru_fill_node (last (r_free_entries r)) page pid (ru_forget S ?r) = Inr r1"
      by (simp add: ru_insert_def del: ru_forget_simps(7))
    then obtain r' where "ru_fill_node (last (r_free_entries r)) page pid ?r = Inr r'" "r1 = ru_forget S r'"
      "r_table r' = (r_table ?r)((page, pid) \<mapsto> last (r_free_entries r))"
      by (rule ru_fill_forget) (use k in simp)
    with none False D(2) show ?thesis by (auto simp add: ru_insert_def)
  next
    case True
    obtain order where o: "ru_wf ?F order" "r_max_entries ?F = n" using D(1) by (rule ru_relE)
    with lru_inv_length[OF ru_wfD(3)[OF o(1)]] True n obtain xs x where "order = xs @ [x]"
      by (cases order rule: rev_cases) auto
    with ru_last[OF o(1)] obtain l' where L: "prv (r_links r) (r_tail r) = Some x" "detach x (r_links r) = Inr l'"
      "r_table ?F (ru_key ?F x) = Some x" by (metis ru_forget_simps(1,3))
    then have x: "ru_key r x \<notin> S" by (auto split: if_splits)
    let ?r = "r\<lparr>r_links := l', r_table := (r_table r)(ru_key r x := None)\<rparr>"
    have "ru_forget S ?r = ?F\<lparr>r_links := l', r_table := (r_table ?F)(ru_key r x := None)\<rparr>"
      by (simp add: ru_forget_def restrict_erase)
    with r1 none True L have "ru_fill_node x page pid (ru_forget S ?r) = Inr r1"
      by (simp add: ru_insert_def ru_key_def del: ru_forget_simps(7)) (simp add: ru_forget_def)
    then obtain r' where "ru_fill_node x page pid ?r = Inr r'" "r1 = ru_forget S r'"
      "r_table r' = (r_table ?r)((page, pid) \<mapsto> x)"
      by (rule ru_fill_forget) (use k in simp)
    with none True L x D(2) show ?thesis by (auto simp add: ru_insert_def ru_key_def)
  qed
qed

lemma ru_insert_sim:
  assumes r: "ru_sim n r ks S" and k: "(page, pid) \<notin> set ks \<union> S" "(page, pid) \<noteq> (- 1, - 1)" and n: "0 < n"
  shows "\<exists>r'. ru_insert page pid r = Inr r' \<and> ru_sim n r' (take n ((page, pid) # ks)) S"
proof -
  note D = ru_simD[OF r]
  obtain r1 where r1: "ru_insert page pid (ru_forget S r) = Inr r1"
    "ru_rel n r1 (take n (((page, pid), ()) # map (\<lambda>k. (k, ())) ks))"
    using ru_insert_rel[OF D(1), of page pid, unfolded keys_image] k(1) n by blast
  from ru_insert_forget[OF r k(1) n r1(1)] obtain r' where
    r': "ru_insert page pid r = Inr r'" "r1 = ru_forget S r'" "S \<subseteq> dom (r_table r')" by blast
  have "ru_rel n (ru_forget S r') (map (\<lambda>k. (k, ())) (take n ((page, pid) # ks)))"
    using r1(2) r'(2) by (simp flip: take_map)
  moreover have "(- 1, - 1) \<notin> set (take n ((page, pid) # ks)) \<union> S"
    using D(4) k(2) set_take_subset[of n "(page, pid) # ks"] by auto
  ultimately show ?thesis using r'(1,3) ru_simI by blast
qed

lemma ru_insert_known:
  assumes "ru_sim n r ks S" "(page, pid) \<in> set ks \<union> S"
  shows "ru_insert page pid r = Inl AssertFailed"
proof -
  have "r_table r (page, pid) \<noteq> None" using ru_simD(2)[OF assms(1)] assms(2) by blast
  then show ?thesis by (simp only: ru_insert_def check_eq_Inl) simp
qed

lemma getVictim_sim:
  assumes r: "ru_sim n r (ks @ [k]) S"
  shows "\<exists>r'. getVictim r = Inr (k, r') \<and> ru_sim n r' ks (insert k S)"
proof -
  note D = ru_simD[OF r]
  let ?F = "ru_forget S r"
  obtain order where o: "ru_wf ?F order" "map (\<lambda>k. (k, ())) (ks @ [k]) = map (\<lambda>x. (ru_key ?F x, ())) order"
    "r_max_entries ?F = n" using D(1) by (rule ru_relE)
  then obtain xs x where ox: "order = xs @ [x]" by (cases order rule: rev_cases) auto
  with o(2) have k: "ru_key r x = k" and ks: "map (\<lambda>k. (k, ())) ks = map (\<lambda>x. (ru_key r x, ())) xs" by simp_all
  obtain l' where L: "prv (r_links r) (r_tail r) = Some x" "detach x (r_links r) = Inr l'"
    "lru_inv n l' ((r_table ?F)(k := None)) (r_free_entries r @ [x]) ((ru_key r)(x := (- 1, - 1))) xs"
    using ru_last[OF o(1) ox, of "(- 1, - 1)"] o(3) k by auto
  have m1: "r_table r (- 1, - 1) = None" using D(2,4) by blast
  define r' where "r' = r\<lparr>r_links := l', r_page_number := (r_page_number r)(x := - 1), r_pid := (r_pid r)(x := - 1),
      r_free_entries := r_free_entries r @ [x]\<rparr>"
  have "getVictim r = Inr (k, r'\<lparr>r_table := (r_table r)((- 1, - 1) := None)\<rparr>)"
    using L k by (simp add: getVictim_def Let_def ru_key_def r'_def)
  also have "r'\<lparr>r_table := (r_table r)((- 1, - 1) := None)\<rparr> = r'" using m1 by (simp add: r'_def fun_upd_idem)
  finally have "getVictim r = Inr (k, r')" .
  moreover have "ru_sim n r' ks (insert k S)"
  proof (rule ru_simI)
    have key: "ru_key r' = (ru_key r)(x := (- 1, - 1))" by (simp add: ru_key_def r'_def fun_eq_iff)
    have tab: "r_table (ru_forget (insert k S) r') = (r_table ?F)(k := None)"
      by (auto simp add: ru_forget_def r'_def restrict_map_def fun_eq_iff)
    have "x \<notin> set xs" using lru_invD(2)[OF L(3)] by auto
    then have "map (\<lambda>x. (ru_key (ru_forget (insert k S) r') x, ())) xs = map (\<lambda>k. (k, ())) ks"
      unfolding ks ru_forget_simps key by auto
    moreover have "ru_wf (ru_forget (insert k S) r') xs"
      using L(3) ru_wfD(1,2)[OF o(1)] o(3) unfolding ru_wf_def tab by (simp add: key) (simp add: r'_def)
    ultimately show "ru_rel n (ru_forget (insert k S) r') (map (\<lambda>k. (k, ())) ks)"
      using o(3) by (intro ru_relI) (simp_all add: r'_def)
    show "insert k S \<subseteq> dom (r_table r')" using D(2) by (auto simp add: r'_def)
    show "(- 1, - 1) \<notin> set ks \<union> insert k S" using D(4) by auto
  qed
  ultimately show ?thesis by blast
qed

section \<open>Properties\<close>

text \<open>C33. The exact behaviour of the replacement unit, victims included. Its abstract state is the
  recency list \<open>ks\<close> of the resident pages, most recent first, and the set \<open>S\<close> of the pages that
  were taken as victims: \<^verbatim>\<open>getVictim\<close> resets the node before it erases the node's key, so the
  table keeps the key of every victim. The constructor gives the empty list and the empty set. An
  \<^verbatim>\<open>update\<close> of a resident page moves it to the front; of a page that is neither resident nor a
  former victim it fails its assertion. An \<^verbatim>\<open>insert\<close> puts a new page in front, dropping the last
  one when the unit is full; of a resident page, and also of a former victim, it fails its assertion.
  \<^verbatim>\<open>getVictim\<close> of a non-empty unit returns the least recently used page, takes it off the list and
  frees its node, but the page stays in the table, among the former victims.\<close>

theorem replacement_unit_refines_lru:
  assumes r: "ru_sim n r ks S" and n: "0 < n" and k: "(page, pid) \<noteq> (- 1, - 1)"
  shows "ru_sim n (ReplacementUnit junk n) [] {} \<and>
    ((page, pid) \<in> set ks \<longrightarrow>
       (\<exists>r'. ru_update page pid r = Inr r' \<and> ru_sim n r' ((page, pid) # removeAll (page, pid) ks) S)) \<and>
    ((page, pid) \<notin> set ks \<union> S \<longrightarrow> ru_update page pid r = Inl AssertFailed \<and>
       (\<exists>r'. ru_insert page pid r = Inr r' \<and> ru_sim n r' (take n ((page, pid) # ks)) S)) \<and>
    ((page, pid) \<in> set ks \<union> S \<longrightarrow> ru_insert page pid r = Inl AssertFailed) \<and>
    (ks \<noteq> [] \<longrightarrow> (\<exists>r'. getVictim r = Inr (last ks, r') \<and> ru_sim n r' (butlast ks) (insert (last ks) S)))"
proof (intro conjI impI)
  have F: "r_table r (page, pid) \<noteq> None \<longleftrightarrow> (page, pid) \<in> set ks \<union> S" using ru_simD(2)[OF r] by blast
  show "ru_sim n (ReplacementUnit junk n) [] {}" by (rule ru_new_sim)
  show "ru_insert page pid r = Inl AssertFailed" if "(page, pid) \<in> set ks \<union> S" by (rule ru_insert_known[OF r that])
  show "ru_update page pid r = Inl AssertFailed" if "(page, pid) \<notin> set ks \<union> S" using that F by (simp add: ru_update_def)
  show "\<exists>r'. ru_update page pid r = Inr r' \<and> ru_sim n r' ((page, pid) # removeAll (page, pid) ks) S"
    if "(page, pid) \<in> set ks" by (rule ru_update_sim[OF r that])
  show "\<exists>r'. ru_insert page pid r = Inr r' \<and> ru_sim n r' (take n ((page, pid) # ks)) S"
    if "(page, pid) \<notin> set ks \<union> S" by (rule ru_insert_sim[OF r that k n])
  show "\<exists>r'. getVictim r = Inr (last ks, r') \<and> ru_sim n r' (butlast ks) (insert (last ks) S)" if "ks \<noteq> []"
    using getVictim_sim[of n r "butlast ks" "last ks" S] r that by simp
qed

text \<open>Two pages, the older taken as a victim: it is gone from the list and cannot come back.\<close>

theorem replacement_unit_refines_lru_witness:
  "\<exists>r r'. ru_sim 2 r [(6, - 1), (5, - 1)] {} \<and> getVictim r = Inr ((5, - 1), r') \<and>
     ru_sim 2 r' [(6, - 1)] {(5, - 1)} \<and> ru_insert 5 (- 1) r' = Inl AssertFailed"
proof -
  note T = replacement_unit_refines_lru[where n = 2 and junk = "\<lparr>prv = (\<lambda>_. None), nxt = (\<lambda>_. None)\<rparr>"]
  have r0: "ru_sim 2 (ReplacementUnit \<lparr>prv = (\<lambda>_. None), nxt = (\<lambda>_. None)\<rparr> 2) [] {}" by (rule ru_new_sim)
  from T[OF this, of 5 "- 1"] obtain r1 where r1: "ru_sim 2 r1 [(5, - 1)] {}" by auto
  from T[OF this, of 6 "- 1"] obtain r2 where r2: "ru_sim 2 r2 [(6, - 1), (5, - 1)] {}" by auto
  from T[OF this, of 6 "- 1"] obtain r3 where r3: "getVictim r2 = Inr ((5, - 1), r3)" "ru_sim 2 r3 [(6, - 1)] {(5, - 1)}"
    by auto
  from T[OF this(2), of 5 "- 1"] have "ru_insert 5 (- 1) r3 = Inl AssertFailed" by simp
  with r2 r3 show ?thesis by blast
qed

text \<open>\<^verbatim>\<open>getVictim\<close> resets the node before it erases its key, so the victim stays in the
  table: the victim's node is on the free list while the table still maps the evicted page to it, and
  inserting the evicted page again fails the assertion of \<^verbatim>\<open>insert\<close>.\<close>

theorem evicted_page_cannot_return:
  assumes r: "ru_rel n r (al @ [((page, pid), ())])" and k: "(page, pid) \<noteq> (- 1, - 1)"
  shows "\<exists>node r'. getVictim r = Inr ((page, pid), r') \<and> node \<in> set (r_free_entries r') \<and>
    r_table r' (page, pid) = Some node \<and> ru_insert page pid r' = Inl AssertFailed"
proof -
  obtain node r' where "getVictim r = Inr ((page, pid), r')" "r_table r (page, pid) = Some node"
    "r_table r' = (r_table r)((- 1, - 1) := None)" "r_free_entries r' = r_free_entries r @ [node]"
    using r by (rule getVictim_eq)
  with k show ?thesis by (auto simp add: ru_insert_def)
qed

theorem evicted_page_cannot_return_witness:
  "\<exists>r node r'. ru_insert 5 (- 1) (ReplacementUnit \<lparr>prv = (\<lambda>_. None), nxt = (\<lambda>_. None)\<rparr> 1) = Inr r \<and>
     getVictim r = Inr ((5, - 1), r') \<and> node \<in> set (r_free_entries r') \<and> ru_insert 5 (- 1) r' = Inl AssertFailed"
proof -
  obtain r where r: "ru_insert 5 (- 1) (ReplacementUnit \<lparr>prv = (\<lambda>_. None), nxt = (\<lambda>_. None)\<rparr> 1) = Inr r"
    "ru_rel 1 r [((5, - 1), ())]"
    using ru_insert_rel[OF ru_new_rel[of 1 "\<lparr>prv = (\<lambda>_. None), nxt = (\<lambda>_. None)\<rparr>"], of 5 "- 1"] by auto
  with evicted_page_cannot_return[of 1 r "[]" 5 "- 1"] show ?thesis by auto
qed

end
