(* ===== verification/Mmu.thy ===== *)
theory Mmu
  imports Tlb Replacement Uop
begin

text \<open>
  The memory management unit \<^verbatim>\<open>MMU\<close> of \<^verbatim>\<open>src/src/mmu.h\<close> and
  \<^verbatim>\<open>src/src/mmu.cc\<close>: translation through the TLB, queued page table walks, the fault
  buffer and the batch processing of page faults with eviction. The record \<open>mmu\<close> holds its fields
  and the parts of the surroundings it changes: the store of uops, the per-core sets
  \<^verbatim>\<open>m_per_thread_fault_parent_uops\<close>, the frame addresses handed to the memory system for
  invalidation and the load-ready notices to the front ends. The memory system's \<^verbatim>\<open>access\<close>,
  the core cycles and the cores' \<^verbatim>\<open>get_appl_id\<close> are arguments. The unordered set
  \<^verbatim>\<open>m_fault_buffer\<close> is a list without duplicates, its order one of the orders in which the
  set may be traversed.
\<close>

section \<open>State\<close>

type_synonym WalkInfo = "Addr \<times> int"

record mmu_knobs =
  KNOB_PAGE_SIZE :: nat
  KNOB_MEMORY_SIZE :: nat
  KNOB_NO_PAGE_SWAP :: bool
  KNOB_TLB_NUM_ENTRY :: nat
  KNOB_PAGE_TABLE_WALK_LATENCY :: Counter
  KNOB_PAGE_FAULT_LATENCY :: Counter
  KNOB_PAGE_EVICTION_LATENCY :: Counter
  KNOB_BATCH_PROCESSING_OVERHEAD :: Counter
  KNOB_FAULT_BUFFER_SIZE :: nat
  KNOB_FOOL_PAGE_TABLE :: bool
  KNOB_FETCH_ONLY_LOAD_READY :: bool

record mmu =
  mm_cycle :: Counter
  mm_nonswap :: bool
  mm_frame_to_allocate :: Addr
  mm_frame_dimm :: Addr
  mm_page_table :: "int \<Rightarrow> Addr \<rightharpoonup> Addr"
  mm_page_size :: nat
  mm_memory_size :: nat
  mm_offset_bits :: nat
  mm_free_frames_remaining :: int
  mm_free_frames :: "bool list"
  mm_TLB :: tlb
  mm_replacement_unit :: "repl_unit option"
  mm_walk_latency :: Counter
  mm_fault_latency :: Counter
  mm_eviction_latency :: Counter
  mm_walk_queue_cycle :: "(Counter \<times> WalkInfo list) list"
  mm_walk_queue_page :: "WalkInfo \<rightharpoonup> addr list"
  mm_retry_queue :: "addr list"
  mm_fault_retry_queue :: "addr list"
  mm_fault_buffer_size :: nat
  mm_fault_buffer :: "WalkInfo list"
  mm_fault_uops :: "WalkInfo \<rightharpoonup> addr list"
  mm_fault_buffer_processing :: "WalkInfo list"
  mm_fault_uops_processing :: "WalkInfo \<rightharpoonup> addr list"
  mm_batch_processing :: bool
  mm_first_transfer_started :: bool
  mm_batch_overhead :: Counter
  mm_batch_start_cycle :: Counter
  mm_transfer_start_cycle :: Counter
  mm_next_event_cycle :: Counter
  mm_uops :: "addr \<Rightarrow> uop"
  mm_fault_parent_uops :: "int \<Rightarrow> int \<rightharpoonup> Counter set"
  mm_mem_invalidated :: "Addr list"
  mm_load_ready :: "(int \<times> Counter) list"

definition LONG_MAX :: int where
  "LONG_MAX = 2 ^ 63 - 1"

text \<open>The constructor sets nothing: \<open>m\<close> holds the indeterminate fields, among them
  \<^verbatim>\<open>m_cycle\<close>, which no operation initialises.\<close>

definition initialize :: "mmu_knobs \<Rightarrow> links \<Rightarrow> links \<Rightarrow> mmu \<Rightarrow> mmu" where
  "initialize k junk_ru junk_tlb m =
     (let bits = calc_log2 (of_nat (KNOB_PAGE_SIZE k));
          frames = KNOB_MEMORY_SIZE k div 2 ^ bits;
          m1 = m\<lparr>mm_page_size := KNOB_PAGE_SIZE k, mm_offset_bits := bits,
                 mm_memory_size := KNOB_MEMORY_SIZE k, mm_nonswap := KNOB_NO_PAGE_SWAP k\<rparr>;
          m2 = (if \<not> KNOB_NO_PAGE_SWAP k
                then m1\<lparr>mm_free_frames_remaining := int frames, mm_free_frames := replicate frames True,
                        mm_frame_to_allocate := 0,
                        mm_replacement_unit := Some (ReplacementUnit junk_ru frames)\<rparr>
                else m1\<lparr>mm_frame_to_allocate := 0, mm_frame_dimm := 0, mm_free_frames_remaining := LONG_MAX,
                        mm_free_frames := [], mm_replacement_unit := None\<rparr>)
      in m2\<lparr>mm_TLB := TLB junk_tlb (KNOB_TLB_NUM_ENTRY k) (KNOB_PAGE_SIZE k),
            mm_walk_latency := KNOB_PAGE_TABLE_WALK_LATENCY k,
            mm_fault_latency := KNOB_PAGE_FAULT_LATENCY k,
            mm_eviction_latency := KNOB_PAGE_EVICTION_LATENCY k,
            mm_batch_processing := False, mm_batch_start_cycle := 0, mm_transfer_start_cycle := 0,
            mm_batch_overhead := KNOB_BATCH_PROCESSING_OVERHEAD k,
            mm_fault_buffer_size := KNOB_FAULT_BUFFER_SIZE k,
            mm_page_table := (\<lambda>_ _. None), mm_walk_queue_cycle := [], mm_walk_queue_page := (\<lambda>_. None),
            mm_retry_queue := [], mm_fault_retry_queue := [], mm_fault_buffer := [],
            mm_fault_uops := (\<lambda>_. None), mm_fault_buffer_processing := [],
            mm_fault_uops_processing := (\<lambda>_. None)\<rparr>)"

section \<open>Translation\<close>

definition mmu_page_number :: "mmu \<Rightarrow> Addr \<Rightarrow> Addr" where
  "mmu_page_number m a = drop_bit (mm_offset_bits m) a"

definition mmu_page_offset :: "mmu \<Rightarrow> Addr \<Rightarrow> Addr" where
  "mmu_page_offset m a = a AND (of_nat (mm_page_size m) - 1)"

definition upd_uop :: "addr \<Rightarrow> (uop \<Rightarrow> uop) \<Rightarrow> mmu \<Rightarrow> mmu" where
  "upd_uop u f m = m\<lparr>mm_uops := (mm_uops m)(u := f (mm_uops m u))\<rparr>"

definition get_pid :: "mmu_knobs \<Rightarrow> (int \<Rightarrow> int \<Rightarrow> int) \<Rightarrow> uop \<Rightarrow> int res" where
  "get_pid k get_appl_id u =
     (if KNOB_FOOL_PAGE_TABLE k then Inr (- 1)
      else let pid = get_appl_id (u_core_id u) (u_thread_id u) in check (pid \<ge> 0) AssertFailed (Inr pid))"

text \<open>\<^verbatim>\<open>emplace\<close> of an empty list followed by \<^verbatim>\<open>[]\<close> and \<^verbatim>\<open>emplace_back\<close> on
  the ordered map of the walk queue.\<close>

fun walk_enqueue :: "Counter \<Rightarrow> WalkInfo \<Rightarrow> (Counter \<times> WalkInfo list) list \<Rightarrow> (Counter \<times> WalkInfo list) list" where
  "walk_enqueue rc w [] = [(rc, [w])]"
| "walk_enqueue rc w ((c, ws) # q) =
     (if rc = c then (c, ws @ [w]) # q
      else if rc < c then (rc, [w]) # (c, ws) # q
      else (c, ws) # walk_enqueue rc w q)"

definition translate :: "mmu_knobs \<Rightarrow> (int \<Rightarrow> int \<Rightarrow> int) \<Rightarrow> addr \<Rightarrow> mmu \<Rightarrow> (bool \<times> mmu) res" where
  "translate k get_appl_id u m =
     (let cur = mm_uops m u
      in if u_translated cur then Inr (True, m)
      else res_bind (get_pid k get_appl_id cur) (\<lambda>pid.
        let a = u_vaddr cur;
            page_number = mmu_page_number m a;
            page_offset = mmu_page_offset m a;
            m1 = upd_uop u (\<lambda>c. c\<lparr>u_state := OS_TRANS_BEGIN\<rparr>) m
        in if tlb_lookup a pid (mm_TLB m1)
           then res_bind (tlb_translate a pid (mm_TLB m1)) (\<lambda>(frame_number, t).
                Inr (True, upd_uop u (\<lambda>c. c\<lparr>u_paddr := push_bit (mm_offset_bits m) frame_number OR page_offset,
                                            u_state := OS_TRANS_DONE, u_translated := True\<rparr>)
                             (m1\<lparr>mm_TLB := t\<rparr>)))
           else
             let ptw_info = (page_number, pid);
                 m2 = (case mm_walk_queue_page m1 ptw_info of
                         Some us \<Rightarrow> m1\<lparr>mm_walk_queue_page := (mm_walk_queue_page m1)(ptw_info \<mapsto> us @ [u])\<rparr>
                       | None \<Rightarrow>
                           m1\<lparr>mm_walk_queue_cycle :=
                                walk_enqueue (mm_cycle m1 + mm_walk_latency m1) ptw_info (mm_walk_queue_cycle m1),
                              mm_walk_queue_page := (mm_walk_queue_page m1)(ptw_info \<mapsto> [u])\<rparr>);
                 m3 = upd_uop u (\<lambda>c. c\<lparr>u_state := OS_TRANS_WALK_QUEUE\<rparr>) m2
             in Inr (False,
                  case u_parent_uop cur of
                    None \<Rightarrow> m3
                  | Some p \<Rightarrow> upd_uop p (\<lambda>c. c\<lparr>u_num_page_table_walks := u_num_page_table_walks c + 1\<rparr>) m3)))"

section \<open>Page table walks\<close>

definition fault_parents :: "mmu \<Rightarrow> int \<Rightarrow> int \<Rightarrow> Counter set" where
  "fault_parents m core tid = (case mm_fault_parent_uops m core tid of None \<Rightarrow> {} | Some s \<Rightarrow> s)"

definition set_fault_parents :: "int \<Rightarrow> int \<Rightarrow> Counter set option \<Rightarrow> mmu \<Rightarrow> mmu" where
  "set_fault_parents core tid s m =
     m\<lparr>mm_fault_parent_uops := (mm_fault_parent_uops m)(core := (mm_fault_parent_uops m core)(tid := s))\<rparr>"

definition walk_hit :: "addr \<Rightarrow> int \<Rightarrow> Addr \<Rightarrow> mmu \<Rightarrow> mmu res" where
  "walk_hit u pid frame_number m =
     (let cur = mm_uops m u;
          a = u_vaddr cur;
          m1 = upd_uop u (\<lambda>c. c\<lparr>u_paddr := push_bit (mm_offset_bits m) frame_number OR mmu_page_offset m a,
                                u_state := OS_TRANS_RETRY_QUEUE, u_translated := True\<rparr>) m;
          m2 = (case u_parent_uop cur of
                  None \<Rightarrow> m1
                | Some p \<Rightarrow>
                    if u_num_page_table_walks (mm_uops m1 p) \<noteq> 0
                    then upd_uop p (\<lambda>c. c\<lparr>u_num_page_table_walks := u_num_page_table_walks c - 1\<rparr>) m1
                    else m1)
      in res_bind (if \<not> tlb_lookup a pid (mm_TLB m2) then tlb_insert a frame_number pid (mm_TLB m2)
                   else Inr (mm_TLB m2)) (\<lambda>t1.
         res_bind (tlb_update a pid t1) (\<lambda>t2.
         res_bind (if \<not> mm_nonswap m2
                   then case mm_replacement_unit m2 of
                          None \<Rightarrow> Inl NullPointer
                        | Some r \<Rightarrow> res_bind (ru_update (mmu_page_number m a) (- 1) r) (\<lambda>r'. Inr (Some r'))
                   else Inr (mm_replacement_unit m2)) (\<lambda>ru.
         Inr (m2\<lparr>mm_TLB := t2, mm_replacement_unit := ru, mm_retry_queue := mm_retry_queue m2 @ [u]\<rparr>)))))"

definition walk_fault :: "addr \<Rightarrow> int \<Rightarrow> mmu \<Rightarrow> mmu" where
  "walk_fault u pid m =
     (let cur = mm_uops m u;
          new_fault = (mmu_page_number m (u_vaddr cur), pid);
          core = u_core_id cur;
          tid = u_thread_id cur;
          m1 = (case u_parent_uop cur of
                  None \<Rightarrow> m
                | Some p \<Rightarrow> set_fault_parents core tid (Some (fault_parents m core tid)) m);
          full = (case u_parent_uop cur of
                    None \<Rightarrow> False
                  | Some p \<Rightarrow> u_uop_num (mm_uops m p) \<notin> fault_parents m core tid \<and>
                      new_fault \<notin> set (mm_fault_buffer m) \<and> length (mm_fault_buffer m) \<ge> mm_fault_buffer_size m)
      in if full
         then (upd_uop u (\<lambda>c. c\<lparr>u_state := OS_TRANS_FAULT_RETRY_QUEUE\<rparr>) m1)
                \<lparr>mm_fault_retry_queue := mm_fault_retry_queue m1 @ [u]\<rparr>
         else
           let m2 = m1\<lparr>mm_fault_buffer := (if new_fault \<in> set (mm_fault_buffer m1) then mm_fault_buffer m1
                                          else mm_fault_buffer m1 @ [new_fault]),
                       mm_fault_uops := (mm_fault_uops m1)(new_fault \<mapsto>
                         (case mm_fault_uops m1 new_fault of None \<Rightarrow> [] | Some us \<Rightarrow> us) @ [u])\<rparr>;
               m3 = (case u_parent_uop cur of
                       None \<Rightarrow> m2
                     | Some p \<Rightarrow>
                         let m' = upd_uop p (\<lambda>c. c\<lparr>u_num_page_table_walks := u_num_page_table_walks c - 1\<rparr>) m2
                         in if u_num_page_table_walks (mm_uops m' p) \<noteq> 0
                            then set_fault_parents core tid
                                   (Some (insert (u_uop_num (mm_uops m' p)) (fault_parents m' core tid))) m'
                            else set_fault_parents core tid None m')
           in upd_uop u (\<lambda>c. c\<lparr>u_state := OS_TRANS_FAULT_BUFFER\<rparr>) m3)"

definition do_page_table_walks :: "mmu_knobs \<Rightarrow> (int \<Rightarrow> int \<Rightarrow> int) \<Rightarrow> addr \<Rightarrow> mmu \<Rightarrow> mmu res" where
  "do_page_table_walks k get_appl_id u m =
     res_bind (get_pid k get_appl_id (mm_uops m u)) (\<lambda>pid.
     case mm_page_table m pid (mmu_page_number m (u_vaddr (mm_uops m u))) of
       Some frame_number \<Rightarrow> walk_hit u pid frame_number m
     | None \<Rightarrow> Inr (walk_fault u pid m))"

fun walk_all :: "mmu_knobs \<Rightarrow> (int \<Rightarrow> int \<Rightarrow> int) \<Rightarrow> addr list \<Rightarrow> mmu \<Rightarrow> mmu res" where
  "walk_all k g [] m = Inr m"
| "walk_all k g (u # us) m = res_bind (do_page_table_walks k g u m) (walk_all k g us)"

section \<open>A cycle\<close>

definition set_load_ready :: "mmu_knobs \<Rightarrow> uop \<Rightarrow> mmu \<Rightarrow> mmu" where
  "set_load_ready k c m =
     (if KNOB_FETCH_ONLY_LOAD_READY k
      then m\<lparr>mm_load_ready := mm_load_ready m @ [(u_thread_id c, u_uop_num c)]\<rparr> else m)"

text \<open>A retried uop that hit in the cache: it, or its parent once all children are done, is scheduled.\<close>

definition retry_hit :: "mmu_knobs \<Rightarrow> (int \<Rightarrow> Counter) \<Rightarrow> addr \<Rightarrow> int \<Rightarrow> mmu \<Rightarrow> mmu" where
  "retry_hit k core_cycle u latency m =
     (let cur = mm_uops m u
      in case u_parent_uop cur of
           Some p \<Rightarrow>
             let m1 = upd_uop p (\<lambda>c. c\<lparr>u_num_child_uops_done := u_num_child_uops_done c + 1\<rparr>) m;
                 puop = mm_uops m1 p
             in if u_num_child_uops_done puop = u_num_child_uops puop
                then upd_uop p (\<lambda>c. c\<lparr>u_done_cycle := core_cycle (u_core_id cur) + 1, u_state := OS_SCHEDULED\<rparr>)
                       (set_load_ready k puop m1)
                else m1
         | None \<Rightarrow>
             upd_uop u (\<lambda>c. c\<lparr>u_done_cycle := core_cycle (u_core_id cur) + of_int latency, u_state := OS_SCHEDULED\<rparr>)
               (set_load_ready k cur m))"

text \<open>The retry loop over the queue; \<open>kept\<close> holds the uops whose access was refused. The memory
  access may change the MMU (it translates), but not the retry queue.\<close>

fun retry_loop ::
  "mmu_knobs \<Rightarrow> (int \<Rightarrow> Counter) \<Rightarrow> (addr \<Rightarrow> mmu \<Rightarrow> (int \<times> mmu) res) \<Rightarrow> addr list \<Rightarrow> addr list \<Rightarrow> mmu \<Rightarrow> mmu res" where
  "retry_loop k cc acc [] kept m = Inr (m\<lparr>mm_retry_queue := kept\<rparr>)"
| "retry_loop k cc acc (u # us) kept m =
     res_bind (acc u m) (\<lambda>(latency, m1).
     if latency \<noteq> 0
     then retry_loop k cc acc us kept (if latency > 0 then retry_hit k cc u latency m1 else m1)
     else retry_loop k cc acc us (kept @ [u]) m1)"

fun walk_list :: "mmu_knobs \<Rightarrow> (int \<Rightarrow> int \<Rightarrow> int) \<Rightarrow> WalkInfo list \<Rightarrow> mmu \<Rightarrow> mmu res" where
  "walk_list k g [] m = Inr m"
| "walk_list k g (w # ws) m =
     res_bind (walk_all k g (case mm_walk_queue_page m w of None \<Rightarrow> [] | Some us \<Rightarrow> us) m) (\<lambda>m1.
     walk_list k g ws (m1\<lparr>mm_walk_queue_page := (mm_walk_queue_page m1)(w := None)\<rparr>))"

fun walk_due :: "mmu_knobs \<Rightarrow> (int \<Rightarrow> int \<Rightarrow> int) \<Rightarrow> (Counter \<times> WalkInfo list) list \<Rightarrow> mmu \<Rightarrow> mmu res" where
  "walk_due k g [] m = Inr (m\<lparr>mm_walk_queue_cycle := []\<rparr>)"
| "walk_due k g ((c, ws) # q) m =
     (if mm_cycle m \<ge> c then res_bind (walk_list k g ws m) (walk_due k g q)
      else Inr (m\<lparr>mm_walk_queue_cycle := (c, ws) # q\<rparr>))"

definition run_a_cycle ::
  "mmu_knobs \<Rightarrow> (int \<Rightarrow> int \<Rightarrow> int) \<Rightarrow> (int \<Rightarrow> Counter) \<Rightarrow> (addr \<Rightarrow> mmu \<Rightarrow> (int \<times> mmu) res) \<Rightarrow> bool \<Rightarrow> mmu \<Rightarrow> mmu res" where
  "run_a_cycle k g cc acc pll_lock m =
     (if pll_lock then Inr (m\<lparr>mm_cycle := mm_cycle m + 1\<rparr>)
      else res_bind (retry_loop k cc acc (mm_retry_queue m) [] m) (\<lambda>m1.
        res_bind (if mm_fault_buffer m1 = [] \<and> mm_fault_retry_queue m1 \<noteq> []
                  then walk_all k g (mm_fault_retry_queue m1) (m1\<lparr>mm_fault_retry_queue := []\<rparr>)
                  else Inr m1) (\<lambda>m2.
        res_bind (walk_due k g (mm_walk_queue_cycle m2) m2) (\<lambda>m3.
        Inr (m3\<lparr>mm_cycle := mm_cycle m3 + 1\<rparr>)))))"

section \<open>Batch processing of page faults\<close>

definition begin_batch_processing :: "mmu \<Rightarrow> mmu res" where
  "begin_batch_processing m =
     check (\<not> mm_batch_processing m) AssertFailed
       (Inr (m\<lparr>mm_fault_buffer_processing := sort_key fst (mm_fault_buffer_processing m @ mm_fault_buffer m),
               mm_fault_uops_processing := mm_fault_uops m,
               mm_fault_buffer := [], mm_fault_uops := (\<lambda>_. None),
               mm_batch_processing := True, mm_first_transfer_started := False,
               mm_batch_start_cycle := mm_cycle m,
               mm_transfer_start_cycle := mm_cycle m + mm_batch_overhead m,
               mm_next_event_cycle := - 1\<rparr>))"

text \<open>The eviction that \<^verbatim>\<open>do_batch_processing\<close> contains twice.\<close>

definition evict_page :: "mmu \<Rightarrow> mmu res" where
  "evict_page m =
     (case mm_replacement_unit m of
        None \<Rightarrow> Inl NullPointer
      | Some r \<Rightarrow>
          res_bind (getVictim r) (\<lambda>((victim_page, victim_pid), r').
          case mm_page_table m victim_pid victim_page of
            None \<Rightarrow> Inl AssertFailed
          | Some victim_frame \<Rightarrow>
              res_bind (tlb_invalidate victim_page victim_pid (mm_TLB m)) (\<lambda>t.
              res_bind (arr_set (mm_free_frames m) (unat victim_frame) True) (\<lambda>ff.
              Inr (m\<lparr>mm_replacement_unit := Some r',
                     mm_page_table := (mm_page_table m)(victim_pid := (mm_page_table m victim_pid)(victim_page := None)),
                     mm_TLB := t,
                     mm_mem_invalidated := mm_mem_invalidated m @ [push_bit (mm_offset_bits m) victim_frame],
                     mm_free_frames := ff,
                     mm_free_frames_remaining := mm_free_frames_remaining m + 1,
                     mm_frame_to_allocate := victim_frame\<rparr>)))))"

definition prepare_transfer :: "mmu \<Rightarrow> mmu res" where
  "prepare_transfer m =
     (if mm_free_frames_remaining m > 0
      then Inr (m\<lparr>mm_next_event_cycle := mm_cycle m + mm_fault_latency m\<rparr>)
      else evict_page (m\<lparr>mm_next_event_cycle := mm_cycle m + mm_eviction_latency m + mm_fault_latency m\<rparr>))"

text \<open>The circular search for a free frame. The fuel is the number of frames: the search comes back
  to its start after at most that many steps.\<close>

fun search_frame :: "nat \<Rightarrow> bool list \<Rightarrow> Addr \<Rightarrow> Addr \<Rightarrow> Addr option" where
  "search_frame 0 ff start f = None"
| "search_frame (Suc n) ff start f =
     (let f' = (f + 1) mod of_nat (length ff)
      in if f' \<noteq> start \<and> \<not> ff ! unat f' then search_frame n ff start f' else Some f')"

definition pick_frame :: "mmu \<Rightarrow> mmu res" where
  "pick_frame m =
     (if \<not> mm_nonswap m
      then res_bind (arr_get (mm_free_frames m) (unat (mm_frame_to_allocate m))) (\<lambda>is_free.
           res_bind (if \<not> is_free
                     then case search_frame (length (mm_free_frames m)) (mm_free_frames m)
                                 (mm_frame_to_allocate m) (mm_frame_to_allocate m) of
                            None \<Rightarrow> Inl Diverges
                          | Some f \<Rightarrow> Inr f
                     else Inr (mm_frame_to_allocate m)) (\<lambda>f.
           res_bind (arr_get (mm_free_frames m) (unat f)) (\<lambda>ok.
           check ok AssertFailed (Inr (m\<lparr>mm_frame_to_allocate := f\<rparr>)))))
      else Inr (m\<lparr>mm_frame_to_allocate := mm_frame_dimm m, mm_frame_dimm := mm_frame_dimm m + 1\<rparr>))"

definition requeue :: "addr list \<Rightarrow> mmu \<Rightarrow> mmu" where
  "requeue us m =
     m\<lparr>mm_uops := (\<lambda>a. if a \<in> set us then (mm_uops m a)\<lparr>u_state := OS_TRANS_RETRY_QUEUE\<rparr> else mm_uops m a),
       mm_retry_queue := mm_retry_queue m @ us\<rparr>"

text \<open>The handling of the fault at the front of the batch: map the page, enter it in the replacement
  unit and move the uops that wait for it to the retry queue.\<close>

definition resolve_fault :: "mmu \<Rightarrow> mmu res" where
  "resolve_fault m =
     (case mm_fault_buffer_processing m of
        [] \<Rightarrow> Inl EmptyAccess
      | (page_number, pid) # rest \<Rightarrow>
          let frame_number = mm_frame_to_allocate m;
              m1 = m\<lparr>mm_fault_buffer_processing := rest,
                     mm_page_table := (mm_page_table m)(pid := (mm_page_table m pid)
                       (page_number \<mapsto> (case mm_page_table m pid page_number of
                                          None \<Rightarrow> frame_number | Some f \<Rightarrow> f)))\<rparr>
          in res_bind
               (if \<not> mm_nonswap m1
                then case mm_replacement_unit m1 of
                       None \<Rightarrow> Inl NullPointer
                     | Some r \<Rightarrow>
                         res_bind (ru_insert page_number (- 1) r) (\<lambda>r'.
                         res_bind (arr_set (mm_free_frames m1) (unat frame_number) False) (\<lambda>ff.
                         Inr (m1\<lparr>mm_replacement_unit := Some r', mm_free_frames := ff,
                                 mm_free_frames_remaining := mm_free_frames_remaining m1 - 1\<rparr>)))
                else Inr m1) (\<lambda>m2.
             case mm_fault_uops_processing m2 (page_number, pid) of
               None \<Rightarrow> Inl AssertFailed
             | Some us \<Rightarrow>
                 let m3 = (requeue us m2)\<lparr>mm_fault_uops_processing :=
                             (mm_fault_uops_processing m2)((page_number, pid) := None)\<rparr>
                 in Inr (case mm_fault_uops m3 (page_number, pid) of
                           None \<Rightarrow> m3
                         | Some vs \<Rightarrow>
                             (requeue vs m3)\<lparr>mm_fault_uops := (mm_fault_uops m3)((page_number, pid) := None),
                               mm_fault_buffer := removeAll (page_number, pid) (mm_fault_buffer m3)\<rparr>)))"

definition do_batch_processing :: "mmu \<Rightarrow> (bool \<times> mmu) res" where
  "do_batch_processing m =
     (if mm_cycle m < mm_transfer_start_cycle m then Inr (False, m)
      else if \<not> mm_first_transfer_started m
           then res_bind (prepare_transfer m) (\<lambda>m1. Inr (False, m1\<lparr>mm_first_transfer_started := True\<rparr>))
      else if mm_cycle m < mm_next_event_cycle m then Inr (False, m)
      else check (mm_free_frames_remaining m > 0) AssertFailed
        (res_bind (pick_frame m) (\<lambda>m1.
         res_bind (resolve_fault m1) (\<lambda>m2.
         if mm_fault_buffer_processing m2 \<noteq> []
         then res_bind (prepare_transfer m2) (\<lambda>m3. Inr (False, m3))
         else Inr (True, m2\<lparr>mm_batch_processing := False, mm_first_transfer_started := False,
                            mm_batch_start_cycle := - 1, mm_transfer_start_cycle := - 1,
                            mm_next_event_cycle := - 1\<rparr>)))))"

definition handle_page_faults :: "mmu \<Rightarrow> mmu res" where
  "handle_page_faults m =
     res_bind (if mm_batch_processing m then do_batch_processing m else Inr (True, m)) (\<lambda>(ended, m1).
     if \<not> ended then Inr m1
     else if mm_fault_buffer m1 = [] then Inr m1
     else begin_batch_processing m1)"

section \<open>The TLB never disagrees with the page table\<close>

definition tlb_sound :: "tlb \<Rightarrow> nat \<Rightarrow> (int \<Rightarrow> Addr \<rightharpoonup> Addr) \<Rightarrow> bool" where
  "tlb_sound t bits pt \<longleftrightarrow> (\<exists>n al. tlb_rel n bits t al \<and> 0 < n \<and>
     (\<forall>p pid f. ((p, pid), f) \<in> set al \<longrightarrow> pt pid p = Some f))"

lemma tlb_sound_mono:
  assumes "tlb_sound t bits pt" "\<And>pid p f. pt pid p = Some f \<Longrightarrow> pt' pid p = Some f"
  shows "tlb_sound t bits pt'"
  using assms unfolding tlb_sound_def by blast

lemma tlb_sound_translate:
  assumes s: "tlb_sound t bits pt" and l: "tlb_lookup a pid t"
  obtains f t' where "tlb_translate a pid t = Inr (f, t')" "tlb_update a pid t = Inr t'"
    "pt pid (drop_bit bits a) = Some f" "tlb_sound t' bits pt"
proof -
  from s obtain n al where r: "tlb_rel n bits t al" "0 < n"
    "\<forall>p pid f. ((p, pid), f) \<in> set al \<longrightarrow> pt pid p = Some f" unfolding tlb_sound_def by blast
  from l tlb_lookup_rel[OF r(1), of a pid] obtain f where f: "((drop_bit bits a, pid), f) \<in> set al" by auto
  obtain t' where t': "tlb_translate a pid t = Inr (f, t')" "tlb_update a pid t = Inr t'"
    "tlb_rel n bits t' (((drop_bit bits a, pid), f) # AList.delete (drop_bit bits a, pid) al)"
    using r(1) f by (rule tlb_translate_rel)
  have sub: "set (((drop_bit bits a, pid), f) # AList.delete (drop_bit bits a, pid) al) \<subseteq> set al"
    using f by (auto simp add: AList.delete_eq)
  have "tlb_sound t' bits pt" unfolding tlb_sound_def using t'(3) r(2,3) sub by blast
  with t'(1,2) f r(3) show ?thesis by (intro that) auto
qed

lemma tlb_sound_insert:
  assumes s: "tlb_sound t bits pt" and l: "\<not> tlb_lookup a pid t" and f: "pt pid (drop_bit bits a) = Some f"
  obtains t' where "tlb_insert a f pid t = Inr t'" "tlb_sound t' bits pt" "tlb_lookup a pid t'"
proof -
  from s obtain n al where r: "tlb_rel n bits t al" "0 < n"
    "\<forall>p pid f. ((p, pid), f) \<in> set al \<longrightarrow> pt pid p = Some f" unfolding tlb_sound_def by blast
  from l tlb_lookup_rel[OF r(1), of a pid] have "(drop_bit bits a, pid) \<notin> fst ` set al" by simp
  with r(1) obtain t' where t': "tlb_insert a f pid t = Inr t'"
    "tlb_rel n bits t' (take n (((drop_bit bits a, pid), f) # al))" using r(2) by (rule tlb_insert_rel)
  have sub: "set (take n (((drop_bit bits a, pid), f) # al)) \<subseteq> insert ((drop_bit bits a, pid), f) (set al)"
    using set_take_subset[of n "((drop_bit bits a, pid), f) # al"] by simp
  have "tlb_sound t' bits pt" unfolding tlb_sound_def using t'(2) r(2,3) sub f by blast
  moreover have "tlb_lookup a pid t'" using tlb_lookup_rel[OF t'(2), of a pid] r(2) by (simp add: take_Cons')
  ultimately show ?thesis using t'(1) that by blast
qed

lemma tlb_sound_invalidate:
  assumes s: "tlb_sound t bits pt"
  obtains t' where "tlb_invalidate p pid t = Inr t'" "tlb_sound t' bits (pt(pid := (pt pid)(p := None)))"
proof -
  from s obtain n al where r: "tlb_rel n bits t al" "0 < n"
    "\<forall>p pid f. ((p, pid), f) \<in> set al \<longrightarrow> pt pid p = Some f" unfolding tlb_sound_def by blast
  obtain t' where t': "tlb_invalidate p pid t = Inr t'" "tlb_rel n bits t' (AList.delete (p, pid) al)"
    using r(1) by (rule tlb_invalidate_rel)
  have "tlb_sound t' bits (pt(pid := (pt pid)(p := None)))"
    unfolding tlb_sound_def using t'(2) r(2,3) by (intro exI[of _ n] exI[of _ "AList.delete (p, pid) al"]) (auto simp add: AList.delete_eq)
  with t'(1) show ?thesis by (rule that)
qed

section \<open>Frames\<close>

definition free_count :: "bool list \<Rightarrow> int" where
  "free_count ff = int (length (filter id ff))"

lemma free_count_Cons: "free_count (x # xs) = (if x then 1 else 0) + free_count xs"
  by (simp add: free_count_def)

lemma free_count_update:
  "i < length ff \<Longrightarrow> free_count (ff[i := b]) = free_count ff + (if b then 1 else 0) - (if ff ! i then 1 else 0)"
proof (induction ff arbitrary: i)
  case Nil
  then show ?case by simp
next
  case (Cons x xs)
  show ?case
  proof (cases i)
    case 0
    then show ?thesis by (simp add: free_count_Cons)
  next
    case (Suc j)
    with Cons.IH[of j] Cons.prems show ?thesis by (simp add: free_count_Cons)
  qed
qed

lemma free_count_pos: "0 < free_count ff \<Longrightarrow> \<exists>j < length ff. ff ! j"
  by (auto simp add: free_count_def filter_empty_conv in_set_conv_nth)

definition frames_inv :: "mmu \<Rightarrow> bool" where
  "frames_inv m \<longleftrightarrow>
     (\<forall>pid p f. mm_page_table m pid p = Some f \<longrightarrow>
        unat f < length (mm_free_frames m) \<and> \<not> mm_free_frames m ! unat f) \<and>
     (\<forall>pid p pid' p' f. mm_page_table m pid p = Some f \<longrightarrow> mm_page_table m pid' p' = Some f \<longrightarrow> pid = pid' \<and> p = p') \<and>
     free_count (mm_free_frames m) = mm_free_frames_remaining m"

lemma frames_invD:
  assumes "frames_inv m"
  shows "mm_page_table m pid p = Some f \<Longrightarrow> unat f < length (mm_free_frames m)"
    "mm_page_table m pid p = Some f \<Longrightarrow> \<not> mm_free_frames m ! unat f"
    "mm_page_table m pid p = Some f \<Longrightarrow> mm_page_table m pid' p' = Some f \<Longrightarrow> pid = pid' \<and> p = p'"
    "free_count (mm_free_frames m) = mm_free_frames_remaining m"
  using assms unfolding frames_inv_def by blast+

text \<open>The pids that the replacement unit and the page table see.\<close>

definition pid_inv :: "bool \<Rightarrow> mmu \<Rightarrow> bool" where
  "pid_inv fool m \<longleftrightarrow>
     (\<forall>r. mm_replacement_unit m = Some r \<longrightarrow> (\<forall>x. r_pid r x = - 1)) \<and>
     (\<not> fool \<longrightarrow> (\<forall>p. mm_page_table m (- 1) p = None) \<and>
        (\<forall>w \<in> set (mm_fault_buffer m) \<union> set (mm_fault_buffer_processing m). snd w \<ge> 0))"

definition mmu_inv :: "mmu_knobs \<Rightarrow> mmu \<Rightarrow> bool" where
  "mmu_inv k m \<longleftrightarrow> \<not> mm_nonswap m \<and> frames_inv m \<and>
     tlb_sound (mm_TLB m) (mm_offset_bits m) (mm_page_table m) \<and> pid_inv (KNOB_FOOL_PAGE_TABLE k) m"

text \<open>The invariant depends only on these fields.\<close>

definition mmu_core :: "mmu \<Rightarrow> _" where
  "mmu_core m = (mm_nonswap m, mm_page_table m, mm_free_frames m, mm_free_frames_remaining m,
     mm_offset_bits m, mm_page_size m)"

lemma mmu_inv_cong:
  assumes "mmu_inv k m" "mmu_core m' = mmu_core m" "tlb_sound (mm_TLB m') (mm_offset_bits m) (mm_page_table m)"
    "mm_replacement_unit m' = mm_replacement_unit m \<or>
      (\<forall>r. mm_replacement_unit m' = Some r \<longrightarrow> (\<forall>x. r_pid r x = - 1))"
    "\<not> KNOB_FOOL_PAGE_TABLE k \<Longrightarrow>
      \<forall>w \<in> set (mm_fault_buffer m') \<union> set (mm_fault_buffer_processing m'). snd w \<ge> 0"
  shows "mmu_inv k m'"
  using assms unfolding mmu_inv_def mmu_core_def frames_inv_def pid_inv_def by auto

lemma mmu_invD:
  assumes "mmu_inv k m"
  shows "\<not> mm_nonswap m" "frames_inv m" "tlb_sound (mm_TLB m) (mm_offset_bits m) (mm_page_table m)"
    "pid_inv (KNOB_FOOL_PAGE_TABLE k) m"
    "\<not> KNOB_FOOL_PAGE_TABLE k \<Longrightarrow> w \<in> set (mm_fault_buffer m) \<union> set (mm_fault_buffer_processing m) \<Longrightarrow> snd w \<ge> 0"
    "mm_replacement_unit m = Some r \<Longrightarrow> r_pid r x = - 1"
  using assms unfolding mmu_inv_def pid_inv_def by blast+

lemma upd_uop_simps [simp]:
  "mmu_core (upd_uop u f m) = mmu_core m" "mm_TLB (upd_uop u f m) = mm_TLB m"
  "mm_replacement_unit (upd_uop u f m) = mm_replacement_unit m" "mm_fault_buffer (upd_uop u f m) = mm_fault_buffer m"
  "mm_fault_buffer_processing (upd_uop u f m) = mm_fault_buffer_processing m"
  "mm_page_table (upd_uop u f m) = mm_page_table m" "mm_offset_bits (upd_uop u f m) = mm_offset_bits m"
  "mm_cycle (upd_uop u f m) = mm_cycle m" "mm_walk_latency (upd_uop u f m) = mm_walk_latency m"
  "mm_walk_queue_page (upd_uop u f m) = mm_walk_queue_page m" "mm_nonswap (upd_uop u f m) = mm_nonswap m"
  "mm_walk_queue_cycle (upd_uop u f m) = mm_walk_queue_cycle m"
  "mm_retry_queue (upd_uop u f m) = mm_retry_queue m"
  "mm_fault_buffer_size (upd_uop u f m) = mm_fault_buffer_size m"
  by (simp_all add: upd_uop_def mmu_core_def)

lemma mmu_inv_upd_uop [simp]: "mmu_inv k (upd_uop u f m) = mmu_inv k m"
  by (simp add: mmu_inv_def frames_inv_def pid_inv_def upd_uop_def)

lemma get_pid_nonneg: "get_pid k g u = Inr pid \<Longrightarrow> \<not> KNOB_FOOL_PAGE_TABLE k \<Longrightarrow> pid \<ge> 0"
  by (simp add: get_pid_def Let_def res_simps)

section \<open>Every operation keeps the invariant\<close>

lemma translate_inv:
  assumes inv: "mmu_inv k m" and ok: "translate k g u m = Inr (hit, m')"
  shows "mmu_inv k m'"
    and "hit \<Longrightarrow> \<not> u_translated (mm_uops m u) \<Longrightarrow>
      \<exists>pid f. get_pid k g (mm_uops m u) = Inr pid \<and>
        mm_page_table m pid (drop_bit (mm_offset_bits m) (u_vaddr (mm_uops m u))) = Some f \<and>
        u_paddr (mm_uops m' u) = push_bit (mm_offset_bits m) f OR mmu_page_offset m (u_vaddr (mm_uops m u)) \<and>
        u_translated (mm_uops m' u)"
proof -
  let ?cur = "mm_uops m u" and ?a = "u_vaddr (mm_uops m u)"
  have "mmu_inv k m' \<and> (hit \<longrightarrow> \<not> u_translated ?cur \<longrightarrow>
      (\<exists>pid f. get_pid k g ?cur = Inr pid \<and> mm_page_table m pid (drop_bit (mm_offset_bits m) ?a) = Some f \<and>
        u_paddr (mm_uops m' u) = push_bit (mm_offset_bits m) f OR mmu_page_offset m ?a \<and>
        u_translated (mm_uops m' u)))"
  proof (cases "u_translated ?cur")
    case True
    with inv ok show ?thesis by (simp add: translate_def)
  next
    case False
    with ok obtain pid where pid: "get_pid k g ?cur = Inr pid"
      by (auto simp add: translate_def Let_def res_bind_eq_Inr)
    show ?thesis
    proof (cases "tlb_lookup ?a pid (mm_TLB m)")
      case True
      obtain f t' where T: "tlb_translate ?a pid (mm_TLB m) = Inr (f, t')"
        "mm_page_table m pid (drop_bit (mm_offset_bits m) ?a) = Some f" "tlb_sound t' (mm_offset_bits m) (mm_page_table m)"
        using tlb_sound_translate[OF mmu_invD(3)[OF inv] True] by metis
      let ?m1 = "upd_uop u (\<lambda>c. c\<lparr>u_state := OS_TRANS_BEGIN\<rparr>) m"
      have m': "m' = upd_uop u (\<lambda>c. c\<lparr>u_paddr := push_bit (mm_offset_bits m) f OR mmu_page_offset m ?a,
            u_state := OS_TRANS_DONE, u_translated := True\<rparr>) (?m1\<lparr>mm_TLB := t'\<rparr>)"
        using ok \<open>\<not> u_translated ?cur\<close> pid True T(1) by (simp add: translate_def Let_def)
      have "mmu_inv k (?m1\<lparr>mm_TLB := t'\<rparr>)"
        using inv T(3) mmu_invD(5)[OF inv] by (intro mmu_inv_cong[OF inv]) (auto simp add: mmu_core_def upd_uop_def)
      then show ?thesis using T(2) pid by (simp add: m') (simp add: upd_uop_def)
    next
      case False
      have "mmu_core m' = mmu_core m \<and> mm_TLB m' = mm_TLB m \<and> mm_replacement_unit m' = mm_replacement_unit m \<and>
          mm_fault_buffer m' = mm_fault_buffer m \<and> mm_fault_buffer_processing m' = mm_fault_buffer_processing m \<and> \<not> hit"
        using ok \<open>\<not> u_translated ?cur\<close> pid False
        by (auto simp add: translate_def Let_def mmu_core_def upd_uop_def split: option.splits)
      with mmu_invD(3,5)[OF inv] show ?thesis by (intro conjI mmu_inv_cong[OF inv]) auto
    qed
  qed
  then show "mmu_inv k m'"
    and "hit \<Longrightarrow> \<not> u_translated ?cur \<Longrightarrow>
      \<exists>pid f. get_pid k g ?cur = Inr pid \<and> mm_page_table m pid (drop_bit (mm_offset_bits m) ?a) = Some f \<and>
        u_paddr (mm_uops m' u) = push_bit (mm_offset_bits m) f OR mmu_page_offset m ?a \<and> u_translated (mm_uops m' u)"
    by blast+
qed

lemma ru_update_pid: "ru_update p pid r = Inr r' \<Longrightarrow> r_pid r' = r_pid r"
  by (auto simp add: ru_update_def res_simps split: option.splits)

lemma walk_hit_inv:
  assumes inv: "mmu_inv k m" and ok: "walk_hit u pid f m = Inr m'"
    and f: "mm_page_table m pid (drop_bit (mm_offset_bits m) (u_vaddr (mm_uops m u))) = Some f"
  shows "mmu_inv k m'"
proof -
  let ?a = "u_vaddr (mm_uops m u)"
  obtain t1 t2 m2 r r' where W: "mmu_core m2 = mmu_core m" "mm_TLB m2 = mm_TLB m"
    "mm_replacement_unit m2 = mm_replacement_unit m" "mm_fault_buffer m2 = mm_fault_buffer m"
    "mm_fault_buffer_processing m2 = mm_fault_buffer_processing m"
    "(if \<not> tlb_lookup ?a pid (mm_TLB m) then tlb_insert ?a f pid (mm_TLB m) else Inr (mm_TLB m)) = Inr t1"
    "tlb_update ?a pid t1 = Inr t2" "mm_replacement_unit m = Some r"
    "ru_update (mmu_page_number m ?a) (- 1) r = Inr r'"
    "m' = m2\<lparr>mm_TLB := t2, mm_replacement_unit := Some r', mm_retry_queue := mm_retry_queue m2 @ [u]\<rparr>"
  proof -
    define m1 where "m1 = upd_uop u (\<lambda>c. c\<lparr>u_paddr := push_bit (mm_offset_bits m) f OR mmu_page_offset m ?a,
                                u_state := OS_TRANS_RETRY_QUEUE, u_translated := True\<rparr>) m"
    define m2 where "m2 = (case u_parent_uop (mm_uops m u) of None \<Rightarrow> m1
                | Some p \<Rightarrow> if u_num_page_table_walks (mm_uops m1 p) \<noteq> 0
                    then upd_uop p (\<lambda>c. c\<lparr>u_num_page_table_walks := u_num_page_table_walks c - 1\<rparr>) m1 else m1)"
    have e: "mmu_core m2 = mmu_core m" "mm_TLB m2 = mm_TLB m" "mm_replacement_unit m2 = mm_replacement_unit m"
      "mm_fault_buffer m2 = mm_fault_buffer m" "mm_fault_buffer_processing m2 = mm_fault_buffer_processing m"
      "mm_nonswap m2 = mm_nonswap m"
      by (simp_all add: m2_def m1_def split: option.split)
    from ok mmu_invD(1)[OF inv] show ?thesis
      unfolding walk_hit_def Let_def m1_def[symmetric] m2_def[symmetric] e
      by (auto simp add: res_bind_eq_Inr split: option.splits intro!: that[OF e(1-5)])
  qed
  have snd: "tlb_sound (mm_TLB m) (mm_offset_bits m) (mm_page_table m)" by (rule mmu_invD(3)[OF inv])
  have t1: "tlb_sound t1 (mm_offset_bits m) (mm_page_table m)" "tlb_lookup ?a pid t1"
  proof -
    show "tlb_sound t1 (mm_offset_bits m) (mm_page_table m)" "tlb_lookup ?a pid t1"
      using W(6) tlb_sound_insert[OF snd _ f] snd by (cases "tlb_lookup ?a pid (mm_TLB m)"; force)+
  qed
  obtain t' where "tlb_update ?a pid t1 = Inr t'" "tlb_sound t' (mm_offset_bits m) (mm_page_table m)"
    using tlb_sound_translate[OF t1] by metis
  then have "tlb_sound t2 (mm_offset_bits m) (mm_page_table m)" using W(7) by simp
  moreover have "\<forall>x. r_pid r' x = - 1" using ru_update_pid[OF W(9)] mmu_invD(6)[OF inv W(8)] by simp
  ultimately show ?thesis
    using W(1,4,5) mmu_invD(5)[OF inv] unfolding W(10) by (intro mmu_inv_cong[OF inv]) (auto simp add: mmu_core_def)
qed

lemma walk_fault_core:
  "mmu_core (walk_fault u pid m) = mmu_core m \<and> mm_TLB (walk_fault u pid m) = mm_TLB m \<and>
   mm_replacement_unit (walk_fault u pid m) = mm_replacement_unit m \<and>
   mm_fault_buffer_processing (walk_fault u pid m) = mm_fault_buffer_processing m \<and>
   set (mm_fault_buffer (walk_fault u pid m)) \<subseteq>
     insert (mmu_page_number m (u_vaddr (mm_uops m u)), pid) (set (mm_fault_buffer m))"
  by (auto simp add: walk_fault_def Let_def mmu_core_def upd_uop_def set_fault_parents_def split: option.splits if_splits)

lemma do_page_table_walks_inv:
  assumes inv: "mmu_inv k m" and ok: "do_page_table_walks k g u m = Inr m'"
  shows "mmu_inv k m'"
proof -
  from ok obtain pid where pid: "get_pid k g (mm_uops m u) = Inr pid"
    by (auto simp add: do_page_table_walks_def res_bind_eq_Inr)
  show ?thesis
  proof (cases "mm_page_table m pid (mmu_page_number m (u_vaddr (mm_uops m u)))")
    case None
    with ok pid have m': "m' = walk_fault u pid m" by (simp add: do_page_table_walks_def)
    note F = walk_fault_core[of u pid m, folded m']
    show ?thesis
      using F mmu_invD(3)[OF inv] mmu_invD(5)[OF inv] get_pid_nonneg[OF pid]
      by (intro mmu_inv_cong[OF inv]) force+
  next
    case (Some f)
    with ok pid have "walk_hit u pid f m = Inr m'" by (simp add: do_page_table_walks_def)
    from walk_hit_inv[OF inv this] Some show ?thesis by (simp add: mmu_page_number_def)
  qed
qed

lemma walk_all_inv: "mmu_inv k m \<Longrightarrow> walk_all k g us m = Inr m' \<Longrightarrow> mmu_inv k m'"
  by (induction us arbitrary: m) (auto simp add: res_bind_eq_Inr dest: do_page_table_walks_inv)

text \<open>The queues and the clock are not part of the invariant.\<close>

lemma mmu_inv_queues [simp]:
  "mmu_inv k (m\<lparr>mm_walk_queue_page := wp\<rparr>) = mmu_inv k m"
  "mmu_inv k (m\<lparr>mm_walk_queue_cycle := wc\<rparr>) = mmu_inv k m"
  "mmu_inv k (m\<lparr>mm_retry_queue := rq\<rparr>) = mmu_inv k m"
  "mmu_inv k (m\<lparr>mm_fault_retry_queue := fq\<rparr>) = mmu_inv k m"
  "mmu_inv k (m\<lparr>mm_cycle := c\<rparr>) = mmu_inv k m"
  "mmu_inv k (m\<lparr>mm_load_ready := lr\<rparr>) = mmu_inv k m"
  "mmu_inv k (m\<lparr>mm_first_transfer_started := ft\<rparr>) = mmu_inv k m"
  "mmu_inv k (m\<lparr>mm_next_event_cycle := ne\<rparr>) = mmu_inv k m"
  "mmu_inv k (m\<lparr>mm_frame_to_allocate := fa\<rparr>) = mmu_inv k m"
  "mmu_inv k (m\<lparr>mm_batch_processing := b\<rparr>) = mmu_inv k m"
  "mmu_inv k (m\<lparr>mm_batch_start_cycle := bs\<rparr>) = mmu_inv k m"
  "mmu_inv k (m\<lparr>mm_transfer_start_cycle := ts\<rparr>) = mmu_inv k m"
  by (simp_all add: mmu_inv_def frames_inv_def pid_inv_def)

lemma walk_list_inv: "mmu_inv k m \<Longrightarrow> walk_list k g ws m = Inr m' \<Longrightarrow> mmu_inv k m'"
proof (induction ws arbitrary: m)
  case Nil
  then show ?case by simp
next
  case (Cons w ws)
  from Cons.prems(2) obtain m1 where m1: "walk_all k g (case mm_walk_queue_page m w of None \<Rightarrow> [] | Some us \<Rightarrow> us) m = Inr m1"
    "walk_list k g ws (m1\<lparr>mm_walk_queue_page := (mm_walk_queue_page m1)(w := None)\<rparr>) = Inr m'"
    by (auto simp add: res_bind_eq_Inr)
  from walk_all_inv[OF Cons.prems(1) m1(1)] show ?case by (intro Cons.IH[OF _ m1(2)]) simp
qed

lemma walk_due_inv: "mmu_inv k m \<Longrightarrow> walk_due k g q m = Inr m' \<Longrightarrow> mmu_inv k m'"
proof (induction q arbitrary: m)
  case Nil
  then show ?case by auto
next
  case (Cons cw q)
  obtain c ws where cw: "cw = (c, ws)" by fastforce
  show ?case
  proof (cases "mm_cycle m \<ge> c")
    case True
    with Cons.prems(2) cw obtain m1 where "walk_list k g ws m = Inr m1" "walk_due k g q m1 = Inr m'"
      by (auto simp add: res_bind_eq_Inr)
    with walk_list_inv[OF Cons.prems(1)] Cons.IH show ?thesis by blast
  next
    case False
    with Cons.prems cw show ?thesis by auto
  qed
qed

lemma retry_hit_inv [simp]: "mmu_inv k' (retry_hit k cc u l m) = mmu_inv k' m"
  by (simp add: retry_hit_def set_load_ready_def Let_def split: option.split)

lemma retry_loop_inv:
  assumes acc: "\<And>u m l m'. acc u m = Inr (l, m') \<Longrightarrow> mmu_inv k m \<Longrightarrow> mmu_inv k m'"
  shows "mmu_inv k m \<Longrightarrow> retry_loop k cc acc us kept m = Inr m' \<Longrightarrow> mmu_inv k m'"
proof (induction us arbitrary: kept m)
  case Nil
  then show ?case by auto
next
  case (Cons u us)
  from Cons.prems(2) obtain l m1 where a: "acc u m = Inr (l, m1)"
    and rest: "(if l \<noteq> 0 then retry_loop k cc acc us kept (if l > 0 then retry_hit k cc u l m1 else m1)
      else retry_loop k cc acc us (kept @ [u]) m1) = Inr m'"
    by (auto simp add: res_bind_eq_Inr)
  from acc[OF a Cons.prems(1)] have "mmu_inv k m1" .
  with rest Cons.IH[of m1] Cons.IH[of "retry_hit k cc u l m1"] show ?case by (auto split: if_splits)
qed

lemma run_a_cycle_inv:
  assumes acc: "\<And>u m l m'. acc u m = Inr (l, m') \<Longrightarrow> mmu_inv k m \<Longrightarrow> mmu_inv k m'"
    and inv: "mmu_inv k m" and ok: "run_a_cycle k g cc acc pll m = Inr m'"
  shows "mmu_inv k m'"
proof (cases pll)
  case True
  with ok inv show ?thesis by (auto simp add: run_a_cycle_def)
next
  case False
  with ok obtain m1 m2 m3 where S: "retry_loop k cc acc (mm_retry_queue m) [] m = Inr m1"
    "(if mm_fault_buffer m1 = [] \<and> mm_fault_retry_queue m1 \<noteq> []
      then walk_all k g (mm_fault_retry_queue m1) (m1\<lparr>mm_fault_retry_queue := []\<rparr>) else Inr m1) = Inr m2"
    "walk_due k g (mm_walk_queue_cycle m2) m2 = Inr m3" "m' = m3\<lparr>mm_cycle := mm_cycle m3 + 1\<rparr>"
    by (auto simp add: run_a_cycle_def res_bind_eq_Inr)
  have "mmu_inv k m1" using retry_loop_inv[OF acc inv S(1)] .
  with S(2) have "mmu_inv k m2" by (auto split: if_splits dest: walk_all_inv[rotated])
  from walk_due_inv[OF this S(3)] show ?thesis by (simp add: S(4))
qed

lemma getVictim_pid: "getVictim r = Inr (v, r') \<Longrightarrow> (\<And>x. r_pid r x = - 1) \<Longrightarrow> snd v = - 1 \<and> (\<forall>x. r_pid r' x = - 1)"
  by (auto simp add: getVictim_def res_simps Let_def split: option.splits)

lemma ru_insert_pid: "ru_insert p (- 1) r = Inr r' \<Longrightarrow> (\<And>x. r_pid r x = - 1) \<Longrightarrow> r_pid r' x = - 1"
  by (auto simp add: ru_insert_def ru_fill_node_def res_simps Let_def split: option.splits if_splits)

lemma evict_page_inv:
  assumes inv: "mmu_inv k m" and ok: "evict_page m = Inr m'"
  shows "mmu_inv k m'"
proof -
  from ok obtain r vp vpid r' f t ff where E: "mm_replacement_unit m = Some r" "getVictim r = Inr ((vp, vpid), r')"
    "mm_page_table m vpid vp = Some f" "tlb_invalidate vp vpid (mm_TLB m) = Inr t"
    "arr_set (mm_free_frames m) (unat f) True = Inr ff"
    and m': "m' = m\<lparr>mm_replacement_unit := Some r',
       mm_page_table := (mm_page_table m)(vpid := (mm_page_table m vpid)(vp := None)), mm_TLB := t,
       mm_mem_invalidated := mm_mem_invalidated m @ [push_bit (mm_offset_bits m) f], mm_free_frames := ff,
       mm_free_frames_remaining := mm_free_frames_remaining m + 1, mm_frame_to_allocate := f\<rparr>"
    by (auto simp add: evict_page_def res_bind_eq_Inr split: option.splits)
  note F = frames_invD[OF mmu_invD(2)[OF inv]]
  have ff: "ff = (mm_free_frames m)[unat f := True]" using E(5) by (simp add: arr_set_eq_Inr)
  have pt: "mm_page_table m' pid p = Some g \<longleftrightarrow> mm_page_table m pid p = Some g \<and> (pid, p) \<noteq> (vpid, vp)" for pid p g
    by (auto simp add: m')
  have other: "g \<noteq> f" if "mm_page_table m pid p = Some g" "(pid, p) \<noteq> (vpid, vp)" for pid p g
    using F(3)[OF that(1), of vpid vp] E(3) that(2) by auto
  have len: "length (mm_free_frames m') = length (mm_free_frames m)" by (simp add: m' ff)
  have free: "mm_free_frames m' ! unat g = mm_free_frames m ! unat g" if "g \<noteq> f" for g
  proof -
    have "unat g \<noteq> unat f" using that by (metis unsigned_word_eqI)
    then show ?thesis by (simp add: m' ff)
  qed
  have "frames_inv m'" unfolding frames_inv_def
  proof (intro conjI allI impI)
    fix pid p g
    assume "mm_page_table m' pid p = Some g"
    then have g: "mm_page_table m pid p = Some g" "(pid, p) \<noteq> (vpid, vp)" unfolding pt by blast+
    show "unat g < length (mm_free_frames m')" using F(1)[OF g(1)] len by simp
    show "\<not> mm_free_frames m' ! unat g" using F(2)[OF g(1)] free[OF other[OF g]] by simp
  next
    fix pid p pid' p' g
    assume "mm_page_table m' pid p = Some g" "mm_page_table m' pid' p' = Some g"
    then have "mm_page_table m pid p = Some g" "mm_page_table m pid' p' = Some g" unfolding pt by blast+
    from F(3)[OF this] show "pid = pid'" "p = p'" by simp_all
  next
    show "free_count (mm_free_frames m') = mm_free_frames_remaining m'"
      using F(4) free_count_update[OF F(1)[OF E(3)], of True] F(2)[OF E(3)] by (simp add: m' ff)
  qed
  moreover have "tlb_sound t (mm_offset_bits m) (mm_page_table m')"
    using tlb_sound_invalidate[OF mmu_invD(3)[OF inv], of vp vpid] E(4) by (auto simp add: m')
  moreover have "\<forall>x. r_pid r' x = - 1" using getVictim_pid[OF E(2)] mmu_invD(6)[OF inv E(1)] by blast
  ultimately show ?thesis
    using mmu_invD(1,4)[OF inv] unfolding mmu_inv_def pid_inv_def by (auto simp add: m')
qed

lemma prepare_transfer_inv:
  assumes "mmu_inv k m" "prepare_transfer m = Inr m'"
  shows "mmu_inv k m'"
  using assms evict_page_inv[of k "m\<lparr>mm_next_event_cycle := mm_cycle m + mm_eviction_latency m + mm_fault_latency m\<rparr>" m']
  by (auto simp add: prepare_transfer_def split: if_splits)

lemma pick_frame_ok:
  assumes inv: "mmu_inv k m" and ok: "pick_frame m = Inr m'"
  shows "\<exists>f. m' = m\<lparr>mm_frame_to_allocate := f\<rparr> \<and> unat f < length (mm_free_frames m) \<and> mm_free_frames m ! unat f"
  using ok mmu_invD(1)[OF inv]
  by (intro exI[of _ "mm_frame_to_allocate m'"])
    (auto simp add: pick_frame_def res_simps arr_get_eq_Inr split: if_splits option.splits)

lemma requeue_simps [simp]:
  "mmu_inv k (requeue us m) = mmu_inv k m"
  "mm_page_table (requeue us m) = mm_page_table m" "mm_free_frames (requeue us m) = mm_free_frames m"
  "mm_free_frames_remaining (requeue us m) = mm_free_frames_remaining m" "mm_TLB (requeue us m) = mm_TLB m"
  "mm_offset_bits (requeue us m) = mm_offset_bits m" "mm_fault_buffer (requeue us m) = mm_fault_buffer m"
  "mm_fault_buffer_processing (requeue us m) = mm_fault_buffer_processing m"
  "mm_nonswap (requeue us m) = mm_nonswap m" "mm_replacement_unit (requeue us m) = mm_replacement_unit m"
  "mm_fault_uops (requeue us m) = mm_fault_uops m"
  "mm_retry_queue (requeue us m) = mm_retry_queue m @ us"
  by (simp_all add: requeue_def mmu_inv_def frames_inv_def pid_inv_def)

lemma resolve_fault_inv:
  assumes inv: "mmu_inv k m" and ok: "resolve_fault m = Inr m'"
    and fr: "unat (mm_frame_to_allocate m) < length (mm_free_frames m)"
      "mm_free_frames m ! unat (mm_frame_to_allocate m)"
  shows "mmu_inv k m'"
proof -
  let ?f = "mm_frame_to_allocate m"
  from ok obtain p pid rest where q: "mm_fault_buffer_processing m = (p, pid) # rest"
    by (auto simp add: resolve_fault_def split: list.splits)
  define pt where "pt = (mm_page_table m)(pid := (mm_page_table m pid)
      (p \<mapsto> (case mm_page_table m pid p of None \<Rightarrow> ?f | Some f \<Rightarrow> f)))"
  note go = ok[unfolded resolve_fault_def q] mmu_invD(1)[OF inv] fr(1)
  from go obtain r where R1: "mm_replacement_unit m = Some r" by (cases "mm_replacement_unit m") auto
  with go obtain r' where R2: "ru_insert p (- 1) r = Inr r'" by (cases "ru_insert p (- 1) r") auto
  with R1 go obtain us where "mm_fault_uops_processing m (p, pid) = Some us"
    by (cases "mm_fault_uops_processing m (p, pid)") auto
  note R = R1 R2 this
  define m2 where "m2 = m\<lparr>mm_fault_buffer_processing := rest, mm_page_table := pt, mm_replacement_unit := Some r',
     mm_free_frames := (mm_free_frames m)[unat ?f := False],
     mm_free_frames_remaining := mm_free_frames_remaining m - 1\<rparr>"
  note F = frames_invD[OF mmu_invD(2)[OF inv]]
  have pt_old: "pt pd q = Some g" if "mm_page_table m pd q = Some g" for pd q g using that by (auto simp add: pt_def)
  have pt_cases: "mm_page_table m pd q = Some g \<or> (g = ?f \<and> pd = pid \<and> q = p \<and> mm_page_table m pid p = None)"
    if "pt pd q = Some g" for pd q g using that by (auto simp add: pt_def split: if_splits option.splits)
  have notfree: "g \<noteq> ?f" if "mm_page_table m pd q = Some g" for pd q g using F(2)[OF that] fr(2) by auto
  have free: "mm_free_frames m2 ! unat g = (if g = ?f then False else mm_free_frames m ! unat g)" for g
  proof (cases "g = ?f")
    case True
    then show ?thesis using fr(1) by (simp add: m2_def)
  next
    case False
    then have "unat g \<noteq> unat ?f" by (metis unsigned_word_eqI)
    with False show ?thesis by (simp add: m2_def)
  qed
  have "frames_inv m2" unfolding frames_inv_def
  proof (intro conjI allI impI)
    fix pd q g
    assume "mm_page_table m2 pd q = Some g"
    then have "pt pd q = Some g" by (simp add: m2_def)
    from pt_cases[OF this] show "unat g < length (mm_free_frames m2)" "\<not> mm_free_frames m2 ! unat g"
      using F(1,2)[of pd q g] fr(1) by (auto simp add: free) (auto simp add: m2_def)
  next
    fix pd q pd' q' g
    assume "mm_page_table m2 pd q = Some g" "mm_page_table m2 pd' q' = Some g"
    then have a: "pt pd q = Some g" "pt pd' q' = Some g" by (simp_all add: m2_def)
    show "pd = pd'" "q = q'" using pt_cases[OF a(1)] pt_cases[OF a(2)] notfree F(3)[of pd q g pd' q'] by metis+
  next
    show "free_count (mm_free_frames m2) = mm_free_frames_remaining m2"
      using F(4) free_count_update[OF fr(1), of False] fr(2) by (simp add: m2_def)
  qed
  moreover have "tlb_sound (mm_TLB m) (mm_offset_bits m) pt"
    using mmu_invD(3)[OF inv] pt_old by (rule tlb_sound_mono)
  moreover have "\<forall>x. r_pid r' x = - 1" using ru_insert_pid[OF R(2)] mmu_invD(6)[OF inv R(1)] by blast
  moreover have "pid \<ge> 0" if "\<not> KNOB_FOOL_PAGE_TABLE k" using mmu_invD(5)[OF inv that, of "(p, pid)"] q by simp
  ultimately have inv2: "mmu_inv k m2"
    using mmu_invD(1,4)[OF inv] unfolding mmu_inv_def pid_inv_def by (auto simp add: m2_def q pt_def)
  have m': "m' = (let m3 = (requeue us m2)\<lparr>mm_fault_uops_processing := (mm_fault_uops_processing m2)((p, pid) := None)\<rparr>
      in case mm_fault_uops m3 (p, pid) of None \<Rightarrow> m3
         | Some vs \<Rightarrow> (requeue vs m3)\<lparr>mm_fault_uops := (mm_fault_uops m3)((p, pid) := None),
             mm_fault_buffer := removeAll (p, pid) (mm_fault_buffer m3)\<rparr>)"
    using ok q R fr(1) mmu_invD(1)[OF inv] by (simp add: resolve_fault_def Let_def m2_def pt_def)
  show ?thesis
    using inv2 unfolding m' Let_def
    by (auto simp add: mmu_inv_def frames_inv_def pid_inv_def split: option.split)
qed

lemma do_batch_processing_inv:
  assumes inv: "mmu_inv k m" and ok: "do_batch_processing m = Inr (e, m')"
  shows "mmu_inv k m'"
proof -
  consider "m' = m" | m1 where "prepare_transfer m = Inr m1" "m' = m1\<lparr>mm_first_transfer_started := True\<rparr>"
    | m1 m2 where "pick_frame m = Inr m1" "resolve_fault m1 = Inr m2"
      "(if mm_fault_buffer_processing m2 \<noteq> [] then res_bind (prepare_transfer m2) (\<lambda>m3. Inr (False, m3))
        else Inr (True, m2\<lparr>mm_batch_processing := False, mm_first_transfer_started := False,
               mm_batch_start_cycle := - 1, mm_transfer_start_cycle := - 1, mm_next_event_cycle := - 1\<rparr>)) = Inr (e, m')"
    using ok by (auto simp add: do_batch_processing_def res_bind_eq_Inr check_eq_Inr split: if_splits)
  then show ?thesis
  proof cases
    case 1
    with inv show ?thesis by simp
  next
    case 2
    with prepare_transfer_inv[OF inv 2(1)] show ?thesis by simp
  next
    case 3
    from pick_frame_ok[OF inv 3(1)] obtain f where f: "m1 = m\<lparr>mm_frame_to_allocate := f\<rparr>"
      "unat f < length (mm_free_frames m)" "mm_free_frames m ! unat f" by blast
    have "mmu_inv k m2" using inv f by (intro resolve_fault_inv[OF _ 3(2)]) simp_all
    with 3(3) show ?thesis by (auto simp add: res_bind_eq_Inr split: if_splits dest: prepare_transfer_inv[rotated])
  qed
qed

lemma begin_batch_processing_inv:
  assumes inv: "mmu_inv k m" and ok: "begin_batch_processing m = Inr m'"
  shows "mmu_inv k m'"
  using inv ok by (auto simp add: begin_batch_processing_def check_eq_Inr mmu_inv_def frames_inv_def pid_inv_def)

lemma handle_page_faults_inv:
  assumes inv: "mmu_inv k m" and ok: "handle_page_faults m = Inr m'"
  shows "mmu_inv k m'"
proof -
  from ok obtain e m1 where S: "(if mm_batch_processing m then do_batch_processing m else Inr (True, m)) = Inr (e, m1)"
    "(if \<not> e then Inr m1 else if mm_fault_buffer m1 = [] then Inr m1 else begin_batch_processing m1) = Inr m'"
    by (auto simp add: handle_page_faults_def res_bind_eq_Inr split: if_splits)
  have "mmu_inv k m1" using S(1) inv by (auto split: if_splits dest: do_batch_processing_inv[rotated])
  with S(2) show ?thesis by (auto split: if_splits dest: begin_batch_processing_inv[rotated])
qed

section \<open>Reachable states\<close>

text \<open>
  The states of the MMU under any interleaving of its operations with changes of the uops by the rest
  of the simulator. The memory system's \<^verbatim>\<open>access\<close> reaches the MMU only through
  \<^verbatim>\<open>translate\<close> (\<^verbatim>\<open>dcu_c::access\<close> in \<^verbatim>\<open>src/src/memory.cc\<close>).
\<close>

inductive mmu_reachable ::
  "mmu_knobs \<Rightarrow> (int \<Rightarrow> int \<Rightarrow> int) \<Rightarrow> (addr \<Rightarrow> mmu \<Rightarrow> (int \<times> mmu) res) \<Rightarrow> mmu \<Rightarrow> bool"
  for k g acc where
  reach_init: "mmu_reachable k g acc (initialize k j1 j2 m)"
| reach_uops: "mmu_reachable k g acc m \<Longrightarrow> mmu_reachable k g acc (m\<lparr>mm_uops := us\<rparr>)"
| reach_translate: "mmu_reachable k g acc m \<Longrightarrow> translate k g u m = Inr (hit, m') \<Longrightarrow> mmu_reachable k g acc m'"
| reach_cycle: "mmu_reachable k g acc m \<Longrightarrow> run_a_cycle k g cc acc pll m = Inr m' \<Longrightarrow> mmu_reachable k g acc m'"
| reach_faults: "mmu_reachable k g acc m \<Longrightarrow> handle_page_faults m = Inr m' \<Longrightarrow> mmu_reachable k g acc m'"

definition accesses_by_translate ::
  "mmu_knobs \<Rightarrow> (int \<Rightarrow> int \<Rightarrow> int) \<Rightarrow> (addr \<Rightarrow> mmu \<Rightarrow> (int \<times> mmu) res) \<Rightarrow> bool" where
  "accesses_by_translate k g acc \<longleftrightarrow> (\<forall>u m l m'. acc u m = Inr (l, m') \<longrightarrow>
     (\<exists>m1 us. (m1 = m \<or> (\<exists>hit. translate k g u m = Inr (hit, m1))) \<and> m' = m1\<lparr>mm_uops := us\<rparr>))"

lemma mmu_inv_uops [simp]: "mmu_inv k (m\<lparr>mm_uops := us\<rparr>) = mmu_inv k m"
  by (simp add: mmu_inv_def frames_inv_def pid_inv_def)

lemma accesses_keep_inv:
  assumes "accesses_by_translate k g acc" "acc u m = Inr (l, m')" "mmu_inv k m"
  shows "mmu_inv k m'"
proof -
  from assms(1)[unfolded accesses_by_translate_def, rule_format, OF assms(2)] obtain m1 us
    where "m1 = m \<or> (\<exists>hit. translate k g u m = Inr (hit, m1))" "m' = m1\<lparr>mm_uops := us\<rparr>" by (elim exE conjE)
  then have "mmu_inv k m1" using assms(3) translate_inv(1)[OF assms(3)] by blast
  with \<open>m' = m1\<lparr>mm_uops := us\<rparr>\<close> show ?thesis by simp
qed

lemma initialize_inv:
  assumes "\<not> KNOB_NO_PAGE_SWAP k" "0 < KNOB_TLB_NUM_ENTRY k"
  shows "mmu_inv k (initialize k j1 j2 m)"
proof -
  let ?m = "initialize k j1 j2 m"
  have "tlb_sound (mm_TLB ?m) (mm_offset_bits ?m) (mm_page_table ?m)"
    unfolding tlb_sound_def
    using tlb_new_rel[of "KNOB_TLB_NUM_ENTRY k" "KNOB_PAGE_SIZE k" j2] assms(2)
    by (intro exI[of _ "KNOB_TLB_NUM_ENTRY k"] exI[of _ "[]"]) (simp add: initialize_def Let_def)
  moreover have "frames_inv ?m" using assms(1) by (simp add: frames_inv_def initialize_def Let_def free_count_def)
  moreover have "pid_inv (KNOB_FOOL_PAGE_TABLE k) ?m" using assms(1)
    by (simp add: pid_inv_def initialize_def Let_def ReplacementUnit_def)
  ultimately show ?thesis using assms(1) by (simp add: mmu_inv_def) (simp add: initialize_def Let_def)
qed

lemma reachable_inv:
  assumes "mmu_reachable k g acc m" "\<not> KNOB_NO_PAGE_SWAP k" "0 < KNOB_TLB_NUM_ENTRY k" "accesses_by_translate k g acc"
  shows "mmu_inv k m"
  using assms(1)
proof induction
  case (reach_init j1 j2 m)
  show ?case using assms(2,3) by (rule initialize_inv)
next
  case (reach_uops m us)
  then show ?case by simp
next
  case (reach_translate m u hit m')
  then show ?case using translate_inv(1) by blast
next
  case (reach_cycle m cc pll m')
  show ?case by (rule run_a_cycle_inv[OF _ reach_cycle.IH reach_cycle.hyps(2)]) (rule accesses_keep_inv[OF assms(4)])
next
  case (reach_faults m m')
  then show ?case using handle_page_faults_inv by blast
qed

section \<open>The search for a free frame\<close>

lemma next_frame:
  assumes "unat f < n" "n < 2 ^ 64"
  shows "unat ((f + 1) mod of_nat n :: Addr) = (unat f + 1) mod n"
proof -
  have "unat (f + 1) = unat f + 1" using assms by (simp add: unat_plus_if_size word_size)
  moreover have "unat (of_nat n :: Addr) = n" using assms(2) by (simp add: unat_of_nat)
  ultimately show ?thesis by (simp add: unat_mod)
qed

lemma search_finds:
  assumes "length ff < 2 ^ 64"
  shows "unat f < length ff \<Longrightarrow> 1 \<le> d \<Longrightarrow> d \<le> fuel \<Longrightarrow> ff ! ((unat f + d) mod length ff) \<Longrightarrow>
    (\<And>e. 1 \<le> e \<Longrightarrow> e < d \<Longrightarrow> \<not> ff ! ((unat f + e) mod length ff) \<and> (unat f + e) mod length ff \<noteq> unat start) \<Longrightarrow>
    \<exists>h. search_frame fuel ff start f = Some h \<and> unat h < length ff \<and> ff ! unat h"
proof (induction d arbitrary: f fuel)
  case 0
  then show ?case by simp
next
  case (Suc d)
  let ?n = "length ff" and ?f = "(f + 1) mod of_nat (length ff) :: Addr"
  have f': "unat ?f = (unat f + 1) mod ?n" using Suc.prems(1) assms by (rule next_frame)
  have lt: "unat ?f < ?n" unfolding f' using Suc.prems(1) by (intro mod_less_divisor) linarith
  obtain m where m: "fuel = Suc m" using Suc.prems(3) by (cases fuel) auto
  show ?case
  proof (cases d)
    case 0
    with Suc.prems(4) f' lt m show ?thesis by (simp add: Let_def)
  next
    case (Suc d')
    have shift: "(unat ?f + e) mod ?n = (unat f + Suc e) mod ?n" for e
      unfolding f' by (metis add.assoc add_Suc_right mod_add_left_eq plus_1_eq_Suc add.commute)
    have "\<exists>h. search_frame m ff start ?f = Some h \<and> unat h < ?n \<and> ff ! unat h"
    proof (rule Suc.IH[OF lt])
      show "1 \<le> d" "d \<le> m" using Suc Suc.prems(3) m by simp_all
      show "ff ! ((unat ?f + d) mod ?n)" unfolding shift using Suc.prems(4) by simp
      show "\<not> ff ! ((unat ?f + e) mod ?n) \<and> (unat ?f + e) mod ?n \<noteq> unat start" if "1 \<le> e" "e < d" for e
        unfolding shift using Suc.prems(5)[of "Suc e"] that by simp
    qed
    moreover have "\<not> ff ! unat ?f \<and> unat ?f \<noteq> unat start"
      using Suc.prems(5)[of 1] Suc f' by simp
    ultimately show ?thesis using m by (auto simp add: Let_def)
  qed
qed

lemma search_total:
  assumes len: "length ff < 2 ^ 64" and s: "unat s < length ff" "\<not> ff ! unat s" and j: "j < length ff" "ff ! j"
  shows "\<exists>h. search_frame (length ff) ff s s = Some h \<and> unat h < length ff \<and> ff ! unat h"
proof -
  let ?n = "length ff"
  let ?P = "\<lambda>d. 1 \<le> d \<and> ff ! ((unat s + d) mod ?n)"
  define d0 where "d0 = (if unat s \<le> j then j - unat s else ?n - unat s + j)"
  have "j \<noteq> unat s" using s(2) j(2) by auto
  then have "1 \<le> d0" "d0 < ?n" "(unat s + d0) mod ?n = j" using s(1) j(1) by (auto simp add: d0_def)
  then have d0: "?P d0" using j(2) by simp
  define d where "d = (LEAST d. ?P d)"
  have P: "?P d" unfolding d_def using d0 by (rule LeastI)
  have le: "d \<le> d0" unfolding d_def using d0 by (rule Least_le)
  have min: "\<not> ?P e" if "e < d" for e using that unfolding d_def by (rule not_less_Least)
  show ?thesis
  proof (rule search_finds[OF len s(1), of d])
    show "1 \<le> d" "d \<le> ?n" "ff ! ((unat s + d) mod ?n)" using P le \<open>d0 < ?n\<close> by simp_all
    fix e
    assume e: "1 \<le> e" "e < d"
    have "(unat s + e) mod ?n \<noteq> unat s"
    proof (cases "unat s + e < ?n")
      case True
      with e show ?thesis by simp
    next
      case False
      then have "(unat s + e) mod ?n = unat s + e - ?n"
        using s(1) e le \<open>d0 < ?n\<close> by (simp add: mod_if)
      with e le \<open>d0 < ?n\<close> False show ?thesis by linarith
    qed
    with min[OF e(2)] e(1) show "\<not> ff ! ((unat s + e) mod ?n) \<and> (unat s + e) mod ?n \<noteq> unat s" by simp
  qed
qed

lemma pick_frame_total:
  assumes inv: "mmu_inv k m" and len: "length (mm_free_frames m) < 2 ^ 64"
    and s: "unat (mm_frame_to_allocate m) < length (mm_free_frames m)" and pos: "mm_free_frames_remaining m > 0"
  obtains f where "pick_frame m = Inr (m\<lparr>mm_frame_to_allocate := f\<rparr>)" "unat f < length (mm_free_frames m)"
    "mm_free_frames m ! unat f"
proof (cases "mm_free_frames m ! unat (mm_frame_to_allocate m)")
  case True
  with s mmu_invD(1)[OF inv] show ?thesis by (intro that[of "mm_frame_to_allocate m"]) (simp_all add: pick_frame_def)
next
  case False
  from free_count_pos[of "mm_free_frames m"] pos frames_invD(4)[OF mmu_invD(2)[OF inv]] obtain j where
    "j < length (mm_free_frames m)" "mm_free_frames m ! j" by auto
  from search_total[OF len s False this] obtain h where "search_frame (length (mm_free_frames m)) (mm_free_frames m)
      (mm_frame_to_allocate m) (mm_frame_to_allocate m) = Some h" "unat h < length (mm_free_frames m)" "mm_free_frames m ! unat h"
    by blast
  with s False mmu_invD(1)[OF inv] show ?thesis by (intro that[of h]) (simp_all add: pick_frame_def)
qed

section \<open>Properties\<close>

text \<open>C10. In every state the MMU can reach with page swapping on, no two pages (of any processes)
  share a frame, every mapped frame exists and is not on the free map, the count of free frames is
  the number of frames marked free, and the TLB agrees with the page table: a translation that
  succeeds gives the uop the physical address of its own page's frame with its page offset.\<close>

theorem mmu_frames_exclusive:
  assumes reach: "mmu_reachable k g acc m" and k: "\<not> KNOB_NO_PAGE_SWAP k" "0 < KNOB_TLB_NUM_ENTRY k"
    and acc: "accesses_by_translate k g acc"
  shows "(\<forall>pid p pid' p' f. mm_page_table m pid p = Some f \<longrightarrow> mm_page_table m pid' p' = Some f \<longrightarrow> pid = pid' \<and> p = p') \<and>
    (\<forall>pid p f. mm_page_table m pid p = Some f \<longrightarrow>
       unat f < length (mm_free_frames m) \<and> \<not> mm_free_frames m ! unat f) \<and>
    free_count (mm_free_frames m) = mm_free_frames_remaining m \<and>
    (translate k g u m = Inr (True, m') \<longrightarrow> \<not> u_translated (mm_uops m u) \<longrightarrow>
       (\<exists>pid f. get_pid k g (mm_uops m u) = Inr pid \<and>
         mm_page_table m pid (drop_bit (mm_offset_bits m) (u_vaddr (mm_uops m u))) = Some f \<and>
         u_paddr (mm_uops m' u) = push_bit (mm_offset_bits m) f OR mmu_page_offset m (u_vaddr (mm_uops m u))))"
proof -
  have inv: "mmu_inv k m" by (rule reachable_inv[OF reach k acc])
  note F = mmu_invD(2)[OF inv, unfolded frames_inv_def]
  have T: "\<exists>pid f. get_pid k g (mm_uops m u) = Inr pid \<and>
         mm_page_table m pid (drop_bit (mm_offset_bits m) (u_vaddr (mm_uops m u))) = Some f \<and>
         u_paddr (mm_uops m' u) = push_bit (mm_offset_bits m) f OR mmu_page_offset m (u_vaddr (mm_uops m u))"
    if "translate k g u m = Inr (True, m')" "\<not> u_translated (mm_uops m u)"
    using translate_inv(2)[OF inv that(1)] that(2) by blast
  show ?thesis using F T by blast
qed

definition demo_mmu_knobs :: mmu_knobs where
  "demo_mmu_knobs = \<lparr>KNOB_PAGE_SIZE = 4096, KNOB_MEMORY_SIZE = 8192, KNOB_NO_PAGE_SWAP = False,
     KNOB_TLB_NUM_ENTRY = 2, KNOB_PAGE_TABLE_WALK_LATENCY = 3, KNOB_PAGE_FAULT_LATENCY = 4,
     KNOB_PAGE_EVICTION_LATENCY = 5, KNOB_BATCH_PROCESSING_OVERHEAD = 2, KNOB_FAULT_BUFFER_SIZE = 8,
     KNOB_FOOL_PAGE_TABLE = False, KNOB_FETCH_ONLY_LOAD_READY = False\<rparr>"

definition demo_links :: links where
  "demo_links = \<lparr>prv = (\<lambda>_. None), nxt = (\<lambda>_. None)\<rparr>"

definition demo_blank_mmu :: mmu where
  "demo_blank_mmu = \<lparr>mm_cycle = 0, mm_nonswap = False, mm_frame_to_allocate = 0, mm_frame_dimm = 0,
     mm_page_table = (\<lambda>_ _. None), mm_page_size = 0, mm_memory_size = 0, mm_offset_bits = 0,
     mm_free_frames_remaining = 0, mm_free_frames = [], mm_TLB = TLB demo_links 0 0,
     mm_replacement_unit = None, mm_walk_latency = 0, mm_fault_latency = 0, mm_eviction_latency = 0,
     mm_walk_queue_cycle = [], mm_walk_queue_page = (\<lambda>_. None), mm_retry_queue = [],
     mm_fault_retry_queue = [], mm_fault_buffer_size = 0, mm_fault_buffer = [], mm_fault_uops = (\<lambda>_. None),
     mm_fault_buffer_processing = [], mm_fault_uops_processing = (\<lambda>_. None), mm_batch_processing = False,
     mm_first_transfer_started = False, mm_batch_overhead = 0, mm_batch_start_cycle = 0,
     mm_transfer_start_cycle = 0, mm_next_event_cycle = 0, mm_uops = (\<lambda>_. zero_uop),
     mm_fault_parent_uops = (\<lambda>_ _. None), mm_mem_invalidated = [], mm_load_ready = []\<rparr>"

theorem mmu_frames_exclusive_witness:
  "free_count (mm_free_frames (initialize demo_mmu_knobs demo_links demo_links demo_blank_mmu)) =
     mm_free_frames_remaining (initialize demo_mmu_knobs demo_links demo_links demo_blank_mmu)"
  by (rule mmu_frames_exclusive[OF reach_init, where g = "\<lambda>_ _. 0" and acc = "\<lambda>u m. Inl AssertFailed",
        THEN conjunct2, THEN conjunct2, THEN conjunct1])
    (simp_all add: demo_mmu_knobs_def accesses_by_translate_def)

text \<open>The uops that wait for a fault: those gathered before its batch began, then those that came
  while the batch was processed.\<close>

definition fault_waiters :: "WalkInfo \<Rightarrow> mmu \<Rightarrow> addr list" where
  "fault_waiters w m =
     (case mm_fault_uops_processing m w of None \<Rightarrow> [] | Some us \<Rightarrow> us) @ (case mm_fault_uops m w of None \<Rightarrow> [] | Some vs \<Rightarrow> vs)"

lemma resolve_fault_new:
  assumes inv: "mmu_inv k m" and q: "mm_fault_buffer_processing m = (p, pid) # rest"
    and us: "mm_fault_uops_processing m (p, pid) \<noteq> None" and new: "mm_page_table m pid p = None"
    and r: "mm_replacement_unit m = Some r" "ru_insert p (- 1) r = Inr r'" and f: "unat f < length (mm_free_frames m)"
  obtains m' where "resolve_fault (m\<lparr>mm_frame_to_allocate := f\<rparr>) = Inr m'" "mm_page_table m' pid p = Some f"
    "mm_free_frames m' = (mm_free_frames m)[unat f := False]" "mm_fault_buffer_processing m' = rest"
    "mm_free_frames_remaining m' = mm_free_frames_remaining m - 1"
    "mm_retry_queue m' = mm_retry_queue m @ fault_waiters (p, pid) m"
    "\<forall>u. mm_uops m' u = (if u \<in> set (fault_waiters (p, pid) m) then (mm_uops m u)\<lparr>u_state := OS_TRANS_RETRY_QUEUE\<rparr> else mm_uops m u)"
    "mm_fault_uops_processing m' (p, pid) = None" "mm_fault_uops m' (p, pid) = None"
    "mm_fault_uops m (p, pid) \<noteq> None \<longrightarrow> (p, pid) \<notin> set (mm_fault_buffer m')"
proof -
  from us obtain us1 where u1: "mm_fault_uops_processing m (p, pid) = Some us1" by blast
  define m2 where "m2 = m\<lparr>mm_frame_to_allocate := f, mm_fault_buffer_processing := rest,
     mm_page_table := (mm_page_table m)(pid := (mm_page_table m pid)(p \<mapsto> f)), mm_replacement_unit := Some r',
     mm_free_frames := (mm_free_frames m)[unat f := False],
     mm_free_frames_remaining := mm_free_frames_remaining m - 1\<rparr>"
  define m3 where "m3 = (requeue us1 m2)\<lparr>mm_fault_uops_processing := (mm_fault_uops_processing m2)((p, pid) := None)\<rparr>"
  define m4 where "m4 = (case mm_fault_uops m3 (p, pid) of None \<Rightarrow> m3
         | Some vs \<Rightarrow> (requeue vs m3)\<lparr>mm_fault_uops := (mm_fault_uops m3)((p, pid) := None),
             mm_fault_buffer := removeAll (p, pid) (mm_fault_buffer m3)\<rparr>)"
  have R: "resolve_fault (m\<lparr>mm_frame_to_allocate := f\<rparr>) = Inr m4"
    using f q u1 new r mmu_invD(1)[OF inv]
    by (cases "mm_fault_uops m (p, pid)") (simp_all add: resolve_fault_def Let_def m4_def m3_def m2_def)
  show ?thesis
    by (rule that[OF R])
      (auto simp add: m4_def m3_def m2_def requeue_def fault_waiters_def u1 split: option.split)
qed

text \<open>C20. Progress of fault handling. When the transfer time of a batch has passed, a frame is free
  (and another one for the next fault of the batch, if there is one, so that no eviction starts) and
  the page at the front of the batch is not resident and was never taken as a victim, one call of
  \<^verbatim>\<open>do_batch_processing\<close> succeeds: the circular search finds a free frame, the page is mapped to a
  frame that was free and is taken, and exactly the uops that waited for the page, those of the batch
  and those that came during the batch, are appended to the retry queue in state
  \<^verbatim>\<open>OS_TRANS_RETRY_QUEUE\<close> and no longer wait; no other uop changes, and the batch ends exactly when
  it was the last fault. Earlier evictions may have happened (\<open>S\<close> is the set of their victims), but if
  the page was itself evicted before, the call fails an assertion: the replacement unit never forgets a
  victim.\<close>

theorem page_fault_resolved:
  assumes inv: "mmu_inv k m" and len: "length (mm_free_frames m) < 2 ^ 64"
    and s: "unat (mm_frame_to_allocate m) < length (mm_free_frames m)"
    and pos: "mm_free_frames_remaining m > (if rest = [] then 0 else 1)"
    and time: "mm_transfer_start_cycle m \<le> mm_cycle m" "mm_first_transfer_started m" "mm_next_event_cycle m \<le> mm_cycle m"
    and q: "mm_fault_buffer_processing m = (p, pid) # rest" and us: "mm_fault_uops_processing m (p, pid) \<noteq> None"
    and ru: "mm_replacement_unit m = Some r" "ru_sim n r ks S" "0 < n" and p: "p \<noteq> - 1"
    and new: "mm_page_table m pid p = None"
  shows "((p, - 1) \<notin> set ks \<union> S \<longrightarrow>
      (\<exists>m' f. do_batch_processing m = Inr (rest = [], m') \<and>
        mm_page_table m' pid p = Some f \<and> mm_free_frames m ! unat f \<and> \<not> mm_free_frames m' ! unat f \<and>
        mm_retry_queue m' = mm_retry_queue m @ fault_waiters (p, pid) m \<and> fault_waiters (p, pid) m' = [] \<and>
        (\<forall>u. mm_uops m' u = (if u \<in> set (fault_waiters (p, pid) m)
           then (mm_uops m u)\<lparr>u_state := OS_TRANS_RETRY_QUEUE\<rparr> else mm_uops m u)) \<and>
        (mm_fault_uops m (p, pid) \<noteq> None \<longrightarrow> (p, pid) \<notin> set (mm_fault_buffer m')))) \<and>
    ((p, - 1) \<in> set ks \<union> S \<longrightarrow> do_batch_processing m = Inl AssertFailed)"
proof (intro conjI impI)
  have "mm_free_frames_remaining m > 0" using pos by (simp split: if_splits)
  with inv len s obtain f where f: "pick_frame m = Inr (m\<lparr>mm_frame_to_allocate := f\<rparr>)"
    "unat f < length (mm_free_frames m)" "mm_free_frames m ! unat f" by (rule pick_frame_total)
  have D: "do_batch_processing m = res_bind (resolve_fault (m\<lparr>mm_frame_to_allocate := f\<rparr>)) (\<lambda>m2.
         if mm_fault_buffer_processing m2 \<noteq> []
         then res_bind (prepare_transfer m2) (\<lambda>m3. Inr (False, m3))
         else Inr (True, m2\<lparr>mm_batch_processing := False, mm_first_transfer_started := False,
                            mm_batch_start_cycle := - 1, mm_transfer_start_cycle := - 1,
                            mm_next_event_cycle := - 1\<rparr>))"
    using time f(1) \<open>mm_free_frames_remaining m > 0\<close> by (simp add: do_batch_processing_def leD)
  show "do_batch_processing m = Inl AssertFailed" if old: "(p, - 1) \<in> set ks \<union> S"
  proof -
    have "ru_insert p (- 1) r = Inl AssertFailed" by (rule ru_insert_known[OF ru(2) old])
    then show ?thesis unfolding D using q ru(1) mmu_invD(1)[OF inv] by (simp add: resolve_fault_def Let_def)
  qed
  assume "(p, - 1) \<notin> set ks \<union> S"
  from ru_insert_sim[OF ru(2) this _ ru(3)] p obtain r' where r': "ru_insert p (- 1) r = Inr r'" by auto
  obtain m4 where R: "resolve_fault (m\<lparr>mm_frame_to_allocate := f\<rparr>) = Inr m4" and P: "mm_page_table m4 pid p = Some f"
    "mm_free_frames m4 = (mm_free_frames m)[unat f := False]" "mm_fault_buffer_processing m4 = rest"
    "mm_free_frames_remaining m4 = mm_free_frames_remaining m - 1"
    "mm_retry_queue m4 = mm_retry_queue m @ fault_waiters (p, pid) m"
    "\<forall>u. mm_uops m4 u = (if u \<in> set (fault_waiters (p, pid) m) then (mm_uops m u)\<lparr>u_state := OS_TRANS_RETRY_QUEUE\<rparr> else mm_uops m u)"
    "mm_fault_uops_processing m4 (p, pid) = None" "mm_fault_uops m4 (p, pid) = None"
    "mm_fault_uops m (p, pid) \<noteq> None \<longrightarrow> (p, pid) \<notin> set (mm_fault_buffer m4)"
    using inv q us new ru(1) r' f(2) by (rule resolve_fault_new)
  let ?m = "if rest = [] then m4\<lparr>mm_batch_processing := False, mm_first_transfer_started := False, mm_batch_start_cycle := - 1,
      mm_transfer_start_cycle := - 1, mm_next_event_cycle := - 1\<rparr>
    else m4\<lparr>mm_next_event_cycle := mm_cycle m4 + mm_fault_latency m4\<rparr>"
  have "do_batch_processing m = Inr (rest = [], ?m)"
    unfolding D using R P(3,4) pos by (simp add: prepare_transfer_def split: if_splits)
  moreover have "fault_waiters (p, pid) ?m = []" using P(7,8) by (simp add: fault_waiters_def)
  ultimately show "\<exists>m' f. do_batch_processing m = Inr (rest = [], m') \<and>
        mm_page_table m' pid p = Some f \<and> mm_free_frames m ! unat f \<and> \<not> mm_free_frames m' ! unat f \<and>
        mm_retry_queue m' = mm_retry_queue m @ fault_waiters (p, pid) m \<and> fault_waiters (p, pid) m' = [] \<and>
        (\<forall>u. mm_uops m' u = (if u \<in> set (fault_waiters (p, pid) m)
           then (mm_uops m u)\<lparr>u_state := OS_TRANS_RETRY_QUEUE\<rparr> else mm_uops m u)) \<and>
        (mm_fault_uops m (p, pid) \<noteq> None \<longrightarrow> (p, pid) \<notin> set (mm_fault_buffer m'))"
    using P f(2,3) by (intro exI[of _ ?m] exI[of _ f]) simp
qed

text \<open>Uop 42 waited when the batch began, uop 43 came during the batch: both are retried.\<close>

theorem page_fault_resolved_witness:
  "\<exists>m m' f. fault_waiters (7, 0) m = [42, 43] \<and> do_batch_processing m = Inr (True, m') \<and>
     mm_page_table m' 0 7 = Some f \<and> mm_retry_queue m' = [42, 43] \<and> fault_waiters (7, 0) m' = []"
proof -
  let ?i = "initialize demo_mmu_knobs demo_links demo_links demo_blank_mmu"
  let ?m = "?i\<lparr>mm_fault_buffer_processing := [(7, 0)], mm_fault_uops_processing := [(7, 0) \<mapsto> [42]],
     mm_fault_uops := [(7, 0) \<mapsto> [43]], mm_fault_buffer := [(7, 0)],
     mm_first_transfer_started := True, mm_free_frames := [True, True, True], mm_free_frames_remaining := 3,
     mm_replacement_unit := Some (ReplacementUnit demo_links 3), mm_next_event_cycle := 0\<rparr>"
  have "mmu_inv demo_mmu_knobs ?i" by (rule initialize_inv) (simp_all add: demo_mmu_knobs_def)
  then have inv: "mmu_inv demo_mmu_knobs ?m"
    by (simp add: mmu_inv_def frames_inv_def pid_inv_def free_count_def) (simp add: initialize_def Let_def demo_mmu_knobs_def ReplacementUnit_def)
  have w: "fault_waiters (7, 0) ?m = [42, 43]" "mm_retry_queue ?m = []"
    by (simp_all add: fault_waiters_def initialize_def Let_def demo_blank_mmu_def)
  have "(7 :: Addr, - 1 :: int) \<notin> set [] \<union> {} \<longrightarrow> (\<exists>m' f. do_batch_processing ?m = Inr (([] :: WalkInfo list) = [], m') \<and>
        mm_page_table m' 0 7 = Some f \<and> mm_free_frames ?m ! unat f \<and> \<not> mm_free_frames m' ! unat f \<and>
        mm_retry_queue m' = mm_retry_queue ?m @ fault_waiters (7, 0) ?m \<and> fault_waiters (7, 0) m' = [] \<and>
        (\<forall>u. mm_uops m' u = (if u \<in> set (fault_waiters (7, 0) ?m)
           then (mm_uops ?m u)\<lparr>u_state := OS_TRANS_RETRY_QUEUE\<rparr> else mm_uops ?m u)) \<and>
        (mm_fault_uops ?m (7, 0) \<noteq> None \<longrightarrow> (7, 0) \<notin> set (mm_fault_buffer m')))"
    by (rule page_fault_resolved[OF inv, where rest = "[]" and n = 3 and ks = "[]" and S = "{}"
      and r = "ReplacementUnit demo_links 3", THEN conjunct1])
      (simp_all add: initialize_def Let_def demo_mmu_knobs_def demo_blank_mmu_def ru_new_sim)
  then obtain m' f where "do_batch_processing ?m = Inr (True, m')" "mm_page_table m' 0 7 = Some f"
      "mm_retry_queue m' = mm_retry_queue ?m @ fault_waiters (7, 0) ?m" "fault_waiters (7, 0) m' = []" by auto
  with w show ?thesis by (intro exI[of _ ?m] exI[of _ m'] exI[of _ f]) simp
qed

text \<open>The replacement unit is always used with the default process id -1, but the page table is
  indexed by the real one: with real process ids (\<^verbatim>\<open>KNOB_FOOL_PAGE_TABLE\<close> off) no reachable
  state can evict a page, since the victim is looked up under process -1, which has no pages, and the
  assertion fails.\<close>

theorem eviction_impossible_with_real_pids:
  assumes reach: "mmu_reachable k g acc m" and k: "\<not> KNOB_NO_PAGE_SWAP k" "0 < KNOB_TLB_NUM_ENTRY k"
    and acc: "accesses_by_translate k g acc" and pids: "\<not> KNOB_FOOL_PAGE_TABLE k"
  shows "(\<forall>m'. evict_page m \<noteq> Inr m') \<and>
    (mm_replacement_unit m = Some r \<and> getVictim r = Inr (v, r') \<longrightarrow> evict_page m = Inl AssertFailed)"
proof -
  have inv: "mmu_inv k m" by (rule reachable_inv[OF reach k acc])
  have none: "mm_page_table m (- 1) p = None" for p using mmu_invD(4)[OF inv] pids unfolding pid_inv_def by blast
  have fail: "evict_page m = Inl AssertFailed"
    if "mm_replacement_unit m = Some r" "getVictim r = Inr (v, r')" for r v r'
  proof -
    have "snd v = - 1" using getVictim_pid[OF that(2)] mmu_invD(6)[OF inv that(1)] by blast
    with that none show ?thesis by (cases v) (simp add: evict_page_def)
  qed
  moreover have "evict_page m \<noteq> Inr m'" for m'
  proof
    assume ok: "evict_page m = Inr m'"
    then obtain r v r' where "mm_replacement_unit m = Some r" "getVictim r = Inr (v, r')"
      by (auto simp add: evict_page_def res_bind_eq_Inr split: option.splits)
    from fail[OF this] ok show False by simp
  qed
  ultimately show ?thesis by blast
qed

theorem eviction_impossible_with_real_pids_witness:
  "\<forall>m'. evict_page (initialize demo_mmu_knobs demo_links demo_links demo_blank_mmu) \<noteq> Inr m'"
  by (rule eviction_impossible_with_real_pids[OF reach_init, where g = "\<lambda>_ _. 0" and acc = "\<lambda>u m. Inl AssertFailed",
        THEN conjunct1])
    (simp_all add: demo_mmu_knobs_def accesses_by_translate_def)

end
