(* ===== verification/Rob.thy ===== *)
theory Rob
  imports Uop
begin

text \<open>
  The reorder buffer \<^verbatim>\<open>rob_c\<close> of \<^verbatim>\<open>src/src/rob.h\<close> and \<^verbatim>\<open>src/src/rob.cc\<close>
  with the fence lists of \<^verbatim>\<open>src/src/fence.h\<close>: a circular array of uop pointers, the fence
  entries that block younger memory operations, and the versions that order loads and stores around
  fences. The uops are in a store that the operations read and, where they set
  \<^verbatim>\<open>m_mem_version\<close>, return updated.
\<close>

section \<open>Fences\<close>

datatype fence_type = NOT_FENCE | FENCE_ACQUIRE | FENCE_RELEASE | FENCE_FULL | FENCE_NUM

record fence_list =
  fl_set :: "nat set"
  fl_list :: "nat list"

definition fl_ins_fence_entry :: "nat \<Rightarrow> fence_list \<Rightarrow> fence_list" where
  "fl_ins_fence_entry entry fl =
     (if entry \<in> fl_set fl then fl
      else fl\<lparr>fl_set := insert entry (fl_set fl), fl_list := fl_list fl @ [entry]\<rparr>)"

definition fl_del_fence_entry :: "fence_list \<Rightarrow> fence_list res" where
  "fl_del_fence_entry fl =
     (case fl_list fl of
        [] \<Rightarrow> Inl EmptyAccess
      | e # es \<Rightarrow> Inr (fl\<lparr>fl_list := es, fl_set := fl_set fl - {e}\<rparr>))"

definition fl_is_list_empty :: "fence_list \<Rightarrow> bool" where
  "fl_is_list_empty fl \<longleftrightarrow> fl_list fl = []"

definition fl_get_front_index :: "fence_list \<Rightarrow> int" where
  "fl_get_front_index fl = (case fl_list fl of [] \<Rightarrow> - 1 | e # _ \<Rightarrow> int e)"

record fence =
  fn_full :: fence_list
  fn_acq :: fence_list
  fn_rel :: fence_list

definition empty_fence_list :: fence_list where
  "empty_fence_list = \<lparr>fl_set = {}, fl_list = []\<rparr>"

definition fence_c :: fence where
  "fence_c = \<lparr>fn_full = empty_fence_list, fn_acq = empty_fence_list, fn_rel = empty_fence_list\<rparr>"

definition fn_get_front_index :: "fence_type \<Rightarrow> fence \<Rightarrow> int res" where
  "fn_get_front_index ft f =
     (case ft of
        FENCE_FULL \<Rightarrow> Inr (fl_get_front_index (fn_full f))
      | FENCE_ACQUIRE \<Rightarrow> Inr (fl_get_front_index (fn_acq f))
      | FENCE_RELEASE \<Rightarrow> Inr (fl_get_front_index (fn_rel f))
      | _ \<Rightarrow> Inl AssertFailed)"

definition fn_is_fence_active :: "fence \<Rightarrow> bool" where
  "fn_is_fence_active f \<longleftrightarrow>
     \<not> fl_is_list_empty (fn_full f) \<or> \<not> fl_is_list_empty (fn_acq f) \<or> \<not> fl_is_list_empty (fn_rel f)"

definition fn_ins_fence_entry :: "nat \<Rightarrow> fence_type \<Rightarrow> fence \<Rightarrow> fence" where
  "fn_ins_fence_entry entry ft f =
     (if ft = FENCE_ACQUIRE then f\<lparr>fn_acq := fl_ins_fence_entry entry (fn_acq f)\<rparr>
      else if ft = FENCE_RELEASE then f\<lparr>fn_rel := fl_ins_fence_entry entry (fn_rel f)\<rparr>
      else f\<lparr>fn_full := fl_ins_fence_entry entry (fn_full f)\<rparr>)"

definition fn_del_fence_entry :: "fence_type \<Rightarrow> fence \<Rightarrow> fence res" where
  "fn_del_fence_entry ft f =
     (if ft = FENCE_ACQUIRE then res_bind (fl_del_fence_entry (fn_acq f)) (\<lambda>l. Inr (f\<lparr>fn_acq := l\<rparr>))
      else if ft = FENCE_RELEASE then res_bind (fl_del_fence_entry (fn_rel f)) (\<lambda>l. Inr (f\<lparr>fn_rel := l\<rparr>))
      else res_bind (fl_del_fence_entry (fn_full f)) (\<lambda>l. Inr (f\<lparr>fn_full := l\<rparr>)))"

definition fn_is_list_empty :: "fence \<Rightarrow> bool" where
  "fn_is_list_empty f \<longleftrightarrow>
     fl_is_list_empty (fn_full f) \<and> fl_is_list_empty (fn_acq f) \<and> fl_is_list_empty (fn_rel f)"

section \<open>The reorder buffer\<close>

record rob_knobs =
  KNOB_FENCE_ENABLE :: bool
  KNOB_USE_WB :: bool
  KNOB_ACQ_REL :: bool

record rob =
  ro_max_cnt :: nat
  ro_usable_cnt :: nat
  ro_free_cnt :: int
  ro_rob :: "ptr list"
  ro_first_entry :: nat
  ro_last_entry :: nat
  ro_fence :: fence
  ro_wb_empty :: bool
  ro_version :: uns16
  ro_reset_uop_num :: Counter
  ro_last_fence_version :: uns16
  ro_orq :: "(Counter \<times> uns16) list"
  ro_root_fences :: "Counter \<rightharpoonup> bool"

text \<open>The constructor does not set \<^verbatim>\<open>m_version\<close>, \<^verbatim>\<open>m_last_fence_version\<close> and
  \<^verbatim>\<open>m_reset_uop_num\<close>: \<open>jv\<close>, \<open>jl\<close> and \<open>jr\<close> are their indeterminate values.\<close>

definition rob_c :: "uns16 \<Rightarrow> uns16 \<Rightarrow> Counter \<Rightarrow> nat \<Rightarrow> rob" where
  "rob_c jv jl jr knob_rob_size =
     \<lparr>ro_max_cnt = knob_rob_size * 2, ro_usable_cnt = knob_rob_size * 2 div 2,
      ro_free_cnt = int (knob_rob_size * 2 div 2), ro_rob = replicate (knob_rob_size * 2) None,
      ro_first_entry = 0, ro_last_entry = 0, ro_fence = fence_c, ro_wb_empty = True,
      ro_version = jv, ro_reset_uop_num = jr, ro_last_fence_version = jl, ro_orq = [],
      ro_root_fences = (\<lambda>_. None)\<rparr>"

definition entries :: "rob \<Rightarrow> int" where
  "entries r = int (ro_usable_cnt r) - ro_free_cnt r"

definition rob_space :: "rob \<Rightarrow> int" where
  "rob_space r = ro_free_cnt r"

definition rob_at :: "nat \<Rightarrow> rob \<Rightarrow> ptr res" where
  "rob_at index r = arr_get (ro_rob r) index"

definition rob_back :: "rob \<Rightarrow> ptr res" where
  "rob_back r = arr_get (ro_rob r) ((ro_last_entry r + ro_max_cnt r - 1) mod ro_max_cnt r)"

definition rob_front :: "rob \<Rightarrow> ptr res" where
  "rob_front r = arr_get (ro_rob r) (ro_first_entry r)"

definition inc_index :: "nat \<Rightarrow> rob \<Rightarrow> nat" where
  "inc_index index r = (index + 1) mod ro_max_cnt r"

definition dec_index :: "nat \<Rightarrow> rob \<Rightarrow> nat" where
  "dec_index index r = (index + ro_max_cnt r - 1) mod ro_max_cnt r"

definition is_fence_type :: "Uop_Type \<Rightarrow> bool" where
  "is_fence_type t \<longleftrightarrow> t = UOP_FULL_FENCE \<or> t = UOP_ACQ_FENCE \<or> t = UOP_REL_FENCE"

definition process_version :: "rob_knobs \<Rightarrow> uop \<Rightarrow> rob \<Rightarrow> uop \<times> rob" where
  "process_version k u r =
     (let u1 = (if u_mem_type u \<noteq> NOT_MEM
                then u\<lparr>u_mem_version := (if u_bar_type u = REL_BAR \<or> u_bar_type u = ACQ_BAR
                                        then ro_last_fence_version r else ro_version r)\<rparr>
                else u);
          r1 = (if is_fence_type (u_uop_type u)
                then r\<lparr>ro_last_fence_version := ro_last_fence_version r + 1\<rparr> else r);
          r2 = (if u_uop_type u = UOP_FULL_FENCE \<or> u_uop_type u = UOP_ACQ_FENCE
                then let r' = (if KNOB_FENCE_ENABLE k
                               then r1\<lparr>ro_orq := ro_orq r1 @ [(u_uop_num u, ro_last_fence_version r1)],
                                       ro_root_fences := (case ro_root_fences r1 (u_uop_num u) of
                                          None \<Rightarrow> (ro_root_fences r1)(u_uop_num u \<mapsto> False)
                                        | Some _ \<Rightarrow> ro_root_fences r1)\<rparr>
                               else r1)
                     in if u_uop_type u = UOP_FULL_FENCE
                        then r'\<lparr>ro_version := ro_last_fence_version r'\<rparr> else r'
                else r1)
      in (u1, r2))"

definition rob_push :: "rob_knobs \<Rightarrow> (addr \<Rightarrow> uop) \<Rightarrow> addr \<Rightarrow> rob \<Rightarrow> ((addr \<Rightarrow> uop) \<times> rob) res" where
  "rob_push k us u r =
     res_bind (arr_set (ro_rob r) (ro_last_entry r) (Some u)) (\<lambda>arr.
     let r1 = r\<lparr>ro_rob := arr, ro_last_entry := (ro_last_entry r + 1) mod ro_max_cnt r,
                ro_free_cnt := ro_free_cnt r - 1\<rparr>;
         (u', r2) = process_version k (us u) r1
     in Inr (us(u := u'), r2))"

definition rob_pop :: "(addr \<Rightarrow> uop) \<Rightarrow> rob \<Rightarrow> rob res" where
  "rob_pop us r =
     res_bind (if entries r = 1 \<and> ro_orq r = []
               then res_bind (rob_back r) (\<lambda>b. case b of
                      None \<Rightarrow> Inl NullPointer
                    | Some u \<Rightarrow> Inr (r\<lparr>ro_version := 0, ro_last_fence_version := 0,
                                      ro_reset_uop_num := u_uop_num (us u)\<rparr>))
               else Inr r) (\<lambda>r1.
     Inr (r1\<lparr>ro_first_entry := (ro_first_entry r1 + 1) mod ro_max_cnt r1,
             ro_free_cnt := ro_free_cnt r1 + 1\<rparr>))"

definition rob_reinit :: "rob \<Rightarrow> rob" where
  "rob_reinit r =
     r\<lparr>ro_rob := replicate (ro_max_cnt r) None, ro_first_entry := 0, ro_last_entry := 0,
       ro_usable_cnt := ro_max_cnt r div 2, ro_free_cnt := int (ro_max_cnt r div 2)\<rparr>"

section \<open>Versions\<close>

fun update_orq_loop ::
  "Counter \<Rightarrow> (Counter \<times> uns16) list \<Rightarrow> (Counter \<rightharpoonup> bool) \<Rightarrow> ((Counter \<times> uns16) list \<times> (Counter \<rightharpoonup> bool)) res" where
  "update_orq_loop lowest_age [] rf = Inr ([], rf)"
| "update_orq_loop lowest_age ((n, v) # q) rf =
     (if lowest_age > n
      then case rf n of
             None \<Rightarrow> Inl AssertFailed
           | Some True \<Rightarrow> update_orq_loop lowest_age q (rf(n := None))
           | Some False \<Rightarrow> Inr ((n, v) # q, rf)
      else Inr ((n, v) # q, rf))"

definition update_orq :: "Counter \<Rightarrow> rob \<Rightarrow> rob res" where
  "update_orq lowest_age r =
     res_bind (update_orq_loop lowest_age (ro_orq r) (ro_root_fences r)) (\<lambda>(q, rf).
     Inr (r\<lparr>ro_orq := q, ro_root_fences := rf\<rparr>))"

definition update_root :: "uop \<Rightarrow> rob \<Rightarrow> rob res" where
  "update_root u r =
     (if u_uop_type u \<noteq> UOP_FULL_FENCE \<and> u_uop_type u \<noteq> UOP_ACQ_FENCE then Inr r
      else check (ro_orq r \<noteq> []) AssertFailed
        (case ro_root_fences r (u_uop_num u) of
           None \<Rightarrow> Inl AssertFailed
         | Some _ \<Rightarrow> Inr (r\<lparr>ro_root_fences := (ro_root_fences r)(u_uop_num u \<mapsto> True)\<rparr>)))"

definition get_orq_version :: "rob \<Rightarrow> uns16" where
  "get_orq_version r = (case ro_orq r of [] \<Rightarrow> 0xFFFF | (_, v) # _ \<Rightarrow> v)"

text \<open>The warning before the check reads the front of the queue, which may be empty.\<close>

definition version_ordering_check :: "uop \<Rightarrow> rob \<Rightarrow> bool res" where
  "version_ordering_check u r =
     check (\<not> (u_mem_version u = 0xFFFF \<and> ro_reset_uop_num r < u_uop_num u \<and> ro_orq r = [])) EmptyAccess
       (Inr (\<not> (case ro_orq r of
                  [] \<Rightarrow> True
                | (_, v) # _ \<Rightarrow> v \<ge> u_mem_version u \<or> ro_reset_uop_num r \<ge> u_uop_num u)))"

definition version_bits_avail :: "rob \<Rightarrow> bool" where
  "version_bits_avail r \<longleftrightarrow> ro_last_fence_version r < 0xFFFF"

section \<open>Fence ordering\<close>

text \<open>The search for an older memory operation. The array index wraps, so the loop meets its end
  entry within as many steps as the array has slots, or never.\<close>

fun pending_loop :: "nat \<Rightarrow> (addr \<Rightarrow> uop) \<Rightarrow> ptr list \<Rightarrow> nat \<Rightarrow> nat \<Rightarrow> nat \<Rightarrow> bool res" where
  "pending_loop 0 us rob mx idx entry = (if idx = entry then Inr False else Inl Diverges)"
| "pending_loop (Suc n) us rob mx idx entry =
     (if idx = entry then Inr False
      else res_bind (arr_get rob idx) (\<lambda>p. case p of
             None \<Rightarrow> Inl NullPointer
           | Some u \<Rightarrow> if u_mem_type (us u) \<noteq> NOT_MEM then Inr True
                       else pending_loop n us rob mx ((idx + 1) mod mx) entry))"

definition pending_mem_ops :: "rob_knobs \<Rightarrow> (addr \<Rightarrow> uop) \<Rightarrow> nat \<Rightarrow> rob \<Rightarrow> bool res" where
  "pending_mem_ops k us entry r =
     res_bind (pending_loop (ro_max_cnt r) us (ro_rob r) (ro_max_cnt r) (ro_first_entry r) entry) (\<lambda>found.
     Inr (if found then True else if KNOB_USE_WB k then \<not> ro_wb_empty r else False))"

definition get_relative_index :: "nat \<Rightarrow> rob \<Rightarrow> nat" where
  "get_relative_index entry r =
     (if ro_first_entry r \<le> entry then entry - ro_first_entry r
      else entry + ro_max_cnt r - ro_first_entry r)"

definition is_later_entry :: "nat \<Rightarrow> nat \<Rightarrow> rob \<Rightarrow> bool" where
  "is_later_entry first_fence_entry entry r \<longleftrightarrow>
     \<not> get_relative_index entry r < get_relative_index first_fence_entry r"

definition ensure_mem_ordering :: "rob_knobs \<Rightarrow> nat \<Rightarrow> rob \<Rightarrow> bool" where
  "ensure_mem_ordering k entry r \<longleftrightarrow>
     (if KNOB_ACQ_REL k then False
      else if fn_is_list_empty (ro_fence r) then False
      else list_ex (\<lambda>f. is_later_entry f entry r)
             (fl_list (fn_acq (ro_fence r)) @ fl_list (fn_rel (ro_fence r)) @ fl_list (fn_full (ro_fence r))))"

definition rob_is_fence_active :: "rob \<Rightarrow> bool" where
  "rob_is_fence_active r = fn_is_fence_active (ro_fence r)"

definition rob_ins_fence_entry :: "nat \<Rightarrow> fence_type \<Rightarrow> rob \<Rightarrow> rob" where
  "rob_ins_fence_entry entry ft r = r\<lparr>ro_fence := fn_ins_fence_entry entry ft (ro_fence r)\<rparr>"

definition rob_del_fence_entry :: "fence_type \<Rightarrow> rob \<Rightarrow> rob res" where
  "rob_del_fence_entry ft r = res_bind (fn_del_fence_entry ft (ro_fence r)) (\<lambda>f. Inr (r\<lparr>ro_fence := f\<rparr>))"

definition set_wb_empty :: "bool \<Rightarrow> rob \<Rightarrow> rob" where
  "set_wb_empty state r = r\<lparr>ro_wb_empty := state\<rparr>"

section \<open>The buffer is a first-in first-out queue\<close>

definition slot :: "rob \<Rightarrow> nat \<Rightarrow> nat" where
  "slot r i = (ro_first_entry r + i) mod ro_max_cnt r"

definition items :: "rob \<Rightarrow> addr list" where
  "items r = map (\<lambda>i. the (ro_rob r ! slot r i)) [0..<nat (entries r)]"

definition rob_wf :: "rob \<Rightarrow> bool" where
  "rob_wf r \<longleftrightarrow> 0 < ro_max_cnt r \<and> length (ro_rob r) = ro_max_cnt r \<and> ro_first_entry r < ro_max_cnt r \<and>
     0 \<le> entries r \<and> entries r \<le> int (ro_max_cnt r) \<and>
     ro_last_entry r = slot r (nat (entries r)) \<and> (\<forall>i < nat (entries r). ro_rob r ! slot r i \<noteq> None)"

lemma rob_wfD:
  assumes "rob_wf r"
  shows "0 < ro_max_cnt r" "length (ro_rob r) = ro_max_cnt r" "ro_first_entry r < ro_max_cnt r"
    "0 \<le> entries r" "entries r \<le> int (ro_max_cnt r)" "ro_last_entry r = slot r (nat (entries r))"
    "i < nat (entries r) \<Longrightarrow> \<exists>u. ro_rob r ! slot r i = Some u"
  using assms unfolding rob_wf_def by auto

lemma slot_less [simp]: "0 < ro_max_cnt r \<Longrightarrow> slot r i < ro_max_cnt r"
  by (simp add: slot_def)

lemma length_items [simp]: "length (items r) = nat (entries r)"
  by (simp add: items_def)

lemma items_nth: "i < nat (entries r) \<Longrightarrow> items r ! i = the (ro_rob r ! slot r i)"
  by (simp add: items_def)

lemma slot_inj:
  assumes "rob_wf r" "i < ro_max_cnt r" "j < ro_max_cnt r"
  shows "slot r i = slot r j \<longleftrightarrow> i = j"
  using mod_offset_inj[OF rob_wfD(3)[OF assms(1)] assms(2,3)] by (auto simp add: slot_def)

text \<open>The parts of the buffer that \<^verbatim>\<open>process_version\<close> leaves alone.\<close>

definition ring :: "rob \<Rightarrow> nat \<times> nat \<times> int \<times> ptr list \<times> nat \<times> nat" where
  "ring r = (ro_max_cnt r, ro_usable_cnt r, ro_free_cnt r, ro_rob r, ro_first_entry r, ro_last_entry r)"

lemma ring_cong:
  assumes "ring r' = ring r"
  shows "rob_wf r' = rob_wf r" "items r' = items r" "entries r' = entries r"
  using assms by (simp_all add: ring_def rob_wf_def items_def slot_def entries_def)

lemma process_version_ring: "ring (snd (process_version k u r)) = ring r"
  by (simp add: process_version_def Let_def ring_def)

lemma rob_new_wf: "0 < n \<Longrightarrow> rob_wf (rob_c jv jl jr n) \<and> items (rob_c jv jl jr n) = []"
  by (simp add: rob_wf_def rob_c_def items_def slot_def entries_def)

lemma rob_push_wf:
  assumes wf: "rob_wf r" and room: "entries r < int (ro_max_cnt r)"
  obtains us' r' where "rob_push k us u r = Inr (us', r')" "rob_wf r'" "items r' = items r @ [u]"
    "ro_max_cnt r' = ro_max_cnt r"
proof -
  note W = rob_wfD[OF wf]
  define n where "n = nat (entries r)"
  have n: "n < ro_max_cnt r" using room W(4) by (simp add: n_def)
  define r1 where "r1 = r\<lparr>ro_rob := (ro_rob r)[slot r n := Some u], ro_last_entry := (slot r n + 1) mod ro_max_cnt r,
      ro_free_cnt := ro_free_cnt r - 1\<rparr>"
  have e1: "nat (entries r1) = Suc n" "entries r1 = entries r + 1" using W(4) by (simp_all add: r1_def entries_def n_def)
  have s1: "slot r1 i = slot r i" for i by (simp add: slot_def r1_def)
  have at: "ro_rob r1 ! slot r i = (if i = n then Some u else ro_rob r ! slot r i)" if "i \<le> n" for i
    using that n slot_inj[OF wf, of i n] W(1,2) by (auto simp add: r1_def nth_list_update)
  have "rob_wf r1" unfolding rob_wf_def e1(2)
  proof (intro conjI allI impI)
    show "ro_last_entry r1 = slot r1 (nat (entries r + 1))"
      using W(4) by (simp add: s1 r1_def slot_def n_def mod_Suc_eq nat_add_distrib)
    show "ro_rob r1 ! slot r1 i \<noteq> None" if "i < nat (entries r + 1)" for i
      using that at[of i] W(7)[of i] W(4) by (auto simp add: s1 n_def split: if_splits)
  qed (use W room in \<open>auto simp add: r1_def\<close>)
  moreover have "items r1 = items r @ [u]"
  proof (rule nth_equalityI)
    fix i
    assume "i < length (items r1)"
    then have i: "i < nat (entries r1)" by simp
    then have "i \<le> n" unfolding e1(1) by simp
    with at[of i] items_nth[OF i] items_nth[of i r] show "items r1 ! i = (items r @ [u]) ! i"
      by (auto simp add: s1 nth_append n_def)
  qed (use e1(1) in \<open>simp add: n_def\<close>)
  moreover have "rob_push k us u r =
      Inr (us(u := fst (process_version k (us u) r1)), snd (process_version k (us u) r1))"
    using W by (simp add: rob_push_def r1_def n_def Let_def case_prod_beta)
  ultimately show ?thesis
    using that process_version_ring[of k "us u" r1, THEN ring_cong(1)]
      process_version_ring[of k "us u" r1, THEN ring_cong(2)] process_version_ring[of k "us u" r1]
    by (auto simp add: ring_def r1_def)
qed

lemma rob_ends:
  assumes wf: "rob_wf r" and ne: "items r \<noteq> []"
  shows "rob_front r = Inr (Some (hd (items r)))" "rob_back r = Inr (Some (last (items r)))"
proof -
  note W = rob_wfD[OF wf]
  define n where "n = nat (entries r)"
  have n: "0 < n" using ne by (simp add: n_def items_def)
  have nm: "n \<le> ro_max_cnt r" using W(5) by (simp add: n_def)
  obtain u where "ro_rob r ! slot r 0 = Some u" using W(7)[of 0] n by (auto simp add: n_def)
  moreover have "hd (items r) = items r ! 0" using ne by (simp add: hd_conv_nth)
  ultimately show "rob_front r = Inr (Some (hd (items r)))"
    using W(2,3) n by (simp add: rob_front_def items_nth n_def slot_def)
  have b: "(ro_last_entry r + ro_max_cnt r - 1) mod ro_max_cnt r = slot r (n - 1)"
  proof -
    have "(slot r n + ro_max_cnt r - 1) mod ro_max_cnt r = (slot r n + (ro_max_cnt r - 1)) mod ro_max_cnt r"
      using W(1) by simp
    also have "\<dots> = (ro_first_entry r + n + (ro_max_cnt r - 1)) mod ro_max_cnt r"
      unfolding slot_def by (rule mod_add_left_eq)
    also have "ro_first_entry r + n + (ro_max_cnt r - 1) = ro_first_entry r + (n - 1) + ro_max_cnt r" using n W(1) by simp
    finally show ?thesis using W(6) by (simp add: slot_def n_def)
  qed
  obtain v where "ro_rob r ! slot r (n - 1) = Some v" using W(7)[of "n - 1"] n by (auto simp add: n_def)
  moreover have "last (items r) = items r ! (n - 1)" using ne by (simp add: last_conv_nth n_def)
  ultimately show "rob_back r = Inr (Some (last (items r)))"
    using W(1,2) n b by (simp add: rob_back_def items_nth n_def)
qed

lemma rob_pop_wf:
  assumes wf: "rob_wf r" and ne: "items r \<noteq> []"
  obtains r' where "rob_pop us r = Inr r'" "rob_wf r'" "items r' = tl (items r)" "ro_max_cnt r' = ro_max_cnt r"
proof -
  note W = rob_wfD[OF wf]
  define n where "n = nat (entries r)"
  have n: "0 < n" using ne by (simp add: n_def items_def)
  obtain r1 where r1: "ring r1 = ring r" and pop: "rob_pop us r = Inr (r1\<lparr>ro_first_entry := (ro_first_entry r1 + 1) mod ro_max_cnt r1,
             ro_free_cnt := ro_free_cnt r1 + 1\<rparr>)"
  proof (cases "entries r = 1 \<and> ro_orq r = []")
    case True
    with rob_ends(2)[OF wf ne] show ?thesis
      by (intro that[of "r\<lparr>ro_version := 0, ro_last_fence_version := 0, ro_reset_uop_num := u_uop_num (us (last (items r)))\<rparr>"])
        (simp_all add: rob_pop_def ring_def)
  next
    case False
    then show ?thesis by (intro that[of r]) (auto simp add: rob_pop_def)
  qed
  define r' where "r' = r1\<lparr>ro_first_entry := (ro_first_entry r1 + 1) mod ro_max_cnt r1, ro_free_cnt := ro_free_cnt r1 + 1\<rparr>"
  have e: "entries r' = entries r - 1" "nat (entries r') = n - 1" using r1 n by (simp_all add: r'_def ring_def entries_def n_def)
  have mx: "ro_max_cnt r' = ro_max_cnt r" "ro_rob r' = ro_rob r" using r1 by (simp_all add: r'_def ring_def)
  have s: "slot r' i = slot r (Suc i)" for i
    using r1 by (simp add: slot_def r'_def ring_def mod_simps)
  have "rob_wf r'" unfolding rob_wf_def e
  proof (intro conjI allI impI)
    show "ro_first_entry r' < ro_max_cnt r'" using r1 W(1) by (simp add: r'_def ring_def)
    have "slot r' (nat (entries r - 1)) = slot r n"
      unfolding s using n by (simp add: n_def nat_diff_distrib)
    then show "ro_last_entry r' = slot r' (nat (entries r - 1))"
      using r1 W(6) by (simp add: n_def) (simp add: r'_def ring_def)
    show "ro_rob r' ! slot r' i \<noteq> None" if "i < nat (entries r - 1)" for i
      using W(7)[of "Suc i"] that by (auto simp add: s mx)
  qed (use W n in \<open>auto simp add: mx n_def\<close>)
  moreover have "items r' = tl (items r)"
  proof (rule nth_equalityI)
    fix i
    assume "i < length (items r')"
    then have i: "i < nat (entries r')" by simp
    then have "Suc i < nat (entries r)" unfolding e(2) by (simp add: n_def)
    with items_nth[OF i] items_nth[of "Suc i" r] show "items r' ! i = tl (items r) ! i" by (simp add: s mx nth_tl)
  qed (use e(2) in \<open>simp add: n_def\<close>)
  ultimately show ?thesis using that pop mx by (auto simp add: r'_def)
qed

section \<open>The contract of an in-order buffer\<close>

text \<open>The two operations of the pipeline on the buffer, and what a history of them means: the uops
  entered, in order, the number that left, and whether the history keeps between zero and \<open>n\<close>
  uops inside when it starts with \<open>c\<close> of them.\<close>

datatype 'a buf_op = Enter 'a | Leave

fun arrivals :: "'a buf_op list \<Rightarrow> 'a list" where
  "arrivals [] = []"
| "arrivals (Enter a # ops) = a # arrivals ops"
| "arrivals (Leave # ops) = arrivals ops"

fun departures :: "'a buf_op list \<Rightarrow> nat" where
  "departures [] = 0"
| "departures (Enter a # ops) = departures ops"
| "departures (Leave # ops) = Suc (departures ops)"

fun within_capacity :: "nat \<Rightarrow> nat \<Rightarrow> 'a buf_op list \<Rightarrow> bool" where
  "within_capacity n c [] \<longleftrightarrow> True"
| "within_capacity n c (Enter a # ops) \<longleftrightarrow> c < n \<and> within_capacity n (Suc c) ops"
| "within_capacity n c (Leave # ops) \<longleftrightarrow> 0 < c \<and> within_capacity n (c - 1) ops"

text \<open>What allocation and retirement rely on: pushes append, pops drop the oldest uop, and the front
  is the oldest. \<open>run\<close> performs a history and collects the uops that left.\<close>

locale in_order_buffer =
  fixes wf :: "'s \<Rightarrow> bool"
    and content :: "'s \<Rightarrow> 'a list"
    and cap :: "'s \<Rightarrow> nat"
    and push :: "'a \<Rightarrow> 's \<Rightarrow> 's res"
    and oldest :: "'s \<Rightarrow> 'a res"
    and pop :: "'s \<Rightarrow> 's res"
  assumes push_law: "wf s \<Longrightarrow> length (content s) < cap s \<Longrightarrow>
      \<exists>s'. push a s = Inr s' \<and> wf s' \<and> content s' = content s @ [a] \<and> cap s' = cap s"
    and oldest_law: "wf s \<Longrightarrow> content s \<noteq> [] \<Longrightarrow> oldest s = Inr (hd (content s))"
    and pop_law: "wf s \<Longrightarrow> content s \<noteq> [] \<Longrightarrow>
      \<exists>s'. pop s = Inr s' \<and> wf s' \<and> content s' = tl (content s) \<and> cap s' = cap s"
begin

fun run :: "'a buf_op list \<Rightarrow> 's \<Rightarrow> ('a list \<times> 's) res" where
  "run [] s = Inr ([], s)"
| "run (Enter a # ops) s = res_bind (push a s) (run ops)"
| "run (Leave # ops) s =
     res_bind (oldest s) (\<lambda>a. res_bind (pop s) (\<lambda>s'. res_bind (run ops s') (\<lambda>(out, s''). Inr (a # out, s''))))"

lemma run_ok:
  "wf s \<Longrightarrow> within_capacity (cap s) (length (content s)) ops \<Longrightarrow>
   \<exists>out s'. run ops s = Inr (out, s') \<and> wf s' \<and> cap s' = cap s \<and> length out = departures ops \<and>
     out @ content s' = content s @ arrivals ops"
proof (induction ops arbitrary: s)
  case Nil
  then show ?case by simp
next
  case (Cons x ops)
  show ?case
  proof (cases x)
    case (Enter a)
    with Cons.prems push_law[of s a] obtain s1 where
      s1: "push a s = Inr s1" "wf s1" "content s1 = content s @ [a]" "cap s1 = cap s" by auto
    from Cons.IH[OF s1(2)] s1 Cons.prems Enter show ?thesis by simp
  next
    case Leave
    with Cons.prems obtain y ys where c: "content s = y # ys" by (cases "content s") auto
    with pop_law[OF Cons.prems(1)] obtain s1 where s1: "pop s = Inr s1" "wf s1" "content s1 = ys" "cap s1 = cap s" by auto
    from Cons.IH[OF s1(2)] Cons.prems(2) s1 c Leave obtain out s' where
      "run ops s1 = Inr (out, s')" "wf s'" "cap s' = cap s" "length out = departures ops" "out @ content s' = ys @ arrivals ops"
      by auto
    with s1 oldest_law[OF Cons.prems(1)] c Leave show ?thesis by simp
  qed
qed

end

definition buffer_push :: "rob_knobs \<Rightarrow> addr \<Rightarrow> (addr \<Rightarrow> uop) \<times> rob \<Rightarrow> ((addr \<Rightarrow> uop) \<times> rob) res" where
  "buffer_push k u = (\<lambda>(us, r). rob_push k us u r)"

definition buffer_oldest :: "(addr \<Rightarrow> uop) \<times> rob \<Rightarrow> addr res" where
  "buffer_oldest = (\<lambda>(us, r). res_bind (rob_front r) (\<lambda>p. case p of None \<Rightarrow> Inl NullPointer | Some u \<Rightarrow> Inr u))"

definition buffer_pop :: "(addr \<Rightarrow> uop) \<times> rob \<Rightarrow> ((addr \<Rightarrow> uop) \<times> rob) res" where
  "buffer_pop = (\<lambda>(us, r). res_bind (rob_pop us r) (\<lambda>r'. Inr (us, r')))"

interpretation rob: in_order_buffer "\<lambda>s. rob_wf (snd s)" "\<lambda>s. items (snd s)" "\<lambda>s. ro_max_cnt (snd s)"
    "buffer_push k" buffer_oldest buffer_pop
  for k
proof
  fix s :: "(addr \<Rightarrow> uop) \<times> rob" and a
  assume wf: "rob_wf (snd s)"
  obtain us r where s: "s = (us, r)" by fastforce
  show "\<exists>s'. buffer_push k a s = Inr s' \<and> rob_wf (snd s') \<and> items (snd s') = items (snd s) @ [a] \<and>
      ro_max_cnt (snd s') = ro_max_cnt (snd s)" if "length (items (snd s)) < ro_max_cnt (snd s)"
  proof -
    have "entries r < int (ro_max_cnt r)" using that by (simp add: s zless_nat_conj)
    with wf obtain us' r' where "rob_push k us a r = Inr (us', r')" "rob_wf r'" "items r' = items r @ [a]"
      "ro_max_cnt r' = ro_max_cnt r" unfolding s snd_conv by (rule rob_push_wf)
    then show ?thesis by (simp add: s buffer_push_def)
  qed
  show "buffer_oldest s = Inr (hd (items (snd s)))" if "items (snd s) \<noteq> []"
    using rob_ends(1)[OF wf that] by (simp add: s buffer_oldest_def)
  show "\<exists>s'. buffer_pop s = Inr s' \<and> rob_wf (snd s') \<and> items (snd s') = tl (items (snd s)) \<and>
      ro_max_cnt (snd s') = ro_max_cnt (snd s)" if ne: "items (snd s) \<noteq> []"
  proof -
    obtain r' where "rob_pop us r = Inr r'" "rob_wf r'" "items r' = tl (items r)" "ro_max_cnt r' = ro_max_cnt r"
      using wf ne unfolding s snd_conv by (rule rob_pop_wf)
    then show ?thesis by (simp add: s buffer_pop_def)
  qed
qed

text \<open>A history over the buffer's own operations: allocation calls \<^verbatim>\<open>push\<close>, retirement reads
  \<^verbatim>\<open>front\<close> and calls \<^verbatim>\<open>pop\<close>.\<close>

fun rob_run :: "rob_knobs \<Rightarrow> addr buf_op list \<Rightarrow> (addr \<Rightarrow> uop) \<Rightarrow> rob \<Rightarrow> (addr list \<times> (addr \<Rightarrow> uop) \<times> rob) res" where
  "rob_run k [] us r = Inr ([], us, r)"
| "rob_run k (Enter u # ops) us r = res_bind (rob_push k us u r) (\<lambda>(us', r'). rob_run k ops us' r')"
| "rob_run k (Leave # ops) us r =
     res_bind (rob_front r) (\<lambda>p. case p of
       None \<Rightarrow> Inl NullPointer
     | Some u \<Rightarrow> res_bind (rob_pop us r) (\<lambda>r'.
                 res_bind (rob_run k ops us r') (\<lambda>(out, s'). Inr (u # out, s'))))"

lemma buffer_eqs:
  "buffer_push k u s = rob_push k (fst s) u (snd s)"
  "buffer_oldest s = res_bind (rob_front (snd s)) (\<lambda>p. case p of None \<Rightarrow> Inl NullPointer | Some u \<Rightarrow> Inr u)"
  "buffer_pop s = res_bind (rob_pop (fst s) (snd s)) (\<lambda>r'. Inr (fst s, r'))"
  by (simp_all add: buffer_push_def buffer_oldest_def buffer_pop_def case_prod_beta)

lemma rob_run_buffer: "rob_run k ops us r = rob.run k ops (us, r)"
proof (induction k ops us r rule: rob_run.induct)
  case (1 k us r)
  then show ?case by simp
next
  case (2 k u ops us r)
  then show ?case unfolding rob_run.simps rob.run.simps
    by (cases "rob_push k us u r") (auto simp add: buffer_eqs(1)[of _ _ "(us, r)"])
next
  case (3 k ops us r)
  show ?case
  proof (cases "rob_front r")
    case (Inl e)
    then show ?thesis unfolding rob_run.simps rob.run.simps by (simp add: buffer_eqs(2)[of "(us, r)"])
  next
    case (Inr p)
    then show ?thesis unfolding rob_run.simps rob.run.simps
      by (cases p; cases "rob_pop us r") (simp_all add: buffer_eqs(2)[of "(us, r)"] buffer_eqs(3)[of "(us, r)"] 3)
  qed
qed

lemma rob_push_usable: "rob_push k us u r = Inr (us', r') \<Longrightarrow> ro_usable_cnt r' = ro_usable_cnt r"
proof -
  assume "rob_push k us u r = Inr (us', r')"
  then obtain arr where r': "r' = snd (process_version k (us u) (r\<lparr>ro_rob := arr,
      ro_last_entry := (ro_last_entry r + 1) mod ro_max_cnt r, ro_free_cnt := ro_free_cnt r - 1\<rparr>))"
    by (auto simp add: rob_push_def res_simps Let_def case_prod_beta)
  show ?thesis using process_version_ring[of k "us u"] unfolding r' by (auto simp add: ring_def)
qed

lemma rob_pop_usable: "rob_pop us r = Inr r' \<Longrightarrow> ro_usable_cnt r' = ro_usable_cnt r"
  by (auto simp add: rob_pop_def res_bind_eq_Inr split: if_splits option.splits)

lemma rob_run_usable:
  "rob_run k ops us r = Inr (out, us', r') \<Longrightarrow> ro_usable_cnt r' = ro_usable_cnt r"
proof (induction k ops us r arbitrary: out rule: rob_run.induct)
  case (2 k u ops us r)
  then show ?case by (auto simp add: res_bind_eq_Inr rob_push_usable)
next
  case (3 k ops us r)
  then show ?case by (auto simp add: res_bind_eq_Inr rob_pop_usable split: option.splits)
qed simp

section \<open>Order of memory operations and fences\<close>

lemma relative_slot:
  assumes wf: "rob_wf r" and j: "j < ro_max_cnt r"
  shows "get_relative_index (slot r j) r = j"
  using rob_wfD(3)[OF wf] j by (auto simp add: get_relative_index_def slot_def mod_if)

lemma pending_loop_spec:
  assumes wf: "rob_wf r" and j: "j \<le> nat (entries r)" "j < ro_max_cnt r"
  shows "i \<le> j \<Longrightarrow> j - i \<le> fuel \<Longrightarrow>
    pending_loop fuel us (ro_rob r) (ro_max_cnt r) (slot r i) (slot r j) =
      Inr (\<exists>n. i \<le> n \<and> n < j \<and> u_mem_type (us (items r ! n)) \<noteq> NOT_MEM)"
proof (induction fuel arbitrary: i)
  case 0
  then show ?case by simp
next
  case (Suc fuel)
  show ?case
  proof (cases "i = j")
    case True
    then show ?thesis by simp
  next
    case False
    with Suc.prems have i: "i < j" "i < nat (entries r)" using j by simp_all
    obtain u where u: "ro_rob r ! slot r i = Some u" using rob_wfD(7)[OF wf i(2)] by blast
    then have it: "items r ! i = u" using items_nth[OF i(2)] by simp
    have ne: "slot r i \<noteq> slot r j" using slot_inj[OF wf, of i j] i j by simp
    have nx: "(slot r i + 1) mod ro_max_cnt r = slot r (Suc i)" by (simp add: slot_def mod_simps)
    have IH: "pending_loop fuel us (ro_rob r) (ro_max_cnt r) (slot r (Suc i)) (slot r j) =
      Inr (\<exists>n. Suc i \<le> n \<and> n < j \<and> u_mem_type (us (items r ! n)) \<noteq> NOT_MEM)"
      using Suc.prems i by (intro Suc.IH) simp_all
    have split: "(\<exists>n. i \<le> n \<and> n < j \<and> P n) \<longleftrightarrow> P i \<or> (\<exists>n. Suc i \<le> n \<and> n < j \<and> P n)" for P
      using i(1) by (metis Suc_leD le_eq_less_or_eq Suc_leI le_refl)
    show ?thesis
      using ne u IH it rob_wfD(1,2)[OF wf] split[of "\<lambda>n. u_mem_type (us (items r ! n)) \<noteq> NOT_MEM"]
      by (simp add: nx[unfolded Suc_eq_plus1[symmetric]] del: Suc_eq_plus1)
  qed
qed

definition fences :: "rob \<Rightarrow> nat set" where
  "fences r = set (fl_list (fn_acq (ro_fence r))) \<union> set (fl_list (fn_rel (ro_fence r))) \<union> set (fl_list (fn_full (ro_fence r)))"

lemma ensure_mem_ordering_iff:
  "ensure_mem_ordering k entry r \<longleftrightarrow> \<not> KNOB_ACQ_REL k \<and> (\<exists>f\<in>fences r. is_later_entry f entry r)"
  by (auto simp add: ensure_mem_ordering_def fences_def fn_is_list_empty_def fl_is_list_empty_def list_ex_iff)

lemma orq_after_fence:
  assumes "KNOB_FENCE_ENABLE k" "u_uop_type f = UOP_FULL_FENCE"
  shows "ro_orq (snd (process_version k f r)) = ro_orq r @ [(u_uop_num f, ro_last_fence_version r + 1)]"
    "ro_version (snd (process_version k f r)) = ro_last_fence_version r + 1"
    "ro_last_fence_version (snd (process_version k f r)) = ro_last_fence_version r + 1"
    "ro_reset_uop_num (snd (process_version k f r)) = ro_reset_uop_num r"
  using assms by (simp_all add: process_version_def Let_def is_fence_type_def)

text \<open>The versions in the queue of root fences increase and do not exceed the last one given out.\<close>

definition orq_wf :: "rob \<Rightarrow> bool" where
  "orq_wf r \<longleftrightarrow> sorted_wrt (<) (map snd (ro_orq r)) \<and> (\<forall>v\<in>set (map snd (ro_orq r)). v \<le> ro_last_fence_version r) \<and>
     ro_version r \<le> ro_last_fence_version r"

lemma version_succ_greater: "v < 0xFFFF \<Longrightarrow> w \<le> v \<Longrightarrow> w < v + 1" for v w :: uns16
proof -
  assume "v < 0xFFFF" "w \<le> v"
  then have "unat v < 0xFFFF" "unat w \<le> unat v" by (simp_all add: word_less_nat_alt word_le_nat_alt)
  then have "unat (v + 1) = unat v + 1" by (simp add: unat_plus_if_size word_size)
  with \<open>unat w \<le> unat v\<close> show ?thesis by (simp add: word_less_nat_alt)
qed

lemma process_version_orq:
  assumes wf: "orq_wf r" and bits: "version_bits_avail r"
  shows "orq_wf (snd (process_version k u r))"
proof -
  let ?v = "ro_last_fence_version r"
  have lt: "w < ?v + 1" if "w \<le> ?v" for w using bits that by (intro version_succ_greater) (simp_all add: version_bits_avail_def)
  show ?thesis
    using wf lt by (auto simp add: orq_wf_def process_version_def Let_def is_fence_type_def sorted_wrt_append intro: less_imp_le)
qed

lemma update_orq_loop_suffix:
  "update_orq_loop a q rf = Inr (q', rf') \<Longrightarrow> \<exists>p. q = p @ q'"
proof (induction q arbitrary: rf)
  case Nil
  then show ?case by simp
next
  case (Cons e q)
  then show ?case by (cases e) (fastforce split: if_splits option.splits bool.splits intro: exI[of _ "e # _"])
qed

section \<open>Properties\<close>

text \<open>C11. The reorder buffer is a bounded first-in first-out queue over any history: starting from
  a fresh buffer of \<open>n\<close> usable entries, whatever pushes and pops are interleaved, however often the
  two indices go around the array of \<open>2 n\<close> slots, as long as no pop meets an empty buffer and no push
  a full array, no operation fails; the uops read at the front and popped, followed by those still
  inside, are exactly the uops pushed, in the order of the pushes; and the count of free entries is
  \<open>n\<close> less the number inside.\<close>

theorem rob_fifo:
  assumes n: "0 < n" and fit: "within_capacity (2 * n) 0 ops"
  shows "\<exists>out us' r. rob_run k ops us (rob_c jv jl jr n) = Inr (out, us', r) \<and>
    length out = departures ops \<and> out @ items r = arrivals ops \<and>
    ro_free_cnt r = int n - int (length (items r))"
proof -
  have "ro_max_cnt (rob_c jv jl jr n) = 2 * n" by (simp add: rob_c_def)
  with rob.run_ok[of "(us, rob_c jv jl jr n)" ops k] rob_new_wf[OF n, of jv jl jr] fit
  obtain out us' r where r: "rob_run k ops us (rob_c jv jl jr n) = Inr (out, us', r)" "rob_wf r"
    "length out = departures ops" "out @ items r = arrivals ops"
    unfolding rob_run_buffer by auto
  have "ro_usable_cnt r = n" using rob_run_usable[OF r(1)] by (simp add: rob_c_def)
  with r rob_wfD(4)[OF r(2)] show ?thesis by (intro exI[of _ out] exI[of _ us'] exI[of _ r]) (simp add: entries_def)
qed

text \<open>Seven uops through an array of four slots: both indices wrap around.\<close>

theorem rob_fifo_witness:
  "\<exists>us' r. rob_run \<lparr>KNOB_FENCE_ENABLE = True, KNOB_USE_WB = True, KNOB_ACQ_REL = False\<rparr>
      [Enter 1, Enter 2, Enter 3, Leave, Leave, Enter 4, Enter 5, Leave, Enter 6, Leave, Leave, Enter 7, Leave]
      (\<lambda>_. zero_uop) (rob_c 0 0 0 2) = Inr ([1, 2, 3, 4, 5, 6], us', r) \<and> items r = [7]"
proof -
  let ?ops = "[Enter 1, Enter 2, Enter 3, Leave, Leave, Enter 4, Enter 5, Leave, Enter 6, Leave, Leave, Enter 7, Leave] :: addr buf_op list"
  have "within_capacity (2 * 2) 0 ?ops" by simp
  from rob_fifo[OF _ this, where us = "\<lambda>_. zero_uop" and jv = 0 and jl = 0 and jr = 0
      and k = "\<lparr>KNOB_FENCE_ENABLE = True, KNOB_USE_WB = True, KNOB_ACQ_REL = False\<rparr>"]
  obtain out us' r where o: "rob_run \<lparr>KNOB_FENCE_ENABLE = True, KNOB_USE_WB = True, KNOB_ACQ_REL = False\<rparr> ?ops
      (\<lambda>_. zero_uop) (rob_c 0 0 0 2) = Inr (out, us', r)" "length out = 6" "out @ items r = [1, 2, 3, 4, 5, 6] @ [7]"
    by auto
  then have "out = [1, 2, 3, 4, 5, 6] \<and> items r = [7]"
    by (subst append_eq_append_conv[symmetric, of out "[1, 2, 3, 4, 5, 6]"]) simp_all
  with o(1) show ?thesis by blast
qed

text \<open>C19. Fences order memory operations (without the version scheme): for the uop at position
  \<open>j\<close> of the buffer, \<^verbatim>\<open>ensure_mem_ordering\<close> asks to wait exactly when some active fence
  is at or before that position; and \<^verbatim>\<open>pending_mem_ops\<close> for the fence at position \<open>p\<close>
  ends, and reports exactly whether a memory operation is before the fence or the write buffer is not
  empty, also when the buffer wraps around its array.\<close>

theorem rob_fence_ordering:
  assumes wf: "rob_wf r" and j: "j < nat (entries r)" and p: "p < nat (entries r)"
    and acq: "\<not> KNOB_ACQ_REL k" and F: "fences r = slot r ` P" "P \<subseteq> {..<nat (entries r)}"
  shows "(ensure_mem_ordering k (slot r j) r \<longleftrightarrow> (\<exists>f\<in>P. f \<le> j)) \<and>
    pending_mem_ops k us (slot r p) r =
      Inr ((\<exists>i < p. u_mem_type (us (items r ! i)) \<noteq> NOT_MEM) \<or> (KNOB_USE_WB k \<and> \<not> ro_wb_empty r))"
proof
  have le: "nat (entries r) \<le> ro_max_cnt r" using rob_wfD(5)[OF wf] by simp
  have "is_later_entry (slot r f) (slot r j) r \<longleftrightarrow> f \<le> j" if "f \<in> P" for f
    using that F(2) j le by (auto simp add: is_later_entry_def relative_slot[OF wf] subset_iff)
  then show "ensure_mem_ordering k (slot r j) r \<longleftrightarrow> (\<exists>f\<in>P. f \<le> j)"
    using acq by (simp add: ensure_mem_ordering_iff F(1))
  have "slot r 0 = ro_first_entry r" using rob_wfD(3)[OF wf] by (simp add: slot_def)
  with pending_loop_spec[OF wf, of p 0 "ro_max_cnt r" us] p le
  show "pending_mem_ops k us (slot r p) r =
      Inr ((\<exists>i < p. u_mem_type (us (items r ! i)) \<noteq> NOT_MEM) \<or> (KNOB_USE_WB k \<and> \<not> ro_wb_empty r))"
    by (auto simp add: pending_mem_ops_def)
qed

definition demo_rob :: rob where
  "demo_rob = (rob_c 0 0 0 2)\<lparr>ro_rob := [Some 5, None, Some 3, Some 4], ro_first_entry := 2, ro_last_entry := 1,
     ro_free_cnt := - 1, ro_fence := fence_c\<lparr>fn_full := \<lparr>fl_set = {3}, fl_list = [3]\<rparr>\<rparr>\<rparr>"

theorem rob_fence_ordering_witness:
  "ensure_mem_ordering \<lparr>KNOB_FENCE_ENABLE = True, KNOB_USE_WB = True, KNOB_ACQ_REL = False\<rparr> 0 demo_rob \<and>
   pending_mem_ops \<lparr>KNOB_FENCE_ENABLE = True, KNOB_USE_WB = True, KNOB_ACQ_REL = False\<rparr>
     (\<lambda>u. if u = 3 then zero_uop\<lparr>u_mem_type := MEM_ST\<rparr> else zero_uop) 3 demo_rob = Inr True"
proof -
  let ?k = "\<lparr>KNOB_FENCE_ENABLE = True, KNOB_USE_WB = True, KNOB_ACQ_REL = False\<rparr>"
  let ?us = "\<lambda>u::addr. if u = 3 then zero_uop\<lparr>u_mem_type := MEM_ST\<rparr> else zero_uop"
  have e: "nat (entries demo_rob) = 3" by (simp add: entries_def demo_rob_def rob_c_def)
  have sl: "slot demo_rob i = (2 + i) mod 4" for i by (simp add: slot_def demo_rob_def rob_c_def)
  have it: "items demo_rob = [3, 4, 5]" by (simp add: items_def e sl upt_rec) (simp add: demo_rob_def)
  have all: "(\<forall>i<3. P i) \<longleftrightarrow> P 0 \<and> P 1 \<and> P (2 :: nat)" for P by (auto simp add: less_Suc_eq numeral_3_eq_3 numeral_2_eq_2)
  have wf: "rob_wf demo_rob" unfolding rob_wf_def e all sl
    by (simp add: demo_rob_def rob_c_def entries_def)
  have F: "fences demo_rob = slot demo_rob ` {1}"
    by (simp add: sl) (simp add: fences_def demo_rob_def fence_c_def empty_fence_list_def)
  from rob_fence_ordering[OF wf, of 2 1 ?k "{1}" ?us] F show ?thesis
    by (simp add: e sl it)
qed

text \<open>The version scheme: while version bits are available, the versions of the queued root
  fences stay strictly increasing and bounded by the last version given out, whatever uop is pushed;
  and a store pushed right after a full fence must wait exactly when an older fence is still queued:
  its version equals the version of the fence before it, so that fence alone does not hold it back.\<close>

theorem version_check_ignores_own_fence:
  assumes wf: "orq_wf r" and bits: "version_bits_avail r" and k: "KNOB_FENCE_ENABLE k"
    and f: "u_uop_type f = UOP_FULL_FENCE" and r1: "r1 = snd (process_version k f r)"
    and st: "u_mem_type st \<noteq> NOT_MEM" "u_bar_type st = NOT_BAR" "\<not> is_fence_type (u_uop_type st)"
    and new: "ro_reset_uop_num r < u_uop_num st" and p: "process_version k st r1 = (st', r2)"
  shows "orq_wf (snd (process_version k u r)) \<and> orq_wf r2 \<and> u_mem_version st' = ro_last_fence_version r + 1 \<and>
    version_ordering_check st' r2 = Inr (ro_orq r \<noteq> [])"
proof (intro conjI)
  note O = orq_after_fence[OF k f, of r, folded r1]
  show "orq_wf (snd (process_version k u r))" by (rule process_version_orq[OF wf bits])
  have r2: "r2 = r1" and st': "st' = st\<lparr>u_mem_version := ro_version r1\<rparr>"
    using p st by (auto simp add: process_version_def Let_def is_fence_type_def)
  show "orq_wf r2" using process_version_orq[OF wf bits, of k f] by (simp add: r2 r1)
  show "u_mem_version st' = ro_last_fence_version r + 1" by (simp add: st' O)
  show "version_ordering_check st' r2 = Inr (ro_orq r \<noteq> [])"
  proof (cases "ro_orq r")
    case Nil
    then show ?thesis by (simp add: version_ordering_check_def r2 O(1) st' O(2))
  next
    case (Cons e q)
    obtain n v where e: "e = (n, v)" by fastforce
    have "v \<le> ro_last_fence_version r" using wf Cons e by (simp add: orq_wf_def)
    then have "v < ro_last_fence_version r + 1"
      using bits by (intro version_succ_greater) (simp_all add: version_bits_avail_def)
    with Cons e new show ?thesis by (simp add: version_ordering_check_def r2 O(1,2,4) st' not_le)
  qed
qed

theorem version_check_ignores_own_fence_witness:
  "\<exists>st' r2. process_version \<lparr>KNOB_FENCE_ENABLE = True, KNOB_USE_WB = True, KNOB_ACQ_REL = True\<rparr>
      (zero_uop\<lparr>u_uop_num := 11, u_mem_type := MEM_ST, u_uop_type := UOP_ST\<rparr>)
      (snd (process_version \<lparr>KNOB_FENCE_ENABLE = True, KNOB_USE_WB = True, KNOB_ACQ_REL = True\<rparr>
        (zero_uop\<lparr>u_uop_num := 10, u_uop_type := UOP_FULL_FENCE\<rparr>) (rob_c 0 0 0 4))) = (st', r2) \<and>
     version_ordering_check st' r2 = Inr False"
proof -
  let ?k = "\<lparr>KNOB_FENCE_ENABLE = True, KNOB_USE_WB = True, KNOB_ACQ_REL = True\<rparr>"
  let ?f = "zero_uop\<lparr>u_uop_num := 10, u_uop_type := UOP_FULL_FENCE\<rparr>"
  let ?s = "zero_uop\<lparr>u_uop_num := 11, u_mem_type := MEM_ST, u_uop_type := UOP_ST\<rparr>"
  obtain st' r2 where p: "process_version ?k ?s (snd (process_version ?k ?f (rob_c 0 0 0 4))) = (st', r2)" by fastforce
  have "orq_wf (rob_c 0 0 0 4)" "version_bits_avail (rob_c 0 0 0 4)"
    by (simp_all add: orq_wf_def version_bits_avail_def rob_c_def)
  from version_check_ignores_own_fence[OF this _ _ refl _ _ _ _ p] p show ?thesis
    by (auto simp add: zero_uop_def is_fence_type_def rob_c_def)
qed

end
