(* ===== verification/Resource.thy ===== *)
theory Resource
  imports Prelude
begin

text \<open>
  The counters of the hardware resources of a core, \<^verbatim>\<open>resource_c\<close> of
  \<^verbatim>\<open>src/src/resource.h\<close> and \<^verbatim>\<open>src/src/resource.cc\<close>: store and load buffers,
  integer and floating-point registers. The locale \<open>take_counter\<close> is what allocation relies on,
  \<open>checked_counter\<close> adds the checked release that only the buffers have.
\<close>

section \<open>The class\<close>

datatype Unit_Type = UNIT_SMALL | UNIT_MEDIUM | UNIT_LARGE

record resource_knobs =
  KNOB_MEU_NSB :: nat
  KNOB_MEU_NLB :: nat
  KNOB_MEU_MEDIUM_NSB :: nat
  KNOB_MEU_MEDIUM_NLB :: nat
  KNOB_MEU_LARGE_NSB :: nat
  KNOB_MEU_LARGE_NLB :: nat
  KNOB_INT_REGFILE_SIZE :: int
  KNOB_FP_REGFILE_SIZE :: int

record resource =
  rs_max_sb_cnt :: int
  rs_num_sb :: int
  rs_max_lb_cnt :: int
  rs_num_lb :: int
  rs_max_int_regs :: int
  rs_num_int_regs :: int
  rs_max_fp_regs :: int
  rs_num_fp_regs :: int

text \<open>The locals of \<^verbatim>\<open>RESOURCE_CONFIG\<close> are \<^verbatim>\<open>uns16\<close>: the knobs are cut to
  sixteen bits.\<close>

definition RESOURCE_CONFIG :: "resource_knobs \<Rightarrow> Unit_Type \<Rightarrow> uns16 \<times> uns16" where
  "RESOURCE_CONFIG k t =
     (case t of
        UNIT_SMALL \<Rightarrow> (of_nat (KNOB_MEU_NSB k), of_nat (KNOB_MEU_NLB k))
      | UNIT_MEDIUM \<Rightarrow> (of_nat (KNOB_MEU_MEDIUM_NSB k), of_nat (KNOB_MEU_MEDIUM_NLB k))
      | UNIT_LARGE \<Rightarrow> (of_nat (KNOB_MEU_LARGE_NSB k), of_nat (KNOB_MEU_LARGE_NLB k)))"

definition resource_c :: "resource_knobs \<Rightarrow> Unit_Type \<Rightarrow> resource" where
  "resource_c k t =
     (let (nsb, nlb) = RESOURCE_CONFIG k t
      in \<lparr>rs_max_sb_cnt = int (unat nsb), rs_num_sb = int (unat nsb),
          rs_max_lb_cnt = int (unat nlb), rs_num_lb = int (unat nlb),
          rs_max_int_regs = KNOB_INT_REGFILE_SIZE k, rs_num_int_regs = KNOB_INT_REGFILE_SIZE k,
          rs_max_fp_regs = KNOB_FP_REGFILE_SIZE k, rs_num_fp_regs = KNOB_FP_REGFILE_SIZE k\<rparr>)"

definition reset :: "resource \<Rightarrow> resource" where
  "reset r = r\<lparr>rs_num_sb := rs_max_sb_cnt r, rs_num_lb := rs_max_lb_cnt r,
                rs_num_int_regs := rs_max_int_regs r, rs_num_fp_regs := rs_max_fp_regs r\<rparr>"

definition alloc_sb :: "resource \<Rightarrow> resource res" where
  "alloc_sb r = check (rs_num_sb r > 0) AssertFailed (Inr (r\<lparr>rs_num_sb := rs_num_sb r - 1\<rparr>))"

definition dealloc_sb :: "resource \<Rightarrow> resource res" where
  "dealloc_sb r = check (rs_num_sb r < rs_max_sb_cnt r) AssertFailed (Inr (r\<lparr>rs_num_sb := rs_num_sb r + 1\<rparr>))"

definition alloc_lb :: "resource \<Rightarrow> resource res" where
  "alloc_lb r = check (rs_num_lb r > 0) AssertFailed (Inr (r\<lparr>rs_num_lb := rs_num_lb r - 1\<rparr>))"

definition dealloc_lb :: "resource \<Rightarrow> resource res" where
  "dealloc_lb r = check (rs_num_lb r < rs_max_lb_cnt r) AssertFailed (Inr (r\<lparr>rs_num_lb := rs_num_lb r + 1\<rparr>))"

definition alloc_int_reg :: "resource \<Rightarrow> resource res" where
  "alloc_int_reg r =
     check (rs_num_int_regs r > 0) AssertFailed (Inr (r\<lparr>rs_num_int_regs := rs_num_int_regs r - 1\<rparr>))"

definition alloc_fp_reg :: "resource \<Rightarrow> resource res" where
  "alloc_fp_reg r =
     check (rs_num_fp_regs r > 0) AssertFailed (Inr (r\<lparr>rs_num_fp_regs := rs_num_fp_regs r - 1\<rparr>))"

definition dealloc_int_reg :: "resource \<Rightarrow> resource res" where
  "dealloc_int_reg r = Inr (r\<lparr>rs_num_int_regs := rs_num_int_regs r + 1\<rparr>)"

definition dealloc_fp_reg :: "resource \<Rightarrow> resource res" where
  "dealloc_fp_reg r = Inr (r\<lparr>rs_num_fp_regs := rs_num_fp_regs r + 1\<rparr>)"

lemmas resource_ops [model_defs] =
  alloc_sb_def dealloc_sb_def alloc_lb_def dealloc_lb_def
  alloc_int_reg_def dealloc_int_reg_def alloc_fp_reg_def dealloc_fp_reg_def

section \<open>The contract of a counter\<close>

locale take_counter =
  fixes avail :: "'s \<Rightarrow> int"
    and take1 :: "'s \<Rightarrow> 's res"
  assumes take1_ok: "0 < avail s \<Longrightarrow> \<exists>s'. take1 s = Inr s' \<and> avail s' = avail s - 1"
    and take1_empty: "avail s \<le> 0 \<Longrightarrow> take1 s = Inl AssertFailed"
begin

primrec take_n :: "nat \<Rightarrow> 's \<Rightarrow> 's res" where
  "take_n 0 s = Inr s"
| "take_n (Suc n) s = res_bind (take1 s) (take_n n)"

text \<open>Any number of entries can be taken, up to the number that is left and no more.\<close>

lemma take_n_iff:
  "0 \<le> avail s \<Longrightarrow>
   (if int n \<le> avail s then \<exists>s'. take_n n s = Inr s' \<and> avail s' = avail s - int n
    else take_n n s = Inl AssertFailed)"
proof (induction n arbitrary: s)
  case 0
  then show ?case by simp
next
  case (Suc n)
  show ?case
  proof (cases "0 < avail s")
    case True
    from take1_ok[OF True] obtain s' where s': "take1 s = Inr s'" "avail s' = avail s - 1" by blast
    with Suc.IH[of s'] True show ?thesis by (auto split: if_splits)
  next
    case False
    with take1_empty[of s] Suc.prems show ?thesis by simp
  qed
qed

end

locale checked_counter = take_counter +
  fixes limit :: "'a \<Rightarrow> int"
    and give1 :: "'a \<Rightarrow> 'a res"
  assumes give1_ok: "avail s < limit s \<Longrightarrow> \<exists>s'. give1 s = Inr s' \<and> avail s' = avail s + 1"
    and give1_full: "limit s \<le> avail s \<Longrightarrow> give1 s = Inl AssertFailed"
    and limit_kept: "take1 s = Inr s' \<Longrightarrow> limit s' = limit s" "give1 s = Inr s' \<Longrightarrow> limit s' = limit s"
begin

definition within :: "'a \<Rightarrow> bool" where
  "within s \<longleftrightarrow> 0 \<le> avail s \<and> avail s \<le> limit s"

lemma within_take: "within s \<Longrightarrow> take1 s = Inr s' \<Longrightarrow> within s'"
  using take1_ok[of s] take1_empty[of s] limit_kept(1)[of s s']
  by (cases "0 < avail s") (auto simp add: within_def)

lemma within_give: "within s \<Longrightarrow> give1 s = Inr s' \<Longrightarrow> within s'"
  using give1_ok[of s] give1_full[of s] limit_kept(2)[of s s']
  by (cases "avail s < limit s") (auto simp add: within_def)

end

interpretation sb: checked_counter rs_num_sb alloc_sb rs_max_sb_cnt dealloc_sb
  by unfold_locales (auto simp add: resource_ops check_eq_Inr)

interpretation lb: checked_counter rs_num_lb alloc_lb rs_max_lb_cnt dealloc_lb
  by unfold_locales (auto simp add: resource_ops check_eq_Inr)

interpretation ireg: take_counter rs_num_int_regs alloc_int_reg
  by unfold_locales (auto simp add: resource_ops)

interpretation freg: take_counter rs_num_fp_regs alloc_fp_reg
  by unfold_locales (auto simp add: resource_ops)

section \<open>Runs\<close>

datatype resource_op =
    AllocSb | DeallocSb | AllocLb | DeallocLb | AllocInt | DeallocInt | AllocFp | DeallocFp

fun resource_step :: "resource_op \<Rightarrow> resource \<Rightarrow> resource res" where
  "resource_step AllocSb r = alloc_sb r"
| "resource_step DeallocSb r = dealloc_sb r"
| "resource_step AllocLb r = alloc_lb r"
| "resource_step DeallocLb r = dealloc_lb r"
| "resource_step AllocInt r = alloc_int_reg r"
| "resource_step DeallocInt r = dealloc_int_reg r"
| "resource_step AllocFp r = alloc_fp_reg r"
| "resource_step DeallocFp r = dealloc_fp_reg r"

fun resource_run :: "resource_op list \<Rightarrow> resource \<Rightarrow> resource res" where
  "resource_run [] r = Inr r"
| "resource_run (p # ps) r = res_bind (resource_step p r) (resource_run ps)"

text \<open>How many more operations \<open>a\<close> than \<open>b\<close> a run has.\<close>

definition surplus :: "resource_op \<Rightarrow> resource_op \<Rightarrow> resource_op list \<Rightarrow> int" where
  "surplus a b ps = int (count_list ps a) - int (count_list ps b)"

lemma surplus_simps [simp]:
  "surplus a b [] = 0"
  "surplus a b (p # ps) = surplus a b ps + (if p = a then 1 else 0) - (if p = b then 1 else 0)"
  by (simp_all add: surplus_def)

definition resource_wf :: "resource \<Rightarrow> bool" where
  "resource_wf r \<longleftrightarrow> sb.within r \<and> lb.within r \<and> 0 \<le> rs_num_int_regs r \<and> 0 \<le> rs_num_fp_regs r"

lemma resource_c_wf:
  "0 \<le> KNOB_INT_REGFILE_SIZE k \<Longrightarrow> 0 \<le> KNOB_FP_REGFILE_SIZE k \<Longrightarrow> resource_wf (resource_c k t)"
  by (simp add: resource_wf_def resource_c_def sb.within_def lb.within_def split: prod.splits)

lemma reset_wf:
  "resource_wf r \<Longrightarrow> 0 \<le> rs_max_int_regs r \<Longrightarrow> 0 \<le> rs_max_fp_regs r \<Longrightarrow> resource_wf (reset r)"
  by (simp add: resource_wf_def reset_def sb.within_def lb.within_def)

lemma resource_step_wf [inv_intros]:
  assumes "resource_wf r" "resource_step p r = Inr r'"
  shows "resource_wf r'"
  using assms by (cases p) (auto simp add: resource_wf_def resource_ops check_eq_Inr sb.within_def lb.within_def)

lemma resource_step_counts:
  assumes "resource_step p r = Inr r'"
  shows "rs_num_sb r' = rs_num_sb r - surplus AllocSb DeallocSb [p]"
    "rs_num_lb r' = rs_num_lb r - surplus AllocLb DeallocLb [p]"
    "rs_num_int_regs r' = rs_num_int_regs r - surplus AllocInt DeallocInt [p]"
    "rs_num_fp_regs r' = rs_num_fp_regs r - surplus AllocFp DeallocFp [p]"
  using assms by (cases p; auto simp add: resource_ops check_eq_Inr)+

lemma resource_run_spec:
  "resource_wf r \<Longrightarrow> resource_run ps r = Inr r' \<Longrightarrow>
   resource_wf r' \<and> rs_num_sb r' = rs_num_sb r - surplus AllocSb DeallocSb ps \<and>
   rs_num_lb r' = rs_num_lb r - surplus AllocLb DeallocLb ps \<and>
   rs_num_int_regs r' = rs_num_int_regs r - surplus AllocInt DeallocInt ps \<and>
   rs_num_fp_regs r' = rs_num_fp_regs r - surplus AllocFp DeallocFp ps \<and>
   rs_max_sb_cnt r' = rs_max_sb_cnt r \<and> rs_max_lb_cnt r' = rs_max_lb_cnt r"
proof (induction ps arbitrary: r)
  case Nil
  then show ?case by simp
next
  case (Cons p ps)
  from Cons.prems(2) obtain r1 where r1: "resource_step p r = Inr r1" "resource_run ps r1 = Inr r'"
    by (auto simp add: res_simps)
  have "rs_max_sb_cnt r1 = rs_max_sb_cnt r \<and> rs_max_lb_cnt r1 = rs_max_lb_cnt r"
    using r1(1) by (cases p) (auto simp add: resource_ops check_eq_Inr)
  with Cons.IH[OF resource_step_wf[OF Cons.prems(1) r1(1)] r1(2)] resource_step_counts[OF r1(1)]
  show ?case by simp
qed

section \<open>The entries of a core and the runs that fit them\<close>

text \<open>The store and load buffer entries that the knobs of the core's type configure, cut to sixteen
  bits.\<close>

definition sb_entries :: "resource_knobs \<Rightarrow> Unit_Type \<Rightarrow> int" where
  "sb_entries k t = int ((case t of UNIT_SMALL \<Rightarrow> KNOB_MEU_NSB k | UNIT_MEDIUM \<Rightarrow> KNOB_MEU_MEDIUM_NSB k
                          | UNIT_LARGE \<Rightarrow> KNOB_MEU_LARGE_NSB k) mod 2 ^ 16)"

definition lb_entries :: "resource_knobs \<Rightarrow> Unit_Type \<Rightarrow> int" where
  "lb_entries k t = int ((case t of UNIT_SMALL \<Rightarrow> KNOB_MEU_NLB k | UNIT_MEDIUM \<Rightarrow> KNOB_MEU_MEDIUM_NLB k
                          | UNIT_LARGE \<Rightarrow> KNOB_MEU_LARGE_NLB k) mod 2 ^ 16)"

text \<open>What is held after the operations \<open>ps\<close> fits the configuration: between none and all of the
  buffer entries, and at most all of the registers.\<close>

definition holdings_fit :: "resource_knobs \<Rightarrow> Unit_Type \<Rightarrow> resource_op list \<Rightarrow> bool" where
  "holdings_fit k t ps \<longleftrightarrow>
     0 \<le> surplus AllocSb DeallocSb ps \<and> surplus AllocSb DeallocSb ps \<le> sb_entries k t \<and>
     0 \<le> surplus AllocLb DeallocLb ps \<and> surplus AllocLb DeallocLb ps \<le> lb_entries k t \<and>
     surplus AllocInt DeallocInt ps \<le> KNOB_INT_REGFILE_SIZE k \<and> surplus AllocFp DeallocFp ps \<le> KNOB_FP_REGFILE_SIZE k"

lemma uns16_of_nat: "uint (word_of_nat n :: uns16) = int (n mod 65536)"
  by (simp add: uint_nat unat_of_nat)

lemma resource_c_counts:
  "rs_num_sb (resource_c k t) = sb_entries k t" "rs_max_sb_cnt (resource_c k t) = sb_entries k t"
  "rs_num_lb (resource_c k t) = lb_entries k t" "rs_max_lb_cnt (resource_c k t) = lb_entries k t"
  "rs_num_int_regs (resource_c k t) = KNOB_INT_REGFILE_SIZE k" "rs_num_fp_regs (resource_c k t) = KNOB_FP_REGFILE_SIZE k"
  by (simp_all add: resource_c_def RESOURCE_CONFIG_def sb_entries_def lb_entries_def uns16_of_nat split: Unit_Type.split)

lemma resource_run_snoc: "resource_run (ps @ [p]) r = res_bind (resource_run ps r) (resource_step p)"
proof (induction ps arbitrary: r)
  case Nil
  then show ?case by (cases "resource_step p r") simp_all
next
  case (Cons q ps)
  then show ?case by (cases "resource_step q r") simp_all
qed

lemma prefixes_snoc:
  "(\<forall>i\<le>length (ps @ [p]). P (take i (ps @ [p]))) \<longleftrightarrow> (\<forall>i\<le>length ps. P (take i ps)) \<and> P (ps @ [p])"
  by (auto simp add: le_Suc_eq)

lemma surplus_snoc:
  "surplus a b (ps @ [p]) = surplus a b ps + (if p = a then 1 else 0) - (if p = b then 1 else 0)"
  by (simp add: surplus_def)

text \<open>One more operation succeeds exactly when its outcome still fits, and fails an assertion
  otherwise.\<close>

lemma resource_step_fit:
  assumes "holdings_fit k t ps" "rs_max_sb_cnt r = sb_entries k t" "rs_max_lb_cnt r = lb_entries k t"
    "rs_num_sb r = sb_entries k t - surplus AllocSb DeallocSb ps" "rs_num_lb r = lb_entries k t - surplus AllocLb DeallocLb ps"
    "rs_num_int_regs r = KNOB_INT_REGFILE_SIZE k - surplus AllocInt DeallocInt ps"
    "rs_num_fp_regs r = KNOB_FP_REGFILE_SIZE k - surplus AllocFp DeallocFp ps"
  shows "if holdings_fit k t (ps @ [p]) then \<exists>r'. resource_step p r = Inr r' else resource_step p r = Inl AssertFailed"
  using assms by (cases p) (auto simp add: resource_ops holdings_fit_def surplus_snoc)

lemma resource_run_iff:
  assumes k: "0 \<le> KNOB_INT_REGFILE_SIZE k" "0 \<le> KNOB_FP_REGFILE_SIZE k"
  shows "if \<forall>i\<le>length ps. holdings_fit k t (take i ps) then \<exists>r. resource_run ps (resource_c k t) = Inr r
    else resource_run ps (resource_c k t) = Inl AssertFailed"
proof (induction ps rule: rev_induct)
  case Nil
  then show ?case using k by (simp add: holdings_fit_def sb_entries_def lb_entries_def)
next
  case (snoc p ps)
  show ?case
  proof (cases "\<forall>i\<le>length ps. holdings_fit k t (take i ps)")
    case True
    with snoc obtain r where r: "resource_run ps (resource_c k t) = Inr r" by auto
    have "holdings_fit k t ps" using True by (metis order_refl take_all)
    from resource_step_fit[OF this, of r p] resource_run_spec[OF resource_c_wf[OF k] r] True r show ?thesis
      unfolding prefixes_snoc resource_run_snoc by (simp add: resource_c_counts)
  next
    case False
    with snoc have "resource_run ps (resource_c k t) = Inl AssertFailed" by auto
    with False show ?thesis unfolding prefixes_snoc resource_run_snoc by auto
  qed
qed

section \<open>Properties\<close>

text \<open>C30. The balance of the resource counters, over any sequence of allocations and releases on the
  resources the constructor makes. The sequence runs through exactly when after each of its operations
  the store and load buffer entries held are between none and the number that the knobs of the core's
  type configure, and the integer and floating-point registers held are at most the register file
  sizes; otherwise an assertion fails. When it runs through, every counter is the configured number
  less what is held, so no counter is negative and the buffer counters do not exceed the configured
  numbers. The register counters have no such upper limit: releases of registers are not checked, and
  one release on a fresh core raises the count above \<^verbatim>\<open>m_max_int_regs\<close>.\<close>

theorem resource_counters_sound:
  assumes k: "0 \<le> KNOB_INT_REGFILE_SIZE k" "0 \<le> KNOB_FP_REGFILE_SIZE k"
  shows "(case resource_run ps (resource_c k t) of
       Inl e \<Rightarrow> e = AssertFailed \<and> (\<exists>i\<le>length ps. \<not> holdings_fit k t (take i ps))
     | Inr r \<Rightarrow> (\<forall>i\<le>length ps. holdings_fit k t (take i ps)) \<and>
         rs_num_sb r = sb_entries k t - surplus AllocSb DeallocSb ps \<and> rs_num_sb r \<in> {0..sb_entries k t} \<and>
         rs_num_lb r = lb_entries k t - surplus AllocLb DeallocLb ps \<and> rs_num_lb r \<in> {0..lb_entries k t} \<and>
         rs_num_int_regs r = KNOB_INT_REGFILE_SIZE k - surplus AllocInt DeallocInt ps \<and> 0 \<le> rs_num_int_regs r \<and>
         rs_num_fp_regs r = KNOB_FP_REGFILE_SIZE k - surplus AllocFp DeallocFp ps \<and> 0 \<le> rs_num_fp_regs r) \<and>
    (\<exists>r1. dealloc_int_reg (resource_c k t) = Inr r1 \<and> rs_num_int_regs r1 > rs_max_int_regs r1)"
proof
  show "\<exists>r1. dealloc_int_reg (resource_c k t) = Inr r1 \<and> rs_num_int_regs r1 > rs_max_int_regs r1"
    by (simp add: dealloc_int_reg_def resource_c_def split: prod.splits)
  note I = resource_run_iff[OF k, of ps t]
  show "case resource_run ps (resource_c k t) of
       Inl e \<Rightarrow> e = AssertFailed \<and> (\<exists>i\<le>length ps. \<not> holdings_fit k t (take i ps))
     | Inr r \<Rightarrow> (\<forall>i\<le>length ps. holdings_fit k t (take i ps)) \<and>
         rs_num_sb r = sb_entries k t - surplus AllocSb DeallocSb ps \<and> rs_num_sb r \<in> {0..sb_entries k t} \<and>
         rs_num_lb r = lb_entries k t - surplus AllocLb DeallocLb ps \<and> rs_num_lb r \<in> {0..lb_entries k t} \<and>
         rs_num_int_regs r = KNOB_INT_REGFILE_SIZE k - surplus AllocInt DeallocInt ps \<and> 0 \<le> rs_num_int_regs r \<and>
         rs_num_fp_regs r = KNOB_FP_REGFILE_SIZE k - surplus AllocFp DeallocFp ps \<and> 0 \<le> rs_num_fp_regs r"
  proof (cases "resource_run ps (resource_c k t)")
    case (Inl e)
    with I show ?thesis by (auto split: if_splits)
  next
    case (Inr r)
    with I have fit: "\<forall>i\<le>length ps. holdings_fit k t (take i ps)" by (auto split: if_splits)
    then have "holdings_fit k t ps" by (metis order_refl take_all)
    with Inr fit resource_run_spec[OF resource_c_wf[OF k] Inr] show ?thesis
      by (simp add: resource_c_counts) (auto simp add: holdings_fit_def)
  qed
qed

definition demo_resource_knobs :: resource_knobs where
  "demo_resource_knobs =
     \<lparr>KNOB_MEU_NSB = 2, KNOB_MEU_NLB = 3, KNOB_MEU_MEDIUM_NSB = 2, KNOB_MEU_MEDIUM_NLB = 2,
      KNOB_MEU_LARGE_NSB = 65537, KNOB_MEU_LARGE_NLB = 1, KNOB_INT_REGFILE_SIZE = 8, KNOB_FP_REGFILE_SIZE = 8\<rparr>"

theorem resource_counters_sound_witness:
  "(\<exists>r. resource_run [AllocSb, AllocSb, DeallocSb, AllocInt] (resource_c demo_resource_knobs UNIT_LARGE) = Inr r) = False \<and>
   (\<exists>r. resource_run [AllocSb, AllocSb, DeallocSb, AllocInt] (resource_c demo_resource_knobs UNIT_SMALL) = Inr r \<and>
     rs_num_sb r = 1 \<and> rs_num_int_regs r = 7)"
proof -
  have k: "0 \<le> KNOB_INT_REGFILE_SIZE demo_resource_knobs" "0 \<le> KNOB_FP_REGFILE_SIZE demo_resource_knobs"
    by (simp_all add: demo_resource_knobs_def)
  note T = resource_counters_sound[OF k, of "[AllocSb, AllocSb, DeallocSb, AllocInt]", THEN conjunct1]
  have "\<not> holdings_fit demo_resource_knobs UNIT_LARGE (take 2 [AllocSb, AllocSb, DeallocSb, AllocInt])"
    by (simp add: holdings_fit_def sb_entries_def demo_resource_knobs_def)
  then have "\<not> (\<forall>i\<le>4. holdings_fit demo_resource_knobs UNIT_LARGE (take i [AllocSb, AllocSb, DeallocSb, AllocInt]))"
    by (auto intro!: exI[of _ 2])
  with T[of UNIT_LARGE] have "\<nexists>r. resource_run [AllocSb, AllocSb, DeallocSb, AllocInt] (resource_c demo_resource_knobs UNIT_LARGE) = Inr r"
    by (auto split: sum.splits)
  moreover have "\<exists>r. resource_run [AllocSb, AllocSb, DeallocSb, AllocInt] (resource_c demo_resource_knobs UNIT_SMALL) = Inr r"
    by (simp add: resource_ops resource_c_def RESOURCE_CONFIG_def demo_resource_knobs_def)
  with T[of UNIT_SMALL] have "\<exists>r. resource_run [AllocSb, AllocSb, DeallocSb, AllocInt] (resource_c demo_resource_knobs UNIT_SMALL) = Inr r \<and>
     rs_num_sb r = 1 \<and> rs_num_int_regs r = 7"
    by (auto simp add: sb_entries_def demo_resource_knobs_def split: sum.splits)
  ultimately show ?thesis by blast
qed

end
