(* ===== verification/Port.thy ===== *)
theory Port
  imports Prelude
begin

text \<open>
  The ports \<^verbatim>\<open>port_c\<close> of the caches and of the execution units, from
  \<^verbatim>\<open>src/src/port.h\<close> and \<^verbatim>\<open>src/src/port.cc\<close>: a number of reads and writes per
  cycle, and optionally writes that keep reads out.
\<close>

section \<open>The class\<close>

record port =
  po_name :: string
  po_read_last_cycle :: Counter
  po_write_last_cycle :: Counter
  po_num_read_ports :: uns32
  po_read_ports_in_use :: uns32
  po_num_write_ports :: uns32
  po_write_ports_in_use :: uns32
  po_writes_prevent_reads :: bool

definition port_c :: "string \<Rightarrow> uns32 \<Rightarrow> uns32 \<Rightarrow> bool \<Rightarrow> port" where
  "port_c name rd wr writes_prevent_reads =
     \<lparr>po_name = name, po_read_last_cycle = 0, po_write_last_cycle = 0, po_num_read_ports = rd,
      po_read_ports_in_use = 0, po_num_write_ports = wr, po_write_ports_in_use = 0,
      po_writes_prevent_reads = writes_prevent_reads\<rparr>"

definition init_port :: "string \<Rightarrow> uns32 \<Rightarrow> uns32 \<Rightarrow> bool \<Rightarrow> port \<Rightarrow> port" where
  "init_port name rd wr writes_prevent_reads p = p
     \<lparr>po_name := name, po_read_last_cycle := 0, po_write_last_cycle := 0, po_num_read_ports := rd,
      po_read_ports_in_use := 0, po_num_write_ports := wr, po_write_ports_in_use := 0,
      po_writes_prevent_reads := writes_prevent_reads\<rparr>"

definition get_read_port :: "Counter \<Rightarrow> port \<Rightarrow> (bool \<times> port) res" where
  "get_read_port cycle_count p =
     (if po_read_last_cycle p \<noteq> cycle_count
      then check (po_num_read_ports p > 0) AssertFailed
             (Inr (True, p\<lparr>po_read_last_cycle := cycle_count, po_read_ports_in_use := 1\<rparr>))
      else if po_read_ports_in_use p = po_num_read_ports p then Inr (False, p)
      else if po_write_ports_in_use p \<noteq> 0 \<and> po_writes_prevent_reads p then Inr (False, p)
      else Inr (True, p\<lparr>po_read_ports_in_use := po_read_ports_in_use p + 1\<rparr>))"

definition get_write_port :: "Counter \<Rightarrow> port \<Rightarrow> (bool \<times> port) res" where
  "get_write_port cycle_count p =
     (if po_write_last_cycle p \<noteq> cycle_count
      then check (po_num_write_ports p > 0) AssertFailed
             (Inr (True, p\<lparr>po_write_last_cycle := cycle_count, po_write_ports_in_use := 1\<rparr>))
      else if po_write_ports_in_use p = po_num_write_ports p then Inr (False, p)
      else check (\<not> (po_writes_prevent_reads p \<and> po_read_ports_in_use p \<noteq> 0)) AssertFailed
             (Inr (True, p\<lparr>po_write_ports_in_use := po_write_ports_in_use p + 1\<rparr>)))"

section \<open>Requests of one cycle\<close>

datatype port_request = Read | Write

fun port_step :: "Counter \<Rightarrow> port_request \<Rightarrow> port \<Rightarrow> (bool \<times> port) res" where
  "port_step c Read p = get_read_port c p"
| "port_step c Write p = get_write_port c p"

fun port_run :: "Counter \<Rightarrow> port_request list \<Rightarrow> port \<Rightarrow> ((port_request \<times> bool) list \<times> port) res" where
  "port_run c [] p = Inr ([], p)"
| "port_run c (q # qs) p =
     res_bind (port_step c q p) (\<lambda>(g, p1).
     res_bind (port_run c qs p1) (\<lambda>(gs, p2). Inr ((q, g) # gs, p2)))"

definition grants :: "port_request \<Rightarrow> (port_request \<times> bool) list \<Rightarrow> nat" where
  "grants q gs = count_list gs (q, True)"

text \<open>The requests a port has granted in cycle \<open>c\<close>.\<close>

definition reads_used :: "Counter \<Rightarrow> port \<Rightarrow> nat" where
  "reads_used c p = (if po_read_last_cycle p = c then unat (po_read_ports_in_use p) else 0)"

definition writes_used :: "Counter \<Rightarrow> port \<Rightarrow> nat" where
  "writes_used c p = (if po_write_last_cycle p = c then unat (po_write_ports_in_use p) else 0)"

definition port_wf :: "port \<Rightarrow> bool" where
  "port_wf p \<longleftrightarrow> po_read_ports_in_use p \<le> po_num_read_ports p \<and> po_write_ports_in_use p \<le> po_num_write_ports p"

lemma port_c_wf: "port_wf (port_c name rd wr b)" "port_wf (init_port name rd wr b p)"
  by (simp_all add: port_wf_def port_c_def init_port_def)

lemma in_use_succ:
  assumes "(u::uns32) \<le> n" "u \<noteq> n"
  shows "u + 1 \<le> n" "unat (u + 1) = unat u + 1"
proof -
  from assms have lt: "unat u < unat n" by (auto simp add: word_le_nat_alt le_less dest: unsigned_word_eqI)
  then have "unat u + 1 < 2 ^ 32" using unsigned_less[of n, where ?'a = nat] by simp
  then show u1: "unat (u + 1) = unat u + 1" by (simp add: unat_plus_if_size word_size)
  show "u + 1 \<le> n" using u1 lt by (simp add: word_le_nat_alt)
qed

lemma port_step_spec:
  assumes wf: "port_wf p" and pos: "0 < po_num_read_ports p" "0 < po_num_write_ports p"
    and free: "\<not> po_writes_prevent_reads p"
  shows "\<exists>p'. port_step c q p = Inr ((case q of Read \<Rightarrow> reads_used c p < unat (po_num_read_ports p)
                                     | Write \<Rightarrow> writes_used c p < unat (po_num_write_ports p)), p') \<and>
    port_wf p' \<and> po_num_read_ports p' = po_num_read_ports p \<and> po_num_write_ports p' = po_num_write_ports p \<and>
    \<not> po_writes_prevent_reads p' \<and>
    reads_used c p' = (if q = Read then min (unat (po_num_read_ports p)) (Suc (reads_used c p)) else reads_used c p) \<and>
    writes_used c p' = (if q = Write then min (unat (po_num_write_ports p)) (Suc (writes_used c p)) else writes_used c p)"
proof -
  from wf have le: "unat (po_read_ports_in_use p) \<le> unat (po_num_read_ports p)"
    "unat (po_write_ports_in_use p) \<le> unat (po_num_write_ports p)"
    by (simp_all add: port_wf_def word_le_nat_alt)
  have ne: "(po_read_ports_in_use p = po_num_read_ports p) = (unat (po_read_ports_in_use p) = unat (po_num_read_ports p))"
    "(po_write_ports_in_use p = po_num_write_ports p) = (unat (po_write_ports_in_use p) = unat (po_num_write_ports p))"
    by (simp_all add: word_unat_eq_iff)
  have one: "1 \<le> po_num_read_ports p" "1 \<le> po_num_write_ports p" "0 < unat (po_num_read_ports p)" "0 < unat (po_num_write_ports p)"
    using pos by (simp_all add: word_less_nat_alt word_le_nat_alt)
  note succ = in_use_succ[of "po_read_ports_in_use p" "po_num_read_ports p"]
    in_use_succ[of "po_write_ports_in_use p" "po_num_write_ports p"]
  show ?thesis
    using wf pos free le one succ
    by (cases q) (auto simp add: get_read_port_def get_write_port_def reads_used_def writes_used_def port_wf_def ne)
qed

lemma port_run_spec:
  assumes "port_wf p" "0 < po_num_read_ports p" "0 < po_num_write_ports p" "\<not> po_writes_prevent_reads p"
  shows "\<exists>gs p'. port_run c qs p = Inr (gs, p') \<and> map fst gs = qs \<and> port_wf p' \<and>
    grants Read gs = min (count_list qs Read) (unat (po_num_read_ports p) - reads_used c p) \<and>
    grants Write gs = min (count_list qs Write) (unat (po_num_write_ports p) - writes_used c p)"
  using assms
proof (induction qs arbitrary: p)
  case Nil
  then show ?case by (simp add: grants_def)
next
  case (Cons q qs)
  from port_step_spec[OF Cons.prems, of c q] obtain p1 where
    p1: "port_step c q p = Inr ((case q of Read \<Rightarrow> reads_used c p < unat (po_num_read_ports p)
                                  | Write \<Rightarrow> writes_used c p < unat (po_num_write_ports p)), p1)"
      "port_wf p1" "po_num_read_ports p1 = po_num_read_ports p" "po_num_write_ports p1 = po_num_write_ports p"
      "\<not> po_writes_prevent_reads p1"
      "reads_used c p1 = (if q = Read then min (unat (po_num_read_ports p)) (Suc (reads_used c p)) else reads_used c p)"
      "writes_used c p1 = (if q = Write then min (unat (po_num_write_ports p)) (Suc (writes_used c p)) else writes_used c p)"
    by blast
  from Cons.IH[of p1] p1(2-5) Cons.prems obtain gs p' where
    IH: "port_run c qs p1 = Inr (gs, p')" "map fst gs = qs" "port_wf p'"
      "grants Read gs = min (count_list qs Read) (unat (po_num_read_ports p) - reads_used c p1)"
      "grants Write gs = min (count_list qs Write) (unat (po_num_write_ports p) - writes_used c p1)"
    by auto
  have "port_run c (q # qs) p = Inr ((q, case q of Read \<Rightarrow> reads_used c p < unat (po_num_read_ports p)
      | Write \<Rightarrow> writes_used c p < unat (po_num_write_ports p)) # gs, p')"
    using p1(1) IH(1) by simp
  then show ?case using IH p1(6,7) by (cases q) (auto simp add: grants_def)
qed

section \<open>Properties\<close>

text \<open>C34. The port bandwidth: whatever reads and writes are requested in a cycle that the port has not
  served yet, in whatever order, a port without \<^verbatim>\<open>m_writes_prevent_reads\<close> answers all of
  them without a failed assertion and grants exactly the smaller of the number of reads requested and
  the number of read ports, and the smaller of the writes requested and the write ports (the comment
  of \<^verbatim>\<open>get_write_port\<close> in \<^verbatim>\<open>port.h\<close> names \<^verbatim>\<open>m_num_read_ports\<close> as the bound of the
  writes; the code uses \<^verbatim>\<open>m_num_write_ports\<close>).\<close>

theorem port_bandwidth:
  assumes "port_wf p" "0 < po_num_read_ports p" "0 < po_num_write_ports p" "\<not> po_writes_prevent_reads p"
    and "po_read_last_cycle p \<noteq> c" "po_write_last_cycle p \<noteq> c"
  shows "\<exists>gs p'. port_run c qs p = Inr (gs, p') \<and> map fst gs = qs \<and> port_wf p' \<and>
    grants Read gs = min (count_list qs Read) (unat (po_num_read_ports p)) \<and>
    grants Write gs = min (count_list qs Write) (unat (po_num_write_ports p))"
  using port_run_spec[OF assms(1-4), of c qs] assms(5,6) by (simp add: reads_used_def writes_used_def)

theorem port_bandwidth_witness:
  "\<exists>gs p'. port_run 5 [Read, Write, Read, Read] (port_c ''dcache'' 2 1 False) = Inr (gs, p') \<and>
     grants Read gs = 2 \<and> grants Write gs = 1"
  using port_bandwidth[OF port_c_wf(1)[where name = "''dcache''" and rd = 2 and wr = 1 and b = False],
      where c = 5 and qs = "[Read, Write, Read, Read]"] by (auto simp add: port_c_def)

text \<open>With \<^verbatim>\<open>m_writes_prevent_reads\<close>, whose documentation says that a write blocks
  reads, the first read of a cycle is granted whatever writes the cycle has already granted, because
  the branch for a new cycle does not look at the writes; and once it is granted, the next write of the
  cycle that finds a free port fails the assertion that no read is in use.\<close>

theorem write_does_not_block_first_read:
  assumes "po_writes_prevent_reads p" "0 < po_num_read_ports p"
    and "po_write_last_cycle p = c" "po_read_last_cycle p \<noteq> c" "po_write_ports_in_use p < po_num_write_ports p"
  shows "\<exists>p'. get_read_port c p = Inr (True, p') \<and> get_write_port c p' = Inl AssertFailed"
  using assms by (auto simp add: get_read_port_def get_write_port_def)

theorem write_does_not_block_first_read_witness:
  "\<exists>p p'. get_write_port 7 (port_c ''dcache'' 1 2 True) = Inr (True, p) \<and>
     get_read_port 7 p = Inr (True, p') \<and> get_write_port 7 p' = Inl AssertFailed"
proof -
  define p where "p = (port_c ''dcache'' 1 2 True)\<lparr>po_write_last_cycle := 7, po_write_ports_in_use := 1\<rparr>"
  have w: "get_write_port 7 (port_c ''dcache'' 1 2 True) = Inr (True, p)"
    by (simp add: get_write_port_def port_c_def p_def)
  have "\<exists>p'. get_read_port 7 p = Inr (True, p') \<and> get_write_port 7 p' = Inl AssertFailed"
    by (rule write_does_not_block_first_read) (simp_all add: p_def port_c_def)
  with w show ?thesis by blast
qed

end
