(* ===== verification/Allocate.thy ===== *)
theory Allocate
  imports PQueue Rob Resource BranchPred
begin

text \<open>
  The allocation stage \<^verbatim>\<open>allocate_c\<close> of \<^verbatim>\<open>src/src/allocate.h\<close> and
  \<^verbatim>\<open>src/src/allocate.cc\<close>: it moves uops from the frontend queue to the reorder buffer and an
  allocation queue while the core has the resources they need. The stage is a client of the contracts of
  \<^verbatim>\<open>pqueue_c\<close> (\<open>stage_queue\<close>), \<^verbatim>\<open>rob_c\<close> (\<open>in_order_buffer\<close>) and
  \<^verbatim>\<open>resource_c\<close> (\<open>take_counter\<close>).
\<close>

section \<open>The stage\<close>

record alloc_knobs =
  KNOB_WIDTH :: nat
  KNOB_MEDIUM_WIDTH :: nat
  KNOB_LARGE_WIDTH :: nat
  KNOB_GEN_ALLOCQ_INDEX :: nat
  KNOB_MEM_ALLOCQ_INDEX :: nat
  KNOB_FLOAT_ALLOCQ_INDEX :: nat
  KNOB_SIMD_ALLOCQ_INDEX :: nat
  KNOB_EXTRA_RECOVERY_CYCLES :: Counter
  ak_rob :: rob_knobs
  ak_cache :: cache_knobs

text \<open>The uops that the pointers of the frontend queue name are in \<open>al_uops\<close>; the pointer 0 is
  \<^verbatim>\<open>NULL\<close>. \<open>al_bp_data\<close> is \<open>None\<close> for the pointer \<^verbatim>\<open>m_bp_data\<close> that
  nothing has set.\<close>

record allocate =
  al_core_id :: nat
  al_frontend_q :: "addr pqueue"
  al_alloc_q :: "nat pqueue list"
  al_rob :: rob
  al_resource :: resource
  al_uops :: "addr \<Rightarrow> uop"
  al_knob_width :: uns16
  al_allocate_running :: bool
  al_cur_core_cycle :: Counter
  al_num_queues :: int
  al_bp_data :: "bp_data option"

text \<open>The constructor sets neither \<^verbatim>\<open>m_bp_data\<close> nor \<^verbatim>\<open>m_cur_core_cycle\<close>
  (\<open>junk\<close>).\<close>

definition allocate_c ::
  "alloc_knobs \<Rightarrow> Counter \<Rightarrow> nat \<Rightarrow> addr pqueue \<Rightarrow> nat pqueue list \<Rightarrow> (addr \<Rightarrow> uop) \<Rightarrow> rob \<Rightarrow> Unit_Type \<Rightarrow> int \<Rightarrow>
   resource \<Rightarrow> allocate" where
  "allocate_c k junk core_id q_frontend alloc_q us r unit_type num_queues resource =
     \<lparr>al_core_id = core_id, al_frontend_q = q_frontend, al_alloc_q = alloc_q, al_rob = r,
      al_resource = resource, al_uops = us,
      al_knob_width = of_nat (case unit_type of UNIT_SMALL \<Rightarrow> KNOB_WIDTH k | UNIT_MEDIUM \<Rightarrow> KNOB_MEDIUM_WIDTH k
                                | UNIT_LARGE \<Rightarrow> KNOB_LARGE_WIDTH k),
      al_allocate_running = True, al_cur_core_cycle = junk, al_num_queues = num_queues, al_bp_data = None\<rparr>"

definition start :: "allocate \<Rightarrow> allocate" where
  "start s = s\<lparr>al_allocate_running := True\<rparr>"

definition stop :: "allocate \<Rightarrow> allocate" where
  "stop s = s\<lparr>al_allocate_running := False\<rparr>"

definition is_running :: "allocate \<Rightarrow> bool" where
  "is_running s = al_allocate_running s"

text \<open>The five \<^verbatim>\<open>req_\<close> variables, of which at most one is set.\<close>

record requirement =
  req_sb :: int
  req_lb :: int
  req_int_reg :: int
  req_fp_reg :: int
  req_simd_reg :: int

definition requirements :: "uop \<Rightarrow> requirement" where
  "requirements u =
     (let z = \<lparr>req_sb = 0, req_lb = 0, req_int_reg = 0, req_fp_reg = 0, req_simd_reg = 0\<rparr>
      in if u_mem_type u = MEM_LD then z\<lparr>req_lb := 1\<rparr>
         else if u_mem_type u = MEM_ST then z\<lparr>req_sb := 1\<rparr>
         else if u_uop_type u = UOP_IADD \<or> u_uop_type u = UOP_IMUL \<or> u_uop_type u = UOP_ICMP
              then z\<lparr>req_int_reg := 1\<rparr>
         else if u_uop_type u = UOP_FCVT \<or> u_uop_type u = UOP_FADD then z\<lparr>req_fp_reg := 1\<rparr>
         else if u_uop_type u = UOP_SIMD then z\<lparr>req_simd_reg := 1\<rparr>
         else z)"

definition select_queue :: "alloc_knobs \<Rightarrow> int \<Rightarrow> requirement \<Rightarrow> nat" where
  "select_queue k num_queues rq =
     (if num_queues = 1 then KNOB_GEN_ALLOCQ_INDEX k
      else if req_fp_reg rq \<noteq> 0 then KNOB_FLOAT_ALLOCQ_INDEX k
      else if req_simd_reg rq \<noteq> 0 then KNOB_SIMD_ALLOCQ_INDEX k
      else if req_sb rq \<noteq> 0 \<or> req_lb rq \<noteq> 0 then KNOB_MEM_ALLOCQ_INDEX k
      else KNOB_GEN_ALLOCQ_INDEX k)"

definition short_of :: "requirement \<Rightarrow> nat pqueue \<Rightarrow> rob \<Rightarrow> resource \<Rightarrow> bool" where
  "short_of rq alloc_q r rs \<longleftrightarrow>
     rob_space r < 1 \<or> rs_num_sb rs < req_sb rq \<or> rs_num_lb rs < req_lb rq \<or> space alloc_q < 1 \<or>
     rs_num_int_regs rs < req_int_reg rq \<or> rs_num_fp_regs rs < req_fp_reg rq"

definition take_resources :: "requirement \<Rightarrow> resource \<Rightarrow> uop \<Rightarrow> (resource \<times> uop) res" where
  "take_resources rq rs u =
     (if req_sb rq \<noteq> 0 then res_bind (alloc_sb rs) (\<lambda>rs'. Inr (rs', u\<lparr>u_req_sb := True\<rparr>))
      else if req_lb rq \<noteq> 0 then res_bind (alloc_lb rs) (\<lambda>rs'. Inr (rs', u\<lparr>u_req_lb := True\<rparr>))
      else if req_int_reg rq \<noteq> 0 then res_bind (alloc_int_reg rs) (\<lambda>rs'. Inr (rs', u\<lparr>u_req_int_reg := True\<rparr>))
      else if req_fp_reg rq \<noteq> 0 then res_bind (alloc_fp_reg rs) (\<lambda>rs'. Inr (rs', u\<lparr>u_req_fp_reg := True\<rparr>))
      else Inr (rs, u))"

definition allocq_name :: "alloc_knobs \<Rightarrow> nat \<Rightarrow> ALLOCQ_Type" where
  "allocq_name k q_type =
     (if q_type = KNOB_GEN_ALLOCQ_INDEX k then gen_ALLOCQ
      else if q_type = KNOB_MEM_ALLOCQ_INDEX k then mem_ALLOCQ
      else if q_type = KNOB_FLOAT_ALLOCQ_INDEX k then fp_ALLOCQ
      else simd_ALLOCQ)"

text \<open>The resolution of a miss in the branch target buffer, at the end of an iteration.\<close>

definition resolves_btb_miss :: "uop \<Rightarrow> bool" where
  "resolves_btb_miss u \<longleftrightarrow> ui_btb_miss (u_uop_info u) \<and> \<not> ui_btb_miss_resolved (u_uop_info u) \<and>
     u_cf_type u < CF_IBR \<and> u_cf_type u > CF_ICO"

definition resolve_btb_miss :: "alloc_knobs \<Rightarrow> Counter \<Rightarrow> int \<Rightarrow> addr \<Rightarrow> allocate \<Rightarrow> allocate res" where
  "resolve_btb_miss k cycle appl_id a s =
     (let u = al_uops s a
      in if resolves_btb_miss u
         then case al_bp_data s of
                None \<Rightarrow> Inl DanglingPointer
              | Some d \<Rightarrow> res_bind (btb_update (ak_cache k) cycle appl_id u (bd_targ_pred d)) (\<lambda>btb.
                  Inr (s\<lparr>al_bp_data := Some (d\<lparr>bd_targ_pred := btb,
                           bd_redirect_cycle := (bd_redirect_cycle d)(u_thread_id u :=
                             al_cur_core_cycle s + 1 + KNOB_EXTRA_RECOVERY_CYCLES k)\<rparr>),
                         al_uops := (al_uops s)(a := u\<lparr>u_uop_info := (u_uop_info u)\<lparr>ui_btb_miss_resolved := True\<rparr>\<rparr>)\<rparr>))
         else Inr s)"

text \<open>The body of an iteration once the resources are there.\<close>

definition allocate_uop_entry :: "alloc_knobs \<Rightarrow> Counter \<Rightarrow> int \<Rightarrow> addr \<Rightarrow> allocate \<Rightarrow> allocate res" where
  "allocate_uop_entry k cycle appl_id a s =
     (let u = (al_uops s a)\<lparr>u_alloc_cycle := cycle\<rparr>;
          rq = requirements u;
          q_type = select_queue k (al_num_queues s) rq in
      res_bind (take_resources rq (al_resource s) u) (\<lambda>(rs, u1).
      res_bind (arr_get (al_alloc_q s) q_type) (\<lambda>q.
      res_bind (enqueue 0 (ro_last_entry (al_rob s)) q) (\<lambda>(_, q').
      let u2 = u1\<lparr>u_allocq_num := allocq_name k q_type\<rparr> in
      res_bind (rob_push (ak_rob k) ((al_uops s)(a := u2)) a (al_rob s)) (\<lambda>(us, r).
      res_bind (dequeue (al_frontend_q s)) (\<lambda>(_, _, fq).
      resolve_btb_miss k cycle appl_id a
        (s\<lparr>al_resource := rs, al_alloc_q := (al_alloc_q s)[q_type := q'], al_uops := us, al_rob := r,
           al_frontend_q := fq\<rparr>)))))))"

text \<open>One iteration; \<open>False\<close> is \<^verbatim>\<open>break\<close>.\<close>

definition allocate_one :: "alloc_knobs \<Rightarrow> Counter \<Rightarrow> int \<Rightarrow> allocate \<Rightarrow> (bool \<times> allocate) res" where
  "allocate_one k cycle appl_id s =
     res_bind (ready (al_frontend_q s)) (\<lambda>rdy.
     if \<not> rdy then Inr (False, s)
     else res_bind (peek 0 (al_frontend_q s)) (\<lambda>a.
       check (a \<noteq> 0) NullPointer
       (let rq = requirements (al_uops s a) in
        res_bind (arr_get (al_alloc_q s) (select_queue k (al_num_queues s) rq)) (\<lambda>q.
        if short_of rq q (al_rob s) (al_resource s) then Inr (False, s)
        else res_bind (allocate_uop_entry k cycle appl_id a s) (\<lambda>s'. Inr (True, s'))))))"

fun allocate_loop :: "nat \<Rightarrow> alloc_knobs \<Rightarrow> Counter \<Rightarrow> int \<Rightarrow> allocate \<Rightarrow> allocate res" where
  "allocate_loop 0 k cycle appl_id s = Inr s"
| "allocate_loop (Suc n) k cycle appl_id s =
     res_bind (allocate_one k cycle appl_id s) (\<lambda>(go, s').
     if go then allocate_loop n k cycle appl_id s' else Inr s')"

definition allocate_run_a_cycle :: "alloc_knobs \<Rightarrow> Counter \<Rightarrow> int \<Rightarrow> allocate \<Rightarrow> allocate res" where
  "allocate_run_a_cycle k cycle appl_id s =
     (if \<not> al_allocate_running s then Inr s
      else allocate_loop (unat (al_knob_width s)) k cycle appl_id s)"

section \<open>The branch that is never taken\<close>

lemma never_resolves: "\<not> resolves_btb_miss u"
  by (auto simp add: resolves_btb_miss_def less_Cf_Type_def)

lemma resolve_btb_miss_id [simp]: "resolve_btb_miss k cycle appl_id a s = Inr s"
  by (simp add: resolve_btb_miss_def never_resolves)

section \<open>The invariant of the stage\<close>

definition alloc_inv :: "alloc_knobs \<Rightarrow> allocate \<Rightarrow> bool" where
  "alloc_inv k s \<longleftrightarrow>
     pq_wf (al_frontend_q s) \<and> 0 \<notin> set (contents (al_frontend_q s)) \<and> list_all pq_wf (al_alloc_q s) \<and>
     {KNOB_GEN_ALLOCQ_INDEX k, KNOB_MEM_ALLOCQ_INDEX k, KNOB_FLOAT_ALLOCQ_INDEX k, KNOB_SIMD_ALLOCQ_INDEX k}
       \<subseteq> {..<length (al_alloc_q s)} \<and>
     rob_wf (al_rob s) \<and> ro_usable_cnt (al_rob s) \<le> ro_max_cnt (al_rob s) \<and> 0 \<le> ro_free_cnt (al_rob s) \<and>
     resource_wf (al_resource s)"

lemma alloc_invD:
  assumes "alloc_inv k s"
  shows "pq_wf (al_frontend_q s)" "0 \<notin> set (contents (al_frontend_q s))" "list_all pq_wf (al_alloc_q s)"
    "rob_wf (al_rob s)" "ro_usable_cnt (al_rob s) \<le> ro_max_cnt (al_rob s)" "0 \<le> ro_free_cnt (al_rob s)"
    "resource_wf (al_resource s)" "select_queue k n rq < length (al_alloc_q s)"
  using assms by (auto simp add: alloc_inv_def select_queue_def)

text \<open>The parts of an uop that the stage reads but does not change.\<close>

definition same_class :: "uop \<Rightarrow> uop \<Rightarrow> bool" where
  "same_class u v \<longleftrightarrow> u_mem_type u = u_mem_type v \<and> u_uop_type u = u_uop_type v"

lemma same_class_requirements: "same_class u v \<Longrightarrow> requirements u = requirements v"
  by (simp add: same_class_def requirements_def cong: if_cong)

lemma requirements_cases:
  "requirements u \<in> {\<lparr>req_sb = 1, req_lb = 0, req_int_reg = 0, req_fp_reg = 0, req_simd_reg = 0\<rparr>,
     \<lparr>req_sb = 0, req_lb = 1, req_int_reg = 0, req_fp_reg = 0, req_simd_reg = 0\<rparr>,
     \<lparr>req_sb = 0, req_lb = 0, req_int_reg = 1, req_fp_reg = 0, req_simd_reg = 0\<rparr>,
     \<lparr>req_sb = 0, req_lb = 0, req_int_reg = 0, req_fp_reg = 1, req_simd_reg = 0\<rparr>,
     \<lparr>req_sb = 0, req_lb = 0, req_int_reg = 0, req_fp_reg = 0, req_simd_reg = 1\<rparr>,
     \<lparr>req_sb = 0, req_lb = 0, req_int_reg = 0, req_fp_reg = 0, req_simd_reg = 0\<rparr>}"
  by (simp add: requirements_def Let_def)

text \<open>Taking the resources succeeds when the stage has seen them and takes exactly the required ones.\<close>

lemma take_resources_ok:
  assumes wf: "resource_wf rs" and enough: "\<not> short_of (requirements u) q r rs"
  shows "\<exists>rs' v. take_resources (requirements u) rs w = Inr (rs', v) \<and> resource_wf rs' \<and> same_class v w \<and>
    rs_num_sb rs' = rs_num_sb rs - req_sb (requirements u) \<and> rs_num_lb rs' = rs_num_lb rs - req_lb (requirements u) \<and>
    rs_num_int_regs rs' = rs_num_int_regs rs - req_int_reg (requirements u) \<and>
    rs_num_fp_regs rs' = rs_num_fp_regs rs - req_fp_reg (requirements u)"
proof -
  note R = requirements_cases[of u]
  define rq where "rq = requirements u"
  have L: "req_sb rq \<le> rs_num_sb rs" "req_lb rq \<le> rs_num_lb rs" "req_int_reg rq \<le> rs_num_int_regs rs"
    "req_fp_reg rq \<le> rs_num_fp_regs rs" using enough by (simp_all add: short_of_def rq_def not_less)
  have "\<exists>rs' v. take_resources rq rs w = Inr (rs', v) \<and> resource_wf rs' \<and> same_class v w \<and>
    rs_num_sb rs' = rs_num_sb rs - req_sb rq \<and> rs_num_lb rs' = rs_num_lb rs - req_lb rq \<and>
    rs_num_int_regs rs' = rs_num_int_regs rs - req_int_reg rq \<and> rs_num_fp_regs rs' = rs_num_fp_regs rs - req_fp_reg rq"
    using R wf L unfolding rq_def[symmetric] insert_iff
    by (elim disjE)
      (simp_all add: take_resources_def resource_ops resource_wf_def sb.within_def lb.within_def same_class_def)
  then show ?thesis by (simp add: rq_def)
qed


lemma process_version_class: "same_class (fst (process_version k u r)) u"
  "u_alloc_cycle (fst (process_version k u r)) = u_alloc_cycle u"
  "u_allocq_num (fst (process_version k u r)) = u_allocq_num u"
  by (simp_all add: process_version_def Let_def same_class_def)

lemma rob_push_frame:
  assumes "rob_push k us u r = Inr (us', r')"
  shows "ro_usable_cnt r' = ro_usable_cnt r" "ro_max_cnt r' = ro_max_cnt r" "ro_first_entry r' = ro_first_entry r"
    "ro_free_cnt r' = ro_free_cnt r - 1" "slot r' = slot r"
    "a \<noteq> u \<Longrightarrow> us' a = us a" "same_class (us' u) (us u)" "u_alloc_cycle (us' u) = u_alloc_cycle (us u)"
    "u_allocq_num (us' u) = u_allocq_num (us u)"
proof -
  define r1 where "r1 = r\<lparr>ro_rob := (ro_rob r)[ro_last_entry r := Some u],
    ro_last_entry := (ro_last_entry r + 1) mod ro_max_cnt r, ro_free_cnt := ro_free_cnt r - 1\<rparr>"
  have eq: "us' = us(u := fst (process_version k (us u) r1))" "r' = snd (process_version k (us u) r1)"
    using assms by (auto simp add: rob_push_def res_simps arr_set_eq_Inr r1_def Let_def split: prod.splits)
  have ring: "ring r' = ring r1" unfolding eq(2) by (rule process_version_ring)
  then show "ro_usable_cnt r' = ro_usable_cnt r" "ro_max_cnt r' = ro_max_cnt r" "ro_first_entry r' = ro_first_entry r"
    "ro_free_cnt r' = ro_free_cnt r - 1" "slot r' = slot r"
    by (simp_all add: ring_def r1_def slot_def fun_eq_iff)
  show "a \<noteq> u \<Longrightarrow> us' a = us a" "same_class (us' u) (us u)" "u_alloc_cycle (us' u) = u_alloc_cycle (us u)"
    "u_allocq_num (us' u) = u_allocq_num (us u)"
    by (simp_all add: eq(1) process_version_class)
qed

section \<open>What an iteration does\<close>

text \<open>The buffer entries that the queue \<open>q\<close> receives when the uops \<open>moved\<close> are
  allocated.\<close>

definition routed :: "alloc_knobs \<Rightarrow> allocate \<Rightarrow> nat \<Rightarrow> addr list \<Rightarrow> nat list" where
  "routed k s q moved =
     map (\<lambda>(i, a). slot (al_rob s) i)
       (filter (\<lambda>(i, a). select_queue k (al_num_queues s) (requirements (al_uops s a)) = q)
         (enumerate (length (items (al_rob s))) moved))"

definition demand :: "(requirement \<Rightarrow> int) \<Rightarrow> allocate \<Rightarrow> addr list \<Rightarrow> int" where
  "demand f s moved = (\<Sum>a\<leftarrow>moved. f (requirements (al_uops s a)))"

definition allocated :: "alloc_knobs \<Rightarrow> Counter \<Rightarrow> allocate \<Rightarrow> addr list \<Rightarrow> allocate \<Rightarrow> bool" where
  "allocated k cycle s moved s' \<longleftrightarrow> alloc_inv k s' \<and>
     contents (al_frontend_q s) = moved @ contents (al_frontend_q s') \<and>
     items (al_rob s') = items (al_rob s) @ moved \<and> slot (al_rob s') = slot (al_rob s) \<and>
     length (al_alloc_q s') = length (al_alloc_q s) \<and>
     (\<forall>q < length (al_alloc_q s). mset (contents (al_alloc_q s' ! q)) =
        mset (contents (al_alloc_q s ! q)) + mset (routed k s q moved)) \<and>
     rs_num_sb (al_resource s') = rs_num_sb (al_resource s) - demand req_sb s moved \<and>
     rs_num_lb (al_resource s') = rs_num_lb (al_resource s) - demand req_lb s moved \<and>
     rs_num_int_regs (al_resource s') = rs_num_int_regs (al_resource s) - demand req_int_reg s moved \<and>
     rs_num_fp_regs (al_resource s') = rs_num_fp_regs (al_resource s) - demand req_fp_reg s moved \<and>
     (\<forall>a. same_class (al_uops s' a) (al_uops s a)) \<and>
     (\<forall>a. if a \<in> set moved then u_alloc_cycle (al_uops s' a) = cycle else al_uops s' a = al_uops s a) \<and>
     al_num_queues s' = al_num_queues s"

lemma allocated_refl: "alloc_inv k s \<Longrightarrow> allocated k cycle s [] s"
  by (simp add: allocated_def routed_def demand_def same_class_def)

lemma routed_trans:
  assumes "slot (al_rob s1) = slot (al_rob s)" "length (items (al_rob s1)) = length (items (al_rob s)) + length xs"
    "\<forall>a. same_class (al_uops s1 a) (al_uops s a)" "al_num_queues s1 = al_num_queues s"
  shows "routed k s q (xs @ ys) = routed k s q xs @ routed k s1 q ys"
proof -
  have "requirements (al_uops s1 a) = requirements (al_uops s a)" for a using assms(3) same_class_requirements by blast
  then show ?thesis using assms by (simp add: routed_def enumerate_append_eq del: length_items)
qed

lemma demand_trans:
  assumes "\<forall>a. same_class (al_uops s1 a) (al_uops s a)"
  shows "demand f s (xs @ ys) = demand f s xs + demand f s1 ys"
proof -
  have "requirements (al_uops s1 a) = requirements (al_uops s a)" for a using assms same_class_requirements by blast
  then show ?thesis by (simp add: demand_def)
qed

lemma allocated_trans:
  assumes "allocated k cycle s xs s1" "allocated k cycle s1 ys s2"
  shows "allocated k cycle s (xs @ ys) s2"
proof -
  have c: "\<forall>a. same_class (al_uops s1 a) (al_uops s a)" and n: "al_num_queues s1 = al_num_queues s"
    and sl: "slot (al_rob s1) = slot (al_rob s)" and l: "length (items (al_rob s1)) = length (items (al_rob s)) + length xs"
    using assms(1) by (simp_all add: allocated_def del: length_items)
  have "\<forall>a. same_class (al_uops s2 a) (al_uops s a)"
    using c assms(2) by (simp add: allocated_def same_class_def)
  moreover have "\<forall>a. if a \<in> set (xs @ ys) then u_alloc_cycle (al_uops s2 a) = cycle else al_uops s2 a = al_uops s a"
    using assms unfolding allocated_def set_append Un_iff by metis
  ultimately show ?thesis
    using assms unfolding allocated_def routed_trans[OF sl l c n] demand_trans[OF c] by simp
qed


text \<open>The queue an uop would go to, and whether the stage would stall on it.\<close>

abbreviation target_queue :: "alloc_knobs \<Rightarrow> allocate \<Rightarrow> addr \<Rightarrow> nat" where
  "target_queue k s a \<equiv> select_queue k (al_num_queues s) (requirements (al_uops s a))"

definition stalled :: "alloc_knobs \<Rightarrow> allocate \<Rightarrow> addr \<Rightarrow> bool" where
  "stalled k s a \<longleftrightarrow>
     short_of (requirements (al_uops s a)) (al_alloc_q s ! target_queue k s a) (al_rob s) (al_resource s)"

lemma allocated_single:
  assumes inv: "alloc_inv k s" and q: "pq_wf q'" "mset (contents q') = add_mset (ro_last_entry (al_rob s)) (mset (contents (al_alloc_q s ! qt)))"
    and qt: "qt = target_queue k s a" and rs: "resource_wf rs"
      "rs_num_sb rs = rs_num_sb (al_resource s) - req_sb (requirements (al_uops s a))"
      "rs_num_lb rs = rs_num_lb (al_resource s) - req_lb (requirements (al_uops s a))"
      "rs_num_int_regs rs = rs_num_int_regs (al_resource s) - req_int_reg (requirements (al_uops s a))"
      "rs_num_fp_regs rs = rs_num_fp_regs (al_resource s) - req_fp_reg (requirements (al_uops s a))"
    and fq: "pq_wf fq" "contents (al_frontend_q s) = a # contents fq"
    and r: "rob_push kr us a (al_rob s) = Inr (us', r)" "rob_wf r" "items r = items (al_rob s) @ [a]" "0 < ro_free_cnt (al_rob s)"
    and us: "\<forall>b. b \<noteq> a \<longrightarrow> us b = al_uops s b" "same_class (us a) (al_uops s a)" "u_alloc_cycle (us a) = cycle"
  shows "allocated k cycle s [a] (s\<lparr>al_resource := rs, al_alloc_q := (al_alloc_q s)[qt := q'], al_uops := us',
    al_rob := r, al_frontend_q := fq\<rparr>)"
proof -
  note P = rob_push_frame[OF r(1)] and I = alloc_invD[OF inv]
  have last: "slot (al_rob s) (nat (entries (al_rob s))) = ro_last_entry (al_rob s)" using rob_wfD(6)[OF I(4)] by simp
  have ql: "qt < length (al_alloc_q s)" unfolding qt by (rule I(8))
  have cls: "same_class (us' b) (al_uops s b)" for b
    using P(6)[of b] P(7) us by (cases "b = a") (auto simp add: same_class_def)
  have uops: "\<forall>b. if b \<in> set [a] then u_alloc_cycle (us' b) = cycle else us' b = al_uops s b"
    using P(6,8) us by simp
  have "alloc_inv k (s\<lparr>al_resource := rs, al_alloc_q := (al_alloc_q s)[qt := q'], al_uops := us',
      al_rob := r, al_frontend_q := fq\<rparr>)"
    using inv q(1) rs(1) fq r(2,4) P(1,2,4) by (simp add: alloc_inv_def list_all_update)
  then show ?thesis
    using uops cls ql rs(2-5) fq(2) r(3) P(5) q(2) last qt
    by (simp add: allocated_def demand_def routed_def nth_list_update)
qed

lemma allocate_uop_entry_ok:
  assumes inv: "alloc_inv k s" and rdy: "ready (al_frontend_q s) = Inr True"
    and c: "contents (al_frontend_q s) = a # rest" and go: "\<not> stalled k s a"
  shows "\<exists>s'. allocate_uop_entry k cycle appl_id a s = Inr s' \<and> allocated k cycle s [a] s'"
proof -
  note I = alloc_invD[OF inv]
  define u where "u = (al_uops s a)\<lparr>u_alloc_cycle := cycle\<rparr>"
  define qt where "qt = target_queue k s a"
  have ru: "requirements u = requirements (al_uops s a)" unfolding u_def by (rule same_class_requirements) (simp add: same_class_def)
  have ql: "qt < length (al_alloc_q s)" unfolding qt_def by (rule I(8))
  have enough: "\<not> short_of (requirements (al_uops s a)) (al_alloc_q s ! qt) (al_rob s) (al_resource s)"
    using go by (simp add: stalled_def qt_def)
  have room: "0 < space (al_alloc_q s ! qt)" and free: "0 < ro_free_cnt (al_rob s)"
    using enough by (simp_all add: short_of_def rob_space_def)
  from take_resources_ok[OF I(7) enough, of u] obtain rs v where
    rs: "take_resources (requirements (al_uops s a)) (al_resource s) u = Inr (rs, v)" "resource_wf rs" "same_class v u"
      "rs_num_sb rs = rs_num_sb (al_resource s) - req_sb (requirements (al_uops s a))"
      "rs_num_lb rs = rs_num_lb (al_resource s) - req_lb (requirements (al_uops s a))"
      "rs_num_int_regs rs = rs_num_int_regs (al_resource s) - req_int_reg (requirements (al_uops s a))"
      "rs_num_fp_regs rs = rs_num_fp_regs (al_resource s) - req_fp_reg (requirements (al_uops s a))" by blast
  have vc: "u_alloc_cycle v = cycle"
    using rs(1) by (auto simp add: take_resources_def res_simps u_def split: if_splits)
  have "pq_wf (al_alloc_q s ! qt)" using I(3) ql by (simp add: list_all_length)
  from pq.enq_room[OF this room, of 0 "ro_last_entry (al_rob s)"] obtain q' where
    q': "enqueue 0 (ro_last_entry (al_rob s)) (al_alloc_q s ! qt) = Inr (True, q')" "pq_wf q'"
      "mset (contents q') = add_mset (ro_last_entry (al_rob s)) (mset (contents (al_alloc_q s ! qt)))" by blast
  define us where "us = (al_uops s)(a := v\<lparr>u_allocq_num := allocq_name k qt\<rparr>)"
  have "entries (al_rob s) < int (ro_max_cnt (al_rob s))" using I(5) free by (simp add: entries_def)
  with I(4) obtain us' r where r: "rob_push (ak_rob k) us a (al_rob s) = Inr (us', r)" "rob_wf r" "items r = items (al_rob s) @ [a]"
    by (rule rob_push_wf)
  from pq.deq_head[OF I(1) rdy] c obtain p fq where
    fq: "dequeue (al_frontend_q s) = Inr (p, a, fq)" "pq_wf fq" "contents (al_frontend_q s) = a # contents fq" by auto
  have "allocated k cycle s [a] (s\<lparr>al_resource := rs, al_alloc_q := (al_alloc_q s)[qt := q'], al_uops := us',
      al_rob := r, al_frontend_q := fq\<rparr>)"
    using rs(3) vc by (intro allocated_single[OF inv q'(2,3) qt_def rs(2,4-7) fq(2,3) r free])
      (simp_all add: us_def same_class_def u_def)
  moreover have "allocate_uop_entry k cycle appl_id a s = Inr (s\<lparr>al_resource := rs,
      al_alloc_q := (al_alloc_q s)[qt := q'], al_uops := us', al_rob := r, al_frontend_q := fq\<rparr>)"
    using rs(1) ql q'(1) r(1) fq(1)
    by (simp add: allocate_uop_entry_def u_def[symmetric] ru qt_def[symmetric] us_def[symmetric])
  ultimately show ?thesis by blast
qed

lemma allocate_one_cases:
  assumes inv: "alloc_inv k s"
  obtains (idle) "ready (al_frontend_q s) = Inr False" "allocate_one k cycle appl_id s = Inr (False, s)"
    | (stall) a rest where "ready (al_frontend_q s) = Inr True" "contents (al_frontend_q s) = a # rest" "stalled k s a"
        "allocate_one k cycle appl_id s = Inr (False, s)"
    | (move) a s' where "allocate_one k cycle appl_id s = Inr (True, s')" "allocated k cycle s [a] s'"
proof -
  note I = alloc_invD[OF inv]
  obtain b where b: "ready (al_frontend_q s) = Inr b" using pq.rdy_total[OF I(1)] by blast
  show ?thesis
  proof (cases b)
    case False
    with b show ?thesis by (intro idle) (simp_all add: allocate_one_def)
  next
    case True
    with b have rdy: "ready (al_frontend_q s) = Inr True" by simp
    have ne: "contents (al_frontend_q s) \<noteq> []" by (rule pq.rdy_nonempty[OF I(1) rdy])
    then obtain a rest where c: "contents (al_frontend_q s) = a # rest" by (cases "contents (al_frontend_q s)") auto
    have pk: "peek 0 (al_frontend_q s) = Inr a" using pq.pk_head[OF I(1) ne] c by simp
    have a: "a \<noteq> 0" using I(2) c by auto
    note ql = I(8)[of "al_num_queues s" "requirements (al_uops s a)"]
    have eq: "allocate_one k cycle appl_id s = (if stalled k s a then Inr (False, s)
        else res_bind (allocate_uop_entry k cycle appl_id a s) (\<lambda>s'. Inr (True, s')))"
      using rdy pk a ql by (simp add: allocate_one_def stalled_def Let_def)
    show ?thesis
    proof (cases "stalled k s a")
      case True
      with eq rdy c show ?thesis by (intro stall) simp_all
    next
      case False
      from allocate_uop_entry_ok[OF inv rdy c False, of cycle appl_id] obtain s' where
        s': "allocate_uop_entry k cycle appl_id a s = Inr s'" "allocated k cycle s [a] s'" by blast
      with eq False show ?thesis by (intro move[of s' a]) simp_all
    qed
  qed
qed

lemma allocate_loop_ok:
  "alloc_inv k s \<Longrightarrow> \<exists>moved s'. allocate_loop n k cycle appl_id s = Inr s' \<and> allocated k cycle s moved s' \<and>
     length moved \<le> n \<and> (length moved = n \<or> ready (al_frontend_q s') = Inr False \<or>
       (\<exists>a rest. contents (al_frontend_q s') = a # rest \<and> stalled k s' a))"
proof (induction n arbitrary: s)
  case 0
  then show ?case using allocated_refl by auto
next
  case (Suc n)
  note inv = Suc.prems
  show ?case
  proof (rule allocate_one_cases[OF inv, of cycle appl_id])
    assume "ready (al_frontend_q s) = Inr False" "allocate_one k cycle appl_id s = Inr (False, s)"
    then show ?thesis using allocated_refl[OF inv, of cycle] by (intro exI[of _ "[]"] exI[of _ s]) simp
  next
    fix a rest
    assume "contents (al_frontend_q s) = a # rest" "stalled k s a" "allocate_one k cycle appl_id s = Inr (False, s)"
    then show ?thesis using allocated_refl[OF inv, of cycle] by (intro exI[of _ "[]"] exI[of _ s]) simp
  next
    fix a s1
    assume one: "allocate_one k cycle appl_id s = Inr (True, s1)" "allocated k cycle s [a] s1"
    then have "alloc_inv k s1" by (simp add: allocated_def)
    from Suc.IH[OF this] obtain moved s' where
      "allocate_loop n k cycle appl_id s1 = Inr s'" and al: "allocated k cycle s1 moved s'" "length moved \<le> n"
      "length moved = n \<or> ready (al_frontend_q s') = Inr False \<or> (\<exists>a rest. contents (al_frontend_q s') = a # rest \<and> stalled k s' a)"
      by blast
    with one allocated_trans[OF one(2) al(1)] show ?thesis by (intro exI[of _ "a # moved"] exI[of _ s']) simp
  qed
qed


section \<open>Properties\<close>

text \<open>C5. A cycle of the allocation stage, from any state that satisfies the invariant: it ends
  without a failed assertion, a null pointer or an index outside a queue array, keeps the invariant, and
  moves a prefix of the frontend queue, at most \<^verbatim>\<open>m_knob_width\<close> uops, to the back of the
  reorder buffer in order. Allocation queue \<open>q\<close> receives exactly the buffer entries of the moved
  uops that are routed to it, the free store buffers, load buffers, integer and floating-point registers
  decrease by exactly what the moved uops require, the moved uops get the cycle as their allocation
  cycle, and no other uop changes. The stage stops early only if the frontend queue has no ready entry
  or the next uop lacks a buffer entry, a queue slot or a resource it needs. A stopped stage does
  nothing.\<close>

theorem allocate_cycle_correct:
  assumes "alloc_inv k s" "al_allocate_running s"
  shows "\<exists>moved s'. allocate_run_a_cycle k cycle appl_id s = Inr s' \<and> alloc_inv k s' \<and>
    contents (al_frontend_q s) = moved @ contents (al_frontend_q s') \<and> length moved \<le> unat (al_knob_width s) \<and>
    items (al_rob s') = items (al_rob s) @ moved \<and>
    (\<forall>q < length (al_alloc_q s). mset (contents (al_alloc_q s' ! q)) =
       mset (contents (al_alloc_q s ! q)) + mset (routed k s q moved)) \<and>
    rs_num_sb (al_resource s') = rs_num_sb (al_resource s) - demand req_sb s moved \<and>
    rs_num_lb (al_resource s') = rs_num_lb (al_resource s) - demand req_lb s moved \<and>
    rs_num_int_regs (al_resource s') = rs_num_int_regs (al_resource s) - demand req_int_reg s moved \<and>
    rs_num_fp_regs (al_resource s') = rs_num_fp_regs (al_resource s) - demand req_fp_reg s moved \<and>
    (\<forall>a. if a \<in> set moved then u_alloc_cycle (al_uops s' a) = cycle else al_uops s' a = al_uops s a) \<and>
    (length moved = unat (al_knob_width s) \<or> ready (al_frontend_q s') = Inr False \<or>
       (\<exists>a rest. contents (al_frontend_q s') = a # rest \<and> stalled k s' a)) \<and>
    allocate_run_a_cycle k cycle appl_id (stop s) = Inr (stop s)"
proof -
  from allocate_loop_ok[OF assms(1), of "unat (al_knob_width s)" cycle appl_id] obtain moved s' where
    loop: "allocate_loop (unat (al_knob_width s)) k cycle appl_id s = Inr s'" "allocated k cycle s moved s'"
      "length moved \<le> unat (al_knob_width s)"
      "length moved = unat (al_knob_width s) \<or> ready (al_frontend_q s') = Inr False \<or>
       (\<exists>a rest. contents (al_frontend_q s') = a # rest \<and> stalled k s' a)" by blast
  have "allocate_run_a_cycle k cycle appl_id s = Inr s'" using loop(1) assms(2) by (simp add: allocate_run_a_cycle_def)
  moreover have "allocate_run_a_cycle k cycle appl_id (stop s) = Inr (stop s)"
    by (simp add: allocate_run_a_cycle_def stop_def)
  moreover note loop(2)[unfolded allocated_def] loop(3,4)
  ultimately show ?thesis by (intro exI[of _ moved] exI[of _ s']) blast
qed

definition demo_alloc_knobs :: alloc_knobs where
  "demo_alloc_knobs =
     \<lparr>KNOB_WIDTH = 2, KNOB_MEDIUM_WIDTH = 2, KNOB_LARGE_WIDTH = 4, KNOB_GEN_ALLOCQ_INDEX = 0, KNOB_MEM_ALLOCQ_INDEX = 1,
      KNOB_FLOAT_ALLOCQ_INDEX = 2, KNOB_SIMD_ALLOCQ_INDEX = 3, KNOB_EXTRA_RECOVERY_CYCLES = 0,
      ak_rob = \<lparr>KNOB_FENCE_ENABLE = False, KNOB_USE_WB = False, KNOB_ACQ_REL = False\<rparr>,
      ak_cache = demo_knobs True\<rparr>"

text \<open>A core with an idle frontend: the empty queues of the constructors satisfy the invariant.\<close>

definition demo_allocate :: "addr pqueue \<Rightarrow> allocate" where
  "demo_allocate fq = allocate_c demo_alloc_knobs 0 0 fq
     [pqueue_c 4 1, pqueue_c 4 1, pqueue_c 4 1, pqueue_c 4 1]
     (\<lambda>a. zero_uop\<lparr>u_mem_type := MEM_LD\<rparr>) (rob_c 0 0 0 8) UNIT_SMALL 4 (resource_c demo_resource_knobs UNIT_SMALL)"

lemma demo_allocate_inv:
  assumes "pq_wf fq" "0 \<notin> set (contents fq)"
  shows "alloc_inv demo_alloc_knobs (demo_allocate fq)"
  using assms rob_new_wf[of 8] resource_c_wf[of demo_resource_knobs UNIT_SMALL]
  by (simp add: alloc_inv_def demo_allocate_def allocate_c_def demo_alloc_knobs_def pq_wf_new rob_c_def demo_resource_knobs_def)

text \<open>One load in the frontend queue.\<close>

theorem allocate_cycle_correct_witness:
  "\<exists>fq s'. enqueue 0 7 (pqueue_c 4 0 :: addr pqueue) = Inr (True, fq) \<and>
     allocate_run_a_cycle demo_alloc_knobs 5 0 (demo_allocate fq) = Inr s' \<and>
     contents fq = items (al_rob s') @ contents (al_frontend_q s') \<and> length (items (al_rob s')) \<le> 2"
proof -
  have wf: "pq_wf (pqueue_c 4 0 :: addr pqueue)" by (rule pq_wf_new) simp
  have "0 < space (pqueue_c 4 0 :: addr pqueue)" by (simp add: space_def pqueue_c_def)
  from pq.enq_room[OF wf this, of 0 7] obtain fq where
    fq: "enqueue 0 7 (pqueue_c 4 0 :: addr pqueue) = Inr (True, fq)" "pq_wf fq"
      "mset (contents fq) = add_mset 7 (mset (contents (pqueue_c 4 0 :: addr pqueue)))" by blast
  have "contents (pqueue_c 4 0 :: addr pqueue) = []" by (simp add: contents_def stages_def pqueue_c_def)
  with fq(3) have "contents fq = [7]" by simp
  with fq(2) have inv: "alloc_inv demo_alloc_knobs (demo_allocate fq)" by (intro demo_allocate_inv) simp_all
  have run: "al_allocate_running (demo_allocate fq)" and w: "unat (al_knob_width (demo_allocate fq)) = 2"
    and f: "al_frontend_q (demo_allocate fq) = fq" and e: "items (al_rob (demo_allocate fq)) = []"
    using rob_new_wf[of 8] by (simp_all add: demo_allocate_def allocate_c_def demo_alloc_knobs_def)
  from allocate_cycle_correct[OF inv run, of 5 0] obtain moved s' where
    "allocate_run_a_cycle demo_alloc_knobs 5 0 (demo_allocate fq) = Inr s'" "contents fq = moved @ contents (al_frontend_q s')"
    "length moved \<le> 2" "items (al_rob s') = moved" unfolding w f e append_Nil by blast
  with fq(1) show ?thesis by blast
qed

end
