(* ===== verification/DepMap.thy ===== *)
theory DepMap
  imports Uop
begin

text \<open>
  The dependence maps \<^verbatim>\<open>map_c\<close> of \<^verbatim>\<open>src/src/map.h\<close> and \<^verbatim>\<open>src/src/map.cc\<close>:
  per thread, the last writer of every register and the pending stores of every quadword. The uops are
  in a store \<open>us\<close> that the operations read and return updated. The two \<^verbatim>\<open>hash_c\<close>
  tables are partial functions (their contract is proved in \<open>Utils\<close>); an entry that
  \<^verbatim>\<open>hash_table_access_create\<close> takes from its pool may be a recycled object, so its previous
  contents are an argument.
\<close>

section \<open>Data\<close>

definition NUM_REG_IDS :: nat where
  "NUM_REG_IDS = 1600"

definition MAX_UOP_SRC_DEPS :: nat where
  "MAX_UOP_SRC_DEPS = 10"

definition BYTES_IN_QUADWORD :: nat where
  "BYTES_IN_QUADWORD = 8"

record map_entry =
  me_uop :: ptr
  me_uop_num :: Counter
  me_inst_num :: Counter
  me_pc :: Addr
  me_unique_num :: Counter
  me_thread_id :: int
  me_mem_type :: Mem_Type

record mem_map_entry =
  mm_uop :: "ptr list"
  mm_data :: uns64
  mm_store_mask :: uns8

record map_data =
  md_reg_map :: "map_entry list"
  md_map_flags :: "bool list"
  md_last_store :: "map_entry list"
  md_last_store_flag :: bool
  md_oracle_mem_hash :: "uns64 \<rightharpoonup> mem_map_entry"

type_synonym core_map = "uns64 \<rightharpoonup> map_data"

type_synonym uops = "addr \<Rightarrow> uop"

record map_knobs =
  KNOB_MEM_OBEY_STORE_DEP :: bool
  KNOB_MEM_OOO_STORES :: bool
  KNOB_USE_NEW_ORACLE :: bool
  KNOB_IGNORE_DEP :: bool

text \<open>\<open>invu\<close> is the address of \<^verbatim>\<open>m_invalid_uop\<close>. The fields that
  \<^verbatim>\<open>initialize\<close> does not name keep their values.\<close>

definition map_data_initialize :: "addr \<Rightarrow> map_data \<Rightarrow> map_data" where
  "map_data_initialize invu d = d
     \<lparr>md_reg_map := map (\<lambda>e. e\<lparr>me_uop := Some invu, me_uop_num := 0, me_unique_num := 0, me_thread_id := 0\<rparr>)
                        (take (NUM_REG_IDS * 2) (md_reg_map d)),
      md_map_flags := replicate (NUM_REG_IDS * 2) False,
      md_last_store := map (\<lambda>e. e\<lparr>me_uop := Some invu, me_uop_num := 0\<rparr>) (take 2 (md_last_store d)),
      md_last_store_flag := False,
      md_oracle_mem_hash := (\<lambda>_. None)\<rparr>"

section \<open>Macros\<close>

definition MEM_MAP_KEY :: "Addr \<Rightarrow> bool \<Rightarrow> uns64" where
  "MEM_MAP_KEY va off_path = push_bit 1 (drop_bit 3 va) OR of_bool off_path"

definition BYTE_OVERLAP :: "Addr \<Rightarrow> nat \<Rightarrow> Addr \<Rightarrow> nat \<Rightarrow> bool" where
  "BYTE_OVERLAP a0 s0 a1 s1 \<longleftrightarrow> \<not> (a0 \<ge> a1 + of_nat s1 \<or> a1 \<ge> a0 + of_nat s0)"

definition xsetbit :: "uns8 \<Rightarrow> nat \<Rightarrow> uns8" where
  "xsetbit x y = x OR push_bit y 1"

definition xclearbit :: "uns8 \<Rightarrow> nat \<Rightarrow> uns8" where
  "xclearbit x y = x AND NOT (push_bit y 1)"

definition xtestbit :: "uns8 \<Rightarrow> nat \<Rightarrow> bool" where
  "xtestbit x y \<longleftrightarrow> drop_bit y x AND 1 \<noteq> 0"

definition thread_key :: "uop \<Rightarrow> uns64" where
  "thread_key u = of_int (u_thread_id u)"

definition first_byte :: "Addr \<Rightarrow> nat" where
  "first_byte va = unat (va AND 0x7)"

section \<open>Sources\<close>

definition set_not_rdy_bit :: "nat \<Rightarrow> uop \<Rightarrow> uop res" where
  "set_not_rdy_bit n u =
     check (n < u_num_srcs u) AssertFailed
       (Inr (u\<lparr>u_srcs_not_rdy_vector := u_srcs_not_rdy_vector u OR push_bit n 1\<rparr>))"

definition set_src_info :: "nat \<Rightarrow> src_info \<Rightarrow> uop \<Rightarrow> uop res" where
  "set_src_info n i u =
     res_bind (arr_set (u_map_src_info u) n i) (\<lambda>l. set_not_rdy_bit n (u\<lparr>u_map_src_info := l\<rparr>))"

definition add_src_from_map_entry :: "uops \<Rightarrow> uop \<Rightarrow> nat \<Rightarrow> map_entry \<Rightarrow> Dep_Type \<Rightarrow> uop res" where
  "add_src_from_map_entry us u src_num e ty =
     (case me_uop e of
        None \<Rightarrow> Inl AssertFailed
      | Some s \<Rightarrow>
          let u1 = (if u_hmc_inst (us s) \<noteq> HMC_NONE \<and> u_hmc_inst u = HMC_NONE \<and> u_mem_type (us s) \<noteq> NOT_MEM
                    then u\<lparr>u_dep_on_hmc_inst := True\<rparr> else u) in
          check (src_num < MAX_UOP_SRC_DEPS) AssertFailed
          (check (u_uop_num u1 = 0 \<or> me_uop_num e < u_uop_num u1 \<or> u_off_path u1) AssertFailed
          (set_src_info src_num
            \<lparr>si_type = ty, si_uop = Some s, si_uop_num = me_uop_num e, si_unique_num = me_unique_num e\<rparr> u1)))"

text \<open>The search for a source with the same uop number: \<open>True\<close> when there is one.\<close>

fun has_src :: "uops \<Rightarrow> Counter \<Rightarrow> nat \<Rightarrow> src_info list \<Rightarrow> bool res" where
  "has_src us n 0 is = Inr False"
| "has_src us n (Suc k) [] = Inl OutOfBounds"
| "has_src us n (Suc k) (i # is) =
     (case si_uop i of
        None \<Rightarrow> Inl NullPointer
      | Some s \<Rightarrow> if u_uop_num (us s) = n then Inr True else has_src us n k is)"

definition add_src_from_uop :: "uops \<Rightarrow> addr \<Rightarrow> addr \<Rightarrow> Dep_Type \<Rightarrow> uops res" where
  "add_src_from_uop us a s ty =
     (let u = us a; src = us s in
      res_bind (has_src us (u_uop_num src) (u_num_srcs u) (u_map_src_info u)) (\<lambda>found.
       if found then Inr us
       else check (ty \<noteq> REG_DATA_DEP) AssertFailed
         (let src_num = u_num_srcs u; u1 = u\<lparr>u_num_srcs := src_num + 1\<rparr> in
          check (src_num < MAX_UOP_SRC_DEPS) AssertFailed
          (check (u_uop_num src < u_uop_num u1 \<or> (u_thread_id u1 \<noteq> - 1 \<and> u_thread_id src \<noteq> - 1) \<or>
                  (u_off_path u1 \<and> u_thread_id src \<noteq> - 1)) AssertFailed
          (res_bind (set_src_info src_num
             \<lparr>si_type = ty, si_uop = Some s, si_uop_num = u_uop_num src, si_unique_num = u_unique_num src\<rparr> u1) (\<lambda>u2.
           Inr (us(a := u2))))))))"

section \<open>The register map\<close>

fun read_reg_loop :: "uops \<Rightarrow> map_data \<Rightarrow> nat list \<Rightarrow> uop \<Rightarrow> uop res" where
  "read_reg_loop us d [] u = Inr u"
| "read_reg_loop us d (ii # iis) u =
     res_bind (arr_get (u_src_info u) ii) (\<lambda>w. let id = unat w in
     check (id < NUM_REG_IDS) AssertFailed
     (res_bind (arr_get (md_map_flags d) id) (\<lambda>flag.
      let ind = id * 2 + (if flag then 1 else 0) in
      check (ind < NUM_REG_IDS * 2) AssertFailed
      (res_bind (arr_get (md_reg_map d) ind) (\<lambda>e.
       res_bind (add_src_from_map_entry us u ii e REG_DATA_DEP) (read_reg_loop us d iis))))))"

text \<open>\<open>fresh\<close> is the object the pool gives for a thread that has no entry.\<close>

definition read_reg_map :: "addr \<Rightarrow> map_data \<Rightarrow> addr \<Rightarrow> uops \<times> core_map \<Rightarrow> (uops \<times> core_map) res" where
  "read_reg_map invu fresh a = (\<lambda>(us, cm).
     let key = thread_key (us a);
         d = (case cm key of Some d \<Rightarrow> d | None \<Rightarrow> map_data_initialize invu fresh)
     in res_bind (read_reg_loop us d [0..<u_num_srcs (us a)] (us a)) (\<lambda>u.
        Inr (us(a := u), cm(key \<mapsto> d))))"

definition read_store_map :: "map_knobs \<Rightarrow> addr \<Rightarrow> uops \<times> core_map \<Rightarrow> (uops \<times> core_map) res" where
  "read_store_map k a = (\<lambda>(us, cm).
     case cm (thread_key (us a)) of
       None \<Rightarrow> Inl AssertFailed
     | Some d \<Rightarrow>
         if \<not> KNOB_MEM_OBEY_STORE_DEP k \<or> KNOB_MEM_OOO_STORES k then Inr (us, cm)
         else if u_mem_type (us a) \<noteq> NOT_MEM
         then let ind = (if md_last_store_flag d then 1 else 0); n = u_num_srcs (us a) in
              res_bind (arr_get (md_last_store d) ind) (\<lambda>e.
              res_bind (add_src_from_map_entry us ((us a)\<lparr>u_num_srcs := n + 1\<rparr>) n e MEM_ADDR_DEP) (\<lambda>u.
              Inr (us(a := u), cm)))
         else Inr (us, cm))"

definition written_entry :: "addr \<Rightarrow> uop \<Rightarrow> map_entry \<Rightarrow> map_entry" where
  "written_entry a u e =
     e\<lparr>me_uop := Some a, me_uop_num := u_uop_num u, me_unique_num := u_unique_num u,
       me_inst_num := u_inst_num u, me_pc := u_pc u, me_mem_type := u_mem_type u\<rparr>"

fun update_map_loop :: "addr \<Rightarrow> uop \<Rightarrow> nat list \<Rightarrow> map_data \<Rightarrow> map_data res" where
  "update_map_loop a u [] d = Inr d"
| "update_map_loop a u (ii # iis) d =
     res_bind (arr_get (u_dest_info u) ii) (\<lambda>w. let id = unat w in
     check (id < NUM_REG_IDS) AssertFailed
     (let ind = id * 2 + (if u_off_path u then 1 else 0) in
      check (ind < NUM_REG_IDS * 2) AssertFailed
      (res_bind (arr_get (md_reg_map d) ind) (\<lambda>e.
       res_bind (arr_set (md_reg_map d) ind (written_entry a u e)) (\<lambda>rm.
       res_bind (arr_set (md_map_flags d) id (u_off_path u)) (\<lambda>fl.
       update_map_loop a u iis (d\<lparr>md_reg_map := rm, md_map_flags := fl\<rparr>)))))))"

definition update_map :: "addr \<Rightarrow> uops \<times> core_map \<Rightarrow> (uops \<times> core_map) res" where
  "update_map a = (\<lambda>(us, cm).
     case cm (thread_key (us a)) of
       None \<Rightarrow> Inl AssertFailed
     | Some d \<Rightarrow> res_bind (update_map_loop a (us a) [0..<u_num_dests (us a)] d) (\<lambda>d'.
                  Inr (us, cm(thread_key (us a) \<mapsto> d'))))"

definition map_uop :: "map_knobs \<Rightarrow> addr \<Rightarrow> map_data \<Rightarrow> addr \<Rightarrow> uops \<times> core_map \<Rightarrow> (uops \<times> core_map) res" where
  "map_uop k invu fresh a s =
     res_bind (read_reg_map invu fresh a s) (\<lambda>s1.
     res_bind (read_store_map k a s1) (\<lambda>s2.
     update_map a s2))"

definition delete_map :: "int \<Rightarrow> core_map \<Rightarrow> core_map" where
  "delete_map tid cm = cm(of_int tid := None)"

section \<open>The store map\<close>

text \<open>\<open>fresh\<close> is the object the pool gives for a quadword that has no entry. With
  \<^verbatim>\<open>KNOB_USE_NEW_ORACLE\<close> the entry of an on-path store must be there already.\<close>

definition store_entry ::
  "map_knobs \<Rightarrow> mem_map_entry \<Rightarrow> bool \<Rightarrow> (uns64 \<rightharpoonup> mem_map_entry) \<Rightarrow> uns64 \<Rightarrow> (mem_map_entry \<times> bool) res" where
  "store_entry k fresh off_path h key =
     (if KNOB_USE_NEW_ORACLE k \<and> \<not> off_path
      then case h key of None \<Rightarrow> Inl NullPointer | Some m \<Rightarrow> Inr (m, False)
      else Inr (case h key of None \<Rightarrow> (fresh, True) | Some m \<Rightarrow> (m, False)))"

definition update_store_hash ::
  "map_knobs \<Rightarrow> mem_map_entry \<Rightarrow> addr \<Rightarrow> uops \<times> core_map \<Rightarrow> (uops \<times> core_map) res" where
  "update_store_hash k fresh a = (\<lambda>(us, cm).
     let u = us a; va = u_vaddr u; fb = first_byte va; off_path = u_off_path u; key = MEM_MAP_KEY va off_path in
     case cm (thread_key u) of
       None \<Rightarrow> Inl AssertFailed
     | Some d \<Rightarrow>
         res_bind (store_entry k fresh off_path (md_oracle_mem_hash d) key) (\<lambda>(m, new_entry).
         check (\<not> new_entry \<or> \<not> KNOB_USE_NEW_ORACLE k \<or> off_path) AssertFailed
         (let m1 = (if new_entry then m\<lparr>mm_store_mask := 0\<rparr> else m);
              m2 = m1\<lparr>mm_store_mask := xsetbit (mm_store_mask m1) fb\<rparr> in
          check (fb < BYTES_IN_QUADWORD) AssertFailed
          (res_bind (arr_set (mm_uop m2) fb (Some a)) (\<lambda>l.
           Inr (us, cm(thread_key u \<mapsto>
             d\<lparr>md_oracle_mem_hash := (md_oracle_mem_hash d)(key \<mapsto> m2\<lparr>mm_uop := l\<rparr>)\<rparr>)))))))"

text \<open>The loop over the bytes of the quadword; \<open>fb\<close> is \<open>None\<close> for the value $-1$, and the
  number of the latest store so far is an \<^verbatim>\<open>unsigned int\<close>.\<close>

fun byte_loop :: "map_knobs \<Rightarrow> addr \<Rightarrow> mem_map_entry \<Rightarrow> nat list \<Rightarrow> uops \<Rightarrow> nat option \<Rightarrow> uns32 \<Rightarrow> (uops \<times> nat option) res" where
  "byte_loop k a m [] us fb num = Inr (us, fb)"
| "byte_loop k a m (ii # iis) us fb num =
     res_bind (arr_get (mm_uop m) ii) (\<lambda>p.
     if \<not> xtestbit (mm_store_mask m) ii then byte_loop k a m iis us fb num
     else case p of
       None \<Rightarrow> Inl NullPointer
     | Some s \<Rightarrow>
         if \<not> BYTE_OVERLAP (u_vaddr (us s)) (u_mem_size (us s)) (u_vaddr (us a)) (u_mem_size (us a))
         then byte_loop k a m iis us fb num
         else res_bind (if KNOB_MEM_OOO_STORES k then add_src_from_uop us a s MEM_DATA_DEP else Inr us) (\<lambda>us1.
              if ucast num < u_uop_num (us1 s)
              then byte_loop k a m iis us1 (Some ii) (ucast (u_uop_num (us1 s)))
              else byte_loop k a m iis us1 fb num))"

text \<open>The choice of the store a load depends on: the byte of the store, or \<open>None\<close> when no store
  overlaps.\<close>

definition select_store :: "map_knobs \<Rightarrow> addr \<Rightarrow> mem_map_entry \<Rightarrow> uops \<Rightarrow> (uops \<times> nat option) res" where
  "select_store k a m us =
     (let va = u_vaddr (us a); fb = first_byte va in
      if mm_store_mask m = push_bit fb 1
      then res_bind (arr_get (mm_uop m) fb) (\<lambda>p. case p of
             None \<Rightarrow> Inl NullPointer
           | Some s \<Rightarrow> check (u_vaddr (us s) = va) AssertFailed
               (res_bind (if KNOB_MEM_OOO_STORES k then add_src_from_uop us a s MEM_DATA_DEP else Inr us) (\<lambda>us1.
                Inr (us1, Some fb))))
      else byte_loop k a m [0..<BYTES_IN_QUADWORD] us None 0)"

definition add_store_deps :: "map_knobs \<Rightarrow> addr \<Rightarrow> uops \<times> core_map \<Rightarrow> (ptr \<times> uops \<times> core_map) res" where
  "add_store_deps k a = (\<lambda>(us, cm).
     let u = us a; va = u_vaddr u; off_path = u_off_path u in
     case cm (thread_key u) of
       None \<Rightarrow> Inl AssertFailed
     | Some d \<Rightarrow>
         case md_oracle_mem_hash d (MEM_MAP_KEY va off_path) of
           None \<Rightarrow> Inr (None, us, cm)
         | Some m \<Rightarrow>
             res_bind (select_store k a m us) (\<lambda>(us1, fb).
             case fb of
               None \<Rightarrow> Inr (None, us1, cm)
             | Some b \<Rightarrow> res_bind (arr_get (mm_uop m) b) (\<lambda>p. case p of
                 None \<Rightarrow> Inl NullPointer
               | Some s \<Rightarrow>
                   check (u_uop_num (us1 s) < u_uop_num u \<or> u_thread_id u \<noteq> - 1 \<or> off_path) AssertFailed
                   (check (MEM_MAP_KEY va off_path = MEM_MAP_KEY (u_vaddr (us1 s)) off_path) AssertFailed
                   (res_bind (if KNOB_MEM_OOO_STORES k then Inr us1 else add_src_from_uop us1 a s MEM_DATA_DEP) (\<lambda>us2.
                    Inr (Some s, us2, cm)))))))"

definition map_mem_dep :: "map_knobs \<Rightarrow> mem_map_entry \<Rightarrow> addr \<Rightarrow> uops \<times> core_map \<Rightarrow> (uops \<times> core_map) res" where
  "map_mem_dep k fresh a s =
     (if \<not> KNOB_MEM_OBEY_STORE_DEP k then Inr s
      else let ty = u_mem_type (fst s a) in
        res_bind (if ty = MEM_ST \<or> ty = MEM_ST_LM then update_store_hash k fresh a s else Inr s) (\<lambda>s1.
        if ty = MEM_LD \<or> ty = MEM_LD_LM then res_bind (add_store_deps k a s1) (\<lambda>(_, s2). Inr s2)
        else Inr s1))"

definition delete_store_hash_entry :: "map_knobs \<Rightarrow> addr \<Rightarrow> uops \<times> core_map \<Rightarrow> core_map res" where
  "delete_store_hash_entry k a = (\<lambda>(us, cm).
     let u = us a; fb = first_byte (u_vaddr u); key = MEM_MAP_KEY (u_vaddr u) (u_off_path u) in
     if KNOB_IGNORE_DEP k then Inr cm
     else case cm (thread_key u) of
       None \<Rightarrow> Inr cm
     | Some d \<Rightarrow> (case md_oracle_mem_hash d key of
         None \<Rightarrow> Inr cm
       | Some m \<Rightarrow> res_bind (arr_get (mm_uop m) fb) (\<lambda>p.
           if p \<noteq> Some a then Inr cm
           else let m1 = m\<lparr>mm_store_mask := xclearbit (mm_store_mask m) fb, mm_uop := (mm_uop m)[fb := None]\<rparr>;
                    h = (md_oracle_mem_hash d)(key := (if mm_store_mask m1 = 0 then None else Some m1))
                in Inr (cm(thread_key u \<mapsto> d\<lparr>md_oracle_mem_hash := h\<rparr>)))))"

section \<open>What the dependence analysis leaves alone\<close>

text \<open>An uop without the fields that record its dependences.\<close>

definition dep_free :: "uop \<Rightarrow> uop" where
  "dep_free u = u\<lparr>u_map_src_info := [], u_srcs_not_rdy_vector := 0, u_num_srcs := 0, u_dep_on_hmc_inst := False\<rparr>"

lemma dep_free_eqD:
  assumes "dep_free u = dep_free v"
  shows "u_uop_num u = u_uop_num v" "u_unique_num u = u_unique_num v" "u_thread_id u = u_thread_id v"
    "u_off_path u = u_off_path v" "u_src_info u = u_src_info v" "u_dest_info u = u_dest_info v"
    "u_num_dests u = u_num_dests v" "u_vaddr u = u_vaddr v" "u_mem_size u = u_mem_size v" "u_mem_type u = u_mem_type v"
    "u_inst_num u = u_inst_num v" "u_pc u = u_pc v"
  using arg_cong[OF assms, of u_uop_num] arg_cong[OF assms, of u_unique_num] arg_cong[OF assms, of u_thread_id]
    arg_cong[OF assms, of u_off_path] arg_cong[OF assms, of u_src_info] arg_cong[OF assms, of u_dest_info]
    arg_cong[OF assms, of u_num_dests] arg_cong[OF assms, of u_vaddr] arg_cong[OF assms, of u_mem_size]
    arg_cong[OF assms, of u_mem_type] arg_cong[OF assms, of u_inst_num] arg_cong[OF assms, of u_pc]
  by (simp_all add: dep_free_def)

lemma dep_free_updates [simp]:
  "dep_free (u\<lparr>u_map_src_info := l\<rparr>) = dep_free u" "dep_free (u\<lparr>u_srcs_not_rdy_vector := v\<rparr>) = dep_free u"
  "dep_free (u\<lparr>u_num_srcs := n\<rparr>) = dep_free u" "dep_free (u\<lparr>u_dep_on_hmc_inst := b\<rparr>) = dep_free u"
  by (simp_all add: dep_free_def)

text \<open>\<open>src_added u n i u'\<close>: \<open>u'\<close> is \<open>u\<close> with the source \<open>n\<close> set to \<open>i\<close> and marked not
  ready.\<close>

definition src_added :: "uop \<Rightarrow> nat \<Rightarrow> src_info \<Rightarrow> uop \<Rightarrow> bool" where
  "src_added u n i u' \<longleftrightarrow> dep_free u' = dep_free u \<and> u_num_srcs u' = u_num_srcs u \<and>
     u_map_src_info u' = (u_map_src_info u)[n := i] \<and>
     (\<forall>j. bit (u_srcs_not_rdy_vector u') j \<longleftrightarrow> bit (u_srcs_not_rdy_vector u) j \<or> j = n)"

lemma set_src_info_ok:
  assumes "n < length (u_map_src_info u)" "n < u_num_srcs u"
  shows "\<exists>u'. set_src_info n i u = Inr u' \<and> src_added u n i u' \<and> u_dep_on_hmc_inst u' = u_dep_on_hmc_inst u"
  using assms by (auto simp add: set_src_info_def set_not_rdy_bit_def src_added_def bit_simps)

text \<open>What a map entry says about a source.\<close>

definition dep_of :: "map_entry \<Rightarrow> ptr \<times> Counter \<times> Counter" where
  "dep_of e = (me_uop e, me_uop_num e, me_unique_num e)"

fun src_of :: "Dep_Type \<Rightarrow> ptr \<times> Counter \<times> Counter \<Rightarrow> src_info" where
  "src_of ty (p, n, q) = \<lparr>si_type = ty, si_uop = p, si_uop_num = n, si_unique_num = q\<rparr>"

lemma add_src_from_map_entry_ok:
  assumes "me_uop e \<noteq> None" "n < MAX_UOP_SRC_DEPS" "length (u_map_src_info u) = MAX_UOP_SRC_DEPS" "n < u_num_srcs u"
    "me_uop_num e < u_uop_num u"
  shows "\<exists>u'. add_src_from_map_entry us u n e ty = Inr u' \<and> src_added u n (src_of ty (dep_of e)) u'"
proof -
  obtain s where s: "me_uop e = Some s" using assms(1) by auto
  define u1 where "u1 = (if u_hmc_inst (us s) \<noteq> HMC_NONE \<and> u_hmc_inst u = HMC_NONE \<and> u_mem_type (us s) \<noteq> NOT_MEM
    then u\<lparr>u_dep_on_hmc_inst := True\<rparr> else u)"
  have u1: "dep_free u1 = dep_free u" "u_num_srcs u1 = u_num_srcs u" "u_map_src_info u1 = u_map_src_info u"
    "u_srcs_not_rdy_vector u1 = u_srcs_not_rdy_vector u" "u_uop_num u1 = u_uop_num u" by (simp_all add: u1_def)
  have "\<exists>u'. set_src_info n (src_of ty (dep_of e)) u1 = Inr u' \<and> src_added u1 n (src_of ty (dep_of e)) u'"
    using set_src_info_ok[of n u1 "src_of ty (dep_of e)"] u1 assms by auto
  then show ?thesis
    using assms u1 by (auto simp add: add_src_from_map_entry_def s u1_def[symmetric] src_added_def dep_of_def)
qed

section \<open>The register map holds the last writers\<close>

definition reg_entry :: "map_data \<Rightarrow> nat \<Rightarrow> map_entry" where
  "reg_entry d r = md_reg_map d ! (r * 2 + (if md_map_flags d ! r then 1 else 0))"

definition map_data_wf :: "map_data \<Rightarrow> bool" where
  "map_data_wf d \<longleftrightarrow> length (md_reg_map d) = NUM_REG_IDS * 2 \<and> length (md_map_flags d) = NUM_REG_IDS * 2 \<and>
     length (md_last_store d) = 2"

text \<open>The register numbers of the sources and destinations of an uop, and what its arrays must allow.\<close>

definition src_regs :: "uop \<Rightarrow> nat list" where
  "src_regs u = map unat (take (u_num_srcs u) (u_src_info u))"

definition dest_regs :: "uop \<Rightarrow> nat list" where
  "dest_regs u = map unat (take (u_num_dests u) (u_dest_info u))"

definition uop_regs_wf :: "uop \<Rightarrow> bool" where
  "uop_regs_wf u \<longleftrightarrow> u_num_srcs u \<le> length (u_src_info u) \<and> length (u_src_info u) = MAX_SRCS \<and>
     u_num_dests u \<le> length (u_dest_info u) \<and> length (u_map_src_info u) = MAX_UOP_SRC_DEPS \<and>
     (\<forall>r\<in>set (src_regs u) \<union> set (dest_regs u). r < NUM_REG_IDS)"

lemma read_reg_loop_ok:
  assumes d: "map_data_wf d" and len: "length (u_map_src_info u) = MAX_UOP_SRC_DEPS"
    and src: "\<forall>i\<in>set iis. i < length (u_src_info u) \<and> i < u_num_srcs u \<and> i < MAX_UOP_SRC_DEPS \<and> unat (u_src_info u ! i) < NUM_REG_IDS"
    and ent: "\<forall>r<NUM_REG_IDS. me_uop (reg_entry d r) \<noteq> None \<and> me_uop_num (reg_entry d r) < u_uop_num u"
  shows "\<exists>u'. read_reg_loop us d iis u = Inr u' \<and> dep_free u' = dep_free u \<and> u_num_srcs u' = u_num_srcs u \<and>
    length (u_map_src_info u') = MAX_UOP_SRC_DEPS \<and>
    (\<forall>i<MAX_UOP_SRC_DEPS. u_map_src_info u' ! i =
       (if i \<in> set iis then src_of REG_DATA_DEP (dep_of (reg_entry d (unat (u_src_info u ! i)))) else u_map_src_info u ! i)) \<and>
    (\<forall>i. bit (u_srcs_not_rdy_vector u') i \<longleftrightarrow> bit (u_srcs_not_rdy_vector u) i \<or> i \<in> set iis)"
  using len src ent
proof (induction iis arbitrary: u)
  case Nil
  then show ?case by simp
next
  case (Cons i iis)
  define r where "r = unat (u_src_info u ! i)"
  have r: "r < NUM_REG_IDS" and i: "i < length (u_src_info u)" "i < u_num_srcs u" "i < MAX_UOP_SRC_DEPS"
    using Cons.prems(2) by (simp_all add: r_def)
  from Cons.prems(3) r have e: "me_uop (reg_entry d r) \<noteq> None" "me_uop_num (reg_entry d r) < u_uop_num u" by blast+
  from add_src_from_map_entry_ok[OF e(1) i(3) Cons.prems(1) i(2) e(2), of us REG_DATA_DEP] obtain u1 where
    u1: "add_src_from_map_entry us u i (reg_entry d r) REG_DATA_DEP = Inr u1"
      "src_added u i (src_of REG_DATA_DEP (dep_of (reg_entry d r))) u1" by blast
  have step: "read_reg_loop us d (i # iis) u = read_reg_loop us d iis u1"
    using i(1) r u1(1) d by (simp add: r_def[symmetric] map_data_wf_def reg_entry_def NUM_REG_IDS_def)
  note S = u1(2)[unfolded src_added_def]
  have "dep_free u1 = dep_free u" using S by blast
  note F = dep_free_eqD[OF this]
  from Cons.IH[of u1] Cons.prems S F obtain u' where
    "read_reg_loop us d iis u1 = Inr u' \<and> dep_free u' = dep_free u1 \<and> u_num_srcs u' = u_num_srcs u1 \<and>
    length (u_map_src_info u') = MAX_UOP_SRC_DEPS \<and>
    (\<forall>i<MAX_UOP_SRC_DEPS. u_map_src_info u' ! i =
       (if i \<in> set iis then src_of REG_DATA_DEP (dep_of (reg_entry d (unat (u_src_info u1 ! i)))) else u_map_src_info u1 ! i)) \<and>
    (\<forall>i. bit (u_srcs_not_rdy_vector u') i \<longleftrightarrow> bit (u_srcs_not_rdy_vector u1) i \<or> i \<in> set iis)" by auto
  with S F(5) Cons.prems(1) i(3) show ?case unfolding step
    by (intro exI[of _ u']) (auto simp add: r_def nth_list_update)
qed

lemma reg_entry_update:
  assumes "map_data_wf d" "r < NUM_REG_IDS" "q < NUM_REG_IDS"
  shows "reg_entry (d\<lparr>md_reg_map := (md_reg_map d)[r * 2 + (if b then 1 else 0) := e], md_map_flags := (md_map_flags d)[r := b]\<rparr>) q =
    (if q = r then e else reg_entry d q)"
  using assms by (auto simp add: reg_entry_def map_data_wf_def nth_list_update NUM_REG_IDS_def)

lemma update_map_loop_ok:
  assumes "map_data_wf d" "\<forall>i\<in>set iis. i < length (u_dest_info u) \<and> unat (u_dest_info u ! i) < NUM_REG_IDS"
  shows "\<exists>d'. update_map_loop a u iis d = Inr d' \<and> map_data_wf d' \<and> md_last_store d' = md_last_store d \<and>
    md_last_store_flag d' = md_last_store_flag d \<and> md_oracle_mem_hash d' = md_oracle_mem_hash d \<and>
    (\<forall>r<NUM_REG_IDS. dep_of (reg_entry d' r) =
       (if r \<in> (\<lambda>i. unat (u_dest_info u ! i)) ` set iis then (Some a, u_uop_num u, u_unique_num u) else dep_of (reg_entry d r)))"
  using assms
proof (induction iis arbitrary: d)
  case Nil
  then show ?case by simp
next
  case (Cons i iis)
  define r where "r = unat (u_dest_info u ! i)"
  have r: "r < NUM_REG_IDS" "i < length (u_dest_info u)" using Cons.prems(2) by (simp_all add: r_def)
  define e where "e = written_entry a u (md_reg_map d ! (r * 2 + (if u_off_path u then 1 else 0)))"
  define d1 where "d1 = d\<lparr>md_reg_map := (md_reg_map d)[r * 2 + (if u_off_path u then 1 else 0) := e],
    md_map_flags := (md_map_flags d)[r := u_off_path u]\<rparr>"
  have step: "update_map_loop a u (i # iis) d = update_map_loop a u iis d1"
    using r Cons.prems(1) by (simp add: r_def[symmetric] map_data_wf_def d1_def e_def NUM_REG_IDS_def Let_def)
  have e: "dep_of e = (Some a, u_uop_num u, u_unique_num u)" by (simp add: e_def written_entry_def dep_of_def)
  have re: "reg_entry d1 q = (if q = r then e else reg_entry d q)" if "q < NUM_REG_IDS" for q
    unfolding d1_def by (rule reg_entry_update[OF Cons.prems(1) r(1) that])
  have "map_data_wf d1" using Cons.prems(1) by (simp add: map_data_wf_def d1_def)
  from Cons.IH[OF this] Cons.prems(2) obtain d' where
    "update_map_loop a u iis d1 = Inr d' \<and> map_data_wf d' \<and> md_last_store d' = md_last_store d1 \<and>
    md_last_store_flag d' = md_last_store_flag d1 \<and> md_oracle_mem_hash d' = md_oracle_mem_hash d1 \<and>
    (\<forall>r<NUM_REG_IDS. dep_of (reg_entry d' r) =
       (if r \<in> (\<lambda>i. unat (u_dest_info u ! i)) ` set iis then (Some a, u_uop_num u, u_unique_num u) else dep_of (reg_entry d1 r)))"
    by auto
  then show ?case unfolding step using re e
    by (intro exI[of _ d']) (auto simp add: d1_def r_def[symmetric])
qed

text \<open>The specification: the last uop of the trace that writes a register.\<close>

definition last_writer :: "uops \<Rightarrow> addr list \<Rightarrow> nat \<Rightarrow> ptr" where
  "last_writer us xs r = find (\<lambda>a. r \<in> set (dest_regs (us a))) (rev xs)"

definition writer_dep :: "addr \<Rightarrow> uops \<Rightarrow> addr list \<Rightarrow> nat \<Rightarrow> ptr \<times> Counter \<times> Counter" where
  "writer_dep invu us xs r =
     (case last_writer us xs r of
        None \<Rightarrow> (Some invu, 0, 0)
      | Some w \<Rightarrow> (Some w, u_uop_num (us w), u_unique_num (us w)))"

lemma writer_dep_snoc:
  "writer_dep invu us (xs @ [a]) r =
     (if r \<in> set (dest_regs (us a)) then (Some a, u_uop_num (us a), u_unique_num (us a)) else writer_dep invu us xs r)"
  by (simp add: writer_dep_def last_writer_def)

lemma writer_dep_some: "\<exists>w. fst (writer_dep invu us xs r) = Some w"
  by (simp add: writer_dep_def split: option.split)

lemma writer_dep_older:
  assumes "\<forall>b\<in>set xs. u_uop_num (us b) < n" "0 < n"
  shows "fst (snd (writer_dep invu us xs r)) < n"
  using assms by (auto simp add: writer_dep_def last_writer_def find_Some_iff split: option.split)
    (metis nth_mem set_rev length_rev)

definition thread_map :: "addr \<Rightarrow> map_data \<Rightarrow> core_map \<Rightarrow> uns64 \<Rightarrow> map_data" where
  "thread_map invu fresh cm key = (case cm key of Some d \<Rightarrow> d | None \<Rightarrow> map_data_initialize invu fresh)"

text \<open>The state after the uops \<open>xs\<close> of one thread, relative to the uops \<open>us0\<close> as fetched.\<close>

definition map_inv :: "addr \<Rightarrow> map_data \<Rightarrow> uns64 \<Rightarrow> uops \<Rightarrow> addr list \<Rightarrow> uops \<times> core_map \<Rightarrow> bool" where
  "map_inv invu fresh key us0 xs s \<longleftrightarrow>
     (let d = thread_map invu fresh (snd s) key in
      map_data_wf d \<and> (\<forall>r<NUM_REG_IDS. dep_of (reg_entry d r) = writer_dep invu us0 xs r) \<and>
      (\<forall>e\<in>set (md_last_store d). me_uop e = Some invu \<and> me_uop_num e = 0)) \<and>
     (\<forall>a. dep_free (fst s a) = dep_free (us0 a)) \<and> (\<forall>a. a \<notin> set xs \<longrightarrow> fst s a = us0 a)"

definition deps_ok :: "addr \<Rightarrow> uops \<Rightarrow> addr list \<Rightarrow> addr \<Rightarrow> uop \<Rightarrow> bool" where
  "deps_ok invu us0 xs a u \<longleftrightarrow>
     (\<forall>i<length (src_regs (us0 a)). u_map_src_info u ! i = src_of REG_DATA_DEP (writer_dep invu us0 xs (src_regs (us0 a) ! i)) \<and>
        bit (u_srcs_not_rdy_vector u) i)"

lemma map_data_initialize_inv:
  assumes "map_data_wf fresh"
  shows "map_inv invu fresh key us [] (us, cm(key := None))"
proof -
  have "reg_entry (map_data_initialize invu fresh) r = (md_reg_map fresh ! (r * 2))
      \<lparr>me_uop := Some invu, me_uop_num := 0, me_unique_num := 0, me_thread_id := 0\<rparr>" if "r < NUM_REG_IDS" for r
    using assms that by (simp add: reg_entry_def map_data_initialize_def map_data_wf_def)
  then show ?thesis
    using assms by (auto simp add: map_inv_def thread_map_def writer_dep_def last_writer_def dep_of_def map_data_wf_def
      map_data_initialize_def)
qed

lemma dest_regs_image: "u_num_dests u \<le> length (u_dest_info u) \<Longrightarrow>
    (\<lambda>i. unat (u_dest_info u ! i)) ` set [0..<u_num_dests u] = set (dest_regs u)"
proof -
  assume "u_num_dests u \<le> length (u_dest_info u)"
  then have "dest_regs u = map (\<lambda>i. unat (u_dest_info u ! i)) [0..<u_num_dests u]"
    by (intro nth_equalityI) (simp_all add: dest_regs_def)
  then show ?thesis by simp
qed

lemma src_regs_nth: "i < u_num_srcs u \<Longrightarrow> u_num_srcs u \<le> length (u_src_info u) \<Longrightarrow> src_regs u ! i = unat (u_src_info u ! i)"
  by (simp add: src_regs_def)

lemma length_src_regs: "u_num_srcs u \<le> length (u_src_info u) \<Longrightarrow> length (src_regs u) = u_num_srcs u"
  by (simp add: src_regs_def)

lemma read_reg_map_step:
  assumes inv: "map_inv invu fresh key us0 xs (us, cm)" and a: "a \<notin> set xs" "thread_key (us0 a) = key" "uop_regs_wf (us0 a)"
    and older: "\<forall>b\<in>set xs. u_uop_num (us0 b) < u_uop_num (us0 a)" "0 < u_uop_num (us0 a)"
  shows "\<exists>u1. read_reg_map invu fresh a (us, cm) = Inr (us(a := u1), cm(key \<mapsto> thread_map invu fresh cm key)) \<and>
    dep_free u1 = dep_free (us0 a) \<and> u_num_srcs u1 = u_num_srcs (us0 a) \<and>
    length (u_map_src_info u1) = MAX_UOP_SRC_DEPS \<and> deps_ok invu us0 xs a u1"
proof -
  define d where "d = thread_map invu fresh cm key"
  note I = inv[unfolded map_inv_def Let_def fst_conv snd_conv d_def[symmetric]]
  have ua: "us a = us0 a" using I a(1) by blast
  note W = a(3)[unfolded uop_regs_wf_def]
  have ent: "me_uop (reg_entry d r) \<noteq> None \<and> me_uop_num (reg_entry d r) < u_uop_num (us0 a)" if "r < NUM_REG_IDS" for r
  proof -
    have "dep_of (reg_entry d r) = writer_dep invu us0 xs r" using I that by blast
    then have "me_uop (reg_entry d r) = fst (writer_dep invu us0 xs r)"
      "me_uop_num (reg_entry d r) = fst (snd (writer_dep invu us0 xs r))" by (metis dep_of_def fst_conv snd_conv)+
    with writer_dep_some[of invu us0 xs r] writer_dep_older[OF older, of invu r] show ?thesis by auto
  qed
  have src: "i < length (u_src_info (us0 a)) \<and> i < u_num_srcs (us0 a) \<and> i < MAX_UOP_SRC_DEPS \<and> unat (u_src_info (us0 a) ! i) < NUM_REG_IDS"
    if "i \<in> set [0..<u_num_srcs (us0 a)]" for i
  proof -
    from that W have "unat (u_src_info (us0 a) ! i) \<in> set (src_regs (us0 a))"
      by (metis atLeastLessThan_iff length_src_regs nth_mem set_upt src_regs_nth)
    with that W show ?thesis by (auto simp add: MAX_SRCS_def MAX_UOP_SRC_DEPS_def)
  qed
  have "map_data_wf d" "length (u_map_src_info (us0 a)) = MAX_UOP_SRC_DEPS" using I W by blast+
  from read_reg_loop_ok[OF this, of "[0..<u_num_srcs (us0 a)]" us] src ent obtain u1 where
    u1: "read_reg_loop us d [0..<u_num_srcs (us0 a)] (us0 a) = Inr u1" "dep_free u1 = dep_free (us0 a)"
      "u_num_srcs u1 = u_num_srcs (us0 a)" "length (u_map_src_info u1) = MAX_UOP_SRC_DEPS"
      "\<forall>i<MAX_UOP_SRC_DEPS. u_map_src_info u1 ! i = (if i \<in> set [0..<u_num_srcs (us0 a)]
        then src_of REG_DATA_DEP (dep_of (reg_entry d (unat (u_src_info (us0 a) ! i)))) else u_map_src_info (us0 a) ! i)"
      "\<forall>i. bit (u_srcs_not_rdy_vector u1) i \<longleftrightarrow> bit (u_srcs_not_rdy_vector (us0 a)) i \<or> i \<in> set [0..<u_num_srcs (us0 a)]"
    by blast
  have "read_reg_map invu fresh a (us, cm) = Inr (us(a := u1), cm(key \<mapsto> d))"
    using u1(1) a(2) by (simp add: read_reg_map_def ua d_def[unfolded thread_map_def, symmetric])
  moreover have "deps_ok invu us0 xs a u1"
    using u1(5,6) src I W by (auto simp add: deps_ok_def length_src_regs src_regs_nth)
  ultimately show ?thesis using u1(2-4) by (auto simp add: d_def)
qed

lemma read_store_map_step:
  assumes d: "cm (thread_key (us a)) = Some d" "length (md_last_store d) = 2"
      "\<forall>e\<in>set (md_last_store d). me_uop e = Some invu \<and> me_uop_num e = 0"
    and u: "u_num_srcs (us a) < MAX_UOP_SRC_DEPS" "length (u_map_src_info (us a)) = MAX_UOP_SRC_DEPS" "0 < u_uop_num (us a)"
  shows "\<exists>u'. read_store_map k a (us, cm) = Inr (us(a := u'), cm) \<and> dep_free u' = dep_free (us a) \<and>
    (\<forall>i<u_num_srcs (us a). u_map_src_info u' ! i = u_map_src_info (us a) ! i \<and>
       (bit (u_srcs_not_rdy_vector (us a)) i \<longrightarrow> bit (u_srcs_not_rdy_vector u') i))"
proof (cases "KNOB_MEM_OBEY_STORE_DEP k \<and> \<not> KNOB_MEM_OOO_STORES k \<and> u_mem_type (us a) \<noteq> NOT_MEM")
  case False
  then show ?thesis using d(1) by (intro exI[of _ "us a"]) (auto simp add: read_store_map_def)
next
  case True
  define n e where "n = u_num_srcs (us a)" and "e = md_last_store d ! (if md_last_store_flag d then 1 else 0)"
  have "e \<in> set (md_last_store d)" using d(2) by (simp add: e_def)
  then have "me_uop e = Some invu" "me_uop_num e = 0" using d(3) by auto
  with add_src_from_map_entry_ok[of e n "(us a)\<lparr>u_num_srcs := n + 1\<rparr>" us MEM_ADDR_DEP] u obtain u' where
    u': "add_src_from_map_entry us ((us a)\<lparr>u_num_srcs := n + 1\<rparr>) n e MEM_ADDR_DEP = Inr u'"
      "src_added ((us a)\<lparr>u_num_srcs := n + 1\<rparr>) n (src_of MEM_ADDR_DEP (dep_of e)) u'" by (auto simp add: n_def)
  have "read_store_map k a (us, cm) = Inr (us(a := u'), cm)"
    using True d(1,2) u'(1) unfolding n_def e_def by (simp add: read_store_map_def Let_def)
  with u'(2) show ?thesis by (intro exI[of _ u']) (simp add: src_added_def n_def)
qed

lemma map_uop_step:
  assumes inv: "map_inv invu fresh key us0 xs (us, cm)" and a: "a \<notin> set xs" "thread_key (us0 a) = key" "uop_regs_wf (us0 a)"
    and older: "\<forall>b\<in>set xs. u_uop_num (us0 b) < u_uop_num (us0 a)" "0 < u_uop_num (us0 a)"
  shows "\<exists>us' cm'. map_uop k invu fresh a (us, cm) = Inr (us', cm') \<and> map_inv invu fresh key us0 (xs @ [a]) (us', cm') \<and>
    deps_ok invu us0 xs a (us' a) \<and> (\<forall>b. b \<noteq> a \<longrightarrow> us' b = us b)"
proof -
  define d where "d = thread_map invu fresh cm key"
  note I = inv[unfolded map_inv_def Let_def fst_conv snd_conv d_def[symmetric]] and W = a(3)[unfolded uop_regs_wf_def]
  from read_reg_map_step[OF assms] obtain u1 where
    u1: "read_reg_map invu fresh a (us, cm) = Inr (us(a := u1), cm(key \<mapsto> d))" "dep_free u1 = dep_free (us0 a)"
      "u_num_srcs u1 = u_num_srcs (us0 a)" "length (u_map_src_info u1) = MAX_UOP_SRC_DEPS" "deps_ok invu us0 xs a u1"
    unfolding d_def by blast
  note F1 = dep_free_eqD[OF u1(2)]
  have key: "thread_key u1 = key" using a(2) F1(3) by (simp add: thread_key_def)
  have "u_num_srcs u1 < MAX_UOP_SRC_DEPS" using u1(3) W by (simp add: MAX_SRCS_def MAX_UOP_SRC_DEPS_def)
  from read_store_map_step[of "cm(key \<mapsto> d)" "us(a := u1)" a d invu k] this u1(4) key older(2) F1(1) I
  obtain u2 where u2: "read_store_map k a (us(a := u1), cm(key \<mapsto> d)) = Inr (us(a := u2), cm(key \<mapsto> d))"
    "dep_free u2 = dep_free u1" "\<forall>i<u_num_srcs u1. u_map_src_info u2 ! i = u_map_src_info u1 ! i \<and>
       (bit (u_srcs_not_rdy_vector u1) i \<longrightarrow> bit (u_srcs_not_rdy_vector u2) i)"
    by (auto simp add: map_data_wf_def)
  have ok: "deps_ok invu us0 xs a u2" using u1(3,5) u2(3) W by (simp add: deps_ok_def length_src_regs)
  have "dep_free u2 = dep_free (us0 a)" using u1(2) u2(2) by simp
  note F2 = dep_free_eqD[OF this]
  have dests: "\<forall>i\<in>set [0..<u_num_dests u2]. i < length (u_dest_info u2) \<and> unat (u_dest_info u2 ! i) < NUM_REG_IDS"
    using W dest_regs_image[of "us0 a"] F2(6,7) by auto
  from update_map_loop_ok[of d "[0..<u_num_dests u2]" u2 a] dests I obtain d' where
    d': "update_map_loop a u2 [0..<u_num_dests u2] d = Inr d'" "map_data_wf d'" "md_last_store d' = md_last_store d"
      "\<forall>r<NUM_REG_IDS. dep_of (reg_entry d' r) = (if r \<in> (\<lambda>i. unat (u_dest_info u2 ! i)) ` set [0..<u_num_dests u2]
         then (Some a, u_uop_num u2, u_unique_num u2) else dep_of (reg_entry d r))" by blast
  have key2: "thread_key u2 = key" using a(2) F2(3) by (simp add: thread_key_def)
  have "\<forall>r<NUM_REG_IDS. dep_of (reg_entry d' r) = writer_dep invu us0 (xs @ [a]) r"
    using d'(4) dest_regs_image[of "us0 a"] F2 W I by (auto simp add: writer_dep_snoc)
  then have "map_inv invu fresh key us0 (xs @ [a]) (us(a := u2), cm(key \<mapsto> d'))"
    using d'(2,3) I \<open>dep_free u2 = dep_free (us0 a)\<close> by (simp add: map_inv_def thread_map_def)
  moreover have "map_uop k invu fresh a (us, cm) = Inr (us(a := u2), cm(key \<mapsto> d'))"
    using u1(1) u2(1) d'(1) key2 by (simp add: map_uop_def update_map_def)
  ultimately show ?thesis using ok by auto
qed

fun map_all :: "map_knobs \<Rightarrow> addr \<Rightarrow> map_data \<Rightarrow> addr list \<Rightarrow> uops \<times> core_map \<Rightarrow> (uops \<times> core_map) res" where
  "map_all k invu fresh [] s = Inr s"
| "map_all k invu fresh (a # as) s = res_bind (map_uop k invu fresh a s) (map_all k invu fresh as)"

lemma map_all_snoc:
  "map_all k invu fresh (xs @ [a]) s = res_bind (map_all k invu fresh xs s) (map_uop k invu fresh a)"
proof (induction xs arbitrary: s)
  case Nil
  show ?case by (cases "map_uop k invu fresh a s") simp_all
next
  case (Cons x xs)
  then show ?case by (cases "map_uop k invu fresh x s") simp_all
qed

text \<open>A trace of one thread in program order.\<close>

definition trace_ok :: "uns64 \<Rightarrow> uops \<Rightarrow> addr list \<Rightarrow> bool" where
  "trace_ok key us xs \<longleftrightarrow> sorted_wrt (\<lambda>a b. u_uop_num (us a) < u_uop_num (us b)) xs \<and>
     (\<forall>a\<in>set xs. 0 < u_uop_num (us a) \<and> thread_key (us a) = key \<and> uop_regs_wf (us a))"

lemma map_all_ok:
  assumes inv: "map_inv invu fresh key us0 [] (us0, cm)"
  shows "trace_ok key us0 xs \<Longrightarrow> \<exists>us' cm'. map_all k invu fresh xs (us0, cm) = Inr (us', cm') \<and>
    map_inv invu fresh key us0 xs (us', cm') \<and> (\<forall>n<length xs. deps_ok invu us0 (take n xs) (xs ! n) (us' (xs ! n)))"
proof (induction xs rule: rev_induct)
  case Nil
  then show ?case using inv by simp
next
  case (snoc a xs)
  have t: "trace_ok key us0 xs" and older: "\<forall>b\<in>set xs. u_uop_num (us0 b) < u_uop_num (us0 a)" "0 < u_uop_num (us0 a)"
    and a: "thread_key (us0 a) = key" "uop_regs_wf (us0 a)"
    using snoc.prems by (auto simp add: trace_ok_def sorted_wrt_append)
  from older(1) have na: "a \<notin> set xs" by blast
  from snoc.IH[OF t] obtain us cm1 where
    run: "map_all k invu fresh xs (us0, cm) = Inr (us, cm1)" "map_inv invu fresh key us0 xs (us, cm1)"
      "\<forall>n<length xs. deps_ok invu us0 (take n xs) (xs ! n) (us (xs ! n))" by blast
  from map_uop_step[OF run(2) na a older, of k] obtain us' cm' where
    step: "map_uop k invu fresh a (us, cm1) = Inr (us', cm')" "map_inv invu fresh key us0 (xs @ [a]) (us', cm')"
      "deps_ok invu us0 xs a (us' a)" "\<forall>b. b \<noteq> a \<longrightarrow> us' b = us b" by blast
  have "deps_ok invu us0 (take n (xs @ [a])) ((xs @ [a]) ! n) (us' ((xs @ [a]) ! n))" if "n < length (xs @ [a])" for n
  proof (cases "n = length xs")
    case True
    then show ?thesis using step(3) by simp
  next
    case False
    with that have n: "n < length xs" by simp
    then have "xs ! n \<noteq> a" using na nth_mem by metis
    with n run(3) step(4) show ?thesis by (simp add: nth_append)
  qed
  with run(1) step(1,2) show ?case by (auto simp add: map_all_snoc)
qed

section \<open>Properties of the register map\<close>

text \<open>C6. Register dependences: when the uops of a thread are mapped in program order, with register
  numbers in range and at most \<^verbatim>\<open>MAX_SRCS\<close> sources, no assertion fails, and every register
  source of every uop is recorded as a dependence on the last earlier uop of the thread that wrote that
  register, with that uop's number and unique number, or on the invalid uop when no earlier uop wrote it;
  every register source is marked not ready.\<close>

theorem register_dependences_correct:
  assumes "map_data_wf fresh" "trace_ok key us xs" "cm key = None"
  shows "\<exists>us' cm'. map_all k invu fresh xs (us, cm) = Inr (us', cm') \<and>
    (\<forall>n<length xs. \<forall>i<length (src_regs (us (xs ! n))).
       (case last_writer us (take n xs) (src_regs (us (xs ! n)) ! i) of
          None \<Rightarrow> u_map_src_info (us' (xs ! n)) ! i =
            \<lparr>si_type = REG_DATA_DEP, si_uop = Some invu, si_uop_num = 0, si_unique_num = 0\<rparr>
        | Some w \<Rightarrow> u_map_src_info (us' (xs ! n)) ! i =
            \<lparr>si_type = REG_DATA_DEP, si_uop = Some w, si_uop_num = u_uop_num (us w), si_unique_num = u_unique_num (us w)\<rparr>) \<and>
       bit (u_srcs_not_rdy_vector (us' (xs ! n))) i)"
proof -
  have "cm(key := None) = cm" using assms(3) by (simp add: fun_upd_idem)
  then have "map_inv invu fresh key us [] (us, cm)" using map_data_initialize_inv[OF assms(1), of invu key us cm] by simp
  from map_all_ok[OF this assms(2), of k] obtain us' cm' where
    run: "map_all k invu fresh xs (us, cm) = Inr (us', cm')"
      "\<forall>n<length xs. deps_ok invu us (take n xs) (xs ! n) (us' (xs ! n))" by blast
  then show ?thesis
    by (intro exI[of _ us'] exI[of _ cm']) (auto simp add: deps_ok_def writer_dep_def split: option.split)
qed

definition demo_map_data :: map_data where
  "demo_map_data =
     (let e = \<lparr>me_uop = None, me_uop_num = 0, me_inst_num = 0, me_pc = 0, me_unique_num = 0, me_thread_id = 0, me_mem_type = NOT_MEM\<rparr>
      in \<lparr>md_reg_map = replicate (NUM_REG_IDS * 2) e, md_map_flags = replicate (NUM_REG_IDS * 2) True,
          md_last_store = [e, e], md_last_store_flag = True, md_oracle_mem_hash = (\<lambda>_. None)\<rparr>)"

lemma demo_map_data_wf: "map_data_wf demo_map_data"
  by (simp add: demo_map_data_def map_data_wf_def Let_def)

text \<open>Uop 1 writes register 5, uop 2 reads registers 5 and 6.\<close>

definition demo_uops :: uops where
  "demo_uops a =
     (let u = zero_uop\<lparr>u_uop_num := of_nat a, u_unique_num := of_nat (10 + a), u_src_info := replicate MAX_SRCS 0,
                u_dest_info := replicate MAX_DESTS 0, u_map_src_info := replicate MAX_UOP_SRC_DEPS
                  \<lparr>si_type = REG_DATA_DEP, si_uop = None, si_uop_num = 0, si_unique_num = 0\<rparr>\<rparr>
      in if a = 1 then u\<lparr>u_num_dests := 1, u_dest_info := [5, 0, 0, 0, 0, 0]\<rparr>
         else u\<lparr>u_num_srcs := 2, u_src_info := [5, 6, 0, 0, 0, 0, 0, 0, 0]\<rparr>)"

definition demo_map_knobs :: "bool \<Rightarrow> map_knobs" where
  "demo_map_knobs ooo = \<lparr>KNOB_MEM_OBEY_STORE_DEP = True, KNOB_MEM_OOO_STORES = ooo, KNOB_USE_NEW_ORACLE = False, KNOB_IGNORE_DEP = False\<rparr>"

theorem register_dependences_correct_witness:
  "\<exists>us' cm'. map_all (demo_map_knobs True) 0 demo_map_data [1, 2] (demo_uops, \<lambda>_. None) = Inr (us', cm') \<and>
     si_uop (u_map_src_info (us' 2) ! 0) = Some 1 \<and> si_unique_num (u_map_src_info (us' 2) ! 0) = 11 \<and>
     si_uop (u_map_src_info (us' 2) ! 1) = Some 0"
proof -
  have t: "trace_ok 0 demo_uops [1, 2]"
    by (simp add: trace_ok_def demo_uops_def thread_key_def uop_regs_wf_def src_regs_def dest_regs_def zero_uop_def
      MAX_SRCS_def MAX_DESTS_def NUM_REG_IDS_def word_less_nat_alt)
  have lw: "last_writer demo_uops [1] 5 = Some 1" "last_writer demo_uops [1] 6 = None" "src_regs (demo_uops 2) = [5, 6]"
      "u_unique_num (demo_uops 1) = 11"
    by (simp_all add: last_writer_def dest_regs_def src_regs_def demo_uops_def)
  from register_dependences_correct[OF demo_map_data_wf t, of "\<lambda>_. None" "demo_map_knobs True" 0] obtain us' cm' where
    run: "map_all (demo_map_knobs True) 0 demo_map_data [1, 2] (demo_uops, \<lambda>_. None) = Inr (us', cm')"
    and D: "\<forall>n<length [1, 2::nat]. \<forall>i<length (src_regs (demo_uops ([1, 2] ! n))).
       (case last_writer demo_uops (take n [1, 2]) (src_regs (demo_uops ([1, 2] ! n)) ! i) of
          None \<Rightarrow> u_map_src_info (us' ([1, 2] ! n)) ! i =
            \<lparr>si_type = REG_DATA_DEP, si_uop = Some 0, si_uop_num = 0, si_unique_num = 0\<rparr>
        | Some w \<Rightarrow> u_map_src_info (us' ([1, 2] ! n)) ! i =
            \<lparr>si_type = REG_DATA_DEP, si_uop = Some w, si_uop_num = u_uop_num (demo_uops w), si_unique_num = u_unique_num (demo_uops w)\<rparr>) \<and>
       bit (u_srcs_not_rdy_vector (us' ([1, 2] ! n))) i" by blast
  from D[rule_format, of 1 0] D[rule_format, of 1 1] lw show ?thesis using run by auto
qed

section \<open>Keys and bytes\<close>

lemma xtestbit_bit: "xtestbit x y \<longleftrightarrow> bit x y"
  by (simp add: xtestbit_def bit_iff_odd_drop_bit and_one_eq mod_2_eq_odd)

lemma MEM_MAP_KEY_eq:
  "MEM_MAP_KEY va p = MEM_MAP_KEY va' p' \<longleftrightarrow> drop_bit 3 va = drop_bit 3 va' \<and> p = p'"
proof
  assume eq: "MEM_MAP_KEY va p = MEM_MAP_KEY va' p'"
  have at: "bit (MEM_MAP_KEY va p) i \<longleftrightarrow> (if i = 0 then p else bit (drop_bit 3 va) (i - 1))" if "i < 64" for va p i
    unfolding MEM_MAP_KEY_def bit_or_iff bit_push_bit_iff bit_of_bool_iff using that by (auto simp add: possible_bit_word)
  have "bit (drop_bit 3 va) j = bit (drop_bit 3 va') j" for j
  proof (cases "j < 61")
    case True
    with at[of "Suc j" va p] at[of "Suc j" va' p'] eq show ?thesis by simp
  next
    case False
    then show ?thesis using bit_imp_le_length[of va "3 + j"] bit_imp_le_length[of va' "3 + j"]
      by (auto simp add: bit_drop_bit_eq)
  qed
  moreover have "p = p'" using at[of 0 va p] at[of 0 va' p'] eq by simp
  ultimately show "drop_bit 3 va = drop_bit 3 va' \<and> p = p'" by (simp add: bit_eq_iff)
qed (simp add: MEM_MAP_KEY_def)

lemma first_byte_less: "first_byte va < BYTES_IN_QUADWORD"
proof -
  have "va AND 7 = va AND mask 3" by (simp add: mask_eq_exp_minus_1)
  then show ?thesis using unat_and_mask[of va 3] by (simp add: first_byte_def BYTES_IN_QUADWORD_def)
qed

lemma same_quadword_byte:
  assumes "MEM_MAP_KEY va p = MEM_MAP_KEY va' p'" "first_byte va = first_byte va'"
  shows "va = va'"
proof (rule bit_word_eqI)
  fix i
  have d: "drop_bit 3 va = drop_bit 3 va'" using assms(1) by (simp add: MEM_MAP_KEY_eq)
  have "va AND 7 = va' AND 7" using assms(2) by (simp add: first_byte_def unsigned_word_eqI)
  then have m: "va AND mask 3 = va' AND mask 3" by (simp add: mask_eq_exp_minus_1)
  show "bit va i = bit va' i"
  proof (cases "i < 3")
    case True
    then show ?thesis using arg_cong[OF m, of "\<lambda>w. bit w i"] by (auto simp add: bit_simps)
  next
    case False
    then show ?thesis using arg_cong[OF d, of "\<lambda>w. bit w (i - 3)"] by (simp add: bit_simps)
  qed
qed

section \<open>The store map as a map from bytes to pending stores\<close>

definition pend :: "(uns64 \<rightharpoonup> mem_map_entry) \<Rightarrow> uns64 \<times> nat \<Rightarrow> ptr" where
  "pend h = (\<lambda>(key, b). case h key of
     None \<Rightarrow> None
   | Some m \<Rightarrow> if b < BYTES_IN_QUADWORD \<and> bit (mm_store_mask m) b then mm_uop m ! b else None)"

definition store_key :: "uop \<Rightarrow> uns64 \<times> nat" where
  "store_key u = (MEM_MAP_KEY (u_vaddr u) (u_off_path u), first_byte (u_vaddr u))"

text \<open>Every entry has its array, its mask is not empty, and a set bit has a store of that quadword and
  path that begins at that byte.\<close>

definition store_map_wf :: "uops \<Rightarrow> (uns64 \<rightharpoonup> mem_map_entry) \<Rightarrow> bool" where
  "store_map_wf us h \<longleftrightarrow> (\<forall>key m. h key = Some m \<longrightarrow> length (mm_uop m) = BYTES_IN_QUADWORD \<and> mm_store_mask m \<noteq> 0 \<and>
     (\<forall>b<BYTES_IN_QUADWORD. bit (mm_store_mask m) b \<longrightarrow> (\<exists>s. mm_uop m ! b = Some s \<and> store_key (us s) = (key, b))))"

lemma store_map_wfD:
  assumes "store_map_wf us h" "h key = Some m"
  shows "length (mm_uop m) = BYTES_IN_QUADWORD" "mm_store_mask m \<noteq> 0"
    "b < BYTES_IN_QUADWORD \<Longrightarrow> bit (mm_store_mask m) b \<Longrightarrow> \<exists>s. mm_uop m ! b = Some s \<and> store_key (us s) = (key, b)"
  using assms by (simp_all add: store_map_wf_def)

lemma bit_xsetbit: "b < 8 \<Longrightarrow> bit (xsetbit x y) b \<longleftrightarrow> bit x b \<or> b = y"
  by (auto simp add: xsetbit_def bit_simps)

lemma bit_xclearbit: "b < 8 \<Longrightarrow> bit (xclearbit x y) b \<longleftrightarrow> bit x b \<and> b \<noteq> y"
  by (auto simp add: xclearbit_def bit_simps)

lemma update_store_hash_ok:
  assumes cm: "cm (thread_key (us a)) = Some d" and wf: "store_map_wf us (md_oracle_mem_hash d)"
    and k: "\<not> KNOB_USE_NEW_ORACLE k" and fresh: "length (mm_uop fresh) = BYTES_IN_QUADWORD"
  shows "\<exists>d'. update_store_hash k fresh a (us, cm) = Inr (us, cm(thread_key (us a) \<mapsto> d')) \<and>
    store_map_wf us (md_oracle_mem_hash d') \<and> md_reg_map d' = md_reg_map d \<and> md_map_flags d' = md_map_flags d \<and>
    pend (md_oracle_mem_hash d') = (pend (md_oracle_mem_hash d))(store_key (us a) := Some a)"
proof -
  define h where "h = md_oracle_mem_hash d"
  define key fb where "key = MEM_MAP_KEY (u_vaddr (us a)) (u_off_path (us a))" and "fb = first_byte (u_vaddr (us a))"
  define m where "m = (case h key of None \<Rightarrow> fresh\<lparr>mm_store_mask := 0\<rparr> | Some m \<Rightarrow> m)"
  define m' where "m' = m\<lparr>mm_store_mask := xsetbit (mm_store_mask m) fb, mm_uop := (mm_uop m)[fb := Some a]\<rparr>"
  define d' where "d' = d\<lparr>md_oracle_mem_hash := h(key \<mapsto> m')\<rparr>"
  have fb: "fb < BYTES_IN_QUADWORD" by (simp add: fb_def first_byte_less)
  have len: "length (mm_uop m) = BYTES_IN_QUADWORD"
    using fresh wf by (auto simp add: m_def h_def store_map_wf_def split: option.split)
  have eq: "update_store_hash k fresh a (us, cm) = Inr (us, cm(thread_key (us a) \<mapsto> d'))"
    using cm k fb len by (cases "h key")
      (simp_all add: update_store_hash_def Let_def store_entry_def h_def[symmetric] key_def[symmetric] fb_def[symmetric] d'_def m'_def m_def)
  have mask: "bit (mm_store_mask m') b \<longleftrightarrow> bit (mm_store_mask m) b \<or> b = fb" if "b < BYTES_IN_QUADWORD" for b
    using that by (simp add: m'_def bit_xsetbit BYTES_IN_QUADWORD_def)
  have sk: "store_key (us a) = (key, fb)" by (simp add: store_key_def key_def fb_def)
  have old: "\<exists>s. mm_uop m ! b = Some s \<and> store_key (us s) = (key, b)" if "b < BYTES_IN_QUADWORD" "bit (mm_store_mask m) b" for b
    using that wf by (cases "h key") (auto simp add: m_def h_def[symmetric] store_map_wf_def)
  have "bit (mm_store_mask m') fb" using mask[OF fb] by simp
  then have "mm_store_mask m' \<noteq> 0" by auto
  moreover have "\<exists>s. mm_uop m' ! b = Some s \<and> store_key (us s) = (key, b)" if "b < BYTES_IN_QUADWORD" "bit (mm_store_mask m') b" for b
    using old[of b] mask[of b] that sk len fb by (cases "b = fb") (simp_all add: m'_def)
  ultimately have "store_map_wf us (md_oracle_mem_hash d')"
    using wf len by (auto simp add: store_map_wf_def d'_def h_def[symmetric]) (simp add: m'_def)
  moreover have "pend (md_oracle_mem_hash d') = (pend h)(store_key (us a) := Some a)"
  proof (rule ext, goal_cases)
    case (1 x)
    show ?case
    proof (cases x)
    case (Pair q b)
    have "pend h (key, b) = (if b < BYTES_IN_QUADWORD \<and> bit (mm_store_mask m) b then mm_uop m ! b else None)"
      by (simp add: pend_def m_def split: option.split)
    with Pair mask[of b] fb len show ?thesis unfolding sk
      by (cases "q = key"; cases "b = fb") (auto simp add: pend_def d'_def, auto simp add: m'_def)
    qed
  qed
  ultimately show ?thesis using eq by (intro exI[of _ d']) (simp add: d'_def h_def)
qed

lemma delete_store_hash_entry_ok:
  assumes cm: "cm (thread_key (us a)) = Some d" and wf: "store_map_wf us (md_oracle_mem_hash d)"
    and k: "\<not> KNOB_IGNORE_DEP k"
  shows "\<exists>d'. delete_store_hash_entry k a (us, cm) = Inr (cm(thread_key (us a) \<mapsto> d')) \<and>
    store_map_wf us (md_oracle_mem_hash d') \<and>
    pend (md_oracle_mem_hash d') = (if pend (md_oracle_mem_hash d) (store_key (us a)) = Some a
      then (pend (md_oracle_mem_hash d))(store_key (us a) := None) else pend (md_oracle_mem_hash d))"
proof -
  define h where "h = md_oracle_mem_hash d"
  define key fb where "key = MEM_MAP_KEY (u_vaddr (us a)) (u_off_path (us a))" and "fb = first_byte (u_vaddr (us a))"
  have fb: "fb < BYTES_IN_QUADWORD" by (simp add: fb_def first_byte_less)
  have sk: "store_key (us a) = (key, fb)" by (simp add: store_key_def key_def fb_def)
  note D = delete_store_hash_entry_def Let_def h_def[symmetric] key_def[symmetric] fb_def[symmetric] sk
  have same: "cm(thread_key (us a) \<mapsto> d) = cm" using cm by (simp add: fun_upd_idem)
  show ?thesis
  proof (cases "\<exists>m. h key = Some m \<and> mm_uop m ! fb = Some a")
    case False
    then have np: "pend h (key, fb) \<noteq> Some a" by (auto simp add: pend_def split: option.splits)
    have "delete_store_hash_entry k a (us, cm) = Inr cm"
      using False cm k fb wf store_map_wfD(1)[OF wf, of key]
      by (cases "h key") (auto simp add: D)
    then show ?thesis using np wf same by (intro exI[of _ d]) (simp add: h_def sk)
  next
    case True
    then obtain m where m: "h key = Some m" "mm_uop m ! fb = Some a" by blast
    note M = store_map_wfD[OF wf, folded h_def, OF m(1)]
    define m1 where "m1 = m\<lparr>mm_store_mask := xclearbit (mm_store_mask m) fb, mm_uop := (mm_uop m)[fb := None]\<rparr>"
    define h' where "h' = h(key := (if mm_store_mask m1 = 0 then None else Some m1))"
    have eq: "delete_store_hash_entry k a (us, cm) = Inr (cm(thread_key (us a) \<mapsto> d\<lparr>md_oracle_mem_hash := h'\<rparr>))"
      using cm k m fb M(1) by (simp add: D m1_def h'_def)
    have mask: "bit (mm_store_mask m1) b \<longleftrightarrow> bit (mm_store_mask m) b \<and> b \<noteq> fb" if "b < BYTES_IN_QUADWORD" for b
      using that by (simp add: m1_def bit_xclearbit BYTES_IN_QUADWORD_def)
    have "store_map_wf us h'"
      using wf M mask unfolding store_map_wf_def h_def[symmetric] h'_def
      by (auto simp add: nth_list_update m1_def split: if_splits)
    moreover have "pend h' x = (if pend h (key, fb) = Some a then (pend h)((key, fb) := None) else pend h) x" for x
    proof (cases x)
      case (Pair q b)
      have z: "\<not> bit (mm_store_mask m1) b" if "mm_store_mask m1 = 0" using that by simp
      show ?thesis
        using Pair m mask[of b] mask[OF fb] fb M(1) z
        by (cases "q = key"; cases "b = fb") (auto simp add: pend_def h'_def, auto simp add: m1_def)
    qed
    ultimately show ?thesis using eq by (intro exI[of _ "d\<lparr>md_oracle_mem_hash := h'\<rparr>"]) (auto simp add: h_def sk)
  qed
qed

text \<open>C21. The store map of a thread refines a map from bytes (quadword, path, byte) to the pending
  store that begins there. Mapping a store makes it the pending store of its first byte and changes no
  other byte; retiring a store removes it if it is still the pending store of its byte and changes
  nothing otherwise. Both keep the map's invariant (in particular an entry whose last store retires is
  removed), so no operation can fail an assertion or read a null pointer.\<close>

theorem store_map_refines:
  assumes "cm (thread_key (us a)) = Some d" "store_map_wf us (md_oracle_mem_hash d)"
    and "\<not> KNOB_USE_NEW_ORACLE k" "\<not> KNOB_IGNORE_DEP k" "length (mm_uop fresh) = BYTES_IN_QUADWORD"
  shows "(\<exists>d'. update_store_hash k fresh a (us, cm) = Inr (us, cm(thread_key (us a) \<mapsto> d')) \<and>
      store_map_wf us (md_oracle_mem_hash d') \<and>
      pend (md_oracle_mem_hash d') = (pend (md_oracle_mem_hash d))(store_key (us a) := Some a)) \<and>
    (\<exists>d'. delete_store_hash_entry k a (us, cm) = Inr (cm(thread_key (us a) \<mapsto> d')) \<and>
      store_map_wf us (md_oracle_mem_hash d') \<and>
      pend (md_oracle_mem_hash d') = (if pend (md_oracle_mem_hash d) (store_key (us a)) = Some a
        then (pend (md_oracle_mem_hash d))(store_key (us a) := None) else pend (md_oracle_mem_hash d)))"
  using update_store_hash_ok[of cm us a d k fresh, OF assms(1-3,5)] delete_store_hash_entry_ok[of cm us a d k, OF assms(1,2,4)]
  by blast

definition demo_mem_entry :: mem_map_entry where
  "demo_mem_entry = \<lparr>mm_uop = replicate BYTES_IN_QUADWORD None, mm_data = 0, mm_store_mask = 0xFF\<rparr>"

theorem store_map_refines_witness:
  "\<exists>d'. update_store_hash (demo_map_knobs True) demo_mem_entry 3 (demo_uops, [0 \<mapsto> demo_map_data]) = Inr (demo_uops, [0 \<mapsto> d']) \<and>
     pend (md_oracle_mem_hash d') = [(0, 0) \<mapsto> 3]"
proof -
  have h: "md_oracle_mem_hash demo_map_data = (\<lambda>_. None)" by (simp add: demo_map_data_def Let_def)
  have t: "thread_key (demo_uops 3) = 0" "store_key (demo_uops 3) = (0, 0)"
    by (simp_all add: thread_key_def store_key_def demo_uops_def zero_uop_def MEM_MAP_KEY_def first_byte_def)
  have e: "pend (\<lambda>_. None) = (\<lambda>_. None)" by (auto simp add: pend_def)
  have p: "[0 \<mapsto> demo_map_data] (thread_key (demo_uops 3)) = Some demo_map_data" "store_map_wf demo_uops (md_oracle_mem_hash demo_map_data)"
    "\<not> KNOB_USE_NEW_ORACLE (demo_map_knobs True)" "\<not> KNOB_IGNORE_DEP (demo_map_knobs True)"
    "length (mm_uop demo_mem_entry) = BYTES_IN_QUADWORD"
    by (simp_all add: t h store_map_wf_def demo_map_knobs_def demo_mem_entry_def)
  from store_map_refines[of "[0 \<mapsto> demo_map_data]" demo_uops 3 demo_map_data "demo_map_knobs True" demo_mem_entry, OF p]
  show ?thesis unfolding t h e by (metis fun_upd_upd)
qed

section \<open>The store a load depends on\<close>

definition srcs_wf :: "uop \<Rightarrow> bool" where
  "srcs_wf u \<longleftrightarrow> length (u_map_src_info u) = MAX_UOP_SRC_DEPS \<and> (\<forall>i<u_num_srcs u. si_uop (u_map_src_info u ! i) \<noteq> None)"

text \<open>The uop at \<open>a\<close> has a source whose uop has the number \<open>n\<close>.\<close>

definition depends_on :: "uops \<Rightarrow> addr \<Rightarrow> Counter \<Rightarrow> bool" where
  "depends_on us a n \<longleftrightarrow> (\<exists>i<u_num_srcs (us a). \<exists>t. si_uop (u_map_src_info (us a) ! i) = Some t \<and> u_uop_num (us t) = n)"

lemma has_src_spec:
  "k \<le> length is \<Longrightarrow> \<forall>i<k. si_uop (is ! i) \<noteq> None \<Longrightarrow>
   has_src us n k is = Inr (\<exists>i<k. \<exists>t. si_uop (is ! i) = Some t \<and> u_uop_num (us t) = n)"
proof (induction us n k "is" rule: has_src.induct)
  case (3 us n k i "is")
  then obtain s where s: "si_uop i = Some s" by force
  have "(\<exists>j<Suc k. \<exists>t. si_uop ((i # is) ! j) = Some t \<and> u_uop_num (us t) = n) \<longleftrightarrow>
      u_uop_num (us s) = n \<or> (\<exists>j<k. \<exists>t. si_uop (is ! j) = Some t \<and> u_uop_num (us t) = n)"
    using s by (auto simp add: less_Suc_eq_0_disj)
  moreover have "\<forall>j<k. si_uop (is ! j) \<noteq> None" using 3(3) by force
  ultimately show ?case using 3(1)[OF s] 3(2) s by simp
qed simp_all

text \<open>\<open>grown us a m us'\<close>: only the dependences of \<open>a\<close> have changed, by at most \<open>m\<close> new sources.\<close>

definition grown :: "uops \<Rightarrow> addr \<Rightarrow> nat \<Rightarrow> uops \<Rightarrow> bool" where
  "grown us a m us' \<longleftrightarrow> (\<forall>b. b \<noteq> a \<longrightarrow> us' b = us b) \<and> dep_free (us' a) = dep_free (us a) \<and> srcs_wf (us' a) \<and>
     u_num_srcs (us a) \<le> u_num_srcs (us' a) \<and> u_num_srcs (us' a) \<le> u_num_srcs (us a) + m \<and>
     (\<forall>i<u_num_srcs (us a). u_map_src_info (us' a) ! i = u_map_src_info (us a) ! i)"

lemma grown_dep_free: "grown us a m us' \<Longrightarrow> dep_free (us' x) = dep_free (us x)"
  by (cases "x = a") (simp_all add: grown_def)

lemma grown_refl: "srcs_wf (us a) \<Longrightarrow> grown us a 0 us"
  by (simp add: grown_def)

lemma grown_trans: "grown us a m us1 \<Longrightarrow> grown us1 a n us2 \<Longrightarrow> grown us a (m + n) us2"
  by (auto simp add: grown_def)

lemma grown_depends: "grown us a m us' \<Longrightarrow> depends_on us a n \<Longrightarrow> depends_on us' a n"
proof -
  assume g: "grown us a m us'" and "depends_on us a n"
  then obtain i t where i: "i < u_num_srcs (us a)" "si_uop (u_map_src_info (us a) ! i) = Some t" "u_uop_num (us t) = n"
    by (auto simp add: depends_on_def)
  have "u_uop_num (us' t) = n" using dep_free_eqD(1)[OF grown_dep_free[OF g, of t]] i(3) by simp
  moreover have "i < u_num_srcs (us' a)" "u_map_src_info (us' a) ! i = u_map_src_info (us a) ! i"
    using g i(1) by (simp_all add: grown_def)
  ultimately show ?thesis using i(2) by (auto simp add: depends_on_def)
qed

lemma add_src_from_uop_ok:
  assumes wf: "srcs_wf (us a)" and room: "u_num_srcs (us a) < MAX_UOP_SRC_DEPS" and ty: "ty \<noteq> REG_DATA_DEP"
    and tid: "u_thread_id (us a) \<noteq> - 1" "u_thread_id (us s) \<noteq> - 1"
  shows "\<exists>us'. add_src_from_uop us a s ty = Inr us' \<and> grown us a 1 us' \<and> depends_on us' a (u_uop_num (us s))"
proof -
  define n where "n = u_num_srcs (us a)"
  have hs: "has_src us (u_uop_num (us s)) n (u_map_src_info (us a)) = Inr (depends_on us a (u_uop_num (us s)))"
    using has_src_spec[of n "u_map_src_info (us a)" us "u_uop_num (us s)"] wf room by (simp add: n_def srcs_wf_def depends_on_def)
  show ?thesis
  proof (cases "depends_on us a (u_uop_num (us s))")
    case True
    with hs wf show ?thesis by (intro exI[of _ us]) (simp add: add_src_from_uop_def n_def grown_def)
  next
    case False
    define i where "i = \<lparr>si_type = ty, si_uop = Some s, si_uop_num = u_uop_num (us s), si_unique_num = u_unique_num (us s)\<rparr>"
    from set_src_info_ok[of n "(us a)\<lparr>u_num_srcs := n + 1\<rparr>" i] wf room obtain u' where
      u': "set_src_info n i ((us a)\<lparr>u_num_srcs := n + 1\<rparr>) = Inr u'" "src_added ((us a)\<lparr>u_num_srcs := n + 1\<rparr>) n i u'"
      by (auto simp add: srcs_wf_def n_def)
    have eq: "add_src_from_uop us a s ty = Inr (us(a := u'))"
      using False hs ty room tid u'(1) by (simp add: add_src_from_uop_def n_def i_def Let_def)
    have A: "dep_free u' = dep_free (us a)" "u_num_srcs u' = Suc n" "u_map_src_info u' = (u_map_src_info (us a))[n := i]"
      using u'(2) by (simp_all add: src_added_def)
    have "length (u_map_src_info (us a)) = MAX_UOP_SRC_DEPS" "n < MAX_UOP_SRC_DEPS" using wf room by (simp_all add: srcs_wf_def n_def)
    then have "srcs_wf u'" using wf A by (auto simp add: srcs_wf_def nth_list_update n_def i_def less_Suc_eq)
    moreover have "depends_on (us(a := u')) a (u_uop_num (us s))"
      unfolding depends_on_def using A dep_free_eqD(1)[OF A(1)] wf room
      by (intro exI[of _ n]) (simp add: i_def srcs_wf_def n_def)
    ultimately show ?thesis using eq A by (intro exI[of _ "us(a := u')"]) (simp add: grown_def n_def[symmetric])
  qed
qed

text \<open>The specification: the byte ranges of two memory operations intersect.\<close>

definition bytes_of :: "uop \<Rightarrow> nat set" where
  "bytes_of u = {unat (u_vaddr u)..<unat (u_vaddr u) + u_mem_size u}"

definition overlaps :: "uop \<Rightarrow> uop \<Rightarrow> bool" where
  "overlaps u v \<longleftrightarrow> bytes_of u \<inter> bytes_of v \<noteq> {}"

text \<open>The range is not empty and does not wrap at the top of the address space.\<close>

definition range_ok :: "uop \<Rightarrow> bool" where
  "range_ok u \<longleftrightarrow> 0 < u_mem_size u \<and> unat (u_vaddr u) + u_mem_size u < 2 ^ 64"

lemma range_add: "range_ok u \<Longrightarrow> unat (u_vaddr u + of_nat (u_mem_size u)) = unat (u_vaddr u) + u_mem_size u"
  by (simp add: range_ok_def unat_word_ariths unat_of_nat mod_simps)

lemma BYTE_OVERLAP_iff:
  assumes "range_ok u" "range_ok v"
  shows "BYTE_OVERLAP (u_vaddr u) (u_mem_size u) (u_vaddr v) (u_mem_size v) \<longleftrightarrow> overlaps u v"
proof -
  have "overlaps u v \<longleftrightarrow> unat (u_vaddr u) < unat (u_vaddr v) + u_mem_size v \<and> unat (u_vaddr v) < unat (u_vaddr u) + u_mem_size u"
    using assms unfolding range_ok_def overlaps_def bytes_of_def Int_atLeastLessThan atLeastLessThan_empty_iff by auto
  then show ?thesis
    by (simp add: BYTE_OVERLAP_def word_le_nat_alt range_add[OF assms(1)] range_add[OF assms(2)] not_le conj_commute)
qed

text \<open>The pending stores of an entry that overlap the load \<open>a\<close>, by byte.\<close>

definition candidate :: "uops \<Rightarrow> addr \<Rightarrow> mem_map_entry \<Rightarrow> nat \<Rightarrow> bool" where
  "candidate us a m b \<longleftrightarrow> bit (mm_store_mask m) b \<and> overlaps (us (the (mm_uop m ! b))) (us a)"

definition store_num :: "uops \<Rightarrow> mem_map_entry \<Rightarrow> nat \<Rightarrow> Counter" where
  "store_num us m b = u_uop_num (us (the (mm_uop m ! b)))"

definition store_ok :: "uop \<Rightarrow> bool" where
  "store_ok s \<longleftrightarrow> range_ok s \<and> 0 < u_uop_num s \<and> u_uop_num s < 2 ^ 32 \<and> u_thread_id s \<noteq> - 1"

definition entry_ok :: "uops \<Rightarrow> mem_map_entry \<Rightarrow> bool" where
  "entry_ok us m \<longleftrightarrow> length (mm_uop m) = BYTES_IN_QUADWORD \<and>
     (\<forall>b<BYTES_IN_QUADWORD. bit (mm_store_mask m) b \<longrightarrow> (\<exists>s. mm_uop m ! b = Some s \<and> store_ok (us s)))"

definition best :: "uops \<Rightarrow> addr \<Rightarrow> mem_map_entry \<Rightarrow> nat set \<Rightarrow> nat option \<Rightarrow> uns32 \<Rightarrow> nat option \<Rightarrow> bool" where
  "best us a m B fb w fb' \<longleftrightarrow>
     (fb' = fb \<and> (\<forall>b\<in>B. candidate us a m b \<longrightarrow> store_num us m b \<le> ucast w)) \<or>
     (\<exists>b\<in>B. candidate us a m b \<and> fb' = Some b \<and> ucast w < store_num us m b \<and>
        (\<forall>c\<in>B. candidate us a m c \<longrightarrow> store_num us m c \<le> store_num us m b))"

lemma best_skip: "\<not> candidate us a m i \<or> store_num us m i \<le> ucast w \<Longrightarrow> best us a m B fb w fb' \<Longrightarrow> best us a m (insert i B) fb w fb'"
  unfolding best_def by (auto intro: order_trans less_imp_le)

lemma best_take:
  assumes "candidate us a m i" "ucast w < store_num us m i" "store_num us m i < 2 ^ 32"
    "best us a m B (Some i) (ucast (store_num us m i)) fb'"
  shows "best us a m (insert i B) fb w fb'"
proof -
  have "(ucast (ucast (store_num us m i) :: uns32) :: Counter) = store_num us m i"
  proof (rule unsigned_word_eqI[where ?'a = nat])
    have "unat (store_num us m i) < 2 ^ 32" using assms(3) by (simp add: word_less_nat_alt)
    then show "unat (ucast (ucast (store_num us m i) :: uns32) :: Counter) = unat (store_num us m i)"
      by (simp add: unsigned_ucast_eq unsigned_take_bit_eq take_bit_nat_eq_self)
  qed
  with assms show ?thesis unfolding best_def by (auto intro: order_trans less_imp_le dest: less_trans)
qed

lemma dep_free_same:
  assumes "\<forall>x. dep_free (us x) = dep_free (us0 x)"
  shows "candidate us a m b = candidate us0 a m b" "store_num us m b = store_num us0 m b" "store_ok (us x) = store_ok (us0 x)"
    "range_ok (us x) = range_ok (us0 x)"
proof -
  have F: "u_vaddr (us x) = u_vaddr (us0 x)" "u_mem_size (us x) = u_mem_size (us0 x)" "u_uop_num (us x) = u_uop_num (us0 x)"
    "u_thread_id (us x) = u_thread_id (us0 x)" for x
    using dep_free_eqD[of "us x" "us0 x"] assms by auto
  show "candidate us a m b = candidate us0 a m b" "store_num us m b = store_num us0 m b" "store_ok (us x) = store_ok (us0 x)"
    "range_ok (us x) = range_ok (us0 x)"
    by (simp_all add: candidate_def store_num_def store_ok_def range_ok_def overlaps_def bytes_of_def F)
qed

text \<open>How many sources the loop may add.\<close>

definition need :: "map_knobs \<Rightarrow> uops \<Rightarrow> addr \<Rightarrow> mem_map_entry \<Rightarrow> nat list \<Rightarrow> nat" where
  "need k us a m iis = (if KNOB_MEM_OOO_STORES k then length (filter (candidate us a m) iis) else 0)"

lemma byte_loop_ok:
  assumes m: "entry_ok us m" and a: "range_ok (us a)" "u_thread_id (us a) \<noteq> - 1" "srcs_wf (us a)"
    and iis: "set iis \<subseteq> {..<BYTES_IN_QUADWORD}" and room: "u_num_srcs (us a) + need k us a m iis \<le> MAX_UOP_SRC_DEPS"
  shows "\<exists>us' fb'. byte_loop k a m iis us fb w = Inr (us', fb') \<and> grown us a (need k us a m iis) us' \<and>
    best us a m (set iis) fb w fb' \<and>
    (KNOB_MEM_OOO_STORES k \<longrightarrow> (\<forall>b\<in>set iis. candidate us a m b \<longrightarrow> depends_on us' a (store_num us m b)))"
  using assms
proof (induction iis arbitrary: us fb w)
  case Nil
  then show ?case by (simp add: grown_refl best_def need_def)
next
  case (Cons i iis)
  note m = Cons.prems(1)[unfolded entry_ok_def] and a = Cons.prems(2-4)
  have i: "i < BYTES_IN_QUADWORD" "set iis \<subseteq> {..<BYTES_IN_QUADWORD}" using Cons.prems(5) by auto
  show ?case
  proof (cases "candidate us a m i")
    case False
    have "byte_loop k a m (i # iis) us fb w = byte_loop k a m iis us fb w"
    proof (cases "bit (mm_store_mask m) i")
      case True
      then obtain s where s: "mm_uop m ! i = Some s" "range_ok (us s)" using m i(1) by (auto simp add: store_ok_def)
      then have "\<not> overlaps (us s) (us a)" using False True by (simp add: candidate_def)
      with s True m i(1) a(1) show ?thesis by (simp add: xtestbit_bit BYTE_OVERLAP_iff)
    qed (use m i(1) in \<open>simp add: xtestbit_bit\<close>)
    moreover have "need k us a m (i # iis) = need k us a m iis" using False by (simp add: need_def)
    ultimately show ?thesis
      using Cons.IH[OF Cons.prems(1-4) i(2), of fb w] Cons.prems(6) False best_skip[of us a m i w "set iis" fb] by auto
  next
    case True
    then have bit: "bit (mm_store_mask m) i" and ov: "overlaps (us (the (mm_uop m ! i))) (us a)" by (simp_all add: candidate_def)
    then obtain s where s: "mm_uop m ! i = Some s" "store_ok (us s)" using m i(1) by blast
    have num: "store_num us m i = u_uop_num (us s)" using s by (simp add: store_num_def)
    define ooo where "ooo = KNOB_MEM_OOO_STORES k"
    have need: "need k us a m (i # iis) = (if ooo then 1 else 0) + need k us a m iis" using True by (simp add: need_def ooo_def)
    have "\<exists>us1. (if ooo then add_src_from_uop us a s MEM_DATA_DEP else Inr us) = Inr us1 \<and> grown us a (if ooo then 1 else 0) us1 \<and>
        (ooo \<longrightarrow> depends_on us1 a (u_uop_num (us s)))"
      using add_src_from_uop_ok[of us a MEM_DATA_DEP s] a(2,3) s(2) Cons.prems(6) need grown_refl[of us a, OF a(3)] by (auto simp add: store_ok_def)
    then obtain us1 where us1: "(if ooo then add_src_from_uop us a s MEM_DATA_DEP else Inr us) = Inr us1"
      "grown us a (if ooo then 1 else 0) us1" "ooo \<longrightarrow> depends_on us1 a (u_uop_num (us s))" by blast
    have df: "\<forall>x. dep_free (us1 x) = dep_free (us x)" using grown_dep_free[OF us1(2)] by blast
    note S = dep_free_same[OF df]
    have nd: "need k us1 a m iis = need k us a m iis" using S(1) by (simp add: need_def cong: filter_cong)
    have pre: "entry_ok us1 m" "range_ok (us1 a)" "u_thread_id (us1 a) \<noteq> - 1" "srcs_wf (us1 a)"
      "u_num_srcs (us1 a) + need k us1 a m iis \<le> MAX_UOP_SRC_DEPS"
      using Cons.prems(1,6) a us1(2) dep_free_eqD(3)[of "us1 a" "us a"] df need
      by (simp_all add: entry_ok_def S grown_def nd split: if_splits)
    have "u_uop_num (us1 s) = u_uop_num (us s)" using df dep_free_eqD(1) by blast
    then have step: "byte_loop k a m (i # iis) us fb w = (if ucast w < store_num us m i
        then byte_loop k a m iis us1 (Some i) (ucast (store_num us m i)) else byte_loop k a m iis us1 fb w)"
      using bit s m i(1) a(1) ov us1(1) num
      by (simp add: xtestbit_bit BYTE_OVERLAP_iff store_ok_def ooo_def)
    define fb1 w1 where "fb1 = (if ucast w < store_num us m i then Some i else fb)"
      and "w1 = (if ucast w < store_num us m i then ucast (store_num us m i) else w)"
    from Cons.IH[OF pre(1-4) i(2) pre(5), of fb1 w1] obtain us' fb' where
      r: "byte_loop k a m iis us1 fb1 w1 = Inr (us', fb')" "grown us1 a (need k us1 a m iis) us'" "best us1 a m (set iis) fb1 w1 fb'"
      "ooo \<longrightarrow> (\<forall>b\<in>set iis. candidate us1 a m b \<longrightarrow> depends_on us' a (store_num us1 m b))" unfolding ooo_def by blast
    have "best us a m (set (i # iis)) fb w fb'"
    proof (cases "ucast w < store_num us m i")
      case True
      then show ?thesis using r(3) best_take[OF \<open>candidate us a m i\<close>, of w "set iis" fb' fb] s(2) num
        by (simp add: fb1_def w1_def best_def S store_ok_def)
    next
      case False
      then have "best us a m (set iis) fb w fb'" using r(3) by (simp add: fb1_def w1_def best_def S)
      with False show ?thesis using best_skip[of us a m i w "set iis" fb fb'] by (simp add: not_less)
    qed
    moreover have "byte_loop k a m (i # iis) us fb w = Inr (us', fb')" using r(1) unfolding step by (simp add: fb1_def w1_def split: if_splits)
    moreover have "grown us a (need k us a m (i # iis)) us'" using grown_trans[OF us1(2) r(2)] by (simp add: need nd)
    moreover have "\<forall>b\<in>set (i # iis). candidate us a m b \<longrightarrow> depends_on us' a (store_num us m b)" if ooo
      using r(4) that us1(3) grown_depends[OF r(2)] num by (auto simp add: S)
    ultimately show ?thesis unfolding ooo_def by blast
  qed
qed

lemma grown_mono: "grown us a m us' \<Longrightarrow> m \<le> n \<Longrightarrow> grown us a n us'"
  by (auto simp add: grown_def)

lemma select_store_ok:
  assumes m: "entry_ok us m" and a: "range_ok (us a)" "u_thread_id (us a) \<noteq> - 1" "srcs_wf (us a)"
    and room: "u_num_srcs (us a) + need k us a m [0..<BYTES_IN_QUADWORD] \<le> MAX_UOP_SRC_DEPS"
    and same: "\<forall>b s. b < BYTES_IN_QUADWORD \<and> bit (mm_store_mask m) b \<and> b = first_byte (u_vaddr (us a)) \<and> mm_uop m ! b = Some s
      \<longrightarrow> u_vaddr (us s) = u_vaddr (us a)"
  shows "\<exists>us' fb. select_store k a m us = Inr (us', fb) \<and> grown us a (need k us a m [0..<BYTES_IN_QUADWORD]) us' \<and>
    best us a m {..<BYTES_IN_QUADWORD} None 0 fb \<and>
    (KNOB_MEM_OOO_STORES k \<longrightarrow> (\<forall>b<BYTES_IN_QUADWORD. candidate us a m b \<longrightarrow> depends_on us' a (store_num us m b)))"
proof (cases "mm_store_mask m = push_bit (first_byte (u_vaddr (us a))) 1")
  case False
  then have "select_store k a m us = byte_loop k a m [0..<BYTES_IN_QUADWORD] us None 0" by (simp add: select_store_def Let_def)
  with byte_loop_ok[OF m a _ room, of None 0] show ?thesis by (auto simp add: atLeast0LessThan)
next
  case True
  define f ooo where "f = first_byte (u_vaddr (us a))" and "ooo = KNOB_MEM_OOO_STORES k"
  have f: "f < BYTES_IN_QUADWORD" by (simp add: f_def first_byte_less)
  have bits: "bit (mm_store_mask m) b \<longleftrightarrow> b = f" if "b < BYTES_IN_QUADWORD" for b
    unfolding True f_def[symmetric] bit_push_bit_iff bit_1_iff using that f by (auto simp add: BYTES_IN_QUADWORD_def)
  from m f bits[OF f] obtain s where s: "mm_uop m ! f = Some s" "store_ok (us s)" by (auto simp add: entry_ok_def)
  have va: "u_vaddr (us s) = u_vaddr (us a)" using same[rule_format, of f s] f bits[OF f] s(1) f_def by blast
  have cf: "candidate us a m b \<longleftrightarrow> b = f" if "b < BYTES_IN_QUADWORD" for b
  proof -
    have "unat (u_vaddr (us a)) \<in> bytes_of (us s) \<inter> bytes_of (us a)"
      using s(2) va a(1) by (simp add: bytes_of_def range_ok_def store_ok_def)
    then have "overlaps (us s) (us a)" unfolding overlaps_def by blast
    with bits[OF that] s(1) show ?thesis by (auto simp add: candidate_def)
  qed
  then have "f \<in> set (filter (candidate us a m) [0..<BYTES_IN_QUADWORD])" using f by simp
  then have need: "(if ooo then 1 else 0) \<le> need k us a m [0..<BYTES_IN_QUADWORD]"
    unfolding need_def ooo_def[symmetric] by (metis One_nat_def Suc_leI le0 length_pos_if_in_set)
  have "\<exists>us1. (if ooo then add_src_from_uop us a s MEM_DATA_DEP else Inr us) = Inr us1 \<and> grown us a (if ooo then 1 else 0) us1 \<and>
      (ooo \<longrightarrow> depends_on us1 a (u_uop_num (us s)))"
    using add_src_from_uop_ok[of us a MEM_DATA_DEP s] a(2,3) s(2) room need grown_refl[of us a, OF a(3)] by (auto simp add: store_ok_def)
  then obtain us1 where us1: "(if ooo then add_src_from_uop us a s MEM_DATA_DEP else Inr us) = Inr us1"
    "grown us a (if ooo then 1 else 0) us1" "ooo \<longrightarrow> depends_on us1 a (u_uop_num (us s))" by blast
  have "select_store k a m us = Inr (us1, Some f)"
    using True s(1) va us1(1) f m by (simp add: select_store_def f_def[symmetric] ooo_def entry_ok_def)
  moreover have "best us a m {..<BYTES_IN_QUADWORD} None 0 (Some f)"
    using cf f s by (auto simp add: best_def store_num_def store_ok_def)
  ultimately show ?thesis
    using us1(3) grown_mono[OF us1(2) need] cf s(1) unfolding ooo_def[symmetric] by (auto simp add: store_num_def)
qed

text \<open>The pending stores of the load's quadword and path that overlap it.\<close>

definition conflicts :: "uops \<Rightarrow> map_data \<Rightarrow> addr \<Rightarrow> addr set" where
  "conflicts us d a = {s. \<exists>b. pend (md_oracle_mem_hash d) (fst (store_key (us a)), b) = Some s \<and> overlaps (us s) (us a)}"

lemma conflicts_image:
  assumes wf: "store_map_wf us (md_oracle_mem_hash d)" and h: "md_oracle_mem_hash d (fst (store_key (us a))) = Some m"
  shows "conflicts us d a = (\<lambda>b. the (mm_uop m ! b)) ` {b. b < BYTES_IN_QUADWORD \<and> candidate us a m b}"
    "card (conflicts us d a) = length (filter (candidate us a m) [0..<BYTES_IN_QUADWORD])"
proof -
  define B where "B = {b. b < BYTES_IN_QUADWORD \<and> candidate us a m b}"
  have st: "\<exists>s. mm_uop m ! b = Some s \<and> store_key (us s) = (fst (store_key (us a)), b)" if "b \<in> B" for b
    using store_map_wfD(3)[OF wf h, of b] that by (auto simp add: B_def candidate_def)
  show im: "conflicts us d a = (\<lambda>b. the (mm_uop m ! b)) ` {b. b < BYTES_IN_QUADWORD \<and> candidate us a m b}"
    using st h unfolding B_def[symmetric]
    by (force simp add: conflicts_def pend_def B_def candidate_def split: if_splits)
  have "inj_on (\<lambda>b. the (mm_uop m ! b)) B"
  proof (rule inj_onI)
    fix b c
    assume "b \<in> B" "c \<in> B" "the (mm_uop m ! b) = the (mm_uop m ! c)"
    with st[of b] st[of c] show "b = c" by auto
  qed
  then have "card (conflicts us d a) = card B" unfolding im B_def by (rule card_image)
  also have "B = set (filter (candidate us a m) [0..<BYTES_IN_QUADWORD])" by (auto simp add: B_def)
  also have "card \<dots> = length (filter (candidate us a m) [0..<BYTES_IN_QUADWORD])" by (rule distinct_card) simp
  finally show "card (conflicts us d a) = length (filter (candidate us a m) [0..<BYTES_IN_QUADWORD])" .
qed

lemma conflicts_none:
  "md_oracle_mem_hash d (fst (store_key (us a))) = None \<Longrightarrow> conflicts us d a = {}"
  by (simp add: conflicts_def pend_def)

lemma add_store_deps_found:
  assumes wf: "store_map_wf us (md_oracle_mem_hash d)" and h: "md_oracle_mem_hash d (fst (store_key (us a))) = Some m"
    and cm: "cm (thread_key (us a)) = Some d"
    and st: "\<forall>b s. pend (md_oracle_mem_hash d) (fst (store_key (us a)), b) = Some s \<longrightarrow> store_ok (us s)"
    and a: "range_ok (us a)" "u_thread_id (us a) \<noteq> - 1" "srcs_wf (us a)"
    and room: "u_num_srcs (us a) + card (conflicts us d a) \<le> MAX_UOP_SRC_DEPS"
  shows "\<exists>p us'. add_store_deps k a (us, cm) = Inr (p, us', cm) \<and> (p = None \<longleftrightarrow> conflicts us d a = {}) \<and>
    (\<forall>s. p = Some s \<longrightarrow> s \<in> conflicts us d a \<and> (\<forall>t\<in>conflicts us d a. u_uop_num (us t) \<le> u_uop_num (us s)) \<and>
       depends_on us' a (u_uop_num (us s))) \<and>
    (KNOB_MEM_OOO_STORES k \<longrightarrow> (\<forall>t\<in>conflicts us d a. depends_on us' a (u_uop_num (us t))))"
proof -
  define key where "key = MEM_MAP_KEY (u_vaddr (us a)) (u_off_path (us a))"
  have fk: "fst (store_key (us a)) = key" by (simp add: key_def store_key_def)
  note C = conflicts_image[OF wf h] and M = store_map_wfD[OF wf h]
  have sk: "mm_uop m ! b = Some s \<Longrightarrow> store_key (us s) = (key, b)" if "b < BYTES_IN_QUADWORD" "bit (mm_store_mask m) b" for b s
    using M(3)[OF that] fk by auto
  have "\<exists>s. mm_uop m ! b = Some s \<and> store_ok (us s)" if b: "b < BYTES_IN_QUADWORD" "bit (mm_store_mask m) b" for b
  proof -
    obtain s where s: "mm_uop m ! b = Some s" using M(3)[OF b] by blast
    then have "pend (md_oracle_mem_hash d) (fst (store_key (us a)), b) = Some s" using h b by (simp add: pend_def)
    with st s show ?thesis by blast
  qed
  with M(1) have eo: "entry_ok us m" by (simp add: entry_ok_def)
  have same: "\<forall>b s. b < BYTES_IN_QUADWORD \<and> bit (mm_store_mask m) b \<and> b = first_byte (u_vaddr (us a)) \<and> mm_uop m ! b = Some s
      \<longrightarrow> u_vaddr (us s) = u_vaddr (us a)"
    using sk same_quadword_byte unfolding store_key_def key_def prod.inject by metis
  have room': "u_num_srcs (us a) + need k us a m [0..<BYTES_IN_QUADWORD] \<le> MAX_UOP_SRC_DEPS"
    using room C(2) by (simp add: need_def)
  from select_store_ok[OF eo a room' same] obtain us1 fb where
    sel: "select_store k a m us = Inr (us1, fb)" "grown us a (need k us a m [0..<BYTES_IN_QUADWORD]) us1"
      "best us a m {..<BYTES_IN_QUADWORD} None 0 fb"
      "KNOB_MEM_OOO_STORES k \<longrightarrow> (\<forall>b<BYTES_IN_QUADWORD. candidate us a m b \<longrightarrow> depends_on us1 a (store_num us m b))" by blast
  show ?thesis
  proof (cases fb)
    case None
    have "\<not> candidate us a m b" if bb: "b < BYTES_IN_QUADWORD" for b
    proof
      assume c: "candidate us a m b"
      then obtain s where "mm_uop m ! b = Some s" "store_ok (us s)" using eo bb by (auto simp add: entry_ok_def candidate_def)
      then have "0 < store_num us m b" by (simp add: store_num_def store_ok_def)
      with sel(3) None c bb show False by (auto simp add: best_def)
    qed
    then have "conflicts us d a = {}" using C(1) by auto
    moreover have "add_store_deps k a (us, cm) = Inr (None, us1, cm)"
      using cm h sel(1) fk None by (simp add: add_store_deps_def Let_def key_def[symmetric])
    ultimately show ?thesis by simp
  next
    case (Some b)
    then have b: "b < BYTES_IN_QUADWORD" "candidate us a m b" "\<forall>c<BYTES_IN_QUADWORD. candidate us a m c \<longrightarrow> store_num us m c \<le> store_num us m b"
      using sel(3) by (auto simp add: best_def)
    then obtain s where s: "mm_uop m ! b = Some s" "store_ok (us s)" using eo by (auto simp add: entry_ok_def candidate_def)
    have df: "dep_free (us1 x) = dep_free (us x)" for x by (rule grown_dep_free[OF sel(2)])
    have kk: "key = MEM_MAP_KEY (u_vaddr (us1 s)) (u_off_path (us a))"
    proof -
      have "MEM_MAP_KEY (u_vaddr (us s)) (u_off_path (us s)) = key" using sk[OF b(1) _ s(1)] b(2) by (simp add: candidate_def store_key_def)
      then show ?thesis using dep_free_eqD(8)[OF df[of s]] by (simp add: key_def MEM_MAP_KEY_eq)
    qed
    have in_conf: "s \<in> conflicts us d a" using C(1) b s(1) by force
    have mx: "\<forall>t\<in>conflicts us d a. u_uop_num (us t) \<le> u_uop_num (us s)"
      using C(1) b(3) s(1) by (auto simp add: store_num_def)
    have all: "\<forall>t\<in>conflicts us d a. depends_on us1 a (u_uop_num (us t))" if "KNOB_MEM_OOO_STORES k"
      using sel(4) that C(1) by (auto simp add: store_num_def)
    have "finite (conflicts us d a)" unfolding C(1) by simp
    then have pos: "0 < card (conflicts us d a)" using in_conf card_gt_0_iff by blast
    have "\<exists>us2. (if KNOB_MEM_OOO_STORES k then Inr us1 else add_src_from_uop us1 a s MEM_DATA_DEP) = Inr us2 \<and>
        depends_on us2 a (u_uop_num (us s)) \<and> (KNOB_MEM_OOO_STORES k \<longrightarrow> us2 = us1)"
    proof (cases "KNOB_MEM_OOO_STORES k")
      case True
      then show ?thesis using all in_conf by simp
    next
      case False
      have "u_num_srcs (us1 a) < MAX_UOP_SRC_DEPS" using sel(2) False room pos by (simp add: grown_def need_def)
      moreover have "srcs_wf (us1 a)" using sel(2) by (simp add: grown_def)
      moreover have "u_thread_id (us1 a) \<noteq> - 1" "u_thread_id (us1 s) \<noteq> - 1" "u_uop_num (us1 s) = u_uop_num (us s)"
        using dep_free_eqD(1,3)[OF df[of s]] dep_free_eqD(3)[OF df[of a]] a(2) s(2) by (simp_all add: store_ok_def)
      ultimately show ?thesis using add_src_from_uop_ok[of us1 a MEM_DATA_DEP s] False by auto
    qed
    then obtain us2 where us2: "(if KNOB_MEM_OOO_STORES k then Inr us1 else add_src_from_uop us1 a s MEM_DATA_DEP) = Inr us2"
      "depends_on us2 a (u_uop_num (us s))" "KNOB_MEM_OOO_STORES k \<longrightarrow> us2 = us1" by blast
    have "add_store_deps k a (us, cm) = Inr (Some s, us2, cm)"
      using cm h sel(1) fk Some s(1) b(1) M(1) kk a(2) us2(1)
      by (simp add: add_store_deps_def Let_def key_def[symmetric])
    with in_conf mx us2(2,3) all show ?thesis by auto
  qed
qed

text \<open>C14. Memory dependences: for a load whose thread has a map, whose sources leave room and whose pending
  stores have numbers below $2^{32}$, \<^verbatim>\<open>add_store_deps\<close> fails no assertion; it returns no store
  exactly when no pending store of the load's quadword and path overlaps the load, and otherwise the
  latest overlapping store, on which the load then depends. With out-of-order stores the load depends
  on every overlapping store.\<close>

theorem load_depends_on_latest_store:
  assumes "store_map_wf us (md_oracle_mem_hash d)" "cm (thread_key (us a)) = Some d"
    and "\<forall>b s. pend (md_oracle_mem_hash d) (fst (store_key (us a)), b) = Some s \<longrightarrow> store_ok (us s)"
    and "range_ok (us a)" "u_thread_id (us a) \<noteq> - 1" "srcs_wf (us a)"
    and "u_num_srcs (us a) + card (conflicts us d a) \<le> MAX_UOP_SRC_DEPS"
  shows "\<exists>p us'. add_store_deps k a (us, cm) = Inr (p, us', cm) \<and> (p = None \<longleftrightarrow> conflicts us d a = {}) \<and>
    (\<forall>s. p = Some s \<longrightarrow> s \<in> conflicts us d a \<and> (\<forall>t\<in>conflicts us d a. u_uop_num (us t) \<le> u_uop_num (us s)) \<and>
       depends_on us' a (u_uop_num (us s))) \<and>
    (KNOB_MEM_OOO_STORES k \<longrightarrow> (\<forall>t\<in>conflicts us d a. depends_on us' a (u_uop_num (us t))))"
proof (cases "md_oracle_mem_hash d (fst (store_key (us a)))")
  case None
  then have "add_store_deps k a (us, cm) = Inr (None, us, cm)" using assms(2) by (simp add: add_store_deps_def store_key_def)
  with conflicts_none[of d us a, OF None] show ?thesis by simp
next
  case (Some m)
  show ?thesis by (rule add_store_deps_found[of us d a m cm k, OF assms(1) Some assms(2-7)])
qed

text \<open>A four-byte store at 0x10 (uop 3) and a four-byte load at 0x12 (uop 4).\<close>

definition demo_mem_uops :: uops where
  "demo_mem_uops a = zero_uop\<lparr>u_uop_num := of_nat a, u_mem_type := (if a = 4 then MEM_LD else MEM_ST), u_mem_size := 4,
     u_vaddr := (if a = 4 then 0x12 else 0x10), u_map_src_info := replicate MAX_UOP_SRC_DEPS
       \<lparr>si_type = REG_DATA_DEP, si_uop = None, si_uop_num = 0, si_unique_num = 0\<rparr>\<rparr>"

definition demo_store_map :: map_data where
  "demo_store_map = demo_map_data\<lparr>md_oracle_mem_hash := [4 \<mapsto> \<lparr>mm_uop = [Some 3, None, None, None, None, None, None, None],
     mm_data = 0, mm_store_mask = 1\<rparr>]\<rparr>"

theorem load_depends_on_latest_store_witness:
  "\<exists>us'. add_store_deps (demo_map_knobs True) 4 (demo_mem_uops, [0 \<mapsto> demo_store_map]) = Inr (Some 3, us', [0 \<mapsto> demo_store_map]) \<and>
     depends_on us' 4 3"
proof -
  have keys: "store_key (demo_mem_uops 3) = (4, 0)" "store_key (demo_mem_uops 4) = (4, 2)" "thread_key (demo_mem_uops 4) = 0"
    by (simp_all add: store_key_def demo_mem_uops_def MEM_MAP_KEY_def first_byte_def thread_key_def zero_uop_def)
  have p: "pend (md_oracle_mem_hash demo_store_map) = [(4, 0) \<mapsto> 3]"
    by (auto simp add: fun_eq_iff pend_def demo_store_map_def BYTES_IN_QUADWORD_def bit_1_iff split: if_splits option.splits)
  have ov: "overlaps (demo_mem_uops 3) (demo_mem_uops 4)"
    unfolding overlaps_def bytes_of_def Int_atLeastLessThan atLeastLessThan_empty_iff by (simp add: demo_mem_uops_def)
  have c: "conflicts demo_mem_uops demo_store_map 4 = {3}" using ov by (auto simp add: conflicts_def p keys)
  have wf: "store_map_wf demo_mem_uops (md_oracle_mem_hash demo_store_map)"
    using keys(1) by (auto simp add: store_map_wf_def demo_store_map_def BYTES_IN_QUADWORD_def bit_1_iff split: if_splits)
  have ok: "\<forall>b s. pend (md_oracle_mem_hash demo_store_map) (fst (store_key (demo_mem_uops 4)), b) = Some s \<longrightarrow> store_ok (demo_mem_uops s)"
    by (auto simp add: p keys store_ok_def range_ok_def demo_mem_uops_def zero_uop_def word_less_nat_alt split: if_splits)
  have l: "range_ok (demo_mem_uops 4)" "u_thread_id (demo_mem_uops 4) \<noteq> - 1" "srcs_wf (demo_mem_uops 4)"
    "u_num_srcs (demo_mem_uops 4) + card (conflicts demo_mem_uops demo_store_map 4) \<le> MAX_UOP_SRC_DEPS"
    by (simp_all add: range_ok_def srcs_wf_def c) (simp_all add: demo_mem_uops_def zero_uop_def MAX_UOP_SRC_DEPS_def)
  have cm: "[0 \<mapsto> demo_store_map] (thread_key (demo_mem_uops 4)) = Some demo_store_map" by (simp add: keys)
  have n: "u_uop_num (demo_mem_uops 3) = 3" by (simp add: demo_mem_uops_def)
  from load_depends_on_latest_store[of demo_mem_uops demo_store_map "[0 \<mapsto> demo_store_map]" 4 "demo_map_knobs True", OF wf cm ok l]
  show ?thesis unfolding c using n by force
qed

text \<open>Two pending four-byte stores in one quadword: the later one, number $2^{32} + 5$, at byte 0 and an
  earlier one, number 7, at byte 4; the load covers both.\<close>

definition late_uops :: uops where
  "late_uops a = zero_uop\<lparr>u_uop_num := (if a = 1 then 0x100000005 else if a = 2 then 7 else 0x100000009),
     u_mem_type := (if a = 3 then MEM_LD else MEM_ST), u_mem_size := (if a = 3 then 8 else 4),
     u_vaddr := (if a = 2 then 0x14 else 0x10), u_map_src_info := replicate MAX_UOP_SRC_DEPS
       \<lparr>si_type = REG_DATA_DEP, si_uop = None, si_uop_num = 0, si_unique_num = 0\<rparr>\<rparr>"

definition late_map :: map_data where
  "late_map = demo_map_data\<lparr>md_oracle_mem_hash := [4 \<mapsto> \<lparr>mm_uop = [Some 1, None, None, None, Some 2, None, None, None],
     mm_data = 0, mm_store_mask = 0x11\<rparr>]\<rparr>"

text \<open>The number of the latest store is kept in a 32-bit \<^verbatim>\<open>unsigned int\<close> while uop numbers have
  64 bits: after $2^{32}$ uops the search picks the wrong store. Here both stores overlap the load, the
  store numbered $2^{32} + 5$ is the later one, and the load is made dependent on the store numbered 7.\<close>

theorem latest_store_truncated:
  "conflicts late_uops late_map 3 = {1, 2} \<and> u_uop_num (late_uops 2) < u_uop_num (late_uops 1) \<and>
   (\<exists>us'. add_store_deps (demo_map_knobs False) 3 (late_uops, [0 \<mapsto> late_map]) = Inr (Some 2, us', [0 \<mapsto> late_map]) \<and>
      u_num_srcs (us' 3) = 1 \<and> si_uop (u_map_src_info (us' 3) ! 0) = Some 2)"
proof (intro conjI)
  have k: "store_key (late_uops 3) = (4, 0)" "thread_key (late_uops 3) = 0" "MEM_MAP_KEY (u_vaddr (late_uops 3)) (u_off_path (late_uops 3)) = 4"
    by (simp_all add: store_key_def late_uops_def MEM_MAP_KEY_def first_byte_def thread_key_def zero_uop_def)
  have eq: "(0x11 :: uns8) = push_bit 4 1 OR 1" by simp
  have mask: "bit (0x11 :: uns8) b \<longleftrightarrow> b = 0 \<or> b = 4" for b
    unfolding eq bit_or_iff bit_push_bit_iff bit_1_iff by auto
  have p: "pend (md_oracle_mem_hash late_map) = [(4, 0) \<mapsto> 1, (4, 4) \<mapsto> 2]"
  proof (rule ext, goal_cases)
    case (1 x)
    obtain q b where x: "x = (q, b)" by fastforce
    then show ?case using mask[of b] by (cases "q = 4"; cases "b = 0"; cases "b = 4")
      (auto simp add: pend_def late_map_def BYTES_IN_QUADWORD_def)
  qed
  have ov: "overlaps (late_uops 1) (late_uops 3)" "overlaps (late_uops 2) (late_uops 3)"
    unfolding overlaps_def bytes_of_def Int_atLeastLessThan atLeastLessThan_empty_iff by (simp_all add: late_uops_def)
  show "conflicts late_uops late_map 3 = {1, 2}" using ov by (auto simp add: conflicts_def p k split: if_splits)
  show "u_uop_num (late_uops 2) < u_uop_num (late_uops 1)" by (simp add: late_uops_def word_less_nat_alt)
  have "byte_loop (demo_map_knobs False) 3 \<lparr>mm_uop = [Some 1, None, None, None, Some 2, None, None, None], mm_data = 0, mm_store_mask = 0x11\<rparr>
      [0..<8] late_uops None 0 = Inr (late_uops, Some 4)"
    by (simp add: upt_conv_Cons xtestbit_bit mask demo_map_knobs_def BYTE_OVERLAP_def late_uops_def word_le_nat_alt word_less_nat_alt)
  then show "\<exists>us'. add_store_deps (demo_map_knobs False) 3 (late_uops, [0 \<mapsto> late_map]) = Inr (Some 2, us', [0 \<mapsto> late_map]) \<and>
      u_num_srcs (us' 3) = 1 \<and> si_uop (u_map_src_info (us' 3) ! 0) = Some 2"
    using k by (simp add: add_store_deps_def Let_def late_map_def select_store_def first_byte_def BYTES_IN_QUADWORD_def
      demo_map_knobs_def late_uops_def zero_uop_def MEM_MAP_KEY_def add_src_from_uop_def set_src_info_def set_not_rdy_bit_def MAX_UOP_SRC_DEPS_def)
qed

end
