(* ===== verification/MemReq.thy ===== *)
theory MemReq
  imports Prelude
begin

text \<open>
  The memory request \<^verbatim>\<open>mem_req_s\<close> of \<^verbatim>\<open>src/src/memreq_info.h\<close> and
  \<^verbatim>\<open>src/src/memreq_info.cc\<close>, the value that the caches, the network and the memory
  controllers exchange. The fields \<^verbatim>\<open>m_x\<close> are named \<open>mr_x\<close>; pointers are addresses of the
  store of requests; the completion callback is named by a number.
\<close>

datatype MEMORY_TYPE = MEM_L1 | MEM_L2 | MEM_L3 | MEM_LLC | MEM_MC

datatype NOC_TYPE = NOC_FILL | NOC_ACK | NOC_NEW | NOC_NEW_WITH_DATA | NOC_LAST | MAX_NOC_STATE

datatype Mem_Req_State =
    MEM_INV | MEM_NEW | MEM_MERGED | MEM_OUTQUEUE_NEW | MEM_IN_NOC | MEM_OUT_FILL | MEM_OUT_WB | MEM_FILL_NEW
  | MEM_FILL_WAIT_DONE | MEM_FILL_WAIT_FILL | MEM_DRAM_START | MEM_DRAM_CMD | MEM_DRAM_DATA | MEM_DRAM_DONE
  | MEM_NOC_START | MEM_NOC_DONE | MEM_STATE_MAX

datatype Mem_Req_Type =
    MRT_IFETCH | MRT_DFETCH | MRT_DSTORE | MRT_IPRF | MRT_DPRF | MRT_WB | MRT_SW_DPRF | MRT_SW_DPRF_NTA
  | MRT_SW_DPRF_T0 | MRT_SW_DPRF_T1 | MRT_SW_DPRF_T2 | MAX_MEM_REQ_TYPE

record mem_req =
  mr_id :: int
  mr_appl_id :: int
  mr_core_id :: int
  mr_thread_id :: int
  mr_block_id :: int
  mr_state :: Mem_Req_State
  mr_type :: Mem_Req_Type
  mr_with_data :: bool
  mr_priority :: Counter
  mr_addr :: Addr
  mr_size :: uns32
  mr_rdy_cycle :: Counter
  mr_pc :: Addr
  mr_prefetcher_id :: uns8
  mr_pref_loadPC :: Addr
  mr_acc :: bool
  mr_queue :: ptr
  mr_cache_id :: "int list"
  mr_uop :: ptr
  mr_in :: Counter
  mr_core_in :: Counter
  mr_in_global :: Counter
  mr_dirty :: bool
  mr_done :: bool
  mr_merged_req :: ptr
  mr_msg_type :: NOC_TYPE
  mr_msg_src :: int
  mr_msg_dst :: int
  mr_bypass :: int
  mr_skip :: bool
  mr_noc_type :: int
  mr_noc_cycle :: Counter
  mr_insert_cycle :: Counter
  mr_parent :: ptr
  mr_is_metadata :: bool
  mr_is_trigger_req :: bool
  mr_is_trigger_resp :: bool
  mr_done_func :: "nat option"
  mr_merge :: "addr list"

definition MEM_LAST :: nat where
  "MEM_LAST = 6"

text \<open>The message type 0 is \<^verbatim>\<open>NOC_FILL\<close>. The fields \<^verbatim>\<open>init\<close> does not name keep their
  values.\<close>

definition mem_req_init :: "mem_req \<Rightarrow> mem_req" where
  "mem_req_init r = r
     \<lparr>mr_id := 0, mr_appl_id := 0, mr_core_id := 0, mr_thread_id := 0, mr_block_id := 0, mr_state := MEM_INV,
      mr_type := MRT_IFETCH, mr_priority := 0, mr_addr := 0, mr_size := 0, mr_rdy_cycle := 0, mr_pc := 0,
      mr_prefetcher_id := 0, mr_pref_loadPC := 0, mr_acc := False, mr_queue := None,
      mr_cache_id := replicate MEM_LAST 0, mr_uop := None, mr_in := 0, mr_dirty := False, mr_done := False,
      mr_merged_req := None, mr_msg_type := NOC_FILL, mr_msg_src := 0, mr_msg_dst := 0, mr_done_func := None,
      mr_bypass := 0, mr_noc_cycle := 0, mr_insert_cycle := 0, mr_parent := None, mr_is_metadata := False,
      mr_is_trigger_req := False, mr_is_trigger_resp := False\<rparr>"

text \<open>A request with all fields cleared.\<close>

definition clear_req :: mem_req where
  "clear_req = \<lparr>mr_id = 0, mr_appl_id = 0, mr_core_id = 0, mr_thread_id = 0, mr_block_id = 0, mr_state = MEM_INV, mr_type = MRT_IFETCH,
     mr_with_data = False, mr_priority = 0, mr_addr = 0, mr_size = 0, mr_rdy_cycle = 0, mr_pc = 0, mr_prefetcher_id = 0, mr_pref_loadPC = 0,
     mr_acc = False, mr_queue = None, mr_cache_id = replicate MEM_LAST 0, mr_uop = None, mr_in = 0, mr_core_in = 0, mr_in_global = 0,
     mr_dirty = False, mr_done = False, mr_merged_req = None, mr_msg_type = NOC_FILL, mr_msg_src = 0, mr_msg_dst = 0, mr_bypass = 0,
     mr_skip = False, mr_noc_type = 0, mr_noc_cycle = 0, mr_insert_cycle = 0, mr_parent = None, mr_is_metadata = False,
     mr_is_trigger_req = False, mr_is_trigger_resp = False, mr_done_func = None, mr_merge = []\<rparr>"

end
