(* ===== verification/Frontend.thy ===== *)
theory Frontend
  imports Prelude
begin

text \<open>
  The part of \<^verbatim>\<open>frontend_c\<close> (\<^verbatim>\<open>src/src/frontend.h\<close>, \<^verbatim>\<open>src/src/frontend.cc\<close>) that
  the execution stage and the caches call: a thread of a GPU core is not fetched while one of its
  loads or branches is outstanding. The state of a thread that fetching alone uses is left out.
\<close>

section \<open>The waiting state of the threads\<close>

record frontend_s =
  fs_MT_load_waiting :: int
  fs_MT_br_waiting :: bool
  fs_load_waiting :: "Counter \<rightharpoonup> bool"

text \<open>\<open>fr_thread t\<close> is the fetch data of the trace that \<^verbatim>\<open>get_trace_info\<close> returns for the
  thread \<open>t\<close>, \<open>None\<close> when the core has no such thread.\<close>

record frontend =
  fr_thread :: "int \<Rightarrow> frontend_s option"
  fr_mem_access_thread_num :: int

definition frontend_s_new :: frontend_s where
  "frontend_s_new = \<lparr>fs_MT_load_waiting = 0, fs_MT_br_waiting = False, fs_load_waiting = (\<lambda>_. None)\<rparr>"

definition with_thread :: "int \<Rightarrow> (frontend_s \<Rightarrow> frontend \<Rightarrow> 'a res) \<Rightarrow> frontend \<Rightarrow> 'a res" where
  "with_thread t f fr = (case fr_thread fr t of None \<Rightarrow> Inl NullPointer | Some d \<Rightarrow> f d fr)"

definition put_thread :: "int \<Rightarrow> frontend_s \<Rightarrow> frontend \<Rightarrow> frontend" where
  "put_thread t d fr = fr\<lparr>fr_thread := (fr_thread fr)(t \<mapsto> d)\<rparr>"

definition set_br_wait :: "int \<Rightarrow> frontend \<Rightarrow> frontend res" where
  "set_br_wait t = with_thread t (\<lambda>d fr. Inr (put_thread t (d\<lparr>fs_MT_br_waiting := True\<rparr>) fr))"

definition set_br_ready :: "int \<Rightarrow> frontend \<Rightarrow> frontend res" where
  "set_br_ready t = with_thread t (\<lambda>d fr. Inr (put_thread t (d\<lparr>fs_MT_br_waiting := False\<rparr>) fr))"

definition set_load_wait :: "int \<Rightarrow> Counter \<Rightarrow> frontend \<Rightarrow> frontend res" where
  "set_load_wait t n = with_thread t (\<lambda>d fr.
     let fr1 = (if fs_MT_load_waiting d = 0
                then fr\<lparr>fr_mem_access_thread_num := fr_mem_access_thread_num fr + 1\<rparr> else fr)
     in Inr (put_thread t (d\<lparr>fs_MT_load_waiting := fs_MT_load_waiting d + 1,
                             fs_load_waiting := (fs_load_waiting d)(n \<mapsto> True)\<rparr>) fr1))"

definition set_load_ready :: "int \<Rightarrow> Counter \<Rightarrow> frontend \<Rightarrow> frontend res" where
  "set_load_ready t n = with_thread t (\<lambda>d fr.
     let d1 = (if fs_load_waiting d n \<noteq> None
               then d\<lparr>fs_MT_load_waiting := fs_MT_load_waiting d - 1,
                      fs_load_waiting := (fs_load_waiting d)(n := None)\<rparr> else d);
         fr1 = (if fs_MT_load_waiting d1 = 0
                then fr\<lparr>fr_mem_access_thread_num := fr_mem_access_thread_num fr - 1\<rparr> else fr)
     in Inr (put_thread t d1 fr1))"

definition check_load_ready :: "int \<Rightarrow> frontend \<Rightarrow> bool res" where
  "check_load_ready t = with_thread t (\<lambda>d fr. Inr (fs_MT_load_waiting d = 0))"

definition check_br_ready :: "int \<Rightarrow> frontend \<Rightarrow> bool res" where
  "check_br_ready t = with_thread t (\<lambda>d fr. Inr (\<not> fs_MT_br_waiting d))"

section \<open>The count of waiting threads\<close>

text \<open>The loads a thread waits for, and the threads that wait.\<close>

definition outstanding :: "frontend \<Rightarrow> int \<Rightarrow> Counter set" where
  "outstanding fr t = (case fr_thread fr t of None \<Rightarrow> {} | Some d \<Rightarrow> dom (fs_load_waiting d))"

definition waiting_threads :: "frontend \<Rightarrow> int set" where
  "waiting_threads fr = {t. outstanding fr t \<noteq> {}}"

definition wait_wf :: "frontend \<Rightarrow> bool" where
  "wait_wf fr \<longleftrightarrow>
     (\<forall>t d. fr_thread fr t = Some d \<longrightarrow> finite (dom (fs_load_waiting d)) \<and>
        fs_MT_load_waiting d = int (card (dom (fs_load_waiting d)))) \<and>
     finite (waiting_threads fr) \<and> fr_mem_access_thread_num fr = int (card (waiting_threads fr))"

lemma wait_wfD:
  assumes "wait_wf fr" "fr_thread fr t = Some d"
  shows "finite (dom (fs_load_waiting d))" "fs_MT_load_waiting d = int (card (dom (fs_load_waiting d)))"
    "outstanding fr t = dom (fs_load_waiting d)"
    "fs_MT_load_waiting d = 0 \<longleftrightarrow> outstanding fr t = {}"
  using assms by (auto simp add: wait_wf_def outstanding_def)

lemma outstanding_put: "outstanding (put_thread t d fr) t' = (if t' = t then dom (fs_load_waiting d) else outstanding fr t')"
  by (simp add: outstanding_def put_thread_def)

lemma outstanding_num [simp]: "outstanding (fr\<lparr>fr_mem_access_thread_num := n\<rparr>) = outstanding fr"
  by (simp add: outstanding_def fun_eq_iff cong: option.case_cong)

lemma waiting_put:
  "waiting_threads (put_thread t d fr) =
     (if dom (fs_load_waiting d) = {} then waiting_threads fr - {t} else insert t (waiting_threads fr))"
  by (auto simp add: waiting_threads_def outstanding_put split: if_splits)

lemma wait_wf_put:
  assumes wf: "wait_wf fr" and d: "finite (dom (fs_load_waiting d))"
      "fs_MT_load_waiting d = int (card (dom (fs_load_waiting d)))"
    and n: "n = int (card (waiting_threads (put_thread t d fr)))"
  shows "wait_wf (put_thread t d (fr\<lparr>fr_mem_access_thread_num := n\<rparr>))"
proof -
  have eq: "put_thread t d (fr\<lparr>fr_mem_access_thread_num := n\<rparr>) = (put_thread t d fr)\<lparr>fr_mem_access_thread_num := n\<rparr>"
    by (simp add: put_thread_def)
  have "waiting_threads ((put_thread t d fr)\<lparr>fr_mem_access_thread_num := n\<rparr>) = waiting_threads (put_thread t d fr)"
    by (simp add: waiting_threads_def)
  moreover have "finite (waiting_threads (put_thread t d fr))" using wf by (simp add: waiting_put wait_wf_def)
  ultimately show ?thesis
    using wf d n unfolding eq by (auto simp add: wait_wf_def put_thread_def)
qed

lemma set_load_wait_wf:
  assumes wf: "wait_wf fr" and t: "fr_thread fr t = Some d" and new: "n \<notin> outstanding fr t"
  obtains fr' where "set_load_wait t n fr = Inr fr'" "wait_wf fr'"
    "outstanding fr' = (outstanding fr)(t := insert n (outstanding fr t))" "check_load_ready t fr' = Inr False"
proof -
  note W = wait_wfD[OF wf t]
  define d' where "d' = d\<lparr>fs_MT_load_waiting := fs_MT_load_waiting d + 1, fs_load_waiting := (fs_load_waiting d)(n \<mapsto> True)\<rparr>"
  define c where "c = fr_mem_access_thread_num fr + (if fs_MT_load_waiting d = 0 then 1 else 0)"
  have dom: "dom (fs_load_waiting d') = insert n (dom (fs_load_waiting d))" by (simp add: d'_def)
  have mem: "t \<in> waiting_threads fr \<longleftrightarrow> fs_MT_load_waiting d \<noteq> 0" using W(4) by (simp add: waiting_threads_def)
  have card: "c = int (card (waiting_threads (put_thread t d' fr)))"
    using wf mem by (simp add: waiting_put dom c_def wait_wf_def insert_absorb)
  have eq: "set_load_wait t n fr = Inr (put_thread t d' (fr\<lparr>fr_mem_access_thread_num := c\<rparr>))"
    using t by (simp add: set_load_wait_def with_thread_def d'_def c_def)
  show ?thesis
  proof (rule that[OF eq])
    show "wait_wf (put_thread t d' (fr\<lparr>fr_mem_access_thread_num := c\<rparr>))"
      using wf W new by (intro wait_wf_put card) (simp_all add: d'_def)
    show "outstanding (put_thread t d' (fr\<lparr>fr_mem_access_thread_num := c\<rparr>)) = (outstanding fr)(t := insert n (outstanding fr t))"
      using W(3) dom by (simp add: fun_eq_iff outstanding_put)
    show "check_load_ready t (put_thread t d' (fr\<lparr>fr_mem_access_thread_num := c\<rparr>)) = Inr False"
      using W(2) by (simp add: check_load_ready_def with_thread_def put_thread_def d'_def)
  qed
qed

lemma set_load_ready_wf:
  assumes wf: "wait_wf fr" and t: "fr_thread fr t = Some d" and old: "n \<in> outstanding fr t"
  obtains fr' where "set_load_ready t n fr = Inr fr'" "wait_wf fr'"
    "outstanding fr' = (outstanding fr)(t := outstanding fr t - {n})"
    "check_load_ready t fr' = Inr (outstanding fr t = {n})"
proof -
  note W = wait_wfD[OF wf t]
  define d' where "d' = d\<lparr>fs_MT_load_waiting := fs_MT_load_waiting d - 1, fs_load_waiting := (fs_load_waiting d)(n := None)\<rparr>"
  define c where "c = fr_mem_access_thread_num fr - (if fs_MT_load_waiting d' = 0 then 1 else 0)"
  have dom: "dom (fs_load_waiting d') = dom (fs_load_waiting d) - {n}" by (simp add: d'_def)
  have n: "n \<in> dom (fs_load_waiting d)" using old W(3) by simp
  have cnt: "fs_MT_load_waiting d' = int (card (dom (fs_load_waiting d')))"
  proof -
    have "0 < card (dom (fs_load_waiting d))" using n W(1) by (auto simp add: card_gt_0_iff)
    then show ?thesis using n W by (simp add: dom) (simp add: d'_def W(2) of_nat_diff Suc_le_eq)
  qed
  have fin': "finite (dom (fs_load_waiting d'))" using W(1) by (simp add: dom)
  then have zero: "fs_MT_load_waiting d' = 0 \<longleftrightarrow> dom (fs_load_waiting d') = {}" by (simp add: cnt)
  have mem: "t \<in> waiting_threads fr" using old by (auto simp add: waiting_threads_def)
  then have pos: "0 < card (waiting_threads fr)" using wf by (auto simp add: wait_wf_def card_gt_0_iff)
  have card: "c = int (card (waiting_threads (put_thread t d' fr)))"
    using wf mem pos by (simp add: waiting_put c_def zero wait_wf_def insert_absorb of_nat_diff Suc_le_eq)
  have eq: "set_load_ready t n fr = Inr (put_thread t d' (fr\<lparr>fr_mem_access_thread_num := c\<rparr>))"
    using t n by (auto simp add: set_load_ready_def with_thread_def d'_def c_def Let_def dom_def)
  show ?thesis
  proof (rule that[OF eq])
    show "wait_wf (put_thread t d' (fr\<lparr>fr_mem_access_thread_num := c\<rparr>))" by (rule wait_wf_put[OF wf fin' cnt card])
    show "outstanding (put_thread t d' (fr\<lparr>fr_mem_access_thread_num := c\<rparr>)) = (outstanding fr)(t := outstanding fr t - {n})"
      using W(3) dom by (simp add: fun_eq_iff outstanding_put)
    have "check_load_ready t (put_thread t d' (fr\<lparr>fr_mem_access_thread_num := c\<rparr>)) = Inr (fs_MT_load_waiting d' = 0)"
      by (simp add: check_load_ready_def with_thread_def put_thread_def)
    then show "check_load_ready t (put_thread t d' (fr\<lparr>fr_mem_access_thread_num := c\<rparr>)) = Inr (outstanding fr t = {n})"
      using n by (auto simp add: zero dom W(3))
  qed
qed

text \<open>A completion that matches no wait of a thread without outstanding loads still lowers the count.\<close>

lemma unmatched_ready_lowers:
  assumes "fr_thread fr t = Some d" "fs_MT_load_waiting d = 0" "fs_load_waiting d n = None"
  shows "set_load_ready t n fr = Inr (put_thread t d (fr\<lparr>fr_mem_access_thread_num := fr_mem_access_thread_num fr - 1\<rparr>))"
  using assms by (simp add: set_load_ready_def with_thread_def)

lemma set_br_ready_wf:
  assumes "wait_wf fr" "fr_thread fr t = Some d"
  obtains fr' where "set_br_ready t fr = Inr fr'" "wait_wf fr'" "outstanding fr' = outstanding fr"
    "check_br_ready t fr' = Inr True"
proof -
  let ?d = "d\<lparr>fs_MT_br_waiting := False\<rparr>"
  have eq: "set_br_ready t fr = Inr (put_thread t ?d fr)" using assms(2) by (simp add: set_br_ready_def with_thread_def)
  have o: "outstanding (put_thread t ?d fr) = outstanding fr"
    using assms(2) by (simp add: fun_eq_iff outstanding_put) (simp add: outstanding_def)
  have w: "waiting_threads (put_thread t ?d fr) = waiting_threads fr" by (simp add: waiting_threads_def o)
  have "wait_wf (put_thread t ?d fr)"
    using assms w by (auto simp add: wait_wf_def put_thread_def)
  then show ?thesis using eq o that by (simp add: check_br_ready_def with_thread_def put_thread_def)
qed

end
