(* ===== verification/CoreCache.thy ===== *)
theory CoreCache
  imports Cache Port Uop MemReq Frontend
begin

text \<open>
  The small caches of a GPU core: the software-managed shared memory \<^verbatim>\<open>sw_managed_cache_c\<close>
  (\<^verbatim>\<open>src/src/sw_managed_cache.cc\<close>) and the constant and texture caches
  \<^verbatim>\<open>readonly_cache_c\<close> (\<^verbatim>\<open>src/src/readonly_cache.cc\<close>), clients of \<open>Cache\<close>, \<open>Port\<close> and
  \<open>Frontend\<close>. The data of a line is not used; it is a number here. The operations of
  \<^verbatim>\<open>memory_c\<close> that the core calls are a parameter.
\<close>

section \<open>The interface of the memory system\<close>

text \<open>The arguments of \<^verbatim>\<open>new_mem_req\<close>; the completion callback is named by a number, as in
  \<open>MemReq\<close>.\<close>

record req_args =
  ra_type :: Mem_Req_Type
  ra_addr :: Addr
  ra_size :: nat
  ra_cache_hit :: bool
  ra_with_data :: bool
  ra_delay :: int
  ra_uop :: ptr
  ra_done_func :: "nat option"
  ra_unique_num :: Counter
  ra_core_id :: int
  ra_thread_id :: int
  ra_acc :: bool

text \<open>\<open>mo_access\<close> is \<^verbatim>\<open>MEMORY->access\<close> on a uop of the store, \<open>mo_new_mem_req\<close> tells whether the
  request was accepted, \<open>mo_access_cache\<close> whether the first-level cache has the line,
  \<open>mo_free_req\<close> releases a request, \<open>mo_num_avail_entry\<close> is the number of free request entries of a core.\<close>

record 'm mem_ops =
  mo_access :: "addr \<Rightarrow> (addr \<Rightarrow> uop) \<Rightarrow> 'm \<Rightarrow> (int \<times> (addr \<Rightarrow> uop) \<times> 'm) res"
  mo_new_mem_req :: "req_args \<Rightarrow> (addr \<Rightarrow> uop) \<Rightarrow> 'm \<Rightarrow> (bool \<times> 'm) res"
  mo_access_cache :: "int \<Rightarrow> Addr \<Rightarrow> 'm \<Rightarrow> (bool \<times> 'm) res"
  mo_free_req :: "int \<Rightarrow> addr \<Rightarrow> 'm \<Rightarrow> 'm res"
  mo_num_avail_entry :: "int \<Rightarrow> 'm \<Rightarrow> int"

section \<open>Shared memory\<close>

record sw_cache =
  sw_core_id :: int
  sw_cache_cycles :: uns8
  sw_cache_line_size :: uns8
  sw_num_banks :: uns8
  sw_cache :: "nat cache"
  sw_ports :: "port list"

text \<open>\<open>new_cache num_set\<close> is the cache that the constructor of \<^verbatim>\<open>cache_c\<close> builds with that number of
  sets.\<close>

definition sw_managed_cache_c ::
  "(nat \<Rightarrow> nat cache) \<Rightarrow> string \<Rightarrow> int \<Rightarrow> uns32 \<Rightarrow> uns8 \<Rightarrow> uns8 \<Rightarrow> uns8 \<Rightarrow> uns8 \<Rightarrow> uns32 \<Rightarrow> uns32 \<Rightarrow> sw_cache res" where
  "sw_managed_cache_c new_cache name core_id n_size n_assoc n_line_size n_banks n_cycles n_read n_write =
     check (n_assoc \<noteq> 0 \<and> n_line_size \<noteq> 0) DivideByZero
     (Inr \<lparr>sw_core_id = core_id, sw_cache_cycles = n_cycles, sw_cache_line_size = n_line_size, sw_num_banks = n_banks,
           sw_cache = new_cache (unat n_size div unat n_assoc div unat n_line_size),
           sw_ports = replicate (unat n_banks) (port_c name n_read n_write True)\<rparr>)"

definition sw_load :: "Counter \<Rightarrow> uop \<Rightarrow> sw_cache \<Rightarrow> (int \<times> sw_cache) res" where
  "sw_load cycle u c =
     (let bank_num = get_bank_num (sw_cache c) (u_vaddr u) in
      res_bind (arr_get (sw_ports c) bank_num) (\<lambda>p.
      res_bind (get_read_port cycle p) (\<lambda>(granted, p').
      Inr (if granted then int (unat (sw_cache_cycles c)) else 0, c\<lparr>sw_ports := (sw_ports c)[bank_num := p']\<rparr>))))"

definition sw_base_cache_line :: "sw_cache \<Rightarrow> Addr \<Rightarrow> Addr" where
  "sw_base_cache_line c a = base_cache_line (sw_cache c) a"

section \<open>Constant and texture caches\<close>

record ro_cache =
  ro_core_id :: int
  ro_cache_line_size :: uns8
  ro_cache_cycles :: uns8
  ro_cache :: "nat cache"

definition readonly_cache_c ::
  "(nat \<Rightarrow> nat cache) \<Rightarrow> int \<Rightarrow> uns32 \<Rightarrow> uns8 \<Rightarrow> uns8 \<Rightarrow> uns8 \<Rightarrow> ro_cache res" where
  "readonly_cache_c new_cache core_id n_size n_assoc n_line_size n_cycles =
     check (n_assoc \<noteq> 0 \<and> n_line_size \<noteq> 0) DivideByZero
     (Inr \<lparr>ro_core_id = core_id, ro_cache_line_size = n_line_size, ro_cache_cycles = n_cycles,
           ro_cache = new_cache (unat n_size div unat n_assoc div unat n_line_size)\<rparr>)"

text \<open>The number of \<^verbatim>\<open>readonly_cache_fill_line_wrapper\<close> among the callbacks.\<close>

definition READONLY_FILL :: nat where
  "READONLY_FILL = 1"

text \<open>A bypassing cache leaves \<^verbatim>\<open>line_addr\<close> unset; neither cache is built to bypass. \<open>extra\<close> is
  \<^verbatim>\<open>KNOB_EXTRA_LD_LATENCY\<close>.\<close>

definition ro_load ::
  "'m mem_ops \<Rightarrow> int \<Rightarrow> Counter \<Rightarrow> addr \<Rightarrow> (addr \<Rightarrow> uop) \<Rightarrow> ro_cache \<Rightarrow> 'm \<Rightarrow> (int \<times> ro_cache \<times> 'm) res" where
  "ro_load ops extra cycle a us c m =
     (let u = us a in
     res_bind (access_cache cycle (u_vaddr u) True (ro_cache c)) (\<lambda>(line_addr, line, c').
     let c1 = c\<lparr>ro_cache := c'\<rparr> in
     case line of
       Some _ \<Rightarrow> Inr (int (unat (ro_cache_cycles c)), c1, m)
     | None \<Rightarrow> (case line_addr of
         None \<Rightarrow> Inl DanglingPointer
       | Some la \<Rightarrow>
           res_bind (mo_new_mem_req ops
               \<lparr>ra_type = MRT_DFETCH, ra_addr = la, ra_size = u_mem_size u, ra_cache_hit = False, ra_with_data = False,
                ra_delay = int (unat (ro_cache_cycles c)) - 1 + extra, ra_uop = Some a, ra_done_func = Some READONLY_FILL,
                ra_unique_num = u_unique_num u, ra_core_id = ro_core_id c, ra_thread_id = u_thread_id u, ra_acc = True\<rparr> us m)
             (\<lambda>(ok, m'). Inr (if ok then - 1 else 0, c1, m')))))"

section \<open>The state of a core that memory operations change\<close>

text \<open>The uops, the requests and the memory system are shared by all cores; the caches and the frontend are
  those of the core. A cache that the core does not have is \<open>None\<close>.\<close>

record 'm core_mem =
  cm_uops :: "addr \<Rightarrow> uop"
  cm_reqs :: "addr \<Rightarrow> mem_req"
  cm_frontend :: frontend
  cm_shared_memory :: "sw_cache option"
  cm_const_cache :: "ro_cache option"
  cm_texture_cache :: "ro_cache option"
  cm_memory :: 'm

definition upd_uop :: "addr \<Rightarrow> (uop \<Rightarrow> uop) \<Rightarrow> 'm core_mem \<Rightarrow> 'm core_mem" where
  "upd_uop a f s = s\<lparr>cm_uops := (cm_uops s)(a := f (cm_uops s a))\<rparr>"

definition notify_load_ready :: "bool \<Rightarrow> uop \<Rightarrow> 'm core_mem \<Rightarrow> 'm core_mem res" where
  "notify_load_ready flr u s =
     (if flr then res_bind (set_load_ready (u_thread_id u) (u_uop_num u) (cm_frontend s)) (\<lambda>fr. Inr (s\<lparr>cm_frontend := fr\<rparr>))
      else Inr s)"

definition finish_uop :: "Counter \<Rightarrow> uop \<Rightarrow> uop" where
  "finish_uop cycle u = u\<lparr>u_done_cycle := cycle + 1, u_state := OS_SCHEDULED\<rparr>"

text \<open>The completion of the uop of a request: its parent counts it, and completes with the last child.
  \<open>flr\<close> is \<^verbatim>\<open>KNOB_FETCH_ONLY_LOAD_READY\<close>, \<open>cycle\<close> the cycle of the core.\<close>

definition complete_uop :: "bool \<Rightarrow> Counter \<Rightarrow> addr \<Rightarrow> 'm core_mem \<Rightarrow> 'm core_mem res" where
  "complete_uop flr cycle a s =
     (let s1 = upd_uop a (finish_uop cycle) s in
      case u_parent_uop (cm_uops s1 a) of
        Some p \<Rightarrow>
          let s2 = upd_uop p (\<lambda>pu. pu\<lparr>u_num_child_uops_done := u_num_child_uops_done pu + 1\<rparr>) s1;
              pu = cm_uops s2 p
          in if u_num_child_uops_done pu = u_num_child_uops pu
             then res_bind (notify_load_ready flr pu s2) (\<lambda>s3. Inr (upd_uop p (finish_uop cycle) s3))
             else Inr s2
      | None \<Rightarrow> notify_load_ready flr (cm_uops s1 a) s1)"

text \<open>\<^verbatim>\<open>readonly_cache_c::cache_fill_line\<close> on the cache \<open>c\<close>.\<close>

definition ro_fill_line ::
  "cache_knobs \<Rightarrow> bool \<Rightarrow> Counter \<Rightarrow> mem_req \<Rightarrow> ro_cache \<Rightarrow> 'm core_mem \<Rightarrow> (ro_cache \<times> 'm core_mem) res" where
  "ro_fill_line k flr cycle r c s =
     res_bind (insert_cache k cycle (mr_addr r) (mr_appl_id r) (mr_acc r) False (ro_cache c)) (\<lambda>(_, _, _, c').
     let c1 = c\<lparr>ro_cache := c'\<rparr> in
     case mr_uop r of
       None \<Rightarrow> Inr (c1, s)
     | Some a \<Rightarrow> res_bind (complete_uop flr cycle a s) (\<lambda>s'. Inr (c1, s')))"

text \<open>The loop over the merged requests: \<open>done f x s\<close> is the callback \<open>f\<close> on the request
  \<open>x\<close>. A request whose callback does not succeed stays merged.\<close>

fun merge_loop ::
  "(nat \<Rightarrow> addr \<Rightarrow> 'm core_mem \<Rightarrow> (bool \<times> 'm core_mem) res) \<Rightarrow> addr list \<Rightarrow> 'm core_mem \<Rightarrow>
   (bool \<times> addr list \<times> 'm core_mem) res" where
  "merge_loop done [] s = Inr (True, [], s)"
| "merge_loop done (x # xs) s =
     res_bind (case mr_done_func (cm_reqs s x) of None \<Rightarrow> Inr (True, s) | Some f \<Rightarrow> done f x s) (\<lambda>(ok, s1).
     res_bind (merge_loop done xs s1) (\<lambda>(all, dl, s2).
     Inr (ok \<and> all, if ok then x # dl else dl, s2)))"

definition release_merged :: "'m mem_ops \<Rightarrow> addr \<Rightarrow> addr \<Rightarrow> 'm core_mem \<Rightarrow> 'm core_mem res" where
  "release_merged ops r x s =
     res_bind (mo_free_req ops (mr_core_id (cm_reqs s x)) x (cm_memory s)) (\<lambda>m.
     Inr (s\<lparr>cm_reqs := (cm_reqs s)(r := (cm_reqs s r)\<lparr>mr_merge := removeAll x (mr_merge (cm_reqs s r))\<rparr>),
            cm_memory := m\<rparr>))"

definition readonly_cache_fill_line_wrapper ::
  "'m mem_ops \<Rightarrow> (nat \<Rightarrow> addr \<Rightarrow> 'm core_mem \<Rightarrow> (bool \<times> 'm core_mem) res) \<Rightarrow> cache_knobs \<Rightarrow> bool \<Rightarrow> Counter \<Rightarrow> addr \<Rightarrow>
   'm core_mem \<Rightarrow> (bool \<times> 'm core_mem) res" where
  "readonly_cache_fill_line_wrapper ops done k flr cycle r s =
     res_bind (merge_loop done (mr_merge (cm_reqs s r)) s) (\<lambda>(result, done_list, s1).
     res_bind (fold_res (release_merged ops r) done_list s1) (\<lambda>s2.
     if \<not> result then Inr (False, s2)
     else case mr_uop (cm_reqs s2 r) of
       None \<Rightarrow> Inl AssertFailed
     | Some a \<Rightarrow>
         if u_mem_type (cm_uops s2 a) = MEM_LD_CM
         then case cm_const_cache s2 of
                None \<Rightarrow> Inl NullPointer
              | Some c \<Rightarrow> res_bind (ro_fill_line k flr cycle (cm_reqs s2 r) c s2) (\<lambda>(c', s3).
                  Inr (True, s3\<lparr>cm_const_cache := Some c'\<rparr>))
         else if u_mem_type (cm_uops s2 a) = MEM_LD_TM
         then case cm_texture_cache s2 of
                None \<Rightarrow> Inl NullPointer
              | Some c \<Rightarrow> res_bind (ro_fill_line k flr cycle (cm_reqs s2 r) c s2) (\<lambda>(c', s3).
                  Inr (True, s3\<lparr>cm_texture_cache := Some c'\<rparr>))
         else Inl AssertFailed))"

section \<open>Insertion into a free way\<close>

text \<open>The first free way of the set: what the replacement policy of least recent use picks.\<close>

definition first_free :: "'d cache_entry list \<Rightarrow> nat \<Rightarrow> bool" where
  "first_free ls i \<longleftrightarrow> i < length ls \<and> \<not> ce_valid (ls ! i) \<and> (\<forall>v < i. ce_valid (ls ! v))"

lemma insert_first_free:
  assumes k: "\<not> KNOB_CACHE_USE_PSEUDO_LRU k" "\<not> (KNOB_HETERO_STATIC_CACHE_PARTITION k \<and> c_enable_partition c)"
    and ts: "find_tag_and_set c a = (tag, st)" "st < length (c_set c)" and i: "first_free (cs_entry (c_set c ! st)) i"
  obtains l c' where "insert_cache k cycle a appl g skip c = Inr (base_cache_line c a, 0, (st, i), c')"
    "cs_entry (c_set c' ! st) = (cs_entry (c_set c ! st))[i := l]" "ce_valid l" "ce_tag l = tag"
    "find_tag_and_set c' = find_tag_and_set c" "length (c_set c') = length (c_set c)" "c_enable_partition c' = c_enable_partition c"
proof -
  let ?ls = "cs_entry (c_set c ! st)"
  have f: "find_replacement_line k ?ls = Some (i, ?ls)"
    using k(1) i lru_loop_invalid[of i ?ls 0 0 MAX_INT] by (simp add: find_replacement_line_def first_free_def)
  have i': "i < length ?ls" "\<not> ce_valid (?ls ! i)" using i by (simp_all add: first_free_def)
  have ch: "choose_line k st g c = Inr (i, c)"
  proof -
    have "(c_set c ! st)\<lparr>cs_entry := ?ls\<rparr> = c_set c ! st" by (cases "c_set c ! st") simp
    then show ?thesis
      unfolding choose_line_def if_not_P[OF k(2)] using ts(2) f i'(1) by (cases c) simp
  qed
  let ?c3 = "initialize_cache_line cycle st i tag a appl g skip c"
  let ?c' = "?c3\<lparr>c_insert_count := c_insert_count ?c3 + 1\<rparr>"
  have eq: "insert_cache k cycle a appl g skip c = Inr (base_cache_line c a, 0, (st, i), ?c')"
    using ts(1) ch i'(2) by (simp add: insert_cache_def Let_def)
  define l where "l = cs_entry (c_set ?c' ! st) ! i"
  have "cs_entry (c_set ?c' ! st) = ?ls[i := l]" "ce_valid l" "ce_tag l = tag"
    using ts(2) i'(1) by (simp_all add: l_def initialize_cache_line_def Let_def upd_line_def)
  moreover have "find_tag_and_set ?c' = find_tag_and_set c" "length (c_set ?c') = length (c_set c)"
    "c_enable_partition ?c' = c_enable_partition c"
    by (simp_all add: fun_eq_iff find_tag_and_set_def mod_addr_def initialize_cache_line_def Let_def upd_line_def)
  ultimately show ?thesis by (rule that[OF eq])
qed

section \<open>Properties\<close>

text \<open>C35. When a request of the constant cache completes with a request for the same line merged into it, both
  completions insert the line, and the second insertion does not look for it: two ways of the set hold
  the same tag afterwards, whenever the set had two free ways.\<close>

theorem merged_fill_duplicates_line:
  fixes s :: "'m core_mem"
  assumes c: "cm_const_cache s = Some c" and k: "\<not> KNOB_CACHE_USE_PSEUDO_LRU k"
      "\<not> (KNOB_HETERO_STATIC_CACHE_PARTITION k \<and> c_enable_partition (ro_cache c))"
    and ts: "find_tag_and_set (ro_cache c) (mr_addr (cm_reqs s r)) = (tag, st)" "st < length (c_set (ro_cache c))"
    and i: "first_free (cs_entry (c_set (ro_cache c) ! st)) i"
    and j: "i < j" "j < length (cs_entry (c_set (ro_cache c) ! st))" "\<not> ce_valid (cs_entry (c_set (ro_cache c) ! st) ! j)"
      "\<forall>v < j. v \<noteq> i \<longrightarrow> ce_valid (cs_entry (c_set (ro_cache c) ! st) ! v)"
    and m: "mr_merge (cm_reqs s r) = [x]" "x \<noteq> r" "mr_merge (cm_reqs s x) = []" "mr_done_func (cm_reqs s x) = Some READONLY_FILL"
      "mr_addr (cm_reqs s x) = mr_addr (cm_reqs s r)"
    and u: "mr_uop (cm_reqs s r) = Some a" "mr_uop (cm_reqs s x) = Some b" "u_mem_type (cm_uops s a) = MEM_LD_CM"
      "u_mem_type (cm_uops s b) = MEM_LD_CM" "u_parent_uop (cm_uops s a) = None" "u_parent_uop (cm_uops s b) = None"
    and free: "mo_free_req ops (mr_core_id (cm_reqs s x)) x (cm_memory s) = Inr mem"
    and cb: "callback = (\<lambda>f y t. if f = READONLY_FILL then readonly_cache_fill_line_wrapper ops other k False cycle y t else other f y t)"
  shows "\<exists>s' c'. readonly_cache_fill_line_wrapper ops callback k False cycle r s = Inr (True, s') \<and> cm_const_cache s' = Some c' \<and>
    (let ls = cs_entry (c_set (ro_cache c') ! st) in
     i \<noteq> j \<and> ce_valid (ls ! i) \<and> ce_valid (ls ! j) \<and> ce_tag (ls ! i) = tag \<and> ce_tag (ls ! j) = tag)"
proof -
  let ?X = "cm_reqs s x" and ?R = "cm_reqs s r" and ?ls = "cs_entry (c_set (ro_cache c) ! st)"
  obtain l1 c1 where I1: "insert_cache k cycle (mr_addr ?X) (mr_appl_id ?X) (mr_acc ?X) False (ro_cache c) =
      Inr (base_cache_line (ro_cache c) (mr_addr ?X), 0, (st, i), c1)" "cs_entry (c_set c1 ! st) = ?ls[i := l1]" "ce_valid l1" "ce_tag l1 = tag"
    "find_tag_and_set c1 = find_tag_and_set (ro_cache c)" "length (c_set c1) = length (c_set (ro_cache c))"
    "c_enable_partition c1 = c_enable_partition (ro_cache c)"
    using insert_first_free[OF k, of "mr_addr ?X" tag st i] ts i m(5) by metis
  have ff: "first_free (cs_entry (c_set c1 ! st)) j"
    using j i I1(2,3) by (auto simp add: first_free_def nth_list_update)
  obtain l2 c2 where I2: "insert_cache k cycle (mr_addr ?R) (mr_appl_id ?R) (mr_acc ?R) False c1 =
      Inr (base_cache_line c1 (mr_addr ?R), 0, (st, j), c2)" "cs_entry (c_set c2 ! st) = ?ls[i := l1, j := l2]" "ce_valid l2" "ce_tag l2 = tag"
    using insert_first_free[OF k(1), of c1 "mr_addr ?R" tag st j cycle "mr_appl_id ?R" "mr_acc ?R" False] k(2) ts ff I1(2,5-7) by metis
  define s1 where "s1 = upd_uop b (finish_uop cycle) s\<lparr>cm_const_cache := Some (c\<lparr>ro_cache := c1\<rparr>)\<rparr>"
  have done1: "callback READONLY_FILL x s = Inr (True, s1)"
    using c m(3) u(2,4,6) I1(1)
    by (simp add: cb readonly_cache_fill_line_wrapper_def ro_fill_line_def complete_uop_def notify_load_ready_def
        upd_uop_def finish_uop_def s1_def Let_def)
  have R1: "cm_reqs s1 = cm_reqs s" "cm_memory s1 = cm_memory s" "cm_const_cache s1 = Some (c\<lparr>ro_cache := c1\<rparr>)"
    "u_mem_type (cm_uops s1 a) = MEM_LD_CM" "u_parent_uop (cm_uops s1 a) = None"
    using u(3-6) by (simp_all add: s1_def upd_uop_def finish_uop_def)
  define s2 where "s2 = s1\<lparr>cm_reqs := (cm_reqs s)(r := ?R\<lparr>mr_merge := []\<rparr>), cm_memory := mem\<rparr>"
  have loop: "merge_loop callback [x] s = Inr (True, [x], s1)" using m(4) done1 by simp
  have rel: "release_merged ops r x s1 = Inr s2" using free m(1) by (simp add: release_merged_def R1 s2_def)
  have "readonly_cache_fill_line_wrapper ops callback k False cycle r s =
      Inr (True, upd_uop a (finish_uop cycle) s2\<lparr>cm_const_cache := Some (c\<lparr>ro_cache := c2\<rparr>)\<rparr>)"
    using loop rel m(1) u(1) R1 I2(1)
    by (simp add: readonly_cache_fill_line_wrapper_def s2_def ro_fill_line_def complete_uop_def notify_load_ready_def
        upd_uop_def finish_uop_def Let_def)
  moreover have "?ls[i := l1, j := l2] ! i = l1" "?ls[i := l1, j := l2] ! j = l2" using i j by (simp_all add: first_free_def)
  ultimately show ?thesis using I1(3,4) I2(2-4) j(1) by (auto simp add: Let_def)
qed

text \<open>A core whose constant cache is empty, with the request 1 merged into the request 0.\<close>

definition demo_const_uop :: uop where
  "demo_const_uop = zero_uop\<lparr>u_mem_type := MEM_LD_CM, u_parent_uop := None\<rparr>"

definition demo_const_req :: "addr \<Rightarrow> addr list \<Rightarrow> mem_req" where
  "demo_const_req a merged = clear_req\<lparr>mr_addr := 0x1234, mr_uop := Some a, mr_done_func := Some READONLY_FILL, mr_merge := merged\<rparr>"

definition demo_const_core :: "unit core_mem" where
  "demo_const_core = \<lparr>cm_uops = (\<lambda>_. demo_const_uop), cm_reqs = (\<lambda>r. if r = 0 then demo_const_req 5 [1] else demo_const_req 6 []),
     cm_frontend = \<lparr>fr_thread = (\<lambda>_. None), fr_mem_access_thread_num = 0\<rparr>, cm_shared_memory = None,
     cm_const_cache = Some \<lparr>ro_core_id = 0, ro_cache_line_size = 64, ro_cache_cycles = 1, ro_cache = demo_cache\<rparr>,
     cm_texture_cache = None, cm_memory = ()\<rparr>"

definition demo_free_ops :: "unit mem_ops" where
  "demo_free_ops = \<lparr>mo_access = (\<lambda>a us m. Inr (0, us, m)), mo_new_mem_req = (\<lambda>r us m. Inr (True, m)),
     mo_access_cache = (\<lambda>c a m. Inr (False, m)), mo_free_req = (\<lambda>c a m. Inr m), mo_num_avail_entry = (\<lambda>c m. 1)\<rparr>"

theorem merged_fill_duplicates_line_witness:
  "\<exists>s' c'. readonly_cache_fill_line_wrapper demo_free_ops
      (\<lambda>f y t. if f = READONLY_FILL then readonly_cache_fill_line_wrapper demo_free_ops (\<lambda>_ _ t. Inr (True, t)) (demo_knobs False) False 9 y t
         else Inr (True, t)) (demo_knobs False) False 9 0 demo_const_core = Inr (True, s') \<and> cm_const_cache s' = Some c' \<and>
    ce_tag (cs_entry (c_set (ro_cache c') ! 0) ! 0) = 0x48 \<and> ce_tag (cs_entry (c_set (ro_cache c') ! 0) ! 1) = 0x48"
proof -
  have ts: "find_tag_and_set demo_cache 0x1234 = (0x48, 0)"
    using log2_int_power[of 6] log2_int_power[of 2]
    by (simp add: find_tag_and_set_def demo_cache_def cache_c_def Let_def N_BIT_MASK_mask) code_simp
  have e: "0 < length (c_set demo_cache)" "cs_entry (c_set demo_cache ! 0) = [demo_line, demo_line]"
    by (simp_all add: demo_cache_def cache_c_def Let_def numeral_2_eq_2 cache_set_c_def demo_line_def cache_entry_c_def)
  have f: "first_free [demo_line, demo_line] 0" by (simp add: first_free_def demo_line_def)
  note T = merged_fill_duplicates_line[of demo_const_core _ "demo_knobs False" 0 "0x48" 0 0 1 1 5 6 demo_free_ops "()" _ "\<lambda>_ _ t. Inr (True, t)" 9]
  note S = demo_const_core_def demo_const_req_def demo_const_uop_def demo_free_ops_def demo_knobs_def
  show ?thesis using T[OF _ _ _ _ _ _ _ _ _ _ _ _ _ _ _ _ _ _ _ _ _ _ refl] ts e f
    by (simp add: S demo_line_def Let_def) blast
qed

end
