(* ===== verification/ListSort.thy ===== *)
theory ListSort
  imports Prelude
begin

text \<open>\<^verbatim>\<open>std::list::sort\<close>, which is stable, by insertion: the memory controllers and the queues of the memory
  hierarchy sort with it.\<close>

fun insert_by :: "('a \<Rightarrow> 'a \<Rightarrow> bool) \<Rightarrow> 'a \<Rightarrow> 'a list \<Rightarrow> 'a list" where
  "insert_by lt x [] = [x]"
| "insert_by lt x (y # ys) = (if lt y x then y # insert_by lt x ys else x # y # ys)"

definition list_sort :: "('a \<Rightarrow> 'a \<Rightarrow> bool) \<Rightarrow> 'a list \<Rightarrow> 'a list" where
  "list_sort lt xs = foldr (insert_by lt) xs []"

lemma mset_insert_by [simp]: "mset (insert_by lt x ys) = add_mset x (mset ys)"
  by (induction ys) auto

lemma mset_list_sort [simp]: "mset (list_sort lt xs) = mset xs"
  by (induction xs) (simp_all add: list_sort_def)

lemma set_list_sort [simp]: "set (list_sort lt xs) = set xs"
  using mset_eq_setD[OF mset_list_sort[of lt xs]] .

lemma list_sort_empty [simp]: "list_sort lt xs = [] \<longleftrightarrow> xs = []"
  using set_list_sort[of lt xs] by (metis set_empty)

lemma length_list_sort [simp]: "length (list_sort lt xs) = length xs"
  using mset_eq_length[OF mset_list_sort[of lt xs]] .

lemma distinct_list_sort [simp]: "distinct (list_sort lt xs) = distinct xs"
  using mset_eq_imp_distinct_iff[OF mset_list_sort[of lt xs]] .

lemma insert_by_key:
  "\<forall>y\<in>set ys. lt y x \<longleftrightarrow> key y < key x \<Longrightarrow> insert_by lt x ys = insort_key key x ys"
  by (induction ys) (auto simp add: not_less)

lemma list_sort_key:
  "\<forall>x\<in>set xs. \<forall>y\<in>set xs. lt x y \<longleftrightarrow> key x < key y \<Longrightarrow> list_sort lt xs = sort_key key xs"
proof (induction xs)
  case (Cons x xs)
  then have "list_sort lt xs = sort_key key xs" by simp
  moreover have "insert_by lt x (sort_key key xs) = insort_key key x (sort_key key xs)"
    using Cons.prems by (intro insert_by_key) simp
  ultimately show ?case by (simp add: list_sort_def)
qed (simp add: list_sort_def)

end
