(* ===== verification/Memory.thy ===== *)
theory Memory
  imports CoreCache Mmu Resource ListSort
begin

text \<open>
  The memory hierarchy of \<^verbatim>\<open>src/src/memory.h\<close> and \<^verbatim>\<open>src/src/memory.cc\<close>: the queues
  \<^verbatim>\<open>queue_c\<close>, the cache units \<^verbatim>\<open>dcu_c\<close> of the levels L1, L2, L3 and LLC, and \<^verbatim>\<open>memory_c\<close>
  with the miss-status registers (MSHRs) and its seven topologies. The state composes the caches, the ports, the
  MMU (which holds the uops) and the frontends; the network, the hardware prefetchers and the completion
  callbacks of other components are parameters. The statistics, the power events and the bug detector are left out.
\<close>

section \<open>Data\<close>

text \<open>\<^verbatim>\<open>dcache_data_s\<close>; a line without data is all zero.\<close>

datatype dcache_data =
  Dcache_data (dd_dirty: bool) (dd_fetch_cycle: Counter) (dd_core_id: int) (dd_pc: Addr) (dd_tid: int)

instantiation dcache_data :: zero
begin

definition zero_dcache_data :: dcache_data where
  "zero_dcache_data = Dcache_data False 0 0 0 0"

instance ..

end

definition set_dirty :: "bool \<Rightarrow> dcache_data \<Rightarrow> dcache_data" where
  "set_dirty b d = Dcache_data b (dd_fetch_cycle d) (dd_core_id d) (dd_pc d) (dd_tid d)"

definition level_num :: "MEMORY_TYPE \<Rightarrow> nat" where
  "level_num l = (case l of MEM_L1 \<Rightarrow> 1 | MEM_L2 \<Rightarrow> 2 | MEM_L3 \<Rightarrow> 3 | MEM_LLC \<Rightarrow> 4 | MEM_MC \<Rightarrow> 5)"

definition g_mem_priority :: "Mem_Req_Type \<Rightarrow> Counter" where
  "g_mem_priority t =
     (case t of MRT_IFETCH \<Rightarrow> 10 | MRT_DFETCH \<Rightarrow> 10 | MRT_DSTORE \<Rightarrow> 10 | MRT_WB \<Rightarrow> 5 | _ \<Rightarrow> 0)"

definition IsStore :: "Mem_Type \<Rightarrow> bool" where
  "IsStore t \<longleftrightarrow> t \<in> {MEM_ST, MEM_ST_LM, MEM_ST_SM, MEM_ST_GM}"

definition BANK :: "Addr \<Rightarrow> nat \<Rightarrow> nat \<Rightarrow> nat" where
  "BANK a num factor =
     unat (drop_bit (unat (log2_int (of_nat factor))) a AND N_BIT_MASK (unat (log2_int (of_nat num))))"

record queue =
  q_entry :: "addr list"
  q_size :: nat

datatype queue_kind = In_Queue | Wb_Queue | Fill_Queue | Out_Queue

text \<open>A cache that was not built (a disabled unit) is \<open>None\<close>.\<close>

record dcu =
  du_id :: int
  du_noc_id :: int
  du_level :: MEMORY_TYPE
  du_disable :: bool
  du_bypass :: bool
  du_cache :: "dcache_data cache option"
  du_port :: "port list"
  du_next_id :: int
  du_prev_id :: int
  du_coupled_up :: bool
  du_coupled_down :: bool
  du_has_router :: bool
  du_done :: bool
  du_type :: Unit_Type
  du_num_set :: nat
  du_assoc :: nat
  du_line_size :: nat
  du_banks :: nat
  du_latency :: int
  du_acc_sim :: bool
  du_igpu_sim :: bool
  du_ptx_sim :: bool
  du_in_queue :: queue
  du_wb_queue :: queue
  du_fill_queue :: queue
  du_out_queue :: queue
  du_num_read_port :: uns32
  du_num_write_port :: uns32
  du_retry_queue :: "addr list"
  du_cycle :: Counter

datatype memory_policy =
    llc_coupled_network | llc_decoupled_network | l2_coupled_local | no_cache | l2_decoupled_network
  | l2_decoupled_local | igpu_network

text \<open>The requests live at the addresses of \<open>ms_reqs\<close>; the next address that \<^verbatim>\<open>new\<close> returns is that of
  the pool \<^verbatim>\<open>m_mem_req_pool\<close>. The uops are those of the MMU.\<close>

record ('n, 'p) memsys =
  ms_policy :: memory_policy
  ms_l1_cache :: "dcu list"
  ms_l2_cache :: "dcu list"
  ms_l3_cache :: "dcu list"
  ms_llc_cache :: "dcu list"
  ms_mshr :: "addr list list"
  ms_mshr_free_list :: "addr list list"
  ms_num_core :: nat
  ms_num_l3 :: nat
  ms_num_llc :: nat
  ms_num_mc :: nat
  ms_unique_id :: int
  ms_stop_prefetch :: Counter
  ms_cycle :: Counter
  ms_l3_interleave_factor :: nat
  ms_llc_interleave_factor :: nat
  ms_dram_interleave_factor :: nat
  ms_page_size :: nat
  ms_mem_req_pool :: pool
  ms_reqs :: "addr \<Rightarrow> mem_req"
  ms_MMU :: mmu
  ms_frontend :: "int \<Rightarrow> frontend"
  ms_network :: 'n
  ms_pref :: 'p

abbreviation ms_uops :: "('n, 'p) memsys \<Rightarrow> addr \<Rightarrow> uop" where
  "ms_uops m \<equiv> mm_uops (ms_MMU m)"

record mem_knobs =
  mk_cache :: cache_knobs
  mk_mmu :: mmu_knobs
  mk_PERFECT_DCACHE :: bool
  mk_FETCH_ONLY_LOAD_READY :: bool
  KNOB_ENABLE_PHYSICAL_MAPPING :: bool
  KNOB_DCACHE_INFINITE_PORT :: bool
  KNOB_COMPUTE_CAPABILITY_2 :: bool
  KNOB_BYTE_LEVEL_ACCESS :: bool
  KNOB_HETERO_GPU_CORE_DISABLE :: int
  KNOB_HETERO_MEM_PRIORITY_CPU :: bool
  KNOB_HETERO_MEM_PRIORITY_GPU :: bool
  KNOB_USE_INCOMING_TID_CID_FOR_WB :: bool
  KNOB_ENABLE_IRIS :: bool
  KNOB_ENABLE_NEW_NOC :: bool
  KNOB_NOC_TOPOLOGY :: string
  KNOB_DRAM_INTERLEAVE_FACTOR :: nat

text \<open>What the hierarchy uses of other components: \<open>me_send\<close>, \<open>me_receive\<close> and \<open>me_receive_pop\<close> of the
  network, \<open>me_train\<close> of the hardware prefetcher of a core (level, thread, address, pc, uop, hit),
  \<open>me_done\<close> the completion callbacks other than those of the data caches. \<open>me_appl\<close> is
  \<^verbatim>\<open>get_appl_id\<close> of a core, \<open>me_core_cycle\<close> the cycle of a core, \<open>me_cycle\<close> the global \<^verbatim>\<open>CYCLE\<close>.\<close>

record ('n, 'p) mem_env =
  me_knobs :: mem_knobs
  me_appl :: "int \<Rightarrow> int \<Rightarrow> int"
  me_core_cycle :: "int \<Rightarrow> Counter"
  me_cycle :: Counter
  me_send :: "addr \<Rightarrow> (addr \<Rightarrow> mem_req) \<Rightarrow> MEMORY_TYPE \<Rightarrow> int \<Rightarrow> nat \<Rightarrow> int \<Rightarrow> 'n \<Rightarrow> (bool \<times> (addr \<Rightarrow> mem_req) \<times> 'n) res"
  me_receive :: "MEMORY_TYPE \<Rightarrow> int \<Rightarrow> 'n \<Rightarrow> ptr res"
  me_receive_pop :: "MEMORY_TYPE \<Rightarrow> int \<Rightarrow> 'n \<Rightarrow> 'n res"
  me_train :: "int \<Rightarrow> MEMORY_TYPE \<Rightarrow> int \<Rightarrow> Addr \<Rightarrow> Addr \<Rightarrow> ptr \<Rightarrow> bool \<Rightarrow> 'p \<Rightarrow> 'p"
  me_done :: "nat \<Rightarrow> addr \<Rightarrow> ('n, 'p) memsys \<Rightarrow> (bool \<times> ('n, 'p) memsys) res"

section \<open>Access to the state\<close>

definition caches :: "MEMORY_TYPE \<Rightarrow> ('n, 'p) memsys \<Rightarrow> dcu list" where
  "caches lv m = (case lv of MEM_L1 \<Rightarrow> ms_l1_cache m | MEM_L2 \<Rightarrow> ms_l2_cache m | MEM_L3 \<Rightarrow> ms_l3_cache m
     | MEM_LLC \<Rightarrow> ms_llc_cache m | MEM_MC \<Rightarrow> [])"

definition dcu_at :: "MEMORY_TYPE \<Rightarrow> nat \<Rightarrow> ('n, 'p) memsys \<Rightarrow> dcu" where
  "dcu_at lv i m = caches lv m ! i"

definition upd_dcu :: "MEMORY_TYPE \<Rightarrow> nat \<Rightarrow> (dcu \<Rightarrow> dcu) \<Rightarrow> ('n, 'p) memsys \<Rightarrow> ('n, 'p) memsys" where
  "upd_dcu lv i f m =
     (let cs = (caches lv m)[i := f (caches lv m ! i)] in
      case lv of MEM_L1 \<Rightarrow> m\<lparr>ms_l1_cache := cs\<rparr> | MEM_L2 \<Rightarrow> m\<lparr>ms_l2_cache := cs\<rparr> | MEM_L3 \<Rightarrow> m\<lparr>ms_l3_cache := cs\<rparr>
      | MEM_LLC \<Rightarrow> m\<lparr>ms_llc_cache := cs\<rparr> | MEM_MC \<Rightarrow> m)"

definition upd_req :: "addr \<Rightarrow> (mem_req \<Rightarrow> mem_req) \<Rightarrow> ('n, 'p) memsys \<Rightarrow> ('n, 'p) memsys" where
  "upd_req r f m = m\<lparr>ms_reqs := (ms_reqs m)(r := f (ms_reqs m r))\<rparr>"

definition put_uop :: "addr \<Rightarrow> (uop \<Rightarrow> uop) \<Rightarrow> ('n, 'p) memsys \<Rightarrow> ('n, 'p) memsys" where
  "put_uop a f m = m\<lparr>ms_MMU := Mmu.upd_uop a f (ms_MMU m)\<rparr>"

text \<open>The arrays \<^verbatim>\<open>m_next\<close> and \<^verbatim>\<open>m_prev\<close> that the constructor gives a unit of a level.\<close>

definition next_array :: "MEMORY_TYPE \<Rightarrow> MEMORY_TYPE option" where
  "next_array lv = (case lv of MEM_L1 \<Rightarrow> Some MEM_L2 | MEM_L2 \<Rightarrow> Some MEM_LLC | MEM_L3 \<Rightarrow> Some MEM_LLC | _ \<Rightarrow> None)"

definition prev_array :: "MEMORY_TYPE \<Rightarrow> MEMORY_TYPE option" where
  "prev_array lv = (case lv of MEM_L2 \<Rightarrow> Some MEM_L1 | MEM_L3 \<Rightarrow> Some MEM_L2 | MEM_LLC \<Rightarrow> Some MEM_L3 | _ \<Rightarrow> None)"

text \<open>The unit with an index in one of these arrays.\<close>

definition find_dcu :: "MEMORY_TYPE option \<Rightarrow> int \<Rightarrow> ('n, 'p) memsys \<Rightarrow> (MEMORY_TYPE \<times> nat) res" where
  "find_dcu arr idx m = (case arr of None \<Rightarrow> Inl NullPointer
     | Some lv \<Rightarrow> check (0 \<le> idx \<and> nat idx < length (caches lv m)) OutOfBounds (Inr (lv, nat idx)))"

definition get_queue :: "queue_kind \<Rightarrow> dcu \<Rightarrow> queue" where
  "get_queue q d = (case q of In_Queue \<Rightarrow> du_in_queue d | Wb_Queue \<Rightarrow> du_wb_queue d | Fill_Queue \<Rightarrow> du_fill_queue d
     | Out_Queue \<Rightarrow> du_out_queue d)"

definition upd_queue :: "queue_kind \<Rightarrow> (addr list \<Rightarrow> addr list) \<Rightarrow> dcu \<Rightarrow> dcu" where
  "upd_queue q f d =
     (let g = (\<lambda>x. x\<lparr>q_entry := f (q_entry x)\<rparr>) in
      case q of In_Queue \<Rightarrow> d\<lparr>du_in_queue := g (du_in_queue d)\<rparr> | Wb_Queue \<Rightarrow> d\<lparr>du_wb_queue := g (du_wb_queue d)\<rparr>
      | Fill_Queue \<Rightarrow> d\<lparr>du_fill_queue := g (du_fill_queue d)\<rparr> | Out_Queue \<Rightarrow> d\<lparr>du_out_queue := g (du_out_queue d)\<rparr>)"

text \<open>The address of a queue, for \<^verbatim>\<open>m_queue\<close>.\<close>

definition queue_ptr :: "MEMORY_TYPE \<Rightarrow> nat \<Rightarrow> queue_kind \<Rightarrow> nat" where
  "queue_ptr lv i q =
     (i * 8 + level_num lv) * 4 + (case q of In_Queue \<Rightarrow> 0 | Wb_Queue \<Rightarrow> 1 | Fill_Queue \<Rightarrow> 2 | Out_Queue \<Rightarrow> 3)"

definition ptr_kind :: "nat \<Rightarrow> queue_kind" where
  "ptr_kind p = (if p mod 4 = 0 then In_Queue else if p mod 4 = 1 then Wb_Queue else if p mod 4 = 2 then Fill_Queue else Out_Queue)"

definition ptr_level :: "nat \<Rightarrow> MEMORY_TYPE" where
  "ptr_level p =
     (let n = p div 4 mod 8 in if n = 1 then MEM_L1 else if n = 2 then MEM_L2 else if n = 3 then MEM_L3 else if n = 4 then MEM_LLC else MEM_MC)"

definition ptr_index :: "nat \<Rightarrow> nat" where
  "ptr_index p = p div 32"

section \<open>The queues\<close>

definition sort_func :: "mem_knobs \<Rightarrow> (addr \<Rightarrow> mem_req) \<Rightarrow> addr \<Rightarrow> addr \<Rightarrow> bool" where
  "sort_func k rs a b =
     (let x = rs a; y = rs b in
      if KNOB_HETERO_MEM_PRIORITY_CPU k \<and> \<not> mr_acc x \<and> mr_acc y then True
      else if KNOB_HETERO_MEM_PRIORITY_CPU k \<and> mr_acc x \<and> \<not> mr_acc y then False
      else if \<not> KNOB_HETERO_MEM_PRIORITY_CPU k \<and> KNOB_HETERO_MEM_PRIORITY_GPU k \<and> \<not> mr_acc x \<and> mr_acc y then False
      else if \<not> KNOB_HETERO_MEM_PRIORITY_CPU k \<and> KNOB_HETERO_MEM_PRIORITY_GPU k \<and> mr_acc x \<and> \<not> mr_acc y then True
      else mr_priority x > mr_priority y)"

definition covers :: "mem_req \<Rightarrow> Addr \<Rightarrow> nat \<Rightarrow> bool" where
  "covers r a sz \<longleftrightarrow> mr_addr r \<le> a \<and> mr_addr r + ucast (mr_size r) \<ge> a + of_nat sz"

definition queue_search :: "(addr \<Rightarrow> mem_req) \<Rightarrow> Addr \<Rightarrow> nat \<Rightarrow> queue \<Rightarrow> ptr" where
  "queue_search rs a sz q = find (\<lambda>r. covers (rs r) a sz) (q_entry q)"

definition queue_full :: "queue \<Rightarrow> bool" where
  "queue_full q \<longleftrightarrow> length (q_entry q) = q_size q"

definition queue_pop :: "MEMORY_TYPE \<Rightarrow> nat \<Rightarrow> queue_kind \<Rightarrow> addr \<Rightarrow> ('n, 'p) memsys \<Rightarrow> ('n, 'p) memsys" where
  "queue_pop lv i q r m = upd_dcu lv i (upd_queue q (removeAll r)) m"

definition queue_push ::
  "mem_knobs \<Rightarrow> MEMORY_TYPE \<Rightarrow> nat \<Rightarrow> queue_kind \<Rightarrow> addr \<Rightarrow> ('n, 'p) memsys \<Rightarrow> bool \<times> ('n, 'p) memsys" where
  "queue_push k lv i q r m =
     (if queue_full (get_queue q (dcu_at lv i m)) then (False, m)
      else let m1 = upd_req r (\<lambda>x. x\<lparr>mr_queue := Some (queue_ptr lv i q)\<rparr>) m
           in (True, upd_dcu lv i (upd_queue q (\<lambda>l. list_sort (sort_func k (ms_reqs m1)) (l @ [r]))) m1))"

section \<open>Cache units\<close>

record cache_cfg =
  cf_num_set :: nat
  cf_assoc :: nat
  cf_line_size :: nat
  cf_banks :: nat
  cf_latency :: int
  cf_core_type :: string
  cf_read_ports :: uns32
  cf_write_ports :: uns32

text \<open>\<open>cfg\<close> is the configuration that \<^verbatim>\<open>CREATE_CACHE_CONFIGURATION\<close> selects for the type of the core and
  the level. The constructor overwrites the \<^verbatim>\<open>m_bypass\<close> of the configuration.\<close>

definition dcu_c :: "(Unit_Type \<Rightarrow> MEMORY_TYPE \<Rightarrow> cache_cfg) \<Rightarrow> int \<Rightarrow> Unit_Type \<Rightarrow> MEMORY_TYPE \<Rightarrow> int \<Rightarrow> dcu \<Rightarrow> dcu" where
  "dcu_c cfg cid t lv noc_id junk =
     (let c = cfg t lv; ptx = (cf_core_type c = ''ptx''); igpu = (cf_core_type c = ''igpu'')
      in junk\<lparr>du_num_set := cf_num_set c, du_assoc := cf_assoc c, du_line_size := cf_line_size c, du_banks := cf_banks c,
              du_latency := cf_latency c, du_ptx_sim := ptx, du_igpu_sim := igpu, du_acc_sim := igpu \<or> ptx,
              du_num_read_port := cf_read_ports c, du_num_write_port := cf_write_ports c,
              du_in_queue := \<lparr>q_entry = [], q_size = 1024\<rparr>, du_wb_queue := \<lparr>q_entry = [], q_size = 2048\<rparr>,
              du_fill_queue := \<lparr>q_entry = [], q_size = 1024\<rparr>, du_out_queue := \<lparr>q_entry = [], q_size = 2048\<rparr>,
              du_id := cid, du_noc_id := noc_id, du_type := t, du_level := lv, du_bypass := False, du_cycle := 0,
              du_cache := None, du_port := [], du_retry_queue := []\<rparr>)"

text \<open>\<open>new_cache\<close> is the cache that \<^verbatim>\<open>init\<close> builds: the default last-level cache at the level LLC, otherwise a
  cache with the geometry of the unit (\<open>llc_of\<close> and \<open>dcache_of\<close>).\<close>

definition dcu_init ::
  "(dcu \<Rightarrow> dcache_data cache) \<Rightarrow> int \<Rightarrow> int \<Rightarrow> bool \<Rightarrow> bool \<Rightarrow> bool \<Rightarrow> bool \<Rightarrow> bool \<Rightarrow> dcu \<Rightarrow> dcu" where
  "dcu_init new_cache next_id prev_id done coupled_up coupled_down disable has_router d =
     (let d1 = d\<lparr>du_next_id := next_id, du_prev_id := prev_id, du_coupled_up := coupled_up, du_coupled_down := coupled_down,
                 du_done := done, du_disable := disable, du_has_router := has_router\<rparr>;
          d2 = (if \<not> disable
                then d1\<lparr>du_cache := Some (new_cache d1),
                        du_port := replicate (du_banks d1) (port_c ''dcache_port'' (du_num_read_port d1) (du_num_write_port d1) False)\<rparr>
                else d1\<lparr>du_latency := 1\<rparr>)
      in if du_bypass d2 then d2\<lparr>du_disable := True\<rparr> else d2)"

definition dcache_of :: "dcache_data cache_entry \<Rightarrow> int \<Rightarrow> int \<Rightarrow> dcu \<Rightarrow> dcache_data cache" where
  "dcache_of junk jc jg d =
     cache_c junk jc jg (du_num_set d) (du_assoc d) (du_line_size d) 40 (du_banks d) False (du_id d) CACHE_DL1
       (du_level d = MEM_L3) 1 0"

text \<open>\<open>tiles\<close> and \<open>interleaving\<close> are those that \<^verbatim>\<open>default_llc\<close> computes from the knobs.\<close>

definition llc_of :: "dcache_data cache_entry \<Rightarrow> int \<Rightarrow> int \<Rightarrow> cache_cfg \<Rightarrow> nat \<Rightarrow> nat \<Rightarrow> dcu \<Rightarrow> dcache_data cache" where
  "llc_of junk jc jg c tiles interleaving d =
     (cache_c junk jc jg (cf_num_set c) (cf_assoc c) (cf_line_size c) 40 (cf_banks c) False 0 CACHE_DL1 False tiles interleaving)
       \<lparr>c_core_id := du_id d\<rparr>"

definition dcu_full :: "dcu \<Rightarrow> bool" where
  "dcu_full d = queue_full (du_in_queue d)"

definition base_addr :: "dcu \<Rightarrow> Addr \<Rightarrow> Addr" where
  "base_addr d a = a AND of_int (- int (du_line_size d))"

definition bank_id :: "dcu \<Rightarrow> Addr \<Rightarrow> nat" where
  "bank_id d a = BANK a (du_banks d) 256"

definition with_cache :: "dcu \<Rightarrow> (dcache_data cache \<Rightarrow> 'a res) \<Rightarrow> 'a res" where
  "with_cache d f = (case du_cache d of None \<Rightarrow> Inl NullPointer | Some c \<Rightarrow> f c)"

definition set_cache :: "MEMORY_TYPE \<Rightarrow> nat \<Rightarrow> dcache_data cache \<Rightarrow> ('n, 'p) memsys \<Rightarrow> ('n, 'p) memsys" where
  "set_cache lv i c = upd_dcu lv i (\<lambda>d. d\<lparr>du_cache := Some c\<rparr>)"

text \<open>\<^verbatim>\<open>access_cache\<close> of the unit: the line's address and place.\<close>

definition dcu_lookup ::
  "('n, 'p) mem_env \<Rightarrow> MEMORY_TYPE \<Rightarrow> nat \<Rightarrow> Addr \<Rightarrow> bool \<Rightarrow> ('n, 'p) memsys \<Rightarrow>
   (Addr option \<times> (nat \<times> nat) option \<times> ('n, 'p) memsys) res" where
  "dcu_lookup e lv i a upd m =
     with_cache (dcu_at lv i m) (\<lambda>c.
     res_bind (access_cache (me_cycle e) a upd c) (\<lambda>(line_addr, line, c'). Inr (line_addr, line, set_cache lv i c' m)))"

text \<open>A write to the data of a line of the unit.\<close>

definition upd_data :: "MEMORY_TYPE \<Rightarrow> nat \<Rightarrow> nat \<times> nat \<Rightarrow> (dcache_data \<Rightarrow> dcache_data) \<Rightarrow> ('n, 'p) memsys \<Rightarrow> ('n, 'p) memsys" where
  "upd_data lv i p f =
     upd_dcu lv i (\<lambda>d. d\<lparr>du_cache := map_option (upd_line (fst p) (snd p) (\<lambda>l. l\<lparr>ce_data := f (ce_data l)\<rparr>)) (du_cache d)\<rparr>)"

definition get_port :: "bool \<Rightarrow> MEMORY_TYPE \<Rightarrow> nat \<Rightarrow> nat \<Rightarrow> Counter \<Rightarrow> ('n, 'p) memsys \<Rightarrow> (bool \<times> ('n, 'p) memsys) res" where
  "get_port write lv i bank cycle m =
     res_bind (arr_get (du_port (dcu_at lv i m)) bank) (\<lambda>p.
     res_bind (if write then get_write_port cycle p else get_read_port cycle p) (\<lambda>(ok, p').
     Inr (ok, upd_dcu lv i (\<lambda>d. d\<lparr>du_port := (du_port d)[bank := p']\<rparr>) m)))"

definition train :: "('n, 'p) mem_env \<Rightarrow> int \<Rightarrow> MEMORY_TYPE \<Rightarrow> int \<Rightarrow> Addr \<Rightarrow> Addr \<Rightarrow> ptr \<Rightarrow> bool \<Rightarrow> ('n, 'p) memsys \<Rightarrow> ('n, 'p) memsys" where
  "train e core lv tid a pc u hit m = m\<lparr>ms_pref := me_train e core lv tid a pc u hit (ms_pref m)\<rparr>"

definition fill :: "mem_knobs \<Rightarrow> MEMORY_TYPE \<Rightarrow> nat \<Rightarrow> addr \<Rightarrow> ('n, 'p) memsys \<Rightarrow> bool \<times> ('n, 'p) memsys" where
  "fill k lv i r m =
     (let (ok, m1) = queue_push k lv i Fill_Queue r m
      in if ok then (True, upd_req r (\<lambda>x. x\<lparr>mr_state := MEM_FILL_NEW, mr_rdy_cycle := du_cycle (dcu_at lv i m) + 1\<rparr>) m1)
         else (False, m))"

definition insert_req :: "mem_knobs \<Rightarrow> MEMORY_TYPE \<Rightarrow> nat \<Rightarrow> addr \<Rightarrow> ('n, 'p) memsys \<Rightarrow> bool \<times> ('n, 'p) memsys" where
  "insert_req k lv i r m =
     (let (ok, m1) = queue_push k lv i In_Queue r m; d = dcu_at lv i m
      in if ok then (True, upd_req r (\<lambda>x. x\<lparr>mr_rdy_cycle := du_cycle d + of_int (du_latency d)\<rparr>) m1)
         else (False, upd_dcu lv i (\<lambda>d. d\<lparr>du_retry_queue := du_retry_queue d @ [r]\<rparr>) m))"

text \<open>The requests of the input queue of a unit, from the last: the first prefetch is removed.\<close>

definition search_pref_in_queue :: "MEMORY_TYPE \<Rightarrow> nat \<Rightarrow> ('n, 'p) memsys \<Rightarrow> ptr \<times> ('n, 'p) memsys" where
  "search_pref_in_queue lv i m =
     (case find (\<lambda>r. mr_type (ms_reqs m r) = MRT_DPRF) (rev (q_entry (du_in_queue (dcu_at lv i m)))) of
        None \<Rightarrow> (None, m)
      | Some r \<Rightarrow> (Some r, queue_pop lv i In_Queue r m))"

section \<open>Requests and their completion\<close>

text \<open>\<^verbatim>\<open>set_cache_id\<close> of the seven topologies. The two local ones with a coupled or no cache leave the
  index of the level L3 as it is.\<close>

definition set_cache_id :: "mem_knobs \<Rightarrow> ('n, 'p) memsys \<Rightarrow> mem_req \<Rightarrow> mem_req" where
  "set_cache_id k m r =
     (let a = mr_addr r; ids = (mr_cache_id r)[1 := mr_core_id r, 2 := mr_core_id r];
          spread = (\<lambda>num factor. if num AND (num - 1) = 0 then int (BANK a num factor)
                      else int (unat (drop_bit (unat (log2_int (of_nat factor))) a mod of_nat num)));
          l3 = int (BANK a (ms_num_l3 m) (ms_l3_interleave_factor m));
          llc = int (BANK a (ms_num_llc m) (ms_llc_interleave_factor m));
          mc = int (BANK a (ms_num_mc m) (KNOB_DRAM_INTERLEAVE_FACTOR k))
      in r\<lparr>mr_cache_id :=
           (if ms_policy m = l2_coupled_local \<or> ms_policy m = no_cache then ids[4 := mr_core_id r, 5 := mc]
            else if ms_policy m = l2_decoupled_network
            then ids[3 := spread (ms_num_l3 m) (ms_l3_interleave_factor m), 4 := spread (ms_num_llc m) (ms_llc_interleave_factor m),
                     5 := spread (ms_num_mc m) (ms_dram_interleave_factor m)]
            else ids[3 := l3, 4 := llc, 5 := mc])\<rparr>)"

definition uop_field :: "ptr \<Rightarrow> (uop \<Rightarrow> 'a) \<Rightarrow> 'a \<Rightarrow> ('n, 'p) memsys \<Rightarrow> 'a" where
  "uop_field u f dflt m = (case u of None \<Rightarrow> dflt | Some a \<Rightarrow> f (ms_uops m a))"

definition new_wb_req :: "('n, 'p) mem_env \<Rightarrow> Addr \<Rightarrow> nat \<Rightarrow> bool \<Rightarrow> dcache_data \<Rightarrow> ('n, 'p) memsys \<Rightarrow> addr \<times> ('n, 'p) memsys" where
  "new_wb_req e a sz ptx data m =
     (let w = pool_next (ms_mem_req_pool m);
          fresh = (mem_req_init (ms_reqs m w))\<lparr>mr_merge := []\<rparr>;
          req = set_cache_id (me_knobs e) m (fresh\<lparr>mr_id := ms_unique_id m, mr_appl_id := me_appl e (dd_core_id data) (dd_tid data),
            mr_core_id := dd_core_id data, mr_thread_id := dd_tid data, mr_block_id := 0, mr_state := MEM_NEW, mr_type := MRT_WB,
            mr_priority := g_mem_priority MRT_WB, mr_addr := a, mr_size := of_nat sz, mr_rdy_cycle := ms_cycle m + 1,
            mr_pc := dd_pc data, mr_prefetcher_id := 0, mr_pref_loadPC := 0, mr_acc := ptx, mr_done_func := None, mr_uop := None,
            mr_in := ms_cycle m, mr_in_global := me_cycle e, mr_core_in := me_core_cycle e (dd_core_id data), mr_dirty := True,
            mr_done := False\<rparr>)
      in (w, m\<lparr>ms_mem_req_pool := (ms_mem_req_pool m)\<lparr>pool_next := Suc w\<rparr>, ms_unique_id := ms_unique_id m + 1,
                ms_reqs := (ms_reqs m)(w := req)\<rparr>))"

text \<open>The write-back of a dirty victim: \<^verbatim>\<open>data\<close> is what the line held before.\<close>

definition write_back ::
  "('n, 'p) mem_env \<Rightarrow> MEMORY_TYPE \<Rightarrow> nat \<Rightarrow> addr \<Rightarrow> Addr \<Rightarrow> dcache_data \<Rightarrow> ('n, 'p) memsys \<Rightarrow> ('n, 'p) memsys res" where
  "write_back e lv i r victim data m =
     (let d = dcu_at lv i m; req = ms_reqs m r;
          dat = (if KNOB_USE_INCOMING_TID_CID_FOR_WB (me_knobs e)
                 then Dcache_data (dd_dirty data) (dd_fetch_cycle data) (mr_core_id req) (dd_pc data) (mr_thread_id req) else data);
          (wb, m1) = new_wb_req e victim (du_line_size d) (du_acc_sim d) dat m;
          m2 = upd_req wb (\<lambda>x. x\<lparr>mr_rdy_cycle := du_cycle d + 1\<rparr>) m1;
          (ok, m3) = queue_push (me_knobs e) lv i Wb_Queue wb m2
      in check ok AssertFailed (Inr m3))"

text \<open>The insertion of the line of a request, as in \<^verbatim>\<open>process_fill_queue\<close> and in \<^verbatim>\<open>done\<close>.\<close>

definition install_line :: "('n, 'p) mem_env \<Rightarrow> MEMORY_TYPE \<Rightarrow> nat \<Rightarrow> addr \<Rightarrow> ('n, 'p) memsys \<Rightarrow> ('n, 'p) memsys res" where
  "install_line e lv i r m =
     with_cache (dcu_at lv i m) (\<lambda>c. let req = ms_reqs m r in
     res_bind (insert_cache (mk_cache (me_knobs e)) (me_cycle e) (mr_addr req) (mr_appl_id req) (mr_acc req) False c) (\<lambda>(_, victim, p, c').
     let data = ce_data (cs_entry (c_set c' ! fst p) ! snd p); m1 = set_cache lv i c' m in
     res_bind (if victim \<noteq> 0 \<and> dd_dirty data then write_back e lv i r victim data m1 else Inr m1) (\<lambda>m2.
     Inr (upd_data lv i p (\<lambda>_. Dcache_data (mr_dirty req) (du_cycle (dcu_at lv i m)) (mr_core_id req) (mr_pc req) (mr_thread_id req)) m2))))"

definition load_ready :: "('n, 'p) mem_env \<Rightarrow> uop \<Rightarrow> ('n, 'p) memsys \<Rightarrow> ('n, 'p) memsys res" where
  "load_ready e u m =
     (if mk_FETCH_ONLY_LOAD_READY (me_knobs e)
      then res_bind (Frontend.set_load_ready (u_thread_id u) (u_uop_num u) (ms_frontend m (u_core_id u))) (\<lambda>fr.
           Inr (m\<lparr>ms_frontend := (ms_frontend m)(u_core_id u := fr)\<rparr>))
      else Inr m)"

definition uop_done :: "Counter \<Rightarrow> uop \<Rightarrow> uop" where
  "uop_done cycle u = u\<lparr>u_done_cycle := cycle + 1, u_state := OS_SCHEDULED\<rparr>"

text \<open>The completion of the uop of a request; \<open>gpu\<close> selects the bookkeeping of parent uops and threads.\<close>

definition finish :: "('n, 'p) mem_env \<Rightarrow> bool \<Rightarrow> addr \<Rightarrow> ('n, 'p) memsys \<Rightarrow> ('n, 'p) memsys res" where
  "finish e gpu u m =
     (let cycle = me_core_cycle e (u_core_id (ms_uops m u)); m1 = put_uop u (uop_done cycle) m in
      if \<not> gpu then Inr m1
      else case u_parent_uop (ms_uops m1 u) of
        None \<Rightarrow> load_ready e (ms_uops m1 u) m1
      | Some p \<Rightarrow>
          let m2 = put_uop p (\<lambda>x. x\<lparr>u_num_child_uops_done := u_num_child_uops_done x + 1\<rparr>) m1; pu = ms_uops m2 p in
          if u_num_child_uops_done pu = u_num_child_uops pu
          then res_bind (load_ready e pu m2) (\<lambda>m3. Inr (put_uop p (uop_done cycle) m3)) else Inr m2)"

text \<open>\<^verbatim>\<open>dcu_c::done\<close> and \<^verbatim>\<open>dcu_c::write_done\<close> of the unit \<open>i\<close> of the first level.\<close>

definition dcu_done :: "('n, 'p) mem_env \<Rightarrow> nat \<Rightarrow> addr \<Rightarrow> ('n, 'p) memsys \<Rightarrow> (bool \<times> ('n, 'p) memsys) res" where
  "dcu_done e i r m =
     (let d = dcu_at MEM_L1 i m; req = ms_reqs m r in
      if queue_full (du_wb_queue d) then Inr (False, m)
      else res_bind
        (if du_disable d then Inr (True, m)
         else with_cache d (\<lambda>c.
           res_bind (get_port True MEM_L1 i (get_bank_num c (mr_addr req)) (du_cycle d) m) (\<lambda>(ok, m1).
           if \<not> ok then Inr (False, m1)
           else res_bind (dcu_lookup e MEM_L1 i (mr_addr req) False m1) (\<lambda>(_, line, m2).
             case line of
               None \<Rightarrow> res_bind (install_line e MEM_L1 i r m2) (\<lambda>m3. Inr (True, m3))
             | Some p \<Rightarrow> Inr (True, upd_data MEM_L1 i p (\<lambda>x. set_dirty (dd_dirty x \<or> mr_dirty req) x) m2))))) (\<lambda>(ok, m4).
        if \<not> ok then Inr (False, m4)
        else case mr_uop req of
          None \<Rightarrow> Inr (True, m4)
        | Some u \<Rightarrow> res_bind (finish e (du_acc_sim d) u m4) (\<lambda>m5. Inr (True, m5))))"

definition dcu_write_done :: "('n, 'p) mem_env \<Rightarrow> nat \<Rightarrow> addr \<Rightarrow> ('n, 'p) memsys \<Rightarrow> (bool \<times> ('n, 'p) memsys) res" where
  "dcu_write_done e i r m =
     (let d = dcu_at MEM_L1 i m in
      case mr_uop (ms_reqs m r) of
        None \<Rightarrow> Inl NullPointer
      | Some u \<Rightarrow> res_bind (finish e (du_acc_sim d \<or> du_igpu_sim d) u m) (\<lambda>m1. Inr (True, m1)))"

definition l1_of :: "addr \<Rightarrow> ('n, 'p) memsys \<Rightarrow> nat res" where
  "l1_of r m = res_bind (find_dcu (Some MEM_L1) (mr_cache_id (ms_reqs m r) ! 1) m) (\<lambda>(_, i). Inr i)"

definition mem_done :: "('n, 'p) mem_env \<Rightarrow> addr \<Rightarrow> ('n, 'p) memsys \<Rightarrow> (bool \<times> ('n, 'p) memsys) res" where
  "mem_done e r m = res_bind (l1_of r m) (\<lambda>i. dcu_done e i r m)"

definition dcache_write_ack_wrapper :: "('n, 'p) mem_env \<Rightarrow> addr \<Rightarrow> ('n, 'p) memsys \<Rightarrow> (bool \<times> ('n, 'p) memsys) res" where
  "dcache_write_ack_wrapper e r m =
     check (mr_done_func (ms_reqs m r) \<noteq> None) AssertFailed
     (res_bind (l1_of r m) (\<lambda>i. res_bind (dcu_write_done e i r m) (\<lambda>(ok, m1). check ok AssertFailed (Inr (True, m1)))))"

text \<open>\<open>cb f r\<close> is the call of the completion callback \<open>f\<close>. A request that is released with requests still merged
  into it completes them first.\<close>

definition DCACHE_FILL :: nat where
  "DCACHE_FILL = 2"

definition DCACHE_WRITE_ACK :: nat where
  "DCACHE_WRITE_ACK = 3"

type_synonym ('n, 'p) callback = "nat \<Rightarrow> addr \<Rightarrow> ('n, 'p) memsys \<Rightarrow> (bool \<times> ('n, 'p) memsys) res"

definition free_req :: "('n, 'p) callback \<Rightarrow> int \<Rightarrow> addr \<Rightarrow> ('n, 'p) memsys \<Rightarrow> ('n, 'p) memsys res" where
  "free_req cb core r m =
     res_bind (if mr_merge (ms_reqs m r) \<noteq> [] then cb DCACHE_FILL r m else Inr (True, m)) (\<lambda>(_, m1).
     check (mr_merge (ms_reqs m1 r) = []) AssertFailed
     (if mr_type (ms_reqs m1 r) = MRT_WB then Inr m1
      else check (0 \<le> core \<and> nat core < length (ms_mshr m1)) OutOfBounds
        (let m2 = upd_req r mem_req_init m1; c = nat core in
         Inr (m2\<lparr>ms_mshr := (ms_mshr m2)[c := removeAll r (ms_mshr m2 ! c)],
                 ms_mshr_free_list := (ms_mshr_free_list m2)[c := ms_mshr_free_list m2 ! c @ [r]]\<rparr>))))"

definition free_write_req :: "addr \<Rightarrow> ('n, 'p) memsys \<Rightarrow> ('n, 'p) memsys" where
  "free_write_req r m = m\<lparr>ms_mem_req_pool := release_entry r (ms_mem_req_pool m)\<rparr>"

fun merged_loop :: "('n, 'p) callback \<Rightarrow> addr list \<Rightarrow> ('n, 'p) memsys \<Rightarrow> (bool \<times> addr list \<times> ('n, 'p) memsys) res" where
  "merged_loop cb [] m = Inr (True, [], m)"
| "merged_loop cb (x # xs) m =
     res_bind (case mr_done_func (ms_reqs m x) of None \<Rightarrow> Inr (True, m) | Some f \<Rightarrow> cb f x m) (\<lambda>(ok, m1).
     res_bind (merged_loop cb xs m1) (\<lambda>(all, dl, m2). Inr (ok \<and> all, if ok then x # dl else dl, m2)))"

definition unmerge :: "('n, 'p) callback \<Rightarrow> addr \<Rightarrow> addr \<Rightarrow> ('n, 'p) memsys \<Rightarrow> ('n, 'p) memsys res" where
  "unmerge cb r x m =
     free_req cb (mr_core_id (ms_reqs m x)) x (upd_req r (\<lambda>q. q\<lparr>mr_merge := removeAll x (mr_merge q)\<rparr>) m)"

definition dcache_fill_line_wrapper ::
  "('n, 'p) mem_env \<Rightarrow> ('n, 'p) callback \<Rightarrow> addr \<Rightarrow> ('n, 'p) memsys \<Rightarrow> (bool \<times> ('n, 'p) memsys) res" where
  "dcache_fill_line_wrapper e cb r m =
     res_bind (merged_loop cb (mr_merge (ms_reqs m r)) m) (\<lambda>(result, dl, m1).
     res_bind (fold_res (unmerge cb r) dl m1) (\<lambda>m2.
     if result \<and> mr_done_func (ms_reqs m2 r) \<noteq> None then mem_done e r m2 else Inr (result, m2)))"

text \<open>Callbacks nest as deep as requests are merged into merged requests; the fuel bounds the depth.\<close>

fun call_done :: "nat \<Rightarrow> ('n, 'p) mem_env \<Rightarrow> ('n, 'p) callback" where
  "call_done 0 e f r m = Inl Diverges"
| "call_done (Suc n) e f r m =
     (if f = DCACHE_FILL then dcache_fill_line_wrapper e (call_done n e) r m
      else if f = DCACHE_WRITE_ACK then dcache_write_ack_wrapper e r m
      else me_done e f r m)"

text \<open>Each nested callback is on a request of its own: the number of allocated requests is enough.\<close>

definition done_fuel :: "('n, 'p) memsys \<Rightarrow> nat" where
  "done_fuel m = Suc (pool_next (ms_mem_req_pool m))"

definition run_done :: "('n, 'p) mem_env \<Rightarrow> ('n, 'p) callback" where
  "run_done e f r m = call_done (done_fuel m) e f r m"

section \<open>New requests\<close>

definition allocate_new_entry :: "nat \<Rightarrow> ('n, 'p) memsys \<Rightarrow> ptr \<times> ('n, 'p) memsys" where
  "allocate_new_entry c m =
     (let free = ms_mshr_free_list m ! c in
      if free = [] then (None, m)
      else (Some (last free), m\<lparr>ms_mshr_free_list := (ms_mshr_free_list m)[c := butlast free],
                                ms_mshr := (ms_mshr m)[c := ms_mshr m ! c @ [last free]]\<rparr>))"

definition search_req :: "nat \<Rightarrow> Addr \<Rightarrow> nat \<Rightarrow> ('n, 'p) memsys \<Rightarrow> ptr" where
  "search_req c a sz m = find (\<lambda>r. covers (ms_reqs m r) a sz) (ms_mshr m ! c)"

definition search_all :: "Addr \<Rightarrow> nat \<Rightarrow> ('n, 'p) memsys \<Rightarrow> ptr" where
  "search_all a sz m = find (\<lambda>r. covers (ms_reqs m r) a sz) (concat (ms_mshr m))"

definition init_new_req :: "('n, 'p) mem_env \<Rightarrow> req_args \<Rightarrow> addr \<Rightarrow> ('n, 'p) memsys \<Rightarrow> ('n, 'p) memsys res" where
  "init_new_req e a r m =
     (let u = ra_uop a in
      check (mr_merge (ms_reqs m r) = []) AssertFailed
      (Inr (upd_req r (\<lambda>x. set_cache_id (me_knobs e) m
         (x\<lparr>mr_id := ms_unique_id m, mr_appl_id := me_appl e (ra_core_id a) (ra_thread_id a), mr_core_id := ra_core_id a,
            mr_thread_id := ra_thread_id a, mr_block_id := 0, mr_state := MEM_NEW, mr_type := ra_type a,
            mr_priority := g_mem_priority (ra_type a), mr_addr := ra_addr a, mr_size := of_nat (ra_size a),
            mr_with_data := ra_with_data a, mr_rdy_cycle := ms_cycle m + of_int (ra_delay a), mr_pc := uop_field u u_pc 0 m,
            mr_prefetcher_id := 0, mr_pref_loadPC := 0, mr_acc := ra_acc a, mr_done_func := ra_done_func a,
            mr_uop := (if ra_type a = MRT_DPRF then None else u), mr_in := ms_cycle m,
            mr_core_in := me_core_cycle e (ra_core_id a), mr_in_global := me_cycle e, mr_dirty := False, mr_done := False,
            mr_merged_req := None, mr_bypass := (if uop_field u u_bypass_llc False m then 1 else 0),
            mr_skip := uop_field u u_skip_llc False m\<rparr>))
       (m\<lparr>ms_unique_id := ms_unique_id m + 1\<rparr>))))"

text \<open>A prefetch request becomes the demand request: it keeps its identity and its place.\<close>

definition adjust_req :: "('n, 'p) mem_env \<Rightarrow> req_args \<Rightarrow> addr \<Rightarrow> ('n, 'p) memsys \<Rightarrow> ('n, 'p) memsys" where
  "adjust_req e a r m =
     (let u = ra_uop a in
      upd_req r (\<lambda>x. set_cache_id (me_knobs e) m
        (x\<lparr>mr_appl_id := me_appl e (ra_core_id a) (ra_thread_id a), mr_core_id := ra_core_id a, mr_thread_id := ra_thread_id a,
           mr_block_id := 0, mr_type := ra_type a, mr_priority := g_mem_priority (ra_type a), mr_addr := ra_addr a,
           mr_size := of_nat (ra_size a), mr_pc := uop_field u u_pc 0 m, mr_prefetcher_id := 0, mr_pref_loadPC := 0,
           mr_acc := ra_acc a, mr_done_func := ra_done_func a, mr_uop := (if ra_type a = MRT_DPRF then None else u),
           mr_in := ms_cycle m, mr_core_in := me_core_cycle e (ra_core_id a), mr_in_global := me_cycle e, mr_dirty := False,
           mr_done := False, mr_merged_req := None, mr_bypass := 0, mr_skip := False\<rparr>)) m)"

text \<open>A prefetch without merged requests leaves its queue and is released; one that is in no queue (in the network)
  stays.\<close>

definition flush_one :: "('n, 'p) mem_env \<Rightarrow> nat \<Rightarrow> addr \<Rightarrow> ('n, 'p) memsys \<Rightarrow> ('n, 'p) memsys res" where
  "flush_one e c r m =
     (case mr_queue (ms_reqs m r) of
        None \<Rightarrow> Inr m
      | Some p \<Rightarrow> free_req (run_done e) (int c) r (queue_pop (ptr_level p) (ptr_index p) (ptr_kind p) r m))"

definition flush_prefetch :: "('n, 'p) mem_env \<Rightarrow> nat \<Rightarrow> ('n, 'p) memsys \<Rightarrow> ('n, 'p) memsys res" where
  "flush_prefetch e c m =
     fold_res (flush_one e c)
       (filter (\<lambda>r. mr_type (ms_reqs m r) = MRT_DPRF \<and> mr_merge (ms_reqs m r) = []) (ms_mshr m ! c)) m"

definition pool_request :: "('n, 'p) memsys \<Rightarrow> (addr \<times> ('n, 'p) memsys) res" where
  "pool_request m =
     res_bind (acquire_entry (ms_mem_req_pool m)) (\<lambda>(r, p).
     let fresh = (\<lambda>x. if pool_next (ms_mem_req_pool m) \<le> x \<and> x < pool_next p
                      then (mem_req_init (ms_reqs m x))\<lparr>mr_merge := []\<rparr> else ms_reqs m x)
     in Inr (r, m\<lparr>ms_mem_req_pool := p, ms_reqs := fresh\<rparr>))"

text \<open>\<open>gpu_store\<close>: a store of a GPU core of compute capability 2, which takes no MSHR.\<close>

definition gpu_store :: "mem_knobs \<Rightarrow> req_args \<Rightarrow> bool" where
  "gpu_store k a \<longleftrightarrow> ra_acc a \<and> KNOB_COMPUTE_CAPABILITY_2 k \<and> ra_type a = MRT_DSTORE"

text \<open>The entry of a new request, and \<open>None\<close> with the value to return when there is none.\<close>

definition take_entry :: "('n, 'p) mem_env \<Rightarrow> req_args \<Rightarrow> nat \<Rightarrow> ('n, 'p) memsys \<Rightarrow> ((addr + bool) \<times> ('n, 'p) memsys) res" where
  "take_entry e a c m =
     (if gpu_store (me_knobs e) a then res_bind (pool_request m) (\<lambda>(r, m1). Inr (Inl r, m1))
      else case allocate_new_entry c m of
        (Some r, m1) \<Rightarrow> Inr (Inl r, m1)
      | (None, m1) \<Rightarrow>
          res_bind (flush_prefetch e c (m1\<lparr>ms_stop_prefetch := ms_cycle m1 + 500\<rparr>)) (\<lambda>m2.
          if ra_type a = MRT_DPRF then Inr (Inr True, m2)
          else case allocate_new_entry c m2 of (Some r, m3) \<Rightarrow> Inr (Inl r, m3) | (None, m3) \<Rightarrow> Inr (Inr False, m3)))"

definition merge_into :: "addr \<Rightarrow> addr \<Rightarrow> ('n, 'p) memsys \<Rightarrow> ('n, 'p) memsys" where
  "merge_into r x m =
     (let m1 = upd_req r (\<lambda>q. q\<lparr>mr_merge := mr_merge q @ [x]\<rparr>) m;
          m2 = upd_req x (\<lambda>q. q\<lparr>mr_merged_req := Some r, mr_state := MEM_MERGED\<rparr>) m1;
          pr = mr_priority (ms_reqs m2 x)
      in upd_req r (\<lambda>q. if mr_priority q < pr then q\<lparr>mr_priority := pr\<rparr> else q) m2)"

text \<open>The part after the search for a matching request.\<close>

definition enter_req :: "('n, 'p) mem_env \<Rightarrow> req_args \<Rightarrow> nat \<Rightarrow> ptr \<Rightarrow> ('n, 'p) memsys \<Rightarrow> (bool \<times> ('n, 'p) memsys) res" where
  "enter_req e a c matching m =
     res_bind (take_entry e a c m) (\<lambda>(entry, m1).
     case entry of
       Inr b \<Rightarrow> Inr (b, m1)
     | Inl r \<Rightarrow>
         res_bind (init_new_req e a r m1) (\<lambda>m2.
         case matching of
           Some q \<Rightarrow> if gpu_store (me_knobs e) a then Inr (True, snd (insert_req (me_knobs e) MEM_L2 c r m2))
                     else Inr (True, merge_into q r m2)
         | None \<Rightarrow> Inr (True, snd (insert_req (me_knobs e) MEM_L2 c r m2))))"

definition new_mem_req :: "('n, 'p) mem_env \<Rightarrow> req_args \<Rightarrow> ('n, 'p) memsys \<Rightarrow> (bool \<times> ('n, 'p) memsys) res" where
  "new_mem_req e a m =
     (let c = nat (ra_core_id a); matching = search_all (ra_addr a) (ra_size a) m in
      check (0 \<le> ra_core_id a \<and> c < ms_num_core m) OutOfBounds
      (if ms_stop_prefetch m > ms_cycle m \<and> ra_type a = MRT_DPRF then Inr (True, m)
       else if matching \<noteq> None \<and> \<not> gpu_store (me_knobs e) a \<and> ra_type a = MRT_WB then Inl AssertFailed
       else if matching \<noteq> None \<and> \<not> gpu_store (me_knobs e) a \<and> ra_type a = MRT_DPRF then Inr (True, m)
       else if matching \<noteq> None \<and> \<not> gpu_store (me_knobs e) a \<and> mr_type (ms_reqs m (the matching)) = MRT_DPRF
       then Inr (True, adjust_req e a (the matching) m)
       else if matching \<noteq> None \<and> \<not> gpu_store (me_knobs e) a \<and> mr_type (ms_reqs m (the matching)) = MRT_WB then Inl AssertFailed
       else if dcu_full (dcu_at MEM_L2 c m)
       then res_bind (flush_prefetch e c (m\<lparr>ms_stop_prefetch := ms_cycle m + 500\<rparr>)) (\<lambda>m1.
            if dcu_full (dcu_at MEM_L2 c m1) \<and> ra_type a = MRT_DPRF then Inr (True, m1) else enter_req e a c matching m1)
       else enter_req e a c matching m))"

definition get_num_avail_entry :: "nat \<Rightarrow> ('n, 'p) memsys \<Rightarrow> int" where
  "get_num_avail_entry c m = int (length (ms_mshr_free_list m ! c))"

end
