(* ===== verification/MemUnit.thy ===== *)
theory MemUnit
  imports Memory
begin

text \<open>
  The flow of requests through the memory hierarchy of \<^verbatim>\<open>src/src/memory.cc\<close>: the access of a uop to the first
  level, the four queues of a cache unit, the packets of the network, the cycles of the units and the
  construction of the seven topologies.
\<close>

section \<open>The access of a uop\<close>

definition req_type_of :: "Mem_Type \<Rightarrow> Mem_Req_Type option" where
  "req_type_of t =
     (if t \<in> {MEM_LD, MEM_LD_LM, MEM_LD_CM, MEM_LD_TM} then Some MRT_DFETCH
      else if t \<in> {MEM_ST, MEM_ST_LM, MEM_ST_GM} then Some MRT_DSTORE
      else if t \<in> {MEM_SWPREF_NTA, MEM_SWPREF_T0, MEM_SWPREF_T1, MEM_SWPREF_T2, MEM_PF} then Some MRT_DPRF
      else None)"

text \<open>The address and the size of the request of the uop \<open>a\<close>.\<close>

definition req_span :: "mem_knobs \<Rightarrow> dcu \<Rightarrow> uop \<Rightarrow> Addr \<Rightarrow> Addr \<times> nat" where
  "req_span k d u line_addr =
     (if du_acc_sim d \<and> KNOB_BYTE_LEVEL_ACCESS k then (u_paddr u, u_mem_size u) else (line_addr, du_line_size d))"

definition request_of :: "dcu \<Rightarrow> addr \<Rightarrow> uop \<Rightarrow> Mem_Req_Type \<Rightarrow> Addr \<times> nat \<Rightarrow> bool \<Rightarrow> bool \<Rightarrow> nat \<Rightarrow> req_args" where
  "request_of d a u ty span hit with_data f =
     \<lparr>ra_type = ty, ra_addr = fst span, ra_size = snd span, ra_cache_hit = hit, ra_with_data = with_data, ra_delay = du_latency d,
      ra_uop = Some a, ra_done_func = Some f, ra_unique_num = u_unique_num u, ra_core_id = du_id d, ra_thread_id = u_thread_id u,
      ra_acc = du_acc_sim d\<rparr>"

text \<open>A rejected request leaves the uop to try again.\<close>

definition send_request ::
  "('n, 'p) mem_env \<Rightarrow> addr \<Rightarrow> req_args \<Rightarrow> int \<Rightarrow> ('n, 'p) memsys \<Rightarrow> (int \<times> ('n, 'p) memsys) res" where
  "send_request e a r accepted m =
     res_bind (new_mem_req e r m) (\<lambda>(ok, m1).
     Inr (if ok then (accepted, m1) else (0, put_uop a (\<lambda>u. u\<lparr>u_state := OS_DCACHE_MEM_ACCESS_DENIED\<rparr>) m1)))"

definition access_hit ::
  "('n, 'p) mem_env \<Rightarrow> nat \<Rightarrow> addr \<Rightarrow> Addr \<Rightarrow> (nat \<times> nat) option \<Rightarrow> ('n, 'p) memsys \<Rightarrow> (int \<times> ('n, 'p) memsys) res" where
  "access_hit e i a line_addr line m =
     (let k = me_knobs e; d = dcu_at MEM_L1 i m; u = ms_uops m a; ty = u_mem_type u;
          m1 = put_uop a (\<lambda>u. u\<lparr>u_uop_info := (u_uop_info u)\<lparr>ui_dcmiss := False\<rparr>\<rparr>) m;
          m2 = (case line of Some p \<Rightarrow> if IsStore ty then upd_data MEM_L1 i p (set_dirty True) m1 else m1 | None \<Rightarrow> m1);
          m3 = train e (u_core_id u) MEM_L1 (u_thread_id u) line_addr (u_pc u) (Some a) True m2
      in if du_acc_sim d \<and> KNOB_COMPUTE_CAPABILITY_2 k \<and> ty = MEM_ST
         then with_cache (dcu_at MEM_L1 i m3) (\<lambda>c.
              res_bind (invalidate_cache_line (u_paddr u) c) (\<lambda>(_, c').
              send_request e a (request_of d a u MRT_DSTORE (req_span k d u line_addr) True True DCACHE_WRITE_ACK) (- 1)
                (set_cache MEM_L1 i c' m3)))
         else Inr (du_latency d, m3))"

definition access_miss ::
  "('n, 'p) mem_env \<Rightarrow> nat \<Rightarrow> addr \<Rightarrow> Addr \<Rightarrow> ('n, 'p) memsys \<Rightarrow> (int \<times> ('n, 'p) memsys) res" where
  "access_miss e i a line_addr m =
     (let k = me_knobs e; d = dcu_at MEM_L1 i m; u = ms_uops m a; ty = u_mem_type u;
          m1 = (if du_disable d then m else train e (u_core_id u) MEM_L1 (u_thread_id u) line_addr (u_pc u) (Some a) False m);
          m2 = put_uop a (\<lambda>u. u\<lparr>u_uop_info := (u_uop_info u)\<lparr>ui_dcmiss := True\<rparr>\<rparr>) m1
      in case req_type_of ty of
           None \<Rightarrow> Inl AssertFailed
         | Some rt \<Rightarrow>
             let m3 = (if du_id d = KNOB_HETERO_GPU_CORE_DISABLE k then put_uop a (\<lambda>u. u\<lparr>u_bypass_llc := True\<rparr>) m2 else m2);
                 m4 = (if du_id d = KNOB_HETERO_GPU_CORE_DISABLE k + 1 then put_uop a (\<lambda>u. u\<lparr>u_skip_llc := True\<rparr>) m3 else m3);
                 f = (if du_acc_sim d \<and> KNOB_COMPUTE_CAPABILITY_2 k \<and> (ty = MEM_ST \<or> ty = MEM_ST_LM)
                      then DCACHE_WRITE_ACK else DCACHE_FILL)
             in send_request e a
                  (request_of d a u rt (req_span k d u line_addr) False (ty = MEM_ST_GM \<or> ty = MEM_ST_LM) f)
                  (if rt = MRT_DPRF then du_latency d else - 1) m4)"

text \<open>The port of the access; \<open>False\<close> when it is busy.\<close>

definition access_port :: "('n, 'p) mem_env \<Rightarrow> nat \<Rightarrow> addr \<Rightarrow> ('n, 'p) memsys \<Rightarrow> (bool \<times> ('n, 'p) memsys) res" where
  "access_port e i a m =
     (let d = dcu_at MEM_L1 i m; u = ms_uops m a; bank = bank_id d (u_paddr u); store = IsStore (u_mem_type u) in
      if KNOB_DCACHE_INFINITE_PORT (me_knobs e) \<or> du_disable d then Inr (True, m)
      else res_bind (get_port store MEM_L1 i bank (du_cycle d - 1) m) (\<lambda>(ok, m1).
        Inr (ok, if ok then m1
                 else put_uop a (\<lambda>u. u\<lparr>u_dcache_bank_id := int bank + (if store then 64 else 0),
                                      u_state := OS_DCACHE_PORT_UNAVAILABLE\<rparr>) m1)))"

definition translate_uop :: "('n, 'p) mem_env \<Rightarrow> addr \<Rightarrow> ('n, 'p) memsys \<Rightarrow> (bool \<times> ('n, 'p) memsys) res" where
  "translate_uop e a m =
     (if KNOB_ENABLE_PHYSICAL_MAPPING (me_knobs e)
      then res_bind (translate (mk_mmu (me_knobs e)) (me_appl e) a (ms_MMU m)) (\<lambda>(ok, mm). Inr (ok, m\<lparr>ms_MMU := mm\<rparr>))
      else Inr (True, put_uop a (\<lambda>u. u\<lparr>u_paddr := u_vaddr u\<rparr>) m))"

definition dcu_access :: "('n, 'p) mem_env \<Rightarrow> nat \<Rightarrow> addr \<Rightarrow> ('n, 'p) memsys \<Rightarrow> (int \<times> ('n, 'p) memsys) res" where
  "dcu_access e i a m =
     check (du_level (dcu_at MEM_L1 i m) = MEM_L1) AssertFailed
     (res_bind (translate_uop e a m) (\<lambda>(success, m1).
      if \<not> success then Inr (- 1, m1)
      else let m2 = put_uop a (\<lambda>u. u\<lparr>u_state := OS_DCACHE_BEGIN\<rparr>) m1; d = dcu_at MEM_L1 i m2; u = ms_uops m2 a in
        res_bind (access_port e i a m2) (\<lambda>(granted, m3).
        if \<not> granted then Inr (0, m3)
        else if mk_PERFECT_DCACHE (me_knobs e) then access_hit e i a (base_addr d (u_paddr u)) None m3
        else if du_disable d then access_miss e i a (base_addr d (u_paddr u)) m3
        else res_bind (dcu_lookup e MEM_L1 i (u_paddr u) True m3) (\<lambda>(la, line, m4).
          let line_addr = (case la of Some x \<Rightarrow> x | None \<Rightarrow> base_addr d (u_paddr u))
          in if line \<noteq> None then access_hit e i a line_addr line m4 else access_miss e i a line_addr m4))))"

definition mem_access_uop :: "('n, 'p) mem_env \<Rightarrow> addr \<Rightarrow> ('n, 'p) memsys \<Rightarrow> (int \<times> ('n, 'p) memsys) res" where
  "mem_access_uop e a m =
     res_bind (find_dcu (Some MEM_L1) (u_core_id (ms_uops m a)) m) (\<lambda>(_, i). dcu_access e i a m)"

section \<open>Loops over a queue\<close>

text \<open>What the body of a loop does with a request: \<open>Skip\<close> is \<^verbatim>\<open>continue\<close>, \<open>Handled\<close> adds it to the done
  list and counts it, \<open>Halt\<close> is \<^verbatim>\<open>break\<close>. A unit handles four requests of a queue in a cycle. No body changes the queue
  it runs over, so the requests are those of the start.\<close>

datatype outcome = Skip | Handled | Halt

fun queue_loop :: "(addr \<Rightarrow> 's \<Rightarrow> (outcome \<times> 's) res) \<Rightarrow> nat \<Rightarrow> addr list \<Rightarrow> 's \<Rightarrow> (addr list \<times> 's) res" where
  "queue_loop f cnt [] s = Inr ([], s)"
| "queue_loop f cnt (r # rs) s =
     (if cnt = 4 then Inr ([], s)
      else res_bind (f r s) (\<lambda>(oc, s1). case oc of
             Halt \<Rightarrow> Inr ([], s1)
           | Skip \<Rightarrow> queue_loop f cnt rs s1
           | Handled \<Rightarrow> res_bind (queue_loop f (Suc cnt) rs s1) (\<lambda>(dl, s2). Inr (r # dl, s2))))"

definition handled :: "bool \<times> 's \<Rightarrow> outcome \<times> 's" where
  "handled r = (if fst r then Handled else Skip, snd r)"

text \<open>The callback of a request, which counts as done without one.\<close>

definition done_call :: "('n, 'p) mem_env \<Rightarrow> addr \<Rightarrow> ('n, 'p) memsys \<Rightarrow> (bool \<times> ('n, 'p) memsys) res" where
  "done_call e r m = (case mr_done_func (ms_reqs m r) of None \<Rightarrow> Inr (True, m) | Some f \<Rightarrow> run_done e f r m)"

definition mark_done :: "addr \<Rightarrow> ('n, 'p) memsys \<Rightarrow> ('n, 'p) memsys" where
  "mark_done r = upd_req r (\<lambda>x. x\<lparr>mr_done := True\<rparr>)"

definition cid :: "addr \<Rightarrow> nat \<Rightarrow> ('n, 'p) memsys \<Rightarrow> int" where
  "cid r l m = mr_cache_id (ms_reqs m r) ! l"

definition acc_store :: "mem_knobs \<Rightarrow> mem_req \<Rightarrow> bool" where
  "acc_store k r \<longleftrightarrow> mr_acc r \<and> KNOB_COMPUTE_CAPABILITY_2 k \<and> mr_type r = MRT_DSTORE"

text \<open>The end of \<^verbatim>\<open>process_in_queue\<close> and \<^verbatim>\<open>process_fill_queue\<close>: a handled request leaves the queue, a done
  one is released.\<close>

definition retire_req :: "('n, 'p) mem_env \<Rightarrow> MEMORY_TYPE \<Rightarrow> nat \<Rightarrow> queue_kind \<Rightarrow> addr \<Rightarrow> ('n, 'p) memsys \<Rightarrow> ('n, 'p) memsys res" where
  "retire_req e lv i q r m =
     (let m1 = queue_pop lv i q r m; x = ms_reqs m1 r in
      if \<not> mr_done x then Inr m1
      else if acc_store (me_knobs e) x then Inr (free_write_req r m1)
      else free_req (run_done e) (mr_core_id x) r m1)"

text \<open>A request moves to the output queue in the state \<open>st\<close>.\<close>

definition to_out :: "mem_knobs \<Rightarrow> MEMORY_TYPE \<Rightarrow> nat \<Rightarrow> addr \<Rightarrow> (mem_req \<Rightarrow> mem_req) \<Rightarrow> ('n, 'p) memsys \<Rightarrow> bool \<times> ('n, 'p) memsys" where
  "to_out k lv i r f m = (let (ok, m1) = queue_push k lv i Out_Queue r m in if ok then (True, upd_req r f m1) else (False, m))"

definition fill_prev :: "mem_knobs \<Rightarrow> MEMORY_TYPE \<Rightarrow> int \<Rightarrow> addr \<Rightarrow> ('n, 'p) memsys \<Rightarrow> (bool \<times> ('n, 'p) memsys) res" where
  "fill_prev k lv idx r m = res_bind (find_dcu (prev_array lv) idx m) (\<lambda>(pl, j). Inr (fill k pl j r m))"

section \<open>The input queue\<close>

definition in_hit :: "('n, 'p) mem_env \<Rightarrow> MEMORY_TYPE \<Rightarrow> nat \<Rightarrow> addr \<Rightarrow> nat \<times> nat \<Rightarrow> ('n, 'p) memsys \<Rightarrow> (outcome \<times> ('n, 'p) memsys) res" where
  "in_hit e lv i r p m =
     (let k = me_knobs e; d = dcu_at lv i m; x = ms_reqs m r;
          m1 = train e (mr_core_id x) lv (mr_thread_id x) (mr_addr x) (mr_pc x) (mr_uop x) True m;
          m2 = (if mr_type x = MRT_DSTORE then upd_data lv i p (set_dirty True) m1 else m1)
      in if mr_type x = MRT_WB then Inr (Handled, mark_done r (upd_data lv i p (set_dirty True) m2))
         else if du_done d then res_bind (done_call e r m2) (\<lambda>(ok, m3). Inr (if ok then (Handled, mark_done r m3) else (Skip, m3)))
         else if (du_coupled_up d \<and> du_prev_id d = cid r (level_num lv - 1) m) \<or> \<not> du_has_router d
         then check (lv = MEM_LLC) AssertFailed
              (res_bind (fill_prev k lv (cid r (level_num lv - 1) m) r m2) (\<lambda>res. Inr (handled res)))
         else Inr (handled (to_out k lv i r (\<lambda>x. x\<lparr>mr_state := MEM_OUT_FILL, mr_rdy_cycle := du_cycle d + 1\<rparr>) m2)))"

definition in_miss :: "('n, 'p) mem_env \<Rightarrow> MEMORY_TYPE \<Rightarrow> nat \<Rightarrow> addr \<Rightarrow> ('n, 'p) memsys \<Rightarrow> (outcome \<times> ('n, 'p) memsys) res" where
  "in_miss e lv i r m =
     (let k = me_knobs e; d = dcu_at lv i m; x = ms_reqs m r;
          m1 = (if du_disable d then m else train e (mr_core_id x) lv (mr_thread_id x) (mr_addr x) (mr_pc x) (mr_uop x) False m)
      in if (du_coupled_down d \<and> du_next_id d = cid r (level_num lv + 1) m) \<or> \<not> du_has_router d
         then check (lv \<noteq> MEM_LLC) AssertFailed
              (res_bind (find_dcu (next_array lv) (cid r (level_num lv + 1) m) m1) (\<lambda>(nl, j). Inr (handled (insert_req k nl j r m1))))
         else Inr (handled (to_out k lv i r (\<lambda>x. x\<lparr>mr_state := MEM_OUTQUEUE_NEW, mr_rdy_cycle := du_cycle d + 1\<rparr>) m1)))"

definition in_one :: "('n, 'p) mem_env \<Rightarrow> MEMORY_TYPE \<Rightarrow> nat \<Rightarrow> addr \<Rightarrow> ('n, 'p) memsys \<Rightarrow> (outcome \<times> ('n, 'p) memsys) res" where
  "in_one e lv i r m =
     (let d = dcu_at lv i m; x = ms_reqs m r in
      if mr_rdy_cycle x > du_cycle d then Inr (Skip, m)
      else if lv = MEM_LLC \<and> mr_bypass x = 1 \<or> du_disable d then in_miss e lv i r m
      else res_bind (dcu_lookup e lv i (mr_addr x) (mr_type x \<noteq> MRT_WB) m) (\<lambda>(_, line, m1).
        case line of Some p \<Rightarrow> in_hit e lv i r p m1 | None \<Rightarrow> in_miss e lv i r m1))"

definition process_in_queue :: "('n, 'p) mem_env \<Rightarrow> MEMORY_TYPE \<Rightarrow> nat \<Rightarrow> ('n, 'p) memsys \<Rightarrow> ('n, 'p) memsys res" where
  "process_in_queue e lv i m =
     res_bind (queue_loop (in_one e lv i) 0 (q_entry (du_in_queue (dcu_at lv i m))) m) (\<lambda>(dl, m1).
     fold_res (retire_req e lv i In_Queue) dl m1)"

section \<open>The network\<close>

text \<open>\<open>up\<close> sends to the level above, otherwise below.\<close>

definition send_packet :: "('n, 'p) mem_env \<Rightarrow> MEMORY_TYPE \<Rightarrow> nat \<Rightarrow> addr \<Rightarrow> NOC_TYPE \<Rightarrow> bool \<Rightarrow> ('n, 'p) memsys \<Rightarrow> (bool \<times> ('n, 'p) memsys) res" where
  "send_packet e lv i r msg up m =
     (let m1 = upd_req r (\<lambda>x. x\<lparr>mr_msg_type := msg\<rparr>) m; dst = (if up then level_num lv - 1 else level_num lv + 1) in
      res_bind (me_send e r (ms_reqs m1) lv (du_id (dcu_at lv i m)) dst (cid r dst m) (ms_network m1)) (\<lambda>(ok, rs, n).
      let m2 = m1\<lparr>ms_reqs := rs, ms_network := n\<rparr> in
      Inr (ok, if ok then upd_req r (\<lambda>x. x\<lparr>mr_state := MEM_IN_NOC\<rparr>) m2 else m2)))"

definition with_ack :: "mem_knobs \<Rightarrow> mem_req \<Rightarrow> bool" where
  "with_ack k x \<longleftrightarrow> mr_acc x \<and> KNOB_COMPUTE_CAPABILITY_2 k \<and> mr_with_data x"

definition out_one :: "('n, 'p) mem_env \<Rightarrow> MEMORY_TYPE \<Rightarrow> nat \<Rightarrow> addr \<Rightarrow> ('n, 'p) memsys \<Rightarrow> (outcome \<times> ('n, 'p) memsys) res" where
  "out_one e lv i r m =
     (let d = dcu_at lv i m; x = ms_reqs m r; k = me_knobs e in
      if mr_rdy_cycle x > du_cycle d then Inr (Skip, m)
      else check (du_has_router d) AssertFailed
        (res_bind
          (if mr_state x = MEM_OUTQUEUE_NEW
           then send_packet e lv i r (if with_ack k x \<and> lv \<noteq> MEM_LLC then NOC_NEW_WITH_DATA else NOC_NEW) False m
           else if mr_state x = MEM_OUT_FILL then send_packet e lv i r (if with_ack k x \<and> lv = MEM_LLC then NOC_ACK else NOC_FILL) True m
           else if mr_state x = MEM_OUT_WB then send_packet e lv i r NOC_FILL False m
           else Inl AssertFailed) (\<lambda>res. Inr (handled res))))"

definition leave_out :: "MEMORY_TYPE \<Rightarrow> nat \<Rightarrow> addr \<Rightarrow> ('n, 'p) memsys \<Rightarrow> ('n, 'p) memsys" where
  "leave_out lv i r m = queue_pop lv i Out_Queue r (upd_req r (\<lambda>x. x\<lparr>mr_queue := None\<rparr>) m)"

definition process_out_queue :: "('n, 'p) mem_env \<Rightarrow> MEMORY_TYPE \<Rightarrow> nat \<Rightarrow> ('n, 'p) memsys \<Rightarrow> ('n, 'p) memsys res" where
  "process_out_queue e lv i m =
     res_bind (queue_loop (out_one e lv i) 0 (q_entry (du_out_queue (dcu_at lv i m))) m) (\<lambda>(dl, m1). Inr (fold (leave_out lv i) dl m1))"

definition receive_one :: "('n, 'p) mem_env \<Rightarrow> MEMORY_TYPE \<Rightarrow> nat \<Rightarrow> ('n, 'p) memsys \<Rightarrow> ('n, 'p) memsys res" where
  "receive_one e lv i m =
     (let k = me_knobs e; id0 = du_id (dcu_at lv i m) in
      res_bind (me_receive e lv id0 (ms_network m)) (\<lambda>p. case p of
        None \<Rightarrow> Inr m
      | Some r \<Rightarrow>
          let m1 = upd_req r (\<lambda>x. x\<lparr>mr_state := MEM_NOC_DONE\<rparr>) m; t = mr_msg_type (ms_reqs m1 r) in
          res_bind (if t = NOC_FILL \<or> t = NOC_ACK then Inr (fill k lv i r m1)
                    else if t = NOC_NEW \<or> t = NOC_NEW_WITH_DATA then Inr (insert_req k lv i r m1)
                    else Inl AssertFailed) (\<lambda>(ok, m2).
          if ok then res_bind (me_receive_pop e lv id0 (ms_network m2)) (\<lambda>n. Inr (m2\<lparr>ms_network := n\<rparr>))
          else check (\<not> KNOB_ENABLE_IRIS k) AssertFailed (Inr m2))))"

definition receive_packet :: "('n, 'p) mem_env \<Rightarrow> MEMORY_TYPE \<Rightarrow> nat \<Rightarrow> ('n, 'p) memsys \<Rightarrow> ('n, 'p) memsys res" where
  "receive_packet e lv i m =
     (if \<not> du_has_router (dcu_at lv i m) then Inr m
      else fold_res (\<lambda>_. receive_one e lv i) (if KNOB_NOC_TOPOLOGY (me_knobs e) = ''simple_noc'' then [0, 1] else [0 :: nat]) m)"

section \<open>The fill queue\<close>

text \<open>The way upwards for a filled request; a request that cannot go on waits in the fill queue.\<close>

definition wait_fill :: "addr \<Rightarrow> bool \<times> ('n, 'p) memsys \<Rightarrow> outcome \<times> ('n, 'p) memsys" where
  "wait_fill r res = (if fst res then (Handled, snd res) else (Skip, upd_req r (\<lambda>x. x\<lparr>mr_state := MEM_FILL_WAIT_FILL\<rparr>) (snd res)))"

definition fill_upwards :: "('n, 'p) mem_env \<Rightarrow> MEMORY_TYPE \<Rightarrow> nat \<Rightarrow> bool \<Rightarrow> addr \<Rightarrow> ('n, 'p) memsys \<Rightarrow> (outcome \<times> ('n, 'p) memsys) res" where
  "fill_upwards e lv i direct r m =
     (if direct then res_bind (fill_prev (me_knobs e) lv (cid r (level_num lv - 1) m) r m) (\<lambda>res. Inr (wait_fill r res))
      else Inr (wait_fill r (to_out (me_knobs e) lv i r (\<lambda>x. x\<lparr>mr_state := MEM_OUT_FILL\<rparr>) m)))"

definition coupled_to :: "dcu \<Rightarrow> MEMORY_TYPE \<Rightarrow> addr \<Rightarrow> ('n, 'p) memsys \<Rightarrow> bool" where
  "coupled_to d lv r m \<longleftrightarrow> du_coupled_up d \<and> du_prev_id d = cid r (level_num lv - 1) m"

text \<open>The line of a new fill request; \<open>False\<close> when the write port is busy.\<close>

definition fill_line :: "('n, 'p) mem_env \<Rightarrow> MEMORY_TYPE \<Rightarrow> nat \<Rightarrow> addr \<Rightarrow> ('n, 'p) memsys \<Rightarrow> (bool \<times> ('n, 'p) memsys) res" where
  "fill_line e lv i r m =
     (let d = dcu_at lv i m; x = ms_reqs m r in
      if du_disable d then Inr (True, m)
      else res_bind (dcu_lookup e lv i (mr_addr x) False m) (\<lambda>(_, line, m1).
        case line of
          Some p \<Rightarrow> Inr (True, upd_data lv i p (\<lambda>y. set_dirty (dd_dirty y \<or> mr_dirty x) y) m1)
        | None \<Rightarrow> with_cache (dcu_at lv i m1) (\<lambda>c.
            res_bind (get_port True lv i (get_bank_num c (mr_addr x)) (du_cycle d) m1) (\<lambda>(ok, m2).
            if ok then res_bind (install_line e lv i r m2) (\<lambda>m3. Inr (True, m3)) else Inr (False, m2)))))"

definition fill_new :: "('n, 'p) mem_env \<Rightarrow> MEMORY_TYPE \<Rightarrow> nat \<Rightarrow> addr \<Rightarrow> ('n, 'p) memsys \<Rightarrow> (outcome \<times> ('n, 'p) memsys) res" where
  "fill_new e lv i r m =
     (let d = dcu_at lv i m in
      res_bind (fill_line e lv i r m) (\<lambda>(ok, m1).
      if \<not> ok then Inr (Skip, m1)
      else if du_done d
      then check (lv \<noteq> MEM_LLC) AssertFailed (res_bind (done_call e r m1) (\<lambda>(ok, m2).
           Inr (if ok then (Handled, mark_done r m2) else (Skip, upd_req r (\<lambda>x. x\<lparr>mr_state := MEM_FILL_WAIT_DONE\<rparr>) m2))))
      else if mr_type (ms_reqs m1 r) = MRT_WB then Inr (Handled, mark_done r m1)
      else fill_upwards e lv i (coupled_to d lv r m1 \<or> \<not> du_disable d \<and> \<not> du_has_router d) r m1))"

definition fill_one :: "('n, 'p) mem_env \<Rightarrow> MEMORY_TYPE \<Rightarrow> nat \<Rightarrow> addr \<Rightarrow> ('n, 'p) memsys \<Rightarrow> (outcome \<times> ('n, 'p) memsys) res" where
  "fill_one e lv i r m =
     (let d = dcu_at lv i m; x = ms_reqs m r in
      if queue_full (du_wb_queue d) then Inr (Halt, m)
      else if acc_store (me_knobs e) x \<and> lv = MEM_L1
      then check (du_done d \<and> mr_done_func x \<noteq> None) AssertFailed (res_bind (done_call e r m) (\<lambda>(ok, m1).
           check ok AssertFailed (Inr (Handled, mark_done r m1))))
      else if mr_rdy_cycle x > du_cycle d then Inr (Skip, m)
      else if mr_state x = MEM_FILL_NEW then fill_new e lv i r m
      else if mr_state x = MEM_FILL_WAIT_DONE
      then res_bind (done_call e r m) (\<lambda>(ok, m1). Inr (if ok then (Handled, mark_done r m1) else (Skip, m1)))
      else if mr_state x = MEM_FILL_WAIT_FILL then fill_upwards e lv i (coupled_to d lv r m \<or> \<not> du_has_router d) r m
      else Inl AssertFailed)"

definition process_fill_queue :: "('n, 'p) mem_env \<Rightarrow> MEMORY_TYPE \<Rightarrow> nat \<Rightarrow> ('n, 'p) memsys \<Rightarrow> ('n, 'p) memsys res" where
  "process_fill_queue e lv i m =
     res_bind (queue_loop (fill_one e lv i) 0 (q_entry (du_fill_queue (dcu_at lv i m))) m) (\<lambda>(dl, m1).
     fold_res (retire_req e lv i Fill_Queue) dl m1)"

section \<open>The write-back queue\<close>

definition wb_one :: "('n, 'p) mem_env \<Rightarrow> MEMORY_TYPE \<Rightarrow> nat \<Rightarrow> addr \<Rightarrow> ('n, 'p) memsys \<Rightarrow> (outcome \<times> ('n, 'p) memsys) res" where
  "wb_one e lv i r m =
     (let d = dcu_at lv i m; k = me_knobs e in
      if mr_rdy_cycle (ms_reqs m r) > du_cycle d then Inr (Skip, m)
      else if lv \<noteq> MEM_LLC \<and> du_coupled_down d \<and> du_next_id d = cid r (level_num lv + 1) m
      then res_bind (find_dcu (next_array lv) (du_next_id d) m) (\<lambda>(nl, j). Inr (handled (fill k nl j r m)))
      else Inr (handled (to_out k lv i r (\<lambda>x. x\<lparr>mr_state := MEM_OUT_WB\<rparr>) m)))"

definition process_wb_queue :: "('n, 'p) mem_env \<Rightarrow> MEMORY_TYPE \<Rightarrow> nat \<Rightarrow> ('n, 'p) memsys \<Rightarrow> ('n, 'p) memsys res" where
  "process_wb_queue e lv i m =
     res_bind (queue_loop (wb_one e lv i) 0 (q_entry (du_wb_queue (dcu_at lv i m))) m) (\<lambda>(dl, m1).
     Inr (fold (queue_pop lv i Wb_Queue) dl m1))"

section \<open>The cycle of a unit\<close>

text \<open>The rejected requests are offered to the input queue again; the ready cycle of \<^verbatim>\<open>insert\<close> is not set.\<close>

definition retry_one :: "mem_knobs \<Rightarrow> MEMORY_TYPE \<Rightarrow> nat \<Rightarrow> addr \<Rightarrow> ('n, 'p) memsys \<Rightarrow> ('n, 'p) memsys" where
  "retry_one k lv i r m =
     (let (ok, m1) = queue_push k lv i In_Queue r m
      in if ok then m1 else upd_dcu lv i (\<lambda>d. d\<lparr>du_retry_queue := du_retry_queue d @ [r]\<rparr>) m)"

definition retry_all :: "mem_knobs \<Rightarrow> MEMORY_TYPE \<Rightarrow> nat \<Rightarrow> ('n, 'p) memsys \<Rightarrow> ('n, 'p) memsys" where
  "retry_all k lv i m =
     fold (retry_one k lv i) (du_retry_queue (dcu_at lv i m)) (upd_dcu lv i (\<lambda>d. d\<lparr>du_retry_queue := []\<rparr>) m)"

definition dcu_run_a_cycle :: "('n, 'p) mem_env \<Rightarrow> bool \<Rightarrow> MEMORY_TYPE \<Rightarrow> nat \<Rightarrow> ('n, 'p) memsys \<Rightarrow> ('n, 'p) memsys res" where
  "dcu_run_a_cycle e pll_lock lv i m =
     (let tick = upd_dcu lv i (\<lambda>d. d\<lparr>du_cycle := du_cycle d + 1\<rparr>); k = me_knobs e in
      if pll_lock then Inr (tick m)
      else res_bind (process_wb_queue e lv i (retry_all k lv i m)) (\<lambda>m1.
        res_bind (process_fill_queue e lv i m1) (\<lambda>m2.
        res_bind (process_out_queue e lv i m2) (\<lambda>m3.
        res_bind (process_in_queue e lv i m3) (\<lambda>m4.
        res_bind (if KNOB_ENABLE_IRIS k \<or> KNOB_ENABLE_NEW_NOC k then receive_packet e lv i m4 else Inr m4) (\<lambda>m5.
        Inr (tick m5)))))))"

definition run_a_cycle_core :: "('n, 'p) mem_env \<Rightarrow> bool \<Rightarrow> nat \<Rightarrow> ('n, 'p) memsys \<Rightarrow> ('n, 'p) memsys res" where
  "run_a_cycle_core e pll c m =
     check (c < ms_num_core m) OutOfBounds
     (res_bind (dcu_run_a_cycle e pll MEM_L2 c m) (dcu_run_a_cycle e pll MEM_L1 c))"

text \<open>The units of a level in turn, from one that changes with the cycle.\<close>

definition run_level :: "('n, 'p) mem_env \<Rightarrow> bool \<Rightarrow> MEMORY_TYPE \<Rightarrow> nat \<Rightarrow> ('n, 'p) memsys \<Rightarrow> ('n, 'p) memsys res" where
  "run_level e pll lv num m =
     check (num \<noteq> 0) DivideByZero
     (let index = unat (ms_cycle m mod of_nat num) in
      fold_res (\<lambda>ii. dcu_run_a_cycle e pll lv (ii mod num)) [index..<index + num] m)"

definition mem_run_a_cycle :: "('n, 'p) mem_env \<Rightarrow> bool \<Rightarrow> ('n, 'p) memsys \<Rightarrow> ('n, 'p) memsys res" where
  "mem_run_a_cycle e pll m =
     res_bind (run_level e pll MEM_LLC (ms_num_llc m) m) (\<lambda>m1.
     res_bind (run_level e pll MEM_L3 (ms_num_l3 m1) m1) (\<lambda>m2. Inr (m2\<lparr>ms_cycle := ms_cycle m2 + 1\<rparr>)))"

section \<open>Invalidation of a page\<close>

definition dcu_invalidate :: "MEMORY_TYPE \<Rightarrow> nat \<Rightarrow> Addr \<Rightarrow> ('n, 'p) memsys \<Rightarrow> ('n, 'p) memsys res" where
  "dcu_invalidate lv i a m =
     with_cache (dcu_at lv i m) (\<lambda>c. res_bind (invalidate_cache_line a c) (\<lambda>(_, c'). Inr (set_cache lv i c' m)))"

text \<open>The loop over the lines of the page, from where the address stands; a line size of 0 never gets to the end. The fuel is the
  number of bytes left plus one.\<close>

fun inval_loop :: "nat \<Rightarrow> MEMORY_TYPE \<Rightarrow> nat \<Rightarrow> Addr \<Rightarrow> Addr \<times> ('n, 'p) memsys \<Rightarrow> (Addr \<times> ('n, 'p) memsys) res" where
  "inval_loop fuel lv i end_addr (a, m) =
     (if a < end_addr
      then (case fuel of
              0 \<Rightarrow> Inl Diverges
            | Suc n \<Rightarrow> res_bind (dcu_invalidate lv i a m) (\<lambda>m1.
                inval_loop n lv i end_addr (a + of_nat (du_line_size (dcu_at lv i m)), m1)))
      else Inr (a, m))"

declare inval_loop.simps [simp del]

definition inval_unit :: "Addr \<Rightarrow> MEMORY_TYPE \<times> nat \<Rightarrow> Addr \<times> ('n, 'p) memsys \<Rightarrow> (Addr \<times> ('n, 'p) memsys) res" where
  "inval_unit end_addr = (\<lambda>(lv, i) (a, m). inval_loop (Suc (unat (end_addr - a))) lv i end_addr (a, m))"

text \<open>The units in the order in which each topology visits them. The address is set once, before the first unit.\<close>

definition inval_order :: "('n, 'p) memsys \<Rightarrow> (MEMORY_TYPE \<times> nat) list" where
  "inval_order m =
     (let cores = concat (map (\<lambda>i. [(MEM_L1, i), (MEM_L2, i)]) [0..<ms_num_core m]);
          l3 = map (Pair MEM_L3) [0..<ms_num_l3 m]; llc = map (Pair MEM_LLC) [0..<ms_num_llc m]
      in if ms_policy m = l2_decoupled_network then cores @ l3
         else if ms_policy m = igpu_network then l3 @ llc else cores @ l3 @ llc)"

definition invalidate :: "Addr \<Rightarrow> ('n, 'p) memsys \<Rightarrow> ('n, 'p) memsys res" where
  "invalidate page_addr m =
     res_bind (fold_res (inval_unit (page_addr + of_nat (ms_page_size m))) (inval_order m) (page_addr, m)) (\<lambda>(_, m1). Inr m1)"

section \<open>Construction\<close>

record mem_config =
  cfg_units :: "Unit_Type \<Rightarrow> MEMORY_TYPE \<Rightarrow> cache_cfg"
  cfg_num_large :: nat
  cfg_num_medium :: nat
  cfg_num_small :: nat
  cfg_num_l3 :: nat
  cfg_num_llc :: nat
  cfg_num_mc :: nat
  cfg_mshr_size :: nat
  cfg_page_size :: nat
  cfg_default_interleaving :: bool
  cfg_diff_granularity :: bool
  cfg_same_granularity :: bool
  cfg_rowbuffer_size :: nat
  cfg_num_banks :: nat

definition core_types :: "mem_config \<Rightarrow> Unit_Type list" where
  "core_types c = replicate (cfg_num_large c) UNIT_LARGE @ replicate (cfg_num_medium c) UNIT_MEDIUM @ replicate (cfg_num_small c) UNIT_SMALL"

definition pow_factor :: "nat \<Rightarrow> nat \<Rightarrow> nat" where
  "pow_factor a b = 2 ^ (unat (log2_int (of_nat a)) + unat (log2_int (of_nat b)))"

text \<open>The three interleaving factors (L3, LLC, memory controllers).\<close>

definition interleave_factors :: "mem_config \<Rightarrow> (nat \<times> nat \<times> nat) res" where
  "interleave_factors c =
     (let l3 = cfg_units c UNIT_LARGE MEM_L3; llc = cfg_units c UNIT_LARGE MEM_LLC; row = cfg_rowbuffer_size c in
      if cfg_default_interleaving c
      then Inr (pow_factor (cf_num_set l3) (cf_line_size l3), pow_factor (cf_num_set llc) (cf_line_size llc), pow_factor row (cfg_num_banks c))
      else if cfg_diff_granularity c then Inr (cf_line_size l3, cf_line_size llc, row)
      else if cfg_same_granularity c then Inr (row, row, row)
      else Inl AssertFailed)"

text \<open>The number of simulated cores is the sum of the three kinds. The last field of the pool is the heap, whose
  first addresses are the entries of the MSHRs.\<close>

definition memory_c :: "mem_config \<Rightarrow> memory_policy \<Rightarrow> dcu \<Rightarrow> ('n, 'p) memsys \<Rightarrow> ('n, 'p) memsys res" where
  "memory_c c pol jd junk =
     (let ts = core_types c; n = length ts; k = cfg_mshr_size c; unit = (\<lambda>i t lv noc. dcu_c (cfg_units c) (int i) t lv (int noc) jd);
          fresh = (\<lambda>r. if r < n * k then (mem_req_init (ms_reqs junk r))\<lparr>mr_merge := []\<rparr> else ms_reqs junk r)
      in res_bind (interleave_factors c) (\<lambda>(f3, fl, fd).
      Inr (junk\<lparr>ms_policy := pol, ms_num_core := n, ms_num_l3 := cfg_num_l3 c, ms_num_llc := cfg_num_llc c, ms_num_mc := cfg_num_mc c,
        ms_mshr := replicate n [], ms_mshr_free_list := map (\<lambda>i. [i * k..<i * k + k]) [0..<n],
        ms_reqs := fresh, ms_mem_req_pool := (pool_c 1)\<lparr>pool_next := n * k\<rparr>,
        ms_l1_cache := map (\<lambda>i. unit i (ts ! i) MEM_L1 i) [0..<n],
        ms_l2_cache := map (\<lambda>i. unit i (ts ! i) MEM_L2 (i + n)) [0..<n],
        ms_l3_cache := map (\<lambda>i. unit i UNIT_LARGE MEM_L3 (2 * n + i)) [0..<cfg_num_l3 c],
        ms_llc_cache := map (\<lambda>i. unit i UNIT_LARGE MEM_LLC (2 * n + cfg_num_l3 c + i)) [0..<cfg_num_llc c],
        ms_stop_prefetch := 0, ms_cycle := 0, ms_l3_interleave_factor := f3, ms_llc_interleave_factor := fl,
        ms_dram_interleave_factor := fd, ms_page_size := cfg_page_size c\<rparr>)))"

text \<open>The arguments of \<^verbatim>\<open>init\<close> for the unit \<open>i\<close> of a level: next and previous unit, done function, coupled up and
  down, disabled, router. The coupled and uncached topologies leave the units of the level L3 alone.\<close>

definition wiring :: "memory_policy \<Rightarrow> MEMORY_TYPE \<Rightarrow> int \<Rightarrow> (int \<times> int \<times> bool \<times> bool \<times> bool \<times> bool \<times> bool) option" where
  "wiring pol lv i =
     (case lv of
        MEM_L1 \<Rightarrow> Some (i, - 1, False, False, True, pol = no_cache \<or> pol = igpu_network, False)
      | MEM_L2 \<Rightarrow> (case pol of
            llc_coupled_network \<Rightarrow> Some (i, i, True, True, True, False, True)
          | llc_decoupled_network \<Rightarrow> Some (- 1, i, True, True, False, False, True)
          | l2_coupled_local \<Rightarrow> Some (i, i, True, True, True, False, True)
          | no_cache \<Rightarrow> Some (i, i, True, True, True, True, False)
          | l2_decoupled_network \<Rightarrow> Some (- 1, i, True, True, False, True, True)
          | l2_decoupled_local \<Rightarrow> Some (- 1, i, True, True, False, True, False)
          | igpu_network \<Rightarrow> Some (- 1, i, True, True, True, True, True))
      | MEM_L3 \<Rightarrow> (case pol of
            llc_decoupled_network \<Rightarrow> Some (- 1, - 1, False, False, False, True, True)
          | l2_decoupled_network \<Rightarrow> Some (- 1, - 1, False, False, False, True, True)
          | l2_decoupled_local \<Rightarrow> Some (- 1, - 1, False, False, False, True, True)
          | igpu_network \<Rightarrow> Some (- 1, - 1, False, False, False, False, True)
          | _ \<Rightarrow> None)
      | MEM_LLC \<Rightarrow> (case pol of
            llc_coupled_network \<Rightarrow> Some (- 1, i, False, True, False, False, True)
          | l2_coupled_local \<Rightarrow> Some (- 1, i, False, True, False, True, True)
          | no_cache \<Rightarrow> Some (- 1, i, False, True, False, True, True)
          | _ \<Rightarrow> Some (- 1, - 1, False, False, False, False, True))
      | MEM_MC \<Rightarrow> None)"

definition wire :: "(dcu \<Rightarrow> dcache_data cache) \<Rightarrow> memory_policy \<Rightarrow> dcu \<Rightarrow> dcu" where
  "wire new_cache pol d = (case wiring pol (du_level d) (du_id d) of None \<Rightarrow> d
     | Some (nx, pv, dn, up, down, dis, rtr) \<Rightarrow> dcu_init new_cache nx pv dn up down dis rtr d)"

definition memory_new ::
  "mem_config \<Rightarrow> memory_policy \<Rightarrow> (dcu \<Rightarrow> dcache_data cache) \<Rightarrow> dcu \<Rightarrow> ('n, 'p) memsys \<Rightarrow> ('n, 'p) memsys res" where
  "memory_new c pol new_cache jd junk =
     res_bind (memory_c c pol jd junk) (\<lambda>m.
     check (pol \<in> {llc_coupled_network, l2_coupled_local, no_cache} \<longrightarrow> ms_num_core m = ms_num_llc m) AssertFailed
     (let w = map (wire new_cache pol) in
      Inr (m\<lparr>ms_l1_cache := w (ms_l1_cache m), ms_l2_cache := w (ms_l2_cache m), ms_l3_cache := w (ms_l3_cache m),
             ms_llc_cache := w (ms_llc_cache m)\<rparr>)))"

section \<open>The interface of the execution stage\<close>

text \<open>\<^verbatim>\<open>evict_prefetch\<close> takes a prefetch from the input queue of the second level.\<close>

definition evict_prefetch :: "nat \<Rightarrow> ('n, 'p) memsys \<Rightarrow> ptr \<times> ('n, 'p) memsys" where
  "evict_prefetch core m = search_pref_in_queue MEM_L2 core m"

definition mem_get_read_port :: "int \<Rightarrow> nat \<Rightarrow> ('n, 'p) memsys \<Rightarrow> (bool \<times> ('n, 'p) memsys) res" where
  "mem_get_read_port core bank m =
     res_bind (find_dcu (Some MEM_L1) core m) (\<lambda>(lv, i). get_port False lv i bank (du_cycle (dcu_at lv i m)) m)"

definition set_uops :: "(addr \<Rightarrow> uop) \<Rightarrow> ('n, 'p) memsys \<Rightarrow> ('n, 'p) memsys" where
  "set_uops us m = m\<lparr>ms_MMU := (ms_MMU m)\<lparr>mm_uops := us\<rparr>\<rparr>"

text \<open>The lookup in the first-level cache of a core does not update its replacement state.\<close>

definition mem_access_cache :: "('n, 'p) mem_env \<Rightarrow> int \<Rightarrow> Addr \<Rightarrow> ('n, 'p) memsys \<Rightarrow> (bool \<times> ('n, 'p) memsys) res" where
  "mem_access_cache e core a m =
     res_bind (find_dcu (Some MEM_L1) core m) (\<lambda>(lv, i).
     res_bind (dcu_lookup e lv i a False m) (\<lambda>(_, line, m1). Inr (line \<noteq> None, m1)))"

definition memory_ops :: "('n, 'p) mem_env \<Rightarrow> ('n, 'p) memsys mem_ops" where
  "memory_ops e =
     \<lparr>mo_access = (\<lambda>a us m. res_bind (mem_access_uop e a (set_uops us m)) (\<lambda>(l, m1). Inr (l, ms_uops m1, m1))),
      mo_new_mem_req = (\<lambda>r us m. new_mem_req e r (set_uops us m)),
      mo_access_cache = mem_access_cache e,
      mo_free_req = (\<lambda>core r m. free_req (run_done e) core r m),
      mo_num_avail_entry = (\<lambda>core m. get_num_avail_entry (nat core) m)\<rparr>"

end
