(* ===== verification/MemInv.thy ===== *)
theory MemInv
  imports MemUnit
begin

text \<open>
  Lemmas of the memory hierarchy: the access functions of the state, the order and the bound of the queues, the
  partition of the requests into the MSHRs and their free lists, and the paths on which requests are released,
  retried and invalidated.
\<close>

section \<open>The access functions\<close>

lemma caches_upd_dcu [simp]:
  "caches lv (upd_dcu lv' i f m) = (if lv = lv' then (caches lv m)[i := f (caches lv m ! i)] else caches lv m)"
  by (cases lv; cases lv') (simp_all add: upd_dcu_def caches_def Let_def)

lemma length_caches_upd_dcu [simp]: "length (caches lv (upd_dcu lv' i f m)) = length (caches lv m)"
  by simp

lemma dcu_at_upd_dcu:
  "dcu_at lv i (upd_dcu lv' j f m) = (if lv = lv' \<and> i = j \<and> i < length (caches lv m) then f (dcu_at lv i m) else dcu_at lv i m)"
  by (cases "i = j") (auto simp add: dcu_at_def list_update_beyond)

lemma dcu_at_upd_same [simp]: "i < length (caches lv m) \<Longrightarrow> dcu_at lv i (upd_dcu lv i f m) = f (dcu_at lv i m)"
  by (simp add: dcu_at_upd_dcu)

lemma dcu_at_upd_other [simp]: "lv \<noteq> lv' \<or> i \<noteq> j \<Longrightarrow> dcu_at lv i (upd_dcu lv' j f m) = dcu_at lv i m"
  by (auto simp add: dcu_at_upd_dcu)

text \<open>A unit update leaves the rest of the state.\<close>

lemma upd_dcu_rest [simp]:
  "ms_policy (upd_dcu lv i f m) = ms_policy m" "ms_mshr (upd_dcu lv i f m) = ms_mshr m"
  "ms_mshr_free_list (upd_dcu lv i f m) = ms_mshr_free_list m" "ms_num_core (upd_dcu lv i f m) = ms_num_core m"
  "ms_num_l3 (upd_dcu lv i f m) = ms_num_l3 m" "ms_num_llc (upd_dcu lv i f m) = ms_num_llc m"
  "ms_num_mc (upd_dcu lv i f m) = ms_num_mc m" "ms_unique_id (upd_dcu lv i f m) = ms_unique_id m"
  "ms_stop_prefetch (upd_dcu lv i f m) = ms_stop_prefetch m" "ms_cycle (upd_dcu lv i f m) = ms_cycle m"
  "ms_page_size (upd_dcu lv i f m) = ms_page_size m" "ms_mem_req_pool (upd_dcu lv i f m) = ms_mem_req_pool m"
  "ms_reqs (upd_dcu lv i f m) = ms_reqs m" "ms_MMU (upd_dcu lv i f m) = ms_MMU m"
  "ms_frontend (upd_dcu lv i f m) = ms_frontend m" "ms_network (upd_dcu lv i f m) = ms_network m" "ms_pref (upd_dcu lv i f m) = ms_pref m"
  by (cases lv; simp add: upd_dcu_def Let_def)+

text \<open>The caches of a state that differs in other fields.\<close>

lemma caches_rest [simp]:
  "caches lv (m\<lparr>ms_reqs := rs\<rparr>) = caches lv m" "caches lv (m\<lparr>ms_MMU := mm\<rparr>) = caches lv m"
  "caches lv (m\<lparr>ms_mshr := x\<rparr>) = caches lv m" "caches lv (m\<lparr>ms_mshr_free_list := y\<rparr>) = caches lv m"
  "caches lv (m\<lparr>ms_mem_req_pool := p\<rparr>) = caches lv m" "caches lv (m\<lparr>ms_unique_id := u\<rparr>) = caches lv m"
  "caches lv (m\<lparr>ms_stop_prefetch := c\<rparr>) = caches lv m" "caches lv (m\<lparr>ms_cycle := c\<rparr>) = caches lv m"
  "caches lv (m\<lparr>ms_frontend := fr\<rparr>) = caches lv m" "caches lv (m\<lparr>ms_network := n\<rparr>) = caches lv m"
  "caches lv (m\<lparr>ms_pref := q\<rparr>) = caches lv m"
  by (cases lv; simp add: caches_def)+

lemma caches_upd_req [simp]: "caches lv (upd_req r f m) = caches lv m"
  by (simp add: upd_req_def)

lemma caches_put_uop [simp]: "caches lv (put_uop a f m) = caches lv m"
  by (simp add: put_uop_def)

lemma dcu_at_rest [simp]:
  "dcu_at lv i (m\<lparr>ms_reqs := rs\<rparr>) = dcu_at lv i m" "dcu_at lv i (m\<lparr>ms_MMU := mm\<rparr>) = dcu_at lv i m"
  "dcu_at lv i (m\<lparr>ms_mshr := x\<rparr>) = dcu_at lv i m" "dcu_at lv i (m\<lparr>ms_mshr_free_list := y\<rparr>) = dcu_at lv i m"
  "dcu_at lv i (m\<lparr>ms_mem_req_pool := p\<rparr>) = dcu_at lv i m" "dcu_at lv i (m\<lparr>ms_unique_id := u\<rparr>) = dcu_at lv i m"
  "dcu_at lv i (m\<lparr>ms_stop_prefetch := c\<rparr>) = dcu_at lv i m" "dcu_at lv i (m\<lparr>ms_cycle := c\<rparr>) = dcu_at lv i m"
  "dcu_at lv i (m\<lparr>ms_frontend := fr\<rparr>) = dcu_at lv i m" "dcu_at lv i (m\<lparr>ms_network := n\<rparr>) = dcu_at lv i m"
  "dcu_at lv i (m\<lparr>ms_pref := q\<rparr>) = dcu_at lv i m"
  "dcu_at lv i (upd_req r f m) = dcu_at lv i m" "dcu_at lv i (put_uop a g m) = dcu_at lv i m"
  by (simp_all add: dcu_at_def)

lemma ms_reqs_upd_req [simp]: "ms_reqs (upd_req r f m) = (ms_reqs m)(r := f (ms_reqs m r))"
  by (simp add: upd_req_def)

lemma upd_req_rest [simp]:
  "ms_policy (upd_req r f m) = ms_policy m" "ms_mshr (upd_req r f m) = ms_mshr m"
  "ms_mshr_free_list (upd_req r f m) = ms_mshr_free_list m" "ms_num_core (upd_req r f m) = ms_num_core m"
  "ms_stop_prefetch (upd_req r f m) = ms_stop_prefetch m" "ms_cycle (upd_req r f m) = ms_cycle m"
  "ms_page_size (upd_req r f m) = ms_page_size m" "ms_mem_req_pool (upd_req r f m) = ms_mem_req_pool m"
  "ms_MMU (upd_req r f m) = ms_MMU m" "ms_unique_id (upd_req r f m) = ms_unique_id m"
  "ms_frontend (upd_req r f m) = ms_frontend m" "ms_network (upd_req r f m) = ms_network m" "ms_pref (upd_req r f m) = ms_pref m"
  by (simp_all add: upd_req_def)

lemma put_uop_rest [simp]:
  "ms_policy (put_uop r f m) = ms_policy m" "ms_mshr (put_uop r f m) = ms_mshr m"
  "ms_mshr_free_list (put_uop r f m) = ms_mshr_free_list m" "ms_num_core (put_uop r f m) = ms_num_core m"
  "ms_stop_prefetch (put_uop r f m) = ms_stop_prefetch m" "ms_cycle (put_uop r f m) = ms_cycle m"
  "ms_page_size (put_uop r f m) = ms_page_size m" "ms_mem_req_pool (put_uop r f m) = ms_mem_req_pool m"
  "ms_reqs (put_uop r f m) = ms_reqs m" "ms_unique_id (put_uop r f m) = ms_unique_id m"
  "ms_frontend (put_uop r f m) = ms_frontend m" "ms_network (put_uop r f m) = ms_network m" "ms_pref (put_uop r f m) = ms_pref m"
  by (simp_all add: put_uop_def)

lemma get_queue_upd_queue [simp]:
  "get_queue q (upd_queue q' f d) = (if q = q' then (get_queue q d)\<lparr>q_entry := f (q_entry (get_queue q d))\<rparr> else get_queue q d)"
  by (cases q; cases q') (simp_all add: get_queue_def upd_queue_def Let_def)

lemma upd_queue_rest [simp]:
  "du_id (upd_queue q f d) = du_id d" "du_level (upd_queue q f d) = du_level d" "du_disable (upd_queue q f d) = du_disable d"
  "du_bypass (upd_queue q f d) = du_bypass d" "du_cache (upd_queue q f d) = du_cache d" "du_port (upd_queue q f d) = du_port d"
  "du_retry_queue (upd_queue q f d) = du_retry_queue d" "du_cycle (upd_queue q f d) = du_cycle d"
  "du_latency (upd_queue q f d) = du_latency d" "du_banks (upd_queue q f d) = du_banks d" "du_line_size (upd_queue q f d) = du_line_size d"
  "du_acc_sim (upd_queue q f d) = du_acc_sim d" "du_igpu_sim (upd_queue q f d) = du_igpu_sim d" "du_done (upd_queue q f d) = du_done d"
  by (cases q; simp add: upd_queue_def Let_def)+

section \<open>The order of a queue\<close>

text \<open>The class of a request under the priority knobs: the favoured kind of core comes first.\<close>

definition req_rank :: "mem_knobs \<Rightarrow> mem_req \<Rightarrow> int" where
  "req_rank k x =
     (if KNOB_HETERO_MEM_PRIORITY_CPU k then (if mr_acc x then 1 else 0)
      else if KNOB_HETERO_MEM_PRIORITY_GPU k then (if mr_acc x then 0 else 1) else 0) * 2 ^ 64 - uint (mr_priority x)"

lemma sort_func_rank: "sort_func k rs a b \<longleftrightarrow> req_rank k (rs a) < req_rank k (rs b)"
proof -
  obtain p q where pq: "p = uint (mr_priority (rs a))" "q = uint (mr_priority (rs b))" by blast
  then have "0 \<le> p" "p < 2 ^ 64" "0 \<le> q" "q < 2 ^ 64"
    using uint_bounded[of "mr_priority (rs a)"] uint_bounded[of "mr_priority (rs b)"] by simp_all
  then show ?thesis
    by (simp add: sort_func_def req_rank_def Let_def word_less_def flip: pq) linarith?
qed

lemma list_sort_rank: "list_sort (sort_func k rs) xs = sort_key (\<lambda>r. req_rank k (rs r)) xs"
  by (rule list_sort_key) (simp add: sort_func_rank)

text \<open>What \<^verbatim>\<open>push\<close> does to the queue it is called on, and that it leaves the others.\<close>

lemma queue_push_full: "queue_full (get_queue q (dcu_at lv i m)) \<Longrightarrow> queue_push k lv i q r m = (False, m)"
  by (simp add: queue_push_def)

lemma queue_push_room:
  assumes "\<not> queue_full (get_queue q (dcu_at lv i m))"
  shows "queue_push k lv i q r m =
    (True, upd_dcu lv i (upd_queue q (\<lambda>l. sort_key (\<lambda>r. req_rank k (ms_reqs m r)) (l @ [r])))
       (upd_req r (\<lambda>x. x\<lparr>mr_queue := Some (queue_ptr lv i q)\<rparr>) m))"
proof -
  have "req_rank k (((ms_reqs m)(r := (ms_reqs m r)\<lparr>mr_queue := p\<rparr>)) x) = req_rank k (ms_reqs m x)" for p x
    by (simp add: req_rank_def)
  then show ?thesis
    using assms by (simp add: queue_push_def Let_def list_sort_rank)
qed

text \<open>C37. A queue of the memory hierarchy accepts a request exactly while it holds fewer than its capacity. The requests
  are then those of a stable sort by class and priority: the favoured kind of core first, the higher priority first, and
  requests of the same class and priority in the order of their arrival. A full queue is left alone, the capacity is
  never exceeded, and no other queue, cache or MSHR changes.\<close>

theorem queue_push_priority_fifo:
  assumes "i < length (caches lv m)" and "length (q_entry (get_queue q (dcu_at lv i m))) \<le> q_size (get_queue q (dcu_at lv i m))"
  shows "case queue_push k lv i q r m of (ok, m') \<Rightarrow>
     (ok \<longleftrightarrow> length (q_entry (get_queue q (dcu_at lv i m))) < q_size (get_queue q (dcu_at lv i m)))
   \<and> q_entry (get_queue q (dcu_at lv i m')) =
       (if ok then sort_key (\<lambda>x. req_rank k (ms_reqs m x)) (q_entry (get_queue q (dcu_at lv i m)) @ [r])
        else q_entry (get_queue q (dcu_at lv i m)))
   \<and> length (q_entry (get_queue q (dcu_at lv i m'))) \<le> q_size (get_queue q (dcu_at lv i m'))
   \<and> (\<forall>lv' j q'. (lv', j, q') \<noteq> (lv, i, q) \<longrightarrow> get_queue q' (dcu_at lv' j m') = get_queue q' (dcu_at lv' j m))
   \<and> (\<forall>lv' j. du_cache (dcu_at lv' j m') = du_cache (dcu_at lv' j m))
   \<and> ms_mshr m' = ms_mshr m"
proof (cases "queue_full (get_queue q (dcu_at lv i m))")
  case True
  then show ?thesis
    using assms by (simp add: queue_push_full) (simp add: queue_full_def)
next
  case False
  then have "length (q_entry (get_queue q (dcu_at lv i m))) < q_size (get_queue q (dcu_at lv i m))"
    using assms(2) by (simp add: queue_full_def)
  then show ?thesis
    using assms(1) by (simp add: queue_push_room[OF False] dcu_at_upd_dcu)
qed

section \<open>The requests of the MSHRs\<close>

text \<open>The entries of a core, in use and free.\<close>

definition core_entries :: "nat \<Rightarrow> ('n, 'p) memsys \<Rightarrow> addr multiset" where
  "core_entries c m = mset (ms_mshr m ! c) + mset (ms_mshr_free_list m ! c)"

text \<open>All entries in use, and all free ones.\<close>

definition pending :: "('n, 'p) memsys \<Rightarrow> addr set" where
  "pending m = set (concat (ms_mshr m))"

definition idle :: "('n, 'p) memsys \<Rightarrow> addr set" where
  "idle m = set (concat (ms_mshr_free_list m))"

text \<open>Every core has its own entries, each either free or in use once; a free entry has no requests merged into it, and
  no entry is a write-back.\<close>

definition mshr_ok :: "('n, 'p) memsys \<Rightarrow> bool" where
  "mshr_ok m \<longleftrightarrow> length (ms_mshr m) = ms_num_core m \<and> length (ms_mshr_free_list m) = ms_num_core m
     \<and> distinct (concat (ms_mshr m) @ concat (ms_mshr_free_list m))
     \<and> (\<forall>r\<in>idle m. mr_merge (ms_reqs m r) = []) \<and> (\<forall>r\<in>pending m \<union> idle m. mr_type (ms_reqs m r) \<noteq> MRT_WB)"

lemma mset_concat_nth: "mset (concat xs) = (\<Sum>c<length xs. mset (xs ! c))"
  by (induction xs rule: rev_induct) (simp_all add: nth_append)

lemma mset_entries:
  assumes "length (ms_mshr m) = ms_num_core m" "length (ms_mshr_free_list m) = ms_num_core m"
  shows "mset (concat (ms_mshr m) @ concat (ms_mshr_free_list m)) = (\<Sum>c<ms_num_core m. core_entries c m)"
  using assms by (simp add: mset_concat_nth core_entries_def sum.distrib)

text \<open>A step that keeps the entries of every core keeps them distinct.\<close>

lemma distinct_entries_keep:
  assumes "length (ms_mshr m) = ms_num_core m" "length (ms_mshr_free_list m) = ms_num_core m"
    and "length (ms_mshr m') = ms_num_core m" "length (ms_mshr_free_list m') = ms_num_core m" "ms_num_core m' = ms_num_core m"
    and "\<And>c. c < ms_num_core m \<Longrightarrow> core_entries c m' = core_entries c m"
  shows "distinct (concat (ms_mshr m') @ concat (ms_mshr_free_list m')) = distinct (concat (ms_mshr m) @ concat (ms_mshr_free_list m))"
  using assms mset_entries[of m] mset_entries[of m'] by (intro mset_eq_imp_distinct_iff) simp

lemma in_concat_nth: "c < length xs \<Longrightarrow> r \<in> set (xs ! c) \<Longrightarrow> r \<in> set (concat xs)"
  using nth_mem[of c xs] by auto

lemma in_concat_iff: "length xs = n \<Longrightarrow> x \<in> set (concat xs) \<longleftrightarrow> (\<exists>c<n. x \<in> set (xs ! c))"
  by (auto simp add: in_set_conv_nth[of _ xs] dest: nth_mem)

lemma pending_iff: "length (ms_mshr m) = n \<Longrightarrow> x \<in> pending m \<longleftrightarrow> (\<exists>c<n. x \<in> set (ms_mshr m ! c))"
  unfolding pending_def by (rule in_concat_iff)

lemma idle_iff: "length (ms_mshr_free_list m) = n \<Longrightarrow> x \<in> idle m \<longleftrightarrow> (\<exists>c<n. x \<in> set (ms_mshr_free_list m ! c))"
  unfolding idle_def by (rule in_concat_iff)

lemma mshr_okD:
  assumes "mshr_ok m" "c < ms_num_core m"
  shows "distinct (ms_mshr m ! c)" "distinct (ms_mshr_free_list m ! c)" "c < length (ms_mshr m)" "c < length (ms_mshr_free_list m)"
  using assms by (auto simp add: mshr_ok_def distinct_concat_iff)

lemma mshr_ok_lengths:
  "mshr_ok m \<Longrightarrow> length (ms_mshr m) = ms_num_core m" "mshr_ok m \<Longrightarrow> length (ms_mshr_free_list m) = ms_num_core m"
  "mshr_ok m \<Longrightarrow> pending m \<inter> idle m = {}"
  by (simp_all add: mshr_ok_def pending_def idle_def)

lemma mshr_ok_entry:
  assumes "mshr_ok m" "c < ms_num_core m" "r \<in> set (ms_mshr m ! c)"
  shows "r \<in> pending m" "r \<notin> idle m" "mr_type (ms_reqs m r) \<noteq> MRT_WB"
proof -
  show 1: "r \<in> pending m" using assms pending_iff[OF mshr_ok_lengths(1)] by blast
  then show "r \<notin> idle m" using mshr_ok_lengths(3)[OF assms(1)] by blast
  show "mr_type (ms_reqs m r) \<noteq> MRT_WB" using 1 assms(1) by (simp add: mshr_ok_def)
qed

lemma mset_removeAll_entry: "distinct xs \<Longrightarrow> mset (removeAll r xs) = mset xs - (if r \<in> set xs then {#r#} else {#})"
  by (induction xs) auto

text \<open>The release of an entry of the core \<open>c\<close> that no request is merged into.\<close>

definition release :: "nat \<Rightarrow> addr \<Rightarrow> ('n, 'p) memsys \<Rightarrow> ('n, 'p) memsys" where
  "release c r m = (upd_req r mem_req_init m)\<lparr>ms_mshr := (ms_mshr m)[c := removeAll r (ms_mshr m ! c)],
     ms_mshr_free_list := (ms_mshr_free_list m)[c := ms_mshr_free_list m ! c @ [r]]\<rparr>"

lemma free_req_release:
  assumes "mr_merge (ms_reqs m r) = []" "mr_type (ms_reqs m r) \<noteq> MRT_WB" "c < length (ms_mshr m)"
  shows "free_req cb (int c) r m = Inr (release c r m)"
  using assms by (simp add: free_req_def release_def Let_def upd_req_def)

lemma mem_req_init_merge [simp]: "mr_merge (mem_req_init x) = mr_merge x" "mr_type (mem_req_init x) = MRT_IFETCH"
  by (simp_all add: mem_req_init_def)

lemma core_entries_release:
  assumes "mshr_ok m" "c < ms_num_core m" "r \<in> set (ms_mshr m ! c)" "c' < ms_num_core m"
  shows "core_entries c' (release c r m) = core_entries c' m"
  using assms mshr_okD[OF assms(1,2)] mset_removeAll_entry[of "ms_mshr m ! c" r]
  by (auto simp add: core_entries_def release_def nth_list_update mset_removeAll_entry)

lemma release_mshr_ok:
  assumes "mshr_ok m" "c < ms_num_core m" "r \<in> set (ms_mshr m ! c)" "mr_merge (ms_reqs m r) = []"
  shows "mshr_ok (release c r m)"
proof -
  have len: "length (ms_mshr m) = ms_num_core m" "length (ms_mshr_free_list m) = ms_num_core m" using assms(1) by (simp_all add: mshr_ok_def)
  have d: "distinct (concat (ms_mshr (release c r m)) @ concat (ms_mshr_free_list (release c r m)))"
    using distinct_entries_keep[of m "release c r m"] core_entries_release[OF assms(1-3)] assms(1) len
    by (simp add: mshr_ok_def release_def)
  have s: "pending (release c r m) \<subseteq> pending m" "idle (release c r m) \<subseteq> insert r (idle m)"
    using assms(2) len
    by (auto simp add: subset_iff pending_iff[of _ "ms_num_core m"] idle_iff[of _ "ms_num_core m"] release_def nth_list_update split: if_splits)
  have e: "mr_merge (ms_reqs (release c r m) x) = mr_merge (ms_reqs m x)"
    "mr_type (ms_reqs (release c r m) x) \<noteq> MRT_WB \<longleftrightarrow> x = r \<or> mr_type (ms_reqs m x) \<noteq> MRT_WB" for x
    by (simp_all add: release_def)
  show ?thesis
    using assms d s e mshr_ok_entry(1)[OF assms(1-3)] len unfolding mshr_ok_def
    by (auto simp add: release_def simp del: distinct_append)
qed

section \<open>What the handling of requests leaves\<close>

text \<open>A unit without its queues, and the state without the queues, the MSHRs and the requests.\<close>

definition dcu_view :: "dcu \<Rightarrow> dcu" where
  "dcu_view d = (let q = \<lparr>q_entry = [], q_size = 0\<rparr> in
     d\<lparr>du_in_queue := q\<lparr>q_size := q_size (du_in_queue d)\<rparr>, du_wb_queue := q\<lparr>q_size := q_size (du_wb_queue d)\<rparr>,
       du_fill_queue := q\<lparr>q_size := q_size (du_fill_queue d)\<rparr>, du_out_queue := q\<lparr>q_size := q_size (du_out_queue d)\<rparr>,
       du_retry_queue := []\<rparr>)"

definition mem_rest :: "('n, 'p) memsys \<Rightarrow> ('n, 'p) memsys" where
  "mem_rest m = m\<lparr>ms_l1_cache := map dcu_view (ms_l1_cache m), ms_l2_cache := map dcu_view (ms_l2_cache m),
     ms_l3_cache := map dcu_view (ms_l3_cache m), ms_llc_cache := map dcu_view (ms_llc_cache m), ms_mshr := [],
     ms_mshr_free_list := [], ms_unique_id := 0, ms_stop_prefetch := 0, ms_mem_req_pool := pool_c 0, ms_reqs := (\<lambda>_. clear_req)\<rparr>"

lemma mem_rest_upd_req [simp]: "mem_rest (upd_req r f m) = mem_rest m"
  by (simp add: mem_rest_def upd_req_def)

lemma mem_rest_fields [simp]:
  "mem_rest (m\<lparr>ms_mshr := x\<rparr>) = mem_rest m" "mem_rest (m\<lparr>ms_mshr_free_list := y\<rparr>) = mem_rest m"
  "mem_rest (m\<lparr>ms_unique_id := u\<rparr>) = mem_rest m" "mem_rest (m\<lparr>ms_stop_prefetch := c\<rparr>) = mem_rest m"
  "mem_rest (m\<lparr>ms_mem_req_pool := p\<rparr>) = mem_rest m" "mem_rest (m\<lparr>ms_reqs := rs\<rparr>) = mem_rest m"
  by (simp_all add: mem_rest_def)

lemma map_update_same: "f y = f (xs ! i) \<Longrightarrow> map f (xs[i := y]) = map f xs"
  by (metis list_update_id map_update)

lemma mem_rest_upd_dcu:
  assumes "\<And>d. dcu_view (f d) = dcu_view d"
  shows "mem_rest (upd_dcu lv i f m) = mem_rest m"
  using assms by (cases lv) (simp_all add: mem_rest_def upd_dcu_def caches_def Let_def map_update_same)

lemma dcu_view_upd_queue [simp]: "dcu_view (upd_queue q f d) = dcu_view d"
  by (cases q) (simp_all add: dcu_view_def upd_queue_def Let_def)

lemma dcu_view_retry [simp]: "dcu_view (d\<lparr>du_retry_queue := x\<rparr>) = dcu_view d"
  by (simp add: dcu_view_def Let_def)

lemma mem_rest_queue_pop [simp]: "mem_rest (queue_pop lv i q r m) = mem_rest m"
  by (simp add: queue_pop_def mem_rest_upd_dcu)

lemma mem_rest_queue_push [simp]: "mem_rest (snd (queue_push k lv i q r m)) = mem_rest m"
  by (simp add: queue_push_def Let_def mem_rest_upd_dcu)

lemma mem_rest_insert_req [simp]: "mem_rest (snd (insert_req k lv i r m)) = mem_rest m"
  using mem_rest_queue_push[of k lv i In_Queue r m]
  by (cases "queue_push k lv i In_Queue r m") (auto simp add: insert_req_def Let_def mem_rest_upd_dcu)

lemma mem_rest_release [simp]: "mem_rest (release c r m) = mem_rest m"
  by (simp add: release_def)

lemma mem_restD:
  assumes "mem_rest m' = mem_rest m"
  shows "ms_num_core m' = ms_num_core m" "ms_MMU m' = ms_MMU m" "ms_policy m' = ms_policy m" "ms_cycle m' = ms_cycle m"
    "ms_frontend m' = ms_frontend m" "ms_network m' = ms_network m" "ms_pref m' = ms_pref m"
    "map dcu_view (caches lv m') = map dcu_view (caches lv m)" "length (caches lv m') = length (caches lv m)"
proof -
  have *: "F (mem_rest m') = F (mem_rest m)" for F :: "('a, 'b) memsys \<Rightarrow> 'z" using assms by simp
  show "ms_num_core m' = ms_num_core m" "ms_policy m' = ms_policy m" "ms_cycle m' = ms_cycle m" "ms_frontend m' = ms_frontend m"
    "ms_network m' = ms_network m" "ms_pref m' = ms_pref m" "ms_MMU m' = ms_MMU m"
    using *[of ms_num_core] *[of ms_policy] *[of ms_cycle] *[of ms_frontend] *[of ms_network] *[of ms_pref] *[of ms_MMU]
    by (simp_all add: mem_rest_def)
  show 1: "map dcu_view (caches lv m') = map dcu_view (caches lv m)"
    using *[of ms_l1_cache] *[of ms_l2_cache] *[of ms_l3_cache] *[of ms_llc_cache]
    by (cases lv) (simp_all add: mem_rest_def caches_def)
  then show "length (caches lv m') = length (caches lv m)" by (metis length_map)
qed

section \<open>Flushing the prefetches\<close>

text \<open>The requests \<open>D\<close> of the MSHRs are released, the others stay where they are.\<close>

definition flushed :: "addr set \<Rightarrow> ('n, 'p) memsys \<Rightarrow> ('n, 'p) memsys \<Rightarrow> bool" where
  "flushed D m m' \<longleftrightarrow> mshr_ok m' \<and> mem_rest m' = mem_rest m \<and> (\<forall>c<ms_num_core m. core_entries c m' = core_entries c m)
     \<and> (\<forall>x. x \<notin> D \<longrightarrow> ms_reqs m' x = ms_reqs m x
          \<and> (\<forall>c<ms_num_core m. x \<in> set (ms_mshr m' ! c) \<longleftrightarrow> x \<in> set (ms_mshr m ! c))
          \<and> (\<forall>lv i q. count_list (q_entry (get_queue q (dcu_at lv i m'))) x = count_list (q_entry (get_queue q (dcu_at lv i m))) x))
     \<and> (\<forall>lv i. du_retry_queue (dcu_at lv i m') = du_retry_queue (dcu_at lv i m))"

lemma flushed_refl: "mshr_ok m \<Longrightarrow> flushed D m m"
  by (simp add: flushed_def)

lemma flushed_trans:
  assumes "flushed D m m1" "flushed E m1 m2" "D \<subseteq> F" "E \<subseteq> F"
  shows "flushed F m m2"
proof -
  have "ms_num_core m1 = ms_num_core m" using mem_restD(1) assms(1) by (auto simp add: flushed_def)
  moreover have "x \<notin> D \<and> x \<notin> E" if "x \<notin> F" for x using assms(3,4) that by auto
  ultimately show ?thesis using assms(1,2) unfolding flushed_def by simp
qed

lemma count_list_removeAll: "r \<noteq> x \<Longrightarrow> count_list (removeAll r xs) x = count_list xs x"
  by (induction xs) auto

lemma queue_pop_count:
  "r \<noteq> x \<Longrightarrow> count_list (q_entry (get_queue q (dcu_at lv i (queue_pop lv' j q' r m)))) x
             = count_list (q_entry (get_queue q (dcu_at lv i m))) x"
  by (simp add: queue_pop_def dcu_at_upd_dcu count_list_removeAll)

lemma queue_pop_rest [simp]:
  "ms_mshr (queue_pop lv i q r m) = ms_mshr m" "ms_mshr_free_list (queue_pop lv i q r m) = ms_mshr_free_list m"
  "ms_reqs (queue_pop lv i q r m) = ms_reqs m" "ms_num_core (queue_pop lv i q r m) = ms_num_core m"
  "du_retry_queue (dcu_at lv' j (queue_pop lv i q r m)) = du_retry_queue (dcu_at lv' j m)"
  by (simp_all add: queue_pop_def dcu_at_upd_dcu)

lemma mshr_ok_cong:
  "ms_mshr m' = ms_mshr m \<Longrightarrow> ms_mshr_free_list m' = ms_mshr_free_list m \<Longrightarrow> ms_num_core m' = ms_num_core m \<Longrightarrow>
   (\<And>r. mr_merge (ms_reqs m' r) = mr_merge (ms_reqs m r)) \<Longrightarrow> (\<And>r. mr_type (ms_reqs m' r) = mr_type (ms_reqs m r)) \<Longrightarrow>
   mshr_ok m' = mshr_ok m"
  by (simp add: mshr_ok_def pending_def idle_def)

lemma flush_one_ok:
  assumes "mshr_ok m" "c < ms_num_core m" "r \<in> set (ms_mshr m ! c)" "mr_merge (ms_reqs m r) = []"
  obtains m' where "flush_one e c r m = Inr m'" "flushed {r} m m'"
proof (cases "mr_queue (ms_reqs m r)")
  case None
  then show ?thesis using assms(1) by (intro that[of m]) (simp_all add: flush_one_def flushed_refl)
next
  case (Some p)
  let ?m1 = "queue_pop (ptr_level p) (ptr_index p) (ptr_kind p) r m"
  have ok: "mshr_ok ?m1" using assms(1) mshr_ok_cong[of ?m1 m] by simp
  have "flush_one e c r m = Inr (release c r ?m1)"
    using Some assms mshr_ok_entry(3)[OF assms(1-3)] mshr_okD(3)[OF assms(1,2)]
    by (simp add: flush_one_def free_req_release)
  moreover have "flushed {r} m (release c r ?m1)"
  proof -
    have a: "mshr_ok (release c r ?m1)" using release_mshr_ok[OF ok] assms by simp
    have b: "core_entries c' (release c r ?m1) = core_entries c' m" if c': "c' < ms_num_core m" for c'
    proof -
      have "core_entries c' ?m1 = core_entries c' m" by (simp add: core_entries_def)
      then show ?thesis using core_entries_release[OF ok, of c r c'] assms c' by simp
    qed
    show ?thesis unfolding flushed_def using a b assms mshr_okD(3)[OF assms(1,2)]
      by (auto simp add: release_def queue_pop_count nth_list_update)
  qed
  ultimately show ?thesis by (rule that)
qed

lemma flush_loop_ok:
  assumes "mshr_ok m" "c < ms_num_core m" "distinct ps" "\<forall>r\<in>set ps. r \<in> set (ms_mshr m ! c) \<and> mr_merge (ms_reqs m r) = []"
  shows "\<exists>m'. fold_res (flush_one e c) ps m = Inr m' \<and> flushed (set ps) m m'"
  using assms
proof (induction ps arbitrary: m)
  case Nil
  then show ?case by (simp add: flushed_refl)
next
  case (Cons r ps)
  obtain m1 where m1: "flush_one e c r m = Inr m1" "flushed {r} m m1"
    using flush_one_ok[of m c r e] Cons.prems by auto
  have n: "ms_num_core m1 = ms_num_core m" using mem_restD(1) m1(2) by (auto simp add: flushed_def)
  have "\<forall>x\<in>set ps. x \<in> set (ms_mshr m1 ! c) \<and> mr_merge (ms_reqs m1 x) = []"
    using Cons.prems m1(2) by (auto simp add: flushed_def)
  then obtain m2 where m2: "fold_res (flush_one e c) ps m1 = Inr m2" "flushed (set ps) m1 m2"
    using Cons.IH[of m1] Cons.prems m1(2) n by (auto simp add: flushed_def)
  then show ?case using m1 flushed_trans[OF m1(2) m2(2), of "set (r # ps)"] by auto
qed

lemma flush_prefetch_ok:
  assumes "mshr_ok m" "c < ms_num_core m"
  obtains m' where "flush_prefetch e c m = Inr m'"
    "flushed {r \<in> set (ms_mshr m ! c). mr_type (ms_reqs m r) = MRT_DPRF \<and> mr_merge (ms_reqs m r) = []} m m'"
proof -
  let ?ps = "filter (\<lambda>r. mr_type (ms_reqs m r) = MRT_DPRF \<and> mr_merge (ms_reqs m r) = []) (ms_mshr m ! c)"
  have "set ?ps = {r \<in> set (ms_mshr m ! c). mr_type (ms_reqs m r) = MRT_DPRF \<and> mr_merge (ms_reqs m r) = []}" by auto
  moreover have "\<exists>m'. fold_res (flush_one e c) ?ps m = Inr m' \<and> flushed (set ?ps) m m'"
    using mshr_okD(1)[OF assms] by (intro flush_loop_ok[OF assms]) simp_all
  ultimately show ?thesis using that unfolding flush_prefetch_def by metis
qed

section \<open>A new request\<close>

text \<open>The request that answers the arguments of \<^verbatim>\<open>new_mem_req\<close>, and a request that is still the same one.\<close>

definition answers :: "req_args \<Rightarrow> mem_req \<Rightarrow> bool" where
  "answers a x \<longleftrightarrow> mr_type x = ra_type a \<and> mr_addr x = ra_addr a \<and> mr_size x = of_nat (ra_size a) \<and> mr_core_id x = ra_core_id a
     \<and> mr_uop x = (if ra_type a = MRT_DPRF then None else ra_uop a) \<and> mr_done_func x = ra_done_func a"

definition same_req :: "mem_req \<Rightarrow> mem_req \<Rightarrow> bool" where
  "same_req x y \<longleftrightarrow> mr_type y = mr_type x \<and> mr_addr y = mr_addr x \<and> mr_size y = mr_size x \<and> mr_core_id y = mr_core_id x
     \<and> mr_uop y = mr_uop x \<and> mr_done_func y = mr_done_func x"

lemma same_req_refl [simp]: "same_req x x"
  by (simp add: same_req_def)

text \<open>The entries of every core and its pending requests, prefetches apart, are kept.\<close>

definition requests_kept :: "('n, 'p) memsys \<Rightarrow> ('n, 'p) memsys \<Rightarrow> bool" where
  "requests_kept m m' \<longleftrightarrow> mshr_ok m' \<and> mem_rest m' = mem_rest m \<and> (\<forall>c<ms_num_core m. core_entries c m' = core_entries c m)
     \<and> (\<forall>x\<in>pending m. mr_type (ms_reqs m x) \<noteq> MRT_DPRF \<longrightarrow> x \<in> pending m' \<and> same_req (ms_reqs m x) (ms_reqs m' x))"

lemma requests_kept_refl: "mshr_ok m \<Longrightarrow> requests_kept m m"
  by (simp add: requests_kept_def)

lemma same_req_trans: "same_req x y \<Longrightarrow> same_req y z \<Longrightarrow> same_req x z"
  by (simp add: same_req_def)

lemma requests_kept_trans:
  assumes "requests_kept m m1" "requests_kept m1 m2"
  shows "requests_kept m m2"
proof -
  have "x \<in> pending m2 \<and> same_req (ms_reqs m x) (ms_reqs m2 x)" if x: "x \<in> pending m" "mr_type (ms_reqs m x) \<noteq> MRT_DPRF" for x
  proof -
    have 1: "x \<in> pending m1" "same_req (ms_reqs m x) (ms_reqs m1 x)" using assms(1) x by (simp_all add: requests_kept_def)
    then have "mr_type (ms_reqs m1 x) \<noteq> MRT_DPRF" using x(2) by (simp add: same_req_def)
    then show ?thesis using 1 assms(2) same_req_trans by (auto simp add: requests_kept_def)
  qed
  moreover have "ms_num_core m1 = ms_num_core m" using mem_restD(1) assms(1) by (auto simp add: requests_kept_def)
  ultimately show ?thesis using assms by (simp add: requests_kept_def)
qed

lemma requests_keptD:
  assumes "requests_kept m m'"
  shows "mshr_ok m'" "mem_rest m' = mem_rest m" "ms_num_core m' = ms_num_core m" "ms_cycle m' = ms_cycle m"
    "length (caches lv m') = length (caches lv m)"
  using assms mem_restD(1,4,9)[of m' m] by (simp_all add: requests_kept_def)

lemma flushed_requests_kept:
  assumes "mshr_ok m" "flushed D m m'" "\<forall>r\<in>D. mr_type (ms_reqs m r) = MRT_DPRF"
  shows "requests_kept m m'"
proof -
  have n: "ms_num_core m' = ms_num_core m" using assms(2) mem_restD(1)[of m' m] by (simp add: flushed_def)
  have "x \<in> pending m' \<and> ms_reqs m' x = ms_reqs m x"
    if x: "x \<in> pending m" "mr_type (ms_reqs m x) \<noteq> MRT_DPRF" for x
  proof -
    have "x \<notin> D" using x assms(3) by blast
    then have "\<And>c. c < ms_num_core m \<Longrightarrow> x \<in> set (ms_mshr m' ! c) \<longleftrightarrow> x \<in> set (ms_mshr m ! c)" "ms_reqs m' x = ms_reqs m x"
      using assms(2) unfolding flushed_def by blast+
    moreover have "length (ms_mshr m') = ms_num_core m" "length (ms_mshr m) = ms_num_core m"
      using assms(1,2) n by (simp_all add: flushed_def mshr_ok_def)
    ultimately show ?thesis using x(1) by (simp only: pending_iff) blast
  qed
  then show ?thesis using assms(2) by (auto simp add: requests_kept_def flushed_def)
qed

lemma flush_kept:
  assumes "mshr_ok m" "c < ms_num_core m"
  obtains m' where "flush_prefetch e c m = Inr m'" "requests_kept m m'"
proof -
  let ?D = "{r \<in> set (ms_mshr m ! c). mr_type (ms_reqs m r) = MRT_DPRF \<and> mr_merge (ms_reqs m r) = []}"
  obtain m' where m': "flush_prefetch e c m = Inr m'" "flushed ?D m m'" using flush_prefetch_ok[OF assms] by blast
  then have "requests_kept m m'" using flushed_requests_kept[OF assms(1), of ?D m'] by blast
  with m'(1) show ?thesis by (rule that)
qed

lemma butlast_last_mset: "xs \<noteq> [] \<Longrightarrow> mset (butlast xs) + {#last xs#} = mset xs"
  by (metis append_butlast_last_id mset.simps mset_append)

text \<open>The entry that \<^verbatim>\<open>allocate_new_entry\<close> takes was free.\<close>

lemma allocate_new_entry_ok:
  assumes "mshr_ok m" "c < ms_num_core m" "allocate_new_entry c m = (Some r, m')"
  shows "mshr_ok m'" "mem_rest m' = mem_rest m" "\<And>c'. c' < ms_num_core m \<Longrightarrow> core_entries c' m' = core_entries c' m"
    "ms_reqs m' = ms_reqs m" "pending m \<subseteq> pending m'" "r \<in> set (ms_mshr m' ! c)"
    "r \<notin> pending m" "mr_merge (ms_reqs m r) = []" "caches lv m' = caches lv m"
proof -
  let ?free = "ms_mshr_free_list m ! c"
  have ne: "?free \<noteq> []" and r: "r = last ?free"
    and m': "m' = m\<lparr>ms_mshr_free_list := (ms_mshr_free_list m)[c := butlast ?free], ms_mshr := (ms_mshr m)[c := ms_mshr m ! c @ [last ?free]]\<rparr>"
    using assms(3) by (auto simp add: allocate_new_entry_def Let_def split: if_splits)
  have len: "length (ms_mshr m) = ms_num_core m" "length (ms_mshr_free_list m) = ms_num_core m" using assms(1) by (simp_all add: mshr_ok_def)
  have rf: "r \<in> idle m" using ne r len assms(2) by (auto simp add: idle_iff)
  show ce: "core_entries c' m' = core_entries c' m" if "c' < ms_num_core m" for c'
    using that len butlast_last_mset[OF ne] by (cases "c' = c") (simp_all add: core_entries_def m' union_ac)
  have dis: "distinct (concat (ms_mshr m) @ concat (ms_mshr_free_list m))" using assms(1) by (simp add: mshr_ok_def)
  show "r \<notin> pending m" using mshr_ok_lengths(3)[OF assms(1)] rf by blast
  show "mr_merge (ms_reqs m r) = []" using assms(1) rf by (simp only: mshr_ok_def)
  show "ms_reqs m' = ms_reqs m" "caches lv m' = caches lv m" "mem_rest m' = mem_rest m" by (simp_all add: m')
  show "r \<in> set (ms_mshr m' ! c)" using assms(2) len by (simp add: m' r)
  have sub: "idle m' \<subseteq> idle m"
    "pending m' \<subseteq> pending m \<union> {r}"
    using len assms(2)
    by (auto simp add: subset_iff pending_iff[of _ "ms_num_core m"] idle_iff[of _ "ms_num_core m"] m' r nth_list_update
          dest: in_set_butlastD split: if_splits)
  show "pending m \<subseteq> pending m'"
    using len assms(2) by (auto simp add: subset_iff pending_iff[of _ "ms_num_core m"] m' nth_list_update)
  have "distinct (concat (ms_mshr m') @ concat (ms_mshr_free_list m'))"
    using distinct_entries_keep[of m m'] ce dis len by (simp add: m')
  then show "mshr_ok m'" using assms(1) sub rf len unfolding mshr_ok_def by (auto simp add: m' simp del: distinct_append)
qed

text \<open>Changes to requests that keep \<open>mshr_ok\<close>.\<close>

lemma requests_kept_same:
  assumes "mshr_ok m" "mem_rest m' = mem_rest m" "ms_mshr m' = ms_mshr m" "ms_mshr_free_list m' = ms_mshr_free_list m"
    and "\<And>x. x \<in> pending m \<Longrightarrow> mr_type (ms_reqs m x) \<noteq> MRT_DPRF \<Longrightarrow> same_req (ms_reqs m x) (ms_reqs m' x)"
    and "\<And>x. x \<in> pending m \<union> idle m \<Longrightarrow> mr_type (ms_reqs m' x) \<noteq> MRT_WB"
    and "\<And>x. x \<in> idle m \<Longrightarrow> mr_merge (ms_reqs m' x) = []"
  shows "requests_kept m m'"
proof -
  have "pending m' = pending m" "idle m' = idle m" using assms by (simp_all add: pending_def idle_def)
  then show ?thesis
    using assms mem_restD(1)[OF assms(2)] by (simp add: requests_kept_def mshr_ok_def core_entries_def)
qed

lemma set_cache_id_fields [simp]:
  "mr_type (set_cache_id k m x) = mr_type x" "mr_merge (set_cache_id k m x) = mr_merge x" "mr_addr (set_cache_id k m x) = mr_addr x"
  "mr_size (set_cache_id k m x) = mr_size x" "mr_core_id (set_cache_id k m x) = mr_core_id x" "mr_uop (set_cache_id k m x) = mr_uop x"
  "mr_done_func (set_cache_id k m x) = mr_done_func x" "mr_queue (set_cache_id k m x) = mr_queue x"
  by (simp_all add: set_cache_id_def Let_def)

lemma adjust_req_reqs:
  "ms_mshr (adjust_req e a r m) = ms_mshr m" "ms_mshr_free_list (adjust_req e a r m) = ms_mshr_free_list m"
  "mem_rest (adjust_req e a r m) = mem_rest m" "x \<noteq> r \<Longrightarrow> ms_reqs (adjust_req e a r m) x = ms_reqs m x"
  "answers a (ms_reqs (adjust_req e a r m) r)" "mr_merge (ms_reqs (adjust_req e a r m) x) = mr_merge (ms_reqs m x)"
  "pending (adjust_req e a r m) = pending m"
  by (simp_all add: adjust_req_def Let_def answers_def pending_def)

lemma adjust_req_kept:
  assumes "mshr_ok m" "mr_type (ms_reqs m r) = MRT_DPRF" "ra_type a \<noteq> MRT_WB"
  shows "requests_kept m (adjust_req e a r m)"
proof (rule requests_kept_same[OF assms(1)])
  show "mr_type (ms_reqs (adjust_req e a r m) x) \<noteq> MRT_WB" if "x \<in> pending m \<union> idle m" for x
    using that assms(1,3) adjust_req_reqs(4)[of x r e a m] adjust_req_reqs(5)[of a e r m]
    by (cases "x = r") (auto simp add: mshr_ok_def answers_def)
  show "same_req (ms_reqs m x) (ms_reqs (adjust_req e a r m) x)" if "mr_type (ms_reqs m x) \<noteq> MRT_DPRF" for x
    using that assms(2) adjust_req_reqs(4)[of x r e a m] by (cases "x = r") simp_all
qed (use assms(1) in \<open>simp_all add: adjust_req_reqs mshr_ok_def\<close>)

lemma insert_req_reqs:
  "same_req (ms_reqs m x) (ms_reqs (snd (insert_req k lv i r m)) x)" "mr_merge (ms_reqs (snd (insert_req k lv i r m)) x) = mr_merge (ms_reqs m x)"
  "ms_mshr (snd (insert_req k lv i r m)) = ms_mshr m" "ms_mshr_free_list (snd (insert_req k lv i r m)) = ms_mshr_free_list m"
  by (simp_all add: insert_req_def queue_push_def Let_def same_req_def)

lemma insert_req_placed:
  assumes "i < length (caches lv m)"
  shows "(fst (insert_req k lv i r m) \<longleftrightarrow> \<not> dcu_full (dcu_at lv i m))
    \<and> (if fst (insert_req k lv i r m) then r \<in> set (q_entry (du_in_queue (dcu_at lv i (snd (insert_req k lv i r m)))))
       else r \<in> set (du_retry_queue (dcu_at lv i (snd (insert_req k lv i r m)))))"
  using assms queue_push_full[of In_Queue lv i m k r] queue_push_room[of In_Queue lv i m k r]
  by (cases "queue_full (du_in_queue (dcu_at lv i m))")
     (simp_all add: insert_req_def Let_def get_queue_def dcu_full_def upd_queue_def)

lemma same_req_type: "same_req x y \<Longrightarrow> mr_type y = mr_type x"
  by (simp add: same_req_def)

lemma answers_same: "answers a x \<Longrightarrow> same_req x y \<Longrightarrow> answers a y"
  by (simp add: answers_def same_req_def)

lemma insert_req_kept:
  assumes "mshr_ok m"
  shows "requests_kept m (snd (insert_req k lv i r m))"
  using assms same_req_type[OF insert_req_reqs(1)[where k = k and lv = lv and i = i and r = r and m = m]]
  by (intro requests_kept_same) (simp_all add: mshr_ok_def insert_req_reqs)

lemma merge_into_reqs:
  "same_req (ms_reqs m x) (ms_reqs (merge_into q r m) x)" "ms_mshr (merge_into q r m) = ms_mshr m"
  "ms_mshr_free_list (merge_into q r m) = ms_mshr_free_list m" "mem_rest (merge_into q r m) = mem_rest m"
  "x \<noteq> q \<Longrightarrow> mr_merge (ms_reqs (merge_into q r m) x) = mr_merge (ms_reqs m x)"
  "r \<noteq> q \<Longrightarrow> mr_merge (ms_reqs (merge_into q r m) q) = mr_merge (ms_reqs m q) @ [r]"
  "r \<noteq> q \<Longrightarrow> mr_merged_req (ms_reqs (merge_into q r m) r) = Some q"
  by (simp_all add: merge_into_def Let_def same_req_def)

lemma merge_into_kept:
  assumes "mshr_ok m" "q \<in> pending m"
  shows "requests_kept m (merge_into q r m)"
proof (rule requests_kept_same[OF assms(1)])
  show "mr_merge (ms_reqs (merge_into q r m) x) = []" if "x \<in> idle m" for x
    using that assms mshr_ok_lengths(3)[OF assms(1)] merge_into_reqs(5)[of x q r m] by (auto simp add: mshr_ok_def)
  show "mr_type (ms_reqs (merge_into q r m) x) \<noteq> MRT_WB" if "x \<in> pending m \<union> idle m" for x
    using that assms(1) same_req_type[OF merge_into_reqs(1)[of m x q r]] by (simp add: mshr_ok_def)
qed (simp_all add: merge_into_reqs)

text \<open>The allocation and initialisation of an entry.\<close>

lemma init_new_req_ok:
  assumes "mr_merge (ms_reqs m r) = []"
  obtains m' where "init_new_req e a r m = Inr m'" "mem_rest m' = mem_rest m" "ms_mshr m' = ms_mshr m"
    "ms_mshr_free_list m' = ms_mshr_free_list m" "\<And>x. x \<noteq> r \<Longrightarrow> ms_reqs m' x = ms_reqs m x" "answers a (ms_reqs m' r)"
    "mr_merge (ms_reqs m' r) = []" "\<And>lv. caches lv m' = caches lv m"
  using assms by (simp add: init_new_req_def Let_def answers_def)

lemma allocate_init_kept:
  assumes "mshr_ok m" "c < ms_num_core m" "allocate_new_entry c m = (Some r, m1)" "ra_type a \<noteq> MRT_WB"
  obtains m2 where "init_new_req e a r m1 = Inr m2" "requests_kept m m2" "answers a (ms_reqs m2 r)" "r \<in> pending m2" "r \<notin> pending m"
    "pending m \<subseteq> pending m2"
proof -
  note A = allocate_new_entry_ok[OF assms(1-3)]
  have n: "ms_num_core m1 = ms_num_core m" using mem_restD(1)[OF A(2)] .
  have "mr_merge (ms_reqs m1 r) = []" using A(4,8) by simp
  then obtain m2 where I: "init_new_req e a r m1 = Inr m2" "mem_rest m2 = mem_rest m1" "ms_mshr m2 = ms_mshr m1"
    "ms_mshr_free_list m2 = ms_mshr_free_list m1" "\<And>x. x \<noteq> r \<Longrightarrow> ms_reqs m2 x = ms_reqs m1 x" "answers a (ms_reqs m2 r)"
    "mr_merge (ms_reqs m2 r) = []" by (rule init_new_req_ok) blast
  have sets: "pending m2 = pending m1" "idle m2 = idle m1" using I(3,4) by (simp_all add: pending_def idle_def)
  have rp: "r \<in> pending m1" using mshr_ok_entry(1)[OF A(1) _ A(6)] assms(2) n by simp
  have "mr_type (ms_reqs m2 r) \<noteq> MRT_WB" using I(6) assms(4) by (simp add: answers_def)
  then have ty: "mr_type (ms_reqs m2 x) \<noteq> MRT_WB" if "x \<in> pending m1 \<union> idle m1" for x
    using that I(5)[of x] A(1) by (cases "x = r") (simp_all add: mshr_ok_def)
  moreover have "mr_merge (ms_reqs m2 x) = []" if "x \<in> idle m1" for x
    using that I(5)[of x] I(7) A(1) by (cases "x = r") (simp_all add: mshr_ok_def)
  ultimately have "mshr_ok m2" using A(1) I(2-4) n mem_restD(1)[OF I(2)] sets by (simp add: mshr_ok_def)
  moreover have "ms_reqs m2 x = ms_reqs m x" if "x \<in> pending m" for x
    using that A(4,7) I(5)[of x] by (cases "x = r") simp_all
  ultimately have "requests_kept m m2"
    using A(2,3,5) I(2-4) sets by (auto simp add: requests_kept_def core_entries_def)
  with I(1,6) A(5,7) rp sets that show ?thesis by auto
qed

text \<open>Where the request of \<open>a\<close> is: in the input queue or the retry queue of the second level of its core, merged into a
  pending request, or a pending prefetch of the same bytes that became the request.\<close>

definition tracked :: "req_args \<Rightarrow> nat \<Rightarrow> ('n, 'p) memsys \<Rightarrow> ('n, 'p) memsys \<Rightarrow> addr \<Rightarrow> bool" where
  "tracked a c m m' r \<longleftrightarrow> r \<in> pending m' \<and> answers a (ms_reqs m' r) \<and>
     (r \<in> set (q_entry (du_in_queue (dcu_at MEM_L2 c m'))) \<or> r \<in> set (du_retry_queue (dcu_at MEM_L2 c m'))
      \<or> (\<exists>q\<in>pending m'. mr_merged_req (ms_reqs m' r) = Some q \<and> r \<in> set (mr_merge (ms_reqs m' q)) \<and> covers (ms_reqs m' q) (ra_addr a) (ra_size a))
      \<or> r \<in> pending m \<and> mr_type (ms_reqs m r) = MRT_DPRF \<and> covers (ms_reqs m r) (ra_addr a) (ra_size a))"

text \<open>The outcomes of \<^verbatim>\<open>new_mem_req\<close>: a request that is not a prefetch is tracked or finds no free entry.\<close>

definition entered :: "req_args \<Rightarrow> nat \<Rightarrow> ('n, 'p) memsys \<Rightarrow> bool \<Rightarrow> ('n, 'p) memsys \<Rightarrow> bool" where
  "entered a c m ok m' \<longleftrightarrow> requests_kept m m'
     \<and> (ra_type a \<noteq> MRT_DPRF \<longrightarrow> (if ok then \<exists>r. tracked a c m m' r else ms_mshr_free_list m' ! c = []))"

text \<open>An entry is found: the request is initialised, then merged or inserted.\<close>

lemma place_req_ok:
  assumes "mshr_ok m" "c < ms_num_core m" "c < length (caches MEM_L2 m)" "allocate_new_entry c m = (Some r, m1)" "ra_type a \<noteq> MRT_WB"
    and "\<And>q. matching = Some q \<Longrightarrow> q \<in> pending m \<and> mr_type (ms_reqs m q) \<noteq> MRT_DPRF \<and> covers (ms_reqs m q) (ra_addr a) (ra_size a)"
    and "\<not> gpu_store (me_knobs e) a"
  obtains m3 where "res_bind (init_new_req e a r m1) (\<lambda>m2. case matching of
        Some q \<Rightarrow> if gpu_store (me_knobs e) a then Inr (True, snd (insert_req (me_knobs e) MEM_L2 c r m2)) else Inr (True, merge_into q r m2)
      | None \<Rightarrow> Inr (True, snd (insert_req (me_knobs e) MEM_L2 c r m2))) = Inr (True, m3)"
    "requests_kept m m3" "tracked a c m' m3 r"
proof -
  obtain m2 where I: "init_new_req e a r m1 = Inr m2" "requests_kept m m2" "answers a (ms_reqs m2 r)" "r \<in> pending m2" "r \<notin> pending m"
    "pending m \<subseteq> pending m2" using allocate_init_kept[OF assms(1,2,4,5)] by blast
  note ok = requests_keptD(1)[OF I(2)]
  show ?thesis
  proof (cases matching)
    case None
    let ?m3 = "snd (insert_req (me_knobs e) MEM_L2 c r m2)"
    have "pending ?m3 = pending m2" by (simp add: pending_def insert_req_reqs)
    moreover have "answers a (ms_reqs ?m3 r)" using answers_same[OF I(3) insert_req_reqs(1)] .
    ultimately have "tracked a c m' ?m3 r"
      using insert_req_placed[of c MEM_L2 m2 "me_knobs e" r] I(4) requests_keptD(5)[OF I(2), of MEM_L2] assms(3)
      by (auto simp add: tracked_def split: if_splits)
    moreover have "requests_kept m ?m3" using requests_kept_trans[OF I(2) insert_req_kept[OF ok]] .
    ultimately show ?thesis using that None I(1) by simp
  next
    case (Some q)
    let ?m3 = "merge_into q r m2"
    note q = assms(6)[OF Some]
    have qr: "r \<noteq> q" using q I(5) by blast
    have q2: "q \<in> pending m2" using q I(6) by blast
    have "same_req (ms_reqs m q) (ms_reqs m2 q)" using I(2) q by (simp add: requests_kept_def)
    then have "same_req (ms_reqs m q) (ms_reqs ?m3 q)" using same_req_trans merge_into_reqs(1) by blast
    then have cov: "covers (ms_reqs ?m3 q) (ra_addr a) (ra_size a)" using q by (simp add: covers_def same_req_def)
    have "pending ?m3 = pending m2" by (simp add: pending_def merge_into_reqs)
    moreover have "answers a (ms_reqs ?m3 r)" using answers_same[OF I(3) merge_into_reqs(1)] .
    ultimately have "tracked a c m' ?m3 r"
      using qr q2 I(4) cov merge_into_reqs(6,7)[OF qr, of m2] by (auto simp add: tracked_def)
    moreover have "requests_kept m ?m3" using requests_kept_trans[OF I(2) merge_into_kept[OF ok q2]] .
    ultimately show ?thesis using that Some I(1) assms(7) by simp
  qed
qed

lemma allocate_none: "allocate_new_entry c m = (None, m') \<Longrightarrow> m' = m \<and> ms_mshr_free_list m ! c = []"
  by (auto simp add: allocate_new_entry_def Let_def split: if_splits)

lemma matching_kept:
  assumes "requests_kept m m'" "\<And>q. matching = Some q \<Longrightarrow>
     q \<in> pending m \<and> mr_type (ms_reqs m q) \<noteq> MRT_DPRF \<and> covers (ms_reqs m q) (ra_addr a) (ra_size a)" "matching = Some q"
  shows "q \<in> pending m' \<and> mr_type (ms_reqs m' q) \<noteq> MRT_DPRF \<and> covers (ms_reqs m' q) (ra_addr a) (ra_size a)"
  using assms by (auto simp add: requests_kept_def same_req_def covers_def)

text \<open>The effect of setting the time until which prefetches are dropped.\<close>

lemma stop_prefetch_kept: "mshr_ok m \<Longrightarrow> requests_kept m (m\<lparr>ms_stop_prefetch := t\<rparr>)"
  by (rule requests_kept_same) (simp_all add: mshr_ok_def)

lemma flush_stop_kept:
  assumes "mshr_ok m" "c < ms_num_core m"
  obtains m' where "flush_prefetch e c (m\<lparr>ms_stop_prefetch := t\<rparr>) = Inr m'" "requests_kept m m'"
proof -
  note k = stop_prefetch_kept[OF assms(1), of t]
  obtain m' where "flush_prefetch e c (m\<lparr>ms_stop_prefetch := t\<rparr>) = Inr m'" "requests_kept (m\<lparr>ms_stop_prefetch := t\<rparr>) m'"
    using flush_kept[OF requests_keptD(1)[OF k]] assms(2) by (metis requests_keptD(3)[OF k])
  then show ?thesis using that requests_kept_trans[OF k] by blast
qed

lemma enter_req_ok:
  assumes "mshr_ok m" "c < ms_num_core m" "c < length (caches MEM_L2 m)" "ra_type a \<noteq> MRT_WB" "\<not> gpu_store (me_knobs e) a"
    and "\<And>q. matching = Some q \<Longrightarrow> q \<in> pending m \<and> mr_type (ms_reqs m q) \<noteq> MRT_DPRF \<and> covers (ms_reqs m q) (ra_addr a) (ra_size a)"
  shows "\<exists>ok m'. enter_req e a c matching m = Inr (ok, m') \<and> requests_kept m m'
    \<and> (ra_type a \<noteq> MRT_DPRF \<longrightarrow> (if ok then \<exists>r. tracked a c m0 m' r else ms_mshr_free_list m' ! c = []))"
proof (cases "allocate_new_entry c m")
  case (Pair p m1)
  show ?thesis
  proof (cases p)
    case (Some r)
    obtain m3 where "enter_req e a c matching m = Inr (True, m3)" "requests_kept m m3" "tracked a c m0 m3 r"
      using place_req_ok[OF assms(1-3) Pair[unfolded Some] assms(4,6,5)] Pair Some assms(5)
      by (auto simp add: enter_req_def take_entry_def)
    then show ?thesis by auto
  next
    case None
    have m1: "m1 = m" "ms_mshr_free_list m ! c = []" using allocate_none[OF Pair[unfolded None]] by simp_all
    obtain m2 where m2: "flush_prefetch e c (m\<lparr>ms_stop_prefetch := ms_cycle m + 500\<rparr>) = Inr m2" "requests_kept m m2"
      using flush_stop_kept[OF assms(1,2)] by blast
    note k2 = requests_keptD[OF m2(2)]
    show ?thesis
    proof (cases "ra_type a = MRT_DPRF")
      case True
      then show ?thesis using Pair None m1 m2 assms(5) by (intro exI[of _ True]) (simp add: enter_req_def take_entry_def)
    next
      case demand: False
      show ?thesis
      proof (cases "allocate_new_entry c m2")
        case (Pair p' m3)
        show ?thesis
        proof (cases p')
          case (Some r)
          have q: "\<And>q. matching = Some q \<Longrightarrow> q \<in> pending m2 \<and> mr_type (ms_reqs m2 q) \<noteq> MRT_DPRF \<and> covers (ms_reqs m2 q) (ra_addr a) (ra_size a)"
            using matching_kept[OF m2(2) assms(6)] .
          have c: "c < ms_num_core m2" "c < length (caches MEM_L2 m2)" using k2(3) k2(5)[of MEM_L2] assms(2,3) by simp_all
          obtain m4 where "enter_req e a c matching m = Inr (True, m4)" "requests_kept m2 m4" "tracked a c m0 m4 r"
            using place_req_ok[OF k2(1) c Pair[unfolded Some] assms(4) q assms(5)] Pair Some assms(5) m1 m2(1)
              \<open>allocate_new_entry c m = (p, m1)\<close> None demand by (auto simp add: enter_req_def take_entry_def)
          then show ?thesis using requests_kept_trans[OF m2(2)] by auto
        next
          case none: None
          have "m3 = m2" "ms_mshr_free_list m2 ! c = []" using allocate_none[OF Pair[unfolded none]] by simp_all
          then show ?thesis using \<open>allocate_new_entry c m = (p, m1)\<close> None m1 m2 assms(5) demand Pair none
            by (intro exI[of _ False]) (simp add: enter_req_def take_entry_def)
        qed
      qed
    qed
  qed
qed

lemma search_all_some:
  assumes "search_all x sz m = Some q"
  shows "q \<in> pending m" "covers (ms_reqs m q) x sz"
  using assms by (auto simp add: search_all_def find_Some_iff pending_def in_set_conv_nth simp del: set_concat)

lemma new_mem_req_ok:
  assumes "mshr_ok m" "0 \<le> ra_core_id a" "nat (ra_core_id a) < ms_num_core m" "nat (ra_core_id a) < length (caches MEM_L2 m)"
    "ra_type a \<noteq> MRT_WB" "\<not> gpu_store (me_knobs e) a"
  shows "\<exists>ok m'. new_mem_req e a m = Inr (ok, m') \<and> entered a (nat (ra_core_id a)) m ok m'"
proof -
  let ?c = "nat (ra_core_id a)" and ?q = "search_all (ra_addr a) (ra_size a) m"
  have refl: "entered a ?c m True m" if "ra_type a = MRT_DPRF" using that assms(1) by (simp add: entered_def requests_kept_refl)
  note enter = enter_req_ok[where e = e and a = a and c = ?c and matching = ?q and ?m0.0 = m]
  consider "ra_type a = MRT_DPRF" "ms_stop_prefetch m > ms_cycle m \<or> ?q \<noteq> None"
    | q where "ra_type a \<noteq> MRT_DPRF" "?q = Some q" "mr_type (ms_reqs m q) = MRT_DPRF"
    | "\<not> (ms_stop_prefetch m > ms_cycle m \<and> ra_type a = MRT_DPRF)" "ra_type a = MRT_DPRF \<longrightarrow> ?q = None"
      "\<forall>q. ?q = Some q \<longrightarrow> mr_type (ms_reqs m q) \<noteq> MRT_DPRF"
    by (cases "ra_type a = MRT_DPRF"; cases "?q") auto
  then show ?thesis
  proof cases
    case 1
    then show ?thesis using assms refl by (auto simp add: new_mem_req_def Let_def)
  next
    case 2
    have "tracked a ?c m (adjust_req e a q m) q"
      using 2 search_all_some[OF 2(2)] adjust_req_reqs(5)[of a e q m] adjust_req_reqs(7)[of e a q m] by (simp add: tracked_def)
    then have "entered a ?c m True (adjust_req e a q m)"
      using adjust_req_kept[OF assms(1) 2(3) assms(5)] by (auto simp add: entered_def)
    then show ?thesis using 2 assms by (auto simp add: new_mem_req_def Let_def)
  next
    case 3
    have q: "\<And>q. ?q = Some q \<Longrightarrow> q \<in> pending m \<and> mr_type (ms_reqs m q) \<noteq> MRT_DPRF \<and> covers (ms_reqs m q) (ra_addr a) (ra_size a)"
      using 3(3) search_all_some by blast
    have wb: "mr_type (ms_reqs m (the ?q)) \<noteq> MRT_WB" if "?q \<noteq> None" using that q assms(1) by (auto simp add: mshr_ok_def)
    have e0: "new_mem_req e a m =
       (if dcu_full (dcu_at MEM_L2 ?c m)
        then res_bind (flush_prefetch e ?c (m\<lparr>ms_stop_prefetch := ms_cycle m + 500\<rparr>)) (\<lambda>m1.
            if dcu_full (dcu_at MEM_L2 ?c m1) \<and> ra_type a = MRT_DPRF then Inr (True, m1) else enter_req e a ?c ?q m1)
        else enter_req e a ?c ?q m)"
      using 3 wb assms by (auto simp add: new_mem_req_def Let_def)
    obtain m1 where m1: "flush_prefetch e ?c (m\<lparr>ms_stop_prefetch := ms_cycle m + 500\<rparr>) = Inr m1" "requests_kept m m1"
      using flush_stop_kept[OF assms(1,3)] by blast
    note k1 = requests_keptD[OF m1(2)]
    have c1: "?c < ms_num_core m1" "?c < length (caches MEM_L2 m1)" using k1(3) k1(5)[of MEM_L2] assms(3,4) by simp_all
    obtain ok m' where m': "enter_req e a ?c ?q m1 = Inr (ok, m')" "requests_kept m1 m'"
      "ra_type a \<noteq> MRT_DPRF \<longrightarrow> (if ok then \<exists>r. tracked a ?c m m' r else ms_mshr_free_list m' ! ?c = [])"
      using enter[OF k1(1) c1 assms(5,6) matching_kept[OF m1(2) q]] by blast
    then have "enter_req e a ?c ?q m1 = Inr (ok, m') \<and> entered a ?c m ok m'"
      using requests_kept_trans[OF m1(2) m'(2)] by (simp add: entered_def)
    then have "\<exists>ok m'. enter_req e a ?c ?q m1 = Inr (ok, m') \<and> entered a ?c m ok m'" by blast
    moreover have "\<exists>ok m'. enter_req e a ?c ?q m = Inr (ok, m') \<and> entered a ?c m ok m'"
      using enter[OF assms(1,3,4,5,6) q] by (simp add: entered_def)
    ultimately show ?thesis using e0 m1 by (auto simp add: entered_def intro: exI[of _ True])
  qed
qed

text \<open>C7. \<^verbatim>\<open>new_mem_req\<close> returns for every request of a core that is not a write-back (and, on GPUs of compute capability 2, not
  a store): every core keeps its entries, each free or in use once, and every pending request that is not a prefetch stays pending
  with its address, type, uop and callback. An accepted demand request is tracked: it is in the input or the retry queue of the second level
  of its core, or merged into a pending request that covers its bytes, or it took the place of a pending prefetch of its bytes. It is refused only
  when the core has no free entry even after its prefetches were flushed.\<close>

theorem new_mem_req_tracks_request:
  assumes "mshr_ok m" and "0 \<le> ra_core_id a" and "nat (ra_core_id a) < ms_num_core m"
    and "nat (ra_core_id a) < length (caches MEM_L2 m)" and "ra_type a \<noteq> MRT_WB" and "\<not> gpu_store (me_knobs e) a"
  shows "\<exists>ok m'. new_mem_req e a m = Inr (ok, m') \<and> mshr_ok m'
    \<and> (\<forall>c<ms_num_core m. core_entries c m' = core_entries c m)
    \<and> (\<forall>x\<in>pending m. mr_type (ms_reqs m x) \<noteq> MRT_DPRF \<longrightarrow> x \<in> pending m' \<and> same_req (ms_reqs m x) (ms_reqs m' x))
    \<and> (ra_type a \<noteq> MRT_DPRF \<longrightarrow>
         (if ok then \<exists>r. tracked a (nat (ra_core_id a)) m m' r else ms_mshr_free_list m' ! nat (ra_core_id a) = []))"
  using new_mem_req_ok[OF assms] unfolding entered_def requests_kept_def by blast

text \<open>C38. A demand request that matches a pending prefetch of another core takes the prefetch over, core number included, but the entry stays in
  the MSHR of the other core. When it completes, it is released to the free list of its new core and removed from that
  core's MSHR, where it never was: the entry is then in use and free at once, and belongs to two cores.\<close>

theorem promoted_prefetch_leaks:
  assumes "mshr_ok m" and "c < ms_num_core m" and "r \<in> set (ms_mshr m ! c)" and "search_all (ra_addr a) (ra_size a) m = Some r"
    and "mr_type (ms_reqs m r) = MRT_DPRF" and "mr_merge (ms_reqs m r) = []" and "ra_type a \<in> {MRT_DFETCH, MRT_DSTORE}"
    and "0 \<le> ra_core_id a" and "nat (ra_core_id a) < ms_num_core m" and "nat (ra_core_id a) \<noteq> c" and "\<not> gpu_store (me_knobs e) a"
  shows "\<exists>m1 m2. new_mem_req e a m = Inr (True, m1) \<and> free_req (run_done e) (mr_core_id (ms_reqs m1 r)) r m1 = Inr m2
     \<and> r \<in> set (ms_mshr m2 ! c) \<and> r \<in> set (ms_mshr_free_list m2 ! nat (ra_core_id a)) \<and> \<not> mshr_ok m2"
proof -
  let ?m1 = "adjust_req e a r m" and ?d = "nat (ra_core_id a)"
  let ?m2 = "release ?d r ?m1"
  note A = adjust_req_reqs[where e = e and a = a and r = r and m = m]
  have core: "int ?d = mr_core_id (ms_reqs ?m1 r)" using A(5) assms(8) by (simp add: answers_def)
  have n: "new_mem_req e a m = Inr (True, ?m1)" using assms by (auto simp add: new_mem_req_def Let_def)
  have "mr_type (ms_reqs ?m1 r) \<noteq> MRT_WB" using A(5) assms(7) by (auto simp add: answers_def)
  then have f: "free_req (run_done e) (int ?d) r ?m1 = Inr ?m2"
    using A(1,6) assms(6,9) mshr_okD(3)[OF assms(1,9)] by (intro free_req_release) simp_all
  have i: "r \<in> set (ms_mshr ?m2 ! c)" using A(1) assms(3,10) by (simp add: release_def)
  have o: "r \<in> set (ms_mshr_free_list ?m2 ! ?d)" using A(2) mshr_okD(4)[OF assms(1,9)] by (simp add: release_def)
  have N: "ms_num_core ?m2 = ms_num_core m" using mem_restD(1)[of ?m2 m] A(3) by simp
  have "\<not> mshr_ok ?m2"
  proof
    assume "mshr_ok ?m2"
    then have "r \<notin> idle ?m2" using mshr_ok_entry(2) i assms(2) N by metis
    moreover have "r \<in> idle ?m2" using o assms(9) N idle_iff[OF mshr_ok_lengths(2)[OF \<open>mshr_ok ?m2\<close>]] by auto
    ultimately show False by contradiction
  qed
  then show ?thesis using n f[unfolded core] i o by blast
qed

section \<open>A full input queue\<close>

text \<open>C39. When the input queue of a unit is full, the request at the head of the network is put on the retry queue and stays in the
  network as well, so every further cycle of the unit adds another copy of it.\<close>

theorem refused_packet_duplicated:
  assumes "i < length (caches lv m)" and "dcu_full (dcu_at lv i m)" and "du_has_router (dcu_at lv i m)"
    and "me_receive e lv (du_id (dcu_at lv i m)) (ms_network m) = Inr (Some r)" and "mr_msg_type (ms_reqs m r) = NOC_NEW"
    and "KNOB_NOC_TOPOLOGY (me_knobs e) \<noteq> ''simple_noc''" and "\<not> KNOB_ENABLE_IRIS (me_knobs e)"
  shows "\<exists>m'. fold_res (\<lambda>_. receive_packet e lv i) (replicate n ()) m = Inr m' \<and> ms_network m' = ms_network m
     \<and> du_retry_queue (dcu_at lv i m') = du_retry_queue (dcu_at lv i m) @ replicate n r"
  using assms
proof (induction n arbitrary: m)
  case (Suc n)
  let ?m1 = "upd_dcu lv i (\<lambda>d. d\<lparr>du_retry_queue := du_retry_queue d @ [r]\<rparr>) (upd_req r (\<lambda>x. x\<lparr>mr_state := MEM_NOC_DONE\<rparr>) m)"
  have full: "queue_full (get_queue In_Queue (dcu_at lv i m))" using Suc.prems(2) by (simp add: dcu_full_def get_queue_def)
  have "receive_packet e lv i m = Inr ?m1"
    using Suc.prems queue_push_full[of In_Queue lv i "upd_req r (\<lambda>x. x\<lparr>mr_state := MEM_NOC_DONE\<rparr>) m"] full
    by (simp add: receive_packet_def receive_one_def Let_def insert_req_def)
  moreover have "\<exists>m'. fold_res (\<lambda>_. receive_packet e lv i) (replicate n ()) ?m1 = Inr m' \<and> ms_network m' = ms_network ?m1
     \<and> du_retry_queue (dcu_at lv i m') = du_retry_queue (dcu_at lv i ?m1) @ replicate n r"
    using Suc.prems by (intro Suc.IH) (simp_all add: dcu_full_def)
  ultimately show ?case using Suc.prems(1) by (auto simp add: replicate_append_same)
qed simp

section \<open>Invalidation of a page\<close>

lemma dcu_invalidate_ok:
  assumes "i < length (caches lv m)" "du_cache (dcu_at lv i m) = Some c" "cache_wf c"
  obtains c' m' where "dcu_invalidate lv i a m = Inr m'" "m' = set_cache lv i c' m" "cache_wf c'" "same_config c c'"
    "resident c' = resident c - {base_cache_line c a}"
proof -
  obtain d c' where "invalidate_cache_line a c = Inr (d, c')" "cache_wf c'" "same_config c c'" "resident c' = resident c - {base_cache_line c a}"
    using invalidate_cache_line_spec[OF assms(3)] .
  then show ?thesis using that assms(2) by (simp add: dcu_invalidate_def with_cache_def)
qed

lemma base_cache_line_config: "same_config c c' \<Longrightarrow> base_cache_line c' a = base_cache_line c a"
  by (simp add: same_configD base_cache_line_def)

lemma inval_loop_done: "\<not> a < end_addr \<Longrightarrow> inval_loop fuel lv i end_addr (a, m) = Inr (a, m)"
  by (subst inval_loop.simps) simp

lemma inval_loop_ok:
  assumes "i < length (caches lv m)" "du_cache (dcu_at lv i m) = Some c" "cache_wf c" "du_line_size (dcu_at lv i m) = L" "0 < L"
    and "unat a + n * L < 2 ^ 64" "n \<le> fuel"
  shows "\<exists>m' c'. inval_loop fuel lv i (a + of_nat (n * L)) (a, m) = Inr (a + of_nat (n * L), m')
     \<and> du_cache (dcu_at lv i m') = Some c' \<and> resident c' = resident c - {base_cache_line c (a + of_nat (k * L)) | k. k < n}
     \<and> (\<forall>lv' j. (lv', j) \<noteq> (lv, i) \<longrightarrow> dcu_at lv' j m' = dcu_at lv' j m)"
  using assms
proof (induction n arbitrary: a m c fuel)
  case 0
  then show ?case by (simp add: inval_loop_done)
next
  case (Suc n)
  let ?e = "a + of_nat (Suc n * L)" and ?a1 = "a + of_nat L :: Addr"
  have ne: "Suc n * L < 2 ^ 64" "L < 2 ^ 64" using Suc.prems(6) by auto
  have ue: "unat ?e = unat a + Suc n * L" "unat ?a1 = unat a + L"
    using Suc.prems(6) ne by (simp_all only: unat_word_ariths unat_of_nat) (simp_all add: unat_word_ariths unat_of_nat take_bit_eq_mod)
  have lt: "a < ?e" using ue(1) Suc.prems(5) by (simp add: word_less_nat_alt)
  obtain f where f: "fuel = Suc f" "n \<le> f" using Suc.prems(7) by (cases fuel) auto
  obtain c1 m1 where I: "dcu_invalidate lv i a m = Inr m1" "m1 = set_cache lv i c1 m" "cache_wf c1" "same_config c c1"
    "resident c1 = resident c - {base_cache_line c a}" using dcu_invalidate_ok[OF Suc.prems(1-3)] by blast
  have m1: "i < length (caches lv m1)" "du_cache (dcu_at lv i m1) = Some c1" "du_line_size (dcu_at lv i m1) = L"
    using I(2) Suc.prems(1,4) by (simp_all add: set_cache_def)
  have e1: "?a1 + of_nat (n * L) = ?e" by (simp add: algebra_simps)
  obtain m2 c2 where R: "inval_loop f lv i ?e (?a1, m1) = Inr (?e, m2)" "du_cache (dcu_at lv i m2) = Some c2"
    "resident c2 = resident c1 - {base_cache_line c1 (?a1 + of_nat (k * L)) | k. k < n}"
    "\<forall>lv' j. (lv', j) \<noteq> (lv, i) \<longrightarrow> dcu_at lv' j m2 = dcu_at lv' j m1"
    using Suc.IH[OF m1(1,2) I(3) m1(3) Suc.prems(5) _ f(2), of ?a1] ue(2) Suc.prems(6) unfolding e1 by auto
  have "inval_loop fuel lv i ?e (a, m) = Inr (?e, m2)"
    using R(1) I(1) lt f(1) Suc.prems(4) by (subst inval_loop.simps) simp
  moreover have "{base_cache_line c (a + of_nat (k * L)) | k. k < Suc n} =
     insert (base_cache_line c a) {base_cache_line c (?a1 + of_nat (k * L)) | k. k < n}" (is "?A = ?B")
  proof -
    have "?A = (\<lambda>k. base_cache_line c (a + of_nat (k * L))) ` {..<Suc n}" by auto
    also have "\<dots> = insert (base_cache_line c a) ((\<lambda>k. base_cache_line c (a + of_nat (Suc k * L))) ` {..<n})"
      unfolding lessThan_Suc_eq_insert_0 image_insert image_image by simp
    also have "\<dots> = ?B" by (auto simp add: algebra_simps)
    finally show ?thesis .
  qed
  moreover have "dcu_at lv' j m2 = dcu_at lv' j m" if "(lv', j) \<noteq> (lv, i)" for lv' j
    using that R(4) I(2) by (auto simp add: set_cache_def)
  ultimately show ?case
    using R(2,3) I(5) base_cache_line_config[OF I(4)] by auto
qed

lemma inval_units_done: "\<not> a < end_addr \<Longrightarrow> fold_res (inval_unit end_addr) us (a, m) = Inr (a, m)"
  by (induction us) (auto simp add: inval_unit_def inval_loop_done)

text \<open>C40. \<^verbatim>\<open>invalidate\<close> of a page removes the lines of the page from the first unit of its order only (in all topologies
  but one the first-level cache of core 0): the address is set before the loops over the units and never again, so every other unit
  keeps its lines.\<close>

theorem invalidate_reaches_first_unit_only:
  assumes "inval_order m = (lv, i) # us" and "i < length (caches lv m)" and "du_cache (dcu_at lv i m) = Some c" and "cache_wf c"
    and "du_line_size (dcu_at lv i m) = L" and "0 < L" and "ms_page_size m = n * L" and "unat page + n * L < 2 ^ 64"
  shows "\<exists>m' c'. invalidate page m = Inr m' \<and> du_cache (dcu_at lv i m') = Some c'
     \<and> resident c' = resident c - {base_cache_line c (page + of_nat (k * L)) | k. k < n}
     \<and> (\<forall>lv' j. (lv', j) \<noteq> (lv, i) \<longrightarrow> dcu_at lv' j m' = dcu_at lv' j m)"
proof -
  let ?e = "page + of_nat (n * L)"
  have "unat (of_nat (n * L) :: Addr) = n * L" using assms(8) by (subst unat_of_nat) simp
  moreover have "?e - page = of_nat (n * L)" by (rule add_diff_cancel_left')
  ultimately have "unat (?e - page) = n * L" by simp
  then have fuel: "n \<le> Suc (unat (?e - page))" using assms(6) by simp (metis One_nat_def Suc_leI le_SucI mult.right_neutral mult_le_mono2)
  obtain m' c' where "inval_loop (Suc (unat (?e - page))) lv i ?e (page, m) = Inr (?e, m')" "du_cache (dcu_at lv i m') = Some c'"
    "resident c' = resident c - {base_cache_line c (page + of_nat (k * L)) | k. k < n}"
    "\<forall>lv' j. (lv', j) \<noteq> (lv, i) \<longrightarrow> dcu_at lv' j m' = dcu_at lv' j m"
    using inval_loop_ok[OF assms(2-6,8) fuel] by blast
  moreover have "fold_res (inval_unit ?e) us (?e, m') = Inr (?e, m')" by (rule inval_units_done) simp
  ultimately show ?thesis using assms(1,7) by (simp add: invalidate_def inval_unit_def)
qed

section \<open>An example\<close>

text \<open>Two cores with two MSHR entries each, a unit of each kind, and the state in which core 0 has a prefetch of the line \<open>0x1000\<close>.\<close>

definition demo_data_line :: "dcache_data cache_entry" where
  "demo_data_line = \<lparr>ce_valid = False, ce_tag = 0, ce_base = 0, ce_last_access_time = 0, ce_access_counter = 0, ce_data = 0,
     ce_pref = False, ce_dirty = False, ce_appl_id = 0, ce_gpuline = False, ce_skip = False\<rparr>"

definition demo_data_cache :: "dcache_data cache" where
  "demo_data_cache = cache_c demo_data_line 0 0 4 2 64 40 1 False 0 CACHE_DL1 False 1 0"

definition demo_unit :: "MEMORY_TYPE \<Rightarrow> int \<Rightarrow> dcu" where
  "demo_unit lv i = \<lparr>du_id = i, du_noc_id = i, du_level = lv, du_disable = False, du_bypass = False, du_cache = Some demo_data_cache,
     du_port = [port_c [] 1 1 False], du_next_id = 0, du_prev_id = 0, du_coupled_up = False, du_coupled_down = False, du_has_router = True,
     du_done = False, du_type = UNIT_LARGE, du_num_set = 4, du_assoc = 2, du_line_size = 64, du_banks = 1, du_latency = 3,
     du_acc_sim = False, du_igpu_sim = False, du_ptx_sim = False, du_in_queue = \<lparr>q_entry = [], q_size = 1\<rparr>,
     du_wb_queue = \<lparr>q_entry = [], q_size = 1\<rparr>, du_fill_queue = \<lparr>q_entry = [], q_size = 1\<rparr>, du_out_queue = \<lparr>q_entry = [], q_size = 1\<rparr>,
     du_num_read_port = 1, du_num_write_port = 1, du_retry_queue = [], du_cycle = 0\<rparr>"

definition demo_prefetch :: mem_req where
  "demo_prefetch = clear_req\<lparr>mr_type := MRT_DPRF, mr_addr := 0x1000, mr_size := 64, mr_msg_type := NOC_NEW\<rparr>"

definition demo_mem :: "(unit, unit) memsys" where
  "demo_mem = \<lparr>ms_policy = llc_decoupled_network, ms_l1_cache = [demo_unit MEM_L1 0, demo_unit MEM_L1 1],
     ms_l2_cache = [demo_unit MEM_L2 0, demo_unit MEM_L2 1], ms_l3_cache = [demo_unit MEM_L3 0], ms_llc_cache = [demo_unit MEM_LLC 0],
     ms_mshr = [[0], []], ms_mshr_free_list = [[1], [2, 3]], ms_num_core = 2, ms_num_l3 = 1, ms_num_llc = 1, ms_num_mc = 1,
     ms_unique_id = 0, ms_stop_prefetch = 0, ms_cycle = 0, ms_l3_interleave_factor = 64, ms_llc_interleave_factor = 64,
     ms_dram_interleave_factor = 64, ms_page_size = 128, ms_mem_req_pool = (pool_c 1)\<lparr>pool_next := 4\<rparr>,
     ms_reqs = (\<lambda>_. clear_req)(0 := demo_prefetch), ms_MMU = demo_blank_mmu,
     ms_frontend = (\<lambda>_. \<lparr>fr_thread = (\<lambda>_. None), fr_mem_access_thread_num = 0\<rparr>), ms_network = (), ms_pref = ()\<rparr>"

definition demo_mem_knobs :: mem_knobs where
  "demo_mem_knobs = \<lparr>mk_cache = demo_knobs False, mk_mmu = demo_mmu_knobs, mk_PERFECT_DCACHE = False, mk_FETCH_ONLY_LOAD_READY = False,
     KNOB_ENABLE_PHYSICAL_MAPPING = False, KNOB_DCACHE_INFINITE_PORT = False, KNOB_COMPUTE_CAPABILITY_2 = False, KNOB_BYTE_LEVEL_ACCESS = False,
     KNOB_HETERO_GPU_CORE_DISABLE = - 1, KNOB_HETERO_MEM_PRIORITY_CPU = True, KNOB_HETERO_MEM_PRIORITY_GPU = False,
     KNOB_USE_INCOMING_TID_CID_FOR_WB = False, KNOB_ENABLE_IRIS = False, KNOB_ENABLE_NEW_NOC = True, KNOB_NOC_TOPOLOGY = ''ring'',
     KNOB_DRAM_INTERLEAVE_FACTOR = 64\<rparr>"

definition demo_env :: "(unit, unit) mem_env" where
  "demo_env = \<lparr>me_knobs = demo_mem_knobs, me_appl = (\<lambda>_ _. 0), me_core_cycle = (\<lambda>_. 0), me_cycle = 0,
     me_send = (\<lambda>r rs lv i dl di n. Inr (True, rs, n)), me_receive = (\<lambda>lv i n. Inr (Some 0)), me_receive_pop = (\<lambda>lv i n. Inr n),
     me_train = (\<lambda>c lv t a pc u h p. p), me_done = (\<lambda>f r m. Inr (True, m))\<rparr>"

definition demo_load :: req_args where
  "demo_load = \<lparr>ra_type = MRT_DFETCH, ra_addr = 0x1000, ra_size = 64, ra_cache_hit = False, ra_with_data = False, ra_delay = 3,
     ra_uop = Some 5, ra_done_func = Some DCACHE_FILL, ra_unique_num = 7, ra_core_id = 1, ra_thread_id = 0, ra_acc = False\<rparr>"

lemma demo_mem_mshr_ok: "mshr_ok demo_mem"
  by (auto simp add: mshr_ok_def pending_def idle_def demo_mem_def demo_prefetch_def clear_req_def)

lemma demo_gpu_store: "\<not> gpu_store (me_knobs demo_env) a"
  by (simp add: gpu_store_def demo_env_def demo_mem_knobs_def)

theorem queue_push_priority_fifo_witness:
  "fst (queue_push demo_mem_knobs MEM_L2 1 In_Queue 2 demo_mem) \<and>
   q_entry (get_queue In_Queue (dcu_at MEM_L2 1 (snd (queue_push demo_mem_knobs MEM_L2 1 In_Queue 2 demo_mem)))) = [2]"
proof -
  have c: "1 < length (caches MEM_L2 demo_mem)"
    "q_entry (get_queue In_Queue (dcu_at MEM_L2 1 demo_mem)) = []" "q_size (get_queue In_Queue (dcu_at MEM_L2 1 demo_mem)) = 1"
    by (simp_all add: demo_mem_def caches_def dcu_at_def demo_unit_def get_queue_def)
  then show ?thesis using queue_push_priority_fifo[of 1 MEM_L2 demo_mem In_Queue demo_mem_knobs 2]
    by (auto simp add: case_prod_beta)
qed

theorem new_mem_req_tracks_request_witness:
  "\<exists>ok m'. new_mem_req demo_env demo_load demo_mem = Inr (ok, m') \<and> mshr_ok m' \<and> (ok \<longrightarrow> (\<exists>r. tracked demo_load 1 demo_mem m' r))"
proof -
  have h: "0 \<le> ra_core_id demo_load" "nat (ra_core_id demo_load) < ms_num_core demo_mem"
    "nat (ra_core_id demo_load) < length (caches MEM_L2 demo_mem)" "ra_type demo_load \<noteq> MRT_WB"
    "nat (ra_core_id demo_load) = 1" "ra_type demo_load \<noteq> MRT_DPRF"
    by (simp_all add: demo_load_def demo_mem_def caches_def)
  show ?thesis
    using new_mem_req_tracks_request[OF demo_mem_mshr_ok h(1-4) demo_gpu_store] h(6) unfolding h(5) by metis
qed

theorem promoted_prefetch_leaks_witness:
  "\<exists>m1 m2. new_mem_req demo_env demo_load demo_mem = Inr (True, m1) \<and>
     free_req (run_done demo_env) (mr_core_id (ms_reqs m1 0)) 0 m1 = Inr m2 \<and> 0 \<in> set (ms_mshr m2 ! 0) \<and> 0 \<in> set (ms_mshr_free_list m2 ! 1) \<and> \<not> mshr_ok m2"
proof -
  have "search_all (ra_addr demo_load) (ra_size demo_load) demo_mem = Some 0"
    by (simp add: search_all_def demo_load_def demo_mem_def covers_def demo_prefetch_def clear_req_def)
  then show ?thesis using promoted_prefetch_leaks[OF demo_mem_mshr_ok, of 0 0 demo_load demo_env] demo_gpu_store[of demo_load]
    by (simp add: demo_load_def demo_mem_def demo_prefetch_def clear_req_def)
qed

theorem refused_packet_duplicated_witness:
  "\<exists>m'. fold_res (\<lambda>_. receive_packet demo_env MEM_L2 1) (replicate 3 ())
       (snd (queue_push demo_mem_knobs MEM_L2 1 In_Queue 2 demo_mem)) = Inr m' \<and> du_retry_queue (dcu_at MEM_L2 1 m') = [0, 0, 0]"
proof -
  let ?m = "snd (queue_push demo_mem_knobs MEM_L2 1 In_Queue 2 demo_mem)"
  have nf: "\<not> queue_full (get_queue In_Queue (dcu_at MEM_L2 1 demo_mem))"
    by (simp add: demo_mem_def caches_def dcu_at_def demo_unit_def get_queue_def queue_full_def)
  have m: "1 < length (caches MEM_L2 ?m)" "dcu_full (dcu_at MEM_L2 1 ?m)" "du_has_router (dcu_at MEM_L2 1 ?m)"
    "mr_msg_type (ms_reqs ?m 0) = NOC_NEW" "du_retry_queue (dcu_at MEM_L2 1 ?m) = []"
    unfolding queue_push_room[OF nf]
    by (simp_all add: demo_mem_def caches_def dcu_at_def upd_dcu_def upd_req_def Let_def demo_unit_def upd_queue_def dcu_full_def queue_full_def demo_prefetch_def)
  show ?thesis using refused_packet_duplicated[OF m(1-3) _ m(4), of demo_env 3] m(5)
    by (auto simp add: demo_env_def demo_mem_knobs_def numeral_3_eq_3)
qed

theorem invalidate_reaches_first_unit_only_witness:
  "\<exists>m'. invalidate 0x1000 demo_mem = Inr m' \<and> dcu_at MEM_L1 1 m' = dcu_at MEM_L1 1 demo_mem"
proof -
  have wf: "cache_wf demo_data_cache" unfolding demo_data_cache_def by (rule cache_c_wf) simp_all
  have o: "inval_order demo_mem = (MEM_L1, 0) # tl (inval_order demo_mem)"
    by (simp add: inval_order_def demo_mem_def Let_def upt_rec)
  have h: "0 < length (caches MEM_L1 demo_mem)" "du_cache (dcu_at MEM_L1 0 demo_mem) = Some demo_data_cache"
    "du_line_size (dcu_at MEM_L1 0 demo_mem) = 64" "ms_page_size demo_mem = 2 * 64"
    by (simp_all add: demo_mem_def caches_def dcu_at_def demo_unit_def)
  have w: "(0 :: nat) < 64" "unat (0x1000 :: Addr) + 2 * 64 < 2 ^ 64" by simp_all
  obtain m' where "invalidate 0x1000 demo_mem = Inr m'"
    "\<forall>lv' j. (lv', j) \<noteq> (MEM_L1, 0) \<longrightarrow> dcu_at lv' j m' = dcu_at lv' j demo_mem"
    using invalidate_reaches_first_unit_only[OF o h(1,2) wf h(3) w(1) h(4) w(2)] by blast
  then show ?thesis by auto
qed

end
