(* ===== verification/SmcRob.thy ===== *)
theory SmcRob
  imports Rob Resource
begin

text \<open>
  The reorder buffers of a GPU core, \<^verbatim>\<open>smc_rob_c\<close> of \<^verbatim>\<open>src/src/rob_smc.h\<close> and
  \<^verbatim>\<open>src/src/rob_smc.cc\<close>: one \<^verbatim>\<open>rob_c\<close> per hardware thread, reserved when a thread starts
  and recycled when it ends. A pointer to one of the buffers is its index in the array
  \<^verbatim>\<open>m_thread_robs\<close>. The unordered map from threads to buffers is an association list; the order
  in which the library traverses it is the parameter \<open>visit\<close>.
\<close>

section \<open>The class\<close>

record thread_knobs =
  KNOB_MAX_THREADS_PER_CORE :: nat
  KNOB_MAX_THREADS_PER_MEDIUM_CORE :: nat
  KNOB_MAX_THREADS_PER_LARGE_CORE :: nat

record smc_rob =
  sm_thread_robs :: "rob list"
  sm_free_list :: "nat list"
  sm_uop_list :: "addr list"
  sm_thread_to_rob_map :: "(int \<times> nat) list"

definition knob_num_threads :: "thread_knobs \<Rightarrow> Unit_Type \<Rightarrow> nat" where
  "knob_num_threads k t =
     (case t of UNIT_SMALL \<Rightarrow> KNOB_MAX_THREADS_PER_CORE k | UNIT_MEDIUM \<Rightarrow> KNOB_MAX_THREADS_PER_MEDIUM_CORE k
      | UNIT_LARGE \<Rightarrow> KNOB_MAX_THREADS_PER_LARGE_CORE k)"

text \<open>\<open>new_rob\<close> is the buffer that the constructor of \<^verbatim>\<open>rob_c\<close> builds.\<close>

definition smc_rob_c :: "thread_knobs \<Rightarrow> Unit_Type \<Rightarrow> rob \<Rightarrow> smc_rob" where
  "smc_rob_c k t new_rob =
     \<lparr>sm_thread_robs = replicate (knob_num_threads k t) new_rob, sm_free_list = [0..<knob_num_threads k t],
      sm_uop_list = [], sm_thread_to_rob_map = []\<rparr>"

text \<open>The search for a free buffer that follows the failing assertion is never reached.\<close>

definition get_thread_rob :: "int \<Rightarrow> smc_rob \<Rightarrow> nat res" where
  "get_thread_rob tid s =
     check (0 \<le> tid) AssertFailed
       (case map_of (sm_thread_to_rob_map s) tid of
          None \<Rightarrow> Inl AssertFailed
        | Some i \<Rightarrow> check (i < length (sm_thread_robs s)) OutOfBounds (Inr i))"

definition get_thread_rob_id :: "int \<Rightarrow> smc_rob \<Rightarrow> int res" where
  "get_thread_rob_id tid s =
     check (0 \<le> tid) AssertFailed
       (Inr (case map_of (sm_thread_to_rob_map s) tid of None \<Rightarrow> - 1 | Some i \<Rightarrow> int i))"

definition reserve_rob :: "int \<Rightarrow> smc_rob \<Rightarrow> (nat \<times> smc_rob) res" where
  "reserve_rob tid s =
     check (0 \<le> tid) AssertFailed (check (map_of (sm_thread_to_rob_map s) tid = None) AssertFailed
       (case sm_free_list s of
          [] \<Rightarrow> Inl AssertFailed
        | i # is \<Rightarrow> res_bind (arr_get (sm_thread_robs s) i) (\<lambda>r.
            Inr (i, s\<lparr>sm_free_list := is, sm_thread_to_rob_map := (tid, i) # sm_thread_to_rob_map s,
                      sm_thread_robs := (sm_thread_robs s)[i := rob_reinit r]\<rparr>))))"

definition free_rob :: "int \<Rightarrow> smc_rob \<Rightarrow> smc_rob res" where
  "free_rob tid s =
     check (0 \<le> tid) AssertFailed
       (case map_of (sm_thread_to_rob_map s) tid of
          None \<Rightarrow> Inl AssertFailed
        | Some i \<Rightarrow> Inr (s\<lparr>sm_free_list := sm_free_list s @ [i],
                          sm_thread_to_rob_map := filter (\<lambda>(t, _). t \<noteq> tid) (sm_thread_to_rob_map s)\<rparr>))"

text \<open>The order in which ready uops should retire; the code never sorts with it.\<close>

definition sort_uops :: "uop \<Rightarrow> uop \<Rightarrow> bool" where
  "sort_uops a b =
     (if u_done_cycle a < u_done_cycle b then True
      else if u_done_cycle a = u_done_cycle b
      then if u_sched_cycle a < u_sched_cycle b then True
           else if u_sched_cycle a = u_sched_cycle b then u_thread_id a < u_thread_id b else False
      else False)"

definition retireable :: "Counter \<Rightarrow> uop \<Rightarrow> bool" where
  "retireable cycle u \<longleftrightarrow> u_done_cycle u \<noteq> 0 \<and> u_done_cycle u \<le> cycle"

definition collect_ready :: "(addr \<Rightarrow> uop) \<Rightarrow> Counter \<Rightarrow> int \<times> nat \<Rightarrow> smc_rob \<Rightarrow> smc_rob res" where
  "collect_ready us cycle = (\<lambda>(_, i) s.
     res_bind (arr_get (sm_thread_robs s) i) (\<lambda>r.
     if entries r \<noteq> 0
     then res_bind (rob_front r) (\<lambda>p. case p of
            None \<Rightarrow> Inl NullPointer
          | Some a \<Rightarrow> Inr (if retireable cycle (us a) then s\<lparr>sm_uop_list := sm_uop_list s @ [a]\<rparr> else s))
     else Inr s))"

text \<open>The argument \<open>n\<close> is not used, and the list is not cleared first: the caller clears it.\<close>

definition get_n_uops_in_ready_order ::
  "((int \<times> nat) list \<Rightarrow> (int \<times> nat) list) \<Rightarrow> nat \<Rightarrow> (addr \<Rightarrow> uop) \<Rightarrow> Counter \<Rightarrow> smc_rob \<Rightarrow> smc_rob res" where
  "get_n_uops_in_ready_order visit n us cycle s = fold_res (collect_ready us cycle) (visit (sm_thread_to_rob_map s)) s"

section \<open>The invariant\<close>

definition smc_wf :: "smc_rob \<Rightarrow> bool" where
  "smc_wf s \<longleftrightarrow>
     distinct (sm_free_list s @ map snd (sm_thread_to_rob_map s)) \<and>
     set (sm_free_list s @ map snd (sm_thread_to_rob_map s)) = {..<length (sm_thread_robs s)} \<and>
     distinct (map fst (sm_thread_to_rob_map s)) \<and> (\<forall>t \<in> fst ` set (sm_thread_to_rob_map s). 0 \<le> t) \<and>
     list_all rob_wf (sm_thread_robs s)"

definition running :: "smc_rob \<Rightarrow> int set" where
  "running s = fst ` set (sm_thread_to_rob_map s)"

lemma running_iff: "t \<in> running s \<longleftrightarrow> map_of (sm_thread_to_rob_map s) t \<noteq> None"
  by (simp add: running_def map_of_eq_None_iff)

lemma smc_rob_c_wf: "rob_wf r \<Longrightarrow> smc_wf (smc_rob_c k t r)"
  by (auto simp add: smc_wf_def smc_rob_c_def list_all_iff)

lemma get_thread_rob_spec:
  assumes wf: "smc_wf s" and t: "t \<in> running s"
  obtains i where "get_thread_rob t s = Inr i" "map_of (sm_thread_to_rob_map s) t = Some i"
    "i < length (sm_thread_robs s)" "rob_wf (sm_thread_robs s ! i)"
proof -
  from t obtain i where i: "map_of (sm_thread_to_rob_map s) t = Some i" by (auto simp add: running_iff)
  then have "(t, i) \<in> set (sm_thread_to_rob_map s)" by (rule map_of_SomeD)
  then have "0 \<le> t" "i \<in> set (sm_free_list s @ map snd (sm_thread_to_rob_map s))"
    using wf by (force simp add: smc_wf_def)+
  with wf have "0 \<le> t" "i < length (sm_thread_robs s)" by (simp_all add: smc_wf_def)
  with wf i show ?thesis
    by (intro that[of i]) (simp_all add: get_thread_rob_def smc_wf_def list_all_length)
qed

lemma rob_reinit_wf:
  assumes "rob_wf r"
  shows "rob_wf (rob_reinit r)" "items (rob_reinit r) = []"
  using assms by (simp_all add: rob_reinit_def rob_wf_def entries_def items_def slot_def)

lemma reserve_rob_wf:
  assumes wf: "smc_wf s" and t: "0 \<le> t" "t \<notin> running s" and free: "sm_free_list s \<noteq> []"
  obtains i s' where "reserve_rob t s = Inr (i, s')" "smc_wf s'" "running s' = insert t (running s)"
    "get_thread_rob t s' = Inr i" "items (sm_thread_robs s' ! i) = []"
    "\<And>t'. t' \<in> running s \<Longrightarrow> get_thread_rob t' s' = get_thread_rob t' s \<and> get_thread_rob t' s \<noteq> Inr i"
    "\<And>j. j \<noteq> i \<Longrightarrow> sm_thread_robs s' ! j = sm_thread_robs s ! j"
    "length (sm_free_list s) = Suc (length (sm_free_list s'))"
proof -
  from free obtain i rest where fl: "sm_free_list s = i # rest" by (cases "sm_free_list s") auto
  have i: "i < length (sm_thread_robs s)" and in_map: "i \<notin> snd ` set (sm_thread_to_rob_map s)"
    using wf by (auto simp add: smc_wf_def fl)
  let ?r = "rob_reinit (sm_thread_robs s ! i)"
  let ?s = "s\<lparr>sm_free_list := rest, sm_thread_to_rob_map := (t, i) # sm_thread_to_rob_map s,
    sm_thread_robs := (sm_thread_robs s)[i := ?r]\<rparr>"
  have eq: "reserve_rob t s = Inr (i, ?s)"
    using t i by (simp add: reserve_rob_def fl running_iff)
  have r: "rob_wf ?r" "items ?r = []"
    using wf i by (auto simp add: smc_wf_def list_all_length intro!: rob_reinit_wf)
  have wf': "smc_wf ?s"
    using wf t r(1) i in_map by (auto simp add: smc_wf_def fl running_def intro!: list_all_update)
  show ?thesis
  proof (rule that[OF eq wf'])
    show "running ?s = insert t (running s)" by (simp add: running_def)
    show "get_thread_rob t ?s = Inr i" using t i by (simp add: get_thread_rob_def)
    show "items (sm_thread_robs ?s ! i) = []" using i r by simp
    show "length (sm_free_list s) = Suc (length (sm_free_list ?s))" by (simp add: fl)
    fix t' assume t': "t' \<in> running s"
    then have "t' \<noteq> t" using t by blast
    from get_thread_rob_spec[OF wf t'] obtain j where j: "get_thread_rob t' s = Inr j"
      "map_of (sm_thread_to_rob_map s) t' = Some j" by blast
    from map_of_SomeD[OF j(2)] in_map have "j \<noteq> i" by force
    with j \<open>t' \<noteq> t\<close> show "get_thread_rob t' ?s = get_thread_rob t' s \<and> get_thread_rob t' s \<noteq> Inr i"
      by (simp add: get_thread_rob_def)
  qed simp
qed

lemma map_of_filter_neq: "map_of (filter (\<lambda>(a, _). a \<noteq> t) xs) t' = (if t' = t then None else map_of xs t')"
  by (induction xs) auto

lemma filter_key_mset:
  assumes "distinct (map fst xs)" "map_of xs t = Some i"
  shows "mset (map snd (filter (\<lambda>(a, _). a \<noteq> t) xs)) = mset (map snd xs) - {#i#}" "(t, i) \<in> set xs"
proof -
  show "(t, i) \<in> set xs" using assms(2) by (rule map_of_SomeD)
  show "mset (map snd (filter (\<lambda>(a, _). a \<noteq> t) xs)) = mset (map snd xs) - {#i#}"
    using assms
  proof (induction xs)
    case (Cons x xs)
    show ?case
    proof (cases "fst x = t")
      case True
      with Cons.prems have "\<forall>y\<in>set xs. fst y \<noteq> t" by (force simp add: image_iff)
      then have "filter (\<lambda>(a, _). a \<noteq> t) xs = xs" by (intro filter_True) (auto simp add: split_beta)
      with True Cons.prems have "filter (\<lambda>(a, _). a \<noteq> t) (x # xs) = xs" "i = snd x" by (auto simp add: split_beta)
      then show ?thesis by (simp only: list.map mset.simps) simp
    next
      case False
      with Cons.prems have m: "map_of xs t = Some i" by (cases x) simp
      from map_of_SomeD[OF m] have "i \<in> snd ` set xs" by force
      then have "i \<in># mset (map snd xs)" by simp
      with Cons.IH Cons.prems m False show ?thesis by (cases x) (simp add: image_mset.compositionality)
    qed
  qed simp
qed

lemma free_rob_wf:
  assumes wf: "smc_wf s" and t: "t \<in> running s"
  obtains s' where "free_rob t s = Inr s'" "smc_wf s'" "running s' = running s - {t}" "sm_free_list s' \<noteq> []"
    "\<And>t'. t' \<noteq> t \<Longrightarrow> get_thread_rob t' s' = get_thread_rob t' s" "sm_thread_robs s' = sm_thread_robs s"
proof -
  from get_thread_rob_spec[OF wf t] obtain i where i: "map_of (sm_thread_to_rob_map s) t = Some i" by blast
  have d: "distinct (map fst (sm_thread_to_rob_map s))" using wf by (simp add: smc_wf_def)
  note F = filter_key_mset[OF d i]
  let ?m = "filter (\<lambda>(a, _). a \<noteq> t) (sm_thread_to_rob_map s)"
  let ?s = "s\<lparr>sm_free_list := sm_free_list s @ [i], sm_thread_to_rob_map := ?m\<rparr>"
  have "0 \<le> t" using wf F(2) by (force simp add: smc_wf_def)
  then have eq: "free_rob t s = Inr ?s" using i by (simp add: free_rob_def)
  have "i \<in># mset (map snd (sm_thread_to_rob_map s))" using F(2) by force
  then have perm: "mset (sm_free_list ?s @ map snd ?m) = mset (sm_free_list s @ map snd (sm_thread_to_rob_map s))"
    using F(1) by simp
  have "distinct (sm_free_list ?s @ map snd ?m)"
    using wf perm by (metis mset_eq_imp_distinct_iff smc_wf_def)
  moreover have "set (sm_free_list ?s @ map snd ?m) = {..<length (sm_thread_robs s)}"
    using wf perm by (metis mset_eq_setD smc_wf_def)
  moreover have "distinct (map fst ?m)" using d by (rule distinct_map_filter)
  ultimately have wf': "smc_wf ?s" using wf by (auto simp add: smc_wf_def)
  show ?thesis
  proof (rule that[OF eq wf'])
    show "running ?s = running s - {t}" by (auto simp add: running_def)
    show "\<And>t'. t' \<noteq> t \<Longrightarrow> get_thread_rob t' ?s = get_thread_rob t' s"
      by (simp add: get_thread_rob_def map_of_filter_neq cong: option.case_cong)
  qed simp_all
qed

section \<open>The buffers over the life of the threads\<close>

text \<open>The states that starting and ending threads reach from a new object; what happens in a buffer
  meanwhile is any change that keeps it well formed.\<close>

inductive smc_run :: "smc_rob \<Rightarrow> smc_rob \<Rightarrow> bool" where
  start: "smc_run s s"
| reserve: "smc_run s s1 \<Longrightarrow> reserve_rob t s1 = Inr (i, s2) \<Longrightarrow> smc_run s s2"
| free: "smc_run s s1 \<Longrightarrow> free_rob t s1 = Inr s2 \<Longrightarrow> smc_run s s2"
| work: "smc_run s s1 \<Longrightarrow> rob_wf r \<Longrightarrow> smc_run s (s1\<lparr>sm_thread_robs := (sm_thread_robs s1)[i := r]\<rparr>)"

lemma reserve_rob_pre:
  assumes "reserve_rob t s = Inr (i, s')"
  shows "0 \<le> t" "t \<notin> running s" "sm_free_list s \<noteq> []"
  using assms by (auto simp add: reserve_rob_def res_simps running_iff split: list.splits)

lemma free_rob_pre:
  assumes "free_rob t s = Inr s'"
  shows "t \<in> running s"
  using assms by (auto simp add: free_rob_def res_simps running_iff split: option.splits)

lemma smc_run_wf:
  "smc_run s s' \<Longrightarrow> smc_wf s \<Longrightarrow> smc_wf s' \<and> length (sm_thread_robs s') = length (sm_thread_robs s)"
proof (induction rule: smc_run.induct)
  case (start s)
  then show ?case by simp
next
  case (reserve s s1 t i s2)
  then have wf: "smc_wf s1" by simp
  note P = reserve_rob_pre[OF reserve.hyps(2)]
  from reserve_rob_wf[OF wf P] reserve.hyps(2) have "smc_wf s2" by (metis Inr_inject prod.inject)
  moreover have "length (sm_thread_robs s2) = length (sm_thread_robs s1)"
    using reserve.hyps(2) by (auto simp add: reserve_rob_def res_simps split: list.splits)
  ultimately show ?case using reserve by simp
next
  case (free s s1 t s2)
  then have wf: "smc_wf s1" by simp
  from free_rob_wf[OF wf free_rob_pre[OF free.hyps(2)]] free.hyps(2) have "smc_wf s2" "sm_thread_robs s2 = sm_thread_robs s1"
    by (metis Inr_inject)+
  then show ?case using free by simp
next
  case (work s s1 r i)
  then show ?case by (auto simp add: smc_wf_def intro: list_all_update)
qed

lemma card_running:
  assumes "smc_wf s"
  shows "card (running s) + length (sm_free_list s) = length (sm_thread_robs s)"
proof -
  let ?l = "sm_free_list s @ map snd (sm_thread_to_rob_map s)"
  have "length ?l = card (set ?l)" using assms by (metis distinct_card smc_wf_def)
  also have "\<dots> = length (sm_thread_robs s)" using assms by (metis card_lessThan smc_wf_def)
  finally have "length (sm_free_list s) + length (sm_thread_to_rob_map s) = length (sm_thread_robs s)" by simp
  moreover have "card (running s) = length (sm_thread_to_rob_map s)"
    using assms distinct_card[of "map fst (sm_thread_to_rob_map s)"] by (simp add: smc_wf_def running_def)
  ultimately show ?thesis by simp
qed

text \<open>C17. Through any sequence of starting and ending threads, every running thread of a GPU core has a
  reorder buffer, no two threads share one, a new thread gets an empty one as long as fewer than
  the configured number run, and otherwise the reservation is the failing assertion.\<close>

theorem smc_robs_exclusive:
  assumes "rob_wf r" "smc_run (smc_rob_c k ty r) s"
  shows "(\<forall>t\<in>running s. \<exists>i < knob_num_threads k ty. get_thread_rob t s = Inr i \<and>
      (\<forall>t'\<in>running s. get_thread_rob t' s = Inr i \<longrightarrow> t' = t)) \<and>
    (0 \<le> t \<and> t \<notin> running s \<longrightarrow>
      (if card (running s) < knob_num_threads k ty
       then \<exists>i s'. reserve_rob t s = Inr (i, s') \<and> get_thread_rob t s' = Inr i \<and>
              items (sm_thread_robs s' ! i) = [] \<and> running s' = insert t (running s)
       else reserve_rob t s = Inl AssertFailed))"
proof -
  from smc_run_wf[OF assms(2)] smc_rob_c_wf[OF assms(1)] have wf: "smc_wf s"
    and len: "length (sm_thread_robs s) = knob_num_threads k ty" by (simp_all add: smc_rob_c_def)
  have excl: "\<exists>i < knob_num_threads k ty. get_thread_rob t s = Inr i \<and>
      (\<forall>t'\<in>running s. get_thread_rob t' s = Inr i \<longrightarrow> t' = t)" if t: "t \<in> running s" for t
  proof -
    from get_thread_rob_spec[OF wf t] obtain i where i: "get_thread_rob t s = Inr i"
      "map_of (sm_thread_to_rob_map s) t = Some i" "i < length (sm_thread_robs s)" by blast
    have "t' = t" if "t' \<in> running s" "get_thread_rob t' s = Inr i" for t'
    proof -
      from get_thread_rob_spec[OF wf that(1)] that(2) have "map_of (sm_thread_to_rob_map s) t' = Some i" by force
      then have "(t', i) \<in> set (sm_thread_to_rob_map s)" "(t, i) \<in> set (sm_thread_to_rob_map s)"
        using i(2) by (simp_all add: map_of_SomeD)
      then show ?thesis using wf by (force simp add: smc_wf_def distinct_map inj_on_def)
    qed
    with i len show ?thesis by auto
  qed
  have res: "if card (running s) < knob_num_threads k ty
       then \<exists>i s'. reserve_rob t s = Inr (i, s') \<and> get_thread_rob t s' = Inr i \<and>
              items (sm_thread_robs s' ! i) = [] \<and> running s' = insert t (running s)
       else reserve_rob t s = Inl AssertFailed" if t: "0 \<le> t" "t \<notin> running s"
  proof (cases "sm_free_list s = []")
    case True
    with card_running[OF wf] t show ?thesis by (simp add: len reserve_rob_def running_iff)
  next
    case False
    with card_running[OF wf] len have "card (running s) < knob_num_threads k ty" by (cases "sm_free_list s") auto
    with reserve_rob_wf[OF wf t False] show ?thesis by (metis (no_types))
  qed
  show ?thesis using excl res by blast
qed

definition demo_threads :: thread_knobs where
  "demo_threads = \<lparr>KNOB_MAX_THREADS_PER_CORE = 1, KNOB_MAX_THREADS_PER_MEDIUM_CORE = 4, KNOB_MAX_THREADS_PER_LARGE_CORE = 8\<rparr>"

theorem smc_robs_exclusive_witness:
  "\<exists>i s. reserve_rob 5 (smc_rob_c demo_threads UNIT_SMALL (rob_c 0 0 0 4)) = Inr (i, s) \<and> 5 \<in> running s \<and>
     (\<exists>j < 1. get_thread_rob 5 s = Inr j) \<and> reserve_rob 6 s = Inl AssertFailed"
proof -
  have wf: "rob_wf (rob_c 0 0 0 4)" using rob_new_wf[of 4] by simp
  let ?s0 = "smc_rob_c demo_threads UNIT_SMALL (rob_c 0 0 0 4)"
  have n: "knob_num_threads demo_threads UNIT_SMALL = 1" by (simp add: knob_num_threads_def demo_threads_def)
  note S0 = smc_robs_exclusive[OF wf smc_run.start, of demo_threads UNIT_SMALL 5]
  have none: "running ?s0 = {}" by (simp add: running_def smc_rob_c_def)
  with S0 n obtain i s where r: "reserve_rob 5 ?s0 = Inr (i, s)" "running s = {5}" by auto
  note S1 = smc_robs_exclusive[OF wf smc_run.reserve[OF smc_run.start r(1)], of 6]
  from S1 r(2) n have "reserve_rob 6 s = Inl AssertFailed" "\<exists>j < 1. get_thread_rob 5 s = Inr j" by auto
  with r show ?thesis by auto
qed

end
