(* ===== verification/Exec.thy ===== *)
theory Exec
  imports Utils SmcRob BranchPred CoreCache
begin

text \<open>
  The execution stage \<^verbatim>\<open>exec_c\<close> of \<^verbatim>\<open>src/src/exec.h\<close> and \<^verbatim>\<open>src/src/exec.cc\<close> (the
  build without \<^verbatim>\<open>USING_SST\<close>): execution ports, latencies, memory operations with their child
  uops, fences and the resolution of branches. It composes the reorder buffers, the branch
  predictors, the caches of the core and the frontend; the memory system is the parameter
  \<open>ops\<close>. The events of the statistics and the power model are left out.
\<close>

section \<open>The stage\<close>

definition allocq_index :: "ALLOCQ_Type \<Rightarrow> nat" where
  "allocq_index q = (case q of gen_ALLOCQ \<Rightarrow> 0 | mem_ALLOCQ \<Rightarrow> 1 | fp_ALLOCQ \<Rightarrow> 2 | simd_ALLOCQ \<Rightarrow> 3 | max_ALLOCQ \<Rightarrow> 4)"

text \<open>The scheduling rates of the three kinds of core and their core type.\<close>

record unit_rates =
  ur_isched_rate :: int
  ur_msched_rate :: int
  ur_fsched_rate :: int
  ur_ssched_rate :: int
  ur_core_type :: string

record exec_knobs =
  ek_rates :: "Unit_Type \<Rightarrow> unit_rates"
  ek_rob :: rob_knobs
  ek_bp :: bp_knobs
  ek_cache :: cache_knobs
  KNOB_ONE_CYCLE_EXEC :: bool
  KNOB_PERFECT_DCACHE :: bool
  KNOB_FETCH_ONLY_LOAD_READY :: bool
  KNOB_MT_NO_FETCH_BR :: bool
  KNOB_EXEC_RETIRE_LATENCY :: int
  KNOB_EXTRA_LD_LATENCY :: int
  ek_EXTRA_RECOVERY_CYCLES :: Counter

text \<open>A core has either the buffer \<open>ex_rob\<close> or the buffers \<open>ex_gpu_rob\<close>. The uops are in
  \<open>ex_mem\<close>.\<close>

record 'm exec_stage =
  ex_core_id :: int
  ex_acc_sim :: bool
  ex_igpu_sim :: bool
  ex_ptx_sim :: bool
  ex_latency :: "Uop_Type \<Rightarrow> int"
  ex_cur_core_cycle :: Counter
  ex_max_port :: "int list"
  ex_port_used :: "int list"
  ex_bank_busy :: "bool list"
  ex_rob :: rob
  ex_gpu_rob :: smc_rob
  ex_bp_data :: bp_data
  ex_mem :: "'m core_mem"

abbreviation ex_uops :: "'m exec_stage \<Rightarrow> addr \<Rightarrow> uop" where
  "ex_uops s \<equiv> cm_uops (ex_mem s)"

definition on_mem :: "('m core_mem \<Rightarrow> 'm core_mem) \<Rightarrow> 'm exec_stage \<Rightarrow> 'm exec_stage" where
  "on_mem f s = s\<lparr>ex_mem := f (ex_mem s)\<rparr>"

definition set_uop :: "addr \<Rightarrow> (uop \<Rightarrow> uop) \<Rightarrow> 'm exec_stage \<Rightarrow> 'm exec_stage" where
  "set_uop a f = on_mem (upd_uop a f)"

text \<open>\<^verbatim>\<open>EXEC_CONFIG\<close>. A medium core does not set \<^verbatim>\<open>m_igpu_sim\<close>: it keeps its indeterminate
  value \<open>ji\<close>.\<close>

definition EXEC_CONFIG :: "exec_knobs \<Rightarrow> Unit_Type \<Rightarrow> bool \<Rightarrow> int list \<times> bool \<times> bool \<times> bool" where
  "EXEC_CONFIG k t ji =
     (let r = ek_rates k t; ptx = (ur_core_type r = ''ptx'');
          igpu = (if t = UNIT_MEDIUM then ji else ur_core_type r = ''igpu'')
      in ([ur_isched_rate r, ur_msched_rate r, ur_fsched_rate r, ur_ssched_rate r], ptx, igpu, igpu \<or> ptx))"

text \<open>The tables of latencies are those of \<^verbatim>\<open>src/def\<close>: \<open>ptx\<close>, \<open>igpu\<close> and the one of the processor
  that the knob selects, \<open>x86\<close>. A type without an entry keeps its indeterminate value.\<close>

definition bind_latencies :: "(Uop_Type \<times> int) list \<Rightarrow> (Uop_Type \<Rightarrow> int) \<Rightarrow> Uop_Type \<Rightarrow> int" where
  "bind_latencies tbl = fold (\<lambda>(t, l) m. m(t := l)) tbl"

definition exec_c ::
  "exec_knobs \<Rightarrow> (Uop_Type \<times> int) list \<Rightarrow> (Uop_Type \<times> int) list \<Rightarrow> (Uop_Type \<times> int) list \<Rightarrow> Unit_Type \<Rightarrow>
   'm exec_stage \<Rightarrow> 'm exec_stage" where
  "exec_c k ptx igpu x86 t junk =
     (let (ports, ptx_sim, igpu_sim, acc_sim) = EXEC_CONFIG k t (ex_igpu_sim junk)
      in junk\<lparr>ex_max_port := ports, ex_ptx_sim := ptx_sim, ex_igpu_sim := igpu_sim, ex_acc_sim := acc_sim,
              ex_port_used := replicate 4 0,
              ex_latency := bind_latencies (if ptx_sim then ptx else if igpu_sim then igpu else x86) (ex_latency junk)\<rparr>)"

definition clear_ports :: "'m exec_stage \<Rightarrow> 'm exec_stage" where
  "clear_ports s = s\<lparr>ex_port_used := replicate 4 0\<rparr>"

definition get_latency :: "exec_knobs \<Rightarrow> Uop_Type \<Rightarrow> 'm exec_stage \<Rightarrow> int" where
  "get_latency k t s = (if KNOB_ONE_CYCLE_EXEC k then 1 else ex_latency s t)"

definition port_available :: "nat \<Rightarrow> 'm exec_stage \<Rightarrow> bool res" where
  "port_available q s =
     res_bind (arr_get (ex_port_used s) q) (\<lambda>used. res_bind (arr_get (ex_max_port s) q) (\<lambda>mx. Inr (used < mx)))"

text \<open>The uop of an entry: the thread -1 is a core with one reorder buffer.\<close>

definition entry_uop :: "int \<Rightarrow> nat \<Rightarrow> 'm exec_stage \<Rightarrow> addr res" where
  "entry_uop tid entry s =
     res_bind (if tid = - 1 then Inr (ex_rob s)
               else res_bind (get_thread_rob tid (ex_gpu_rob s)) (arr_get (sm_thread_robs (ex_gpu_rob s)))) (\<lambda>r.
     res_bind (rob_at entry r) (\<lambda>p. case p of None \<Rightarrow> Inl NullPointer | Some a \<Rightarrow> Inr a))"

definition use_port :: "int \<Rightarrow> nat \<Rightarrow> 'm exec_stage \<Rightarrow> 'm exec_stage res" where
  "use_port tid entry s =
     res_bind (entry_uop tid entry s) (\<lambda>a.
     let u = ex_uops s a; q = allocq_index (u_allocq_num u) in
     if u_bogus u then Inr s
     else res_bind (arr_get (ex_port_used s) q) (\<lambda>n. Inr (s\<lparr>ex_port_used := (ex_port_used s)[q := n + 1]\<rparr>)))"

definition exec_run_a_cycle :: "'m exec_stage \<Rightarrow> 'm exec_stage" where
  "exec_run_a_cycle s = s\<lparr>ex_bank_busy := replicate 129 False\<rparr>"

section \<open>Memory operations\<close>

text \<open>One access for the uop \<open>a\<close>, by the memory type \<open>ty\<close> of the instruction. The result is 0
  when the access cannot be made now, -1 for a miss, otherwise the latency of a hit.\<close>

definition mem_access ::
  "'m mem_ops \<Rightarrow> exec_knobs \<Rightarrow> Counter \<Rightarrow> Mem_Type \<Rightarrow> addr \<Rightarrow> 'm core_mem \<Rightarrow> (int \<times> 'm core_mem) res" where
  "mem_access ops k cycle ty a s =
     (if ty = MEM_LD_SM \<or> ty = MEM_ST_SM
      then case cm_shared_memory s of
             None \<Rightarrow> Inl NullPointer
           | Some c \<Rightarrow> res_bind (sw_load cycle (cm_uops s a) c) (\<lambda>(l, c'). Inr (l, s\<lparr>cm_shared_memory := Some c'\<rparr>))
      else if ty = MEM_LD_CM
      then case cm_const_cache s of
             None \<Rightarrow> Inl NullPointer
           | Some c \<Rightarrow> res_bind (ro_load ops (KNOB_EXTRA_LD_LATENCY k) cycle a (cm_uops s) c (cm_memory s)) (\<lambda>(l, c', m).
               Inr (l, s\<lparr>cm_const_cache := Some c', cm_memory := m\<rparr>))
      else if ty = MEM_LD_TM
      then case cm_texture_cache s of
             None \<Rightarrow> Inl NullPointer
           | Some c \<Rightarrow> res_bind (ro_load ops (KNOB_EXTRA_LD_LATENCY k) cycle a (cm_uops s) c (cm_memory s)) (\<lambda>(l, c', m).
               Inr (l, s\<lparr>cm_texture_cache := Some c', cm_memory := m\<rparr>))
      else res_bind (mo_access ops a (cm_uops s) (cm_memory s)) (\<lambda>(l, us, m).
             Inr (l, s\<lparr>cm_uops := us, cm_memory := m\<rparr>)))"

text \<open>An instruction with one access.\<close>

definition exec_single ::
  "'m mem_ops \<Rightarrow> exec_knobs \<Rightarrow> Counter \<Rightarrow> addr \<Rightarrow> 'm core_mem \<Rightarrow> (int \<times> 'm core_mem) res" where
  "exec_single ops k cycle a s =
     res_bind (mem_access ops k cycle (u_mem_type (cm_uops s a)) a s) (\<lambda>(l, s1).
     Inr (l, if l \<noteq> 0 then upd_uop a (\<lambda>u. u\<lparr>u_mem_start_cycle := cycle\<rparr>) s1 else s1))"

definition CLEAR_BIT :: "uns64 \<Rightarrow> nat \<Rightarrow> uns64" where
  "CLEAR_BIT val pos = val AND NOT (push_bit pos 1)"

text \<open>The access of one child: the new longest latency of a hit and the new state.\<close>

definition exec_child ::
  "'m mem_ops \<Rightarrow> exec_knobs \<Rightarrow> Counter \<Rightarrow> addr \<Rightarrow> nat \<Rightarrow> int \<Rightarrow> 'm core_mem \<Rightarrow> (int \<times> 'm core_mem) res" where
  "exec_child ops k cycle a i max_latency s =
     (let ty = u_mem_type (cm_uops s a) in
      res_bind (arr_get (u_child_uops (cm_uops s a)) i) (\<lambda>child.
      res_bind (mem_access ops k cycle ty child s) (\<lambda>(l, s1).
      if l = 0 then Inr (max_latency, s1)
      else let start = (\<lambda>u. if (ty = MEM_LD_SM \<or> ty = MEM_ST_SM) \<or> u_mem_start_cycle u = 0
                            then u\<lparr>u_mem_start_cycle := cycle\<rparr> else u);
               issued = (\<lambda>u. u\<lparr>u_pending_child_uops := CLEAR_BIT (u_pending_child_uops u) i\<rparr>);
               hit = (\<lambda>u. if l > 0 then u\<lparr>u_num_child_uops_done := u_num_child_uops_done u + 1\<rparr> else u)
           in Inr (if l > 0 \<and> l > max_latency then l else max_latency, upd_uop a (\<lambda>u. hit (issued (start u))) s1))))"

lemma next_set_bit_range:
  "get_next_set_bit64 val pos = - 1 \<or> int pos \<le> get_next_set_bit64 val pos \<and> get_next_set_bit64 val pos < 64"
proof (cases "\<exists>j. pos \<le> j \<and> j < pos + (64 - pos) \<and> bit val j")
  case True
  define L where "L = (LEAST j. pos \<le> j \<and> bit val j)"
  from True obtain j where j: "pos \<le> j" "j < 64" "bit val j" by auto
  then have "pos \<le> L" "L \<le> j" unfolding L_def by (metis (mono_tags, lifting) LeastI_ex, auto intro: Least_le)
  with j True show ?thesis unfolding get_next_set_bit64_def next_set_bit_loop_spec L_def by simp
next
  case False
  then have "get_next_set_bit64 val pos = - 1" unfolding get_next_set_bit64_def next_set_bit_loop_spec by (rule if_not_P)
  then show ?thesis ..
qed

text \<open>The loop over the pending children. The latency of the instruction that the loop also
  assigns is overwritten after it.\<close>

function child_loop ::
  "'m mem_ops \<Rightarrow> exec_knobs \<Rightarrow> Counter \<Rightarrow> addr \<Rightarrow> int \<Rightarrow> int \<Rightarrow> 'm core_mem \<Rightarrow> (int \<times> 'm core_mem) res" where
  "child_loop ops k cycle a next_set_bit max_latency s =
     (if next_set_bit < 0 then Inr (max_latency, s)
      else res_bind (exec_child ops k cycle a (nat next_set_bit) max_latency s) (\<lambda>r.
           child_loop ops k cycle a
             (get_next_set_bit64 (u_pending_child_uops (cm_uops (snd r) a)) (nat next_set_bit + 1)) (fst r) (snd r)))"
  by pat_completeness auto
termination
proof (relation "measure (\<lambda>(_, _, _, _, n, _, _). if n < 0 then 0 else nat (65 - n) + 1)", goal_cases)
  case 1
  then show ?case by simp
next
  case (2 ops k cycle a n mx s r)
  with next_set_bit_range[of "u_pending_child_uops (cm_uops (snd r) a)" "nat n + 1"] show ?case by auto
qed

declare child_loop.simps [simp del]

definition exec_children ::
  "'m mem_ops \<Rightarrow> exec_knobs \<Rightarrow> Counter \<Rightarrow> addr \<Rightarrow> 'm core_mem \<Rightarrow> (int \<times> 'm core_mem) res" where
  "exec_children ops k cycle a s =
     (let s0 = upd_uop a (\<lambda>u. u\<lparr>u_num_page_table_walks := 0\<rparr>) s in
      res_bind (child_loop ops k cycle a (get_next_set_bit64 (u_pending_child_uops (cm_uops s a)) 0) 0 s0) (\<lambda>(mx, s1).
      let u = cm_uops s1 a in
      Inr (if u_pending_child_uops u \<noteq> 0 then 0
           else if u_num_child_uops u = u_num_child_uops_done u then mx else - 1, s1)))"

text \<open>The execution of a memory instruction; \<open>None\<close> is \<^verbatim>\<open>return false\<close>, otherwise the latency.\<close>

definition exec_memory ::
  "'m mem_ops \<Rightarrow> exec_knobs \<Rightarrow> Counter \<Rightarrow> int \<Rightarrow> nat \<Rightarrow> addr \<Rightarrow> 'm exec_stage \<Rightarrow> (int option \<times> 'm exec_stage) res" where
  "exec_memory ops k cycle tid entry a s =
     (if KNOB_PERFECT_DCACHE k then Inr (Some 1, s)
      else res_bind (if u_num_child_uops (ex_uops s a) = 0 then exec_single ops k cycle a (ex_mem s)
                     else exec_children ops k cycle a (ex_mem s)) (\<lambda>(l, m).
        let s1 = s\<lparr>ex_mem := m\<rparr> in
        if l = 0 then Inr (None, s1)
        else res_bind (use_port tid entry s1) (\<lambda>s2.
          if l = - 1 \<and> ex_acc_sim s2 \<and> KNOB_FETCH_ONLY_LOAD_READY k
          then let u = ex_uops s2 a in
               res_bind (set_load_wait (u_thread_id u) (u_uop_num u) (cm_frontend (ex_mem s2))) (\<lambda>fr.
               Inr (Some l, on_mem (\<lambda>m. m\<lparr>cm_frontend := fr\<rparr>) s2))
          else Inr (Some l, s2))))"

section \<open>Other instructions\<close>

definition fence_of :: "rob_knobs \<Rightarrow> Uop_Type \<Rightarrow> fence_type" where
  "fence_of k t =
     (if \<not> KNOB_ACQ_REL k then FENCE_FULL
      else if t = UOP_REL_FENCE then FENCE_RELEASE else if t = UOP_ACQ_FENCE then FENCE_ACQUIRE else FENCE_FULL)"

text \<open>A fence is recorded in the reorder buffer; without acquire and release it executes once no older
  memory operation is left. A GPU core, whose threads are not -1, has no reorder buffer \<^verbatim>\<open>m_rob\<close>.\<close>

definition exec_fence :: "exec_knobs \<Rightarrow> int \<Rightarrow> nat \<Rightarrow> addr \<Rightarrow> 'm exec_stage \<Rightarrow> (int option \<times> 'm exec_stage) res" where
  "exec_fence k tid entry a s =
     (if KNOB_FENCE_ENABLE (ek_rob k)
      then check (tid = - 1) NullPointer (let s1 = s\<lparr>ex_rob := rob_ins_fence_entry entry (fence_of (ek_rob k) (u_uop_type (ex_uops s a))) (ex_rob s)\<rparr> in
           if KNOB_ACQ_REL (ek_rob k) then Inr (Some 1, s1)
           else res_bind (pending_mem_ops (ek_rob k) (ex_uops s1) entry (ex_rob s1)) (\<lambda>p.
                Inr (if p then None else Some 1, s1)))
      else Inr (Some 1, s))"

definition exec_compute :: "exec_knobs \<Rightarrow> int \<Rightarrow> nat \<Rightarrow> addr \<Rightarrow> 'm exec_stage \<Rightarrow> (int option \<times> 'm exec_stage) res" where
  "exec_compute k tid entry a s =
     (let t = u_uop_type (ex_uops s a) in
      res_bind (use_port tid entry s) (\<lambda>s1.
      if is_fence_type t then exec_fence k tid entry a s1 else Inr (Some (get_latency k t s), s1)))"

section \<open>Branches\<close>

definition resume_cycle :: "exec_knobs \<Rightarrow> 'm exec_stage \<Rightarrow> Counter" where
  "resume_cycle k s = ex_cur_core_cycle s + 1 + ek_EXTRA_RECOVERY_CYCLES k"

definition on_bp :: "(bp_data \<Rightarrow> bp_data) \<Rightarrow> 'm exec_stage \<Rightarrow> 'm exec_stage" where
  "on_bp f s = s\<lparr>ex_bp_data := f (ex_bp_data s)\<rparr>"

definition br_update :: "exec_knobs \<Rightarrow> addr \<Rightarrow> 'm exec_stage \<Rightarrow> 'm exec_stage res" where
  "br_update k a s =
     (if u_cf_type (ex_uops s a) = CF_CBR
      then res_bind (gshare_update (ek_bp k) (ex_uops s a) (bd_bp (ex_bp_data s))) (\<lambda>b. Inr (on_bp (\<lambda>d. d\<lparr>bd_bp := b\<rparr>) s))
      else Inr s)"

definition br_recover :: "exec_knobs \<Rightarrow> addr \<Rightarrow> 'm exec_stage \<Rightarrow> 'm exec_stage" where
  "br_recover k a s =
     (let u = ex_uops s a in
      if u_mispredicted u
      then on_bp (\<lambda>d. d\<lparr>bd_bp := gshare_recover (u_recovery_info u) (bd_bp d),
                       bd_recovery_cycle := (bd_recovery_cycle d)(u_thread_id u := resume_cycle k s),
                       bd_cause_op := (bd_cause_op d)(u_thread_id u := 0)\<rparr>) s
      else s)"

definition btb_missed :: "uop \<Rightarrow> bool" where
  "btb_missed u \<longleftrightarrow> ui_btb_miss (u_uop_info u) \<and> \<not> ui_btb_miss_resolved (u_uop_info u)"

definition br_redirect :: "exec_knobs \<Rightarrow> (int \<Rightarrow> int) \<Rightarrow> Counter \<Rightarrow> addr \<Rightarrow> 'm exec_stage \<Rightarrow> 'm exec_stage res" where
  "br_redirect k appl global_cycle a s =
     (let u = ex_uops s a in
      if btb_missed u
      then res_bind (btb_update (ek_cache k) global_cycle (appl (u_thread_id u)) u (bd_targ_pred (ex_bp_data s))) (\<lambda>btb.
           Inr (set_uop a (\<lambda>u. u\<lparr>u_uop_info := (u_uop_info u)\<lparr>ui_btb_miss_resolved := True\<rparr>\<rparr>)
                 (on_bp (\<lambda>d. d\<lparr>bd_targ_pred := btb,
                           bd_redirect_cycle := (bd_redirect_cycle d)(u_thread_id u := resume_cycle k s)\<rparr>) s)))
      else Inr s)"

definition br_release :: "exec_knobs \<Rightarrow> addr \<Rightarrow> 'm exec_stage \<Rightarrow> 'm exec_stage res" where
  "br_release k a s =
     (if ex_acc_sim s \<and> KNOB_MT_NO_FETCH_BR k
      then res_bind (set_br_ready (u_thread_id (ex_uops s a)) (cm_frontend (ex_mem s))) (\<lambda>fr.
           Inr (on_mem (\<lambda>m. m\<lparr>cm_frontend := fr\<rparr>) s))
      else Inr s)"

definition br_exec :: "exec_knobs \<Rightarrow> (int \<Rightarrow> int) \<Rightarrow> Counter \<Rightarrow> addr \<Rightarrow> 'm exec_stage \<Rightarrow> 'm exec_stage res" where
  "br_exec k appl global_cycle a s =
     res_bind (br_update k a s) (\<lambda>s1.
     res_bind (br_redirect k appl global_cycle a (br_recover k a s1)) (br_release k a))"

section \<open>The execution of a uop\<close>

definition begin_exec :: "Counter \<Rightarrow> uop \<Rightarrow> uop" where
  "begin_exec cycle u =
     (let v = u\<lparr>u_state := OS_EXEC_BEGIN\<rparr> in if u_sched_cycle v = 0 then v\<lparr>u_sched_cycle := cycle\<rparr> else v)"

definition set_done :: "exec_knobs \<Rightarrow> Counter \<Rightarrow> int \<Rightarrow> uop \<Rightarrow> uop" where
  "set_done k cycle l u =
     (let v = u\<lparr>u_sched_cycle := cycle\<rparr>
      in if l > 0 then v\<lparr>u_done_cycle := cycle + of_int (max l (KNOB_EXEC_RETIRE_LATENCY k))\<rparr> else v)"

text \<open>\<open>cycle\<close> is the cycle of the core, \<open>global_cycle\<close> that of the simulation, which the branch target
  buffer uses, and \<open>appl\<close> gives the application of a thread.\<close>

definition exec ::
  "'m mem_ops \<Rightarrow> exec_knobs \<Rightarrow> (int \<Rightarrow> int) \<Rightarrow> Counter \<Rightarrow> Counter \<Rightarrow> int \<Rightarrow> nat \<Rightarrow> addr \<Rightarrow> 'm exec_stage \<Rightarrow> (bool \<times> 'm exec_stage) res" where
  "exec ops k appl global_cycle cycle tid entry a s =
     (let s1 = set_uop a (begin_exec cycle) (s\<lparr>ex_cur_core_cycle := cycle\<rparr>) in
      res_bind (if u_mem_type (ex_uops s1 a) \<noteq> NOT_MEM then exec_memory ops k cycle tid entry a s1
                else exec_compute k tid entry a s1) (\<lambda>(latency, s2).
      case latency of
        None \<Rightarrow> Inr (False, s2)
      | Some l \<Rightarrow>
          check (l \<noteq> 0) AssertFailed
          (let s3 = set_uop a (set_done k cycle l) s2 in
           res_bind (if u_cf_type (ex_uops s3 a) \<noteq> NOT_CF then br_exec k appl global_cycle a s3 else Inr s3) (\<lambda>s4.
           Inr (True, set_uop a (\<lambda>u. u\<lparr>u_exec_cycle := cycle\<rparr>) s4)))))"

text \<open>The prefetch of a memory operation that a fence holds back.\<close>

definition insert_fence_pref :: "'m mem_ops \<Rightarrow> addr \<Rightarrow> 'm exec_stage \<Rightarrow> 'm exec_stage res" where
  "insert_fence_pref ops a s =
     (let u = ex_uops s a; req_addr = u_vaddr u in
      res_bind (mo_access_cache ops (ex_core_id s) req_addr (cm_memory (ex_mem s))) (\<lambda>(dc_hit, m).
      res_bind (if dc_hit then Inr (True, m)
                else mo_new_mem_req ops
                  \<lparr>ra_type = MRT_DPRF, ra_addr = req_addr, ra_size = 64, ra_cache_hit = False, ra_with_data = False, ra_delay = 1,
                   ra_uop = None, ra_done_func = None, ra_unique_num = 0, ra_core_id = ex_core_id s,
                   ra_thread_id = u_thread_id u, ra_acc = False\<rparr> (ex_uops s) m) (\<lambda>(_, m').
      Inr (on_mem (\<lambda>cm. cm\<lparr>cm_memory := m'\<rparr>) s))))"

end
