(* ===== verification/Schedule.thy ===== *)
theory Schedule
  imports Exec PQueue
begin

text \<open>
  The instruction schedulers of a CPU core: the base class \<^verbatim>\<open>schedule_c\<close>
  (\<^verbatim>\<open>src/src/schedule.cc\<close>), the out-of-order \<^verbatim>\<open>schedule_ooo_c\<close>
  (\<^verbatim>\<open>src/src/schedule_ooo.cc\<close>) and the in-order \<^verbatim>\<open>schedule_io_c\<close>
  (\<^verbatim>\<open>src/src/schedule_io.cc\<close>). In a cycle a scheduler executes ready uops of its window and then fills
  the window from the allocation queues. The reorder buffer of the scheduler is that of its execution stage: the core
  gives both the same object.
\<close>

section \<open>The state\<close>

datatype SCHED_FAIL_TYPE =
    SCHED_SUCCESS | SCHED_FAIL_OPERANDS_NOT_READY | SCHED_FAIL_NO_AVAILABLE_PORTS | SCHED_FAIL_NO_MEM_REQ_SLOTS
  | SCHED_FAIL_NO_AVAILABLE_SIMD_UNIT | SCHED_FAIL_FENCE_ACTIVE | SCHED_FAIL_MEM_MANAGEMENT

definition MAX_SCHED_SIZE :: nat where
  "MAX_SCHED_SIZE = 8192"

record unit_sched =
  us_width :: nat
  us_isched_size :: nat
  us_msched_size :: nat
  us_fsched_size :: nat
  us_ssched_size :: nat
  us_sched_to_width :: nat

record sched_knobs =
  sk_exec :: exec_knobs
  sk_units :: "Unit_Type \<Rightarrow> unit_sched"
  KNOB_FENCE_PREF_ENABLE :: bool

text \<open>\<open>sc_igpu\<close> is whether the type of the core is \<^verbatim>\<open>igpu\<close>; \<open>sc_ops_to_be_dispatched\<close> belongs to the
  core.\<close>

record 'm schedule =
  sc_exec :: "'m exec_stage"
  sc_alloc_q :: "nat pqueue list"
  sc_igpu :: bool
  sc_ops_to_be_dispatched :: "int \<Rightarrow> int"
  sc_cur_core_cycle :: Counter
  sc_last_sched_cycle :: Counter
  sc_knob_width :: uns16
  sc_knob_sched_to_width :: uns16
  sc_num_in_sched :: int
  sc_schedule_running :: bool
  sc_count :: "int list"
  sc_sched_size :: "int list"
  sc_sched_rate :: "int list"
  sc_num_per_sched :: "int list"
  sc_schedule_list :: "int list"
  sc_first_schlist_ptr :: nat
  sc_last_schlist_ptr :: nat

text \<open>\<^verbatim>\<open>SCHED_CONFIG\<close> cuts sizes and rates to sixteen bits.\<close>

definition cut16 :: "int \<Rightarrow> int" where
  "cut16 n = uint (of_int n :: uns16)"

definition schedule_c :: "sched_knobs \<Rightarrow> Unit_Type \<Rightarrow> 'm exec_stage \<Rightarrow> nat pqueue list \<Rightarrow> 'm schedule \<Rightarrow> 'm schedule" where
  "schedule_c k t ex alloc_q junk =
     (let u = sk_units k t; r = ek_rates (sk_exec k) t
      in junk\<lparr>sc_exec := ex, sc_alloc_q := alloc_q, sc_schedule_running := False, sc_num_in_sched := 0,
              sc_first_schlist_ptr := 0, sc_last_schlist_ptr := 0,
              sc_knob_width := of_nat (us_width u), sc_knob_sched_to_width := of_nat (us_sched_to_width u),
              sc_sched_size := map (cut16 \<circ> int) [us_isched_size u, us_msched_size u, us_fsched_size u, us_ssched_size u],
              sc_sched_rate := map cut16 [ur_isched_rate r, ur_msched_rate r, ur_fsched_rate r, ur_ssched_rate r],
              sc_num_per_sched := replicate 4 0, sc_schedule_list := replicate MAX_SCHED_SIZE (- 1),
              sc_last_sched_cycle := 0\<rparr>)"

definition schedule_start :: "'m schedule \<Rightarrow> 'm schedule" where
  "schedule_start s = s\<lparr>sc_schedule_running := True\<rparr>"

definition schedule_stop :: "'m schedule \<Rightarrow> 'm schedule" where
  "schedule_stop s = s\<lparr>sc_schedule_running := False\<rparr>"

abbreviation sc_uops :: "'m schedule \<Rightarrow> addr \<Rightarrow> uop" where
  "sc_uops s \<equiv> ex_uops (sc_exec s)"

definition sc_set_uop :: "addr \<Rightarrow> (uop \<Rightarrow> uop) \<Rightarrow> 'm schedule \<Rightarrow> 'm schedule" where
  "sc_set_uop a f s = s\<lparr>sc_exec := set_uop a f (sc_exec s)\<rparr>"

section \<open>Source operands\<close>

text \<open>A source counts only while its uop is the one that was recorded, and of the same thread.\<close>

definition src_live :: "uop \<Rightarrow> src_info \<Rightarrow> uop \<Rightarrow> bool" where
  "src_live cur si src \<longleftrightarrow> u_valid src \<and> u_uop_num src = si_uop_num si \<and> u_thread_id src = u_thread_id cur"

definition src_waits :: "Counter \<Rightarrow> uop \<Rightarrow> bool" where
  "src_waits cycle src \<longleftrightarrow> u_done_cycle src = 0 \<or> cycle < u_done_cycle src"

text \<open>The loop over the sources: the first source that is not ready.\<close>

fun src_loop :: "Counter \<Rightarrow> (addr \<Rightarrow> uop) \<Rightarrow> uop \<Rightarrow> nat list \<Rightarrow> ptr res" where
  "src_loop cycle us cur [] = Inr None"
| "src_loop cycle us cur (i # is) =
     res_bind (arr_get (u_map_src_info cur) i) (\<lambda>si.
     case si_uop si of
       None \<Rightarrow> src_loop cycle us cur is
     | Some b \<Rightarrow> if src_live cur si (us b) \<and> src_waits cycle (us b) then Inr (Some b) else src_loop cycle us cur is)"

definition note_dep :: "(addr \<Rightarrow> uop) \<Rightarrow> addr \<Rightarrow> uop \<Rightarrow> uop" where
  "note_dep us b u =
     (if (case u_last_dep_exec u of None \<Rightarrow> True | Some d \<Rightarrow> u_done_cycle (us d) < u_done_cycle (us b))
      then u\<lparr>u_last_dep_exec := Some b\<rparr> else u)"

definition check_srcs :: "Counter \<Rightarrow> addr \<Rightarrow> 'm schedule \<Rightarrow> (bool \<times> 'm schedule) res" where
  "check_srcs cycle a s =
     (let u = sc_uops s a in
      if u_srcs_rdy u then Inr (True, s)
      else res_bind (src_loop cycle (sc_uops s) u [0..<u_num_srcs u]) (\<lambda>w. case w of
             Some b \<Rightarrow> Inr (False, sc_set_uop a (note_dep (sc_uops s) b) s)
           | None \<Rightarrow> Inr (True, sc_set_uop a (\<lambda>u. u\<lparr>u_srcs_rdy := True\<rparr>) s)))"

section \<open>Scheduling a uop\<close>

definition simd_busy :: "uop \<Rightarrow> 'm schedule \<Rightarrow> bool" where
  "simd_busy u s \<longleftrightarrow> sc_igpu s \<and> u_uop_type u = UOP_SIMD \<and> sc_last_sched_cycle s = sc_cur_core_cycle s - 1"

definition dep_pending :: "uop \<Rightarrow> 'm schedule \<Rightarrow> bool" where
  "dep_pending u s \<longleftrightarrow> \<not> u_bogus u \<and> \<not> u_srcs_rdy u \<and>
     (case u_last_dep_exec u of None \<Rightarrow> False | Some d \<Rightarrow> sc_cur_core_cycle s < u_done_cycle (sc_uops s d))"

text \<open>The checks that come before execution; the result \<open>SCHED_SUCCESS\<close> lets the uop execute.\<close>

definition may_issue ::
  "'m mem_ops \<Rightarrow> sched_knobs \<Rightarrow> Counter \<Rightarrow> nat \<Rightarrow> addr \<Rightarrow> 'm schedule \<Rightarrow> (SCHED_FAIL_TYPE \<times> 'm schedule) res" where
  "may_issue ops k cycle entry a s =
     (let u = sc_uops s a in
      if simd_busy u s then Inr (SCHED_FAIL_NO_AVAILABLE_SIMD_UNIT, s)
      else if dep_pending u s then Inr (SCHED_FAIL_OPERANDS_NOT_READY, s)
      else if u_bogus u then Inr (SCHED_SUCCESS, s)
      else res_bind (check_srcs cycle a s) (\<lambda>(ready, s1).
        if \<not> ready then Inr (SCHED_FAIL_OPERANDS_NOT_READY, s1)
        else res_bind (port_available (allocq_index (u_allocq_num u)) (sc_exec s1)) (\<lambda>free.
          if \<not> free then Inr (SCHED_FAIL_NO_AVAILABLE_PORTS, s1)
          else if KNOB_FENCE_ENABLE (ek_rob (sk_exec k)) \<and> u_mem_type u \<noteq> NOT_MEM \<and>
                  ensure_mem_ordering (ek_rob (sk_exec k)) entry (ex_rob (sc_exec s1))
          then if KNOB_FENCE_PREF_ENABLE k
               then res_bind (insert_fence_pref ops a (sc_exec s1)) (\<lambda>ex.
                    Inr (SCHED_FAIL_FENCE_ACTIVE, s1\<lparr>sc_exec := ex\<rparr>))
               else Inr (SCHED_FAIL_FENCE_ACTIVE, s1)
          else Inr (SCHED_SUCCESS, s1))))"

text \<open>The bookkeeping after a successful execution; the queue 4 is \<^verbatim>\<open>max_ALLOCQ\<close>, for which the code
  exits.\<close>

definition leave_sched :: "nat \<Rightarrow> addr \<Rightarrow> 'm schedule \<Rightarrow> 'm schedule res" where
  "leave_sched q a s =
     (let u = sc_uops s a;
          s1 = (if u_uop_type u = UOP_SIMD then s\<lparr>sc_last_sched_cycle := sc_cur_core_cycle s\<rparr> else s);
          ops = sc_ops_to_be_dispatched s1;
          s2 = sc_set_uop a (\<lambda>u. u\<lparr>u_in_scheduler := False\<rparr>)
                 (s1\<lparr>sc_ops_to_be_dispatched := ops(u_thread_id u := ops (u_thread_id u) - 1)\<rparr>) in
      check (sc_num_in_sched s2 > 0) AssertFailed
      (if q < 4
       then res_bind (arr_get (sc_num_per_sched s2) q) (\<lambda>n.
            check (n > 0) AssertFailed
              (Inr (s2\<lparr>sc_num_in_sched := sc_num_in_sched s2 - 1, sc_num_per_sched := (sc_num_per_sched s2)[q := n - 1]\<rparr>)))
       else Inl ExitFailure))"

text \<open>\<open>global_cycle\<close> and \<open>appl\<close> are arguments of the execution stage.\<close>

definition uop_schedule ::
  "'m mem_ops \<Rightarrow> sched_knobs \<Rightarrow> (int \<Rightarrow> int) \<Rightarrow> Counter \<Rightarrow> Counter \<Rightarrow> nat \<Rightarrow> 'm schedule \<Rightarrow>
   (bool \<times> SCHED_FAIL_TYPE \<times> 'm schedule) res" where
  "uop_schedule ops k appl global_cycle cycle entry s =
     res_bind (entry_uop (- 1) entry (sc_exec s)) (\<lambda>a.
     let q_num = allocq_index (u_allocq_num (sc_uops s a)) in
     res_bind (may_issue ops k cycle entry a s) (\<lambda>(reason, s1).
     if reason \<noteq> SCHED_SUCCESS then Inr (False, reason, s1)
     else res_bind (exec ops (sk_exec k) appl global_cycle cycle (- 1) entry a
                      (set_uop a (\<lambda>u. u\<lparr>u_state := OS_SCHEDULE\<rparr>) (sc_exec s1))) (\<lambda>(ok, ex).
       let s2 = s1\<lparr>sc_exec := ex\<rparr> in
       if \<not> ok then Inr (False, reason, s2)
       else res_bind (leave_sched q_num a s2) (\<lambda>s3. Inr (True, reason, s3)))))"

section \<open>Filling the window\<close>

definition sched_full :: "'m schedule \<Rightarrow> bool" where
  "sched_full s \<longleftrightarrow> (sc_last_schlist_ptr s + 1) mod MAX_SCHED_SIZE = sc_first_schlist_ptr s"

definition over_limit :: "nat \<Rightarrow> 'm schedule \<Rightarrow> bool res" where
  "over_limit q s =
     res_bind (arr_get (sc_count s) q) (\<lambda>c. res_bind (arr_get (sc_sched_rate s) q) (\<lambda>r.
     res_bind (arr_get (sc_num_per_sched s) q) (\<lambda>n. res_bind (arr_get (sc_sched_size s) q) (\<lambda>z.
     Inr (c \<ge> r \<or> n \<ge> z)))))"

definition enter_sched :: "nat \<Rightarrow> nat \<Rightarrow> addr \<Rightarrow> 'm schedule \<Rightarrow> 'm schedule res" where
  "enter_sched q entry a s =
     (let s1 = sc_set_uop a (\<lambda>u. u\<lparr>u_in_iaq := False, u_in_scheduler := True\<rparr>) s in
      res_bind (arr_get (sc_count s1) q) (\<lambda>c.
      res_bind (arr_get (sc_num_per_sched s1) q) (\<lambda>n.
      res_bind (arr_set (sc_schedule_list s1) (sc_last_schlist_ptr s1) (int entry)) (\<lambda>l.
      Inr (s1\<lparr>sc_count := (sc_count s1)[q := c + 1], sc_num_in_sched := sc_num_in_sched s1 + 1, sc_schedule_list := l,
              sc_last_schlist_ptr := (sc_last_schlist_ptr s1 + 1) mod MAX_SCHED_SIZE,
              sc_num_per_sched := (sc_num_per_sched s1)[q := n + 1]\<rparr>)))))"

text \<open>One iteration; \<open>False\<close> leaves the loop.\<close>

definition advance_one :: "Counter \<Rightarrow> nat \<Rightarrow> 'm schedule \<Rightarrow> (bool \<times> 'm schedule) res" where
  "advance_one cycle qi s =
     res_bind (arr_get (sc_alloc_q s) qi) (\<lambda>aq.
     res_bind (ready aq) (\<lambda>rdy.
     if \<not> rdy \<or> sched_full s then Inr (False, s)
     else res_bind (peek 0 aq) (\<lambda>entry.
       res_bind (entry_uop (- 1) entry (sc_exec s)) (\<lambda>a.
       let u = sc_uops s a; q = allocq_index (u_allocq_num u) in
       res_bind (over_limit q s) (\<lambda>over.
       if over then Inr (False, s)
       else res_bind (dequeue aq) (\<lambda>(_, _, aq').
         let s1 = s\<lparr>sc_alloc_q := (sc_alloc_q s)[qi := aq']\<rparr> in
         if u_bogus u \<or> u_done_cycle u \<noteq> 0
         then Inr (True, sc_set_uop a (\<lambda>u. u\<lparr>u_done_cycle := cycle\<rparr>) s1)
         else res_bind (enter_sched q entry a s1) (\<lambda>s2. Inr (True, s2))))))))"

text \<open>Every iteration but the last takes an entry of the queue: the fuel is their number.\<close>

fun advance_loop :: "nat \<Rightarrow> Counter \<Rightarrow> nat \<Rightarrow> 'm schedule \<Rightarrow> 'm schedule res" where
  "advance_loop fuel cycle qi s =
     res_bind (advance_one cycle qi s) (\<lambda>(go, s'). if \<not> go then Inr s'
       else case fuel of 0 \<Rightarrow> Inl Diverges | Suc n \<Rightarrow> advance_loop n cycle qi s')"

declare advance_loop.simps [simp del]

definition sched_advance :: "Counter \<Rightarrow> nat \<Rightarrow> 'm schedule \<Rightarrow> 'm schedule res" where
  "sched_advance cycle qi s =
     res_bind (arr_get (sc_alloc_q s) qi) (\<lambda>aq.
     advance_loop (nat (m_num_entry aq)) cycle qi (s\<lparr>sc_count := replicate 4 0\<rparr>))"

section \<open>The out-of-order scheduler\<close>

definition window_indices :: "'m schedule \<Rightarrow> nat list" where
  "window_indices s =
     map (\<lambda>j. (sc_first_schlist_ptr s + j) mod MAX_SCHED_SIZE)
       [0..<(sc_last_schlist_ptr s + MAX_SCHED_SIZE - sc_first_schlist_ptr s) mod MAX_SCHED_SIZE]"

definition skip_first :: "nat \<Rightarrow> 'm schedule \<Rightarrow> 'm schedule" where
  "skip_first i s = (if i = sc_first_schlist_ptr s
     then s\<lparr>sc_first_schlist_ptr := (sc_first_schlist_ptr s + 1) mod MAX_SCHED_SIZE\<rparr> else s)"

text \<open>The loop over the window. The end of the window does not change in it, so the indices are known when it
  starts.\<close>

fun ooo_loop ::
  "'m mem_ops \<Rightarrow> sched_knobs \<Rightarrow> (int \<Rightarrow> int) \<Rightarrow> Counter \<Rightarrow> Counter \<Rightarrow> nat list \<Rightarrow> int \<Rightarrow> 'm schedule \<Rightarrow> (int \<times> 'm schedule) res" where
  "ooo_loop ops k appl gc cycle [] cnt s = Inr (cnt, s)"
| "ooo_loop ops k appl gc cycle (i # is) cnt s =
     res_bind (arr_get (sc_schedule_list s) i) (\<lambda>e.
     if e \<noteq> - 1
     then res_bind (uop_schedule ops k appl gc cycle (nat e) s) (\<lambda>(ok, _, s1).
       if ok
       then let s2 = skip_first i s1; s3 = s2\<lparr>sc_schedule_list := (sc_schedule_list s2)[i := - 1]\<rparr> in
            if sc_knob_sched_to_width s3 \<noteq> 0 \<and> cnt + 1 \<ge> uint (sc_knob_width s3) then Inr (cnt + 1, s3)
            else ooo_loop ops k appl gc cycle is (cnt + 1) s3
       else ooo_loop ops k appl gc cycle is cnt s1)
     else ooo_loop ops k appl gc cycle is cnt (skip_first i s))"

definition begin_cycle :: "Counter \<Rightarrow> 'm schedule \<Rightarrow> 'm schedule" where
  "begin_cycle cycle s = s\<lparr>sc_cur_core_cycle := cycle, sc_exec := clear_ports (sc_exec s)\<rparr>"

definition advance_all :: "Counter \<Rightarrow> 'm schedule \<Rightarrow> 'm schedule res" where
  "advance_all cycle s = fold_res (sched_advance cycle) [0..<4] s"

definition ooo_run_a_cycle ::
  "'m mem_ops \<Rightarrow> sched_knobs \<Rightarrow> (int \<Rightarrow> int) \<Rightarrow> Counter \<Rightarrow> Counter \<Rightarrow> 'm schedule \<Rightarrow> 'm schedule res" where
  "ooo_run_a_cycle ops k appl global_cycle cycle s =
     (if \<not> sc_schedule_running s then Inr s
      else let s1 = begin_cycle cycle s in
        res_bind (if sc_num_in_sched s1 \<noteq> 0
                  then ooo_loop ops k appl global_cycle cycle (window_indices s1) 0 s1 else Inr (0, s1)) (\<lambda>(_, s2).
        advance_all cycle s2))"

section \<open>The in-order scheduler\<close>

text \<open>The state of the loop adds \<^verbatim>\<open>m_next_inorder_to_schedule\<close>. A successful iteration lowers the number
  of uops in the scheduler, which the code asserts to be positive: the fuel is that number.\<close>

definition io_one ::
  "'m mem_ops \<Rightarrow> sched_knobs \<Rightarrow> (int \<Rightarrow> int) \<Rightarrow> Counter \<Rightarrow> Counter \<Rightarrow> nat \<Rightarrow> 'm schedule \<Rightarrow> (nat option \<times> 'm schedule) res" where
  "io_one ops k appl gc cycle nxt s =
     res_bind (rob_at nxt (ex_rob (sc_exec s))) (\<lambda>p. case p of
       None \<Rightarrow> Inr (None, s)
     | Some a \<Rightarrow>
         if \<not> u_in_scheduler (sc_uops s a) then Inr (None, s)
         else res_bind (uop_schedule ops k appl gc cycle nxt s) (\<lambda>(ok, _, s1).
           if \<not> ok then Inr (None, s1)
           else let r = ex_rob (sc_exec s1) in
             res_bind (if nxt = ro_first_entry r then Inr True
                       else res_bind (entry_uop (- 1) (dec_index nxt r) (sc_exec s1)) (\<lambda>b.
                            Inr (u_sched_cycle (sc_uops s1 b) \<noteq> 0))) (\<lambda>ordered.
             check ordered AssertFailed
               (Inr (Some (inc_index nxt r),
                     s1\<lparr>sc_first_schlist_ptr := (sc_first_schlist_ptr s1 + 1) mod MAX_SCHED_SIZE\<rparr>)))))"

fun io_loop ::
  "nat \<Rightarrow> 'm mem_ops \<Rightarrow> sched_knobs \<Rightarrow> (int \<Rightarrow> int) \<Rightarrow> Counter \<Rightarrow> Counter \<Rightarrow> int \<Rightarrow> nat \<Rightarrow> 'm schedule \<Rightarrow> (int \<times> nat \<times> 'm schedule) res" where
  "io_loop fuel ops k appl gc cycle cnt nxt s =
     (if sc_knob_sched_to_width s \<noteq> 0 \<and> \<not> cnt < uint (sc_knob_width s) then Inr (cnt, nxt, s)
      else res_bind (io_one ops k appl gc cycle nxt s) (\<lambda>(n, s1). case n of
             None \<Rightarrow> Inr (cnt, nxt, s1)
           | Some nxt' \<Rightarrow> (case fuel of 0 \<Rightarrow> Inl Diverges
               | Suc f \<Rightarrow> io_loop f ops k appl gc cycle (cnt + 1) nxt' s1)))"

declare io_loop.simps [simp del]

definition io_run_a_cycle ::
  "'m mem_ops \<Rightarrow> sched_knobs \<Rightarrow> (int \<Rightarrow> int) \<Rightarrow> Counter \<Rightarrow> Counter \<Rightarrow> nat \<times> 'm schedule \<Rightarrow> (nat \<times> 'm schedule) res" where
  "io_run_a_cycle ops k appl global_cycle cycle = (\<lambda>(nxt, s).
     if \<not> sc_schedule_running s then Inr (nxt, s)
     else let s1 = begin_cycle cycle s in
       res_bind (if sc_num_in_sched s1 \<noteq> 0
                 then io_loop (nat (sc_num_in_sched s1)) ops k appl global_cycle cycle 0 nxt s1
                 else Inr (0, nxt, s1)) (\<lambda>(_, nxt', s2).
       res_bind (advance_all cycle s2) (\<lambda>s3. Inr (nxt', s3))))"

end
