(* ===== verification/ExecInv.thy ===== *)
theory ExecInv
  imports Exec
begin

text \<open>
  What the execution of a uop changes and keeps. The hypothesis on the memory system is
  \<open>memory_contract\<close>: for the cores it has, and for uops that access the data caches, its operations return, keep an invariant
  of theirs, and change only the fields of uops that \<^verbatim>\<open>dcu_c::access\<close> and the address translation write.
  \<open>MemOps\<close> shows that the model of \<^verbatim>\<open>memory.cc\<close> satisfies it.
\<close>

section \<open>Views of a uop\<close>

text \<open>A uop without the fields that a memory access writes, and without those that execution writes.\<close>

definition mem_view :: "uop \<Rightarrow> uop" where
  "mem_view u = u\<lparr>u_state := OS_INVALID, u_paddr := 0, u_dcache_bank_id := 0,
     u_uop_info := (u_uop_info u)\<lparr>ui_dcmiss := False\<rparr>, u_bypass_llc := False, u_skip_llc := False,
     u_translated := False, u_num_page_table_walks := 0\<rparr>"

definition exec_view :: "uop \<Rightarrow> uop" where
  "exec_view u = (mem_view u)\<lparr>u_sched_cycle := 0, u_exec_cycle := 0, u_done_cycle := 0, u_mem_start_cycle := 0,
     u_pending_child_uops := 0, u_num_child_uops_done := 0,
     u_uop_info := (u_uop_info (mem_view u))\<lparr>ui_btb_miss_resolved := False\<rparr>\<rparr>"

lemma mem_view_exec_view: "mem_view u = mem_view v \<Longrightarrow> exec_view u = exec_view v"
  by (simp add: exec_view_def)

lemma mem_view_fields:
  assumes "mem_view u = mem_view v"
  shows "u_done_cycle u = u_done_cycle v" "u_pending_child_uops u = u_pending_child_uops v"
    "u_sched_cycle u = u_sched_cycle v" "u_exec_cycle u = u_exec_cycle v" "u_mem_start_cycle u = u_mem_start_cycle v"
    "u_num_child_uops_done u = u_num_child_uops_done v" "u_srcs_rdy u = u_srcs_rdy v"
    "u_last_dep_exec u = u_last_dep_exec v"
  using assms[THEN arg_cong, of u_done_cycle] assms[THEN arg_cong, of u_pending_child_uops]
    assms[THEN arg_cong, of u_sched_cycle] assms[THEN arg_cong, of u_exec_cycle]
    assms[THEN arg_cong, of u_mem_start_cycle] assms[THEN arg_cong, of u_num_child_uops_done]
    assms[THEN arg_cong, of u_srcs_rdy] assms[THEN arg_cong, of u_last_dep_exec]
  by (simp_all add: mem_view_def)

lemma exec_view_fields:
  assumes "exec_view u = exec_view v"
  shows "u_mem_type u = u_mem_type v" "u_uop_type u = u_uop_type v" "u_bogus u = u_bogus v"
    "u_allocq_num u = u_allocq_num v" "u_in_scheduler u = u_in_scheduler v" "u_cf_type u = u_cf_type v"
    "u_num_srcs u = u_num_srcs v" "u_map_src_info u = u_map_src_info v" "u_valid u = u_valid v"
    "u_uop_num u = u_uop_num v" "u_thread_id u = u_thread_id v" "u_child_uops u = u_child_uops v"
    "u_num_child_uops u = u_num_child_uops v" "u_off_path u = u_off_path v"
  using assms[THEN arg_cong, of u_mem_type] assms[THEN arg_cong, of u_uop_type] assms[THEN arg_cong, of u_bogus]
    assms[THEN arg_cong, of u_allocq_num] assms[THEN arg_cong, of u_in_scheduler] assms[THEN arg_cong, of u_cf_type]
    assms[THEN arg_cong, of u_num_srcs] assms[THEN arg_cong, of u_map_src_info] assms[THEN arg_cong, of u_valid]
    assms[THEN arg_cong, of u_uop_num] assms[THEN arg_cong, of u_thread_id] assms[THEN arg_cong, of u_child_uops]
    assms[THEN arg_cong, of u_num_child_uops] assms[THEN arg_cong, of u_off_path]
  by (simp_all add: exec_view_def mem_view_def)

lemma exec_view_updates [simp]:
  "exec_view (u\<lparr>u_state := x\<rparr>) = exec_view u" "exec_view (u\<lparr>u_sched_cycle := c\<rparr>) = exec_view u"
  "exec_view (u\<lparr>u_exec_cycle := c\<rparr>) = exec_view u" "exec_view (u\<lparr>u_done_cycle := c\<rparr>) = exec_view u"
  "exec_view (u\<lparr>u_mem_start_cycle := c\<rparr>) = exec_view u" "exec_view (u\<lparr>u_pending_child_uops := p\<rparr>) = exec_view u"
  "exec_view (u\<lparr>u_num_child_uops_done := n\<rparr>) = exec_view u" "exec_view (u\<lparr>u_num_page_table_walks := n\<rparr>) = exec_view u"
  "exec_view (u\<lparr>u_uop_info := (u_uop_info u)\<lparr>ui_btb_miss_resolved := b\<rparr>\<rparr>) = exec_view u"
  by (simp_all add: exec_view_def mem_view_def)

text \<open>The store \<open>us'\<close> after a step that executes the uop \<open>a\<close>.\<close>

definition touched :: "addr \<Rightarrow> (addr \<Rightarrow> uop) \<Rightarrow> (addr \<Rightarrow> uop) \<Rightarrow> bool" where
  "touched a us us' \<longleftrightarrow>
     (\<forall>b. exec_view (us' b) = exec_view (us b)) \<and> (\<forall>b. b \<noteq> a \<longrightarrow> mem_view (us' b) = mem_view (us b)) \<and>
     (\<forall>i. bit (u_pending_child_uops (us' a)) i \<longrightarrow> bit (u_pending_child_uops (us a)) i) \<and>
     u_srcs_rdy (us' a) = u_srcs_rdy (us a) \<and> u_last_dep_exec (us' a) = u_last_dep_exec (us a)"

lemma touched_refl [simp]: "touched a us us"
  by (simp add: touched_def)

lemma touched_trans: "touched a us us1 \<Longrightarrow> touched a us1 us2 \<Longrightarrow> touched a us us2"
  by (simp add: touched_def)

lemma touched_mem: "(\<And>b. mem_view (us' b) = mem_view (us b)) \<Longrightarrow> touched a us us'"
  using mem_view_fields(2,7,8)[of "us' a" "us a"] mem_view_exec_view unfolding touched_def by metis

lemma touched_upd:
  assumes "exec_view (f (us a)) = exec_view (us a)" "u_srcs_rdy (f (us a)) = u_srcs_rdy (us a)"
    "u_last_dep_exec (f (us a)) = u_last_dep_exec (us a)"
    "\<And>i. bit (u_pending_child_uops (f (us a))) i \<Longrightarrow> bit (u_pending_child_uops (us a)) i"
  shows "touched a us (us(a := f (us a)))"
  using assms by (simp add: touched_def)

section \<open>The memory system\<close>

text \<open>A memory system is specified by its invariant and its number of cores.\<close>

record 'm mem_spec =
  sp_inv :: "'m \<Rightarrow> bool"
  sp_cores :: nat

definition core_in :: "'m mem_spec \<Rightarrow> int \<Rightarrow> bool" where
  "core_in I c \<longleftrightarrow> 0 \<le> c \<and> c < int (sp_cores I)"

text \<open>The memory types that go to the data caches, and those that a core without GPU caches executes.\<close>

definition data_access :: "Mem_Type \<Rightarrow> bool" where
  "data_access t \<longleftrightarrow> t \<in> {MEM_LD, MEM_LD_LM, MEM_ST, MEM_ST_LM, MEM_ST_GM, MEM_SWPREF_NTA, MEM_SWPREF_T0, MEM_SWPREF_T1, MEM_SWPREF_T2, MEM_PF}"

definition cpu_mem_type :: "Mem_Type \<Rightarrow> bool" where
  "cpu_mem_type t \<longleftrightarrow> t = NOT_MEM \<or> data_access t"

definition memory_contract :: "'m mem_ops \<Rightarrow> 'm mem_spec \<Rightarrow> bool" where
  "memory_contract ops I \<longleftrightarrow>
     (\<forall>a us m. sp_inv I m \<longrightarrow> core_in I (u_core_id (us a)) \<longrightarrow> data_access (u_mem_type (us a)) \<longrightarrow>
        (\<exists>l us' m'. mo_access ops a us m = Inr (l, us', m') \<and> sp_inv I m' \<and> (\<forall>b. mem_view (us' b) = mem_view (us b)))) \<and>
     (\<forall>r us m. sp_inv I m \<longrightarrow> core_in I (ra_core_id r) \<longrightarrow> ra_type r \<noteq> MRT_WB \<longrightarrow>
        (\<exists>ok m'. mo_new_mem_req ops r us m = Inr (ok, m') \<and> sp_inv I m')) \<and>
     (\<forall>c x m. sp_inv I m \<longrightarrow> core_in I c \<longrightarrow> (\<exists>hit m'. mo_access_cache ops c x m = Inr (hit, m') \<and> sp_inv I m'))"

lemma memory_contract_access:
  assumes "memory_contract ops I" "sp_inv I m" "core_in I (u_core_id (us a))" "data_access (u_mem_type (us a))"
  obtains l us' m' where "mo_access ops a us m = Inr (l, us', m')" "sp_inv I m'" "\<And>b. mem_view (us' b) = mem_view (us b)"
  using assms unfolding memory_contract_def by metis

text \<open>The uops of the store belong to cores of the system, and the child uops of a uop are of its type.\<close>

definition uops_ok :: "'m mem_spec \<Rightarrow> (addr \<Rightarrow> uop) \<Rightarrow> bool" where
  "uops_ok I us \<longleftrightarrow> (\<forall>a. core_in I (u_core_id (us a)) \<and> (\<forall>b\<in>set (u_child_uops (us a)). u_mem_type (us b) = u_mem_type (us a)))"

lemma uops_ok_cong:
  assumes "\<And>b. u_core_id (us' b) = u_core_id (us b)" "\<And>b. u_child_uops (us' b) = u_child_uops (us b)"
    "\<And>b. u_mem_type (us' b) = u_mem_type (us b)"
  shows "uops_ok I us' = uops_ok I us"
  using assms by (simp add: uops_ok_def)

lemma touched_uops_ok:
  assumes "touched a us us'" "uops_ok I us"
  shows "uops_ok I us'"
proof -
  have v: "exec_view (us' b) = exec_view (us b)" for b using assms(1) by (simp add: touched_def)
  have "u_core_id (us' b) = u_core_id (us b)" for b
    using v[THEN arg_cong, of u_core_id] by (simp add: exec_view_def mem_view_def)
  then show ?thesis using uops_ok_cong[of us' us I] exec_view_fields(1,12)[OF v] assms(2) by simp
qed

text \<open>A step of the memory state of the core for the uop \<open>a\<close>.\<close>

definition mem_step :: "'m mem_spec \<Rightarrow> addr \<Rightarrow> 'm core_mem \<Rightarrow> 'm core_mem \<Rightarrow> bool" where
  "mem_step I a s s' \<longleftrightarrow> touched a (cm_uops s) (cm_uops s') \<and> sp_inv I (cm_memory s') \<and>
     s' = s\<lparr>cm_uops := cm_uops s', cm_memory := cm_memory s'\<rparr>"

lemma mem_step_refl: "sp_inv I (cm_memory s) \<Longrightarrow> mem_step I a s s"
  by (simp add: mem_step_def)

lemma mem_step_trans:
  assumes "mem_step I a s s1" "mem_step I a s1 s2"
  shows "mem_step I a s s2"
proof -
  have e: "s1 = s\<lparr>cm_uops := cm_uops s1, cm_memory := cm_memory s1\<rparr>" "s2 = s1\<lparr>cm_uops := cm_uops s2, cm_memory := cm_memory s2\<rparr>"
    using assms by (simp_all add: mem_step_def)
  have "s2 = s\<lparr>cm_uops := cm_uops s2, cm_memory := cm_memory s2\<rparr>" by (subst e(2), subst e(1)) simp
  then show ?thesis using assms touched_trans unfolding mem_step_def by metis
qed

lemma mem_step_upd_uop:
  assumes "sp_inv I (cm_memory s)" "exec_view (f (cm_uops s a)) = exec_view (cm_uops s a)"
    "u_srcs_rdy (f (cm_uops s a)) = u_srcs_rdy (cm_uops s a)"
    "u_last_dep_exec (f (cm_uops s a)) = u_last_dep_exec (cm_uops s a)"
    "\<And>i. bit (u_pending_child_uops (f (cm_uops s a))) i \<Longrightarrow> bit (u_pending_child_uops (cm_uops s a)) i"
  shows "mem_step I a s (upd_uop a f s)"
  using assms touched_upd[of f "cm_uops s" a] by (simp add: mem_step_def upd_uop_def)

lemma mem_access_ok:
  assumes "memory_contract ops I" "sp_inv I (cm_memory s)" "uops_ok I (cm_uops s)" "data_access ty"
    "u_mem_type (cm_uops s b) = ty"
  obtains l s' where "mem_access ops k cycle ty b s = Inr (l, s')" "mem_step I a s s'"
proof -
  have "core_in I (u_core_id (cm_uops s b))" using assms(3) by (simp add: uops_ok_def)
  with memory_contract_access[OF assms(1,2), of "cm_uops s" b] assms(4,5) obtain l us' m' where
    A: "mo_access ops b (cm_uops s) (cm_memory s) = Inr (l, us', m')" "sp_inv I m'" "\<And>b. mem_view (us' b) = mem_view (cm_uops s b)"
    by blast
  let ?s' = "s\<lparr>cm_uops := us', cm_memory := m'\<rparr>"
  have "mem_access ops k cycle ty b s = Inr (l, ?s')"
    using A(1) assms(4) by (auto simp add: mem_access_def data_access_def)
  moreover have "mem_step I a s ?s'" using A(2,3) by (simp add: mem_step_def touched_mem)
  ultimately show ?thesis by (rule that)
qed

lemma exec_single_ok:
  assumes "memory_contract ops I" "sp_inv I (cm_memory s)" "uops_ok I (cm_uops s)" "data_access (u_mem_type (cm_uops s a))"
  obtains l s' where "exec_single ops k cycle a s = Inr (l, s')" "mem_step I a s s'"
proof -
  from mem_access_ok[OF assms refl, of k cycle a] obtain l s1 where
    A: "mem_access ops k cycle (u_mem_type (cm_uops s a)) a s = Inr (l, s1)" "mem_step I a s s1" by blast
  let ?f = "\<lambda>u. u\<lparr>u_mem_start_cycle := cycle\<rparr>"
  have "mem_step I a s1 (upd_uop a ?f s1)" using A(2) by (intro mem_step_upd_uop) (simp_all add: mem_step_def)
  with A(2) have "mem_step I a s (if l \<noteq> 0 then upd_uop a ?f s1 else s1)" by (simp add: mem_step_trans)
  then show ?thesis using A(1) by (intro that) (simp_all add: exec_single_def)
qed

section \<open>Child uops\<close>

text \<open>Every pending child is in the array of children.\<close>

definition children_ok :: "uop \<Rightarrow> bool" where
  "children_ok u \<longleftrightarrow> (\<forall>i. bit (u_pending_child_uops u) i \<longrightarrow> i < length (u_child_uops u))"

lemma bit_CLEAR_BIT: "bit (CLEAR_BIT v p) i \<longleftrightarrow> bit v i \<and> i \<noteq> p"
  by (auto simp add: CLEAR_BIT_def bit_simps dest: bit_imp_le_length)

lemma mem_stepD:
  assumes "mem_step I a s s'"
  shows "touched a (cm_uops s) (cm_uops s')" "sp_inv I (cm_memory s')" "exec_view (cm_uops s' b) = exec_view (cm_uops s b)"
    "bit (u_pending_child_uops (cm_uops s' a)) i \<Longrightarrow> bit (u_pending_child_uops (cm_uops s a)) i"
  using assms by (auto simp add: mem_step_def touched_def)

lemma mem_step_children: "mem_step I a s s' \<Longrightarrow> children_ok (cm_uops s a) \<Longrightarrow> children_ok (cm_uops s' a)"
  using mem_stepD(4) exec_view_fields(12)[OF mem_stepD(3)] by (metis children_ok_def)

lemma exec_child_ok:
  assumes "memory_contract ops I" "sp_inv I (cm_memory s)" "uops_ok I (cm_uops s)" "data_access (u_mem_type (cm_uops s a))"
    "i < length (u_child_uops (cm_uops s a))"
  obtains mx' s' where "exec_child ops k cycle a i mx s = Inr (mx', s')" "mem_step I a s s'" "mx \<le> mx'"
proof -
  have "u_mem_type (cm_uops s (u_child_uops (cm_uops s a) ! i)) = u_mem_type (cm_uops s a)"
    using assms(3,5) nth_mem by (auto simp add: uops_ok_def)
  from mem_access_ok[OF assms(1-4) this, of k cycle a] obtain l s1 where
    A: "mem_access ops k cycle (u_mem_type (cm_uops s a)) (u_child_uops (cm_uops s a) ! i) s = Inr (l, s1)"
      "mem_step I a s s1" by blast
  show ?thesis
  proof (cases "l = 0")
    case True
    with A assms(5) show ?thesis by (intro that[of mx s1]) (simp_all add: exec_child_def Let_def)
  next
    case False
    define f where "f = (\<lambda>u :: uop. (\<lambda>u. if l > 0 then u\<lparr>u_num_child_uops_done := u_num_child_uops_done u + 1\<rparr> else u)
      ((\<lambda>u. u\<lparr>u_pending_child_uops := CLEAR_BIT (u_pending_child_uops u) i\<rparr>)
       ((\<lambda>u. if (u_mem_type (cm_uops s a) = MEM_LD_SM \<or> u_mem_type (cm_uops s a) = MEM_ST_SM) \<or> u_mem_start_cycle u = 0
             then u\<lparr>u_mem_start_cycle := cycle\<rparr> else u) u)))"
    have f: "exec_view (f u) = exec_view u" "u_srcs_rdy (f u) = u_srcs_rdy u" "u_last_dep_exec (f u) = u_last_dep_exec u"
      "u_pending_child_uops (f u) = CLEAR_BIT (u_pending_child_uops u) i" for u
      by (cases "u_mem_start_cycle u = 0"; cases "l > 0"; simp add: f_def)+
    have "mem_step I a s1 (upd_uop a f s1)"
      using mem_stepD(2)[OF A(2)] by (intro mem_step_upd_uop) (simp_all add: f bit_CLEAR_BIT)
    with A(2) have "mem_step I a s (upd_uop a f s1)" by (rule mem_step_trans)
    moreover have "exec_child ops k cycle a i mx s = Inr (if l > 0 \<and> l > mx then l else mx, upd_uop a f s1)"
      using A(1) assms(5) False unfolding exec_child_def Let_def f_def by simp
    ultimately show ?thesis by (intro that[of "if l > 0 \<and> l > mx then l else mx" "upd_uop a f s1"]) simp_all
  qed
qed

lemma next_set_bit_bit:
  assumes "0 \<le> get_next_set_bit64 v p"
  shows "bit v (nat (get_next_set_bit64 v p))"
proof (cases "\<exists>j. p \<le> j \<and> j < p + (64 - p) \<and> bit v j")
  case True
  then have "get_next_set_bit64 v p = int (LEAST j. p \<le> j \<and> bit v j)"
    unfolding get_next_set_bit64_def next_set_bit_loop_spec by (rule if_P)
  moreover from True obtain j where "p \<le> j \<and> bit v j" by blast
  then have "bit v (LEAST j. p \<le> j \<and> bit v j)" by (rule LeastI2) blast
  ultimately show ?thesis by simp
next
  case False
  then have "get_next_set_bit64 v p = - 1" unfolding get_next_set_bit64_def next_set_bit_loop_spec by (rule if_not_P)
  with assms show ?thesis by simp
qed

lemma child_loop_ok:
  "memory_contract ops I \<Longrightarrow> sp_inv I (cm_memory s) \<Longrightarrow> uops_ok I (cm_uops s) \<Longrightarrow> data_access (u_mem_type (cm_uops s a)) \<Longrightarrow> children_ok (cm_uops s a) \<Longrightarrow>
    (0 \<le> n \<Longrightarrow> bit (u_pending_child_uops (cm_uops s a)) (nat n)) \<Longrightarrow>
    \<exists>mx' s'. child_loop ops k cycle a n mx s = Inr (mx', s') \<and> mem_step I a s s' \<and> mx \<le> mx'"
proof (induction ops k cycle a n mx s rule: child_loop.induct)
  case (1 ops k cycle a n mx s)
  note IH = "1.IH" and P = "1.prems"
  show ?case
  proof (cases "n < 0")
    case True
    then show ?thesis using mem_step_refl[of I s a] P(2) by (subst child_loop.simps) simp
  next
    case False
    then have i: "nat n < length (u_child_uops (cm_uops s a))" using P(5,6) by (simp add: children_ok_def)
    from exec_child_ok[OF P(1-4) i, of k cycle mx] obtain mx1 s1 where
      C: "exec_child ops k cycle a (nat n) mx s = Inr (mx1, s1)" "mem_step I a s s1" "mx \<le> mx1" by blast
    define n' where "n' = get_next_set_bit64 (u_pending_child_uops (cm_uops s1 a)) (nat n + 1)"
    have d: "data_access (u_mem_type (cm_uops s1 a))" using P(4) exec_view_fields(1)[OF mem_stepD(3)[OF C(2)]] by metis
    have v: "uops_ok I (cm_uops s1)" using touched_uops_ok[OF mem_stepD(1)[OF C(2)] P(3)] .
    obtain mx' s' where R: "child_loop ops k cycle a n' mx1 s1 = Inr (mx', s')" "mem_step I a s1 s'" "mx1 \<le> mx'"
      using IH[OF False C(1) P(1)] mem_stepD(2)[OF C(2)] v d mem_step_children[OF C(2) P(5)] next_set_bit_bit
      unfolding n'_def by fastforce
    have "child_loop ops k cycle a n mx s = Inr (mx', s')"
      using False C(1) R(1) by (subst child_loop.simps) (simp add: n'_def)
    then show ?thesis using mem_step_trans[OF C(2) R(2)] C(3) R(3) by auto
  qed
qed

lemma exec_children_ok:
  assumes "memory_contract ops I" "sp_inv I (cm_memory s)" "uops_ok I (cm_uops s)" "data_access (u_mem_type (cm_uops s a))"
    "children_ok (cm_uops s a)"
  obtains l s' where "exec_children ops k cycle a s = Inr (l, s')" "mem_step I a s s'"
    "l = 0 \<or> u_pending_child_uops (cm_uops s' a) = 0"
proof -
  define s0 where "s0 = upd_uop a (\<lambda>u. u\<lparr>u_num_page_table_walks := 0\<rparr>) s"
  have st: "mem_step I a s s0" unfolding s0_def using assms(2) by (intro mem_step_upd_uop) simp_all
  have pend: "u_pending_child_uops (cm_uops s0 a) = u_pending_child_uops (cm_uops s a)" by (simp add: s0_def upd_uop_def)
  have "data_access (u_mem_type (cm_uops s0 a))" using assms(4) exec_view_fields(1)[OF mem_stepD(3)[OF st]] by metis
  from child_loop_ok[OF assms(1) mem_stepD(2)[OF st] touched_uops_ok[OF mem_stepD(1)[OF st] assms(3)] this mem_step_children[OF st assms(5)],
      of "get_next_set_bit64 (u_pending_child_uops (cm_uops s a)) 0" k cycle 0]
    next_set_bit_bit[of "u_pending_child_uops (cm_uops s a)" 0] obtain mx s1 where
    L: "child_loop ops k cycle a (get_next_set_bit64 (u_pending_child_uops (cm_uops s a)) 0) 0 s0 = Inr (mx, s1)"
      "mem_step I a s0 s1" by (auto simp add: pend)
  have "exec_children ops k cycle a s = Inr (if u_pending_child_uops (cm_uops s1 a) \<noteq> 0 then 0
      else if u_num_child_uops (cm_uops s1 a) = u_num_child_uops_done (cm_uops s1 a) then mx else - 1, s1)"
    unfolding exec_children_def Let_def s0_def[symmetric] L(1) by simp
  then show ?thesis by (rule that) (simp_all add: mem_step_trans[OF st L(2)])
qed

section \<open>The invariant of the stage\<close>

definition exec_inv :: "'m mem_spec \<Rightarrow> exec_knobs \<Rightarrow> 'm exec_stage \<Rightarrow> bool" where
  "exec_inv I k s \<longleftrightarrow> sp_inv I (cm_memory (ex_mem s)) \<and> length (ex_port_used s) = 4 \<and> length (ex_max_port s) = 4 \<and>
     rob_wf (ex_rob s) \<and> gshare_config (ek_bp k) \<and> gshare_wf (ek_bp k) (bd_bp (ex_bp_data s)) \<and>
     cache_wf (bd_targ_pred (ex_bp_data s)) \<and> \<not> c_cache_by_pass (bd_targ_pred (ex_bp_data s)) \<and>
     \<not> c_enable_partition (bd_targ_pred (ex_bp_data s)) \<and> \<not> ex_acc_sim s \<and> uops_ok I (ex_uops s) \<and> core_in I (ex_core_id s)"

lemma exec_invD:
  assumes "exec_inv I k s"
  shows "sp_inv I (cm_memory (ex_mem s))" "length (ex_port_used s) = 4" "length (ex_max_port s) = 4" "rob_wf (ex_rob s)"
    "gshare_config (ek_bp k)" "gshare_wf (ek_bp k) (bd_bp (ex_bp_data s))" "cache_wf (bd_targ_pred (ex_bp_data s))"
    "\<not> c_cache_by_pass (bd_targ_pred (ex_bp_data s))" "\<not> c_enable_partition (bd_targ_pred (ex_bp_data s))" "\<not> ex_acc_sim s"
    "uops_ok I (ex_uops s)" "core_in I (ex_core_id s)"
  using assms by (simp_all add: exec_inv_def)

text \<open>What the stage relies on of a uop that it executes.\<close>

definition uop_ok :: "exec_knobs \<Rightarrow> (Uop_Type \<Rightarrow> int) \<Rightarrow> uop \<Rightarrow> bool" where
  "uop_ok k latency u \<longleftrightarrow> cpu_mem_type (u_mem_type u) \<and> u_allocq_num u \<noteq> max_ALLOCQ \<and> children_ok u \<and>
     u_num_srcs u \<le> length (u_map_src_info u) \<and>
     (u_mem_type u = NOT_MEM \<and> \<not> is_fence_type (u_uop_type u) \<longrightarrow> KNOB_ONE_CYCLE_EXEC k \<or> latency (u_uop_type u) \<noteq> 0)"

lemma touched_uop_ok:
  assumes "touched a us us'" "uop_ok k lat (us b)"
  shows "uop_ok k lat (us' b)"
proof -
  have v: "exec_view (us' b) = exec_view (us b)" using assms(1) by (simp add: touched_def)
  have "bit (u_pending_child_uops (us' b)) i \<Longrightarrow> bit (u_pending_child_uops (us b)) i" for i
    using assms(1) mem_view_fields(2)[of "us' b" "us b"] by (cases "b = a") (auto simp add: touched_def)
  with assms(2) exec_view_fields[OF v] show ?thesis unfolding uop_ok_def children_ok_def by metis
qed

text \<open>The parts of the stage that executing the uop \<open>a\<close> keeps.\<close>

definition exec_frame :: "addr \<Rightarrow> 'm exec_stage \<Rightarrow> 'm exec_stage \<Rightarrow> bool" where
  "exec_frame a s s' \<longleftrightarrow> touched a (ex_uops s) (ex_uops s') \<and> ring (ex_rob s') = ring (ex_rob s) \<and>
     ex_max_port s' = ex_max_port s \<and> ex_latency s' = ex_latency s"

lemma exec_frame_refl [simp]: "exec_frame a s s"
  by (simp add: exec_frame_def)

lemma exec_frame_trans: "exec_frame a s s1 \<Longrightarrow> exec_frame a s1 s2 \<Longrightarrow> exec_frame a s s2"
  unfolding exec_frame_def by (metis touched_trans)

definition exec_step :: "'m mem_spec \<Rightarrow> exec_knobs \<Rightarrow> addr \<Rightarrow> 'm exec_stage \<Rightarrow> 'm exec_stage \<Rightarrow> bool" where
  "exec_step I k a s s' \<longleftrightarrow> exec_inv I k s' \<and> exec_frame a s s'"

lemma exec_step_refl: "exec_inv I k s \<Longrightarrow> exec_step I k a s s"
  by (simp add: exec_step_def)

lemma exec_step_trans: "exec_step I k a s s1 \<Longrightarrow> exec_step I k a s1 s2 \<Longrightarrow> exec_step I k a s s2"
  unfolding exec_step_def by (metis exec_frame_trans)

lemma exec_step_uop_ok:
  assumes "exec_step I k a s s'" "uop_ok k (ex_latency s) (ex_uops s b)"
  shows "uop_ok k (ex_latency s') (ex_uops s' b)"
  using assms touched_uop_ok unfolding exec_step_def exec_frame_def by metis

lemma exec_step_views:
  assumes "exec_step I k a s s'"
  shows "exec_view (ex_uops s' b) = exec_view (ex_uops s b)"
  using assms by (simp add: exec_step_def exec_frame_def touched_def)

lemma exec_step_mem:
  assumes "exec_inv I k s" "mem_step I a (ex_mem s) m"
  shows "exec_step I k a s (s\<lparr>ex_mem := m\<rparr>)" "ex_port_used (s\<lparr>ex_mem := m\<rparr>) = ex_port_used s"
  using assms touched_uops_ok[of a "ex_uops s" "cm_uops m" I] by (simp_all add: exec_step_def exec_inv_def exec_frame_def mem_step_def)

lemma exec_step_set_uop:
  assumes "exec_inv I k s" "exec_view (f (ex_uops s a)) = exec_view (ex_uops s a)"
    "u_srcs_rdy (f (ex_uops s a)) = u_srcs_rdy (ex_uops s a)"
    "u_last_dep_exec (f (ex_uops s a)) = u_last_dep_exec (ex_uops s a)"
    "u_pending_child_uops (f (ex_uops s a)) = u_pending_child_uops (ex_uops s a)"
  shows "exec_step I k a s (set_uop a f s)" "ex_port_used (set_uop a f s) = ex_port_used s"
    "ex_uops (set_uop a f s) a = f (ex_uops s a)"
proof -
  have "mem_step I a (ex_mem s) (upd_uop a f (ex_mem s))"
    using assms exec_invD(1)[OF assms(1)] by (intro mem_step_upd_uop) simp_all
  from exec_step_mem[OF assms(1) this] show "exec_step I k a s (set_uop a f s)" "ex_port_used (set_uop a f s) = ex_port_used s"
    by (simp_all add: set_uop_def on_mem_def)
qed (simp add: set_uop_def on_mem_def upd_uop_def)

lemma exec_step_bp:
  assumes "exec_inv I k s" "gshare_wf (ek_bp k) (bd_bp d)" "cache_wf (bd_targ_pred d)"
    "\<not> c_cache_by_pass (bd_targ_pred d)" "\<not> c_enable_partition (bd_targ_pred d)"
  shows "exec_step I k a s (s\<lparr>ex_bp_data := d\<rparr>)"
  using assms by (simp add: exec_step_def exec_inv_def exec_frame_def)

section \<open>Entries and ports\<close>

text \<open>The entry \<open>e\<close> of the reorder buffer holds the uop \<open>a\<close>.\<close>

definition rob_holds :: "rob \<Rightarrow> nat \<Rightarrow> addr \<Rightarrow> bool" where
  "rob_holds r e a \<longleftrightarrow> (\<exists>j < nat (entries r). e = slot r j \<and> items r ! j = a)"

lemma rob_holds_ring: "ring r' = ring r \<Longrightarrow> rob_holds r' e a = rob_holds r e a"
proof -
  assume R: "ring r' = ring r"
  then have "slot r' = slot r" by (simp add: ring_def slot_def fun_eq_iff)
  then show ?thesis unfolding rob_holds_def ring_cong(2,3)[OF R] by simp
qed

lemma exec_step_holds: "exec_step I k a s s' \<Longrightarrow> rob_holds (ex_rob s') e b = rob_holds (ex_rob s) e b"
  by (rule rob_holds_ring) (simp add: exec_step_def exec_frame_def)

lemma rob_holds_at:
  assumes "rob_wf r" "rob_holds r e a"
  shows "rob_at e r = Inr (Some a)"
proof -
  from assms(2) obtain j where j: "j < nat (entries r)" "e = slot r j" "items r ! j = a" by (auto simp add: rob_holds_def)
  with rob_wfD(7)[OF assms(1) j(1)] rob_wfD(1,2)[OF assms(1)] show ?thesis
    by (auto simp add: rob_at_def items_nth)
qed

lemma entry_uop_holds: "exec_inv I k s \<Longrightarrow> rob_holds (ex_rob s) e a \<Longrightarrow> entry_uop (- 1) e s = Inr a"
  using rob_holds_at[OF exec_invD(4), of I k s e a] by (simp add: entry_uop_def)

definition used_port :: "addr \<Rightarrow> 'm exec_stage \<Rightarrow> int list" where
  "used_port a s = (let u = ex_uops s a; q = allocq_index (u_allocq_num u) in
     if u_bogus u then ex_port_used s else (ex_port_used s)[q := ex_port_used s ! q + 1])"

lemma allocq_index_less: "q \<noteq> max_ALLOCQ \<Longrightarrow> allocq_index q < 4"
  by (cases q) (simp_all add: allocq_index_def)

lemma use_port_ok:
  assumes inv: "exec_inv I k s" and h: "rob_holds (ex_rob s) e a" and u: "uop_ok k lat (ex_uops s a)"
  shows "use_port (- 1) e s = Inr (s\<lparr>ex_port_used := used_port a s\<rparr>)" "exec_step I k a s (s\<lparr>ex_port_used := used_port a s\<rparr>)"
proof -
  have "allocq_index (u_allocq_num (ex_uops s a)) < length (ex_port_used s)"
    using allocq_index_less u exec_invD(2)[OF inv] by (simp add: uop_ok_def)
  then show "use_port (- 1) e s = Inr (s\<lparr>ex_port_used := used_port a s\<rparr>)"
    by (simp add: use_port_def entry_uop_holds[OF inv h] used_port_def Let_def)
  show "exec_step I k a s (s\<lparr>ex_port_used := used_port a s\<rparr>)"
    using inv by (simp add: exec_step_def exec_inv_def exec_frame_def used_port_def Let_def)
qed

section \<open>Fences and computation\<close>

lemma rob_ins_fence_ring: "ring (rob_ins_fence_entry e ft r) = ring r"
  by (simp add: rob_ins_fence_entry_def ring_def)

lemma pending_mem_ops_total:
  assumes wf: "rob_wf r" and h: "rob_holds r e a"
  obtains p where "pending_mem_ops k us e r = Inr p"
proof -
  from h obtain j where j: "j < nat (entries r)" "e = slot r j" by (auto simp add: rob_holds_def)
  have jm: "j < ro_max_cnt r" "j \<le> ro_max_cnt r" using j(1) rob_wfD(5)[OF wf] by linarith+
  have "slot r 0 = ro_first_entry r" using rob_wfD(3)[OF wf] by (simp add: slot_def)
  with pending_loop_spec[OF wf _ jm(1), of 0 "ro_max_cnt r" us] j jm show ?thesis
    by (intro that[of "if (\<exists>n. 0 \<le> n \<and> n < j \<and> u_mem_type (us (items r ! n)) \<noteq> NOT_MEM) then True
         else if KNOB_USE_WB k then \<not> ro_wb_empty r else False"]) (simp add: pending_mem_ops_def)
qed

lemma exec_fence_ok:
  assumes inv: "exec_inv I k s" and h: "rob_holds (ex_rob s) e a"
  obtains l s' where "exec_fence k (- 1) e a s = Inr (l, s')" "exec_step I k a s s'" "l \<noteq> Some 0"
    "ex_port_used s' = ex_port_used s" "ex_uops s' = ex_uops s"
proof (cases "KNOB_FENCE_ENABLE (ek_rob k)")
  case False
  then show ?thesis using exec_step_refl[OF inv] by (intro that[of "Some 1" s]) (simp_all add: exec_fence_def)
next
  case True
  define r where "r = rob_ins_fence_entry e (fence_of (ek_rob k) (u_uop_type (ex_uops s a))) (ex_rob s)"
  have R: "ring r = ring (ex_rob s)" by (simp add: r_def rob_ins_fence_ring)
  have wf: "rob_wf r" using exec_invD(4)[OF inv] ring_cong(1)[OF R] by simp
  have "exec_step I k a s (s\<lparr>ex_rob := r\<rparr>)"
    using inv wf R by (simp add: exec_step_def exec_inv_def exec_frame_def)
  moreover obtain p where "pending_mem_ops (ek_rob k) (ex_uops s) e r = Inr p"
    using pending_mem_ops_total[OF wf] h rob_holds_ring[OF R] by metis
  ultimately show ?thesis using True
    by (intro that[of "if KNOB_ACQ_REL (ek_rob k) then Some 1 else if p then None else Some 1" "s\<lparr>ex_rob := r\<rparr>"])
      (simp_all add: exec_fence_def r_def[symmetric])
qed

lemma exec_compute_ok:
  assumes inv: "exec_inv I k s" and h: "rob_holds (ex_rob s) e a" and u: "uop_ok k (ex_latency s) (ex_uops s a)"
    and m: "u_mem_type (ex_uops s a) = NOT_MEM"
  obtains l s' where "exec_compute k (- 1) e a s = Inr (l, s')" "exec_step I k a s s'" "l \<noteq> Some 0"
    "ex_port_used s' = used_port a s" "ex_uops s' = ex_uops s"
proof -
  note P = use_port_ok[OF inv h u]
  let ?s1 = "s\<lparr>ex_port_used := used_port a s\<rparr>"
  show ?thesis
  proof (cases "is_fence_type (u_uop_type (ex_uops s a))")
    case False
    have "get_latency k (u_uop_type (ex_uops s a)) s \<noteq> 0" using u m False by (auto simp add: uop_ok_def get_latency_def)
    then show ?thesis using P False
      by (intro that[of "Some (get_latency k (u_uop_type (ex_uops s a)) s)" ?s1]) (simp_all add: exec_compute_def)
  next
    case True
    have inv1: "exec_inv I k ?s1" using P(2) by (simp add: exec_step_def)
    from exec_fence_ok[OF inv1, of e a] h obtain l s' where
      "exec_fence k (- 1) e a ?s1 = Inr (l, s')" "exec_step I k a ?s1 s'" "l \<noteq> Some 0"
      "ex_port_used s' = used_port a s" "ex_uops s' = ex_uops s" by auto
    then show ?thesis using P True exec_step_trans[OF P(2)]
      by (intro that[of l s']) (simp_all add: exec_compute_def)
  qed
qed

lemma exec_memory_ok:
  assumes c: "memory_contract ops I" and inv: "exec_inv I k s" and h: "rob_holds (ex_rob s) e a"
    and u: "uop_ok k (ex_latency s) (ex_uops s a)" and m: "u_mem_type (ex_uops s a) \<noteq> NOT_MEM"
  obtains l s' where "exec_memory ops k cycle (- 1) e a s = Inr (l, s')" "exec_step I k a s s'" "l \<noteq> Some 0"
    "ex_port_used s' \<in> {ex_port_used s, used_port a s}"
proof (cases "KNOB_PERFECT_DCACHE k")
  case True
  then show ?thesis using exec_step_refl[OF inv] by (intro that[of "Some 1" s]) (simp_all add: exec_memory_def)
next
  case False
  have t: "uops_ok I (ex_uops s)" "data_access (u_mem_type (ex_uops s a))" "children_ok (ex_uops s a)"
    using u m exec_invD(11)[OF inv] by (simp_all add: uop_ok_def cpu_mem_type_def)
  obtain l m where M: "(if u_num_child_uops (ex_uops s a) = 0 then exec_single ops k cycle a (ex_mem s)
      else exec_children ops k cycle a (ex_mem s)) = Inr (l, m)" "mem_step I a (ex_mem s) m"
  proof (cases "u_num_child_uops (ex_uops s a) = 0")
    case True
    then show ?thesis using exec_single_ok[OF c exec_invD(1)[OF inv] t(1,2), of k cycle] that by auto
  next
    case False
    then show ?thesis using exec_children_ok[OF c exec_invD(1)[OF inv] t, of k cycle] that by auto
  qed
  define s1 where "s1 = s\<lparr>ex_mem := m\<rparr>"
  have S1: "exec_step I k a s s1" "ex_port_used s1 = ex_port_used s" unfolding s1_def by (rule exec_step_mem[OF inv M(2)])+
  show ?thesis
  proof (cases "l = 0")
    case True
    then show ?thesis using S1 False M(1) by (intro that[of None s1]) (simp_all add: exec_memory_def s1_def)
  next
    case nz: False
    have inv1: "exec_inv I k s1" using S1(1) by (simp add: exec_step_def)
    have h1: "rob_holds (ex_rob s1) e a" using h exec_step_holds[OF S1(1)] by blast
    note P = use_port_ok[OF inv1 h1 exec_step_uop_ok[OF S1(1) u]]
    have eq: "exec_memory ops k cycle (- 1) e a s = Inr (Some l, s1\<lparr>ex_port_used := used_port a s1\<rparr>)"
      using False M(1) nz P(1) exec_invD(10)[OF inv1] by (simp add: exec_memory_def s1_def[symmetric] Let_def)
    have "used_port a s1 = used_port a s"
      using exec_view_fields(3,4)[OF exec_step_views[OF S1(1), of a]] S1(2) by (simp add: used_port_def Let_def)
    then have "ex_port_used (s1\<lparr>ex_port_used := used_port a s1\<rparr>) \<in> {ex_port_used s, used_port a s}" by auto
    from that[OF eq exec_step_trans[OF S1(1) P(2)] _ this] nz show ?thesis by blast
  qed
qed

section \<open>Branches\<close>

lemma btb_update_keeps:
  assumes wf: "cache_wf c" "\<not> c_cache_by_pass c" "\<not> c_enable_partition c"
  obtains c' where "btb_update k cycle appl u c = Inr c'" "cache_wf c'" "\<not> c_cache_by_pass c'" "\<not> c_enable_partition c'"
proof (cases "u_off_path u")
  case True
  then show ?thesis using wf by (intro that[of c]) (simp_all add: btb_update_def)
next
  case False
  obtain tag st where ts: "find_tag_and_set c (u_pc u) = (tag, st)" by fastforce
  from btb_update_spec[OF wf False ts, of k cycle appl] obtain c' where
    c': "btb_update k cycle appl u c = Inr c'" "cache_wf c'" "c_cache_by_pass c' = c_cache_by_pass c" by metis
  have "c_enable_partition c' = c_enable_partition c"
    using c'(1) False by (auto simp add: btb_update_def res_simps enable_partition_unchanged insert_enable_partition
        dest!: access_flags split: option.splits)
  with c' wf show ?thesis by (intro that[of c']) simp_all
qed

lemma br_exec_ok:
  assumes inv: "exec_inv I k s"
  obtains s' where "br_exec k appl gc a s = Inr s'" "exec_step I k a s s'" "ex_port_used s' = ex_port_used s"
    "mem_view (ex_uops s' a) = mem_view ((ex_uops s a)\<lparr>u_uop_info := u_uop_info (ex_uops s' a)\<rparr>)"
proof -
  note D = exec_invD[OF inv]
  obtain b where b: "br_update k a s = Inr (on_bp (\<lambda>d. d\<lparr>bd_bp := b\<rparr>) s)" "gshare_wf (ek_bp k) b"
  proof (cases "u_cf_type (ex_uops s a) = CF_CBR")
    case True
    from gshare_update_eq[OF D(5,6), of "ex_uops s a"] obtain b where
      "gshare_update (ek_bp k) (ex_uops s a) (bd_bp (ex_bp_data s)) = Inr b" by blast
    with True gshare_update_wf[OF D(5,6)] show ?thesis by (intro that[of b]) (simp_all add: br_update_def)
  next
    case False
    with D(6) show ?thesis by (intro that[of "bd_bp (ex_bp_data s)"]) (simp_all add: br_update_def on_bp_def)
  qed
  define s2 where "s2 = br_recover k a (on_bp (\<lambda>d. d\<lparr>bd_bp := b\<rparr>) s)"
  obtain d where d: "s2 = s\<lparr>ex_bp_data := d\<rparr>" "gshare_wf (ek_bp k) (bd_bp d)" "bd_targ_pred d = bd_targ_pred (ex_bp_data s)"
    using b(2) unfolding s2_def br_recover_def on_bp_def Let_def
    by (cases "u_mispredicted (ex_uops s a)") (auto simp add: gshare_wf_def gshare_recover_def)
  have S2: "exec_step I k a s s2" unfolding d(1) using inv d(2) D(7-9) by (intro exec_step_bp) (simp_all add: d(3))
  have inv2: "exec_inv I k s2" using S2 by (simp add: exec_step_def)
  obtain s3 where S3: "br_redirect k appl gc a s2 = Inr s3" "exec_step I k a s2 s3" "ex_port_used s3 = ex_port_used s2"
    "ex_uops s3 a = (ex_uops s2 a)\<lparr>u_uop_info := u_uop_info (ex_uops s3 a)\<rparr>"
  proof (cases "btb_missed (ex_uops s2 a)")
    case False
    with exec_step_refl[OF inv2] show ?thesis by (intro that[of s2]) (simp_all add: br_redirect_def)
  next
    case True
    define u where "u = ex_uops s2 a"
    from btb_update_keeps[OF exec_invD(7,8,9)[OF inv2], of "ek_cache k" gc "appl (u_thread_id u)" u] obtain c' where
      C: "btb_update (ek_cache k) gc (appl (u_thread_id u)) u (bd_targ_pred (ex_bp_data s2)) = Inr c'"
        "cache_wf c'" "\<not> c_cache_by_pass c'" "\<not> c_enable_partition c'" by blast
    define s2' where "s2' = on_bp (\<lambda>d. d\<lparr>bd_targ_pred := c',
      bd_redirect_cycle := (bd_redirect_cycle d)(u_thread_id u := resume_cycle k s2)\<rparr>) s2"
    let ?f = "\<lambda>u :: uop. u\<lparr>u_uop_info := (u_uop_info u)\<lparr>ui_btb_miss_resolved := True\<rparr>\<rparr>"
    have A: "exec_step I k a s2 s2'" "ex_port_used s2' = ex_port_used s2" "ex_uops s2' = ex_uops s2"
      using inv2 C exec_invD(6)[OF inv2] unfolding s2'_def on_bp_def by (auto intro!: exec_step_bp)
    have inv2': "exec_inv I k s2'" using A(1) by (simp add: exec_step_def)
    note B = exec_step_set_uop[OF inv2', of ?f a]
    have "br_redirect k appl gc a s2 = Inr (set_uop a ?f s2')"
      using True C(1) by (simp add: br_redirect_def Let_def u_def s2'_def)
    then show ?thesis using exec_step_trans[OF A(1) B(1)] B(2,3) A(2,3) by (intro that[of "set_uop a ?f s2'"]) simp_all
  qed
  have "\<not> ex_acc_sim s3" using S3(2) by (simp add: exec_step_def exec_inv_def)
  then have "br_exec k appl gc a s = Inr s3" using b(1) S3(1) by (simp add: br_exec_def s2_def br_release_def)
  moreover have "ex_uops s2 = ex_uops s" "ex_port_used s2 = ex_port_used s" by (simp_all add: d(1))
  ultimately show ?thesis using exec_step_trans[OF S2 S3(2)] S3(3,4) by (intro that[of s3]) simp_all
qed

section \<open>The execution of a uop\<close>

lemma begin_exec_view:
  "exec_view (begin_exec c u) = exec_view u" "u_srcs_rdy (begin_exec c u) = u_srcs_rdy u"
  "u_last_dep_exec (begin_exec c u) = u_last_dep_exec u" "u_pending_child_uops (begin_exec c u) = u_pending_child_uops u"
  by (simp_all add: begin_exec_def Let_def)

lemma set_done_view:
  "exec_view (set_done k c l u) = exec_view u" "u_srcs_rdy (set_done k c l u) = u_srcs_rdy u"
  "u_last_dep_exec (set_done k c l u) = u_last_dep_exec u" "u_pending_child_uops (set_done k c l u) = u_pending_child_uops u"
  "u_sched_cycle (set_done k c l u) = c"
  by (simp_all add: set_done_def Let_def)

lemma exec_step_inv: "exec_step I k a s s' \<Longrightarrow> exec_inv I k s'"
  by (simp add: exec_step_def)

lemma exec_step_start:
  assumes "exec_inv I k s"
  shows "exec_step I k a s (set_uop a (begin_exec c) (s\<lparr>ex_cur_core_cycle := c\<rparr>))"
    "ex_port_used (set_uop a (begin_exec c) (s\<lparr>ex_cur_core_cycle := c\<rparr>)) = ex_port_used s"
proof -
  have S: "exec_step I k a s (s\<lparr>ex_cur_core_cycle := c\<rparr>)"
    using assms by (simp add: exec_step_def exec_inv_def exec_frame_def)
  have "exec_step I k a (s\<lparr>ex_cur_core_cycle := c\<rparr>) (set_uop a (begin_exec c) (s\<lparr>ex_cur_core_cycle := c\<rparr>))"
    by (intro exec_step_set_uop(1) exec_step_inv[OF S]) (simp_all add: begin_exec_view)
  with S show "exec_step I k a s (set_uop a (begin_exec c) (s\<lparr>ex_cur_core_cycle := c\<rparr>))" by (rule exec_step_trans)
qed (simp add: set_uop_def on_mem_def)

lemma used_port_step:
  assumes "exec_step I k a s s'" "ex_port_used s' = ex_port_used s"
  shows "used_port a s' = used_port a s"
  using exec_view_fields(3,4)[OF exec_step_views[OF assms(1), of a]] assms(2) by (simp add: used_port_def Let_def)

text \<open>The steps of a successful execution after the latency is known.\<close>

lemma exec_finish_ok:
  assumes inv: "exec_inv I k s"
  obtains s' where
    "res_bind (if u_cf_type (ex_uops (set_uop a (set_done k c l) s) a) \<noteq> NOT_CF
       then br_exec k appl gc a (set_uop a (set_done k c l) s) else Inr (set_uop a (set_done k c l) s))
       (\<lambda>s4. Inr (True, set_uop a (\<lambda>u. u\<lparr>u_exec_cycle := c\<rparr>) s4)) = Inr (True, s')"
    "exec_step I k a s s'" "ex_port_used s' = ex_port_used s"
    "u_exec_cycle (ex_uops s' a) = c" "u_sched_cycle (ex_uops s' a) = c"
    "u_done_cycle (ex_uops s' a) = u_done_cycle (set_done k c l (ex_uops s a))"
proof -
  define s3 where "s3 = set_uop a (set_done k c l) s"
  have S3: "exec_step I k a s s3" "ex_port_used s3 = ex_port_used s" "ex_uops s3 a = set_done k c l (ex_uops s a)"
    unfolding s3_def using exec_step_set_uop[OF inv, of "set_done k c l" a] by (simp_all add: set_done_view)
  obtain s4 where S4: "(if u_cf_type (ex_uops s3 a) \<noteq> NOT_CF then br_exec k appl gc a s3 else Inr s3) = Inr s4"
    "exec_step I k a s3 s4" "ex_port_used s4 = ex_port_used s3" "u_sched_cycle (ex_uops s4 a) = u_sched_cycle (ex_uops s3 a)"
    "u_done_cycle (ex_uops s4 a) = u_done_cycle (ex_uops s3 a)"
  proof (cases "u_cf_type (ex_uops s3 a) = NOT_CF")
    case True
    then show ?thesis using exec_step_refl[OF exec_step_inv[OF S3(1)]] by (intro that[of s3]) simp_all
  next
    case False
    from br_exec_ok[OF exec_step_inv[OF S3(1)], of appl gc a] obtain s4 where
      B: "br_exec k appl gc a s3 = Inr s4" "exec_step I k a s3 s4" "ex_port_used s4 = ex_port_used s3"
        "mem_view (ex_uops s4 a) = mem_view ((ex_uops s3 a)\<lparr>u_uop_info := u_uop_info (ex_uops s4 a)\<rparr>)" by metis
    from mem_view_fields(1,3)[OF B(4)] False B(1-3) show ?thesis by (intro that[of s4]) simp_all
  qed
  let ?f = "\<lambda>u :: uop. u\<lparr>u_exec_cycle := c\<rparr>"
  note F = exec_step_set_uop[OF exec_step_inv[OF S4(2)], of ?f a]
  show ?thesis
  proof (rule that)
    show "res_bind (if u_cf_type (ex_uops (set_uop a (set_done k c l) s) a) \<noteq> NOT_CF
       then br_exec k appl gc a (set_uop a (set_done k c l) s) else Inr (set_uop a (set_done k c l) s))
       (\<lambda>s4. Inr (True, set_uop a (\<lambda>u. u\<lparr>u_exec_cycle := c\<rparr>) s4)) = Inr (True, set_uop a ?f s4)"
      unfolding s3_def[symmetric] S4(1) by simp
    show "exec_step I k a s (set_uop a ?f s4)" using exec_step_trans[OF S3(1) exec_step_trans[OF S4(2) F(1)]] by simp
  qed (use F(2,3) S4(3,4,5) S3(2,3) in \<open>simp_all add: set_done_view\<close>)
qed

lemma exec_ok:
  assumes c: "memory_contract ops I" and inv: "exec_inv I k s" and h: "rob_holds (ex_rob s) e a"
    and u: "uop_ok k (ex_latency s) (ex_uops s a)"
  obtains ok s' where "exec ops k appl gc cycle (- 1) e a s = Inr (ok, s')" "exec_step I k a s s'"
    "ex_port_used s' \<in> {ex_port_used s, used_port a s}"
    "ok \<Longrightarrow> u_exec_cycle (ex_uops s' a) = cycle" "ok \<Longrightarrow> u_sched_cycle (ex_uops s' a) = cycle"
proof -
  define s1 where "s1 = set_uop a (begin_exec cycle) (s\<lparr>ex_cur_core_cycle := cycle\<rparr>)"
  have S1: "exec_step I k a s s1" "ex_port_used s1 = ex_port_used s" unfolding s1_def by (rule exec_step_start[OF inv])+
  note inv1 = exec_step_inv[OF S1(1)] and u1 = exec_step_uop_ok[OF S1(1) u]
  have h1: "rob_holds (ex_rob s1) e a" using h exec_step_holds[OF S1(1)] by blast
  obtain l s2 where S2: "(if u_mem_type (ex_uops s1 a) \<noteq> NOT_MEM then exec_memory ops k cycle (- 1) e a s1
      else exec_compute k (- 1) e a s1) = Inr (l, s2)" "exec_step I k a s1 s2" "l \<noteq> Some 0"
    "ex_port_used s2 \<in> {ex_port_used s1, used_port a s1}"
  proof (cases "u_mem_type (ex_uops s1 a) = NOT_MEM")
    case True
    with exec_compute_ok[OF inv1 h1 u1] that show ?thesis by (metis insertCI)
  next
    case False
    with exec_memory_ok[OF c inv1 h1 u1 False, of cycle] that show ?thesis by metis
  qed
  have ports: "ex_port_used s2 \<in> {ex_port_used s, used_port a s}"
    using S2(4) S1(2) used_port_step[OF S1] by simp
  note S = exec_step_trans[OF S1(1) S2(2)]
  show ?thesis
  proof (cases l)
    case None
    then have "exec ops k appl gc cycle (- 1) e a s = Inr (False, s2)"
      using S2(1) unfolding exec_def Let_def s1_def[symmetric] by simp
    from that[OF this S ports] show ?thesis by simp
  next
    case (Some n)
    from exec_finish_ok[OF exec_step_inv[OF S2(2)], of a cycle n appl gc] obtain s' where
      F: "res_bind (if u_cf_type (ex_uops (set_uop a (set_done k cycle n) s2) a) \<noteq> NOT_CF
       then br_exec k appl gc a (set_uop a (set_done k cycle n) s2) else Inr (set_uop a (set_done k cycle n) s2))
       (\<lambda>s4. Inr (True, set_uop a (\<lambda>u. u\<lparr>u_exec_cycle := cycle\<rparr>) s4)) = Inr (True, s')"
      "exec_step I k a s2 s'" "ex_port_used s' = ex_port_used s2"
      "u_exec_cycle (ex_uops s' a) = cycle" "u_sched_cycle (ex_uops s' a) = cycle" by metis
    have "exec ops k appl gc cycle (- 1) e a s = Inr (True, s')"
      using S2(1,3) Some F(1) unfolding exec_def Let_def s1_def[symmetric] by simp
    from that[OF this exec_step_trans[OF S F(2)]] ports F(3,4,5) show ?thesis by simp
  qed
qed

end
