(* ===== verification/SchedInv.thy ===== *)
theory SchedInv
  imports Schedule ExecInv
begin

text \<open>
  The invariant of the CPU schedulers and what the attempt to schedule one uop does to it: the counters of the
  scheduler are those of the entries in its window, and an attempt neither fails an assertion nor
  takes a port that is not there.
\<close>

section \<open>What scheduling keeps\<close>

definition sched_view :: "uop \<Rightarrow> uop" where
  "sched_view u = (exec_view u)\<lparr>u_srcs_rdy := False, u_last_dep_exec := None, u_in_scheduler := False, u_in_iaq := False\<rparr>"

lemma sched_view_fields:
  assumes "sched_view u = sched_view v"
  shows "u_mem_type u = u_mem_type v" "u_uop_type u = u_uop_type v" "u_bogus u = u_bogus v"
    "u_allocq_num u = u_allocq_num v" "u_num_srcs u = u_num_srcs v" "u_map_src_info u = u_map_src_info v"
    "u_child_uops u = u_child_uops v" "u_uop_num u = u_uop_num v" "u_thread_id u = u_thread_id v"
  using assms[THEN arg_cong, of u_mem_type] assms[THEN arg_cong, of u_uop_type] assms[THEN arg_cong, of u_bogus]
    assms[THEN arg_cong, of u_allocq_num] assms[THEN arg_cong, of u_num_srcs] assms[THEN arg_cong, of u_map_src_info]
    assms[THEN arg_cong, of u_child_uops] assms[THEN arg_cong, of u_uop_num] assms[THEN arg_cong, of u_thread_id]
  by (simp_all add: sched_view_def exec_view_def mem_view_def)

lemma sched_view_updates [simp]:
  "sched_view (u\<lparr>u_srcs_rdy := b\<rparr>) = sched_view u" "sched_view (u\<lparr>u_last_dep_exec := p\<rparr>) = sched_view u"
  "sched_view (u\<lparr>u_in_scheduler := b\<rparr>) = sched_view u" "sched_view (u\<lparr>u_in_iaq := b\<rparr>) = sched_view u"
  "sched_view (u\<lparr>u_state := x\<rparr>) = sched_view u" "sched_view (u\<lparr>u_done_cycle := c\<rparr>) = sched_view u"
  by (simp_all add: sched_view_def exec_view_def mem_view_def)

definition uops_kept :: "(addr \<Rightarrow> uop) \<Rightarrow> (addr \<Rightarrow> uop) \<Rightarrow> bool" where
  "uops_kept us us' \<longleftrightarrow> (\<forall>b. sched_view (us' b) = sched_view (us b) \<and>
     (\<forall>i. bit (u_pending_child_uops (us' b)) i \<longrightarrow> bit (u_pending_child_uops (us b)) i))"

lemma uops_kept_refl [simp]: "uops_kept us us"
  by (simp add: uops_kept_def)

lemma uops_kept_trans: "uops_kept us us1 \<Longrightarrow> uops_kept us1 us2 \<Longrightarrow> uops_kept us us2"
  by (simp add: uops_kept_def)

lemma touched_kept: "touched a us us' \<Longrightarrow> uops_kept us us'"
proof -
  assume T: "touched a us us'"
  have "bit (u_pending_child_uops (us' b)) i \<Longrightarrow> bit (u_pending_child_uops (us b)) i" for b i
    using T mem_view_fields(2)[of "us' b" "us b"] by (cases "b = a") (auto simp add: touched_def)
  with T show ?thesis by (simp add: uops_kept_def sched_view_def touched_def)
qed

lemma uops_kept_upd:
  "sched_view (f (us a)) = sched_view (us a) \<Longrightarrow> u_pending_child_uops (f (us a)) = u_pending_child_uops (us a) \<Longrightarrow>
   uops_kept us (us(a := f (us a)))"
  by (simp add: uops_kept_def)

lemma uops_kept_ok:
  assumes "uops_kept us us'" "uop_ok k lat (us b)"
  shows "uop_ok k lat (us' b)"
proof -
  have v: "sched_view (us' b) = sched_view (us b)"
    and "\<And>i. bit (u_pending_child_uops (us' b)) i \<Longrightarrow> bit (u_pending_child_uops (us b)) i"
    using assms(1) by (simp_all add: uops_kept_def)
  with assms(2) sched_view_fields[OF v] show ?thesis unfolding uop_ok_def children_ok_def by metis
qed

lemma uops_kept_uops_ok:
  assumes "uops_kept us us'" "uops_ok I us"
  shows "uops_ok I us'"
proof -
  have v: "sched_view (us' b) = sched_view (us b)" for b using assms(1) by (simp add: uops_kept_def)
  have "u_core_id (us' b) = u_core_id (us b)" for b
    using v[THEN arg_cong, of u_core_id] by (simp add: sched_view_def exec_view_def mem_view_def)
  then show ?thesis using uops_ok_cong[of us' us I] sched_view_fields(1,7)[OF v] assms(2) by simp
qed

text \<open>A step that changes nothing but the execution stage, and keeps what the window depends on.\<close>

definition stage_kept :: "'m mem_spec \<Rightarrow> sched_knobs \<Rightarrow> 'm schedule \<Rightarrow> 'm schedule \<Rightarrow> bool" where
  "stage_kept I k s s' \<longleftrightarrow> s' = s\<lparr>sc_exec := sc_exec s'\<rparr> \<and> exec_inv I (sk_exec k) (sc_exec s') \<and>
     uops_kept (sc_uops s) (sc_uops s') \<and> ring (ex_rob (sc_exec s')) = ring (ex_rob (sc_exec s)) \<and>
     ex_latency (sc_exec s') = ex_latency (sc_exec s) \<and> ex_max_port (sc_exec s') = ex_max_port (sc_exec s)"

lemma stage_kept_refl: "exec_inv I (sk_exec k) (sc_exec s) \<Longrightarrow> stage_kept I k s s"
  by (simp add: stage_kept_def)

lemma stage_kept_trans:
  assumes "stage_kept I k s s1" "stage_kept I k s1 s2"
  shows "stage_kept I k s s2"
proof -
  have e: "s1 = s\<lparr>sc_exec := sc_exec s1\<rparr>" "s2 = s1\<lparr>sc_exec := sc_exec s2\<rparr>" using assms by (simp_all add: stage_kept_def)
  have "s2 = s\<lparr>sc_exec := sc_exec s2\<rparr>" by (subst e(2), subst e(1)) simp
  then show ?thesis using assms uops_kept_trans unfolding stage_kept_def by metis
qed

lemma stage_kept_exec:
  assumes "exec_step I (sk_exec k) a (sc_exec s) ex"
  shows "stage_kept I k s (s\<lparr>sc_exec := ex\<rparr>)"
  using assms touched_kept by (auto simp add: stage_kept_def exec_step_def exec_frame_def)

lemma stage_kept_set_uop:
  assumes "exec_inv I (sk_exec k) (sc_exec s)" "sched_view (f (sc_uops s a)) = sched_view (sc_uops s a)"
    "u_pending_child_uops (f (sc_uops s a)) = u_pending_child_uops (sc_uops s a)"
  shows "stage_kept I k s (sc_set_uop a f s)"
  using assms uops_kept_upd[of f "sc_uops s" a] uops_kept_uops_ok[OF uops_kept_upd[of f "sc_uops s" a], of I]
  by (simp add: stage_kept_def sc_set_uop_def set_uop_def on_mem_def upd_uop_def exec_inv_def)

text \<open>What the attempt to execute the uop \<open>a\<close> leaves alone: of the other uops all but what a memory
  access writes, and if it fails, that \<open>a\<close> is in the scheduler.\<close>

definition attempt_frame :: "bool \<Rightarrow> addr \<Rightarrow> (addr \<Rightarrow> uop) \<Rightarrow> (addr \<Rightarrow> uop) \<Rightarrow> bool" where
  "attempt_frame ok a us us' \<longleftrightarrow> (\<forall>b. b \<noteq> a \<longrightarrow> mem_view (us' b) = mem_view (us b)) \<and>
     (\<not> ok \<longrightarrow> u_in_scheduler (us' a) = u_in_scheduler (us a))"

lemma attempt_frame_refl [simp]: "attempt_frame ok a us us"
  by (simp add: attempt_frame_def)

lemma attempt_frame_trans: "attempt_frame ok a us us1 \<Longrightarrow> attempt_frame ok a us1 us2 \<Longrightarrow> attempt_frame ok a us us2"
  by (simp add: attempt_frame_def)

lemma attempt_frame_upd:
  "u_in_scheduler (f (us a)) = u_in_scheduler (us a) \<or> ok \<Longrightarrow> attempt_frame ok a us (us(a := f (us a)))"
  by (auto simp add: attempt_frame_def)

lemma touched_frame:
  assumes "touched a us us'"
  shows "attempt_frame ok a us us'"
proof -
  have "exec_view (us' a) = exec_view (us a)" using assms by (simp add: touched_def)
  from arg_cong[OF this, of u_in_scheduler] have "u_in_scheduler (us' a) = u_in_scheduler (us a)"
    by (simp add: exec_view_def mem_view_def)
  with assms show ?thesis by (simp add: attempt_frame_def touched_def)
qed

section \<open>Entries\<close>

definition entry_ok :: "sched_knobs \<Rightarrow> 'm schedule \<Rightarrow> nat \<Rightarrow> bool" where
  "entry_ok k s e \<longleftrightarrow> (\<exists>a. rob_holds (ex_rob (sc_exec s)) e a \<and> uop_ok (sk_exec k) (ex_latency (sc_exec s)) (sc_uops s a))"

text \<open>The uop of an entry and the queue that it belongs to.\<close>

definition uop_at :: "'m schedule \<Rightarrow> nat \<Rightarrow> addr" where
  "uop_at s e = the (ro_rob (ex_rob (sc_exec s)) ! e)"

definition queue_of :: "'m schedule \<Rightarrow> nat \<Rightarrow> nat" where
  "queue_of s e = allocq_index (u_allocq_num (sc_uops s (uop_at s e)))"

lemma rob_holds_uop_at:
  assumes "rob_wf r" "rob_holds r e a"
  shows "the (ro_rob r ! e) = a"
  using rob_holds_at[OF assms] by (auto simp add: rob_at_def arr_get_eq_Inr dest: sym)

lemma entry_ok_uop:
  assumes "exec_inv I (sk_exec k) (sc_exec s)" "entry_ok k s e"
  shows "rob_holds (ex_rob (sc_exec s)) e (uop_at s e)" "entry_uop (- 1) e (sc_exec s) = Inr (uop_at s e)"
    "uop_ok (sk_exec k) (ex_latency (sc_exec s)) (sc_uops s (uop_at s e))" "queue_of s e < 4"
proof -
  from assms(2) obtain a where a: "rob_holds (ex_rob (sc_exec s)) e a"
    "uop_ok (sk_exec k) (ex_latency (sc_exec s)) (sc_uops s a)" by (auto simp add: entry_ok_def)
  have "uop_at s e = a" unfolding uop_at_def by (rule rob_holds_uop_at[OF exec_invD(4)[OF assms(1)] a(1)])
  with a entry_uop_holds[OF assms(1) a(1)] allocq_index_less show "rob_holds (ex_rob (sc_exec s)) e (uop_at s e)"
    "entry_uop (- 1) e (sc_exec s) = Inr (uop_at s e)"
    "uop_ok (sk_exec k) (ex_latency (sc_exec s)) (sc_uops s (uop_at s e))" "queue_of s e < 4"
    by (auto simp add: queue_of_def uop_ok_def)
qed

lemma stage_kept_entry:
  assumes "stage_kept I k s s'"
  shows "entry_ok k s e \<Longrightarrow> entry_ok k s' e" "uop_at s' e = uop_at s e" "queue_of s' e = queue_of s e"
    "sched_view (sc_uops s' b) = sched_view (sc_uops s b)"
proof -
  have K: "uops_kept (sc_uops s) (sc_uops s')" and R: "ring (ex_rob (sc_exec s')) = ring (ex_rob (sc_exec s))"
    and L: "ex_latency (sc_exec s') = ex_latency (sc_exec s)" using assms by (simp_all add: stage_kept_def)
  show "entry_ok k s e \<Longrightarrow> entry_ok k s' e"
    unfolding entry_ok_def rob_holds_ring[OF R] L using uops_kept_ok[OF K] by blast
  show u: "uop_at s' e = uop_at s e" using R by (simp add: uop_at_def ring_def)
  show v: "sched_view (sc_uops s' b) = sched_view (sc_uops s b)" for b using K by (simp add: uops_kept_def)
  show "queue_of s' e = queue_of s e" using sched_view_fields(4)[OF v] by (simp add: queue_of_def u)
qed

section \<open>The checks before execution\<close>

lemma src_loop_total:
  "(\<forall>i\<in>set is. i < length (u_map_src_info cur)) \<Longrightarrow> \<exists>w. src_loop cycle us cur is = Inr w"
  by (induction "is") (auto split: option.split)

lemma src_loop_None:
  assumes "src_loop cycle us cur is = Inr None" "i \<in> set is" "si_uop (u_map_src_info cur ! i) = Some b"
    "src_live cur (u_map_src_info cur ! i) (us b)"
  shows "\<not> src_waits cycle (us b)"
  using assms by (induction "is") (auto simp add: res_simps arr_get_eq_Inr split: option.splits if_splits)

lemma note_dep_view: "sched_view (note_dep us b u) = sched_view u" "u_pending_child_uops (note_dep us b u) = u_pending_child_uops u"
  by (simp_all add: note_dep_def)

lemma port_used_sc_set_uop [simp]: "ex_port_used (sc_exec (sc_set_uop a f s)) = ex_port_used (sc_exec s)"
  by (simp add: sc_set_uop_def set_uop_def on_mem_def)

text \<open>Every live source of the uop is done at the cycle.\<close>

definition operands_done :: "Counter \<Rightarrow> (addr \<Rightarrow> uop) \<Rightarrow> uop \<Rightarrow> bool" where
  "operands_done cycle us u \<longleftrightarrow> (\<forall>i < u_num_srcs u. \<forall>b. si_uop (u_map_src_info u ! i) = Some b \<longrightarrow>
     src_live u (u_map_src_info u ! i) (us b) \<longrightarrow> u_done_cycle (us b) \<noteq> 0 \<and> u_done_cycle (us b) \<le> cycle)"

lemma check_srcs_ok:
  assumes inv: "exec_inv I (sk_exec k) (sc_exec s)" and u: "uop_ok (sk_exec k) lat (sc_uops s a)"
  obtains r s' where "check_srcs cycle a s = Inr (r, s')" "stage_kept I k s s'"
    "ex_port_used (sc_exec s') = ex_port_used (sc_exec s)"
    "r \<Longrightarrow> u_srcs_rdy (sc_uops s a) \<or> operands_done cycle (sc_uops s) (sc_uops s a)"
proof (cases "u_srcs_rdy (sc_uops s a)")
  case True
  then show ?thesis using stage_kept_refl[OF inv] by (intro that[of True s]) (simp_all add: check_srcs_def)
next
  case False
  define u where "u = sc_uops s a"
  have "\<forall>i\<in>set [0..<u_num_srcs u]. i < length (u_map_src_info u)" using assms(2) by (auto simp add: uop_ok_def u_def)
  from src_loop_total[OF this, of cycle "sc_uops s"] obtain w where
    w: "src_loop cycle (sc_uops s) u [0..<u_num_srcs u] = Inr w" by blast
  show ?thesis
  proof (cases w)
    case None
    let ?s = "sc_set_uop a (\<lambda>u. u\<lparr>u_srcs_rdy := True\<rparr>) s"
    have "operands_done cycle (sc_uops s) u"
      unfolding operands_done_def using src_loop_None[OF w[unfolded None]] by (auto simp add: src_waits_def not_less)
    moreover have "stage_kept I k s ?s" by (rule stage_kept_set_uop[OF inv]) simp_all
    moreover have "check_srcs cycle a s = Inr (True, ?s)" using False w None by (simp add: check_srcs_def u_def)
    ultimately show ?thesis by (intro that[of True ?s]) (simp_all add: u_def)
  next
    case (Some b)
    let ?s = "sc_set_uop a (note_dep (sc_uops s) b) s"
    have "stage_kept I k s ?s" by (rule stage_kept_set_uop[OF inv]) (simp_all add: note_dep_view)
    moreover have "check_srcs cycle a s = Inr (False, ?s)" using False w Some by (simp add: check_srcs_def u_def)
    ultimately show ?thesis by (intro that[of False ?s]) simp_all
  qed
qed

lemma insert_fence_pref_ok:
  assumes c: "memory_contract ops I" and inv: "exec_inv I k ex"
  obtains ex' where "insert_fence_pref ops a ex = Inr ex'" "exec_step I k a ex ex'" "ex_port_used ex' = ex_port_used ex"
proof -
  have I0: "sp_inv I (cm_memory (ex_mem ex))" by (rule exec_invD(1)[OF inv])
  from c I0 exec_invD(12)[OF inv] obtain hit m where A: "mo_access_cache ops (ex_core_id ex) (u_vaddr (ex_uops ex a)) (cm_memory (ex_mem ex)) = Inr (hit, m)" "sp_inv I m"
    using c[unfolded memory_contract_def] by blast
  have B: "\<exists>ok m'. mo_new_mem_req ops r us m = Inr (ok, m') \<and> sp_inv I m'" if "ra_core_id r = ex_core_id ex" "ra_type r = MRT_DPRF" for r us
    using c[unfolded memory_contract_def] A(2) exec_invD(12)[OF inv] that by auto
  obtain m' where "insert_fence_pref ops a ex = Inr (on_mem (\<lambda>cm. cm\<lparr>cm_memory := m'\<rparr>) ex)" "sp_inv I m'"
  proof (cases hit)
    case True
    with A that[of m] show ?thesis by (simp add: insert_fence_pref_def)
  next
    case False
    obtain ok m' where "mo_new_mem_req ops
        \<lparr>ra_type = MRT_DPRF, ra_addr = u_vaddr (ex_uops ex a), ra_size = 64, ra_cache_hit = False, ra_with_data = False, ra_delay = 1,
         ra_uop = None, ra_done_func = None, ra_unique_num = 0, ra_core_id = ex_core_id ex,
         ra_thread_id = u_thread_id (ex_uops ex a), ra_acc = False\<rparr> (ex_uops ex) m = Inr (ok, m')" "sp_inv I m'"
      using B[of "\<lparr>ra_type = MRT_DPRF, ra_addr = u_vaddr (ex_uops ex a), ra_size = 64, ra_cache_hit = False, ra_with_data = False, ra_delay = 1,
         ra_uop = None, ra_done_func = None, ra_unique_num = 0, ra_core_id = ex_core_id ex,
         ra_thread_id = u_thread_id (ex_uops ex a), ra_acc = False\<rparr>" "ex_uops ex"] by auto
    with A False that[of m'] show ?thesis by (simp add: insert_fence_pref_def)
  qed
  moreover have "exec_step I k a ex (on_mem (\<lambda>cm. cm\<lparr>cm_memory := m'\<rparr>) ex)" if "sp_inv I m'" for m'
    using inv that by (simp add: exec_step_def exec_inv_def exec_frame_def on_mem_def)
  moreover have "ex_port_used (on_mem f ex) = ex_port_used ex" for f by (simp add: on_mem_def)
  ultimately show ?thesis using that by metis
qed

text \<open>When the checks let the uop at the entry \<open>e\<close> execute.\<close>

definition issue_allowed :: "sched_knobs \<Rightarrow> Counter \<Rightarrow> nat \<Rightarrow> 'm schedule \<Rightarrow> bool" where
  "issue_allowed k cycle e s \<longleftrightarrow>
     (let u = sc_uops s (uop_at s e) in
      u_bogus u \<or>
      (u_srcs_rdy u \<or> operands_done cycle (sc_uops s) u) \<and>
      ex_port_used (sc_exec s) ! queue_of s e < ex_max_port (sc_exec s) ! queue_of s e \<and>
      \<not> (KNOB_FENCE_ENABLE (ek_rob (sk_exec k)) \<and> u_mem_type u \<noteq> NOT_MEM \<and>
         ensure_mem_ordering (ek_rob (sk_exec k)) e (ex_rob (sc_exec s))))"

lemma check_srcs_rob: "check_srcs cycle a s = Inr (r, s') \<Longrightarrow> ex_rob (sc_exec s') = ex_rob (sc_exec s)"
  by (auto simp add: check_srcs_def Let_def res_simps sc_set_uop_def set_uop_def on_mem_def split: if_splits option.splits)

lemma sc_uops_set_uop: "sc_uops (sc_set_uop a f s) = (sc_uops s)(a := f (sc_uops s a))"
  by (simp add: sc_set_uop_def set_uop_def on_mem_def upd_uop_def)

lemma check_srcs_frame: "check_srcs cycle a s = Inr (r, s') \<Longrightarrow> attempt_frame ok a (sc_uops s) (sc_uops s')"
  by (auto simp add: check_srcs_def Let_def res_simps sc_uops_set_uop note_dep_def attempt_frame_def split: if_splits option.splits)

lemma insert_fence_pref_uops: "insert_fence_pref ops a ex = Inr ex' \<Longrightarrow> ex_uops ex' = ex_uops ex"
  by (auto simp add: insert_fence_pref_def Let_def res_simps on_mem_def split: if_splits)

lemma may_issue_frame:
  assumes "may_issue ops k cycle e a s = Inr (r, s')"
  shows "attempt_frame ok a (sc_uops s) (sc_uops s')"
  using assms check_srcs_frame[of cycle a s _ _ ok]
  by (auto simp add: may_issue_def Let_def res_simps insert_fence_pref_uops split: if_splits)

lemma may_issue_ok:
  assumes c: "memory_contract ops I" and inv: "exec_inv I (sk_exec k) (sc_exec s)" and e: "entry_ok k s e"
  obtains r s' where "may_issue ops k cycle e (uop_at s e) s = Inr (r, s')" "stage_kept I k s s'"
    "ex_port_used (sc_exec s') = ex_port_used (sc_exec s)" "r = SCHED_SUCCESS \<Longrightarrow> issue_allowed k cycle e s"
proof -
  define a where "a = uop_at s e"
  define u where "u = sc_uops s a"
  note E = entry_ok_uop[OF inv e, folded a_def]
  show ?thesis
  proof (cases "simd_busy u s \<or> dep_pending u s \<or> u_bogus u")
    case True
    then show ?thesis using stage_kept_refl[OF inv]
      by (intro that[of "if simd_busy u s then SCHED_FAIL_NO_AVAILABLE_SIMD_UNIT
            else if dep_pending u s then SCHED_FAIL_OPERANDS_NOT_READY else SCHED_SUCCESS" s])
        (auto simp add: may_issue_def issue_allowed_def Let_def a_def[symmetric] u_def[symmetric] split: if_splits)
  next
    case False
    from check_srcs_ok[OF inv E(3), of cycle] obtain r s1 where C: "check_srcs cycle a s = Inr (r, s1)" "stage_kept I k s s1"
      "ex_port_used (sc_exec s1) = ex_port_used (sc_exec s)"
      "r \<Longrightarrow> u_srcs_rdy u \<or> operands_done cycle (sc_uops s) u" by (metis u_def)
    have inv1: "exec_inv I (sk_exec k) (sc_exec s1)" using C(2) by (simp add: stage_kept_def)
    define q where "q = allocq_index (u_allocq_num u)"
    have q: "q < 4" "queue_of s e = q" using E(4) by (simp_all add: queue_of_def q_def u_def a_def)
    have mp: "ex_max_port (sc_exec s1) = ex_max_port (sc_exec s)" using C(2) by (simp add: stage_kept_def)
    have port: "port_available q (sc_exec s1) = Inr (ex_port_used (sc_exec s) ! q < ex_max_port (sc_exec s) ! q)"
      using q(1) exec_invD(2,3)[OF inv1] C(3) mp by (simp add: port_available_def)
    define blocked where "blocked = (KNOB_FENCE_ENABLE (ek_rob (sk_exec k)) \<and> u_mem_type u \<noteq> NOT_MEM \<and>
      ensure_mem_ordering (ek_rob (sk_exec k)) e (ex_rob (sc_exec s)))"
    from insert_fence_pref_ok[OF c inv1, of a] obtain ex' where X: "insert_fence_pref ops a (sc_exec s1) = Inr ex'"
      "exec_step I (sk_exec k) a (sc_exec s1) ex'" "ex_port_used ex' = ex_port_used (sc_exec s1)" by blast
    have eq: "may_issue ops k cycle e a s =
      (if \<not> r then Inr (SCHED_FAIL_OPERANDS_NOT_READY, s1)
       else if \<not> ex_port_used (sc_exec s) ! q < ex_max_port (sc_exec s) ! q then Inr (SCHED_FAIL_NO_AVAILABLE_PORTS, s1)
       else if blocked then Inr (SCHED_FAIL_FENCE_ACTIVE, if KNOB_FENCE_PREF_ENABLE k then s1\<lparr>sc_exec := ex'\<rparr> else s1)
       else Inr (SCHED_SUCCESS, s1))"
      using False C(1) port X(1) check_srcs_rob[OF C(1)]
      by (simp add: may_issue_def Let_def u_def[symmetric] q_def[symmetric] blocked_def)
    have st: "stage_kept I k s (s1\<lparr>sc_exec := ex'\<rparr>)" by (rule stage_kept_trans[OF C(2) stage_kept_exec[OF X(2)]])
    show ?thesis
    proof (cases "r \<and> ex_port_used (sc_exec s) ! q < ex_max_port (sc_exec s) ! q \<and> \<not> blocked")
      case True
      then have "issue_allowed k cycle e s"
        using C(4) unfolding issue_allowed_def Let_def q(2) a_def[symmetric] u_def[symmetric] blocked_def by simp
      with True eq C(2,3) show ?thesis by (intro that[of SCHED_SUCCESS s1]) (simp_all add: a_def)
    next
      case nf: False
      define s2 where "s2 = (if r \<and> ex_port_used (sc_exec s) ! q < ex_max_port (sc_exec s) ! q \<and> KNOB_FENCE_PREF_ENABLE k
        then s1\<lparr>sc_exec := ex'\<rparr> else s1)"
      have "stage_kept I k s s2" "ex_port_used (sc_exec s2) = ex_port_used (sc_exec s)"
        using st C(2,3) X(3) by (simp_all add: s2_def)
      moreover have "\<exists>f. f \<noteq> SCHED_SUCCESS \<and> may_issue ops k cycle e a s = Inr (f, s2)"
        using nf eq by (cases r; cases "ex_port_used (sc_exec s) ! q < ex_max_port (sc_exec s) ! q") (simp_all add: s2_def)
      ultimately show ?thesis using that unfolding a_def by metis
    qed
  qed
qed

section \<open>The attempt to schedule a uop\<close>

definition ports_ok :: "'m exec_stage \<Rightarrow> bool" where
  "ports_ok ex \<longleftrightarrow> (\<forall>q < 4. ex_port_used ex ! q \<le> ex_max_port ex ! q)"

lemma used_port_ok:
  assumes inv: "exec_inv I k ex" and ok: "ports_ok ex" and mp: "ex_max_port ex' = ex_max_port ex"
    and pu: "ex_port_used ex' \<in> {ex_port_used ex, used_port a ex}"
    and free: "u_bogus (ex_uops ex a) \<or> (let q = allocq_index (u_allocq_num (ex_uops ex a)) in ex_port_used ex ! q < ex_max_port ex ! q)"
  shows "ports_ok ex'"
proof -
  define i where "i = allocq_index (u_allocq_num (ex_uops ex a))"
  have "(ex_port_used ex)[i := ex_port_used ex ! i + 1] ! q \<le> ex_max_port ex ! q"
    if "q < 4" "ex_port_used ex ! i < ex_max_port ex ! i" for q
    using that ok exec_invD(2)[OF inv] by (cases "q = i") (simp_all add: ports_ok_def)
  with ok mp pu free show ?thesis by (auto simp add: ports_ok_def used_port_def Let_def i_def)
qed

text \<open>The state after a successful attempt, but for the execution stage.\<close>

definition issued_state :: "nat \<Rightarrow> 'm schedule \<Rightarrow> 'm schedule \<Rightarrow> 'm schedule" where
  "issued_state q s' s = s\<lparr>sc_num_in_sched := sc_num_in_sched s - 1,
     sc_num_per_sched := (sc_num_per_sched s)[q := sc_num_per_sched s ! q - 1],
     sc_last_sched_cycle := sc_last_sched_cycle s', sc_ops_to_be_dispatched := sc_ops_to_be_dispatched s'\<rparr>"

lemma leave_sched_ok:
  assumes inv: "exec_inv I (sk_exec k) (sc_exec s)" and n: "0 < sc_num_in_sched s" and q: "q < length (sc_num_per_sched s)" "q < 4"
    and nq: "0 < sc_num_per_sched s ! q"
  obtains s' where "leave_sched q a s = Inr s'" "stage_kept I k (issued_state q s' s) s'"
    "ex_port_used (sc_exec s') = ex_port_used (sc_exec s)"
    "sc_uops s' = (sc_uops s)(a := (sc_uops s a)\<lparr>u_in_scheduler := False\<rparr>)"
proof -
  define lc where "lc = (if u_uop_type (sc_uops s a) = UOP_SIMD then sc_cur_core_cycle s else sc_last_sched_cycle s)"
  define od where "od = (sc_ops_to_be_dispatched s)(u_thread_id (sc_uops s a) := sc_ops_to_be_dispatched s (u_thread_id (sc_uops s a)) - 1)"
  define s' where "s' = sc_set_uop a (\<lambda>u. u\<lparr>u_in_scheduler := False\<rparr>) (s\<lparr>sc_num_in_sched := sc_num_in_sched s - 1,
     sc_num_per_sched := (sc_num_per_sched s)[q := sc_num_per_sched s ! q - 1],
     sc_last_sched_cycle := lc, sc_ops_to_be_dispatched := od\<rparr>)"
  have eq: "leave_sched q a s = Inr s'"
    using n q nq by (simp add: leave_sched_def Let_def s'_def lc_def od_def sc_set_uop_def)
  have "issued_state q s' s = s\<lparr>sc_num_in_sched := sc_num_in_sched s - 1,
     sc_num_per_sched := (sc_num_per_sched s)[q := sc_num_per_sched s ! q - 1],
     sc_last_sched_cycle := lc, sc_ops_to_be_dispatched := od\<rparr>" (is "_ = ?t")
    by (simp add: issued_state_def s'_def sc_set_uop_def)
  moreover have "stage_kept I k ?t s'" unfolding s'_def by (rule stage_kept_set_uop) (use inv in simp_all)
  ultimately have "stage_kept I k (issued_state q s' s) s'" by simp
  then show ?thesis by (rule that[OF eq]) (simp_all add: s'_def sc_set_uop_def set_uop_def on_mem_def upd_uop_def)
qed

lemma issued_state_kept:
  assumes "stage_kept I k s s1"
  shows "stage_kept I k (issued_state q t s) (issued_state q t s1)"
proof -
  have e: "s1 = s\<lparr>sc_exec := sc_exec s1\<rparr>" using assms by (simp add: stage_kept_def)
  have f: "sc_num_in_sched s1 = sc_num_in_sched s" "sc_num_per_sched s1 = sc_num_per_sched s" by (subst e, simp)+
  have "issued_state q t s1 = (issued_state q t s)\<lparr>sc_exec := sc_exec s1\<rparr>"
    unfolding issued_state_def f by (subst (1) e) simp
  with assms show ?thesis by (simp add: stage_kept_def issued_state_def)
qed

lemma stage_kept_fields:
  assumes "stage_kept I k s s'"
  shows "sc_num_in_sched s' = sc_num_in_sched s" "sc_num_per_sched s' = sc_num_per_sched s" "sc_sched_size s' = sc_sched_size s"
    "sc_sched_rate s' = sc_sched_rate s" "sc_count s' = sc_count s" "sc_schedule_list s' = sc_schedule_list s"
    "sc_first_schlist_ptr s' = sc_first_schlist_ptr s" "sc_last_schlist_ptr s' = sc_last_schlist_ptr s"
    "sc_alloc_q s' = sc_alloc_q s" "sc_knob_width s' = sc_knob_width s" "sc_knob_sched_to_width s' = sc_knob_sched_to_width s"
    "sc_schedule_running s' = sc_schedule_running s" "sc_cur_core_cycle s' = sc_cur_core_cycle s"
proof -
  have e: "s' = s\<lparr>sc_exec := sc_exec s'\<rparr>" using assms by (simp add: stage_kept_def)
  show "sc_num_in_sched s' = sc_num_in_sched s" "sc_num_per_sched s' = sc_num_per_sched s" "sc_sched_size s' = sc_sched_size s"
    "sc_sched_rate s' = sc_sched_rate s" "sc_count s' = sc_count s" "sc_schedule_list s' = sc_schedule_list s"
    "sc_first_schlist_ptr s' = sc_first_schlist_ptr s" "sc_last_schlist_ptr s' = sc_last_schlist_ptr s"
    "sc_alloc_q s' = sc_alloc_q s" "sc_knob_width s' = sc_knob_width s" "sc_knob_sched_to_width s' = sc_knob_sched_to_width s"
    "sc_schedule_running s' = sc_schedule_running s" "sc_cur_core_cycle s' = sc_cur_core_cycle s" by (subst e, simp)+
qed

lemma uop_schedule_ok:
  assumes c: "memory_contract ops I" and inv: "exec_inv I (sk_exec k) (sc_exec s)" and p: "ports_ok (sc_exec s)"
    and e: "entry_ok k s e" and n: "0 < sc_num_in_sched s" and l: "length (sc_num_per_sched s) = 4"
    and nq: "0 < sc_num_per_sched s ! queue_of s e"
  obtains ok r s' where "uop_schedule ops k appl gc cycle e s = Inr (ok, r, s')" "ports_ok (sc_exec s')"
    "stage_kept I k (if ok then issued_state (queue_of s e) s' s else s) s'"
    "ok \<Longrightarrow> issue_allowed k cycle e s"
    "ok \<Longrightarrow> (let u = sc_uops s' (uop_at s e) in u_exec_cycle u = cycle \<and> u_sched_cycle u = cycle \<and> \<not> u_in_scheduler u)"
    "attempt_frame ok (uop_at s e) (sc_uops s) (sc_uops s')"
proof -
  define a where "a = uop_at s e"
  define q where "q = allocq_index (u_allocq_num (sc_uops s a))"
  have qq: "queue_of s e = q" by (simp add: q_def a_def queue_of_def)
  note E = entry_ok_uop[OF inv e, folded a_def]
  from may_issue_ok[OF c inv e, of cycle, folded a_def] obtain r s1 where
    M: "may_issue ops k cycle e a s = Inr (r, s1)" "stage_kept I k s s1" "ex_port_used (sc_exec s1) = ex_port_used (sc_exec s)"
    "r = SCHED_SUCCESS \<Longrightarrow> issue_allowed k cycle e s" by metis
  have inv1: "exec_inv I (sk_exec k) (sc_exec s1)" and mp: "ex_max_port (sc_exec s1) = ex_max_port (sc_exec s)"
    using M(2) by (simp_all add: stage_kept_def)
  have p1: "ports_ok (sc_exec s1)" using p M(3) mp by (simp add: ports_ok_def)
  show ?thesis
  proof (cases "r = SCHED_SUCCESS")
    case False
    then have "uop_schedule ops k appl gc cycle e s = Inr (False, r, s1)"
      using E(2) M(1) by (simp add: uop_schedule_def a_def[symmetric])
    with p1 M(2) may_issue_frame[OF M(1)] show ?thesis by (intro that[of False r s1]) (simp_all add: a_def)
  next
    case True
    define s1' where "s1' = sc_set_uop a (\<lambda>u. u\<lparr>u_state := OS_SCHEDULE\<rparr>) s1"
    have K1: "stage_kept I k s1 s1'" unfolding s1'_def by (rule stage_kept_set_uop[OF inv1]) simp_all
    note K = stage_kept_trans[OF M(2) K1]
    have inv1': "exec_inv I (sk_exec k) (sc_exec s1')" using K by (simp add: stage_kept_def)
    have at: "uop_at s1' e = a" using stage_kept_entry(2)[OF K] by (simp add: a_def)
    note E' = entry_ok_uop[OF inv1' stage_kept_entry(1)[OF K e], unfolded at]
    obtain ok ex where X: "exec ops (sk_exec k) appl gc cycle (- 1) e a (sc_exec s1') = Inr (ok, ex)"
      "exec_step I (sk_exec k) a (sc_exec s1') ex" "ex_port_used ex \<in> {ex_port_used (sc_exec s1'), used_port a (sc_exec s1')}"
      "ok \<Longrightarrow> u_exec_cycle (ex_uops ex a) = cycle" "ok \<Longrightarrow> u_sched_cycle (ex_uops ex a) = cycle"
      using exec_ok[OF c inv1' E'(1,3), of appl gc cycle] by metis
    define s2 where "s2 = s1\<lparr>sc_exec := ex\<rparr>"
    have s2': "s2 = s1'\<lparr>sc_exec := ex\<rparr>" by (simp add: s2_def s1'_def sc_set_uop_def)
    have K2: "stage_kept I k s s2" unfolding s2' by (rule stage_kept_trans[OF K stage_kept_exec[OF X(2)]])
    have pk: "ex_max_port (sc_exec s1') = ex_max_port (sc_exec s)" "ex_max_port ex = ex_max_port (sc_exec s)"
      using K K2 by (simp_all add: stage_kept_def s2_def)
    have pu: "ex_port_used (sc_exec s1') = ex_port_used (sc_exec s)" using M(3) by (simp add: s1'_def)
    have v: "u_bogus (sc_uops s1' a) = u_bogus (sc_uops s a)" "u_allocq_num (sc_uops s1' a) = u_allocq_num (sc_uops s a)"
      using sched_view_fields(3,4)[OF stage_kept_entry(4)[OF K, of a]] by simp_all
    have "ports_ok ex"
    proof (rule used_port_ok[OF inv1' _ _ X(3)])
      show "ports_ok (sc_exec s1')" using p pk pu by (simp add: ports_ok_def)
      show "ex_max_port ex = ex_max_port (sc_exec s1')" using pk by simp
      show "u_bogus (sc_uops s1' a) \<or> (let q = allocq_index (u_allocq_num (sc_uops s1' a)) in
          ex_port_used (sc_exec s1') ! q < ex_max_port (sc_exec s1') ! q)"
        using M(4)[OF True] unfolding issue_allowed_def Let_def v pk pu qq q_def a_def[symmetric] by blast
    qed
    then have p2: "ports_ok (sc_exec s2)" by (simp add: s2_def)
    have eq: "uop_schedule ops k appl gc cycle e s =
      (if \<not> ok then Inr (False, r, s2) else res_bind (leave_sched q a s2) (\<lambda>s3. Inr (True, r, s3)))"
      using E(2) M(1) True X(1)
      by (simp add: uop_schedule_def a_def[symmetric] q_def[symmetric] Let_def s1'_def sc_set_uop_def s2_def)
    have "touched a (sc_uops s1') (sc_uops s2)" using X(2) by (simp add: exec_step_def exec_frame_def s2_def)
    moreover have "attempt_frame b a (sc_uops s1) (sc_uops s1')" for b
      unfolding s1'_def sc_uops_set_uop by (rule attempt_frame_upd) simp
    ultimately have fr: "attempt_frame b a (sc_uops s) (sc_uops s2)" for b
      using may_issue_frame[OF M(1), of b] attempt_frame_trans touched_frame by metis
    show ?thesis
    proof (cases ok)
      case False
      with eq K2 p2 fr show ?thesis by (intro that[of False r s2]) (simp_all add: a_def)
    next
      case ok: True
      note F = stage_kept_fields[OF K2]
      have inv2: "exec_inv I (sk_exec k) (sc_exec s2)" using K2 by (simp add: stage_kept_def)
      have lq: "q < length (sc_num_per_sched s2)" "q < 4" using E(4) l F(2) qq by simp_all
      have "0 < sc_num_in_sched s2" "0 < sc_num_per_sched s2 ! q" using n nq F(1,2) qq by simp_all
      from leave_sched_ok[OF inv2 this(1) lq this(2), of a] obtain s3 where
        L: "leave_sched q a s2 = Inr s3" "stage_kept I k (issued_state q s3 s2) s3"
        "ex_port_used (sc_exec s3) = ex_port_used (sc_exec s2)"
        "sc_uops s3 = (sc_uops s2)(a := (sc_uops s2 a)\<lparr>u_in_scheduler := False\<rparr>)" by blast
      have "stage_kept I k (issued_state q s3 s) s3" by (rule stage_kept_trans[OF issued_state_kept[OF K2] L(2)])
      moreover have "ports_ok (sc_exec s3)"
        using p2 L(2,3) by (simp add: ports_ok_def stage_kept_def issued_state_def)
      moreover have "sc_uops s2 a = ex_uops ex a" by (simp add: s2_def)
      moreover have "attempt_frame True a (sc_uops s) (sc_uops s3)" unfolding L(4)
        by (rule attempt_frame_trans[OF fr attempt_frame_upd]) simp
      ultimately show ?thesis using eq ok L(1,4) M(4)[OF True] X(4,5)[OF ok] qq
        by (intro that[of True r s3]) (simp_all add: a_def Let_def)
    qed
  qed
qed

section \<open>The in-order loop ends\<close>

lemma may_issue_num: "may_issue ops k cycle e a s = Inr (r, s1) \<Longrightarrow> sc_num_in_sched s1 = sc_num_in_sched s"
  by (auto simp add: may_issue_def check_srcs_def Let_def res_simps sc_set_uop_def split: if_splits option.splits)

lemma leave_sched_num: "leave_sched q a s = Inr s' \<Longrightarrow> sc_num_in_sched s' = sc_num_in_sched s - 1 \<and> 0 < sc_num_in_sched s"
  by (auto simp add: leave_sched_def Let_def res_simps sc_set_uop_def split: if_splits)

lemma uop_schedule_num:
  assumes "uop_schedule ops k appl gc cycle e s = Inr (True, r, s')"
  shows "sc_num_in_sched s' = sc_num_in_sched s - 1 \<and> 0 < sc_num_in_sched s"
proof -
  from assms obtain a s1 ex q where "may_issue ops k cycle e a s = Inr (SCHED_SUCCESS, s1)" "leave_sched q a (s1\<lparr>sc_exec := ex\<rparr>) = Inr s'"
    by (auto simp add: uop_schedule_def Let_def res_simps split: if_splits)
  with may_issue_num leave_sched_num show ?thesis by fastforce
qed

lemma io_one_num:
  assumes "io_one ops k appl gc cycle nxt s = Inr (Some n, s1)"
  shows "sc_num_in_sched s1 = sc_num_in_sched s - 1" "0 < sc_num_in_sched s"
  using assms uop_schedule_num by (auto simp add: io_one_def Let_def res_simps split: if_splits option.splits) fastforce+

text \<open>More fuel than the number of uops in the scheduler makes no difference.\<close>

lemma io_loop_fuel:
  "nat (sc_num_in_sched s) \<le> f \<Longrightarrow> nat (sc_num_in_sched s) \<le> g \<Longrightarrow>
   io_loop f ops k appl gc cycle cnt nxt s = io_loop g ops k appl gc cycle cnt nxt s"
proof (induction f arbitrary: g cnt nxt s)
  case 0
  have "\<forall>n s1. io_one ops k appl gc cycle nxt s \<noteq> Inr (Some n, s1)" using io_one_num(2) 0 by fastforce
  then show ?case unfolding io_loop.simps[of 0] io_loop.simps[of g]
    by (intro if_cong refl res_bind_cong) (auto split: option.split)
next
  case (Suc f)
  have "(case n of None \<Rightarrow> Inr (cnt, nxt, s1) | Some nxt' \<Rightarrow> (case Suc f of 0 \<Rightarrow> Inl Diverges | Suc f \<Rightarrow> io_loop f ops k appl gc cycle (cnt + 1) nxt' s1)) =
      (case n of None \<Rightarrow> Inr (cnt, nxt, s1) | Some nxt' \<Rightarrow> (case g of 0 \<Rightarrow> Inl Diverges | Suc f \<Rightarrow> io_loop f ops k appl gc cycle (cnt + 1) nxt' s1))"
    if "io_one ops k appl gc cycle nxt s = Inr (n, s1)" for n s1
  proof (cases n)
    case (Some nxt')
    note N = io_one_num[OF that[unfolded Some]]
    then obtain g' where g: "g = Suc g'" using Suc.prems(2) by (cases g) auto
    have "nat (sc_num_in_sched s1) \<le> f" "nat (sc_num_in_sched s1) \<le> g'" using N Suc.prems g by simp_all
    from Suc.IH[OF this] show ?thesis by (simp add: Some g)
  qed simp
  then show ?case unfolding io_loop.simps[of "Suc f"] io_loop.simps[of g]
    by (intro if_cong refl res_bind_cong) auto
qed

end
