(* ===== verification/SchedCycle.thy ===== *)
theory SchedCycle
  imports SchedInv
begin

text \<open>
  A cycle of the out-of-order scheduler: the window loses exactly the uops that execute and gains exactly the
  uops that come from the allocation queues, the counters stay those of the window, and no assertion
  fails. The reference for the issue loop over the ring is \<open>try_issue\<close>, which tries the entries of the window as
  a list; \<open>issue_phase\<close> and \<open>fill_phase\<close> say what the two halves of the cycle do.
\<close>

section \<open>The window\<close>

definition live :: "'m schedule \<Rightarrow> int list" where
  "live s = filter (\<lambda>e. e \<noteq> - 1) (map ((!) (sc_schedule_list s)) (window_indices s))"

definition counts :: "sched_knobs \<Rightarrow> int list \<Rightarrow> 'm schedule \<Rightarrow> bool" where
  "counts k W s \<longleftrightarrow> (\<forall>e\<in>set W. 0 \<le> e \<and> entry_ok k s (nat e)) \<and> sc_num_in_sched s = int (length W) \<and>
     length (sc_num_per_sched s) = 4 \<and>
     (\<forall>q < 4. sc_num_per_sched s ! q = int (length (filter (\<lambda>e. queue_of s (nat e) = q) W)))"

definition sched_base :: "'m mem_spec \<Rightarrow> sched_knobs \<Rightarrow> 'm schedule \<Rightarrow> bool" where
  "sched_base I k s \<longleftrightarrow> exec_inv I (sk_exec k) (sc_exec s) \<and> ports_ok (sc_exec s) \<and>
     (\<forall>q < 4. 0 \<le> ex_max_port (sc_exec s) ! q) \<and>
     length (sc_count s) = 4 \<and> length (sc_sched_size s) = 4 \<and> length (sc_sched_rate s) = 4 \<and>
     length (sc_schedule_list s) = MAX_SCHED_SIZE \<and> sc_first_schlist_ptr s < MAX_SCHED_SIZE \<and>
     sc_last_schlist_ptr s < MAX_SCHED_SIZE \<and> (\<forall>q < 4. sc_num_per_sched s ! q \<le> sc_sched_size s ! q) \<and>
     4 \<le> length (sc_alloc_q s) \<and>
     (\<forall>aq\<in>set (sc_alloc_q s). pq_wf aq \<and> (\<forall>e\<in>set (contents aq). entry_ok k s e))"

definition sched_inv :: "'m mem_spec \<Rightarrow> sched_knobs \<Rightarrow> 'm schedule \<Rightarrow> bool" where
  "sched_inv I k s \<longleftrightarrow> sched_base I k s \<and> counts k (live s) s"

lemma sched_baseD:
  assumes "sched_base I k s"
  shows "exec_inv I (sk_exec k) (sc_exec s)" "ports_ok (sc_exec s)" "length (sc_schedule_list s) = MAX_SCHED_SIZE"
    "sc_first_schlist_ptr s < MAX_SCHED_SIZE" "sc_last_schlist_ptr s < MAX_SCHED_SIZE" "4 \<le> length (sc_alloc_q s)"
    "length (sc_count s) = 4" "length (sc_sched_size s) = 4" "length (sc_sched_rate s) = 4"
  using assms by (simp_all add: sched_base_def)

lemma sched_base_kept:
  assumes "sched_base I k s" "stage_kept I k s s'" "ports_ok (sc_exec s')"
  shows "sched_base I k s'"
  using assms stage_kept_fields[OF assms(2)] stage_kept_entry(1)[OF assms(2)]
  unfolding sched_base_def by (auto simp add: stage_kept_def)

lemma counts_kept: "counts k W s \<Longrightarrow> stage_kept I k s s' \<Longrightarrow> counts k W s'"
  using stage_kept_fields(1,2)[of I k s s'] stage_kept_entry(1,3)[of I k s s'] unfolding counts_def by auto

lemma live_cong:
  assumes "sc_schedule_list s' = sc_schedule_list s" "sc_first_schlist_ptr s' = sc_first_schlist_ptr s"
    "sc_last_schlist_ptr s' = sc_last_schlist_ptr s"
  shows "window_indices s' = window_indices s" "live s' = live s"
  using assms by (simp_all add: live_def window_indices_def)

lemma live_kept: "stage_kept I k s s' \<Longrightarrow> window_indices s' = window_indices s \<and> live s' = live s"
  using live_cong[of s' s] stage_kept_fields(6,7,8)[of I k s s'] by simp

lemma sched_inv_kept: "sched_inv I k s \<Longrightarrow> stage_kept I k s s' \<Longrightarrow> ports_ok (sc_exec s') \<Longrightarrow> sched_inv I k s'"
  using sched_base_kept counts_kept live_kept unfolding sched_inv_def by metis

lemma issued_state_entry: "entry_ok k (issued_state q t s) e = entry_ok k s e" "queue_of (issued_state q t s) e = queue_of s e"
  "sc_exec (issued_state q t s) = sc_exec s" "sc_uops (issued_state q t s) = sc_uops s"
  by (simp_all add: issued_state_def entry_ok_def queue_of_def uop_at_def)

lemma counts_issue:
  assumes "counts k (P @ e # R) s"
  shows "counts k (P @ R) (issued_state (queue_of s (nat e)) t s)"
  unfolding counts_def
proof (intro conjI ballI allI impI)
  have C: "\<forall>e\<in>set (P @ e # R). 0 \<le> e \<and> entry_ok k s (nat e)" "sc_num_in_sched s = int (length (P @ e # R))"
    "length (sc_num_per_sched s) = 4"
    "\<And>q. q < 4 \<Longrightarrow> sc_num_per_sched s ! q = int (length (filter (\<lambda>e. queue_of s (nat e) = q) (P @ e # R)))"
    using assms by (auto simp add: counts_def)
  show "0 \<le> x" "entry_ok k (issued_state (queue_of s (nat e)) t s) (nat x)" if "x \<in> set (P @ R)" for x
    using C(1) that by (auto simp add: issued_state_entry)
  show "sc_num_in_sched (issued_state (queue_of s (nat e)) t s) = int (length (P @ R))" using C(2) by (simp add: issued_state_def)
  show "length (sc_num_per_sched (issued_state (queue_of s (nat e)) t s)) = 4" using C(3) by (simp add: issued_state_def)
  show "sc_num_per_sched (issued_state (queue_of s (nat e)) t s) ! q =
      int (length (filter (\<lambda>e'. queue_of (issued_state (queue_of s (nat e)) t s) (nat e') = q) (P @ R)))" if "q < 4" for q
    using C(3) C(4)[OF that] that unfolding issued_state_entry
    by (cases "q = queue_of s (nat e)") (simp_all add: issued_state_def)
qed

lemma sched_base_issue:
  assumes "sched_base I k s" "length (sc_num_per_sched s) = 4"
  shows "sched_base I k (issued_state q t s)"
proof -
  have "(sc_num_per_sched s)[q := sc_num_per_sched s ! q - 1] ! q' \<le> sc_sched_size s ! q'" if "q' < 4" for q'
  proof -
    have "sc_num_per_sched s ! q' \<le> sc_sched_size s ! q'" using assms(1) that by (simp add: sched_base_def)
    then show ?thesis using that assms(2) by (cases "q' = q") simp_all
  qed
  then show ?thesis using assms unfolding sched_base_def issued_state_entry by (simp add: issued_state_def)
qed

section \<open>Indices of the window\<close>

lemma window_indices_props:
  assumes "sc_first_schlist_ptr s < MAX_SCHED_SIZE"
  shows "distinct (window_indices s)" "\<forall>i\<in>set (window_indices s). i < MAX_SCHED_SIZE"
proof -
  have d: "(sc_last_schlist_ptr s + MAX_SCHED_SIZE - sc_first_schlist_ptr s) mod MAX_SCHED_SIZE < MAX_SCHED_SIZE"
    by (simp add: MAX_SCHED_SIZE_def)
  show "distinct (window_indices s)"
    unfolding window_indices_def distinct_map
  proof (intro conjI inj_onI)
    fix x y
    assume "x \<in> set [0..<(sc_last_schlist_ptr s + MAX_SCHED_SIZE - sc_first_schlist_ptr s) mod MAX_SCHED_SIZE]"
      "y \<in> set [0..<(sc_last_schlist_ptr s + MAX_SCHED_SIZE - sc_first_schlist_ptr s) mod MAX_SCHED_SIZE]"
      "(sc_first_schlist_ptr s + x) mod MAX_SCHED_SIZE = (sc_first_schlist_ptr s + y) mod MAX_SCHED_SIZE"
    with d mod_offset_inj[OF assms, of x y] show "x = y" by simp
  qed simp
  show "\<forall>i\<in>set (window_indices s). i < MAX_SCHED_SIZE"
    by (auto simp add: window_indices_def MAX_SCHED_SIZE_def)
qed

lemma window_indices_Cons:
  assumes f: "sc_first_schlist_ptr s < MAX_SCHED_SIZE" "sc_last_schlist_ptr s < MAX_SCHED_SIZE" and w: "window_indices s = i # is"
  shows "i = sc_first_schlist_ptr s" "window_indices (skip_first i s) = is"
proof -
  let ?M = MAX_SCHED_SIZE and ?f = "sc_first_schlist_ptr s" and ?l = "sc_last_schlist_ptr s"
  define d where "d = (?l + ?M - ?f) mod ?M"
  have "d \<noteq> 0"
  proof
    assume "d = 0"
    then show False using w by (simp add: window_indices_def d_def)
  qed
  then obtain n where n: "d = Suc n" by (cases d) auto
  have ups: "[0..<d] = 0 # map Suc [0..<n]" by (simp add: n map_Suc_upt upt_conv_Cons)
  have w': "i # is = map (\<lambda>j. (?f + j) mod ?M) (0 # map Suc [0..<n])"
    using w unfolding window_indices_def d_def[symmetric] ups by simp
  then show i: "i = ?f" using f by simp
  define f' where "f' = (?f + 1) mod ?M"
  have d': "(?l + ?M - f') mod ?M = n"
    using f n unfolding d_def f'_def MAX_SCHED_SIZE_def by (auto simp add: mod_if split: if_splits)
  have "is = map (\<lambda>j. (f' + j) mod ?M) [0..<n]"
    using w' by (simp add: f'_def mod_simps)
  then show "window_indices (skip_first i s) = is"
    using i d' by (simp add: window_indices_def skip_first_def f'_def)
qed

lemma window_indices_snoc:
  assumes f: "sc_first_schlist_ptr s < MAX_SCHED_SIZE" "sc_last_schlist_ptr s < MAX_SCHED_SIZE" and nf: "\<not> sched_full s"
    and s': "sc_first_schlist_ptr s' = sc_first_schlist_ptr s" "sc_last_schlist_ptr s' = (sc_last_schlist_ptr s + 1) mod MAX_SCHED_SIZE"
  shows "window_indices s' = window_indices s @ [sc_last_schlist_ptr s]" "sc_last_schlist_ptr s \<notin> set (window_indices s)"
proof -
  let ?M = MAX_SCHED_SIZE and ?f = "sc_first_schlist_ptr s" and ?l = "sc_last_schlist_ptr s"
  define d where "d = (?l + ?M - ?f) mod ?M"
  have d: "d < ?M" "(?f + d) mod ?M = ?l" "((?l + 1) mod ?M + ?M - ?f) mod ?M = Suc d"
    using f nf unfolding d_def sched_full_def MAX_SCHED_SIZE_def by (auto simp add: mod_if split: if_splits)
  show "window_indices s' = window_indices s @ [?l]"
    unfolding window_indices_def s' d(3) d_def[symmetric] by (simp add: d(2))
  show "?l \<notin> set (window_indices s)"
  proof
    assume "?l \<in> set (window_indices s)"
    then obtain j where "j < d" "?l = (?f + j) mod ?M" by (auto simp add: window_indices_def d_def)
    with d(1,2) mod_offset_inj[OF f(1), of j d] show False by simp
  qed
qed

lemma live_skip:
  assumes w: "window_indices s = pre @ i # is" and f: "sc_first_schlist_ptr s < MAX_SCHED_SIZE" "sc_last_schlist_ptr s < MAX_SCHED_SIZE"
  obtains pre' where "window_indices (skip_first i s) = pre' @ is"
    "sc_schedule_list s ! i = - 1 \<Longrightarrow> live (skip_first i s) = live s"
    "live s = filter (\<lambda>e. e \<noteq> - 1) (map ((!) (sc_schedule_list s)) pre) @
       filter (\<lambda>e. e \<noteq> - 1) [sc_schedule_list s ! i] @ filter (\<lambda>e. e \<noteq> - 1) (map ((!) (sc_schedule_list s)) is)"
    "length (sc_schedule_list s) = MAX_SCHED_SIZE \<Longrightarrow>
     live ((skip_first i s)\<lparr>sc_schedule_list := (sc_schedule_list s)[i := - 1]\<rparr>) =
       filter (\<lambda>e. e \<noteq> - 1) (map ((!) (sc_schedule_list s)) pre) @ filter (\<lambda>e. e \<noteq> - 1) (map ((!) (sc_schedule_list s)) is)"
proof -
  have D: "distinct (pre @ i # is)" using window_indices_props(1)[OF f(1)] w by simp
  have i: "i < MAX_SCHED_SIZE" using window_indices_props(2)[OF f(1)] w by simp
  have l: "sc_schedule_list (skip_first i s) = sc_schedule_list s" by (simp add: skip_first_def)
  have live: "live s = filter (\<lambda>e. e \<noteq> - 1) (map ((!) (sc_schedule_list s)) pre) @
       filter (\<lambda>e. e \<noteq> - 1) [sc_schedule_list s ! i] @ filter (\<lambda>e. e \<noteq> - 1) (map ((!) (sc_schedule_list s)) is)"
    unfolding live_def w by simp
  have upd: "map ((!) ((sc_schedule_list s)[i := - 1])) xs = map ((!) (sc_schedule_list s)) xs" if "i \<notin> set xs" for xs
    using that by (intro map_cong refl nth_list_update_neq) auto
  have live_upd: "live (s'\<lparr>sc_schedule_list := xs\<rparr>) = filter (\<lambda>e. e \<noteq> - 1) (map ((!) xs) (window_indices s'))" for s' :: "'a schedule" and xs
    by (simp add: live_def window_indices_def)
  show ?thesis
  proof (cases pre)
    case Nil
    note C = window_indices_Cons[OF f w[unfolded Nil append_Nil]]
    show ?thesis
    proof (rule that[of "[]"])
      show "window_indices (skip_first i s) = [] @ is" using C(2) by simp
      show "live (skip_first i s) = live s" if "sc_schedule_list s ! i = - 1"
        using that unfolding live Nil by (simp add: live_def C(2) l)
      show "live ((skip_first i s)\<lparr>sc_schedule_list := (sc_schedule_list s)[i := - 1]\<rparr>) =
        filter (\<lambda>e. e \<noteq> - 1) (map ((!) (sc_schedule_list s)) pre) @ filter (\<lambda>e. e \<noteq> - 1) (map ((!) (sc_schedule_list s)) is)"
      proof -
        have "i \<notin> set is" using D by simp
        then show ?thesis unfolding live_upd C(2) Nil upd[OF \<open>i \<notin> set is\<close>] by simp
      qed
    qed (rule live)
  next
    case (Cons j pre1)
    have "i \<noteq> sc_first_schlist_ptr s" using window_indices_Cons(1)[OF f w[unfolded Cons append_Cons]] D Cons by auto
    then have sk: "skip_first i s = s" by (simp add: skip_first_def)
    show ?thesis
    proof (rule that[of "pre @ [i]"])
      show "window_indices (skip_first i s) = (pre @ [i]) @ is" using w sk by simp
      show "live ((skip_first i s)\<lparr>sc_schedule_list := (sc_schedule_list s)[i := - 1]\<rparr>) =
        filter (\<lambda>e. e \<noteq> - 1) (map ((!) (sc_schedule_list s)) pre) @ filter (\<lambda>e. e \<noteq> - 1) (map ((!) (sc_schedule_list s)) is)"
        if len: "length (sc_schedule_list s) = MAX_SCHED_SIZE"
      proof -
        have n: "i \<notin> set is" "i \<notin> set pre" using D by simp_all
        show ?thesis unfolding live_upd sk w map_append list.map upd[OF n(1)] upd[OF n(2)] using i len by simp
      qed
    qed (use sk live in simp_all)
  qed
qed

section \<open>Attempts do not depend on the ring\<close>

text \<open>The ring of the window: the list and its two pointers.\<close>

definition on_ring :: "int list \<times> nat \<times> nat \<Rightarrow> 'm schedule \<Rightarrow> 'm schedule" where
  "on_ring R s = s\<lparr>sc_schedule_list := fst R, sc_first_schlist_ptr := fst (snd R), sc_last_schlist_ptr := snd (snd R)\<rparr>"

lemma on_ring_fields [simp]:
  "sc_exec (on_ring R s) = sc_exec s" "sc_igpu (on_ring R s) = sc_igpu s" "sc_cur_core_cycle (on_ring R s) = sc_cur_core_cycle s"
  "sc_last_sched_cycle (on_ring R s) = sc_last_sched_cycle s" "sc_knob_width (on_ring R s) = sc_knob_width s"
  "sc_knob_sched_to_width (on_ring R s) = sc_knob_sched_to_width s" "on_ring R (on_ring Q s) = on_ring R s"
  "sc_set_uop a f (on_ring R s) = on_ring R (sc_set_uop a f s)" "(on_ring R s)\<lparr>sc_exec := ex\<rparr> = on_ring R (s\<lparr>sc_exec := ex\<rparr>)"
  by (simp_all add: on_ring_def sc_set_uop_def)

lemma check_srcs_ring:
  "check_srcs cycle a (on_ring R s) = res_bind (check_srcs cycle a s) (\<lambda>(b, s'). Inr (b, on_ring R s'))"
  by (cases "src_loop cycle (sc_uops s) (sc_uops s a) [0..<u_num_srcs (sc_uops s a)]")
    (auto simp add: check_srcs_def Let_def split: option.split)

lemma issue_checks_ring: "simd_busy u (on_ring R s) = simd_busy u s" "dep_pending u (on_ring R s) = dep_pending u s"
  by (simp_all add: simd_busy_def dep_pending_def split: option.split)

lemma may_issue_ring:
  "may_issue ops k cycle e a (on_ring R s) = res_bind (may_issue ops k cycle e a s) (\<lambda>(r, s'). Inr (r, on_ring R s'))"
proof (cases "check_srcs cycle a s")
  case (Inl x)
  then show ?thesis by (simp add: may_issue_def Let_def check_srcs_ring issue_checks_ring)
next
  case (Inr p)
  obtain b s1 where p: "p = (b, s1)" by fastforce
  show ?thesis
    by (cases "port_available (allocq_index (u_allocq_num (sc_uops s a))) (sc_exec s1)"; cases "insert_fence_pref ops a (sc_exec s1)")
      (simp_all add: may_issue_def Let_def check_srcs_ring issue_checks_ring Inr p)
qed

lemma leave_sched_ring:
  "leave_sched q a (on_ring R s) = res_bind (leave_sched q a s) (\<lambda>s'. Inr (on_ring R s'))"
  by (cases "arr_get (sc_num_per_sched s) q"; cases "u_uop_type (sc_uops s a) = UOP_SIMD"; cases "0 < sc_num_in_sched s"; cases "q < 4")
    (auto simp add: leave_sched_def Let_def on_ring_def sc_set_uop_def check_def)

lemma uop_schedule_ring:
  "uop_schedule ops k appl gc cycle e (on_ring R s) =
     res_bind (uop_schedule ops k appl gc cycle e s) (\<lambda>(ok, r, s'). Inr (ok, r, on_ring R s'))"
proof (cases "entry_uop (- 1) e (sc_exec s)")
  case (Inl x)
  then show ?thesis by (simp add: uop_schedule_def)
next
  case a: (Inr a)
  show ?thesis
  proof (cases "may_issue ops k cycle e a s")
    case (Inl x)
    with a show ?thesis by (simp add: uop_schedule_def may_issue_ring Let_def)
  next
    case (Inr p)
    obtain r s1 where p: "p = (r, s1)" by fastforce
    show ?thesis
    proof (cases "exec ops (sk_exec k) appl gc cycle (- 1) e a (set_uop a (\<lambda>u. u\<lparr>u_state := OS_SCHEDULE\<rparr>) (sc_exec s1))")
      case (Inl x)
      with a \<open>may_issue ops k cycle e a s = Inr p\<close> p show ?thesis by (simp add: uop_schedule_def may_issue_ring Let_def)
    next
      case x: (Inr x)
      obtain ok ex where "x = (ok, ex)" by fastforce
      with a x \<open>may_issue ops k cycle e a s = Inr p\<close> p show ?thesis
        by (cases "leave_sched (allocq_index (u_allocq_num (sc_uops s a))) a (s1\<lparr>sc_exec := ex\<rparr>)")
          (simp_all add: uop_schedule_def may_issue_ring leave_sched_ring Let_def)
    qed
  qed
qed

text \<open>The reference for the loop: the entries are tried one after another on the state that the
  attempts before have left, until the width is reached.\<close>

fun try_issue ::
  "'m mem_ops \<Rightarrow> sched_knobs \<Rightarrow> (int \<Rightarrow> int) \<Rightarrow> Counter \<Rightarrow> Counter \<Rightarrow> int list \<Rightarrow> int \<Rightarrow> 'm schedule \<Rightarrow> (int list \<times> 'm schedule) res" where
  "try_issue ops k appl gc cycle [] cnt s = Inr ([], s)"
| "try_issue ops k appl gc cycle (e # es) cnt s =
     res_bind (uop_schedule ops k appl gc cycle (nat e) s) (\<lambda>(ok, _, s1).
     if \<not> ok then try_issue ops k appl gc cycle es cnt s1
     else if sc_knob_sched_to_width s1 \<noteq> 0 \<and> cnt + 1 \<ge> uint (sc_knob_width s1) then Inr ([e], s1)
     else res_bind (try_issue ops k appl gc cycle es (cnt + 1) s1) (\<lambda>(issued, t). Inr (e # issued, t)))"

lemma try_issue_ring:
  "try_issue ops k appl gc cycle es cnt (on_ring R s) =
     res_bind (try_issue ops k appl gc cycle es cnt s) (\<lambda>(issued, t). Inr (issued, on_ring R t))"
proof (induction es arbitrary: cnt s)
  case Nil
  then show ?case by simp
next
  case (Cons e es)
  show ?case
  proof (cases "uop_schedule ops k appl gc cycle (nat e) s")
    case (Inl x)
    then show ?thesis by (simp add: uop_schedule_ring)
  next
    case (Inr p)
    obtain ok r s1 where p: "p = (ok, r, s1)" by (cases p)
    show ?thesis
      by (cases "try_issue ops k appl gc cycle es (cnt + 1) s1") (auto simp add: uop_schedule_ring Inr p Cons.IH)
  qed
qed

section \<open>The loop of the out-of-order scheduler\<close>

lemma skip_first_fields [simp]:
  "sc_exec (skip_first i s) = sc_exec s" "sc_alloc_q (skip_first i s) = sc_alloc_q s" "sc_count (skip_first i s) = sc_count s"
  "sc_sched_size (skip_first i s) = sc_sched_size s" "sc_sched_rate (skip_first i s) = sc_sched_rate s"
  "sc_num_per_sched (skip_first i s) = sc_num_per_sched s" "sc_num_in_sched (skip_first i s) = sc_num_in_sched s"
  "sc_schedule_list (skip_first i s) = sc_schedule_list s" "sc_last_schlist_ptr (skip_first i s) = sc_last_schlist_ptr s"
  "sc_knob_width (skip_first i s) = sc_knob_width s" "sc_knob_sched_to_width (skip_first i s) = sc_knob_sched_to_width s"
  "entry_ok k (skip_first i s) e = entry_ok k s e" "queue_of (skip_first i s) e = queue_of s e"
  by (simp_all add: skip_first_def entry_ok_def queue_of_def uop_at_def)

lemma skip_first_less: "sc_first_schlist_ptr s < MAX_SCHED_SIZE \<Longrightarrow> sc_first_schlist_ptr (skip_first i s) < MAX_SCHED_SIZE"
  by (simp add: skip_first_def MAX_SCHED_SIZE_def)

lemma sched_base_skip: "sched_base I k s \<Longrightarrow> sched_base I k (skip_first i s)"
  using skip_first_less[of s i] by (simp add: sched_base_def)

lemma counts_cong:
  assumes "sc_num_in_sched s' = sc_num_in_sched s" "sc_num_per_sched s' = sc_num_per_sched s" "sc_exec s' = sc_exec s"
  shows "counts k W s' = counts k W s"
  using assms by (simp add: counts_def entry_ok_def queue_of_def uop_at_def)

text \<open>The issue of the entry at the index \<open>i\<close> of the window.\<close>

lemma issue_window:
  assumes inv: "sched_inv I k s" and w: "window_indices s = pre @ i # is" and e: "sc_schedule_list s ! i = e" "e \<noteq> - 1"
    and K: "stage_kept I k (issued_state (queue_of s (nat e)) s1 s) s1" and p: "ports_ok (sc_exec s1)"
  defines "s3 \<equiv> (skip_first i s1)\<lparr>sc_schedule_list := (sc_schedule_list (skip_first i s1))[i := - 1]\<rparr>"
  shows "sched_inv I k s3" "\<exists>pre'. window_indices s3 = pre' @ is" "\<exists>P R. live s = P @ e # R \<and> live s3 = P @ R"
proof -
  have b: "sched_base I k s" and c: "counts k (live s) s" using inv by (simp_all add: sched_inv_def)
  note B = sched_baseD[OF b]
  let ?t = "issued_state (queue_of s (nat e)) s1 s"
  note F = stage_kept_fields[OF K]
  have G: "sc_schedule_list s1 = sc_schedule_list s" "sc_first_schlist_ptr s1 = sc_first_schlist_ptr s"
    "sc_last_schlist_ptr s1 = sc_last_schlist_ptr s" using F(6,7,8) by (simp_all add: issued_state_def)
  have w1: "window_indices s1 = pre @ i # is" using live_cong(1)[OF G] w by simp
  define P where "P = filter (\<lambda>e. e \<noteq> - 1) (map ((!) (sc_schedule_list s)) pre)"
  define R where "R = filter (\<lambda>e. e \<noteq> - 1) (map ((!) (sc_schedule_list s)) is)"
  have f1: "sc_first_schlist_ptr s1 < MAX_SCHED_SIZE" "sc_last_schlist_ptr s1 < MAX_SCHED_SIZE" using B(4,5) G by simp_all
  obtain pre' where W: "window_indices (skip_first i s1) = pre' @ is" "live s1 = P @ e # R"
    "live ((skip_first i s1)\<lparr>sc_schedule_list := (sc_schedule_list s1)[i := - 1]\<rparr>) = P @ R"
    using live_skip[OF w1 f1] e B(3) unfolding G(1) P_def R_def by simp metis
  have s3: "s3 = (skip_first i s1)\<lparr>sc_schedule_list := (sc_schedule_list s1)[i := - 1]\<rparr>" by (simp add: s3_def)
  have L: "live s3 = P @ R" "live s = P @ e # R" using W(2,3) live_cong(2)[OF G] by (simp_all add: s3)
  then show "\<exists>P R. live s = P @ e # R \<and> live s3 = P @ R" by blast
  have "window_indices s3 = window_indices (skip_first i s1)" by (simp add: s3 window_indices_def)
  then show "\<exists>pre'. window_indices s3 = pre' @ is" using W(1) by auto
  have "length (sc_num_per_sched s) = 4" using c by (simp add: counts_def)
  then have "sched_base I k ?t" by (rule sched_base_issue[OF b])
  from sched_base_skip[OF sched_base_kept[OF this K p]] have "sched_base I k s3"
    by (simp add: s3 sched_base_def entry_ok_def)
  moreover have "counts k (P @ R) s1" using counts_kept[OF counts_issue[OF c[unfolded L(2)]] K] .
  then have "counts k (live s3) s3" using counts_cong[of s3 s1] L(1) by (simp add: s3)
  ultimately show "sched_inv I k s3" by (simp add: sched_inv_def)
qed

lemma live_member:
  assumes "window_indices s = pre @ i # is" "sc_schedule_list s ! i \<noteq> - 1"
  shows "sc_schedule_list s ! i \<in> set (live s)"
  using assms by (simp add: live_def)

lemma counts_positive:
  assumes "counts k W s" "e \<in> set W" "queue_of s (nat e) < 4"
  shows "0 < sc_num_in_sched s" "0 < sc_num_per_sched s ! queue_of s (nat e)"
proof -
  have "filter (\<lambda>x. queue_of s (nat x) = queue_of s (nat e)) W \<noteq> []" using assms(2) by (auto simp add: filter_empty_conv)
  then show "0 < sc_num_per_sched s ! queue_of s (nat e)" using assms by (simp add: counts_def)
  show "0 < sc_num_in_sched s" using assms by (cases W) (auto simp add: counts_def)
qed

text \<open>An attempt on a live entry, with what is needed of it below.\<close>

lemma attempt_ok:
  assumes c: "memory_contract ops I" and inv: "sched_inv I k s" and e: "e \<in> set (live s)"
  obtains ok r s1 where "uop_schedule ops k appl gc cycle (nat e) s = Inr (ok, r, s1)" "ports_ok (sc_exec s1)"
    "stage_kept I k (if ok then issued_state (queue_of s (nat e)) s1 s else s) s1"
    "ok \<Longrightarrow> issue_allowed k cycle (nat e) s"
    "ok \<Longrightarrow> (let u = sc_uops s1 (uop_at s (nat e)) in u_exec_cycle u = cycle \<and> u_sched_cycle u = cycle \<and> \<not> u_in_scheduler u)"
    "attempt_frame ok (uop_at s (nat e)) (sc_uops s) (sc_uops s1)"
proof -
  have b: "sched_base I k s" and ct: "counts k (live s) s" using inv by (simp_all add: sched_inv_def)
  note B = sched_baseD[OF b]
  have eo: "entry_ok k s (nat e)" and l4: "length (sc_num_per_sched s) = 4" using ct e by (simp_all add: counts_def)
  note q4 = entry_ok_uop(4)[OF B(1) eo]
  show ?thesis using uop_schedule_ok[OF c B(1,2) eo counts_positive(1)[OF ct e q4] l4 counts_positive(2)[OF ct e q4],
      of appl gc cycle] that by blast
qed

text \<open>What the loop does to a window whose entries have different uops, when it executes the entries
  \<open>issued\<close>.\<close>

definition entry_uops :: "'m schedule \<Rightarrow> addr set" where
  "entry_uops s = (\<lambda>e. uop_at s (nat e)) ` set (live s)"

definition executed :: "Counter \<Rightarrow> uop \<Rightarrow> bool" where
  "executed cycle u \<longleftrightarrow> u_exec_cycle u = cycle \<and> u_sched_cycle u = cycle \<and> \<not> u_in_scheduler u"

definition issue_phase :: "Counter \<Rightarrow> 'm schedule \<Rightarrow> int list \<Rightarrow> 'm schedule \<Rightarrow> bool" where
  "issue_phase cycle s issued s' \<longleftrightarrow>
     live s' = filter (\<lambda>e. e \<notin> set issued) (live s) \<and> set issued \<subseteq> set (live s) \<and>
     (\<forall>e\<in>set issued. executed cycle (sc_uops s' (uop_at s (nat e)))) \<and>
     (\<forall>e\<in>set (live s'). u_in_scheduler (sc_uops s' (uop_at s (nat e))) = u_in_scheduler (sc_uops s (uop_at s (nat e)))) \<and>
     (\<forall>b. b \<notin> entry_uops s \<longrightarrow> mem_view (sc_uops s' b) = mem_view (sc_uops s b))"

lemma executed_view: "mem_view u = mem_view v \<Longrightarrow> executed cycle u = executed cycle v \<and> u_in_scheduler u = u_in_scheduler v"
proof -
  assume v: "mem_view u = mem_view v"
  show ?thesis
    using v[THEN arg_cong, of u_exec_cycle] v[THEN arg_cong, of u_sched_cycle] v[THEN arg_cong, of u_in_scheduler]
    by (simp add: mem_view_def executed_def)
qed

lemma issue_phase_refl: "issue_phase cycle s [] s"
  by (simp add: issue_phase_def)

text \<open>A failed attempt before the phase.\<close>

lemma issue_phase_fail:
  assumes fr: "attempt_frame False (uop_at s (nat e)) (sc_uops s) (sc_uops s1)" and l: "live s1 = live s" "uop_at s1 = uop_at s"
    and e: "e \<in> set (live s)" and ph: "issue_phase cycle s1 issued s'"
  shows "issue_phase cycle s issued s'"
proof -
  have eu: "entry_uops s1 = entry_uops s" by (simp add: entry_uops_def l)
  have "u_in_scheduler (sc_uops s1 b) = u_in_scheduler (sc_uops s b)" for b
    using fr executed_view[of "sc_uops s1 b" "sc_uops s b"] unfolding attempt_frame_def by (cases "b = uop_at s (nat e)") auto
  moreover have "b \<notin> entry_uops s \<Longrightarrow> mem_view (sc_uops s1 b) = mem_view (sc_uops s b)" for b
    using fr e by (auto simp add: attempt_frame_def entry_uops_def)
  ultimately show ?thesis using ph unfolding issue_phase_def l eu by simp
qed

text \<open>A successful one, which takes \<open>e\<close> out of the window.\<close>

lemma issue_phase_ok:
  assumes fr: "attempt_frame True (uop_at s (nat e)) (sc_uops s) (sc_uops s3)" and u: "uop_at s3 = uop_at s"
    and l: "live s = P @ e # R" "live s3 = P @ R" and d: "distinct (map (\<lambda>e. uop_at s (nat e)) (live s))"
    and ex: "executed cycle (sc_uops s3 (uop_at s (nat e)))" and ph: "issue_phase cycle s3 issued s'"
  shows "issue_phase cycle s (e # issued) s'"
  unfolding issue_phase_def
proof (intro conjI ballI allI impI)
  have ne: "e \<notin> set (P @ R)" using d l(1) by auto
  have out: "uop_at s (nat e) \<notin> entry_uops s3" using d l by (auto simp add: entry_uops_def u)
  have sub: "entry_uops s = insert (uop_at s (nat e)) (entry_uops s3)" by (auto simp add: entry_uops_def u l)
  have ph': "live s' = filter (\<lambda>e. e \<notin> set issued) (P @ R)" "set issued \<subseteq> set (P @ R)"
    "\<And>x. x \<in> set issued \<Longrightarrow> executed cycle (sc_uops s' (uop_at s (nat x)))"
    "\<And>x. x \<in> set (live s') \<Longrightarrow> u_in_scheduler (sc_uops s' (uop_at s (nat x))) = u_in_scheduler (sc_uops s3 (uop_at s (nat x)))"
    "\<And>b. b \<notin> entry_uops s3 \<Longrightarrow> mem_view (sc_uops s' b) = mem_view (sc_uops s3 b)"
    using ph unfolding issue_phase_def u l(2) by simp_all
  have "filter (\<lambda>x. x \<notin> set issued) xs = filter (\<lambda>x. x \<notin> set (e # issued)) xs" if "e \<notin> set xs" for xs
    using that by (induction xs) auto
  with ne show "live s' = filter (\<lambda>x. x \<notin> set (e # issued)) (live s)" unfolding ph'(1) l(1) by simp
  show "set (e # issued) \<subseteq> set (live s)" using ph'(2) l(1) by auto
  show "executed cycle (sc_uops s' (uop_at s (nat x)))" if "x \<in> set (e # issued)" for x
    using that ph'(3) executed_view[OF ph'(5)[OF out]] ex by auto
  show "u_in_scheduler (sc_uops s' (uop_at s (nat x))) = u_in_scheduler (sc_uops s (uop_at s (nat x)))" if x: "x \<in> set (live s')" for x
  proof -
    have "x \<in> set (P @ R)" using x ph'(1) by auto
    then have "uop_at s (nat x) \<in> (\<lambda>e. uop_at s (nat e)) ` set (P @ R)" by (rule imageI)
    moreover have "uop_at s (nat e) \<notin> (\<lambda>e. uop_at s (nat e)) ` set (P @ R)" using d l(1) by auto
    ultimately have "uop_at s (nat x) \<noteq> uop_at s (nat e)" by metis
    then have "mem_view (sc_uops s3 (uop_at s (nat x))) = mem_view (sc_uops s (uop_at s (nat x)))"
      using fr by (simp add: attempt_frame_def)
    from executed_view[OF this] ph'(4)[OF x] show ?thesis by simp
  qed
  show "mem_view (sc_uops s' b) = mem_view (sc_uops s b)" if "b \<notin> entry_uops s" for b
    using that ph'(5)[of b] fr unfolding sub attempt_frame_def by auto
qed

lemma try_issue_ringD:
  assumes "try_issue ops k appl gc cycle es cnt (on_ring R s) = Inr (issued, t)"
  obtains t' where "try_issue ops k appl gc cycle es cnt s = Inr (issued, t')" "t = on_ring R t'"
  using assms unfolding try_issue_ring by (auto simp add: res_bind_eq_Inr)

lemma skip_first_ring: obtains R where "skip_first i s = on_ring R s"
proof -
  have "skip_first i s = on_ring (sc_schedule_list s, sc_first_schlist_ptr (skip_first i s), sc_last_schlist_ptr s) s"
    by (simp add: skip_first_def on_ring_def)
  then show ?thesis by (rule that)
qed

lemma set_list_ring: obtains R where "(on_ring Q s)\<lparr>sc_schedule_list := l\<rparr> = on_ring R s"
  by (rule that[of "(l, snd Q)"]) (simp add: on_ring_def)

text \<open>The entries at the indices \<open>is\<close> of the ring.\<close>

definition ring_entries :: "'m schedule \<Rightarrow> nat list \<Rightarrow> int list" where
  "ring_entries s is = filter (\<lambda>e. e \<noteq> - 1) (map ((!) (sc_schedule_list s)) is)"

lemma ring_entries_update: "i \<notin> set is \<Longrightarrow> sc_schedule_list s' = (sc_schedule_list s)[i := x] \<Longrightarrow> ring_entries s' is = ring_entries s is"
proof -
  assume "i \<notin> set is" "sc_schedule_list s' = (sc_schedule_list s)[i := x]"
  then have "map ((!) (sc_schedule_list s')) is = map ((!) (sc_schedule_list s)) is"
    by (intro map_cong refl) (metis nth_list_update_neq)
  then show ?thesis by (simp only: ring_entries_def)
qed

definition loop_done ::
  "'m mem_ops \<Rightarrow> 'm mem_spec \<Rightarrow> sched_knobs \<Rightarrow> (int \<Rightarrow> int) \<Rightarrow> Counter \<Rightarrow> Counter \<Rightarrow> nat list \<Rightarrow> int \<Rightarrow> 'm schedule \<Rightarrow> int list \<Rightarrow> 'm schedule \<Rightarrow> bool" where
  "loop_done ops I k appl gc cycle is cnt s issued s' \<longleftrightarrow> sched_inv I k s' \<and>
     (\<exists>R t. try_issue ops k appl gc cycle (ring_entries s is) cnt s = Inr (issued, t) \<and> s' = on_ring R t) \<and>
     sc_alloc_q s' = sc_alloc_q s \<and> uop_at s' = uop_at s \<and> queue_of s' = queue_of s \<and>
     sc_sched_rate s' = sc_sched_rate s \<and> sc_sched_size s' = sc_sched_size s \<and>
     (sc_knob_sched_to_width s \<noteq> 0 \<and> (cnt = 0 \<or> cnt < uint (sc_knob_width s)) \<longrightarrow>
        cnt + int (length issued) \<le> max 1 (uint (sc_knob_width s))) \<and>
     (distinct (map (\<lambda>e. uop_at s (nat e)) (live s)) \<longrightarrow> issue_phase cycle s issued s')"

lemma loop_done_refl:
  assumes "sched_inv I k s" "ring_entries s is = []"
  shows "loop_done ops I k appl gc cycle is cnt s [] s"
proof -
  have "s = on_ring (sc_schedule_list s, sc_first_schlist_ptr s, sc_last_schlist_ptr s) s" by (simp add: on_ring_def)
  then have "\<exists>R t. try_issue ops k appl gc cycle (ring_entries s is) cnt s = Inr ([], t) \<and> s = on_ring R t"
    unfolding assms(2) by (simp del: split_paired_Ex) blast
  then show ?thesis
    using assms(1) issue_phase_refl[of cycle s] unfolding loop_done_def by (auto simp del: split_paired_Ex)
qed

lemma loop_skip:
  assumes e: "sc_schedule_list s ! i = - 1" and l: "live (skip_first i s) = live s"
    and d: "loop_done ops I k appl gc cycle is cnt (skip_first i s) issued s'"
  shows "loop_done ops I k appl gc cycle (i # is) cnt s issued s'"
proof -
  have v: "uop_at (skip_first i s) = uop_at s" "queue_of (skip_first i s) = queue_of s" "sc_exec (skip_first i s) = sc_exec s"
    by (simp_all add: fun_eq_iff uop_at_def queue_of_def)
  then have ph: "issue_phase cycle (skip_first i s) issued s' = issue_phase cycle s issued s'"
    by (simp add: issue_phase_def entry_uops_def l)
  have p: "ring_entries s (i # is) = ring_entries (skip_first i s) is" using e by (simp add: ring_entries_def)
  obtain Q where Q: "skip_first i s = on_ring Q s" by (rule skip_first_ring)
  from d obtain R t where "try_issue ops k appl gc cycle (ring_entries s (i # is)) cnt (on_ring Q s) = Inr (issued, t)" "s' = on_ring R t"
    unfolding loop_done_def p Q by blast
  then have "\<exists>R t. try_issue ops k appl gc cycle (ring_entries s (i # is)) cnt s = Inr (issued, t) \<and> s' = on_ring R t"
    by (metis on_ring_fields(7) try_issue_ringD)
  with d show ?thesis unfolding loop_done_def ph v l by simp
qed

lemma loop_fail:
  assumes e: "sc_schedule_list s ! i = e" "e \<noteq> - 1" "e \<in> set (live s)" and K: "stage_kept I k s s1"
    and U: "uop_schedule ops k appl gc cycle (nat e) s = Inr (False, r, s1)"
      "attempt_frame False (uop_at s (nat e)) (sc_uops s) (sc_uops s1)"
    and d: "loop_done ops I k appl gc cycle is cnt s1 issued s'"
  shows "loop_done ops I k appl gc cycle (i # is) cnt s issued s'"
proof -
  have v: "uop_at s1 = uop_at s" "queue_of s1 = queue_of s" "live s1 = live s"
    using stage_kept_entry[OF K] live_kept[OF K] by (simp_all add: fun_eq_iff)
  note F = stage_kept_fields[OF K]
  have p: "ring_entries s (i # is) = e # ring_entries s1 is" using e F(6) by (simp add: ring_entries_def)
  have ph: "issue_phase cycle s1 issued s' \<Longrightarrow> issue_phase cycle s issued s'"
    by (rule issue_phase_fail[OF U(2) v(3,1) e(3)])
  show ?thesis using d ph U(1) unfolding loop_done_def p v F by simp
qed

lemma loop_issue:
  assumes inv: "sched_inv I k s" and w: "window_indices s = pre @ i # is" and e: "sc_schedule_list s ! i = e" "e \<noteq> - 1"
    and K: "stage_kept I k (issued_state (queue_of s (nat e)) s1 s) s1" and p: "ports_ok (sc_exec s1)"
    and U: "uop_schedule ops k appl gc cycle (nat e) s = Inr (True, r, s1)"
      "attempt_frame True (uop_at s (nat e)) (sc_uops s) (sc_uops s1)" "executed cycle (sc_uops s1 (uop_at s (nat e)))"
  defines "s3 \<equiv> (skip_first i s1)\<lparr>sc_schedule_list := (sc_schedule_list (skip_first i s1))[i := - 1]\<rparr>"
  shows "if sc_knob_sched_to_width s3 \<noteq> 0 \<and> cnt + 1 \<ge> uint (sc_knob_width s3)
    then loop_done ops I k appl gc cycle (i # is) cnt s [e] s3
    else loop_done ops I k appl gc cycle is (cnt + 1) s3 issued s' \<longrightarrow> loop_done ops I k appl gc cycle (i # is) cnt s (e # issued) s'"
proof -
  have W: "sched_inv I k s3" "\<exists>P R. live s = P @ e # R \<and> live s3 = P @ R"
    unfolding s3_def by (rule issue_window[OF inv w e K p])+
  from W(2) obtain P Rs where l: "live s = P @ e # Rs" "live s3 = P @ Rs" by blast
  have x: "sc_exec s3 = sc_exec s1" by (simp add: s3_def)
  have v: "uop_at s3 = uop_at s" "queue_of s3 = queue_of s"
    using stage_kept_entry(2,3)[OF K] x by (simp_all add: fun_eq_iff issued_state_entry uop_at_def queue_of_def issued_state_def)
  note F = stage_kept_fields[OF K]
  have kn: "sc_alloc_q s3 = sc_alloc_q s" "sc_knob_sched_to_width s3 = sc_knob_sched_to_width s" "sc_knob_width s3 = sc_knob_width s"
    "sc_sched_rate s3 = sc_sched_rate s" "sc_sched_size s3 = sc_sched_size s"
    "sc_knob_sched_to_width s1 = sc_knob_sched_to_width s" "sc_knob_width s1 = sc_knob_width s"
    using F(3,4,9,10,11) by (simp_all add: s3_def issued_state_def)
  have "i \<notin> set is" using window_indices_props(1)[of s] w sched_baseD(4)[of I k s] inv by (simp add: sched_inv_def)
  moreover have "sc_schedule_list s3 = (sc_schedule_list s)[i := - 1]" using F(6) by (simp add: s3_def issued_state_def)
  ultimately have "ring_entries s3 is = ring_entries s is" by (rule ring_entries_update)
  then have pe: "ring_entries s (i # is) = e # ring_entries s3 is" using e by (simp add: ring_entries_def)
  obtain Q where Q: "s3 = on_ring Q s1"
    using skip_first_ring[of i s1] set_list_ring unfolding s3_def by metis
  have ph: "issue_phase cycle s (e # issued') s''" if "distinct (map (\<lambda>e. uop_at s (nat e)) (live s))" "issue_phase cycle s3 issued' s''"
    for issued' s'' by (rule issue_phase_ok[OF _ v(1) l that(1) _ that(2)]) (use U(2,3) x in simp_all)
  show ?thesis
  proof (cases "sc_knob_sched_to_width s3 \<noteq> 0 \<and> cnt + 1 \<ge> uint (sc_knob_width s3)")
    case True
    then have "try_issue ops k appl gc cycle (ring_entries s (i # is)) cnt s = Inr ([e], s1)"
      unfolding pe using U(1) kn by simp
    with Q have "\<exists>R t. try_issue ops k appl gc cycle (ring_entries s (i # is)) cnt s = Inr ([e], t) \<and> s3 = on_ring R t" by blast
    moreover have "cnt + 1 \<le> max 1 (uint (sc_knob_width s))" if "cnt = 0 \<or> cnt < uint (sc_knob_width s)"
      using that by (auto simp add: max_def)
    ultimately have "loop_done ops I k appl gc cycle (i # is) cnt s [e] s3"
      unfolding loop_done_def using W(1) kn v ph[OF _ issue_phase_refl] by simp
    with True show ?thesis by simp
  next
    case go: False
    have "loop_done ops I k appl gc cycle (i # is) cnt s (e # issued) s'" if d: "loop_done ops I k appl gc cycle is (cnt + 1) s3 issued s'"
    proof -
      from d obtain R t where T: "try_issue ops k appl gc cycle (ring_entries s3 is) (cnt + 1) (on_ring Q s1) = Inr (issued, t)" "s' = on_ring R t"
        unfolding loop_done_def Q by blast
      from try_issue_ringD[OF T(1)] obtain t' where "try_issue ops k appl gc cycle (ring_entries s3 is) (cnt + 1) s1 = Inr (issued, t')"
        "t = on_ring Q t'" by blast
      then have "try_issue ops k appl gc cycle (ring_entries s (i # is)) cnt s = Inr (e # issued, t')" "s' = on_ring R t'"
        unfolding pe using U(1) go kn T(2) by auto
      then have "\<exists>R t. try_issue ops k appl gc cycle (ring_entries s (i # is)) cnt s = Inr (e # issued, t) \<and> s' = on_ring R t" by blast
      moreover have "sc_knob_sched_to_width s \<noteq> 0 \<and> (cnt = 0 \<or> cnt < uint (sc_knob_width s)) \<longrightarrow>
           cnt + int (length (e # issued)) \<le> max 1 (uint (sc_knob_width s))"
        using d go kn by (auto simp add: loop_done_def not_le add.assoc)
      moreover have "distinct (map (\<lambda>e. uop_at s3 (nat e)) (live s3))" if "distinct (map (\<lambda>e. uop_at s (nat e)) (live s))"
        using that unfolding l v by auto
      ultimately show ?thesis using d ph kn v unfolding loop_done_def by simp
    qed
    with go show ?thesis by (subst if_not_P) simp_all
  qed
qed

lemma ooo_loop_ok:
  assumes c: "memory_contract ops I"
  shows "sched_inv I k s \<Longrightarrow> window_indices s = pre @ is \<Longrightarrow>
    \<exists>s' issued. ooo_loop ops k appl gc cycle is cnt s = Inr (cnt + int (length issued), s') \<and>
      loop_done ops I k appl gc cycle is cnt s issued s'"
proof (induction "is" arbitrary: s pre cnt)
  case Nil
  have "loop_done ops I k appl gc cycle [] cnt s [] s" by (rule loop_done_refl[OF Nil(1)]) (simp add: ring_entries_def)
  then show ?case by (intro exI[of _ s] exI[of _ "[]"]) simp
next
  case (Cons i "is")
  note inv = Cons.prems(1) and w = Cons.prems(2)
  have b: "sched_base I k s" and ct: "counts k (live s) s" using inv by (simp_all add: sched_inv_def)
  note B = sched_baseD[OF b]
  define e where "e = sc_schedule_list s ! i"
  have "i < MAX_SCHED_SIZE" using window_indices_props(2)[OF B(4)] w by simp
  then have ge: "arr_get (sc_schedule_list s) i = Inr e" using B(3) by (simp add: e_def)
  show ?case
  proof (cases "e = - 1")
    case True
    obtain pre' where S: "window_indices (skip_first i s) = pre' @ is" "live (skip_first i s) = live s"
      using live_skip[OF w B(4,5)] True by (metis e_def)
    have "counts k (live (skip_first i s)) (skip_first i s)" using ct counts_cong[of "skip_first i s" s] S(2) by simp
    then have "sched_inv I k (skip_first i s)" using sched_base_skip[OF b] by (simp add: sched_inv_def)
    from Cons.IH[OF this S(1), of cnt] obtain s' issued where
      "ooo_loop ops k appl gc cycle is cnt (skip_first i s) = Inr (cnt + int (length issued), s')"
      "loop_done ops I k appl gc cycle is cnt (skip_first i s) issued s'" by blast
    with loop_skip[OF True[unfolded e_def] S(2)] ge True show ?thesis by auto
  next
    case False
    have mem: "e \<in> set (live s)" using live_member[OF w] False by (simp add: e_def)
    obtain ok r s1 where U: "uop_schedule ops k appl gc cycle (nat e) s = Inr (ok, r, s1)" "ports_ok (sc_exec s1)"
      "stage_kept I k (if ok then issued_state (queue_of s (nat e)) s1 s else s) s1"
      "ok \<Longrightarrow> executed cycle (sc_uops s1 (uop_at s (nat e)))" "attempt_frame ok (uop_at s (nat e)) (sc_uops s) (sc_uops s1)"
      using attempt_ok[OF c inv mem, of appl gc cycle] unfolding executed_def Let_def by metis
    show ?thesis
    proof (cases ok)
      case nok: False
      have K: "stage_kept I k s s1" using U(3) nok by simp
      have "window_indices s1 = (pre @ [i]) @ is" using live_kept[OF K] w by simp
      from Cons.IH[OF sched_inv_kept[OF inv K U(2)] this, of cnt] obtain s' issued where
        "ooo_loop ops k appl gc cycle is cnt s1 = Inr (cnt + int (length issued), s')"
        "loop_done ops I k appl gc cycle is cnt s1 issued s'" by blast
      with loop_fail[OF e_def[symmetric] False mem K] U(1,5) nok ge False show ?thesis by auto
    next
      case ok: True
      have K: "stage_kept I k (issued_state (queue_of s (nat e)) s1 s) s1" using U(3) ok by simp
      define s3 where "s3 = (skip_first i s1)\<lparr>sc_schedule_list := (sc_schedule_list (skip_first i s1))[i := - 1]\<rparr>"
      note L = loop_issue[OF inv w e_def[symmetric] False K U(2) U(1)[unfolded ok[THEN eqTrueI]] U(5)[unfolded ok[THEN eqTrueI]] U(4)[OF ok],
        folded s3_def]
      have W: "sched_inv I k s3" "\<exists>pre'. window_indices s3 = pre' @ is"
        unfolding s3_def by (rule issue_window[OF inv w e_def[symmetric] False K U(2)])+
      show ?thesis
      proof (cases "sc_knob_sched_to_width s3 \<noteq> 0 \<and> cnt + 1 \<ge> uint (sc_knob_width s3)")
        case True
        then have "ooo_loop ops k appl gc cycle (i # is) cnt s = Inr (cnt + int (length [e]), s3)"
          using ge False U(1) ok by (simp add: s3_def Let_def)
        with L[of cnt] True show ?thesis by (intro exI[of _ s3] exI[of _ "[e]"]) simp
      next
        case go: False
        from W(2) obtain pre' where "window_indices s3 = pre' @ is" by blast
        from Cons.IH[OF W(1) this, of "cnt + 1"] obtain s' issued where
          R: "ooo_loop ops k appl gc cycle is (cnt + 1) s3 = Inr (cnt + 1 + int (length issued), s')"
          "loop_done ops I k appl gc cycle is (cnt + 1) s3 issued s'" by blast
        have "ooo_loop ops k appl gc cycle (i # is) cnt s = Inr (cnt + int (length (e # issued)), s')"
          using ge False U(1) ok go R(1) by (auto simp add: s3_def Let_def ac_simps)
        with L[of cnt issued s'] R(2) go show ?thesis by (intro exI[of _ s'] exI[of _ "e # issued"]) simp
      qed
    qed
  qed
qed

(*FILL*)
section \<open>Filling the window\<close>

definition flushed :: "'m schedule \<Rightarrow> nat \<Rightarrow> bool" where
  "flushed s e \<longleftrightarrow> u_bogus (sc_uops s (uop_at s e)) \<or> u_done_cycle (sc_uops s (uop_at s e)) \<noteq> 0"

text \<open>The change of the queue \<open>qi\<close> to a tail of its contents.\<close>

lemma sched_inv_queue:
  assumes inv: "sched_inv I k s" and q: "pq_wf aq'" "set (contents aq') \<subseteq> set (contents (sc_alloc_q s ! qi))" "qi < length (sc_alloc_q s)"
  shows "sched_inv I k (s\<lparr>sc_alloc_q := (sc_alloc_q s)[qi := aq']\<rparr>)"
proof -
  let ?s = "s\<lparr>sc_alloc_q := (sc_alloc_q s)[qi := aq']\<rparr>"
  have eo: "entry_ok k ?s e = entry_ok k s e" for e by (simp add: entry_ok_def)
  have b: "sched_base I k s" using inv by (simp add: sched_inv_def)
  have "pq_wf aq \<and> (\<forall>e\<in>set (contents aq). entry_ok k s e)" if "aq \<in> set ((sc_alloc_q s)[qi := aq'])" for aq
  proof -
    from that consider "aq = aq'" | "aq \<in> set (sc_alloc_q s)" using set_update_subset_insert by fastforce
    then show ?thesis
    proof cases
      case 1
      have "sc_alloc_q s ! qi \<in> set (sc_alloc_q s)" using q(3) by simp
      with b have "\<forall>e\<in>set (contents (sc_alloc_q s ! qi)). entry_ok k s e" by (simp add: sched_base_def)
      then show ?thesis using q 1 by blast
    qed (use b in \<open>simp add: sched_base_def\<close>)
  qed
  then have "sched_base I k ?s" using b unfolding sched_base_def eo by simp
  moreover have "live ?s = live s" by (rule live_cong) simp_all
  ultimately show ?thesis using inv counts_cong[of ?s s k "live s"] by (simp add: sched_inv_def)
qed

text \<open>The entry of a uop into the window.\<close>

lemma enter_sched_ok:
  assumes inv: "sched_inv I k s" and e: "entry_ok k s e" and nf: "\<not> sched_full s"
    and room: "sc_num_per_sched s ! queue_of s e < sc_sched_size s ! queue_of s e"
  obtains s' where "enter_sched (queue_of s e) e (uop_at s e) s = Inr s'" "sched_inv I k s'" "live s' = live s @ [int e]"
    "sc_alloc_q s' = sc_alloc_q s" "sc_count s' = (sc_count s)[queue_of s e := sc_count s ! queue_of s e + 1]"
    "sc_sched_rate s' = sc_sched_rate s" "uop_at s' = uop_at s" "queue_of s' = queue_of s"
    "\<forall>b. b \<noteq> uop_at s e \<longrightarrow> sc_uops s' b = sc_uops s b"
    "u_in_scheduler (sc_uops s' (uop_at s e))" "sc_sched_size s' = sc_sched_size s"
    "sc_num_per_sched s' = (sc_num_per_sched s)[queue_of s e := sc_num_per_sched s ! queue_of s e + 1]"
proof -
  have b: "sched_base I k s" and ct: "counts k (live s) s" using inv by (simp_all add: sched_inv_def)
  note B = sched_baseD[OF b]
  define a where "a = uop_at s e"
  define q where "q = queue_of s e"
  have q4: "q < 4" using entry_ok_uop(4)[OF B(1) e] by (simp add: q_def)
  have l4: "length (sc_num_per_sched s) = 4" using ct by (simp add: counts_def)
  define f where "f = (\<lambda>u :: uop. u\<lparr>u_in_iaq := False, u_in_scheduler := True\<rparr>)"
  define s1 where "s1 = sc_set_uop a f s"
  have K: "stage_kept I k s s1" unfolding s1_def by (rule stage_kept_set_uop[OF B(1)]) (simp_all add: f_def)
  note F = stage_kept_fields[OF K] and E = stage_kept_entry[OF K]
  define s' where "s' = s1\<lparr>sc_count := (sc_count s)[q := sc_count s ! q + 1], sc_num_in_sched := sc_num_in_sched s + 1,
    sc_schedule_list := (sc_schedule_list s)[sc_last_schlist_ptr s := int e],
    sc_last_schlist_ptr := (sc_last_schlist_ptr s + 1) mod MAX_SCHED_SIZE,
    sc_num_per_sched := (sc_num_per_sched s)[q := sc_num_per_sched s ! q + 1]\<rparr>"
  have eq: "enter_sched q e a s = Inr s'"
    using q4 l4 B(3,5,7) F(1,2,5,6,8) by (simp add: enter_sched_def s1_def[symmetric] f_def[symmetric] Let_def s'_def)
  have inv1: "sched_inv I k s1" using sched_inv_kept[OF inv K] B(2) by (simp add: s1_def sc_set_uop_def set_uop_def on_mem_def ports_ok_def)
  have eo: "entry_ok k s' x = entry_ok k s1 x" "queue_of s' x = queue_of s1 x" "uop_at s' x = uop_at s1 x" for x
    by (simp_all add: s'_def entry_ok_def queue_of_def uop_at_def)
  have W: "window_indices s' = window_indices s @ [sc_last_schlist_ptr s]" "sc_last_schlist_ptr s \<notin> set (window_indices s)"
    using window_indices_snoc[OF B(4,5) nf, of s'] F(7) by (simp_all add: s'_def)
  have "map ((!) ((sc_schedule_list s)[sc_last_schlist_ptr s := int e])) (window_indices s) = map ((!) (sc_schedule_list s)) (window_indices s)"
    using W(2) by (intro map_cong refl nth_list_update_neq) auto
  moreover have sl: "sc_schedule_list s' = (sc_schedule_list s)[sc_last_schlist_ptr s := int e]" by (simp add: s'_def)
  ultimately have live: "live s' = live s @ [int e]"
    unfolding live_def W(1) map_append filter_append sl by (simp only:) (simp add: B(3,5))
  have "sched_base I k s'"
  proof -
    have b1: "sched_base I k s1" using inv1 by (simp add: sched_inv_def)
    have "(sc_num_per_sched s)[q := sc_num_per_sched s ! q + 1] ! j \<le> sc_sched_size s ! j" if "j < 4" for j
    proof -
      have "sc_num_per_sched s ! j \<le> sc_sched_size s ! j" using b that by (simp add: sched_base_def)
      then show ?thesis using room[folded q_def] l4 that by (cases "j = q") simp_all
    qed
    with b1 show ?thesis unfolding sched_base_def eo
      using F(2,3,5,6) by (simp add: s'_def MAX_SCHED_SIZE_def)
  qed
  moreover have "counts k (live s @ [int e]) s'"
  proof -
    have c1: "counts k (live s) s1" by (rule counts_kept[OF ct K])
    have "(sc_num_per_sched s)[q := sc_num_per_sched s ! q + 1] ! j =
        int (length (filter (\<lambda>e. queue_of s (nat e) = j) (live s @ [int e])))" if "j < 4" for j
      using ct l4 that by (cases "j = q") (auto simp add: counts_def q_def)
    then show ?thesis using c1 E(1)[OF e] l4 F(1) ct unfolding counts_def eo E(3) by (auto simp add: s'_def)
  qed
  ultimately have inv': "sched_inv I k s'" by (simp add: sched_inv_def live)
  show ?thesis
  proof (rule that[OF eq[unfolded q_def a_def] inv' live])
    show "sc_count s' = (sc_count s)[queue_of s e := sc_count s ! queue_of s e + 1]" by (simp add: s'_def q_def)
    show "uop_at s' = uop_at s" "queue_of s' = queue_of s" by (simp_all add: fun_eq_iff eo E)
    show "\<forall>b. b \<noteq> uop_at s e \<longrightarrow> sc_uops s' b = sc_uops s b" by (simp add: s'_def s1_def sc_uops_set_uop a_def)
    show "u_in_scheduler (sc_uops s' (uop_at s e))" by (simp add: s'_def s1_def sc_uops_set_uop f_def a_def)
    show "sc_num_per_sched s' = (sc_num_per_sched s)[queue_of s e := sc_num_per_sched s ! queue_of s e + 1]" by (simp add: s'_def q_def)
  qed (use F(3,4,9) in \<open>simp_all add: s'_def\<close>)
qed

text \<open>One iteration of \<^verbatim>\<open>advance\<close>: it stops, or takes the head \<open>e\<close> of the queue and puts it in the window
  unless it is flushed.\<close>

definition advanced :: "sched_knobs \<Rightarrow> nat \<Rightarrow> nat \<Rightarrow> 'm schedule \<Rightarrow> 'm schedule \<Rightarrow> bool" where
  "advanced k qi e s s' \<longleftrightarrow>
     contents (sc_alloc_q s ! qi) = e # contents (sc_alloc_q s' ! qi) \<and> length (sc_alloc_q s') = length (sc_alloc_q s) \<and>
     (\<forall>j. j \<noteq> qi \<longrightarrow> sc_alloc_q s' ! j = sc_alloc_q s ! j) \<and>
     live s' = live s @ (if flushed s e then [] else [int e]) \<and> uop_at s' = uop_at s \<and> queue_of s' = queue_of s \<and>
     sc_sched_rate s' = sc_sched_rate s \<and> sc_sched_size s' = sc_sched_size s \<and>
     (\<forall>b. b \<noteq> uop_at s e \<longrightarrow> sc_uops s' b = sc_uops s b) \<and>
     (\<not> flushed s e \<longrightarrow> u_in_scheduler (sc_uops s' (uop_at s e))) \<and>
     sc_count s' = (if flushed s e then sc_count s else (sc_count s)[queue_of s e := sc_count s ! queue_of s e + 1]) \<and>
     queue_of s e < 4 \<and> sc_count s ! queue_of s e < sc_sched_rate s ! queue_of s e \<and> \<not> sched_full s \<and>
     (\<forall>q < 4. sc_num_per_sched s ! q \<le> sc_num_per_sched s' ! q)"

text \<open>Why the loop over the queue \<open>qi\<close> stops.\<close>

definition stopped :: "nat \<Rightarrow> 'm schedule \<Rightarrow> bool" where
  "stopped qi s \<longleftrightarrow> ready (sc_alloc_q s ! qi) = Inr False \<or> sched_full s \<or>
     (\<exists>q < 4. q = queue_of s (hd (contents (sc_alloc_q s ! qi))) \<and>
        (sc_sched_rate s ! q \<le> sc_count s ! q \<or> sc_sched_size s ! q \<le> sc_num_per_sched s ! q))"

lemma advance_one_ok:
  assumes inv: "sched_inv I k s" and qi: "qi < length (sc_alloc_q s)"
  shows "advance_one cycle qi s = Inr (False, s) \<and> stopped qi s \<or>
    (\<exists>e s'. advance_one cycle qi s = Inr (True, s') \<and> sched_inv I k s' \<and> advanced k qi e s s')"
proof -
  have b: "sched_base I k s" and ct: "counts k (live s) s" using inv by (simp_all add: sched_inv_def)
  note B = sched_baseD[OF b]
  have l4: "length (sc_num_per_sched s) = 4" using ct by (simp add: counts_def)
  define aq where "aq = sc_alloc_q s ! qi"
  have aq: "arr_get (sc_alloc_q s) qi = Inr aq" "aq \<in> set (sc_alloc_q s)" using qi by (simp_all add: aq_def)
  then have wf: "pq_wf aq" and ents: "\<forall>e\<in>set (contents aq). entry_ok k s e" using b by (simp_all add: sched_base_def)
  from pq.rdy_total[OF wf] obtain rdy where rdy: "ready aq = Inr rdy" by blast
  show ?thesis
  proof (cases "rdy \<and> \<not> sched_full s")
    case False
    then show ?thesis using aq(1) rdy by (auto simp add: advance_one_def stopped_def aq_def)
  next
    case True
    then have r: "ready aq = Inr True" "\<not> sched_full s" using rdy by simp_all
    define e where "e = hd (contents aq)"
    have ne: "contents aq \<noteq> []" by (rule pq.rdy_nonempty[OF wf r(1)])
    then have e: "peek 0 aq = Inr e" "entry_ok k s e" using pq.pk_head[OF wf] ents by (simp_all add: e_def)
    from pq.deq_head[OF wf r(1)] obtain p aq' where D: "dequeue aq = Inr (p, e, aq')" "pq_wf aq'" "contents aq' = tl (contents aq)"
      by (auto simp add: e_def)
    have cont: "contents aq = e # contents aq'" using ne D(3) by (simp add: e_def)
    note E = entry_ok_uop[OF B(1) e(2)]
    define q where "q = queue_of s e"
    have q4: "q < 4" using E(4) by (simp add: q_def)
    have over: "over_limit q s = Inr (sc_sched_rate s ! q \<le> sc_count s ! q \<or> sc_sched_size s ! q \<le> sc_num_per_sched s ! q)"
      using q4 l4 B(7,8,9) by (simp add: over_limit_def)
    define s1 where "s1 = s\<lparr>sc_alloc_q := (sc_alloc_q s)[qi := aq']\<rparr>"
    have inv1: "sched_inv I k s1" unfolding s1_def
      using cont by (intro sched_inv_queue[OF inv D(2) _ qi]) (auto simp add: aq_def)
    have view: "entry_ok k s1 x = entry_ok k s x" "uop_at s1 = uop_at s" "queue_of s1 = queue_of s" "live s1 = live s"
      "sched_full s1 = sched_full s" for x
      by (simp_all add: s1_def entry_ok_def uop_at_def queue_of_def fun_eq_iff live_def window_indices_def sched_full_def)
    have alq: "sc_alloc_q s1 ! qi = aq'" "length (sc_alloc_q s1) = length (sc_alloc_q s)" "\<And>j. j \<noteq> qi \<Longrightarrow> sc_alloc_q s1 ! j = sc_alloc_q s ! j"
      using qi by (simp_all add: s1_def)
    have step: "advance_one cycle qi s =
      (if sc_sched_rate s ! q \<le> sc_count s ! q \<or> sc_sched_size s ! q \<le> sc_num_per_sched s ! q then Inr (False, s)
       else if flushed s e then Inr (True, sc_set_uop (uop_at s e) (\<lambda>u. u\<lparr>u_done_cycle := cycle\<rparr>) s1)
       else res_bind (enter_sched q e (uop_at s e) s1) (\<lambda>s2. Inr (True, s2)))"
      using aq(1) r e(1) E(2) over D(1)
      by (simp add: advance_one_def Let_def q_def[unfolded queue_of_def, symmetric] flushed_def s1_def)
    show ?thesis
    proof (cases "sc_sched_rate s ! q \<le> sc_count s ! q \<or> sc_sched_size s ! q \<le> sc_num_per_sched s ! q")
      case True
      then have "stopped qi s" using q4 by (auto simp add: stopped_def q_def e_def aq_def)
      then show ?thesis using step True by simp
    next
      case under: False
      show ?thesis
      proof (cases "flushed s e")
        case True
        define s2 where "s2 = sc_set_uop (uop_at s e) (\<lambda>u. u\<lparr>u_done_cycle := cycle\<rparr>) s1"
        have i1: "exec_inv I (sk_exec k) (sc_exec s1)" using B(1) by (simp add: s1_def)
        have K: "stage_kept I k s1 s2" unfolding s2_def by (rule stage_kept_set_uop[OF i1]) simp_all
        have "ports_ok (sc_exec s2)" using B(2) by (simp add: s2_def s1_def sc_set_uop_def set_uop_def on_mem_def ports_ok_def)
        from sched_inv_kept[OF inv1 K this] have "sched_inv I k s2" .
        moreover have "advanced k qi e s s2"
        proof -
          have "sc_uops s2 b = sc_uops s b" if "b \<noteq> uop_at s e" for b using that by (simp add: s2_def sc_uops_set_uop s1_def)
          then show ?thesis
            using True cont alq view live_kept[OF K] stage_kept_fields(2,3,4,5,9)[OF K] stage_kept_entry(2,3)[OF K] q4 under r(2)
            unfolding advanced_def by (auto simp add: s1_def aq_def q_def fun_eq_iff)
        qed
        ultimately show ?thesis using step under True s2_def by auto
      next
        case nfl: False
        have room: "sc_num_per_sched s1 ! queue_of s1 e < sc_sched_size s1 ! queue_of s1 e"
          using under unfolding view(3) by (simp add: s1_def q_def)
        have c1: "sc_count s1 = sc_count s" "sc_sched_rate s1 = sc_sched_rate s" "sc_uops s1 = sc_uops s"
          "sc_sched_size s1 = sc_sched_size s" "sc_num_per_sched s1 = sc_num_per_sched s" by (simp_all add: s1_def)
        have ei: "entry_ok k s1 e" "\<not> sched_full s1" using e(2) r(2) view by simp_all
        obtain s2 where N: "enter_sched q e (uop_at s e) s1 = Inr s2" "sched_inv I k s2"
          "live s2 = live s @ [int e]" "sc_alloc_q s2 = sc_alloc_q s1" "sc_count s2 = (sc_count s)[q := sc_count s ! q + 1]"
          "sc_sched_rate s2 = sc_sched_rate s" "uop_at s2 = uop_at s" "queue_of s2 = queue_of s"
          "\<forall>b. b \<noteq> uop_at s e \<longrightarrow> sc_uops s2 b = sc_uops s b" "u_in_scheduler (sc_uops s2 (uop_at s e))"
          "sc_sched_size s2 = sc_sched_size s" "sc_num_per_sched s2 = (sc_num_per_sched s)[q := sc_num_per_sched s ! q + 1]"
          by (rule enter_sched_ok[OF inv1 ei room]) (simp only: view c1 q_def)
        have "sc_num_per_sched s ! j \<le> (sc_num_per_sched s)[q := sc_num_per_sched s ! q + 1] ! j" if "j < 4" for j
          using that l4 by (cases "j = q") simp_all
        then have "advanced k qi e s s2"
          using nfl cont alq N(3-) q4 under r(2) by (auto simp add: advanced_def aq_def q_def)
        then show ?thesis using step under nfl N(1,2) by auto
      qed
    qed
  qed
qed

text \<open>What the loop over the queue \<open>qi\<close> does: the entries \<open>moved\<close> leave the queue, and those of them
  in \<open>entered\<close> come into the window; these are the ones not flushed, when every uop waits once.\<close>

definition moved_in :: "nat \<Rightarrow> 'm schedule \<Rightarrow> nat list \<Rightarrow> nat list \<Rightarrow> 'm schedule \<Rightarrow> bool" where
  "moved_in qi s moved entered s' \<longleftrightarrow>
     contents (sc_alloc_q s ! qi) = moved @ contents (sc_alloc_q s' ! qi) \<and> length (sc_alloc_q s') = length (sc_alloc_q s) \<and>
     (\<forall>j. j \<noteq> qi \<longrightarrow> sc_alloc_q s' ! j = sc_alloc_q s ! j) \<and> live s' = live s @ map int entered \<and>
     uop_at s' = uop_at s \<and> queue_of s' = queue_of s \<and> sc_sched_rate s' = sc_sched_rate s \<and> sc_sched_size s' = sc_sched_size s \<and>
     (\<forall>b. b \<notin> uop_at s ` set moved \<longrightarrow> sc_uops s' b = sc_uops s b) \<and>
     (sched_full s \<longrightarrow> sched_full s') \<and> (\<forall>q < 4. sc_num_per_sched s ! q \<le> sc_num_per_sched s' ! q) \<and>
     (\<forall>q < 4. sc_count s' ! q = sc_count s ! q + int (length (filter (\<lambda>e. queue_of s e = q) entered)) \<and>
        sc_count s' ! q \<le> max (sc_count s ! q) (sc_sched_rate s ! q)) \<and> stopped qi s' \<and>
     (distinct (map (uop_at s) moved) \<longrightarrow> entered = filter (\<lambda>e. \<not> flushed s e) moved \<and>
        (\<forall>e\<in>set entered. u_in_scheduler (sc_uops s' (uop_at s e))))"

lemma moved_in_refl: "stopped qi s \<Longrightarrow> moved_in qi s [] [] s"
  by (simp add: moved_in_def)

lemma flushed_cong: "uop_at s' = uop_at s \<Longrightarrow> sc_uops s' (uop_at s e) = sc_uops s (uop_at s e) \<Longrightarrow> flushed s' e = flushed s e"
  by (simp add: flushed_def)

lemma moved_in_Cons:
  assumes A: "advanced k qi e s s1" and R: "moved_in qi s1 moved entered s'" and c4: "length (sc_count s) = 4"
  shows "moved_in qi s (e # moved) (if flushed s e then entered else e # entered) s'"
proof -
  let ?en = "if flushed s e then entered else e # entered"
  have u: "uop_at s1 = uop_at s" "queue_of s1 = queue_of s" "sc_sched_rate s1 = sc_sched_rate s" "queue_of s e < 4"
    "\<And>b. b \<noteq> uop_at s e \<Longrightarrow> sc_uops s1 b = sc_uops s b"
    "sc_count s1 = (if flushed s e then sc_count s else (sc_count s)[queue_of s e := sc_count s ! queue_of s e + 1])"
    "sc_count s ! queue_of s e < sc_sched_rate s ! queue_of s e" "\<not> flushed s e \<Longrightarrow> u_in_scheduler (sc_uops s1 (uop_at s e))"
    using A by (simp_all add: advanced_def)
  have r: "uop_at s' = uop_at s1" "\<And>b. b \<notin> uop_at s1 ` set moved \<Longrightarrow> sc_uops s' b = sc_uops s1 b"
    "\<And>q. q < 4 \<Longrightarrow> sc_count s' ! q = sc_count s1 ! q + int (length (filter (\<lambda>e. queue_of s1 e = q) entered)) \<and>
        sc_count s' ! q \<le> max (sc_count s1 ! q) (sc_sched_rate s1 ! q)"
    "distinct (map (uop_at s1) moved) \<Longrightarrow> entered = filter (\<lambda>e. \<not> flushed s1 e) moved"
    "distinct (map (uop_at s1) moved) \<Longrightarrow> e' \<in> set entered \<Longrightarrow> u_in_scheduler (sc_uops s' (uop_at s1 e'))" for e'
    using R unfolding moved_in_def by blast+
  have frame: "\<forall>b. b \<notin> uop_at s ` set (e # moved) \<longrightarrow> sc_uops s' b = sc_uops s b" using u(1,5) r(2) by simp
  have cnt: "\<forall>q < 4. sc_count s' ! q = sc_count s ! q + int (length (filter (\<lambda>e. queue_of s e = q) ?en)) \<and>
      sc_count s' ! q \<le> max (sc_count s ! q) (sc_sched_rate s ! q)"
  proof (intro allI impI)
    fix q :: nat
    assume q: "q < 4"
    show "sc_count s' ! q = sc_count s ! q + int (length (filter (\<lambda>e. queue_of s e = q) ?en)) \<and>
      sc_count s' ! q \<le> max (sc_count s ! q) (sc_sched_rate s ! q)"
      using r(3)[OF q] u(2,3,4,6,7) c4 q by (cases "flushed s e"; cases "queue_of s e = q") auto
  qed
  have ex: "?en = filter (\<lambda>e. \<not> flushed s e) (e # moved) \<and> (\<forall>x\<in>set ?en. u_in_scheduler (sc_uops s' (uop_at s x)))"
    if d: "distinct (map (uop_at s) (e # moved))"
  proof -
    have d1: "distinct (map (uop_at s1) moved)" "uop_at s e \<notin> uop_at s ` set moved" using d u(1) by simp_all
    have "flushed s1 x = flushed s x" if "x \<in> set moved" for x
      using d1(2) imageI[OF that, of "uop_at s"] by (intro flushed_cong u) metis
    then have "entered = filter (\<lambda>e. \<not> flushed s e) moved" unfolding r(4)[OF d1(1)] by (intro filter_cong) simp_all
    moreover have "sc_uops s' (uop_at s e) = sc_uops s1 (uop_at s e)" using r(2) d1(2) u(1) by simp
    ultimately show ?thesis using u(1,8) r(5)[OF d1(1)] by auto
  qed
  have a: "contents (sc_alloc_q s ! qi) = e # contents (sc_alloc_q s1 ! qi)" "length (sc_alloc_q s1) = length (sc_alloc_q s)"
    "\<forall>j. j \<noteq> qi \<longrightarrow> sc_alloc_q s1 ! j = sc_alloc_q s ! j" "live s1 = live s @ (if flushed s e then [] else [int e])"
    "sc_sched_size s1 = sc_sched_size s" "\<not> sched_full s" "\<forall>q < 4. sc_num_per_sched s ! q \<le> sc_num_per_sched s1 ! q"
    using A unfolding advanced_def by blast+
  have b: "contents (sc_alloc_q s1 ! qi) = moved @ contents (sc_alloc_q s' ! qi)" "length (sc_alloc_q s') = length (sc_alloc_q s1)"
    "\<forall>j. j \<noteq> qi \<longrightarrow> sc_alloc_q s' ! j = sc_alloc_q s1 ! j" "live s' = live s1 @ map int entered"
    "sc_sched_size s' = sc_sched_size s1" "\<forall>q < 4. sc_num_per_sched s1 ! q \<le> sc_num_per_sched s' ! q" "stopped qi s'"
    "queue_of s' = queue_of s1" "sc_sched_rate s' = sc_sched_rate s1"
    using R unfolding moved_in_def by blast+
  have "\<forall>q < 4. sc_num_per_sched s ! q \<le> sc_num_per_sched s' ! q" using a(7) b(6) order_trans by blast
  moreover have "live s' = live s @ map int ?en" using a(4) b(4) by simp
  ultimately show ?thesis unfolding moved_in_def
    using a b frame cnt ex u(1-3) r(1) by (intro conjI) (blast | simp)+
qed

lemma advance_loop_ok:
  "sched_inv I k s \<Longrightarrow> qi < length (sc_alloc_q s) \<Longrightarrow> length (contents (sc_alloc_q s ! qi)) \<le> fuel \<Longrightarrow>
   \<exists>s' moved entered. advance_loop fuel cycle qi s = Inr s' \<and> sched_inv I k s' \<and> moved_in qi s moved entered s'"
proof (induction fuel arbitrary: s)
  case (0 s)
  from advance_one_ok[OF 0(1,2), of cycle] 0(3) have "advance_one cycle qi s = Inr (False, s)" "stopped qi s"
    by (auto simp add: advanced_def)
  moreover from this(1) have "advance_loop 0 cycle qi s = Inr s" by (subst advance_loop.simps) simp
  ultimately show ?case using 0(1) moved_in_refl by blast
next
  case (Suc fuel s)
  from advance_one_ok[OF Suc.prems(1,2), of cycle] show ?case
  proof
    assume a: "advance_one cycle qi s = Inr (False, s) \<and> stopped qi s"
    then have "advance_loop (Suc fuel) cycle qi s = Inr s" by (subst advance_loop.simps) simp
    with a Suc.prems(1) moved_in_refl show ?thesis by blast
  next
    assume "\<exists>e s'. advance_one cycle qi s = Inr (True, s') \<and> sched_inv I k s' \<and> advanced k qi e s s'"
    then obtain e s1 where A: "advance_one cycle qi s = Inr (True, s1)" "sched_inv I k s1" "advanced k qi e s s1" by blast
    have "qi < length (sc_alloc_q s1)" "length (contents (sc_alloc_q s1 ! qi)) \<le> fuel"
      using A(3) Suc.prems(2,3) by (simp_all add: advanced_def)
    from Suc.IH[OF A(2) this] obtain s' moved entered where
      R: "advance_loop fuel cycle qi s1 = Inr s'" "sched_inv I k s'" "moved_in qi s1 moved entered s'" by blast
    have "advance_loop (Suc fuel) cycle qi s = Inr s'" using A(1) R(1) by (subst advance_loop.simps) simp
    moreover have "length (sc_count s) = 4" using Suc.prems(1) by (simp add: sched_inv_def sched_base_def)
    ultimately show ?thesis using moved_in_Cons[OF A(3) R(3)] R(2) by blast
  qed
qed

lemma sched_advance_ok:
  assumes inv: "sched_inv I k s" and qi: "qi < 4"
  shows "\<exists>s' moved entered. sched_advance cycle qi s = Inr s' \<and> sched_inv I k s' \<and>
    moved_in qi (s\<lparr>sc_count := replicate 4 0\<rparr>) moved entered s'"
proof -
  let ?s = "s\<lparr>sc_count := replicate 4 0\<rparr>"
  have b: "sched_base I k s" using inv by (simp add: sched_inv_def)
  have q: "qi < length (sc_alloc_q s)" using sched_baseD(6)[OF b] qi by simp
  have eo: "entry_ok k ?s e = entry_ok k s e" for e by (simp add: entry_ok_def)
  have "sched_base I k ?s" using b unfolding sched_base_def eo by simp
  moreover have "live ?s = live s" by (rule live_cong) simp_all
  ultimately have inv': "sched_inv I k ?s" using inv counts_cong[of ?s s k "live s"] by (simp add: sched_inv_def)
  have wf: "pq_wf (sc_alloc_q s ! qi)" using b q by (simp add: sched_base_def)
  have fuel: "length (contents (sc_alloc_q ?s ! qi)) \<le> nat (m_num_entry (sc_alloc_q s ! qi))" using length_contents[OF wf] by simp
  have eq: "sched_advance cycle qi s = advance_loop (nat (m_num_entry (sc_alloc_q s ! qi))) cycle qi ?s"
    using q by (simp add: sched_advance_def)
  show ?thesis unfolding eq by (rule advance_loop_ok[OF inv' _ fuel]) (use q in simp)
qed

text \<open>The same seen from the state before the window is filled: why nothing more of the queue \<open>qi\<close> was
  taken after \<open>moved\<close>.\<close>

definition fill_ended :: "'m schedule \<Rightarrow> nat list \<Rightarrow> nat \<Rightarrow> 'm schedule \<Rightarrow> bool" where
  "fill_ended s moved qi s' \<longleftrightarrow> ready (sc_alloc_q s' ! qi) = Inr False \<or> sched_full s' \<or>
     (\<exists>q < 4. q = queue_of s (hd (contents (sc_alloc_q s' ! qi))) \<and>
        (sc_sched_rate s ! q \<le> int (length (filter (\<lambda>e. \<not> flushed s e \<and> queue_of s e = q) moved)) \<or>
         sc_sched_size s ! q \<le> sc_num_per_sched s' ! q))"

lemma fill_ended_mono:
  assumes "fill_ended s moved qi s1" "sc_alloc_q s2 ! qi = sc_alloc_q s1 ! qi" "sched_full s1 \<longrightarrow> sched_full s2"
    "\<forall>q < 4. sc_num_per_sched s1 ! q \<le> sc_num_per_sched s2 ! q"
  shows "fill_ended s moved qi s2"
proof -
  consider "ready (sc_alloc_q s1 ! qi) = Inr False" | "sched_full s1"
    | q where "q < 4" "q = queue_of s (hd (contents (sc_alloc_q s1 ! qi)))"
      "sc_sched_rate s ! q \<le> int (length (filter (\<lambda>e. \<not> flushed s e \<and> queue_of s e = q) moved)) \<or> sc_sched_size s ! q \<le> sc_num_per_sched s1 ! q"
    using assms(1) unfolding fill_ended_def by blast
  then show ?thesis
  proof cases
    case (3 q)
    have "sc_num_per_sched s1 ! q \<le> sc_num_per_sched s2 ! q" using assms(4) 3(1) by blast
    then show ?thesis unfolding fill_ended_def assms(2) using 3 by force
  qed (use assms(2,3) in \<open>simp_all add: fill_ended_def\<close>)
qed

definition fill_phase :: "nat \<Rightarrow> 'm schedule \<Rightarrow> (nat \<Rightarrow> nat list) \<Rightarrow> 'm schedule \<Rightarrow> bool" where
  "fill_phase n s moved s' \<longleftrightarrow>
     live s' = live s @ map int (concat (map (\<lambda>q. filter (\<lambda>e. \<not> flushed s e) (moved q)) [0..<n])) \<and>
     (\<forall>q < n. (\<forall>e\<in>set (moved q). \<not> flushed s e \<longrightarrow> u_in_scheduler (sc_uops s' (uop_at s e))) \<and>
        (\<forall>c < 4. int (length (filter (\<lambda>e. \<not> flushed s e \<and> queue_of s e = c) (moved q))) \<le> max 0 (sc_sched_rate s ! c)) \<and>
        fill_ended s (moved q) q s')"

definition fill_frame :: "nat \<Rightarrow> 'm schedule \<Rightarrow> (nat \<Rightarrow> nat list) \<Rightarrow> 'm schedule \<Rightarrow> bool" where
  "fill_frame n s moved s' \<longleftrightarrow> length (sc_alloc_q s') = length (sc_alloc_q s) \<and>
     (\<forall>q. if q < n then contents (sc_alloc_q s ! q) = moved q @ contents (sc_alloc_q s' ! q) else sc_alloc_q s' ! q = sc_alloc_q s ! q) \<and>
     uop_at s' = uop_at s \<and> queue_of s' = queue_of s \<and> sc_sched_rate s' = sc_sched_rate s \<and> sc_sched_size s' = sc_sched_size s \<and>
     (\<forall>b. b \<notin> uop_at s ` set (concat (map moved [0..<n])) \<longrightarrow> sc_uops s' b = sc_uops s b)"

lemma fill_frame_Suc:
  assumes f: "fill_frame n s moved s1" and m: "moved_in n (s1\<lparr>sc_count := c\<rparr>) mv en s2"
  shows "fill_frame (Suc n) s (moved(n := mv)) s2"
proof -
  have v: "uop_at (s1\<lparr>sc_count := c\<rparr>) = uop_at s1" "queue_of (s1\<lparr>sc_count := c\<rparr>) = queue_of s1"
    by (simp_all add: fun_eq_iff uop_at_def queue_of_def)
  note F = f[unfolded fill_frame_def] and M = m[unfolded moved_in_def v]
  have "if q < Suc n then contents (sc_alloc_q s ! q) = (moved(n := mv)) q @ contents (sc_alloc_q s2 ! q)
      else sc_alloc_q s2 ! q = sc_alloc_q s ! q" for q
  proof -
    have "q \<noteq> n \<Longrightarrow> sc_alloc_q s2 ! q = sc_alloc_q s1 ! q" "contents (sc_alloc_q s1 ! n) = mv @ contents (sc_alloc_q s2 ! n)"
      using M by simp_all
    moreover have "if q < n then contents (sc_alloc_q s ! q) = moved q @ contents (sc_alloc_q s1 ! q) else sc_alloc_q s1 ! q = sc_alloc_q s ! q"
      using F by blast
    ultimately show ?thesis by (cases "q = n") (auto simp add: less_Suc_eq)
  qed
  moreover have cat: "concat (map (moved(n := mv)) [0..<Suc n]) = concat (map moved [0..<n]) @ mv" by simp
  moreover have "sc_uops s2 b = sc_uops s b" if "b \<notin> uop_at s ` set (concat (map (moved(n := mv)) [0..<Suc n]))" for b
  proof -
    have "b \<notin> uop_at s ` set (concat (map moved [0..<n]))" "b \<notin> uop_at s ` set mv"
      using that unfolding cat set_append image_Un by simp_all
    moreover have "\<forall>b. b \<notin> uop_at s ` set (concat (map moved [0..<n])) \<longrightarrow> sc_uops s1 b = sc_uops s b" using F by blast
    moreover have "\<forall>b. b \<notin> uop_at s ` set mv \<longrightarrow> sc_uops s2 b = sc_uops s1 b" using M F by simp
    ultimately show ?thesis by metis
  qed
  ultimately show ?thesis using F M unfolding fill_frame_def by simp
qed

lemma fill_phase_Suc:
  assumes f: "fill_frame n s moved s1" and d: "distinct (map (uop_at s) (concat (map (moved(n := mv)) [0..<Suc n])))"
    and p: "fill_phase n s moved s1" and m: "moved_in n (s1\<lparr>sc_count := replicate 4 0\<rparr>) mv en s2"
  shows "fill_phase (Suc n) s (moved(n := mv)) s2"
proof -
  let ?s = "s1\<lparr>sc_count := replicate 4 0\<rparr>"
  have v: "uop_at ?s = uop_at s1" "queue_of ?s = queue_of s1" "flushed ?s = flushed s1" "live ?s = live s1" "sched_full ?s = sched_full s1"
    "sc_alloc_q ?s = sc_alloc_q s1" "sc_sched_rate ?s = sc_sched_rate s1" "sc_sched_size ?s = sc_sched_size s1" "sc_exec ?s = sc_exec s1"
    "sc_num_per_sched ?s = sc_num_per_sched s1" "sc_count ?s = replicate 4 0"
    by (simp_all add: fun_eq_iff uop_at_def queue_of_def flushed_def live_def window_indices_def sched_full_def)
  have cat: "concat (map (moved(n := mv)) [0..<Suc n]) = concat (map moved [0..<n]) @ mv" by simp
  have u: "uop_at s1 = uop_at s" "queue_of s1 = queue_of s" "sc_sched_rate s1 = sc_sched_rate s" "sc_sched_size s1 = sc_sched_size s"
    "\<And>b. b \<notin> uop_at s ` set (concat (map moved [0..<n])) \<Longrightarrow> sc_uops s1 b = sc_uops s b"
    using f by (simp_all add: fill_frame_def)
  have dm: "distinct (map (uop_at s) mv)" "uop_at s ` set (concat (map moved [0..<n])) \<inter> uop_at s ` set mv = {}"
    using d unfolding cat by auto
  have fl: "flushed s1 x = flushed s x" if "x \<in> set mv" for x
    using imageI[OF that, of "uop_at s"] dm(2) by (intro flushed_cong u) auto
  note M = m[unfolded moved_in_def v u(1-4)]
  have m1: "live s2 = live s1 @ map int en" "\<And>b. b \<notin> uop_at s ` set mv \<Longrightarrow> sc_uops s2 b = sc_uops s1 b" "stopped n s2"
    "uop_at s2 = uop_at s" "queue_of s2 = queue_of s" "sc_sched_rate s2 = sc_sched_rate s" "sc_sched_size s2 = sc_sched_size s"
    "sched_full s1 \<longrightarrow> sched_full s2" "\<forall>q < 4. sc_num_per_sched s1 ! q \<le> sc_num_per_sched s2 ! q"
    "\<forall>j. j \<noteq> n \<longrightarrow> sc_alloc_q s2 ! j = sc_alloc_q s1 ! j"
    "\<forall>e\<in>set en. u_in_scheduler (sc_uops s2 (uop_at s e))"
    using M dm(1) by blast+
  have "en = filter (\<lambda>e. \<not> flushed s1 e) mv" using M dm(1) by blast
  then have en: "en = filter (\<lambda>e. \<not> flushed s e) mv" using fl by (simp cong: filter_cong)
  have "\<forall>q < 4. sc_count s2 ! q = replicate 4 0 ! q + int (length (filter (\<lambda>e. queue_of s e = q) en)) \<and>
      sc_count s2 ! q \<le> max (replicate 4 0 ! q) (sc_sched_rate s ! q)" using M by blast
  then have cnt: "sc_count s2 ! q = int (length (filter (\<lambda>e. \<not> flushed s e \<and> queue_of s e = q) mv))"
    "sc_count s2 ! q \<le> max 0 (sc_sched_rate s ! q)" if "q < 4" for q
    using that unfolding en filter_filter by (metis add_0 nth_replicate)+
  have old: "(\<forall>e\<in>set (moved q). \<not> flushed s e \<longrightarrow> u_in_scheduler (sc_uops s1 (uop_at s e))) \<and>
        (\<forall>c < 4. int (length (filter (\<lambda>e. \<not> flushed s e \<and> queue_of s e = c) (moved q))) \<le> max 0 (sc_sched_rate s ! c)) \<and>
        fill_ended s (moved q) q s1" if "q < n" for q
    using p that by (simp add: fill_phase_def)
  have kept: "sc_uops s2 (uop_at s e) = sc_uops s1 (uop_at s e)" if "q < n" "e \<in> set (moved q)" for q e
  proof -
    have "uop_at s e \<in> uop_at s ` set (concat (map moved [0..<n]))" using that by (intro imageI) auto
    with dm(2) show ?thesis by (intro m1(2)) blast
  qed
  have upd: "map (\<lambda>q. filter (\<lambda>e. \<not> flushed s e) ((moved(n := mv)) q)) [0..<n] = map (\<lambda>q. filter (\<lambda>e. \<not> flushed s e) (moved q)) [0..<n]"
    by (intro map_cong) auto
  show ?thesis unfolding fill_phase_def
  proof (intro conjI allI impI)
    show "live s2 = live s @ map int (concat (map (\<lambda>q. filter (\<lambda>e. \<not> flushed s e) ((moved(n := mv)) q)) [0..<Suc n]))"
      using p unfolding fill_phase_def upt_Suc_append[OF le0] map_append upd by (simp add: m1(1) en)
    fix q
    assume q: "q < Suc n"
    show "\<forall>e\<in>set ((moved(n := mv)) q). \<not> flushed s e \<longrightarrow> u_in_scheduler (sc_uops s2 (uop_at s e))"
      using q old[of q] kept[of q] m1(11) en by (cases "q = n") (auto simp add: less_Suc_eq)
    show "int (length (filter (\<lambda>e. \<not> flushed s e \<and> queue_of s e = c) ((moved(n := mv)) q))) \<le> max 0 (sc_sched_rate s ! c)" if "c < 4" for c
      using q old[of q] cnt[OF that] that by (cases "q = n") (simp_all add: less_Suc_eq)
    show "fill_ended s ((moved(n := mv)) q) q s2"
    proof (cases "q = n")
      case True
      have "stopped n s2" by (rule m1(3))
      then show ?thesis unfolding True stopped_def fill_ended_def m1(5,6,7) using cnt(1) by auto
    next
      case False
      with q have "q < n" by simp
      with False old[of q] m1(8,9,10) show ?thesis by (auto intro: fill_ended_mono)
    qed
  qed
qed

lemma advance_all_ok:
  assumes inv: "sched_inv I k s"
  shows "n \<le> 4 \<Longrightarrow> \<exists>s' moved. fold_res (sched_advance cycle) [0..<n] s = Inr s' \<and> sched_inv I k s' \<and> fill_frame n s moved s' \<and>
    (distinct (map (uop_at s) (concat (map moved [0..<n]))) \<longrightarrow> fill_phase n s moved s')"
proof (induction n)
  case 0
  then show ?case using inv by (intro exI[of _ s] exI[of _ "\<lambda>_. []"]) (simp add: fill_frame_def fill_phase_def)
next
  case (Suc n)
  then obtain s1 moved where P: "fold_res (sched_advance cycle) [0..<n] s = Inr s1" "sched_inv I k s1" "fill_frame n s moved s1"
    "distinct (map (uop_at s) (concat (map moved [0..<n]))) \<longrightarrow> fill_phase n s moved s1" by auto
  have n: "n < 4" using Suc.prems by simp
  from sched_advance_ok[OF P(2) n, of cycle] obtain s2 mv en where
    A: "sched_advance cycle n s1 = Inr s2" "sched_inv I k s2" "moved_in n (s1\<lparr>sc_count := replicate 4 0\<rparr>) mv en s2" by blast
  let ?moved = "moved(n := mv)"
  have "fold_res (sched_advance cycle) [0..<Suc n] s = Inr s2" using P(1) A(1) by (simp add: fold_res_append)
  moreover have "fill_frame (Suc n) s ?moved s2" by (rule fill_frame_Suc[OF P(3) A(3)])
  moreover have "fill_phase (Suc n) s ?moved s2" if d: "distinct (map (uop_at s) (concat (map ?moved [0..<Suc n])))"
  proof -
    have "distinct (map (uop_at s) (concat (map moved [0..<n])))" using d by simp
    with P(4) show ?thesis using fill_phase_Suc[OF P(3) d _ A(3)] by blast
  qed
  ultimately show ?case using A(2) by blast
qed

section \<open>The start\<close>

lemma schedule_c_inv:
  assumes ex: "exec_inv I (sk_exec k) ex" and mp: "\<forall>q < 4. 0 \<le> ex_max_port ex ! q" and po: "ports_ok ex"
    and aq: "4 \<le> length alloc_q" "\<forall>q\<in>set alloc_q. pq_wf q \<and> contents q = []" and cnt: "length (sc_count junk) = 4"
  shows "sched_inv I k (schedule_c k t ex alloc_q junk)" "live (schedule_c k t ex alloc_q junk) = []"
proof -
  let ?s = "schedule_c k t ex alloc_q junk"
  have w: "window_indices ?s = []" by (simp add: schedule_c_def window_indices_def Let_def MAX_SCHED_SIZE_def)
  then show l: "live ?s = []" by (simp add: live_def)
  have "0 \<le> cut16 n" for n by (simp add: cut16_def)
  then have "\<forall>q < 4. sc_num_per_sched ?s ! q \<le> sc_sched_size ?s ! q"
    by (auto simp add: schedule_c_def Let_def nth_Cons less_Suc_eq numeral_eq_Suc split: nat.splits)
  then have "sched_base I k ?s" using assms by (auto simp add: sched_base_def schedule_c_def Let_def MAX_SCHED_SIZE_def)
  moreover have "counts k [] ?s" by (simp add: counts_def schedule_c_def Let_def)
  ultimately show "sched_inv I k ?s" by (simp add: sched_inv_def l)
qed

lemma begin_cycle_inv:
  assumes inv: "sched_inv I k s"
  shows "sched_inv I k (begin_cycle cycle s)" "live (begin_cycle cycle s) = live s"
proof -
  have b: "sched_base I k s" using inv by (simp add: sched_inv_def)
  have v: "entry_ok k (begin_cycle cycle s) e = entry_ok k s e" for e by (simp add: begin_cycle_def clear_ports_def entry_ok_def)
  have q: "queue_of (begin_cycle cycle s) e = queue_of s e" for e
    by (simp add: begin_cycle_def clear_ports_def queue_of_def uop_at_def)
  show l: "live (begin_cycle cycle s) = live s" by (rule live_cong) (simp_all add: begin_cycle_def)
  have "exec_inv I (sk_exec k) (sc_exec (begin_cycle cycle s))" "ports_ok (sc_exec (begin_cycle cycle s))"
    using b by (simp_all add: sched_base_def begin_cycle_def clear_ports_def exec_inv_def ports_ok_def)
  then have "sched_base I k (begin_cycle cycle s)"
    using b unfolding sched_base_def v by (simp add: begin_cycle_def clear_ports_def)
  moreover have "counts k (live s) (begin_cycle cycle s)"
    using inv unfolding sched_inv_def counts_def v q by (simp add: begin_cycle_def)
  ultimately show "sched_inv I k (begin_cycle cycle s)" by (simp add: sched_inv_def l)
qed

section \<open>A cycle\<close>

text \<open>The cycle is the issue phase followed by the fill phase.\<close>

lemma ooo_cycle_phases:
  assumes c: "memory_contract ops I" and inv: "sched_inv I k s" and run: "sc_schedule_running s" and s1_def: "s1 = begin_cycle cycle s"
  obtains mid s' issued moved where "ooo_run_a_cycle ops k appl gc cycle s = Inr s'" "sched_inv I k s'"
    "loop_done ops I k appl gc cycle (window_indices s1) 0 s1 issued mid" "fill_frame 4 mid moved s'"
    "distinct (map (uop_at mid) (concat (map moved [0..<4]))) \<longrightarrow> fill_phase 4 mid moved s'"
proof -
  have I1: "sched_inv I k s1" using begin_cycle_inv[OF inv, of cycle] by (simp add: s1_def)
  obtain mid issued where M: "(if sc_num_in_sched s1 \<noteq> 0
      then ooo_loop ops k appl gc cycle (window_indices s1) 0 s1 else Inr (0, s1)) = Inr (int (length issued), mid)"
    "loop_done ops I k appl gc cycle (window_indices s1) 0 s1 issued mid"
  proof (cases "sc_num_in_sched s1 = 0")
    case True
    then have "live s1 = []" using I1 by (simp add: sched_inv_def counts_def)
    then have "ring_entries s1 (window_indices s1) = []" by (simp add: ring_entries_def live_def)
    from that[of "[]" s1] loop_done_refl[OF I1 this] True show ?thesis by simp
  next
    case False
    from ooo_loop_ok[OF c I1, of "[]" "window_indices s1" appl gc cycle 0] False that show ?thesis by auto
  qed
  have "sched_inv I k mid" using M(2) by (simp add: loop_done_def)
  from advance_all_ok[OF this, of 4 cycle] obtain s' moved where
    A: "advance_all cycle mid = Inr s'" "sched_inv I k s'" "fill_frame 4 mid moved s'"
    "distinct (map (uop_at mid) (concat (map moved [0..<4]))) \<longrightarrow> fill_phase 4 mid moved s'"
    by (auto simp add: advance_all_def)
  have "ooo_run_a_cycle ops k appl gc cycle s = Inr s'" using run M(1) A(1) by (simp add: ooo_run_a_cycle_def s1_def[symmetric])
  from that[OF this A(2) M(2) A(3,4)] show ?thesis .
qed

lemma ooo_cycle_ok:
  assumes "memory_contract ops I" "sched_inv I k s" "sc_schedule_running s"
  shows "\<exists>s'. ooo_run_a_cycle ops k appl gc cycle s = Inr s' \<and> sched_inv I k s'"
  using ooo_cycle_phases[OF assms refl, of appl gc cycle] by blast

section \<open>Every uop waits once\<close>

definition queued :: "'m schedule \<Rightarrow> nat list" where
  "queued s = concat (map (\<lambda>q. contents (sc_alloc_q s ! q)) [0..<4])"

text \<open>The uops in the window and in the allocation queues.\<close>

definition waiting :: "'m schedule \<Rightarrow> addr list" where
  "waiting s = map (uop_at s) (map nat (live s) @ queued s)"

lemma queued_moved:
  assumes "fill_frame 4 mid moved s'"
  shows "mset (queued mid) = mset (concat (map moved [0..<4])) + mset (queued s')"
proof -
  have "contents (sc_alloc_q mid ! q) = moved q @ contents (sc_alloc_q s' ! q)" if "q < 4" for q
    using assms that unfolding fill_frame_def by meson
  then have "queued mid = concat (map (\<lambda>q. moved q @ contents (sc_alloc_q s' ! q)) [0..<4])"
    unfolding queued_def by (intro arg_cong[where f = concat] map_cong) auto
  moreover have "mset (concat (map (\<lambda>q. f q @ g q) xs)) = mset (concat (map f xs)) + mset (concat (map g xs))" for f g :: "nat \<Rightarrow> nat list" and xs
    by (induction xs) auto
  ultimately show ?thesis by (simp add: queued_def)
qed

lemma distinct_mset_mono: "mset xs \<subseteq># mset ys \<Longrightarrow> distinct ys \<Longrightarrow> distinct xs"
  by (metis distinct_append mset_append mset_eq_imp_distinct_iff mset_subset_eq_exists_conv ex_mset)

lemma concat_filter_subset: "mset (concat (map (\<lambda>q. filter P (f q)) xs)) \<subseteq># mset (concat (map f xs))"
  by (induction xs) (auto intro: subset_mset.add_mono)

lemma begin_cycle_fields:
  "live (begin_cycle cycle s) = live s" "uop_at (begin_cycle cycle s) = uop_at s" "queue_of (begin_cycle cycle s) = queue_of s"
  "sc_alloc_q (begin_cycle cycle s) = sc_alloc_q s" "sc_sched_rate (begin_cycle cycle s) = sc_sched_rate s"
  "sc_sched_size (begin_cycle cycle s) = sc_sched_size s" "sc_uops (begin_cycle cycle s) = sc_uops s"
  "sc_knob_width (begin_cycle cycle s) = sc_knob_width s" "sc_knob_sched_to_width (begin_cycle cycle s) = sc_knob_sched_to_width s"
  "ring_entries (begin_cycle cycle s) (window_indices (begin_cycle cycle s)) = live s" "entry_uops (begin_cycle cycle s) = entry_uops s"
  by (simp_all add: fun_eq_iff begin_cycle_def clear_ports_def uop_at_def queue_of_def live_def window_indices_def ring_entries_def entry_uops_def)

lemma flushed_view:
  assumes "mem_view (sc_uops s' (uop_at s e)) = mem_view (sc_uops s (uop_at s e))" "uop_at s' = uop_at s"
  shows "flushed s' e = flushed s e"
  using assms(1)[THEN arg_cong, of u_bogus] assms(1)[THEN arg_cong, of u_done_cycle] assms(2) by (simp add: flushed_def mem_view_def)

text \<open>Issuing does not flush what waits in the queues, and filling does not touch what was in the
  window.\<close>

lemma phases_apart:
  assumes once: "distinct (waiting s)" and ph: "issue_phase cycle (begin_cycle cycle s) issued mid" and at: "uop_at mid = uop_at s"
    and q: "sc_alloc_q mid = sc_alloc_q s" and f: "fill_frame 4 mid moved s'"
  shows "q < 4 \<Longrightarrow> e \<in> set (moved q) \<Longrightarrow> flushed mid e = flushed s e"
    "x \<in> set (live s) \<Longrightarrow> sc_uops s' (uop_at s (nat x)) = sc_uops mid (uop_at s (nat x))"
    "distinct (map (uop_at mid) (concat (map moved [0..<4])))"
proof -
  have sub: "set (concat (map moved [0..<4])) \<subseteq> set (queued s)" and ms: "mset (concat (map moved [0..<4])) \<subseteq># mset (queued s)"
    using queued_moved[OF f] q unfolding queued_def by (metis set_mset_mset mset_subset_eq_add_left set_mset_mono, metis mset_subset_eq_add_left)
  have apart: "entry_uops s \<inter> uop_at s ` set (queued s) = {}" and dq: "distinct (map (uop_at s) (queued s))"
    using once by (auto simp add: waiting_def entry_uops_def)
  show "flushed mid e = flushed s e" if "q < 4" "e \<in> set (moved q)" for q e
  proof (rule flushed_view[OF _ at])
    have "e \<in> set (concat (map moved [0..<4]))" using that by auto
    with sub have "uop_at s e \<in> uop_at s ` set (queued s)" by blast
    with apart have "uop_at s e \<notin> entry_uops s" by blast
    with ph show "mem_view (sc_uops mid (uop_at s e)) = mem_view (sc_uops s (uop_at s e))"
      unfolding issue_phase_def begin_cycle_fields by blast
  qed
  show "sc_uops s' (uop_at s (nat x)) = sc_uops mid (uop_at s (nat x))" if "x \<in> set (live s)" for x
  proof -
    have "uop_at s (nat x) \<in> entry_uops s" unfolding entry_uops_def using that by (rule imageI)
    with apart sub have "uop_at s (nat x) \<notin> uop_at mid ` set (concat (map moved [0..<4]))" unfolding at by blast
    with f show ?thesis unfolding fill_frame_def by blast
  qed
  show "distinct (map (uop_at mid) (concat (map moved [0..<4])))"
    using distinct_mset_mono[OF _ dq] image_mset_subseteq_mono[OF ms, of "uop_at s"] unfolding at by (simp only: mset_map)
qed

lemma waiting_after:
  assumes once: "distinct (waiting s)" and at: "uop_at s' = uop_at s" and f: "fill_frame 4 mid moved s'" and q: "sc_alloc_q mid = sc_alloc_q s"
    and l: "live s' = filter P (live s) @ map int (concat (map (\<lambda>q. filter Q (moved q)) [0..<4]))"
  shows "distinct (waiting s')"
proof (rule distinct_mset_mono[OF _ once])
  have "mset (queued s) = mset (concat (map moved [0..<4])) + mset (queued s')" using queued_moved[OF f] q by (simp add: queued_def)
  moreover have "mset (map nat (live s')) \<subseteq># mset (map nat (live s)) + mset (concat (map moved [0..<4]))"
    unfolding l map_append mset_append
  proof (rule subset_mset.add_mono)
    show "mset (map nat (filter P (live s))) \<subseteq># mset (map nat (live s))" by (simp add: image_mset_subseteq_mono)
    show "mset (map nat (map int (concat (map (\<lambda>q. filter Q (moved q)) [0..<4])))) \<subseteq># mset (concat (map moved [0..<4]))"
      using concat_filter_subset[of Q moved "[0..<4]"] by (simp only: map_map comp_def nat_int map_ident)
  qed
  ultimately have "mset (map nat (live s') @ queued s') \<subseteq># mset (map nat (live s) @ queued s)"
    by (simp add: add.assoc[symmetric])
  then show "mset (waiting s') \<subseteq># mset (waiting s)"
    unfolding waiting_def at mset_map by (rule image_mset_subseteq_mono)
qed

text \<open>The fill phase seen from the start of the cycle.\<close>

lemma fill_phase_view:
  assumes F: "fill_phase 4 mid moved s'" and fl: "\<forall>q < 4. \<forall>e\<in>set (moved q). flushed mid e = flushed s e"
    and m: "uop_at mid = uop_at s" "queue_of mid = queue_of s" "sc_sched_rate mid = sc_sched_rate s" "sc_sched_size mid = sc_sched_size s"
  shows "live s' = live mid @ map int (concat (map (\<lambda>q. filter (\<lambda>e. \<not> flushed s e) (moved q)) [0..<4]))"
    "q < 4 \<Longrightarrow> (\<forall>e\<in>set (moved q). \<not> flushed s e \<longrightarrow> u_in_scheduler (sc_uops s' (uop_at s e))) \<and>
      (\<forall>c < 4. int (length (filter (\<lambda>e. \<not> flushed s e \<and> queue_of s e = c) (moved q))) \<le> max 0 (sc_sched_rate s ! c)) \<and>
      fill_ended s (moved q) q s'"
proof -
  have f1: "filter (\<lambda>e. \<not> flushed mid e) (moved q) = filter (\<lambda>e. \<not> flushed s e) (moved q)"
    and f2: "filter (\<lambda>e. \<not> flushed mid e \<and> P e) (moved q) = filter (\<lambda>e. \<not> flushed s e \<and> P e) (moved q)" if "q < 4" for q P
    using fl that by (auto intro!: filter_cong)
  have "map (\<lambda>q. filter (\<lambda>e. \<not> flushed mid e) (moved q)) [0..<4] = map (\<lambda>q. filter (\<lambda>e. \<not> flushed s e) (moved q)) [0..<4]"
    using f1 by (intro map_cong) auto
  moreover have "live s' = live mid @ map int (concat (map (\<lambda>q. filter (\<lambda>e. \<not> flushed mid e) (moved q)) [0..<4]))"
    using F unfolding fill_phase_def by blast
  ultimately show "live s' = live mid @ map int (concat (map (\<lambda>q. filter (\<lambda>e. \<not> flushed s e) (moved q)) [0..<4]))" by (simp only:)
  assume q: "q < 4"
  have "fill_ended s (moved q) q s' = fill_ended mid (moved q) q s'" unfolding fill_ended_def m f2[OF q] ..
  moreover have "\<forall>c < 4. int (length (filter (\<lambda>e. \<not> flushed mid e \<and> queue_of s e = c) (moved q))) \<le> max 0 (sc_sched_rate s ! c)"
    using F q unfolding fill_phase_def m by blast
  moreover have "\<forall>e\<in>set (moved q). \<not> flushed mid e \<longrightarrow> u_in_scheduler (sc_uops s' (uop_at s e))" "fill_ended mid (moved q) q s'"
    using F q unfolding fill_phase_def m by blast+
  ultimately show "(\<forall>e\<in>set (moved q). \<not> flushed s e \<longrightarrow> u_in_scheduler (sc_uops s' (uop_at s e))) \<and>
      (\<forall>c < 4. int (length (filter (\<lambda>e. \<not> flushed s e \<and> queue_of s e = c) (moved q))) \<le> max 0 (sc_sched_rate s ! c)) \<and>
      fill_ended s (moved q) q s'" using fl q unfolding f2[OF q] by blast
qed

section \<open>Properties\<close>

text \<open>C4. A cycle of the out-of-order scheduler, when every uop waits at most once in the window and the
  allocation queues. It completes without a failing assertion, an index outside an array or an endless
  loop, keeps the invariant (the counters are those of the window, no queue holds more than its size, no
  execution port is used more often than it exists), and still no uop waits twice. The entries \<open>issued\<close>
  are those that execute when the entries of the window are tried one after another, oldest first, on the
  state the attempts before have left, until the width is reached; their uops are stamped with the cycle
  and out of the scheduler. From each allocation queue the entries \<open>moved\<close> are taken off the front, until
  the queue is not ready, the ring is full, or the rate or the size of the next uop's scheduler queue is
  reached. The window afterwards is exactly the old one without the issued entries, in its order, followed
  by the moved entries whose uops were not flushed (bogus or already done) when the cycle began, in the
  order of the queues; these are marked as in the scheduler, and the uops that stay keep that mark.\<close>

theorem ooo_cycle_correct:
  assumes c: "memory_contract ops I" and inv: "sched_inv I k s" and run: "sc_schedule_running s" and once: "distinct (waiting s)"
  shows "\<exists>s' issued t moved. ooo_run_a_cycle ops k appl gc cycle s = Inr s' \<and> sched_inv I k s' \<and> distinct (waiting s') \<and>
    try_issue ops k appl gc cycle (live s) 0 (begin_cycle cycle s) = Inr (issued, t) \<and>
    (sc_knob_sched_to_width s \<noteq> 0 \<longrightarrow> int (length issued) \<le> max 1 (uint (sc_knob_width s))) \<and>
    (\<forall>e\<in>set issued. e \<in> set (live s) \<and> executed cycle (sc_uops s' (uop_at s (nat e)))) \<and>
    (\<forall>e\<in>set (live s) - set issued. u_in_scheduler (sc_uops s' (uop_at s (nat e))) = u_in_scheduler (sc_uops s (uop_at s (nat e)))) \<and>
    live s' = filter (\<lambda>e. e \<notin> set issued) (live s) @
      map int (concat (map (\<lambda>q. filter (\<lambda>e. \<not> flushed s e) (moved q)) [0..<4])) \<and>
    (\<forall>q < 4. contents (sc_alloc_q s ! q) = moved q @ contents (sc_alloc_q s' ! q) \<and>
      (\<forall>e\<in>set (moved q). \<not> flushed s e \<longrightarrow> u_in_scheduler (sc_uops s' (uop_at s e))) \<and>
      (\<forall>c < 4. int (length (filter (\<lambda>e. \<not> flushed s e \<and> queue_of s e = c) (moved q))) \<le> max 0 (sc_sched_rate s ! c)) \<and>
      fill_ended s (moved q) q s')"
proof -
  obtain mid s' issued moved where R: "ooo_run_a_cycle ops k appl gc cycle s = Inr s'" "sched_inv I k s'"
    "loop_done ops I k appl gc cycle (window_indices (begin_cycle cycle s)) 0 (begin_cycle cycle s) issued mid"
    "fill_frame 4 mid moved s'" "distinct (map (uop_at mid) (concat (map moved [0..<4]))) \<longrightarrow> fill_phase 4 mid moved s'"
    using ooo_cycle_phases[OF c inv run refl] by metis
  note L = R(3)[unfolded loop_done_def begin_cycle_fields]
  have ph: "issue_phase cycle (begin_cycle cycle s) issued mid"
    using L once by (simp add: waiting_def comp_def)
  have m: "uop_at mid = uop_at s" "queue_of mid = queue_of s" "sc_alloc_q mid = sc_alloc_q s" "sc_sched_rate mid = sc_sched_rate s"
    "sc_sched_size mid = sc_sched_size s" using L by simp_all
  note A = phases_apart[OF once ph m(1,3) R(4)]
  note I = ph[unfolded issue_phase_def begin_cycle_fields]
  have F: "fill_phase 4 mid moved s'" using R(5) A(3) by blast
  have fl: "\<forall>q < 4. \<forall>e\<in>set (moved q). flushed mid e = flushed s e" using A(1) by blast
  note V = fill_phase_view[OF F fl m(1,2,4,5)]
  have "live mid = filter (\<lambda>e. e \<notin> set issued) (live s)" using I by blast
  with V(1) have live: "live s' = filter (\<lambda>e. e \<notin> set issued) (live s) @
      map int (concat (map (\<lambda>q. filter (\<lambda>e. \<not> flushed s e) (moved q)) [0..<4]))" by (simp only:)
  have qs: "\<forall>q < 4. contents (sc_alloc_q s ! q) = moved q @ contents (sc_alloc_q s' ! q)"
    using R(4) m(3) unfolding fill_frame_def by metis
  have at: "uop_at s' = uop_at s" using R(4) m(1) by (simp add: fill_frame_def)
  have w: "distinct (waiting s')" by (rule waiting_after[OF once at R(4) m(3) live])
  have ex: "\<forall>e\<in>set issued. e \<in> set (live s) \<and> executed cycle (sc_uops s' (uop_at s (nat e)))"
    using I A(2) by (metis subset_iff)
  have st: "\<forall>e\<in>set (live s) - set issued. u_in_scheduler (sc_uops s' (uop_at s (nat e))) = u_in_scheduler (sc_uops s (uop_at s (nat e)))"
    using I A(2) by simp
  from L obtain t where "try_issue ops k appl gc cycle (live s) 0 (begin_cycle cycle s) = Inr (issued, t)" by blast
  moreover have "sc_knob_sched_to_width s \<noteq> 0 \<longrightarrow> int (length issued) \<le> max 1 (uint (sc_knob_width s))" using L by simp
  ultimately show ?thesis using R(1,2) w ex st live qs V(2) by blast
qed

definition demo_exec_knobs :: exec_knobs where
  "demo_exec_knobs = \<lparr>ek_rates = (\<lambda>_. \<lparr>ur_isched_rate = 1, ur_msched_rate = 1, ur_fsched_rate = 1, ur_ssched_rate = 1, ur_core_type = ''x86''\<rparr>),
     ek_rob = \<lparr>KNOB_FENCE_ENABLE = True, KNOB_USE_WB = False, KNOB_ACQ_REL = False\<rparr>, ek_bp = demo_bp_knobs, ek_cache = demo_knobs False,
     KNOB_ONE_CYCLE_EXEC = False, KNOB_PERFECT_DCACHE = False, KNOB_FETCH_ONLY_LOAD_READY = False, KNOB_MT_NO_FETCH_BR = False,
     KNOB_EXEC_RETIRE_LATENCY = 2, KNOB_EXTRA_LD_LATENCY = 0, ek_EXTRA_RECOVERY_CYCLES = 0\<rparr>"

definition demo_sched_knobs :: sched_knobs where
  "demo_sched_knobs = \<lparr>sk_exec = demo_exec_knobs, sk_units = (\<lambda>_. \<lparr>us_width = 2, us_isched_size = 4, us_msched_size = 4,
     us_fsched_size = 4, us_ssched_size = 4, us_sched_to_width = 1\<rparr>), KNOB_FENCE_PREF_ENABLE = False\<rparr>"

definition demo_mem_ops :: "unit mem_ops" where
  "demo_mem_ops = \<lparr>mo_access = (\<lambda>a us m. Inr (3, us(a := (us a)\<lparr>u_state := OS_DCACHE_HIT\<rparr>), m)), mo_new_mem_req = (\<lambda>r us m. Inr (True, m)),
     mo_access_cache = (\<lambda>c a m. Inr (True, m)), mo_free_req = (\<lambda>c a m. Inr m), mo_num_avail_entry = (\<lambda>c m. 1)\<rparr>"

text \<open>A reorder buffer of eight entries with the uops 7 and 8 in the first two.\<close>

definition demo_sched_rob :: rob where
  "demo_sched_rob = (rob_c 0 0 0 4)\<lparr>ro_rob := Some 7 # Some 8 # replicate 6 None, ro_last_entry := 2, ro_free_cnt := 2\<rparr>"

definition demo_core_mem :: "'m \<Rightarrow> 'm core_mem" where
  "demo_core_mem m = \<lparr>cm_uops = (\<lambda>_. zero_uop), cm_reqs = (\<lambda>_. clear_req), cm_frontend = \<lparr>fr_thread = (\<lambda>_. None), fr_mem_access_thread_num = 0\<rparr>,
     cm_shared_memory = None, cm_const_cache = None, cm_texture_cache = None, cm_memory = m\<rparr>"

definition demo_btb_line :: "Addr cache_entry" where
  "demo_btb_line = \<lparr>ce_valid = False, ce_tag = 0, ce_base = 0, ce_last_access_time = 0,
     ce_access_counter = 0, ce_data = 0, ce_pref = False, ce_dirty = False, ce_appl_id = 0, ce_gpuline = False, ce_skip = False\<rparr>"

definition demo_exec :: "'m \<Rightarrow> 'm exec_stage" where
  "demo_exec m = \<lparr>ex_core_id = 0, ex_acc_sim = False, ex_igpu_sim = False, ex_ptx_sim = False, ex_latency = (\<lambda>_. 1), ex_cur_core_cycle = 0,
     ex_max_port = [1, 1, 1, 1], ex_port_used = [0, 0, 0, 0], ex_bank_busy = [], ex_rob = demo_sched_rob,
     ex_gpu_rob = \<lparr>sm_thread_robs = [], sm_free_list = [], sm_uop_list = [], sm_thread_to_rob_map = []\<rparr>,
     ex_bp_data = bp_data_c demo_bp_knobs demo_btb_line 0 0 0, ex_mem = demo_core_mem m\<rparr>"

definition demo_schedule :: "'m \<Rightarrow> 'm schedule" where
  "demo_schedule m = schedule_start (schedule_c demo_sched_knobs UNIT_LARGE (demo_exec m) (replicate 4 (pqueue_c 8 0))
     \<lparr>sc_exec = demo_exec m, sc_alloc_q = [], sc_igpu = False, sc_ops_to_be_dispatched = (\<lambda>_. 0), sc_cur_core_cycle = 0, sc_last_sched_cycle = 0,
      sc_knob_width = 0, sc_knob_sched_to_width = 0, sc_num_in_sched = 0, sc_schedule_running = False, sc_count = [0, 0, 0, 0],
      sc_sched_size = [], sc_sched_rate = [], sc_num_per_sched = [], sc_schedule_list = [], sc_first_schlist_ptr = 0, sc_last_schlist_ptr = 0\<rparr>)"

definition demo_spec :: "unit mem_spec" where
  "demo_spec = \<lparr>sp_inv = (\<lambda>_. True), sp_cores = 1\<rparr>"

lemma demo_memory_contract: "memory_contract demo_mem_ops demo_spec"
  by (auto simp add: memory_contract_def demo_mem_ops_def mem_view_def demo_spec_def)

lemma demo_exec_inv:
  assumes "sp_inv I m" "0 < sp_cores I"
  shows "exec_inv I demo_exec_knobs (demo_exec m)"
proof -
  have rob: "rob_wf demo_sched_rob"
    by (simp add: demo_sched_rob_def rob_wf_def rob_c_def entries_def slot_def) (auto simp add: less_Suc_eq numeral_2_eq_2)
  have targ: "cache_wf (bp_targ_c demo_bp_knobs demo_btb_line 0 0 0)"
    unfolding bp_targ_c_def by (rule cache_c_wf) (simp_all add: demo_bp_knobs_def)
  have uops: "uops_ok I (\<lambda>_. zero_uop)" "core_in I 0"
    using assms(2) by (simp_all add: uops_ok_def core_in_def zero_uop_def)
  show ?thesis using rob targ gshare_c_wf[OF demo_bp_config] demo_bp_config uops assms(1)
    by (simp add: exec_inv_def demo_exec_def demo_exec_knobs_def bp_data_c_def demo_core_mem_def)
      (simp add: bp_targ_c_def cache_c_def Let_def)
qed

lemma demo_schedule_inv:
  fixes m :: 'm
  assumes "sp_inv I m" "0 < sp_cores I"
  shows "sched_inv I demo_sched_knobs (demo_schedule m)" "live (demo_schedule m) = []"
proof -
  let ?junk = "\<lparr>sc_exec = demo_exec m, sc_alloc_q = [], sc_igpu = False, sc_ops_to_be_dispatched = (\<lambda>_. 0), sc_cur_core_cycle = 0, sc_last_sched_cycle = 0,
      sc_knob_width = 0, sc_knob_sched_to_width = 0, sc_num_in_sched = 0, sc_schedule_running = False, sc_count = [0, 0, 0, 0],
      sc_sched_size = [], sc_sched_rate = [], sc_num_per_sched = [], sc_schedule_list = [], sc_first_schlist_ptr = 0, sc_last_schlist_ptr = 0\<rparr> :: 'm schedule"
  let ?s = "schedule_c demo_sched_knobs UNIT_LARGE (demo_exec m) (replicate 4 (pqueue_c 8 0)) ?junk"
  have q: "contents (pqueue_c 8 0 :: nat pqueue) = []" by (simp add: contents_def stages_def pqueue_c_def)
  have "exec_inv I (sk_exec demo_sched_knobs) (demo_exec m)" using demo_exec_inv[OF assms] by (simp add: demo_sched_knobs_def)
  moreover have "\<forall>q < 4. 0 \<le> ex_max_port (demo_exec m) ! q" "ports_ok (demo_exec m)"
    by (auto simp add: demo_exec_def ports_ok_def nth_Cons less_Suc_eq numeral_eq_Suc split: nat.splits)
  ultimately have S: "sched_inv I demo_sched_knobs ?s" "live ?s = []"
    by (intro schedule_c_inv; simp add: q pq_wf_new)+
  have v: "entry_ok k (schedule_start s) e = entry_ok k s e" "counts k W (schedule_start s) = counts k W s"
    "live (schedule_start s) = live s" for k W e and s :: "'m schedule"
    by (simp_all add: schedule_start_def entry_ok_def counts_def queue_of_def uop_at_def live_def window_indices_def)
  show "sched_inv I demo_sched_knobs (demo_schedule m)" "live (demo_schedule m) = []"
    using S unfolding demo_schedule_def sched_inv_def sched_base_def v by (simp_all add: schedule_start_def)
qed

lemma demo_unit_inv: "sched_inv demo_spec demo_sched_knobs (demo_schedule ())"
  by (rule demo_schedule_inv(1)) (simp_all add: demo_spec_def)

text \<open>C16. A uop of the window executes only when it is bogus, or all its sources are done (now, or
  found so by an earlier attempt), a port of its queue is free and no fence holds it back; then it is
  out of the scheduler and stamped with the cycle. A uop that does not execute stays in the window, and no
  attempt fails an assertion.\<close>

theorem scheduled_uop_was_ready:
  assumes c: "memory_contract ops I" and inv: "sched_inv I k s" and e: "e \<in> set (live s)"
  shows "\<exists>ok r s'. uop_schedule ops k appl gc cycle (nat e) s = Inr (ok, r, s') \<and>
    (if ok
     then issue_allowed k cycle (nat e) s \<and>
       (let u = sc_uops s' (uop_at s (nat e)) in u_exec_cycle u = cycle \<and> u_sched_cycle u = cycle \<and> \<not> u_in_scheduler u) \<and>
       sc_num_in_sched s' = sc_num_in_sched s - 1
     else sched_inv I k s' \<and> live s' = live s)"
proof -
  obtain ok r s1 where U: "uop_schedule ops k appl gc cycle (nat e) s = Inr (ok, r, s1)" "ports_ok (sc_exec s1)"
    "stage_kept I k (if ok then issued_state (queue_of s (nat e)) s1 s else s) s1"
    "ok \<Longrightarrow> issue_allowed k cycle (nat e) s"
    "ok \<Longrightarrow> (let u = sc_uops s1 (uop_at s (nat e)) in u_exec_cycle u = cycle \<and> u_sched_cycle u = cycle \<and> \<not> u_in_scheduler u)"
    using attempt_ok[OF c inv e, of appl gc cycle] by metis
  show ?thesis
  proof (cases ok)
    case True
    then have "sc_num_in_sched s1 = sc_num_in_sched s - 1" using stage_kept_fields(1)[OF U(3)] by (simp add: issued_state_def)
    with U(1) U(4)[OF True] U(5)[OF True] True show ?thesis by auto
  next
    case False
    then have K: "stage_kept I k s s1" using U(3) by simp
    with U(1) False sched_inv_kept[OF inv K U(2)] live_kept[OF K] show ?thesis by auto
  qed
qed

text \<open>The window with the entry 0, whose uop has no sources.\<close>

definition demo_window :: "unit schedule" where
  "demo_window = (demo_schedule ())\<lparr>sc_num_in_sched := 1, sc_num_per_sched := [1, 0, 0, 0],
     sc_schedule_list := (replicate MAX_SCHED_SIZE (- 1))[0 := 0], sc_last_schlist_ptr := 1\<rparr>"

lemma demo_window_inv: "sched_inv demo_spec demo_sched_knobs demo_window" "live demo_window = [0]"
proof -
  have "window_indices demo_window = [0]"
    by (simp add: demo_window_def demo_schedule_def schedule_start_def schedule_c_def Let_def window_indices_def MAX_SCHED_SIZE_def)
  then show l: "live demo_window = [0]" by (simp add: live_def demo_window_def MAX_SCHED_SIZE_def)
  have x: "sc_exec demo_window = demo_exec ()" "sc_exec (demo_schedule ()) = demo_exec ()"
    by (simp_all add: demo_window_def demo_schedule_def schedule_start_def schedule_c_def Let_def)
  have "rob_holds demo_sched_rob 0 7"
    unfolding rob_holds_def by (rule exI[of _ 0]) (simp add: demo_sched_rob_def rob_c_def entries_def slot_def items_def)
  moreover have "uop_ok demo_exec_knobs (\<lambda>_. 1) zero_uop"
    by (simp add: uop_ok_def zero_uop_def cpu_mem_type_def children_ok_def)
  ultimately have e: "entry_ok demo_sched_knobs demo_window 0"
    unfolding entry_ok_def x by (auto simp add: demo_exec_def demo_core_mem_def demo_sched_knobs_def)
  have q: "queue_of demo_window 0 = 0"
    unfolding queue_of_def uop_at_def x
    by (simp add: demo_exec_def demo_core_mem_def zero_uop_def allocq_index_def)
  have "counts demo_sched_knobs [0] demo_window"
    using e q by (auto simp add: counts_def demo_window_def nth_Cons less_Suc_eq numeral_eq_Suc split: nat.splits)
  moreover have "sched_base demo_spec demo_sched_knobs demo_window"
  proof -
    have b: "sched_base demo_spec demo_sched_knobs (demo_schedule ())" using demo_unit_inv by (simp add: sched_inv_def)
    have sz: "sc_sched_size (demo_schedule ()) = [4, 4, 4, 4]"
      by (simp add: demo_schedule_def schedule_start_def schedule_c_def Let_def demo_sched_knobs_def cut16_def)
    have eo: "entry_ok k demo_window e = entry_ok k (demo_schedule ()) e" for k e by (simp add: entry_ok_def x)
    have "\<forall>q < 4. [1, 0, 0, 0 :: int] ! q \<le> [4, 4, 4, 4] ! q"
      by (auto simp add: nth_Cons less_Suc_eq numeral_eq_Suc split: nat.splits)
    then show ?thesis using b sz unfolding sched_base_def eo by (simp add: demo_window_def MAX_SCHED_SIZE_def)
  qed
  ultimately show "sched_inv demo_spec demo_sched_knobs demo_window" by (simp add: sched_inv_def l)
qed

theorem scheduled_uop_was_ready_witness:
  "\<exists>ok r s'. uop_schedule demo_mem_ops demo_sched_knobs (\<lambda>_. 0) 9 5 (nat 0) demo_window = Inr (ok, r, s') \<and>
     (ok \<longrightarrow> issue_allowed demo_sched_knobs 5 (nat 0) demo_window)"
proof -
  have "0 \<in> set (live demo_window)" by (simp add: demo_window_inv(2))
  from scheduled_uop_was_ready[OF demo_memory_contract demo_window_inv(1) this, of "\<lambda>_. 0" 9 5] show ?thesis
    by (metis (full_types))
qed

text \<open>The same window with the entry 1 waiting in the first allocation queue.\<close>

definition demo_queue :: "nat pqueue" where
  "demo_queue = (case enqueue 0 1 (pqueue_c 8 0) of Inr (_, q) \<Rightarrow> q | Inl _ \<Rightarrow> pqueue_c 8 0)"

definition demo_busy :: "unit schedule" where
  "demo_busy = demo_window\<lparr>sc_alloc_q := demo_queue # replicate 3 (pqueue_c 8 0)\<rparr>"

lemma demo_queue_wf: "pq_wf demo_queue" "contents demo_queue = [1]"
proof -
  have st: "stages (pqueue_c 8 0 :: nat pqueue) = [] @ [[]]" by (simp add: stages_def pqueue_c_def)
  have r: "m_num_entry (pqueue_c 8 0 :: nat pqueue) < m_capacity (pqueue_c 8 0 :: nat pqueue)" by (simp add: pqueue_c_def)
  have w: "pq_wf (pqueue_c 8 0 :: nat pqueue)" by (simp add: pq_wf_new)
  obtain a and q :: "nat pqueue" where "enqueue 0 1 (pqueue_c 8 0) = Inr (True, q)" "pq_wf q"
    "stages q = [] @ [insert_entry \<lparr>pe_ptr = a, m_priority = 0, m_data = 1\<rparr> []]"
    by (rule enqueue_stages[OF w r st, of 0 1]) blast
  then show "pq_wf demo_queue" "contents demo_queue = [1]" by (simp_all add: demo_queue_def contents_def)
qed

lemma demo_busy_inv: "sched_inv demo_spec demo_sched_knobs demo_busy" "live demo_busy = [0]" "waiting demo_busy = [7, 8]"
  "\<not> flushed demo_busy 1" "queued demo_busy = [1]"
proof -
  have q: "contents (pqueue_c 8 0 :: nat pqueue) = []" by (simp add: contents_def stages_def pqueue_c_def)
  show l: "live demo_busy = [0]" using live_cong(2)[of demo_busy demo_window] demo_window_inv(2) by (simp add: demo_busy_def)
  have x: "sc_exec demo_busy = demo_exec ()" "sc_exec demo_window = demo_exec ()"
    by (simp_all add: demo_busy_def demo_window_def demo_schedule_def schedule_start_def schedule_c_def Let_def)
  have eo: "entry_ok k demo_busy e = entry_ok k demo_window e" "queue_of demo_busy e = queue_of demo_window e" for k e
    by (simp_all add: entry_ok_def queue_of_def uop_at_def x)
  have "rob_holds demo_sched_rob 1 8"
    unfolding rob_holds_def by (rule exI[of _ 1]) (simp add: demo_sched_rob_def rob_c_def entries_def slot_def items_def)
  moreover have "uop_ok demo_exec_knobs (\<lambda>_. 1) zero_uop"
    by (simp add: uop_ok_def zero_uop_def cpu_mem_type_def children_ok_def)
  ultimately have e: "entry_ok demo_sched_knobs demo_window 1"
    unfolding entry_ok_def x by (auto simp add: demo_exec_def demo_core_mem_def demo_sched_knobs_def)
  have b: "sched_base demo_spec demo_sched_knobs demo_window" "counts demo_sched_knobs [0] demo_window"
    using demo_window_inv by (simp_all add: sched_inv_def)
  have "sched_base demo_spec demo_sched_knobs demo_busy"
    using b(1) e demo_queue_wf q pq_wf_new[of 8 0] unfolding sched_base_def eo by (simp add: demo_busy_def)
  moreover have "counts demo_sched_knobs [0] demo_busy" using b(2) unfolding counts_def eo by (simp add: demo_busy_def)
  ultimately show "sched_inv demo_spec demo_sched_knobs demo_busy" by (simp add: sched_inv_def l)
  show qd: "queued demo_busy = [1]"
    using demo_queue_wf(2) q by (simp add: queued_def demo_busy_def upt_rec numeral_eq_Suc)
  show "waiting demo_busy = [7, 8]" unfolding waiting_def l qd uop_at_def x by (simp add: demo_exec_def demo_sched_rob_def)
  show "\<not> flushed demo_busy 1" unfolding flushed_def x by (simp add: demo_exec_def demo_core_mem_def zero_uop_def)
qed

lemma demo_busy_issues:
  "\<exists>r s'. uop_schedule demo_mem_ops demo_sched_knobs (\<lambda>_. 0) 9 5 0 (begin_cycle 5 demo_busy) = Inr (True, r, s')"
  by (simp add: uop_schedule_def entry_uop_def begin_cycle_def clear_ports_def demo_busy_def demo_window_def demo_schedule_def
      schedule_start_def schedule_c_def may_issue_def simd_busy_def dep_pending_def check_srcs_def demo_sched_knobs_def demo_exec_knobs_def
      exec_def exec_compute_def demo_exec_def demo_core_mem_def Let_def zero_uop_def demo_sched_rob_def rob_at_def rob_c_def)
    (simp add: exec_def exec_compute_def use_port_def Let_def entry_uop_def rob_at_def set_uop_def on_mem_def upd_uop_def begin_exec_def
      port_available_def allocq_index_def is_fence_type_def get_latency_def set_done_def leave_sched_def sc_set_uop_def)

text \<open>The entry 0 executes, and the entry 1 is in the window or still in its queue.\<close>

theorem ooo_cycle_correct_witness:
  "\<exists>s' moved. ooo_run_a_cycle demo_mem_ops demo_sched_knobs (\<lambda>_. 0) 9 5 demo_busy = Inr s' \<and>
     executed 5 (sc_uops s' 7) \<and> live s' = map int moved \<and> [1] = moved @ contents (sc_alloc_q s' ! 0)"
proof -
  have run: "sc_schedule_running demo_busy" by (simp add: demo_busy_def demo_window_def demo_schedule_def schedule_start_def)
  have once: "distinct (waiting demo_busy)" unfolding demo_busy_inv(3) by simp
  obtain s' issued t moved where R: "ooo_run_a_cycle demo_mem_ops demo_sched_knobs (\<lambda>_. 0) 9 5 demo_busy = Inr s'"
    "live s' = filter (\<lambda>e. e \<notin> set issued) (live demo_busy) @
      map int (concat (map (\<lambda>q. filter (\<lambda>e. \<not> flushed demo_busy e) (moved q)) [0..<4]))"
    "\<forall>q < 4. contents (sc_alloc_q demo_busy ! q) = moved q @ contents (sc_alloc_q s' ! q)"
    "\<forall>e\<in>set issued. executed 5 (sc_uops s' (uop_at demo_busy (nat e)))"
    "try_issue demo_mem_ops demo_sched_knobs (\<lambda>_. 0) 9 5 (live demo_busy) 0 (begin_cycle 5 demo_busy) = Inr (issued, t)"
    using ooo_cycle_correct[OF demo_memory_contract demo_busy_inv(1) run once, of "\<lambda>_. 0" 9 5] by blast
  have i: "issued = [0]" using R(5) demo_busy_issues by (auto simp add: demo_busy_inv(2) split: if_splits)
  have "[0..<4] = [0, 1, 2, 3 :: nat]" by (simp add: upt_rec)
  have c: "contents (sc_alloc_q demo_busy ! q) = (if q = 0 then [1] else [])" if "q < 4" for q
    using that demo_queue_wf(2) by (cases q) (simp_all add: demo_busy_def contents_def stages_def pqueue_c_def)
  have m: "[1] = moved 0 @ contents (sc_alloc_q s' ! 0)" "moved 1 = []" "moved 2 = []" "moved 3 = []"
    using R(3) c[of 0] c[of 1] c[of 2] c[of 3] by simp_all
  then have "filter (\<lambda>e. \<not> flushed demo_busy e) (moved 0) = moved 0"
    using demo_busy_inv(4) by (cases "moved 0") auto
  with \<open>[0..<4] = [0, 1, 2, 3]\<close> have "live s' = map int (moved 0)"
    using R(2) m(2,3,4) i by (simp add: demo_busy_inv(2))
  moreover have "uop_at demo_busy (nat 0) = 7"
    using demo_busy_inv(3) by (simp add: waiting_def demo_busy_inv(2))
  ultimately show ?thesis using R(1,4) m(1) i by auto
qed

end
