(* ===== verification/MemOps.thy ===== *)
theory MemOps
  imports MemInv SchedCycle
begin

text \<open>
  The memory hierarchy as the memory system of the execution stage: the operations of \<open>memory_ops\<close> satisfy
  \<open>memory_contract\<close> in every state of a hierarchy whose cores have first-level caches, the constructor builds such a
  state, and a cycle of the out-of-order scheduler runs on it.
\<close>

section \<open>The invariant\<close>

text \<open>What the core side relies on of a first-level unit.\<close>

definition l1_ok :: "int \<Rightarrow> dcu \<Rightarrow> bool" where
  "l1_ok i d \<longleftrightarrow> du_level d = MEM_L1 \<and> du_id d = i \<and> \<not> du_disable d
     \<and> (\<exists>c. du_cache d = Some c \<and> cache_wf c \<and> \<not> c_cache_by_pass c)
     \<and> (\<exists>b<32. du_banks d = 2 ^ b \<and> length (du_port d) = 2 ^ b)
     \<and> (\<forall>p\<in>set (du_port d). 0 < po_num_read_ports p \<and> 0 < po_num_write_ports p \<and> \<not> po_writes_prevent_reads p)"

definition mem_ok :: "('n, 'p) mem_env \<Rightarrow> nat \<Rightarrow> ('n, 'p) memsys \<Rightarrow> bool" where
  "mem_ok e n m \<longleftrightarrow> mshr_ok m \<and> ms_num_core m = n \<and> length (caches MEM_L1 m) = n \<and> length (caches MEM_L2 m) = n
     \<and> (\<forall>i<n. l1_ok (int i) (dcu_at MEM_L1 i m))
     \<and> (KNOB_ENABLE_PHYSICAL_MAPPING (me_knobs e) \<longrightarrow> mmu_inv (mk_mmu (me_knobs e)) (ms_MMU m))"

text \<open>The configuration: GPUs of compute capability 2 apart, and every thread belongs to an application.\<close>

definition env_ok :: "('n, 'p) mem_env \<Rightarrow> bool" where
  "env_ok e \<longleftrightarrow> \<not> KNOB_COMPUTE_CAPABILITY_2 (me_knobs e)
     \<and> (KNOB_ENABLE_PHYSICAL_MAPPING (me_knobs e) \<longrightarrow> KNOB_FOOL_PAGE_TABLE (mk_mmu (me_knobs e)) \<or> (\<forall>c t. 0 \<le> me_appl e c t))"

definition mem_spec_of :: "('n, 'p) mem_env \<Rightarrow> nat \<Rightarrow> ('n, 'p) memsys mem_spec" where
  "mem_spec_of e n = \<lparr>sp_inv = mem_ok e n, sp_cores = n\<rparr>"

lemma mem_okD:
  assumes "mem_ok e n m"
  shows "mshr_ok m" "ms_num_core m = n" "length (caches MEM_L1 m) = n" "length (caches MEM_L2 m) = n"
    "i < n \<Longrightarrow> l1_ok (int i) (dcu_at MEM_L1 i m)"
    "KNOB_ENABLE_PHYSICAL_MAPPING (me_knobs e) \<Longrightarrow> mmu_inv (mk_mmu (me_knobs e)) (ms_MMU m)"
  using assms by (simp_all add: mem_ok_def)

section \<open>Steps of an access\<close>

text \<open>A step keeps the invariant and changes only what an access writes in a uop.\<close>

definition access_step :: "('n, 'p) mem_env \<Rightarrow> nat \<Rightarrow> ('n, 'p) memsys \<Rightarrow> ('n, 'p) memsys \<Rightarrow> bool" where
  "access_step e n m m' \<longleftrightarrow> mem_ok e n m' \<and> (\<forall>b. mem_view (ms_uops m' b) = mem_view (ms_uops m b))"

lemma access_step_refl: "mem_ok e n m \<Longrightarrow> access_step e n m m"
  by (simp add: access_step_def)

lemma access_step_trans: "access_step e n m m1 \<Longrightarrow> access_step e n m1 m2 \<Longrightarrow> access_step e n m m2"
  by (simp add: access_step_def)

lemma access_stepD: "access_step e n m m' \<Longrightarrow> mem_ok e n m'"
  by (simp add: access_step_def)

lemma mem_view_type_core:
  assumes "mem_view u = mem_view v"
  shows "u_mem_type u = u_mem_type v" "u_core_id u = u_core_id v"
  using assms[THEN arg_cong, of u_mem_type] assms[THEN arg_cong, of u_core_id] by (simp_all add: mem_view_def)

lemma access_step_uop:
  assumes "access_step e n m m'"
  shows "u_mem_type (ms_uops m' a) = u_mem_type (ms_uops m a)" "u_core_id (ms_uops m' a) = u_core_id (ms_uops m a)"
  using assms mem_view_type_core[of "ms_uops m' a" "ms_uops m a"] by (simp_all add: access_step_def)

lemma mem_ok_fields:
  assumes "mem_ok e n m" "mshr_ok m'" "ms_num_core m' = ms_num_core m" "\<And>lv. caches lv m' = caches lv m"
    "ms_MMU m' = (ms_MMU m)\<lparr>mm_uops := us\<rparr>"
  shows "mem_ok e n m'"
  using assms by (simp add: mem_ok_def dcu_at_def)

lemma access_step_put_uop:
  assumes "mem_ok e n m" "mem_view (f (ms_uops m a)) = mem_view (ms_uops m a)"
  shows "access_step e n m (put_uop a f m)"
proof -
  have "mshr_ok (put_uop a f m)" using mem_okD(1)[OF assms(1)] mshr_ok_cong[of "put_uop a f m" m] by simp
  then show ?thesis
    using assms mem_ok_fields[OF assms(1), of "put_uop a f m"] by (simp add: access_step_def) (simp add: put_uop_def Mmu.upd_uop_def)
qed

lemma access_step_train:
  assumes "mem_ok e n m"
  shows "access_step e n m (Memory.train e' c lv t x pc u h m)"
proof -
  have "mshr_ok (Memory.train e' c lv t x pc u h m)" using mem_okD(1)[OF assms] mshr_ok_cong[of "Memory.train e' c lv t x pc u h m" m] by (simp add: Memory.train_def)
  then show ?thesis
    using mem_ok_fields[OF assms, of "Memory.train e' c lv t x pc u h m" "ms_uops m"] by (simp add: access_step_def Memory.train_def)
qed

lemma access_step_unit:
  assumes "mem_ok e n m" "i < n" "l1_ok (int i) (f (dcu_at MEM_L1 i m))"
  shows "access_step e n m (upd_dcu MEM_L1 i f m)"
proof -
  have "mshr_ok (upd_dcu MEM_L1 i f m)" using mem_okD(1)[OF assms(1)] mshr_ok_cong[of "upd_dcu MEM_L1 i f m" m] by simp
  then show ?thesis
    using assms by (auto simp add: access_step_def mem_ok_def dcu_at_upd_dcu)
qed

lemma l1_ok_view: "l1_ok i (dcu_view d) = l1_ok i d"
  by (simp add: l1_ok_def dcu_view_def Let_def)

lemma access_step_rest:
  assumes "mem_ok e n m" "mshr_ok m'" "mem_rest m' = mem_rest m"
  shows "access_step e n m m'"
proof -
  note R = mem_restD[OF assms(3)]
  have "l1_ok (int i) (dcu_at MEM_L1 i m')" if i: "i < n" for i
  proof -
    have "i < length (caches MEM_L1 m)" using i mem_okD(3)[OF assms(1)] by simp
    then have "dcu_view (dcu_at MEM_L1 i m') = dcu_view (dcu_at MEM_L1 i m)"
      using R(8)[of MEM_L1] R(9)[of MEM_L1] unfolding dcu_at_def by (metis nth_map)
    then show ?thesis using mem_okD(5)[OF assms(1) i] l1_ok_view by metis
  qed
  then show ?thesis using assms R(1,2) R(9)[of MEM_L1] R(9)[of MEM_L2] by (simp add: access_step_def mem_ok_def)
qed

section \<open>The parts of an access\<close>

lemma core_unit:
  assumes "mem_ok e n m" "core_in (mem_spec_of e n) c"
  shows "find_dcu (Some MEM_L1) c m = Inr (MEM_L1, nat c)" "nat c < n"
  using assms by (auto simp add: find_dcu_def core_in_def mem_spec_of_def mem_ok_def check_def)

lemma new_mem_req_step:
  assumes "env_ok e" "mem_ok e n m" "core_in (mem_spec_of e n) (ra_core_id a)" "ra_type a \<noteq> MRT_WB"
  obtains ok m' where "new_mem_req e a m = Inr (ok, m')" "access_step e n m m'"
proof -
  have r: "0 \<le> ra_core_id a" "nat (ra_core_id a) < n" using assms(3) by (auto simp add: core_in_def mem_spec_of_def)
  have "\<not> gpu_store (me_knobs e) a" using assms(1) by (simp add: env_ok_def gpu_store_def)
  then obtain ok m' where "new_mem_req e a m = Inr (ok, m')" "entered a (nat (ra_core_id a)) m ok m'"
    using new_mem_req_ok[of m a e] mem_okD(1,2,4)[OF assms(2)] r assms(4) by auto
  then show ?thesis using that access_step_rest[OF assms(2)] by (simp add: entered_def requests_kept_def)
qed

lemma send_request_step:
  assumes "env_ok e" "mem_ok e n m" "core_in (mem_spec_of e n) (ra_core_id r)" "ra_type r \<noteq> MRT_WB"
  obtains l m' where "send_request e a r acc m = Inr (l, m')" "access_step e n m m'"
proof -
  obtain ok m1 where m1: "new_mem_req e r m = Inr (ok, m1)" "access_step e n m m1" using new_mem_req_step[OF assms] .
  let ?m' = "put_uop a (\<lambda>u. u\<lparr>u_state := OS_DCACHE_MEM_ACCESS_DENIED\<rparr>) m1"
  have "access_step e n m1 ?m'" by (rule access_step_put_uop[OF access_stepD[OF m1(2)]]) (simp add: mem_view_def)
  then have "access_step e n m ?m'" using access_step_trans[OF m1(2)] by blast
  with m1 show ?thesis by (cases ok) (auto simp add: send_request_def intro: that)
qed

lemma translate_total:
  assumes "mmu_inv k mm" "KNOB_FOOL_PAGE_TABLE k \<or> (\<forall>c t. 0 \<le> g c t)"
  obtains ok mm' where "translate k g a mm = Inr (ok, mm')" "mmu_inv k mm'" "\<And>b. mem_view (mm_uops mm' b) = mem_view (mm_uops mm b)"
proof (cases "u_translated (mm_uops mm a)")
  case True
  then show ?thesis using assms(1) that by (simp add: translate_def)
next
  case False
  let ?x = "u_vaddr (mm_uops mm a)"
  have "\<exists>pid. get_pid k g (mm_uops mm a) = Inr pid" using assms(2) by (auto simp add: get_pid_def Let_def)
  then obtain pid where pid: "get_pid k g (mm_uops mm a) = Inr pid" by blast
  have "\<exists>ok mm'. translate k g a mm = Inr (ok, mm') \<and> (\<forall>b. mem_view (mm_uops mm' b) = mem_view (mm_uops mm b))"
  proof (cases "tlb_lookup ?x pid (mm_TLB mm)")
    case True
    then obtain f t where "tlb_translate ?x pid (mm_TLB mm) = Inr (f, t)"
      using tlb_sound_translate[OF mmu_invD(3)[OF assms(1)]] by metis
    then show ?thesis using False pid True
      by (intro exI[of _ True]) (simp add: translate_def Let_def Mmu.upd_uop_def mem_view_def)
  next
    case miss: False
    then show ?thesis using False pid
      by (intro exI[of _ False]) (simp add: translate_def Let_def Mmu.upd_uop_def mem_view_def split: option.split)
  qed
  then obtain ok mm' where t: "translate k g a mm = Inr (ok, mm')" "\<And>b. mem_view (mm_uops mm' b) = mem_view (mm_uops mm b)" by blast
  with translate_inv(1)[OF assms(1) t(1)] that show ?thesis by blast
qed

lemma translate_uop_step:
  assumes "env_ok e" "mem_ok e n m"
  obtains ok m' where "translate_uop e a m = Inr (ok, m')" "access_step e n m m'"
proof (cases "KNOB_ENABLE_PHYSICAL_MAPPING (me_knobs e)")
  case True
  have "KNOB_FOOL_PAGE_TABLE (mk_mmu (me_knobs e)) \<or> (\<forall>c t. 0 \<le> me_appl e c t)" using assms(1) True by (simp add: env_ok_def)
  then obtain ok mm where t: "translate (mk_mmu (me_knobs e)) (me_appl e) a (ms_MMU m) = Inr (ok, mm)" "mmu_inv (mk_mmu (me_knobs e)) mm"
    "\<And>b. mem_view (mm_uops mm b) = mem_view (ms_uops m b)"
    using translate_total[OF mem_okD(6)[OF assms(2) True]] by blast
  have "mshr_ok (m\<lparr>ms_MMU := mm\<rparr>)" using mem_okD(1)[OF assms(2)] mshr_ok_cong[of "m\<lparr>ms_MMU := mm\<rparr>" m] by simp
  then have "access_step e n m (m\<lparr>ms_MMU := mm\<rparr>)" using assms(2) t(2,3) by (simp add: access_step_def mem_ok_def)
  then show ?thesis using that True t(1) by (simp add: translate_uop_def)
next
  case False
  have "access_step e n m (put_uop a (\<lambda>u. u\<lparr>u_paddr := u_vaddr u\<rparr>) m)"
    by (rule access_step_put_uop[OF assms(2)]) (simp add: mem_view_def)
  then show ?thesis using that False by (simp add: translate_uop_def)
qed

lemma unat_and_mask_less: "b < 64 \<Longrightarrow> unat (y AND mask b :: Addr) < 2 ^ b"
  by (simp add: take_bit_eq_mask[symmetric] unsigned_take_bit_eq)

lemma bank_id_less:
  assumes "l1_ok i d"
  shows "bank_id d x < length (du_port d)"
proof -
  obtain b where b: "b < 32" "du_banks d = 2 ^ b" "length (du_port d) = 2 ^ b" using assms by (auto simp add: l1_ok_def)
  have "unat (log2_int (of_nat (du_banks d))) = b" using log2_int_power[OF b(1)] b(2) by simp
  moreover have "unat (y AND mask b :: Addr) < 2 ^ b" for y using b(1)
    by (simp add: unat_and_mask_less)
  ultimately show ?thesis using b(3) by (simp add: bank_id_def BANK_def N_BIT_MASK_mask)
qed

lemma l1_port_ok:
  assumes "l1_ok i d" "k < length (du_port d)"
  obtains ok p' where "(if w then get_write_port c (du_port d ! k) else get_read_port c (du_port d ! k)) = Inr (ok, p')"
    "l1_ok i (d\<lparr>du_port := (du_port d)[k := p']\<rparr>)"
proof -
  have p: "0 < po_num_read_ports (du_port d ! k)" "0 < po_num_write_ports (du_port d ! k)" "\<not> po_writes_prevent_reads (du_port d ! k)"
    using assms by (auto simp add: l1_ok_def)
  have ex: "\<exists>ok p'. (if w then get_write_port c (du_port d ! k) else get_read_port c (du_port d ! k)) = Inr (ok, p') \<and>
     0 < po_num_read_ports p' \<and> 0 < po_num_write_ports p' \<and> \<not> po_writes_prevent_reads p'"
    using p by (auto simp add: get_write_port_def get_read_port_def)
  then obtain ok p' where P: "(if w then get_write_port c (du_port d ! k) else get_read_port c (du_port d ! k)) = Inr (ok, p')"
    "0 < po_num_read_ports p'" "0 < po_num_write_ports p'" "\<not> po_writes_prevent_reads p'" by blast
  have "set ((du_port d)[k := p']) \<subseteq> insert p' (set (du_port d))" by (rule set_update_subset_insert)
  then have "l1_ok i (d\<lparr>du_port := (du_port d)[k := p']\<rparr>)" using assms(1) P(2-4) unfolding l1_ok_def by auto
  with P(1) show ?thesis by (rule that)
qed

lemma access_port_step:
  assumes "mem_ok e n m" "i < n"
  obtains ok m' where "access_port e i a m = Inr (ok, m')" "access_step e n m m'"
proof -
  let ?d = "dcu_at MEM_L1 i m" and ?u = "ms_uops m a"
  note d = mem_okD(5)[OF assms]
  let ?b = "bank_id ?d (u_paddr ?u)" and ?w = "IsStore (u_mem_type ?u)"
  show ?thesis
  proof (cases "KNOB_DCACHE_INFINITE_PORT (me_knobs e)")
    case True
    then show ?thesis using that access_step_refl[OF assms(1)] by (simp add: access_port_def)
  next
    case False
    obtain ok p' where P: "(if ?w then get_write_port (du_cycle ?d - 1) (du_port ?d ! ?b) else get_read_port (du_cycle ?d - 1) (du_port ?d ! ?b)) = Inr (ok, p')"
      "l1_ok (int i) (?d\<lparr>du_port := (du_port ?d)[?b := p']\<rparr>)" using l1_port_ok[OF d bank_id_less[OF d]] by metis
    let ?m1 = "upd_dcu MEM_L1 i (\<lambda>d. d\<lparr>du_port := (du_port d)[?b := p']\<rparr>) m"
    have s1: "access_step e n m ?m1" by (rule access_step_unit[OF assms]) (rule P(2))
    have "get_port ?w MEM_L1 i ?b (du_cycle ?d - 1) m = Inr (ok, ?m1)"
      using P(1) bank_id_less[OF d] by (simp add: get_port_def arr_get_def check_def)
    then have e: "access_port e i a m = Inr (ok, if ok then ?m1
        else put_uop a (\<lambda>u. u\<lparr>u_dcache_bank_id := int ?b + (if ?w then 64 else 0), u_state := OS_DCACHE_PORT_UNAVAILABLE\<rparr>) ?m1)"
      using False d by (simp add: access_port_def Let_def l1_ok_def)
    have "access_step e n ?m1 (put_uop a (\<lambda>u. u\<lparr>u_dcache_bank_id := int ?b + (if ?w then 64 else 0), u_state := OS_DCACHE_PORT_UNAVAILABLE\<rparr>) ?m1)"
      by (rule access_step_put_uop[OF access_stepD[OF s1]]) (simp add: mem_view_def)
    then show ?thesis using that[OF e] s1 access_step_trans[OF s1] by (cases ok) simp_all
  qed
qed

lemma dcu_lookup_step:
  assumes "mem_ok e n m" "i < n"
  obtains la line m' where "dcu_lookup e MEM_L1 i x upd m = Inr (la, line, m')" "access_step e n m m'"
proof -
  note d = mem_okD(5)[OF assms]
  obtain c where c: "du_cache (dcu_at MEM_L1 i m) = Some c" "cache_wf c" "\<not> c_cache_by_pass c" using d by (auto simp add: l1_ok_def)
  obtain r c' where A: "access_cache (me_cycle e) x upd c = Inr (Some (base_cache_line c x), r, c')" "cache_wf c'"
    using access_cache_spec[OF c(2,3)] by metis
  have "\<not> c_cache_by_pass c'" using access_flags[OF A(1)] c(3) by simp
  then have "l1_ok (int i) ((dcu_at MEM_L1 i m)\<lparr>du_cache := Some c'\<rparr>)" using d A(2) by (simp add: l1_ok_def)
  then have "access_step e n m (set_cache MEM_L1 i c' m)" unfolding set_cache_def by (rule access_step_unit[OF assms])
  then show ?thesis using that A(1) c(1) by (simp add: dcu_lookup_def with_cache_def)
qed

text \<open>A write to the data of a line.\<close>

lemma data_update_wf:
  fixes c :: "dcache_data cache"
  assumes wf: "cache_wf c"
  shows "cache_wf (upd_line st w (\<lambda>l. l\<lparr>ce_data := g l\<rparr>) c)" (is "cache_wf ?c")
proof (cases "st < length (c_set c)")
  case True
  note C = same_configD[OF upd_line_config[OF True, of w "\<lambda>l. l\<lparr>ce_data := g l\<rparr>"]]
  have self: "(x :: dcache_data cache_set)\<lparr>cs_entry := cs_entry x\<rparr> = x" for x by (cases x) simp
  have same: "?c = c" if "\<not> w < length (cs_entry (c_set c ! st))"
    using that by (simp add: upd_line_def list_update_beyond self)
  have "ce_valid (line_at ?c s v) = ce_valid (line_at c s v)" "ce_tag (line_at ?c s v) = ce_tag (line_at c s v)"
    "ce_base (line_at ?c s v) = ce_base (line_at c s v)" for s v
    using upd_line_at[OF True, of w "\<lambda>l. l\<lparr>ce_data := g l\<rparr>" s v] same
    by (cases "w < length (cs_entry (c_set c ! st))"; simp split: if_splits)+
  then show ?thesis using wf unfolding cache_wf_def lines_wf_def C by (simp add: C(5))
next
  case False
  have "(x :: dcache_data cache)\<lparr>c_set := c_set x\<rparr> = x" for x by (cases x) simp
  then show ?thesis using wf False by (simp add: upd_line_def list_update_beyond)
qed

lemma upd_data_step:
  assumes "mem_ok e n m" "i < n"
  shows "access_step e n m (upd_data MEM_L1 i p f m)"
  unfolding upd_data_def
proof (rule access_step_unit[OF assms])
  note d = mem_okD(5)[OF assms]
  then show "l1_ok (int i) ((dcu_at MEM_L1 i m)\<lparr>du_cache := map_option (upd_line (fst p) (snd p) (\<lambda>l. l\<lparr>ce_data := f (ce_data l)\<rparr>))
      (du_cache (dcu_at MEM_L1 i m))\<rparr>)"
    using data_update_wf by (auto simp add: l1_ok_def by_pass_unchanged)
qed

section \<open>The access\<close>

lemma access_step_if: "access_step e n m x \<Longrightarrow> access_step e n m y \<Longrightarrow> access_step e n m (if b then x else y)"
  by simp

lemma access_hit_step:
  assumes "env_ok e" "mem_ok e n m" "i < n"
  obtains l m' where "access_hit e i a x line m = Inr (l, m')" "access_step e n m m'"
proof -
  let ?u = "ms_uops m a"
  let ?m1 = "put_uop a (\<lambda>u. u\<lparr>u_uop_info := (u_uop_info u)\<lparr>ui_dcmiss := False\<rparr>\<rparr>) m"
  let ?m2 = "case line of Some p \<Rightarrow> if IsStore (u_mem_type ?u) then upd_data MEM_L1 i p (set_dirty True) ?m1 else ?m1 | None \<Rightarrow> ?m1"
  let ?m3 = "Memory.train e (u_core_id ?u) MEM_L1 (u_thread_id ?u) x (u_pc ?u) (Some a) True ?m2"
  have s1: "access_step e n m ?m1" by (rule access_step_put_uop[OF assms(2)]) (simp add: mem_view_def)
  have s2: "access_step e n ?m1 ?m2"
    using upd_data_step[OF access_stepD[OF s1] assms(3)] access_step_refl[OF access_stepD[OF s1]] by (simp split: option.split)
  have s3: "access_step e n ?m2 ?m3" by (rule access_step_train[OF access_stepD[OF s2]])
  have "access_hit e i a x line m = Inr (du_latency (dcu_at MEM_L1 i m), ?m3)"
    using assms(1) by (simp add: access_hit_def Let_def env_ok_def)
  then show ?thesis using that access_step_trans[OF s1 access_step_trans[OF s2 s3]] by blast
qed

lemma data_access_req_type: "data_access t \<Longrightarrow> \<exists>rt. req_type_of t = Some rt \<and> rt \<noteq> MRT_WB"
  by (auto simp add: data_access_def req_type_of_def)

lemma access_miss_step:
  assumes "env_ok e" "mem_ok e n m" "i < n" "data_access (u_mem_type (ms_uops m a))"
  obtains l m' where "access_miss e i a x m = Inr (l, m')" "access_step e n m m'"
proof -
  let ?u = "ms_uops m a" and ?d = "dcu_at MEM_L1 i m" and ?k = "me_knobs e"
  obtain rt where rt: "req_type_of (u_mem_type ?u) = Some rt" "rt \<noteq> MRT_WB" using data_access_req_type[OF assms(4)] by blast
  have id: "du_id ?d = int i" using mem_okD(5)[OF assms(2,3)] by (simp add: l1_ok_def)
  define m1 where "m1 = (if du_disable ?d then m else Memory.train e (u_core_id ?u) MEM_L1 (u_thread_id ?u) x (u_pc ?u) (Some a) False m)"
  define m2 where "m2 = put_uop a (\<lambda>u. u\<lparr>u_uop_info := (u_uop_info u)\<lparr>ui_dcmiss := True\<rparr>\<rparr>) m1"
  define m3 where "m3 = (if du_id ?d = KNOB_HETERO_GPU_CORE_DISABLE ?k then put_uop a (\<lambda>u. u\<lparr>u_bypass_llc := True\<rparr>) m2 else m2)"
  define m4 where "m4 = (if du_id ?d = KNOB_HETERO_GPU_CORE_DISABLE ?k + 1 then put_uop a (\<lambda>u. u\<lparr>u_skip_llc := True\<rparr>) m3 else m3)"
  have s1: "access_step e n m m1" unfolding m1_def by (rule access_step_if[OF access_step_refl[OF assms(2)] access_step_train[OF assms(2)]])
  have s2: "access_step e n m m2" unfolding m2_def
    by (rule access_step_trans[OF s1 access_step_put_uop[OF access_stepD[OF s1]]]) (simp add: mem_view_def)
  have s3': "access_step e n m (put_uop a (\<lambda>u. u\<lparr>u_bypass_llc := True\<rparr>) m2)"
    by (rule access_step_trans[OF s2 access_step_put_uop[OF access_stepD[OF s2]]]) (simp add: mem_view_def)
  have s3: "access_step e n m m3" unfolding m3_def by (rule access_step_if[OF s3' s2])
  have s4': "access_step e n m (put_uop a (\<lambda>u. u\<lparr>u_skip_llc := True\<rparr>) m3)"
    by (rule access_step_trans[OF s3 access_step_put_uop[OF access_stepD[OF s3]]]) (simp add: mem_view_def)
  have s4: "access_step e n m m4" unfolding m4_def by (rule access_step_if[OF s4' s3])
  define f where "f = (if du_acc_sim ?d \<and> KNOB_COMPUTE_CAPABILITY_2 ?k \<and> (u_mem_type ?u = MEM_ST \<or> u_mem_type ?u = MEM_ST_LM) then DCACHE_WRITE_ACK else DCACHE_FILL)"
  define r where "r = request_of ?d a ?u rt (req_span ?k ?d ?u x) False (u_mem_type ?u = MEM_ST_GM \<or> u_mem_type ?u = MEM_ST_LM) f"
  have rc: "core_in (mem_spec_of e n) (ra_core_id r)" using id assms(3) by (simp add: r_def request_of_def core_in_def mem_spec_of_def)
  have rw: "ra_type r \<noteq> MRT_WB" using rt(2) by (simp add: r_def request_of_def)
  obtain l m' where "send_request e a r (if rt = MRT_DPRF then du_latency ?d else - 1) m4 = Inr (l, m')" "access_step e n m4 m'"
    by (rule send_request_step[OF assms(1) access_stepD[OF s4] rc rw])
  moreover have "access_miss e i a x m = send_request e a r (if rt = MRT_DPRF then du_latency ?d else - 1) m4"
    unfolding access_miss_def Let_def rt(1) m1_def m2_def m3_def m4_def f_def r_def by simp
  ultimately show ?thesis using that access_step_trans[OF s4] by metis
qed

lemma dcu_access_step:
  assumes "env_ok e" "mem_ok e n m" "i < n" "data_access (u_mem_type (ms_uops m a))"
  obtains l m' where "dcu_access e i a m = Inr (l, m')" "access_step e n m m'"
proof -
  have lv: "du_level (dcu_at MEM_L1 i m) = MEM_L1" using mem_okD(5)[OF assms(2,3)] by (simp add: l1_ok_def)
  obtain ok m1 where m1: "translate_uop e a m = Inr (ok, m1)" "access_step e n m m1" using translate_uop_step[OF assms(1,2)] .
  show ?thesis
  proof (cases ok)
    case False
    then show ?thesis using that m1 lv by (simp add: dcu_access_def)
  next
    case True
    let ?m2 = "put_uop a (\<lambda>u. u\<lparr>u_state := OS_DCACHE_BEGIN\<rparr>) m1"
    let ?d = "dcu_at MEM_L1 i ?m2" and ?u = "ms_uops ?m2 a"
    have s2: "access_step e n m ?m2"
      by (rule access_step_trans[OF m1(2) access_step_put_uop[OF access_stepD[OF m1(2)]]]) (simp add: mem_view_def)
    obtain g m3 where m3: "access_port e i a ?m2 = Inr (g, m3)" "access_step e n ?m2 m3" using access_port_step[OF access_stepD[OF s2] assms(3)] .
    have s3: "access_step e n m m3" using access_step_trans[OF s2 m3(2)] .
    let ?rest = "if \<not> g then Inr (0, m3)
        else if mk_PERFECT_DCACHE (me_knobs e) then access_hit e i a (base_addr ?d (u_paddr ?u)) None m3
        else if du_disable ?d then access_miss e i a (base_addr ?d (u_paddr ?u)) m3
        else res_bind (dcu_lookup e MEM_L1 i (u_paddr ?u) True m3) (\<lambda>(la, line, m4).
          let line_addr = (case la of Some x \<Rightarrow> x | None \<Rightarrow> base_addr ?d (u_paddr ?u))
          in if line \<noteq> None then access_hit e i a line_addr line m4 else access_miss e i a line_addr m4)"
    have e: "dcu_access e i a m = ?rest" using lv m1(1) True m3(1) by (simp add: dcu_access_def Let_def)
    have hit: "\<exists>l m'. access_hit e i a x ln m4 = Inr (l, m') \<and> access_step e n m m'" if "access_step e n m m4" for x ln m4
      using access_hit_step[OF assms(1) access_stepD[OF that] assms(3)] access_step_trans[OF that] by metis
    have miss: "\<exists>l m'. access_miss e i a x m4 = Inr (l, m') \<and> access_step e n m m'" if "access_step e n m m4" for x m4
      using access_miss_step[OF assms(1) access_stepD[OF that] assms(3)] access_step_uop(1)[OF that] assms(4) access_step_trans[OF that] by metis
    obtain la line m4 where m4: "dcu_lookup e MEM_L1 i (u_paddr ?u) True m3 = Inr (la, line, m4)" "access_step e n m3 m4"
      using dcu_lookup_step[OF access_stepD[OF s3] assms(3)] .
    have s4: "access_step e n m m4" using access_step_trans[OF s3 m4(2)] .
    let ?x = "base_addr ?d (u_paddr ?u)"
    have "dcu_access e i a m = Inr (0, m3) \<or> dcu_access e i a m = access_hit e i a ?x None m3 \<or> dcu_access e i a m = access_miss e i a ?x m3
        \<or> (\<exists>y. dcu_access e i a m = access_hit e i a y line m4 \<or> dcu_access e i a m = access_miss e i a y m4)"
      unfolding e m4(1) by (simp add: Let_def) blast
    then have "\<exists>l m'. dcu_access e i a m = Inr (l, m') \<and> access_step e n m m'"
      using hit[OF s3, of ?x None] miss[OF s3, of ?x] hit[OF s4, of _ line] miss[OF s4] s3 by metis
    then show ?thesis using that by blast
  qed
qed

section \<open>The contract\<close>

lemma set_uops_ok [simp]: "mem_ok e n (set_uops us m) = mem_ok e n m" "ms_uops (set_uops us m) = us"
proof -
  have "mshr_ok (set_uops us m) = mshr_ok m" by (rule mshr_ok_cong) (simp_all add: set_uops_def)
  then show "mem_ok e n (set_uops us m) = mem_ok e n m" by (simp add: mem_ok_def) (simp add: set_uops_def)
qed (simp add: set_uops_def)

lemma mem_access_uop_ok:
  assumes "env_ok e" "mem_ok e n m" "core_in (mem_spec_of e n) (u_core_id (ms_uops m a))" "data_access (u_mem_type (ms_uops m a))"
  obtains l m' where "mem_access_uop e a m = Inr (l, m')" "access_step e n m m'"
  using dcu_access_step[OF assms(1,2) core_unit(2)[OF assms(2,3)] assms(4)] core_unit(1)[OF assms(2,3)] that
  by (auto simp add: mem_access_uop_def)

lemma memory_ops_contract_ok:
  assumes "env_ok e"
  shows "memory_contract (memory_ops e) (mem_spec_of e n)"
  unfolding memory_contract_def
proof (intro conjI allI impI)
  fix a and us :: "addr \<Rightarrow> uop" and m
  assume m: "sp_inv (mem_spec_of e n) m" and c: "core_in (mem_spec_of e n) (u_core_id (us a))" "data_access (u_mem_type (us a))"
  have "mem_ok e n (set_uops us m)" using m by (simp add: mem_spec_of_def)
  with c obtain l m' where "mem_access_uop e a (set_uops us m) = Inr (l, m')" "access_step e n (set_uops us m) m'"
    using mem_access_uop_ok[OF assms, of n "set_uops us m" a] by auto
  then show "\<exists>l us' m'. mo_access (memory_ops e) a us m = Inr (l, us', m') \<and> sp_inv (mem_spec_of e n) m' \<and> (\<forall>b. mem_view (us' b) = mem_view (us b))"
    by (simp add: memory_ops_def mem_spec_of_def access_step_def)
next
  fix r :: req_args and us :: "addr \<Rightarrow> uop" and m
  assume m: "sp_inv (mem_spec_of e n) m" and c: "core_in (mem_spec_of e n) (ra_core_id r)" "ra_type r \<noteq> MRT_WB"
  have "mem_ok e n (set_uops us m)" using m by (simp add: mem_spec_of_def)
  then obtain ok m' where "new_mem_req e r (set_uops us m) = Inr (ok, m')" "access_step e n (set_uops us m) m'"
    using new_mem_req_step[OF assms _ c] by blast
  then show "\<exists>ok m'. mo_new_mem_req (memory_ops e) r us m = Inr (ok, m') \<and> sp_inv (mem_spec_of e n) m'"
    by (simp add: memory_ops_def mem_spec_of_def access_step_def)
next
  fix c x m
  assume m: "sp_inv (mem_spec_of e n) m" and c: "core_in (mem_spec_of e n) c"
  have ok: "mem_ok e n m" using m by (simp add: mem_spec_of_def)
  obtain la line m' where "dcu_lookup e MEM_L1 (nat c) x False m = Inr (la, line, m')" "access_step e n m m'"
    using dcu_lookup_step[OF ok core_unit(2)[OF ok c]] .
  then show "\<exists>hit m'. mo_access_cache (memory_ops e) c x m = Inr (hit, m') \<and> sp_inv (mem_spec_of e n) m'"
    using core_unit(1)[OF ok c] by (simp add: memory_ops_def mem_access_cache_def mem_spec_of_def access_step_def)
qed

section \<open>Construction\<close>

lemma concat_entry_blocks: "concat (map (\<lambda>i. [i * k..<i * k + k]) [0..<n]) = [0..<n * k]"
proof (induction n)
  case (Suc n)
  then show ?case using upt_add_eq_append[of 0 "n * k" k] by (simp add: add.commute)
qed simp

lemma length_core_types: "length (core_types c) = cfg_num_large c + cfg_num_medium c + cfg_num_small c"
  by (simp add: core_types_def)

lemma interleave_factors_ok:
  "cfg_default_interleaving c \<or> cfg_diff_granularity c \<or> cfg_same_granularity c \<Longrightarrow> \<exists>f. interleave_factors c = Inr f"
  by (auto simp add: interleave_factors_def Let_def)

text \<open>What the configuration of the first level has to give.\<close>

definition l1_config_ok :: "cache_cfg \<Rightarrow> bool" where
  "l1_config_ok c \<longleftrightarrow> 0 < cf_num_set c \<and> cf_num_set c < 2 ^ 31 \<and> 0 < cf_assoc c \<and> (\<exists>b<32. cf_banks c = 2 ^ b)
     \<and> 0 < cf_read_ports c \<and> 0 < cf_write_ports c"

text \<open>The caches that \<^verbatim>\<open>init\<close> builds.\<close>

definition new_unit_cache ::
  "dcache_data cache_entry \<Rightarrow> int \<Rightarrow> int \<Rightarrow> cache_cfg \<Rightarrow> nat \<Rightarrow> nat \<Rightarrow> dcu \<Rightarrow> dcache_data cache" where
  "new_unit_cache junk jc jg c tiles il d = (if du_level d = MEM_LLC then llc_of junk jc jg c tiles il d else dcache_of junk jc jg d)"

lemma wired_l1_ok:
  assumes "l1_config_ok (cfg t MEM_L1)" "pol \<notin> {no_cache, igpu_network}"
  shows "l1_ok (int i) (wire (new_unit_cache junk jc jg cl tiles il) pol (dcu_c cfg (int i) t MEM_L1 noc jd))"
proof -
  let ?c = "cfg t MEM_L1"
  have "cache_wf (cache_c junk jc jg (cf_num_set ?c) (cf_assoc ?c) (cf_line_size ?c) 40 (cf_banks ?c) False (int i) CACHE_DL1 False 1 0)"
    using assms(1) by (intro cache_c_wf) (simp_all add: l1_config_ok_def)
  then show ?thesis using assms
    by (auto simp add: l1_ok_def wire_def wiring_def dcu_c_def dcu_init_def Let_def new_unit_cache_def dcache_of_def l1_config_ok_def port_c_def)
       (auto simp add: cache_c_def Let_def)
qed

lemma memory_c_mshr_ok:
  assumes "memory_c c pol jd junk = Inr m"
  shows "mshr_ok m"
proof -
  have m: "ms_mshr m = replicate (length (core_types c)) []" "ms_num_core m = length (core_types c)"
    "ms_mshr_free_list m = map (\<lambda>i. [i * cfg_mshr_size c..<i * cfg_mshr_size c + cfg_mshr_size c]) [0..<length (core_types c)]"
    "ms_reqs m = (\<lambda>r. if r < length (core_types c) * cfg_mshr_size c then (mem_req_init (ms_reqs junk r))\<lparr>mr_merge := []\<rparr> else ms_reqs junk r)"
    using assms by (auto simp add: memory_c_def Let_def res_simps split: prod.splits)
  have "concat (replicate k []) = []" for k by (induction k) simp_all
  then have "pending m = {}" "concat (ms_mshr m) = []" using m(1) by (simp_all add: pending_def del: set_concat)
  moreover have "concat (ms_mshr_free_list m) = [0..<length (core_types c) * cfg_mshr_size c]" unfolding m(3) by (rule concat_entry_blocks)
  ultimately show ?thesis using m by (simp add: mshr_ok_def idle_def del: set_concat)
qed

lemma memory_new_mem_ok:
  assumes "cfg_default_interleaving c \<or> cfg_diff_granularity c \<or> cfg_same_granularity c"
    and "pol \<notin> {no_cache, igpu_network}" and "pol \<in> {llc_coupled_network, l2_coupled_local} \<Longrightarrow> length (core_types c) = cfg_num_llc c"
    and "\<And>t. t \<in> set (core_types c) \<Longrightarrow> l1_config_ok (cfg_units c t MEM_L1)"
    and "KNOB_ENABLE_PHYSICAL_MAPPING (me_knobs e) \<Longrightarrow> mmu_inv (mk_mmu (me_knobs e)) (ms_MMU junk)"
  obtains m where "memory_new c pol (new_unit_cache jl jc jg cl tiles il) jd junk = Inr m" "mem_ok e (length (core_types c)) m"
    "ms_MMU m = ms_MMU junk"
proof -
  let ?n = "length (core_types c)" and ?nc = "new_unit_cache jl jc jg cl tiles il"
  obtain f where f: "interleave_factors c = Inr f" using interleave_factors_ok[OF assms(1)] by blast
  obtain m0 where m0: "memory_c c pol jd junk = Inr m0" using f by (cases f) (simp add: memory_c_def Let_def)
  have F: "ms_num_core m0 = ?n" "ms_num_llc m0 = cfg_num_llc c" "ms_MMU m0 = ms_MMU junk"
    "ms_l1_cache m0 = map (\<lambda>i. dcu_c (cfg_units c) (int i) (core_types c ! i) MEM_L1 (int i) jd) [0..<?n]" "length (ms_l2_cache m0) = ?n"
    using m0 f by (cases f; auto simp add: memory_c_def Let_def)+
  define m where "m = m0\<lparr>ms_l1_cache := map (wire ?nc pol) (ms_l1_cache m0), ms_l2_cache := map (wire ?nc pol) (ms_l2_cache m0),
    ms_l3_cache := map (wire ?nc pol) (ms_l3_cache m0), ms_llc_cache := map (wire ?nc pol) (ms_llc_cache m0)\<rparr>"
  have "memory_new c pol ?nc jd junk = Inr m"
    using m0 F(1,2) assms(2,3) by (auto simp add: memory_new_def m_def Let_def check_def)
  moreover have "mem_ok e ?n m"
  proof -
    have "mshr_ok m" using memory_c_mshr_ok[OF m0] mshr_ok_cong[of m m0] by (simp add: m_def)
    moreover have "l1_ok (int i) (dcu_at MEM_L1 i m)" if i: "i < ?n" for i
      using wired_l1_ok[of "cfg_units c" "core_types c ! i" pol i] assms(4)[OF nth_mem[OF i]] assms(2) i F(4) by (simp add: m_def dcu_at_def caches_def)
    ultimately show ?thesis using F assms(5) by (simp add: mem_ok_def m_def caches_def)
  qed
  moreover have "ms_MMU m = ms_MMU junk" using F(3) by (simp add: m_def)
  ultimately show ?thesis by (rule that)
qed

text \<open>C36. In every topology with first-level caches the constructor and the \<^verbatim>\<open>init\<close> of the units build a hierarchy that satisfies the invariant
  of the core side: every first-level unit has a well-formed cache and a port per bank, the MSHRs of the cores are
  empty and their free lists are disjoint and hold the configured number of entries.\<close>

theorem memory_new_establishes_inv:
  assumes "cfg_default_interleaving c \<or> cfg_diff_granularity c \<or> cfg_same_granularity c"
    and "pol \<notin> {no_cache, igpu_network}" and "pol \<in> {llc_coupled_network, l2_coupled_local} \<longrightarrow> length (core_types c) = cfg_num_llc c"
    and "\<forall>t\<in>set (core_types c). l1_config_ok (cfg_units c t MEM_L1)"
    and "KNOB_ENABLE_PHYSICAL_MAPPING (me_knobs e) \<longrightarrow> mmu_inv (mk_mmu (me_knobs e)) (ms_MMU junk)"
  shows "\<exists>m. memory_new c pol (new_unit_cache jl jc jg cl tiles il) jd junk = Inr m \<and> mem_ok e (length (core_types c)) m"
  using memory_new_mem_ok[of c pol e junk jl jc jg cl tiles il jd] assms by blast

text \<open>C8. The model of \<^verbatim>\<open>memory.cc\<close> meets the contract that the execution stage has with its memory system: for every core of the
  hierarchy and every uop that accesses the data caches, \<^verbatim>\<open>access\<close>, \<^verbatim>\<open>new_mem_req\<close> and \<^verbatim>\<open>access_cache\<close> return without a failing assertion
  or an access outside an array, keep the invariant of the hierarchy, and change only the fields of uops that a memory access writes.\<close>

theorem memory_ops_meet_contract:
  assumes "env_ok e"
  shows "memory_contract (memory_ops e) (mem_spec_of e n)"
  using memory_ops_contract_ok[OF assms] .

text \<open>C3. A cycle of the out-of-order scheduler on the modelled memory hierarchy completes, and keeps both the invariant of the scheduler and
  the invariant of the hierarchy: the composition of the scheduler, the execution stage, the reorder buffer, the branch predictors, the MMU, the caches,
  the ports and the MSHRs.\<close>

theorem ooo_cycle_on_memory:
  fixes s :: "('n, 'p) memsys schedule"
  assumes "env_ok e" and "sched_inv (mem_spec_of e n) k s" and "sc_schedule_running s"
  shows "\<exists>s'. ooo_run_a_cycle (memory_ops e) k appl gc cycle s = Inr s' \<and> sched_inv (mem_spec_of e n) k s'
     \<and> mem_ok e n (cm_memory (ex_mem (sc_exec s')))"
proof -
  obtain s' where s': "ooo_run_a_cycle (memory_ops e) k appl gc cycle s = Inr s'" "sched_inv (mem_spec_of e n) k s'"
    using ooo_cycle_ok[OF memory_ops_contract_ok[OF assms(1)] assms(2,3)] by blast
  have "exec_inv (mem_spec_of e n) (sk_exec k) (sc_exec s')" using s'(2) by (simp add: sched_inv_def sched_base_def)
  then have "mem_ok e n (cm_memory (ex_mem (sc_exec s')))" using exec_invD(1) by (fastforce simp add: mem_spec_of_def)
  with s' show ?thesis by blast
qed

section \<open>An example\<close>

definition demo_cfg :: cache_cfg where
  "demo_cfg = \<lparr>cf_num_set = 4, cf_assoc = 2, cf_line_size = 64, cf_banks = 1, cf_latency = 3, cf_core_type = ''x86'',
     cf_read_ports = 1, cf_write_ports = 1\<rparr>"

definition demo_mem_config :: mem_config where
  "demo_mem_config = \<lparr>cfg_units = (\<lambda>_ _. demo_cfg), cfg_num_large = 2, cfg_num_medium = 0, cfg_num_small = 0, cfg_num_l3 = 1, cfg_num_llc = 1,
     cfg_num_mc = 1, cfg_mshr_size = 2, cfg_page_size = 4096, cfg_default_interleaving = True, cfg_diff_granularity = False,
     cfg_same_granularity = False, cfg_rowbuffer_size = 2048, cfg_num_banks = 4\<rparr>"

definition demo_new :: "(unit, unit) memsys res" where
  "demo_new = memory_new demo_mem_config llc_decoupled_network (new_unit_cache demo_data_line 0 0 demo_cfg 1 0) (demo_unit MEM_L1 0) demo_mem"

lemma demo_config_ok:
  "cfg_default_interleaving demo_mem_config" "l1_config_ok (cfg_units demo_mem_config t lv)" "length (core_types demo_mem_config) = 2"
  "env_ok demo_env" "\<not> KNOB_ENABLE_PHYSICAL_MAPPING (me_knobs demo_env)"
proof -
  have "l1_config_ok demo_cfg" unfolding l1_config_ok_def by (auto simp add: demo_cfg_def intro!: exI[of _ 0])
  then show "l1_config_ok (cfg_units demo_mem_config t lv)" by (simp add: demo_mem_config_def)
qed (simp_all add: demo_mem_config_def core_types_def env_ok_def demo_env_def demo_mem_knobs_def)

lemma demo_new_ok:
  obtains m where "demo_new = Inr m" "mem_ok demo_env 2 m"
proof (rule memory_new_mem_ok[of demo_mem_config llc_decoupled_network demo_env demo_mem demo_data_line 0 0 demo_cfg 1 0 "demo_unit MEM_L1 0"])
qed (use demo_config_ok in \<open>simp_all add: demo_new_def\<close>)

theorem memory_new_establishes_inv_witness: "\<exists>m. demo_new = Inr m \<and> mem_ok demo_env 2 m"
  using memory_new_establishes_inv[of demo_mem_config llc_decoupled_network demo_env demo_mem demo_data_line 0 0 demo_cfg 1 0 "demo_unit MEM_L1 0"]
    demo_config_ok by (simp add: demo_new_def)

theorem memory_ops_meet_contract_witness:
  "memory_contract (memory_ops demo_env) (mem_spec_of demo_env 2) \<and> (\<exists>m. sp_inv (mem_spec_of demo_env 2) m)"
proof -
  obtain m where "mem_ok demo_env 2 m" by (rule demo_new_ok)
  then show ?thesis using memory_ops_meet_contract[OF demo_config_ok(4), of 2] by (auto simp add: mem_spec_of_def)
qed

theorem ooo_cycle_on_memory_witness:
  "\<exists>m s'. demo_new = Inr m \<and> ooo_run_a_cycle (memory_ops demo_env) demo_sched_knobs (\<lambda>_. 0) 9 5 (demo_schedule m) = Inr s' \<and>
     mem_ok demo_env 2 (cm_memory (ex_mem (sc_exec s')))"
proof -
  obtain m where m: "demo_new = Inr m" "mem_ok demo_env 2 m" by (rule demo_new_ok)
  have i: "sched_inv (mem_spec_of demo_env 2) demo_sched_knobs (demo_schedule m)"
    using m(2) by (intro demo_schedule_inv) (simp_all add: mem_spec_of_def)
  have "sc_schedule_running (demo_schedule m)" by (simp add: demo_schedule_def schedule_start_def)
  from ooo_cycle_on_memory[OF demo_config_ok(4) i this, of "\<lambda>_. 0" 9 5] m(1) show ?thesis by blast
qed

end
