(* ===== verification/Dram.thy ===== *)
theory Dram
  imports MemReq Utils ListSort
begin

text \<open>
  The memory controllers of \<^verbatim>\<open>src/src/dram_ctrl.h\<close> and \<^verbatim>\<open>src/src/dram_ctrl.cc\<close>: the FCFS
  controller \<^verbatim>\<open>dram_ctrl_c\<close>, its FR-FCFS variant \<^verbatim>\<open>dc_frfcfs_c\<close> and the fixed-latency
  \<^verbatim>\<open>dram_simple_ctrl_c\<close>. The arrays with one element per bank (\<^verbatim>\<open>m_buffer\<close>,
  \<^verbatim>\<open>m_buffer_free_list\<close>, \<^verbatim>\<open>m_current_list\<close>, \<^verbatim>\<open>m_current_rid\<close>, \<^verbatim>\<open>m_data_ready\<close>,
  \<^verbatim>\<open>m_data_avail\<close>, \<^verbatim>\<open>m_bank_ready\<close>, \<^verbatim>\<open>m_bank_timestamp\<close>) are one list of records, and so
  are those with one element per channel. The buffer entries and the requests are in stores;
  \<^verbatim>\<open>MEMORY->free_req\<close> appends to the log \<open>dc_freed\<close>. The network is an argument.
\<close>

section \<open>Data\<close>

datatype DRAM_STATE = DRAM_INIT | DRAM_CMD | DRAM_CMD_WAIT | DRAM_DATA | DRAM_DATA_WAIT

record drb_entry =
  de_id :: int
  de_state :: DRAM_STATE
  de_addr :: Addr
  de_bid :: uns64
  de_rid :: uns64
  de_cid :: uns64
  de_core_id :: int
  de_thread_id :: int
  de_appl_id :: int
  de_read :: bool
  de_req :: ptr
  de_priority :: int
  de_size :: int
  de_timestamp :: Counter
  de_scheduled :: Counter
  de_invisible :: bool

definition drb_reset :: "drb_entry \<Rightarrow> drb_entry" where
  "drb_reset e = e
     \<lparr>de_id := - 1, de_state := DRAM_INIT, de_addr := 0, de_bid := - 1, de_rid := - 1, de_cid := - 1,
      de_core_id := - 1, de_thread_id := - 1, de_appl_id := - 1, de_read := False, de_req := None,
      de_priority := 0, de_size := 0, de_timestamp := 0, de_scheduled := 0, de_invisible := False\<rparr>"

definition dram_req_priority :: "Mem_Req_Type \<Rightarrow> int" where
  "dram_req_priority t = 0"

text \<open>\<open>n\<close> is \<^verbatim>\<open>m_unique_id\<close>. The assertion that the unsigned row id is not negative holds by
  its type.\<close>

definition drb_set :: "int \<Rightarrow> addr \<Rightarrow> mem_req \<Rightarrow> uns64 \<Rightarrow> uns64 \<Rightarrow> uns64 \<Rightarrow> drb_entry \<Rightarrow> drb_entry" where
  "drb_set n a r bid rid cid e = e
     \<lparr>de_id := n, de_addr := mr_addr r, de_bid := bid, de_rid := rid, de_cid := cid, de_core_id := mr_core_id r,
      de_thread_id := mr_thread_id r, de_appl_id := mr_appl_id r, de_req := Some a, de_size := sint (mr_size r),
      de_priority := dram_req_priority (mr_type r), de_read := (mr_type r \<noteq> MRT_WB)\<rparr>"

record bank =
  bk_buffer :: "addr list"
  bk_free :: "addr list"
  bk_current :: ptr
  bk_current_rid :: uns64
  bk_data_ready :: Counter
  bk_data_avail :: Counter
  bk_bank_ready :: Counter
  bk_timestamp :: Counter

record channel =
  ch_byte_avail :: int
  ch_dbus_ready :: Counter

record dram_knobs =
  KNOB_DRAM_NUM_BANKS :: nat
  KNOB_DRAM_NUM_CHANNEL :: nat
  KNOB_DRAM_BUS_WIDTH :: int
  KNOB_DRAM_BUFFER_SIZE :: nat
  KNOB_DRAM_ROWBUFFER_SIZE :: uns32
  KNOB_DRAM_NUM_MC :: int
  KNOB_LLC_LINE_SIZE :: uns32
  KNOB_NUM_LLC :: uns32
  KNOB_LLC_NUM_SET :: uns32
  KNOB_DEFAULT_INTERLEAVING :: bool
  KNOB_NEW_INTERLEAVING_DIFF_GRANULARITY :: bool
  KNOB_NEW_INTERLEAVING_SAME_GRANULARITY :: bool
  KNOB_DRAM_BANK_XOR_INDEX :: bool
  KNOB_DRAM_MERGE_REQUESTS :: bool
  KNOB_DRAM_PRECHARGE :: Counter
  KNOB_DRAM_ACTIVATE :: Counter
  KNOB_DRAM_COLUMN :: Counter
  KNOB_DRAM_ADDITIONAL_LATENCY :: Counter
  KNOB_MEE_BYPASS :: bool
  KNOB_ENABLE_NOC_VC_PARTITION :: bool

record dram =
  dc_banks :: "bank list"
  dc_channels :: "channel list"
  dc_num_bank :: nat
  dc_num_channel :: nat
  dc_num_bank_per_channel :: nat
  dc_bus_width :: int
  dc_cid_mask :: uns64
  dc_bid_mask :: uns64
  dc_bid_shift :: nat
  dc_rid_shift :: nat
  dc_bid_xor_shift :: nat
  dc_num_completed :: int
  dc_starvation_cycle :: int
  dc_total_req :: int
  dc_cycle :: Counter
  dc_output :: "addr list"
  dc_tmp_output :: "addr list option"
  dc_ents :: "addr \<Rightarrow> drb_entry"
  dc_reqs :: "addr \<Rightarrow> mem_req"
  dc_unique_id :: int
  dc_freed :: "addr list"

definition upd_bank :: "nat \<Rightarrow> (bank \<Rightarrow> bank) \<Rightarrow> dram \<Rightarrow> dram" where
  "upd_bank i f d = d\<lparr>dc_banks := (dc_banks d)[i := f (dc_banks d ! i)]\<rparr>"

definition upd_ent :: "addr \<Rightarrow> (drb_entry \<Rightarrow> drb_entry) \<Rightarrow> dram \<Rightarrow> dram" where
  "upd_ent e f d = d\<lparr>dc_ents := (dc_ents d)(e := f (dc_ents d e))\<rparr>"

definition upd_req :: "addr \<Rightarrow> (mem_req \<Rightarrow> mem_req) \<Rightarrow> dram \<Rightarrow> dram" where
  "upd_req r f d = d\<lparr>dc_reqs := (dc_reqs d)(r := f (dc_reqs d r))\<rparr>"

section \<open>Construction and address parsing\<close>

definition lg :: "uns32 \<Rightarrow> nat" where
  "lg n = unat (log2_int n)"

text \<open>The masks and shifts: column mask, bank mask, bank shift, row shift, XOR shift. With neither
  interleaving knob the constructor leaves them as they are (\<open>junk\<close>).\<close>

definition address_fields :: "dram_knobs \<Rightarrow> uns64 \<times> uns64 \<times> nat \<times> nat \<times> nat \<Rightarrow> uns64 \<times> uns64 \<times> nat \<times> nat \<times> nat" where
  "address_fields k junk =
     (let row = lg (KNOB_DRAM_ROWBUFFER_SIZE k); banks = lg (of_nat (KNOB_DRAM_NUM_BANKS k)); mc = KNOB_DRAM_NUM_MC k in
      if KNOB_DEFAULT_INTERLEAVING k
      then (N_BIT_MASK row, N_BIT_MASK banks, row, banks, lg (KNOB_LLC_LINE_SIZE k) + lg 512)
      else if KNOB_NEW_INTERLEAVING_DIFF_GRANULARITY k \<or> KNOB_NEW_INTERLEAVING_SAME_GRANULARITY k
      then (N_BIT_MASK row, N_BIT_MASK banks,
            (if mc AND (mc - 1) = 0 then row + lg (of_int mc) else row), banks,
            lg (KNOB_LLC_LINE_SIZE k) + lg (KNOB_NUM_LLC k) + lg (KNOB_LLC_NUM_SET k) + 5)
      else junk)"

text \<open>\<open>js\<close> and \<open>jn\<close> are the indeterminate values of \<^verbatim>\<open>m_starvation_cycle\<close> and
  \<^verbatim>\<open>m_num_completed_in_last_cycle\<close>, which the constructor does not set.\<close>

definition dram_ctrl_c ::
  "dram_knobs \<Rightarrow> uns64 \<times> uns64 \<times> nat \<times> nat \<times> nat \<Rightarrow> int \<Rightarrow> int \<Rightarrow> drb_entry \<Rightarrow> (addr \<Rightarrow> mem_req) \<Rightarrow> dram" where
  "dram_ctrl_c k junk js jn je reqs =
     (let n = KNOB_DRAM_NUM_BANKS k; sz = KNOB_DRAM_BUFFER_SIZE k;
          (cid_mask, bid_mask, bid_shift, rid_shift, bid_xor_shift) = address_fields k junk in
      \<lparr>dc_banks = map (\<lambda>ii. \<lparr>bk_buffer = [], bk_free = [ii * sz..<(ii + 1) * sz], bk_current = None, bk_current_rid = ULLONG_MAX,
                              bk_data_ready = ULLONG_MAX, bk_data_avail = ULLONG_MAX, bk_bank_ready = ULLONG_MAX,
                              bk_timestamp = 0\<rparr>) [0..<n],
       dc_channels = replicate (KNOB_DRAM_NUM_CHANNEL k) \<lparr>ch_byte_avail = KNOB_DRAM_BUS_WIDTH k, ch_dbus_ready = 0\<rparr>,
       dc_num_bank = n, dc_num_channel = KNOB_DRAM_NUM_CHANNEL k, dc_num_bank_per_channel = n div KNOB_DRAM_NUM_CHANNEL k,
       dc_bus_width = KNOB_DRAM_BUS_WIDTH k, dc_cid_mask = cid_mask, dc_bid_mask = bid_mask, dc_bid_shift = bid_shift,
       dc_rid_shift = rid_shift, dc_bid_xor_shift = bid_xor_shift, dc_num_completed = jn, dc_starvation_cycle = js,
       dc_total_req = 0, dc_cycle = 0, dc_output = [],
       dc_tmp_output = (if KNOB_DRAM_ADDITIONAL_LATENCY k \<noteq> 0 \<or> \<not> KNOB_MEE_BYPASS k then Some [] else None),
       dc_ents = (\<lambda>_. drb_reset je), dc_reqs = reqs, dc_unique_id = 0, dc_freed = []\<rparr>)"

definition parse_addr :: "dram_knobs \<Rightarrow> Addr \<Rightarrow> dram \<Rightarrow> Addr \<times> Addr \<times> Addr" where
  "parse_addr k a d =
     (let mc = KNOB_DRAM_NUM_MC k;
          bid_xor = drop_bit (dc_bid_xor_shift d) a AND dc_bid_mask d;
          cid = a AND dc_cid_mask d;
          a1 = (if mc AND (mc - 1) = 0 then drop_bit (dc_bid_shift d) a else drop_bit (dc_bid_shift d) a div of_int mc);
          bid = a1 AND dc_bid_mask d;
          rid = drop_bit (dc_rid_shift d) a1
      in (if KNOB_DRAM_BANK_XOR_INDEX k then bid XOR bid_xor else bid, rid, cid))"

section \<open>Insertion\<close>

definition req_of :: "dram \<Rightarrow> addr \<Rightarrow> addr res" where
  "req_of d e = (case de_req (dc_ents d e) of None \<Rightarrow> Inl NullPointer | Some r \<Rightarrow> Inr r)"

fun prefetch_entries :: "dram \<Rightarrow> addr list \<Rightarrow> addr list res" where
  "prefetch_entries d [] = Inr []"
| "prefetch_entries d (e # es) =
     res_bind (req_of d e) (\<lambda>r.
     res_bind (prefetch_entries d es) (\<lambda>done_list.
     Inr (if mr_type (dc_reqs d r) = MRT_DPRF then e # done_list else done_list)))"

definition flush_one :: "nat \<Rightarrow> addr \<Rightarrow> dram \<Rightarrow> dram res" where
  "flush_one bid e d =
     res_bind (req_of d e) (\<lambda>r.
     Inr (upd_bank bid (\<lambda>b. b\<lparr>bk_free := bk_free b @ [e], bk_buffer := removeAll e (bk_buffer b)\<rparr>)
            (d\<lparr>dc_freed := dc_freed d @ [r], dc_total_req := dc_total_req d - 1\<rparr>)))"

definition flush_prefetch :: "nat \<Rightarrow> dram \<Rightarrow> dram res" where
  "flush_prefetch bid d =
     res_bind (prefetch_entries d (bk_buffer (dc_banks d ! bid))) (\<lambda>done_list. fold_res (flush_one bid) done_list d)"

definition insert_req_in_drb :: "addr \<Rightarrow> uns64 \<Rightarrow> uns64 \<Rightarrow> uns64 \<Rightarrow> dram \<Rightarrow> dram res" where
  "insert_req_in_drb r bid rid cid d =
     res_bind (arr_get (dc_banks d) (unat bid)) (\<lambda>b.
     case bk_free b of
       [] \<Rightarrow> Inl EmptyAccess
     | e # es \<Rightarrow>
         Inr (upd_bank (unat bid) (\<lambda>b. b\<lparr>bk_free := es, bk_buffer := bk_buffer b @ [e]\<rparr>)
               (upd_ent e (\<lambda>x. (drb_set (dc_unique_id d) r (dc_reqs d r) bid rid cid x)\<lparr>de_timestamp := dc_cycle d\<rparr>)
                 (d\<lparr>dc_unique_id := dc_unique_id d + 1\<rparr>))))"

definition insert_new_req :: "dram_knobs \<Rightarrow> addr \<Rightarrow> dram \<Rightarrow> (bool \<times> dram) res" where
  "insert_new_req k r d =
     (let (bid, rid, cid) = parse_addr k (mr_addr (dc_reqs d r)) d in
      res_bind (arr_get (dc_banks d) (unat bid)) (\<lambda>b.
      res_bind (if bk_free b = [] then flush_prefetch (unat bid) d else Inr d) (\<lambda>d1.
      if bk_free (dc_banks d1 ! unat bid) = [] then Inr (False, d1)
      else res_bind (insert_req_in_drb r bid rid cid d1) (\<lambda>d2.
           Inr (True, upd_req r (\<lambda>q. q\<lparr>mr_state := MEM_DRAM_START\<rparr>) (d2\<lparr>dc_total_req := dc_total_req d2 + 1\<rparr>))))))"

section \<open>Bank activity\<close>

text \<open>A completed request: a write-back is freed, any other goes to an output buffer.\<close>

definition respond :: "dram_knobs \<Rightarrow> addr \<Rightarrow> dram \<Rightarrow> dram res" where
  "respond k e d =
     res_bind (req_of d e) (\<lambda>r.
     if mr_type (dc_reqs d r) = MRT_WB then Inr (d\<lparr>dc_freed := dc_freed d @ [r]\<rparr>)
     else Inr (upd_req r (\<lambda>q. q\<lparr>mr_state := MEM_DRAM_DONE\<rparr>)
       (case dc_tmp_output d of
          Some t \<Rightarrow> (upd_req r (\<lambda>q. q\<lparr>mr_rdy_cycle := dc_cycle d + KNOB_DRAM_ADDITIONAL_LATENCY k\<rparr>) d)
                      \<lparr>dc_tmp_output := Some (t @ [r])\<rparr>
        | None \<Rightarrow> d\<lparr>dc_output := dc_output d @ [r]\<rparr>)))"

text \<open>A merged request. The number of completed requests is set to the (truncated) cycle.\<close>

definition merge_one :: "dram_knobs \<Rightarrow> Addr \<Rightarrow> addr \<Rightarrow> dram \<Rightarrow> dram res" where
  "merge_one k a e d =
     (if de_addr (dc_ents d e) = a
      then res_bind (respond k e d) (\<lambda>d1. Inr (d1\<lparr>dc_num_completed := sint (ucast (dc_cycle d1) :: uns32)\<rparr>))
      else Inr d)"

definition release_merged :: "nat \<Rightarrow> addr \<Rightarrow> dram \<Rightarrow> dram" where
  "release_merged ii e d =
     upd_bank ii (\<lambda>b. b\<lparr>bk_free := bk_free b @ [e], bk_buffer := removeAll e (bk_buffer b)\<rparr>)
       ((upd_ent e drb_reset d)\<lparr>dc_total_req := dc_total_req d - 1\<rparr>)"

definition merge_requests :: "dram_knobs \<Rightarrow> nat \<Rightarrow> addr \<Rightarrow> dram \<Rightarrow> dram res" where
  "merge_requests k ii c d =
     (let a = de_addr (dc_ents d c); buffer = bk_buffer (dc_banks d ! ii);
          temp_list = filter (\<lambda>e. de_addr (dc_ents d e) = a) buffer in
      res_bind (fold_res (merge_one k a) buffer d) (\<lambda>d1. Inr (fold (release_merged ii) temp_list d1)))"

definition complete_current :: "dram_knobs \<Rightarrow> nat \<Rightarrow> addr \<Rightarrow> dram \<Rightarrow> dram res" where
  "complete_current k ii c d =
     res_bind (respond k c d) (\<lambda>d1.
     Inr (upd_bank ii (\<lambda>b. b\<lparr>bk_free := bk_free b @ [c], bk_current := None, bk_data_ready := ULLONG_MAX\<rparr>)
           ((upd_ent c drb_reset d1)\<lparr>dc_num_completed := dc_num_completed d1 + 1, dc_total_req := dc_total_req d1 - 1\<rparr>)))"

definition complete_bank :: "dram_knobs \<Rightarrow> nat \<Rightarrow> dram \<Rightarrow> dram res" where
  "complete_bank k ii d =
     res_bind (arr_get (dc_banks d) ii) (\<lambda>b.
     case bk_current b of
       None \<Rightarrow> Inr d
     | Some c \<Rightarrow>
         if bk_data_ready b \<le> dc_cycle d
         then check (de_state (dc_ents d c) = DRAM_DATA_WAIT) AssertFailed
              (res_bind (if KNOB_DRAM_MERGE_REQUESTS k then merge_requests k ii c d else Inr d) (complete_current k ii c))
         else Inr d)"

definition bank_schedule_complete :: "dram_knobs \<Rightarrow> dram \<Rightarrow> dram res" where
  "bank_schedule_complete k d = fold_res (complete_bank k) [0..<dc_num_bank d] (d\<lparr>dc_num_completed := 0\<rparr>)"

section \<open>The scheduling policies\<close>

datatype policy = FCFS | FRFCFS

text \<open>The open row id goes through an \<^verbatim>\<open>int\<close>.\<close>

definition int_rid :: "uns64 \<Rightarrow> uns64" where
  "int_rid rid = scast (ucast rid :: uns32)"

definition sort_func :: "dram \<Rightarrow> addr \<Rightarrow> addr \<Rightarrow> bool" where
  "sort_func d a b =
     (let ea = dc_ents d a; eb = dc_ents d b;
          current_rid = int_rid (bk_current_rid (dc_banks d ! unat (de_bid ea)));
          pa = (mr_type (dc_reqs d (the (de_req ea))) = MRT_DPRF); pb = (mr_type (dc_reqs d (the (de_req eb))) = MRT_DPRF)
      in if \<not> pa \<and> pb then True
         else if pa \<and> \<not> pb then False
         else if de_rid ea = current_rid \<and> de_rid eb \<noteq> current_rid then True
         else if de_rid ea \<noteq> current_rid \<and> de_rid eb = current_rid then False
         else de_timestamp ea < de_timestamp eb)"

definition schedule_fcfs :: "nat \<Rightarrow> dram \<Rightarrow> (addr \<times> dram) res" where
  "schedule_fcfs ii d =
     (let buffer = bk_buffer (dc_banks d ! ii) in check (buffer \<noteq> []) AssertFailed (Inr (hd buffer, d)))"

text \<open>The sort dereferences every entry's request and reads the open row of its bank.\<close>

definition schedule_frfcfs :: "nat \<Rightarrow> dram \<Rightarrow> (addr \<times> dram) res" where
  "schedule_frfcfs ii d =
     (let buffer = bk_buffer (dc_banks d ! ii) in
      check (list_all (\<lambda>e. unat (de_bid (dc_ents d e)) < length (dc_banks d)) buffer) OutOfBounds
      (check (list_all (\<lambda>e. de_req (dc_ents d e) \<noteq> None) buffer) NullPointer
      (check (buffer \<noteq> []) EmptyAccess
      (let sorted_buffer = list_sort (sort_func d) buffer
       in Inr (hd sorted_buffer, upd_bank ii (\<lambda>b. b\<lparr>bk_buffer := sorted_buffer\<rparr>) d)))))"

text \<open>The virtual call.\<close>

definition schedule :: "policy \<Rightarrow> nat \<Rightarrow> dram \<Rightarrow> (addr \<times> dram) res" where
  "schedule pol = (case pol of FCFS \<Rightarrow> schedule_fcfs | FRFCFS \<Rightarrow> schedule_frfcfs)"

definition schedule_bank :: "policy \<Rightarrow> nat \<Rightarrow> dram \<Rightarrow> dram res" where
  "schedule_bank pol ii d =
     res_bind (arr_get (dc_banks d) ii) (\<lambda>b.
     if bk_buffer b = [] \<and> bk_current b = None then Inr d
     else case bk_current b of
       None \<Rightarrow>
         res_bind (schedule pol ii d) (\<lambda>(e, d1).
         Inr (upd_bank ii (\<lambda>b. b\<lparr>bk_current := Some e, bk_buffer := removeAll e (bk_buffer b),
                                 bk_bank_ready := ULLONG_MAX, bk_timestamp := dc_cycle d1\<rparr>)
               (upd_ent e (\<lambda>x. x\<lparr>de_state := DRAM_CMD, de_scheduled := dc_cycle d1\<rparr>) d1)))
     | Some c \<Rightarrow>
         if bk_bank_ready b \<le> dc_cycle d \<and> de_state (dc_ents d c) = DRAM_CMD_WAIT
         then Inr (upd_bank ii (\<lambda>b. b\<lparr>bk_bank_ready := ULLONG_MAX, bk_timestamp := dc_cycle d\<rparr>)
                    (upd_ent c (\<lambda>x. x\<lparr>de_state := DRAM_CMD\<rparr>) d))
         else Inr d)"

definition bank_schedule_new :: "policy \<Rightarrow> dram \<Rightarrow> dram res" where
  "bank_schedule_new pol d = fold_res (schedule_bank pol) [0..<dc_num_bank d] d"

definition bank_schedule :: "policy \<Rightarrow> dram_knobs \<Rightarrow> dram \<Rightarrow> dram res" where
  "bank_schedule pol k d = res_bind (bank_schedule_complete k d) (bank_schedule_new pol)"

section \<open>Channel activity\<close>

text \<open>The search for the oldest bank that satisfies \<open>P\<close>.\<close>

fun oldest_bank :: "(bank \<Rightarrow> addr \<Rightarrow> bool) \<Rightarrow> nat list \<Rightarrow> dram \<Rightarrow> Counter \<Rightarrow> nat option \<Rightarrow> nat option res" where
  "oldest_bank P [] d oldest bank = Inr bank"
| "oldest_bank P (jj # jjs) d oldest bank =
     res_bind (arr_get (dc_banks d) jj) (\<lambda>b.
     case bk_current b of
       None \<Rightarrow> oldest_bank P jjs d oldest bank
     | Some c \<Rightarrow> if P b c \<and> bk_timestamp b < oldest then oldest_bank P jjs d (bk_timestamp b) (Some jj)
                 else oldest_bank P jjs d oldest bank)"

definition channel_banks :: "nat \<Rightarrow> dram \<Rightarrow> nat list" where
  "channel_banks ii d = [ii * dc_num_bank_per_channel d..<(ii + 1) * dc_num_bank_per_channel d]"

text \<open>The next command of a bank: activate when no row is open, column access when the open row is the
  request's, precharge otherwise.\<close>

definition issue_command :: "dram_knobs \<Rightarrow> nat \<Rightarrow> addr \<Rightarrow> dram \<Rightarrow> dram" where
  "issue_command k bank c d =
     (let b = dc_banks d ! bank in
      if bk_current_rid b = ULLONG_MAX
      then upd_bank bank (\<lambda>b. b\<lparr>bk_current_rid := de_rid (dc_ents d c),
                               bk_bank_ready := dc_cycle d + KNOB_DRAM_ACTIVATE k, bk_data_avail := ULLONG_MAX\<rparr>)
             (upd_ent c (\<lambda>x. x\<lparr>de_state := DRAM_CMD_WAIT\<rparr>) d)
      else if de_rid (dc_ents d c) = bk_current_rid b
      then upd_bank bank (\<lambda>b. b\<lparr>bk_bank_ready := dc_cycle d + KNOB_DRAM_COLUMN k,
                               bk_data_avail := dc_cycle d + KNOB_DRAM_COLUMN k\<rparr>)
             (upd_ent c (\<lambda>x. x\<lparr>de_state := DRAM_DATA\<rparr>) d)
      else upd_bank bank (\<lambda>b. b\<lparr>bk_current_rid := ULLONG_MAX,
                               bk_bank_ready := dc_cycle d + KNOB_DRAM_PRECHARGE k, bk_data_avail := ULLONG_MAX\<rparr>)
             (upd_ent c (\<lambda>x. x\<lparr>de_state := DRAM_CMD_WAIT\<rparr>) d))"

definition wants_command :: "dram \<Rightarrow> bank \<Rightarrow> addr \<Rightarrow> bool" where
  "wants_command d b c \<longleftrightarrow> de_state (dc_ents d c) = DRAM_CMD"

definition channel_cmd :: "dram_knobs \<Rightarrow> nat \<Rightarrow> dram \<Rightarrow> dram res" where
  "channel_cmd k ii d =
     res_bind (oldest_bank (wants_command d) (channel_banks ii d) d ULLONG_MAX None) (\<lambda>bank.
     case bank of
       None \<Rightarrow> Inr d
     | Some j \<Rightarrow>
         (case bk_current (dc_banks d ! j) of
            None \<Rightarrow> Inl NullPointer
          | Some c \<Rightarrow>
              check (de_state (dc_ents d c) = DRAM_CMD) AssertFailed
              (res_bind (req_of d c) (\<lambda>r.
               Inr (issue_command k j c (upd_req r (\<lambda>q. q\<lparr>mr_state := MEM_DRAM_CMD\<rparr>) d))))))"

definition channel_schedule_cmd :: "dram_knobs \<Rightarrow> dram \<Rightarrow> dram res" where
  "channel_schedule_cmd k d = fold_res (channel_cmd k) [0..<dc_num_channel d] d"

definition avail_data_bus :: "nat \<Rightarrow> dram \<Rightarrow> bool res" where
  "avail_data_bus channel_id d = res_bind (arr_get (dc_channels d) channel_id) (\<lambda>c. Inr (ch_dbus_ready c \<le> dc_cycle d))"

definition acquire_data_bus :: "nat \<Rightarrow> int \<Rightarrow> dram \<Rightarrow> (Counter \<times> dram) res" where
  "acquire_data_bus channel_id req_size d =
     res_bind (arr_get (dc_channels d) channel_id) (\<lambda>c.
     let (latency, left) =
           (if req_size < ch_byte_avail c then (dc_cycle d, ch_byte_avail c - req_size)
            else (dc_cycle d + of_int ((req_size - ch_byte_avail c) div dc_bus_width d) + 1,
                  dc_bus_width d - (req_size - ch_byte_avail c) mod dc_bus_width d))
     in Inr (latency, d\<lparr>dc_channels := (dc_channels d)[channel_id := \<lparr>ch_byte_avail = left, ch_dbus_ready = latency\<rparr>]\<rparr>))"

definition has_data :: "dram \<Rightarrow> bank \<Rightarrow> addr \<Rightarrow> bool" where
  "has_data d b c \<longleftrightarrow> de_state (dc_ents d c) = DRAM_DATA \<and> bk_data_avail b \<le> dc_cycle d"

text \<open>The \<^verbatim>\<open>while\<close> loop over the data bus of a channel, with fuel.\<close>

fun data_loop :: "nat \<Rightarrow> nat \<Rightarrow> dram \<Rightarrow> dram res" where
  "data_loop 0 ii d = Inl Diverges"
| "data_loop (Suc n) ii d =
     res_bind (avail_data_bus ii d) (\<lambda>free.
     if \<not> free then Inr d
     else res_bind (oldest_bank (has_data d) (channel_banks ii d) d ULLONG_MAX None) (\<lambda>bank.
       case bank of
         None \<Rightarrow> Inr d
       | Some j \<Rightarrow>
           (case bk_current (dc_banks d ! j) of
              None \<Rightarrow> Inl NullPointer
            | Some c \<Rightarrow>
                res_bind (req_of d c) (\<lambda>r.
                check (de_state (dc_ents d c) = DRAM_DATA) AssertFailed
                (res_bind (acquire_data_bus ii (de_size (dc_ents d c)) (upd_req r (\<lambda>q. q\<lparr>mr_state := MEM_DRAM_DATA\<rparr>) d))
                  (\<lambda>(latency, d1).
                   data_loop n ii
                     (upd_bank j (\<lambda>b. b\<lparr>bk_data_ready := latency, bk_data_avail := ULLONG_MAX\<rparr>)
                       (upd_ent c (\<lambda>x. x\<lparr>de_state := DRAM_DATA_WAIT\<rparr>) d1))))))))"

definition channel_schedule_data :: "dram \<Rightarrow> dram res" where
  "channel_schedule_data d = fold_res (\<lambda>ii d. data_loop (dc_num_bank_per_channel d + 1) ii d) [0..<dc_num_channel d] d"

definition channel_schedule :: "dram_knobs \<Rightarrow> dram \<Rightarrow> dram res" where
  "channel_schedule k d = res_bind (channel_schedule_cmd k d) channel_schedule_data"

section \<open>The network side and the cycle\<close>

text \<open>The network: \<^verbatim>\<open>send\<close>, \<^verbatim>\<open>receive\<close> and \<^verbatim>\<open>receive_pop\<close> for this controller.\<close>

record 'n noc =
  noc_send :: "addr \<Rightarrow> mem_req \<Rightarrow> 'n \<Rightarrow> bool \<times> 'n"
  noc_receive :: "'n \<Rightarrow> ptr"
  noc_pop :: "'n \<Rightarrow> 'n"

text \<open>The packets at the front that are due move to the output buffer.\<close>

definition delay_packet :: "dram \<Rightarrow> dram" where
  "delay_packet d =
     (case dc_tmp_output d of
        None \<Rightarrow> d
      | Some t \<Rightarrow>
          let temp_list = takeWhile (\<lambda>r. mr_rdy_cycle (dc_reqs d r) \<le> dc_cycle d) t
          in d\<lparr>dc_output := dc_output d @ temp_list, dc_tmp_output := Some (fold removeAll temp_list t)\<rparr>)"

text \<open>One pass over the output buffer; \<open>allowed\<close> and \<open>checked\<close> are the arrays
  \<^verbatim>\<open>req_type_allowed\<close> and \<^verbatim>\<open>req_type_checked\<close>, indexed by \<^verbatim>\<open>m_acc\<close>.\<close>

fun send_pass ::
  "'n noc \<Rightarrow> (bool \<Rightarrow> bool) \<Rightarrow> addr list \<Rightarrow> (bool \<Rightarrow> bool) \<times> addr list \<times> dram \<times> 'n \<Rightarrow> (bool \<Rightarrow> bool) \<times> addr list \<times> dram \<times> 'n" where
  "send_pass nw allowed [] (checked, temp, d, n) = (checked, temp, d, n)"
| "send_pass nw allowed (r # rs) (checked, temp, d, n) =
     (let acc = mr_acc (dc_reqs d r) in
      if \<not> allowed acc then send_pass nw allowed rs (checked, temp, d, n)
      else let checked' = checked(acc := True);
               d1 = upd_req r (\<lambda>q. q\<lparr>mr_msg_type := NOC_FILL\<rparr>) d;
               (ok, n1) = noc_send nw r (dc_reqs d1 r) n
           in if \<not> ok then (checked', temp, d1, n1)
              else send_pass nw allowed rs (checked', temp @ [r], d1, n1))"

fun send_passes ::
  "'n noc \<Rightarrow> nat \<Rightarrow> (bool \<Rightarrow> bool) \<times> addr list \<times> dram \<times> 'n \<Rightarrow> (bool \<Rightarrow> bool) \<times> addr list \<times> dram \<times> 'n" where
  "send_passes nw 0 s = s"
| "send_passes nw (Suc i) (checked, temp, d, n) =
     (if checked False \<and> checked True then (checked, temp, d, n)
      else send_passes nw i (send_pass nw (\<lambda>t. \<not> checked t) (dc_output d) (checked, temp, d, n)))"

definition dram_send :: "dram_knobs \<Rightarrow> 'n noc \<Rightarrow> dram \<times> 'n \<Rightarrow> dram \<times> 'n" where
  "dram_send k nw = (\<lambda>(d, n).
     let (_, temp_list, d1, n1) =
           send_passes nw (if KNOB_ENABLE_NOC_VC_PARTITION k then 2 else 1) ((\<lambda>_. False), [], d, n)
     in (d1\<lparr>dc_output := fold removeAll temp_list (dc_output d1)\<rparr>, n1))"

definition dram_receive :: "dram_knobs \<Rightarrow> 'n noc \<Rightarrow> dram \<times> 'n \<Rightarrow> (dram \<times> 'n) res" where
  "dram_receive k nw = (\<lambda>(d, n).
     case noc_receive nw n of
       None \<Rightarrow> Inr (d, n)
     | Some r \<Rightarrow> res_bind (insert_new_req k r d) (\<lambda>(ok, d1). Inr (d1, if ok then noc_pop nw n else n)))"

definition progress_check :: "dram \<Rightarrow> dram res" where
  "progress_check d =
     (let s = (if dc_total_req d > 0 \<and> dc_num_completed d = 0 then dc_starvation_cycle d + 1 else 0)
      in check (\<not> s \<ge> 5000) AssertFailed (Inr (d\<lparr>dc_starvation_cycle := s\<rparr>)))"

definition dram_run_a_cycle :: "policy \<Rightarrow> dram_knobs \<Rightarrow> 'n noc \<Rightarrow> bool \<Rightarrow> dram \<times> 'n \<Rightarrow> (dram \<times> 'n) res" where
  "dram_run_a_cycle pol k nw pll_lock = (\<lambda>(d, n).
     if pll_lock then Inr (d\<lparr>dc_cycle := dc_cycle d + 1\<rparr>, n)
     else let (d1, n1) = dram_send k nw (d, n); d2 = delay_packet d1 in
       res_bind (channel_schedule k d2) (\<lambda>d3.
       res_bind (bank_schedule pol k d3) (\<lambda>d4.
       res_bind (dram_receive k nw (d4, n1)) (\<lambda>(d5, n2).
       res_bind (progress_check d5) (\<lambda>d6.
       Inr (d6\<lparr>dc_cycle := dc_cycle d6 + 1\<rparr>, n2))))))"

section \<open>The fixed-latency controller\<close>

record simple_dram =
  sd_latency :: Counter
  sd_output :: "addr list"
  sd_cycle :: Counter
  sd_reqs :: "addr \<Rightarrow> mem_req"

definition dram_simple_ctrl_c :: "dram_knobs \<Rightarrow> (addr \<Rightarrow> mem_req) \<Rightarrow> simple_dram" where
  "dram_simple_ctrl_c k reqs =
     \<lparr>sd_latency = KNOB_DRAM_ADDITIONAL_LATENCY k, sd_output = [], sd_cycle = 0, sd_reqs = reqs\<rparr>"

fun simple_send_loop :: "'n noc \<Rightarrow> addr list \<Rightarrow> addr list \<times> simple_dram \<times> 'n \<Rightarrow> addr list \<times> simple_dram \<times> 'n" where
  "simple_send_loop nw [] (temp, d, n) = (temp, d, n)"
| "simple_send_loop nw (r # rs) (temp, d, n) =
     (if mr_rdy_cycle (sd_reqs d r) > sd_cycle d then (temp, d, n)
      else let d1 = d\<lparr>sd_reqs := (sd_reqs d)(r := (sd_reqs d r)\<lparr>mr_msg_type := NOC_FILL\<rparr>)\<rparr>;
               (ok, n1) = noc_send nw r (sd_reqs d1 r) n
           in if \<not> ok then (temp, d1, n1) else simple_send_loop nw rs (temp @ [r], d1, n1))"

definition simple_send :: "'n noc \<Rightarrow> simple_dram \<times> 'n \<Rightarrow> simple_dram \<times> 'n" where
  "simple_send nw = (\<lambda>(d, n).
     let (temp_list, d1, n1) = simple_send_loop nw (sd_output d) ([], d, n)
     in (d1\<lparr>sd_output := fold removeAll temp_list (sd_output d1)\<rparr>, n1))"

definition simple_receive :: "'n noc \<Rightarrow> simple_dram \<times> 'n \<Rightarrow> simple_dram \<times> 'n" where
  "simple_receive nw = (\<lambda>(d, n).
     case noc_receive nw n of
       None \<Rightarrow> (d, n)
     | Some r \<Rightarrow> (d\<lparr>sd_reqs := (sd_reqs d)(r := (sd_reqs d r)\<lparr>mr_rdy_cycle := sd_cycle d + sd_latency d\<rparr>),
                    sd_output := sd_output d @ [r]\<rparr>, noc_pop nw n))"

definition simple_run_a_cycle :: "'n noc \<Rightarrow> bool \<Rightarrow> simple_dram \<times> 'n \<Rightarrow> simple_dram \<times> 'n" where
  "simple_run_a_cycle nw pll_lock = (\<lambda>(d, n).
     if pll_lock then (d\<lparr>sd_cycle := sd_cycle d + 1\<rparr>, n)
     else let (d1, n1) = simple_receive nw (simple_send nw (d, n)) in (d1\<lparr>sd_cycle := sd_cycle d1 + 1\<rparr>, n1))"

end
