(* ===== verification/DramInv.thy ===== *)
theory DramInv
  imports Dram
begin

text \<open>
  The invariant of the memory controller: every bank owns its entries, each of them is free, waiting or
  being served, the served entry is in the state its bank's timing fields say, and the count of pending
  requests is right; and the conservation of requests: what has been inserted is waiting, being served, in
  an output buffer or freed. Every operation changes one bank only, so the proofs go through
  \<open>local_step\<close>.
\<close>

section \<open>The invariant\<close>

definition busy :: "bank \<Rightarrow> addr list" where
  "busy b = bk_buffer b @ (case bk_current b of None \<Rightarrow> [] | Some c \<Rightarrow> [c])"

definition bank_entries :: "bank \<Rightarrow> addr list" where
  "bank_entries b = busy b @ bk_free b"

definition bank_reqs :: "(addr \<Rightarrow> drb_entry) \<Rightarrow> bank \<Rightarrow> addr multiset" where
  "bank_reqs ents b = mset (map (\<lambda>e. the (de_req (ents e))) (busy b))"

definition inflight :: "dram \<Rightarrow> addr multiset" where
  "inflight d = sum_list (map (bank_reqs (dc_ents d)) (dc_banks d))"

definition outgoing :: "dram \<Rightarrow> addr multiset" where
  "outgoing d = mset (dc_output d) + mset (case dc_tmp_output d of None \<Rightarrow> [] | Some t \<Rightarrow> t)"

definition live :: "dram \<Rightarrow> addr multiset" where
  "live d = inflight d + outgoing d"

definition accounted :: "dram \<Rightarrow> addr multiset" where
  "accounted d = live d + mset (dc_freed d)"

definition cur_ok :: "drb_entry \<Rightarrow> bank \<Rightarrow> bool" where
  "cur_ok e b \<longleftrightarrow> de_state e \<noteq> DRAM_INIT \<and> (de_state e \<noteq> DRAM_DATA_WAIT \<longrightarrow> bk_data_ready b = ULLONG_MAX) \<and>
     (de_state e \<in> {DRAM_DATA, DRAM_DATA_WAIT} \<longrightarrow> bk_current_rid b = de_rid e)"

definition bank_ok :: "(addr \<Rightarrow> drb_entry) \<Rightarrow> nat \<Rightarrow> bank \<Rightarrow> bool" where
  "bank_ok ents i b \<longleftrightarrow> (\<forall>e\<in>set (busy b). de_req (ents e) \<noteq> None \<and> unat (de_bid (ents e)) = i) \<and>
     (case bk_current b of None \<Rightarrow> bk_data_ready b = ULLONG_MAX | Some c \<Rightarrow> cur_ok (ents c) b)"

definition dram_inv :: "dram_knobs \<Rightarrow> dram \<Rightarrow> bool" where
  "dram_inv k d \<longleftrightarrow> length (dc_banks d) = dc_num_bank d \<and> length (dc_channels d) = dc_num_channel d \<and>
     dc_num_channel d * dc_num_bank_per_channel d \<le> dc_num_bank d \<and> 0 < dc_bus_width d \<and>
     (\<forall>i<dc_num_bank d. bank_ok (dc_ents d) i (dc_banks d ! i) \<and> length (bank_entries (dc_banks d ! i)) = KNOB_DRAM_BUFFER_SIZE k) \<and>
     distinct (concat (map bank_entries (dc_banks d))) \<and> dc_total_req d = int (size (inflight d)) \<and>
     unat (dc_bid_mask d) < dc_num_bank d"

lemma dram_invD:
  assumes "dram_inv k d"
  shows "length (dc_banks d) = dc_num_bank d" "length (dc_channels d) = dc_num_channel d"
    "dc_num_channel d * dc_num_bank_per_channel d \<le> dc_num_bank d" "0 < dc_bus_width d"
    "i < dc_num_bank d \<Longrightarrow> bank_ok (dc_ents d) i (dc_banks d ! i)"
    "i < dc_num_bank d \<Longrightarrow> length (bank_entries (dc_banks d ! i)) = KNOB_DRAM_BUFFER_SIZE k"
    "distinct (concat (map bank_entries (dc_banks d)))" "dc_total_req d = int (size (inflight d))"
    "unat (dc_bid_mask d) < dc_num_bank d"
  using assms by (simp_all add: dram_inv_def)

lemma concat_nth_disjoint:
  "distinct (concat xss) \<Longrightarrow> j < length xss \<Longrightarrow> i < j \<Longrightarrow> set (xss ! i) \<inter> set (xss ! j) = {}"
proof (induction xss arbitrary: i j)
  case (Cons ys xss)
  then obtain j' where j: "j = Suc j'" by (cases j) auto
  show ?case
  proof (cases i)
    case 0
    then show ?thesis using Cons.prems j by (auto dest: nth_mem)
  next
    case (Suc i')
    then show ?thesis using Cons j by simp
  qed
qed simp

lemma bank_disjoint:
  assumes "dram_inv k d" "i < dc_num_bank d" "j < dc_num_bank d" "i \<noteq> j"
  shows "set (bank_entries (dc_banks d ! i)) \<inter> set (bank_entries (dc_banks d ! j)) = {}"
  using concat_nth_disjoint[of "map bank_entries (dc_banks d)" i j] concat_nth_disjoint[of "map bank_entries (dc_banks d)" j i]
    assms dram_invD(1,7)[OF assms(1)] by (cases i j rule: linorder_cases) auto

lemma bank_distinct:
  assumes "dram_inv k d" "i < dc_num_bank d"
  shows "distinct (bank_entries (dc_banks d ! i))"
  using dram_invD(1,7)[OF assms(1)] assms(2) by (simp add: distinct_concat_iff)

text \<open>What no operation inside a cycle changes.\<close>

definition same_cfg :: "dram \<Rightarrow> dram \<Rightarrow> bool" where
  "same_cfg d d' \<longleftrightarrow> dc_num_bank d' = dc_num_bank d \<and> dc_num_channel d' = dc_num_channel d \<and>
     dc_num_bank_per_channel d' = dc_num_bank_per_channel d \<and> dc_bus_width d' = dc_bus_width d \<and> dc_cycle d' = dc_cycle d \<and>
     dc_starvation_cycle d' = dc_starvation_cycle d \<and> dc_cid_mask d' = dc_cid_mask d \<and> dc_bid_mask d' = dc_bid_mask d \<and>
     dc_bid_shift d' = dc_bid_shift d \<and> dc_rid_shift d' = dc_rid_shift d \<and> dc_bid_xor_shift d' = dc_bid_xor_shift d \<and>
     length (dc_channels d') = length (dc_channels d) \<and> (\<exists>xs. dc_freed d' = dc_freed d @ xs)"

lemma same_cfg_refl [simp]: "same_cfg d d"
  by (simp add: same_cfg_def)

lemma same_cfg_trans: "same_cfg a b \<Longrightarrow> same_cfg b c \<Longrightarrow> same_cfg a c"
  by (auto simp add: same_cfg_def)

lemma local_step:
  assumes inv: "dram_inv k d" and j: "j < dc_num_bank d" and cfg: "same_cfg d d'"
    and banks: "dc_banks d' = (dc_banks d)[j := b']"
    and ents: "\<And>e. e \<notin> set (bank_entries (dc_banks d ! j)) \<Longrightarrow> dc_ents d' e = dc_ents d e"
    and perm: "mset (bank_entries b') = mset (bank_entries (dc_banks d ! j))"
    and ok: "bank_ok (dc_ents d') j b'"
    and tot: "dc_total_req d' - int (size (bank_reqs (dc_ents d') b')) = dc_total_req d - int (size (bank_reqs (dc_ents d) (dc_banks d ! j)))"
  shows "dram_inv k d'" "inflight d' + bank_reqs (dc_ents d) (dc_banks d ! j) = inflight d + bank_reqs (dc_ents d') b'"
proof -
  note I = dram_invD[OF inv]
  have jl: "j < length (dc_banks d)" using j I(1) by simp
  have other: "dc_ents d' e = dc_ents d e" if "i < dc_num_bank d" "i \<noteq> j" "e \<in> set (bank_entries (dc_banks d ! i))" for i e
    using ents[of e] bank_disjoint[OF inv that(1) j that(2)] that(3) by blast
  have "map (bank_reqs (dc_ents d')) (dc_banks d') = (map (bank_reqs (dc_ents d)) (dc_banks d))[j := bank_reqs (dc_ents d') b']"
  proof (rule nth_equalityI)
    fix i
    assume "i < length (map (bank_reqs (dc_ents d')) (dc_banks d'))"
    then have i: "i < dc_num_bank d" using I(1) banks by simp
    have "bank_reqs (dc_ents d') (dc_banks d ! i) = bank_reqs (dc_ents d) (dc_banks d ! i)" if "i \<noteq> j"
      using other[OF i that] by (simp add: bank_reqs_def bank_entries_def cong: map_cong)
    then show "map (bank_reqs (dc_ents d')) (dc_banks d') ! i = (map (bank_reqs (dc_ents d)) (dc_banks d))[j := bank_reqs (dc_ents d') b'] ! i"
      using i j I(1) banks by (cases "i = j") simp_all
  qed (simp add: banks)
  with sum_list_update_comm[of j "map (bank_reqs (dc_ents d)) (dc_banks d)" "bank_reqs (dc_ents d') b'"] jl
  show fl: "inflight d' + bank_reqs (dc_ents d) (dc_banks d ! j) = inflight d + bank_reqs (dc_ents d') b'"
    by (simp add: inflight_def)
  have "int (size (inflight d')) + int (size (bank_reqs (dc_ents d) (dc_banks d ! j))) = int (size (inflight d)) + int (size (bank_reqs (dc_ents d') b'))"
    using arg_cong[OF fl, of "\<lambda>m. int (size m)"] by simp
  then have "dc_total_req d' = int (size (inflight d'))" using tot I(8) by simp
  moreover have "mset (concat (map bank_entries (dc_banks d'))) + mset (bank_entries (dc_banks d ! j)) =
      mset (concat (map bank_entries (dc_banks d))) + mset (bank_entries b')"
    using mset_concat_update[of j "map bank_entries (dc_banks d)" "bank_entries b'"] jl banks by (simp add: map_update)
  then have "distinct (concat (map bank_entries (dc_banks d')))"
    using perm I(7) by (metis add_right_cancel mset_eq_imp_distinct_iff)
  moreover have "bank_ok (dc_ents d') i (dc_banks d' ! i) \<and> length (bank_entries (dc_banks d' ! i)) = KNOB_DRAM_BUFFER_SIZE k" if i: "i < dc_num_bank d" for i
  proof (cases "i = j")
    case True
    then show ?thesis using ok banks jl I(6)[OF j] mset_eq_length[OF perm] by simp
  next
    case False
    have "\<forall>e\<in>set (busy (dc_banks d ! i)). dc_ents d' e = dc_ents d e" using other[OF i False] by (simp add: bank_entries_def)
    moreover have "bk_current (dc_banks d ! i) = Some c \<Longrightarrow> c \<in> set (busy (dc_banks d ! i))" for c by (simp add: busy_def)
    ultimately show ?thesis using I(5,6)[OF i] False banks by (auto simp add: bank_ok_def split: option.splits)
  qed
  ultimately show "dram_inv k d'"
    using I cfg banks unfolding dram_inv_def same_cfg_def by auto
qed

text \<open>An entry goes back to the free list.\<close>

lemma retire_step:
  assumes inv: "dram_inv k d" and j: "j < dc_num_bank d" and cfg: "same_cfg d d'"
    and banks: "dc_banks d' = (dc_banks d)[j := b']"
    and ents: "\<And>x. x \<noteq> e \<Longrightarrow> dc_ents d' x = dc_ents d x"
    and busy: "mset (busy (dc_banks d ! j)) = add_mset e (mset (busy b'))"
    and free: "bk_free b' = bk_free (dc_banks d ! j) @ [e]"
    and cur: "case bk_current b' of None \<Rightarrow> bk_data_ready b' = ULLONG_MAX
      | Some c \<Rightarrow> bk_current (dc_banks d ! j) = Some c \<and> bk_data_ready b' = bk_data_ready (dc_banks d ! j) \<and>
                  bk_current_rid b' = bk_current_rid (dc_banks d ! j)"
    and tot: "dc_total_req d' = dc_total_req d - 1"
  shows "dram_inv k d'" "inflight d = add_mset (the (de_req (dc_ents d e))) (inflight d')"
proof -
  let ?b = "dc_banks d ! j"
  have e: "e \<in> set (busy ?b)" using arg_cong[OF busy, of set_mset] by simp
  have "distinct (busy ?b)" using bank_distinct[OF inv j] by (simp add: bank_entries_def)
  then have "distinct (e # busy b')" using busy by (metis mset.simps(2) mset_eq_imp_distinct_iff)
  then have out: "e \<notin> set (busy b')" by simp
  have eq: "map (\<lambda>x. the (de_req (dc_ents d' x))) (busy b') = map (\<lambda>x. the (de_req (dc_ents d x))) (busy b')"
    using out by (intro map_cong refl) (metis ents)
  have "bank_reqs (dc_ents d) ?b = image_mset (\<lambda>x. the (de_req (dc_ents d x))) (mset (busy ?b))" by (simp add: bank_reqs_def)
  also have "\<dots> = add_mset (the (de_req (dc_ents d e))) (bank_reqs (dc_ents d') b')"
    unfolding busy bank_reqs_def eq by simp
  finally have reqs: "bank_reqs (dc_ents d) ?b = add_mset (the (de_req (dc_ents d e))) (bank_reqs (dc_ents d') b')" .
  have sub: "set (busy b') \<subseteq> set (busy ?b)" using arg_cong[OF busy, of set_mset] by auto
  have okb: "bank_ok (dc_ents d) j ?b" by (rule dram_invD(5)[OF inv j])
  have cur_in: "bk_current b' = Some c \<Longrightarrow> c \<in> set (busy b')" for c by (simp add: busy_def)
  have same: "dc_ents d' x = dc_ents d x" if "x \<in> set (busy b')" for x using that out ents[of x] by auto
  have "cur_ok (dc_ents d' c) b'" if c: "bk_current b' = Some c" for c
  proof -
    from cur c have "bk_current ?b = Some c" "bk_data_ready b' = bk_data_ready ?b" "bk_current_rid b' = bk_current_rid ?b" by simp_all
    with okb show ?thesis using same[OF cur_in[OF c]] by (simp add: bank_ok_def cur_ok_def)
  qed
  with okb sub same cur have "bank_ok (dc_ents d') j b'"
    unfolding bank_ok_def by (cases "bk_current b'") (simp_all add: subset_iff)
  moreover have "mset (bank_entries b') = mset (bank_entries ?b)" by (simp add: bank_entries_def busy free)
  moreover have "dc_ents d' x = dc_ents d x" if "x \<notin> set (bank_entries ?b)" for x
    using that e ents[of x] by (auto simp add: bank_entries_def)
  ultimately have "dram_inv k d'" "inflight d' + bank_reqs (dc_ents d) ?b = inflight d + bank_reqs (dc_ents d') b'"
    using local_step[OF inv j cfg banks] tot by (simp_all add: reqs)
  then show "dram_inv k d'" "inflight d = add_mset (the (de_req (dc_ents d e))) (inflight d')"
    by (simp_all add: reqs)
qed

text \<open>The entry in service changes its state.\<close>

lemma stage_step:
  assumes inv: "dram_inv k d" and j: "j < dc_num_bank d" and cfg: "same_cfg d d'"
    and banks: "dc_banks d' = (dc_banks d)[j := b']"
    and ents: "\<And>x. x \<noteq> c \<Longrightarrow> dc_ents d' x = dc_ents d x"
    and keep: "de_req (dc_ents d' c) = de_req (dc_ents d c)" "de_bid (dc_ents d' c) = de_bid (dc_ents d c)"
    and busy: "mset (busy b') = mset (busy (dc_banks d ! j))"
    and free: "bk_free b' = bk_free (dc_banks d ! j)"
    and cur: "bk_current b' = Some c" "cur_ok (dc_ents d' c) b'"
    and tot: "dc_total_req d' = dc_total_req d"
  shows "dram_inv k d'" "inflight d' = inflight d"
proof -
  let ?b = "dc_banks d ! j"
  have same: "de_req (dc_ents d' x) = de_req (dc_ents d x)" "de_bid (dc_ents d' x) = de_bid (dc_ents d x)" for x
    using ents[of x] keep by (cases "x = c"; simp)+
  have "bank_reqs (dc_ents d') b' = image_mset (\<lambda>x. the (de_req (dc_ents d x))) (mset (busy b'))"
    by (simp add: bank_reqs_def same)
  then have reqs: "bank_reqs (dc_ents d') b' = bank_reqs (dc_ents d) ?b" by (simp add: bank_reqs_def busy)
  have sets: "set (busy b') = set (busy ?b)" using mset_eq_setD[OF busy] .
  have c: "c \<in> set (busy ?b)" using cur(1) sets by (auto simp add: busy_def)
  have "bank_ok (dc_ents d') j b'"
    using dram_invD(5)[OF inv j] cur by (simp add: bank_ok_def same sets)
  moreover have "mset (bank_entries b') = mset (bank_entries ?b)" by (simp add: bank_entries_def busy free)
  moreover have "dc_ents d' x = dc_ents d x" if "x \<notin> set (bank_entries ?b)" for x
    using that c ents[of x] by (auto simp add: bank_entries_def)
  ultimately have "dram_inv k d'" "inflight d' + bank_reqs (dc_ents d) ?b = inflight d + bank_reqs (dc_ents d') b'"
    using local_step[OF inv j cfg banks] tot by (simp_all add: reqs)
  then show "dram_inv k d'" "inflight d' = inflight d"
    by (simp_all add: reqs)
qed

section \<open>The operations\<close>

definition keeps :: "dram_knobs \<Rightarrow> dram \<Rightarrow> dram \<Rightarrow> bool" where
  "keeps k d d' \<longleftrightarrow> dram_inv k d' \<and> same_cfg d d' \<and> accounted d' = accounted d"

lemma keeps_trans: "keeps k a b \<Longrightarrow> keeps k b c \<Longrightarrow> keeps k a c"
  by (auto simp add: keeps_def intro: same_cfg_trans)

lemma fold_keeps:
  assumes "\<And>x s. x \<in> set xs \<Longrightarrow> keeps k d s \<Longrightarrow> \<exists>s'. f x s = Inr s' \<and> keeps k s s'" "dram_inv k d"
  shows "\<exists>d'. fold_res f xs d = Inr d' \<and> keeps k d d'"
proof (rule fold_res_inv[where I = "keeps k d"])
  show "keeps k d d" using assms(2) by (simp add: keeps_def)
qed (blast dest: assms(1) intro: keeps_trans)

lemma num_completed_keeps [simp]: "keeps k d (d'\<lparr>dc_num_completed := x\<rparr>) = keeps k d d'"
  by (simp add: keeps_def dram_inv_def same_cfg_def accounted_def live_def inflight_def outgoing_def)

lemma respond_spec:
  assumes "de_req (dc_ents d e) = Some r"
  shows "\<exists>d'. respond k e d = Inr d' \<and> dc_banks d' = dc_banks d \<and> dc_ents d' = dc_ents d \<and> dc_total_req d' = dc_total_req d \<and>
    same_cfg d d' \<and> outgoing d' + mset (dc_freed d') = add_mset r (outgoing d + mset (dc_freed d))"
proof (cases "mr_type (dc_reqs d r) = MRT_WB")
  case True
  then show ?thesis using assms by (simp add: respond_def req_of_def same_cfg_def outgoing_def)
next
  case False
  then show ?thesis using assms
    by (cases "dc_tmp_output d") (simp_all add: respond_def req_of_def same_cfg_def outgoing_def upd_req_def)
qed

lemma busy_req:
  assumes "dram_inv k d" "j < dc_num_bank d" "e \<in> set (busy (dc_banks d ! j))"
  obtains r where "de_req (dc_ents d e) = Some r" "unat (de_bid (dc_ents d e)) = j"
  using dram_invD(5)[OF assms(1,2)] assms(3) by (auto simp add: bank_ok_def)

lemma mset_removeAll_distinct:
  assumes "distinct xs" "x \<in> set xs"
  shows "mset xs = add_mset x (mset (removeAll x xs))"
  using assms by (simp add: distinct_remove1_removeAll[symmetric])

lemma bank_unique:
  assumes "dram_inv k d" "j < dc_num_bank d"
  shows "distinct (bk_buffer (dc_banks d ! j))" "bk_current (dc_banks d ! j) = Some c \<Longrightarrow> c \<notin> set (bk_buffer (dc_banks d ! j))"
  using bank_distinct[OF assms] by (auto simp add: bank_entries_def busy_def split: option.splits)

text \<open>An entry of the buffer goes back to the free list.\<close>

lemma drop_buffer_step:
  assumes inv: "dram_inv k d" and j: "j < dc_num_bank d" and e: "e \<in> set (bk_buffer (dc_banks d ! j))" and cfg: "same_cfg d d'"
    and banks: "dc_banks d' = (dc_banks d)[j := (dc_banks d ! j)\<lparr>bk_free := bk_free (dc_banks d ! j) @ [e],
      bk_buffer := removeAll e (bk_buffer (dc_banks d ! j))\<rparr>]"
    and ents: "\<And>x. x \<noteq> e \<Longrightarrow> dc_ents d' x = dc_ents d x"
    and tot: "dc_total_req d' = dc_total_req d - 1"
  shows "dram_inv k d'" "inflight d = add_mset (the (de_req (dc_ents d e))) (inflight d')"
proof -
  note u = bank_unique[OF inv j]
  have "mset (busy (dc_banks d ! j)) = add_mset e (mset (busy ((dc_banks d ! j)\<lparr>bk_free := bk_free (dc_banks d ! j) @ [e],
      bk_buffer := removeAll e (bk_buffer (dc_banks d ! j))\<rparr>)))"
    using mset_removeAll_distinct[OF u(1) e] by (simp add: busy_def)
  note * = retire_step[OF inv j cfg banks ents this _ _ tot]
  have ok: "bank_ok (dc_ents d) j (dc_banks d ! j)" by (rule dram_invD(5)[OF inv j])
  show "dram_inv k d'" "inflight d = add_mset (the (de_req (dc_ents d e))) (inflight d')"
    by (rule *; (use ok in \<open>simp add: bank_ok_def split: option.splits\<close>)?)+
qed

lemma flush_one_spec:
  assumes inv: "dram_inv k d" and j: "j < dc_num_bank d" and e: "e \<in> set (bk_buffer (dc_banks d ! j))"
  shows "\<exists>d'. flush_one j e d = Inr d' \<and> keeps k d d' \<and> bk_buffer (dc_banks d' ! j) = removeAll e (bk_buffer (dc_banks d ! j))"
proof -
  from busy_req[OF inv j, of e] e obtain r where r: "de_req (dc_ents d e) = Some r" by (auto simp add: busy_def)
  define d' where "d' = upd_bank j (\<lambda>b. b\<lparr>bk_free := bk_free b @ [e], bk_buffer := removeAll e (bk_buffer b)\<rparr>)
            (d\<lparr>dc_freed := dc_freed d @ [r], dc_total_req := dc_total_req d - 1\<rparr>)"
  have cfg: "same_cfg d d'" by (simp add: d'_def upd_bank_def same_cfg_def)
  have "dram_inv k d'" "inflight d = add_mset (the (de_req (dc_ents d e))) (inflight d')"
    by (rule drop_buffer_step[OF inv j e cfg]; simp add: d'_def upd_bank_def)+
  moreover have "outgoing d' = outgoing d" "dc_freed d' = dc_freed d @ [r]" by (simp_all add: d'_def upd_bank_def outgoing_def)
  moreover have "flush_one j e d = Inr d'" by (simp add: flush_one_def req_of_def r d'_def)
  moreover have "bk_buffer (dc_banks d' ! j) = removeAll e (bk_buffer (dc_banks d ! j))"
    using j dram_invD(1)[OF inv] by (simp add: d'_def upd_bank_def)
  ultimately show ?thesis using cfg r by (simp add: keeps_def accounted_def live_def)
qed

lemma keepsD:
  assumes "keeps k d d'"
  shows "dram_inv k d'" "same_cfg d d'" "accounted d' = accounted d" "dc_num_bank d' = dc_num_bank d"
    "dc_num_channel d' = dc_num_channel d" "dc_num_bank_per_channel d' = dc_num_bank_per_channel d" "dc_cycle d' = dc_cycle d"
  using assms by (simp_all add: keeps_def same_cfg_def)

lemma prefetch_entries_eq:
  assumes "\<forall>e\<in>set es. de_req (dc_ents d e) \<noteq> None"
  shows "prefetch_entries d es = Inr (filter (\<lambda>e. mr_type (dc_reqs d (the (de_req (dc_ents d e)))) = MRT_DPRF) es)"
  using assms by (induction es) (auto simp add: req_of_def)

lemma flush_fold:
  assumes "dram_inv k d" "j < dc_num_bank d" "distinct es" "set es \<subseteq> set (bk_buffer (dc_banks d ! j))"
  shows "\<exists>d'. fold_res (flush_one j) es d = Inr d' \<and> keeps k d d' \<and>
    bk_buffer (dc_banks d' ! j) = filter (\<lambda>e. e \<notin> set es) (bk_buffer (dc_banks d ! j))"
  using assms
proof (induction es arbitrary: d)
  case Nil
  then show ?case by (simp add: keeps_def)
next
  case (Cons e es)
  from flush_one_spec[OF Cons.prems(1,2), of e] Cons.prems(4) obtain d1 where d1: "flush_one j e d = Inr d1" "keeps k d d1"
    "bk_buffer (dc_banks d1 ! j) = removeAll e (bk_buffer (dc_banks d ! j))" by auto
  have "set es \<subseteq> set (bk_buffer (dc_banks d1 ! j))" using Cons.prems(3,4) d1(3) by auto
  with Cons.IH[of d1] keepsD[OF d1(2)] Cons.prems obtain d2 where d2: "fold_res (flush_one j) es d1 = Inr d2" "keeps k d1 d2"
    "bk_buffer (dc_banks d2 ! j) = filter (\<lambda>e. e \<notin> set es) (bk_buffer (dc_banks d1 ! j))" by auto
  then have "bk_buffer (dc_banks d2 ! j) = filter (\<lambda>x. x \<notin> set (e # es)) (bk_buffer (dc_banks d ! j))"
    by (simp add: d1(3) removeAll_filter_not_eq conj_commute) (metis)
  with d1 d2 show ?case by (auto intro: keeps_trans)
qed

lemma flush_prefetch_spec:
  assumes inv: "dram_inv k d" and j: "j < dc_num_bank d"
  shows "\<exists>d'. flush_prefetch j d = Inr d' \<and> keeps k d d' \<and> bk_buffer (dc_banks d' ! j) =
    filter (\<lambda>e. mr_type (dc_reqs d (the (de_req (dc_ents d e)))) \<noteq> MRT_DPRF) (bk_buffer (dc_banks d ! j))"
proof -
  let ?P = "\<lambda>e. mr_type (dc_reqs d (the (de_req (dc_ents d e)))) = MRT_DPRF" and ?b = "bk_buffer (dc_banks d ! j)"
  have "\<forall>e\<in>set ?b. de_req (dc_ents d e) \<noteq> None" using dram_invD(5)[OF inv j] by (auto simp add: bank_ok_def busy_def)
  then have p: "prefetch_entries d ?b = Inr (filter ?P ?b)" by (rule prefetch_entries_eq)
  have "filter (\<lambda>e. e \<notin> set (filter ?P ?b)) ?b = filter (\<lambda>e. \<not> ?P e) ?b" by (rule filter_cong) auto
  with flush_fold[OF inv j, of "filter ?P ?b"] bank_unique(1)[OF inv j] p show ?thesis
    by (auto simp add: flush_prefetch_def)
qed

text \<open>A new request.\<close>

lemma insert_req_spec:
  assumes inv: "dram_inv k d" and j: "unat bid < dc_num_bank d" and f: "bk_free (dc_banks d ! unat bid) = e # es"
  shows "\<exists>d1. insert_req_in_drb r bid rid cid d = Inr d1 \<and>
    (let d' = upd_req r f' (d1\<lparr>dc_total_req := dc_total_req d1 + 1\<rparr>)
     in dram_inv k d' \<and> same_cfg d d' \<and> accounted d' = add_mset r (accounted d) \<and>
        bk_buffer (dc_banks d' ! unat bid) = bk_buffer (dc_banks d ! unat bid) @ [e] \<and>
        de_req (dc_ents d' e) = Some r \<and> de_timestamp (dc_ents d' e) = dc_cycle d)"
proof -
  let ?j = "unat bid"
  let ?b = "dc_banks d ! ?j"
  define b' where "b' = ?b\<lparr>bk_free := es, bk_buffer := bk_buffer ?b @ [e]\<rparr>"
  define x where "x = (drb_set (dc_unique_id d) r (dc_reqs d r) bid rid cid (dc_ents d e))\<lparr>de_timestamp := dc_cycle d\<rparr>"
  define d1 where "d1 = d\<lparr>dc_unique_id := dc_unique_id d + 1, dc_ents := (dc_ents d)(e := x), dc_banks := (dc_banks d)[?j := b']\<rparr>"
  define d' where "d' = upd_req r f' (d1\<lparr>dc_total_req := dc_total_req d1 + 1\<rparr>)"
  have ins: "insert_req_in_drb r bid rid cid d = Inr d1"
    using f j dram_invD(1)[OF inv] by (simp add: insert_req_in_drb_def upd_bank_def upd_ent_def d1_def b'_def x_def)
  have cfg: "same_cfg d d'" by (simp add: same_cfg_def d'_def d1_def upd_req_def)
  have banks: "dc_banks d' = (dc_banks d)[?j := b']" and ents: "dc_ents d' = (dc_ents d)(e := x)"
    by (simp_all add: d'_def d1_def upd_req_def)
  have "distinct (bank_entries ?b)" by (rule bank_distinct[OF inv j])
  then have e: "e \<notin> set (busy ?b)" "e \<in> set (bank_entries ?b)" by (auto simp add: bank_entries_def f)
  have bs: "mset (busy b') = add_mset e (mset (busy ?b))" by (simp add: busy_def b'_def)
  have x: "de_req x = Some r" "de_bid x = bid" "de_timestamp x = dc_cycle d" by (simp_all add: x_def drb_set_def)
  have "image_mset (\<lambda>y. the (de_req (dc_ents d' y))) (mset (busy ?b)) = image_mset (\<lambda>y. the (de_req (dc_ents d y))) (mset (busy ?b))"
    using e(1) by (intro image_mset_cong) (auto simp add: ents)
  then have reqs: "bank_reqs (dc_ents d') b' = add_mset r (bank_reqs (dc_ents d) ?b)"
    using bs by (simp add: bank_reqs_def ents x)
  have okb: "bank_ok (dc_ents d) ?j ?b" by (rule dram_invD(5)[OF inv j])
  have cur: "bk_current ?b = Some c \<Longrightarrow> c \<noteq> e" for c using e(1) by (auto simp add: busy_def)
  have sets: "set (busy b') = insert e (set (busy ?b))" using arg_cong[OF bs, of set_mset] by simp
  have "bk_current b' = bk_current ?b" "bk_data_ready b' = bk_data_ready ?b" "bk_current_rid b' = bk_current_rid ?b"
    by (simp_all add: b'_def)
  then have "bank_ok (dc_ents d') ?j b'"
    using okb e(1) cur by (auto simp add: bank_ok_def sets ents x cur_ok_def split: option.splits)
  moreover have "mset (bank_entries b') = mset (bank_entries ?b)" using bs by (simp add: bank_entries_def f b'_def)
  moreover have "y \<notin> set (bank_entries ?b) \<Longrightarrow> dc_ents d' y = dc_ents d y" for y using e(2) by (auto simp add: ents)
  moreover have "dc_total_req d' = dc_total_req d + 1" by (simp add: d'_def d1_def upd_req_def)
  ultimately have "dram_inv k d'" "inflight d' + bank_reqs (dc_ents d) ?b = inflight d + bank_reqs (dc_ents d') b'"
    using local_step[OF inv j cfg banks] by (simp_all add: reqs)
  then have "dram_inv k d'" "inflight d' = add_mset r (inflight d)" by (simp_all add: reqs)
  moreover have "outgoing d' = outgoing d" "dc_freed d' = dc_freed d" by (simp_all add: d'_def d1_def upd_req_def outgoing_def)
  ultimately show ?thesis
    using ins cfg j dram_invD(1)[OF inv] x
    by (intro exI[of _ d1]) (simp add: d'_def[symmetric] accounted_def live_def banks ents b'_def)
qed

lemma and_below: "unat (x AND m) \<le> unat m" for x m :: uns64
  by (metis word_and_le1 word_le_nat_alt)

lemma and_xor_and: "(x AND m) XOR (y AND m) = (x XOR y) AND m" for x y m :: uns64
  by (rule bit_eqI) (auto simp add: bit_simps)

lemma parse_bid:
  assumes "parse_addr k a d = (bid, rid, cid)"
  shows "unat bid \<le> unat (dc_bid_mask d)"
proof -
  obtain x where "bid = x AND dc_bid_mask d"
    using assms by (auto simp add: parse_addr_def Let_def and_xor_and split: if_splits)
  then show ?thesis by (simp add: and_below)
qed

lemma insert_new_req_spec:
  assumes inv: "dram_inv k d"
  shows "\<exists>ok d'. insert_new_req k r d = Inr (ok, d') \<and> dram_inv k d' \<and> same_cfg d d' \<and>
    accounted d' = (if ok then add_mset r (accounted d) else accounted d)"
proof -
  obtain bid rid cid where p: "parse_addr k (mr_addr (dc_reqs d r)) d = (bid, rid, cid)" by (cases "parse_addr k (mr_addr (dc_reqs d r)) d")
  let ?j = "unat bid"
  have j: "?j < dc_num_bank d" using parse_bid[OF p] dram_invD(9)[OF inv] by simp
  then have g: "arr_get (dc_banks d) ?j = Inr (dc_banks d ! ?j)" using dram_invD(1)[OF inv] by simp
  have "\<exists>d1. (if bk_free (dc_banks d ! ?j) = [] then flush_prefetch ?j d else Inr d) = Inr d1 \<and> keeps k d d1"
    using flush_prefetch_spec[OF inv j] inv by (auto simp add: keeps_def)
  then obtain d1 where d1: "(if bk_free (dc_banks d ! ?j) = [] then flush_prefetch ?j d else Inr d) = Inr d1" "keeps k d d1" by blast
  note K = keepsD[OF d1(2)]
  show ?thesis
  proof (cases "bk_free (dc_banks d1 ! ?j)")
    case Nil
    then show ?thesis using K g d1(1) by (intro exI[of _ False]) (simp add: insert_new_req_def p)
  next
    case (Cons e es)
    from insert_req_spec[OF K(1) _ Cons, where r = r and f' = "\<lambda>q. q\<lparr>mr_state := MEM_DRAM_START\<rparr>" and rid = rid and cid = cid] j K(4)
    show ?thesis using Cons K(2,3) g d1(1) by (auto simp add: insert_new_req_def p Let_def intro: same_cfg_trans)
  qed
qed

section \<open>Completion\<close>

lemma le_ULLONG_MAX: "c \<le> ULLONG_MAX"
  unfolding ULLONG_MAX_def word_le_nat_alt using unsigned_less[of c, where ?'a = nat] by simp

lemma ULLONG_MAX_le: "ULLONG_MAX \<le> c \<Longrightarrow> c = ULLONG_MAX"
  using le_ULLONG_MAX[of c] by (rule order_antisym)

lemma merge_fold:
  assumes "\<forall>e\<in>set es. de_req (dc_ents d e) \<noteq> None"
  shows "\<exists>d'. fold_res (merge_one k a) es d = Inr d' \<and> dc_banks d' = dc_banks d \<and> dc_ents d' = dc_ents d \<and>
    dc_total_req d' = dc_total_req d \<and> same_cfg d d' \<and> outgoing d' + mset (dc_freed d') =
      outgoing d + mset (dc_freed d) + mset (map (\<lambda>e. the (de_req (dc_ents d e))) (filter (\<lambda>e. de_addr (dc_ents d e) = a) es))"
  using assms
proof (induction es arbitrary: d)
  case Nil
  then show ?case by simp
next
  case (Cons e es)
  show ?case
  proof (cases "de_addr (dc_ents d e) = a")
    case False
    with Cons.IH[of d] Cons.prems show ?thesis by (simp add: merge_one_def)
  next
    case True
    from Cons.prems obtain r where r: "de_req (dc_ents d e) = Some r" by auto
    from respond_spec[OF r, of k] obtain d1 where d1: "respond k e d = Inr d1" "dc_banks d1 = dc_banks d" "dc_ents d1 = dc_ents d"
      "dc_total_req d1 = dc_total_req d" "same_cfg d d1"
      "outgoing d1 + mset (dc_freed d1) = add_mset r (outgoing d + mset (dc_freed d))" by auto
    define d2 where "d2 = d1\<lparr>dc_num_completed := sint (ucast (dc_cycle d1) :: uns32)\<rparr>"
    have d2: "dc_banks d2 = dc_banks d" "dc_ents d2 = dc_ents d" "dc_total_req d2 = dc_total_req d" "same_cfg d d2"
      "outgoing d2 + mset (dc_freed d2) = add_mset r (outgoing d + mset (dc_freed d))"
      using d1 by (simp_all add: d2_def same_cfg_def outgoing_def)
    have "merge_one k a e d = Inr d2" using True d1(1) by (simp add: merge_one_def d2_def)
    with Cons.IH[of d2] Cons.prems d2 r True show ?thesis by (auto intro: same_cfg_trans)
  qed
qed

lemma release_fold:
  assumes "dram_inv k d" "j < dc_num_bank d" "distinct es" "set es \<subseteq> set (bk_buffer (dc_banks d ! j))"
  shows "dram_inv k (fold (release_merged j) es d) \<and> same_cfg d (fold (release_merged j) es d) \<and>
    inflight d = inflight (fold (release_merged j) es d) + mset (map (\<lambda>e. the (de_req (dc_ents d e))) es) \<and>
    outgoing (fold (release_merged j) es d) = outgoing d \<and> dc_freed (fold (release_merged j) es d) = dc_freed d \<and>
    bk_current (dc_banks (fold (release_merged j) es d) ! j) = bk_current (dc_banks d ! j)"
  using assms
proof (induction es arbitrary: d)
  case Nil
  then show ?case by simp
next
  case (Cons e es)
  define d1 where "d1 = release_merged j e d"
  have cfg: "same_cfg d d1" by (simp add: d1_def release_merged_def upd_bank_def upd_ent_def same_cfg_def)
  have e: "e \<in> set (bk_buffer (dc_banks d ! j))" using Cons.prems(4) by simp
  have I: "dram_inv k d1" "inflight d = add_mset (the (de_req (dc_ents d e))) (inflight d1)"
    by (rule drop_buffer_step[OF Cons.prems(1,2) e cfg]; simp add: d1_def release_merged_def upd_bank_def upd_ent_def)+
  have o: "outgoing d1 = outgoing d" "dc_freed d1 = dc_freed d" "dc_num_bank d1 = dc_num_bank d"
    by (simp_all add: d1_def release_merged_def upd_bank_def upd_ent_def outgoing_def)
  have b: "bk_buffer (dc_banks d1 ! j) = removeAll e (bk_buffer (dc_banks d ! j))" "bk_current (dc_banks d1 ! j) = bk_current (dc_banks d ! j)"
    using Cons.prems(2) dram_invD(1)[OF Cons.prems(1)] by (simp_all add: d1_def release_merged_def upd_bank_def upd_ent_def)
  have m: "map (\<lambda>e. the (de_req (dc_ents d1 e))) es = map (\<lambda>e. the (de_req (dc_ents d e))) es"
    using Cons.prems(3) by (auto simp add: d1_def release_merged_def upd_bank_def upd_ent_def)
  from Cons.IH[OF I(1)] Cons.prems b o(3) have "set es \<subseteq> set (bk_buffer (dc_banks d1 ! j)) \<Longrightarrow> ?case"
    by (auto simp add: d1_def[symmetric] I(2) o b(2) m intro: same_cfg_trans[OF cfg])
  moreover have "set es \<subseteq> set (bk_buffer (dc_banks d1 ! j))" using Cons.prems(3,4) b(1) by auto
  ultimately show ?case by blast
qed

lemma complete_current_spec:
  assumes inv: "dram_inv k d" and j: "j < dc_num_bank d" and c: "bk_current (dc_banks d ! j) = Some c"
  shows "\<exists>d'. complete_current k j c d = Inr d' \<and> keeps k d d'"
proof -
  from busy_req[OF inv j, of c] c obtain r where r: "de_req (dc_ents d c) = Some r" by (auto simp add: busy_def)
  from respond_spec[OF r, of k] obtain d1 where d1: "respond k c d = Inr d1" "dc_banks d1 = dc_banks d" "dc_ents d1 = dc_ents d"
    "dc_total_req d1 = dc_total_req d" "same_cfg d d1"
    "outgoing d1 + mset (dc_freed d1) = add_mset r (outgoing d + mset (dc_freed d))" by auto
  define b' where "b' = (dc_banks d ! j)\<lparr>bk_free := bk_free (dc_banks d ! j) @ [c], bk_current := None, bk_data_ready := ULLONG_MAX\<rparr>"
  define d' where "d' = upd_bank j (\<lambda>b. b\<lparr>bk_free := bk_free b @ [c], bk_current := None, bk_data_ready := ULLONG_MAX\<rparr>)
     ((upd_ent c drb_reset d1)\<lparr>dc_num_completed := dc_num_completed d1 + 1, dc_total_req := dc_total_req d1 - 1\<rparr>)"
  have banks: "dc_banks d' = (dc_banks d)[j := b']" by (simp add: d'_def upd_bank_def upd_ent_def d1(2) b'_def)
  have cfg: "same_cfg d d'" using d1(5) by (simp add: d'_def upd_bank_def upd_ent_def same_cfg_def)
  have I: "dram_inv k d'" "inflight d = add_mset (the (de_req (dc_ents d c))) (inflight d')"
    by (rule retire_step[OF inv j cfg banks]; simp add: d'_def upd_bank_def upd_ent_def d1(3,4) b'_def busy_def c)+
  have "outgoing d' + mset (dc_freed d') = add_mset r (outgoing d + mset (dc_freed d))"
    using d1(6) by (simp add: d'_def upd_bank_def upd_ent_def outgoing_def)
  then have "accounted d' = accounted d" using I(2) r by (simp add: accounted_def live_def ac_simps)
  then show ?thesis using I(1) cfg d1(1) by (simp add: complete_current_def keeps_def d'_def[symmetric])
qed

lemma merge_requests_spec:
  assumes inv: "dram_inv k d" and j: "j < dc_num_bank d"
  shows "\<exists>d'. merge_requests k j c d = Inr d' \<and> keeps k d d' \<and> bk_current (dc_banks d' ! j) = bk_current (dc_banks d ! j)"
proof -
  let ?b = "bk_buffer (dc_banks d ! j)" and ?a = "de_addr (dc_ents d c)"
  let ?t = "filter (\<lambda>e. de_addr (dc_ents d e) = ?a) ?b"
  have "\<forall>e\<in>set ?b. de_req (dc_ents d e) \<noteq> None" using dram_invD(5)[OF inv j] by (auto simp add: bank_ok_def busy_def)
  from merge_fold[OF this, of k ?a] obtain d1 where d1: "fold_res (merge_one k ?a) ?b d = Inr d1" "dc_banks d1 = dc_banks d"
    "dc_ents d1 = dc_ents d" "dc_total_req d1 = dc_total_req d" "same_cfg d d1"
    "outgoing d1 + mset (dc_freed d1) = outgoing d + mset (dc_freed d) + mset (map (\<lambda>e. the (de_req (dc_ents d e))) ?t)" by auto
  have fl: "inflight d1 = inflight d" by (simp add: inflight_def d1)
  have inv1: "dram_inv k d1" using inv d1(5) fl by (auto simp add: dram_inv_def same_cfg_def d1)
  have j1: "j < dc_num_bank d1" using j d1(5) by (simp add: same_cfg_def)
  have "distinct ?t" "set ?t \<subseteq> set (bk_buffer (dc_banks d1 ! j))" using bank_unique(1)[OF inv j] by (auto simp add: d1(2))
  note R = release_fold[OF inv1 j1 this]
  let ?d = "fold (release_merged j) ?t d1"
  have "accounted ?d + mset (map (\<lambda>e. the (de_req (dc_ents d e))) ?t) = accounted d + mset (map (\<lambda>e. the (de_req (dc_ents d e))) ?t)"
    using R d1(6) fl by (simp add: accounted_def live_def d1(3) union_ac)
  then have "keeps k d ?d" using R same_cfg_trans[OF d1(5)] by (simp add: keeps_def)
  moreover have "merge_requests k j c d = Inr ?d" using d1(1) by (simp add: merge_requests_def)
  ultimately show ?thesis using R d1(2) by simp
qed

lemma complete_bank_spec:
  assumes inv: "dram_inv k d" and j: "j < dc_num_bank d" and cyc: "dc_cycle d \<noteq> ULLONG_MAX"
  shows "\<exists>d'. complete_bank k j d = Inr d' \<and> keeps k d d'"
proof (cases "bk_current (dc_banks d ! j)")
  case None
  then show ?thesis using inv j dram_invD(1)[OF inv] by (simp add: complete_bank_def keeps_def)
next
  case (Some c)
  show ?thesis
  proof (cases "bk_data_ready (dc_banks d ! j) \<le> dc_cycle d")
    case False
    then show ?thesis using inv j Some dram_invD(1)[OF inv] by (simp add: complete_bank_def keeps_def)
  next
    case True
    have "cur_ok (dc_ents d c) (dc_banks d ! j)" using dram_invD(5)[OF inv j] Some by (simp add: bank_ok_def)
    moreover have "bk_data_ready (dc_banks d ! j) \<noteq> ULLONG_MAX" using True cyc ULLONG_MAX_le[of "dc_cycle d"] by auto
    ultimately have st: "de_state (dc_ents d c) = DRAM_DATA_WAIT" by (auto simp add: cur_ok_def)
    have "\<exists>d1. (if KNOB_DRAM_MERGE_REQUESTS k then merge_requests k j c d else Inr d) = Inr d1 \<and> keeps k d d1 \<and>
        bk_current (dc_banks d1 ! j) = Some c"
      using merge_requests_spec[OF inv j, of c] inv Some by (auto simp add: keeps_def)
    then obtain d1 where d1: "(if KNOB_DRAM_MERGE_REQUESTS k then merge_requests k j c d else Inr d) = Inr d1" "keeps k d d1"
      "bk_current (dc_banks d1 ! j) = Some c" by blast
    from complete_current_spec[OF keepsD(1)[OF d1(2)] _ d1(3)] j keepsD(4)[OF d1(2)]
    obtain d2 where "complete_current k j c d1 = Inr d2" "keeps k d1 d2" by auto
    then show ?thesis
      using j dram_invD(1)[OF inv] Some True st d1 by (auto simp add: complete_bank_def intro: keeps_trans)
  qed
qed

lemma bank_schedule_complete_spec:
  assumes inv: "dram_inv k d" and cyc: "dc_cycle d \<noteq> ULLONG_MAX"
  shows "\<exists>d'. bank_schedule_complete k d = Inr d' \<and> keeps k d d'"
proof -
  let ?d = "d\<lparr>dc_num_completed := 0\<rparr>"
  have "keeps k d d" using inv by (simp add: keeps_def)
  then have k0: "keeps k d ?d" by simp
  have "\<exists>d'. fold_res (complete_bank k) [0..<dc_num_bank d] ?d = Inr d' \<and> keeps k ?d d'"
  proof (rule fold_keeps[OF _ keepsD(1)[OF k0]])
    fix x s
    assume "x \<in> set [0..<dc_num_bank d]" "keeps k ?d s"
    with keepsD[of k ?d s] cyc show "\<exists>s'. complete_bank k x s = Inr s' \<and> keeps k s s'"
      by (intro complete_bank_spec) simp_all
  qed
  then show ?thesis using keeps_trans[OF k0] by (auto simp add: bank_schedule_complete_def)
qed

section \<open>Scheduling\<close>

lemma stage_keeps:
  assumes "dram_inv k d" "j < dc_num_bank d" "same_cfg d d'" "dc_banks d' = (dc_banks d)[j := b']"
    "\<And>x. x \<noteq> c \<Longrightarrow> dc_ents d' x = dc_ents d x" "de_req (dc_ents d' c) = de_req (dc_ents d c)"
    "de_bid (dc_ents d' c) = de_bid (dc_ents d c)" "mset (busy b') = mset (busy (dc_banks d ! j))"
    "bk_free b' = bk_free (dc_banks d ! j)" "bk_current b' = Some c" "cur_ok (dc_ents d' c) b'"
    "dc_total_req d' = dc_total_req d" "outgoing d' = outgoing d" "dc_freed d' = dc_freed d"
  shows "keeps k d d'"
  using stage_step[OF assms(1-12)] assms(3,13,14) by (simp add: keeps_def accounted_def live_def)

text \<open>What the controller relies on when it asks a policy for the next request of a bank: the answer is a
  waiting entry, and the buffer is at most permuted.\<close>

locale drb_policy =
  fixes pol :: policy
  assumes picks_waiting: "dram_inv k d \<Longrightarrow> j < dc_num_bank d \<Longrightarrow> bk_buffer (dc_banks d ! j) \<noteq> [] \<Longrightarrow>
    \<exists>e buf. schedule pol j d = Inr (e, upd_bank j (\<lambda>b. b\<lparr>bk_buffer := buf\<rparr>) d) \<and> e \<in> set buf \<and>
      mset buf = mset (bk_buffer (dc_banks d ! j))"
begin

lemma schedule_bank_spec:
  assumes inv: "dram_inv k d" and j: "j < dc_num_bank d"
  shows "\<exists>d'. schedule_bank pol j d = Inr d' \<and> keeps k d d'"
proof -
  let ?b = "dc_banks d ! j"
  have g: "arr_get (dc_banks d) j = Inr ?b" and jl: "j < length (dc_banks d)" using j dram_invD(1)[OF inv] by simp_all
  have ok: "bank_ok (dc_ents d) j ?b" by (rule dram_invD(5)[OF inv j])
  have idle: ?thesis if "schedule_bank pol j d = Inr d" using that inv by (simp add: keeps_def)
  show ?thesis
  proof (cases "bk_current ?b")
    case None
    show ?thesis
    proof (cases "bk_buffer ?b = []")
      case True
      then show ?thesis using idle None g by (simp add: schedule_bank_def)
    next
      case False
      from picks_waiting[OF inv j False] obtain e buf where s: "schedule pol j d = Inr (e, upd_bank j (\<lambda>b. b\<lparr>bk_buffer := buf\<rparr>) d)"
        "e \<in> set buf" "mset buf = mset (bk_buffer ?b)" by auto
      have "distinct buf" using bank_unique(1)[OF inv j] s(3) mset_eq_imp_distinct_iff by blast
      then have m: "mset (bk_buffer ?b) = add_mset e (mset (removeAll e buf))" using mset_removeAll_distinct[of buf e] s by simp
      define d1 where "d1 = upd_bank j (\<lambda>b. b\<lparr>bk_buffer := buf\<rparr>) d"
      define d' where "d' = upd_bank j (\<lambda>b. b\<lparr>bk_current := Some e, bk_buffer := removeAll e (bk_buffer b),
                                 bk_bank_ready := ULLONG_MAX, bk_timestamp := dc_cycle d1\<rparr>)
               (upd_ent e (\<lambda>x. x\<lparr>de_state := DRAM_CMD, de_scheduled := dc_cycle d1\<rparr>) d1)"
      have "keeps k d d'"
        by (rule stage_keeps[OF inv j, where c = e and b' = "?b\<lparr>bk_current := Some e, bk_buffer := removeAll e buf,
              bk_bank_ready := ULLONG_MAX, bk_timestamp := dc_cycle d\<rparr>"])
          (use None ok m jl in \<open>simp_all add: d'_def d1_def upd_bank_def upd_ent_def same_cfg_def outgoing_def busy_def cur_ok_def bank_ok_def\<close>)
      moreover have "schedule_bank pol j d = Inr d'" using False None g s(1) by (simp add: schedule_bank_def d'_def d1_def)
      ultimately show ?thesis by blast
    qed
  next
    case (Some c)
    show ?thesis
    proof (cases "bk_bank_ready ?b \<le> dc_cycle d \<and> de_state (dc_ents d c) = DRAM_CMD_WAIT")
      case False
      with Some g have "schedule_bank pol j d = Inr d" by (auto simp add: schedule_bank_def)
      then show ?thesis by (rule idle)
    next
      case True
      have "keeps k d (upd_bank j (\<lambda>b. b\<lparr>bk_bank_ready := ULLONG_MAX, bk_timestamp := dc_cycle d\<rparr>)
          (upd_ent c (\<lambda>x. x\<lparr>de_state := DRAM_CMD\<rparr>) d))" (is "keeps k d ?d'")
        by (rule stage_keeps[OF inv j, where c = c and b' = "?b\<lparr>bk_bank_ready := ULLONG_MAX, bk_timestamp := dc_cycle d\<rparr>"])
          (use Some ok True in \<open>simp_all add: upd_bank_def upd_ent_def same_cfg_def outgoing_def busy_def cur_ok_def bank_ok_def\<close>)
      moreover have "schedule_bank pol j d = Inr ?d'" using True Some g by (simp add: schedule_bank_def)
      ultimately show ?thesis by blast
    qed
  qed
qed

lemma bank_schedule_keeps:
  assumes inv: "dram_inv k d" and cyc: "dc_cycle d \<noteq> ULLONG_MAX"
  shows "\<exists>d'. bank_schedule pol k d = Inr d' \<and> keeps k d d'"
proof -
  from bank_schedule_complete_spec[OF assms] obtain d1 where d1: "bank_schedule_complete k d = Inr d1" "keeps k d d1" by blast
  have "\<exists>d2. fold_res (schedule_bank pol) [0..<dc_num_bank d1] d1 = Inr d2 \<and> keeps k d1 d2"
    by (rule fold_keeps[OF _ keepsD(1)[OF d1(2)]]) (use keepsD in \<open>auto intro: schedule_bank_spec\<close>)
  then show ?thesis using d1 by (auto simp add: bank_schedule_def bank_schedule_new_def intro: keeps_trans)
qed

end

interpretation fcfs: drb_policy FCFS
proof
  fix k and d :: dram and j
  let ?buf = "bk_buffer (dc_banks d ! j)"
  assume "?buf \<noteq> []"
  moreover have "upd_bank j (\<lambda>b. b\<lparr>bk_buffer := ?buf\<rparr>) d = d" by (simp add: upd_bank_def)
  ultimately show "\<exists>e buf. schedule FCFS j d = Inr (e, upd_bank j (\<lambda>b. b\<lparr>bk_buffer := buf\<rparr>) d) \<and> e \<in> set buf \<and> mset buf = mset ?buf"
    by (intro exI[of _ "hd ?buf"] exI[of _ ?buf]) (simp add: schedule_def schedule_fcfs_def)
qed

lemma buffer_checks:
  assumes inv: "dram_inv k d" and j: "j < dc_num_bank d"
  shows "list_all (\<lambda>e. unat (de_bid (dc_ents d e)) < length (dc_banks d)) (bk_buffer (dc_banks d ! j))"
    "list_all (\<lambda>e. de_req (dc_ents d e) \<noteq> None) (bk_buffer (dc_banks d ! j))"
  using dram_invD(5)[OF inv j] j dram_invD(1)[OF inv] by (auto simp add: bank_ok_def busy_def list_all_iff)

interpretation frfcfs: drb_policy FRFCFS
proof
  fix k and d :: dram and j
  let ?buf = "bk_buffer (dc_banks d ! j)"
  let ?srt = "list_sort (sort_func d) ?buf"
  assume "dram_inv k d" "j < dc_num_bank d" "?buf \<noteq> []"
  with buffer_checks[of k d j] hd_in_set[of ?srt]
  show "\<exists>e buf. schedule FRFCFS j d = Inr (e, upd_bank j (\<lambda>b. b\<lparr>bk_buffer := buf\<rparr>) d) \<and> e \<in> set buf \<and> mset buf = mset ?buf"
    by (intro exI[of _ "hd ?srt"] exI[of _ ?srt]) (simp add: schedule_def schedule_frfcfs_def Let_def)
qed

lemma bank_schedule_spec:
  assumes "dram_inv k d" "dc_cycle d \<noteq> ULLONG_MAX"
  shows "\<exists>d'. bank_schedule pol k d = Inr d' \<and> keeps k d d'"
  using fcfs.bank_schedule_keeps[OF assms] frfcfs.bank_schedule_keeps[OF assms] by (cases pol) simp_all

section \<open>The channels\<close>

definition candidate :: "(bank \<Rightarrow> addr \<Rightarrow> bool) \<Rightarrow> dram \<Rightarrow> nat \<Rightarrow> bool" where
  "candidate P d j \<longleftrightarrow> (case bk_current (dc_banks d ! j) of None \<Rightarrow> False | Some c \<Rightarrow> P (dc_banks d ! j) c)"

lemma oldest_bank_spec:
  assumes "\<forall>j\<in>set jjs. j < length (dc_banks d)"
  shows "\<exists>r. oldest_bank P jjs d t b = Inr r \<and>
    ((r = b \<and> (\<forall>j\<in>set jjs. candidate P d j \<longrightarrow> t \<le> bk_timestamp (dc_banks d ! j))) \<or>
     (\<exists>j\<in>set jjs. r = Some j \<and> candidate P d j \<and> bk_timestamp (dc_banks d ! j) < t \<and>
       (\<forall>i\<in>set jjs. candidate P d i \<longrightarrow> bk_timestamp (dc_banks d ! j) \<le> bk_timestamp (dc_banks d ! i))))"
  using assms
proof (induction jjs arbitrary: t b)
  case Nil
  then show ?case by simp
next
  case (Cons i jjs)
  let ?t = "bk_timestamp (dc_banks d ! i)"
  have g: "arr_get (dc_banks d) i = Inr (dc_banks d ! i)" and all: "\<forall>j\<in>set jjs. j < length (dc_banks d)" using Cons.prems by simp_all
  show ?case
  proof (cases "candidate P d i \<and> ?t < t")
    case True
    then have "oldest_bank P (i # jjs) d t b = oldest_bank P jjs d ?t (Some i)" by (simp add: g candidate_def split: option.splits)
    then show ?thesis using Cons.IH[OF all, of ?t "Some i"] True by (auto intro: order_less_trans)
  next
    case False
    then have "oldest_bank P (i # jjs) d t b = oldest_bank P jjs d t b" by (auto simp add: g candidate_def split: option.splits)
    then show ?thesis using Cons.IH[OF all, of t b] False by (auto simp add: not_less intro: order_less_imp_le order_less_le_trans)
  qed
qed

lemma channel_banks_in:
  assumes "dram_inv k d" "ii < dc_num_channel d" "j \<in> set (channel_banks ii d)"
  shows "j < dc_num_bank d"
proof -
  have "j < (ii + 1) * dc_num_bank_per_channel d" using assms(3) by (simp add: channel_banks_def)
  also have "\<dots> \<le> dc_num_channel d * dc_num_bank_per_channel d" using assms(2) by (intro mult_le_mono1) simp
  finally show ?thesis using dram_invD(3)[OF assms(1)] by simp
qed

text \<open>The search never fails, and what it finds is a bank in service.\<close>

lemma oldest_in_channel:
  assumes inv: "dram_inv k d" and ii: "ii < dc_num_channel d"
  obtains (none) "oldest_bank P (channel_banks ii d) d ULLONG_MAX None = Inr None"
      "\<And>j. j \<in> set (channel_banks ii d) \<Longrightarrow> candidate P d j \<Longrightarrow> bk_timestamp (dc_banks d ! j) = ULLONG_MAX"
  | (found) j c r where "oldest_bank P (channel_banks ii d) d ULLONG_MAX None = Inr (Some j)" "j \<in> set (channel_banks ii d)"
      "j < dc_num_bank d" "bk_current (dc_banks d ! j) = Some c" "P (dc_banks d ! j) c" "de_req (dc_ents d c) = Some r"
      "\<And>i. i \<in> set (channel_banks ii d) \<Longrightarrow> candidate P d i \<Longrightarrow> bk_timestamp (dc_banks d ! j) \<le> bk_timestamp (dc_banks d ! i)"
proof -
  have "\<forall>j\<in>set (channel_banks ii d). j < length (dc_banks d)"
    using channel_banks_in[OF inv ii] dram_invD(1)[OF inv] by simp
  from oldest_bank_spec[OF this, of P ULLONG_MAX None] consider
    (a) "oldest_bank P (channel_banks ii d) d ULLONG_MAX None = Inr None"
      "\<forall>j\<in>set (channel_banks ii d). candidate P d j \<longrightarrow> ULLONG_MAX \<le> bk_timestamp (dc_banks d ! j)"
  | (b) j where "oldest_bank P (channel_banks ii d) d ULLONG_MAX None = Inr (Some j)" "j \<in> set (channel_banks ii d)" "candidate P d j"
      "\<forall>i\<in>set (channel_banks ii d). candidate P d i \<longrightarrow> bk_timestamp (dc_banks d ! j) \<le> bk_timestamp (dc_banks d ! i)"
    by blast
  then show ?thesis
  proof cases
    case a
    then show ?thesis using none ULLONG_MAX_le by blast
  next
    case b
    from b(3) obtain c where c: "bk_current (dc_banks d ! j) = Some c" "P (dc_banks d ! j) c"
      by (auto simp add: candidate_def split: option.splits)
    have j: "j < dc_num_bank d" by (rule channel_banks_in[OF inv ii b(2)])
    from busy_req[OF inv j, of c] c(1) obtain r where "de_req (dc_ents d c) = Some r" by (auto simp add: busy_def)
    with b c j show ?thesis by (intro found[of j c r]) simp_all
  qed
qed

lemma issue_command_keeps:
  assumes inv: "dram_inv k d" and j: "j < dc_num_bank d" and c: "bk_current (dc_banks d ! j) = Some c" "de_state (dc_ents d c) = DRAM_CMD"
  shows "keeps k d (issue_command k' j c (upd_req r f d))"
proof -
  let ?b = "dc_banks d ! j"
  have ok: "cur_ok (dc_ents d c) ?b" using dram_invD(5)[OF inv j] c by (simp add: bank_ok_def)
  note S = stage_keeps[OF inv j, where c = c]
  note defs = issue_command_def upd_bank_def upd_ent_def upd_req_def same_cfg_def outgoing_def busy_def cur_ok_def
  consider "bk_current_rid ?b = ULLONG_MAX" | "bk_current_rid ?b \<noteq> ULLONG_MAX" "de_rid (dc_ents d c) = bk_current_rid ?b"
    | "bk_current_rid ?b \<noteq> ULLONG_MAX" "de_rid (dc_ents d c) \<noteq> bk_current_rid ?b" by blast
  then show ?thesis
  proof cases
    case 1
    then show ?thesis using ok c
      by (intro S[where b' = "?b\<lparr>bk_current_rid := de_rid (dc_ents d c), bk_bank_ready := dc_cycle d + KNOB_DRAM_ACTIVATE k', bk_data_avail := ULLONG_MAX\<rparr>"])
        (simp_all add: defs)
  next
    case 2
    then show ?thesis using ok c
      by (intro S[where b' = "?b\<lparr>bk_bank_ready := dc_cycle d + KNOB_DRAM_COLUMN k', bk_data_avail := dc_cycle d + KNOB_DRAM_COLUMN k'\<rparr>"])
        (simp_all add: defs)
  next
    case 3
    then show ?thesis using ok c
      by (intro S[where b' = "?b\<lparr>bk_current_rid := ULLONG_MAX, bk_bank_ready := dc_cycle d + KNOB_DRAM_PRECHARGE k', bk_data_avail := ULLONG_MAX\<rparr>"])
        (simp_all add: defs)
  qed
qed

lemma channel_cmd_spec:
  assumes inv: "dram_inv k d" and ii: "ii < dc_num_channel d"
  shows "\<exists>d'. channel_cmd k ii d = Inr d' \<and> keeps k d d'"
  using assms
proof (cases rule: oldest_in_channel[where P = "wants_command d"])
  case none
  then show ?thesis using inv by (simp add: channel_cmd_def keeps_def)
next
  case (found j c r)
  then show ?thesis using issue_command_keeps[OF inv found(3,4)]
    by (simp add: channel_cmd_def wants_command_def req_of_def)
qed

section \<open>The data bus\<close>

text \<open>The banks of the channel with data to transfer: each round of the loop has one fewer.\<close>

definition data_banks :: "nat \<Rightarrow> dram \<Rightarrow> nat list" where
  "data_banks ii d = filter (candidate (\<lambda>b c. de_state (dc_ents d c) = DRAM_DATA) d) (channel_banks ii d)"

definition transfer :: "nat \<Rightarrow> addr \<Rightarrow> Counter \<Rightarrow> dram \<Rightarrow> dram" where
  "transfer j c latency d = upd_bank j (\<lambda>b. b\<lparr>bk_data_ready := latency, bk_data_avail := ULLONG_MAX\<rparr>)
     (upd_ent c (\<lambda>x. x\<lparr>de_state := DRAM_DATA_WAIT\<rparr>) d)"

lemma acquire_spec:
  assumes "ii < length chs" "dc_channels d = chs"
  obtains latency left where "acquire_data_bus ii n d =
    Inr (latency, d\<lparr>dc_channels := chs[ii := \<lparr>ch_byte_avail = left, ch_dbus_ready = latency\<rparr>]\<rparr>)"
  using assms by (cases "n < ch_byte_avail (chs ! ii)") (auto simp add: acquire_data_bus_def Let_def)

lemma transfer_spec:
  assumes inv: "dram_inv k d" and j: "j < dc_num_bank d" and c: "bk_current (dc_banks d ! j) = Some c" "de_state (dc_ents d c) = DRAM_DATA"
    and ch: "length chs = length (dc_channels d)"
  shows "keeps k d (transfer j c l ((upd_req r f d)\<lparr>dc_channels := chs\<rparr>))"
proof -
  have "cur_ok (dc_ents d c) (dc_banks d ! j)" using dram_invD(5)[OF inv j] c by (simp add: bank_ok_def)
  then show ?thesis using c ch
    by (intro stage_keeps[OF inv j, where c = c and b' = "(dc_banks d ! j)\<lparr>bk_data_ready := l, bk_data_avail := ULLONG_MAX\<rparr>"])
      (simp_all add: transfer_def upd_bank_def upd_ent_def upd_req_def same_cfg_def outgoing_def busy_def cur_ok_def)
qed

lemma transfer_fewer:
  assumes inv: "dram_inv k d" and j: "j < dc_num_bank d" "j \<in> set (channel_banks ii d)"
    and c: "bk_current (dc_banks d ! j) = Some c" "de_state (dc_ents d c) = DRAM_DATA" and ii: "ii < dc_num_channel d"
  shows "length (data_banks ii (transfer j c l ((upd_req r f d)\<lparr>dc_channels := chs\<rparr>))) < length (data_banks ii d)"
proof -
  let ?d = "transfer j c l ((upd_req r f d)\<lparr>dc_channels := chs\<rparr>)"
  let ?D = "\<lambda>d. candidate (\<lambda>b c. de_state (dc_ents d c) = DRAM_DATA) d"
  have cb: "channel_banks ii ?d = channel_banks ii d" by (simp add: channel_banks_def transfer_def upd_bank_def upd_ent_def upd_req_def)
  have cur: "bk_current (dc_banks ?d ! i) = bk_current (dc_banks d ! i)" if "i < dc_num_bank d" for i
    using that j dram_invD(1)[OF inv] by (cases "i = j") (simp_all add: transfer_def upd_bank_def upd_ent_def upd_req_def)
  have st: "de_state (dc_ents ?d x) = (if x = c then DRAM_DATA_WAIT else de_state (dc_ents d x))" for x
    by (simp add: transfer_def upd_bank_def upd_ent_def upd_req_def)
  have sub: "?D d i \<and> i \<noteq> j" if "i \<in> set (channel_banks ii d)" "?D ?d i" for i
    using that cur[OF channel_banks_in[OF inv ii that(1)]] c by (auto simp add: candidate_def st split: option.splits if_splits)
  then have "set (data_banks ii ?d) \<subseteq> set (data_banks ii d) - {j}" by (auto simp add: data_banks_def cb)
  moreover have "j \<in> set (data_banks ii d)" using j(2) c by (simp add: data_banks_def candidate_def)
  ultimately have "set (data_banks ii ?d) \<subset> set (data_banks ii d)" by blast
  then have "card (set (data_banks ii ?d)) < card (set (data_banks ii d))" by (simp add: psubset_card_mono)
  moreover have "distinct (data_banks ii x)" for x by (simp add: data_banks_def channel_banks_def)
  ultimately show ?thesis by (simp add: distinct_card)
qed

definition bus_done :: "nat \<Rightarrow> dram \<Rightarrow> bool" where
  "bus_done ii d \<longleftrightarrow> dc_cycle d < ch_dbus_ready (dc_channels d ! ii) \<or>
     (\<forall>j\<in>set (channel_banks ii d). candidate (has_data d) d j \<longrightarrow> bk_timestamp (dc_banks d ! j) = ULLONG_MAX)"

lemma data_loop_spec:
  assumes "dram_inv k d" "ii < dc_num_channel d"
  shows "\<exists>d'. (\<forall>n>length (data_banks ii d). data_loop n ii d = Inr d') \<and> keeps k d d' \<and> bus_done ii d'"
  using assms
proof (induction "length (data_banks ii d)" arbitrary: d rule: less_induct)
  case less
  note inv = less.prems(1) and ii = less.prems(2)
  have ch: "ii < length (dc_channels d)" using ii dram_invD(2)[OF inv] by simp
  then have av: "avail_data_bus ii d = Inr (ch_dbus_ready (dc_channels d ! ii) \<le> dc_cycle d)" by (simp add: avail_data_bus_def)
  have idle: "keeps k d d" using inv by (simp add: keeps_def)
  have stop: ?case if "\<And>n. data_loop (Suc n) ii d = Inr d" "bus_done ii d"
    using that idle by (metis gr0_implies_Suc gr_implies_not_zero not_gr_zero)
  show ?case
  proof (cases "ch_dbus_ready (dc_channels d ! ii) \<le> dc_cycle d")
    case False
    then show ?thesis using av by (intro stop) (simp_all add: bus_done_def not_le)
  next
    case free: True
    from inv ii show ?thesis
    proof (cases rule: oldest_in_channel[where P = "has_data d"])
      case none
      then show ?thesis using free av by (intro stop) (simp_all add: bus_done_def)
    next
      case (found j c r)
      have st: "de_state (dc_ents d c) = DRAM_DATA" using found(5) by (simp add: has_data_def)
      let ?u = "upd_req r (\<lambda>q. q\<lparr>mr_state := MEM_DRAM_DATA\<rparr>) d"
      have chu: "dc_channels ?u = dc_channels d" by (simp add: upd_req_def)
      from acquire_spec[OF ch chu, of "de_size (dc_ents d c)"] obtain l left where a: "acquire_data_bus ii (de_size (dc_ents d c)) ?u =
        Inr (l, ?u\<lparr>dc_channels := (dc_channels d)[ii := \<lparr>ch_byte_avail = left, ch_dbus_ready = l\<rparr>]\<rparr>)" .
      let ?d = "transfer j c l (?u\<lparr>dc_channels := (dc_channels d)[ii := \<lparr>ch_byte_avail = left, ch_dbus_ready = l\<rparr>]\<rparr>)"
      have K: "keeps k d ?d" by (rule transfer_spec[OF inv found(3,4) st]) simp
      have few: "length (data_banks ii ?d) < length (data_banks ii d)" by (rule transfer_fewer[OF inv found(3,2,4) st ii])
      from less.hyps[OF few keepsD(1)[OF K]] keepsD(5)[OF K] ii obtain d' where
        d': "\<forall>n>length (data_banks ii ?d). data_loop n ii ?d = Inr d'" "keeps k ?d d'" "bus_done ii d'" by auto
      have step: "data_loop (Suc n) ii d = data_loop n ii ?d" for n
        using found(1,4,6) av free a st by (simp add: req_of_def transfer_def)
      have "data_loop n ii d = Inr d'" if "n > length (data_banks ii d)" for n
        using that few step[of "n - 1"] d'(1)[rule_format, of "n - 1"] by (cases n) simp_all
      then show ?thesis using d'(2,3) keeps_trans[OF K] by blast
    qed
  qed
qed

lemma data_fuel: "length (data_banks ii d) \<le> dc_num_bank_per_channel d"
  using length_filter_le[of _ "channel_banks ii d"] by (simp add: data_banks_def channel_banks_def)

lemma channel_schedule_spec:
  assumes inv: "dram_inv k d"
  shows "\<exists>d'. channel_schedule k d = Inr d' \<and> keeps k d d'"
proof -
  have "\<exists>d1. fold_res (channel_cmd k) [0..<dc_num_channel d] d = Inr d1 \<and> keeps k d d1"
    by (rule fold_keeps[OF _ inv]) (use keepsD in \<open>auto intro: channel_cmd_spec\<close>)
  then obtain d1 where d1: "channel_schedule_cmd k d = Inr d1" "keeps k d d1" by (auto simp add: channel_schedule_cmd_def)
  have "\<exists>d2. fold_res (\<lambda>ii d. data_loop (dc_num_bank_per_channel d + 1) ii d) [0..<dc_num_channel d1] d1 = Inr d2 \<and> keeps k d1 d2"
  proof (rule fold_keeps[OF _ keepsD(1)[OF d1(2)]])
    fix x s
    assume "x \<in> set [0..<dc_num_channel d1]" "keeps k d1 s"
    then have "dram_inv k s" "x < dc_num_channel s" using keepsD[of k d1 s] by simp_all
    from data_loop_spec[OF this] obtain s' where "\<forall>n>length (data_banks x s). data_loop n x s = Inr s'" "keeps k s s'" by blast
    moreover have "length (data_banks x s) < dc_num_bank_per_channel s + 1" using data_fuel[of x s] by simp
    ultimately show "\<exists>s'. data_loop (dc_num_bank_per_channel s + 1) x s = Inr s' \<and> keeps k s s'" by blast
  qed
  then show ?thesis using d1 by (auto simp add: channel_schedule_def channel_schedule_data_def intro: keeps_trans)
qed

end
