(* ===== verification/DramCycle.thy ===== *)
theory DramCycle
  imports DramInv "HOL-Library.Product_Lexorder"
begin

text \<open>
  The properties of the memory controller: the network side, one whole cycle, the scheduling policy,
  the command protocol, the data bus and the address parsing.
\<close>

section \<open>The network side\<close>

text \<open>A network that also records what it accepted and what was taken from it.\<close>

definition logged :: "'n noc \<Rightarrow> ('n \<times> addr list \<times> addr list) noc" where
  "logged nw = \<lparr>noc_send = (\<lambda>r q (n, snt, rcv). let (ok, n') = noc_send nw r q n in (ok, (n', if ok then snt @ [r] else snt, rcv))),
     noc_receive = (\<lambda>(n, snt, rcv). noc_receive nw n),
     noc_pop = (\<lambda>(n, snt, rcv). (noc_pop nw n, snt, rcv @ (case noc_receive nw n of None \<Rightarrow> [] | Some r \<Rightarrow> [r])))\<rparr>"

definition reqs_only :: "dram \<Rightarrow> dram \<Rightarrow> bool" where
  "reqs_only d d' \<longleftrightarrow> (\<exists>f. d' = d\<lparr>dc_reqs := f\<rparr> \<and> (\<forall>r. mr_acc (f r) = mr_acc (dc_reqs d r)))"

lemma reqs_onlyD:
  assumes "reqs_only d d'"
  shows "mr_acc (dc_reqs d' r) = mr_acc (dc_reqs d r)" "dc_output d' = dc_output d"
proof -
  from assms obtain f where "d' = d\<lparr>dc_reqs := f\<rparr>" "\<forall>r. mr_acc (f r) = mr_acc (dc_reqs d r)" unfolding reqs_only_def by blast
  then show "mr_acc (dc_reqs d' r) = mr_acc (dc_reqs d r)" "dc_output d' = dc_output d" by simp_all
qed

lemma reqs_only_trans:
  assumes "reqs_only a b" "reqs_only b c"
  shows "reqs_only a c"
proof -
  from assms obtain f g where "b = a\<lparr>dc_reqs := f\<rparr>" "c = b\<lparr>dc_reqs := g\<rparr>"
    "\<forall>r. mr_acc (f r) = mr_acc (dc_reqs a r)" "\<forall>r. mr_acc (g r) = mr_acc (dc_reqs b r)" unfolding reqs_only_def by blast
  then show ?thesis unfolding reqs_only_def by (intro exI[of _ g]) simp
qed

lemma reqs_only_refl [simp]: "reqs_only d d"
  unfolding reqs_only_def by (rule exI[of _ "dc_reqs d"]) simp

lemma reqs_only_keeps:
  assumes "reqs_only d d'" "dram_inv k d"
  shows "dram_inv k d'" "same_cfg d d'" "inflight d' = inflight d" "outgoing d' = outgoing d" "dc_freed d' = dc_freed d"
    "dc_output d' = dc_output d" "dc_tmp_output d' = dc_tmp_output d" "dc_cycle d' = dc_cycle d"
  using assms by (auto simp add: reqs_only_def dram_inv_def same_cfg_def inflight_def outgoing_def)

text \<open>What a pass sends: requests of the allowed classes, each at most once, all of them accepted by the
  network; the pass marks the classes it met.\<close>

lemma send_pass_spec:
  assumes "send_pass (logged nw) allowed rs (checked, temp, d, (n, snt, rcv)) = (checked', temp', d', (n', snt', rcv'))"
  shows "\<exists>xs. temp' = temp @ xs \<and> snt' = snt @ xs \<and> rcv' = rcv \<and> reqs_only d d' \<and> mset xs \<subseteq># mset rs \<and>
    (\<forall>x\<in>set xs. allowed (mr_acc (dc_reqs d x)) \<and> checked' (mr_acc (dc_reqs d x))) \<and> (\<forall>t. checked t \<longrightarrow> checked' t)"
  using assms
proof (induction rs arbitrary: checked temp d n snt)
  case Nil
  then show ?case by simp
next
  case (Cons r rs)
  let ?acc = "mr_acc (dc_reqs d r)"
  show ?case
  proof (cases "allowed ?acc")
    case False
    with Cons.IH Cons.prems show ?thesis by (fastforce intro: subset_mset.order_trans)
  next
    case True
    define d1 where "d1 = upd_req r (\<lambda>q. q\<lparr>mr_msg_type := NOC_FILL\<rparr>) d"
    have acc: "mr_acc (dc_reqs d1 x) = mr_acc (dc_reqs d x)" for x by (simp add: d1_def upd_req_def)
    have ro: "reqs_only d d1" unfolding reqs_only_def d1_def upd_req_def
      by (rule exI[of _ "(dc_reqs d)(r := (dc_reqs d r)\<lparr>mr_msg_type := NOC_FILL\<rparr>)"]) simp
    note tr = reqs_only_trans[OF ro]
    obtain ok n1 where s: "noc_send nw r (dc_reqs d1 r) n = (ok, n1)" by fastforce
    show ?thesis
    proof (cases ok)
      case False
      with Cons.prems True s ro show ?thesis by (auto simp add: Let_def d1_def[symmetric] logged_def)
    next
      case ok: True
      with Cons.prems True s have "send_pass (logged nw) allowed rs (checked(?acc := True), temp @ [r], d1, (n1, snt @ [r], rcv)) =
          (checked', temp', d', (n', snt', rcv'))"
        by (simp add: Let_def d1_def[symmetric]) (simp add: logged_def)
      from Cons.IH[OF this] obtain xs where xs: "temp' = (temp @ [r]) @ xs" "snt' = (snt @ [r]) @ xs" "rcv' = rcv" "reqs_only d1 d'"
        "mset xs \<subseteq># mset rs" "\<forall>x\<in>set xs. allowed (mr_acc (dc_reqs d x)) \<and> checked' (mr_acc (dc_reqs d x))"
        "\<forall>t. (checked(?acc := True)) t \<longrightarrow> checked' t" unfolding acc by blast
      have "checked' ?acc" using spec[OF xs(7), of ?acc] by simp
      moreover have "checked t \<longrightarrow> checked' t" for t using spec[OF xs(7), of t] by (simp split: if_splits)
      ultimately show ?thesis using tr[OF xs(4)] True xs(1-3,5,6) by (intro exI[of _ "r # xs"]) simp
    qed
  qed
qed

lemma sub_distinct:
  assumes "mset xs \<subseteq># mset ys" "distinct ys"
  shows "distinct xs" "set xs \<subseteq> set ys"
proof -
  have "count (mset xs) x \<le> count (mset ys) x" for x using assms(1) by (simp add: mset_subset_eq_count)
  then show "distinct xs" using assms(2) unfolding distinct_count_atmost_1
    by (metis count_mset_0_iff dual_order.antisym le_0_eq less_one not_less)
  show "set xs \<subseteq> set ys" using assms(1) by (metis mset_subset_eqD set_mset_mset subsetI)
qed

lemma fold_removeAll: "fold removeAll xs ys = filter (\<lambda>y. y \<notin> set xs) ys"
  by (induction xs arbitrary: ys) (auto simp add: removeAll_filter_not_eq conj_commute intro: filter_cong)

lemma removeAll_split:
  assumes "distinct ys" "distinct xs" "set xs \<subseteq> set ys"
  shows "mset ys = mset (fold removeAll xs ys) + mset xs"
proof -
  have "filter (\<lambda>y. y \<in> set xs) ys = filter (\<lambda>y. y \<in> set xs) ys" ..
  have "mset (filter (\<lambda>y. y \<in> set xs) ys) = mset xs"
    using assms by (intro set_eq_iff_mset_eq_distinct[THEN iffD1]) auto
  then show ?thesis using multiset_partition[of "mset ys" "\<lambda>y. y \<notin> set xs"] by (simp add: fold_removeAll)
qed

lemma send_passes_spec:
  assumes "send_passes (logged nw) i (checked, temp, d, (n, snt, rcv)) = (checked', temp', d', (n', snt', rcv'))"
    "distinct (dc_output d)" "distinct temp" "set temp \<subseteq> set (dc_output d)" "\<forall>x\<in>set temp. checked (mr_acc (dc_reqs d x))"
  shows "\<exists>xs. temp' = temp @ xs \<and> snt' = snt @ xs \<and> rcv' = rcv \<and> reqs_only d d' \<and> distinct temp' \<and> set temp' \<subseteq> set (dc_output d)"
  using assms
proof (induction i arbitrary: checked temp d n snt)
  case 0
  then show ?case by simp
next
  case (Suc i)
  show ?case
  proof (cases "checked False \<and> checked True")
    case True
    with Suc.prems show ?thesis by simp
  next
    case False
    obtain c1 t1 d1 n1 s1 r1 where p: "send_pass (logged nw) (\<lambda>t. \<not> checked t) (dc_output d) (checked, temp, d, (n, snt, rcv)) = (c1, t1, d1, (n1, s1, r1))"
      by (metis prod_cases3)
    from send_pass_spec[OF p] obtain xs where xs: "t1 = temp @ xs" "s1 = snt @ xs" "r1 = rcv" "reqs_only d d1" "mset xs \<subseteq># mset (dc_output d)"
      "\<forall>x\<in>set xs. \<not> checked (mr_acc (dc_reqs d x)) \<and> c1 (mr_acc (dc_reqs d x))" "\<forall>t. checked t \<longrightarrow> c1 t" by auto
    note xd = sub_distinct[OF xs(5) Suc.prems(2)]
    have acc: "mr_acc (dc_reqs d1 x) = mr_acc (dc_reqs d x)" and out: "dc_output d1 = dc_output d" for x
      using xs(4) by (simp_all add: reqs_onlyD)
    have "distinct t1" using xd(1) Suc.prems(3,5) xs(1,6) by auto
    moreover have "set t1 \<subseteq> set (dc_output d1)" using xd(2) Suc.prems(4) xs(1) out by simp
    moreover have "\<forall>x\<in>set t1. c1 (mr_acc (dc_reqs d1 x))" using Suc.prems(5) xs(1,6,7) acc by auto
    moreover have "send_passes (logged nw) (Suc i) (checked, temp, d, (n, snt, rcv)) =
        send_passes (logged nw) i (send_pass (logged nw) (\<lambda>t. \<not> checked t) (dc_output d) (checked, temp, d, (n, snt, rcv)))"
      using False by (simp only: send_passes.simps if_False)
    then have "send_passes (logged nw) i (c1, t1, d1, (n1, s1, rcv)) = (checked', temp', d', (n', snt', rcv'))"
      unfolding p Suc.prems(1) xs(3) by (rule sym)
    ultimately obtain ys where "temp' = t1 @ ys" "snt' = s1 @ ys" "rcv' = rcv" "reqs_only d1 d'" "distinct temp'" "set temp' \<subseteq> set (dc_output d)"
      using Suc.IH[of c1 t1 d1 n1 s1] Suc.prems(2) out by auto
    then show ?thesis using xs(1,2) reqs_only_trans[OF xs(4)] by simp
  qed
qed

lemma dram_send_spec:
  assumes inv: "dram_inv k d" and dist: "distinct (dc_output d)"
    and s: "dram_send k (logged nw) (d, (n, snt, rcv)) = (d', (n', snt', rcv'))"
  shows "dram_inv k d' \<and> same_cfg d d' \<and> rcv' = rcv \<and> inflight d' = inflight d \<and> dc_tmp_output d' = dc_tmp_output d \<and> dc_freed d' = dc_freed d \<and>
    (\<exists>xs. snt' = snt @ xs \<and> mset (dc_output d) = mset (dc_output d') + mset xs)"
proof -
  obtain c t d1 n1 s1 r1 where p: "send_passes (logged nw) (if KNOB_ENABLE_NOC_VC_PARTITION k then 2 else 1) ((\<lambda>_. False), [], d, (n, snt, rcv)) =
      (c, t, d1, (n1, s1, r1))" by (metis prod_cases3)
  from send_passes_spec[OF p dist] have x: "s1 = snt @ t" "r1 = rcv" "reqs_only d d1" "distinct t" "set t \<subseteq> set (dc_output d)" by auto
  note R = reqs_only_keeps[OF x(3) inv]
  have d': "d' = d1\<lparr>dc_output := fold removeAll t (dc_output d1)\<rparr>" "snt' = s1" "rcv' = r1"
    using s p by (simp_all add: dram_send_def)
  then have "dram_inv k d'" "same_cfg d d'" "inflight d' = inflight d" "dc_tmp_output d' = dc_tmp_output d" "dc_freed d' = dc_freed d"
    using R by (simp_all add: dram_inv_def same_cfg_def inflight_def)
  then show ?thesis using removeAll_split[OF dist x(4,5)] d' x R(6) by simp
qed

lemma delay_packet_spec:
  assumes inv: "dram_inv k d" and dist: "\<And>t. dc_tmp_output d = Some t \<Longrightarrow> distinct t"
  shows "keeps k d (delay_packet d)"
proof (cases "dc_tmp_output d")
  case None
  then show ?thesis using inv by (simp add: delay_packet_def keeps_def)
next
  case (Some t)
  let ?due = "takeWhile (\<lambda>r. mr_rdy_cycle (dc_reqs d r) \<le> dc_cycle d) t"
  have "mset t = mset (fold removeAll ?due t) + mset ?due"
    by (rule removeAll_split[OF dist[OF Some]]) (use dist[OF Some] in \<open>auto dest: set_takeWhileD\<close>)
  then show ?thesis using inv Some
    by (simp add: delay_packet_def Let_def keeps_def dram_inv_def same_cfg_def accounted_def live_def inflight_def outgoing_def)
qed

section \<open>One cycle\<close>

definition live_distinct :: "dram \<Rightarrow> bool" where
  "live_distinct d \<longleftrightarrow> (\<forall>x. count (live d) x \<le> 1)"

lemma live_distinctD:
  assumes "live_distinct d"
  shows "distinct (dc_output d)" "dc_tmp_output d = Some t \<Longrightarrow> distinct t"
proof -
  have "count (mset xs) x \<le> 1" if "mset xs \<subseteq># live d" for xs x
    using mset_subset_eq_count[OF that, of x] assms by (auto simp add: live_distinct_def intro: order_trans)
  then have *: "distinct xs" if "mset xs \<subseteq># live d" for xs
    using that unfolding distinct_count_atmost_1 by (metis count_mset_0_iff le_neq_implies_less less_one)
  show "distinct (dc_output d)" by (rule *) (simp add: live_def outgoing_def)
  show "distinct t" if "dc_tmp_output d = Some t" by (rule *) (simp add: live_def outgoing_def that)
qed

lemma accounted_mono:
  assumes "same_cfg d d'" "accounted d' = accounted d + M"
  shows "live d' \<subseteq># live d + M"
  using assms by (auto simp add: same_cfg_def accounted_def union_ac subset_mset.add_increasing)
    (metis mset_subset_eq_add_left union_assoc union_commute union_right_cancel)

lemma live_distinct_mono: "live_distinct d \<Longrightarrow> live d' \<subseteq># live d \<Longrightarrow> live_distinct d'"
  unfolding live_distinct_def by (meson mset_subset_eq_count order_trans)

lemma dram_receive_spec:
  assumes inv: "dram_inv k d" and dist: "live_distinct d"
    and fresh: "\<And>r. noc_receive nw n = Some r \<Longrightarrow> r \<notin># live d"
  shows "\<exists>d' n' rcv'. dram_receive k (logged nw) (d, (n, snt, rcv)) = Inr (d', (n', snt, rcv')) \<and> dram_inv k d' \<and> same_cfg d d' \<and>
    accounted d' + mset rcv = accounted d + mset rcv' \<and> live_distinct d'"
proof (cases "noc_receive nw n")
  case None
  then show ?thesis using inv dist by (simp add: dram_receive_def logged_def)
next
  case (Some r)
  from insert_new_req_spec[OF inv, of r] obtain ok d' where i: "insert_new_req k r d = Inr (ok, d')" "dram_inv k d'" "same_cfg d d'"
    "accounted d' = (if ok then add_mset r (accounted d) else accounted d)" by blast
  let ?M = "if ok then {#r#} else {#}"
  have "live d' \<subseteq># live d + ?M" by (rule accounted_mono[OF i(3)]) (simp add: i(4))
  from mset_subset_eq_count[OF this] have "count (live d') x \<le> count (live d) x + count ?M x" for x by simp
  moreover have "count (live d) x + count ?M x \<le> 1" for x
    using dist fresh[OF Some] by (cases "x = r") (auto simp add: live_distinct_def not_in_iff)
  ultimately have "live_distinct d'" unfolding live_distinct_def by (meson order_trans)
  then show ?thesis using i Some by (cases ok) (simp_all add: dram_receive_def logged_def)
qed

lemma progress_check_spec:
  assumes "dc_starvation_cycle d < 4999"
  obtains s where "progress_check d = Inr (d\<lparr>dc_starvation_cycle := s\<rparr>)"
proof -
  have "progress_check d = Inr (d\<lparr>dc_starvation_cycle := if dc_total_req d > 0 \<and> dc_num_completed d = 0 then dc_starvation_cycle d + 1 else 0\<rparr>)"
    using assms by (simp add: progress_check_def Let_def)
  then show ?thesis by (rule that)
qed

lemma step_fields:
  "dram_inv k (d\<lparr>dc_starvation_cycle := s\<rparr>) = dram_inv k d" "accounted (d\<lparr>dc_starvation_cycle := s\<rparr>) = accounted d"
  "live_distinct (d\<lparr>dc_starvation_cycle := s\<rparr>) = live_distinct d"
  "dram_inv k (d\<lparr>dc_cycle := c\<rparr>) = dram_inv k d" "accounted (d\<lparr>dc_cycle := c\<rparr>) = accounted d"
  "live_distinct (d\<lparr>dc_cycle := c\<rparr>) = live_distinct d"
  by (simp_all add: dram_inv_def accounted_def live_distinct_def live_def inflight_def outgoing_def)

text \<open>C2. One cycle of the memory controller, from any state that satisfies the invariant with every
  request present at most once and less than 4999 starved cycles: no assertion fails, no pointer is null and
  no index is out of bounds; the invariant holds again; and no request is lost or duplicated: what the
  controller holds or has freed, plus what the network accepted, is what it held or had freed before plus
  what it took from the network. The network is arbitrary (\<open>logged\<close> only records its traffic); a
  request it delivers must not be inside the controller already.\<close>

theorem dram_cycle_conserves:
  assumes "dram_inv k d" "live_distinct d" "dc_cycle d \<noteq> ULLONG_MAX" "dc_starvation_cycle d < 4999"
    and "\<forall>r. noc_receive nw (fst (snd (dram_send k (logged nw) (d, (n, snt, rcv))))) = Some r \<longrightarrow> r \<notin># live d"
  shows "\<exists>d' n' snt' rcv'. dram_run_a_cycle pol k (logged nw) pll_lock (d, (n, snt, rcv)) = Inr (d', (n', snt', rcv')) \<and>
    dram_inv k d' \<and> live_distinct d' \<and> dc_cycle d' = dc_cycle d + 1 \<and>
    accounted d' + mset snt' + mset rcv = accounted d + mset snt + mset rcv'"
proof (cases pll_lock)
  case True
  then show ?thesis using assms(1,2) by (simp add: dram_run_a_cycle_def step_fields)
next
  case False
  obtain d1 n1 s1 r1 where send: "dram_send k (logged nw) (d, (n, snt, rcv)) = (d1, (n1, s1, r1))" by (metis prod_cases3)
  note L = live_distinctD[OF assms(2)]
  from dram_send_spec[OF assms(1) L(1) send] obtain xs where S: "dram_inv k d1" "same_cfg d d1" "r1 = rcv" "inflight d1 = inflight d"
    "dc_tmp_output d1 = dc_tmp_output d" "dc_freed d1 = dc_freed d" "s1 = snt @ xs" "mset (dc_output d) = mset (dc_output d1) + mset xs" by blast
  have A1: "accounted d = accounted d1 + mset xs" using S by (simp add: accounted_def live_def outgoing_def ac_simps)
  have D1: "live_distinct d1" by (rule live_distinct_mono[OF assms(2)]) (simp add: S live_def outgoing_def)
  have K2: "keeps k d1 (delay_packet d1)" by (rule delay_packet_spec[OF S(1)]) (use L(2) S(5) in simp)
  from channel_schedule_spec[OF keepsD(1)[OF K2]] obtain d3 where d3: "channel_schedule k (delay_packet d1) = Inr d3" "keeps k (delay_packet d1) d3" by blast
  have K3: "keeps k d1 d3" by (rule keeps_trans[OF K2 d3(2)])
  have cyc: "dc_cycle d3 \<noteq> ULLONG_MAX" using keepsD(7)[OF K3] S(2) assms(3) by (simp add: same_cfg_def)
  from bank_schedule_spec[OF keepsD(1)[OF K3] cyc, of pol] obtain d4 where d4: "bank_schedule pol k d3 = Inr d4" "keeps k d3 d4" by blast
  note K4 = keepsD[OF keeps_trans[OF K3 d4(2)]]
  have sub: "live d4 \<subseteq># live d1" using accounted_mono[OF K4(2), of "{#}"] K4(3) by simp
  have D4: "live_distinct d4" by (rule live_distinct_mono[OF D1 sub])
  have "live d1 \<subseteq># live d" by (simp add: S live_def outgoing_def)
  then have "r \<notin># live d4" if "noc_receive nw n1 = Some r" for r
    using assms(5) that sub by (auto simp add: send dest: mset_subset_eqD)
  from dram_receive_spec[where nw = nw and snt = s1 and rcv = rcv, OF K4(1) D4 this] obtain d5 n2 rcv' where d5: "dram_receive k (logged nw) (d4, (n1, s1, rcv)) = Inr (d5, (n2, s1, rcv'))"
    "dram_inv k d5" "same_cfg d4 d5" "accounted d5 + mset rcv = accounted d4 + mset rcv'" "live_distinct d5"
    by blast
  have cfg: "same_cfg d d5" using same_cfg_trans[OF same_cfg_trans[OF S(2) K4(2)] d5(3)] .
  then obtain s where p: "progress_check d5 = Inr (d5\<lparr>dc_starvation_cycle := s\<rparr>)"
    using progress_check_spec[of d5] assms(4) by (auto simp add: same_cfg_def)
  have "dram_run_a_cycle pol k (logged nw) pll_lock (d, (n, snt, rcv)) =
      Inr (d5\<lparr>dc_starvation_cycle := s, dc_cycle := dc_cycle d5 + 1\<rparr>, (n2, s1, rcv'))"
    using False send d3(1) d4(1) d5(1) p S(3) by (simp add: dram_run_a_cycle_def)
  moreover have "accounted d5 + mset s1 + mset rcv = accounted d + mset snt + mset rcv'"
    using d5(4) A1 K4(3) by (simp add: S(7) ac_simps)
  ultimately show ?thesis using d5(2,5) cfg by (simp add: step_fields same_cfg_def)
qed

section \<open>Construction\<close>

lemma concat_blocks: "concat (map (\<lambda>i. [i * sz..<(i + 1) * sz]) [0..<n]) = [0..<n * sz]"
proof (induction n)
  case (Suc n)
  then show ?case using upt_add_eq_append[of 0 "n * sz" sz] by (simp add: add.commute)
qed simp

lemma bank_mask_in:
  assumes "0 < n" "n < 2 ^ 32"
  shows "unat (N_BIT_MASK (lg (of_nat n))) < n"
proof -
  have u: "unat (of_nat n :: uns32) = n" using assms(2) by (simp add: unat_of_nat)
  then have "(of_nat n :: uns32) \<noteq> 0" using assms(1) by auto
  note L = log2_int_bounds[OF this]
  have "unat (mask (lg (of_nat n)) :: uns64) < 2 ^ lg (of_nat n)"
    using unat_and_mask[of "mask (lg (of_nat n)) :: uns64" "lg (of_nat n)"] by simp (metis mod_less_divisor zero_less_numeral zero_less_power)
  then show ?thesis using L(1) u by (simp add: N_BIT_MASK_mask lg_def)
qed

lemma dram_ctrl_inv:
  assumes "0 < KNOB_DRAM_NUM_CHANNEL k" "0 < KNOB_DRAM_BUS_WIDTH k" "0 < KNOB_DRAM_NUM_BANKS k" "KNOB_DRAM_NUM_BANKS k < 2 ^ 32"
    "KNOB_DEFAULT_INTERLEAVING k \<or> KNOB_NEW_INTERLEAVING_DIFF_GRANULARITY k \<or> KNOB_NEW_INTERLEAVING_SAME_GRANULARITY k"
  shows "dram_inv k (dram_ctrl_c k junk js jn je reqs) \<and> live_distinct (dram_ctrl_c k junk js jn je reqs) \<and>
    accounted (dram_ctrl_c k junk js jn je reqs) = {#}"
proof -
  let ?d = "dram_ctrl_c k junk js jn je reqs" and ?n = "KNOB_DRAM_NUM_BANKS k" and ?sz = "KNOB_DRAM_BUFFER_SIZE k"
  have num: "dc_num_bank ?d = ?n" "dc_num_channel ?d = KNOB_DRAM_NUM_CHANNEL k" "dc_num_bank_per_channel ?d = ?n div KNOB_DRAM_NUM_CHANNEL k"
    "dc_bus_width ?d = KNOB_DRAM_BUS_WIDTH k" "length (dc_banks ?d) = ?n" "length (dc_channels ?d) = KNOB_DRAM_NUM_CHANNEL k"
    "dc_total_req ?d = 0" "dc_output ?d = []" "dc_freed ?d = []"
    "dc_tmp_output ?d = None \<or> dc_tmp_output ?d = Some []"
    by (simp_all add: dram_ctrl_c_def Let_def split: prod.splits)
  have bank: "dc_banks ?d ! i = \<lparr>bk_buffer = [], bk_free = [i * ?sz..<(i + 1) * ?sz], bk_current = None, bk_current_rid = ULLONG_MAX,
      bk_data_ready = ULLONG_MAX, bk_data_avail = ULLONG_MAX, bk_bank_ready = ULLONG_MAX, bk_timestamp = 0\<rparr>" if "i < ?n" for i
    using that by (simp add: dram_ctrl_c_def Let_def split: prod.splits)
  have ents: "map bank_entries (dc_banks ?d) = map (\<lambda>i. [i * ?sz..<(i + 1) * ?sz]) [0..<?n]"
    by (rule nth_equalityI) (simp_all add: num bank bank_entries_def busy_def)
  have "map (bank_reqs (dc_ents ?d)) (dc_banks ?d) = replicate ?n {#}"
    by (rule nth_equalityI) (simp_all add: num bank bank_reqs_def busy_def)
  moreover have "sum_list (replicate m {#}) = ({#} :: addr multiset)" for m by (induction m) simp_all
  ultimately have fl: "inflight ?d = {#}" by (simp add: inflight_def)
  have "fst (snd (address_fields k junk)) = N_BIT_MASK (lg (of_nat ?n))" using assms(5) by (auto simp add: address_fields_def Let_def)
  then have "dc_bid_mask ?d = N_BIT_MASK (lg (of_nat ?n))" by (auto simp add: dram_ctrl_c_def Let_def split: prod.splits)
  then have "unat (dc_bid_mask ?d) < ?n" using bank_mask_in[OF assms(3,4)] by simp
  moreover have "distinct (concat (map bank_entries (dc_banks ?d)))" unfolding ents concat_blocks by simp
  ultimately have "dram_inv k ?d" using assms(2) fl
    by (simp add: dram_inv_def num bank bank_ok_def bank_entries_def busy_def)
  then show ?thesis using fl num(8-10) by (auto simp add: live_distinct_def accounted_def live_def outgoing_def)
qed

text \<open>C23. The constructor establishes the invariant of the controller and an empty account, for any
  positive number of channels and banks and either address interleaving, whatever the members it leaves
  uninitialised hold.\<close>

theorem dram_ctrl_establishes_inv:
  assumes "0 < KNOB_DRAM_NUM_CHANNEL k" "0 < KNOB_DRAM_BUS_WIDTH k" "0 < KNOB_DRAM_NUM_BANKS k" "KNOB_DRAM_NUM_BANKS k < 2 ^ 32"
    "KNOB_DEFAULT_INTERLEAVING k \<or> KNOB_NEW_INTERLEAVING_DIFF_GRANULARITY k \<or> KNOB_NEW_INTERLEAVING_SAME_GRANULARITY k"
  shows "dram_inv k (dram_ctrl_c k junk js jn je reqs) \<and> live_distinct (dram_ctrl_c k junk js jn je reqs) \<and>
    accounted (dram_ctrl_c k junk js jn je reqs) = {#}"
  by (rule dram_ctrl_inv[OF assms])

section \<open>The FR-FCFS policy\<close>

text \<open>The reference order: demands before prefetches, then accesses to the open row, then the oldest.\<close>

definition frfcfs_key :: "dram \<Rightarrow> nat \<Rightarrow> addr \<Rightarrow> bool \<times> bool \<times> Counter" where
  "frfcfs_key d j e =
     (mr_type (dc_reqs d (the (de_req (dc_ents d e)))) = MRT_DPRF,
      de_rid (dc_ents d e) \<noteq> bk_current_rid (dc_banks d ! j), de_timestamp (dc_ents d e))"

lemma int_rid_small:
  assumes "unat rid < 2 ^ 31"
  shows "int_rid rid = rid"
proof -
  have "take_bit 31 rid = rid"
    using assms by (intro unsigned_word_eqI[where ?'a = nat]) (simp only: unsigned_take_bit_eq take_bit_nat_eq_self)
  then have "\<not> bit rid n" if "31 \<le> n" for n using that by (metis bit_take_bit_iff not_less)
  then show ?thesis
    by (intro bit_eqI) (auto simp add: int_rid_def bit_simps min_def)
qed

lemma int_rid_none: "int_rid ULLONG_MAX = ULLONG_MAX"
  unfolding int_rid_def ULLONG_MAX_def by simp

lemma sort_func_key:
  assumes "unat (de_bid (dc_ents d a)) = j" "int_rid (bk_current_rid (dc_banks d ! j)) = bk_current_rid (dc_banks d ! j)"
  shows "sort_func d a b \<longleftrightarrow> frfcfs_key d j a < frfcfs_key d j b"
  using assms by (auto simp add: sort_func_def frfcfs_key_def Let_def)

text \<open>C13. While the open row's id is below \<open>2 ^ 31\<close> (or no row is open), the FR-FCFS
  scheduler reorders the bank's buffer exactly as the stable sort by the reference order does, and returns
  the entry that order prefers: no waiting demand is passed over for a prefetch, no access to the open row
  for a row conflict of the same kind, and among equals the oldest is taken.\<close>

theorem frfcfs_schedule_equiv:
  assumes "dram_inv k d" "j < dc_num_bank d" "bk_buffer (dc_banks d ! j) \<noteq> []"
    and "unat (bk_current_rid (dc_banks d ! j)) < 2 ^ 31 \<or> bk_current_rid (dc_banks d ! j) = ULLONG_MAX"
  shows "\<exists>e d'. schedule FRFCFS j d = Inr (e, d') \<and>
    bk_buffer (dc_banks d' ! j) = sort_key (frfcfs_key d j) (bk_buffer (dc_banks d ! j)) \<and>
    e \<in> set (bk_buffer (dc_banks d ! j)) \<and>
    (\<forall>e'\<in>set (bk_buffer (dc_banks d ! j)). frfcfs_key d j e \<le> frfcfs_key d j e')"
proof -
  let ?buf = "bk_buffer (dc_banks d ! j)"
  have rid: "int_rid (bk_current_rid (dc_banks d ! j)) = bk_current_rid (dc_banks d ! j)"
    using assms(4) int_rid_small int_rid_none by metis
  have own: "\<forall>e\<in>set ?buf. de_req (dc_ents d e) \<noteq> None \<and> unat (de_bid (dc_ents d e)) = j"
    using dram_invD(5)[OF assms(1,2)] by (simp add: bank_ok_def busy_def)
  then have sorted: "list_sort (sort_func d) ?buf = sort_key (frfcfs_key d j) ?buf"
    using rid by (intro list_sort_key) (simp add: sort_func_key)
  note chk = buffer_checks[OF assms(1,2)]
  have ne: "sort_key (frfcfs_key d j) ?buf \<noteq> []" using assms(3) by (metis length_sort length_0_conv)
  have "frfcfs_key d j (hd (sort_key (frfcfs_key d j) ?buf)) \<le> frfcfs_key d j e'" if "e' \<in> set ?buf" for e'
  proof -
    obtain x xs where x: "sort_key (frfcfs_key d j) ?buf = x # xs" using ne by (cases "sort_key (frfcfs_key d j) ?buf") auto
    have "sorted (map (frfcfs_key d j) (x # xs))" using sorted_sort_key[of "frfcfs_key d j" ?buf] x by simp
    moreover have "e' \<in> set (x # xs)" using that x by (metis set_sort)
    ultimately show ?thesis by (auto simp add: x)
  qed
  moreover have "hd (sort_key (frfcfs_key d j) ?buf) \<in> set ?buf" using hd_in_set[OF ne] by simp
  ultimately show ?thesis
    using chk assms(2,3) dram_invD(1)[OF assms(1)] by (simp add: schedule_def schedule_frfcfs_def Let_def sorted upd_bank_def)
qed

lemma bit_below: "unat w < 2 ^ m \<Longrightarrow> m \<le> n \<Longrightarrow> \<not> bit w n" for w :: uns64
proof -
  assume "unat w < 2 ^ m" "m \<le> n"
  then have "take_bit m w = w" by (intro unsigned_word_eqI[where ?'a = nat]) (simp only: unsigned_take_bit_eq take_bit_nat_eq_self)
  then show "\<not> bit w n" using \<open>m \<le> n\<close> by (metis bit_take_bit_iff not_less)
qed

lemma int_rid_big:
  assumes "2 ^ 31 \<le> unat rid" "unat rid < 2 ^ 32"
  shows "bit (int_rid rid) 63"
proof -
  have "unat rid div 2 ^ 31 = 1" using assms by (intro div_nat_eqI) simp_all
  then have "bit (unat rid) 31" by (simp add: bit_iff_odd)
  then have "bit rid 31" by (simp add: bit_unsigned_iff)
  then show ?thesis by (simp add: int_rid_def bit_simps)
qed

text \<open>The comparison keeps the open row's id in a 32-bit \<^verbatim>\<open>int\<close>: when that id is \<open>2 ^ 31\<close>
  or more (and below \<open>2 ^ 32\<close>), an access to the open row is not recognised, and an older demand for another row
  is sorted before it, against the policy.\<close>

theorem row_hit_lost:
  assumes "unat (de_bid (dc_ents d a)) = j" "unat (de_bid (dc_ents d b)) = j"
    and "2 ^ 31 \<le> unat (bk_current_rid (dc_banks d ! j))" "unat (bk_current_rid (dc_banks d ! j)) < 2 ^ 32"
    and "mr_type (dc_reqs d (the (de_req (dc_ents d a)))) \<noteq> MRT_DPRF" "mr_type (dc_reqs d (the (de_req (dc_ents d b)))) \<noteq> MRT_DPRF"
    and "de_rid (dc_ents d a) = bk_current_rid (dc_banks d ! j)" "de_rid (dc_ents d b) \<noteq> bk_current_rid (dc_banks d ! j)"
    and "unat (de_rid (dc_ents d b)) < 2 ^ 32" "de_timestamp (dc_ents d b) < de_timestamp (dc_ents d a)"
  shows "frfcfs_key d j a < frfcfs_key d j b \<and> \<not> sort_func d a b \<and> sort_func d b a"
proof -
  let ?r = "bk_current_rid (dc_banks d ! j)"
  have "bit (int_rid ?r) 63" by (rule int_rid_big[OF assms(3,4)])
  moreover have "\<not> bit ?r 63" "\<not> bit (de_rid (dc_ents d b)) 63" by (rule bit_below[where m = 32], use assms(4,9) in simp_all)+
  ultimately have "?r \<noteq> int_rid ?r" "de_rid (dc_ents d b) \<noteq> int_rid ?r" by metis+
  then show ?thesis using assms by (auto simp add: frfcfs_key_def sort_func_def Let_def)
qed

section \<open>The channels\<close>

text \<open>C22. The loop that hands out the data bus of a channel ends: with at least one more round
  than the channel has banks the loop gives the same result for any fuel, and it stops because the bus is
  taken for the coming cycles or because no bank has data to transfer.\<close>

theorem data_loop_terminates:
  assumes "dram_inv k d" "ii < dc_num_channel d"
  shows "\<exists>d'. (\<forall>n>dc_num_bank_per_channel d. data_loop n ii d = Inr d') \<and> dram_inv k d' \<and> accounted d' = accounted d \<and>
    (dc_cycle d' < ch_dbus_ready (dc_channels d' ! ii) \<or>
     (\<forall>j\<in>set (channel_banks ii d'). candidate (has_data d') d' j \<longrightarrow> bk_timestamp (dc_banks d' ! j) = ULLONG_MAX))"
proof -
  from data_loop_spec[OF assms] obtain d' where d': "\<forall>n>length (data_banks ii d). data_loop n ii d = Inr d'" "keeps k d d'" "bus_done ii d'" by blast
  have "\<forall>n>dc_num_bank_per_channel d. data_loop n ii d = Inr d'" using d'(1) data_fuel[of ii d] by (meson le_less_trans)
  then show ?thesis using d'(3) keepsD[OF d'(2)] unfolding bus_done_def by blast
qed

text \<open>C15. In each cycle a channel issues at most one command, to the bank with a pending command
  that has waited longest; no other bank and no other entry changes. The command is an activate when no row
  is open, a column access when the open row is the request's, and a precharge otherwise; the bank is busy
  for the latency of that command, and only a column access makes data available.\<close>

theorem command_protocol:
  assumes "dram_inv k d" "ii < dc_num_channel d"
  shows "\<exists>d'. channel_cmd k ii d = Inr d' \<and>
    ((d' = d \<and> (\<forall>j\<in>set (channel_banks ii d). candidate (wants_command d) d j \<longrightarrow> bk_timestamp (dc_banks d ! j) = ULLONG_MAX)) \<or>
     (\<exists>j\<in>set (channel_banks ii d). \<exists>c. bk_current (dc_banks d ! j) = Some c \<and> de_state (dc_ents d c) = DRAM_CMD \<and>
       (\<forall>i\<in>set (channel_banks ii d). candidate (wants_command d) d i \<longrightarrow> bk_timestamp (dc_banks d ! j) \<le> bk_timestamp (dc_banks d ! i)) \<and>
       (\<forall>i. i \<noteq> j \<longrightarrow> dc_banks d' ! i = dc_banks d ! i) \<and> (\<forall>x. x \<noteq> c \<longrightarrow> dc_ents d' x = dc_ents d x) \<and>
       (let b = dc_banks d ! j; b' = dc_banks d' ! j; rid = de_rid (dc_ents d c); s = de_state (dc_ents d' c)
        in if bk_current_rid b = ULLONG_MAX
           then s = DRAM_CMD_WAIT \<and> bk_current_rid b' = rid \<and> bk_bank_ready b' = dc_cycle d + KNOB_DRAM_ACTIVATE k \<and> bk_data_avail b' = ULLONG_MAX
           else if bk_current_rid b = rid
           then s = DRAM_DATA \<and> bk_current_rid b' = rid \<and> bk_bank_ready b' = dc_cycle d + KNOB_DRAM_COLUMN k \<and> bk_data_avail b' = bk_bank_ready b'
           else s = DRAM_CMD_WAIT \<and> bk_current_rid b' = ULLONG_MAX \<and> bk_bank_ready b' = dc_cycle d + KNOB_DRAM_PRECHARGE k \<and> bk_data_avail b' = ULLONG_MAX)))"
  using assms
proof (cases rule: oldest_in_channel[where P = "wants_command d"])
  case none
  then show ?thesis by (simp add: channel_cmd_def)
next
  case (found j c r)
  define d' where "d' = issue_command k j c (upd_req r (\<lambda>q. q\<lparr>mr_state := MEM_DRAM_CMD\<rparr>) d)"
  have st: "de_state (dc_ents d c) = DRAM_CMD" using found(5) by (simp add: wants_command_def)
  have run: "channel_cmd k ii d = Inr d'" using found(1,4,6) st by (simp add: channel_cmd_def req_of_def d'_def)
  have jl: "j < length (dc_banks d)" using found(3) dram_invD(1)[OF assms(1)] by simp
  note defs = d'_def issue_command_def Let_def upd_bank_def upd_ent_def upd_req_def
  have "\<forall>i. i \<noteq> j \<longrightarrow> dc_banks d' ! i = dc_banks d ! i" "\<forall>x. x \<noteq> c \<longrightarrow> dc_ents d' x = dc_ents d x" by (simp_all add: defs)
  moreover have "let b = dc_banks d ! j; b' = dc_banks d' ! j; rid = de_rid (dc_ents d c); s = de_state (dc_ents d' c)
        in if bk_current_rid b = ULLONG_MAX
           then s = DRAM_CMD_WAIT \<and> bk_current_rid b' = rid \<and> bk_bank_ready b' = dc_cycle d + KNOB_DRAM_ACTIVATE k \<and> bk_data_avail b' = ULLONG_MAX
           else if bk_current_rid b = rid
           then s = DRAM_DATA \<and> bk_current_rid b' = rid \<and> bk_bank_ready b' = dc_cycle d + KNOB_DRAM_COLUMN k \<and> bk_data_avail b' = bk_bank_ready b'
           else s = DRAM_CMD_WAIT \<and> bk_current_rid b' = ULLONG_MAX \<and> bk_bank_ready b' = dc_cycle d + KNOB_DRAM_PRECHARGE k \<and> bk_data_avail b' = ULLONG_MAX"
    using jl by (simp add: defs)
  ultimately show ?thesis using run found(2,4,7) st by blast
qed

section \<open>Address parsing\<close>

text \<open>The address of a column of a row of a bank.\<close>

definition unparse_addr :: "dram_knobs \<Rightarrow> Addr \<times> Addr \<times> Addr \<Rightarrow> dram \<Rightarrow> Addr" where
  "unparse_addr k = (\<lambda>(bid, rid, cid) d.
     let bid_xor = drop_bit (dc_bid_xor_shift d - dc_bid_shift d - dc_rid_shift d) rid AND dc_bid_mask d;
         b = (if KNOB_DRAM_BANK_XOR_INDEX k then bid XOR bid_xor else bid)
     in push_bit (dc_bid_shift d) (push_bit (dc_rid_shift d) rid OR b) OR cid)"

lemma push_drop_or: "push_bit n (drop_bit n w) OR (w AND mask n) = w" for w :: uns64
  by (rule bit_eqI) (auto simp add: bit_simps)

lemma xor_cancel: "(x XOR y) XOR y = x" for x y :: uns64
  by (simp add: xor.assoc)

lemma ctrl_fields:
  assumes "KNOB_DEFAULT_INTERLEAVING k"
  shows "dc_cid_mask (dram_ctrl_c k junk js jn je reqs) = mask (lg (KNOB_DRAM_ROWBUFFER_SIZE k))"
    "dc_bid_mask (dram_ctrl_c k junk js jn je reqs) = mask (lg (of_nat (KNOB_DRAM_NUM_BANKS k)))"
    "dc_bid_shift (dram_ctrl_c k junk js jn je reqs) = lg (KNOB_DRAM_ROWBUFFER_SIZE k)"
    "dc_rid_shift (dram_ctrl_c k junk js jn je reqs) = lg (of_nat (KNOB_DRAM_NUM_BANKS k))"
    "dc_bid_xor_shift (dram_ctrl_c k junk js jn je reqs) = lg (KNOB_LLC_LINE_SIZE k) + lg 512"
  using assms by (simp_all add: dram_ctrl_c_def address_fields_def Let_def N_BIT_MASK_mask)

text \<open>C24. With the default interleaving and a power of two of memory controllers, an address is
  recovered from the bank, row and column the controller parses it into, so different addresses never share
  all three; and the bank is one of the controller's. With XOR-indexed banks this needs the XOR bits above
  the bank bits.\<close>

theorem parse_addr_roundtrip:
  assumes "KNOB_DEFAULT_INTERLEAVING k" "KNOB_DRAM_NUM_MC k AND (KNOB_DRAM_NUM_MC k - 1) = 0"
    and "0 < KNOB_DRAM_NUM_BANKS k" "KNOB_DRAM_NUM_BANKS k < 2 ^ 32"
    and "KNOB_DRAM_BANK_XOR_INDEX k \<Longrightarrow>
      lg (KNOB_DRAM_ROWBUFFER_SIZE k) + lg (of_nat (KNOB_DRAM_NUM_BANKS k)) \<le> lg (KNOB_LLC_LINE_SIZE k) + lg 512"
  shows "unparse_addr k (parse_addr k a (dram_ctrl_c k junk js jn je reqs)) (dram_ctrl_c k junk js jn je reqs) = a \<and>
    unat (fst (parse_addr k a (dram_ctrl_c k junk js jn je reqs))) < KNOB_DRAM_NUM_BANKS k"
proof -
  let ?d = "dram_ctrl_c k junk js jn je reqs"
  let ?row = "lg (KNOB_DRAM_ROWBUFFER_SIZE k)" and ?bk = "lg (of_nat (KNOB_DRAM_NUM_BANKS k))" and ?x = "lg (KNOB_LLC_LINE_SIZE k) + lg 512"
  note F = ctrl_fields[OF assms(1), of junk js jn je reqs]
  have x: "drop_bit (?x - ?row - ?bk) (drop_bit ?bk (drop_bit ?row a)) = drop_bit ?x a" if "KNOB_DRAM_BANK_XOR_INDEX k"
    using assms(5)[OF that] by (simp add: drop_bit_drop_bit)
  have "unparse_addr k (parse_addr k a ?d) ?d = push_bit ?row (push_bit ?bk (drop_bit ?bk (drop_bit ?row a)) OR (drop_bit ?row a AND mask ?bk)) OR (a AND mask ?row)"
    using assms(2) x by (cases "KNOB_DRAM_BANK_XOR_INDEX k") (simp_all add: unparse_addr_def parse_addr_def Let_def F xor_cancel)
  also have "\<dots> = a" by (simp only: push_drop_or)
  finally have "unparse_addr k (parse_addr k a ?d) ?d = a" .
  moreover have "unat (fst (parse_addr k a ?d)) \<le> unat (dc_bid_mask ?d)" by (cases "parse_addr k a ?d") (simp add: parse_bid)
  ultimately show ?thesis using bank_mask_in[OF assms(3,4)] by (simp add: F(2) N_BIT_MASK_mask)
qed

section \<open>A controller with one bank\<close>

text \<open>Two requests wait and a third is in service in the state \<open>st\<close>; the row \<open>rid\<close> is open, the
  second request is for it and the first, older one is not.\<close>

definition one_bank :: dram_knobs where
  "one_bank = \<lparr>KNOB_DRAM_NUM_BANKS = 1, KNOB_DRAM_NUM_CHANNEL = 1, KNOB_DRAM_BUS_WIDTH = 4, KNOB_DRAM_BUFFER_SIZE = 3,
     KNOB_DRAM_ROWBUFFER_SIZE = 2048, KNOB_DRAM_NUM_MC = 1, KNOB_LLC_LINE_SIZE = 64, KNOB_NUM_LLC = 1, KNOB_LLC_NUM_SET = 1024,
     KNOB_DEFAULT_INTERLEAVING = True, KNOB_NEW_INTERLEAVING_DIFF_GRANULARITY = False, KNOB_NEW_INTERLEAVING_SAME_GRANULARITY = False,
     KNOB_DRAM_BANK_XOR_INDEX = True, KNOB_DRAM_MERGE_REQUESTS = True, KNOB_DRAM_PRECHARGE = 10, KNOB_DRAM_ACTIVATE = 25,
     KNOB_DRAM_COLUMN = 10, KNOB_DRAM_ADDITIONAL_LATENCY = 5, KNOB_MEE_BYPASS = True, KNOB_ENABLE_NOC_VC_PARTITION = True\<rparr>"

definition one_entry :: "DRAM_STATE \<Rightarrow> uns64 \<Rightarrow> addr \<Rightarrow> drb_entry" where
  "one_entry st rid e = \<lparr>de_id = int e, de_state = (if e = 2 then st else DRAM_INIT), de_addr = of_nat e, de_bid = 0,
     de_rid = (if e = 0 then 3 else rid), de_cid = 0, de_core_id = 0, de_thread_id = 0, de_appl_id = 0, de_read = True, de_req = Some (10 + e),
     de_priority = 0, de_size = 64, de_timestamp = of_nat e, de_scheduled = 0, de_invisible = False\<rparr>"

definition one_req :: mem_req where
  "one_req = \<lparr>mr_id = 0, mr_appl_id = 0, mr_core_id = 0, mr_thread_id = 0, mr_block_id = 0, mr_state = MEM_DRAM_START, mr_type = MRT_DFETCH,
     mr_with_data = False, mr_priority = 0, mr_addr = 0, mr_size = 64, mr_rdy_cycle = 0, mr_pc = 0, mr_prefetcher_id = 0, mr_pref_loadPC = 0,
     mr_acc = False, mr_queue = None, mr_cache_id = replicate 6 0, mr_uop = None, mr_in = 0, mr_core_in = 0, mr_in_global = 0, mr_dirty = False,
     mr_done = False, mr_merged_req = None, mr_msg_type = NOC_NEW, mr_msg_src = 0, mr_msg_dst = 0, mr_bypass = 0, mr_skip = False,
     mr_noc_type = 0, mr_noc_cycle = 0, mr_insert_cycle = 0, mr_parent = None, mr_is_metadata = False, mr_is_trigger_req = False,
     mr_is_trigger_resp = False, mr_done_func = None, mr_merge = []\<rparr>"

definition one_dram :: "DRAM_STATE \<Rightarrow> uns64 \<Rightarrow> dram" where
  "one_dram st rid = \<lparr>dc_banks = [\<lparr>bk_buffer = [0, 1], bk_free = [], bk_current = Some 2, bk_current_rid = rid,
       bk_data_ready = ULLONG_MAX, bk_data_avail = 90, bk_bank_ready = 90, bk_timestamp = 80\<rparr>],
     dc_channels = [\<lparr>ch_byte_avail = 4, ch_dbus_ready = 0\<rparr>], dc_num_bank = 1, dc_num_channel = 1, dc_num_bank_per_channel = 1,
     dc_bus_width = 4, dc_cid_mask = 2047, dc_bid_mask = 0, dc_bid_shift = 11, dc_rid_shift = 0, dc_bid_xor_shift = 15,
     dc_num_completed = 0, dc_starvation_cycle = 20, dc_total_req = 3, dc_cycle = 100, dc_output = [20, 21], dc_tmp_output = Some [22],
     dc_ents = one_entry st rid, dc_reqs = (\<lambda>_. one_req), dc_unique_id = 3, dc_freed = []\<rparr>"

definition busy_noc :: "nat noc" where
  "busy_noc = \<lparr>noc_send = (\<lambda>r q n. (n < 1, n + 1)), noc_receive = (\<lambda>n. Some 30), noc_pop = (\<lambda>n. n)\<rparr>"

lemma one_dram_inv:
  assumes "st \<in> {DRAM_CMD, DRAM_CMD_WAIT, DRAM_DATA}"
  shows "dram_inv one_bank (one_dram st rid)"
  using assms by (auto simp add: dram_inv_def one_dram_def one_bank_def bank_ok_def cur_ok_def bank_entries_def busy_def one_entry_def
    inflight_def bank_reqs_def)

lemma one_dram_live: "live (one_dram st rid) = {#10, 11, 12, 20, 21, 22#}"
  by (simp add: one_dram_def live_def inflight_def outgoing_def bank_reqs_def busy_def one_entry_def)

lemma one_dram_distinct: "live_distinct (one_dram st rid)"
  by (simp add: live_distinct_def one_dram_live)

theorem dram_cycle_conserves_witness:
  "\<exists>d' n' snt' rcv'. dram_run_a_cycle FRFCFS one_bank (logged busy_noc) False (one_dram DRAM_DATA 7, (0, [], [])) = Inr (d', (n', snt', rcv')) \<and>
    dram_inv one_bank d' \<and> live_distinct d' \<and> dc_cycle d' = 101 \<and> accounted d' + mset snt' = accounted (one_dram DRAM_DATA 7) + mset rcv'"
  using dram_cycle_conserves[where pol = FRFCFS and pll_lock = False and n = 0 and snt = "[]" and rcv = "[]" and nw = busy_noc,
      OF one_dram_inv[of DRAM_DATA 7] one_dram_distinct]
  by (simp add: one_dram_live busy_noc_def) (simp add: one_dram_def ULLONG_MAX_def)

theorem dram_ctrl_establishes_inv_witness:
  "dram_inv one_bank (dram_ctrl_c one_bank (0, 0, 0, 0, 0) 17 23 (one_entry DRAM_INIT 0 0) (\<lambda>_. one_req))"
  using dram_ctrl_establishes_inv[of one_bank "(0, 0, 0, 0, 0)" 17 23 "one_entry DRAM_INIT 0 0" "\<lambda>_. one_req"]
  by (simp add: one_bank_def)

theorem frfcfs_schedule_equiv_witness:
  "\<exists>e d'. schedule FRFCFS 0 (one_dram DRAM_CMD 7) = Inr (e, d') \<and> bk_buffer (dc_banks d' ! 0) = [1, 0]"
proof -
  have "sort_key (frfcfs_key (one_dram DRAM_CMD 7) 0) [0, 1] = [1, 0]"
    by (simp add: frfcfs_key_def one_dram_def one_entry_def one_req_def)
  then show ?thesis
    using frfcfs_schedule_equiv[OF one_dram_inv[of DRAM_CMD 7], of 0] by (simp add: one_dram_def) blast
qed

theorem row_hit_lost_witness:
  "frfcfs_key (one_dram DRAM_CMD 0x80000000) 0 1 < frfcfs_key (one_dram DRAM_CMD 0x80000000) 0 0 \<and>
   \<not> sort_func (one_dram DRAM_CMD 0x80000000) 1 0 \<and> sort_func (one_dram DRAM_CMD 0x80000000) 0 1"
  using row_hit_lost[of "one_dram DRAM_CMD 0x80000000" 1 0 0] by (simp add: one_dram_def one_entry_def one_req_def)

theorem data_loop_terminates_witness:
  "\<exists>d'. data_loop 2 0 (one_dram DRAM_DATA 7) = Inr d' \<and> dram_inv one_bank d' \<and> accounted d' = accounted (one_dram DRAM_DATA 7)"
proof -
  have "0 < dc_num_channel (one_dram DRAM_DATA 7)" "dc_num_bank_per_channel (one_dram DRAM_DATA 7) < 2" by (simp_all add: one_dram_def)
  with data_loop_terminates[OF one_dram_inv[of DRAM_DATA 7], of 0] show ?thesis by auto
qed

theorem command_protocol_witness:
  "\<exists>d'. channel_cmd one_bank 0 (one_dram DRAM_CMD 7) = Inr d' \<and> de_state (dc_ents d' 2) = DRAM_DATA"
proof -
  have c: "bk_current (dc_banks (one_dram DRAM_CMD 7) ! 0) = Some 2" "set (channel_banks 0 (one_dram DRAM_CMD 7)) = {0}"
    "candidate (wants_command (one_dram DRAM_CMD 7)) (one_dram DRAM_CMD 7) 0" "bk_timestamp (dc_banks (one_dram DRAM_CMD 7) ! 0) \<noteq> ULLONG_MAX"
    "bk_current_rid (dc_banks (one_dram DRAM_CMD 7) ! 0) = 7" "de_rid (dc_ents (one_dram DRAM_CMD 7) 2) = 7" "(7 :: uns64) \<noteq> ULLONG_MAX"
    "dc_num_channel (one_dram DRAM_CMD 7) = 1"
    by (simp_all add: one_dram_def channel_banks_def candidate_def wants_command_def one_entry_def ULLONG_MAX_def)
  from command_protocol[OF one_dram_inv[of DRAM_CMD 7], of 0] show ?thesis
    by (auto simp add: c Let_def)
qed

theorem parse_addr_roundtrip_witness:
  "unparse_addr one_bank (parse_addr one_bank 0x12345678 (dram_ctrl_c one_bank (0, 0, 0, 0, 0) 0 0 (one_entry DRAM_INIT 0 0) (\<lambda>_. one_req)))
     (dram_ctrl_c one_bank (0, 0, 0, 0, 0) 0 0 (one_entry DRAM_INIT 0 0) (\<lambda>_. one_req)) = 0x12345678"
proof -
  have "lg (2 ^ 11) = 11" "lg (2 ^ 0) = 0" "lg (2 ^ 6) = 6" "lg (2 ^ 9) = 9" unfolding lg_def by (simp_all only: log2_int_power)
  then have "lg 2048 = 11" "lg 1 = 0" "lg 64 = 6" "lg 512 = 9" by simp_all
  then show ?thesis
    using parse_addr_roundtrip[where k = one_bank and a = "0x12345678" and junk = "(0, 0, 0, 0, 0)" and js = 0 and jn = 0 and je = "one_entry DRAM_INIT 0 0" and reqs = "\<lambda>_. one_req"] by (simp add: one_bank_def)
qed

end
