(* ===== verification/Network.thy ===== *)
theory Network
  imports MemReq
begin

text \<open>
  The interconnection network of \<^verbatim>\<open>src/src/network.h\<close>, \<^verbatim>\<open>src/src/network.cc\<close>,
  \<^verbatim>\<open>network_ring.cc\<close>, \<^verbatim>\<open>network_mesh.cc\<close> and \<^verbatim>\<open>network_simple.cc\<close>: routers
  with virtual channels, wormhole switching and credit-based flow control, on a ring or a mesh, and the
  simple network that hands a packet over to its destination.

  A flit is in exactly one buffer at a time and the code changes it only at the front of that buffer or
  when it pushes it, so the buffers hold the flits themselves; the pools only recycle them. The same holds
  for the credits. The arrays of a router are functions of port and virtual channel, and an index that does
  not come from a loop over them is checked. A pointer to a router is its index in \<^verbatim>\<open>m_router\<close>.
  The value -1 of an index is \<open>None\<close>, and so is a link that was never set. The build does not define \<^verbatim>\<open>GPU_VALIDATION\<close>.
\<close>

section \<open>Data\<close>

abbreviation LOCAL :: nat where "LOCAL \<equiv> 0"
abbreviation LEFT :: nat where "LEFT \<equiv> 1"
abbreviation RIGHT :: nat where "RIGHT \<equiv> 2"
abbreviation UP :: nat where "UP \<equiv> 3"
abbreviation DOWN :: nat where "DOWN \<equiv> 4"

datatype flit_state = INIT | IB | RC | VCA | SA | ST | LT

text \<open>The members that nothing reads (\<^verbatim>\<open>m_rc_changed\<close>, \<^verbatim>\<open>m_vc_batch\<close>,
  \<^verbatim>\<open>m_sw_batch\<close>) are left out.\<close>

record flit =
  fl_src :: int
  fl_dst :: int
  fl_dir :: "nat option"
  fl_head :: bool
  fl_tail :: bool
  fl_req :: addr
  fl_state :: flit_state
  fl_timestamp :: Counter
  fl_rdy_cycle :: Counter
  fl_id :: nat

record credit =
  cr_rdy_cycle :: Counter
  cr_port :: nat
  cr_vc :: nat

datatype arbitration = OLDEST_FIRST | ROUND_ROBIN | CPU_FIRST | GPU_FIRST

record noc_knobs =
  KNOB_NUM_VC :: nat
  KNOB_LINK_LATENCY :: Counter
  KNOB_ARBITRATION_POLICY :: arbitration
  KNOB_LINK_WIDTH :: nat
  KNOB_IDEAL_NOC :: bool
  KNOB_IDEAL_NOC_LATENCY :: Counter
  KNOB_NOC_DIMENSION :: nat

record router =
  rt_id :: int
  rt_type :: nat
  rt_num_port :: nat
  rt_num_vc :: nat
  rt_total_router :: int
  rt_link_latency :: Counter
  rt_link_width :: nat
  rt_arbitration_policy :: arbitration
  rt_link :: "nat \<Rightarrow> nat option"
  rt_injection_buffer :: "addr list"
  rt_injection_buffer_max_size :: nat
  rt_req_buffer :: "addr list"
  rt_buffer_max_size :: nat
  rt_input :: "nat \<Rightarrow> nat \<Rightarrow> flit list"
  rt_route :: "nat \<Rightarrow> nat \<Rightarrow> nat \<Rightarrow> nat \<Rightarrow> bool"
  rt_route_fixed :: "nat \<Rightarrow> nat \<Rightarrow> nat option"
  rt_output_port_id :: "nat \<Rightarrow> nat \<Rightarrow> nat option"
  rt_output_vc_id :: "nat \<Rightarrow> nat \<Rightarrow> nat option"
  rt_output :: "nat \<Rightarrow> nat \<Rightarrow> flit list"
  rt_output_vc_avail :: "nat \<Rightarrow> nat \<Rightarrow> bool"
  rt_credit :: "nat \<Rightarrow> nat \<Rightarrow> int"
  rt_link_avail :: "nat \<Rightarrow> Counter"
  rt_sw_avail :: "nat \<Rightarrow> Counter"
  rt_pending_credit :: "credit list"
  rt_cycle :: Counter
  rt_packet_inserted :: int

record net =
  nt_routers :: "router list"
  nt_num_router :: nat
  nt_router_map :: "int \<Rightarrow> nat"
  nt_reqs :: "addr \<Rightarrow> mem_req"
  nt_total_packet :: int
  nt_total_cpu_packet :: int
  nt_total_gpu_packet :: int
  nt_cycle :: Counter

datatype topology = RING | MESH

definition upd_rt :: "nat \<Rightarrow> (router \<Rightarrow> router) \<Rightarrow> net \<Rightarrow> net" where
  "upd_rt r f n = n\<lparr>nt_routers := (nt_routers n)[r := f (nt_routers n ! r)]\<rparr>"

definition upd2 :: "nat \<Rightarrow> nat \<Rightarrow> 'a \<Rightarrow> (nat \<Rightarrow> nat \<Rightarrow> 'a) \<Rightarrow> nat \<Rightarrow> nat \<Rightarrow> 'a" where
  "upd2 i j v a = a(i := (a i)(j := v))"

fun upd_front :: "('a \<Rightarrow> 'a) \<Rightarrow> 'a list \<Rightarrow> 'a list" where
  "upd_front f [] = []"
| "upd_front f (x # xs) = f x # xs"

fun opposite_dir :: "nat \<Rightarrow> nat" where
  "opposite_dir d = (if d = LEFT then RIGHT else if d = RIGHT then LEFT else if d = UP then DOWN else if d = DOWN then UP else LOCAL)"

section \<open>Router construction\<close>

text \<open>\<open>junk\<close> is the value of \<^verbatim>\<open>m_cycle\<close>, which the constructor does not set.\<close>

definition router_c :: "noc_knobs \<Rightarrow> Counter \<Rightarrow> nat \<Rightarrow> int \<Rightarrow> nat \<Rightarrow> router" where
  "router_c k junk type rid num_port =
     \<lparr>rt_id = rid, rt_type = type, rt_num_port = num_port, rt_num_vc = KNOB_NUM_VC k, rt_total_router = 0,
      rt_link_latency = KNOB_LINK_LATENCY k, rt_link_width = KNOB_LINK_WIDTH k, rt_arbitration_policy = KNOB_ARBITRATION_POLICY k,
      rt_link = (\<lambda>_. None), rt_injection_buffer = [], rt_injection_buffer_max_size = 32, rt_req_buffer = [],
      rt_buffer_max_size = 10, rt_input = (\<lambda>_ _. []), rt_route = (\<lambda>_ _ _ _. False), rt_route_fixed = (\<lambda>_ _. None),
      rt_output_port_id = (\<lambda>_ _. None), rt_output_vc_id = (\<lambda>_ _. None), rt_output = (\<lambda>_ _. []),
      rt_output_vc_avail = (\<lambda>_ _. True), rt_credit = (\<lambda>_ _. 10), rt_link_avail = (\<lambda>_. 0), rt_sw_avail = (\<lambda>_. 0),
      rt_pending_credit = [], rt_cycle = junk, rt_packet_inserted = 0\<rparr>"

section \<open>Packets and credits between routers\<close>

text \<open>The flit is pushed in the state \<^verbatim>\<open>IB\<close>.\<close>

definition insert_packet :: "nat \<Rightarrow> flit \<Rightarrow> nat \<Rightarrow> nat \<Rightarrow> net \<Rightarrow> net res" where
  "insert_packet r f port vc n =
     res_bind (arr_get (nt_routers n) r) (\<lambda>rt.
     check (port < rt_num_port rt \<and> vc < rt_num_vc rt) OutOfBounds
     (Inr (upd_rt r (\<lambda>rt. rt\<lparr>rt_input := upd2 port vc (rt_input rt port vc @ [f\<lparr>fl_state := IB\<rparr>]) (rt_input rt)\<rparr>) n)))"

definition insert_credit :: "nat \<Rightarrow> credit \<Rightarrow> net \<Rightarrow> net res" where
  "insert_credit r c n =
     res_bind (arr_get (nt_routers n) r) (\<lambda>_.
     Inr (upd_rt r (\<lambda>rt. rt\<lparr>rt_pending_credit := rt_pending_credit rt @ [c]\<rparr>) n))"

definition credit_one :: "Counter \<Rightarrow> credit \<Rightarrow> router \<Rightarrow> router res" where
  "credit_one cycle c rt =
     (if cr_rdy_cycle c \<le> cycle
      then check (cr_port c < rt_num_port rt \<and> cr_vc c < rt_num_vc rt) OutOfBounds
           (Inr (rt\<lparr>rt_credit := upd2 (cr_port c) (cr_vc c) (rt_credit rt (cr_port c) (cr_vc c) + 1) (rt_credit rt)\<rparr>))
      else Inr (rt\<lparr>rt_pending_credit := rt_pending_credit rt @ [c]\<rparr>))"

text \<open>The credits that are due leave the list; \<open>cycle\<close> is the simulation's cycle.\<close>

definition process_pending_credit :: "Counter \<Rightarrow> nat \<Rightarrow> net \<Rightarrow> net res" where
  "process_pending_credit cycle r n =
     (let rt = nt_routers n ! r in
      res_bind (fold_res (credit_one cycle) (rt_pending_credit rt) (rt\<lparr>rt_pending_credit := []\<rparr>)) (\<lambda>rt'.
      Inr (upd_rt r (\<lambda>_. rt') n)))"

definition inject_packet :: "nat \<Rightarrow> addr \<Rightarrow> net \<Rightarrow> (bool \<times> net) res" where
  "inject_packet r req n =
     res_bind (arr_get (nt_routers n) r) (\<lambda>rt.
     if length (rt_injection_buffer rt) < rt_injection_buffer_max_size rt
     then Inr (True, upd_rt r (\<lambda>rt. rt\<lparr>rt_injection_buffer := rt_injection_buffer rt @ [req]\<rparr>) n)
     else Inr (False, n))"

section \<open>Local injection\<close>

definition num_flit :: "noc_knobs \<Rightarrow> router \<Rightarrow> mem_req \<Rightarrow> nat res" where
  "num_flit k rt q =
     res_bind (if mr_msg_type q \<in> {NOC_NEW_WITH_DATA, NOC_FILL}
               then check (rt_link_width rt \<noteq> 0) DivideByZero (Inr (1 + unat (mr_size q) div rt_link_width rt)) else Inr 1) (\<lambda>m.
     Inr (if KNOB_IDEAL_NOC k then 1 else m))"

definition new_flit :: "Counter \<Rightarrow> addr \<Rightarrow> mem_req \<Rightarrow> nat \<Rightarrow> nat \<Rightarrow> flit" where
  "new_flit cycle req q m jj =
     \<lparr>fl_src = mr_msg_src q, fl_dst = mr_msg_dst q, fl_dir = None, fl_head = (jj = 0), fl_tail = (jj = m - 1), fl_req = req,
      fl_state = IB, fl_timestamp = cycle, fl_rdy_cycle = cycle, fl_id = jj\<rparr>"

text \<open>The packet of a request enters the first virtual channel of the local port with room for it.\<close>

definition inject_one :: "nat \<Rightarrow> addr \<Rightarrow> nat \<Rightarrow> nat \<Rightarrow> net \<Rightarrow> net" where
  "inject_one r req m vc n =
     (let rt = nt_routers n ! r; q = (nt_reqs n req)\<lparr>mr_noc_cycle := rt_cycle rt\<rparr> in
      upd_rt r (\<lambda>rt. rt\<lparr>rt_input := upd2 LOCAL vc (rt_input rt LOCAL vc @ map (new_flit (rt_cycle rt) req q m) [0..<m]) (rt_input rt),
                       rt_injection_buffer := tl (rt_injection_buffer rt)\<rparr>)
        (n\<lparr>nt_reqs := (nt_reqs n)(req := q), nt_total_packet := nt_total_packet n + 1,
           nt_total_gpu_packet := (if mr_acc q then nt_total_gpu_packet n + 1 else nt_total_gpu_packet n),
           nt_total_cpu_packet := (if mr_acc q then nt_total_cpu_packet n else nt_total_cpu_packet n + 1)\<rparr>))"

fun inject_loop :: "noc_knobs \<Rightarrow> nat \<Rightarrow> addr list \<Rightarrow> net \<Rightarrow> net res" where
  "inject_loop k r [] n = Inr n"
| "inject_loop k r (req # reqs) n =
     (let rt = nt_routers n ! r in
      if rt_num_vc rt = 0 then Inr n
      else res_bind (num_flit k rt (nt_reqs n req)) (\<lambda>m.
        case find (\<lambda>ii. length (rt_input rt LOCAL ii) + m \<le> rt_buffer_max_size rt) [0..<rt_num_vc rt] of
          None \<Rightarrow> Inr n
        | Some vc \<Rightarrow> inject_loop k r reqs (inject_one r req m vc n)))"

definition local_packet_injection :: "noc_knobs \<Rightarrow> nat \<Rightarrow> net \<Rightarrow> net res" where
  "local_packet_injection k r n = inject_loop k r (rt_injection_buffer (nt_routers n ! r)) n"

section \<open>Link traversal\<close>

fun lt_pick :: "router \<Rightarrow> nat \<Rightarrow> nat list \<Rightarrow> (nat \<times> flit) option res" where
  "lt_pick rt port [] = Inr None"
| "lt_pick rt port (d # ds) =
     (let ii = unat ((of_nat d + rt_cycle rt) mod of_nat (rt_num_vc rt)) in
      case rt_output rt port ii of
        [] \<Rightarrow> lt_pick rt port ds
      | f # _ \<Rightarrow>
          if rt_credit rt port ii = 0 then lt_pick rt port ds
          else check (fl_state f = ST) AssertFailed
               (if fl_timestamp f < ULLONG_MAX then Inr (Some (ii, f)) else lt_pick rt port ds))"

text \<open>The last flit of a packet that reaches its destination hands the request over.\<close>

definition eject :: "nat \<Rightarrow> flit \<Rightarrow> net \<Rightarrow> net" where
  "eject r f n =
     (let acc = mr_acc (nt_reqs n (fl_req f)) in
      upd_rt r (\<lambda>rt. rt\<lparr>rt_req_buffer := rt_req_buffer rt @ [fl_req f]\<rparr>)
        (n\<lparr>nt_total_packet := nt_total_packet n - 1,
           nt_total_gpu_packet := (if acc then nt_total_gpu_packet n - 1 else nt_total_gpu_packet n),
           nt_total_cpu_packet := (if acc then nt_total_cpu_packet n else nt_total_cpu_packet n - 1)\<rparr>))"

definition forward_flit :: "nat \<Rightarrow> nat \<Rightarrow> nat \<Rightarrow> flit \<Rightarrow> net \<Rightarrow> net res" where
  "forward_flit r port vc f n =
     (let rt = nt_routers n ! r in
      if port = LOCAL then Inr n
      else case rt_link rt port of
        None \<Rightarrow> Inl NullPointer
      | Some r' \<Rightarrow>
          res_bind (insert_packet r' (f\<lparr>fl_rdy_cycle := rt_cycle rt + rt_link_latency rt + 1\<rparr>) (opposite_dir port) vc n) (\<lambda>n1.
          Inr (upd_rt r (\<lambda>rt. rt\<lparr>rt_link_avail := (rt_link_avail rt)(port := rt_cycle rt + rt_link_latency rt)\<rparr>) n1)))"

definition leave_output :: "nat \<Rightarrow> nat \<Rightarrow> flit \<Rightarrow> router \<Rightarrow> router" where
  "leave_output port vc f rt =
     rt\<lparr>rt_output := upd2 port vc (tl (rt_output rt port vc)) (rt_output rt),
        rt_credit := (if port \<noteq> LOCAL then upd2 port vc (rt_credit rt port vc - 1) (rt_credit rt) else rt_credit rt),
        rt_output_vc_avail := (if fl_tail f then upd2 port vc True (rt_output_vc_avail rt) else rt_output_vc_avail rt)\<rparr>"

definition lt_port :: "nat \<Rightarrow> nat \<Rightarrow> net \<Rightarrow> net res" where
  "lt_port r port n =
     (let rt = nt_routers n ! r in
      if rt_link_avail rt port > rt_cycle rt then Inr n
      else res_bind (lt_pick rt port [0..<rt_num_vc rt]) (\<lambda>w.
        case w of
          None \<Rightarrow> Inr n
        | Some (vc, f) \<Rightarrow>
            res_bind (forward_flit r port vc f n) (\<lambda>n1.
            let n2 = upd_rt r (leave_output port vc f) n1
            in Inr (if fl_tail f \<and> port = LOCAL then eject r f n2 else n2))))"

definition stage_lt :: "nat \<Rightarrow> net \<Rightarrow> net res" where
  "stage_lt r n = fold_res (lt_port r) [0..<rt_num_port (nt_routers n ! r)] n"

section \<open>Switch allocation and traversal\<close>

definition all_vcs :: "router \<Rightarrow> (nat \<times> nat) list" where
  "all_vcs rt = List.product [0..<rt_num_port rt] [0..<rt_num_vc rt]"

text \<open>The oldest candidate; \<open>ts\<close> is the time stamp of a candidate.\<close>

fun pick_oldest :: "('a \<Rightarrow> Counter option) \<Rightarrow> 'a list \<Rightarrow> Counter \<Rightarrow> 'a option \<Rightarrow> 'a option" where
  "pick_oldest ts [] oldest best = best"
| "pick_oldest ts (x # xs) oldest best =
     (case ts x of
        None \<Rightarrow> pick_oldest ts xs oldest best
      | Some t \<Rightarrow> if t < oldest then pick_oldest ts xs t (Some x) else pick_oldest ts xs oldest best)"

definition sa_candidate :: "router \<Rightarrow> nat \<Rightarrow> nat \<times> nat \<Rightarrow> Counter option" where
  "sa_candidate rt op = (\<lambda>(ii, jj).
     if ii = op then None
     else if rt_route_fixed rt ii jj = Some op \<and> rt_output_port_id rt ii jj = Some op \<and> rt_input rt ii jj \<noteq> []
     then let f = hd (rt_input rt ii jj) in
          if (fl_head f \<and> fl_state f = VCA) \<or> (\<not> fl_head f \<and> fl_state f = IB) then Some (fl_timestamp f) else None
     else None)"

text \<open>With another policy the winner is never set.\<close>

definition stage_sa_pick_winner :: "router \<Rightarrow> nat \<Rightarrow> (nat \<times> nat) option res" where
  "stage_sa_pick_winner rt op =
     (if rt_arbitration_policy rt = OLDEST_FIRST then Inr (pick_oldest (sa_candidate rt op) (all_vcs rt) ULLONG_MAX None)
      else Inl OutOfBounds)"

definition set_front :: "nat \<Rightarrow> nat \<Rightarrow> flit_state \<Rightarrow> router \<Rightarrow> router" where
  "set_front ip ivc s rt =
     rt\<lparr>rt_input := upd2 ip ivc (upd_front (\<lambda>f. f\<lparr>fl_state := s\<rparr>) (rt_input rt ip ivc)) (rt_input rt)\<rparr>"

definition sa_port :: "nat \<Rightarrow> router \<Rightarrow> router res" where
  "sa_port op rt =
     (if rt_sw_avail rt op \<le> rt_cycle rt
      then res_bind (stage_sa_pick_winner rt op) (\<lambda>w.
           case w of
             None \<Rightarrow> Inr rt
           | Some (ip, ivc) \<Rightarrow> Inr ((set_front ip ivc SA rt)\<lparr>rt_sw_avail := (rt_sw_avail rt)(op := rt_cycle rt + 1)\<rparr>))
      else Inr rt)"

definition at_router :: "nat \<Rightarrow> (router \<Rightarrow> router res) \<Rightarrow> net \<Rightarrow> net res" where
  "at_router r f n = res_bind (f (nt_routers n ! r)) (\<lambda>rt. Inr (upd_rt r (\<lambda>_. rt) n))"

definition stage_sa :: "nat \<Rightarrow> net \<Rightarrow> net res" where
  "stage_sa r = at_router r (\<lambda>rt. fold_res sa_port [0..<rt_num_port rt] rt)"

definition st_candidate :: "router \<Rightarrow> nat \<Rightarrow> nat \<Rightarrow> nat \<Rightarrow> bool" where
  "st_candidate rt op ii jj \<longleftrightarrow> rt_route_fixed rt ii jj = Some op \<and> rt_output_port_id rt ii jj = Some op \<and>
     rt_input rt ii jj \<noteq> [] \<and> fl_state (hd (rt_input rt ii jj)) = SA"

text \<open>The \<^verbatim>\<open>break\<close> leaves the loop over the virtual channels only, so the last input port wins.\<close>

definition st_find :: "router \<Rightarrow> nat \<Rightarrow> (nat \<times> nat) option" where
  "st_find rt op =
     fold (\<lambda>ii w. if ii = op then w
                  else case find (st_candidate rt op ii) [0..<rt_num_vc rt] of None \<Rightarrow> w | Some jj \<Rightarrow> Some (ii, jj))
       [0..<rt_num_port rt] None"

definition traverse :: "nat \<Rightarrow> nat \<Rightarrow> nat \<Rightarrow> nat \<Rightarrow> router \<Rightarrow> router" where
  "traverse op ip ivc ovc rt =
     (let f = (hd (rt_input rt ip ivc))\<lparr>fl_state := ST\<rparr> in
      rt\<lparr>rt_output := upd2 op ovc (rt_output rt op ovc @ [f]) (rt_output rt),
         rt_input := upd2 ip ivc (tl (rt_input rt ip ivc)) (rt_input rt),
         rt_route_fixed := (if fl_tail f then upd2 ip ivc None (rt_route_fixed rt) else rt_route_fixed rt),
         rt_output_vc_id := (if fl_tail f then upd2 ip ivc None (rt_output_vc_id rt) else rt_output_vc_id rt),
         rt_output_port_id := (if fl_tail f then upd2 ip ivc None (rt_output_port_id rt) else rt_output_port_id rt)\<rparr>)"

definition st_port :: "nat \<Rightarrow> nat \<Rightarrow> net \<Rightarrow> net res" where
  "st_port r op n =
     (let rt = nt_routers n ! r in
      case st_find rt op of
        None \<Rightarrow> Inr n
      | Some (ip, ivc) \<Rightarrow>
          (case rt_output_vc_id rt ip ivc of
             None \<Rightarrow> Inl OutOfBounds
           | Some ovc \<Rightarrow>
               check (ovc < rt_num_vc rt) OutOfBounds
               (let n1 = upd_rt r (traverse op ip ivc ovc) n in
                if ip = LOCAL then Inr n1
                else case rt_link rt ip of
                  None \<Rightarrow> Inl NullPointer
                | Some r' \<Rightarrow>
                    insert_credit r' \<lparr>cr_rdy_cycle = rt_cycle rt + 1, cr_port = opposite_dir ip, cr_vc = ivc\<rparr> n1)))"

definition stage_st :: "nat \<Rightarrow> net \<Rightarrow> net res" where
  "stage_st r n = fold_res (st_port r) [0..<rt_num_port (nt_routers n ! r)] n"

section \<open>Route calculation\<close>

definition rc_ready :: "router \<Rightarrow> flit \<Rightarrow> bool" where
  "rc_ready rt f \<longleftrightarrow> fl_head f \<and> fl_state f = IB \<and> fl_rdy_cycle f \<le> rt_cycle rt"

text \<open>Ring: the direction chosen at the source, the shorter way around.\<close>

definition ring_dir :: "int \<Rightarrow> int \<Rightarrow> int \<Rightarrow> nat" where
  "ring_dir num here dst =
     (let (left, right) = (if here > dst then (here - dst, dst - here + num) else (here - dst + num, dst - here))
      in if left < right then LEFT else RIGHT)"

definition ring_route :: "router \<Rightarrow> flit \<Rightarrow> nat" where
  "ring_route rt f =
     (if fl_dst f = rt_id rt then LOCAL
      else case fl_dir f of Some d \<Rightarrow> d | None \<Rightarrow> ring_dir (rt_total_router rt) (rt_id rt) (fl_dst f))"

definition ring_rc_vc :: "nat \<times> nat \<Rightarrow> router \<Rightarrow> router res" where
  "ring_rc_vc = (\<lambda>(port, vc) rt.
     case rt_input rt port vc of
       [] \<Rightarrow> Inr rt
     | f # fs \<Rightarrow>
         if rt_route_fixed rt port vc = None \<and> rc_ready rt f
         then let d = ring_route rt f in
              check (d < rt_num_port rt) OutOfBounds
              (Inr (rt\<lparr>rt_route := upd2 port vc ((rt_route rt port vc)(0 := (\<lambda>p. p = d))) (rt_route rt),
                       rt_input := upd2 port vc
                         (f\<lparr>fl_state := RC, fl_dir := (if fl_dst f \<noteq> rt_id rt \<and> fl_dir f = None then Some d else fl_dir f)\<rparr> # fs) (rt_input rt)\<rparr>))
         else Inr rt)"

definition isqrt :: "nat \<Rightarrow> nat" where
  "isqrt n = length (takeWhile (\<lambda>k. k * k \<le> n) [1..<n + 1])"

text \<open>Mesh: row 0 of the result holds the adaptive directions, row 1 the escape direction.\<close>

definition mesh_dirs :: "int \<Rightarrow> int \<Rightarrow> int \<Rightarrow> nat \<Rightarrow> nat \<Rightarrow> bool" where
  "mesh_dirs width here dst row p =
     (let x_src = here mod width; y_src = here div width; x_dst = dst mod width; y_dst = dst div width in
      if here = dst then p = LOCAL
      else if p = LEFT then x_src > x_dst
      else if p = RIGHT then x_src < x_dst
      else if p = UP then y_src > y_dst \<and> (row = 0 \<or> x_src = x_dst)
      else p = DOWN \<and> y_src < y_dst \<and> (row = 0 \<or> x_src = x_dst))"

definition mesh_rc_vc :: "nat \<times> nat \<Rightarrow> router \<Rightarrow> router res" where
  "mesh_rc_vc = (\<lambda>(port, vc) rt.
     case rt_input rt port vc of
       [] \<Rightarrow> Inr rt
     | f # fs \<Rightarrow>
         if rc_ready rt f
         then let width = int (isqrt (nat (rt_total_router rt))) in
              check (fl_dst f = rt_id rt \<or> width \<noteq> 0) DivideByZero
              (Inr (rt\<lparr>rt_route := upd2 port vc ((rt_route rt port vc)
                           (0 := mesh_dirs width (rt_id rt) (fl_dst f) 0, 1 := mesh_dirs width (rt_id rt) (fl_dst f) 1)) (rt_route rt),
                       rt_input := upd2 port vc (f\<lparr>fl_state := RC\<rparr> # fs) (rt_input rt)\<rparr>))
         else Inr rt)"

definition rc_vc :: "topology \<Rightarrow> nat \<times> nat \<Rightarrow> router \<Rightarrow> router res" where
  "rc_vc t = (case t of RING \<Rightarrow> ring_rc_vc | MESH \<Rightarrow> mesh_rc_vc)"

definition stage_rc :: "topology \<Rightarrow> nat \<Rightarrow> net \<Rightarrow> net res" where
  "stage_rc t r = at_router r (\<lambda>rt. fold_res (rc_vc t) (all_vcs rt) rt)"

section \<open>Virtual channel allocation\<close>

definition vca_candidate :: "router \<Rightarrow> nat \<Rightarrow> (flit \<Rightarrow> bool) \<Rightarrow> nat \<Rightarrow> nat \<times> nat \<Rightarrow> Counter option" where
  "vca_candidate rt rc_index allowed oport = (\<lambda>(ii, jj).
     if ii = oport \<or> rt_input rt ii jj = [] \<or> \<not> rt_route rt ii jj rc_index oport then None
     else let f = hd (rt_input rt ii jj) in
          if allowed f \<and> fl_head f \<and> fl_state f = RC then Some (fl_timestamp f) else None)"

text \<open>Ring: the last two virtual channels of an output port are for packets that have, or have not, crossed
  the end of the ring.\<close>

definition duato_allowed :: "router \<Rightarrow> nat \<Rightarrow> flit \<Rightarrow> bool" where
  "duato_allowed rt ovc f =
     (if int ovc < int (rt_num_vc rt) - 2 then True
      else if int ovc = int (rt_num_vc rt) - 2 then \<not> rt_id rt > fl_dst f
      else if int ovc = int (rt_num_vc rt) - 1 then \<not> rt_id rt < fl_dst f
      else True)"

definition stage_vca_pick_winner :: "topology \<Rightarrow> router \<Rightarrow> nat \<Rightarrow> nat \<Rightarrow> (nat \<times> nat) option res" where
  "stage_vca_pick_winner t rt oport ovc =
     (case t of
        RING \<Rightarrow>
          check (rt_arbitration_policy rt = OLDEST_FIRST) AssertFailed
          (Inr (pick_oldest (vca_candidate rt 0 (duato_allowed rt ovc) oport) (all_vcs rt) ULLONG_MAX None))
      | MESH \<Rightarrow>
          check (rt_num_vc rt \<noteq> 1) DivideByZero
          (check (rt_arbitration_policy rt = OLDEST_FIRST) AssertFailed
          (Inr (pick_oldest (vca_candidate rt (ovc div (rt_num_vc rt - 1)) (\<lambda>_. True) oport) (all_vcs rt) ULLONG_MAX None))))"

definition allocate_vc :: "nat \<Rightarrow> nat \<Rightarrow> nat \<Rightarrow> nat \<Rightarrow> router \<Rightarrow> router" where
  "allocate_vc oport ovc iport ivc rt =
     (set_front iport ivc VCA rt)
       \<lparr>rt_output_port_id := upd2 iport ivc (Some oport) (rt_output_port_id rt),
        rt_output_vc_id := upd2 iport ivc (Some ovc) (rt_output_vc_id rt),
        rt_output_vc_avail := upd2 oport ovc False (rt_output_vc_avail rt),
        rt_route_fixed := upd2 iport ivc (Some oport) (rt_route_fixed rt)\<rparr>"

definition vca_vc :: "topology \<Rightarrow> nat \<times> nat \<Rightarrow> router \<Rightarrow> router res" where
  "vca_vc t = (\<lambda>(oport, ovc) rt.
     if rt_output_vc_avail rt oport ovc
     then res_bind (stage_vca_pick_winner t rt oport ovc) (\<lambda>w.
          case w of None \<Rightarrow> Inr rt | Some (iport, ivc) \<Rightarrow> Inr (allocate_vc oport ovc iport ivc rt))
     else Inr rt)"

text \<open>The ideal network moves a packet to the next router after a fixed latency.\<close>

definition ideal_vc :: "noc_knobs \<Rightarrow> nat \<Rightarrow> nat \<times> nat \<Rightarrow> net \<Rightarrow> net res" where
  "ideal_vc k r = (\<lambda>(ip, ivc) n.
     let rt = nt_routers n ! r in
     case rt_input rt ip ivc of
       [] \<Rightarrow> Inr n
     | f # _ \<Rightarrow>
         if fl_state f \<noteq> RC \<or> fl_timestamp f + KNOB_IDEAL_NOC_LATENCY k > rt_cycle rt then Inr n
         else case find (\<lambda>ii. rt_route rt ip ivc 0 ii) [0..<rt_num_port rt] of
           None \<Rightarrow> Inl AssertFailed
         | Some port \<Rightarrow>
             res_bind (if port = LOCAL then Inr n
                       else case rt_link rt port of
                         None \<Rightarrow> Inl NullPointer
                       | Some r' \<Rightarrow> insert_packet r' (f\<lparr>fl_rdy_cycle := rt_cycle rt + 1\<rparr>) (opposite_dir port) ivc n) (\<lambda>n1.
             Inr (upd_rt r (\<lambda>rt. rt\<lparr>rt_input := upd2 ip ivc (tl (rt_input rt ip ivc)) (rt_input rt),
                                    rt_req_buffer := rt_req_buffer rt @ (if fl_tail f \<and> port = LOCAL then [fl_req f] else [])\<rparr>) n1)))"

definition stage_vca :: "topology \<Rightarrow> noc_knobs \<Rightarrow> nat \<Rightarrow> net \<Rightarrow> net res" where
  "stage_vca t k r n =
     (let vcs = all_vcs (nt_routers n ! r) in
      if KNOB_IDEAL_NOC k then fold_res (ideal_vc k r) vcs n else at_router r (fold_res (vca_vc t) vcs) n)"

section \<open>One cycle of a router\<close>

definition tick :: "nat \<Rightarrow> net \<Rightarrow> net" where
  "tick r = upd_rt r (\<lambda>rt. rt\<lparr>rt_cycle := rt_cycle rt + 1\<rparr>)"

definition router_run_a_cycle :: "topology \<Rightarrow> noc_knobs \<Rightarrow> Counter \<Rightarrow> bool \<Rightarrow> nat \<Rightarrow> net \<Rightarrow> net res" where
  "router_run_a_cycle t k cycle pll_lock r n =
     (if pll_lock then Inr (tick r n)
      else res_bind
        (if KNOB_IDEAL_NOC k
         then res_bind (stage_vca t k r n) (\<lambda>n. res_bind (stage_rc t r n) (local_packet_injection k r))
         else res_bind (process_pending_credit cycle r n) (\<lambda>n.
              res_bind (stage_lt r n) (\<lambda>n.
              res_bind (stage_sa r n) (\<lambda>n.
              res_bind (stage_st r n) (\<lambda>n.
              res_bind (stage_rc t r n) (\<lambda>n.
              res_bind (stage_vca t k r n) (local_packet_injection k r)))))))
        (\<lambda>n. Inr (tick r n)))"

section \<open>The network\<close>

definition mem_level :: "MEMORY_TYPE \<Rightarrow> int" where
  "mem_level l = (case l of MEM_L1 \<Rightarrow> 1 | MEM_L2 \<Rightarrow> 2 | MEM_L3 \<Rightarrow> 3 | MEM_LLC \<Rightarrow> 4 | MEM_MC \<Rightarrow> 5)"

definition network_send :: "addr \<Rightarrow> MEMORY_TYPE \<Rightarrow> int \<Rightarrow> MEMORY_TYPE \<Rightarrow> int \<Rightarrow> net \<Rightarrow> (bool \<times> net) res" where
  "network_send req src_level src_id dst_level dst_id n =
     (let src = nt_router_map n (mem_level src_level * 1000 + src_id); dst = nt_router_map n (mem_level dst_level * 1000 + dst_id)
      in inject_packet src req
           (n\<lparr>nt_reqs := (nt_reqs n)(req := (nt_reqs n req)\<lparr>mr_msg_src := int src, mr_msg_dst := int dst\<rparr>)\<rparr>))"

definition network_receive :: "MEMORY_TYPE \<Rightarrow> int \<Rightarrow> net \<Rightarrow> ptr res" where
  "network_receive level i n =
     res_bind (arr_get (nt_routers n) (nt_router_map n (mem_level level * 1000 + i))) (\<lambda>rt.
     Inr (case rt_req_buffer rt of [] \<Rightarrow> None | req # _ \<Rightarrow> Some req))"

definition network_receive_pop :: "MEMORY_TYPE \<Rightarrow> int \<Rightarrow> net \<Rightarrow> net res" where
  "network_receive_pop level i n =
     (let r = nt_router_map n (mem_level level * 1000 + i) in
      res_bind (arr_get (nt_routers n) r) (\<lambda>rt.
      check (rt_req_buffer rt \<noteq> []) EmptyAccess
      (Inr (upd_rt r (\<lambda>rt. rt\<lparr>rt_req_buffer := tl (rt_req_buffer rt)\<rparr>) n))))"

definition network_run_a_cycle :: "topology \<Rightarrow> noc_knobs \<Rightarrow> Counter \<Rightarrow> bool \<Rightarrow> net \<Rightarrow> net res" where
  "network_run_a_cycle t k cycle pll_lock n =
     check (nt_num_router n \<noteq> 0) DivideByZero
     (let index = unat (cycle mod of_nat (nt_num_router n)) in
      res_bind (fold_res (\<lambda>ii. router_run_a_cycle t k cycle pll_lock (ii mod nt_num_router n)) [index..<index + nt_num_router n] n) (\<lambda>n.
      Inr (n\<lparr>nt_cycle := nt_cycle n + 1\<rparr>)))"

section \<open>Network construction\<close>

definition network_c :: "(addr \<Rightarrow> mem_req) \<Rightarrow> Counter \<Rightarrow> net" where
  "network_c reqs junk = \<lparr>nt_routers = [], nt_num_router = 0, nt_router_map = (\<lambda>_. 0), nt_reqs = reqs, nt_total_packet = 0,
     nt_total_cpu_packet = 0, nt_total_gpu_packet = 0, nt_cycle = junk\<rparr>"

definition create_one :: "(nat \<Rightarrow> int \<Rightarrow> router) \<Rightarrow> nat \<Rightarrow> MEMORY_TYPE \<Rightarrow> int \<Rightarrow> nat \<Rightarrow> net \<Rightarrow> net" where
  "create_one mk type level offset ii n =
     n\<lparr>nt_router_map := (nt_router_map n)(mem_level level * 1000 + int ii + offset := nt_num_router n),
       nt_routers := nt_routers n @ [mk type (int (nt_num_router n))], nt_num_router := nt_num_router n + 1\<rparr>"

definition create_routers :: "(nat \<Rightarrow> int \<Rightarrow> router) \<Rightarrow> nat \<Rightarrow> nat \<Rightarrow> MEMORY_TYPE \<Rightarrow> int \<Rightarrow> net \<Rightarrow> net" where
  "create_routers mk index type level offset n = fold (create_one mk type level offset) [0..<index] n"

definition init_routers :: "net \<Rightarrow> net" where
  "init_routers n = n\<lparr>nt_routers := map (\<lambda>rt. rt\<lparr>rt_total_router := int (nt_num_router n)\<rparr>) (nt_routers n)\<rparr>"

definition set_link :: "nat \<Rightarrow> nat \<Rightarrow> nat \<Rightarrow> net \<Rightarrow> net" where
  "set_link r dir r' = upd_rt r (\<lambda>rt. rt\<lparr>rt_link := (rt_link rt)(dir \<mapsto> r')\<rparr>)"

text \<open>The mapping string of the ring lists the routers in order, so the mapping is the identity.\<close>

definition ring_connect :: "nat \<Rightarrow> net \<Rightarrow> net" where
  "ring_connect ii n =
     (let m = nt_num_router n in
      upd_rt ii (\<lambda>rt. rt\<lparr>rt_id := int ii\<rparr>) (set_link ii RIGHT ((ii + 1) mod m) (set_link ii LEFT ((ii + m - 1) mod m) n)))"

definition ring_init :: "noc_knobs \<Rightarrow> Counter \<Rightarrow> nat \<Rightarrow> nat \<Rightarrow> nat \<Rightarrow> nat \<Rightarrow> nat \<Rightarrow> net \<Rightarrow> net res" where
  "ring_init k junk num_cpu num_gpu num_l3 num_llc num_mc n =
     check (num_cpu + num_gpu + num_l3 + num_llc + num_mc = 0 \<or> (KNOB_NOC_DIMENSION k = 1 \<and> 2 \<le> KNOB_NUM_VC k)) AssertFailed
     (let mk = (\<lambda>type rid. router_c k junk type rid 3);
          n1 = create_routers mk num_mc 4 MEM_MC 0 (create_routers mk num_llc 3 MEM_LLC 0 (create_routers mk num_l3 2 MEM_L3 0
                (create_routers mk num_gpu 1 MEM_L2 (int num_cpu) (create_routers mk num_cpu 0 MEM_L2 0 (n\<lparr>nt_num_router := 0\<rparr>)))));
          n2 = init_routers n1
      in check (nt_num_router n2 \<noteq> 0) OutOfBounds (Inr (fold ring_connect [0..<nt_num_router n2] n2)))"

definition mesh_connect :: "nat \<Rightarrow> nat \<Rightarrow> net \<Rightarrow> net" where
  "mesh_connect width ii n =
     (let n1 = (if ii div width > 0 then set_link ii UP (ii - width) n else n);
          n2 = (if ii div width < width - 1 then set_link ii DOWN (ii + width) n1 else n1);
          n3 = (if ii mod width \<noteq> 0 then set_link ii LEFT (ii - 1) n2 else n2)
      in if ii mod width \<noteq> width - 1 then set_link ii RIGHT (ii + 1) n3 else n3)"

definition add_dummy :: "(nat \<Rightarrow> int \<Rightarrow> router) \<Rightarrow> nat \<Rightarrow> net \<Rightarrow> net" where
  "add_dummy mk ii n = n\<lparr>nt_routers := nt_routers n @ [mk 0 (int (nt_num_router n))], nt_num_router := nt_num_router n + 1\<rparr>"

definition mesh_init :: "noc_knobs \<Rightarrow> Counter \<Rightarrow> nat \<Rightarrow> nat \<Rightarrow> nat \<Rightarrow> nat \<Rightarrow> nat \<Rightarrow> net \<Rightarrow> net res" where
  "mesh_init k junk num_cpu num_gpu num_l3 num_llc num_mc n =
     check (num_cpu + num_gpu + num_l3 + num_llc + num_mc = 0 \<or> (KNOB_NOC_DIMENSION k = 2 \<and> 1 \<le> KNOB_NUM_VC k)) AssertFailed
     (let mk = (\<lambda>type rid. router_c k junk type rid 5);
          n1 = create_routers mk num_gpu 1 MEM_L2 (int num_cpu) (create_routers mk num_mc 4 MEM_MC 0 (create_routers mk num_llc 3 MEM_LLC 0
                (create_routers mk num_l3 2 MEM_L3 0 (create_routers mk num_cpu 0 MEM_L2 0 (n\<lparr>nt_num_router := 0\<rparr>)))));
          w = isqrt (nt_num_router n1);
          (width, n2) = (if w * w \<noteq> nt_num_router n1
                         then (w + 1, fold (add_dummy mk) [nt_num_router n1..<(w + 1) * (w + 1)] n1) else (w, n1));
          n3 = init_routers n2
      in check (nt_num_router n3 \<noteq> 0) OutOfBounds (Inr (fold (mesh_connect width) [0..<nt_num_router n3] n3)))"

section \<open>The simple network\<close>

text \<open>Each source sends at most two packets and each destination accepts at most two; a packet whose
  destination is full is passed over.\<close>

fun process_loop :: "nat \<Rightarrow> addr list \<Rightarrow> nat \<Rightarrow> addr list \<Rightarrow> net \<Rightarrow> (addr list \<times> net) res" where
  "process_loop r [] num_count kept n = Inr (kept, n)"
| "process_loop r (req # reqs) num_count kept n =
     (if num_count \<ge> 2 then Inr (kept @ req # reqs, n)
      else let dst = nat (mr_msg_dst (nt_reqs n req)) in
           check (mr_msg_dst (nt_reqs n req) \<ge> 0) OutOfBounds
           (res_bind (arr_get (nt_routers n) dst) (\<lambda>d.
            if rt_packet_inserted d < 2
            then process_loop r reqs (num_count + 1) kept
                   (upd_rt dst (\<lambda>d. d\<lparr>rt_req_buffer := rt_req_buffer d @ [req], rt_packet_inserted := rt_packet_inserted d + 1\<rparr>) n)
            else process_loop r reqs num_count (kept @ [req]) n)))"

definition process :: "nat \<Rightarrow> net \<Rightarrow> net res" where
  "process r n =
     res_bind (process_loop r (rt_injection_buffer (nt_routers n ! r)) 0 [] n) (\<lambda>(kept, n1).
     Inr (upd_rt r (\<lambda>rt. rt\<lparr>rt_injection_buffer := kept\<rparr>) n1))"

definition net_simple_run_a_cycle :: "Counter \<Rightarrow> net \<Rightarrow> net res" where
  "net_simple_run_a_cycle cycle n =
     check (nt_num_router n \<noteq> 0) DivideByZero
     (let n0 = n\<lparr>nt_routers := map (\<lambda>rt. rt\<lparr>rt_packet_inserted := 0\<rparr>) (nt_routers n)\<rparr>;
          index = unat (cycle mod of_nat (nt_num_router n)) in
      res_bind (fold_res (\<lambda>ii. process (ii mod nt_num_router n)) [index..<index + nt_num_router n] n0) (\<lambda>n1.
      Inr (n1\<lparr>nt_cycle := nt_cycle n1 + 1\<rparr>)))"

definition simple_init :: "noc_knobs \<Rightarrow> Counter \<Rightarrow> nat \<Rightarrow> nat \<Rightarrow> nat \<Rightarrow> nat \<Rightarrow> nat \<Rightarrow> net \<Rightarrow> net" where
  "simple_init k junk num_cpu num_gpu num_l3 num_llc num_mc n =
     (let mk = (\<lambda>type rid. router_c k junk type rid 1)
      in init_routers (create_routers mk num_mc 4 MEM_MC 0 (create_routers mk num_llc 3 MEM_LLC 0 (create_routers mk num_l3 2 MEM_L3 0
           (create_routers mk num_gpu 1 MEM_L2 (int num_cpu) (create_routers mk num_cpu 0 MEM_L2 0 (n\<lparr>nt_num_router := 0\<rparr>)))))))"

end
