(* ===== verification/NetInv.thy ===== *)
theory NetInv
  imports Network
begin

text \<open>
  The invariant of the ring and the mesh. On every virtual channel the flits of a packet stay together: the
  channel carries a stream of packets, each from its head to its tail, and what a router has switched, what
  waits in its output buffers and what its neighbour has buffered are consecutive parts of one stream. With
  it go the account of credits (credits held, credits on their way back and flits buffered downstream add up
  to the size of a buffer), the exclusive use of an output channel by one input channel, and the
  account of packets. Every stage of the pipeline is shown to keep it.
\<close>

section \<open>The topologies\<close>

definition ports :: "topology \<Rightarrow> nat" where
  "ports t = (case t of RING \<Rightarrow> 3 | MESH \<Rightarrow> 5)"

definition rows :: "topology \<Rightarrow> nat" where
  "rows t = (case t of RING \<Rightarrow> 1 | MESH \<Rightarrow> 2)"

definition good_size :: "topology \<Rightarrow> nat \<Rightarrow> bool" where
  "good_size t N \<longleftrightarrow> (case t of RING \<Rightarrow> 2 \<le> N | MESH \<Rightarrow> 2 \<le> isqrt N \<and> isqrt N * isqrt N = N)"

definition net_link :: "topology \<Rightarrow> nat \<Rightarrow> nat \<Rightarrow> nat \<Rightarrow> nat option" where
  "net_link t N r p =
     (case t of
        RING \<Rightarrow> if p = LEFT then Some ((r + N - 1) mod N) else if p = RIGHT then Some ((r + 1) mod N) else None
      | MESH \<Rightarrow>
          let w = isqrt N in
          if p = UP \<and> r div w > 0 then Some (r - w)
          else if p = DOWN \<and> r div w < w - 1 then Some (r + w)
          else if p = LEFT \<and> r mod w \<noteq> 0 then Some (r - 1)
          else if p = RIGHT \<and> r mod w \<noteq> w - 1 then Some (r + 1)
          else None)"

text \<open>The ports through which a router may send a packet for \<open>d\<close>.\<close>

definition legal :: "topology \<Rightarrow> nat \<Rightarrow> nat \<Rightarrow> int \<Rightarrow> nat \<Rightarrow> bool" where
  "legal t N r d p =
     (case t of
        RING \<Rightarrow> if d = int r then p = LOCAL else p = LEFT \<or> p = RIGHT
      | MESH \<Rightarrow> mesh_dirs (int (isqrt N)) (int r) d 0 p)"

section \<open>Streams of packets\<close>

text \<open>The state of a channel is the destination of the packet that is passing, if any.\<close>

definition fits :: "int option \<Rightarrow> flit \<Rightarrow> bool" where
  "fits s f = (case s of None \<Rightarrow> fl_head f | Some d \<Rightarrow> \<not> fl_head f \<and> fl_dst f = d)"

definition after :: "flit \<Rightarrow> int option" where
  "after f = (if fl_tail f then None else Some (fl_dst f))"

fun stream :: "int option \<Rightarrow> flit list \<Rightarrow> int option option" where
  "stream s [] = Some s"
| "stream s (f # fs) = (if fits s f then stream (after f) fs else None)"

lemma stream_append: "stream s (xs @ ys) = (case stream s xs of None \<Rightarrow> None | Some u \<Rightarrow> stream u ys)"
  by (induction xs arbitrary: s) simp_all

lemma stream_flit [simp]:
  "fits s (f\<lparr>fl_state := x\<rparr>) = fits s f" "after (f\<lparr>fl_state := x\<rparr>) = after f"
  "fits s (f\<lparr>fl_rdy_cycle := c\<rparr>) = fits s f" "after (f\<lparr>fl_rdy_cycle := c\<rparr>) = after f"
  by (simp_all add: fits_def after_def split: option.split)

text \<open>What a change of a flit may not touch.\<close>

definition same_flit :: "flit \<Rightarrow> flit \<Rightarrow> bool" where
  "same_flit f f' \<longleftrightarrow> fl_head f' = fl_head f \<and> fl_tail f' = fl_tail f \<and> fl_dst f' = fl_dst f \<and> fl_req f' = fl_req f"

lemma same_flitD:
  assumes "same_flit f f'"
  shows "fits s f' = fits s f" "after f' = after f" "fl_dst f' = fl_dst f" "fl_tail f' = fl_tail f" "fl_req f' = fl_req f"
  using assms by (simp_all add: same_flit_def fits_def after_def split: option.split)

definition out_end :: "(nat \<Rightarrow> nat \<Rightarrow> int option) \<Rightarrow> router \<Rightarrow> nat \<Rightarrow> nat \<Rightarrow> int option option" where
  "out_end F rt p v = stream (F p v) (rt_output rt p v)"

definition in_start :: "(nat \<Rightarrow> nat \<Rightarrow> int option) \<Rightarrow> router \<Rightarrow> nat \<Rightarrow> nat \<Rightarrow> int option option" where
  "in_start F rt q v =
     (case rt_route_fixed rt q v of None \<Rightarrow> Some None
      | Some p \<Rightarrow> (case rt_output_vc_id rt q v of None \<Rightarrow> None | Some u \<Rightarrow> out_end F rt p u))"

definition owns :: "router \<Rightarrow> nat \<Rightarrow> nat \<Rightarrow> nat \<Rightarrow> nat \<Rightarrow> bool" where
  "owns rt q v p u \<longleftrightarrow> q < rt_num_port rt \<and> v < rt_num_vc rt \<and> rt_route_fixed rt q v = Some p \<and> rt_output_vc_id rt q v = Some u"

section \<open>The invariant of a router\<close>

definition fixed_ok :: "router \<Rightarrow> nat \<Rightarrow> nat \<Rightarrow> bool" where
  "fixed_ok rt q v \<longleftrightarrow> rt_output_port_id rt q v = rt_route_fixed rt q v \<and>
     (case rt_route_fixed rt q v of
        None \<Rightarrow> rt_output_vc_id rt q v = None
      | Some p \<Rightarrow> p < rt_num_port rt \<and> p \<noteq> q \<and> (\<exists>u<rt_num_vc rt. rt_output_vc_id rt q v = Some u))"

definition routed_ok :: "(int \<Rightarrow> nat \<Rightarrow> bool) \<Rightarrow> int option \<Rightarrow> flit list \<Rightarrow> nat option \<Rightarrow> bool" where
  "routed_ok L s fs rf \<longleftrightarrow>
     (case rf of
        None \<Rightarrow> True
      | Some p \<Rightarrow>
          (case s of
             Some d \<Rightarrow> L d p
           | None \<Rightarrow> fs \<noteq> [] \<and> fl_state (hd fs) \<in> {VCA, SA} \<and> L (fl_dst (hd fs)) p))"

definition in_ok :: "nat \<Rightarrow> (int \<Rightarrow> nat \<Rightarrow> bool) \<Rightarrow> (nat \<Rightarrow> nat \<Rightarrow> int option) \<Rightarrow> (nat \<Rightarrow> nat \<Rightarrow> int option) \<Rightarrow> router \<Rightarrow> nat \<Rightarrow> nat \<Rightarrow> bool" where
  "in_ok R L F E rt q v \<longleftrightarrow> fixed_ok rt q v \<and>
     (\<exists>s. in_start F rt q v = Some s \<and> stream s (rt_input rt q v) = Some (E q v) \<and> routed_ok L s (rt_input rt q v) (rt_route_fixed rt q v)) \<and>
     (\<forall>f\<in>set (tl (rt_input rt q v)). fl_state f = IB) \<and>
     (rt_input rt q v \<noteq> [] \<and> fl_state (hd (rt_input rt q v)) = RC \<longrightarrow>
        (\<forall>k<R. \<forall>p. rt_route rt q v k p \<longrightarrow> L (fl_dst (hd (rt_input rt q v))) p)) \<and>
     length (rt_input rt q v) \<le> 10"

definition out_ok :: "(int \<Rightarrow> nat \<Rightarrow> bool) \<Rightarrow> (nat \<Rightarrow> nat \<Rightarrow> int option) \<Rightarrow> router \<Rightarrow> nat \<Rightarrow> nat \<Rightarrow> bool" where
  "out_ok L F rt p u \<longleftrightarrow> out_end F rt p u \<noteq> None \<and>
     ((\<nexists>q v. owns rt q v p u) \<longrightarrow> out_end F rt p u = Some None) \<and>
     (\<forall>q v q' v'. owns rt q v p u \<longrightarrow> owns rt q' v' p u \<longrightarrow> q = q' \<and> v = v') \<and>
     (\<forall>f\<in>set (rt_output rt p u). fl_state f = ST \<and> L (fl_dst f) p) \<and> (\<forall>d. F p u = Some d \<longrightarrow> L d p) \<and>
     (\<forall>f\<in>set (butlast (rt_output rt p u)). \<not> fl_tail f) \<and>
     (\<forall>q v. owns rt q v p u \<longrightarrow> (\<forall>f\<in>set (rt_output rt p u). \<not> fl_tail f)) \<and>
     (rt_output_vc_avail rt p u \<longrightarrow> rt_output rt p u = [] \<and> (\<nexists>q v. owns rt q v p u) \<and> F p u = None)"

definition flit_ok :: "nat \<Rightarrow> (addr \<Rightarrow> mem_req) \<Rightarrow> flit \<Rightarrow> bool" where
  "flit_ok N reqs f \<longleftrightarrow> 0 \<le> fl_dst f \<and> fl_dst f < int N \<and> fl_dst f = mr_msg_dst (reqs (fl_req f)) \<and> fl_dir f \<in> {None, Some LEFT, Some RIGHT}"

definition credit_ok :: "(nat \<Rightarrow> nat option) \<Rightarrow> router \<Rightarrow> credit \<Rightarrow> bool" where
  "credit_ok lk rt c \<longleftrightarrow> cr_port c < rt_num_port rt \<and> cr_vc c < rt_num_vc rt \<and> lk (cr_port c) \<noteq> None"

definition cfg_ok :: "topology \<Rightarrow> nat \<Rightarrow> nat \<Rightarrow> router \<Rightarrow> bool" where
  "cfg_ok t N r rt \<longleftrightarrow> rt_id rt = int r \<and> rt_num_port rt = ports t \<and> 2 \<le> rt_num_vc rt \<and> rt_num_vc rt < 2 ^ 64 \<and>
     rt_total_router rt = int N \<and> rt_arbitration_policy rt = OLDEST_FIRST \<and> rt_buffer_max_size rt = 10 \<and> rt_link_width rt \<noteq> 0 \<and>
     rt_link rt = net_link t N r"

definition reqs_ok :: "nat \<Rightarrow> (addr \<Rightarrow> mem_req) \<Rightarrow> nat \<Rightarrow> router \<Rightarrow> bool" where
  "reqs_ok N reqs r rt \<longleftrightarrow>
     (\<forall>q v. \<forall>f\<in>set (rt_input rt q v) \<union> set (rt_output rt q v). flit_ok N reqs f) \<and>
     (\<forall>a\<in>set (rt_injection_buffer rt). 0 \<le> mr_msg_dst (reqs a) \<and> mr_msg_dst (reqs a) < int N) \<and>
     (\<forall>a\<in>set (rt_req_buffer rt). mr_msg_dst (reqs a) = int r)"

definition rt_ok :: "topology \<Rightarrow> nat \<Rightarrow> (addr \<Rightarrow> mem_req) \<Rightarrow> nat \<Rightarrow> (nat \<Rightarrow> nat \<Rightarrow> int option) \<Rightarrow> (nat \<Rightarrow> nat \<Rightarrow> int option) \<Rightarrow> router \<Rightarrow> bool" where
  "rt_ok t N reqs r F E rt \<longleftrightarrow> cfg_ok t N r rt \<and>
     (\<forall>q<rt_num_port rt. \<forall>v<rt_num_vc rt. in_ok (rows t) (legal t N r) F E rt q v) \<and>
     (\<forall>p<rt_num_port rt. \<forall>u<rt_num_vc rt. out_ok (legal t N r) F rt p u) \<and>
     (\<forall>c\<in>set (rt_pending_credit rt). credit_ok (net_link t N r) rt c) \<and> (\<forall>p u. 0 \<le> rt_credit rt p u) \<and> reqs_ok N reqs r rt"

section \<open>The invariant of the network\<close>

text \<open>\<open>F r p u\<close> is the state of the channel \<open>u\<close> where it leaves port \<open>p\<close> of router \<open>r\<close>, which is the
  state where it enters the neighbour.\<close>

definition arrive :: "topology \<Rightarrow> nat \<Rightarrow> (nat \<Rightarrow> nat \<Rightarrow> nat \<Rightarrow> int option) \<Rightarrow> nat \<Rightarrow> nat \<Rightarrow> nat \<Rightarrow> int option" where
  "arrive t N F r q v = (case net_link t N r q of None \<Rightarrow> None | Some r' \<Rightarrow> F r' (opposite_dir q) v)"

definition pending :: "router \<Rightarrow> nat \<Rightarrow> nat \<Rightarrow> nat" where
  "pending rt p u = length (filter (\<lambda>c. cr_port c = p \<and> cr_vc c = u) (rt_pending_credit rt))"

text \<open>The account of credits of every link; a port without a link receives nothing, and the routers have the
  same number of virtual channels.\<close>

definition links_ok :: "topology \<Rightarrow> nat \<Rightarrow> (nat \<Rightarrow> router) \<Rightarrow> bool" where
  "links_ok t N rts \<longleftrightarrow> (\<forall>r<N. \<forall>p r' u. net_link t N r p = Some r' \<longrightarrow>
     rt_credit (rts r) p u + int (length (rt_input (rts r') (opposite_dir p) u)) + int (pending (rts r) p u) = 10) \<and>
     (\<forall>r<N. \<forall>q u. q \<noteq> LOCAL \<longrightarrow> net_link t N r q = None \<longrightarrow> rt_input (rts r) q u = []) \<and>
     (\<forall>r<N. \<forall>r'<N. rt_num_vc (rts r) = rt_num_vc (rts r'))"

definition net_inv_with :: "topology \<Rightarrow> net \<Rightarrow> (nat \<Rightarrow> nat \<Rightarrow> nat \<Rightarrow> int option) \<Rightarrow> bool" where
  "net_inv_with t n F \<longleftrightarrow> (let N = nt_num_router n in
     length (nt_routers n) = N \<and> N < 2 ^ 64 \<and> good_size t N \<and>
     (\<forall>r<N. rt_ok t N (nt_reqs n) r (F r) (arrive t N F r) (nt_routers n ! r)) \<and>
     links_ok t N (\<lambda>r. nt_routers n ! r))"

definition net_inv :: "topology \<Rightarrow> net \<Rightarrow> bool" where
  "net_inv t n \<longleftrightarrow> (\<exists>F. net_inv_with t n F)"

text \<open>The packets in the network: requests waiting to be injected, packets on their way (each has one tail),
  and requests that have arrived.\<close>

definition tails :: "flit list \<Rightarrow> addr multiset" where
  "tails fs = mset (map fl_req (filter fl_tail fs))"

definition rt_packets :: "router \<Rightarrow> addr multiset" where
  "rt_packets rt = mset (rt_injection_buffer rt) + mset (rt_req_buffer rt) +
     (\<Sum>(q, v)\<in>{0..<rt_num_port rt} \<times> {0..<rt_num_vc rt}. tails (rt_input rt q v) + tails (rt_output rt q v))"

definition packets :: "net \<Rightarrow> addr multiset" where
  "packets n = sum_list (map rt_packets (nt_routers n))"

section \<open>Basic facts\<close>

lemma upd2_same [simp]: "upd2 i j v a i j = v"
  by (simp add: upd2_def)

lemma upd2_other [simp]: "\<not> (x = i \<and> y = j) \<Longrightarrow> upd2 i j v a x y = a x y"
  by (auto simp add: upd2_def)

lemma upd2_apply: "upd2 i j v a x y = (if x = i \<and> y = j then v else a x y)"
  by (simp add: upd2_def)

lemma sum_update:
  assumes "finite A" "x \<in> A" "\<And>y. y \<in> A \<Longrightarrow> y \<noteq> x \<Longrightarrow> g y = f y"
  shows "sum g A + f x = sum f A + (g x :: 'a::comm_monoid_add)"
proof -
  have "sum g (A - {x}) = sum f (A - {x})" using assms(3) by (intro sum.cong) auto
  then show ?thesis using sum.remove[OF assms(1,2), of g] sum.remove[OF assms(1,2), of f] by (simp add: ac_simps)
qed

definition vc_tails :: "router \<Rightarrow> nat \<times> nat \<Rightarrow> addr multiset" where
  "vc_tails rt = (\<lambda>(q, v). tails (rt_input rt q v) + tails (rt_output rt q v))"

lemma rt_packets_alt: "rt_packets rt = mset (rt_injection_buffer rt) + mset (rt_req_buffer rt) +
    sum (vc_tails rt) ({0..<rt_num_port rt} \<times> {0..<rt_num_vc rt})"
  by (simp add: rt_packets_def vc_tails_def)

lemma tails_append [simp]: "tails (xs @ ys) = tails xs + tails ys"
  by (simp add: tails_def)

lemma tails_Cons [simp]: "tails (f # fs) = (if fl_tail f then add_mset (fl_req f) (tails fs) else tails fs)"
  by (simp add: tails_def)

lemma tails_Nil [simp]: "tails [] = {#}"
  by (simp add: tails_def)

definition in_tails :: "router \<Rightarrow> addr multiset" where
  "in_tails rt = (\<Sum>x\<in>{0..<rt_num_port rt} \<times> {0..<rt_num_vc rt}. tails (rt_input rt (fst x) (snd x)))"

definition out_tails :: "router \<Rightarrow> addr multiset" where
  "out_tails rt = (\<Sum>x\<in>{0..<rt_num_port rt} \<times> {0..<rt_num_vc rt}. tails (rt_output rt (fst x) (snd x)))"

lemma rt_packets_split: "rt_packets rt = mset (rt_injection_buffer rt) + mset (rt_req_buffer rt) + in_tails rt + out_tails rt"
  by (simp add: rt_packets_def in_tails_def out_tails_def sum.distrib[symmetric] split_def ac_simps)

lemma in_tails_upd:
  assumes "q < rt_num_port rt" "v < rt_num_vc rt" "rt_input rt' = upd2 q v fs (rt_input rt)" "rt_num_port rt' = rt_num_port rt" "rt_num_vc rt' = rt_num_vc rt"
  shows "in_tails rt' + tails (rt_input rt q v) = in_tails rt + tails fs"
proof -
  let ?A = "{0..<rt_num_port rt} \<times> {0..<rt_num_vc rt}"
  have "(\<Sum>x\<in>?A. tails (upd2 q v fs (rt_input rt) (fst x) (snd x))) + tails (rt_input rt (fst (q, v)) (snd (q, v))) =
      (\<Sum>x\<in>?A. tails (rt_input rt (fst x) (snd x))) + tails (upd2 q v fs (rt_input rt) (fst (q, v)) (snd (q, v)))"
    using assms(1,2) by (intro sum_update) (auto simp add: upd2_apply)
  then show ?thesis by (simp add: in_tails_def assms(3-5))
qed

lemma out_tails_upd:
  assumes "q < rt_num_port rt" "v < rt_num_vc rt" "rt_output rt' = upd2 q v fs (rt_output rt)" "rt_num_port rt' = rt_num_port rt" "rt_num_vc rt' = rt_num_vc rt"
  shows "out_tails rt' + tails (rt_output rt q v) = out_tails rt + tails fs"
proof -
  let ?A = "{0..<rt_num_port rt} \<times> {0..<rt_num_vc rt}"
  have "(\<Sum>x\<in>?A. tails (upd2 q v fs (rt_output rt) (fst x) (snd x))) + tails (rt_output rt (fst (q, v)) (snd (q, v))) =
      (\<Sum>x\<in>?A. tails (rt_output rt (fst x) (snd x))) + tails (upd2 q v fs (rt_output rt) (fst (q, v)) (snd (q, v)))"
    using assms(1,2) by (intro sum_update) (auto simp add: upd2_apply)
  then show ?thesis by (simp add: out_tails_def assms(3-5))
qed

text \<open>A step of a router that does not concern its neighbours.\<close>

definition rt_keeps :: "router \<Rightarrow> router \<Rightarrow> bool" where
  "rt_keeps rt rt' \<longleftrightarrow> (\<forall>q u. q \<noteq> LOCAL \<longrightarrow> length (rt_input rt' q u) = length (rt_input rt q u)) \<and>
     (\<forall>p u. rt_credit rt' p u + int (pending rt' p u) = rt_credit rt p u + int (pending rt p u)) \<and> rt_packets rt' = rt_packets rt \<and>
     rt_num_port rt' = rt_num_port rt \<and> rt_num_vc rt' = rt_num_vc rt"

lemma rt_keeps_refl [simp]: "rt_keeps rt rt"
  by (simp add: rt_keeps_def)

lemma rt_keeps_trans: "rt_keeps a b \<Longrightarrow> rt_keeps b c \<Longrightarrow> rt_keeps a c"
  by (simp add: rt_keeps_def)

lemma rt_okD:
  assumes "rt_ok t N reqs r F E rt"
  shows "cfg_ok t N r rt" "q < rt_num_port rt \<Longrightarrow> v < rt_num_vc rt \<Longrightarrow> in_ok (rows t) (legal t N r) F E rt q v"
    "p < rt_num_port rt \<Longrightarrow> u < rt_num_vc rt \<Longrightarrow> out_ok (legal t N r) F rt p u"
    "c \<in> set (rt_pending_credit rt) \<Longrightarrow> credit_ok (net_link t N r) rt c" "0 \<le> rt_credit rt a b" "reqs_ok N reqs r rt"
  using assms by (simp_all add: rt_ok_def)

lemma reqs_okD:
  assumes "reqs_ok N reqs r rt"
  shows "f \<in> set (rt_input rt q v) \<Longrightarrow> flit_ok N reqs f" "f \<in> set (rt_output rt q v) \<Longrightarrow> flit_ok N reqs f"
    "a \<in> set (rt_injection_buffer rt) \<Longrightarrow> 0 \<le> mr_msg_dst (reqs a) \<and> mr_msg_dst (reqs a) < int N"
    "a \<in> set (rt_req_buffer rt) \<Longrightarrow> mr_msg_dst (reqs a) = int r"
  using assms unfolding reqs_ok_def by blast+

lemma reqs_okI:
  assumes "\<And>q v f. f \<in> set (rt_input rt q v) \<Longrightarrow> flit_ok N reqs f" "\<And>q v f. f \<in> set (rt_output rt q v) \<Longrightarrow> flit_ok N reqs f"
    "\<And>a. a \<in> set (rt_injection_buffer rt) \<Longrightarrow> 0 \<le> mr_msg_dst (reqs a) \<and> mr_msg_dst (reqs a) < int N"
    "\<And>a. a \<in> set (rt_req_buffer rt) \<Longrightarrow> mr_msg_dst (reqs a) = int r"
  shows "reqs_ok N reqs r rt"
  using assms unfolding reqs_ok_def by blast

lemma rt_okI:
  assumes ok: "rt_ok t N reqs r F E rt"
    and cfg: "rt_id rt' = rt_id rt" "rt_num_port rt' = rt_num_port rt" "rt_num_vc rt' = rt_num_vc rt" "rt_total_router rt' = rt_total_router rt"
      "rt_arbitration_policy rt' = rt_arbitration_policy rt" "rt_buffer_max_size rt' = rt_buffer_max_size rt"
      "rt_link_width rt' = rt_link_width rt" "rt_link rt' = rt_link rt"
    and pend: "\<And>c. c \<in> set (rt_pending_credit rt') \<Longrightarrow> credit_ok (net_link t N r) rt c" and cred: "\<And>p u. 0 \<le> rt_credit rt' p u"
    and ins: "\<And>a b. a < rt_num_port rt \<Longrightarrow> b < rt_num_vc rt \<Longrightarrow> in_ok (rows t) (legal t N r) F' E' rt' a b"
    and outs: "\<And>a b. a < rt_num_port rt \<Longrightarrow> b < rt_num_vc rt \<Longrightarrow> out_ok (legal t N r) F' rt' a b" and reqs: "reqs_ok N reqs' r rt'"
  shows "rt_ok t N reqs' r F' E' rt'"
proof -
  have "cfg_ok t N r rt'" using rt_okD(1)[OF ok] cfg by (simp add: cfg_ok_def)
  moreover have "credit_ok (net_link t N r) rt' c" if "c \<in> set (rt_pending_credit rt')" for c
    using pend[OF that] cfg by (simp add: credit_ok_def)
  ultimately show ?thesis using cred ins outs reqs cfg unfolding rt_ok_def by simp
qed

text \<open>The flit at the front of an input channel changes its state or direction.\<close>

lemma front_step:
  assumes ok: "rt_ok t N reqs r F E rt" and q: "q < rt_num_port rt" "v < rt_num_vc rt" and inp: "rt_input rt q v = f # fs"
    and same: "same_flit f f'" and fok: "flit_ok N reqs f'" and st: "fl_state f \<in> {VCA, SA} \<Longrightarrow> fl_state f' \<in> {VCA, SA}"
    and rc: "fl_state f' = RC \<Longrightarrow> \<forall>k<rows t. \<forall>p. R k p \<longrightarrow> legal t N r (fl_dst f) p"
    and rt': "rt' = rt\<lparr>rt_route := upd2 q v R (rt_route rt), rt_input := upd2 q v (f' # fs) (rt_input rt)\<rparr>"
  shows "rt_ok t N reqs r F E rt'" "rt_keeps rt rt'"
proof -
  note S = same_flitD[OF same]
  have owns: "owns rt' = owns rt" by (auto simp add: owns_def rt' fun_eq_iff)
  have oe: "out_end F rt' = out_end F rt" by (simp add: out_end_def rt' fun_eq_iff)
  have fx: "rt_route_fixed rt' = rt_route_fixed rt" "rt_output_vc_id rt' = rt_output_vc_id rt" by (simp_all add: rt')
  have fo: "fixed_ok rt' = fixed_ok rt" by (simp add: fixed_ok_def rt' fun_eq_iff split: option.split)
  have ist: "in_start F rt' = in_start F rt" by (simp add: in_start_def oe fx fun_eq_iff split: option.split)
  have "in_ok (rows t) (legal t N r) F E rt' a b" if "a < rt_num_port rt" "b < rt_num_vc rt" for a b
  proof (cases "a = q \<and> b = v")
    case False
    then have "rt_input rt' a b = rt_input rt a b" "rt_route rt' a b = rt_route rt a b" by (simp_all add: rt')
    then show ?thesis using rt_okD(2)[OF ok that] by (simp add: in_ok_def ist fo fx)
  next
    case True
    have st': "stream s (f' # fs) = stream s (f # fs)" for s by (simp add: S)
    have "routed_ok (legal t N r) s (f' # fs) rf" if "routed_ok (legal t N r) s (f # fs) rf" for s rf
      using that st by (simp add: routed_ok_def S split: option.splits)
    moreover have "rt_input rt' q v = f' # fs" "rt_route rt' q v = R" by (simp_all add: rt')
    ultimately show ?thesis using rt_okD(2)[OF ok that] True rc
      by (auto simp add: in_ok_def ist fo fx inp S st' simp del: stream.simps)
  qed
  moreover have "out_ok (legal t N r) F rt' a b" if "a < rt_num_port rt" "b < rt_num_vc rt" for a b
    using rt_okD(3)[OF ok that] by (simp add: out_ok_def owns oe) (simp add: rt')
  moreover have "reqs_ok N reqs r rt'"
  proof (rule reqs_okI)
    note Q = reqs_okD[OF rt_okD(6)[OF ok]]
    show "flit_ok N reqs x" if "x \<in> set (rt_input rt' a b)" for a b x
      using that fok Q(1)[of x q v] Q(1)[of x a b] inp by (auto simp add: rt' upd2_apply split: if_splits)
  qed (use reqs_okD[OF rt_okD(6)[OF ok]] in \<open>simp_all add: rt'\<close>)
  ultimately show "rt_ok t N reqs r F E rt'"
    by (rule rt_okI[OF ok, rotated -3]) (use rt_okD(4,5)[OF ok] in \<open>simp_all add: rt'\<close>)
  have "vc_tails rt' = vc_tails rt" by (auto simp add: fun_eq_iff vc_tails_def rt' upd2_apply inp S)
  then show "rt_keeps rt rt'" by (auto simp add: rt_keeps_def rt_packets_alt pending_def rt' upd2_apply inp)
qed

lemmas rt_defs = rt_ok_def cfg_ok_def in_ok_def out_ok_def owns_def out_end_def in_start_def fixed_ok_def reqs_ok_def credit_ok_def

lemma rt_ok_clock [simp]:
  "rt_ok t N reqs r F E (rt\<lparr>rt_sw_avail := x\<rparr>) = rt_ok t N reqs r F E rt"
  "rt_ok t N reqs r F E (rt\<lparr>rt_link_avail := x\<rparr>) = rt_ok t N reqs r F E rt"
  "rt_ok t N reqs r F E (rt\<lparr>rt_cycle := y\<rparr>) = rt_ok t N reqs r F E rt"
  by (simp_all add: rt_defs cong: option.case_cong)

lemma rt_packets_clock [simp]:
  "rt_packets (rt\<lparr>rt_sw_avail := x\<rparr>) = rt_packets rt" "rt_packets (rt\<lparr>rt_link_avail := x\<rparr>) = rt_packets rt"
  "rt_packets (rt\<lparr>rt_cycle := y\<rparr>) = rt_packets rt"
  by (simp_all add: rt_packets_def)

lemma rt_keeps_clock [simp]:
  "rt_keeps rt (rt'\<lparr>rt_sw_avail := x\<rparr>) = rt_keeps rt rt'" "rt_keeps rt (rt'\<lparr>rt_cycle := y\<rparr>) = rt_keeps rt rt'"
  by (simp_all add: rt_keeps_def pending_def)

lemma upd2_id [simp]: "upd2 i j (a i j) a = a"
  by (auto simp add: upd2_def)

lemma pick_oldest_sound:
  "pick_oldest ts xs t b = Some x \<Longrightarrow> b = Some x \<or> (x \<in> set xs \<and> ts x \<noteq> None)"
proof (induction xs arbitrary: t b)
  case (Cons y xs)
  show ?case
  proof (cases "ts y")
    case None
    then show ?thesis using Cons.IH[of t b] Cons.prems by auto
  next
    case (Some u)
    then show ?thesis using Cons.IH[of u "Some y"] Cons.IH[of t b] Cons.prems by (auto split: if_splits)
  qed
qed simp

lemma all_vcs_in: "x \<in> set (all_vcs rt) \<longleftrightarrow> fst x < rt_num_port rt \<and> snd x < rt_num_vc rt"
  by (cases x) (simp add: all_vcs_def)

lemma fold_rt:
  assumes "\<And>x rt. x \<in> set xs \<Longrightarrow> rt_ok t N reqs r F E rt \<Longrightarrow> rt_num_port rt = a \<Longrightarrow> rt_num_vc rt = b \<Longrightarrow>
      \<exists>rt'. f x rt = Inr rt' \<and> rt_ok t N reqs r F E rt' \<and> rt_keeps rt rt'"
    and "rt_ok t N reqs r F E rt" "rt_num_port rt = a" "rt_num_vc rt = b"
  shows "\<exists>rt'. fold_res f xs rt = Inr rt' \<and> rt_ok t N reqs r F E rt' \<and> rt_keeps rt rt'"
proof (rule fold_res_inv[where I = "\<lambda>rt'. rt_ok t N reqs r F E rt' \<and> rt_keeps rt rt'"])
  fix x s
  assume "x \<in> set xs" and s: "rt_ok t N reqs r F E s \<and> rt_keeps rt s"
  with assms(1)[of x s] assms(3,4) show "\<exists>s'. f x s = Inr s' \<and> rt_ok t N reqs r F E s' \<and> rt_keeps rt s'"
    by (auto simp add: rt_keeps_def)
qed (use assms(2) in simp)

section \<open>Switch allocation\<close>

lemma sa_port_spec:
  assumes ok: "rt_ok t N reqs r F E rt"
  shows "\<exists>rt'. sa_port op rt = Inr rt' \<and> rt_ok t N reqs r F E rt' \<and> rt_keeps rt rt'"
proof (cases "rt_sw_avail rt op \<le> rt_cycle rt")
  case False
  then show ?thesis using ok by (simp add: sa_port_def)
next
  case True
  have pol: "rt_arbitration_policy rt = OLDEST_FIRST" using rt_okD(1)[OF ok] by (simp add: cfg_ok_def)
  let ?w = "pick_oldest (sa_candidate rt op) (all_vcs rt) ULLONG_MAX None"
  show ?thesis
  proof (cases ?w)
    case None
    then show ?thesis using ok True pol by (simp add: sa_port_def stage_sa_pick_winner_def)
  next
    case (Some x)
    obtain q v where x: "x = (q, v)" by (cases x)
    have in_range: "q < rt_num_port rt" "v < rt_num_vc rt" and cand: "sa_candidate rt op (q, v) \<noteq> None"
      using pick_oldest_sound[OF Some] by (auto simp add: x all_vcs_in)
    then obtain f fs where inp: "rt_input rt q v = f # fs"
      by (cases "rt_input rt q v") (auto simp add: sa_candidate_def split: if_splits)
    have front: "set_front q v SA rt = rt\<lparr>rt_route := upd2 q v (rt_route rt q v) (rt_route rt),
        rt_input := upd2 q v (f\<lparr>fl_state := SA\<rparr> # fs) (rt_input rt)\<rparr>" by (simp add: set_front_def inp)
    have "flit_ok N reqs (f\<lparr>fl_state := SA\<rparr>)" using reqs_okD(1)[OF rt_okD(6)[OF ok], of f q v] inp by (simp add: flit_ok_def)
    from front_step[OF ok in_range inp _ this _ _ front] have "rt_ok t N reqs r F E (set_front q v SA rt)" "rt_keeps rt (set_front q v SA rt)"
      by (simp_all add: same_flit_def)
    then show ?thesis using True pol Some x by (simp add: sa_port_def stage_sa_pick_winner_def)
  qed
qed

section \<open>Virtual channel allocation\<close>

lemma out_ok_cong:
  assumes "\<And>c d. owns rt' c d a b = owns rt c d a b" "out_end F' rt' a b = out_end F rt a b" "F' a b = F a b"
    "rt_output rt' a b = rt_output rt a b" "rt_output_vc_avail rt' a b = rt_output_vc_avail rt a b"
  shows "out_ok L F' rt' a b = out_ok L F rt a b"
  unfolding out_ok_def assms ..

lemma alloc_step:
  assumes ok: "rt_ok t N reqs r F E rt" and q: "q < rt_num_port rt" "v < rt_num_vc rt" and inp: "rt_input rt q v = f # fs" "fl_state f = VCA"
    and free: "rt_route_fixed rt q v = None" and p: "p < rt_num_port rt" "u < rt_num_vc rt" "p \<noteq> q" "rt_output_vc_avail rt p u"
    and leg: "legal t N r (fl_dst f) p"
    and rt': "rt' = rt\<lparr>rt_output_port_id := upd2 q v (Some p) (rt_output_port_id rt), rt_output_vc_id := upd2 q v (Some u) (rt_output_vc_id rt),
      rt_output_vc_avail := upd2 p u False (rt_output_vc_avail rt), rt_route_fixed := upd2 q v (Some p) (rt_route_fixed rt)\<rparr>"
  shows "rt_ok t N reqs r F E rt'" "rt_keeps rt rt'"
proof -
  have oe: "out_end F rt' = out_end F rt" by (simp add: out_end_def rt' fun_eq_iff)
  have Y: "rt_output rt p u = []" "\<not> owns rt a b p u" "F p u = None" for a b
    using rt_okD(3)[OF ok p(1,2)] p(4) by (simp_all add: out_ok_def)
  have owns: "owns rt' a b p' u' \<longleftrightarrow> (if a = q \<and> b = v then p' = p \<and> u' = u else owns rt a b p' u')" for a b p' u'
    using q by (auto simp add: owns_def rt' upd2_apply)
  have no: "\<not> owns rt q v p' u'" for p' u' using free by (simp add: owns_def)
  have "in_ok (rows t) (legal t N r) F E rt' a b" if ab: "a < rt_num_port rt" "b < rt_num_vc rt" for a b
  proof (cases "a = q \<and> b = v")
    case False
    then have fx: "rt_route_fixed rt' a b = rt_route_fixed rt a b" "rt_output_vc_id rt' a b = rt_output_vc_id rt a b"
      "rt_output_port_id rt' a b = rt_output_port_id rt a b" "rt_num_port rt' = rt_num_port rt" "rt_num_vc rt' = rt_num_vc rt"
      "rt_input rt' = rt_input rt" "rt_route rt' = rt_route rt"
      by (simp_all add: rt')
    then have "in_start F rt' a b = in_start F rt a b" by (simp add: in_start_def oe cong: option.case_cong)
    moreover have "fixed_ok rt' a b = fixed_ok rt a b" using fx by (simp add: fixed_ok_def cong: option.case_cong)
    ultimately show ?thesis using rt_okD(2)[OF ok ab] fx by (simp add: in_ok_def)
  next
    case True
    have "in_start F rt' q v = Some None" using Y by (simp add: in_start_def oe out_end_def) (simp add: rt' out_end_def)
    moreover have "in_start F rt q v = Some None" using free by (simp add: in_start_def)
    moreover have "fixed_ok rt' q v" using p by (simp add: fixed_ok_def rt')
    moreover have "routed_ok (legal t N r) None (f # fs) (Some p)" using inp(2) leg by (simp add: routed_ok_def)
    moreover have "rt_input rt' q v = f # fs" "rt_route_fixed rt' q v = Some p" by (simp_all add: rt' inp)
    ultimately show ?thesis using rt_okD(2)[OF ok q] True inp by (auto simp add: in_ok_def simp del: stream.simps)
  qed
  moreover have "out_ok (legal t N r) F rt' a b" if ab: "a < rt_num_port rt" "b < rt_num_vc rt" for a b
  proof (cases "a = p \<and> b = u")
    case True
    then show ?thesis using Y rt_okD(3)[OF ok p(1,2)] by (auto simp add: out_ok_def owns oe) (auto simp add: rt' out_end_def)
  next
    case False
    then have "owns rt' c d a b = owns rt c d a b" for c d using no by (simp add: owns) 
    moreover have "rt_output rt' = rt_output rt" "rt_output_vc_avail rt' a b = rt_output_vc_avail rt a b" using False by (simp_all add: rt')
    ultimately show ?thesis using rt_okD(3)[OF ok ab] out_ok_cong[of rt' a b rt F F "legal t N r"] oe by simp
  qed
  moreover have "reqs_ok N reqs r rt'" using rt_okD(6)[OF ok] by (simp add: reqs_ok_def rt')
  ultimately show "rt_ok t N reqs r F E rt'"
    by (rule rt_okI[OF ok, rotated -3]) (use rt_okD(4,5)[OF ok] in \<open>simp_all add: rt'\<close>)
  show "rt_keeps rt rt'" by (simp add: rt_keeps_def rt_packets_def pending_def rt')
qed

lemma rc_unfixed:
  assumes ok: "rt_ok t N reqs r F E rt" and q: "q < rt_num_port rt" "v < rt_num_vc rt" and inp: "rt_input rt q v = f # fs"
    and f: "fl_head f" "fl_state f = RC"
  shows "rt_route_fixed rt q v = None"
proof (rule ccontr)
  assume "rt_route_fixed rt q v \<noteq> None"
  then obtain p where p: "rt_route_fixed rt q v = Some p" by auto
  from rt_okD(2)[OF ok q] obtain s where s: "stream s (f # fs) = Some (E q v)" "routed_ok (legal t N r) s (f # fs) (Some p)"
    by (auto simp add: in_ok_def inp p simp del: stream.simps)
  show False using s f by (cases s) (auto simp add: routed_ok_def fits_def split: if_splits)
qed

section \<open>What a router needs of its topology\<close>

locale noc_topology =
  fixes t :: topology
  assumes rc_empty: "rt_input rt q v = [] \<Longrightarrow> rc_vc t (q, v) rt = Inr rt"
    and rc_law: "cfg_ok t N r rt \<Longrightarrow> good_size t N \<Longrightarrow> r < N \<Longrightarrow> rt_input rt q v = f # fs \<Longrightarrow> flit_ok N reqs f \<Longrightarrow>
      rc_vc t (q, v) rt = Inr rt \<or>
      rc_ready rt f \<and> (\<exists>R d. rc_vc t (q, v) rt = Inr (rt\<lparr>rt_route := upd2 q v R (rt_route rt),
          rt_input := upd2 q v (f\<lparr>fl_state := RC, fl_dir := d\<rparr> # fs) (rt_input rt)\<rparr>) \<and> d \<in> {None, Some LEFT, Some RIGHT} \<and>
        (\<forall>k<rows t. \<forall>p. R k p \<longrightarrow> legal t N r (fl_dst f) p))"
    and vca_law: "cfg_ok t N r rt \<Longrightarrow> u < rt_num_vc rt \<Longrightarrow> \<exists>w. stage_vca_pick_winner t rt p u = Inr w \<and>
      (\<forall>q v. w = Some (q, v) \<longrightarrow> q < rt_num_port rt \<and> v < rt_num_vc rt \<and> q \<noteq> p \<and> rt_input rt q v \<noteq> [] \<and>
        fl_head (hd (rt_input rt q v)) \<and> fl_state (hd (rt_input rt q v)) = RC \<and> (\<exists>k<rows t. rt_route rt q v k p))"
    and link_law: "good_size t N \<Longrightarrow> r < N \<Longrightarrow> net_link t N r p = Some r' \<Longrightarrow>
      r' < N \<and> r' \<noteq> r \<and> p \<noteq> LOCAL \<and> opposite_dir p \<noteq> LOCAL \<and> p < ports t \<and> opposite_dir p < ports t \<and>
      net_link t N r' (opposite_dir p) = Some r \<and> opposite_dir (opposite_dir p) = p"
    and legal_local: "good_size t N \<Longrightarrow> r < N \<Longrightarrow> legal t N r d LOCAL \<Longrightarrow> d = int r"
    and legal_link: "good_size t N \<Longrightarrow> r < N \<Longrightarrow> 0 \<le> d \<Longrightarrow> d < int N \<Longrightarrow> legal t N r d p \<Longrightarrow> p \<noteq> LOCAL \<Longrightarrow> net_link t N r p \<noteq> None"

lemma ring_link_law:
  assumes "2 \<le> N" "r < N" "net_link RING N r p = Some r'"
  shows "r' < N \<and> r' \<noteq> r \<and> (p = LEFT \<and> net_link RING N r' RIGHT = Some r \<or> p = RIGHT \<and> net_link RING N r' LEFT = Some r)"
proof -
  consider "p = LEFT" "r' = (r + N - 1) mod N" | "p = RIGHT" "r' = (r + 1) mod N"
    using assms(3) by (auto simp add: net_link_def split: if_splits)
  then show ?thesis
  proof cases
    case 1
    have "r' = (if r = 0 then N - 1 else r - 1)" using assms(1,2) 1 by (cases "r = 0") (simp_all add: mod_if)
    then show ?thesis using assms(1,2) 1(1) by (auto simp add: net_link_def mod_if split: if_splits)
  next
    case 2
    have "r' = (if r = N - 1 then 0 else r + 1)" using assms(1,2) 2 by (cases "r = N - 1") simp_all
    then show ?thesis using assms(1,2) 2(1) by (auto simp add: net_link_def mod_if split: if_splits)
  qed
qed

lemma vca_candidateD:
  assumes "vca_candidate rt k al p (q, v) \<noteq> None"
  shows "q \<noteq> p \<and> rt_input rt q v \<noteq> [] \<and> fl_head (hd (rt_input rt q v)) \<and> fl_state (hd (rt_input rt q v)) = RC \<and> rt_route rt q v k p"
  using assms by (auto simp add: vca_candidate_def Let_def split: if_splits)

lemma pick_vc:
  assumes "pick_oldest (vca_candidate rt k al p) (all_vcs rt) ULLONG_MAX None = Some (q, v)"
  shows "q < rt_num_port rt \<and> v < rt_num_vc rt \<and> q \<noteq> p \<and> rt_input rt q v \<noteq> [] \<and> fl_head (hd (rt_input rt q v)) \<and>
    fl_state (hd (rt_input rt q v)) = RC \<and> rt_route rt q v k p"
proof -
  from pick_oldest_sound[OF assms] have "(q, v) \<in> set (all_vcs rt)" "vca_candidate rt k al p (q, v) \<noteq> None" by auto
  then show ?thesis using vca_candidateD[of rt k al p q v] by (simp add: all_vcs_in)
qed

interpretation ring: noc_topology RING
proof
  fix rt :: router and q v
  assume "rt_input rt q v = []"
  then show "rc_vc RING (q, v) rt = Inr rt" by (simp add: rc_vc_def ring_rc_vc_def)
next
  fix N r q v f fs and rt :: router and reqs :: "addr \<Rightarrow> mem_req"
  assume cfg: "cfg_ok RING N r rt" and inp: "rt_input rt q v = f # fs" and fok: "flit_ok N reqs f"
  let ?d = "ring_route rt f"
  have d: "?d = LOCAL \<and> fl_dst f = int r \<or> (?d = LEFT \<or> ?d = RIGHT) \<and> fl_dst f \<noteq> int r"
    using cfg fok by (auto simp add: ring_route_def ring_dir_def cfg_ok_def flit_ok_def split: option.splits)
  then have lt: "?d < rt_num_port rt" using cfg by (auto simp add: cfg_ok_def ports_def)
  have leg: "legal RING N r (fl_dst f) ?d" using d by (auto simp add: legal_def)
  let ?R = "(rt_route rt q v)(0 := (\<lambda>p. p = ?d))"
  show "rc_vc RING (q, v) rt = Inr rt \<or> rc_ready rt f \<and> (\<exists>R d. rc_vc RING (q, v) rt = Inr (rt\<lparr>rt_route := upd2 q v R (rt_route rt),
          rt_input := upd2 q v (f\<lparr>fl_state := RC, fl_dir := d\<rparr> # fs) (rt_input rt)\<rparr>) \<and> d \<in> {None, Some LEFT, Some RIGHT} \<and>
        (\<forall>k<rows RING. \<forall>p. R k p \<longrightarrow> legal RING N r (fl_dst f) p))"
  proof (cases "rt_route_fixed rt q v = None \<and> rc_ready rt f")
    case False
    then have "rc_vc RING (q, v) rt = Inr rt" by (auto simp add: rc_vc_def ring_rc_vc_def inp)
    then show ?thesis ..
  next
    case True
    define e where "e = (if fl_dst f \<noteq> rt_id rt \<and> fl_dir f = None then Some ?d else fl_dir f)"
    have "e \<in> {None, Some LEFT, Some RIGHT}" using fok d cfg by (auto simp add: e_def flit_ok_def cfg_ok_def)
    moreover have "rc_vc RING (q, v) rt = Inr (rt\<lparr>rt_route := upd2 q v ?R (rt_route rt), rt_input := upd2 q v (f\<lparr>fl_state := RC, fl_dir := e\<rparr> # fs) (rt_input rt)\<rparr>)"
      using True lt by (simp add: rc_vc_def ring_rc_vc_def inp Let_def e_def)
    moreover have "\<forall>k<rows RING. \<forall>p. ?R k p \<longrightarrow> legal RING N r (fl_dst f) p" using leg by (simp add: rows_def)
    ultimately show ?thesis using True by blast
  qed
next
  fix N r u p and rt :: router
  assume "cfg_ok RING N r rt"
  then show "\<exists>w. stage_vca_pick_winner RING rt p u = Inr w \<and>
      (\<forall>q v. w = Some (q, v) \<longrightarrow> q < rt_num_port rt \<and> v < rt_num_vc rt \<and> q \<noteq> p \<and> rt_input rt q v \<noteq> [] \<and>
        fl_head (hd (rt_input rt q v)) \<and> fl_state (hd (rt_input rt q v)) = RC \<and> (\<exists>k<rows RING. rt_route rt q v k p))"
    using pick_vc[of rt 0 "duato_allowed rt u" p]
    by (intro exI[of _ "pick_oldest (vca_candidate rt 0 (duato_allowed rt u) p) (all_vcs rt) ULLONG_MAX None"])
      (simp add: stage_vca_pick_winner_def cfg_ok_def rows_def)
next
  fix N r p r'
  assume "good_size RING N" "r < N" "net_link RING N r p = Some r'"
  then have "2 \<le> N" by (simp add: good_size_def)
  from ring_link_law[OF this \<open>r < N\<close> \<open>net_link RING N r p = Some r'\<close>]
  show "r' < N \<and> r' \<noteq> r \<and> p \<noteq> LOCAL \<and> opposite_dir p \<noteq> LOCAL \<and> p < ports RING \<and> opposite_dir p < ports RING \<and>
      net_link RING N r' (opposite_dir p) = Some r \<and> opposite_dir (opposite_dir p) = p"
    by (auto simp add: ports_def)
next
  fix N r d
  assume "legal RING N r d LOCAL"
  then show "d = int r" by (simp add: legal_def split: if_splits)
next
  fix N r d p
  assume "legal RING N r d p" "p \<noteq> LOCAL"
  then show "net_link RING N r p \<noteq> None" by (auto simp add: legal_def net_link_def split: if_splits)
qed

lemma grid_below:
  assumes "r div w < w - 1" "0 < w"
  shows "r + w < w * (w :: nat)"
proof -
  have "r < (r div w + 1) * w" using assms(2) by (metis Suc_eq_plus1 dividend_less_div_times less_mult_imp_div_less mult.commute mult_Suc_right add.commute)
  also have "\<dots> \<le> (w - 1) * w" using assms(1) by (intro mult_le_mono1) simp
  finally show ?thesis using assms(2) by (simp add: algebra_simps)
qed

lemma next_in_row:
  assumes "r mod w \<noteq> w - 1" "0 < (w :: nat)"
  shows "(r + 1) mod w \<noteq> 0" "(r + 1) div w = r div w"
proof -
  have *: "r mod w + 1 < w" using assms mod_less_divisor[of w r] by linarith
  have "r + 1 = r div w * w + (r mod w + 1)" by simp
  then show "(r + 1) mod w \<noteq> 0" "(r + 1) div w = r div w"
    using * by (metis add_is_0 mod_less mod_mult_self3 zero_neq_one, metis * add.right_neutral assms(2) div_less div_mult_self3 less_irrefl_nat)
qed

lemma mesh_link_law:
  assumes w: "2 \<le> w" "w = isqrt (w * w)" and r: "r < w * w" and l: "net_link MESH (w * w) r p = Some r'"
  shows "r' < w * w \<and> r' \<noteq> r \<and> p \<in> {LEFT, RIGHT, UP, DOWN} \<and> net_link MESH (w * w) r' (opposite_dir p) = Some r"
proof -
  have w0: "0 < w" using w(1) by simp
  have row: "r div w < w" using r by (simp add: div_less_iff_less_mult w0)
  consider (up) "p = UP" "r div w > 0" "r' = r - w" | (down) "p = DOWN" "r div w < w - 1" "r' = r + w"
    | (left) "p = LEFT" "r mod w \<noteq> 0" "r' = r - 1" | (right) "p = RIGHT" "r mod w \<noteq> w - 1" "r' = r + 1"
    using l by (auto simp add: net_link_def Let_def w(2)[symmetric] split: if_splits)
  then show ?thesis
  proof cases
    case up
    have le: "w \<le> r" using up(2) by (metis div_less leI less_irrefl_nat)
    then have "r' div w = r div w - 1" by (simp add: up(3) le_div_geq w0)
    then have "r' div w < w - 1" using row up(2) by linarith
    then show ?thesis using up le r w0 by (auto simp add: net_link_def Let_def w(2)[symmetric])
  next
    case down
    have "r' div w > 0" using down(3) w0 by (simp add: div_greater_zero_iff)
    then show ?thesis using down grid_below[OF down(2) w0] w0 by (simp add: net_link_def Let_def w(2)[symmetric])
  next
    case left
    obtain s where s: "r = Suc s" using left(2) by (cases r) simp_all
    have "s mod w \<noteq> w - 1"
    proof
      assume "s mod w = w - 1"
      then have "Suc s mod w = 0" using w0 by (simp add: mod_Suc)
      then show False using left(2) s by simp
    qed
    then show ?thesis using left s r by (simp add: net_link_def Let_def w(2)[symmetric])
  next
    case right
    have "(r + 1) div w < w" using next_in_row(2)[OF right(2) w0] row by simp
    then have "r + 1 < w * w" by (simp add: div_less_iff_less_mult w0)
    then show ?thesis using right next_in_row(1)[OF right(2) w0] by (simp add: net_link_def Let_def w(2)[symmetric])
  qed
qed

lemma mesh_legal_link:
  assumes w: "2 \<le> w" "w = isqrt (w * w)" and r: "r < w * w" and d: "0 \<le> d" "d < int (w * w)"
    and l: "mesh_dirs (int w) (int r) d 0 p" "p \<noteq> LOCAL"
  shows "net_link MESH (w * w) r p \<noteq> None"
proof -
  obtain e where e: "d = int e" "e < w * w" using d by (metis nonneg_int_cases of_nat_less_iff)
  have w0: "0 < w" using w(1) by simp
  have m: "int x mod int w = int (x mod w)" "int x div int w = int (x div w)" for x by (simp_all add: zmod_int zdiv_int)
  have "e div w < w" using e(2) by (simp add: div_less_iff_less_mult w0)
  moreover have "e mod w \<le> w - 1" using w0 mod_less_divisor[of w e] by linarith
  ultimately show ?thesis using l
    by (auto simp add: mesh_dirs_def Let_def e(1) m net_link_def w(2)[symmetric] split: if_splits)
qed

lemma mesh_rows:
  "mesh_dirs w h d k p \<Longrightarrow> mesh_dirs w h d 0 p"
  by (auto simp add: mesh_dirs_def Let_def split: if_splits)

interpretation mesh: noc_topology MESH
proof
  fix rt :: router and q v
  assume "rt_input rt q v = []"
  then show "rc_vc MESH (q, v) rt = Inr rt" by (simp add: rc_vc_def mesh_rc_vc_def)
next
  fix N r q v f fs and rt :: router and reqs :: "addr \<Rightarrow> mem_req"
  assume cfg: "cfg_ok MESH N r rt" and size: "good_size MESH N" and inp: "rt_input rt q v = f # fs" and fok: "flit_ok N reqs f"
  let ?D = "mesh_dirs (int (isqrt N)) (int r) (fl_dst f)"
  let ?R = "(rt_route rt q v)(0 := ?D 0, 1 := ?D 1)"
  show "rc_vc MESH (q, v) rt = Inr rt \<or> rc_ready rt f \<and> (\<exists>R d. rc_vc MESH (q, v) rt = Inr (rt\<lparr>rt_route := upd2 q v R (rt_route rt),
          rt_input := upd2 q v (f\<lparr>fl_state := RC, fl_dir := d\<rparr> # fs) (rt_input rt)\<rparr>) \<and> d \<in> {None, Some LEFT, Some RIGHT} \<and>
        (\<forall>k<rows MESH. \<forall>p. R k p \<longrightarrow> legal MESH N r (fl_dst f) p))"
  proof (cases "rc_ready rt f")
    case False
    then show ?thesis by (simp add: rc_vc_def mesh_rc_vc_def inp)
  next
    case True
    have "rc_vc MESH (q, v) rt = Inr (rt\<lparr>rt_route := upd2 q v ?R (rt_route rt), rt_input := upd2 q v (f\<lparr>fl_state := RC, fl_dir := fl_dir f\<rparr> # fs) (rt_input rt)\<rparr>)"
      using True size cfg by (simp add: rc_vc_def mesh_rc_vc_def inp Let_def cfg_ok_def good_size_def)
    moreover have "\<forall>k<rows MESH. \<forall>p. ?R k p \<longrightarrow> legal MESH N r (fl_dst f) p"
      using mesh_rows by (auto simp add: rows_def legal_def less_2_cases_iff)
    ultimately show ?thesis using True fok unfolding flit_ok_def by blast
  qed
next
  fix N r u p and rt :: router
  assume cfg: "cfg_ok MESH N r rt" and u: "u < rt_num_vc rt"
  have "2 \<le> rt_num_vc rt" using cfg by (simp add: cfg_ok_def)
  then have "u < 2 * (rt_num_vc rt - 1)" using u by linarith
  then have k: "u div (rt_num_vc rt - 1) < rows MESH" by (simp add: rows_def less_mult_imp_div_less)
  then show "\<exists>w. stage_vca_pick_winner MESH rt p u = Inr w \<and>
      (\<forall>q v. w = Some (q, v) \<longrightarrow> q < rt_num_port rt \<and> v < rt_num_vc rt \<and> q \<noteq> p \<and> rt_input rt q v \<noteq> [] \<and>
        fl_head (hd (rt_input rt q v)) \<and> fl_state (hd (rt_input rt q v)) = RC \<and> (\<exists>k<rows MESH. rt_route rt q v k p))"
    using pick_vc[of rt "u div (rt_num_vc rt - 1)" "\<lambda>_. True" p] cfg
    by (intro exI[of _ "pick_oldest (vca_candidate rt (u div (rt_num_vc rt - 1)) (\<lambda>_. True) p) (all_vcs rt) ULLONG_MAX None"])
      (auto simp add: stage_vca_pick_winner_def cfg_ok_def)
next
  fix N r p r'
  assume "good_size MESH N" and r: "r < N" and l: "net_link MESH N r p = Some r'"
  then obtain w where w: "2 \<le> w" "w = isqrt (w * w)" "N = w * w" by (auto simp add: good_size_def)
  from mesh_link_law[OF w(1,2), of r p r'] r l
  show "r' < N \<and> r' \<noteq> r \<and> p \<noteq> LOCAL \<and> opposite_dir p \<noteq> LOCAL \<and> p < ports MESH \<and> opposite_dir p < ports MESH \<and>
      net_link MESH N r' (opposite_dir p) = Some r \<and> opposite_dir (opposite_dir p) = p"
    by (auto simp add: w(3) ports_def)
next
  fix N r d
  assume "legal MESH N r d LOCAL"
  then show "d = int r" by (simp add: legal_def mesh_dirs_def Let_def split: if_splits)
next
  fix N r d p
  assume "good_size MESH N" and r: "r < N" and d: "0 \<le> d" "d < int N" and l: "legal MESH N r d p" "p \<noteq> LOCAL"
  then obtain w where w: "2 \<le> w" "w = isqrt (w * w)" "N = w * w" by (auto simp add: good_size_def)
  from mesh_legal_link[OF w(1,2), of r d p] r d l w show "net_link MESH N r p \<noteq> None" by (simp add: legal_def)
qed

section \<open>Route calculation and channel allocation in a router\<close>

context noc_topology
begin

lemma rc_vc_spec:
  assumes ok: "rt_ok t N reqs r F E rt" and size: "good_size t N" "r < N" and q: "q < rt_num_port rt" "v < rt_num_vc rt"
  shows "\<exists>rt'. rc_vc t (q, v) rt = Inr rt' \<and> rt_ok t N reqs r F E rt' \<and> rt_keeps rt rt'"
proof (cases "rt_input rt q v")
  case Nil
  then show ?thesis using ok by (simp add: rc_empty)
next
  case (Cons f fs)
  have fok: "flit_ok N reqs f" using reqs_okD(1)[OF rt_okD(6)[OF ok], of f q v] Cons by simp
  from rc_law[OF rt_okD(1)[OF ok] size Cons fok] consider "rc_vc t (q, v) rt = Inr rt"
    | R d where "rc_ready rt f" "rc_vc t (q, v) rt = Inr (rt\<lparr>rt_route := upd2 q v R (rt_route rt),
          rt_input := upd2 q v (f\<lparr>fl_state := RC, fl_dir := d\<rparr> # fs) (rt_input rt)\<rparr>)" "d \<in> {None, Some LEFT, Some RIGHT}"
        "\<forall>k<rows t. \<forall>p. R k p \<longrightarrow> legal t N r (fl_dst f) p" by blast
  then show ?thesis
  proof cases
    case 1
    then show ?thesis using ok by simp
  next
    case 2
    have "flit_ok N reqs (f\<lparr>fl_state := RC, fl_dir := d\<rparr>)" using fok 2(3) by (simp add: flit_ok_def)
    from front_step[OF ok q Cons _ this _ _ refl, of R] 2 show ?thesis by (simp add: same_flit_def rc_ready_def)
  qed
qed

lemma vca_vc_spec:
  assumes ok: "rt_ok t N reqs r F E rt" and p: "p < rt_num_port rt" "u < rt_num_vc rt"
  shows "\<exists>rt'. vca_vc t (p, u) rt = Inr rt' \<and> rt_ok t N reqs r F E rt' \<and> rt_keeps rt rt'"
proof (cases "rt_output_vc_avail rt p u")
  case False
  then show ?thesis using ok by (simp add: vca_vc_def)
next
  case True
  from vca_law[OF rt_okD(1)[OF ok] p(2), of p] obtain w where w: "stage_vca_pick_winner t rt p u = Inr w"
    "\<forall>q v. w = Some (q, v) \<longrightarrow> q < rt_num_port rt \<and> v < rt_num_vc rt \<and> q \<noteq> p \<and> rt_input rt q v \<noteq> [] \<and>
        fl_head (hd (rt_input rt q v)) \<and> fl_state (hd (rt_input rt q v)) = RC \<and> (\<exists>k<rows t. rt_route rt q v k p)" by blast
  show ?thesis
  proof (cases w)
    case None
    then show ?thesis using ok True w(1) by (simp add: vca_vc_def)
  next
    case (Some x)
    obtain q v where x: "x = (q, v)" by (cases x)
    have c: "q < rt_num_port rt" "v < rt_num_vc rt" "q \<noteq> p" using w(2) Some x by blast+
    obtain f fs where inp: "rt_input rt q v = f # fs" and f: "fl_head f" "fl_state f = RC" "\<exists>k<rows t. rt_route rt q v k p"
      using w(2) Some x by (cases "rt_input rt q v") auto
    have free: "rt_route_fixed rt q v = None" by (rule rc_unfixed[OF ok c(1,2) inp f(1,2)])
    have leg: "legal t N r (fl_dst f) p" using rt_okD(2)[OF ok c(1,2)] f(2,3) by (auto simp add: in_ok_def inp)
    let ?f = "f\<lparr>fl_state := VCA\<rparr>"
    define rt1 where "rt1 = set_front q v VCA rt"
    have rt1: "rt1 = rt\<lparr>rt_route := upd2 q v (rt_route rt q v) (rt_route rt), rt_input := upd2 q v (?f # fs) (rt_input rt)\<rparr>"
      by (simp add: rt1_def set_front_def inp)
    have "flit_ok N reqs ?f" using reqs_okD(1)[OF rt_okD(6)[OF ok], of f q v] inp by (simp add: flit_ok_def)
    from front_step[OF ok c(1,2) inp _ this _ _ rt1] have 1: "rt_ok t N reqs r F E rt1" "rt_keeps rt rt1" by (simp_all add: same_flit_def)
    have eq: "allocate_vc p u q v rt = rt1\<lparr>rt_output_port_id := upd2 q v (Some p) (rt_output_port_id rt1), rt_output_vc_id := upd2 q v (Some u) (rt_output_vc_id rt1),
        rt_output_vc_avail := upd2 p u False (rt_output_vc_avail rt1), rt_route_fixed := upd2 q v (Some p) (rt_route_fixed rt1)\<rparr>"
      by (simp add: allocate_vc_def rt1_def set_front_def)
    have "rt_ok t N reqs r F E (allocate_vc p u q v rt)" "rt_keeps rt1 (allocate_vc p u q v rt)"
      by (rule alloc_step[OF 1(1) _ _ _ _ _ _ _ _ _ _ eq, where f = ?f and fs = fs]; use c p True free leg in \<open>simp add: rt1\<close>)+
    then show ?thesis using True w(1) Some x rt_keeps_trans[OF 1(2)] by (simp add: vca_vc_def)
  qed
qed

end

section \<open>Switch traversal in a router\<close>

lemma st_find_spec:
  assumes "st_find rt op = Some (q, v)"
  shows "q < rt_num_port rt \<and> v < rt_num_vc rt \<and> q \<noteq> op \<and> st_candidate rt op q v"
proof -
  let ?f = "\<lambda>ii w. if ii = op then w else case find (st_candidate rt op ii) [0..<rt_num_vc rt] of None \<Rightarrow> w | Some jj \<Rightarrow> Some (ii, jj)"
  have "(case fold ?f xs w of None \<Rightarrow> True | Some (q, v) \<Rightarrow> q < n \<and> v < rt_num_vc rt \<and> q \<noteq> op \<and> st_candidate rt op q v)"
    if "\<forall>x\<in>set xs. x < n" "case w of None \<Rightarrow> True | Some (q, v) \<Rightarrow> q < n \<and> v < rt_num_vc rt \<and> q \<noteq> op \<and> st_candidate rt op q v" for xs w n
    using that
  proof (induction xs arbitrary: w)
    case (Cons x xs)
    show ?case
    proof (cases "find (st_candidate rt op x) [0..<rt_num_vc rt]")
      case None
      then show ?thesis using Cons.IH[of w] Cons.prems by simp
    next
      case (Some j)
      then have "j < rt_num_vc rt" "st_candidate rt op x j" by (auto simp add: find_Some_iff)
      then show ?thesis using Cons.IH[of w] Cons.IH[of "Some (x, j)"] Cons.prems Some by (cases "x = op") simp_all
    qed
  qed simp
  from this[of "[0..<rt_num_port rt]" "rt_num_port rt" None] assms show ?thesis by (simp add: st_find_def)
qed

lemma in_ok_cong:
  assumes "fixed_ok rt' a b = fixed_ok rt a b" "in_start F' rt' a b = in_start F rt a b" "rt_input rt' a b = rt_input rt a b"
    "rt_route rt' a b = rt_route rt a b" "rt_route_fixed rt' a b = rt_route_fixed rt a b" "E' a b = E a b"
  shows "in_ok R L F' E' rt' a b = in_ok R L F E rt a b"
  unfolding in_ok_def assms ..

lemma fixed_ok_cong:
  assumes "rt_route_fixed rt' a b = rt_route_fixed rt a b" "rt_output_vc_id rt' a b = rt_output_vc_id rt a b"
    "rt_output_port_id rt' a b = rt_output_port_id rt a b" "rt_num_port rt' = rt_num_port rt" "rt_num_vc rt' = rt_num_vc rt"
  shows "fixed_ok rt' a b = fixed_ok rt a b"
  unfolding fixed_ok_def assms ..

lemma in_start_fixed: "rt_route_fixed rt q v = Some p \<Longrightarrow> rt_output_vc_id rt q v = Some u \<Longrightarrow> in_start F rt q v = out_end F rt p u"
  by (simp add: in_start_def)

lemma in_start_other:
  assumes ok: "rt_ok t N reqs r F E rt" and ab: "a < rt_num_port rt" "b < rt_num_vc rt"
    and fx: "rt_route_fixed rt' a b = rt_route_fixed rt a b" "rt_output_vc_id rt' a b = rt_output_vc_id rt a b"
    and no: "\<not> owns rt a b p u" and oe: "\<And>c d. \<not> (c = p \<and> d = u) \<Longrightarrow> out_end F' rt' c d = out_end F rt c d"
  shows "in_start F' rt' a b = in_start F rt a b"
proof (cases "rt_route_fixed rt a b")
  case None
  then show ?thesis by (simp add: in_start_def fx)
next
  case (Some c)
  have "fixed_ok rt a b" using rt_okD(2)[OF ok ab] by (simp add: in_ok_def)
  then obtain d where d: "rt_output_vc_id rt a b = Some d" using Some by (auto simp add: fixed_ok_def)
  then have "\<not> (c = p \<and> d = u)" using no Some ab by (auto simp add: owns_def)
  then show ?thesis using oe[of c d] by (simp add: in_start_def fx Some d)
qed

lemma traverse_step:
  assumes ok: "rt_ok t N reqs r F E rt" and q: "q < rt_num_port rt" "v < rt_num_vc rt" and inp: "rt_input rt q v = f # fs"
    and fx: "rt_route_fixed rt q v = Some p" "rt_output_vc_id rt q v = Some u" and rt': "rt' = traverse p q v u rt"
  shows "rt_ok t N reqs r F E rt'" "rt_packets rt' = rt_packets rt"
proof -
  let ?f = "f\<lparr>fl_state := ST\<rparr>" and ?L = "legal t N r"
  have inq: "in_ok (rows t) ?L F E rt q v" by (rule rt_okD(2)[OF ok q])
  then have pu: "p < rt_num_port rt" "u < rt_num_vc rt" "p \<noteq> q" and port: "rt_output_port_id rt q v = Some p"
    using fx by (auto simp add: in_ok_def fixed_ok_def)
  note Y = rt_okD(3)[OF ok pu(1,2)]
  have own: "owns rt q v p u" using q fx by (simp add: owns_def)
  from inq obtain s where s: "out_end F rt p u = Some s" "stream s (f # fs) = Some (E q v)" "routed_ok ?L s (f # fs) (Some p)"
    by (auto simp add: in_ok_def inp fx in_start_fixed simp del: stream.simps)
  then have fit: "fits s f" and rest: "stream (after f) fs = Some (E q v)" by (simp_all split: if_splits)
  have leg: "?L (fl_dst f) p" using s(3) fit by (simp add: routed_ok_def fits_def split: option.splits)
  have out: "rt_output rt' = upd2 p u (rt_output rt p u @ [?f]) (rt_output rt)" and inp': "rt_input rt' = upd2 q v fs (rt_input rt)"
    by (simp_all add: rt' traverse_def inp Let_def)
  have end_pu: "out_end F rt' p u = Some (after f)"
    using s(1) fit by (simp add: out_end_def out stream_append)
  have end_other: "out_end F rt' c d = out_end F rt c d" if "\<not> (c = p \<and> d = u)" for c d using that by (simp add: out_end_def out)
  have fixed': "rt_route_fixed rt' = (if fl_tail f then upd2 q v None (rt_route_fixed rt) else rt_route_fixed rt)"
    "rt_output_vc_id rt' = (if fl_tail f then upd2 q v None (rt_output_vc_id rt) else rt_output_vc_id rt)"
    "rt_output_port_id rt' = (if fl_tail f then upd2 q v None (rt_output_port_id rt) else rt_output_port_id rt)"
    "rt_num_port rt' = rt_num_port rt" "rt_num_vc rt' = rt_num_vc rt" "rt_route rt' = rt_route rt" "rt_output_vc_avail rt' = rt_output_vc_avail rt"
    by (simp_all add: rt' traverse_def inp Let_def)
  have only: "owns rt a b p u \<Longrightarrow> a = q \<and> b = v" for a b using Y own unfolding out_ok_def by blast
  have owns': "owns rt' a b c d \<longleftrightarrow> owns rt a b c d \<and> \<not> (fl_tail f \<and> a = q \<and> b = v)" for a b c d
    by (auto simp add: owns_def fixed' upd2_apply)
  have ins: "in_ok (rows t) ?L F E rt' a b" if ab: "a < rt_num_port rt" "b < rt_num_vc rt" for a b
  proof (cases "a = q \<and> b = v")
    case False
    then have f': "rt_route_fixed rt' a b = rt_route_fixed rt a b" "rt_output_vc_id rt' a b = rt_output_vc_id rt a b"
      "rt_output_port_id rt' a b = rt_output_port_id rt a b" by (simp_all add: fixed')
    have "in_start F rt' a b = in_start F rt a b"
      by (rule in_start_other[OF ok ab f'(1,2), of p u]) (use only False end_other in auto)
    then show ?thesis using rt_okD(2)[OF ok ab] in_ok_cong[OF fixed_ok_cong[OF f' fixed'(4,5)], of F F E E] f' False by (simp add: inp' fixed')
  next
    case True
    have st: "\<forall>g\<in>set fs. fl_state g = IB" and len: "length fs \<le> 10" using inq by (simp_all add: in_ok_def inp)
    have "fs \<noteq> [] \<Longrightarrow> fl_state (hd fs) \<noteq> RC" using st by (cases fs) simp_all
    moreover have "\<forall>g\<in>set (tl fs). fl_state g = IB" using st by (cases fs) simp_all
    moreover have "fixed_ok rt' q v" using inq by (simp add: in_ok_def fixed_ok_def fixed' fx)
    moreover have "in_start F rt' q v = Some (after f)" using end_pu fx by (simp add: in_start_def fixed' after_def)
    moreover have "routed_ok ?L (after f) fs (rt_route_fixed rt' q v)" using leg by (simp add: routed_ok_def fixed' fx after_def)
    ultimately show ?thesis using True rest len by (auto simp add: in_ok_def inp')
  qed
  have outs: "out_ok ?L F rt' a b" if ab: "a < rt_num_port rt" "b < rt_num_vc rt" for a b
  proof (cases "a = p \<and> b = u")
    case False
    have "\<not> owns rt q v a b" using False fx by (auto simp add: owns_def)
    then have "owns rt' c d a b = owns rt c d a b" for c d by (auto simp add: owns')
    then show ?thesis using rt_okD(3)[OF ok ab] out_ok_cong[of rt' a b rt F F ?L] end_other False by (simp add: out fixed')
  next
    case True
    have nt: "\<forall>g\<in>set (rt_output rt p u). \<not> fl_tail g" and na: "\<not> rt_output_vc_avail rt p u" using Y own unfolding out_ok_def by blast+
    have "out_ok ?L F rt' p u" unfolding out_ok_def
    proof (intro conjI)
      show "out_end F rt' p u \<noteq> None" using end_pu by simp
      show "(\<nexists>a b. owns rt' a b p u) \<longrightarrow> out_end F rt' p u = Some None" using end_pu own by (auto simp add: owns' after_def)
      show "\<forall>a b a' b'. owns rt' a b p u \<longrightarrow> owns rt' a' b' p u \<longrightarrow> a = a' \<and> b = b'" using only by (auto simp add: owns')
      show "\<forall>g\<in>set (rt_output rt' p u). fl_state g = ST \<and> ?L (fl_dst g) p" using Y leg by (auto simp add: out out_ok_def)
      show "\<forall>d. F p u = Some d \<longrightarrow> ?L d p" using Y by (simp add: out_ok_def)
      show "\<forall>g\<in>set (butlast (rt_output rt' p u)). \<not> fl_tail g" using nt by (simp add: out)
      show "\<forall>a b. owns rt' a b p u \<longrightarrow> (\<forall>g\<in>set (rt_output rt' p u). \<not> fl_tail g)" using nt only by (auto simp add: out owns')
      show "rt_output_vc_avail rt' p u \<longrightarrow> rt_output rt' p u = [] \<and> (\<nexists>a b. owns rt' a b p u) \<and> F p u = None" using na by (simp add: fixed')
    qed
    then show ?thesis using True by simp
  qed
  have fo: "flit_ok N reqs f" using reqs_okD(1)[OF rt_okD(6)[OF ok], of f q v] inp by simp
  have "reqs_ok N reqs r rt'"
  proof (rule reqs_okI)
    note Q = reqs_okD[OF rt_okD(6)[OF ok]]
    show "flit_ok N reqs g" if "g \<in> set (rt_input rt' a b)" for a b g
      using that Q(1)[of g q v] Q(1)[of g a b] inp by (auto simp add: inp' upd2_apply split: if_splits)
    show "flit_ok N reqs g" if "g \<in> set (rt_output rt' a b)" for a b g
      using that Q(2)[of g a b] fo by (auto simp add: out upd2_apply flit_ok_def split: if_splits)
  qed (use reqs_okD[OF rt_okD(6)[OF ok]] in \<open>simp_all add: rt' traverse_def Let_def\<close>)
  from ins outs this show "rt_ok t N reqs r F E rt'"
    by (rule rt_okI[OF ok, rotated -3]) (use rt_okD(4,5)[OF ok] in \<open>simp_all add: rt' traverse_def Let_def\<close>)
  have "in_tails rt' + tails (f # fs) = in_tails rt + tails fs" using in_tails_upd[OF q inp' fixed'(4,5)] inp by simp
  moreover have "out_tails rt' + tails (rt_output rt p u) = out_tails rt + tails (rt_output rt p u @ [?f])"
    by (rule out_tails_upd[OF pu(1,2) out fixed'(4,5)])
  moreover have "rt_injection_buffer rt' = rt_injection_buffer rt" "rt_req_buffer rt' = rt_req_buffer rt" by (simp_all add: rt' traverse_def Let_def)
  ultimately show "rt_packets rt' = rt_packets rt" by (simp add: rt_packets_split ac_simps split: if_splits)
qed

end
