(* ===== verification/NetStep.thy ===== *)
theory NetStep
  imports NetInv
begin

text \<open>
  The stages of a router inside the network: what a stage does to the neighbours of the router, and that one
  cycle of every router keeps the invariant and the account of packets.
\<close>

section \<open>Changes of the network\<close>

declare opposite_dir.simps [simp del]

lemma net_invD:
  assumes "net_inv_with t n F"
  shows "length (nt_routers n) = nt_num_router n" "nt_num_router n < 2 ^ 64" "good_size t (nt_num_router n)"
    "r < nt_num_router n \<Longrightarrow> rt_ok t (nt_num_router n) (nt_reqs n) r (F r) (arrive t (nt_num_router n) F r) (nt_routers n ! r)"
    "links_ok t (nt_num_router n) (\<lambda>r. nt_routers n ! r)"
  using assms by (simp_all add: net_inv_with_def Let_def)

lemma links_okD:
  assumes "links_ok t N X"
  shows "r < N \<Longrightarrow> net_link t N r p = Some r' \<Longrightarrow>
      rt_credit (X r) p u + int (length (rt_input (X r') (opposite_dir p) u)) + int (pending (X r) p u) = 10"
    "r < N \<Longrightarrow> q \<noteq> LOCAL \<Longrightarrow> net_link t N r q = None \<Longrightarrow> rt_input (X r) q u = []"
    "r < N \<Longrightarrow> r' < N \<Longrightarrow> rt_num_vc (X r) = rt_num_vc (X r')"
  using assms unfolding links_ok_def by blast+

lemma rt_ok_reqs:
  assumes "\<And>a. mr_msg_dst (reqs' a) = mr_msg_dst (reqs a)"
  shows "rt_ok t N reqs' r F E rt = rt_ok t N reqs r F E rt"
  by (simp add: rt_ok_def reqs_ok_def flit_ok_def assms)

lemma packets_upd:
  assumes "nt_routers n' = (nt_routers n)[r := rt']" "r < length (nt_routers n)"
  shows "packets n' + rt_packets (nt_routers n ! r) = packets n + rt_packets rt'"
  using sum_list_update_comm[of r "map rt_packets (nt_routers n)" "rt_packets rt'"] assms
  by (simp add: packets_def map_update)

text \<open>What every stage preserves of the network.\<close>

definition same_net :: "net \<Rightarrow> net \<Rightarrow> bool" where
  "same_net n n' \<longleftrightarrow> nt_num_router n' = nt_num_router n \<and> nt_router_map n' = nt_router_map n \<and>
     length (nt_routers n') = length (nt_routers n) \<and> (\<forall>a. mr_msg_dst (nt_reqs n' a) = mr_msg_dst (nt_reqs n a))"

definition net_keeps :: "topology \<Rightarrow> net \<Rightarrow> net \<Rightarrow> bool" where
  "net_keeps t n n' \<longleftrightarrow> net_inv t n' \<and> same_net n n' \<and> packets n' = packets n"

lemma net_keeps_trans: "net_keeps t a b \<Longrightarrow> net_keeps t b c \<Longrightarrow> net_keeps t a c"
  by (simp add: net_keeps_def same_net_def)

lemma net_keeps_refl: "net_inv t n \<Longrightarrow> net_keeps t n n"
  by (simp add: net_keeps_def same_net_def)

lemma fold_net:
  assumes "\<And>x s. x \<in> set xs \<Longrightarrow> net_keeps t n s \<Longrightarrow> \<exists>s'. f x s = Inr s' \<and> net_keeps t s s'" "net_inv t n"
  shows "\<exists>n'. fold_res f xs n = Inr n' \<and> net_keeps t n n'"
proof (rule fold_res_inv[where I = "net_keeps t n"])
  show "net_keeps t n n" using assms(2) by (rule net_keeps_refl)
qed (blast dest: assms(1) intro: net_keeps_trans)

context noc_topology
begin

text \<open>The account of credits of a link after \<open>d\<close> flits were moved over it (a credit is sent back for a
  negative number of flits).\<close>

lemma credits_move:
  assumes size: "good_size t N" and ok: "links_ok t N X" and r: "r < N" and l: "net_link t N r p = Some r'"
    and len: "\<And>a q v. a < N \<Longrightarrow> q \<noteq> LOCAL \<Longrightarrow>
      int (length (rt_input (Y a) q v)) = int (length (rt_input (X a) q v)) + (if a = r' \<and> q = opposite_dir p \<and> v = u then d else 0)"
    and cr: "\<And>a q v. a < N \<Longrightarrow> rt_credit (Y a) q v + int (pending (Y a) q v) =
      rt_credit (X a) q v + int (pending (X a) q v) - (if a = r \<and> q = p \<and> v = u then d else 0)"
    and vcs: "\<And>a. a < N \<Longrightarrow> rt_num_vc (Y a) = rt_num_vc (X a)"
  shows "links_ok t N Y"
  unfolding links_ok_def
proof (intro conjI allI impI)
  note L = link_law[OF size r l]
  fix a q b v
  assume a: "a < N" and ab: "net_link t N a q = Some b"
  note M = link_law[OF size a ab]
  have iff: "b = r' \<and> opposite_dir q = opposite_dir p \<and> v = u \<longleftrightarrow> a = r \<and> q = p \<and> v = u"
    using L M ab l by (metis option.inject)
  have "rt_credit (X a) q v + int (length (rt_input (X b) (opposite_dir q) v)) + int (pending (X a) q v) = 10"
    by (rule links_okD(1)[OF ok a ab])
  then show "rt_credit (Y a) q v + int (length (rt_input (Y b) (opposite_dir q) v)) + int (pending (Y a) q v) = 10"
    using len[of b "opposite_dir q" v] cr[OF a, of q v] iff M by simp
next
  fix a q v
  assume a: "a < N" and q: "q \<noteq> LOCAL" "net_link t N a q = None"
  have "\<not> (a = r' \<and> q = opposite_dir p)" using link_law[OF size r l] q(2) by auto
  moreover have "rt_input (X a) q v = []" by (rule links_okD(2)[OF ok a q])
  ultimately show "rt_input (Y a) q v = []" using len[OF a q(1), of v] by (auto split: if_splits)
next
  fix a b
  assume "a < N" "b < N"
  then show "rt_num_vc (Y a) = rt_num_vc (Y b)" using vcs[of a] vcs[of b] links_okD(3)[OF ok] by metis
qed

lemma credits_stay:
  assumes size: "good_size t N" and ok: "links_ok t N X"
    and len: "\<And>a q v. a < N \<Longrightarrow> q \<noteq> LOCAL \<Longrightarrow> length (rt_input (Y a) q v) = length (rt_input (X a) q v)"
    and cr: "\<And>a q v. a < N \<Longrightarrow> rt_credit (Y a) q v + int (pending (Y a) q v) = rt_credit (X a) q v + int (pending (X a) q v)"
    and vcs: "\<And>a. a < N \<Longrightarrow> rt_num_vc (Y a) = rt_num_vc (X a)"
  shows "links_ok t N Y"
proof (cases "\<exists>r p r'. r < N \<and> net_link t N r p = Some r'")
  case True
  then show ?thesis using credits_move[OF size ok, where Y = Y and d = 0] len cr vcs by fastforce
next
  case False
  then show ?thesis using ok len vcs unfolding links_ok_def by (metis length_0_conv)
qed

lemma local_net:
  assumes inv: "net_inv_with t n F" and r: "r < nt_num_router n"
    and upd: "nt_routers n' = (nt_routers n)[r := rt']" and same: "same_net n n'"
    and ok: "rt_ok t (nt_num_router n) (nt_reqs n) r (F r) (arrive t (nt_num_router n) F r) rt'"
    and keeps: "rt_keeps (nt_routers n ! r) rt'"
  shows "net_keeps t n n'"
proof -
  let ?N = "nt_num_router n"
  note I = net_invD[OF inv]
  have reqs: "rt_ok t ?N (nt_reqs n') a G E rt = rt_ok t ?N (nt_reqs n) a G E rt" for a G E rt
    using same by (intro rt_ok_reqs) (simp add: same_net_def)
  have nth: "nt_routers n' ! a = (if a = r then rt' else nt_routers n ! a)" if "a < ?N" for a
    using that r I(1) by (simp add: upd)
  have "rt_ok t ?N (nt_reqs n') a (F a) (arrive t ?N F a) (nt_routers n' ! a)" if "a < ?N" for a
    using that ok I(4)[OF that] by (simp add: nth reqs)
  moreover have "links_ok t ?N (\<lambda>a. nt_routers n' ! a)"
    by (rule credits_stay[OF I(3,5)]) (use keeps in \<open>simp_all add: nth rt_keeps_def\<close>)
  ultimately have "net_inv_with t n' F" using I same by (simp add: net_inv_with_def Let_def same_net_def)
  moreover have "packets n' = packets n" using packets_upd[OF upd] keeps r I(1) by (simp add: rt_keeps_def)
  ultimately show ?thesis using same by (auto simp add: net_keeps_def net_inv_def)
qed

lemma at_router_spec:
  assumes inv: "net_inv t n" and r: "r < nt_num_router n"
    and f: "\<And>N reqs F E rt. rt_ok t N reqs r F E rt \<Longrightarrow> good_size t N \<Longrightarrow> r < N \<Longrightarrow>
      \<exists>rt'. f rt = Inr rt' \<and> rt_ok t N reqs r F E rt' \<and> rt_keeps rt rt'"
  shows "\<exists>n'. at_router r f n = Inr n' \<and> net_keeps t n n'"
proof -
  from inv obtain F where F: "net_inv_with t n F" by (auto simp add: net_inv_def)
  note I = net_invD[OF F]
  from f[OF I(4)[OF r] I(3) r] obtain rt' where rt': "f (nt_routers n ! r) = Inr rt'"
    "rt_ok t (nt_num_router n) (nt_reqs n) r (F r) (arrive t (nt_num_router n) F r) rt'" "rt_keeps (nt_routers n ! r) rt'" by blast
  have "net_keeps t n (upd_rt r (\<lambda>_. rt') n)"
    by (rule local_net[OF F r _ _ rt'(2,3)]) (simp_all add: upd_rt_def same_net_def)
  then show ?thesis using rt'(1) by (simp add: at_router_def)
qed

lemma stage_sa_spec:
  assumes "net_inv t n" "r < nt_num_router n"
  shows "\<exists>n'. stage_sa r n = Inr n' \<and> net_keeps t n n'"
  unfolding stage_sa_def
proof (rule at_router_spec[OF assms])
  fix N reqs F E and rt :: router
  assume "rt_ok t N reqs r F E rt"
  then show "\<exists>rt'. fold_res sa_port [0..<rt_num_port rt] rt = Inr rt' \<and> rt_ok t N reqs r F E rt' \<and> rt_keeps rt rt'"
    by (intro fold_rt[OF sa_port_spec]) simp_all
qed

lemma stage_rc_spec:
  assumes "net_inv t n" "r < nt_num_router n"
  shows "\<exists>n'. stage_rc t r n = Inr n' \<and> net_keeps t n n'"
  unfolding stage_rc_def
proof (rule at_router_spec[OF assms])
  fix N reqs F E and rt :: router
  assume ok: "rt_ok t N reqs r F E rt" "good_size t N" "r < N"
  show "\<exists>rt'. fold_res (rc_vc t) (all_vcs rt) rt = Inr rt' \<and> rt_ok t N reqs r F E rt' \<and> rt_keeps rt rt'"
  proof (rule fold_rt[OF _ ok(1) refl refl])
    fix x and s :: router
    assume "x \<in> set (all_vcs rt)" "rt_ok t N reqs r F E s" "rt_num_port s = rt_num_port rt" "rt_num_vc s = rt_num_vc rt"
    then show "\<exists>rt'. rc_vc t x s = Inr rt' \<and> rt_ok t N reqs r F E rt' \<and> rt_keeps s rt'"
      using rc_vc_spec[of N reqs r F E s "fst x" "snd x"] ok by (simp add: all_vcs_in)
  qed
qed

lemma stage_vca_spec:
  assumes "net_inv t n" "r < nt_num_router n" "\<not> KNOB_IDEAL_NOC k"
  shows "\<exists>n'. stage_vca t k r n = Inr n' \<and> net_keeps t n n'"
proof -
  from assms(1) obtain G where G: "net_inv_with t n G" by (auto simp add: net_inv_def)
  let ?rt = "nt_routers n ! r"
  have "\<exists>n'. at_router r (fold_res (vca_vc t) (all_vcs ?rt)) n = Inr n' \<and> net_keeps t n n'"
  proof -
    note I = net_invD[OF G]
    have "\<exists>rt'. fold_res (vca_vc t) (all_vcs ?rt) ?rt = Inr rt' \<and>
        rt_ok t (nt_num_router n) (nt_reqs n) r (G r) (arrive t (nt_num_router n) G r) rt' \<and> rt_keeps ?rt rt'"
    proof (rule fold_rt[OF _ I(4)[OF assms(2)] refl refl])
      fix x and s :: router
      assume "x \<in> set (all_vcs ?rt)" "rt_ok t (nt_num_router n) (nt_reqs n) r (G r) (arrive t (nt_num_router n) G r) s"
        "rt_num_port s = rt_num_port ?rt" "rt_num_vc s = rt_num_vc ?rt"
      then show "\<exists>rt'. vca_vc t x s = Inr rt' \<and> rt_ok t (nt_num_router n) (nt_reqs n) r (G r) (arrive t (nt_num_router n) G r) rt' \<and> rt_keeps s rt'"
        using vca_vc_spec[of "nt_num_router n" "nt_reqs n" r "G r" "arrive t (nt_num_router n) G r" s "fst x" "snd x"] by (simp add: all_vcs_in)
    qed
    then obtain rt' where rt': "fold_res (vca_vc t) (all_vcs ?rt) ?rt = Inr rt'"
      "rt_ok t (nt_num_router n) (nt_reqs n) r (G r) (arrive t (nt_num_router n) G r) rt'" "rt_keeps ?rt rt'" by blast
    have "net_keeps t n (upd_rt r (\<lambda>_. rt') n)"
      by (rule local_net[OF G assms(2) _ _ rt'(2,3)]) (simp_all add: upd_rt_def same_net_def)
    then show ?thesis using rt'(1) by (simp add: at_router_def)
  qed
  then show ?thesis using assms(3) by (simp add: stage_vca_def)
qed

lemma tick_spec:
  assumes "net_inv t n" "r < nt_num_router n"
  shows "net_keeps t n (tick r n)"
proof -
  from assms(1) obtain F where F: "net_inv_with t n F" by (auto simp add: net_inv_def)
  show ?thesis
    by (rule local_net[OF F assms(2), where rt' = "(nt_routers n ! r)\<lparr>rt_cycle := rt_cycle (nt_routers n ! r) + 1\<rparr>"])
      (use net_invD(4)[OF F assms(2)] in \<open>simp_all add: tick_def upd_rt_def same_net_def\<close>)
qed

end

section \<open>Pending credits\<close>

lemma credit_fold:
  assumes "\<forall>c\<in>set cs. cr_port c < rt_num_port rt \<and> cr_vc c < rt_num_vc rt"
  shows "\<exists>cr pc. fold_res (credit_one cycle) cs rt = Inr (rt\<lparr>rt_credit := cr, rt_pending_credit := rt_pending_credit rt @ pc\<rparr>) \<and> set pc \<subseteq> set cs \<and>
    (\<forall>p u. rt_credit rt p u \<le> cr p u \<and>
       cr p u + int (length (filter (\<lambda>c. cr_port c = p \<and> cr_vc c = u) pc)) = rt_credit rt p u + int (length (filter (\<lambda>c. cr_port c = p \<and> cr_vc c = u) cs)))"
  using assms
proof (induction cs arbitrary: rt)
  case Nil
  show ?case by (rule exI[of _ "rt_credit rt"], rule exI[of _ "[]"]) simp
next
  case (Cons c cs)
  show ?case
  proof (cases "cr_rdy_cycle c \<le> cycle")
    case True
    let ?rt = "rt\<lparr>rt_credit := upd2 (cr_port c) (cr_vc c) (rt_credit rt (cr_port c) (cr_vc c) + 1) (rt_credit rt)\<rparr>"
    have one: "credit_one cycle c rt = Inr ?rt" using True Cons.prems by (simp add: credit_one_def)
    from Cons.IH[of ?rt] Cons.prems obtain cr pc where
      h: "fold_res (credit_one cycle) cs ?rt = Inr (?rt\<lparr>rt_credit := cr, rt_pending_credit := rt_pending_credit ?rt @ pc\<rparr>)" "set pc \<subseteq> set cs"
      "\<forall>p u. rt_credit ?rt p u \<le> cr p u \<and>
       cr p u + int (length (filter (\<lambda>c. cr_port c = p \<and> cr_vc c = u) pc)) = rt_credit ?rt p u + int (length (filter (\<lambda>c. cr_port c = p \<and> cr_vc c = u) cs))"
      by auto
    show ?thesis
    proof (intro exI conjI allI)
      show "fold_res (credit_one cycle) (c # cs) rt = Inr (rt\<lparr>rt_credit := cr, rt_pending_credit := rt_pending_credit rt @ pc\<rparr>)" using one h(1) by simp
      show "set pc \<subseteq> set (c # cs)" using h(2) by auto
      fix p u
      show "rt_credit rt p u \<le> cr p u" using h(3)[rule_format, of p u] by (simp add: upd2_apply split: if_splits)
      show "cr p u + int (length (filter (\<lambda>c. cr_port c = p \<and> cr_vc c = u) pc)) =
          rt_credit rt p u + int (length (filter (\<lambda>c. cr_port c = p \<and> cr_vc c = u) (c # cs)))"
        using h(3)[rule_format, of p u] by (auto simp add: upd2_apply split: if_splits)
    qed
  next
    case False
    let ?rt = "rt\<lparr>rt_pending_credit := rt_pending_credit rt @ [c]\<rparr>"
    have one: "credit_one cycle c rt = Inr ?rt" using False by (simp add: credit_one_def)
    from Cons.IH[of ?rt] Cons.prems obtain cr pc where
      h: "fold_res (credit_one cycle) cs ?rt = Inr (?rt\<lparr>rt_credit := cr, rt_pending_credit := rt_pending_credit ?rt @ pc\<rparr>)" "set pc \<subseteq> set cs"
      "\<forall>p u. rt_credit ?rt p u \<le> cr p u \<and>
       cr p u + int (length (filter (\<lambda>c. cr_port c = p \<and> cr_vc c = u) pc)) = rt_credit ?rt p u + int (length (filter (\<lambda>c. cr_port c = p \<and> cr_vc c = u) cs))"
      by auto
    show ?thesis
      by (rule exI[of _ cr], rule exI[of _ "c # pc"]) (use one h in auto)
  qed
qed

context noc_topology
begin

lemma process_pending_credit_spec:
  assumes inv: "net_inv t n" and r: "r < nt_num_router n"
  shows "\<exists>n'. process_pending_credit cycle r n = Inr n' \<and> net_keeps t n n'"
proof -
  from inv obtain F where F: "net_inv_with t n F" by (auto simp add: net_inv_def)
  let ?rt = "nt_routers n ! r" and ?N = "nt_num_router n"
  note ok = net_invD(4)[OF F r]
  have "\<forall>c\<in>set (rt_pending_credit ?rt). cr_port c < rt_num_port (?rt\<lparr>rt_pending_credit := []\<rparr>) \<and> cr_vc c < rt_num_vc (?rt\<lparr>rt_pending_credit := []\<rparr>)"
    using rt_okD(4)[OF ok] by (simp add: credit_ok_def)
  from credit_fold[OF this, of cycle] obtain cr pc where h:
    "fold_res (credit_one cycle) (rt_pending_credit ?rt) (?rt\<lparr>rt_pending_credit := []\<rparr>) = Inr (?rt\<lparr>rt_credit := cr, rt_pending_credit := pc\<rparr>)"
    "set pc \<subseteq> set (rt_pending_credit ?rt)"
    "\<And>p u. rt_credit ?rt p u \<le> cr p u" "\<And>p u. cr p u + int (length (filter (\<lambda>c. cr_port c = p \<and> cr_vc c = u) pc)) = rt_credit ?rt p u + int (pending ?rt p u)"
    by (auto simp add: pending_def)
  let ?rt' = "?rt\<lparr>rt_credit := cr, rt_pending_credit := pc\<rparr>"
  have "rt_ok t ?N (nt_reqs n) r (F r) (arrive t ?N F r) ?rt'"
  proof (rule rt_okI[OF ok])
    fix a b
    assume ab: "a < rt_num_port ?rt" "b < rt_num_vc ?rt"
    have "in_start (F r) ?rt' a b = in_start (F r) ?rt a b" "owns ?rt' c d a b = owns ?rt c d a b" for c d
      by (simp_all add: in_start_def out_end_def owns_def cong: option.case_cong)
    then show "in_ok (rows t) (legal t ?N r) (F r) (arrive t ?N F r) ?rt' a b" "out_ok (legal t ?N r) (F r) ?rt' a b"
      using rt_okD(2,3)[OF ok ab] by (simp_all add: in_ok_def out_ok_def fixed_ok_def out_end_def cong: option.case_cong)
  next
    show "0 \<le> rt_credit ?rt' p u" for p u using rt_okD(5)[OF ok, of p u] h(3)[of p u] by simp
    show "reqs_ok ?N (nt_reqs n) r ?rt'" using rt_okD(6)[OF ok] by (simp add: reqs_ok_def)
  qed (use rt_okD(4)[OF ok] h(2) in auto)
  moreover have "rt_keeps ?rt ?rt'" using h(4) by (simp add: rt_keeps_def pending_def rt_packets_def)
  ultimately have "net_keeps t n (upd_rt r (\<lambda>_. ?rt') n)"
    by (intro local_net[OF F r]) (simp_all add: upd_rt_def same_net_def)
  then show ?thesis using h(1) by (simp add: process_pending_credit_def)
qed

end

section \<open>Flits that enter an input channel\<close>

text \<open>A change of a router outside of its channels.\<close>

lemma rt_ok_outside:
  assumes ok: "rt_ok t N reqs r F E rt"
    and rt': "rt' = rt\<lparr>rt_injection_buffer := a, rt_req_buffer := b, rt_pending_credit := c\<rparr>"
    and "\<And>c'. c' \<in> set c \<Longrightarrow> credit_ok (net_link t N r) rt c'" and reqs: "reqs_ok N reqs r rt'"
  shows "rt_ok t N reqs r F E rt'"
proof (rule rt_okI[OF ok])
  have eq: "in_start F rt' = in_start F rt" "fixed_ok rt' = fixed_ok rt" "out_end F rt' = out_end F rt" "owns rt' = owns rt"
    by (simp_all add: rt' fun_eq_iff in_start_def fixed_ok_def out_end_def owns_def cong: option.case_cong)
  fix x y
  assume xy: "x < rt_num_port rt" "y < rt_num_vc rt"
  show "in_ok (rows t) (legal t N r) F E rt' x y"
    using rt_okD(2)[OF ok xy] in_ok_cong[of rt' x y rt F F E E] eq by (simp add: rt')
  show "out_ok (legal t N r) F rt' x y"
    using rt_okD(3)[OF ok xy] out_ok_cong[of rt' x y rt F F] eq by (simp add: rt')
qed (use assms rt_okD(5)[OF ok] in simp_all)

lemma append_step:
  assumes ok: "rt_ok t N reqs r F E rt" and q: "q < rt_num_port rt" "v < rt_num_vc rt" and room: "length (rt_input rt q v) + length new \<le> 10"
    and new: "\<forall>f\<in>set new. fl_state f = IB \<and> flit_ok N reqs f" and st: "stream (E q v) new = Some e"
    and rt': "rt' = rt\<lparr>rt_input := upd2 q v (rt_input rt q v @ new) (rt_input rt)\<rparr>"
  shows "rt_ok t N reqs r F (upd2 q v e E) rt'" "rt_packets rt' = rt_packets rt + tails new"
proof -
  have ist: "in_start F rt' = in_start F rt" "fixed_ok rt' = fixed_ok rt" "out_end F rt' = out_end F rt" "owns rt' = owns rt"
    by (simp_all add: rt' fun_eq_iff in_start_def fixed_ok_def out_end_def owns_def cong: option.case_cong)
  have "in_ok (rows t) (legal t N r) F (upd2 q v e E) rt' a b" if ab: "a < rt_num_port rt" "b < rt_num_vc rt" for a b
  proof (cases "a = q \<and> b = v")
    case False
    then show ?thesis using rt_okD(2)[OF ok ab] in_ok_cong[of rt' a b rt F F "upd2 q v e E" E] ist by (simp add: rt')
  next
    case True
    note X = rt_okD(2)[OF ok q]
    let ?old = "rt_input rt q v" and ?new = "rt_input rt q v @ new"
    from X obtain s where s: "in_start F rt q v = Some s" "stream s ?old = Some (E q v)" "routed_ok (legal t N r) s ?old (rt_route_fixed rt q v)"
      by (auto simp add: in_ok_def)
    have inp: "rt_input rt' q v = ?new" "rt_route rt' = rt_route rt" "rt_route_fixed rt' = rt_route_fixed rt" by (simp_all add: rt')
    have "in_ok (rows t) (legal t N r) F (upd2 q v e E) rt' q v"
      unfolding in_ok_def inp ist upd2_same
    proof (intro conjI)
      have "stream s ?new = Some e" using s(2) st by (simp add: stream_append)
      moreover have "routed_ok (legal t N r) s ?new (rt_route_fixed rt q v)"
        using s(3) by (auto simp add: routed_ok_def split: option.splits)
      ultimately show "\<exists>s. in_start F rt q v = Some s \<and> stream s ?new = Some e \<and> routed_ok (legal t N r) s ?new (rt_route_fixed rt q v)"
        using s(1) by blast
      show "\<forall>f\<in>set (tl ?new). fl_state f = IB"
      proof (cases ?old)
        case Nil
        then show ?thesis using new by (metis append_Nil list.sel(2) list.set_sel(2))
      next
        case (Cons g gs)
        then show ?thesis using X new unfolding in_ok_def by auto
      qed
      have "fl_state (hd ?new) \<noteq> RC" if "?old = []" "?new \<noteq> []"
        using that new by (cases new) auto
      then show "?new \<noteq> [] \<and> fl_state (hd ?new) = RC \<longrightarrow> (\<forall>k<rows t. \<forall>p. rt_route rt q v k p \<longrightarrow> legal t N r (fl_dst (hd ?new)) p)"
        using X by (cases "?old = []") (blast, simp add: in_ok_def)
    qed (use X room in \<open>simp_all add: in_ok_def\<close>)
    then show ?thesis using True by simp
  qed
  moreover have "out_ok (legal t N r) F rt' a b" if ab: "a < rt_num_port rt" "b < rt_num_vc rt" for a b
    using rt_okD(3)[OF ok ab] out_ok_cong[of rt' a b rt F F] ist by (simp add: rt')
  moreover have "reqs_ok N reqs r rt'"
  proof (rule reqs_okI)
    show "flit_ok N reqs f" if "f \<in> set (rt_input rt' a b)" for a b f
      using that new reqs_okD(1)[OF rt_okD(6)[OF ok], of f a b] by (auto simp add: rt' upd2_apply split: if_splits)
  qed (use reqs_okD[OF rt_okD(6)[OF ok]] in \<open>simp_all add: rt'\<close>)
  ultimately show "rt_ok t N reqs r F (upd2 q v e E) rt'"
    by (rule rt_okI[OF ok, rotated -3]) (use rt_okD(4,5)[OF ok] in \<open>simp_all add: rt'\<close>)
  have "in_tails rt' + tails (rt_input rt q v) = in_tails rt + tails (rt_input rt q v @ new)"
    by (rule in_tails_upd[OF q]) (simp_all add: rt')
  then have "in_tails rt' = in_tails rt + tails new" by simp
  moreover have "out_tails rt' = out_tails rt" by (simp add: out_tails_def rt')
  ultimately show "rt_packets rt' = rt_packets rt + tails new" by (simp add: rt_packets_split) (simp add: rt')
qed

section \<open>Local injection\<close>

lemma new_flit_stream [simp]:
  "fits None (new_flit c req q m i) \<longleftrightarrow> i = 0" "fits (Some (mr_msg_dst q)) (new_flit c req q m i) \<longleftrightarrow> 0 < i"
  "after (new_flit c req q m i) = (if i = m - 1 then None else Some (mr_msg_dst q))"
  by (simp_all add: fits_def after_def new_flit_def)

lemma packet_body:
  "0 < i \<Longrightarrow> i < m \<Longrightarrow> stream (Some (mr_msg_dst q)) (map (new_flit c req q m) [i..<m]) = Some None"
proof (induction "m - i" arbitrary: i)
  case (Suc x)
  then show ?case using upt_conv_Cons[of i m] by (cases "Suc i = m") simp_all
qed simp

lemma packet_stream: "0 < m \<Longrightarrow> stream None (map (new_flit c req q m) [0..<m]) = Some None"
  using upt_conv_Cons[of 0 m] packet_body[of 1 m q c req] by (cases "m = 1") simp_all

lemma packet_tails: "i < m \<Longrightarrow> tails (map (new_flit c req q m) [i..<m]) = {#req#}"
proof (induction "m - i" arbitrary: i)
  case (Suc x)
  have "fl_tail (new_flit c req q m j) \<longleftrightarrow> j = m - 1" "fl_req (new_flit c req q m j) = req" for j by (simp_all add: new_flit_def)
  then show ?case using upt_conv_Cons[of i m] Suc by (cases "Suc i = m") auto
qed simp

lemma num_flit_spec:
  assumes "rt_link_width rt \<noteq> 0"
  shows "\<exists>m>0. num_flit k rt q = Inr m"
  using assms by (simp add: num_flit_def)

lemma inject_step:
  assumes ok: "rt_ok t N reqs r F E rt" and vc: "vc < rt_num_vc rt" and np: "0 < rt_num_port rt" and E: "E LOCAL vc = None"
    and room: "length (rt_input rt LOCAL vc) + m \<le> 10" and m: "0 < m" and inj: "rt_injection_buffer rt = req # rest"
    and q: "mr_msg_dst q = mr_msg_dst (reqs req)"
    and rt': "rt' = rt\<lparr>rt_input := upd2 LOCAL vc (rt_input rt LOCAL vc @ map (new_flit c req q m) [0..<m]) (rt_input rt), rt_injection_buffer := rest\<rparr>"
  shows "rt_ok t N reqs r F E rt'" "rt_keeps rt rt'"
proof -
  let ?pkt = "map (new_flit c req q m) [0..<m]"
  let ?rt = "rt\<lparr>rt_input := upd2 LOCAL vc (rt_input rt LOCAL vc @ ?pkt) (rt_input rt)\<rparr>"
  have "\<forall>f\<in>set ?pkt. fl_state f = IB \<and> flit_ok N reqs f"
    using reqs_okD(3)[OF rt_okD(6)[OF ok], of req] q by (auto simp add: inj flit_ok_def new_flit_def)
  note A = append_step[OF ok np vc _ this, where e = "E LOCAL vc", OF _ _ refl]
  have ok': "rt_ok t N reqs r F E ?rt" and pk: "rt_packets ?rt = rt_packets rt + {#req#}"
    using A packet_stream[OF m, of c req q] packet_tails[OF m, of c req q] E room upd2_id[of LOCAL vc E] by simp_all
  have eq: "rt' = ?rt\<lparr>rt_injection_buffer := rest\<rparr>" by (simp add: rt')
  have "reqs_ok N reqs r rt'" using rt_okD(6)[OF ok'] by (simp add: reqs_ok_def eq inj)
  then show "rt_ok t N reqs r F E rt'" using rt_okD(4)[OF ok']
    by (intro rt_ok_outside[OF ok', where a = rest and b = "rt_req_buffer ?rt" and c = "rt_pending_credit ?rt"]) (simp_all add: eq)
  have "add_mset req (rt_packets rt') = rt_packets ?rt" by (simp add: rt_packets_def eq inj)
  then have "rt_packets rt' = rt_packets rt" using pk by simp
  then show "rt_keeps rt rt'" by (simp add: rt_keeps_def) (simp add: rt' pending_def)
qed

context noc_topology
begin

lemma no_local_link: "good_size t N \<Longrightarrow> r < N \<Longrightarrow> net_link t N r LOCAL = None"
  using link_law[of N r LOCAL] by (cases "net_link t N r LOCAL") auto

lemma inject_loop_spec:
  assumes "net_inv t n" "r < nt_num_router n" "rt_injection_buffer (nt_routers n ! r) = reqs"
  shows "\<exists>n'. inject_loop k r reqs n = Inr n' \<and> net_keeps t n n'"
  using assms
proof (induction reqs arbitrary: n)
  case Nil
  then show ?case by (simp add: net_keeps_refl)
next
  case (Cons req reqs)
  from Cons.prems(1) obtain F where F: "net_inv_with t n F" by (auto simp add: net_inv_def)
  note I = net_invD[OF F] and r = Cons.prems(2)
  let ?rt = "nt_routers n ! r" and ?N = "nt_num_router n"
  note ok = I(4)[OF r]
  have cfg: "rt_link_width ?rt \<noteq> 0" "2 \<le> rt_num_vc ?rt" "rt_buffer_max_size ?rt = 10" "0 < rt_num_port ?rt"
    using rt_okD(1)[OF ok] by (auto simp add: cfg_ok_def ports_def split: topology.splits)
  from num_flit_spec[OF cfg(1)] obtain m where m: "0 < m" "num_flit k ?rt (nt_reqs n req) = Inr m" by blast
  let ?find = "find (\<lambda>ii. length (rt_input ?rt LOCAL ii) + m \<le> rt_buffer_max_size ?rt) [0..<rt_num_vc ?rt]"
  show ?case
  proof (cases ?find)
    case None
    then show ?thesis using Cons.prems m cfg by (simp add: net_keeps_refl)
  next
    case (Some vc)
    then have vc: "vc < rt_num_vc ?rt" "length (rt_input ?rt LOCAL vc) + m \<le> 10" by (auto simp add: find_Some_iff cfg(3))
    let ?q = "(nt_reqs n req)\<lparr>mr_noc_cycle := rt_cycle ?rt\<rparr>"
    define rt' where "rt' = ?rt\<lparr>rt_input := upd2 LOCAL vc (rt_input ?rt LOCAL vc @ map (new_flit (rt_cycle ?rt) req ?q m) [0..<m]) (rt_input ?rt), rt_injection_buffer := reqs\<rparr>"
    have "arrive t ?N F r LOCAL vc = None" using no_local_link[OF I(3) r] by (simp add: arrive_def)
    note J = inject_step[OF ok vc(1) cfg(4) this vc(2) m(1) Cons.prems(3) _ rt'_def]
    let ?n = "inject_one r req m vc n"
    have upd: "nt_routers ?n = (nt_routers n)[r := rt']" by (simp add: inject_one_def Let_def upd_rt_def rt'_def Cons.prems(3))
    have same: "same_net n ?n" by (simp add: inject_one_def Let_def upd_rt_def same_net_def)
    have K: "net_keeps t n ?n" by (rule local_net[OF F r upd same]) (rule J; simp)+
    have "rt_injection_buffer (nt_routers ?n ! r) = reqs" using r I(1) by (simp add: upd rt'_def)
    with Cons.IH[of ?n] K r obtain n' where "inject_loop k r reqs ?n = Inr n'" "net_keeps t ?n n'"
      by (auto simp add: net_keeps_def same_net_def)
    then show ?thesis using Some m cfg net_keeps_trans[OF K] by auto
  qed
qed

lemma local_packet_injection_spec:
  assumes "net_inv t n" "r < nt_num_router n"
  shows "\<exists>n'. local_packet_injection k r n = Inr n' \<and> net_keeps t n n'"
  using inject_loop_spec[OF assms refl] by (simp add: local_packet_injection_def)


section \<open>Switch traversal\<close>

text \<open>A change of the network that may concern several routers.\<close>

lemma net_keepsI:
  assumes inv: "net_inv_with t n F" and same: "same_net n n'"
    and ok: "\<And>a. a < nt_num_router n \<Longrightarrow> rt_ok t (nt_num_router n) (nt_reqs n) a (F' a) (arrive t (nt_num_router n) F' a) (nt_routers n' ! a)"
    and cr: "links_ok t (nt_num_router n) (\<lambda>a. nt_routers n' ! a)" and pk: "packets n' = packets n"
  shows "net_keeps t n n'"
proof -
  have "rt_ok t (nt_num_router n) (nt_reqs n') a G E rt = rt_ok t (nt_num_router n) (nt_reqs n) a G E rt" for a G E rt
    using same by (intro rt_ok_reqs) (simp add: same_net_def)
  then have "net_inv_with t n' F'"
    using net_invD[OF inv] same ok cr by (simp add: net_inv_with_def Let_def same_net_def)
  then show ?thesis using same pk by (auto simp add: net_keeps_def net_inv_def)
qed

lemma credit_step:
  assumes ok: "rt_ok t N reqs r F E rt" and c: "credit_ok (net_link t N r) rt c" and rt': "rt' = rt\<lparr>rt_pending_credit := rt_pending_credit rt @ [c]\<rparr>"
  shows "rt_ok t N reqs r F E rt'" "rt_packets rt' = rt_packets rt"
proof -
  have "reqs_ok N reqs r rt'" using rt_okD(6)[OF ok] by (simp add: reqs_ok_def rt')
  then show "rt_ok t N reqs r F E rt'" using rt_okD(4)[OF ok] c
    by (intro rt_ok_outside[OF ok, where a = "rt_injection_buffer rt" and b = "rt_req_buffer rt" and c = "rt_pending_credit rt @ [c]"])
      (auto simp add: rt')
  show "rt_packets rt' = rt_packets rt" by (simp add: rt' rt_packets_def)
qed

lemma packets_upd2:
  assumes "nt_routers n' = (nt_routers n)[r := A, r' := B]" "r < length (nt_routers n)" "r' < length (nt_routers n)" "r \<noteq> r'"
  shows "packets n' + rt_packets (nt_routers n ! r) + rt_packets (nt_routers n ! r') = packets n + rt_packets A + rt_packets B"
proof -
  let ?m = "n\<lparr>nt_routers := (nt_routers n)[r := A]\<rparr>"
  have "packets n' + rt_packets (nt_routers ?m ! r') = packets ?m + rt_packets B"
    by (rule packets_upd) (use assms in simp_all)
  then have 1: "packets n' + rt_packets (nt_routers n ! r') = packets ?m + rt_packets B" using assms(4) by simp
  have 2: "packets ?m + rt_packets (nt_routers n ! r) = packets n + rt_packets A"
    by (rule packets_upd) (use assms in simp_all)
  have "packets n' + rt_packets (nt_routers n ! r) + rt_packets (nt_routers n ! r') = packets ?m + rt_packets B + rt_packets (nt_routers n ! r)"
    using 1 by (simp add: ac_simps)
  also have "\<dots> = packets n + rt_packets A + rt_packets B" using 2 by (simp add: ac_simps)
  finally show ?thesis .
qed

lemma st_port_spec:
  assumes inv: "net_inv t n" and r: "r < nt_num_router n"
  shows "\<exists>n'. st_port r op n = Inr n' \<and> net_keeps t n n'"
proof (cases "st_find (nt_routers n ! r) op")
  case None
  then show ?thesis using inv by (simp add: st_port_def net_keeps_refl)
next
  case (Some x)
  obtain q v where x: "x = (q, v)" by (cases x)
  from inv obtain F where F: "net_inv_with t n F" by (auto simp add: net_inv_def)
  note I = net_invD[OF F]
  let ?rt = "nt_routers n ! r" and ?N = "nt_num_router n"
  note ok = I(4)[OF r]
  have c: "q < rt_num_port ?rt" "v < rt_num_vc ?rt" "st_candidate ?rt op q v" using st_find_spec Some x by blast+
  then obtain f fs where inp: "rt_input ?rt q v = f # fs" and fx: "rt_route_fixed ?rt q v = Some op"
    by (cases "rt_input ?rt q v") (auto simp add: st_candidate_def)
  obtain u where u: "rt_output_vc_id ?rt q v = Some u" "u < rt_num_vc ?rt"
    using rt_okD(2)[OF ok c(1,2)] fx by (auto simp add: in_ok_def fixed_ok_def)
  define A where "A = traverse op q v u ?rt"
  note T = traverse_step[OF ok c(1,2) inp fx u(1) A_def]
  have A: "rt_input A = upd2 q v fs (rt_input ?rt)" "rt_credit A = rt_credit ?rt" "rt_pending_credit A = rt_pending_credit ?rt"
    "rt_num_port A = rt_num_port ?rt" "rt_num_vc A = rt_num_vc ?rt"
    by (simp_all add: A_def traverse_def Let_def inp)
  show ?thesis
  proof (cases "q = LOCAL")
    case True
    have "rt_keeps ?rt A" using T(2) True by (simp add: rt_keeps_def A pending_def)
    then have "net_keeps t n (upd_rt r (traverse op q v u) n)"
      by (intro local_net[OF F r _ _ T(1)]) (simp_all add: upd_rt_def same_net_def A_def)
    then show ?thesis using Some x u True by (simp add: st_port_def)
  next
    case False
    have lk: "rt_link ?rt = net_link t ?N r" and np: "rt_num_port ?rt = ports t" using rt_okD(1)[OF ok] by (simp_all add: cfg_ok_def)
    from I(5) r False inp obtain r' where l: "net_link t ?N r q = Some r'" unfolding links_ok_def by (metis list.distinct(1) not_None_eq)
    note L = link_law[OF I(3) r l]
    then have r': "r' < ?N" "r \<noteq> r'" by auto
    let ?c = "\<lparr>cr_rdy_cycle = rt_cycle ?rt + 1, cr_port = opposite_dir q, cr_vc = v\<rparr>"
    define B where "B = (nt_routers n ! r')\<lparr>rt_pending_credit := rt_pending_credit (nt_routers n ! r') @ [?c]\<rparr>"
    define n' where "n' = n\<lparr>nt_routers := (nt_routers n)[r := A, r' := B]\<rparr>"
    have upd: "nt_routers n' = (nt_routers n)[r := A, r' := B]" by (simp add: n'_def)
    have ins: "st_port r op n = Inr n'"
      using Some x u False l lk r r' I(1) by (simp add: st_port_def insert_credit_def arr_get_def upd_rt_def n'_def A_def B_def Let_def)
    have nth: "nt_routers n' ! a = (if a = r then A else if a = r' then B else nt_routers n ! a)" if "a < ?N" for a
      using that r r' I(1) by (simp add: upd nth_list_update)
    have vc: "rt_num_port (nt_routers n ! r') = ports t" "rt_num_vc (nt_routers n ! r') = rt_num_vc ?rt"
      using rt_okD(1)[OF I(4)[OF r'(1)]] links_okD(3)[OF I(5) r'(1) r] by (simp_all add: cfg_ok_def)
    have "credit_ok (net_link t ?N r') (nt_routers n ! r') ?c" using L c(2) vc by (simp add: credit_ok_def)
    note B = credit_step[OF I(4)[OF r'(1)] this B_def]
    have "net_keeps t n n'"
    proof (rule net_keepsI[OF F])
      show "same_net n n'" by (simp add: n'_def same_net_def)
      show "rt_ok t ?N (nt_reqs n) a (F a) (arrive t ?N F a) (nt_routers n' ! a)" if "a < ?N" for a
        using that T(1) B(1) I(4)[OF that] by (simp add: nth)
      show "links_ok t ?N (\<lambda>a. nt_routers n' ! a)"
        by (rule credits_move[OF I(3,5) r'(1), where p = "opposite_dir q" and r' = r and u = v and d = "- 1"])
          (use L r' inp in \<open>auto simp add: nth A B_def pending_def upd2_apply\<close>)
      show "packets n' = packets n" using packets_upd2[OF upd] r r' I(1) T(2) B(2) by simp
    qed
    then show ?thesis using ins by blast
  qed
qed

lemma stage_st_spec:
  assumes "net_inv t n" "r < nt_num_router n"
  shows "\<exists>n'. stage_st r n = Inr n' \<and> net_keeps t n n'"
  unfolding stage_st_def
proof (rule fold_net[OF _ assms(1)])
  fix x s
  assume "net_keeps t n s"
  then show "\<exists>s'. st_port r x s = Inr s' \<and> net_keeps t s s'"
    using st_port_spec[of s r x] assms(2) by (simp add: net_keeps_def same_net_def)
qed

end

end
