(* ===== verification/NetCycle.thy ===== *)
theory NetCycle
  imports NetStep
begin

text \<open>
  Link traversal and one cycle of the whole network: the invariant of \<open>NetInv\<close> is kept, so that no buffer
  overflows, no index leaves its array and no request is lost or delivered to the wrong router.
\<close>

section \<open>Link traversal\<close>

lemma lt_index:
  assumes "2 \<le> V" "V < 2 ^ 64"
  shows "unat ((x :: Counter) mod of_nat V) < V"
proof -
  have "unat (of_nat V :: Counter) = V" using assms(2) by (simp add: unsigned_of_nat take_bit_nat_eq_self)
  then show ?thesis using assms(1) by (simp add: unat_mod)
qed

lemma lt_pick_spec:
  assumes ok: "rt_ok t N reqs r F E rt" and p: "p < rt_num_port rt"
  shows "\<exists>w. lt_pick rt p ds = Inr w \<and>
    (\<forall>u f. w = Some (u, f) \<longrightarrow> u < rt_num_vc rt \<and> (\<exists>fs. rt_output rt p u = f # fs) \<and> rt_credit rt p u \<noteq> 0)"
proof (induction ds)
  case (Cons d ds)
  note IH = Cons.IH
  let ?i = "unat ((of_nat d + rt_cycle rt) mod of_nat (rt_num_vc rt))"
  have i: "?i < rt_num_vc rt" using rt_okD(1)[OF ok] by (intro lt_index) (simp_all add: cfg_ok_def)
  show ?case
  proof (cases "rt_output rt p ?i")
    case Nil
    then show ?thesis using Cons.IH by (simp add: Let_def)
  next
    case (Cons f fs)
    have "fl_state f = ST" using rt_okD(3)[OF ok p i] Cons by (simp add: out_ok_def)
    then show ?thesis using IH Cons i by (simp add: Let_def)
  qed
qed simp

lemma leave_step:
  assumes ok: "rt_ok t N reqs r F E rt" and p: "p < rt_num_port rt" "u < rt_num_vc rt" and out: "rt_output rt p u = f # fs"
    and cr: "rt_credit rt p u \<noteq> 0" and rt': "rt' = leave_output p u f rt"
  shows "rt_ok t N reqs r (upd2 p u (after f) F) E rt'" "rt_packets rt' + tails [f] = rt_packets rt"
    "fits (F p u) f" "legal t N r (fl_dst f) p"
proof -
  let ?F = "upd2 p u (after f) F"
  note Y = rt_okD(3)[OF ok p]
  have fit: "fits (F p u) f" using Y by (simp add: out_ok_def out_end_def out split: if_splits)
  then show "fits (F p u) f" .
  show leg: "legal t N r (fl_dst f) p" using Y by (simp add: out_ok_def out)
  have same: "rt_num_port rt' = rt_num_port rt" "rt_num_vc rt' = rt_num_vc rt" "rt_input rt' = rt_input rt" "rt_route rt' = rt_route rt"
    "rt_route_fixed rt' = rt_route_fixed rt" "rt_output_vc_id rt' = rt_output_vc_id rt" "rt_output_port_id rt' = rt_output_port_id rt"
    and out': "rt_output rt' = upd2 p u fs (rt_output rt)"
    by (simp_all add: rt' leave_output_def out)
  have oe: "out_end ?F rt' = out_end F rt" using fit by (auto simp add: fun_eq_iff out_end_def out' upd2_apply out)
  have ow: "owns rt' = owns rt" by (simp add: fun_eq_iff owns_def same)
  have fo: "fixed_ok rt' = fixed_ok rt" by (intro ext fixed_ok_cong) (simp_all add: same)
  have ist: "in_start ?F rt' = in_start F rt" by (simp add: fun_eq_iff in_start_def oe same split: option.split)
  have "in_ok (rows t) (legal t N r) ?F E rt' a b" if "a < rt_num_port rt" "b < rt_num_vc rt" for a b
    using rt_okD(2)[OF ok that] in_ok_cong[of rt' a b rt ?F F E E] by (simp add: same fo ist)
  moreover have "out_ok (legal t N r) ?F rt' a b" if ab: "a < rt_num_port rt" "b < rt_num_vc rt" for a b
  proof (cases "a = p \<and> b = u")
    case False
    then have "rt_output_vc_avail rt' a b = rt_output_vc_avail rt a b" by (auto simp add: rt' leave_output_def)
    then show ?thesis using rt_okD(3)[OF ok ab] out_ok_cong[of rt' a b rt ?F F] False by (simp add: oe ow out')
  next
    case True
    have tail: "fl_tail f \<Longrightarrow> fs = [] \<and> (\<nexists>q v. owns rt q v p u)" using Y by (auto simp add: out_ok_def out split: if_splits)
    have avail: "rt_output_vc_avail rt' p u \<longleftrightarrow> fl_tail f" using Y by (auto simp add: rt' leave_output_def out_ok_def out)
    have "out_ok (legal t N r) ?F rt' p u"
      unfolding out_ok_def oe ow out' upd2_same avail
    proof (intro conjI)
      show "\<forall>d. after f = Some d \<longrightarrow> legal t N r d p" using leg by (simp add: after_def)
      show "\<forall>f\<in>set (butlast fs). \<not> fl_tail f" using Y by (cases fs) (simp_all add: out_ok_def out)
      show "fl_tail f \<longrightarrow> fs = [] \<and> (\<nexists>q v. owns rt q v p u) \<and> after f = None" using tail by (simp add: after_def)
    qed (use Y in \<open>simp_all add: out_ok_def out\<close>)
    then show ?thesis using True by simp
  qed
  moreover have "reqs_ok N reqs r rt'"
  proof (rule reqs_okI)
    note Q = reqs_okD[OF rt_okD(6)[OF ok]]
    show "flit_ok N reqs g" if "g \<in> set (rt_output rt' a b)" for a b g
      using that Q(2)[of g a b] out by (auto simp add: out' upd2_apply split: if_splits)
  qed (use reqs_okD[OF rt_okD(6)[OF ok]] in \<open>simp_all add: rt' leave_output_def\<close>)
  ultimately show "rt_ok t N reqs r ?F E rt'"
  proof (rule rt_okI[OF ok, rotated -3])
    show "0 \<le> rt_credit rt' a b" for a b
      using rt_okD(5)[OF ok, of a b] cr by (auto simp add: rt' leave_output_def upd2_apply)
  qed (use rt_okD(4)[OF ok] in \<open>simp_all add: rt' leave_output_def\<close>)
  have "out_tails rt' + tails (f # fs) = out_tails rt + tails fs"
    using out_tails_upd[OF p out' same(1,2)] by (simp only: out)
  then have "out_tails rt' + tails [f] = out_tails rt" by (simp split: if_splits)
  moreover have "in_tails rt' = in_tails rt" by (simp add: in_tails_def same)
  moreover have "rt_injection_buffer rt' = rt_injection_buffer rt" "rt_req_buffer rt' = rt_req_buffer rt" by (simp_all add: rt' leave_output_def)
  ultimately show "rt_packets rt' + tails [f] = rt_packets rt" by (simp add: rt_packets_split split: if_splits)
qed

lemma good_size_pos: "good_size t N \<Longrightarrow> N \<noteq> 0"
  by (auto simp add: good_size_def split: topology.splits) (metis mult_eq_0_iff not_gr_zero not_numeral_le_zero)

context noc_topology
begin

text \<open>The neighbour's view of a channel after a flit has left a router.\<close>

lemma arrive_other:
  assumes "good_size t N" "a < N" "net_link t N r p \<noteq> Some a"
  shows "arrive t N (F(r := upd2 p u e (F r))) a = arrive t N F a"
proof (intro ext)
  fix q v
  show "arrive t N (F(r := upd2 p u e (F r))) a q v = arrive t N F a q v"
  proof (cases "net_link t N a q")
    case (Some b)
    then have "\<not> (b = r \<and> opposite_dir q = p)" using link_law[OF assms(1,2) Some] assms(3) by auto
    then show ?thesis using Some by (auto simp add: arrive_def upd2_apply)
  qed (simp add: arrive_def)
qed

lemma arrive_neighbour:
  assumes size: "good_size t N" and r: "r < N" and l: "net_link t N r p = Some r'"
  shows "arrive t N (F(r := upd2 p u e (F r))) r' = upd2 (opposite_dir p) u e (arrive t N F r')"
proof (intro ext)
  fix q v
  note L = link_law[OF size r l]
  show "arrive t N (F(r := upd2 p u e (F r))) r' q v = upd2 (opposite_dir p) u e (arrive t N F r') q v"
  proof (cases "net_link t N r' q")
    case None
    then have "q \<noteq> opposite_dir p" using L by auto
    then show ?thesis using None by (simp add: arrive_def upd2_apply)
  next
    case (Some b)
    have "b = r \<and> opposite_dir q = p \<longleftrightarrow> q = opposite_dir p"
      using L Some link_law[of N r' q b] size by (metis option.inject)
    then show ?thesis using Some by (auto simp add: arrive_def upd2_apply)
  qed
qed

lemma lt_local:
  assumes F: "net_inv_with t n F" and r: "r < nt_num_router n" and u: "u < rt_num_vc (nt_routers n ! r)"
    and out: "rt_output (nt_routers n ! r) LOCAL u = f # fs" and cr: "rt_credit (nt_routers n ! r) LOCAL u \<noteq> 0"
    and n': "n' = (let m = upd_rt r (leave_output LOCAL u f) n in if fl_tail f then eject r f m else m)"
  shows "net_keeps t n n'"
proof -
  note I = net_invD[OF F]
  let ?rt = "nt_routers n ! r" and ?N = "nt_num_router n" and ?F = "F(r := upd2 LOCAL u (after f) (F r))"
  note ok = I(4)[OF r]
  have p: "LOCAL < rt_num_port ?rt" using rt_okD(1)[OF ok] by (simp add: cfg_ok_def ports_def split: topology.split)
  note S = leave_step[OF ok p u out cr refl]
  define A where "A = (leave_output LOCAL u f ?rt)\<lparr>rt_req_buffer := rt_req_buffer ?rt @ (if fl_tail f then [fl_req f] else [])\<rparr>"
  have upd: "nt_routers n' = (nt_routers n)[r := A]"
    using r I(1) by (simp add: n' Let_def eject_def upd_rt_def A_def leave_output_def)
  have same: "same_net n n'" by (simp add: n' Let_def eject_def upd_rt_def same_net_def)
  have fok: "flit_ok ?N (nt_reqs n) f" using reqs_okD(2)[OF rt_okD(6)[OF ok], of f LOCAL u] out by simp
  then have dst: "mr_msg_dst (nt_reqs n (fl_req f)) = int r" using legal_local[OF I(3) r S(4)] by (simp add: flit_ok_def)
  have "reqs_ok ?N (nt_reqs n) r A" using rt_okD(6)[OF S(1)] dst by (auto simp add: reqs_ok_def A_def leave_output_def)
  then have okA: "rt_ok t ?N (nt_reqs n) r (upd2 LOCAL u (after f) (F r)) (arrive t ?N F r) A"
    using rt_okD(4)[OF S(1)]
    by (intro rt_ok_outside[OF S(1), where a = "rt_injection_buffer ?rt" and c = "rt_pending_credit ?rt"
          and b = "rt_req_buffer ?rt @ (if fl_tail f then [fl_req f] else [])"]) (simp_all add: A_def leave_output_def)
  have arr: "arrive t ?N ?F a = arrive t ?N F a" if "a < ?N" for a
    by (rule arrive_other[OF I(3) that]) (simp add: no_local_link[OF I(3) r])
  have nth: "nt_routers n' ! a = (if a = r then A else nt_routers n ! a)" if "a < ?N" for a
    using that r I(1) by (simp add: upd)
  show ?thesis
  proof (rule net_keepsI[OF F same])
    show "rt_ok t ?N (nt_reqs n) a (?F a) (arrive t ?N ?F a) (nt_routers n' ! a)" if "a < ?N" for a
      using that okA I(4)[OF that] by (simp add: nth arr)
    show "links_ok t ?N (\<lambda>a. nt_routers n' ! a)"
      by (rule credits_stay[OF I(3,5)]) (simp_all add: nth A_def leave_output_def pending_def)
    have "rt_packets A = rt_packets (leave_output LOCAL u f ?rt) + tails [f]"
      by (simp add: A_def rt_packets_def leave_output_def)
    then show "packets n' = packets n" using packets_upd[OF upd] r I(1) S(2) by simp
  qed
qed

lemma lt_link:
  assumes F: "net_inv_with t n F" and r: "r < nt_num_router n" and p: "p < rt_num_port (nt_routers n ! r)" "p \<noteq> LOCAL"
    and u: "u < rt_num_vc (nt_routers n ! r)" and out: "rt_output (nt_routers n ! r) p u = f # fs" and cr: "rt_credit (nt_routers n ! r) p u \<noteq> 0"
  shows "\<exists>n1. forward_flit r p u f n = Inr n1 \<and> net_keeps t n (upd_rt r (leave_output p u f) n1)"
proof -
  note I = net_invD[OF F]
  let ?rt = "nt_routers n ! r" and ?N = "nt_num_router n" and ?F = "F(r := upd2 p u (after f) (F r))"
  note ok = I(4)[OF r]
  note S = leave_step[OF ok p(1) u out cr refl]
  have fok: "flit_ok ?N (nt_reqs n) f" using reqs_okD(2)[OF rt_okD(6)[OF ok], of f p u] out by simp
  then obtain r' where l: "net_link t ?N r p = Some r'" using legal_link[OF I(3) r _ _ S(4) p(2)] by (auto simp add: flit_ok_def)
  note L = link_law[OF I(3) r l]
  then have r': "r' < ?N" "r \<noteq> r'" by auto
  note ok' = I(4)[OF r'(1)]
  let ?q = "opposite_dir p" and ?rt' = "nt_routers n ! r'"
  let ?f = "f\<lparr>fl_rdy_cycle := rt_cycle ?rt + rt_link_latency ?rt + 1, fl_state := IB\<rparr>"
  have q: "?q < rt_num_port ?rt'" "u < rt_num_vc ?rt'" and lk: "rt_link ?rt = net_link t ?N r"
    using rt_okD(1)[OF ok] rt_okD(1)[OF ok'] L links_okD(3)[OF I(5) r'(1) r] u by (simp_all add: cfg_ok_def)
  have arr: "arrive t ?N F r' ?q u = F r p u" using L by (simp add: arrive_def)
  have room: "length (rt_input ?rt' ?q u) + length [?f] \<le> 10"
    using links_okD(1)[OF I(5) r l, of u] rt_okD(5)[OF ok, of p u] cr by simp
  define A where "A = leave_output p u f (?rt\<lparr>rt_link_avail := (rt_link_avail ?rt)(p := rt_cycle ?rt + rt_link_latency ?rt)\<rparr>)"
  have A: "A = (leave_output p u f ?rt)\<lparr>rt_link_avail := (rt_link_avail ?rt)(p := rt_cycle ?rt + rt_link_latency ?rt)\<rparr>"
    by (simp add: A_def leave_output_def)
  define B where "B = ?rt'\<lparr>rt_input := upd2 ?q u (rt_input ?rt' ?q u @ [?f]) (rt_input ?rt')\<rparr>"
  have "\<forall>g\<in>set [?f]. fl_state g = IB \<and> flit_ok ?N (nt_reqs n) g" using fok by (simp add: flit_ok_def)
  from append_step[OF ok' q room this _ B_def, of "after f"]
  have B: "rt_ok t ?N (nt_reqs n) r' (F r') (upd2 ?q u (after f) (arrive t ?N F r')) B" "rt_packets B = rt_packets ?rt' + tails [f]"
    using S(3) by (simp_all add: arr)
  define n1 where "n1 = n\<lparr>nt_routers := (nt_routers n)[r' := B, r := ?rt\<lparr>rt_link_avail := (rt_link_avail ?rt)(p := rt_cycle ?rt + rt_link_latency ?rt)\<rparr>]\<rparr>"
  let ?n' = "upd_rt r (leave_output p u f) n1"
  have fw: "forward_flit r p u f n = Inr n1"
    using p(2) q r r' I(1) by (simp add: forward_flit_def Let_def lk l insert_packet_def arr_get_def upd_rt_def n1_def B_def)
  have upd: "nt_routers ?n' = (nt_routers n)[r := A, r' := B]"
    using r r' I(1) by (simp add: upd_rt_def n1_def A_def list_update_swap)
  have nth: "nt_routers ?n' ! a = (if a = r then A else if a = r' then B else nt_routers n ! a)" if "a < ?N" for a
    using that r r' I(1) by (simp add: upd nth_list_update)
  have "net_keeps t n ?n'"
  proof (rule net_keepsI[OF F])
    show "same_net n ?n'" by (simp add: upd_rt_def n1_def same_net_def)
    show "rt_ok t ?N (nt_reqs n) a (?F a) (arrive t ?N ?F a) (nt_routers ?n' ! a)" if a: "a < ?N" for a
    proof (cases "a = r'")
      case True
      then show ?thesis using B(1) arrive_neighbour[OF I(3) r l] r' nth[OF a] by simp
    next
      case False
      then show ?thesis using arrive_other[OF I(3) a, of r p F u "after f"] l S(1) I(4)[OF a] nth[OF a] by (simp add: A)
    qed
    show "links_ok t ?N (\<lambda>a. nt_routers ?n' ! a)"
      by (rule credits_move[OF I(3,5) r l, where u = u and d = 1])
        (use r' p(2) in \<open>auto simp add: nth A_def B_def leave_output_def pending_def upd2_apply\<close>)
    have "rt_packets A + tails [f] = rt_packets ?rt" using S(2) by (simp add: A)
    then have "rt_packets A + rt_packets B = rt_packets ?rt + rt_packets ?rt'" using B(2) by (metis add.assoc add.commute)
    then show "packets ?n' = packets n" using packets_upd2[OF upd] r r' I(1) by (simp add: add.assoc)
  qed
  then show ?thesis using fw by blast
qed

lemma lt_port_spec:
  assumes inv: "net_inv t n" and r: "r < nt_num_router n" and p: "p < rt_num_port (nt_routers n ! r)"
  shows "\<exists>n'. lt_port r p n = Inr n' \<and> net_keeps t n n'"
proof -
  from inv obtain F where F: "net_inv_with t n F" by (auto simp add: net_inv_def)
  let ?rt = "nt_routers n ! r"
  note ok = net_invD(4)[OF F r]
  from lt_pick_spec[OF ok p] obtain w where w: "lt_pick ?rt p [0..<rt_num_vc ?rt] = Inr w"
    "\<And>u f. w = Some (u, f) \<Longrightarrow> u < rt_num_vc ?rt \<and> (\<exists>fs. rt_output ?rt p u = f # fs) \<and> rt_credit ?rt p u \<noteq> 0" by blast
  show ?thesis
  proof (cases "rt_link_avail ?rt p > rt_cycle ?rt \<or> w = None")
    case True
    then show ?thesis using w(1) inv by (auto simp add: lt_port_def Let_def net_keeps_refl)
  next
    case False
    then obtain u f where uf: "w = Some (u, f)" by auto
    then obtain fs where f: "u < rt_num_vc ?rt" "rt_output ?rt p u = f # fs" "rt_credit ?rt p u \<noteq> 0" using w(2) by blast
    show ?thesis
    proof (cases "p = LOCAL")
      case True
      then show ?thesis using lt_local[OF F r f(1)] f False uf w(1) by (simp add: lt_port_def Let_def forward_flit_def)
    next
      case pl: False
      from lt_link[OF F r p pl f] show ?thesis using pl False uf w(1) by (auto simp add: lt_port_def Let_def)
    qed
  qed
qed

lemma num_port_same:
  assumes "net_keeps t n s" "net_inv t n" "r < nt_num_router n"
  shows "rt_num_port (nt_routers s ! r) = rt_num_port (nt_routers n ! r)"
  using assms rt_okD(1)[OF net_invD(4)] by (fastforce simp add: net_keeps_def same_net_def net_inv_def cfg_ok_def)

lemma stage_lt_spec:
  assumes "net_inv t n" "r < nt_num_router n"
  shows "\<exists>n'. stage_lt r n = Inr n' \<and> net_keeps t n n'"
  unfolding stage_lt_def
proof (rule fold_net[OF _ assms(1)])
  fix x s
  assume "x \<in> set [0..<rt_num_port (nt_routers n ! r)]" "net_keeps t n s"
  then show "\<exists>s'. lt_port r x s = Inr s' \<and> net_keeps t s s'"
    using lt_port_spec[of s r x] assms num_port_same[of n s r] by (simp add: net_keeps_def same_net_def)
qed

section \<open>One cycle\<close>

lemma net_clock: "net_inv t (n\<lparr>nt_cycle := c\<rparr>) = net_inv t n" "packets (n\<lparr>nt_cycle := c\<rparr>) = packets n"
  by (simp_all add: net_inv_def net_inv_with_def packets_def)

lemma bind_net:
  assumes "net_inv t n" "r < nt_num_router n" "\<exists>n'. f = Inr n' \<and> net_keeps t n n'"
    "\<And>m. net_inv t m \<Longrightarrow> r < nt_num_router m \<Longrightarrow> \<exists>n'. g m = Inr n' \<and> net_keeps t m n'"
  shows "\<exists>n'. res_bind f g = Inr n' \<and> net_keeps t n n'"
proof -
  from assms(3) obtain m where m: "f = Inr m" "net_keeps t n m" by blast
  then have "net_inv t m" "r < nt_num_router m" using assms(2) by (simp_all add: net_keeps_def same_net_def)
  from assms(4)[OF this] net_keeps_trans[OF m(2)] m(1) show ?thesis by auto
qed

lemma router_run_a_cycle_spec:
  assumes "net_inv t n" "r < nt_num_router n" "\<not> KNOB_IDEAL_NOC k"
  shows "\<exists>n'. router_run_a_cycle t k cycle pll r n = Inr n' \<and> net_keeps t n n'"
proof (cases pll)
  case True
  then show ?thesis using tick_spec[OF assms(1,2)] by (simp add: router_run_a_cycle_def)
next
  case False
  let ?stages = "res_bind (process_pending_credit cycle r n) (\<lambda>n. res_bind (stage_lt r n) (\<lambda>n. res_bind (stage_sa r n) (\<lambda>n.
    res_bind (stage_st r n) (\<lambda>n. res_bind (stage_rc t r n) (\<lambda>n. res_bind (stage_vca t k r n) (local_packet_injection k r))))))"
  have "\<exists>n'. ?stages = Inr n' \<and> net_keeps t n n'"
    by (intro bind_net[where r = r] assms(1,2) process_pending_credit_spec stage_lt_spec stage_sa_spec stage_st_spec stage_rc_spec
        stage_vca_spec[OF _ _ assms(3)] local_packet_injection_spec)
  from bind_net[OF assms(1,2) this, where g = "\<lambda>n. Inr (tick r n)"] tick_spec
  show ?thesis using False assms(3) by (simp add: router_run_a_cycle_def)
qed

lemma network_run_a_cycle_spec:
  assumes inv: "net_inv t n" and k: "\<not> KNOB_IDEAL_NOC k"
  shows "\<exists>n'. network_run_a_cycle t k cycle pll n = Inr n' \<and> net_keeps t n n'"
proof -
  from inv obtain F where F: "net_inv_with t n F" by (auto simp add: net_inv_def)
  let ?N = "nt_num_router n"
  have N: "?N \<noteq> 0" by (rule good_size_pos[OF net_invD(3)[OF F]])
  let ?i = "unat (cycle mod of_nat ?N)"
  have "\<exists>n'. fold_res (\<lambda>ii. router_run_a_cycle t k cycle pll (ii mod ?N)) [?i..<?i + ?N] n = Inr n' \<and> net_keeps t n n'"
  proof (rule fold_net[OF _ inv])
    fix x s
    assume "net_keeps t n s"
    then show "\<exists>s'. router_run_a_cycle t k cycle pll (x mod ?N) s = Inr s' \<and> net_keeps t s s'"
      using router_run_a_cycle_spec[OF _ _ k, of s "x mod ?N"] N by (simp add: net_keeps_def same_net_def)
  qed
  then obtain m where m: "fold_res (\<lambda>ii. router_run_a_cycle t k cycle pll (ii mod ?N)) [?i..<?i + ?N] n = Inr m" "net_keeps t n m" by blast
  have "net_keeps t n (m\<lparr>nt_cycle := nt_cycle m + 1\<rparr>)"
    using m(2) by (simp add: net_keeps_def net_clock) (simp add: same_net_def)
  then show ?thesis using m(1) N by (simp add: network_run_a_cycle_def)
qed

end

end
