(* ===== verification/NetInit.thy ===== *)
theory NetInit
  imports NetCycle
begin

text \<open>
  The networks that \<^verbatim>\<open>network_ring_c::init\<close> and \<^verbatim>\<open>network_mesh_c::init\<close> build satisfy the
  invariant, and so does every network that sends, receives and cycles lead to.
\<close>

section \<open>Square roots\<close>

lemma takeWhile_upt: "(\<And>k. a \<le> k \<Longrightarrow> k < m \<Longrightarrow> P k) \<Longrightarrow> a \<le> m \<Longrightarrow> m \<le> b \<Longrightarrow> (m < b \<Longrightarrow> \<not> P m) \<Longrightarrow> takeWhile P [a..<b] = [a..<m]"
proof (induction "b - a" arbitrary: a)
  case (Suc x)
  show ?case
  proof (cases "a = m")
    case True
    then show ?thesis using Suc.prems Suc.hyps upt_conv_Cons[of a b] by simp
  next
    case False
    then show ?thesis using Suc.prems Suc.hyps(1)[of "Suc a"] Suc.hyps(2) upt_conv_Cons[of a b] upt_conv_Cons[of a m] by simp
  qed
qed simp

lemma isqrt_square [simp]: "isqrt (w * w) = w"
proof -
  have "k * k \<le> w * w" if "k < w + 1" for k using that by (simp add: mult_le_mono)
  moreover have "w * w < (w + 1) * (w + 1)" by simp
  moreover have "w + 1 \<le> w * w + 1" by (cases w) simp_all
  ultimately have "takeWhile (\<lambda>k. k * k \<le> w * w) [1..<w * w + 1] = [1..<w + 1]"
    by (intro takeWhile_upt) (simp_all add: not_le)
  then show ?thesis by (simp add: isqrt_def)
qed

lemma isqrt_ge:
  assumes "w * w \<le> n" shows "w \<le> isqrt n"
proof -
  have "k * k \<le> n" if "k < w + 1" for k using that assms mult_le_mono[of k w k w] by linarith
  moreover have "w \<le> n" using assms by (metis le_trans le_square)
  ultimately have "takeWhile (\<lambda>k. k * k \<le> n) ([1..<w + 1] @ [w + 1..<n + 1]) = [1..<w + 1] @ takeWhile (\<lambda>k. k * k \<le> n) [w + 1..<n + 1]"
    by (intro takeWhile_append2) (auto simp add: less_Suc_eq)
  moreover have "[1..<n + 1] = [1..<w + 1] @ [w + 1..<n + 1]" using \<open>w \<le> n\<close> upt_add_eq_append[of 1 "w + 1" "n - w"] by simp
  ultimately show ?thesis by (simp add: isqrt_def)
qed

lemma isqrt_bounds: "isqrt n * isqrt n \<le> n" "n < (isqrt n + 1) * (isqrt n + 1)"
proof -
  let ?xs = "takeWhile (\<lambda>k. k * k \<le> n) [1..<n + 1]"
  show "n < (isqrt n + 1) * (isqrt n + 1)" using isqrt_ge[of "isqrt n + 1" n] by (cases "n < (isqrt n + 1) * (isqrt n + 1)") simp_all
  have len: "isqrt n \<le> n" using length_takeWhile_le[of "\<lambda>k. k * k \<le> n" "[1..<n + 1]"] unfolding isqrt_def length_upt by simp
  show "isqrt n * isqrt n \<le> n"
  proof (cases "isqrt n = 0")
    case False
    then have i: "isqrt n - 1 < length ?xs" by (simp add: isqrt_def)
    then have "?xs ! (isqrt n - 1) \<in> set ?xs" by simp
    then have "(?xs ! (isqrt n - 1)) * (?xs ! (isqrt n - 1)) \<le> n" using set_takeWhileD by fastforce
    moreover have "?xs ! (isqrt n - 1) = [1..<n + 1] ! (isqrt n - 1)" by (rule takeWhile_nth[OF i])
    moreover have "[1..<n + 1] ! (isqrt n - 1) = isqrt n" using False len nth_upt[of 1 "isqrt n - 1" "n + 1"] by simp
    ultimately show ?thesis by simp
  qed simp
qed

lemma isqrt_small: "n < 2 ^ 62 \<Longrightarrow> (isqrt n + 1) * (isqrt n + 1) < 2 ^ 64"
proof -
  assume n: "n < 2 ^ 62"
  have "isqrt n < 2 ^ 31"
  proof (rule ccontr)
    assume "\<not> isqrt n < 2 ^ 31"
    then have "2 ^ 31 * 2 ^ 31 \<le> isqrt n * isqrt n" by (intro mult_le_mono) simp_all
    then show False using isqrt_bounds(1)[of n] n by simp
  qed
  then have "(isqrt n + 1) * (isqrt n + 1) \<le> 2 ^ 31 * 2 ^ 31" by (intro mult_le_mono) simp_all
  then show ?thesis by simp
qed

section \<open>New networks\<close>

text \<open>A router with empty buffers and all its credits.\<close>

definition empty_router :: "router \<Rightarrow> bool" where
  "empty_router rt \<longleftrightarrow> rt_injection_buffer rt = [] \<and> rt_req_buffer rt = [] \<and> rt_input rt = (\<lambda>_ _. []) \<and> rt_output rt = (\<lambda>_ _. []) \<and>
     rt_route_fixed rt = (\<lambda>_ _. None) \<and> rt_output_port_id rt = (\<lambda>_ _. None) \<and> rt_output_vc_id rt = (\<lambda>_ _. None) \<and>
     rt_output_vc_avail rt = (\<lambda>_ _. True) \<and> rt_credit rt = (\<lambda>_ _. 10) \<and> rt_pending_credit rt = []"

lemma empty_router_ok:
  assumes "empty_router rt" "cfg_ok t N r rt"
  shows "rt_ok t N reqs r (\<lambda>_ _. None) (\<lambda>_ _. None) rt" "rt_packets rt = {#}"
  using assms
  by (simp_all add: empty_router_def rt_ok_def in_ok_def out_ok_def fixed_ok_def in_start_def out_end_def owns_def routed_ok_def reqs_ok_def rt_packets_def)

lemma empty_net_inv:
  assumes len: "length (nt_routers n) = nt_num_router n" "nt_num_router n < 2 ^ 64" "good_size t (nt_num_router n)"
    and rts: "\<And>a. a < nt_num_router n \<Longrightarrow> empty_router (nt_routers n ! a) \<and> cfg_ok t (nt_num_router n) a (nt_routers n ! a) \<and> rt_num_vc (nt_routers n ! a) = V"
  shows "net_inv t n" "packets n = {#}"
proof -
  have "arrive t N (\<lambda>_ _ _. None) r = (\<lambda>_ _. None)" for N r by (simp add: fun_eq_iff arrive_def split: option.split)
  then have "rt_ok t (nt_num_router n) (nt_reqs n) a (\<lambda>_ _. None) (arrive t (nt_num_router n) (\<lambda>_ _ _. None) a) (nt_routers n ! a)"
    if "a < nt_num_router n" for a using empty_router_ok(1) rts[OF that] by simp
  moreover have "links_ok t (nt_num_router n) (\<lambda>a. nt_routers n ! a)"
    unfolding links_ok_def
  proof (intro conjI allI impI)
    fix r p r' u
    assume r: "r < nt_num_router n" and l: "net_link t (nt_num_router n) r p = Some r'"
    have "r' < nt_num_router n"
      using ring.link_law[of "nt_num_router n" r p r'] mesh.link_law[of "nt_num_router n" r p r'] r l len(3) by (cases t) simp_all
    then show "rt_credit (nt_routers n ! r) p u + int (length (rt_input (nt_routers n ! r') (opposite_dir p) u)) + int (pending (nt_routers n ! r) p u) = 10"
      using rts[OF r] rts[of r'] by (simp add: empty_router_def pending_def)
  qed (use rts in \<open>simp_all add: empty_router_def\<close>)
  ultimately have "net_inv_with t n (\<lambda>_ _ _. None)" using len by (simp add: net_inv_with_def Let_def)
  then show "net_inv t n" unfolding net_inv_def by blast
  have "rt_packets x = {#}" if "x \<in> set (nt_routers n)" for x
    using that rts empty_router_ok(2) len(1) by (metis in_set_conv_nth)
  then have "map rt_packets (nt_routers n) = map (\<lambda>_. {#}) (nt_routers n)" by (intro map_cong) simp_all
  then show "packets n = {#}" by (simp add: packets_def del: map_eq_conv)
qed

text \<open>The routers created so far: router \<open>a\<close> is new, with the identifier \<open>a\<close>.\<close>

definition fresh :: "noc_knobs \<Rightarrow> nat \<Rightarrow> net \<Rightarrow> bool" where
  "fresh k np n \<longleftrightarrow> length (nt_routers n) = nt_num_router n \<and> (\<forall>v. nt_router_map n v < max 1 (nt_num_router n)) \<and>
     (\<forall>a<nt_num_router n. \<exists>junk type. nt_routers n ! a = router_c k junk type (int a) np)"

lemma create_one_fresh:
  assumes "fresh k np n" shows "fresh k np (create_one (\<lambda>type rid. router_c k junk type rid np) type level off ii n)"
  unfolding fresh_def
proof (intro conjI allI impI)
  let ?n = "create_one (\<lambda>type rid. router_c k junk type rid np) type level off ii n"
  have F: "length (nt_routers n) = nt_num_router n" "\<And>v. nt_router_map n v < max 1 (nt_num_router n)" using assms by (simp_all add: fresh_def)
  show "length (nt_routers ?n) = nt_num_router ?n" using F by (simp add: create_one_def)
  show "nt_router_map ?n v < max 1 (nt_num_router ?n)" for v using F(2)[of v] by (auto simp add: create_one_def)
  fix a
  assume "a < nt_num_router ?n"
  then show "\<exists>junk type. nt_routers ?n ! a = router_c k junk type (int a) np"
    using assms F(1) by (cases "a = nt_num_router n") (auto simp add: create_one_def fresh_def nth_append less_Suc_eq)
qed

lemma create_routers_fresh:
  assumes "fresh k np n"
  shows "fresh k np (create_routers (\<lambda>type rid. router_c k junk type rid np) m type level off n)"
    "nt_num_router (create_routers (\<lambda>type rid. router_c k junk type rid np) m type level off n) = nt_num_router n + m"
proof -
  have "fresh k np (fold (create_one (\<lambda>type rid. router_c k junk type rid np) type level off) xs n) \<and>
      nt_num_router (fold (create_one (\<lambda>type rid. router_c k junk type rid np) type level off) xs n) = nt_num_router n + length xs" for xs
    using assms
  proof (induction xs arbitrary: n)
    case (Cons x xs)
    from Cons.IH[OF create_one_fresh[OF Cons.prems, of junk type level off x]]
    show ?case by (simp add: create_one_def[of _ _ _ _ x])
  qed simp
  from this[of "[0..<m]"] show "fresh k np (create_routers (\<lambda>type rid. router_c k junk type rid np) m type level off n)"
    "nt_num_router (create_routers (\<lambda>type rid. router_c k junk type rid np) m type level off n) = nt_num_router n + m"
    by (simp_all add: create_routers_def)
qed

lemma add_dummy_fresh:
  assumes "fresh k np n"
  shows "fresh k np (add_dummy (\<lambda>type rid. router_c k junk type rid np) x n)"
  unfolding fresh_def
proof (intro conjI allI impI)
  let ?n = "add_dummy (\<lambda>type rid. router_c k junk type rid np) x n"
  have F: "length (nt_routers n) = nt_num_router n" "\<And>v. nt_router_map n v < max 1 (nt_num_router n)" using assms by (simp_all add: fresh_def)
  show "length (nt_routers ?n) = nt_num_router ?n" using F by (simp add: add_dummy_def)
  show "nt_router_map ?n v < max 1 (nt_num_router ?n)" for v using F(2)[of v] by (auto simp add: add_dummy_def)
  fix a
  assume "a < nt_num_router ?n"
  then show "\<exists>junk type. nt_routers ?n ! a = router_c k junk type (int a) np"
    using assms F(1) by (cases "a = nt_num_router n") (auto simp add: add_dummy_def fresh_def nth_append less_Suc_eq)
qed

lemma add_dummies_fresh:
  assumes "fresh k np n"
  shows "fresh k np (fold (add_dummy (\<lambda>type rid. router_c k junk type rid np)) xs n) \<and>
    nt_num_router (fold (add_dummy (\<lambda>type rid. router_c k junk type rid np)) xs n) = nt_num_router n + length xs"
  using assms
proof (induction xs arbitrary: n)
  case (Cons x xs)
  from Cons.IH[OF add_dummy_fresh[OF Cons.prems, of junk x]] show ?case by (simp add: add_dummy_def[of _ x])
qed simp

text \<open>A loop that connects the routers one after the other.\<close>

lemma connect_fold:
  assumes step: "\<And>ii s. ii < N \<Longrightarrow> nt_num_router s = N \<Longrightarrow> length (nt_routers s) = N \<Longrightarrow> c ii s = upd_rt ii (g ii) s"
    and n: "nt_num_router n = N" "length (nt_routers n) = N" and m: "m \<le> N"
  shows "fold c [0..<m] n = n\<lparr>nt_routers := map (\<lambda>a. if a < m then g a (nt_routers n ! a) else nt_routers n ! a) [0..<N]\<rparr>"
  using m
proof (induction m)
  case 0
  have "map (\<lambda>a. nt_routers n ! a) [0..<N] = nt_routers n" using n(2) map_nth by blast
  then show ?case by simp
next
  case (Suc m)
  let ?s = "fold c [0..<m] n"
  have "fold c [0..<Suc m] n = c m ?s" by simp
  also have "\<dots> = upd_rt m (g m) ?s" using Suc n by (intro step) simp_all
  also have "\<dots> = n\<lparr>nt_routers := map (\<lambda>a. if a < Suc m then g a (nt_routers n ! a) else nt_routers n ! a) [0..<N]\<rparr>"
    using Suc n by (simp add: upd_rt_def) (auto intro!: arg_cong[where f = "\<lambda>x. n\<lparr>nt_routers := x\<rparr>"] nth_equalityI simp add: nth_list_update less_Suc_eq)
  finally show ?case .
qed

definition good_noc :: "topology \<Rightarrow> noc_knobs \<Rightarrow> bool" where
  "good_noc t k \<longleftrightarrow> KNOB_NOC_DIMENSION k = (case t of RING \<Rightarrow> 1 | MESH \<Rightarrow> 2) \<and> 2 \<le> KNOB_NUM_VC k \<and> KNOB_NUM_VC k < 2 ^ 64 \<and>
     KNOB_ARBITRATION_POLICY k = OLDEST_FIRST \<and> KNOB_LINK_WIDTH k \<noteq> 0"

lemma fresh_start: "fresh k np ((network_c reqs junk)\<lparr>nt_num_router := 0\<rparr>)"
  by (simp add: fresh_def network_c_def)

lemma init_routers_num [simp]: "nt_num_router (init_routers n) = nt_num_router n"
  by (simp add: init_routers_def)

lemma init_routers_fresh: "fresh k np n \<Longrightarrow> nt_routers (init_routers n) = map (\<lambda>a. (nt_routers n ! a)\<lparr>rt_total_router := int (nt_num_router n)\<rparr>) [0..<nt_num_router n]"
  by (auto simp add: init_routers_def fresh_def intro!: nth_equalityI)

text \<open>The routers of a network under construction, connected by a loop that sets the links of the topology.\<close>

lemma connected_inv:
  assumes fr: "fresh k (ports t) m" and k: "good_noc t k" and N: "nt_num_router m = N" "N < 2 ^ 64" "good_size t N"
    and step: "\<And>ii s. ii < N \<Longrightarrow> nt_num_router s = N \<Longrightarrow> length (nt_routers s) = N \<Longrightarrow> c ii s = upd_rt ii (g ii) s"
    and link: "\<And>a junk type. a < N \<Longrightarrow> g a ((router_c k junk type (int a) (ports t))\<lparr>rt_total_router := int N\<rparr>) =
      (router_c k junk type (int a) (ports t))\<lparr>rt_total_router := int N, rt_link := net_link t N a\<rparr>"
  shows "let n = fold c [0..<N] (init_routers m) in
    net_inv t n \<and> packets n = {#} \<and> nt_num_router n = N \<and> (\<forall>v. nt_router_map n v < nt_num_router n)"
proof -
  let ?i = "init_routers m"
  define n where "n = fold c [0..<N] ?i"
  have I: "nt_num_router ?i = N" "length (nt_routers ?i) = N" "\<And>a. a < N \<Longrightarrow> nt_routers ?i ! a = (nt_routers m ! a)\<lparr>rt_total_router := int N\<rparr>"
    by (simp_all add: init_routers_fresh[OF fr] N(1))
  have n: "n = ?i\<lparr>nt_routers := map (\<lambda>a. if a < N then g a (nt_routers ?i ! a) else nt_routers ?i ! a) [0..<N]\<rparr>"
    unfolding n_def using step I(1,2) by (intro connect_fold) simp_all
  have num: "nt_num_router n = N" by (simp add: n N(1))
  have "empty_router (nt_routers n ! a) \<and> cfg_ok t (nt_num_router n) a (nt_routers n ! a) \<and> rt_num_vc (nt_routers n ! a) = KNOB_NUM_VC k"
    if "a < nt_num_router n" for a
  proof -
    have a: "a < N" using that num by simp
    from fr a N(1) obtain junk type where "nt_routers m ! a = router_c k junk type (int a) (ports t)" by (auto simp add: fresh_def)
    then have "nt_routers n ! a = (router_c k junk type (int a) (ports t))\<lparr>rt_total_router := int N, rt_link := net_link t N a\<rparr>"
      using a link[OF a] by (simp add: n I)
    then show ?thesis using k by (simp add: num empty_router_def cfg_ok_def router_c_def good_noc_def)
  qed
  from empty_net_inv[OF _ _ _ this] N(2,3) num have "net_inv t n \<and> packets n = {#}" by (simp add: n)
  moreover have "N \<noteq> 0" by (rule good_size_pos[OF N(3)])
  ultimately show ?thesis using fr N(1) num unfolding n_def[symmetric] Let_def by (simp add: n fresh_def init_routers_def)
qed

lemma ring_connect_upd:
  assumes "ii < N" "nt_num_router s = N" "length (nt_routers s) = N"
  shows "ring_connect ii s = upd_rt ii (\<lambda>rt. rt\<lparr>rt_link := (rt_link rt)(LEFT \<mapsto> (ii + N - 1) mod N, RIGHT \<mapsto> (ii + 1) mod N), rt_id := int ii\<rparr>) s"
  using assms by (simp add: ring_connect_def Let_def set_link_def upd_rt_def)

lemma mesh_connect_upd:
  assumes "ii < N" "nt_num_router s = N" "length (nt_routers s) = N"
  shows "mesh_connect w ii s = upd_rt ii (\<lambda>rt. rt\<lparr>rt_link := (\<lambda>p.
      if p = RIGHT \<and> ii mod w \<noteq> w - 1 then Some (ii + 1) else if p = LEFT \<and> ii mod w \<noteq> 0 then Some (ii - 1)
      else if p = DOWN \<and> ii div w < w - 1 then Some (ii + w) else if p = UP \<and> ii div w > 0 then Some (ii - w) else rt_link rt p)\<rparr>) s"
proof -
  let ?rt = "nt_routers s ! ii"
  have "mesh_connect w ii s = s\<lparr>nt_routers := (nt_routers s)[ii := ?rt\<lparr>rt_link := (\<lambda>p.
      if p = RIGHT \<and> ii mod w \<noteq> w - 1 then Some (ii + 1) else if p = LEFT \<and> ii mod w \<noteq> 0 then Some (ii - 1)
      else if p = DOWN \<and> ii div w < w - 1 then Some (ii + w) else if p = UP \<and> ii div w > 0 then Some (ii - w) else rt_link ?rt p)\<rparr>]\<rparr>"
    using assms by (auto simp add: mesh_connect_def Let_def set_link_def upd_rt_def fun_upd_def cong: if_cong)
  then show ?thesis by (simp add: upd_rt_def)
qed

theorem ring_init_ok:
  assumes k: "good_noc RING k" and N: "2 \<le> num_cpu + num_gpu + num_l3 + num_llc + num_mc" "num_cpu + num_gpu + num_l3 + num_llc + num_mc < 2 ^ 64"
  shows "\<exists>n. ring_init k junk num_cpu num_gpu num_l3 num_llc num_mc (network_c reqs junk') = Inr n \<and> net_inv RING n \<and> packets n = {#} \<and>
    nt_num_router n = num_cpu + num_gpu + num_l3 + num_llc + num_mc \<and> (\<forall>v. nt_router_map n v < nt_num_router n)"
proof -
  let ?mk = "\<lambda>type rid. router_c k junk type rid 3" and ?N = "num_cpu + num_gpu + num_l3 + num_llc + num_mc"
  let ?m = "create_routers ?mk num_mc 4 MEM_MC 0 (create_routers ?mk num_llc 3 MEM_LLC 0 (create_routers ?mk num_l3 2 MEM_L3 0
      (create_routers ?mk num_gpu 1 MEM_L2 (int num_cpu) (create_routers ?mk num_cpu 0 MEM_L2 0 ((network_c reqs junk')\<lparr>nt_num_router := 0\<rparr>)))))"
  have fr: "fresh k (ports RING) ?m" and num: "nt_num_router ?m = ?N"
    by (simp_all add: ports_def create_routers_fresh fresh_start)
  define m where "m = ?m"
  have M: "fresh k (ports RING) m" "nt_num_router m = ?N" using fr num by (simp_all add: m_def)
  let ?n = "fold ring_connect [0..<?N] (init_routers m)"
  have "let n = ?n in net_inv RING n \<and> packets n = {#} \<and> nt_num_router n = ?N \<and> (\<forall>v. nt_router_map n v < nt_num_router n)"
    by (rule connected_inv[OF M(1) k M(2) N(2) _ ring_connect_upd])
      (use N(1) in \<open>auto simp add: good_size_def router_c_def net_link_def\<close>)
  moreover have "ring_init k junk num_cpu num_gpu num_l3 num_llc num_mc (network_c reqs junk') = Inr ?n"
    using k N(1) M(2) unfolding ring_init_def Let_def m_def[symmetric] by (auto simp add: good_noc_def check_def)
  ultimately show ?thesis unfolding Let_def by blast
qed

theorem mesh_init_ok:
  assumes k: "good_noc MESH k" and N: "2 \<le> num_cpu + num_gpu + num_l3 + num_llc + num_mc" "num_cpu + num_gpu + num_l3 + num_llc + num_mc < 2 ^ 62"
  shows "\<exists>n. mesh_init k junk num_cpu num_gpu num_l3 num_llc num_mc (network_c reqs junk') = Inr n \<and> net_inv MESH n \<and> packets n = {#} \<and>
    num_cpu + num_gpu + num_l3 + num_llc + num_mc \<le> nt_num_router n \<and> (\<forall>v. nt_router_map n v < nt_num_router n)"
proof -
  let ?mk = "\<lambda>type rid. router_c k junk type rid 5" and ?N = "num_cpu + num_gpu + num_l3 + num_llc + num_mc"
  let ?m = "create_routers ?mk num_gpu 1 MEM_L2 (int num_cpu) (create_routers ?mk num_mc 4 MEM_MC 0 (create_routers ?mk num_llc 3 MEM_LLC 0
      (create_routers ?mk num_l3 2 MEM_L3 0 (create_routers ?mk num_cpu 0 MEM_L2 0 ((network_c reqs junk')\<lparr>nt_num_router := 0\<rparr>)))))"
  have fr: "fresh k (ports MESH) ?m" and num: "nt_num_router ?m = ?N"
    by (simp_all add: ports_def create_routers_fresh fresh_start)
  define m where "m = ?m"
  have M: "fresh k (ports MESH) m" "nt_num_router m = ?N" using fr num by (simp_all add: m_def)
  let ?v = "isqrt ?N"
  define w where "w = (if ?v * ?v \<noteq> ?N then ?v + 1 else ?v)"
  define m' where "m' = (if ?v * ?v \<noteq> ?N then fold (add_dummy ?mk) [?N..<(?v + 1) * (?v + 1)] m else m)"
  note Q = isqrt_bounds[of ?N]
  have sq: "?N \<le> w * w" "?v * ?v \<noteq> ?N \<Longrightarrow> w * w = (?v + 1) * (?v + 1)" using Q by (auto simp add: w_def)
  have M': "fresh k (ports MESH) m'" "nt_num_router m' = w * w"
    using M add_dummies_fresh[of k 5 m junk "[?N..<(?v + 1) * (?v + 1)]"] Q by (auto simp add: m'_def ports_def w_def)
  have w2: "2 \<le> w" using sq(1) N(1) by (cases "w < 2") (auto simp add: less_2_cases_iff)
  have size: "good_size MESH (w * w)" using w2 by (simp add: good_size_def)
  have small: "w * w < 2 ^ 64" using N(2) Q isqrt_small[of ?N] by (auto simp add: w_def)
  let ?n = "fold (mesh_connect w) [0..<w * w] (init_routers m')"
  have "let n = ?n in net_inv MESH n \<and> packets n = {#} \<and> nt_num_router n = w * w \<and> (\<forall>v. nt_router_map n v < nt_num_router n)"
    by (rule connected_inv[OF M'(1) k M'(2) small size mesh_connect_upd])
      (auto simp add: router_c_def net_link_def fun_eq_iff)
  moreover have pair: "(if ?v * ?v \<noteq> ?N then (?v + 1, fold (add_dummy ?mk) [?N..<(?v + 1) * (?v + 1)] m) else (?v, m)) = (w, m')"
    by (simp add: w_def m'_def)
  have "mesh_init k junk num_cpu num_gpu num_l3 num_llc num_mc (network_c reqs junk') = Inr ?n"
    unfolding mesh_init_def Let_def m_def[symmetric] M(2) pair prod.case init_routers_num M'(2)
    using k N(1) w2 by (simp add: good_noc_def check_def)
  ultimately show ?thesis using sq(1) unfolding Let_def by auto
qed

end
