(* ===== verification/NetRun.thy ===== *)
theory NetRun
  imports NetInit
begin

text \<open>
  The network as its clients see it: the memory system sends requests, polls the routers and runs cycles. The
  reachable networks keep the invariant, so a request that was sent is either still in the network or has been
  received, once, at the router it was sent to.
\<close>

section \<open>Runs\<close>

text \<open>No flit of a request is in the network and no buffer holds it.\<close>

definition absent :: "addr \<Rightarrow> net \<Rightarrow> bool" where
  "absent req n \<longleftrightarrow> req \<notin># packets n \<and>
     (\<forall>rt\<in>set (nt_routers n). \<forall>q v. \<forall>f\<in>set (rt_input rt q v) \<union> set (rt_output rt q v). fl_req f \<noteq> req)"

text \<open>\<open>net_run t k n0 sent received n\<close>: the network \<open>n\<close> is reached from \<open>n0\<close>, with the requests that were
  accepted and those that were taken out. A client sends a request that is not in the network.\<close>

inductive net_run :: "topology \<Rightarrow> noc_knobs \<Rightarrow> net \<Rightarrow> addr multiset \<Rightarrow> addr multiset \<Rightarrow> net \<Rightarrow> bool" for t k n0 where
  start: "net_run t k n0 {#} {#} n0"
| cycle: "net_run t k n0 sent received n \<Longrightarrow> network_run_a_cycle t k c pll_lock n = Inr n' \<Longrightarrow> net_run t k n0 sent received n'"
| send: "net_run t k n0 sent received n \<Longrightarrow> absent req n \<Longrightarrow> network_send req src_level src_id dst_level dst_id n = Inr (accepted, n') \<Longrightarrow>
    net_run t k n0 (if accepted then add_mset req sent else sent) received n'"
| receive: "net_run t k n0 sent received n \<Longrightarrow> network_receive level i n = Inr (Some req) \<Longrightarrow> network_receive_pop level i n = Inr n' \<Longrightarrow>
    net_run t k n0 sent (add_mset req received) n'"

text \<open>The request record of a request that is not in the network may change.\<close>

lemma rt_packets_mem:
  "a \<in> set (rt_injection_buffer rt) \<or> a \<in> set (rt_req_buffer rt) \<Longrightarrow> a \<in># rt_packets rt"
  by (auto simp add: rt_packets_def)

lemma packets_mem: "rt \<in> set (nt_routers n) \<Longrightarrow> a \<in># rt_packets rt \<Longrightarrow> a \<in># packets n"
  by (auto simp add: packets_def set_mset_sum_list)

lemma absent_reqs:
  assumes inv: "net_inv_with t n F" and abs: "absent req n" and r: "r < nt_num_router n"
    and reqs: "\<And>a. a \<noteq> req \<Longrightarrow> mr_msg_dst (reqs' a) = mr_msg_dst (nt_reqs n a)"
  shows "rt_ok t (nt_num_router n) reqs' r (F r) (arrive t (nt_num_router n) F r) (nt_routers n ! r)"
proof -
  let ?rt = "nt_routers n ! r" and ?N = "nt_num_router n"
  note ok = net_invD(4)[OF inv r] and R = reqs_okD[OF rt_okD(6)[OF net_invD(4)[OF inv r]]]
  have mem: "?rt \<in> set (nt_routers n)" using r net_invD(1)[OF inv] by simp
  have fl: "fl_req f \<noteq> req" if "f \<in> set (rt_input ?rt q v) \<or> f \<in> set (rt_output ?rt q v)" for f q v
    using abs mem that unfolding absent_def by blast
  have buf: "a \<noteq> req" if "a \<in> set (rt_injection_buffer ?rt) \<or> a \<in> set (rt_req_buffer ?rt)" for a
    using abs packets_mem[OF mem rt_packets_mem[OF that]] by (auto simp add: absent_def)
  have "reqs_ok ?N reqs' r ?rt"
  proof (rule reqs_okI)
    show "flit_ok ?N reqs' f" if "f \<in> set (rt_input ?rt q v)" for q v f
      using R(1)[OF that] reqs[OF fl, of f q v] that by (simp add: flit_ok_def)
    show "flit_ok ?N reqs' f" if "f \<in> set (rt_output ?rt q v)" for q v f
      using R(2)[OF that] reqs[OF fl, of f q v] that by (simp add: flit_ok_def)
  qed (use R(3,4) buf reqs in auto)
  then show ?thesis using ok by (simp add: rt_ok_def)
qed

lemma packets_reqs: "packets (n\<lparr>nt_reqs := q\<rparr>) = packets n"
  by (simp add: packets_def)

context noc_topology
begin

lemma send_keeps:
  assumes inv: "net_inv t n" and map: "\<And>v. nt_router_map n v < nt_num_router n" and abs: "absent req n"
  shows "\<exists>b n'. network_send req sl si dl di n = Inr (b, n') \<and> net_inv t n' \<and> nt_num_router n' = nt_num_router n \<and> nt_router_map n' = nt_router_map n \<and>
    packets n' = (if b then add_mset req (packets n) else packets n)"
proof -
  from inv obtain F where F: "net_inv_with t n F" by (auto simp add: net_inv_def)
  note I = net_invD[OF F]
  let ?N = "nt_num_router n" and ?src = "nt_router_map n (mem_level sl * 1000 + si)" and ?dst = "nt_router_map n (mem_level dl * 1000 + di)"
  define reqs where "reqs = (nt_reqs n)(req := (nt_reqs n req)\<lparr>mr_msg_src := int ?src, mr_msg_dst := int ?dst\<rparr>)"
  let ?m = "n\<lparr>nt_reqs := reqs\<rparr>" and ?rt = "nt_routers n ! ?src"
  have reqs: "mr_msg_dst (reqs req) = int ?dst" by (simp add: reqs_def)
  have ok: "rt_ok t ?N reqs a (F a) (arrive t ?N F a) (nt_routers n ! a)" if "a < ?N" for a
    by (rule absent_reqs[OF F abs that]) (simp add: reqs_def)
  have 1: "net_inv t ?m" using I ok unfolding net_inv_def net_inv_with_def Let_def by (intro exI[of _ F]) simp
  let ?rt' = "?rt\<lparr>rt_injection_buffer := rt_injection_buffer ?rt @ [req]\<rparr>"
  let ?n' = "upd_rt ?src (\<lambda>rt. rt\<lparr>rt_injection_buffer := rt_injection_buffer rt @ [req]\<rparr>) ?m"
  have "reqs_ok ?N reqs ?src ?rt'" using rt_okD(6)[OF ok[OF map]] reqs map by (auto simp add: reqs_ok_def)
  then have okr: "rt_ok t ?N reqs ?src (F ?src) (arrive t ?N F ?src) ?rt'"
    using rt_okD(4)[OF ok[OF map]]
    by (intro rt_ok_outside[OF ok[OF map], where a = "rt_injection_buffer ?rt @ [req]" and b = "rt_req_buffer ?rt" and c = "rt_pending_credit ?rt"]) simp_all
  have nth: "nt_routers ?n' ! a = (if a = ?src then ?rt' else nt_routers n ! a)" if "a < ?N" for a
    using that map I(1) by (simp add: upd_rt_def)
  have "links_ok t ?N (\<lambda>a. nt_routers ?n' ! a)"
    by (rule credits_stay[OF I(3,5)]) (simp_all add: nth pending_def)
  moreover have "rt_ok t ?N reqs a (F a) (arrive t ?N F a) (nt_routers ?n' ! a)" if "a < ?N" for a
    using okr ok[OF that] that by (simp add: nth)
  ultimately have "net_inv_with t ?n' F" using I by (simp add: net_inv_with_def Let_def upd_rt_def)
  then have 2: "net_inv t ?n'" unfolding net_inv_def by blast
  have "packets ?n' + rt_packets ?rt = packets n + rt_packets ?rt'"
    by (rule packets_upd) (use map I(1) in \<open>simp_all add: upd_rt_def\<close>)
  moreover have "rt_packets ?rt' = add_mset req (rt_packets ?rt)" by (simp add: rt_packets_def)
  ultimately have 3: "packets ?n' = add_mset req (packets n)" by simp
  show ?thesis
  proof (cases "length (rt_injection_buffer ?rt) < rt_injection_buffer_max_size ?rt")
    case True
    then have "network_send req sl si dl di n = Inr (True, ?n')"
      using map I(1) by (simp add: network_send_def Let_def inject_packet_def arr_get_def reqs_def)
    moreover have "nt_num_router ?n' = ?N" "nt_router_map ?n' = nt_router_map n" by (simp_all add: upd_rt_def)
    ultimately show ?thesis using 2 3 by (intro exI[of _ True] exI[of _ ?n']) (simp only: if_True simp_thms)
  next
    case False
    then have "network_send req sl si dl di n = Inr (False, ?m)"
      using map I(1) by (simp add: network_send_def Let_def inject_packet_def arr_get_def reqs_def)
    then show ?thesis using 1 by (intro exI[of _ False] exI[of _ ?m]) (simp add: packets_reqs)
  qed
qed

lemma receive_keeps:
  assumes inv: "net_inv t n" and map: "\<And>v. nt_router_map n v < nt_num_router n" and rec: "network_receive level i n = Inr (Some req)"
  shows "\<exists>n'. network_receive_pop level i n = Inr n' \<and> net_inv t n' \<and> nt_num_router n' = nt_num_router n \<and> nt_router_map n' = nt_router_map n \<and>
    packets n = add_mset req (packets n') \<and> mr_msg_dst (nt_reqs n req) = int (nt_router_map n (mem_level level * 1000 + i))"
proof -
  from inv obtain F where F: "net_inv_with t n F" by (auto simp add: net_inv_def)
  note I = net_invD[OF F]
  let ?N = "nt_num_router n" and ?r = "nt_router_map n (mem_level level * 1000 + i)"
  let ?rt = "nt_routers n ! ?r"
  note ok = I(4)[OF map]
  from rec obtain rest where buf: "rt_req_buffer ?rt = req # rest"
    using map I(1) by (auto simp add: network_receive_def arr_get_def split: list.splits)
  let ?rt' = "?rt\<lparr>rt_req_buffer := rest\<rparr>" and ?n' = "upd_rt ?r (\<lambda>rt. rt\<lparr>rt_req_buffer := tl (rt_req_buffer rt)\<rparr>) n"
  have upd: "nt_routers ?n' = (nt_routers n)[?r := ?rt']" by (simp add: upd_rt_def buf)
  have "reqs_ok ?N (nt_reqs n) ?r ?rt'" using rt_okD(6)[OF ok] by (auto simp add: reqs_ok_def buf)
  then have okr: "rt_ok t ?N (nt_reqs n) ?r (F ?r) (arrive t ?N F ?r) ?rt'"
    using rt_okD(4)[OF ok]
    by (intro rt_ok_outside[OF ok, where a = "rt_injection_buffer ?rt" and b = rest and c = "rt_pending_credit ?rt"]) simp_all
  have nth: "nt_routers ?n' ! a = (if a = ?r then ?rt' else nt_routers n ! a)" if "a < ?N" for a
    using that map I(1) by (simp add: upd)
  have "links_ok t ?N (\<lambda>a. nt_routers ?n' ! a)"
    by (rule credits_stay[OF I(3,5)]) (simp_all add: nth pending_def)
  moreover have "rt_ok t ?N (nt_reqs n) a (F a) (arrive t ?N F a) (nt_routers ?n' ! a)" if "a < ?N" for a
    using okr I(4)[OF that] that by (simp add: nth)
  ultimately have "net_inv_with t ?n' F" using I by (simp add: net_inv_with_def Let_def upd_rt_def)
  then have 1: "net_inv t ?n'" unfolding net_inv_def by blast
  have "packets ?n' + rt_packets ?rt = packets n + rt_packets ?rt'" by (rule packets_upd[OF upd]) (use map I(1) in simp)
  moreover have "rt_packets ?rt = add_mset req (rt_packets ?rt')" by (simp add: rt_packets_def buf)
  ultimately have 2: "packets n = add_mset req (packets ?n')" by simp
  have "network_receive_pop level i n = Inr ?n'" using map I(1) buf by (simp add: network_receive_pop_def Let_def arr_get_def)
  moreover have "mr_msg_dst (nt_reqs n req) = int ?r" using reqs_okD(4)[OF rt_okD(6)[OF ok], of req] buf by simp
  moreover have "nt_num_router ?n' = ?N" "nt_router_map ?n' = nt_router_map n" by (simp_all add: upd_rt_def)
  ultimately show ?thesis using 1 2 by blast
qed

lemma net_run_inv:
  assumes "net_run t k n0 sent received n" "\<not> KNOB_IDEAL_NOC k"
    "net_inv t n0" "packets n0 = {#}" "\<forall>v. nt_router_map n0 v < nt_num_router n0"
  shows "net_inv t n \<and> packets n + received = sent \<and> nt_num_router n = nt_num_router n0 \<and> nt_router_map n = nt_router_map n0"
  using assms(1)
proof induction
  case start
  then show ?case using assms by simp
next
  case (cycle sent received n c pll_lock n')
  then show ?case using network_run_a_cycle_spec[OF _ assms(2), of n c pll_lock] by (auto simp add: net_keeps_def same_net_def)
next
  case (send sent received n req sl si dl di b n')
  then show ?case using send_keeps[of n req sl si dl di] assms(5) by auto
next
  case (receive sent received n level i req n')
  then show ?case using receive_keeps[of n level i req] assms(5) by auto
qed

end

section \<open>Safety of the ring and the mesh\<close>

definition noc_init :: "topology \<Rightarrow> noc_knobs \<Rightarrow> Counter \<Rightarrow> nat \<Rightarrow> nat \<Rightarrow> nat \<Rightarrow> nat \<Rightarrow> nat \<Rightarrow> net \<Rightarrow> net res" where
  "noc_init t = (case t of RING \<Rightarrow> ring_init | MESH \<Rightarrow> mesh_init)"

lemma noc_init_ok:
  assumes "good_noc t k" "2 \<le> num_cpu + num_gpu + num_l3 + num_llc + num_mc" "num_cpu + num_gpu + num_l3 + num_llc + num_mc < 2 ^ 62"
    "noc_init t k junk num_cpu num_gpu num_l3 num_llc num_mc (network_c reqs junk') = Inr n0"
  shows "net_inv t n0" "packets n0 = {#}" "\<forall>v. nt_router_map n0 v < nt_num_router n0"
  using ring_init_ok[of k num_cpu num_gpu num_l3 num_llc num_mc junk reqs junk'] mesh_init_ok[of k num_cpu num_gpu num_l3 num_llc num_mc junk reqs junk'] assms
  by (cases t; auto simp add: noc_init_def)+

lemma net_run_spec:
  assumes "net_run t k n0 sent received n" "\<not> KNOB_IDEAL_NOC k" "net_inv t n0" "packets n0 = {#}" "\<forall>v. nt_router_map n0 v < nt_num_router n0"
  shows "net_inv t n" "packets n + received = sent" "nt_num_router n = nt_num_router n0" "nt_router_map n = nt_router_map n0"
    "\<exists>n'. network_run_a_cycle t k c pll_lock n = Inr n'"
    "network_receive level i n = Inr (Some req) \<Longrightarrow> mr_msg_dst (nt_reqs n req) = int (nt_router_map n (mem_level level * 1000 + i))"
proof -
  have run: "net_inv t n \<and> packets n + received = sent \<and> nt_num_router n = nt_num_router n0 \<and> nt_router_map n = nt_router_map n0"
  proof (cases t)
    case RING
    then show ?thesis using ring.net_run_inv assms by blast
  next
    case MESH
    then show ?thesis using mesh.net_run_inv assms by blast
  qed
  then show inv: "net_inv t n" and "packets n + received = sent" "nt_num_router n = nt_num_router n0" "nt_router_map n = nt_router_map n0" by simp_all
  show "\<exists>n'. network_run_a_cycle t k c pll_lock n = Inr n'"
    using inv ring.network_run_a_cycle_spec[of n k c pll_lock] mesh.network_run_a_cycle_spec[of n k c pll_lock] assms(2) by (cases t) auto
  show "mr_msg_dst (nt_reqs n req) = int (nt_router_map n (mem_level level * 1000 + i))" if "network_receive level i n = Inr (Some req)"
    using inv ring.receive_keeps[of n level i req] mesh.receive_keeps[of n level i req] that run assms(5) by (cases t) auto
qed

lemma input_bound:
  assumes "net_inv t n" "r < nt_num_router n" "q < ports t" "v < rt_num_vc (nt_routers n ! r)"
  shows "length (rt_input (nt_routers n ! r) q v) \<le> 10"
proof -
  from assms(1) obtain F where F: "net_inv_with t n F" by (auto simp add: net_inv_def)
  have "rt_num_port (nt_routers n ! r) = ports t" using rt_okD(1)[OF net_invD(4)[OF F assms(2)]] by (simp add: cfg_ok_def)
  then show ?thesis using rt_okD(2)[OF net_invD(4)[OF F assms(2)]] assms(3,4) by (simp add: in_ok_def)
qed

text \<open>C1. The ring and the mesh, from the network that \<^verbatim>\<open>init\<close> builds and through any sequence of sends,
  receives and cycles (credit-based wormhole routing, not the ideal mode): the next cycle raises no error (no
  assertion, no access outside an array, no missing link), every request accepted is either still in the network
  or was received, exactly once, no input buffer ever holds more than its ten flits, and a request is
  only handed over at the router it was addressed to.\<close>

theorem noc_run_safe:
  assumes k: "good_noc t k" "\<not> KNOB_IDEAL_NOC k"
    and size: "2 \<le> num_cpu + num_gpu + num_l3 + num_llc + num_mc" "num_cpu + num_gpu + num_l3 + num_llc + num_mc < 2 ^ 62"
    and init: "noc_init t k junk num_cpu num_gpu num_l3 num_llc num_mc (network_c reqs junk') = Inr n0"
    and run: "net_run t k n0 sent received n"
  shows "(\<exists>n'. network_run_a_cycle t k c pll_lock n = Inr n') \<and> packets n + received = sent \<and>
    (\<forall>r<nt_num_router n. \<forall>q<ports t. \<forall>v<rt_num_vc (nt_routers n ! r). length (rt_input (nt_routers n ! r) q v) \<le> 10) \<and>
    (\<forall>level i req. network_receive level i n = Inr (Some req) \<longrightarrow> mr_msg_dst (nt_reqs n req) = int (nt_router_map n (mem_level level * 1000 + i)))"
proof -
  note S = net_run_spec[OF run k(2) noc_init_ok[OF k(1) size init]]
  show ?thesis using S(2,5,6) input_bound[OF S(1)] by blast
qed

definition wit_knobs :: noc_knobs where
  "wit_knobs = \<lparr>KNOB_NUM_VC = 4, KNOB_LINK_LATENCY = 1, KNOB_ARBITRATION_POLICY = OLDEST_FIRST, KNOB_LINK_WIDTH = 32,
     KNOB_IDEAL_NOC = False, KNOB_IDEAL_NOC_LATENCY = 5, KNOB_NOC_DIMENSION = 1\<rparr>"

lemma wit_send:
  assumes "ring_init wit_knobs 0 1 0 0 0 1 (network_c reqs 0) = Inr n0"
  shows "\<exists>n. network_send 5 MEM_L2 0 MEM_MC 0 n0 = Inr (True, n)" "\<forall>rt\<in>set (nt_routers n0). rt_input rt = (\<lambda>_ _. []) \<and> rt_output rt = (\<lambda>_ _. [])"
  using assms
  by (auto simp add: ring_init_def wit_knobs_def create_routers_def create_one_def mem_level_def init_routers_def network_c_def ring_connect_def
      set_link_def upd_rt_def Let_def router_c_def network_send_def inject_packet_def arr_get_def)

theorem noc_run_safe_witness:
  "\<exists>n0 n. noc_init RING wit_knobs 0 1 0 0 0 1 (network_c (\<lambda>_. clear_req) 0) = Inr n0 \<and> net_run RING wit_knobs n0 {#5#} {#} n \<and>
    (\<exists>n'. network_run_a_cycle RING wit_knobs 0 False n = Inr n') \<and> packets n = {#5#}"
proof -
  let ?reqs = "\<lambda>_::addr. clear_req"
  have k: "good_noc RING wit_knobs" "\<not> KNOB_IDEAL_NOC wit_knobs" by (simp_all add: good_noc_def wit_knobs_def)
  from ring_init_ok[OF k(1), of 1 0 0 0 1 0 ?reqs 0] obtain n0 where n0: "ring_init wit_knobs 0 1 0 0 0 1 (network_c ?reqs 0) = Inr n0"
    "packets n0 = {#}" "net_inv RING n0" by auto
  from wit_send(1)[OF n0(1)] obtain n where n: "network_send 5 MEM_L2 0 MEM_MC 0 n0 = Inr (True, n)" by blast
  have "absent 5 n0" using n0(2) wit_send(2)[OF n0(1)] by (auto simp add: absent_def)
  from net_run.send[OF net_run.start this n] have run: "net_run RING wit_knobs n0 {#5#} {#} n" by simp
  have init: "noc_init RING wit_knobs 0 1 0 0 0 1 (network_c ?reqs 0) = Inr n0" using n0 by (simp add: noc_init_def)
  from noc_run_safe[OF k _ _ init run, of 0 False] init run show ?thesis by auto
qed

end
