(* ===== verification/NetRoute.thy ===== *)
theory NetRoute
  imports NetInit
begin

text \<open>
  The routes of the ring and of the mesh, the mesh with a single virtual channel, and the simple network.
\<close>

section \<open>Ring\<close>

text \<open>The router that a packet reaches after \<open>j\<close> hops in one direction.\<close>

fun ring_walk :: "nat \<Rightarrow> nat \<Rightarrow> nat \<Rightarrow> nat \<Rightarrow> nat option" where
  "ring_walk N d 0 r = Some r"
| "ring_walk N d (Suc j) r = (case net_link RING N r d of None \<Rightarrow> None | Some r' \<Rightarrow> ring_walk N d j r')"

lemma ring_walk_right: "0 < N \<Longrightarrow> r < N \<Longrightarrow> ring_walk N RIGHT j r = Some ((r + j) mod N)"
proof (induction j arbitrary: r)
  case (Suc j)
  then show ?case using Suc.IH[of "(r + 1) mod N"] by (simp add: net_link_def mod_simps)
qed simp

lemma ring_walk_left: "0 < N \<Longrightarrow> r < N \<Longrightarrow> j \<le> N \<Longrightarrow> ring_walk N LEFT j r = Some ((r + N - j) mod N)"
proof (induction j arbitrary: r)
  case (Suc j)
  have "((r + N - 1) mod N + N - j) mod N = (r + N - Suc j) mod N"
  proof (cases "r = 0")
    case True
    then have "(r + N - 1) mod N + N - j = (N - Suc j) + N" "r + N - Suc j = N - Suc j" using Suc.prems by simp_all
    then show ?thesis by simp
  next
    case False
    then have "(r + N - 1) mod N = r - 1" using Suc.prems by (simp add: mod_if)
    then show ?thesis using False by simp
  qed
  then show ?case using Suc.IH[of "(r + N - 1) mod N"] Suc.prems by (simp add: net_link_def)
qed simp

lemma mod_wrap: "x < 2 * N \<Longrightarrow> x mod N = (if x < N then x else x - N)" for x N :: nat
  by (simp add: le_mod_geq)

lemma ring_distance:
  fixes a b N :: nat
  assumes "a < N" "b < N" "a \<noteq> b"
  shows "(b + N - a) mod N = (if a < b then b - a else b + N - a)" "(a + N - b) mod N = (if b < a then a - b else a + N - b)"
  using assms mod_wrap[of "b + N - a" N] mod_wrap[of "a + N - b" N] by (simp_all split: if_splits)

text \<open>C26. Ring routing: at the source the packet takes the direction in which its destination is nearer, and after
  that number of hops, at most half the ring, it is at the destination for the first time.\<close>

theorem ring_route_shortest:
  assumes N: "a < N" "b < N" "a \<noteq> b"
  shows "let d = ring_dir (int N) (int a) (int b); h = min ((b + N - a) mod N) ((a + N - b) mod N) in
    ring_walk N d h a = Some b \<and> (\<forall>j<h. ring_walk N d j a \<noteq> Some b) \<and> 2 * h \<le> N"
proof -
  note D = ring_distance[OF N]
  have N0: "0 < N" using N by simp
  show ?thesis
  proof (cases "(a + N - b) mod N < (b + N - a) mod N")
    case True
    then have dir: "ring_dir (int N) (int a) (int b) = LEFT" using N by (auto simp add: ring_dir_def D split: if_splits)
    let ?h = "(a + N - b) mod N"
    have h: "min ((b + N - a) mod N) ?h = ?h" "?h < N" using True N0 by simp_all
    have w: "ring_walk N LEFT j a = Some (if j \<le> a then a - j else a + N - j)" if "j \<le> ?h" for j
      using ring_walk_left[OF N0 N(1), of j] mod_wrap[of "a + N - j" N] that h(2) N(1) by (auto split: if_splits)
    have "ring_walk N LEFT ?h a = Some b" using w[of ?h] N by (auto simp add: D split: if_splits)
    moreover have "ring_walk N LEFT j a \<noteq> Some b" if "j < ?h" for j using w[of j] that N by (auto simp add: D split: if_splits)
    moreover have "2 * ?h \<le> N" using True N by (auto simp add: D split: if_splits)
    ultimately show ?thesis by (simp add: dir h(1) Let_def)
  next
    case False
    then have dir: "ring_dir (int N) (int a) (int b) = RIGHT" using N by (auto simp add: ring_dir_def D split: if_splits)
    let ?h = "(b + N - a) mod N"
    have h: "min ?h ((a + N - b) mod N) = ?h" "?h < N" using False N0 by simp_all
    have w: "ring_walk N RIGHT j a = Some (if a + j < N then a + j else a + j - N)" if "j \<le> ?h" for j
      using ring_walk_right[OF N0 N(1), of j] mod_wrap[of "a + j" N] that h(2) N(1) by (auto split: if_splits)
    have "ring_walk N RIGHT ?h a = Some b" using w[of ?h] N by (auto simp add: D split: if_splits)
    moreover have "ring_walk N RIGHT j a \<noteq> Some b" if "j < ?h" for j using w[of j] that N by (auto simp add: D split: if_splits)
    moreover have "2 * ?h \<le> N" using False N by (auto simp add: D split: if_splits)
    ultimately show ?thesis by (simp add: dir h(1) Let_def)
  qed
qed

theorem ring_route_shortest_witness: "ring_dir 5 1 4 = LEFT \<and> ring_walk 5 LEFT 2 1 = Some 4"
  using ring_route_shortest[of 1 5 4] by (simp add: ring_dir_def)

section \<open>Mesh\<close>

definition mesh_dist :: "int \<Rightarrow> int \<Rightarrow> int \<Rightarrow> int" where
  "mesh_dist w a b = \<bar>a mod w - b mod w\<bar> + \<bar>a div w - b div w\<bar>"

lemma mesh_step:
  assumes "2 \<le> w" "a < w * w" "net_link MESH (w * w) a p = Some r"
  shows "int r mod int w = int a mod int w + (if p = RIGHT then 1 else if p = LEFT then -1 else 0)"
    "int r div int w = int a div int w + (if p = DOWN then 1 else if p = UP then -1 else 0)"
proof -
  have w0: "0 < w" using assms(1) by simp
  have "r mod w = (if p = RIGHT then a mod w + 1 else if p = LEFT then a mod w - 1 else a mod w) \<and> (p = LEFT \<longrightarrow> 0 < a mod w) \<and>
      r div w = (if p = DOWN then a div w + 1 else if p = UP then a div w - 1 else a div w) \<and> (p = UP \<longrightarrow> 0 < a div w)"
  proof -
    consider (up) "p = UP" "a div w > 0" "r = a - w" | (down) "p = DOWN" "r = a + w"
      | (left) "p = LEFT" "a mod w \<noteq> 0" "r = a - 1" | (right) "p = RIGHT" "a mod w \<noteq> w - 1" "r = a + 1"
      using assms(3) by (auto simp add: net_link_def Let_def split: if_splits)
    then show ?thesis
    proof cases
      case up
      have "w \<le> a" using up(2) by (metis div_less leI less_irrefl_nat)
      then show ?thesis using up w0 by (simp add: le_div_geq le_mod_geq)
    next
      case down
      then show ?thesis using w0 by (simp add: div_add_self2)
    next
      case left
      obtain s where s: "a = Suc s" using left(2) by (cases a) simp_all
      have "Suc (s mod w) \<noteq> w" using left(2) s by (auto simp add: mod_Suc)
      then show ?thesis using left s by (simp add: mod_Suc div_Suc)
    next
      case right
      have "a mod w < w" using w0 by simp
      then show ?thesis using right by (auto simp add: mod_Suc div_Suc)
    qed
  qed
  then show "int r mod int w = int a mod int w + (if p = RIGHT then 1 else if p = LEFT then -1 else 0)"
    "int r div int w = int a div int w + (if p = DOWN then 1 else if p = UP then -1 else 0)"
    by (auto simp add: zmod_int[symmetric] zdiv_int[symmetric] of_nat_diff split: if_splits)
qed

lemma div_mod_differ:
  assumes "0 < (w :: nat)" "a \<noteq> b"
  shows "int a mod int w \<noteq> int b mod int w \<or> int a div int w \<noteq> int b div int w"
  using assms by (metis div_mult_mod_eq of_nat_eq_iff)

lemma mesh_dirs_cases:
  assumes "mesh_dirs w a b row p"
  shows "a = b \<or> (p = LEFT \<and> b mod w < a mod w) \<or> (p = RIGHT \<and> a mod w < b mod w) \<or> (p = UP \<and> b div w < a div w) \<or> (p = DOWN \<and> a div w < b div w)"
  using assms by (simp add: mesh_dirs_def Let_def split: if_splits)

lemma mesh_dirs_exists:
  assumes "a \<noteq> b" "a mod w \<noteq> b mod w \<or> a div w \<noteq> b div w"
  shows "\<exists>p. mesh_dirs w a b row p"
proof -
  let ?p = "if a mod w < b mod w then RIGHT else if b mod w < a mod w then LEFT else if a div w < b div w then DOWN else UP"
  have "mesh_dirs w a b row ?p" using assms by (auto simp add: mesh_dirs_def Let_def)
  then show ?thesis by blast
qed

lemma nearer:
  assumes "(p = LEFT \<and> b mod w < a mod w) \<or> (p = RIGHT \<and> a mod w < b mod w) \<or> (p = UP \<and> b div w < a div w) \<or> (p = DOWN \<and> a div w < b div w)"
    "r mod w = a mod w + (if p = RIGHT then 1 else if p = LEFT then -1 else 0)" "r div w = a div w + (if p = DOWN then 1 else if p = UP then -1 else 0)"
  shows "mesh_dist w r b + 1 = mesh_dist w a b"
proof -
  have dx: "\<bar>x + 1 - y\<bar> + 1 = \<bar>x - y\<bar>" if "x < y" for x y :: int using that by linarith
  have dy: "\<bar>x - 1 - y\<bar> + 1 = \<bar>x - y\<bar>" if "y < x" for x y :: int using that by linarith
  show ?thesis using assms dx[of "a mod w" "b mod w"] dx[of "a div w" "b div w"] dy[of "b mod w" "a mod w"] dy[of "b div w" "a div w"]
    unfolding mesh_dist_def by (elim disjE conjE) simp_all
qed

text \<open>C25. Mesh routing, for the adaptive directions (row 0) and for the escape direction (row 1): at the destination
  the only direction is the local port; elsewhere there is a direction to take, every direction given leads over
  an existing link to a router one hop nearer to the destination, and the escape direction is unique.\<close>

theorem mesh_hop_closer:
  assumes w: "2 \<le> w" and ab: "a < w * w" "b < w * w"
  shows "(a = b \<longrightarrow> (\<forall>p. mesh_dirs (int w) (int a) (int b) row p \<longleftrightarrow> p = LOCAL)) \<and>
    (a \<noteq> b \<longrightarrow> (\<exists>p. mesh_dirs (int w) (int a) (int b) row p) \<and>
      (\<forall>p. mesh_dirs (int w) (int a) (int b) row p \<longrightarrow>
        (\<exists>r<w * w. net_link MESH (w * w) a p = Some r \<and> mesh_dist (int w) (int r) (int b) + 1 = mesh_dist (int w) (int a) (int b))) \<and>
      (\<forall>p p'. row \<noteq> 0 \<longrightarrow> mesh_dirs (int w) (int a) (int b) row p \<longrightarrow> mesh_dirs (int w) (int a) (int b) row p' \<longrightarrow> p = p'))"
proof (cases "a = b")
  case True
  then show ?thesis by (simp add: mesh_dirs_def Let_def)
next
  case False
  let ?D = "mesh_dirs (int w) (int a) (int b) row"
  have diff: "int a mod int w \<noteq> int b mod int w \<or> int a div int w \<noteq> int b div int w"
    by (rule div_mod_differ) (use w False in simp_all)
  have "\<exists>p. ?D p"
    by (rule mesh_dirs_exists) (use diff False in simp_all)
  moreover have "\<exists>r<w * w. net_link MESH (w * w) a p = Some r \<and> mesh_dist (int w) (int r) (int b) + 1 = mesh_dist (int w) (int a) (int b)"
    if p: "?D p" for p
  proof -
    have "int a \<noteq> int b" using False by simp
    with mesh_dirs_cases[OF p] have "p \<noteq> LOCAL" by auto
    then obtain r where r: "net_link MESH (w * w) a p = Some r"
      using mesh_legal_link[OF w _ ab(1) _ _ mesh_rows[OF p]] ab(2) by (auto simp flip: of_nat_mult)
    have "r < w * w" using mesh_link_law[OF w _ ab(1) r] by simp
    moreover have "mesh_dist (int w) (int r) (int b) + 1 = mesh_dist (int w) (int a) (int b)"
    proof (rule nearer[OF _ mesh_step[OF w ab(1) r]])
      have "int a \<noteq> int b" using False by simp
      with mesh_dirs_cases[OF p] show "(p = LEFT \<and> int b mod int w < int a mod int w) \<or> (p = RIGHT \<and> int a mod int w < int b mod int w) \<or>
          (p = UP \<and> int b div int w < int a div int w) \<or> (p = DOWN \<and> int a div int w < int b div int w)" by blast
    qed
    ultimately show ?thesis using r by blast
  qed
  moreover have "p = p'" if "row \<noteq> 0" "?D p" "?D p'" for p p'
    using that False by (auto simp add: mesh_dirs_def Let_def split: if_splits)
  ultimately show ?thesis using False by blast
qed

theorem mesh_hop_closer_witness:
  "mesh_dirs 3 0 8 1 RIGHT \<and> (\<exists>r<9. net_link MESH 9 0 RIGHT = Some r \<and> mesh_dist 3 (int r) 8 + 1 = mesh_dist 3 0 8)"
proof -
  have "mesh_dirs 3 0 8 1 RIGHT" by (simp add: mesh_dirs_def)
  then show ?thesis using mesh_hop_closer[of 3 0 8 1] by fastforce
qed

section \<open>A mesh with one virtual channel\<close>

text \<open>The routers while the network is being built: empty, with the configuration of the knobs.\<close>

definition built :: "noc_knobs \<Rightarrow> nat \<Rightarrow> net \<Rightarrow> bool" where
  "built k np n \<longleftrightarrow> length (nt_routers n) = nt_num_router n \<and> (\<forall>rt\<in>set (nt_routers n). empty_router rt \<and> rt_num_port rt = np \<and>
     rt_num_vc rt = KNOB_NUM_VC k \<and> rt_arbitration_policy rt = KNOB_ARBITRATION_POLICY k)"

lemma built_set_link: "built k np n \<Longrightarrow> built k np (set_link r d r' n)"
  by (cases "r < length (nt_routers n)")
    (auto simp add: built_def set_link_def upd_rt_def list_update_beyond empty_router_def dest!: set_update_subset_insert[THEN subsetD])

lemma built_fold: "(\<And>x n. built k np n \<Longrightarrow> built k np (f x n)) \<Longrightarrow> built k np n \<Longrightarrow> built k np (fold f xs n)"
  by (induction xs arbitrary: n) simp_all

lemma built_router_c: "empty_router (router_c k junk type rid np)"
  by (simp add: router_c_def empty_router_def)

lemma built_create: "built k np n \<Longrightarrow> built k np (create_routers (\<lambda>type rid. router_c k junk type rid np) m type level off n)"
  unfolding create_routers_def
  by (rule built_fold) (auto simp add: built_def create_one_def built_router_c, simp_all add: router_c_def)

lemma built_dummy: "built k np n \<Longrightarrow> built k np (fold (add_dummy (\<lambda>type rid. router_c k junk type rid np)) xs n)"
  by (rule built_fold) (auto simp add: built_def add_dummy_def built_router_c, simp_all add: router_c_def)

lemma built_init: "built k np n \<Longrightarrow> built k np (init_routers n)"
  by (auto simp add: built_def init_routers_def empty_router_def)

lemma built_connect: "built k np n \<Longrightarrow> built k np (mesh_connect w ii n)"
  by (simp add: mesh_connect_def Let_def built_set_link)

lemma built_start: "built k np ((network_c reqs junk)\<lparr>nt_num_router := 0\<rparr>)"
  by (simp add: built_def network_c_def)

lemma num_router_connect: "nt_num_router (fold (mesh_connect w) xs n) = nt_num_router n"
  by (induction xs arbitrary: n) (simp_all add: mesh_connect_def Let_def set_link_def upd_rt_def)

lemma mesh_init_built:
  assumes k: "KNOB_NOC_DIMENSION k = 2" "1 \<le> KNOB_NUM_VC k" and pos: "0 < num_cpu + num_gpu + num_l3 + num_llc + num_mc"
  shows "\<exists>n. mesh_init k junk num_cpu num_gpu num_l3 num_llc num_mc (network_c reqs junk') = Inr n \<and> built k 5 n \<and> nt_num_router n \<noteq> 0"
proof -
  let ?mk = "\<lambda>type rid. router_c k junk type rid 5"
  define m where "m = create_routers ?mk num_gpu 1 MEM_L2 (int num_cpu) (create_routers ?mk num_mc 4 MEM_MC 0 (create_routers ?mk num_llc 3 MEM_LLC 0
      (create_routers ?mk num_l3 2 MEM_L3 0 (create_routers ?mk num_cpu 0 MEM_L2 0 ((network_c reqs junk')\<lparr>nt_num_router := 0\<rparr>)))))"
  have m: "built k 5 m" "fresh k 5 m" "nt_num_router m \<noteq> 0"
    using pos unfolding m_def by (auto simp add: built_create built_start create_routers_fresh fresh_start)
  let ?w = "isqrt (nt_num_router m)"
  define p where "p = (if ?w * ?w \<noteq> nt_num_router m then (?w + 1, fold (add_dummy ?mk) [nt_num_router m..<(?w + 1) * (?w + 1)] m) else (?w, m))"
  have p: "built k 5 (snd p)" "nt_num_router (snd p) \<noteq> 0"
    using m built_dummy[OF m(1), of junk] add_dummies_fresh[OF m(2), of junk] by (simp_all add: p_def)
  let ?n = "fold (mesh_connect (fst p)) [0..<nt_num_router (init_routers (snd p))] (init_routers (snd p))"
  have "mesh_init k junk num_cpu num_gpu num_l3 num_llc num_mc (network_c reqs junk') = Inr ?n"
    unfolding mesh_init_def Let_def m_def[symmetric] p_def[symmetric] using k p(2) by (simp add: split_def check_def)
  moreover have "built k 5 ?n" by (intro built_fold[OF built_connect] built_init p(1))
  moreover have "nt_num_router ?n \<noteq> 0" using p(2) by (simp add: num_router_connect)
  ultimately show ?thesis by blast
qed

text \<open>Every stage before the allocation of channels leaves an empty router as it is.\<close>

lemma fold_res_idle: "(\<And>x. x \<in> set xs \<Longrightarrow> f x s = Inr s) \<Longrightarrow> fold_res f xs s = Inr s"
  by (induction xs) simp_all

lemma pick_oldest_none: "(\<And>x. x \<in> set xs \<Longrightarrow> ts x = None) \<Longrightarrow> pick_oldest ts xs t b = b"
  by (induction xs) simp_all

lemma lt_pick_empty: "rt_output rt = (\<lambda>_ _. []) \<Longrightarrow> lt_pick rt p ds = Inr None"
  by (induction ds) (simp_all add: Let_def)

lemma upd_rt_idle: "upd_rt r (\<lambda>_. nt_routers n ! r) n = n"
  by (simp add: upd_rt_def)

lemma empty_stages:
  assumes e: "empty_router (nt_routers n ! r)" and pol: "rt_arbitration_policy (nt_routers n ! r) = OLDEST_FIRST"
  shows "process_pending_credit cycle r n = Inr n" "stage_lt r n = Inr n" "stage_sa r n = Inr n" "stage_st r n = Inr n" "stage_rc t r n = Inr n"
proof -
  let ?rt = "nt_routers n ! r"
  have io: "rt_input ?rt = (\<lambda>_ _. [])" "rt_output ?rt = (\<lambda>_ _. [])" "rt_pending_credit ?rt = []" using e by (simp_all add: empty_router_def)
  have "?rt\<lparr>rt_pending_credit := []\<rparr> = ?rt" using io(3) by (cases ?rt) simp
  then show "process_pending_credit cycle r n = Inr n" by (simp only: process_pending_credit_def io(3) upd_rt_idle Let_def fold_res.simps res_bind_simps)
  show "stage_lt r n = Inr n" unfolding stage_lt_def by (rule fold_res_idle) (simp add: lt_port_def Let_def lt_pick_empty[OF io(2)])
  have "sa_port op ?rt = Inr ?rt" for op
    using pol by (simp add: sa_port_def stage_sa_pick_winner_def pick_oldest_none sa_candidate_def io split_def)
  then have "fold_res sa_port [0..<rt_num_port ?rt] ?rt = Inr ?rt" by (intro fold_res_idle)
  then show "stage_sa r n = Inr n" by (simp add: stage_sa_def at_router_def upd_rt_idle)
  have "st_find ?rt op = None" for op
    using st_find_spec[of ?rt op] by (cases "st_find ?rt op") (auto simp add: st_candidate_def io)
  then show "stage_st r n = Inr n" unfolding stage_st_def by (intro fold_res_idle) (simp add: st_port_def Let_def)
  have "fold_res (rc_vc t) (all_vcs ?rt) ?rt = Inr ?rt"
    by (rule fold_res_idle) (auto simp add: rc_vc_def ring_rc_vc_def mesh_rc_vc_def io split: topology.split)
  then show "stage_rc t r n = Inr n" by (simp add: stage_rc_def at_router_def upd_rt_idle)
qed

text \<open>A mesh with \<^verbatim>\<open>KNOB_NUM_VC = 1\<close> passes the assertion \<^verbatim>\<open>m_num_vc >= 1\<close> of its routers and is
  built, but its first cycle divides by \<^verbatim>\<open>m_num_vc - 1\<close>, that is by zero.\<close>

theorem mesh_one_vc_divides_by_zero:
  assumes k: "KNOB_NUM_VC k = 1" "KNOB_NOC_DIMENSION k = 2" "KNOB_ARBITRATION_POLICY k = OLDEST_FIRST" "\<not> KNOB_IDEAL_NOC k"
    and pos: "0 < num_cpu + num_gpu + num_l3 + num_llc + num_mc"
  shows "\<exists>n. mesh_init k junk num_cpu num_gpu num_l3 num_llc num_mc (network_c reqs junk') = Inr n \<and>
    network_run_a_cycle MESH k c False n = Inl DivideByZero"
proof -
  have "1 \<le> KNOB_NUM_VC k" using k(1) by simp
  from mesh_init_built[OF k(2) this pos] obtain n where
    n: "mesh_init k junk num_cpu num_gpu num_l3 num_llc num_mc (network_c reqs junk') = Inr n" and B: "built k 5 n" "nt_num_router n \<noteq> 0" by blast
  let ?N = "nt_num_router n" and ?i = "unat (c mod of_nat (nt_num_router n))"
  let ?r = "?i mod ?N"
  let ?rt = "nt_routers n ! ?r"
  have "?rt \<in> set (nt_routers n)" using B by (simp add: built_def)
  then have rt: "empty_router ?rt" "rt_num_port ?rt = 5" "rt_num_vc ?rt = 1" "rt_arbitration_policy ?rt = OLDEST_FIRST"
    using B(1) k by (auto simp add: built_def)
  have "all_vcs ?rt = (0, 0) # [(1, 0), (2, 0), (3, 0), (4, 0)]" by (simp add: all_vcs_def rt upt_conv_Cons numeral_eq_Suc)
  moreover have "vca_vc MESH (0, 0) ?rt = Inl DivideByZero" using rt by (simp add: vca_vc_def stage_vca_pick_winner_def empty_router_def)
  ultimately have "stage_vca MESH k ?r n = Inl DivideByZero" using k by (simp add: stage_vca_def at_router_def Let_def)
  then have "router_run_a_cycle MESH k c False ?r n = Inl DivideByZero"
    using k by (simp add: router_run_a_cycle_def empty_stages[OF rt(1,4)])
  moreover have "[?i..<?i + ?N] = ?i # [Suc ?i..<?i + ?N]" using B(2) by (simp add: upt_conv_Cons)
  ultimately have "network_run_a_cycle MESH k c False n = Inl DivideByZero" using B(2) by (simp add: network_run_a_cycle_def)
  then show ?thesis using n by blast
qed

theorem mesh_one_vc_divides_by_zero_witness:
  "\<exists>n. mesh_init \<lparr>KNOB_NUM_VC = 1, KNOB_LINK_LATENCY = 1, KNOB_ARBITRATION_POLICY = OLDEST_FIRST, KNOB_LINK_WIDTH = 32,
       KNOB_IDEAL_NOC = False, KNOB_IDEAL_NOC_LATENCY = 5, KNOB_NOC_DIMENSION = 2\<rparr> 0 2 0 0 1 1 (network_c (\<lambda>_. clear_req) 0) = Inr n \<and>
     network_run_a_cycle MESH \<lparr>KNOB_NUM_VC = 1, KNOB_LINK_LATENCY = 1, KNOB_ARBITRATION_POLICY = OLDEST_FIRST, KNOB_LINK_WIDTH = 32,
       KNOB_IDEAL_NOC = False, KNOB_IDEAL_NOC_LATENCY = 5, KNOB_NOC_DIMENSION = 2\<rparr> 7 False n = Inl DivideByZero"
  by (rule mesh_one_vc_divides_by_zero) simp_all

end
