(* ===== verification/NetSimple.thy ===== *)
theory NetSimple
  imports NetInit
begin

text \<open>
  The simple network of \<^verbatim>\<open>src/src/network_simple.cc\<close>: in a cycle each source hands at most two
  packets over to their destinations, and each destination accepts at most two.
\<close>

definition simple_inv :: "net \<Rightarrow> bool" where
  "simple_inv n \<longleftrightarrow> length (nt_routers n) = nt_num_router n \<and> nt_num_router n \<noteq> 0 \<and>
     (\<forall>r<nt_num_router n. (\<forall>a\<in>set (rt_injection_buffer (nt_routers n ! r)). 0 \<le> mr_msg_dst (nt_reqs n a) \<and> mr_msg_dst (nt_reqs n a) < int (nt_num_router n)) \<and>
       (\<forall>a\<in>set (rt_req_buffer (nt_routers n ! r)). mr_msg_dst (nt_reqs n a) = int r))"

lemma simple_invD:
  assumes "simple_inv n"
  shows "length (nt_routers n) = nt_num_router n" "nt_num_router n \<noteq> 0"
    "r < nt_num_router n \<Longrightarrow> a \<in> set (rt_injection_buffer (nt_routers n ! r)) \<Longrightarrow> 0 \<le> mr_msg_dst (nt_reqs n a) \<and> mr_msg_dst (nt_reqs n a) < int (nt_num_router n)"
    "r < nt_num_router n \<Longrightarrow> a \<in> set (rt_req_buffer (nt_routers n ! r)) \<Longrightarrow> mr_msg_dst (nt_reqs n a) = int r"
  using assms by (simp_all add: simple_inv_def)

text \<open>What one router's turn does to the others: requests are appended to their buffers and counted.\<close>

definition served :: "net \<Rightarrow> net \<Rightarrow> bool" where
  "served n n' \<longleftrightarrow> nt_num_router n' = nt_num_router n \<and> nt_reqs n' = nt_reqs n \<and> length (nt_routers n') = length (nt_routers n) \<and>
     (\<forall>a<length (nt_routers n). \<exists>new. rt_req_buffer (nt_routers n' ! a) = rt_req_buffer (nt_routers n ! a) @ new \<and>
       rt_packet_inserted (nt_routers n' ! a) = rt_packet_inserted (nt_routers n ! a) + int (length new) \<and>
       (rt_packet_inserted (nt_routers n ! a) \<le> 2 \<longrightarrow> rt_packet_inserted (nt_routers n' ! a) \<le> 2))"

lemma served_refl: "served n n"
  by (simp add: served_def)

lemma served_trans:
  assumes 1: "served a b" and 2: "served b c" shows "served a c"
  unfolding served_def
proof (intro conjI allI impI)
  show "nt_num_router c = nt_num_router a" "nt_reqs c = nt_reqs a" "length (nt_routers c) = length (nt_routers a)"
    using assms by (simp_all add: served_def)
  fix r
  assume r: "r < length (nt_routers a)"
  then have r': "r < length (nt_routers b)" using 1 by (simp add: served_def)
  from 1 r obtain x where x: "rt_req_buffer (nt_routers b ! r) = rt_req_buffer (nt_routers a ! r) @ x"
    "rt_packet_inserted (nt_routers b ! r) = rt_packet_inserted (nt_routers a ! r) + int (length x)"
    "rt_packet_inserted (nt_routers a ! r) \<le> 2 \<longrightarrow> rt_packet_inserted (nt_routers b ! r) \<le> 2" unfolding served_def by blast
  from 2 r' obtain y where y: "rt_req_buffer (nt_routers c ! r) = rt_req_buffer (nt_routers b ! r) @ y"
    "rt_packet_inserted (nt_routers c ! r) = rt_packet_inserted (nt_routers b ! r) + int (length y)"
    "rt_packet_inserted (nt_routers b ! r) \<le> 2 \<longrightarrow> rt_packet_inserted (nt_routers c ! r) \<le> 2" unfolding served_def by blast
  show "\<exists>new. rt_req_buffer (nt_routers c ! r) = rt_req_buffer (nt_routers a ! r) @ new \<and>
      rt_packet_inserted (nt_routers c ! r) = rt_packet_inserted (nt_routers a ! r) + int (length new) \<and>
      (rt_packet_inserted (nt_routers a ! r) \<le> 2 \<longrightarrow> rt_packet_inserted (nt_routers c ! r) \<le> 2)"
    by (rule exI[of _ "x @ y"]) (use x y in simp)
qed

lemma process_loop_spec:
  assumes "length (nt_routers n) = nt_num_router n" "\<forall>a\<in>set reqs. 0 \<le> mr_msg_dst (nt_reqs n a) \<and> mr_msg_dst (nt_reqs n a) < int (nt_num_router n)" "c \<le> 2"
    "\<forall>r<nt_num_router n. \<forall>a\<in>set (rt_req_buffer (nt_routers n ! r)). mr_msg_dst (nt_reqs n a) = int r"
  shows "\<exists>kept' n'. process_loop r reqs c kept n = Inr (kept', n') \<and> served n n' \<and> set kept' \<subseteq> set kept \<union> set reqs \<and>
    packets n' + mset kept' = packets n + mset kept + mset reqs \<and>
    (\<forall>r<nt_num_router n. rt_injection_buffer (nt_routers n' ! r) = rt_injection_buffer (nt_routers n ! r)) \<and>
    (\<forall>r<nt_num_router n. \<forall>a\<in>set (rt_req_buffer (nt_routers n' ! r)). mr_msg_dst (nt_reqs n a) = int r) \<and>
    length kept + length reqs \<le> length kept' + (2 - c)"
  using assms
proof (induction reqs arbitrary: c kept n)
  case Nil
  then show ?case by (simp add: served_refl)
next
  case (Cons req reqs)
  let ?q = "mr_msg_dst (nt_reqs n req)"
  let ?d = "nat ?q"
  have d: "?d < nt_num_router n" "int ?d = ?q" "0 \<le> ?q" using Cons.prems(2) by auto
  let ?rt = "nt_routers n ! ?d"
  consider (stop) "2 \<le> c" | (send) "c < 2" "rt_packet_inserted ?rt < 2" | (skip) "c < 2" "\<not> rt_packet_inserted ?rt < 2" by linarith
  then show ?case
  proof cases
    case stop
    then show ?thesis using Cons.prems by (simp add: served_refl)
  next
    case send
    let ?rt' = "?rt\<lparr>rt_req_buffer := rt_req_buffer ?rt @ [req], rt_packet_inserted := rt_packet_inserted ?rt + 1\<rparr>"
    let ?n = "upd_rt ?d (\<lambda>d. d\<lparr>rt_req_buffer := rt_req_buffer d @ [req], rt_packet_inserted := rt_packet_inserted d + 1\<rparr>) n"
    have n: "nt_routers ?n = (nt_routers n)[?d := ?rt']" "nt_num_router ?n = nt_num_router n" "nt_reqs ?n = nt_reqs n" by (simp_all add: upd_rt_def)
    have step: "process_loop r (req # reqs) c kept n = process_loop r reqs (c + 1) kept ?n"
      using send d Cons.prems(1) by (simp add: Let_def arr_get_def)
    have nth: "nt_routers ?n ! a = (if a = ?d then ?rt' else nt_routers n ! a)" if "a < nt_num_router n" for a
      using that d Cons.prems(1) by (simp add: n)
    have sv: "served n ?n" unfolding served_def
    proof (intro conjI allI impI)
      fix a
      assume "a < length (nt_routers n)"
      then show "\<exists>new. rt_req_buffer (nt_routers ?n ! a) = rt_req_buffer (nt_routers n ! a) @ new \<and>
          rt_packet_inserted (nt_routers ?n ! a) = rt_packet_inserted (nt_routers n ! a) + int (length new) \<and>
          (rt_packet_inserted (nt_routers n ! a) \<le> 2 \<longrightarrow> rt_packet_inserted (nt_routers ?n ! a) \<le> 2)"
        using nth[of a] send Cons.prems(1) by (intro exI[of _ "if a = ?d then [req] else []"]) simp
    qed (simp_all add: n)
    have "packets ?n + rt_packets ?rt = packets n + rt_packets ?rt'" by (rule packets_upd[OF n(1)]) (use d Cons.prems(1) in simp)
    then have pk: "packets ?n = add_mset req (packets n)" by (simp add: rt_packets_def)
    have inj: "rt_injection_buffer (nt_routers ?n ! a) = rt_injection_buffer (nt_routers n ! a)" if "a < nt_num_router n" for a
      using nth[OF that] by simp
    have buf: "\<forall>r<nt_num_router ?n. \<forall>a\<in>set (rt_req_buffer (nt_routers ?n ! r)). mr_msg_dst (nt_reqs ?n a) = int r"
      unfolding n(2,3)
    proof (intro allI impI ballI)
      fix a x
      assume a: "a < nt_num_router n" and x: "x \<in> set (rt_req_buffer (nt_routers ?n ! a))"
      show "mr_msg_dst (nt_reqs n x) = int a"
      proof (cases "a = ?d")
        case True
        then have "x \<in> set (rt_req_buffer ?rt) \<or> x = req" using x nth[OF a] by auto
        then show ?thesis using Cons.prems(4) d(1,2) True by metis
      next
        case False
        then show ?thesis using Cons.prems(4) x nth[OF a] a by simp
      qed
    qed
    from Cons.IH[OF _ _ _ buf, of "c + 1" kept] Cons.prems send obtain kept' n' where
      h: "process_loop r reqs (c + 1) kept ?n = Inr (kept', n')" "served ?n n'" "set kept' \<subseteq> set kept \<union> set reqs"
        "packets n' + mset kept' = packets ?n + mset kept + mset reqs"
        "\<forall>r<nt_num_router n. rt_injection_buffer (nt_routers n' ! r) = rt_injection_buffer (nt_routers ?n ! r)"
        "\<forall>r<nt_num_router n. \<forall>a\<in>set (rt_req_buffer (nt_routers n' ! r)). mr_msg_dst (nt_reqs n a) = int r"
        "length kept + length reqs \<le> length kept' + (2 - (c + 1))"
      unfolding n(2,3) by (auto simp add: n(1))
    show ?thesis unfolding step h(1)
      by (intro exI[of _ kept'] exI[of _ n'] conjI refl served_trans[OF sv h(2)] h(6)) (use h(3,4,5,7) pk inj send in auto)
  next
    case skip
    have step: "process_loop r (req # reqs) c kept n = process_loop r reqs c (kept @ [req]) n"
      using skip d Cons.prems(1) by (simp add: Let_def arr_get_def)
    show ?thesis using Cons.IH[of n c "kept @ [req]"] Cons.prems unfolding step by auto
  qed
qed

lemma process_spec:
  assumes inv: "simple_inv n" and r: "r < nt_num_router n"
  shows "\<exists>n'. process r n = Inr n' \<and> simple_inv n' \<and> packets n' = packets n \<and> served n n' \<and>
    length (rt_injection_buffer (nt_routers n ! r)) \<le> length (rt_injection_buffer (nt_routers n' ! r)) + 2"
proof -
  note I = simple_invD[OF inv]
  let ?rt = "nt_routers n ! r"
  from process_loop_spec[of n "rt_injection_buffer ?rt" 0 r "[]"] I r obtain kept m where
    m: "process_loop r (rt_injection_buffer ?rt) 0 [] n = Inr (kept, m)" "served n m" "set kept \<subseteq> set (rt_injection_buffer ?rt)"
      "packets m + mset kept = packets n + mset (rt_injection_buffer ?rt)"
      "\<forall>r<nt_num_router n. rt_injection_buffer (nt_routers m ! r) = rt_injection_buffer (nt_routers n ! r)"
      "\<forall>r<nt_num_router n. \<forall>a\<in>set (rt_req_buffer (nt_routers m ! r)). mr_msg_dst (nt_reqs n a) = int r"
      "length (rt_injection_buffer ?rt) \<le> length kept + 2" by auto
  have M: "nt_num_router m = nt_num_router n" "length (nt_routers m) = nt_num_router n" "nt_reqs m = nt_reqs n"
    using m(2) I(1) by (simp_all add: served_def)
  let ?n = "upd_rt r (\<lambda>rt. rt\<lparr>rt_injection_buffer := kept\<rparr>) m"
  have n: "nt_routers ?n = (nt_routers m)[r := (nt_routers m ! r)\<lparr>rt_injection_buffer := kept\<rparr>]" "nt_num_router ?n = nt_num_router n" "nt_reqs ?n = nt_reqs n"
    by (simp_all add: upd_rt_def M)
  have nth: "nt_routers ?n ! a = (if a = r then (nt_routers m ! r)\<lparr>rt_injection_buffer := kept\<rparr> else nt_routers m ! a)" if "a < nt_num_router n" for a
    using that r M by (simp add: n)
  have "simple_inv ?n" unfolding simple_inv_def
    using I m(3,5,6) r M by (auto simp add: n(2,3) nth) (simp add: n(1))
  moreover have "served m ?n" using M by (simp add: served_def nth) (simp add: n)
  moreover have "packets ?n + rt_packets (nt_routers m ! r) = packets m + rt_packets ((nt_routers m ! r)\<lparr>rt_injection_buffer := kept\<rparr>)"
    by (rule packets_upd[OF n(1)]) (use r M in simp)
  then have "packets ?n + mset (rt_injection_buffer ?rt) = packets m + mset kept" using m(5) r by (simp add: rt_packets_def)
  then have "packets ?n = packets n" using m(4) by simp
  moreover have "process r n = Inr ?n" using m(1) by (simp add: process_def)
  ultimately show ?thesis using served_trans[OF m(2)] m(7) nth[OF r] by auto
qed

text \<open>C27. A cycle of the simple network: it raises no error, no request is lost or duplicated, every
  request that is handed over reaches the router it is addressed to, behind those that arrived before, and no
  router accepts more than two.\<close>

theorem simple_cycle_conserves:
  assumes inv: "simple_inv n"
  shows "\<exists>n'. net_simple_run_a_cycle cycle n = Inr n' \<and> simple_inv n' \<and> packets n' = packets n \<and>
    (\<forall>r<nt_num_router n. \<exists>new. rt_req_buffer (nt_routers n' ! r) = rt_req_buffer (nt_routers n ! r) @ new \<and> length new \<le> 2)"
proof -
  let ?N = "nt_num_router n" and ?n0 = "n\<lparr>nt_routers := map (\<lambda>rt. rt\<lparr>rt_packet_inserted := 0\<rparr>) (nt_routers n)\<rparr>"
  note I = simple_invD[OF inv]
  have inv0: "simple_inv ?n0" using inv by (simp add: simple_inv_def)
  have "rt_packets (rt\<lparr>rt_packet_inserted := 0\<rparr>) = rt_packets rt" for rt by (simp add: rt_packets_def)
  then have pk0: "packets ?n0 = packets n" by (simp add: packets_def comp_def)
  let ?i = "unat (cycle mod of_nat ?N)"
  have "\<exists>n'. fold_res (\<lambda>ii. process (ii mod ?N)) [?i..<?i + ?N] ?n0 = Inr n' \<and> simple_inv n' \<and> packets n' = packets n \<and> served ?n0 n'"
  proof (rule fold_res_inv)
    show "simple_inv ?n0 \<and> packets ?n0 = packets n \<and> served ?n0 ?n0" using inv0 pk0 served_refl by blast
    fix ii s
    assume s: "simple_inv s \<and> packets s = packets n \<and> served ?n0 s"
    then have "nt_num_router s = ?N" by (simp add: served_def)
    then show "\<exists>s'. process (ii mod ?N) s = Inr s' \<and> simple_inv s' \<and> packets s' = packets n \<and> served ?n0 s'"
      using process_spec[of s "ii mod ?N"] s I(2) by (auto intro: served_trans)
  qed
  then obtain m where m: "fold_res (\<lambda>ii. process (ii mod ?N)) [?i..<?i + ?N] ?n0 = Inr m" "simple_inv m" "packets m = packets n" "served ?n0 m" by blast
  let ?n = "m\<lparr>nt_cycle := nt_cycle m + 1\<rparr>"
  have "\<exists>new. rt_req_buffer (nt_routers ?n ! r) = rt_req_buffer (nt_routers n ! r) @ new \<and> length new \<le> 2" if "r < ?N" for r
    using m(4) that I(1) by (auto simp add: served_def)
  moreover have "net_simple_run_a_cycle cycle n = Inr ?n" using m(1) I(2) by (simp add: net_simple_run_a_cycle_def Let_def)
  moreover have "simple_inv ?n" "packets ?n = packets n" using m(2,3) by (simp_all add: simple_inv_def packets_def)
  ultimately show ?thesis by blast
qed

text \<open>Three requests for the same destination: two are delivered.\<close>

definition simple_wit :: net where
  "simple_wit = (let rt = router_c \<lparr>KNOB_NUM_VC = 1, KNOB_LINK_LATENCY = 1, KNOB_ARBITRATION_POLICY = OLDEST_FIRST, KNOB_LINK_WIDTH = 32,
       KNOB_IDEAL_NOC = False, KNOB_IDEAL_NOC_LATENCY = 5, KNOB_NOC_DIMENSION = 1\<rparr> 0 0 0 1
     in \<lparr>nt_routers = [rt\<lparr>rt_injection_buffer := [7, 8, 9]\<rparr>, rt], nt_num_router = 2, nt_router_map = (\<lambda>_. 0),
         nt_reqs = (\<lambda>_. clear_req\<lparr>mr_msg_dst := 1\<rparr>), nt_total_packet = 0, nt_total_cpu_packet = 0, nt_total_gpu_packet = 0, nt_cycle = 0\<rparr>)"

theorem simple_cycle_conserves_witness:
  "simple_inv simple_wit \<and> (\<exists>n'. net_simple_run_a_cycle 4 simple_wit = Inr n' \<and> packets n' = packets simple_wit)"
proof -
  have "simple_inv simple_wit" by (simp add: simple_inv_def simple_wit_def router_c_def Let_def less_2_cases_iff all_conj_distrib nth_Cons split: nat.split)
  then show ?thesis using simple_cycle_conserves[of simple_wit 4] by blast
qed

end
