(* ===== verification/Spec2Isabelle.thy ===== *)
theory Spec2Isabelle
  imports Utils PQueue Cache BranchPred Mmu Rob Resource Port Allocate DepMap MemOps DramCycle NetRun NetRoute NetSimple
begin

text \<open>
  MacSim: a verification library for the core of the simulator.

  \<^bold>\<open>The program.\<close> MacSim is a cycle-level timing simulator for CPUs and GPUs, driven by instruction traces
  (\<^verbatim>\<open>src/src\<close>). A core fetches uops from a trace (frontend), renames them against the register and store
  maps, allocates them into the reorder buffer and the scheduler queues, executes and retires them; loads and
  stores go through the TLB and the MMU, the caches, the interconnection network and the memory controllers. All
  components are called once per simulated cycle by \<^verbatim>\<open>macsim_c::run_a_cycle\<close>; their state is
  private to the process, and every latency is a comparison of a stored cycle number with the current one.

  \<^bold>\<open>Conventions.\<close> A class is a record, an operation is a function from the state to the new state, and
  an operation that can fail (assertion, index outside an array, null pointer, empty container, division by zero)
  returns a value of type \<open>'a res\<close>, whose left values are the errors of \<open>Prelude\<close>. Machine integers are words
  where the width matters (addresses, cycle counters, 32-bit fields) and unbounded where the program keeps them
  small. Pointers are addresses into explicit stores, except where the model says why a value may stand for them.
  Pools and allocators appear where the program's behaviour depends on them. The knobs an operation reads are a
  record, or arguments. What is not under \<^verbatim>\<open>src/\<close> or is not modelled is an argument.

  \<^bold>\<open>Theories and sources.\<close>
  \<^item> \<open>Prelude\<close>: errors, the monad of results, folds with errors, lemmas on lists, words and arrays.
  \<^item> \<open>Utils\<close> (\<^verbatim>\<open>utils.h\<close>, \<^verbatim>\<open>utils.cc\<close>): bit scans, \<^verbatim>\<open>pool_c\<close>, \<^verbatim>\<open>hash_c\<close> (look-up
    after insert and delete, all entries returned to the pool) and \<^verbatim>\<open>multi_key_map_c\<close>.
  \<^item> \<open>PQueue\<close> (\<^verbatim>\<open>pqueue.h\<close>): the latency queue between pipeline stages; exact latency, priority order,
    invariant and safety of every operation.
  \<^item> \<open>Cache\<close> (\<^verbatim>\<open>cache.cc\<close>): the set-associative cache with its replacement and partitioning
    policies, as a refinement of a map from lines to data; victims, isolation, address decomposition.
  \<^item> \<open>BranchPred\<close> (\<^verbatim>\<open>bp_gshare.cc\<close>, \<^verbatim>\<open>bp_targ.cc\<close>): direction predictor and target buffer.
  \<^item> \<open>LruList\<close>, \<open>Tlb\<close>, \<open>Replacement\<close>, \<open>Mmu\<close> (\<^verbatim>\<open>tlb.cc\<close>, \<^verbatim>\<open>mmu.cc\<close>): a locale for a doubly linked
    recency list over an explicit store, interpreted for the TLB and for the replacement unit, and the
    MMU with page faults and eviction: refinement of bounded recency lists (for the replacement unit together
    with the set of victims its table never forgets), exclusive frames, and the uops that a resolved fault retries.
  \<^item> \<open>HmcTypes\<close>, \<open>Uop\<close>, \<open>MemReq\<close>: the data types that the components share.
  \<^item> \<open>Rob\<close> (\<^verbatim>\<open>rob.cc\<close>, \<^verbatim>\<open>fence.h\<close>): the reorder buffer as a bounded queue over any history
    of pushes and pops (the locale \<open>in_order_buffer\<close>), fence ordering.
  \<^item> \<open>Resource\<close>, \<open>Port\<close> (\<^verbatim>\<open>resource.cc\<close>, \<^verbatim>\<open>port.cc\<close>): resource counters (which sequences
    of allocations and releases run, and the counts they leave) and the bandwidth of the ports.
  \<^item> \<open>Allocate\<close> (\<^verbatim>\<open>allocate.cc\<close>): the allocation stage, which moves uops from the frontend queue into the
    reorder buffer and an allocation queue and takes their resources: the composition of
    \<open>PQueue\<close>, \<open>Rob\<close> and \<open>Resource\<close>.
  \<^item> \<open>Frontend\<close> (\<^verbatim>\<open>frontend.cc\<close>): which threads wait for loads and branches.
  \<^item> \<open>SmcRob\<close> (\<^verbatim>\<open>rob_smc.cc\<close>): the reorder buffers of the threads of a GPU core.
  \<^item> \<open>CoreCache\<close> (\<^verbatim>\<open>sw_managed_cache.cc\<close>, \<^verbatim>\<open>readonly_cache.cc\<close>): the shared memory and the constant and
    texture caches of a core, and the interface \<open>mem_ops\<close> of the memory system.
  \<^item> \<open>Exec\<close>, \<open>ExecInv\<close> (\<^verbatim>\<open>exec.cc\<close>): the execution stage and what it keeps, for any memory system that
    satisfies \<open>memory_contract\<close> (for the uops of its cores it returns, and changes only fields of the memory access).
  \<^item> \<open>Schedule\<close>, \<open>SchedInv\<close>, \<open>SchedCycle\<close> (\<^verbatim>\<open>schedule.cc\<close>, \<^verbatim>\<open>schedule_ooo.cc\<close>, \<^verbatim>\<open>schedule_io.cc\<close>): the
    schedulers of CPU cores, which compose \<open>PQueue\<close>, \<open>Rob\<close> and \<open>Exec\<close>: a cycle is safe, it issues the
    entries that a reference pass over the window (\<open>try_issue\<close>) executes, the window changes by exactly these
    and the entries moved off the allocation queues, and a uop executes only when it is ready.
  \<^item> \<open>ListSort\<close>, \<open>Memory\<close>, \<open>MemUnit\<close>, \<open>MemInv\<close>, \<open>MemOps\<close> (\<^verbatim>\<open>memory.h\<close>, \<^verbatim>\<open>memory.cc\<close>): the memory hierarchy.
    \<open>Memory\<close> holds the queues, the units, the MSHRs and the completion of requests, \<open>MemUnit\<close> the access of a uop, the four
    queues of a unit, the cycle, the invalidation and the seven topologies; \<open>MemInv\<close> the order of the queues, the MSHRs
    (no demand request is lost) and the paths on which the code loses or duplicates requests; \<open>MemOps\<close> composes the hierarchy with
    the execution stage and the scheduler: it satisfies \<open>memory_contract\<close>, so a cycle of the scheduler on it is safe.
  \<^item> \<open>DepMap\<close> (\<^verbatim>\<open>map.cc\<close>): register and memory dependences of the uops of a thread.
  \<^item> \<open>Dram\<close>, \<open>DramInv\<close>, \<open>DramCycle\<close> (\<^verbatim>\<open>dram_ctrl.cc\<close>): the memory controllers. \<open>Dram\<close> holds the
    definitions, \<open>DramInv\<close> the invariant and the locale of a scheduling policy, interpreted for FCFS and
    FR-FCFS, \<open>DramCycle\<close> the whole cycle: no request is lost or duplicated.
  \<^item> \<open>Network\<close>, \<open>NetInv\<close>, \<open>NetStep\<close>, \<open>NetCycle\<close>, \<open>NetInit\<close>, \<open>NetRun\<close>, \<open>NetRoute\<close>, \<open>NetSimple\<close>
    (\<^verbatim>\<open>network.cc\<close>, \<^verbatim>\<open>network_ring.cc\<close>, \<^verbatim>\<open>network_mesh.cc\<close>, \<^verbatim>\<open>network_simple.cc\<close>): the
    interconnection network. \<open>Network\<close> holds the definitions; \<open>NetInv\<close> the invariant (packets stay together on
    a virtual channel, credits account for the flits buffered downstream, an output channel has one owner) and
    the locale of a topology, interpreted for the ring and the mesh; \<open>NetStep\<close> and \<open>NetCycle\<close> show that every
    stage keeps it; \<open>NetInit\<close> that the networks built by \<^verbatim>\<open>init\<close> satisfy it; \<open>NetRun\<close> the step relation
    of sends, receives and cycles and the safety of its runs; \<open>NetRoute\<close> the routes; \<open>NetSimple\<close> the
    simple network.

  \<^bold>\<open>Loops and fuel.\<close> Loops over containers are structural recursion or folds. The loop that drains the data bus
  of a memory channel has the number of its banks plus one as fuel, and \<open>DramCycle\<close> proves that it never runs
  out. The loop that fills the scheduling window has the number of entries of the allocation queue as fuel, which
  \<open>SchedCycle\<close> proves enough; the loop of the in-order scheduler the number of uops in the scheduler
  (\<open>SchedInv\<close>: more fuel makes no difference). The completion callbacks of merged requests (\<open>call_done\<close>) have the number of
  allocated requests as fuel, and the loop that invalidates a page (\<open>inval_loop\<close>) the bytes that are left, which
  \<open>MemInv\<close> proves enough for lines of positive size; running out is the error \<open>Diverges\<close>. The other loops whose end depends on the state are functions with a termination proof.

  \<^bold>\<open>Not modelled.\<close> The trace readers and generators and the frontend (they read compressed trace files and are
  mostly tables of opcodes), the statistics, knob and debugging frameworks (output only), the drivers of external
  memory simulators (\<^verbatim>\<open>dram_dramsim\<close>, \<^verbatim>\<open>dram_ramulator\<close> and others, which call code that is not here),
  vendored code (\<^verbatim>\<open>manifold\<close>, \<^verbatim>\<open>orion\<close>, \<^verbatim>\<open>ramulator\<close>), the memory encryption engine and integrity trees,
  whose functions are to be written by the students of the course, the prefetchers, the process manager, and the
  retirement stage.
\<close>

end
